(* ===== verification/Prelude.thy ===== *)
theory Prelude
  imports
    "HOL-Library.Word"
    "HOL-Library.AList"
    "HOL-Library.Product_Lexorder"
    "HOL-Library.List_Lexorder"
    "HOL-Library.Option_ord"
begin

text \<open>
  Shared vocabulary of the development.  It holds what the Rust sources take from the language and
  its standard library: machine integers, calls that can fail or abort, byte slices and big-endian
  fields, the hash maps, ordered maps and ordered sets of \<open>std::collections\<close>, and the one
  idiom that several components share, a table whose entries carry a deadline and which is reclaimed
  through an index ordered by that deadline.
\<close>

section \<open>Collections of facts\<close>

named_theorems slice_simps
named_theorems table_simps

section \<open>Machine integers\<close>

type_synonym u8 = "8 word"
type_synonym u16 = "16 word"
type_synonym u32 = "32 word"
type_synonym bytes = "u8 list"

text \<open>A UUID of the \<open>uuid\<close> crate is its sixteen bytes, compared as bytes.\<close>

type_synonym uuid = bytes

text \<open>
  \<open>u64\<close> instants and \<open>usize\<close> counts are natural numbers; the saturating and checked
  operations of the code are written out against the largest 64-bit value.
\<close>

definition u64_max :: nat where
  "u64_max = 2 ^ 64 - 1"

definition saturating_add :: "nat \<Rightarrow> nat \<Rightarrow> nat" where
  "saturating_add a b = min (a + b) u64_max"

definition saturating_mul :: "nat \<Rightarrow> nat \<Rightarrow> nat" where
  "saturating_mul a b = min (a * b) u64_max"

definition checked_add :: "nat \<Rightarrow> nat \<Rightarrow> nat option" where
  "checked_add a b = (if a + b \<le> u64_max then Some (a + b) else None)"

definition div_ceil :: "nat \<Rightarrow> nat \<Rightarrow> nat" where
  "div_ceil a b = a div b + (if a mod b = 0 then 0 else 1)"

lemma saturating_add_le: "saturating_add a b \<le> a + b"
  by (simp add: saturating_add_def)

lemma saturating_add_le_max: "saturating_add a b \<le> u64_max"
  by (simp add: saturating_add_def)

lemma saturating_add_gt:
  "a < u64_max \<Longrightarrow> 0 < b \<Longrightarrow> a < saturating_add a b"
  by (simp add: saturating_add_def)

lemma div_ceil_le_iff:
  assumes "0 < b"
  shows "div_ceil a b \<le> n \<longleftrightarrow> a \<le> n * b"
proof -
  have eq: "a = a div b * b + a mod b" by simp
  have lt: "a mod b < b" using assms by simp
  show ?thesis
  proof (cases "a mod b = 0")
    case True
    then have "a = a div b * b" using eq by simp
    then have "a \<le> n * b \<longleftrightarrow> a div b * b \<le> n * b" by simp
    then show ?thesis using True assms by (simp add: div_ceil_def)
  next
    case False
    have "a div b < n \<longleftrightarrow> a \<le> n * b"
    proof
      assume "a div b < n"
      then have "(a div b + 1) * b \<le> n * b" by (intro mult_le_mono1) simp
      moreover have "a \<le> (a div b + 1) * b" using eq lt unfolding distrib_right by linarith
      ultimately show "a \<le> n * b" by linarith
    next
      assume *: "a \<le> n * b"
      show "a div b < n"
      proof (rule ccontr)
        assume "\<not> a div b < n"
        then have "n * b \<le> a div b * b" by (intro mult_le_mono1) simp
        then show False using * eq False by linarith
      qed
    qed
    then show ?thesis using False by (simp add: div_ceil_def Suc_le_eq)
  qed
qed

lemma div_ceil_pos: "0 < b \<Longrightarrow> 0 < a \<Longrightarrow> 0 < div_ceil a b"
  using div_ceil_le_iff [of b a 0] by linarith

lemma less_div_ceil_iff: "0 < b \<Longrightarrow> n < div_ceil a b \<longleftrightarrow> n * b < a"
  using div_ceil_le_iff [of b a n] by linarith

section \<open>Calls that fail or abort\<close>

text \<open>
  \<open>Ok\<close> and \<open>Err\<close> are the two variants of Rust's \<open>Result\<close>; \<open>Abort\<close> is a call
  that does not return: a panic (an index out of range, an \<open>expect\<close> that fails) or a loop that
  makes no progress.
\<close>

datatype ('a, 'e) outcome = Ok 'a | Err 'e | Abort

fun is_ok :: "('a, 'e) outcome \<Rightarrow> bool" where
  "is_ok (Ok _) = True"
| "is_ok _ = False"

text \<open>The \<open>?\<close> operator and \<open>map_err\<close>.\<close>

fun and_then :: "('a, 'e) outcome \<Rightarrow> ('a \<Rightarrow> ('b, 'e) outcome) \<Rightarrow> ('b, 'e) outcome" where
  "and_then (Ok x) f = f x"
| "and_then (Err e) f = Err e"
| "and_then Abort f = Abort"

fun map_err :: "'f \<Rightarrow> ('a, 'e) outcome \<Rightarrow> ('a, 'f) outcome" where
  "map_err e (Ok x) = Ok x"
| "map_err e (Err _) = Err e"
| "map_err e Abort = Abort"

fun ok_or :: "'e \<Rightarrow> 'a option \<Rightarrow> ('a, 'e) outcome" where
  "ok_or e None = Err e"
| "ok_or e (Some x) = Ok x"

lemma and_then_Ok_iff: "and_then m f = Ok y \<longleftrightarrow> (\<exists>x. m = Ok x \<and> f x = Ok y)"
  by (cases m) auto

lemma and_then_Abort_iff: "and_then m f = Abort \<longleftrightarrow> m = Abort \<or> (\<exists>x. m = Ok x \<and> f x = Abort)"
  by (cases m) auto

lemma map_err_Ok_iff [simp]: "map_err e m = Ok y \<longleftrightarrow> m = Ok y"
  by (cases m) auto

lemma map_err_Abort_iff [simp]: "map_err e m = Abort \<longleftrightarrow> m = Abort"
  by (cases m) auto

lemma ok_or_Ok_iff [simp]: "ok_or e x = Ok y \<longleftrightarrow> x = Some y"
  by (cases x) auto

lemma ok_or_not_Abort [simp]: "ok_or e x \<noteq> Abort"
  by (cases x) auto

section \<open>Byte slices\<close>

text \<open>
  Indexing and slicing panic when they leave the slice; each read passes what it read to the rest of
  the function.
\<close>

definition byte_at :: "bytes \<Rightarrow> nat \<Rightarrow> (u8 \<Rightarrow> ('a, 'e) outcome) \<Rightarrow> ('a, 'e) outcome" where
  "byte_at bs i k = (if i < length bs then k (bs ! i) else Abort)"

definition slice_at :: "bytes \<Rightarrow> nat \<Rightarrow> nat \<Rightarrow> (bytes \<Rightarrow> ('a, 'e) outcome) \<Rightarrow> ('a, 'e) outcome" where
  "slice_at bs i j k = (if i \<le> j \<and> j \<le> length bs then k (take (j - i) (drop i bs)) else Abort)"

definition slice_from :: "bytes \<Rightarrow> nat \<Rightarrow> (bytes \<Rightarrow> ('a, 'e) outcome) \<Rightarrow> ('a, 'e) outcome" where
  "slice_from bs i k = (if i \<le> length bs then k (drop i bs) else Abort)"

lemma byte_at_in [slice_simps]: "Suc i \<le> length bs \<Longrightarrow> byte_at bs i k = k (bs ! i)"
  by (simp add: byte_at_def)

lemma slice_at_in [slice_simps]:
  "i \<le> j \<Longrightarrow> j \<le> length bs \<Longrightarrow> slice_at bs i j k = k (take (j - i) (drop i bs))"
  by (simp add: slice_at_def)

lemma slice_from_in [slice_simps]: "i \<le> length bs \<Longrightarrow> slice_from bs i k = k (drop i bs)"
  by (simp add: slice_from_def)

text \<open>\<open>slice::get(i..j)\<close> and \<open>slice::get(i..)\<close>, which return \<open>None\<close> instead.\<close>

definition get_range :: "bytes \<Rightarrow> nat \<Rightarrow> nat \<Rightarrow> bytes option" where
  "get_range bs i j = (if i \<le> j \<and> j \<le> length bs then Some (take (j - i) (drop i bs)) else None)"

definition get_from :: "bytes \<Rightarrow> nat \<Rightarrow> bytes option" where
  "get_from bs i = (if i \<le> length bs then Some (drop i bs) else None)"

definition get_byte :: "bytes \<Rightarrow> nat \<Rightarrow> u8 option" where
  "get_byte bs i = (if i < length bs then Some (bs ! i) else None)"

text \<open>\<open>dst[i..i + n].copy_from_slice(src)\<close> for a source of length \<open>n\<close> inside the slice.\<close>

definition splice :: "bytes \<Rightarrow> nat \<Rightarrow> bytes \<Rightarrow> bytes" where
  "splice dst i src = take i dst @ src @ drop (i + length src) dst"

lemma length_splice [simp]: "i + length src \<le> length dst \<Longrightarrow> length (splice dst i src) = length dst"
  by (simp add: splice_def)

lemma nth_splice:
  "i + length src \<le> length dst \<Longrightarrow> n < length dst \<Longrightarrow>
   splice dst i src ! n = (if i \<le> n \<and> n < i + length src then src ! (n - i) else dst ! n)"
  by (auto simp: splice_def nth_append min_def)

lemma find_SomeD: "find P xs = Some x \<Longrightarrow> x \<in> set xs \<and> P x"
  by (auto simp: find_Some_iff)

lemma split_prefix:
  "length xs = n + m \<Longrightarrow> \<exists>ys zs. xs = ys @ zs \<and> length ys = n \<and> length zs = m"
  by (intro exI [of _ "take n xs"] exI [of _ "drop n xs"]) simp

section \<open>Big-endian fields\<close>

fun of_be :: "bytes \<Rightarrow> nat" where
  "of_be [] = 0"
| "of_be (b # bs) = unat b * 256 ^ length bs + of_be bs"

fun to_be :: "nat \<Rightarrow> nat \<Rightarrow> bytes" where
  "to_be 0 x = []"
| "to_be (Suc n) x = word_of_nat (x div 256 ^ n) # to_be n (x mod 256 ^ n)"

definition be16 :: "u8 \<Rightarrow> u8 \<Rightarrow> u16" where
  "be16 a b = word_of_nat (of_be [a, b])"

lemma unat_u8_less [simp]: "unat (b :: u8) < 256"
  using unsigned_less [of b, where ?'a = nat] by simp

lemma length_to_be [simp]: "length (to_be n x) = n"
  by (induction n arbitrary: x) auto

lemma to_be_numeral:
  "to_be (numeral k) x =
    word_of_nat (x div 256 ^ pred_numeral k) # to_be (pred_numeral k) (x mod 256 ^ pred_numeral k)"
  by (simp add: numeral_eq_Suc)

lemma of_be_less: "of_be bs < 256 ^ length bs"
proof (induction bs)
  case Nil
  then show ?case by simp
next
  case (Cons b bs)
  have "unat b * 256 ^ length bs + of_be bs < (unat b + 1) * 256 ^ length bs"
    using Cons by simp
  also have "\<dots> \<le> 256 * 256 ^ length bs"
    using unat_u8_less [of b] by (intro mult_le_mono1) linarith
  finally show ?case by simp
qed

lemma of_be_to_be: "x < 256 ^ n \<Longrightarrow> of_be (to_be n x) = x"
proof (induction n arbitrary: x)
  case 0
  then show ?case by simp
next
  case (Suc n)
  have "x div 256 ^ n < 256"
    using Suc.prems by (simp add: less_mult_imp_div_less mult.commute)
  then have "unat (word_of_nat (x div 256 ^ n) :: u8) = x div 256 ^ n"
    by (simp add: unat_of_nat)
  with Suc.IH [of "x mod 256 ^ n"] show ?case by (simp add: div_mult_mod_eq)
qed

lemma to_be_of_be: "to_be (length bs) (of_be bs) = bs"
proof (induction bs)
  case Nil
  then show ?case by simp
next
  case (Cons b bs)
  have "of_be bs < 256 ^ length bs" by (rule of_be_less)
  with Cons show ?case by simp
qed

lemma to_be_inj: "x < 256 ^ n \<Longrightarrow> y < 256 ^ n \<Longrightarrow> to_be n x = to_be n y \<Longrightarrow> x = y"
  by (metis of_be_to_be)

lemma of_be_append: "of_be (xs @ ys) = of_be xs * 256 ^ length ys + of_be ys"
  by (induction xs) (simp_all add: power_add algebra_simps)

lemma unat_be16: "unat (be16 a b) = unat a * 256 + unat b"
proof -
  have "of_be [a, b] < 65536" using of_be_less [of "[a, b]"] by simp
  then have "unat (be16 a b) = of_be [a, b]" unfolding be16_def unat_of_nat by simp
  then show ?thesis by simp
qed

section \<open>Ordered sets (BTreeSet)\<close>

text \<open>A \<open>BTreeSet\<close> is the strictly ascending list of its elements.\<close>

fun bset_insert :: "'a::linorder \<Rightarrow> 'a list \<Rightarrow> 'a list" where
  "bset_insert x [] = [x]"
| "bset_insert x (y # ys) =
     (if x < y then x # y # ys else if x = y then y # ys else y # bset_insert x ys)"

definition bset_remove :: "'a \<Rightarrow> 'a list \<Rightarrow> 'a list" where
  "bset_remove x xs = filter (\<lambda>y. y \<noteq> x) xs"

fun bset_first :: "'a list \<Rightarrow> 'a option" where
  "bset_first [] = None"
| "bset_first (x # xs) = Some x"

abbreviation ascending :: "'a::linorder list \<Rightarrow> bool" where
  "ascending \<equiv> sorted_wrt (<)"

lemma set_bset_insert [simp]: "set (bset_insert x xs) = insert x (set xs)"
  by (induction xs) auto

lemma ascending_bset_insert [simp]: "ascending xs \<Longrightarrow> ascending (bset_insert x xs)"
  by (induction xs) (auto simp: not_less_iff_gr_or_eq)

lemma set_bset_remove [simp]: "set (bset_remove x xs) = set xs - {x}"
  by (auto simp: bset_remove_def)

lemma ascending_bset_remove [simp]: "ascending xs \<Longrightarrow> ascending (bset_remove x xs)"
  by (simp add: bset_remove_def sorted_wrt_filter)

lemma bset_first_None [simp]: "bset_first xs = None \<longleftrightarrow> xs = []"
  by (cases xs) auto

lemma bset_first_in: "bset_first xs = Some x \<Longrightarrow> x \<in> set xs"
  by (cases xs) auto

lemma bset_first_least: "ascending xs \<Longrightarrow> bset_first xs = Some x \<Longrightarrow> y \<in> set xs \<Longrightarrow> x \<le> y"
  by (cases xs) auto

lemma ascending_distinct: "ascending xs \<Longrightarrow> distinct xs"
  by (induction xs) auto

lemma ascending_set_eq:
  "ascending xs \<Longrightarrow> ascending ys \<Longrightarrow> set xs = set ys \<Longrightarrow> xs = (ys :: 'a::linorder list)"
  by (simp add: strict_sorted_equal)

section \<open>Hash maps and ordered maps\<close>

text \<open>
  A \<open>HashMap\<close> is an association list with distinct keys: the code only looks keys up, inserts,
  removes and counts, so its unspecified iteration order is never observed.  A \<open>BTreeMap\<close> is
  an association list whose keys ascend.
\<close>

abbreviation hm_get :: "('k \<times> 'v) list \<Rightarrow> 'k \<Rightarrow> 'v option" where
  "hm_get \<equiv> map_of"

abbreviation hm_insert :: "'k \<Rightarrow> 'v \<Rightarrow> ('k \<times> 'v) list \<Rightarrow> ('k \<times> 'v) list" where
  "hm_insert \<equiv> AList.update"

abbreviation hm_remove :: "'k \<Rightarrow> ('k \<times> 'v) list \<Rightarrow> ('k \<times> 'v) list" where
  "hm_remove \<equiv> AList.delete"

definition hm_ok :: "('k \<times> 'v) list \<Rightarrow> bool" where
  "hm_ok m \<longleftrightarrow> distinct (map fst m)"

lemma hm_ok_Nil [simp]: "hm_ok []"
  by (simp add: hm_ok_def)

lemma hm_ok_insert [simp]: "hm_ok m \<Longrightarrow> hm_ok (hm_insert k v m)"
  by (simp add: hm_ok_def distinct_update)

lemma hm_ok_remove [simp]: "hm_ok m \<Longrightarrow> hm_ok (hm_remove k m)"
  by (simp add: hm_ok_def distinct_delete)

lemma hm_get_insert [table_simps]:
  "hm_get (hm_insert k v m) k' = (if k' = k then Some v else hm_get m k')"
  by (simp add: update_conv')

lemma hm_get_remove [table_simps]:
  "hm_get (hm_remove k m) k' = (if k' = k then None else hm_get m k')"
  by (simp add: delete_conv')

lemma hm_get_None_length:
  "hm_get m k = None \<Longrightarrow> length (hm_insert k v m) = Suc (length m)"
  by (induction m) (auto split: if_splits)

lemma hm_get_Some_length:
  "hm_get m k = Some w \<Longrightarrow> length (hm_insert k v m) = length m"
  by (induction m) (auto split: if_splits)

lemma hm_insert_length_le: "length (hm_insert k v m) \<le> Suc (length m)"
  by (cases "hm_get m k") (simp_all add: hm_get_None_length hm_get_Some_length)

lemma hm_remove_length_le: "length (hm_remove k m) \<le> length m"
  by (rule length_delete_le)

lemma hm_remove_length_less: "hm_get m k = Some v \<Longrightarrow> length (hm_remove k m) < length m"
  by (induction m) (auto simp: le_imp_less_Suc length_delete_le split: if_splits)

lemma hm_remove_length_Suc:
  "hm_ok m \<Longrightarrow> hm_get m k = Some v \<Longrightarrow> Suc (length (hm_remove k m)) = length m"
proof (induction m)
  case Nil
  then show ?case by simp
next
  case (Cons p m)
  show ?case
  proof (cases "fst p = k")
    case True
    then have "k \<notin> fst ` set m" using Cons.prems by (auto simp: hm_ok_def)
    then have "hm_remove k m = m" by (rule delete_id)
    then show ?thesis using True by (cases p) simp
  next
    case False
    then show ?thesis using Cons by (cases p) (auto simp: hm_ok_def)
  qed
qed

lemma hm_remove_absent: "hm_get m k = None \<Longrightarrow> hm_remove k m = m"
  by (induction m) (auto split: if_splits)

lemma hm_get_Some_mem: "hm_ok m \<Longrightarrow> hm_get m k = Some v \<longleftrightarrow> (k, v) \<in> set m"
  by (simp add: hm_ok_def)

text \<open>Totals over a table, kept by the code in running counters.\<close>

abbreviation hm_sum :: "('k \<times> 'v \<Rightarrow> nat) \<Rightarrow> ('k \<times> 'v) list \<Rightarrow> nat" where
  "hm_sum f m \<equiv> sum_list (map f m)"

lemma hm_sum_remove:
  "hm_ok m \<Longrightarrow> hm_get m k = Some v \<Longrightarrow> hm_sum f (hm_remove k m) + f (k, v) = hm_sum f m"
proof (induction m)
  case Nil
  then show ?case by simp
next
  case (Cons p m)
  show ?case
  proof (cases "fst p = k")
    case True
    then have "k \<notin> fst ` set m" using Cons.prems by (auto simp: hm_ok_def)
    then have "hm_remove k m = m" by (rule delete_id)
    then show ?thesis using True Cons.prems by (cases p) simp
  next
    case False
    then show ?thesis using Cons by (cases p) (auto simp: hm_ok_def)
  qed
qed

lemma hm_sum_insert_new:
  "hm_get m k = None \<Longrightarrow> hm_sum f (hm_insert k v m) = hm_sum f m + f (k, v)"
  by (induction m) (auto split: if_splits)

lemma hm_sum_insert_same:
  "hm_get m k = Some w \<Longrightarrow> hm_sum f (hm_insert k v m) + f (k, w) = hm_sum f m + f (k, v)"
  by (induction m) (auto split: if_splits)

lemma hm_sum_member: "hm_get m k = Some v \<Longrightarrow> f (k, v) \<le> hm_sum f m"
  by (induction m) (auto split: if_splits)

lemma hm_sum_mono: "(\<And>p. f p \<le> g p) \<Longrightarrow> hm_sum f m \<le> hm_sum g m"
  by (simp add: sum_list_mono)

fun bmap_insert :: "'k::linorder \<Rightarrow> 'v \<Rightarrow> ('k \<times> 'v) list \<Rightarrow> ('k \<times> 'v) list" where
  "bmap_insert k v [] = [(k, v)]"
| "bmap_insert k v ((a, b) # m) =
     (if k < a then (k, v) # (a, b) # m
      else if k = a then (k, v) # m
      else (a, b) # bmap_insert k v m)"

definition bmap_ok :: "('k::linorder \<times> 'v) list \<Rightarrow> bool" where
  "bmap_ok m \<longleftrightarrow> ascending (map fst m)"

lemma bmap_ok_Nil [simp]: "bmap_ok []"
  by (simp add: bmap_ok_def)

lemma bmap_ok_distinct: "bmap_ok m \<Longrightarrow> hm_ok m"
  by (simp add: bmap_ok_def hm_ok_def ascending_distinct)

lemma bmap_insert_keys: "fst ` set (bmap_insert k v m) = insert k (fst ` set m)"
  by (induction k v m rule: bmap_insert.induct) (auto simp: insert_commute)

lemma bmap_ok_insert [simp]: "bmap_ok m \<Longrightarrow> bmap_ok (bmap_insert k v m)"
proof (induction m)
  case Nil
  then show ?case by (simp add: bmap_ok_def)
next
  case (Cons p m)
  obtain a b where p: "p = (a, b)" by (cases p)
  have ih: "ascending (map fst (bmap_insert k v m))" using Cons by (simp add: bmap_ok_def)
  have keys: "set (map fst (bmap_insert k v m)) = insert k (set (map fst m))"
    using bmap_insert_keys [of k v m] by simp
  from Cons.prems p ih keys show ?case
    by (auto simp: bmap_ok_def not_less_iff_gr_or_eq simp del: set_map)
qed

lemma hm_get_bmap_insert [table_simps]:
  "hm_get (bmap_insert k v m) k' = (if k' = k then Some v else hm_get m k')"
  by (induction m) auto

lemma bmap_insert_set_new:
  "hm_get m k = None \<Longrightarrow> set (bmap_insert k v m) = insert (k, v) (set m)"
  by (induction m) (auto split: if_splits)

lemma bmap_insert_length_new:
  "hm_get m k = None \<Longrightarrow> length (bmap_insert k v m) = Suc (length m)"
  by (induction m) (auto split: if_splits)

lemma bmap_insert_sum_new:
  fixes f :: "'k::linorder \<times> 'v \<Rightarrow> nat"
  shows "hm_get m k = None \<Longrightarrow>
    sum_list (map f (bmap_insert k v m)) = f (k, v) + sum_list (map f m)"
  by (induction m) (auto split: if_splits)

lemma bmap_insert_sum_replace:
  fixes f :: "'k::linorder \<times> 'v \<Rightarrow> nat"
  shows "bmap_ok m \<Longrightarrow> hm_get m k = Some w \<Longrightarrow>
    sum_list (map f (bmap_insert k v m)) + f (k, w) = sum_list (map f m) + f (k, v)"
proof (induction m)
  case Nil
  then show ?case by simp
next
  case (Cons p m)
  obtain a b where p: "p = (a, b)" by (cases p)
  have "\<not> k < a"
    using Cons.prems p weak_map_of_SomeI map_of_SomeD [of m k w]
    by (auto simp: bmap_ok_def split: if_splits)
  then show ?case using Cons p by (auto simp: bmap_ok_def split: if_splits)
qed

lemma bmap_ok_remove [simp]: "bmap_ok m \<Longrightarrow> bmap_ok (hm_remove k m)"
  by (simp add: bmap_ok_def delete_keys sorted_wrt_filter removeAll_filter_not_eq)

lemma hm_get_filter_key:
  "hm_ok m \<Longrightarrow> hm_get (filter (\<lambda>(k, _). P k) m) k = (if P k then hm_get m k else None)"
  by (induction m) (auto simp: hm_ok_def map_of_eq_None_iff)

lemma bmap_ok_filter: "bmap_ok m \<Longrightarrow> bmap_ok (filter P m)"
  by (induction m) (auto simp: bmap_ok_def)

text \<open>An ordered map is determined by its lookups.\<close>

lemma bmap_eqI:
  assumes "bmap_ok m" and "bmap_ok n" and "\<And>k. hm_get m k = hm_get n k"
  shows "m = n"
proof -
  have "set m = set n"
    using assms(3) hm_get_Some_mem [OF bmap_ok_distinct [OF assms(1)]]
      hm_get_Some_mem [OF bmap_ok_distinct [OF assms(2)]] by auto
  moreover have "distinct (map fst m)" "sorted (map fst m)" "distinct (map fst n)" "sorted (map fst n)"
    using assms(1,2) by (auto simp: bmap_ok_def strict_sorted_iff)
  ultimately show ?thesis by (intro map_sorted_distinct_set_unique [of fst]) (auto simp: distinct_map)
qed

text \<open>\<open>map.entry(k).or_default().push(v)\<close>, and a table built from such pushes.\<close>

definition push_entry :: "'k::linorder \<Rightarrow> 'v \<Rightarrow> ('k \<times> 'v list) list \<Rightarrow> ('k \<times> 'v list) list" where
  "push_entry k v m = bmap_insert k ((case hm_get m k of None \<Rightarrow> [] | Some vs \<Rightarrow> vs) @ [v]) m"

lemma bmap_ok_push_entry [simp]: "bmap_ok m \<Longrightarrow> bmap_ok (push_entry k v m)"
  by (simp add: push_entry_def)

lemma hm_get_push_entries:
  "hm_get (fold (\<lambda>x. push_entry (key x) (val x)) xs m) k =
     (case map val (filter (\<lambda>x. key x = k) xs) of
        [] \<Rightarrow> hm_get m k
      | v # vs \<Rightarrow> Some ((case hm_get m k of None \<Rightarrow> [] | Some us \<Rightarrow> us) @ v # vs))"
  by (induction xs arbitrary: m)
    (auto simp: push_entry_def table_simps split: list.splits option.splits)

section \<open>Deadline indexes\<close>

text \<open>
  The firewall, the policy evaluator and the fragment reassembler keep a map next to an ordered set
  of \<open>(deadline, key)\<close> pairs.  \<open>index_ok\<close> says that the set indexes exactly the map's
  entries.
\<close>

definition index_ok :: "('v \<Rightarrow> nat) \<Rightarrow> ('k::linorder \<times> 'v) list \<Rightarrow> (nat \<times> 'k) list \<Rightarrow> bool" where
  "index_ok deadline m idx \<longleftrightarrow>
     ascending idx \<and>
     (\<forall>d k. (d, k) \<in> set idx \<longleftrightarrow> (\<exists>v. hm_get m k = Some v \<and> deadline v = d))"

lemma index_ok_Nil [simp]: "index_ok deadline [] []"
  by (simp add: index_ok_def)

lemma index_ok_ascending: "index_ok deadline m idx \<Longrightarrow> ascending idx"
  by (simp add: index_ok_def)

lemma index_ok_mem:
  "index_ok deadline m idx \<Longrightarrow> (d, k) \<in> set idx \<longleftrightarrow> (\<exists>v. hm_get m k = Some v \<and> deadline v = d)"
  by (simp add: index_ok_def)

lemma index_ok_remove:
  assumes "index_ok deadline m idx" and "hm_get m k = Some v"
  shows "index_ok deadline (hm_remove k m) (bset_remove (deadline v, k) idx)"
  using assms by (auto simp: index_ok_def table_simps)

lemma index_ok_insert_new:
  assumes "index_ok deadline m idx" and "hm_get m k = None"
  shows "index_ok deadline (hm_insert k v m) (bset_insert (deadline v, k) idx)"
  using assms by (auto simp: index_ok_def table_simps)

lemma index_ok_insert_same:
  assumes "index_ok deadline m idx" and "hm_get m k = Some w" and "deadline w = deadline v"
  shows "index_ok deadline (hm_insert k v m) idx"
  using assms by (auto simp: index_ok_def table_simps)

lemma index_ok_insert_replace:
  assumes "index_ok deadline m idx" and "hm_get m k = Some w"
  shows "index_ok deadline (hm_insert k v m)
    (bset_insert (deadline v, k) (bset_remove (deadline w, k) idx))"
  using assms by (auto simp: index_ok_def table_simps)

lemma index_ok_first:
  assumes "index_ok deadline m idx" and "bset_first idx = Some (d, k)"
  shows "\<exists>v. hm_get m k = Some v \<and> deadline v = d"
  using assms bset_first_in [OF assms(2)] by (simp add: index_ok_mem)

lemma index_ok_first_least:
  assumes "index_ok deadline m idx" and "bset_first idx = Some (d, k)" and "hm_get m k' = Some v"
  shows "d \<le> deadline v"
proof -
  have "(deadline v, k') \<in> set idx" using assms(1,3) by (simp add: index_ok_mem)
  then have "(d, k) \<le> (deadline v, k')"
    using assms(1,2) by (intro bset_first_least) (simp_all add: index_ok_ascending)
  then show ?thesis by (auto simp: less_eq_prod_def)
qed

lemma index_ok_first_None:
  assumes "index_ok deadline m idx" and "bset_first idx = None"
  shows "hm_get m k = None"
  using assms by (cases "hm_get m k") (auto simp: index_ok_def)

lemma index_ok_empty: "index_ok deadline m [] \<Longrightarrow> m = []"
  by (cases m) (auto simp: index_ok_def split: if_splits)

text \<open>
  The reclamation loop: at most \<open>budget\<close> times, look at the earliest deadline, stop if there
  is none or it lies in the future, and drop its key otherwise.
\<close>

fun sweep :: "('s \<Rightarrow> (nat \<times> 'k) option) \<Rightarrow> ('k \<Rightarrow> 's \<Rightarrow> 's) \<Rightarrow> nat \<Rightarrow> nat \<Rightarrow> 's \<Rightarrow> 's" where
  "sweep first drop_key now 0 s = s"
| "sweep first drop_key now (Suc budget) s =
     (case first s of
        None \<Rightarrow> s
      | Some (d, k) \<Rightarrow> if now < d then s else sweep first drop_key now budget (drop_key k s))"

lemma sweep_done:
  "first s = None \<or> (\<exists>d k. first s = Some (d, k) \<and> now < d) \<Longrightarrow> sweep first drop_key now budget s = s"
  by (cases budget) auto

lemma sweep_preserves:
  assumes "\<And>k s. P s \<Longrightarrow> P (drop_key k s)" and "P s"
  shows "P (sweep first drop_key now budget s)"
  using assms(2)
  by (induction budget arbitrary: s) (auto split: option.split simp: assms(1))

lemma fold_preserves:
  assumes "\<And>k s. P s \<Longrightarrow> P (f k s)" and "P s"
  shows "P (fold f ks s)"
  using assms(2) by (induction ks arbitrary: s) (auto simp: assms(1))

text \<open>
  What the loop relies on: \<open>first\<close> finds the earliest deadline of the table and
  \<open>drop_key\<close> removes exactly one key.
\<close>

locale deadline_table =
  fixes deadline_of :: "'s \<Rightarrow> 'k \<Rightarrow> nat option"
    and first :: "'s \<Rightarrow> (nat \<times> 'k) option"
    and drop_key :: "'k \<Rightarrow> 's \<Rightarrow> 's"
    and inv :: "'s \<Rightarrow> bool"
  assumes first_None: "inv s \<Longrightarrow> first s = None \<Longrightarrow> deadline_of s k = None"
    and first_Some: "inv s \<Longrightarrow> first s = Some (d, k) \<Longrightarrow> deadline_of s k = Some d"
    and first_least: "inv s \<Longrightarrow> first s = Some (d, k) \<Longrightarrow> deadline_of s k' = Some d' \<Longrightarrow> d \<le> d'"
    and deadline_drop: "inv s \<Longrightarrow>
      deadline_of (drop_key k s) k' = (if k' = k then None else deadline_of s k')"
    and inv_drop: "inv s \<Longrightarrow> inv (drop_key k s)"
begin

lemma sweep_inv: "inv s \<Longrightarrow> inv (sweep first drop_key now budget s)"
  by (induction budget arbitrary: s) (auto split: option.split simp: inv_drop)

lemma sweep_keeps_live:
  "inv s \<Longrightarrow> deadline_of s k = Some d \<Longrightarrow> now < d \<Longrightarrow>
   deadline_of (sweep first drop_key now budget s) k = Some d"
proof (induction budget arbitrary: s)
  case 0
  then show ?case by simp
next
  case (Suc budget)
  show ?case
  proof (cases "first s")
    case None
    then show ?thesis using Suc.prems by simp
  next
    case (Some e)
    obtain d' k' where e: "e = (d', k')" by (cases e)
    show ?thesis
    proof (cases "now < d'")
      case True
      then show ?thesis using Some e Suc.prems by simp
    next
      case False
      have "k \<noteq> k'" using first_Some [of s d' k'] Some e Suc.prems False by auto
      then have "deadline_of (drop_key k' s) k = Some d"
        using Suc.prems by (simp add: deadline_drop)
      then show ?thesis using Suc.IH [of "drop_key k' s"] Some e Suc.prems False
        by (simp add: inv_drop)
    qed
  qed
qed

lemma sweep_subset:
  "inv s \<Longrightarrow> deadline_of (sweep first drop_key now budget s) k = Some d \<Longrightarrow> deadline_of s k = Some d"
proof (induction budget arbitrary: s)
  case 0
  then show ?case by simp
next
  case (Suc budget)
  show ?case
  proof (cases "first s")
    case None
    then show ?thesis using Suc.prems by simp
  next
    case (Some e)
    obtain d' k' where e: "e = (d', k')" by (cases e)
    show ?thesis
    proof (cases "now < d'")
      case True
      then show ?thesis using Some e Suc.prems by simp
    next
      case False
      then have "deadline_of (drop_key k' s) k = Some d"
        using Suc.IH [of "drop_key k' s"] Some e Suc.prems by (simp add: inv_drop)
      then show ?thesis using Suc.prems by (simp add: deadline_drop split: if_splits)
    qed
  qed
qed

text \<open>With a budget of at least the number of keys, nothing due is left.\<close>

lemma sweep_complete:
  assumes "inv s" and "finite K" and "\<And>k. deadline_of s k \<noteq> None \<Longrightarrow> k \<in> K" and "card K \<le> budget"
    and "deadline_of (sweep first drop_key now budget s) k = Some d"
  shows "now < d"
  using assms
proof (induction budget arbitrary: s K)
  case 0
  then have "K = {}" by simp
  then show ?case using "0.prems"(3) [of k] "0.prems"(5) by simp
next
  case (Suc budget)
  show ?case
  proof (cases "first s")
    case None
    then show ?thesis using first_None [of s k] Suc.prems(1,5) by simp
  next
    case (Some e)
    obtain d' k' where e: "e = (d', k')" by (cases e)
    show ?thesis
    proof (cases "now < d'")
      case True
      then have "deadline_of s k = Some d" using Some e Suc.prems(5) by simp
      then show ?thesis using first_least [of s d' k' k d] Some e Suc.prems(1) True by simp
    next
      case False
      have "k' \<in> K" using first_Some [of s d' k'] Some e Suc.prems(1,3) by simp
      then have "card (K - {k'}) \<le> budget" using Suc.prems(2,4) by simp
      moreover have "j \<in> K - {k'}" if "deadline_of (drop_key k' s) j \<noteq> None" for j
        using that Suc.prems(1) Suc.prems(3) [of j] by (auto simp: deadline_drop split: if_splits)
      ultimately show ?thesis
        using Suc.IH [of "drop_key k' s" "K - {k'}"] Suc.prems Some e False
        by (simp add: inv_drop)
    qed
  qed
qed

end

end
