(* ===== verification/Packet.thy ===== *)
theory Packet
  imports Prelude
begin

text \<open>
  The strict IPv4/IPv6 parser of \<open>crates/peerward-dataplane/src/parse.rs\<close>: the packet record,
  the Internet checksum, the extension-header walk, the transport headers and the flow quoted by an
  ICMP error.  Every index and slice of the source is a read that may abort, so that
  \<open>parse_never_aborts\<close> is a theorem about the bounds checks of the code.
\<close>

unbundle bit_operations_syntax

section \<open>Addresses\<close>

text \<open>\<open>std::net::IpAddr\<close> by its octets; the derived order puts IPv4 before IPv6.\<close>

datatype ip_addr = V4 bytes | V6 bytes

fun octets :: "ip_addr \<Rightarrow> bytes" where
  "octets (V4 bs) = bs"
| "octets (V6 bs) = bs"

fun is_ipv6 :: "ip_addr \<Rightarrow> bool" where
  "is_ipv6 (V4 _) = False"
| "is_ipv6 (V6 _) = True"

fun ip_addr_ok :: "ip_addr \<Rightarrow> bool" where
  "ip_addr_ok (V4 bs) = (length bs = 4)"
| "ip_addr_ok (V6 bs) = (length bs = 16)"

fun ip_rank :: "ip_addr \<Rightarrow> nat \<times> bytes" where
  "ip_rank (V4 bs) = (0, bs)"
| "ip_rank (V6 bs) = (1, bs)"

lemma ip_rank_eq_iff [simp]: "ip_rank a = ip_rank b \<longleftrightarrow> a = b"
  by (cases a; cases b) auto

instantiation ip_addr :: linorder
begin

definition less_eq_ip_addr :: "ip_addr \<Rightarrow> ip_addr \<Rightarrow> bool" where
  "less_eq_ip_addr a b \<longleftrightarrow> ip_rank a \<le> ip_rank b"

definition less_ip_addr :: "ip_addr \<Rightarrow> ip_addr \<Rightarrow> bool" where
  "less_ip_addr a b \<longleftrightarrow> ip_rank a < ip_rank b"

instance
  by standard (auto simp: less_eq_ip_addr_def less_ip_addr_def order.strict_iff_order dest: order.antisym)

end

section \<open>Flows and packets\<close>

record flow_key =
  fk_source :: ip_addr
  fk_destination :: ip_addr
  fk_protocol :: u8
  fk_source_port :: "u16 option"
  fk_destination_port :: "u16 option"

text \<open>The derived order of \<open>FlowKey\<close> compares the fields in declaration order.\<close>

definition flow_rank :: "('a::linorder) flow_key_scheme \<Rightarrow>
    ip_addr \<times> ip_addr \<times> u8 \<times> u16 option \<times> u16 option \<times> 'a" where
  "flow_rank k = (fk_source k, fk_destination k, fk_protocol k, fk_source_port k,
     fk_destination_port k, flow_key.more k)"

lemma flow_rank_eq_iff [simp]: "flow_rank a = flow_rank b \<longleftrightarrow> a = b"
  by (auto simp: flow_rank_def intro: flow_key.equality)

instantiation flow_key_ext :: (linorder) linorder
begin

definition less_eq_flow_key_ext :: "'a flow_key_scheme \<Rightarrow> 'a flow_key_scheme \<Rightarrow> bool" where
  "less_eq_flow_key_ext a b \<longleftrightarrow> flow_rank a \<le> flow_rank b"

definition less_flow_key_ext :: "'a flow_key_scheme \<Rightarrow> 'a flow_key_scheme \<Rightarrow> bool" where
  "less_flow_key_ext a b \<longleftrightarrow> flow_rank a < flow_rank b"

instance
  by standard
    (auto simp: less_eq_flow_key_ext_def less_flow_key_ext_def order.strict_iff_order dest: order.antisym)

end

record fragment =
  fg_identification :: u32
  fg_offset :: u16
  fg_more :: bool

record parsed_packet =
  pk_source :: ip_addr
  pk_destination :: ip_addr
  pk_protocol :: u8
  pk_source_port :: "u16 option"
  pk_destination_port :: "u16 option"
  pk_tcp_flags :: "u8 option"
  pk_icmp :: "(u8 \<times> u8) option"
  pk_fragment :: "fragment option"
  pk_packet_len :: nat
  pk_related_flow :: "flow_key option"

datatype parse_error = Truncated | Malformed | Unsupported

definition TCP :: u8 where "TCP = 6"
definition UDP :: u8 where "UDP = 17"
definition ICMP_V4 :: u8 where "ICMP_V4 = 1"
definition ICMP_V6 :: u8 where "ICMP_V6 = 58"
definition TCP_FIN :: u8 where "TCP_FIN = 1"
definition TCP_SYN :: u8 where "TCP_SYN = 2"
definition TCP_RST :: u8 where "TCP_RST = 4"
definition TCP_ACK :: u8 where "TCP_ACK = 16"

lemmas protocol_numbers = TCP_def UDP_def ICMP_V4_def ICMP_V6_def

section \<open>The Internet checksum\<close>

fun checksum_words :: "u32 \<Rightarrow> bytes \<Rightarrow> u32" where
  "checksum_words acc (a # b # rest) = checksum_words (acc + ucast (be16 a b)) rest"
| "checksum_words acc [z] = acc + push_bit 8 (ucast z)"
| "checksum_words acc [] = acc"

function fold_sum :: "u32 \<Rightarrow> u32" where
  "fold_sum acc = (if 0xffff < acc then fold_sum ((acc AND 0xffff) + drop_bit 16 acc) else acc)"
  by pat_completeness auto

text \<open>Folding the carries in makes a acc above sixteen bits smaller, so the loop ends.\<close>

lemma fold_step_unat:
  "unat ((acc AND 0xffff) + drop_bit 16 (acc :: u32)) = unat acc mod 65536 + unat acc div 65536"
proof -
  have lo: "unat (acc AND 0xffff) = unat acc mod 65536"
  proof -
    have "acc AND 0xffff = take_bit 16 acc"
      by (simp add: take_bit_eq_mask mask_eq_exp_minus_1)
    then have "unat (acc AND 0xffff) = take_bit 16 (unat acc)"
      by (simp only: unsigned_take_bit_eq)
    then show ?thesis by (simp only: take_bit_eq_mod) simp
  qed
  have hi: "unat (drop_bit 16 acc) = unat acc div 65536"
  proof -
    have "unat (drop_bit 16 acc) = drop_bit 16 (unat acc)"
      by (rule unat_drop_bit_eq)
    then show ?thesis by (simp only: drop_bit_eq_div) simp
  qed
  have "unat acc < 4294967296" using unsigned_less [of acc, where ?'a = nat] by simp
  then have "unat acc mod 65536 + unat acc div 65536 < 4294967296" by (simp add: div_less_iff_less_mult)
  then show ?thesis by (simp add: unat_word_ariths lo hi)
qed

termination fold_sum
proof (relation "measure unat")
  fix acc :: u32
  assume "0xffff < acc"
  then have "65535 < unat acc" by (simp add: word_less_nat_alt)
  moreover have "unat acc = unat acc div 65536 * 65536 + unat acc mod 65536"
    by (simp only: div_mult_mod_eq)
  moreover have "unat acc mod 65536 < 65536" by simp
  ultimately have "unat acc mod 65536 + unat acc div 65536 < unat acc" by linarith
  then show "((acc AND 0xffff) + drop_bit 16 acc, acc) \<in> measure unat"
    by (simp only: in_measure fold_step_unat)
qed simp

declare fold_sum.simps [simp del]

definition internet_checksum :: "bytes \<Rightarrow> u16" where
  "internet_checksum bs = NOT (ucast (fold_sum (checksum_words 0 bs)))"

definition ipv4_checksum :: "bytes \<Rightarrow> u16" where
  "ipv4_checksum header = internet_checksum header"

definition transport_checksum_valid :: "bytes \<Rightarrow> ip_addr \<Rightarrow> ip_addr \<Rightarrow> u8 \<Rightarrow> bool" where
  "transport_checksum_valid payload source destination protocol =
     (if 2 ^ 32 \<le> length payload then False
      else let len = word_of_nat (length payload) :: u32 in
        case (source, destination) of
          (V4 s, V4 d) \<Rightarrow>
            let acc = checksum_words 0 s;
                acc = checksum_words acc d;
                acc = acc + ucast protocol;
                acc = acc + len;
                acc = checksum_words acc payload
            in fold_sum acc = 0xffff
        | (V6 s, V6 d) \<Rightarrow>
            let acc = checksum_words 0 s;
                acc = checksum_words acc d;
                acc = checksum_words acc (to_be 4 (length payload));
                acc = acc + ucast protocol;
                acc = checksum_words acc payload
            in fold_sum acc = 0xffff
        | _ \<Rightarrow> False)"

section \<open>Transport headers\<close>

text \<open>
  \<open>parse_quoted_flow\<close>: the first bytes of the packet an ICMP error quotes.  Only the IPv4
  transport bytes are looked up with \<open>get\<close>; the other reads are plain indexes under the
  length guards.
\<close>

definition parse_quoted_flow :: "bytes \<Rightarrow> (flow_key option, 'e) outcome" where
  "parse_quoted_flow bs =
     (case bs of
        [] \<Rightarrow> Ok None
      | b0 # _ \<Rightarrow>
        if drop_bit 4 b0 = 4 \<and> 24 \<le> length bs then
          (let header = unat (b0 AND 0x0f) * 4 in
           case get_range bs header (header + 4) of
             None \<Rightarrow> Ok None
           | Some transport \<Rightarrow>
             byte_at bs 9 (\<lambda>protocol.
             slice_at bs 12 16 (\<lambda>s.
             slice_at bs 16 20 (\<lambda>d.
             byte_at transport 0 (\<lambda>t0. byte_at transport 1 (\<lambda>t1.
             byte_at transport 2 (\<lambda>t2. byte_at transport 3 (\<lambda>t3.
               Ok (Some \<lparr>fk_source = V4 s, fk_destination = V4 d, fk_protocol = protocol,
                 fk_source_port = Some (be16 t0 t1),
                 fk_destination_port = Some (be16 t2 t3)\<rparr>)))))))))
        else if drop_bit 4 b0 = 6 \<and> 44 \<le> length bs then
          slice_at bs 40 44 (\<lambda>transport.
          slice_at bs 8 24 (\<lambda>s.
          slice_at bs 24 40 (\<lambda>d.
          byte_at bs 6 (\<lambda>protocol.
          byte_at transport 0 (\<lambda>t0. byte_at transport 1 (\<lambda>t1.
          byte_at transport 2 (\<lambda>t2. byte_at transport 3 (\<lambda>t3.
            Ok (Some \<lparr>fk_source = V6 s, fk_destination = V6 d, fk_protocol = protocol,
              fk_source_port = Some (be16 t0 t1),
              fk_destination_port = Some (be16 t2 t3)\<rparr>)))))))))
        else Ok None)"

definition is_echo :: "u8 \<Rightarrow> u8 \<Rightarrow> bool" where
  "is_echo protocol kind \<longleftrightarrow>
     protocol = ICMP_V4 \<and> kind \<in> {0, 8} \<or> protocol = ICMP_V6 \<and> kind \<in> {128, 129}"

definition is_icmp_error :: "u8 \<Rightarrow> u8 \<Rightarrow> bool" where
  "is_icmp_error protocol kind \<longleftrightarrow>
     protocol = ICMP_V4 \<and> kind \<in> {3, 11, 12} \<or> protocol = ICMP_V6 \<and> 1 \<le> kind \<and> kind \<le> 4"

text \<open>What the transport header contributes: both ports, the TCP flags, the ICMP type and code, and
  the quoted flow.\<close>

type_synonym transport_fields =
  "u16 option \<times> u16 option \<times> u8 option \<times> (u8 \<times> u8) option \<times> flow_key option"

definition tcp_header ::
    "bytes \<Rightarrow> ip_addr \<Rightarrow> ip_addr \<Rightarrow> bool \<Rightarrow> (transport_fields, parse_error) outcome" where
  "tcp_header payload source destination incomplete_fragment =
     (if length payload < 20 then Err Truncated
      else byte_at payload 12 (\<lambda>b12.
        let header_len = unat (drop_bit 4 b12) * 4 in
        if header_len < 20 then Err Malformed
        else if length payload < header_len then Err Truncated
        else if \<not> incomplete_fragment \<and> \<not> transport_checksum_valid payload source destination TCP
        then Err Malformed
        else
          byte_at payload 0 (\<lambda>b0. byte_at payload 1 (\<lambda>b1.
          byte_at payload 2 (\<lambda>b2. byte_at payload 3 (\<lambda>b3.
          byte_at payload 13 (\<lambda>b13.
            Ok (Some (be16 b0 b1), Some (be16 b2 b3), Some (b13 AND 0x3f), None, None)))))))) "

definition udp_header ::
    "bytes \<Rightarrow> ip_addr \<Rightarrow> ip_addr \<Rightarrow> bool \<Rightarrow> (transport_fields, parse_error) outcome" where
  "udp_header payload source destination incomplete_fragment =
     (if length payload < 8 then Err Truncated
      else
        byte_at payload 4 (\<lambda>b4. byte_at payload 5 (\<lambda>b5.
        let len = unat (be16 b4 b5) in
        if len < 8 \<or> (\<not> incomplete_fragment \<and> len \<noteq> length payload)
          \<or> (incomplete_fragment \<and> len < length payload)
        then Err Malformed
        else
          byte_at payload 6 (\<lambda>b6. byte_at payload 7 (\<lambda>b7.
          let checksum = be16 b6 b7 in
          if \<not> incomplete_fragment
            \<and> (is_ipv6 source \<and> checksum = 0
              \<or> checksum \<noteq> 0 \<and> \<not> transport_checksum_valid payload source destination UDP)
          then Err Malformed
          else
            byte_at payload 0 (\<lambda>b0. byte_at payload 1 (\<lambda>b1.
            byte_at payload 2 (\<lambda>b2. byte_at payload 3 (\<lambda>b3.
              Ok (Some (be16 b0 b1), Some (be16 b2 b3), None, None, None))))))))))"

definition icmp_header ::
    "bytes \<Rightarrow> ip_addr \<Rightarrow> ip_addr \<Rightarrow> u8 \<Rightarrow> bool \<Rightarrow> bool \<Rightarrow> (transport_fields, parse_error) outcome" where
  "icmp_header payload source destination protocol incomplete_fragment related =
     (if length payload < 8 then Err Truncated
      else if \<not> incomplete_fragment
        \<and> (if protocol = ICMP_V4 then internet_checksum payload \<noteq> 0
           else \<not> transport_checksum_valid payload source destination ICMP_V6)
      then Err Malformed
      else
        byte_at payload 0 (\<lambda>kind. byte_at payload 1 (\<lambda>code.
        byte_at payload 4 (\<lambda>b4. byte_at payload 5 (\<lambda>b5.
        let identifier = (if is_echo protocol kind then Some (be16 b4 b5) else None) in
        and_then
          (if related \<and> is_icmp_error protocol kind
           then slice_from payload 8 parse_quoted_flow
           else Ok None)
          (\<lambda>quoted. Ok (identifier, identifier, None, Some (kind, code), quoted)))))))"

definition finish_transport ::
    "bytes \<Rightarrow> ip_addr \<Rightarrow> ip_addr \<Rightarrow> u8 \<Rightarrow> fragment option \<Rightarrow> nat \<Rightarrow> bool
     \<Rightarrow> (parsed_packet, parse_error) outcome" where
  "finish_transport payload source destination protocol fragment packet_len related =
     (if (case fragment of None \<Rightarrow> False | Some item \<Rightarrow> fg_offset item \<noteq> 0) then
        Ok \<lparr>pk_source = source, pk_destination = destination, pk_protocol = protocol,
          pk_source_port = None, pk_destination_port = None, pk_tcp_flags = None, pk_icmp = None,
          pk_fragment = fragment, pk_packet_len = packet_len, pk_related_flow = None\<rparr>
      else
        let incomplete_fragment =
          (case fragment of None \<Rightarrow> False | Some item \<Rightarrow> fg_offset item \<noteq> 0 \<or> fg_more item) in
        and_then
          (if protocol = TCP then tcp_header payload source destination incomplete_fragment
           else if protocol = UDP then udp_header payload source destination incomplete_fragment
           else if protocol = ICMP_V4 \<or> protocol = ICMP_V6
           then icmp_header payload source destination protocol incomplete_fragment related
           else Ok (None, None, None, None, None))
          (\<lambda>(source_port, destination_port, tcp_flags, icmp, related_flow).
            Ok \<lparr>pk_source = source, pk_destination = destination, pk_protocol = protocol,
              pk_source_port = source_port, pk_destination_port = destination_port,
              pk_tcp_flags = tcp_flags, pk_icmp = icmp, pk_fragment = fragment,
              pk_packet_len = packet_len, pk_related_flow = related_flow\<rparr>))"

section \<open>IP headers\<close>

definition parse_ipv4 :: "bytes \<Rightarrow> bool \<Rightarrow> (parsed_packet, parse_error) outcome" where
  "parse_ipv4 bs related =
     (if length bs < 20 then Err Truncated
      else byte_at bs 0 (\<lambda>b0.
        let header_len = unat (b0 AND 0x0f) * 4 in
        if header_len < 20 \<or> length bs < header_len then Err Malformed
        else byte_at bs 2 (\<lambda>b2. byte_at bs 3 (\<lambda>b3.
          let total = unat (be16 b2 b3) in
          if total \<noteq> length bs \<or> total < header_len \<or> ipv4_checksum (take header_len bs) \<noteq> 0
          then Err Malformed
          else
            slice_at bs 12 16 (\<lambda>source.
            slice_at bs 16 20 (\<lambda>destination.
            byte_at bs 6 (\<lambda>b6. byte_at bs 7 (\<lambda>b7.
            byte_at bs 4 (\<lambda>b4. byte_at bs 5 (\<lambda>b5.
            byte_at bs 9 (\<lambda>protocol.
            let bits = be16 b6 b7;
                offset = bits AND 0x1fff;
                more = (bits AND 0x2000 \<noteq> 0);
                fragment =
                  (if offset \<noteq> 0 \<or> more
                   then Some \<lparr>fg_identification = ucast (be16 b4 b5), fg_offset = offset,
                     fg_more = more\<rparr>
                   else None)
            in slice_from bs header_len (\<lambda>payload.
              finish_transport payload (V4 source) (V4 destination) protocol fragment total
                related)))))))))))) "

text \<open>
  The extension-header walk of \<open>parse_ipv6\<close>: at most eight headers; \<open>steps\<close> counts the
  iterations left.
\<close>

fun walk_ipv6 ::
    "nat \<Rightarrow> bytes \<Rightarrow> bytes \<Rightarrow> bytes \<Rightarrow> u8 \<Rightarrow> nat \<Rightarrow> fragment option \<Rightarrow> bool
     \<Rightarrow> (parsed_packet, parse_error) outcome" where
  "walk_ipv6 0 bs source destination next cursor fragment related = Err Malformed"
| "walk_ipv6 (Suc steps) bs source destination next cursor fragment related =
     (if next = 0 \<or> next = 43 \<or> next = 60 then
        if length bs < cursor + 2 then Err Truncated
        else byte_at bs (cursor + 1) (\<lambda>l.
          let extension_len = (unat l + 1) * 8 in
          if length bs < cursor + extension_len then Err Truncated
          else byte_at bs cursor (\<lambda>n.
            walk_ipv6 steps bs source destination n (cursor + extension_len) fragment related))
      else if next = 44 then
        if length bs < cursor + 8 \<or> fragment \<noteq> None then Err Malformed
        else byte_at bs (cursor + 2) (\<lambda>h. byte_at bs (cursor + 3) (\<lambda>l.
          let bits = be16 h l in
          slice_at bs (cursor + 4) (cursor + 8) (\<lambda>id.
          let fragment = Some \<lparr>fg_identification = word_of_nat (of_be id),
                fg_offset = drop_bit 3 bits, fg_more = (bits AND 1 \<noteq> 0)\<rparr> in
          byte_at bs cursor (\<lambda>n.
            if drop_bit 3 bits \<noteq> 0
            then slice_from bs (cursor + 8) (\<lambda>payload.
              finish_transport payload (V6 source) (V6 destination) n fragment (length bs) related)
            else walk_ipv6 steps bs source destination n (cursor + 8) fragment related))))
      else slice_from bs cursor (\<lambda>payload.
        finish_transport payload (V6 source) (V6 destination) next fragment (length bs) related))"

definition parse_ipv6 :: "bytes \<Rightarrow> bool \<Rightarrow> (parsed_packet, parse_error) outcome" where
  "parse_ipv6 bs related =
     (if length bs < 40 then Err Truncated
      else byte_at bs 4 (\<lambda>b4. byte_at bs 5 (\<lambda>b5.
        let payload_len = unat (be16 b4 b5) in
        if checked_add payload_len 40 \<noteq> Some (length bs) then Err Malformed
        else
          slice_at bs 8 24 (\<lambda>source.
          slice_at bs 24 40 (\<lambda>destination.
          byte_at bs 6 (\<lambda>next.
            walk_ipv6 8 bs source destination next 40 None related))))))"

definition parse_packet :: "bytes \<Rightarrow> (parsed_packet, parse_error) outcome" where
  "parse_packet bs =
     (case bs of
        [] \<Rightarrow> Err Truncated
      | b0 # _ \<Rightarrow>
        if drop_bit 4 b0 = 4 then parse_ipv4 bs True
        else if drop_bit 4 b0 = 6 then parse_ipv6 bs True
        else Err Unsupported)"

section \<open>Results of the parser\<close>

lemma parse_quoted_flow_not_Abort: "parse_quoted_flow bs \<noteq> Abort"
  unfolding parse_quoted_flow_def
  by (auto simp: slice_simps get_range_def Let_def split: list.split option.split)

lemma tcp_header_not_Abort: "tcp_header payload s d i \<noteq> Abort"
  by (simp add: tcp_header_def slice_simps Let_def)

lemma udp_header_not_Abort: "udp_header payload s d i \<noteq> Abort"
  by (simp add: udp_header_def slice_simps Let_def)

lemma icmp_header_not_Abort: "icmp_header payload s d p i r \<noteq> Abort"
  by (simp add: icmp_header_def slice_simps Let_def and_then_Abort_iff parse_quoted_flow_not_Abort)

lemma finish_transport_not_Abort: "finish_transport payload s d p f n r \<noteq> Abort"
  by (auto simp: finish_transport_def Let_def and_then_Abort_iff tcp_header_not_Abort
      udp_header_not_Abort icmp_header_not_Abort split: option.split)

lemma parse_ipv4_not_Abort: "parse_ipv4 bs r \<noteq> Abort"
  by (simp add: parse_ipv4_def slice_simps Let_def finish_transport_not_Abort)

lemma walk_ipv6_not_Abort:
  "cursor \<le> length bs \<Longrightarrow> walk_ipv6 steps bs s d next cursor f r \<noteq> Abort"
  by (induction steps bs s d "next" cursor f r rule: walk_ipv6.induct)
    (auto simp: slice_simps Let_def finish_transport_not_Abort)

lemma parse_ipv6_not_Abort: "parse_ipv6 bs r \<noteq> Abort"
  by (simp add: parse_ipv6_def slice_simps Let_def walk_ipv6_not_Abort)

lemma parse_packet_not_Abort: "parse_packet bs \<noteq> Abort"
  by (auto simp: parse_packet_def parse_ipv4_not_Abort parse_ipv6_not_Abort split: list.split)

text \<open>What \<open>finish_transport\<close> passes through unchanged.\<close>

lemma finish_transport_fields:
  assumes "finish_transport payload s d p f n r = Ok q"
  shows "pk_source q = s" "pk_destination q = d" "pk_protocol q = p" "pk_fragment q = f"
    "pk_packet_len q = n"
  using assms
  by (auto simp: finish_transport_def Let_def and_then_Ok_iff split: option.splits if_splits)

lemma finish_transport_later:
  assumes "finish_transport payload s d p f n r = Ok q" and "f = Some g" and "fg_offset g \<noteq> 0"
  shows "pk_source_port q = None" "pk_destination_port q = None" "pk_tcp_flags q = None"
    "pk_icmp q = None" "pk_related_flow q = None"
  using assms by (auto simp: finish_transport_def)

text \<open>An invariant of the results of \<open>parse_packet\<close>: addresses of one family with their octets,
  the exact length, and no transport data on a later fragment.\<close>

definition hides_transport :: "parsed_packet \<Rightarrow> bool" where
  "hides_transport p \<longleftrightarrow>
     pk_source_port p = None \<and> pk_destination_port p = None \<and> pk_tcp_flags p = None
     \<and> pk_icmp p = None \<and> pk_related_flow p = None"

definition later_fragment :: "parsed_packet \<Rightarrow> bool" where
  "later_fragment p \<longleftrightarrow> (case pk_fragment p of None \<Rightarrow> False | Some f \<Rightarrow> fg_offset f \<noteq> 0)"

definition packet_ok :: "bytes \<Rightarrow> parsed_packet \<Rightarrow> bool" where
  "packet_ok bs p \<longleftrightarrow>
     pk_packet_len p = length bs \<and> ip_addr_ok (pk_source p) \<and> ip_addr_ok (pk_destination p)
     \<and> is_ipv6 (pk_source p) = is_ipv6 (pk_destination p)
     \<and> (later_fragment p \<longrightarrow> hides_transport p)"

lemma finish_transport_packet_ok:
  assumes "finish_transport payload s d p f (length bs) r = Ok q"
    and "ip_addr_ok s" "ip_addr_ok d" "is_ipv6 s = is_ipv6 d"
  shows "packet_ok bs q"
  using assms finish_transport_fields [OF assms(1)]
  by (auto simp: packet_ok_def later_fragment_def hides_transport_def
      dest: finish_transport_later split: option.splits)

lemma parse_ipv4_packet_ok:
  assumes "parse_ipv4 bs r = Ok p"
  shows "packet_ok bs p \<and> 20 \<le> length bs \<and> length bs < 65536"
proof -
  from assms have len: "20 \<le> length bs" and tot: "unat (be16 (bs ! 2) (bs ! 3)) = length bs"
    by (auto simp: parse_ipv4_def slice_simps Let_def split: if_splits)
  have "unat (be16 (bs ! 2) (bs ! 3)) < 65536"
    using unsigned_less [of "be16 (bs ! 2) (bs ! 3)", where ?'a = nat] by simp
  with len tot assms show ?thesis
    by (auto simp: parse_ipv4_def slice_simps Let_def split: if_splits
        intro!: finish_transport_packet_ok)
qed

lemma walk_ipv6_packet_ok:
  assumes "walk_ipv6 steps bs s d next cursor f r = Ok p"
    and "length s = 16" "length d = 16" "cursor \<le> length bs"
  shows "packet_ok bs p"
  using assms
proof (induction steps bs s d "next" cursor f r rule: walk_ipv6.induct)
  case (2 steps bs s d "next" cursor f r)
  consider "next = 0 \<or> next = 43 \<or> next = 60" | "next = 44"
    | "\<not> (next = 0 \<or> next = 43 \<or> next = 60)" "next \<noteq> 44" by blast
  then show ?case
  proof cases
    case 1
    then show ?thesis using 2 by (auto simp: slice_simps Let_def split: if_splits)
  next
    case c: 2
    then show ?thesis using 2
      by (auto simp: slice_simps Let_def split: if_splits intro: finish_transport_packet_ok)
  next
    case 3
    then show ?thesis using 2
      by (auto simp: slice_simps intro: finish_transport_packet_ok)
  qed
qed simp

lemma parse_ipv6_packet_ok:
  assumes "parse_ipv6 bs r = Ok p"
  shows "packet_ok bs p \<and> 40 \<le> length bs \<and> length bs < 65576"
proof -
  from assms have len: "40 \<le> length bs" and tot: "unat (be16 (bs ! 4) (bs ! 5)) + 40 = length bs"
    by (auto simp: parse_ipv6_def slice_simps Let_def checked_add_def split: if_splits)
  have "unat (be16 (bs ! 4) (bs ! 5)) < 65536"
    using unsigned_less [of "be16 (bs ! 4) (bs ! 5)", where ?'a = nat] by simp
  with len tot assms show ?thesis
    by (auto simp: parse_ipv6_def slice_simps Let_def split: if_splits
        intro!: walk_ipv6_packet_ok)
qed

lemma parse_packet_ok:
  assumes "parse_packet bs = Ok p"
  shows "packet_ok bs p" "20 \<le> length bs" "length bs < 65576"
  using assms parse_ipv4_packet_ok [of bs True p] parse_ipv6_packet_ok [of bs True p]
  by (auto simp: parse_packet_def split: list.splits if_splits)

section \<open>The checksum against its reference sum\<close>

fun word_sum :: "bytes \<Rightarrow> nat" where
  "word_sum (a # b # rest) = unat (be16 a b) + word_sum rest"
| "word_sum [z] = unat z * 256"
| "word_sum [] = 0"

lemma word_sum_bound: "word_sum bs \<le> 65535 * ((length bs + 1) div 2)"
proof (induction bs rule: word_sum.induct)
  case (1 a b rest)
  have "unat (be16 a b) < 65536"
    using unsigned_less [of "be16 a b", where ?'a = nat] by simp
  with 1 show ?case by simp
next
  case (2 z)
  have "unat z \<le> 255" using unat_u8_less [of z] by linarith
  then show ?case by simp
qed simp

lemma checksum_words_unat:
  "unat acc + word_sum bs < 2 ^ 32 \<Longrightarrow> unat (checksum_words acc bs) = unat acc + word_sum bs"
proof (induction acc bs rule: checksum_words.induct)
  case (1 acc a b rest)
  have u: "unat (ucast (be16 a b) :: u32) = unat (be16 a b)"
    by (simp add: unsigned_ucast_eq take_bit_nat_eq_self_iff)
       (use unsigned_less [of "be16 a b", where ?'a = nat] in simp)
  have s: "unat (acc + ucast (be16 a b)) = unat acc + unat (be16 a b)"
    using 1 by (simp add: unat_word_ariths u)
  show ?case using 1 s by simp
next
  case (2 acc z)
  have z: "unat z \<le> 255" using unat_u8_less [of z] by linarith
  then have "unat (ucast z :: u32) = unat z"
    by (simp only: unsigned_ucast_eq) (simp add: take_bit_nat_eq_self_iff)
  then have "unat (push_bit 8 (ucast z) :: u32) = unat z * 256"
    using z by (simp add: push_bit_eq_mult unat_word_ariths)
  then show ?case using 2 by (simp add: unat_word_ariths)
qed simp

lemma fold_sum_unat:
  "unat (fold_sum acc) = (if acc = 0 then 0 else (unat acc - 1) mod 65535 + 1)"
proof (induction acc rule: fold_sum.induct)
  case (1 acc)
  show ?case
  proof (cases "0xffff < acc")
    case True
    let ?n = "(acc AND 0xffff) + drop_bit 16 acc"
    have big: "65535 < unat acc" using True by (simp add: word_less_nat_alt)
    have n: "unat ?n = unat acc mod 65536 + unat acc div 65536" by (rule fold_step_unat)
    have split: "unat acc = unat acc div 65536 * 65536 + unat acc mod 65536"
      by (simp only: div_mult_mod_eq)
    have pos: "0 < unat acc div 65536" using big by (simp add: div_greater_zero_iff)
    then have "?n \<noteq> 0" using n by (metis add_is_0 not_gr0 unat_eq_zero)
    have "unat acc - 1 = (unat ?n - 1) + 65535 * (unat acc div 65536)"
      using split pos n by linarith
    then have "(unat acc - 1) mod 65535 = (unat ?n - 1) mod 65535" by simp
    moreover have "acc \<noteq> 0" using big by auto
    ultimately show ?thesis using 1 True \<open>?n \<noteq> 0\<close> by (subst fold_sum.simps) simp
  next
    case False
    then have le: "unat acc \<le> 65535" by (simp add: word_less_nat_alt)
    show ?thesis
    proof (cases "acc = 0")
      case True
      then show ?thesis by (subst fold_sum.simps) simp
    next
      case nz: False
      then have "0 < unat acc" by (simp add: unat_gt_0)
      with le have "(unat acc - 1) mod 65535 + 1 = unat acc" by simp
      then show ?thesis using False nz by (subst fold_sum.simps) simp
    qed
  qed
qed

text \<open>A buffer the size of an IP packet cannot overflow the 32-bit accumulator.\<close>

lemma word_sum_no_overflow: "length bs < 65576 \<Longrightarrow> word_sum bs < 2 ^ 32"
proof -
  assume "length bs < 65576"
  then have "65535 * ((length bs + 1) div 2) \<le> 65535 * 32788" by (intro mult_le_mono2) simp
  then show ?thesis using word_sum_bound [of bs] by simp
qed

lemma unat_not_ucast:
  "unat x \<le> 65535 \<Longrightarrow> unat (NOT (ucast (x :: u32)) :: u16) = 65535 - unat x"
proof -
  assume le: "unat x \<le> 65535"
  have u: "unat (ucast x :: u16) = unat x"
    using le by (simp only: unsigned_ucast_eq) (simp add: take_bit_nat_eq_self_iff)
  have m: "(- 1 :: u16) = 65535" by simp
  have "(NOT (ucast x) :: u16) = 65535 - ucast x"
    unfolding m [symmetric] by (simp add: not_eq_complement)
  moreover have "unat (65535 - ucast x :: u16) = unat (65535 :: u16) - unat (ucast x :: u16)"
    using le u by (intro unat_sub) (simp add: word_le_nat_alt)
  ultimately show ?thesis using u by simp
qed

lemma internet_checksum_unat:
  assumes "length bs < 65576"
  shows "unat (internet_checksum bs) =
    (if word_sum bs = 0 then 65535 else 65534 - (word_sum bs - 1) mod 65535)"
proof -
  let ?c = "checksum_words 0 bs"
  have c: "unat ?c = word_sum bs"
    using checksum_words_unat [of 0 bs] word_sum_no_overflow [OF assms] by simp
  then have z: "?c = 0 \<longleftrightarrow> word_sum bs = 0" by (metis unat_eq_zero unat_0)
  have f: "unat (fold_sum ?c) = (if word_sum bs = 0 then 0 else (word_sum bs - 1) mod 65535 + 1)"
    using fold_sum_unat [of ?c] c z by simp
  have "(word_sum bs - 1) mod 65535 \<le> 65534" by (simp add: less_Suc_eq_le [symmetric])
  then have "unat (fold_sum ?c) \<le> 65535" unfolding f by simp
  then show ?thesis using f by (simp add: internet_checksum_def unat_not_ucast)
qed

lemma internet_checksum_zero_iff:
  assumes "length bs < 65576"
  shows "internet_checksum bs = 0 \<longleftrightarrow> 0 < word_sum bs \<and> 65535 dvd word_sum bs"
proof -
  have "internet_checksum bs = 0 \<longleftrightarrow> unat (internet_checksum bs) = 0"
    by (simp add: unat_eq_zero)
  also have "\<dots> \<longleftrightarrow> 0 < word_sum bs \<and> (word_sum bs - 1) mod 65535 = 65534"
    using internet_checksum_unat [OF assms] mod_less_divisor [of 65535 "word_sum bs - 1"] by auto
  also have "\<dots> \<longleftrightarrow> 0 < word_sum bs \<and> 65535 dvd word_sum bs"
  proof (cases "word_sum bs")
    case (Suc n)
    have "n mod 65535 = 65534 \<longleftrightarrow> Suc n mod 65535 = 0" by (simp add: mod_Suc)
    then show ?thesis using Suc by (simp add: dvd_eq_mod_eq_0)
  qed simp
  finally show ?thesis .
qed

section \<open>Properties\<close>

text \<open>A UDP datagram without checksum from 10.0.0.1:1000 to 10.0.0.2:53, used by the witnesses.\<close>

definition sample_udp :: bytes where
  "sample_udp = [69, 0, 0, 28, 0, 1, 0, 0, 64, 17, 102, 206, 10, 0, 0, 1, 10, 0, 0, 2, 3, 232, 0, 53, 0, 8, 0, 0]"

definition sample_udp_packet :: parsed_packet where
  "sample_udp_packet = \<lparr>pk_source = V4 [10, 0, 0, 1], pk_destination = V4 [10, 0, 0, 2],
     pk_protocol = 17, pk_source_port = Some 1000, pk_destination_port = Some 53,
     pk_tcp_flags = None, pk_icmp = None, pk_fragment = None, pk_packet_len = 28,
     pk_related_flow = None\<rparr>"

lemma sample_udp_parses: "parse_packet sample_udp = Ok sample_udp_packet"
  by code_simp

text \<open>The parser never reads outside its input: for every byte string, whatever its lengths and
  extension headers claim, \<open>parse_packet\<close> returns a packet or an error and never panics.\<close>

theorem parse_never_aborts: "parse_packet bs \<noteq> Abort"
  by (rule parse_packet_not_Abort)

text \<open>(C24) A parsed packet is well formed: its length is the input's, both addresses have the octets of
  one family, the input has the size of an IP packet, and a fragment with a non-zero offset carries no
  port, flag, ICMP or quoted-flow data.\<close>

theorem parse_packet_well_formed:
  assumes "parse_packet bs = Ok p"
  shows "packet_ok bs p \<and> 20 \<le> length bs \<and> length bs < 65576"
  using parse_packet_ok [OF assms] by simp

theorem parse_packet_well_formed_witness:
  "parse_packet sample_udp = Ok sample_udp_packet \<and> packet_ok sample_udp sample_udp_packet"
  using parse_packet_well_formed [OF sample_udp_parses] sample_udp_parses by simp

text \<open>(C25) The folded 32-bit checksum is the one's-complement checksum: on any buffer the size of an IP
  packet the accumulator does not overflow and the result is zero exactly when the sum of the
  big-endian words is a positive multiple of 65535.\<close>

theorem checksum_matches_reference:
  assumes "length bs < 65576"
  shows "unat (checksum_words 0 bs) = word_sum bs
    \<and> (internet_checksum bs = 0 \<longleftrightarrow> 0 < word_sum bs \<and> 65535 dvd word_sum bs)"
  using assms checksum_words_unat [of 0 bs] word_sum_no_overflow [of bs]
    internet_checksum_zero_iff [of bs] by simp

theorem checksum_matches_reference_witness:
  "unat (checksum_words 0 [1, 2, 3]) = word_sum [1, 2, 3]
    \<and> (internet_checksum [1, 2, 3] = 0 \<longleftrightarrow> 0 < word_sum [1, 2, 3] \<and> 65535 dvd word_sum [1, 2, 3])"
  by (rule checksum_matches_reference) simp

text \<open>What an accepted IPv4 packet guarantees: the header length is at least twenty bytes and within
  the packet, the header checksum verifies, the addresses and protocol are the header's own bytes, and
  an unfragmented TCP segment carries a valid transport checksum over the pseudo header.\<close>

theorem parse_ipv4_accepts:
  assumes "parse_packet bs = Ok p" and "drop_bit 4 (hd bs) = 4"
  shows "let h = unat (bs ! 0 AND 0x0f) * 4 in
    20 \<le> h \<and> h \<le> length bs \<and> ipv4_checksum (take h bs) = 0
    \<and> pk_source p = V4 (take 4 (drop 12 bs)) \<and> pk_destination p = V4 (take 4 (drop 16 bs))
    \<and> pk_protocol p = bs ! 9
    \<and> (pk_fragment p = None \<and> pk_protocol p = TCP \<longrightarrow>
        transport_checksum_valid (drop h bs) (pk_source p) (pk_destination p) TCP)"
proof -
  have v4: "parse_ipv4 bs True = Ok p"
    using assms by (auto simp: parse_packet_def split: list.splits if_splits)
  then show ?thesis
    by (auto simp: parse_ipv4_def slice_simps Let_def finish_transport_def and_then_Ok_iff
        tcp_header_def split: if_splits)
qed

theorem parse_ipv4_accepts_witness:
  "ipv4_checksum (take 20 sample_udp) = 0
    \<and> pk_source sample_udp_packet = V4 [10, 0, 0, 1]
    \<and> pk_destination sample_udp_packet = V4 [10, 0, 0, 2]
    \<and> pk_protocol sample_udp_packet = 17"
  using parse_ipv4_accepts [OF sample_udp_parses] by (simp add: sample_udp_def)

end
