(* ===== verification/Firewall.thy ===== *)
theory Firewall
  imports Packet
begin

text \<open>
  The stateful firewall of \<open>crates/peerward-dataplane/src/firewall.rs\<close>: ordered initiation
  rules, sharded flow and fragment tables with their expiration indexes, TCP phases, and the
  operations on them.  The shards are behind mutexes in the source; each operation below is one call,
  so calls are totally ordered.  Prefix matching (the \<open>ipnet\<close> crate) and the hasher that picks a
  shard are arguments.
\<close>

section \<open>Rules\<close>

datatype action = Allow | Deny

record 'net rule =
  rl_id :: uuid
  rl_priority :: nat
  rl_action :: action
  rl_source :: "'net option"
  rl_destination :: "'net option"
  rl_protocol :: "u8 option"
  rl_destination_ports :: "(u16 \<times> u16) list"

record fragment_key =
  gk_source :: ip_addr
  gk_destination :: ip_addr
  gk_protocol :: u8
  gk_identification :: u32

definition fragment_rank :: "('a::linorder) fragment_key_scheme \<Rightarrow> ip_addr \<times> ip_addr \<times> u8 \<times> u32 \<times> 'a" where
  "fragment_rank k = (gk_source k, gk_destination k, gk_protocol k, gk_identification k,
     fragment_key.more k)"

lemma fragment_rank_eq_iff [simp]: "fragment_rank a = fragment_rank b \<longleftrightarrow> a = b"
  by (auto simp: fragment_rank_def intro: fragment_key.equality)

instantiation fragment_key_ext :: (linorder) linorder
begin

definition less_eq_fragment_key_ext :: "'a fragment_key_scheme \<Rightarrow> 'a fragment_key_scheme \<Rightarrow> bool" where
  "less_eq_fragment_key_ext a b \<longleftrightarrow> fragment_rank a \<le> fragment_rank b"

definition less_fragment_key_ext :: "'a fragment_key_scheme \<Rightarrow> 'a fragment_key_scheme \<Rightarrow> bool" where
  "less_fragment_key_ext a b \<longleftrightarrow> fragment_rank a < fragment_rank b"

instance
  by standard (auto simp: less_eq_fragment_key_ext_def less_fragment_key_ext_def
      order.strict_iff_order dest: order.antisym)

end

text \<open>Code outside the repository: \<open>IpNet::contains\<close> and the hash of the two key types.\<close>

record 'net fw_env =
  env_contains :: "'net \<Rightarrow> ip_addr \<Rightarrow> bool"
  env_flow_hash :: "flow_key \<Rightarrow> nat"
  env_fragment_hash :: "fragment_key \<Rightarrow> nat"

definition rule_matches :: "'net fw_env \<Rightarrow> 'net rule \<Rightarrow> parsed_packet \<Rightarrow> bool" where
  "rule_matches env rule packet \<longleftrightarrow>
     (case rl_source rule of None \<Rightarrow> True | Some net \<Rightarrow> env_contains env net (pk_source packet))
     \<and> (case rl_destination rule of None \<Rightarrow> True
        | Some net \<Rightarrow> env_contains env net (pk_destination packet))
     \<and> (case rl_protocol rule of None \<Rightarrow> True | Some value \<Rightarrow> value = pk_protocol packet)
     \<and> (rl_destination_ports rule = []
        \<or> (case pk_destination_port packet of None \<Rightarrow> False
           | Some port \<Rightarrow> \<exists>(lo, hi) \<in> set (rl_destination_ports rule). lo \<le> port \<and> port \<le> hi))"

section \<open>Flow keys\<close>

definition from_endpoints :: "ip_addr \<times> u16 option \<Rightarrow> ip_addr \<times> u16 option \<Rightarrow> u8 \<Rightarrow> flow_key" where
  "from_endpoints origin target protocol =
     \<lparr>fk_source = fst origin, fk_destination = fst target, fk_protocol = protocol,
      fk_source_port = snd origin, fk_destination_port = snd target\<rparr>"

definition from_packet :: "parsed_packet \<Rightarrow> flow_key option" where
  "from_packet packet =
     (if (case pk_fragment packet of None \<Rightarrow> True | Some fragment \<Rightarrow> fg_offset fragment = 0)
      then Some (from_endpoints (pk_source packet, pk_source_port packet)
        (pk_destination packet, pk_destination_port packet) (pk_protocol packet))
      else None)"

definition reverse :: "flow_key \<Rightarrow> flow_key" where
  "reverse key = key\<lparr>fk_source := fk_destination key, fk_destination := fk_source key,
     fk_source_port := fk_destination_port key, fk_destination_port := fk_source_port key\<rparr>"

section \<open>Tables\<close>

datatype tcp_phase = SynSent | SynReceived | Established | Closing

record flow_state =
  fs_expires_at :: nat
  fs_phase :: "tcp_phase option"

record fragment_state =
  gs_expires_at :: nat
  gs_action :: action
  gs_rule_id :: "uuid option"

record shard =
  sh_flows :: "(flow_key \<times> flow_state) list"
  sh_flow_expirations :: "(nat \<times> flow_key) list"
  sh_fragments :: "(fragment_key \<times> fragment_state) list"
  sh_fragment_expirations :: "(nat \<times> fragment_key) list"

definition shard_default :: shard where
  "shard_default = \<lparr>sh_flows = [], sh_flow_expirations = [], sh_fragments = [],
     sh_fragment_expirations = []\<rparr>"

definition remove_flow :: "flow_key \<Rightarrow> shard \<Rightarrow> shard" where
  "remove_flow key s =
     (case hm_get (sh_flows s) key of
        None \<Rightarrow> s
      | Some state \<Rightarrow> s\<lparr>sh_flows := hm_remove key (sh_flows s),
          sh_flow_expirations :=
            bset_remove (fs_expires_at state, key) (sh_flow_expirations s)\<rparr>)"

definition store_flow :: "flow_key \<Rightarrow> flow_state \<Rightarrow> shard \<Rightarrow> shard" where
  "store_flow key state s =
     (let s' = s\<lparr>sh_flows := hm_insert key state (sh_flows s)\<rparr> in
      case hm_get (sh_flows s) key of
        Some previous \<Rightarrow>
          if fs_expires_at previous = fs_expires_at state then s'
          else s'\<lparr>sh_flow_expirations := bset_insert (fs_expires_at state, key)
            (bset_remove (fs_expires_at previous, key) (sh_flow_expirations s))\<rparr>
      | None \<Rightarrow> s'\<lparr>sh_flow_expirations :=
            bset_insert (fs_expires_at state, key) (sh_flow_expirations s)\<rparr>)"

definition remove_fragment :: "fragment_key \<Rightarrow> shard \<Rightarrow> shard" where
  "remove_fragment key s =
     (case hm_get (sh_fragments s) key of
        None \<Rightarrow> s
      | Some state \<Rightarrow> s\<lparr>sh_fragments := hm_remove key (sh_fragments s),
          sh_fragment_expirations :=
            bset_remove (gs_expires_at state, key) (sh_fragment_expirations s)\<rparr>)"

definition first_flow :: "shard \<Rightarrow> (nat \<times> flow_key) option" where
  "first_flow s = bset_first (sh_flow_expirations s)"

definition first_fragment :: "shard \<Rightarrow> (nat \<times> fragment_key) option" where
  "first_fragment s = bset_first (sh_fragment_expirations s)"

text \<open>The free function \<open>expire\<close>: two bounded reclamation loops.\<close>

definition expire :: "nat \<Rightarrow> nat \<Rightarrow> shard \<Rightarrow> shard" where
  "expire now budget s =
     sweep first_fragment remove_fragment now budget (sweep first_flow remove_flow now budget s)"

definition evict_flow_if_full :: "nat \<Rightarrow> shard \<Rightarrow> shard" where
  "evict_flow_if_full limit s =
     (if length (sh_flows s) < limit then s
      else case first_flow s of None \<Rightarrow> s | Some (_, oldest) \<Rightarrow> remove_flow oldest s)"

section \<open>Decisions\<close>

record decision =
  de_action :: action
  de_rule_id :: "uuid option"
  de_stateful :: bool

definition denied :: decision where
  "denied = \<lparr>de_action = Deny, de_rule_id = None, de_stateful = False\<rparr>"

definition stateful_allow :: decision where
  "stateful_allow = \<lparr>de_action = Allow, de_rule_id = None, de_stateful = True\<rparr>"

definition valid_initiation :: "parsed_packet \<Rightarrow> bool" where
  "valid_initiation packet =
     (if pk_protocol packet = TCP then
        (case pk_tcp_flags packet of None \<Rightarrow> False
         | Some flags \<Rightarrow> flags AND TCP_SYN \<noteq> 0 \<and> flags AND TCP_ACK = 0)
      else if pk_protocol packet = ICMP_V4 then
        (case pk_icmp packet of None \<Rightarrow> False | Some (kind, _) \<Rightarrow> kind = 8)
      else if pk_protocol packet = ICMP_V6 then
        (case pk_icmp packet of None \<Rightarrow> False | Some (kind, _) \<Rightarrow> kind = 128)
      else True)"

text \<open>\<open>advance_tcp\<close> updates the phase in place and returns whether the segment is acceptable;
  here \<open>None\<close> is the refusal and \<open>Some\<close> the new phase.\<close>

definition advance_tcp :: "tcp_phase option \<Rightarrow> u8 \<Rightarrow> bool \<Rightarrow> tcp_phase option option" where
  "advance_tcp phase flags initiator =
     (if flags AND TCP_RST \<noteq> 0 then Some (Some Closing)
      else
        let v = flags AND (TCP_SYN OR TCP_ACK OR TCP_FIN) in
        if (phase = Some SynSent \<or> phase = Some SynReceived) \<and> initiator \<and> v = TCP_SYN
        then Some phase
        else if phase = Some SynReceived \<and> \<not> initiator \<and> v = (TCP_SYN OR TCP_ACK) then Some phase
        else if phase = Some SynSent \<and> \<not> initiator
          \<and> v AND (TCP_SYN OR TCP_ACK) = (TCP_SYN OR TCP_ACK) then Some (Some SynReceived)
        else if phase = Some SynReceived \<and> initiator \<and> v AND TCP_ACK \<noteq> 0
        then Some (Some Established)
        else if phase = Some Established \<and> v AND TCP_FIN \<noteq> 0 then Some (Some Closing)
        else if phase = Some Established \<or> phase = Some Closing then Some phase
        else None)"

definition timeout :: "u8 \<Rightarrow> nat \<Rightarrow> nat \<Rightarrow> nat" where
  "timeout protocol flow tcp = (if protocol = TCP then tcp else flow)"

definition fragment_key_of :: "parsed_packet \<Rightarrow> fragment \<Rightarrow> fragment_key" where
  "fragment_key_of packet fragment =
     \<lparr>gk_source = pk_source packet, gk_destination = pk_destination packet,
      gk_protocol = (if is_ipv6 (pk_source packet) then 0 else pk_protocol packet),
      gk_identification = fg_identification fragment\<rparr>"

section \<open>The firewall\<close>

record 'net firewall =
  fw_rules :: "'net rule list"
  fw_default :: action
  fw_revision :: nat
  fw_shards :: "shard list"
  fw_per_shard_limit :: nat
  fw_flow_timeout :: nat
  fw_tcp_timeout :: nat
  fw_fragment_timeout :: nat
  fw_expiry_budget :: nat

definition new_firewall :: "nat \<Rightarrow> action \<Rightarrow> 'net rule list \<Rightarrow> nat \<Rightarrow> nat \<Rightarrow> 'net firewall" where
  "new_firewall revision fallback rules state_limit shard_count =
     (let count = max shard_count 1 in
      \<lparr>fw_rules = sort_key rl_priority rules, fw_default = fallback, fw_revision = revision,
       fw_shards = replicate count shard_default,
       fw_per_shard_limit = div_ceil (max state_limit 1) count,
       fw_flow_timeout = 60, fw_tcp_timeout = 600, fw_fragment_timeout = 15,
       fw_expiry_budget = 64\<rparr>)"

definition invalidate_state :: "'net firewall \<Rightarrow> 'net firewall" where
  "invalidate_state fw = fw\<lparr>fw_shards := map (\<lambda>_. shard_default) (fw_shards fw)\<rparr>"

definition replace :: "nat \<Rightarrow> action \<Rightarrow> 'net rule list \<Rightarrow> 'net firewall \<Rightarrow> bool \<times> 'net firewall" where
  "replace revision fallback rules fw =
     (if revision \<le> fw_revision fw then (False, fw)
      else (True, invalidate_state
        (fw\<lparr>fw_revision := revision, fw_default := fallback,
            fw_rules := sort_key rl_priority rules\<rparr>)))"

text \<open>One connection's flow, its reverse, and the fragment associations between the two hosts.\<close>

definition concerns_flow :: "flow_key \<Rightarrow> fragment_key \<Rightarrow> bool" where
  "concerns_flow key fragment \<longleftrightarrow>
     (gk_protocol fragment = fk_protocol key \<or> is_ipv6 (gk_source fragment))
     \<and> (gk_source fragment = fk_source key \<and> gk_destination fragment = fk_destination key
        \<or> gk_source fragment = fk_destination key \<and> gk_destination fragment = fk_source key)"

definition forget_in_shard :: "flow_key \<Rightarrow> shard \<Rightarrow> shard" where
  "forget_in_shard key s =
     (let s = remove_flow key s;
          s = remove_flow (reverse key) s;
          fragments_to_remove = filter (concerns_flow key) (map fst (sh_fragments s))
      in fold remove_fragment fragments_to_remove s)"

definition forget_flow :: "flow_key \<Rightarrow> 'net firewall \<Rightarrow> 'net firewall" where
  "forget_flow key fw = fw\<lparr>fw_shards := map (forget_in_shard key) (fw_shards fw)\<rparr>"

definition state_len :: "'net firewall \<Rightarrow> nat" where
  "state_len fw = sum_list (map (\<lambda>s. length (sh_flows s)) (fw_shards fw))"

definition policy_decision :: "'net fw_env \<Rightarrow> 'net firewall \<Rightarrow> parsed_packet \<Rightarrow> decision" where
  "policy_decision env fw packet =
     (case List.find (\<lambda>rule. rule_matches env rule packet) (fw_rules fw) of
        None \<Rightarrow> \<lparr>de_action = fw_default fw, de_rule_id = None, de_stateful = False\<rparr>
      | Some rule \<Rightarrow>
          \<lparr>de_action = rl_action rule, de_rule_id = Some (rl_id rule), de_stateful = False\<rparr>)"

text \<open>\<open>shard_index\<close>: the hash modulo the number of shards, which \<open>new\<close> makes positive.\<close>

definition flow_shard_index :: "'net fw_env \<Rightarrow> 'net firewall \<Rightarrow> flow_key \<Rightarrow> nat" where
  "flow_shard_index env fw key = env_flow_hash env key mod length (fw_shards fw)"

definition fragment_shard_index :: "'net fw_env \<Rightarrow> 'net firewall \<Rightarrow> fragment_key \<Rightarrow> nat" where
  "fragment_shard_index env fw key = env_fragment_hash env key mod length (fw_shards fw)"

definition set_shard :: "nat \<Rightarrow> shard \<Rightarrow> 'net firewall \<Rightarrow> 'net firewall" where
  "set_shard i s fw = fw\<lparr>fw_shards := (fw_shards fw)[i := s]\<rparr>"

definition has_state :: "'net fw_env \<Rightarrow> 'net firewall \<Rightarrow> flow_key \<Rightarrow> nat \<Rightarrow> bool" where
  "has_state env fw key now =
     (case hm_get (sh_flows (fw_shards fw ! flow_shard_index env fw key)) key of
        None \<Rightarrow> False | Some state \<Rightarrow> now < fs_expires_at state)"

text \<open>One direction of the loop in \<open>evaluate_existing\<close>; \<open>None\<close> is its \<open>continue\<close>.\<close>

definition existing_direction :: "'net fw_env \<Rightarrow> parsed_packet \<Rightarrow> flow_key \<Rightarrow> bool \<Rightarrow> nat
    \<Rightarrow> 'net firewall \<Rightarrow> decision option \<times> 'net firewall" where
  "existing_direction env packet key initiator_direction now fw =
     (let index = flow_shard_index env fw key;
          shard = expire now (fw_expiry_budget fw) (fw_shards fw ! index);
          flags = (case pk_tcp_flags packet of None \<Rightarrow> 0 | Some f \<Rightarrow> f)
      in case hm_get (sh_flows shard) key of
        None \<Rightarrow> (None, set_shard index shard fw)
      | Some state \<Rightarrow>
          if fs_expires_at state \<le> now
          then (None, set_shard index (remove_flow key shard) fw)
          else
            case (if pk_protocol packet = TCP
                  then advance_tcp (fs_phase state) flags initiator_direction
                  else Some (fs_phase state)) of
              None \<Rightarrow> (Some denied, set_shard index shard fw)
            | Some phase \<Rightarrow>
                if pk_protocol packet = TCP \<and> flags AND TCP_RST \<noteq> 0
                then (Some stateful_allow, set_shard index (remove_flow key shard) fw)
                else
                  let idle = (if phase = Some Closing then fw_flow_timeout fw
                        else timeout (pk_protocol packet) (fw_flow_timeout fw) (fw_tcp_timeout fw));
                      state' = \<lparr>fs_expires_at = saturating_add now idle, fs_phase = phase\<rparr>
                  in (Some stateful_allow, set_shard index (store_flow key state' shard) fw))"

definition evaluate_existing :: "'net fw_env \<Rightarrow> parsed_packet \<Rightarrow> flow_key \<Rightarrow> nat
    \<Rightarrow> 'net firewall \<Rightarrow> decision option \<times> 'net firewall" where
  "evaluate_existing env packet flow now fw =
     (case existing_direction env packet flow True now fw of
        (Some d, fw') \<Rightarrow> (Some d, fw')
      | (None, fw') \<Rightarrow> existing_direction env packet (reverse flow) False now fw')"

definition insert_flow :: "'net fw_env \<Rightarrow> flow_key \<Rightarrow> parsed_packet \<Rightarrow> nat
    \<Rightarrow> 'net firewall \<Rightarrow> 'net firewall" where
  "insert_flow env flow packet now fw =
     (let index = flow_shard_index env fw flow;
          shard = expire now (fw_expiry_budget fw) (fw_shards fw ! index);
          shard = evict_flow_if_full (fw_per_shard_limit fw) shard;
          state = \<lparr>fs_expires_at = saturating_add now
                (timeout (pk_protocol packet) (fw_flow_timeout fw) (fw_tcp_timeout fw)),
              fs_phase = (if pk_protocol packet = TCP then Some SynSent else None)\<rparr>
      in set_shard index (store_flow flow state shard) fw)"

text \<open>The step of \<open>insert_fragment\<close> that makes room for one association.\<close>

definition fragment_room :: "nat \<Rightarrow> fragment_key \<Rightarrow> shard \<Rightarrow> shard" where
  "fragment_room limit key s =
     (let shard = remove_fragment key s in
      if limit \<le> length (sh_fragments shard) then
        (case first_fragment shard of None \<Rightarrow> shard
         | Some (_, expiring) \<Rightarrow> remove_fragment expiring shard)
      else shard)"

definition insert_fragment :: "'net fw_env \<Rightarrow> parsed_packet \<Rightarrow> fragment \<Rightarrow> action \<Rightarrow> uuid option \<Rightarrow> nat
    \<Rightarrow> 'net firewall \<Rightarrow> 'net firewall" where
  "insert_fragment env packet fragment action rule_id now fw =
     (let key = fragment_key_of packet fragment;
          index = fragment_shard_index env fw key;
          shard = fragment_room (fw_per_shard_limit fw) key (fw_shards fw ! index);
          expires_at = saturating_add now (fw_fragment_timeout fw)
      in set_shard index
        (shard\<lparr>sh_fragment_expirations :=
                bset_insert (expires_at, key) (sh_fragment_expirations shard),
              sh_fragments := hm_insert key
                \<lparr>gs_expires_at = expires_at, gs_action = action, gs_rule_id = rule_id\<rparr>
                (sh_fragments shard)\<rparr>) fw)"

definition evaluate_later_fragment :: "'net fw_env \<Rightarrow> parsed_packet \<Rightarrow> fragment \<Rightarrow> nat
    \<Rightarrow> 'net firewall \<Rightarrow> decision \<times> 'net firewall" where
  "evaluate_later_fragment env packet fragment now fw =
     (let key = fragment_key_of packet fragment;
          index = fragment_shard_index env fw key;
          shard = fw_shards fw ! index
      in case hm_get (sh_fragments shard) key of
        None \<Rightarrow> (denied, fw)
      | Some state \<Rightarrow>
          if gs_expires_at state \<le> now
          then (denied, set_shard index (remove_fragment key shard) fw)
          else (\<lparr>de_action = gs_action state, de_rule_id = gs_rule_id state, de_stateful = True\<rparr>,
                fw))"

text \<open>The new-initiation tail of \<open>evaluate_with_policy\<close>.\<close>

definition initiate :: "'net fw_env \<Rightarrow> (parsed_packet \<Rightarrow> action \<times> uuid option) \<Rightarrow> parsed_packet \<Rightarrow> flow_key
    \<Rightarrow> nat \<Rightarrow> 'net firewall \<Rightarrow> decision \<times> 'net firewall" where
  "initiate env policy packet flow now fw =
     (let (action, rule_id) = policy packet;
          fw1 = (if action = Allow \<and> pk_protocol packet \<in> {TCP, UDP, ICMP_V4, ICMP_V6}
              then insert_flow env flow packet now fw else fw);
          fw2 = (if action = Allow then
                (case pk_fragment packet of
                   None \<Rightarrow> fw1
                 | Some fragment \<Rightarrow>
                     if fg_more fragment
                     then insert_fragment env packet fragment action rule_id now fw1
                     else fw1)
              else fw1)
      in (\<lparr>de_action = action, de_rule_id = rule_id, de_stateful = False\<rparr>, fw2))"

text \<open>
  \<open>evaluate_with_policy\<close>: later fragments, then related ICMP errors, then existing flows in
  either direction, then a new initiation judged by \<open>policy\<close>.
\<close>

definition evaluate_with_policy :: "'net fw_env \<Rightarrow> (parsed_packet \<Rightarrow> action \<times> uuid option)
    \<Rightarrow> parsed_packet \<Rightarrow> nat \<Rightarrow> 'net firewall \<Rightarrow> decision \<times> 'net firewall" where
  "evaluate_with_policy env policy packet now fw =
     (case (case pk_fragment packet of None \<Rightarrow> None
            | Some fragment \<Rightarrow> if fg_offset fragment \<noteq> 0 then Some fragment else None) of
        Some fragment \<Rightarrow> evaluate_later_fragment env packet fragment now fw
      | None \<Rightarrow>
        if (case pk_related_flow packet of None \<Rightarrow> False
            | Some related \<Rightarrow> has_state env fw related now \<or> has_state env fw (reverse related) now)
        then (stateful_allow, fw)
        else
          case from_packet packet of
            None \<Rightarrow> (denied, fw)
          | Some flow \<Rightarrow>
            (case evaluate_existing env packet flow now fw of
               (Some decision, fw') \<Rightarrow> (decision, fw')
             | (None, fw') \<Rightarrow>
               if \<not> valid_initiation packet then (denied, fw')
               else initiate env policy packet flow now fw'))"

definition evaluate :: "'net fw_env \<Rightarrow> parsed_packet \<Rightarrow> nat \<Rightarrow> 'net firewall
    \<Rightarrow> decision \<times> 'net firewall" where
  "evaluate env packet now fw =
     evaluate_with_policy env
       (\<lambda>packet. let d = policy_decision env fw packet in (de_action d, de_rule_id d))
       packet now fw"

section \<open>Table invariants\<close>

definition flows_ok :: "shard \<Rightarrow> bool" where
  "flows_ok s \<longleftrightarrow> hm_ok (sh_flows s) \<and> index_ok fs_expires_at (sh_flows s) (sh_flow_expirations s)"

definition fragments_ok :: "shard \<Rightarrow> bool" where
  "fragments_ok s \<longleftrightarrow>
     hm_ok (sh_fragments s) \<and> index_ok gs_expires_at (sh_fragments s) (sh_fragment_expirations s)"

definition flow_deadline :: "shard \<Rightarrow> flow_key \<Rightarrow> nat option" where
  "flow_deadline s k = map_option fs_expires_at (hm_get (sh_flows s) k)"

definition fragment_deadline :: "shard \<Rightarrow> fragment_key \<Rightarrow> nat option" where
  "fragment_deadline s k = map_option gs_expires_at (hm_get (sh_fragments s) k)"

lemma remove_flow_get [table_simps]:
  "hm_get (sh_flows (remove_flow k s)) k' = (if k' = k then None else hm_get (sh_flows s) k')"
  by (auto simp: remove_flow_def table_simps split: option.split)

lemma remove_flow_frame [simp]:
  "sh_fragments (remove_flow k s) = sh_fragments s"
  "sh_fragment_expirations (remove_flow k s) = sh_fragment_expirations s"
  by (auto simp: remove_flow_def split: option.split)

lemma remove_flow_length: "length (sh_flows (remove_flow k s)) \<le> length (sh_flows s)"
  by (auto simp: remove_flow_def hm_remove_length_le split: option.split)

lemma remove_flow_ok: "flows_ok s \<Longrightarrow> flows_ok (remove_flow k s)"
  by (auto simp: flows_ok_def remove_flow_def index_ok_remove split: option.split)

lemma remove_fragment_get [table_simps]:
  "hm_get (sh_fragments (remove_fragment k s)) k' =
     (if k' = k then None else hm_get (sh_fragments s) k')"
  by (auto simp: remove_fragment_def table_simps split: option.split)

lemma remove_fragment_frame [simp]:
  "sh_flows (remove_fragment k s) = sh_flows s"
  "sh_flow_expirations (remove_fragment k s) = sh_flow_expirations s"
  by (auto simp: remove_fragment_def split: option.split)

lemma remove_fragment_length: "length (sh_fragments (remove_fragment k s)) \<le> length (sh_fragments s)"
  by (auto simp: remove_fragment_def hm_remove_length_le split: option.split)

lemma remove_fragment_ok: "fragments_ok s \<Longrightarrow> fragments_ok (remove_fragment k s)"
  by (auto simp: fragments_ok_def remove_fragment_def index_ok_remove split: option.split)

interpretation flow_table: deadline_table flow_deadline first_flow remove_flow flows_ok
proof unfold_locales
  fix s d k k' d'
  assume ok: "flows_ok s"
  show "flow_deadline s k = None" if "first_flow s = None"
    using ok that index_ok_first_None [of fs_expires_at "sh_flows s" _ k]
    by (simp add: flow_deadline_def flows_ok_def first_flow_def)
  show "flow_deadline s k = Some d" if "first_flow s = Some (d, k)"
    using ok that index_ok_first [of fs_expires_at "sh_flows s"]
    by (auto simp: flow_deadline_def flows_ok_def first_flow_def)
  show "d \<le> d'" if "first_flow s = Some (d, k)" "flow_deadline s k' = Some d'"
    using ok that index_ok_first_least [of fs_expires_at "sh_flows s"]
    by (auto simp: flow_deadline_def flows_ok_def first_flow_def)
  show "flow_deadline (remove_flow k s) k' = (if k' = k then None else flow_deadline s k')"
    by (simp add: flow_deadline_def table_simps)
  show "flows_ok (remove_flow k s)" using ok by (rule remove_flow_ok)
qed

interpretation fragment_table:
  deadline_table fragment_deadline first_fragment remove_fragment fragments_ok
proof unfold_locales
  fix s d k k' d'
  assume ok: "fragments_ok s"
  show "fragment_deadline s k = None" if "first_fragment s = None"
    using ok that index_ok_first_None [of gs_expires_at "sh_fragments s" _ k]
    by (simp add: fragment_deadline_def fragments_ok_def first_fragment_def)
  show "fragment_deadline s k = Some d" if "first_fragment s = Some (d, k)"
    using ok that index_ok_first [of gs_expires_at "sh_fragments s"]
    by (auto simp: fragment_deadline_def fragments_ok_def first_fragment_def)
  show "d \<le> d'" if "first_fragment s = Some (d, k)" "fragment_deadline s k' = Some d'"
    using ok that index_ok_first_least [of gs_expires_at "sh_fragments s"]
    by (auto simp: fragment_deadline_def fragments_ok_def first_fragment_def)
  show "fragment_deadline (remove_fragment k s) k' = (if k' = k then None else fragment_deadline s k')"
    by (simp add: fragment_deadline_def table_simps)
  show "fragments_ok (remove_fragment k s)" using ok by (rule remove_fragment_ok)
qed

lemma store_flow_get [table_simps]:
  "hm_get (sh_flows (store_flow k st s)) k' = (if k' = k then Some st else hm_get (sh_flows s) k')"
  by (auto simp: store_flow_def Let_def table_simps split: option.split)

lemma store_flow_frame [simp]:
  "sh_fragments (store_flow k st s) = sh_fragments s"
  "sh_fragment_expirations (store_flow k st s) = sh_fragment_expirations s"
  by (auto simp: store_flow_def Let_def split: option.split)

lemma store_flow_ok: "flows_ok s \<Longrightarrow> flows_ok (store_flow k st s)"
  by (auto simp: flows_ok_def store_flow_def Let_def index_ok_insert_new index_ok_insert_same
      index_ok_insert_replace split: option.split)

lemma store_flow_length:
  "length (sh_flows (store_flow k st s)) =
     (if hm_get (sh_flows s) k = None then Suc (length (sh_flows s)) else length (sh_flows s))"
  by (auto simp: store_flow_def Let_def hm_get_None_length hm_get_Some_length split: option.split)

text \<open>
  The invariant of one shard: both tables are indexed exactly, hold at most \<open>limit\<close> entries, hold
  only keys that hash to this shard, only flows in \<open>G\<close>, and only allowing fragment associations
  in \<open>H\<close>.  \<open>G\<close> and \<open>H\<close> are the flows and fragments the policy has granted.
\<close>

definition shard_inv :: "'net fw_env \<Rightarrow> nat \<Rightarrow> nat \<Rightarrow> nat \<Rightarrow> flow_key set \<Rightarrow> fragment_key set \<Rightarrow> shard \<Rightarrow> bool"
  where
  "shard_inv env n limit i G H s \<longleftrightarrow>
     flows_ok s \<and> fragments_ok s
     \<and> length (sh_flows s) \<le> limit \<and> length (sh_fragments s) \<le> limit
     \<and> (\<forall>k st. hm_get (sh_flows s) k = Some st \<longrightarrow> env_flow_hash env k mod n = i \<and> k \<in> G)
     \<and> (\<forall>k st. hm_get (sh_fragments s) k = Some st \<longrightarrow>
          env_fragment_hash env k mod n = i \<and> k \<in> H \<and> gs_action st = Allow)"

lemma shard_inv_default [simp]: "shard_inv env n limit i G H shard_default"
  by (simp add: shard_inv_def shard_default_def flows_ok_def fragments_ok_def)

lemma other_table_ok [simp]:
  "fragments_ok (remove_flow k s) = fragments_ok s"
  "fragments_ok (store_flow k st s) = fragments_ok s"
  "flows_ok (remove_fragment g s) = flows_ok s"
  by (simp_all add: flows_ok_def fragments_ok_def)

lemma shard_inv_remove_flow:
  "shard_inv env n limit i G H s \<Longrightarrow> shard_inv env n limit i G H (remove_flow k s)"
  using remove_flow_length [of k s]
  by (auto simp: shard_inv_def remove_flow_ok table_simps split: if_splits)

lemma shard_inv_remove_fragment:
  "shard_inv env n limit i G H s \<Longrightarrow> shard_inv env n limit i G H (remove_fragment k s)"
  using remove_fragment_length [of k s]
  by (auto simp: shard_inv_def remove_fragment_ok table_simps split: if_splits)

lemma shard_inv_expire:
  "shard_inv env n limit i G H s \<Longrightarrow> shard_inv env n limit i G H (expire now budget s)"
  by (simp add: expire_def sweep_preserves shard_inv_remove_flow shard_inv_remove_fragment)

lemma shard_inv_flowD:
  "shard_inv env n limit i G H s \<Longrightarrow> hm_get (sh_flows s) k = Some st \<Longrightarrow>
   env_flow_hash env k mod n = i \<and> k \<in> G"
  by (simp add: shard_inv_def)

lemma shard_inv_fragmentD:
  "shard_inv env n limit i G H s \<Longrightarrow> hm_get (sh_fragments s) k = Some st \<Longrightarrow>
   env_fragment_hash env k mod n = i \<and> k \<in> H \<and> gs_action st = Allow"
  by (simp add: shard_inv_def)

lemma shard_inv_restrict:
  assumes "shard_inv env n limit i G H s"
    and "\<And>k st. hm_get (sh_flows s) k = Some st \<Longrightarrow> k \<in> G'"
    and "\<And>k st. hm_get (sh_fragments s) k = Some st \<Longrightarrow> k \<in> H'"
  shows "shard_inv env n limit i G' H' s"
  using assms by (simp add: shard_inv_def)

lemma shard_inv_mono:
  "shard_inv env n limit i G H s \<Longrightarrow> G \<subseteq> G' \<Longrightarrow> H \<subseteq> H' \<Longrightarrow> shard_inv env n limit i G' H' s"
  by (auto simp: shard_inv_def)

lemma shard_inv_store_flow:
  assumes "shard_inv env n limit i G H s" and "env_flow_hash env k mod n = i" and "k \<in> G"
    and "hm_get (sh_flows s) k = None \<Longrightarrow> length (sh_flows s) < limit"
  shows "shard_inv env n limit i G H (store_flow k st s)"
  using assms
  by (auto simp: shard_inv_def store_flow_ok store_flow_length table_simps split: if_splits)

lemma evict_flow_if_full_inv:
  "shard_inv env n limit i G H s \<Longrightarrow> shard_inv env n limit i G H (evict_flow_if_full limit s)"
  by (auto simp: evict_flow_if_full_def shard_inv_remove_flow split: option.split)

lemma evict_flow_if_full_room:
  assumes "flows_ok s" and "0 < limit" and "length (sh_flows s) \<le> limit"
  shows "length (sh_flows (evict_flow_if_full limit s)) < limit"
proof (cases "length (sh_flows s) < limit")
  case True
  then show ?thesis by (simp add: evict_flow_if_full_def)
next
  case False
  show ?thesis
  proof (cases "first_flow s")
    case None
    then have "sh_flows s = []"
      using assms(1) by (auto simp: flows_ok_def first_flow_def intro: index_ok_empty)
    then show ?thesis using assms False by (simp add: evict_flow_if_full_def None)
  next
    case (Some e)
    obtain d k where e: "e = (d, k)" by (cases e)
    obtain st where "hm_get (sh_flows s) k = Some st"
      using flow_table.first_Some [OF assms(1), of d k] Some e by (auto simp: flow_deadline_def)
    then have "length (sh_flows (remove_flow k s)) < length (sh_flows s)"
      by (simp add: remove_flow_def hm_remove_length_less)
    then show ?thesis using assms(3) False Some e by (simp add: evict_flow_if_full_def)
  qed
qed

definition fw_inv :: "'net fw_env \<Rightarrow> flow_key set \<Rightarrow> fragment_key set \<Rightarrow> 'net firewall \<Rightarrow> bool" where
  "fw_inv env G H fw \<longleftrightarrow>
     0 < length (fw_shards fw) \<and> 0 < fw_per_shard_limit fw
     \<and> (\<forall>i < length (fw_shards fw).
          shard_inv env (length (fw_shards fw)) (fw_per_shard_limit fw) i G H (fw_shards fw ! i))"

lemma fw_inv_shard:
  "fw_inv env G H fw \<Longrightarrow> i < length (fw_shards fw) \<Longrightarrow>
   shard_inv env (length (fw_shards fw)) (fw_per_shard_limit fw) i G H (fw_shards fw ! i)"
  by (simp add: fw_inv_def)

lemma fw_inv_set_shard:
  assumes "fw_inv env G H fw"
    and "shard_inv env (length (fw_shards fw)) (fw_per_shard_limit fw) i G H s"
  shows "fw_inv env G H (set_shard i s fw)"
proof -
  have "shard_inv env (length (fw_shards fw)) (fw_per_shard_limit fw) j G H
      ((fw_shards fw)[i := s] ! j)" if "j < length (fw_shards fw)" for j
    using assms that by (cases "j = i") (simp_all add: fw_inv_def)
  then show ?thesis using assms(1) by (simp add: fw_inv_def set_shard_def)
qed

lemma set_shard_frame [simp]:
  "fw_rules (set_shard i s fw) = fw_rules fw" "fw_default (set_shard i s fw) = fw_default fw"
  "fw_revision (set_shard i s fw) = fw_revision fw"
  "fw_per_shard_limit (set_shard i s fw) = fw_per_shard_limit fw"
  "fw_flow_timeout (set_shard i s fw) = fw_flow_timeout fw"
  "fw_tcp_timeout (set_shard i s fw) = fw_tcp_timeout fw"
  "fw_fragment_timeout (set_shard i s fw) = fw_fragment_timeout fw"
  "fw_expiry_budget (set_shard i s fw) = fw_expiry_budget fw"
  "length (fw_shards (set_shard i s fw)) = length (fw_shards fw)"
  by (simp_all add: set_shard_def)

lemma shard_index_less:
  assumes "fw_inv env G H fw"
  shows "flow_shard_index env fw k < length (fw_shards fw)"
    "fragment_shard_index env fw g < length (fw_shards fw)"
  using assms by (simp_all add: fw_inv_def flow_shard_index_def fragment_shard_index_def)

lemma fw_inv_mono:
  "fw_inv env G H fw \<Longrightarrow> G \<subseteq> G' \<Longrightarrow> H \<subseteq> H' \<Longrightarrow> fw_inv env G' H' fw"
  by (auto simp: fw_inv_def intro: shard_inv_mono)

section \<open>Every operation keeps the invariant\<close>

lemma new_firewall_inv: "fw_inv env G H (new_firewall revision fallback rules state_limit shard_count)"
proof -
  have "0 < div_ceil (max state_limit 1) (max shard_count 1)"
    by (rule div_ceil_pos) simp_all
  then show ?thesis by (simp add: fw_inv_def new_firewall_def Let_def)
qed

lemma invalidate_state_inv: "fw_inv env G H fw \<Longrightarrow> fw_inv env G' H' (invalidate_state fw)"
  by (simp add: fw_inv_def invalidate_state_def)

lemma replace_inv:
  "fw_inv env G H fw \<Longrightarrow> replace revision fallback rules fw = (True, fw') \<Longrightarrow> fw_inv env G' H' fw'"
  by (auto simp: fw_inv_def replace_def invalidate_state_def split: if_splits)

lemma existing_direction_cases:
  fixes packet key initiator now and fw :: "'net firewall" and env
  defines "shard \<equiv> expire now (fw_expiry_budget fw) (fw_shards fw ! flow_shard_index env fw key)"
  assumes "existing_direction env packet key initiator now fw = (r, fw')"
  shows "\<exists>s'. fw' = set_shard (flow_shard_index env fw key) s' fw
    \<and> (s' = shard \<or> s' = remove_flow key shard
      \<or> (\<exists>st st'. hm_get (sh_flows shard) key = Some st \<and> s' = store_flow key st' shard))
    \<and> (r = None \<or> r = Some denied
      \<or> r = Some stateful_allow
        \<and> (\<exists>st. hm_get (sh_flows shard) key = Some st \<and> now < fs_expires_at st))"
  using assms(2) unfolding existing_direction_def shard_def [symmetric] Let_def
  by (auto split: option.splits if_splits)

lemma existing_direction_inv:
  assumes "fw_inv env G H fw" and "existing_direction env packet key initiator now fw = (r, fw')"
  shows "fw_inv env G H fw'"
proof -
  let ?i = "flow_shard_index env fw key"
  let ?s = "expire now (fw_expiry_budget fw) (fw_shards fw ! ?i)"
  let ?inv = "shard_inv env (length (fw_shards fw)) (fw_per_shard_limit fw) ?i G H"
  have s: "?inv ?s"
    using assms(1) by (intro shard_inv_expire fw_inv_shard) (simp_all add: shard_index_less)
  have "?inv (store_flow key st' ?s)" if "hm_get (sh_flows ?s) key = Some st" for st st'
    using s that shard_inv_flowD [OF s that] by (intro shard_inv_store_flow) simp_all
  moreover have "?inv (remove_flow key ?s)" using s by (rule shard_inv_remove_flow)
  moreover obtain s' where "fw' = set_shard ?i s' fw" and "s' = ?s \<or> s' = remove_flow key ?s
      \<or> (\<exists>st st'. hm_get (sh_flows ?s) key = Some st \<and> s' = store_flow key st' ?s)"
    using existing_direction_cases [OF assms(2)] by blast
  ultimately show ?thesis using assms(1) s by (metis fw_inv_set_shard)
qed

lemma evaluate_existing_inv:
  assumes "fw_inv env G H fw" and "evaluate_existing env packet flow now fw = (r, fw')"
  shows "fw_inv env G H fw'"
  using assms unfolding evaluate_existing_def
  by (auto split: prod.splits option.splits intro: existing_direction_inv)

lemma insert_flow_inv:
  assumes "fw_inv env G H fw" and "flow \<in> G"
  shows "fw_inv env G H (insert_flow env flow packet now fw)"
proof -
  let ?i = "flow_shard_index env fw flow"
  let ?s = "expire now (fw_expiry_budget fw) (fw_shards fw ! ?i)"
  let ?inv = "shard_inv env (length (fw_shards fw)) (fw_per_shard_limit fw) ?i G H"
  have s: "?inv ?s"
    using assms(1) by (intro shard_inv_expire fw_inv_shard) (simp_all add: shard_index_less)
  then have e: "?inv (evict_flow_if_full (fw_per_shard_limit fw) ?s)"
    by (rule evict_flow_if_full_inv)
  have room: "length (sh_flows (evict_flow_if_full (fw_per_shard_limit fw) ?s))
      < fw_per_shard_limit fw"
    using s assms(1) by (intro evict_flow_if_full_room) (simp_all add: shard_inv_def fw_inv_def)
  have "?inv (store_flow flow st (evict_flow_if_full (fw_per_shard_limit fw) ?s))" for st
    using e assms(2) room by (intro shard_inv_store_flow) (simp_all add: flow_shard_index_def)
  then show ?thesis using assms(1) by (simp add: insert_flow_def Let_def fw_inv_set_shard)
qed

lemma insert_fragment_shard_inv:
  assumes "shard_inv env n limit i G H s" and "0 < limit" and "env_fragment_hash env key mod n = i"
    and "key \<in> H" and "hm_get (sh_fragments s) key = None" and "length (sh_fragments s) < limit"
    and "gs_action st = Allow"
  shows "shard_inv env n limit i G H
    (s\<lparr>sh_fragment_expirations := bset_insert (gs_expires_at st, key) (sh_fragment_expirations s),
       sh_fragments := hm_insert key st (sh_fragments s)\<rparr>)"
  using assms hm_get_None_length [of "sh_fragments s" key st]
  by (simp add: shard_inv_def flows_ok_def fragments_ok_def index_ok_insert_new table_simps)

lemma fragment_room_inv:
  "shard_inv env n limit i G H s \<Longrightarrow> shard_inv env n limit i G H (fragment_room limit' key s)"
  by (auto simp: fragment_room_def Let_def shard_inv_remove_fragment split: option.split)

lemma fragment_room_absent: "hm_get (sh_fragments (fragment_room limit key s)) key = None"
  by (auto simp: fragment_room_def Let_def table_simps split: option.split)

lemma fragment_room_length:
  assumes "fragments_ok s" and "0 < limit" and "length (sh_fragments s) \<le> limit"
  shows "length (sh_fragments (fragment_room limit key s)) < limit"
proof -
  let ?r = "remove_fragment key s"
  have ok: "fragments_ok ?r" using assms(1) by (rule remove_fragment_ok)
  have le: "length (sh_fragments ?r) \<le> limit"
    using remove_fragment_length [of key s] assms(3) by simp
  show ?thesis
  proof (cases "first_fragment ?r")
    case None
    then have "sh_fragments ?r = []"
      using ok by (auto simp: fragments_ok_def first_fragment_def intro: index_ok_empty)
    then show ?thesis using assms(2) by (simp add: fragment_room_def None)
  next
    case (Some e)
    obtain d k where e: "e = (d, k)" by (cases e)
    obtain st where "hm_get (sh_fragments ?r) k = Some st"
      using fragment_table.first_Some [OF ok, of d k] Some e by (auto simp: fragment_deadline_def)
    then have "length (sh_fragments (remove_fragment k ?r)) < length (sh_fragments ?r)"
      by (simp add: remove_fragment_def hm_remove_length_less del: remove_fragment_frame)
    then show ?thesis using le Some e by (simp add: fragment_room_def Let_def)
  qed
qed

lemma insert_fragment_inv:
  assumes "fw_inv env G H fw" and "fragment_key_of packet fragment \<in> H"
  shows "fw_inv env G H (insert_fragment env packet fragment Allow rule_id now fw)"
proof -
  let ?key = "fragment_key_of packet fragment"
  let ?i = "fragment_shard_index env fw ?key"
  let ?inv = "shard_inv env (length (fw_shards fw)) (fw_per_shard_limit fw) ?i G H"
  let ?s = "fragment_room (fw_per_shard_limit fw) ?key (fw_shards fw ! ?i)"
  let ?st = "\<lparr>gs_expires_at = saturating_add now (fw_fragment_timeout fw), gs_action = Allow,
    gs_rule_id = rule_id\<rparr>"
  have s: "?inv (fw_shards fw ! ?i)"
    using assms(1) by (intro fw_inv_shard) (simp_all add: shard_index_less)
  then have r: "?inv ?s" by (rule fragment_room_inv)
  have "length (sh_fragments ?s) < fw_per_shard_limit fw"
    using s assms(1) by (intro fragment_room_length) (simp_all add: shard_inv_def fw_inv_def)
  then have "?inv (?s\<lparr>sh_fragment_expirations :=
        bset_insert (gs_expires_at ?st, ?key) (sh_fragment_expirations ?s),
      sh_fragments := hm_insert ?key ?st (sh_fragments ?s)\<rparr>)"
    using assms by (intro insert_fragment_shard_inv [OF r])
      (simp_all add: fragment_shard_index_def fragment_room_absent fw_inv_def)
  then show ?thesis using assms(1) by (simp add: insert_fragment_def Let_def fw_inv_set_shard)
qed

lemma evaluate_later_fragment_inv:
  assumes "fw_inv env G H fw" and "evaluate_later_fragment env packet fragment now fw = (d, fw')"
  shows "fw_inv env G H fw'"
    and "de_action d = Allow \<Longrightarrow> de_stateful d \<and> fragment_key_of packet fragment \<in> H"
proof -
  let ?key = "fragment_key_of packet fragment"
  let ?i = "fragment_shard_index env fw ?key"
  have s: "shard_inv env (length (fw_shards fw)) (fw_per_shard_limit fw) ?i G H (fw_shards fw ! ?i)"
    using assms(1) by (intro fw_inv_shard) (simp_all add: shard_index_less)
  show "fw_inv env G H fw'"
    using assms s fw_inv_set_shard [OF assms(1) shard_inv_remove_fragment [OF s]]
    by (auto simp: evaluate_later_fragment_def Let_def split: option.splits if_splits)
  show "de_stateful d \<and> ?key \<in> H" if "de_action d = Allow"
    using assms(2) that shard_inv_fragmentD [OF s, of ?key]
    by (auto simp: evaluate_later_fragment_def Let_def denied_def split: option.splits if_splits)
qed

lemma fold_remove_fragment_get:
  "hm_get (sh_fragments (fold remove_fragment ks s)) k =
     (if k \<in> set ks then None else hm_get (sh_fragments s) k)"
  by (induction ks arbitrary: s) (auto simp: table_simps)

lemma fold_remove_fragment_flows: "sh_flows (fold remove_fragment ks s) = sh_flows s"
  by (induction ks arbitrary: s) auto

lemma forget_in_shard_inv:
  assumes "shard_inv env n limit i G H s"
  shows "shard_inv env n limit i (G - {key, reverse key}) {g \<in> H. \<not> concerns_flow key g}
    (forget_in_shard key s)"
proof -
  let ?s = "remove_flow (reverse key) (remove_flow key s)"
  let ?ks = "filter (concerns_flow key) (map fst (sh_fragments ?s))"
  have eq: "forget_in_shard key s = fold remove_fragment ?ks ?s"
    by (simp add: forget_in_shard_def Let_def)
  have inv: "shard_inv env n limit i G H (fold remove_fragment ?ks ?s)"
    using assms by (intro fold_preserves [where P = "shard_inv env n limit i G H"]
        shard_inv_remove_fragment shard_inv_remove_flow)
  have flows: "k \<noteq> key \<and> k \<noteq> reverse key"
    if "hm_get (sh_flows (fold remove_fragment ?ks ?s)) k = Some st" for k st
    using that by (auto simp: fold_remove_fragment_flows table_simps split: if_splits)
  have frags: "\<not> concerns_flow key g"
    if "hm_get (sh_fragments (fold remove_fragment ?ks ?s)) g = Some st" for g st
  proof
    assume c: "concerns_flow key g"
    from that have get: "hm_get (sh_fragments s) g = Some st" and out: "g \<notin> set ?ks"
      unfolding fold_remove_fragment_get by (simp_all split: if_splits)
    have "g \<in> set (map fst (sh_fragments ?s))"
      using imageI [OF map_of_SomeD [OF get], of fst] by simp
    then have "g \<in> set ?ks" using c by simp
    with out show False by blast
  qed
  show ?thesis unfolding eq
  proof (rule shard_inv_restrict [OF inv])
    fix k st
    assume a: "hm_get (sh_flows (fold remove_fragment ?ks ?s)) k = Some st"
    show "k \<in> G - {key, reverse key}" using flows [OF a] shard_inv_flowD [OF inv a] by simp
  next
    fix g st
    assume a: "hm_get (sh_fragments (fold remove_fragment ?ks ?s)) g = Some st"
    show "g \<in> {g \<in> H. \<not> concerns_flow key g}"
      using frags [OF a] shard_inv_fragmentD [OF inv a] by simp
  qed
qed

lemma forget_flow_inv:
  assumes "fw_inv env G H fw"
  shows "fw_inv env (G - {key, reverse key}) {g \<in> H. \<not> concerns_flow key g} (forget_flow key fw)"
  using assms by (simp add: fw_inv_def forget_flow_def forget_in_shard_inv)

section \<open>Authorization\<close>

text \<open>The grants one evaluation records: a packet allowed by the policy grants its flow and, when more
  fragments follow, its fragment key.\<close>

definition policy_allowed :: "decision \<Rightarrow> bool" where
  "policy_allowed d \<longleftrightarrow> de_action d = Allow \<and> \<not> de_stateful d"

definition granted_flows :: "decision \<Rightarrow> parsed_packet \<Rightarrow> flow_key set" where
  "granted_flows d packet = (if policy_allowed d then set_option (from_packet packet) else {})"

definition granted_fragments :: "decision \<Rightarrow> parsed_packet \<Rightarrow> fragment_key set" where
  "granted_fragments d packet =
     (if policy_allowed d then fragment_key_of packet ` set_option (pk_fragment packet) else {})"

text \<open>Why a packet may pass: the policy allowed a valid initiation, or one of the three kinds of state
  refers to an earlier grant.\<close>

definition justified :: "(parsed_packet \<Rightarrow> action \<times> uuid option) \<Rightarrow> flow_key set \<Rightarrow> fragment_key set
    \<Rightarrow> parsed_packet \<Rightarrow> decision \<Rightarrow> bool" where
  "justified policy G H packet d \<longleftrightarrow>
     (\<not> de_stateful d \<and> valid_initiation packet \<and> fst (policy packet) = Allow \<and> \<not> later_fragment packet)
     \<or> (de_stateful d \<and>
        ((\<exists>f. pk_fragment packet = Some f \<and> fg_offset f \<noteq> 0 \<and> fragment_key_of packet f \<in> H)
         \<or> (\<exists>r. pk_related_flow packet = Some r \<and> (r \<in> G \<or> reverse r \<in> G))
         \<or> (\<exists>k. from_packet packet = Some k \<and> (k \<in> G \<or> reverse k \<in> G))))"

lemma has_state_granted:
  assumes "fw_inv env G H fw" and "has_state env fw k now"
  shows "k \<in> G"
proof -
  let ?i = "flow_shard_index env fw k"
  have s: "shard_inv env (length (fw_shards fw)) (fw_per_shard_limit fw) ?i G H (fw_shards fw ! ?i)"
    using assms(1) by (intro fw_inv_shard) (simp_all add: shard_index_less)
  from assms(2) obtain st where "hm_get (sh_flows (fw_shards fw ! ?i)) k = Some st"
    by (auto simp: has_state_def split: option.splits)
  with shard_inv_flowD [OF s] show ?thesis by blast
qed

lemma existing_direction_granted:
  assumes "fw_inv env G H fw" and "existing_direction env packet k init now fw = (Some d, fw')"
  shows "d = denied \<or> d = stateful_allow \<and> k \<in> G"
proof -
  let ?i = "flow_shard_index env fw k"
  let ?s = "expire now (fw_expiry_budget fw) (fw_shards fw ! ?i)"
  have s: "shard_inv env (length (fw_shards fw)) (fw_per_shard_limit fw) ?i G H ?s"
    using assms(1) by (intro shard_inv_expire fw_inv_shard) (simp_all add: shard_index_less)
  from existing_direction_cases [OF assms(2)]
  have "d = denied \<or> d = stateful_allow \<and> (\<exists>st. hm_get (sh_flows ?s) k = Some st)" by blast
  then show ?thesis using shard_inv_flowD [OF s] by blast
qed

lemma evaluate_existing_granted:
  assumes "fw_inv env G H fw" and "evaluate_existing env packet k now fw = (Some d, fw')"
  shows "d = denied \<or> d = stateful_allow \<and> (k \<in> G \<or> reverse k \<in> G)"
proof (cases "existing_direction env packet k True now fw")
  case (Pair r fw1)
  show ?thesis
  proof (cases r)
    case None
    then have "existing_direction env packet (reverse k) False now fw1 = (Some d, fw')"
      using assms(2) Pair by (simp add: evaluate_existing_def)
    with existing_direction_inv [OF assms(1)] Pair None show ?thesis
      using existing_direction_granted by blast
  next
    case (Some d')
    then have "existing_direction env packet k True now fw = (Some d, fw')"
      using assms(2) Pair by (simp add: evaluate_existing_def)
    then show ?thesis using existing_direction_granted [OF assms(1)] by blast
  qed
qed

lemma evaluate_with_policy_cases:
  assumes "evaluate_with_policy env policy packet now fw = (d, fw')"
  obtains
    (later) f where "pk_fragment packet = Some f" "fg_offset f \<noteq> 0"
      "evaluate_later_fragment env packet f now fw = (d, fw')"
  | (related) r where "\<not> later_fragment packet" "pk_related_flow packet = Some r"
      "has_state env fw r now \<or> has_state env fw (reverse r) now" "d = stateful_allow" "fw' = fw"
  | (existing) k where "\<not> later_fragment packet" "from_packet packet = Some k"
      "evaluate_existing env packet k now fw = (Some d, fw')"
  | (invalid) k where "\<not> later_fragment packet" "from_packet packet = Some k"
      "evaluate_existing env packet k now fw = (None, fw')" "d = denied"
  | (initiation) k fw1 where "\<not> later_fragment packet" "from_packet packet = Some k"
      "evaluate_existing env packet k now fw = (None, fw1)" "valid_initiation packet"
      "initiate env policy packet k now fw1 = (d, fw')"
proof (cases "later_fragment packet")
  case True
  then show thesis using assms later
    by (auto simp: evaluate_with_policy_def later_fragment_def split: option.splits)
next
  case False
  then obtain k where k: "from_packet packet = Some k"
    by (auto simp: from_packet_def later_fragment_def split: option.splits)
  have none: "(case pk_fragment packet of None \<Rightarrow> None
      | Some fragment \<Rightarrow> if fg_offset fragment \<noteq> 0 then Some fragment else None) = None"
    using False by (auto simp: later_fragment_def split: option.splits)
  show thesis
  proof (cases "case pk_related_flow packet of None \<Rightarrow> False
      | Some r \<Rightarrow> has_state env fw r now \<or> has_state env fw (reverse r) now")
    case True
    then obtain r where r: "pk_related_flow packet = Some r"
        "has_state env fw r now \<or> has_state env fw (reverse r) now"
      by (auto split: option.splits)
    have "evaluate_with_policy env policy packet now fw = (stateful_allow, fw)"
      unfolding evaluate_with_policy_def none using True by simp
    then have "d = stateful_allow" "fw' = fw" using assms by simp_all
    then show thesis using related [OF False r] by blast
  next
    case nr: False
    obtain r fw1 where ex: "evaluate_existing env packet k now fw = (r, fw1)" by fastforce
    have eq: "evaluate_with_policy env policy packet now fw =
        (case r of Some decision \<Rightarrow> (decision, fw1)
         | None \<Rightarrow> if \<not> valid_initiation packet then (denied, fw1)
             else initiate env policy packet k now fw1)"
      unfolding evaluate_with_policy_def none using nr k ex
      by (simp split: option.split)
    show thesis
    proof (cases r)
      case None
      show thesis
      proof (cases "valid_initiation packet")
        case True
        then have "initiate env policy packet k now fw1 = (d, fw')" using assms eq None by simp
        then show thesis using initiation [OF False k _ True] ex None by blast
      next
        case inv: False
        then have "fw' = fw1" "d = denied" using assms eq None by simp_all
        then show thesis using invalid [OF False k] ex None by blast
      qed
    next
      case (Some d')
      then have "d' = d" "fw1 = fw'" using assms eq by simp_all
      then show thesis using existing [OF False k] ex Some by blast
    qed
  qed
qed

lemma initiate_inv:
  assumes "fw_inv env G H fw" and "initiate env policy packet flow now fw = (d, fw')"
    and "from_packet packet = Some flow"
  shows "fw_inv env (G \<union> granted_flows d packet) (H \<union> granted_fragments d packet) fw'"
    and "de_action d = fst (policy packet)" "\<not> de_stateful d"
proof -
  obtain action rule_id where pol: "policy packet = (action, rule_id)" by fastforce
  have d: "d = \<lparr>de_action = action, de_rule_id = rule_id, de_stateful = False\<rparr>"
    using assms(2) by (simp add: initiate_def pol Let_def)
  then show "de_action d = fst (policy packet)" "\<not> de_stateful d" by (simp_all add: pol)
  let ?G = "G \<union> granted_flows d packet" and ?H = "H \<union> granted_fragments d packet"
  have base: "fw_inv env ?G ?H fw" using assms(1) by (rule fw_inv_mono) auto
  show "fw_inv env ?G ?H fw'"
  proof (cases action)
    case Allow
    have G: "flow \<in> ?G" using assms(3) by (simp add: d Allow granted_flows_def policy_allowed_def)
    let ?fw1 = "if pk_protocol packet \<in> {TCP, UDP, ICMP_V4, ICMP_V6}
      then insert_flow env flow packet now fw else fw"
    have fw1: "fw_inv env ?G ?H ?fw1" using base G by (simp add: insert_flow_inv)
    show ?thesis
    proof (cases "pk_fragment packet")
      case None
      then show ?thesis using assms(2) fw1 by (simp add: initiate_def pol Allow Let_def)
    next
      case (Some f)
      have "fragment_key_of packet f \<in> ?H"
        using Some by (simp add: d Allow granted_fragments_def policy_allowed_def)
      then have "fw_inv env ?G ?H (insert_fragment env packet f Allow rule_id now ?fw1)"
        using fw1 by (intro insert_fragment_inv)
      then show ?thesis using assms(2) fw1 Some
        by (simp add: initiate_def pol Allow Let_def split: if_splits)
    qed
  next
    case Deny
    then show ?thesis using assms(2) base by (simp add: initiate_def pol Let_def)
  qed
qed

lemma granted_nothing:
  "de_stateful d \<or> de_action d = Deny \<Longrightarrow> granted_flows d packet = {} \<and> granted_fragments d packet = {}"
  by (auto simp: granted_flows_def granted_fragments_def policy_allowed_def)

lemma evaluate_with_policy_sound:
  assumes "fw_inv env G H fw" and "evaluate_with_policy env policy packet now fw = (d, fw')"
  shows "fw_inv env (G \<union> granted_flows d packet) (H \<union> granted_fragments d packet) fw'
    \<and> (de_action d = Allow \<longrightarrow> justified policy G H packet d)"
  using assms(2)
proof (cases rule: evaluate_with_policy_cases)
  case (later f)
  note l = evaluate_later_fragment_inv [OF assms(1) later(3)]
  have "de_stateful d \<or> de_action d = Deny" using l(2) by (cases "de_action d") auto
  then show ?thesis using l later(1,2) granted_nothing [of d packet] by (auto simp: justified_def)
next
  case (related r)
  then show ?thesis using assms(1) has_state_granted [OF assms(1)]
      granted_nothing [of d packet] by (auto simp: justified_def stateful_allow_def)
next
  case (existing k)
  have inv: "fw_inv env G H fw'" using assms(1) existing(3) by (rule evaluate_existing_inv)
  have "d = denied \<or> d = stateful_allow \<and> (k \<in> G \<or> reverse k \<in> G)"
    using assms(1) existing(3) by (rule evaluate_existing_granted)
  then show ?thesis using inv existing(2) granted_nothing [of d packet]
    by (auto simp: justified_def stateful_allow_def denied_def)
next
  case (invalid k)
  have "fw_inv env G H fw'" using assms(1) invalid(3) by (rule evaluate_existing_inv)
  then show ?thesis using invalid(4) granted_nothing [of d packet] by (simp add: denied_def)
next
  case (initiation k fw1)
  have "fw_inv env G H fw1" using assms(1) initiation(3) by (rule evaluate_existing_inv)
  note i = initiate_inv [OF this initiation(5,2)]
  then show ?thesis using initiation(1,4) by (simp add: justified_def)
qed

section \<open>Lookups\<close>

definition flow_lookup :: "'net fw_env \<Rightarrow> 'net firewall \<Rightarrow> flow_key \<Rightarrow> flow_state option" where
  "flow_lookup env fw k = hm_get (sh_flows (fw_shards fw ! flow_shard_index env fw k)) k"

lemma has_state_lookup:
  "has_state env fw k now \<longleftrightarrow> (\<exists>st. flow_lookup env fw k = Some st \<and> now < fs_expires_at st)"
  by (auto simp: has_state_def flow_lookup_def split: option.splits)

lemma flow_shard_index_set_shard [simp]:
  "flow_shard_index env (set_shard i s fw) k = flow_shard_index env fw k"
  by (simp add: flow_shard_index_def)

lemma flow_lookup_set_shard:
  assumes "i < length (fw_shards fw)"
  shows "flow_lookup env (set_shard i s fw) k =
    (if flow_shard_index env fw k = i then hm_get (sh_flows s) k else flow_lookup env fw k)"
  using assms by (simp add: flow_lookup_def set_shard_def flow_shard_index_def)

lemma reverse_reverse [simp]: "reverse (reverse k) = k"
  by (simp add: reverse_def)

lemma expire_flow_deadline:
  assumes "flows_ok s" and "flow_deadline s k = Some d" and "now < d"
  shows "flow_deadline (expire now budget s) k = Some d"
proof -
  let ?s = "sweep first_flow remove_flow now budget s"
  have "flow_deadline ?s k = Some d" using assms by (rule flow_table.sweep_keeps_live)
  moreover have "sh_flows (sweep first_fragment remove_fragment now budget ?s) = sh_flows ?s"
    by (rule sweep_preserves) simp_all
  ultimately show ?thesis by (simp add: expire_def flow_deadline_def)
qed

lemma expire_flow_subset:
  assumes "flows_ok s" and "flow_deadline (expire now budget s) k = Some d"
  shows "flow_deadline s k = Some d"
proof -
  let ?s = "sweep first_flow remove_flow now budget s"
  have "sh_flows (sweep first_fragment remove_fragment now budget ?s) = sh_flows ?s"
    by (rule sweep_preserves) simp_all
  then have "flow_deadline ?s k = Some d"
    using assms(2) by (simp add: expire_def flow_deadline_def)
  then show ?thesis using assms(1) flow_table.sweep_subset by blast
qed

lemma fw_inv_flows_ok: "fw_inv env G H fw \<Longrightarrow> flows_ok (fw_shards fw ! flow_shard_index env fw k)"
  using fw_inv_shard [of env G H fw "flow_shard_index env fw k"]
  by (simp add: shard_index_less shard_inv_def)

text \<open>A live entry makes the direction it is found in pass, unless the TCP phase refuses.\<close>

lemma existing_direction_live:
  assumes inv: "fw_inv env G H fw" and live: "has_state env fw k now"
    and nt: "pk_protocol packet \<noteq> TCP"
  shows "fst (existing_direction env packet k init now fw) = Some stateful_allow"
proof -
  let ?s = "fw_shards fw ! flow_shard_index env fw k"
  obtain st where "flow_lookup env fw k = Some st" "now < fs_expires_at st"
    using live by (auto simp: has_state_lookup)
  then have "flow_deadline (expire now (fw_expiry_budget fw) ?s) k = Some (fs_expires_at st)"
    using fw_inv_flows_ok [OF inv] by (intro expire_flow_deadline)
      (auto simp: flow_deadline_def flow_lookup_def)
  then obtain st' where "hm_get (sh_flows (expire now (fw_expiry_budget fw) ?s)) k = Some st'"
      "fs_expires_at st' = fs_expires_at st"
    by (auto simp: flow_deadline_def)
  then show ?thesis using nt \<open>now < fs_expires_at st\<close>
    by (simp add: existing_direction_def Let_def)
qed

text \<open>An absent or expired entry never does, and skipping it keeps every live entry.\<close>

lemma existing_direction_dead:
  assumes inv: "fw_inv env G H fw" and dead: "\<not> has_state env fw k now"
  shows "fst (existing_direction env packet k init now fw) = None"
proof -
  let ?s = "fw_shards fw ! flow_shard_index env fw k"
  have "fs_expires_at st \<le> now"
    if "hm_get (sh_flows (expire now (fw_expiry_budget fw) ?s)) k = Some st" for st
    using that dead expire_flow_subset [OF fw_inv_flows_ok [OF inv, of k], where k = k and now = now
        and budget = "fw_expiry_budget fw" and d = "fs_expires_at st"]
    by (auto simp: flow_deadline_def has_state_def not_less split: option.splits)
  then show ?thesis by (auto simp: existing_direction_def Let_def split: option.splits)
qed

lemma existing_direction_keeps_live:
  assumes inv: "fw_inv env G H fw" and dead: "\<not> has_state env fw k now"
    and live: "has_state env fw j now"
    and step: "existing_direction env packet k init now fw = (None, fw')"
  shows "has_state env fw' j now"
proof -
  let ?i = "flow_shard_index env fw k"
  let ?s = "expire now (fw_expiry_budget fw) (fw_shards fw ! ?i)"
  have jk: "j \<noteq> k" using dead live by blast
  have i: "?i < length (fw_shards fw)" using inv by (rule shard_index_less)
  obtain s' where fw': "fw' = set_shard ?i s' fw" and s': "s' = ?s \<or> s' = remove_flow k ?s"
    using step by (auto simp: existing_direction_def Let_def split: option.splits if_splits)
  obtain st where st: "flow_lookup env fw j = Some st" "now < fs_expires_at st"
    using live by (auto simp: has_state_lookup)
  show ?thesis
  proof (cases "flow_shard_index env fw j = ?i")
    case True
    then have "flow_deadline ?s j = Some (fs_expires_at st)"
      using st fw_inv_flows_ok [OF inv] by (intro expire_flow_deadline)
        (simp_all add: flow_deadline_def flow_lookup_def)
    then have "flow_deadline s' j = Some (fs_expires_at st)"
      using s' jk by (auto simp: flow_deadline_def table_simps)
    then show ?thesis using True fw' i st(2)
      by (auto simp: has_state_lookup flow_lookup_set_shard flow_deadline_def)
  next
    case False
    then show ?thesis using fw' i st by (simp add: has_state_lookup flow_lookup_set_shard)
  qed
qed

lemma existing_direction_shrinks:
  assumes inv: "fw_inv env G H fw"
    and step: "existing_direction env packet k init now fw = (None, fw')"
    and live: "has_state env fw' j now"
  shows "has_state env fw j now"
proof -
  let ?i = "flow_shard_index env fw k"
  let ?s = "expire now (fw_expiry_budget fw) (fw_shards fw ! ?i)"
  have i: "?i < length (fw_shards fw)" using inv by (rule shard_index_less)
  obtain s' where fw': "fw' = set_shard ?i s' fw" and s': "s' = ?s \<or> s' = remove_flow k ?s"
    using step by (auto simp: existing_direction_def Let_def split: option.splits if_splits)
  obtain st where st: "flow_lookup env fw' j = Some st" "now < fs_expires_at st"
    using live by (auto simp: has_state_lookup)
  show ?thesis
  proof (cases "flow_shard_index env fw j = ?i")
    case True
    then have "flow_deadline s' j = Some (fs_expires_at st)"
      using st(1) fw' i by (simp add: flow_lookup_set_shard flow_deadline_def)
    then have "flow_deadline ?s j = Some (fs_expires_at st)"
      using s' by (auto simp: flow_deadline_def table_simps split: if_splits)
    then have "flow_deadline (fw_shards fw ! ?i) j = Some (fs_expires_at st)"
      using fw_inv_flows_ok [OF inv] expire_flow_subset by blast
    then show ?thesis using True st(2) by (auto simp: has_state_lookup flow_lookup_def flow_deadline_def)
  next
    case False
    then show ?thesis using fw' i st by (simp add: has_state_lookup flow_lookup_set_shard)
  qed
qed

lemma evaluate_existing_live:
  assumes inv: "fw_inv env G H fw" and nt: "pk_protocol packet \<noteq> TCP"
    and live: "has_state env fw k now \<or> has_state env fw (reverse k) now"
  shows "\<exists>fw'. evaluate_existing env packet k now fw = (Some stateful_allow, fw')"
proof (cases "has_state env fw k now")
  case True
  then show ?thesis using existing_direction_live [OF inv True nt, of True]
    by (cases "existing_direction env packet k True now fw") (simp add: evaluate_existing_def)
next
  case False
  then obtain fw1 where e: "existing_direction env packet k True now fw = (None, fw1)"
    using existing_direction_dead [OF inv False, of packet True]
    by (cases "existing_direction env packet k True now fw") simp
  have "has_state env fw1 (reverse k) now"
    using existing_direction_keeps_live [OF inv False _ e] live False by blast
  then have "fst (existing_direction env packet (reverse k) False now fw1) = Some stateful_allow"
    using existing_direction_inv [OF inv e] nt by (intro existing_direction_live)
  then show ?thesis using e
    by (cases "existing_direction env packet (reverse k) False now fw1")
      (simp add: evaluate_existing_def)
qed

section \<open>Runs\<close>

text \<open>
  Every history of a firewall: built by \<open>new\<close>, then any sequence of calls.  \<open>G\<close> and
  \<open>H\<close> collect the policy's grants since the last replacement or invalidation, without those
  that were forgotten.
\<close>

inductive fw_reachable :: "'net fw_env \<Rightarrow> 'net firewall \<Rightarrow> flow_key set \<Rightarrow> fragment_key set \<Rightarrow> bool"
  for env where
  start: "fw_reachable env (new_firewall revision fallback rules state_limit shard_count) {} {}"
| evaluate: "fw_reachable env fw G H \<Longrightarrow>
    evaluate_with_policy env policy packet now fw = (d, fw') \<Longrightarrow>
    fw_reachable env fw' (G \<union> granted_flows d packet) (H \<union> granted_fragments d packet)"
| replace: "fw_reachable env fw G H \<Longrightarrow> replace revision fallback rules fw = (True, fw') \<Longrightarrow>
    fw_reachable env fw' {} {}"
| invalidate: "fw_reachable env fw G H \<Longrightarrow> fw_reachable env (invalidate_state fw) {} {}"
| forget: "fw_reachable env fw G H \<Longrightarrow>
    fw_reachable env (forget_flow key fw) (G - {key, reverse key}) {g \<in> H. \<not> concerns_flow key g}"

lemma fw_reachable_inv: "fw_reachable env fw G H \<Longrightarrow> fw_inv env G H fw"
proof (induction rule: fw_reachable.induct)
  case (evaluate fw G H policy packet now d fw')
  then show ?case using evaluate_with_policy_sound [of env G H fw] by blast
qed (auto intro: new_firewall_inv replace_inv invalidate_state_inv forget_flow_inv)

lemma sum_list_bounded: "(\<And>x. x \<in> set xs \<Longrightarrow> f x \<le> (b :: nat)) \<Longrightarrow> sum_list (map f xs) \<le> b * length xs"
  by (induction xs) (auto simp: add_mono)

lemma fw_inv_bounded:
  assumes "fw_inv env G H fw"
  shows "state_len fw \<le> fw_per_shard_limit fw * length (fw_shards fw)"
  unfolding state_len_def
proof (rule sum_list_bounded)
  fix s
  assume "s \<in> set (fw_shards fw)"
  then obtain i where "i < length (fw_shards fw)" "s = fw_shards fw ! i"
    by (metis in_set_conv_nth)
  then show "length (sh_flows s) \<le> fw_per_shard_limit fw"
    using fw_inv_shard [OF assms, of i] by (simp add: shard_inv_def)
qed

lemma insert_flow_lookup:
  assumes "fw_inv env G H fw"
  shows "flow_lookup env (insert_flow env flow packet now fw) flow = Some
    \<lparr>fs_expires_at = saturating_add now
        (timeout (pk_protocol packet) (fw_flow_timeout fw) (fw_tcp_timeout fw)),
     fs_phase = (if pk_protocol packet = TCP then Some SynSent else None)\<rparr>"
  using shard_index_less(1) [OF assms, of flow]
  by (simp add: insert_flow_def Let_def flow_lookup_set_shard table_simps)

lemma fragment_room_flows [simp]: "sh_flows (fragment_room limit key s) = sh_flows s"
  by (auto simp: fragment_room_def Let_def split: option.split)

lemma insert_fragment_lookup:
  "flow_lookup env (insert_fragment env packet fragment action rule_id now fw) k =
     flow_lookup env fw k"
proof -
  let ?i = "fragment_shard_index env fw (fragment_key_of packet fragment)"
  show ?thesis
  proof (cases "?i < length (fw_shards fw)")
    case True
    then show ?thesis
      by (simp add: insert_fragment_def Let_def flow_lookup_set_shard) (simp add: flow_lookup_def)
  next
    case False
    then show ?thesis
      by (simp add: insert_fragment_def Let_def set_shard_def flow_lookup_def flow_shard_index_def
          list_update_beyond)
  qed
qed

lemma existing_direction_frame:
  assumes "existing_direction env packet k init now fw = (r, fw')"
  shows "fw_flow_timeout fw' = fw_flow_timeout fw \<and> fw_tcp_timeout fw' = fw_tcp_timeout fw"
  using existing_direction_cases [OF assms] by auto

lemma evaluate_existing_frame:
  assumes "evaluate_existing env packet k now fw = (r, fw')"
  shows "fw_flow_timeout fw' = fw_flow_timeout fw \<and> fw_tcp_timeout fw' = fw_tcp_timeout fw"
  using assms unfolding evaluate_existing_def
  by (auto split: prod.splits option.splits dest!: existing_direction_frame)

text \<open>A grant leaves a live entry behind.\<close>

lemma initiate_has_state:
  assumes "fw_inv env G H fw" and "initiate env policy packet flow now fw = (d, fw')"
    and "de_action d = Allow" and "pk_protocol packet \<in> {TCP, UDP, ICMP_V4, ICMP_V6}"
    and "now' < saturating_add now
      (timeout (pk_protocol packet) (fw_flow_timeout fw) (fw_tcp_timeout fw))"
  shows "has_state env fw' flow now'"
proof -
  obtain rule_id where pol: "policy packet = (Allow, rule_id)"
    using assms(2,3) by (cases "policy packet") (auto simp: initiate_def Let_def)
  have "flow_lookup env fw' flow = flow_lookup env (insert_flow env flow packet now fw) flow"
    using assms(2,4)
    by (auto simp: initiate_def pol Let_def insert_fragment_lookup split: option.splits if_splits)
  then show ?thesis using assms(5) by (simp add: has_state_lookup insert_flow_lookup [OF assms(1)])
qed

lemma evaluate_with_policy_live:
  assumes "fw_inv env G H fw" and "\<not> later_fragment packet" and "from_packet packet = Some k"
    and "pk_protocol packet \<noteq> TCP"
    and "has_state env fw k now \<or> has_state env fw (reverse k) now"
  shows "fst (evaluate_with_policy env policy packet now fw) = stateful_allow"
proof -
  obtain d fw' where e: "evaluate_with_policy env policy packet now fw = (d, fw')" by fastforce
  obtain fw1 where x: "evaluate_existing env packet k now fw = (Some stateful_allow, fw1)"
    using evaluate_existing_live [OF assms(1,4,5)] by blast
  from e show ?thesis
    by (cases rule: evaluate_with_policy_cases) (use e x assms(2,3) in \<open>auto simp: later_fragment_def\<close>)
qed

section \<open>Fragment associations\<close>

definition fragment_lookup :: "'net fw_env \<Rightarrow> 'net firewall \<Rightarrow> fragment_key \<Rightarrow> fragment_state option" where
  "fragment_lookup env fw g = hm_get (sh_fragments (fw_shards fw ! fragment_shard_index env fw g)) g"

lemma later_fragment_orphan:
  assumes "pk_fragment q = Some g" and "fg_offset g \<noteq> 0"
    and "fragment_lookup env fw (fragment_key_of q g) = None"
  shows "evaluate_with_policy env policy q now fw = (denied, fw)"
  using assms
  by (simp add: evaluate_with_policy_def evaluate_later_fragment_def fragment_lookup_def Let_def)

lemma expire_fragments_subset:
  assumes "hm_get (sh_fragments s) g = None"
  shows "hm_get (sh_fragments (expire now budget s)) g = None"
  unfolding expire_def
  by (rule sweep_preserves [where P = "\<lambda>s. hm_get (sh_fragments s) g = None"])
    (auto simp: table_simps assms intro!:
      sweep_preserves [where P = "\<lambda>s. hm_get (sh_fragments s) g = None"])

lemma existing_direction_no_association:
  assumes "existing_direction env packet k init now fw = (r, fw')"
    and "fragment_lookup env fw g = None"
  shows "fragment_lookup env fw' g = None"
proof -
  let ?i = "flow_shard_index env fw k"
  let ?s = "expire now (fw_expiry_budget fw) (fw_shards fw ! ?i)"
  obtain s' where fw': "fw' = set_shard ?i s' fw" and "s' = ?s \<or> s' = remove_flow k ?s
      \<or> (\<exists>st'. s' = store_flow k st' ?s)"
    using existing_direction_cases [OF assms(1)] by blast
  then have s': "sh_fragments s' = sh_fragments ?s" by auto
  have idx: "fragment_shard_index env fw' g = fragment_shard_index env fw g"
    by (simp add: fw' fragment_shard_index_def)
  show ?thesis
  proof (cases "fragment_shard_index env fw g = ?i \<and> ?i < length (fw_shards fw)")
    case True
    then show ?thesis using assms(2) expire_fragments_subset [of "fw_shards fw ! ?i" g]
      unfolding fragment_lookup_def idx by (simp add: fw' set_shard_def s')
  next
    case False
    then have "fw_shards fw' ! fragment_shard_index env fw g
        = fw_shards fw ! fragment_shard_index env fw g"
      by (cases "?i < length (fw_shards fw)") (simp_all add: fw' set_shard_def list_update_beyond)
    then show ?thesis using assms(2) unfolding fragment_lookup_def idx by simp
  qed
qed

lemma stateful_first_fragment_no_association:
  assumes "fw_inv env G H fw" and "evaluate_with_policy env policy packet now fw = (d, fw')"
    and "de_stateful d" and "\<not> later_fragment packet" and "fragment_lookup env fw g = None"
  shows "fragment_lookup env fw' g = None"
  using assms(2)
proof (cases rule: evaluate_with_policy_cases)
  case (later f)
  then show ?thesis using assms(4) by (simp add: later_fragment_def)
next
  case (related r)
  then show ?thesis using assms(5) by simp
next
  case (existing k)
  then show ?thesis using assms(5) unfolding evaluate_existing_def
    by (auto split: prod.splits option.splits dest: existing_direction_no_association)
next
  case (invalid k)
  then show ?thesis using assms(3) by (simp add: denied_def)
next
  case (initiation k fw1)
  have "fw_inv env G H fw1" using assms(1) initiation(3) by (rule evaluate_existing_inv)
  then show ?thesis using initiate_inv(3) [OF _ initiation(5,2)] assms(3) by blast
qed

section \<open>Rule order\<close>

lemma find_filter: "List.find P xs = (case filter P xs of [] \<Rightarrow> None | x # _ \<Rightarrow> Some x)"
  by (induction xs) auto

lemma sort_key_head_least:
  "sort_key f xs = y # ys \<Longrightarrow> x \<in> set xs \<Longrightarrow> f y \<le> f x"
proof -
  assume s: "sort_key f xs = y # ys" and x: "x \<in> set xs"
  have "sorted (map f (y # ys))" using sorted_sort_key [of f xs] s by simp
  moreover have "x \<in> set (y # ys)" using x set_sort [of f xs] s by simp
  ultimately show ?thesis by auto
qed

section \<open>TCP handshakes\<close>

text \<open>The phases a connection goes through over a list of segments (flags, sent by the initiator).\<close>

fun tcp_run :: "tcp_phase option \<Rightarrow> (u8 \<times> bool) list \<Rightarrow> tcp_phase option option" where
  "tcp_run phase [] = Some phase"
| "tcp_run phase ((flags, initiator) # segments) =
     (case advance_tcp phase flags initiator of
        None \<Rightarrow> None
      | Some phase' \<Rightarrow> tcp_run phase' segments)"

definition syn_ack :: "u8 \<Rightarrow> bool" where
  "syn_ack flags \<longleftrightarrow> flags AND (TCP_SYN OR TCP_ACK) = (TCP_SYN OR TCP_ACK)"

lemmas tcp_flag_numbers = TCP_SYN_def TCP_ACK_def TCP_FIN_def TCP_RST_def

lemma advance_SynSent:
  "advance_tcp (Some SynSent) flags init = Some p \<Longrightarrow>
   p = Some SynSent \<or> p = Some Closing \<or> p = Some SynReceived \<and> \<not> init \<and> syn_ack flags"
  by (auto simp: advance_tcp_def syn_ack_def tcp_flag_numbers Let_def and.assoc split: if_splits)

lemma advance_SynReceived:
  "advance_tcp (Some SynReceived) flags init = Some p \<Longrightarrow>
   p = Some SynReceived \<or> p = Some Closing \<or> p = Some Established \<and> init \<and> flags AND TCP_ACK \<noteq> 0"
  by (auto simp: advance_tcp_def tcp_flag_numbers Let_def and.assoc split: if_splits)

lemma advance_Closing: "advance_tcp (Some Closing) flags init = Some (Some Closing)"
  by (simp add: advance_tcp_def Let_def)

lemma tcp_run_Closing: "tcp_run (Some Closing) segs = Some (Some Closing)"
  by (induction segs) (auto simp: advance_Closing)

lemma tcp_run_SynReceived:
  "tcp_run (Some SynReceived) segs = Some (Some Established) \<Longrightarrow>
   \<exists>pre flags post. segs = pre @ (flags, True) # post \<and> flags AND TCP_ACK \<noteq> 0"
proof (induction segs)
  case Nil
  then show ?case by simp
next
  case (Cons seg segs)
  obtain flags init where seg: "seg = (flags, init)" by (cases seg)
  obtain p where p: "advance_tcp (Some SynReceived) flags init = Some p"
      "tcp_run p segs = Some (Some Established)"
    using Cons.prems seg by (auto split: option.splits)
  from advance_SynReceived [OF p(1)] consider "p = Some SynReceived" | "p = Some Closing"
    | "init" "flags AND TCP_ACK \<noteq> 0" by blast
  then show ?case
  proof cases
    case 1
    then show ?thesis using Cons.IH p(2) by (metis append_Cons)
  next
    case 2
    then show ?thesis using p(2) by (simp add: tcp_run_Closing)
  next
    case 3
    then show ?thesis using seg by (metis append_Nil)
  qed
qed

lemma tcp_run_SynSent:
  "tcp_run (Some SynSent) segs = Some (Some Established) \<Longrightarrow>
   \<exists>pre f mid g post. segs = pre @ (f, False) # mid @ (g, True) # post
     \<and> syn_ack f \<and> g AND TCP_ACK \<noteq> 0"
proof (induction segs)
  case Nil
  then show ?case by simp
next
  case (Cons seg segs)
  obtain flags init where seg: "seg = (flags, init)" by (cases seg)
  obtain p where p: "advance_tcp (Some SynSent) flags init = Some p"
      "tcp_run p segs = Some (Some Established)"
    using Cons.prems seg by (auto split: option.splits)
  from advance_SynSent [OF p(1)] consider "p = Some SynSent" | "p = Some Closing"
    | "p = Some SynReceived" "\<not> init" "syn_ack flags" by blast
  then show ?case
  proof cases
    case 1
    then show ?thesis using Cons.IH p(2) by (metis append_Cons)
  next
    case 2
    then show ?thesis using p(2) by (simp add: tcp_run_Closing)
  next
    case 3
    then obtain pre g post where "segs = pre @ (g, True) # post" "g AND TCP_ACK \<noteq> 0"
      using tcp_run_SynReceived p(2) by blast
    then show ?thesis using seg 3 by (metis append_Nil)
  qed
qed

section \<open>Properties\<close>

text \<open>A one-rule-free firewall with two shards, used by the witnesses.\<close>

definition sample_env :: "unit fw_env" where
  "sample_env = \<lparr>env_contains = (\<lambda>_ _. True), env_flow_hash = (\<lambda>_. 0), env_fragment_hash = (\<lambda>_. 1)\<rparr>"

definition sample_fw :: "unit firewall" where
  "sample_fw = new_firewall 1 Deny [] 8 2"

definition sample_policy :: "parsed_packet \<Rightarrow> action \<times> uuid option" where
  "sample_policy = (\<lambda>_. (Allow, None))"

definition sample_reply :: parsed_packet where
  "sample_reply = sample_udp_packet\<lparr>pk_source := V4 [10, 0, 0, 2], pk_destination := V4 [10, 0, 0, 1],
     pk_source_port := Some 53, pk_destination_port := Some 1000\<rparr>"

definition sample_later :: parsed_packet where
  "sample_later = sample_udp_packet\<lparr>pk_source_port := None, pk_destination_port := None,
     pk_fragment := Some \<lparr>fg_identification = 7, fg_offset = 1, fg_more = False\<rparr>\<rparr>"

definition sample_fw1 :: "unit firewall" where
  "sample_fw1 = snd (evaluate_with_policy sample_env sample_policy sample_udp_packet 10 sample_fw)"

lemma sample_reachable: "fw_reachable sample_env sample_fw {} {}"
  unfolding sample_fw_def by (rule fw_reachable.start)

lemmas firewall_defs = evaluate_with_policy_def evaluate_existing_def existing_direction_def
  initiate_def insert_flow_def evict_flow_if_full_def store_flow_def expire_def first_flow_def
  first_fragment_def from_packet_def from_endpoints_def flow_shard_index_def set_shard_def
  valid_initiation_def timeout_def protocol_numbers

lemmas sample_defs = sample_env_def sample_fw_def sample_policy_def sample_udp_packet_def
  sample_reply_def sample_later_def new_firewall_def shard_default_def

lemma replicate_2: "replicate 2 x = [x, x]"
  by (simp add: numeral_2_eq_2)

lemma sample_allowed:
  "evaluate_with_policy sample_env sample_policy sample_udp_packet 10 sample_fw =
     (\<lparr>de_action = Allow, de_rule_id = None, de_stateful = False\<rparr>, sample_fw1)"
proof -
  have "fst (evaluate_with_policy sample_env sample_policy sample_udp_packet 10 sample_fw) =
      \<lparr>de_action = Allow, de_rule_id = None, de_stateful = False\<rparr>"
    by (simp add: firewall_defs sample_defs Let_def sweep_done)
  then show ?thesis by (simp add: sample_fw1_def prod_eq_iff)
qed

text \<open>(C1) Authorization is sound over every history.  Whatever sequence of packets, policy
  replacements, invalidations and forgotten flows a firewall went through, a packet it allows is
  either a valid initiation the policy allows now, or refers to a flow or fragment that the policy
  granted since the last replacement or invalidation and that was not forgotten: its own flow in
  either direction, the flow quoted by its ICMP error, or the association of its first fragment.\<close>

theorem firewall_authorization_sound:
  assumes "fw_reachable env fw G H"
    and "evaluate_with_policy env policy packet now fw = (d, fw')" and "de_action d = Allow"
  shows "justified policy G H packet d"
  using evaluate_with_policy_sound [OF fw_reachable_inv [OF assms(1)] assms(2)] assms(3) by blast

theorem firewall_authorization_sound_witness:
  "fst (evaluate_with_policy sample_env sample_policy sample_udp_packet 10 sample_fw) =
     \<lparr>de_action = Allow, de_rule_id = None, de_stateful = False\<rparr>
   \<and> justified sample_policy {} {} sample_udp_packet
     \<lparr>de_action = Allow, de_rule_id = None, de_stateful = False\<rparr>"
  using firewall_authorization_sound [OF sample_reachable sample_allowed] sample_allowed by simp

text \<open>(C26) Every reachable firewall keeps its table invariant (exact expiration indexes, keys in the
  shard they hash to, allowing associations only) and its memory bound: the flows of all shards number
  at most the per-shard limit times the number of shards.\<close>

theorem firewall_invariant:
  assumes "fw_reachable env fw G H"
  shows "fw_inv env G H fw \<and> state_len fw \<le> fw_per_shard_limit fw * length (fw_shards fw)"
  using fw_reachable_inv [OF assms] fw_inv_bounded by blast

theorem firewall_invariant_witness:
  "fw_inv sample_env {} {} sample_fw
   \<and> state_len sample_fw \<le> fw_per_shard_limit sample_fw * length (fw_shards sample_fw)"
  by (rule firewall_invariant [OF sample_reachable])

text \<open>Return traffic of a granted flow passes: after the policy allowed a UDP or ICMP packet at time
  \<open>now\<close>, a packet of the reversed flow is allowed by state at every later instant before the idle
  timeout, whatever the policy says about it.\<close>

theorem return_traffic_allowed:
  assumes "fw_reachable env fw G H"
    and "evaluate_with_policy env policy packet now fw = (d, fw')" and "policy_allowed d"
    and "from_packet packet = Some k" and "pk_protocol packet \<in> {UDP, ICMP_V4, ICMP_V6}"
    and "\<not> later_fragment reply" and "from_packet reply = Some (reverse k)"
    and "pk_protocol reply = pk_protocol packet"
    and "now' < saturating_add now (fw_flow_timeout fw)"
  shows "fst (evaluate_with_policy env policy' reply now' fw') = stateful_allow"
proof -
  have inv: "fw_inv env G H fw" using assms(1) by (rule fw_reachable_inv)
  have nt: "pk_protocol packet \<noteq> TCP" using assms(5) by (auto simp: protocol_numbers)
  from assms(2) obtain fw1 where i: "evaluate_existing env packet k now fw = (None, fw1)"
      "initiate env policy packet k now fw1 = (d, fw')"
  proof (cases rule: evaluate_with_policy_cases)
    case (later f)
    then show ?thesis
      using evaluate_later_fragment_inv(2) [OF inv later(3)] assms(3) by (simp add: policy_allowed_def)
  next
    case (existing k')
    then show ?thesis using evaluate_existing_granted [OF inv existing(3)] assms(3)
      by (auto simp: policy_allowed_def denied_def stateful_allow_def)
  qed (use assms(3,4) that in \<open>auto simp: policy_allowed_def stateful_allow_def denied_def\<close>)
  have inv1: "fw_inv env G H fw1" using inv i(1) by (rule evaluate_existing_inv)
  have "has_state env fw' k now'"
    using assms(3,5,9) nt evaluate_existing_frame [OF i(1)]
    by (intro initiate_has_state [OF inv1 i(2)]) (auto simp: policy_allowed_def timeout_def)
  moreover have "fw_inv env (G \<union> granted_flows d packet) (H \<union> granted_fragments d packet) fw'"
    using initiate_inv(1) [OF inv1 i(2) assms(4)] .
  ultimately show ?thesis
    using assms(6-8) nt by (intro evaluate_with_policy_live) auto
qed

theorem return_traffic_allowed_witness:
  "fst (evaluate_with_policy sample_env (\<lambda>_. (Deny, None)) sample_reply 69 sample_fw1) = stateful_allow"
  by (rule return_traffic_allowed [OF sample_reachable sample_allowed, where
        k = "\<lparr>fk_source = V4 [10, 0, 0, 1], fk_destination = V4 [10, 0, 0, 2], fk_protocol = 17,
          fk_source_port = Some 1000, fk_destination_port = Some 53\<rparr>"])
    (simp_all add: sample_defs policy_allowed_def from_packet_def from_endpoints_def reverse_def
      later_fragment_def protocol_numbers saturating_add_def u64_max_def)

text \<open>Expiry is exact even though reclamation is bounded: when neither direction of a packet's flow
  (nor of the flow it quotes) has an entry with a deadline after \<open>now\<close>, the decision is not a
  stateful one, however many dead entries the sweep left in the tables.\<close>

theorem expired_state_never_authorizes:
  assumes "fw_reachable env fw G H" and "\<not> later_fragment packet" and "from_packet packet = Some k"
    and "\<not> has_state env fw k now" and "\<not> has_state env fw (reverse k) now"
    and "\<forall>r. pk_related_flow packet = Some r \<longrightarrow>
      \<not> has_state env fw r now \<and> \<not> has_state env fw (reverse r) now"
  shows "\<not> de_stateful (fst (evaluate_with_policy env policy packet now fw))"
proof -
  have inv: "fw_inv env G H fw" using assms(1) by (rule fw_reachable_inv)
  obtain fw1 where e1: "existing_direction env packet k True now fw = (None, fw1)"
    using existing_direction_dead [OF inv assms(4), of packet True]
    by (cases "existing_direction env packet k True now fw") simp
  have "\<not> has_state env fw1 (reverse k) now"
    using existing_direction_shrinks [OF inv e1] assms(5) by blast
  then obtain fw2 where e2: "evaluate_existing env packet k now fw = (None, fw2)"
    using existing_direction_dead [OF existing_direction_inv [OF inv e1], of "reverse k" now packet False]
    by (cases "existing_direction env packet (reverse k) False now fw1")
      (simp add: evaluate_existing_def e1)
  have inv2: "fw_inv env G H fw2" using inv e2 by (rule evaluate_existing_inv)
  obtain d fw' where e: "evaluate_with_policy env policy packet now fw = (d, fw')" by fastforce
  from e show ?thesis
  proof (cases rule: evaluate_with_policy_cases)
    case (initiation k' fw1')
    then have "\<not> de_stateful d" using initiate_inv(3) [OF inv2 _ assms(3)] assms(3) e2 by simp
    then show ?thesis using e by simp
  qed (use assms(2,3,6) e e2 in \<open>auto simp: later_fragment_def denied_def\<close>)
qed

theorem expired_state_never_authorizes_witness:
  "\<not> de_stateful (fst (evaluate_with_policy sample_env sample_policy sample_udp_packet 10 sample_fw))"
  by (rule expired_state_never_authorizes [OF sample_reachable, where
        k = "\<lparr>fk_source = V4 [10, 0, 0, 1], fk_destination = V4 [10, 0, 0, 2], fk_protocol = 17,
          fk_source_port = Some 1000, fk_destination_port = Some 53\<rparr>"])
    (simp_all add: sample_defs from_packet_def from_endpoints_def reverse_def
      later_fragment_def has_state_def flow_shard_index_def Let_def)

text \<open>Ordered rules decide deterministically: in a new firewall the decision for a packet is that of
  the first matching rule in the stable order by ascending priority, so no matching rule has a lower
  priority value than the deciding one; without a matching rule it is the default action.\<close>

theorem policy_first_match:
  "policy_decision env (new_firewall revision fallback rules state_limit shard_count) packet =
     (case sort_key rl_priority (filter (\<lambda>r. rule_matches env r packet) rules) of
        [] \<Rightarrow> \<lparr>de_action = fallback, de_rule_id = None, de_stateful = False\<rparr>
      | r # _ \<Rightarrow> \<lparr>de_action = rl_action r, de_rule_id = Some (rl_id r), de_stateful = False\<rparr>)
   \<and> (\<forall>r rs r'. sort_key rl_priority (filter (\<lambda>r. rule_matches env r packet) rules) = r # rs \<longrightarrow>
        r' \<in> set rules \<longrightarrow> rule_matches env r' packet \<longrightarrow> rl_priority r \<le> rl_priority r')"
  by (auto simp: policy_decision_def new_firewall_def Let_def find_filter filter_sort
      intro: sort_key_head_least split: list.split)

definition sample_rules :: "unit rule list" where
  "sample_rules =
     [\<lparr>rl_id = [1], rl_priority = 20, rl_action = Allow, rl_source = None, rl_destination = None,
        rl_protocol = Some 17, rl_destination_ports = [(50, 60)]\<rparr>,
      \<lparr>rl_id = [2], rl_priority = 10, rl_action = Deny, rl_source = Some (), rl_destination = None,
        rl_protocol = None, rl_destination_ports = []\<rparr>]"

theorem policy_first_match_witness:
  "policy_decision sample_env (new_firewall 1 Allow sample_rules 8 2) sample_udp_packet =
     \<lparr>de_action = Deny, de_rule_id = Some [2], de_stateful = False\<rparr>"
  using policy_first_match [of sample_env 1 Allow sample_rules 8 2 sample_udp_packet]
  by (simp add: sample_rules_def sample_defs rule_matches_def)

text \<open>A policy replacement needs a higher revision: otherwise nothing changes.  An accepted one
  installs the new rules and leaves no flow or fragment state, so afterwards no earlier flow has state
  and every later fragment is denied.\<close>

theorem replace_invalidates:
  "(revision \<le> fw_revision fw \<longrightarrow> replace revision fallback rules fw = (False, fw))
   \<and> (fw_revision fw < revision \<longrightarrow>
      (\<exists>fw'. replace revision fallback rules fw = (True, fw') \<and> fw_revision fw' = revision
        \<and> fw_default fw' = fallback \<and> fw_rules fw' = sort_key rl_priority rules
        \<and> length (fw_shards fw') = length (fw_shards fw)
        \<and> (\<forall>s \<in> set (fw_shards fw'). s = shard_default)))"
  by (auto simp: replace_def invalidate_state_def)

theorem replace_invalidates_witness:
  "replace 1 Allow [] sample_fw = (False, sample_fw)
   \<and> (\<exists>fw'. replace 2 Allow [] sample_fw = (True, fw') \<and> fw_revision fw' = 2)"
proof -
  have r: "fw_revision sample_fw = 1" by (simp add: sample_fw_def new_firewall_def Let_def)
  show ?thesis
    using replace_invalidates [of 1 sample_fw Allow "[]"] replace_invalidates [of 2 sample_fw Allow "[]"]
    unfolding r by auto
qed

text \<open>A TCP connection is established only by a handshake: if a list of segments takes the phase
  from \<open>SynSent\<close> to \<open>Established\<close>, then the responder sent a SYN-ACK and later the initiator
  sent an ACK.\<close>

theorem tcp_established_needs_handshake:
  assumes "tcp_run (Some SynSent) segments = Some (Some Established)"
  shows "\<exists>pre f mid g post. segments = pre @ (f, False) # mid @ (g, True) # post
    \<and> syn_ack f \<and> g AND TCP_ACK \<noteq> 0"
  using assms by (rule tcp_run_SynSent)

theorem tcp_established_needs_handshake_witness:
  "\<exists>pre f mid g post. [(2, True), (18, False), (16, True)] = pre @ (f, False) # mid @ (g, True) # post
    \<and> syn_ack f \<and> g AND TCP_ACK \<noteq> (0 :: u8)"
  by (rule tcp_established_needs_handshake)
    (simp add: advance_tcp_def tcp_flag_numbers)

text \<open>A first fragment admitted by existing state creates no association: after such a packet, a
  later fragment whose key had no association before is denied.  (The crate documentation promises an
  association for every permitted first fragment; the code makes one only for a new initiation.)\<close>

theorem stateful_first_fragment_orphans:
  assumes "fw_reachable env fw G H"
    and "evaluate_with_policy env policy packet now fw = (d, fw')"
    and "de_action d = Allow" and "de_stateful d"
    and "pk_fragment packet = Some f" and "fg_offset f = 0" and "fg_more f"
    and "pk_fragment q = Some g" and "fg_offset g \<noteq> 0"
    and "fragment_lookup env fw (fragment_key_of q g) = None"
  shows "fst (evaluate_with_policy env policy' q now' fw') = denied"
proof -
  have "\<not> later_fragment packet" using assms(5,6) by (simp add: later_fragment_def)
  then have "fragment_lookup env fw' (fragment_key_of q g) = None"
    using stateful_first_fragment_no_association [OF fw_reachable_inv [OF assms(1)] assms(2,4)]
      assms(10) by blast
  then show ?thesis by (simp add: later_fragment_orphan [OF assms(8,9)])
qed

definition sample_first :: parsed_packet where
  "sample_first = sample_udp_packet\<lparr>
     pk_fragment := Some \<lparr>fg_identification = 7, fg_offset = 0, fg_more = True\<rparr>\<rparr>"

theorem stateful_first_fragment_orphans_witness:
  "\<exists>fw'. evaluate_with_policy sample_env sample_policy sample_first 20 sample_fw1 = (stateful_allow, fw')
    \<and> fst (evaluate_with_policy sample_env sample_policy sample_later 21 fw') = denied"
proof -
  let ?k = "\<lparr>fk_source = V4 [10, 0, 0, 1], fk_destination = V4 [10, 0, 0, 2], fk_protocol = 17,
    fk_source_port = Some 1000, fk_destination_port = Some 53\<rparr> :: flow_key"
  have r: "fw_reachable sample_env sample_fw1
      ({} \<union> granted_flows \<lparr>de_action = Allow, de_rule_id = None, de_stateful = False\<rparr> sample_udp_packet)
      ({} \<union> granted_fragments \<lparr>de_action = Allow, de_rule_id = None, de_stateful = False\<rparr>
        sample_udp_packet)"
    by (rule fw_reachable.evaluate [OF sample_reachable sample_allowed])
  have one: "sample_fw1 = sample_fw\<lparr>fw_shards :=
      [\<lparr>sh_flows = [(?k, \<lparr>fs_expires_at = 70, fs_phase = None\<rparr>)],
        sh_flow_expirations = [(70, ?k)], sh_fragments = [], sh_fragment_expirations = []\<rparr>,
       shard_default]\<rparr>"
    by (simp add: sample_fw1_def firewall_defs sample_defs Let_def sweep_done saturating_add_def
        u64_max_def div_ceil_def replicate_2)
  have "fst (evaluate_with_policy sample_env sample_policy sample_first 20 sample_fw1) = stateful_allow"
    by (rule evaluate_with_policy_live [OF fw_reachable_inv [OF r], where k = ?k])
      (simp_all add: one sample_defs sample_first_def later_fragment_def from_packet_def
        from_endpoints_def protocol_numbers has_state_def flow_shard_index_def)
  then obtain fw' where e:
      "evaluate_with_policy sample_env sample_policy sample_first 20 sample_fw1 = (stateful_allow, fw')"
    by (metis prod.collapse)
  have "fst (evaluate_with_policy sample_env sample_policy sample_later 21 fw') = denied"
    by (rule stateful_first_fragment_orphans [OF r e, where
          f = "\<lparr>fg_identification = 7, fg_offset = 0, fg_more = True\<rparr>"
          and g = "\<lparr>fg_identification = 7, fg_offset = 1, fg_more = False\<rparr>"])
      (simp_all add: one sample_defs sample_first_def stateful_allow_def fragment_lookup_def
        fragment_shard_index_def)
  then show ?thesis using e by blast
qed

text \<open>Forgetting a connection removes exactly that connection: afterwards neither direction has
  state at any time, and every other flow's entry is as before.\<close>

theorem forget_flow_exact:
  assumes "fw_reachable env fw G H"
  shows "\<not> has_state env (forget_flow key fw) key now
    \<and> \<not> has_state env (forget_flow key fw) (reverse key) now
    \<and> (\<forall>k. k \<noteq> key \<longrightarrow> k \<noteq> reverse key \<longrightarrow>
        flow_lookup env (forget_flow key fw) k = flow_lookup env fw k)"
proof -
  have idx: "flow_shard_index env (forget_flow key fw) k = flow_shard_index env fw k" for k
    by (simp add: flow_shard_index_def forget_flow_def)
  have lt: "flow_shard_index env fw k < length (fw_shards fw)" for k
    using fw_reachable_inv [OF assms] by (rule shard_index_less)
  have "flow_lookup env (forget_flow key fw) k =
      (if k = key \<or> k = reverse key then None else flow_lookup env fw k)" for k
    unfolding flow_lookup_def idx using lt [of k]
    by (simp add: forget_flow_def forget_in_shard_def Let_def fold_remove_fragment_flows table_simps)
  then show ?thesis by (simp add: has_state_lookup)
qed

theorem forget_flow_exact_witness:
  "\<not> has_state sample_env (forget_flow (from_endpoints (V4 [], None) (V4 [], None) 6) sample_fw)
     (from_endpoints (V4 [], None) (V4 [], None) 6) 0"
  using forget_flow_exact [OF sample_reachable] by blast

end
