(* ===== verification/Reassembly.thy ===== *)
theory Reassembly
  imports Packet
begin

text \<open>
  The bounded fragment reassembler of \<open>crates/peerward-dataplane/src/reassembly.rs\<close>:
  fragment sets keyed by source, destination, protocol and identification, their deadline index,
  the per-source and global memory accounts, the completeness test and the assembly of the
  datagram.
\<close>

section \<open>Data\<close>

datatype reassembly_error = Malformed_fragment | Overlap | Contradictory | QuotaExceeded

record reassembled_datagram =
  rd_packet :: bytes
  rd_original_fragments :: "bytes list"

datatype reassembly_status = Pending | Complete reassembled_datagram

record reassembly_key =
  rk_source :: ip_addr
  rk_destination :: ip_addr
  rk_protocol :: u8
  rk_identification :: u32

text \<open>The derived order of \<open>ReassemblyKey\<close>.\<close>

definition reassembly_rank :: "('a::linorder) reassembly_key_scheme \<Rightarrow>
    ip_addr \<times> ip_addr \<times> u8 \<times> u32 \<times> 'a" where
  "reassembly_rank k = (rk_source k, rk_destination k, rk_protocol k, rk_identification k,
     reassembly_key.more k)"

lemma reassembly_rank_eq_iff [simp]: "reassembly_rank a = reassembly_rank b \<longleftrightarrow> a = b"
  by (auto simp: reassembly_rank_def intro: reassembly_key.equality)

instantiation reassembly_key_ext :: (linorder) linorder
begin

definition less_eq_reassembly_key_ext ::
    "'a reassembly_key_scheme \<Rightarrow> 'a reassembly_key_scheme \<Rightarrow> bool" where
  "less_eq_reassembly_key_ext a b \<longleftrightarrow> reassembly_rank a \<le> reassembly_rank b"

definition less_reassembly_key_ext ::
    "'a reassembly_key_scheme \<Rightarrow> 'a reassembly_key_scheme \<Rightarrow> bool" where
  "less_reassembly_key_ext a b \<longleftrightarrow> reassembly_rank a < reassembly_rank b"

instance
  by standard
    (auto simp: less_eq_reassembly_key_ext_def less_reassembly_key_ext_def order.strict_iff_order
      dest: order.antisym)

end

text \<open>
  \<open>Ipv6\<close> holds the prefix before the fragment header, the index of the byte that names the
  fragment header, and the fragment header's own next-header byte.
\<close>

datatype header_template =
    Ipv4 bytes
  | Ipv6 bytes nat u8

record stored_fragment =
  sf_payload :: bytes
  sf_original :: bytes

record fragment_set =
  st_source :: ip_addr
  st_expires_at :: nat
  st_retained_bytes :: nat
  st_payload_bytes :: nat
  st_template :: "header_template option"
  st_final_length :: "nat option"
  st_fragments :: "(nat \<times> stored_fragment) list"

record reassembler =
  ra_sets :: "(reassembly_key \<times> fragment_set) list"
  ra_expirations :: "(nat \<times> reassembly_key) list"
  ra_source_bytes :: "(ip_addr \<times> nat) list"
  ra_retained_bytes :: nat
  ra_per_source_bytes :: nat
  ra_global_bytes :: nat
  ra_timeout_seconds :: nat

record decoded_fragment =
  df_template :: header_template
  df_payload :: bytes

definition DEFAULT_PER_SOURCE_BYTES :: nat where "DEFAULT_PER_SOURCE_BYTES = 4 * 1024 * 1024"
definition DEFAULT_GLOBAL_BYTES :: nat where "DEFAULT_GLOBAL_BYTES = 64 * 1024 * 1024"
definition DEFAULT_FRAGMENT_TIMEOUT_SECONDS :: nat where "DEFAULT_FRAGMENT_TIMEOUT_SECONDS = 15"

section \<open>Operations\<close>

definition new_reassembler :: "nat \<Rightarrow> nat \<Rightarrow> nat \<Rightarrow> (reassembler, reassembly_error) outcome" where
  "new_reassembler per_source_bytes global_bytes timeout_seconds =
     (if per_source_bytes = 0 \<or> global_bytes < per_source_bytes \<or> timeout_seconds = 0
      then Err Malformed_fragment
      else Ok \<lparr>ra_sets = [], ra_expirations = [], ra_source_bytes = [], ra_retained_bytes = 0,
        ra_per_source_bytes = per_source_bytes, ra_global_bytes = global_bytes,
        ra_timeout_seconds = timeout_seconds\<rparr>)"

text \<open>\<open>Default::default\<close>, whose \<open>expect\<close> aborts if the fixed limits were refused.\<close>

definition default_reassembler :: "(reassembler, reassembly_error) outcome" where
  "default_reassembler =
     (case new_reassembler DEFAULT_PER_SOURCE_BYTES DEFAULT_GLOBAL_BYTES
        DEFAULT_FRAGMENT_TIMEOUT_SECONDS of Ok r \<Rightarrow> Ok r | _ \<Rightarrow> Abort)"

definition release_usage :: "fragment_set \<Rightarrow> reassembler \<Rightarrow> reassembler" where
  "release_usage fset r =
     (let r = r\<lparr>ra_retained_bytes := ra_retained_bytes r - st_retained_bytes fset\<rparr> in
      case hm_get (ra_source_bytes r) (st_source fset) of
        None \<Rightarrow> r
      | Some source \<Rightarrow>
        let source = source - st_retained_bytes fset in
        if source = 0
        then r\<lparr>ra_source_bytes := hm_remove (st_source fset) (ra_source_bytes r)\<rparr>
        else r\<lparr>ra_source_bytes := hm_insert (st_source fset) source (ra_source_bytes r)\<rparr>)"

definition remove_set :: "reassembly_key \<Rightarrow> reassembler \<Rightarrow> reassembler" where
  "remove_set key r =
     (case hm_get (ra_sets r) key of
        None \<Rightarrow> r
      | Some fset \<Rightarrow>
        release_usage fset
          (r\<lparr>ra_sets := hm_remove key (ra_sets r),
             ra_expirations := bset_remove (st_expires_at fset, key) (ra_expirations r)\<rparr>))"

text \<open>
  The \<open>while let\<close> loop of \<open>expire\<close>: it reads the earliest deadline until that lies in
  the future, and \<open>None\<close> stands for a loop that never ends.
\<close>

partial_function (option) expire_loop ::
    "nat \<Rightarrow> nat \<Rightarrow> reassembler \<Rightarrow> (nat \<times> reassembler) option" where
  "expire_loop now count r =
     (case bset_first (ra_expirations r) of
        None \<Rightarrow> Some (count, r)
      | Some (deadline, key) \<Rightarrow>
        if now < deadline then Some (count, r)
        else expire_loop now (count + 1) (remove_set key r))"

definition expire_sets :: "nat \<Rightarrow> reassembler \<Rightarrow> (nat \<times> reassembler) option" where
  "expire_sets now r = expire_loop now 0 r"

text \<open>
  \<open>is_complete\<close> compares the payload counter with the final length; \<open>assemble\<close> joins
  the payloads in offset order behind the repaired header of the first fragment.
\<close>

definition is_complete :: "fragment_set \<Rightarrow> bool" where
  "is_complete fset \<longleftrightarrow>
     st_template fset \<noteq> None \<and> st_final_length fset = Some (st_payload_bytes fset)"

definition assemble_ipv4 :: "bytes \<Rightarrow> bytes \<Rightarrow> (bytes, reassembly_error) outcome" where
  "assemble_ipv4 header payload =
     (if length header < 20 \<or> 65535 < length header + length payload then Err Malformed_fragment
      else
        byte_at header 6 (\<lambda>b6. byte_at header 7 (\<lambda>b7.
        let original_flags = be16 b6 b7 AND 0x4000;
            header = splice header 6 (to_be 2 (unat original_flags));
            total = length header + length payload
        in if 65535 < total then Err Malformed_fragment
           else
             let header = splice header 2 (to_be 2 total);
                 header = splice header 10 [0, 0];
                 checksum = ipv4_checksum header;
                 header = splice header 10 (to_be 2 (unat checksum))
             in Ok (header @ payload))))"

definition assemble_ipv6 :: "bytes \<Rightarrow> nat \<Rightarrow> u8 \<Rightarrow> bytes \<Rightarrow> (bytes, reassembly_error) outcome" where
  "assemble_ipv6 prefix previous_next_header fragment_next_header payload =
     (if length prefix < 40 \<or> length prefix \<le> previous_next_header
        \<or> 65535 < length prefix + length payload - 40
      then Err Malformed_fragment
      else
        let prefix = prefix[previous_next_header := fragment_next_header];
            len = length prefix + length payload - 40
        in if 65535 < len then Err Malformed_fragment
           else Ok (splice prefix 4 (to_be 2 len) @ payload))"

definition assemble :: "fragment_set \<Rightarrow> (reassembled_datagram, reassembly_error) outcome" where
  "assemble fset =
     (let payload = concat (map (\<lambda>(_, f). sf_payload f) (st_fragments fset));
          original_fragments = map (\<lambda>(_, f). sf_original f) (st_fragments fset)
      in and_then (ok_or Malformed_fragment (st_template fset)) (\<lambda>template.
         and_then
           (case template of
              Ipv4 header \<Rightarrow> assemble_ipv4 header payload
            | Ipv6 prefix previous_next_header fragment_next_header \<Rightarrow>
              assemble_ipv6 prefix previous_next_header fragment_next_header payload)
           (\<lambda>packet.
             Ok \<lparr>rd_packet = packet, rd_original_fragments = original_fragments\<rparr>)))"

fun find_fragment_header ::
    "nat \<Rightarrow> bytes \<Rightarrow> u8 \<Rightarrow> nat \<Rightarrow> nat \<Rightarrow> (nat \<times> nat, reassembly_error) outcome" where
  "find_fragment_header 0 packet next previous_next_header cursor = Err Malformed_fragment"
| "find_fragment_header (Suc steps) packet next previous_next_header cursor =
     (if next = 44 then Ok (cursor, previous_next_header)
      else if next = 0 \<or> next = 43 \<or> next = 60 then
        and_then (ok_or Malformed_fragment (get_byte packet (cursor + 1))) (\<lambda>l.
        let extension_length = (unat l + 1) * 8 in
        and_then (ok_or Malformed_fragment (get_byte packet cursor)) (\<lambda>extension_next.
        if cursor + extension_length \<le> length packet
        then find_fragment_header steps packet extension_next cursor (cursor + extension_length)
        else Err Malformed_fragment))
      else Err Malformed_fragment)"

definition ipv6_fragment_header :: "bytes \<Rightarrow> (nat \<times> nat, reassembly_error) outcome" where
  "ipv6_fragment_header packet =
     (if length packet < 48 then Err Malformed_fragment
      else byte_at packet 6 (\<lambda>next. find_fragment_header 8 packet next 6 40))"

definition decode_fragment ::
    "bytes \<Rightarrow> fragment \<Rightarrow> (decoded_fragment, reassembly_error) outcome" where
  "decode_fragment packet fragment =
     (case packet of
        [] \<Rightarrow> Err Malformed_fragment
      | b0 # _ \<Rightarrow>
        if drop_bit 4 b0 = 4 then
          let header_length = unat (b0 AND 0x0f) * 4 in
          and_then (ok_or Malformed_fragment (get_from packet header_length)) (\<lambda>payload.
          and_then
            (if fg_offset fragment = 0
             then slice_at packet 0 header_length (\<lambda>header. Ok (Ipv4 header))
             else Ok (Ipv4 []))
            (\<lambda>template. Ok \<lparr>df_template = template, df_payload = payload\<rparr>))
        else if drop_bit 4 b0 = 6 then
          and_then (ipv6_fragment_header packet) (\<lambda>(cursor, previous_next_header).
          and_then (ok_or Malformed_fragment (get_from packet (cursor + 8))) (\<lambda>payload.
          and_then
            (if fg_offset fragment = 0
             then slice_at packet 0 cursor (\<lambda>prefix. byte_at packet cursor (\<lambda>next.
               Ok (Ipv6 prefix previous_next_header next)))
             else Ok (Ipv6 [] 0 0))
            (\<lambda>template. Ok \<lparr>df_template = template, df_payload = payload\<rparr>)))
        else Err Malformed_fragment)"

text \<open>Neighbours in the ordered map of fragments.\<close>

definition range_last :: "nat \<Rightarrow> (nat \<times> 'v) list \<Rightarrow> (nat \<times> 'v) option" where
  "range_last offset m =
     (case filter (\<lambda>(k, _). k \<le> offset) m of [] \<Rightarrow> None | xs \<Rightarrow> Some (last xs))"

definition range_first :: "nat \<Rightarrow> (nat \<times> 'v) list \<Rightarrow> (nat \<times> 'v) option" where
  "range_first offset m = find (\<lambda>(k, _). offset \<le> k) m"

definition last_key_value :: "(nat \<times> 'v) list \<Rightarrow> (nat \<times> 'v) option" where
  "last_key_value m = (if m = [] then None else Some (last m))"

definition fragment_end :: "nat \<times> stored_fragment \<Rightarrow> nat" where
  "fragment_end e = fst e + length (sf_payload (snd e))"

definition overlaps_neighbour :: "(nat \<times> stored_fragment) list \<Rightarrow> nat \<Rightarrow> nat \<Rightarrow> bool" where
  "overlaps_neighbour m offset end_pos \<longleftrightarrow>
     (case range_last offset m of None \<Rightarrow> False | Some e \<Rightarrow> offset < fragment_end e)
     \<or> (case range_first offset m of None \<Rightarrow> False | Some e \<Rightarrow> fst e < end_pos)"

definition empty_set :: "reassembly_key \<Rightarrow> nat \<Rightarrow> fragment_set" where
  "empty_set key expires_at =
     \<lparr>st_source = rk_source key, st_expires_at = expires_at, st_retained_bytes = 0,
      st_payload_bytes = 0, st_template = None, st_final_length = None, st_fragments = []\<rparr>"

definition source_used :: "reassembler \<Rightarrow> ip_addr \<Rightarrow> nat" where
  "source_used r source = (case hm_get (ra_source_bytes r) source of None \<Rightarrow> 0 | Some n \<Rightarrow> n)"

text \<open>\<open>self.sets.entry(key).or_insert_with(..)\<close>, which also indexes the new deadline.\<close>

definition entry_or_insert :: "reassembly_key \<Rightarrow> nat \<Rightarrow> reassembler \<Rightarrow> reassembler \<times> fragment_set" where
  "entry_or_insert key now r =
     (case hm_get (ra_sets r) key of
        Some fset \<Rightarrow> (r, fset)
      | None \<Rightarrow>
        let expires_at = saturating_add now (ra_timeout_seconds r);
            fset = empty_set key expires_at
        in (r\<lparr>ra_expirations := bset_insert (expires_at, key) (ra_expirations r),
              ra_sets := hm_insert key fset (ra_sets r)\<rparr>, fset))"

text \<open>
  The part of \<open>insert_fragment\<close> that works on the set alone: the overlap and length checks, the
  template, and the counters.  Every error below makes \<open>push\<close> remove the set, so that a set
  left half updated by an error is never seen again.
\<close>

definition extend_set ::
    "fragment \<Rightarrow> nat \<Rightarrow> nat \<Rightarrow> decoded_fragment \<Rightarrow> bytes \<Rightarrow> nat \<Rightarrow> fragment_set
     \<Rightarrow> (fragment_set, reassembly_error) outcome" where
  "extend_set fragment offset end_pos decoded packet charge fset =
     (if overlaps_neighbour (st_fragments fset) offset end_pos then Err Overlap
      else if (case st_final_length fset of None \<Rightarrow> False | Some len \<Rightarrow> len < end_pos)
      then Err Contradictory
      else if \<not> fg_more fragment
        \<and> ((case st_final_length fset of None \<Rightarrow> False | Some len \<Rightarrow> len \<noteq> end_pos)
          \<or> (case last_key_value (st_fragments fset) of
               None \<Rightarrow> False | Some e \<Rightarrow> end_pos < fragment_end e))
      then Err Contradictory
      else
        let fset = (if \<not> fg_more fragment then fset\<lparr>st_final_length := Some end_pos\<rparr> else fset)
        in if offset = 0 \<and> st_template fset \<noteq> None then Err Overlap
           else
             let fset = (if offset = 0 then fset\<lparr>st_template := Some (df_template decoded)\<rparr> else fset)
             in Ok (fset\<lparr>st_retained_bytes := st_retained_bytes fset + charge,
                  st_payload_bytes := st_payload_bytes fset + length (df_payload decoded),
                  st_fragments := bmap_insert offset
                    \<lparr>sf_payload = df_payload decoded, sf_original = packet\<rparr>
                    (st_fragments fset)\<rparr>))"

definition finish_set ::
    "reassembly_key \<Rightarrow> reassembler \<Rightarrow> reassembler \<times> (reassembly_status, reassembly_error) outcome" where
  "finish_set key r =
     (case hm_get (ra_sets r) key of
        None \<Rightarrow> (r, Abort)
      | Some fset \<Rightarrow>
        (release_usage fset
           (r\<lparr>ra_sets := hm_remove key (ra_sets r),
              ra_expirations := bset_remove (st_expires_at fset, key) (ra_expirations r)\<rparr>),
         and_then (assemble fset) (\<lambda>datagram.
         and_then (map_err Malformed_fragment (parse_packet (rd_packet datagram))) (\<lambda>_.
           Ok (Complete datagram)))))"

definition insert_into_set ::
    "reassembly_key \<Rightarrow> fragment \<Rightarrow> nat \<Rightarrow> nat \<Rightarrow> decoded_fragment \<Rightarrow> bytes \<Rightarrow> nat \<Rightarrow> nat \<Rightarrow> reassembler
     \<Rightarrow> reassembler \<times> (reassembly_status, reassembly_error) outcome" where
  "insert_into_set key fragment offset end_pos decoded packet charge now r =
     (let source_retained = source_used r (rk_source key)
      in if ra_per_source_bytes r < saturating_add source_retained charge
           \<or> ra_global_bytes r < saturating_add (ra_retained_bytes r) charge
      then (r, Err QuotaExceeded)
      else
        let (r, fset) = entry_or_insert key now r in
        case extend_set fragment offset end_pos decoded packet charge fset of
          Err e \<Rightarrow> (r, Err e)
        | Abort \<Rightarrow> (r, Abort)
        | Ok fset \<Rightarrow>
          let r = r\<lparr>ra_sets := hm_insert key fset (ra_sets r),
                ra_source_bytes := hm_insert (rk_source key)
                  (source_used r (rk_source key) + charge) (ra_source_bytes r),
                ra_retained_bytes := ra_retained_bytes r + charge\<rparr>
          in if \<not> is_complete fset then (r, Ok Pending) else finish_set key r)"

definition key_of :: "parsed_packet \<Rightarrow> fragment \<Rightarrow> reassembly_key" where
  "key_of parsed fragment =
     \<lparr>rk_source = pk_source parsed, rk_destination = pk_destination parsed,
      rk_protocol = (if is_ipv6 (pk_source parsed) then 0 else pk_protocol parsed),
      rk_identification = fg_identification fragment\<rparr>"

text \<open>The closure \<open>prepared\<close> of \<open>push\<close>.\<close>

definition prepare :: "bytes \<Rightarrow> fragment
    \<Rightarrow> (decoded_fragment \<times> nat \<times> nat \<times> nat, reassembly_error) outcome" where
  "prepare packet fragment =
     and_then (decode_fragment packet fragment) (\<lambda>decoded.
     let offset = unat (fg_offset fragment) * 8;
         end_pos = offset + length (df_payload decoded)
     in if 65535 < end_pos then Err Malformed_fragment
        else if df_payload decoded = []
          \<or> (fg_more fragment \<and> length (df_payload decoded) mod 8 \<noteq> 0)
        then Err Malformed_fragment
        else
          and_then
            (ok_or QuotaExceeded (checked_add (length (df_payload decoded)) (length packet)))
            (\<lambda>charge. Ok (decoded, offset, end_pos, charge)))"

definition passthrough :: "bytes \<Rightarrow> reassembly_status" where
  "passthrough packet = Complete \<lparr>rd_packet = packet, rd_original_fragments = [packet]\<rparr>"

definition push ::
    "bytes \<Rightarrow> nat \<Rightarrow> reassembler \<Rightarrow> reassembler \<times> (reassembly_status, reassembly_error) outcome" where
  "push packet now r =
     (case expire_sets now r of
        None \<Rightarrow> (r, Abort)
      | Some (_, r) \<Rightarrow>
        case parse_packet packet of
          Abort \<Rightarrow> (r, Abort)
        | Err _ \<Rightarrow> (r, Err Malformed_fragment)
        | Ok parsed \<Rightarrow>
          case pk_fragment parsed of
            None \<Rightarrow> (r, Ok (passthrough packet))
          | Some fragment \<Rightarrow>
            if fg_offset fragment = 0 \<and> \<not> fg_more fragment then (r, Ok (passthrough packet))
            else
              let key = key_of parsed fragment in
              case prepare packet fragment of
                Abort \<Rightarrow> (r, Abort)
              | Err e \<Rightarrow> (remove_set key r, Err e)
              | Ok (decoded, offset, end_pos, charge) \<Rightarrow>
                let (r, result) =
                  insert_into_set key fragment offset end_pos decoded packet charge now r
                in case result of
                     Err e \<Rightarrow> (remove_set key r, Err e)
                   | _ \<Rightarrow> (r, result))"

section \<open>Neighbours and overlaps\<close>

text \<open>Stored fragments never overlap: each ends before the next one starts.\<close>

definition separated :: "(nat \<times> stored_fragment) list \<Rightarrow> bool" where
  "separated m \<longleftrightarrow> sorted_wrt (\<lambda>a b. fragment_end a \<le> fst b) m"

definition intersects :: "nat \<Rightarrow> nat \<Rightarrow> nat \<times> stored_fragment \<Rightarrow> bool" where
  "intersects offset end_pos e \<longleftrightarrow> fst e < end_pos \<and> offset < fragment_end e"

lemma separated_Cons [simp]:
  "separated (e # m) \<longleftrightarrow> (\<forall>x\<in>set m. fragment_end e \<le> fst x) \<and> separated m"
  by (simp add: separated_def)

lemma range_last_Some:
  assumes "bmap_ok m" and "range_last offset m = Some y"
  shows "y \<in> set m" "fst y \<le> offset" "x \<in> set m \<Longrightarrow> fst x \<le> offset \<Longrightarrow> fst x \<le> fst y"
proof -
  let ?xs = "filter (\<lambda>(k, _). k \<le> offset) m"
  have ne: "?xs \<noteq> []" and y: "y = last ?xs"
    using assms(2) by (auto simp: range_last_def split: list.splits)
  have mem: "y \<in> set ?xs" unfolding y using ne by (rule last_in_set)
  then show "y \<in> set m" "fst y \<le> offset" by auto
  have "sorted_wrt (\<lambda>a b. fst a < fst b) m"
    using assms(1) by (simp add: bmap_ok_def sorted_wrt_map)
  then have "sorted_wrt (\<lambda>a b. fst a < fst b) (butlast ?xs @ [last ?xs])"
    using ne by (simp add: sorted_wrt_filter)
  then have *: "\<forall>a \<in> set (butlast ?xs). fst a < fst y" using y by (simp add: sorted_wrt_append)
  show "fst x \<le> fst y" if "x \<in> set m" "fst x \<le> offset"
  proof -
    have "x \<in> set ?xs" using that by auto
    then have "x \<in> set (butlast ?xs @ [last ?xs])" unfolding append_butlast_last_id [OF ne] .
    then show ?thesis using * y by auto
  qed
qed

lemma range_last_None: "range_last offset m = None \<Longrightarrow> x \<in> set m \<Longrightarrow> offset < fst x"
  by (auto simp: range_last_def filter_empty_conv split: list.splits)

lemma range_first_Some:
  assumes "bmap_ok m" and "range_first offset m = Some y"
  shows "y \<in> set m" "offset \<le> fst y" "x \<in> set m \<Longrightarrow> offset \<le> fst x \<Longrightarrow> fst y \<le> fst x"
proof -
  have "y \<in> set m \<and> offset \<le> fst y \<and> (x \<in> set m \<longrightarrow> offset \<le> fst x \<longrightarrow> fst y \<le> fst x)"
    using assms unfolding range_first_def
    by (induction m) (auto simp: bmap_ok_def split: if_splits)
  then show "y \<in> set m" "offset \<le> fst y" "x \<in> set m \<Longrightarrow> offset \<le> fst x \<Longrightarrow> fst y \<le> fst x"
    by auto
qed

lemma range_first_None: "range_first offset m = None \<Longrightarrow> x \<in> set m \<Longrightarrow> fst x < offset"
  by (cases x) (fastforce simp: range_first_def find_None_iff)

text \<open>The comment in \<open>insert_fragment\<close>: only the two neighbours need to be tested.\<close>

lemma separated_less:
  assumes "separated m" "bmap_ok m" "x \<in> set m" "y \<in> set m" "fst x < fst y"
  shows "fragment_end x \<le> fst y"
  using assms
proof (induction m)
  case Nil
  then show ?case by simp
next
  case (Cons e m)
  then show ?case by (auto simp: bmap_ok_def)
qed

lemma overlaps_neighbour_iff:
  assumes ok: "bmap_ok m" "separated m" and ne: "\<forall>e\<in>set m. sf_payload (snd e) \<noteq> []"
    and "offset < end_pos"
  shows "overlaps_neighbour m offset end_pos \<longleftrightarrow> (\<exists>e\<in>set m. intersects offset end_pos e)"
proof
  assume "overlaps_neighbour m offset end_pos"
  then consider y where "range_last offset m = Some y" "offset < fragment_end y"
    | y where "range_first offset m = Some y" "fst y < end_pos"
    by (auto simp: overlaps_neighbour_def split: option.splits)
  then show "\<exists>e\<in>set m. intersects offset end_pos e"
  proof cases
    case 1
    then show ?thesis using range_last_Some [OF ok(1) 1(1)] assms(4)
      by (intro bexI [of _ y]) (auto simp: intersects_def)
  next
    case 2
    note y = range_first_Some [OF ok(1) 2(1)]
    have "fst y < fragment_end y" using ne y(1) by (simp add: fragment_end_def)
    then show ?thesis using y(1,2) 2(2) by (intro bexI [of _ y]) (auto simp: intersects_def)
  qed
next
  assume "\<exists>e\<in>set m. intersects offset end_pos e"
  then obtain x where x: "x \<in> set m" "fst x < end_pos" "offset < fragment_end x"
    by (auto simp: intersects_def)
  show "overlaps_neighbour m offset end_pos"
  proof (cases "fst x \<le> offset")
    case True
    then obtain y where y: "range_last offset m = Some y"
      using range_last_None [of offset m x] x(1) by (cases "range_last offset m") auto
    note ys = range_last_Some [OF ok(1) y]
    have le: "fst x \<le> fst y" using ys(3) x(1) True by simp
    have "fst x = fst y"
    proof (rule ccontr)
      assume "fst x \<noteq> fst y"
      then have "fragment_end x \<le> fst y" using le separated_less [OF ok(2,1) x(1) ys(1)] by simp
      then show False using ys(2) x(3) by simp
    qed
    then have "x = y" using ok(1) x(1) ys(1)
      by (metis bmap_ok_distinct hm_get_Some_mem option.inject prod.collapse)
    then show ?thesis using y x(3) by (simp add: overlaps_neighbour_def)
  next
    case False
    then obtain y where y: "range_first offset m = Some y"
      using range_first_None [of offset m x] x(1) by (cases "range_first offset m") auto
    have "fst y \<le> fst x" using range_first_Some(3) [OF ok(1) y] x(1) False by simp
    then show ?thesis using y x(2) by (simp add: overlaps_neighbour_def)
  qed
qed

lemma separated_insert:
  assumes "separated m" and "bmap_ok m"
    and "\<forall>e\<in>set m. \<not> intersects k (fragment_end (k, v)) e"
    and "\<forall>e\<in>set m. sf_payload (snd e) \<noteq> []" and "sf_payload v \<noteq> []"
  shows "separated (bmap_insert k v m)"
  using assms
proof (induction m)
  case Nil
  then show ?case by (simp add: separated_def)
next
  case (Cons p m)
  obtain a f where p: "p = (a, f)" by (cases p)
  have len: "0 < length (sf_payload f)" "0 < length (sf_payload v)" using Cons.prems p by auto
  have no: "fragment_end (k, v) \<le> a \<or> fragment_end (a, f) \<le> k"
    using Cons.prems(3) p by (auto simp: intersects_def)
  have ih: "separated (bmap_insert k v m)"
    using Cons by (auto simp: bmap_ok_def)
  have mem: "set (bmap_insert k v m) \<subseteq> insert (k, v) (set m)"
    by (induction m) (auto split: if_splits)
  show ?case using Cons.prems p no ih len mem
    by (auto simp: fragment_end_def bmap_ok_def)
qed

section \<open>Coverage\<close>

text \<open>\<open>contiguous k m\<close>: the fragments follow each other without gap from position \<open>k\<close>.\<close>

fun contiguous :: "nat \<Rightarrow> (nat \<times> stored_fragment) list \<Rightarrow> bool" where
  "contiguous k [] \<longleftrightarrow> True"
| "contiguous k (e # m) \<longleftrightarrow> fst e = k \<and> contiguous (fragment_end e) m"

abbreviation payload_total :: "(nat \<times> stored_fragment) list \<Rightarrow> nat" where
  "payload_total \<equiv> hm_sum (\<lambda>(_, f). length (sf_payload f))"

abbreviation payloads :: "(nat \<times> stored_fragment) list \<Rightarrow> bytes" where
  "payloads m \<equiv> concat (map (\<lambda>(_, f). sf_payload f) m)"

lemma separated_total_le:
  "separated m \<Longrightarrow> \<forall>e\<in>set m. k \<le> fst e \<and> fragment_end e \<le> n \<Longrightarrow> k \<le> n \<Longrightarrow> payload_total m + k \<le> n"
proof (induction m arbitrary: k)
  case Nil
  then show ?case by simp
next
  case (Cons e m)
  have "payload_total m + fragment_end e \<le> n" using Cons by (intro Cons.IH) auto
  then show ?case using Cons.prems by (cases e) (auto simp: fragment_end_def)
qed

lemma separated_full_contiguous:
  "separated m \<Longrightarrow> \<forall>e\<in>set m. k \<le> fst e \<and> fragment_end e \<le> n \<Longrightarrow> payload_total m + k = n
   \<Longrightarrow> contiguous k m"
proof (induction m arbitrary: k)
  case Nil
  then show ?case by simp
next
  case (Cons e m)
  have le: "payload_total m + fragment_end e \<le> n"
    using Cons.prems by (intro separated_total_le) auto
  then have k: "fst e = k" using Cons.prems by (cases e) (auto simp: fragment_end_def)
  have "payload_total m + fragment_end e = n"
    using Cons.prems k by (cases e) (auto simp: fragment_end_def)
  then show ?case using Cons k by auto
qed

lemma contiguous_covers:
  "contiguous k m \<Longrightarrow> k \<le> i \<Longrightarrow> i < k + payload_total m \<Longrightarrow>
   \<exists>e\<in>set m. fst e \<le> i \<and> i < fragment_end e"
proof (induction m arbitrary: k)
  case Nil
  then show ?case by simp
next
  case (Cons e m)
  show ?case
  proof (cases "i < fragment_end e")
    case True
    then show ?thesis using Cons.prems by auto
  next
    case False
    then show ?thesis using Cons.prems Cons.IH [of "fragment_end e"]
      by (cases e) (auto simp: fragment_end_def)
  qed
qed

text \<open>Conversely a set of separated fragments that covers \<open>[k, n)\<close> has the full length.\<close>

lemma covered_total:
  "separated m \<Longrightarrow> bmap_ok m \<Longrightarrow> \<forall>e\<in>set m. k \<le> fst e \<and> fragment_end e \<le> n \<and> sf_payload (snd e) \<noteq> []
   \<Longrightarrow> k \<le> n \<Longrightarrow> \<forall>i. k \<le> i \<and> i < n \<longrightarrow> (\<exists>e\<in>set m. fst e \<le> i \<and> i < fragment_end e)
   \<Longrightarrow> payload_total m + k = n"
proof (induction m arbitrary: k)
  case Nil
  then show ?case by (metis add_0 bot_nat_0.not_eq_extremum le_less less_irrefl_nat list.simps(8) sum_list.Nil ex_in_conv empty_set)
next
  case (Cons e m)
  have mono: "fragment_end e \<le> fst x" if "x \<in> set m" for x using Cons.prems(1) that by simp
  have pos: "fst e < fragment_end e" using Cons.prems(3) by (simp add: fragment_end_def)
  have e: "k \<le> fst e" "fragment_end e \<le> n" using Cons.prems(3) by auto
  have "\<exists>x\<in>set (e # m). fst x \<le> k \<and> k < fragment_end x"
    using Cons.prems(5) e pos by (metis le_refl less_le_trans le_less_trans)
  then have k: "fst e = k" using mono e pos by fastforce
  have "payload_total m + fragment_end e = n"
  proof (rule Cons.IH)
    show "separated m" "bmap_ok m" "fragment_end e \<le> n"
      using Cons.prems e by (auto simp: bmap_ok_def)
    show "\<forall>x\<in>set m. fragment_end e \<le> fst x \<and> fragment_end x \<le> n \<and> sf_payload (snd x) \<noteq> []"
      using Cons.prems(3) mono by simp
    show "\<forall>i. fragment_end e \<le> i \<and> i < n \<longrightarrow> (\<exists>x\<in>set m. fst x \<le> i \<and> i < fragment_end x)"
    proof (intro allI impI)
      fix i assume i: "fragment_end e \<le> i \<and> i < n"
      then have "\<exists>x\<in>set (e # m). fst x \<le> i \<and> i < fragment_end x"
        using Cons.prems(5) e pos by (metis le_trans less_imp_le)
      then show "\<exists>x\<in>set m. fst x \<le> i \<and> i < fragment_end x" using i by auto
    qed
  qed
  then show ?case using k by (cases e) (auto simp: fragment_end_def)
qed

text \<open>In a contiguous list each payload sits at its own offset of the joined payload.\<close>

lemma length_payloads: "length (payloads m) = payload_total m"
  by (induction m) auto

lemma contiguous_payload:
  "contiguous k m \<Longrightarrow> e \<in> set m \<Longrightarrow>
   k \<le> fst e \<and> take (length (sf_payload (snd e))) (drop (fst e - k) (payloads m)) = sf_payload (snd e)"
proof (induction m arbitrary: k)
  case Nil
  then show ?case by simp
next
  case (Cons x m)
  obtain a f where x: "x = (a, f)" by (cases x)
  show ?case
  proof (cases "e = x")
    case True
    then show ?thesis using Cons.prems x by simp
  next
    case False
    then have ih: "fragment_end x \<le> fst e"
      "take (length (sf_payload (snd e))) (drop (fst e - fragment_end x) (payloads m)) = sf_payload (snd e)"
      using Cons by auto
    then show ?thesis using Cons.prems x by (auto simp: fragment_end_def)
  qed
qed

section \<open>Invariant of one set\<close>

text \<open>
  \<open>decoded_as key offset f d\<close>: the retained original packet of \<open>f\<close> parses as a
  fragment of the set \<open>key\<close> at byte \<open>offset\<close> and decodes to \<open>d\<close>.
\<close>

definition decoded_as :: "reassembly_key \<Rightarrow> nat \<Rightarrow> stored_fragment \<Rightarrow> decoded_fragment \<Rightarrow> bool" where
  "decoded_as key offset f d \<longleftrightarrow>
     (\<exists>parsed fragment. parse_packet (sf_original f) = Ok parsed
        \<and> pk_fragment parsed = Some fragment \<and> key_of parsed fragment = key
        \<and> prepare (sf_original f) fragment = Ok (d, offset, fragment_end (offset, f),
            length (sf_payload f) + length (sf_original f))
        \<and> df_payload d = sf_payload f)"

abbreviation fragment_cost :: "nat \<times> stored_fragment \<Rightarrow> nat" where
  "fragment_cost \<equiv> \<lambda>(_, f). length (sf_payload f) + length (sf_original f)"

definition template_ok :: "reassembly_key \<Rightarrow> fragment_set \<Rightarrow> bool" where
  "template_ok key s \<longleftrightarrow>
     (case hm_get (st_fragments s) 0 of
        None \<Rightarrow> st_template s = None
      | Some f \<Rightarrow> (\<exists>d. decoded_as key 0 f d \<and> st_template s = Some (df_template d)))"

definition fragments_sound :: "reassembly_key \<Rightarrow> (nat \<times> stored_fragment) list \<Rightarrow> bool" where
  "fragments_sound key m \<longleftrightarrow>
     (\<forall>e\<in>set m. sf_payload (snd e) \<noteq> [] \<and> fragment_end e < 65536
        \<and> (\<exists>d. decoded_as key (fst e) (snd e) d))"

definition set_ok :: "reassembly_key \<Rightarrow> fragment_set \<Rightarrow> bool" where
  "set_ok key s \<longleftrightarrow>
     st_source s = rk_source key \<and> bmap_ok (st_fragments s) \<and> separated (st_fragments s)
     \<and> fragments_sound key (st_fragments s) \<and> template_ok key s
     \<and> st_payload_bytes s = payload_total (st_fragments s)
     \<and> st_retained_bytes s = hm_sum fragment_cost (st_fragments s)
     \<and> (\<forall>n. st_final_length s = Some n \<longrightarrow> (\<forall>e\<in>set (st_fragments s). fragment_end e \<le> n))"

lemma set_ok_empty: "set_ok key (empty_set key d)"
  by (simp add: set_ok_def empty_set_def separated_def fragments_sound_def template_ok_def)

lemma prepare_Ok:
  assumes "prepare packet fragment = Ok (decoded, offset, end_pos, charge)"
  shows "offset = unat (fg_offset fragment) * 8" "end_pos = offset + length (df_payload decoded)"
    "end_pos < 65536" "df_payload decoded \<noteq> []"
    "charge = length (df_payload decoded) + length packet"
    "decode_fragment packet fragment = Ok decoded"
    "fg_more fragment \<Longrightarrow> length (df_payload decoded) mod 8 = 0"
  using assms by (auto simp: prepare_def Let_def and_then_Ok_iff checked_add_def split: if_splits)

lemma last_fragment_end:
  assumes "separated m" "bmap_ok m" "e \<in> set m"
  shows "fragment_end e \<le> fragment_end (last m)"
proof -
  have "m \<noteq> []" using assms(3) by auto
  then have m: "m = butlast m @ [last m]" by simp
  have "\<forall>x\<in>set (butlast m). fragment_end x \<le> fst (last m)"
    using assms(1) m unfolding separated_def by (metis sorted_wrt_append list.set_intros(1))
  moreover have "e \<in> set (butlast m) \<or> e = last m"
    using assms(3) m by (metis Un_iff empty_iff insert_iff list.set(1,2) set_append)
  ultimately show ?thesis by (auto simp: fragment_end_def)
qed

lemma intersects_same_offset:
  assumes "hm_get m k = Some f" and "k < end_pos" and "sf_payload f \<noteq> []"
  shows "\<exists>e\<in>set m. intersects k end_pos e"
  using assms map_of_SomeD [OF assms(1)]
  by (intro bexI [of _ "(k, f)"]) (auto simp: intersects_def fragment_end_def)

text \<open>What an accepted fragment does to its set.\<close>

lemma extend_set_Ok:
  assumes "extend_set fragment offset end_pos decoded packet charge s = Ok s'"
  shows "\<not> overlaps_neighbour (st_fragments s) offset end_pos"
    "st_source s' = st_source s" "st_expires_at s' = st_expires_at s"
    "st_retained_bytes s' = st_retained_bytes s + charge"
    "st_payload_bytes s' = st_payload_bytes s + length (df_payload decoded)"
    "st_fragments s' = bmap_insert offset \<lparr>sf_payload = df_payload decoded, sf_original = packet\<rparr>
       (st_fragments s)"
    "st_template s' = (if offset = 0 then Some (df_template decoded) else st_template s)"
    "st_final_length s' = (if fg_more fragment then st_final_length s else Some end_pos)"
    "\<And>n. st_final_length s = Some n \<Longrightarrow> end_pos \<le> n"
    "\<And>n. st_final_length s = Some n \<Longrightarrow> \<not> fg_more fragment \<Longrightarrow> end_pos = n"
    "\<And>e. \<not> fg_more fragment \<Longrightarrow> last_key_value (st_fragments s) = Some e \<Longrightarrow> fragment_end e \<le> end_pos"
  using assms by (auto simp: extend_set_def Let_def split: if_splits option.splits)

lemma extend_set_not_Abort: "extend_set fragment offset end_pos decoded packet charge s \<noteq> Abort"
  by (auto simp: extend_set_def Let_def)

lemma extend_set_ok:
  assumes ok: "set_ok key s"
    and parse: "parse_packet packet = Ok parsed" "pk_fragment parsed = Some fragment"
      "key_of parsed fragment = key"
    and prep: "prepare packet fragment = Ok (decoded, offset, end_pos, charge)"
    and ext: "extend_set fragment offset end_pos decoded packet charge s = Ok s'"
  shows "set_ok key s'"
proof -
  let ?f = "\<lparr>sf_payload = df_payload decoded, sf_original = packet\<rparr>"
  let ?m = "st_fragments s"
  note prep' = prepare_Ok [OF prep] and ext' = extend_set_Ok [OF ext]
  have m: "bmap_ok ?m" "separated ?m" "\<forall>e\<in>set ?m. sf_payload (snd e) \<noteq> []"
    using ok by (auto simp: set_ok_def fragments_sound_def)
  have pos: "offset < end_pos" using prep'(2,4) by simp
  have no: "\<forall>e\<in>set ?m. \<not> intersects offset end_pos e"
    using ext'(1) overlaps_neighbour_iff [OF m pos] by blast
  have fe: "fragment_end (offset, ?f) = end_pos" using prep'(2) by (simp add: fragment_end_def)
  have new: "hm_get ?m offset = None"
  proof (rule ccontr)
    assume "hm_get ?m offset \<noteq> None"
    then obtain f where f: "hm_get ?m offset = Some f" by auto
    then have "sf_payload f \<noteq> []" using m(3) map_of_SomeD [OF f] by auto
    then show False using intersects_same_offset [OF f pos] no by blast
  qed
  have dec: "decoded_as key offset ?f decoded"
    unfolding decoded_as_def using parse prep prep' fe by auto
  have frag_set: "set (st_fragments s') = insert (offset, ?f) (set ?m)"
    using ext'(6) new by (simp add: bmap_insert_set_new)
  show ?thesis unfolding set_ok_def
  proof (intro conjI)
    show "st_source s' = rk_source key" using ok ext'(2) by (simp add: set_ok_def)
    show "bmap_ok (st_fragments s')" using m(1) ext'(6) by simp
    show "separated (st_fragments s')"
      using m no fe prep'(4) ext'(6) by (simp add: separated_insert)
    show "fragments_sound key (st_fragments s')"
      using ok prep' dec fe frag_set by (auto simp: set_ok_def fragments_sound_def)
    show "template_ok key s'"
      using ok ext'(6,7) dec new by (auto simp: set_ok_def template_ok_def table_simps split: option.splits)
    show "st_payload_bytes s' = payload_total (st_fragments s')"
      using ok ext'(5,6) new by (simp add: set_ok_def bmap_insert_sum_new)
    show "st_retained_bytes s' = hm_sum fragment_cost (st_fragments s')"
      using ok ext'(4,6) new prep'(5) by (simp add: set_ok_def bmap_insert_sum_new)
    show "\<forall>n. st_final_length s' = Some n \<longrightarrow> (\<forall>e\<in>set (st_fragments s'). fragment_end e \<le> n)"
    proof (intro allI impI ballI)
      fix n e assume n: "st_final_length s' = Some n" and e: "e \<in> set (st_fragments s')"
      show "fragment_end e \<le> n"
      proof (cases "e = (offset, ?f)")
        case True
        then show ?thesis using n fe ext'(8,9) by (auto split: if_splits)
      next
        case False
        then have old: "e \<in> set ?m" using e frag_set by simp
        show ?thesis
        proof (cases "fg_more fragment")
          case True
          then show ?thesis using n old ok ext'(8) by (simp add: set_ok_def)
        next
          case more: False
          have "last_key_value ?m = Some (last ?m)" using old by (auto simp: last_key_value_def)
          then have "fragment_end (last ?m) \<le> end_pos" using ext'(11) more by blast
          then show ?thesis using last_fragment_end [OF m(2,1) old] n ext'(8) more by simp
        qed
      qed
    qed
  qed
qed

text \<open>Under the invariant the counter test decides coverage.\<close>

lemma is_complete_contiguous:
  assumes "set_ok key s" and "is_complete s"
  shows "contiguous 0 (st_fragments s)" "st_final_length s = Some (payload_total (st_fragments s))"
proof -
  show n: "st_final_length s = Some (payload_total (st_fragments s))"
    using assms by (simp add: set_ok_def is_complete_def)
  show "contiguous 0 (st_fragments s)"
    using assms n by (intro separated_full_contiguous [of _ _ "payload_total (st_fragments s)"])
      (auto simp: set_ok_def)
qed

lemma is_complete_iff_covered:
  assumes ok: "set_ok key s"
  shows "is_complete s \<longleftrightarrow> (\<exists>n. st_final_length s = Some n \<and> 0 < n
    \<and> (\<forall>i<n. \<exists>e\<in>set (st_fragments s). fst e \<le> i \<and> i < fragment_end e))"
proof
  assume c: "is_complete s"
  note full = is_complete_contiguous [OF ok c]
  obtain f where f: "hm_get (st_fragments s) 0 = Some f"
    using c ok by (auto simp: is_complete_def set_ok_def template_ok_def split: option.splits)
  then have "sf_payload f \<noteq> []"
    using ok map_of_SomeD [OF f] by (auto simp: set_ok_def fragments_sound_def)
  then have "0 < payload_total (st_fragments s)"
    using hm_sum_member [OF f, of "\<lambda>(_, f). length (sf_payload f)"] by (cases "sf_payload f") auto
  then show "\<exists>n. st_final_length s = Some n \<and> 0 < n
    \<and> (\<forall>i<n. \<exists>e\<in>set (st_fragments s). fst e \<le> i \<and> i < fragment_end e)"
    using full contiguous_covers [OF full(1)] by auto
next
  assume "\<exists>n. st_final_length s = Some n \<and> 0 < n
    \<and> (\<forall>i<n. \<exists>e\<in>set (st_fragments s). fst e \<le> i \<and> i < fragment_end e)"
  then obtain n where n: "st_final_length s = Some n" "0 < n"
    "\<forall>i<n. \<exists>e\<in>set (st_fragments s). fst e \<le> i \<and> i < fragment_end e" by blast
  have "payload_total (st_fragments s) + 0 = n"
    using ok n by (intro covered_total) (auto simp: set_ok_def fragments_sound_def)
  moreover obtain e where e: "e \<in> set (st_fragments s)" "fst e = 0" using n(2,3) by auto
  then have "hm_get (st_fragments s) 0 = Some (snd e)"
    using ok by (metis bmap_ok_distinct hm_get_Some_mem prod.collapse set_ok_def)
  then have "st_template s \<noteq> None" using ok by (auto simp: set_ok_def template_ok_def)
  ultimately show "is_complete s" using ok n(1) by (simp add: is_complete_def set_ok_def)
qed

section \<open>Invariant of the reassembler\<close>

abbreviation set_cost :: "reassembly_key \<times> fragment_set \<Rightarrow> nat" where
  "set_cost \<equiv> \<lambda>(_, s). st_retained_bytes s"

abbreviation source_cost :: "ip_addr \<Rightarrow> reassembly_key \<times> fragment_set \<Rightarrow> nat" where
  "source_cost a \<equiv> \<lambda>(k, s). if rk_source k = a then st_retained_bytes s else 0"

definition sets_ok :: "reassembler \<Rightarrow> bool" where
  "sets_ok r \<longleftrightarrow>
     hm_ok (ra_sets r) \<and> index_ok st_expires_at (ra_sets r) (ra_expirations r)
     \<and> (\<forall>k s. hm_get (ra_sets r) k = Some s \<longrightarrow> set_ok k s)"

definition accounts_ok :: "reassembler \<Rightarrow> bool" where
  "accounts_ok r \<longleftrightarrow>
     ra_retained_bytes r = hm_sum set_cost (ra_sets r)
     \<and> (\<forall>a. source_used r a = hm_sum (source_cost a) (ra_sets r))
     \<and> hm_ok (ra_source_bytes r) \<and> (\<forall>a n. hm_get (ra_source_bytes r) a = Some n \<longrightarrow> 0 < n)"

definition quotas_ok :: "reassembler \<Rightarrow> bool" where
  "quotas_ok r \<longleftrightarrow>
     ra_retained_bytes r \<le> ra_global_bytes r \<and> (\<forall>a. source_used r a \<le> ra_per_source_bytes r)
     \<and> ra_per_source_bytes r \<le> ra_global_bytes r \<and> ra_global_bytes r < u64_max"

definition reassembler_inv :: "reassembler \<Rightarrow> bool" where
  "reassembler_inv r \<longleftrightarrow> sets_ok r \<and> accounts_ok r \<and> quotas_ok r"

lemma new_reassembler_inv:
  "new_reassembler p g t = Ok r \<Longrightarrow> g < u64_max \<Longrightarrow> reassembler_inv r"
  by (auto simp: new_reassembler_def reassembler_inv_def sets_ok_def accounts_ok_def quotas_ok_def
      source_used_def split: if_splits)

text \<open>Releasing a set's usage.\<close>

lemma release_usage_simps [simp]:
  "ra_sets (release_usage s r) = ra_sets r" "ra_expirations (release_usage s r) = ra_expirations r"
  "ra_retained_bytes (release_usage s r) = ra_retained_bytes r - st_retained_bytes s"
  "ra_per_source_bytes (release_usage s r) = ra_per_source_bytes r"
  "ra_global_bytes (release_usage s r) = ra_global_bytes r"
  "ra_timeout_seconds (release_usage s r) = ra_timeout_seconds r"
  by (auto simp: release_usage_def Let_def split: option.split)

lemma release_usage_source [simp]:
  "source_used (release_usage s r) a =
    (if a = st_source s then source_used r a - st_retained_bytes s else source_used r a)"
  by (auto simp: release_usage_def Let_def source_used_def table_simps split: option.split)

lemma release_usage_entries:
  assumes "hm_ok (ra_source_bytes r)" and "\<forall>a n. hm_get (ra_source_bytes r) a = Some n \<longrightarrow> 0 < n"
  shows "hm_ok (ra_source_bytes (release_usage s r))
    \<and> (\<forall>a n. hm_get (ra_source_bytes (release_usage s r)) a = Some n \<longrightarrow> 0 < n)"
  using assms by (auto simp: release_usage_def Let_def table_simps split: option.split)

lemma remove_set_sets [simp]: "ra_sets (remove_set k r) = hm_remove k (ra_sets r)"
  by (simp add: remove_set_def hm_remove_absent split: option.split)

lemma remove_set_limits [simp]:
  "ra_per_source_bytes (remove_set k r) = ra_per_source_bytes r"
  "ra_global_bytes (remove_set k r) = ra_global_bytes r"
  "ra_timeout_seconds (remove_set k r) = ra_timeout_seconds r"
  by (simp_all add: remove_set_def split: option.split)

lemma source_used_update [simp]:
  "source_used (r\<lparr>ra_sets := m\<rparr>) a = source_used r a"
  "source_used (r\<lparr>ra_expirations := x\<rparr>) a = source_used r a"
  "source_used (r\<lparr>ra_retained_bytes := n\<rparr>) a = source_used r a"
  by (simp_all add: source_used_def)

lemma source_cost_remove:
  assumes "hm_ok m" and "hm_get m k = Some s"
  shows "hm_sum (source_cost a) (hm_remove k m) =
    (if a = rk_source k then hm_sum (source_cost a) m - st_retained_bytes s
     else hm_sum (source_cost a) m)"
  using hm_sum_remove [OF assms, of "source_cost a"] by auto

lemma remove_set_inv:
  assumes "reassembler_inv r"
  shows "reassembler_inv (remove_set k r)"
proof (cases "hm_get (ra_sets r) k")
  case None
  then show ?thesis using assms by (simp add: remove_set_def)
next
  case (Some s)
  let ?r = "r\<lparr>ra_sets := hm_remove k (ra_sets r),
    ra_expirations := bset_remove (st_expires_at s, k) (ra_expirations r)\<rparr>"
  have r': "remove_set k r = release_usage s ?r" using Some by (simp add: remove_set_def)
  have ok: "sets_ok r" "accounts_ok r" "quotas_ok r" using assms by (simp_all add: reassembler_inv_def)
  have src: "st_source s = rk_source k" using ok(1) Some by (simp add: sets_ok_def set_ok_def)
  have hm: "hm_ok (ra_sets r)" using ok(1) by (simp add: sets_ok_def)
  have "sets_ok (release_usage s ?r)"
    using ok(1) Some by (auto simp: sets_ok_def table_simps intro: index_ok_remove split: if_splits)
  moreover have "accounts_ok (release_usage s ?r)"
    unfolding accounts_ok_def
  proof (intro conjI allI)
    show "ra_retained_bytes (release_usage s ?r) = hm_sum set_cost (ra_sets (release_usage s ?r))"
      using ok(2) hm_sum_remove [OF hm Some, of set_cost] by (simp add: accounts_ok_def)
    show "source_used (release_usage s ?r) a = hm_sum (source_cost a) (ra_sets (release_usage s ?r))"
      for a using ok(2) source_cost_remove [OF hm Some, of a] src by (simp add: accounts_ok_def)
    have "hm_ok (ra_source_bytes (release_usage s ?r))
      \<and> (\<forall>a n. hm_get (ra_source_bytes (release_usage s ?r)) a = Some n \<longrightarrow> 0 < n)"
      using ok(2) by (intro release_usage_entries) (simp_all add: accounts_ok_def)
    then show "hm_ok (ra_source_bytes (release_usage s ?r))"
      "hm_get (ra_source_bytes (release_usage s ?r)) a = Some n \<longrightarrow> 0 < n" for a n by auto
  qed
  moreover have "quotas_ok (release_usage s ?r)"
  proof -
    have "source_used r a - x \<le> ra_per_source_bytes r" for a x
      using ok(3) by (simp add: quotas_ok_def le_diff_conv trans_le_add1)
    then show ?thesis using ok(3) by (auto simp: quotas_ok_def)
  qed
  ultimately show ?thesis unfolding r' reassembler_inv_def by simp
qed

section \<open>Expiration\<close>

definition set_deadline :: "reassembler \<Rightarrow> reassembly_key \<Rightarrow> nat option" where
  "set_deadline r k = map_option st_expires_at (hm_get (ra_sets r) k)"

definition first_set :: "reassembler \<Rightarrow> (nat \<times> reassembly_key) option" where
  "first_set r = bset_first (ra_expirations r)"

interpretation set_table: deadline_table set_deadline first_set remove_set reassembler_inv
proof unfold_locales
  fix r d k k' d'
  assume inv: "reassembler_inv r"
  then have idx: "index_ok st_expires_at (ra_sets r) (ra_expirations r)"
    by (simp add: reassembler_inv_def sets_ok_def)
  show "set_deadline r k = None" if "first_set r = None"
    using that index_ok_first_None [OF idx] by (simp add: set_deadline_def first_set_def)
  show "set_deadline r k = Some d" if "first_set r = Some (d, k)"
    using that index_ok_first [OF idx] by (auto simp: set_deadline_def first_set_def)
  show "d \<le> d'" if "first_set r = Some (d, k)" "set_deadline r k' = Some d'"
    using that index_ok_first_least [OF idx] by (auto simp: set_deadline_def first_set_def)
  show "set_deadline (remove_set k r) k' = (if k' = k then None else set_deadline r k')"
    by (simp add: set_deadline_def table_simps)
  show "reassembler_inv (remove_set k r)" using inv by (rule remove_set_inv)
qed

text \<open>Each turn of the loop removes a set, so the loop ends after at most as many turns.\<close>

lemma expire_loop_sweep:
  "reassembler_inv r \<Longrightarrow> length (ra_sets r) \<le> n \<Longrightarrow>
   \<exists>c. expire_loop now count r = Some (c, sweep first_set remove_set now n r)
     \<and> c + length (ra_sets (sweep first_set remove_set now n r)) = count + length (ra_sets r)"
proof (induction n arbitrary: r count)
  case 0
  then have "ra_sets r = []" by simp
  then have "ra_expirations r = []"
    using 0 by (cases "ra_expirations r") (force simp: reassembler_inv_def sets_ok_def index_ok_def)+
  then show ?case using \<open>ra_sets r = []\<close> by (subst expire_loop.simps) simp
next
  case (Suc n)
  show ?case
  proof (cases "first_set r")
    case None
    then have "bset_first (ra_expirations r) = None" by (simp add: first_set_def)
    then show ?thesis using None by (subst expire_loop.simps) simp
  next
    case (Some e)
    obtain d k where e: "e = (d, k)" by (cases e)
    have f: "bset_first (ra_expirations r) = Some (d, k)" using Some e by (simp add: first_set_def)
    show ?thesis
    proof (cases "now < d")
      case True
      then show ?thesis using Some e f by (subst expire_loop.simps) simp
    next
      case False
      obtain s where s: "hm_get (ra_sets r) k = Some s"
        using set_table.first_Some [OF Suc.prems(1), of d k] Some e by (auto simp: set_deadline_def)
      have hm: "hm_ok (ra_sets r)" using Suc.prems(1) by (simp add: reassembler_inv_def sets_ok_def)
      have len: "Suc (length (hm_remove k (ra_sets r))) = length (ra_sets r)"
        using hm s by (rule hm_remove_length_Suc)
      then have le: "length (ra_sets (remove_set k r)) \<le> n" using Suc.prems(2) by simp
      from Suc.IH [OF remove_set_inv [OF Suc.prems(1), of k] le, of "count + 1"]
      show ?thesis using Some e f False len [symmetric] by (subst expire_loop.simps) simp
    qed
  qed
qed

definition expired :: "nat \<Rightarrow> reassembler \<Rightarrow> reassembler" where
  "expired now r = sweep first_set remove_set now (length (ra_sets r)) r"

lemma expire_sets_eq:
  assumes "reassembler_inv r"
  shows "expire_sets now r = Some (length (ra_sets r) - length (ra_sets (expired now r)), expired now r)"
proof -
  obtain c where "expire_loop now 0 r = Some (c, expired now r)"
    "c + length (ra_sets (expired now r)) = length (ra_sets r)"
    using expire_loop_sweep [OF assms order.refl, of now 0] by (auto simp: expired_def)
  then show ?thesis by (simp add: expire_sets_def)
qed

lemma expired_inv: "reassembler_inv r \<Longrightarrow> reassembler_inv (expired now r)"
  unfolding expired_def by (rule set_table.sweep_inv)

lemma expired_limits [simp]:
  "ra_per_source_bytes (expired now r) = ra_per_source_bytes r"
  "ra_global_bytes (expired now r) = ra_global_bytes r"
  "ra_timeout_seconds (expired now r) = ra_timeout_seconds r"
  unfolding expired_def
  using sweep_preserves [of "\<lambda>x. ra_per_source_bytes x = ra_per_source_bytes r
      \<and> ra_global_bytes x = ra_global_bytes r \<and> ra_timeout_seconds x = ra_timeout_seconds r" remove_set]
  by simp_all

lemma expired_set: "hm_get (ra_sets (expired now r)) k \<in> {None, hm_get (ra_sets r) k}"
proof -
  have "\<forall>k. hm_get (ra_sets (expired now r)) k \<in> {None, hm_get (ra_sets r) k}"
    unfolding expired_def by (rule sweep_preserves) (auto simp: table_simps)
  then show ?thesis by blast
qed

lemma expired_deadline:
  assumes "reassembler_inv r"
  shows "hm_get (ra_sets (expired now r)) k =
    (case hm_get (ra_sets r) k of None \<Rightarrow> None | Some s \<Rightarrow> if now < st_expires_at s then Some s else None)"
proof -
  have keys: "finite (fst ` set (ra_sets r))" "card (fst ` set (ra_sets r)) \<le> length (ra_sets r)"
    using card_length [of "map fst (ra_sets r)"] by simp_all
  have in_keys: "set_deadline r j \<noteq> None \<Longrightarrow> j \<in> fst ` set (ra_sets r)" for j
    by (cases "hm_get (ra_sets r) j") (auto simp: set_deadline_def dest!: map_of_SomeD intro: rev_image_eqI)
  have due: "now < d" if "set_deadline (expired now r) k = Some d" for d
    using set_table.sweep_complete [OF assms keys(1) in_keys keys(2)] that unfolding expired_def by blast
  have live: "set_deadline (expired now r) k = Some d" if "set_deadline r k = Some d" "now < d" for d
    using set_table.sweep_keeps_live [OF assms that] unfolding expired_def .
  show ?thesis
    using expired_set [of now r k] due live
    by (cases "hm_get (ra_sets r) k"; cases "hm_get (ra_sets (expired now r)) k")
      (auto simp: set_deadline_def)
qed

section \<open>Submitting fragments\<close>

lemma entry_or_insert_spec:
  assumes inv: "reassembler_inv r" and ent: "entry_or_insert key now r = (r1, s)"
  shows "reassembler_inv r1" "hm_get (ra_sets r1) key = Some s" "set_ok key s"
    "source_used r1 a = source_used r a" "ra_retained_bytes r1 = ra_retained_bytes r"
    "ra_per_source_bytes r1 = ra_per_source_bytes r" "ra_global_bytes r1 = ra_global_bytes r"
    "k \<noteq> key \<Longrightarrow> hm_get (ra_sets r1) k = hm_get (ra_sets r) k"
    "hm_get (ra_sets r) key = Some s \<or>
      hm_get (ra_sets r) key = None \<and> s = empty_set key (saturating_add now (ra_timeout_seconds r))"
proof -
  have "reassembler_inv r1 \<and> hm_get (ra_sets r1) key = Some s \<and> set_ok key s"
  proof (cases "hm_get (ra_sets r) key")
    case (Some s')
    then show ?thesis using ent inv by (simp add: entry_or_insert_def reassembler_inv_def sets_ok_def)
  next
    case None
    let ?s = "empty_set key (saturating_add now (ra_timeout_seconds r))"
    have zero: "st_retained_bytes ?s = 0" "st_expires_at ?s = saturating_add now (ra_timeout_seconds r)"
      by (simp_all add: empty_set_def)
    have r1: "r1 = r\<lparr>ra_expirations := bset_insert (st_expires_at ?s, key) (ra_expirations r),
        ra_sets := hm_insert key ?s (ra_sets r)\<rparr>" and s: "s = ?s"
      using ent None zero by (auto simp: entry_or_insert_def Let_def)
    have "sets_ok r1"
      using inv None unfolding r1
      by (auto simp: reassembler_inv_def sets_ok_def table_simps set_ok_empty intro: index_ok_insert_new)
    moreover have "accounts_ok r1"
      using inv None zero unfolding r1
      by (simp add: reassembler_inv_def accounts_ok_def hm_sum_insert_new)
    moreover have "quotas_ok r1"
      using inv unfolding r1 by (simp add: reassembler_inv_def quotas_ok_def)
    ultimately show ?thesis using s by (simp add: reassembler_inv_def r1 table_simps set_ok_empty)
  qed
  then show "reassembler_inv r1" "hm_get (ra_sets r1) key = Some s" "set_ok key s" by auto
  show "source_used r1 a = source_used r a" "ra_retained_bytes r1 = ra_retained_bytes r"
    "ra_per_source_bytes r1 = ra_per_source_bytes r" "ra_global_bytes r1 = ra_global_bytes r"
    "hm_get (ra_sets r) key = Some s \<or>
      hm_get (ra_sets r) key = None \<and> s = empty_set key (saturating_add now (ra_timeout_seconds r))"
    using ent by (auto simp: entry_or_insert_def Let_def split: option.splits)
  show "k \<noteq> key \<Longrightarrow> hm_get (ra_sets r1) k = hm_get (ra_sets r) k"
    using ent by (auto simp: entry_or_insert_def Let_def table_simps split: option.splits)
qed

text \<open>Charging an extended set keeps the accounts exact.\<close>

definition charged :: "reassembly_key \<Rightarrow> fragment_set \<Rightarrow> nat \<Rightarrow> reassembler \<Rightarrow> reassembler" where
  "charged key s charge r =
     r\<lparr>ra_sets := hm_insert key s (ra_sets r),
       ra_source_bytes := hm_insert (rk_source key) (source_used r (rk_source key) + charge)
         (ra_source_bytes r),
       ra_retained_bytes := ra_retained_bytes r + charge\<rparr>"

lemma charged_inv:
  assumes inv: "reassembler_inv r" and old: "hm_get (ra_sets r) key = Some s"
    and ok: "set_ok key s'" "st_expires_at s' = st_expires_at s"
      "st_retained_bytes s' = st_retained_bytes s + charge" "0 < charge"
    and quota: "source_used r (rk_source key) + charge \<le> ra_per_source_bytes r"
      "ra_retained_bytes r + charge \<le> ra_global_bytes r"
  shows "reassembler_inv (charged key s' charge r)"
proof -
  have "sets_ok (charged key s' charge r)"
    using inv old ok by (auto simp: charged_def reassembler_inv_def sets_ok_def table_simps
        intro: index_ok_insert_same split: if_splits)
  moreover have used: "source_used (charged key s' charge r) a =
      (if a = rk_source key then source_used r a + charge else source_used r a)" for a
    by (auto simp: charged_def source_used_def table_simps)
  have "hm_sum set_cost (hm_insert key s' (ra_sets r)) = hm_sum set_cost (ra_sets r) + charge"
    using hm_sum_insert_same [OF old, of set_cost s'] ok(3) by simp
  moreover have "hm_sum (source_cost a) (hm_insert key s' (ra_sets r)) =
      hm_sum (source_cost a) (ra_sets r) + (if a = rk_source key then charge else 0)" for a
    using hm_sum_insert_same [OF old, of "source_cost a" s'] ok(3) by auto
  ultimately have "sets_ok (charged key s' charge r)" "accounts_ok (charged key s' charge r)"
    using inv ok(4) used
    by (auto simp: reassembler_inv_def accounts_ok_def charged_def table_simps)
  moreover have "quotas_ok (charged key s' charge r)"
    using inv quota used by (auto simp: reassembler_inv_def quotas_ok_def charged_def)
  ultimately show ?thesis by (simp add: reassembler_inv_def)
qed

lemma saturating_quota: "saturating_add a b \<le> q \<Longrightarrow> q < u64_max \<Longrightarrow> a + b \<le> q"
  by (auto simp: saturating_add_def min_def split: if_splits)

text \<open>
  \<open>insert_into_set\<close> either refuses the fragment, or extends the set and waits, or extends the
  set, removes it and assembles.
\<close>

datatype fate = Refused reassembly_error | Waiting fragment_set | Finished fragment_set

definition fate_of ::
    "reassembly_key \<Rightarrow> fragment \<Rightarrow> nat \<Rightarrow> nat \<Rightarrow> decoded_fragment \<Rightarrow> bytes \<Rightarrow> nat \<Rightarrow> nat \<Rightarrow> reassembler
     \<Rightarrow> fate" where
  "fate_of key fragment offset end_pos decoded packet charge now r =
     (if ra_per_source_bytes r < saturating_add (source_used r (rk_source key)) charge
        \<or> ra_global_bytes r < saturating_add (ra_retained_bytes r) charge
      then Refused QuotaExceeded
      else
        case extend_set fragment offset end_pos decoded packet charge
            (snd (entry_or_insert key now r)) of
          Ok s \<Rightarrow> if is_complete s then Finished s else Waiting s
        | Err e \<Rightarrow> Refused e
        | Abort \<Rightarrow> Refused Overlap)"

definition released :: "fragment_set \<Rightarrow> (reassembly_status, reassembly_error) outcome" where
  "released s =
     and_then (assemble s) (\<lambda>datagram.
     and_then (map_err Malformed_fragment (parse_packet (rd_packet datagram))) (\<lambda>_.
       Ok (Complete datagram)))"

lemma insert_into_set_fate:
  "insert_into_set key fragment offset end_pos decoded packet charge now r =
    (let r1 = fst (entry_or_insert key now r) in
     case fate_of key fragment offset end_pos decoded packet charge now r of
       Refused e \<Rightarrow> ((if ra_per_source_bytes r < saturating_add (source_used r (rk_source key)) charge
           \<or> ra_global_bytes r < saturating_add (ra_retained_bytes r) charge then r else r1), Err e)
     | Waiting s \<Rightarrow> (charged key s charge r1, Ok Pending)
     | Finished s \<Rightarrow> (remove_set key (charged key s charge r1), released s))"
  using extend_set_not_Abort [of fragment offset end_pos decoded packet charge "snd (entry_or_insert key now r)"]
  by (auto simp: insert_into_set_def fate_of_def Let_def finish_set_def charged_def remove_set_def
      released_def table_simps split: prod.split outcome.split)

lemma fate_accepted:
  assumes inv: "reassembler_inv r"
    and parse: "parse_packet packet = Ok parsed" "pk_fragment parsed = Some fragment"
    and prep: "prepare packet fragment = Ok (decoded, offset, end_pos, charge)"
    and key: "key = key_of parsed fragment"
    and fate: "fate_of key fragment offset end_pos decoded packet charge now r \<in> {Waiting s, Finished s}"
  shows "extend_set fragment offset end_pos decoded packet charge (snd (entry_or_insert key now r)) = Ok s"
    "set_ok key s" "reassembler_inv (charged key s charge (fst (entry_or_insert key now r)))"
proof -
  obtain r1 s1 where ent: "entry_or_insert key now r = (r1, s1)" by (cases "entry_or_insert key now r")
  note spec = entry_or_insert_spec [OF inv ent]
  show ext: "extend_set fragment offset end_pos decoded packet charge (snd (entry_or_insert key now r)) = Ok s"
    using fate by (auto simp: fate_of_def split: if_splits outcome.splits)
  then have ext': "extend_set fragment offset end_pos decoded packet charge s1 = Ok s" using ent by simp
  show ok: "set_ok key s" by (rule extend_set_ok [OF spec(3) parse key [symmetric] prep ext'])
  have lim: "ra_global_bytes r < u64_max" "ra_per_source_bytes r < u64_max"
    using inv by (auto simp: reassembler_inv_def quotas_ok_def)
  have "saturating_add (source_used r (rk_source key)) charge \<le> ra_per_source_bytes r"
    "saturating_add (ra_retained_bytes r) charge \<le> ra_global_bytes r"
    using fate by (auto simp: fate_of_def not_less split: if_splits)
  then have q: "source_used r (rk_source key) + charge \<le> ra_per_source_bytes r"
    "ra_retained_bytes r + charge \<le> ra_global_bytes r"
    using lim by (auto intro: saturating_quota)
  have "0 < charge" using prepare_Ok(4,5) [OF prep] by simp
  then have "reassembler_inv (charged key s charge r1)"
    using spec(1-7) q extend_set_Ok(3,4) [OF ext'] ok by (intro charged_inv [of r1 key s1]) simp_all
  then show "reassembler_inv (charged key s charge (fst (entry_or_insert key now r)))"
    using ent by simp
qed

text \<open>\<open>push\<close> by cases on a state that satisfies the invariant.\<close>

lemma push_eq:
  assumes "reassembler_inv r"
  shows "push packet now r =
    (let r0 = expired now r in
     case parse_packet packet of
       Abort \<Rightarrow> (r0, Abort)
     | Err _ \<Rightarrow> (r0, Err Malformed_fragment)
     | Ok parsed \<Rightarrow>
       case pk_fragment parsed of
         None \<Rightarrow> (r0, Ok (passthrough packet))
       | Some fragment \<Rightarrow>
         if fg_offset fragment = 0 \<and> \<not> fg_more fragment then (r0, Ok (passthrough packet))
         else
           let key = key_of parsed fragment; r1 = fst (entry_or_insert key now r0) in
           case prepare packet fragment of
             Abort \<Rightarrow> (r0, Abort)
           | Err e \<Rightarrow> (remove_set key r0, Err e)
           | Ok (decoded, offset, end_pos, charge) \<Rightarrow>
             case fate_of key fragment offset end_pos decoded packet charge now r0 of
               Refused e \<Rightarrow> (remove_set key (fst (insert_into_set key fragment offset end_pos
                   decoded packet charge now r0)), Err e)
             | Waiting s \<Rightarrow> (charged key s charge r1, Ok Pending)
             | Finished s \<Rightarrow>
               ((if is_ok (released s) \<or> released s = Abort then id else remove_set key)
                  (remove_set key (charged key s charge r1)), released s))"
  unfolding push_def expire_sets_eq [OF assms]
  by (simp add: insert_into_set_fate Let_def split: outcome.split option.split fate.split prod.split)

lemma entry_keeps_inv:
  "reassembler_inv r \<Longrightarrow> reassembler_inv (fst (entry_or_insert key now r))"
  using entry_or_insert_spec(1) [of r key now] by (cases "entry_or_insert key now r") simp

lemma refused_state:
  assumes "fate_of key fragment offset end_pos decoded packet charge now r = Refused e"
  shows "fst (insert_into_set key fragment offset end_pos decoded packet charge now r)
    \<in> {r, fst (entry_or_insert key now r)}"
  using assms by (simp add: insert_into_set_fate Let_def)

lemma push_inv:
  assumes inv: "reassembler_inv r"
  shows "reassembler_inv (fst (push packet now r))"
proof -
  note inv0 = expired_inv [OF inv, of now]
  show ?thesis
  proof (cases "\<exists>parsed fragment decoded offset end_pos charge.
      parse_packet packet = Ok parsed \<and> pk_fragment parsed = Some fragment
      \<and> prepare packet fragment = Ok (decoded, offset, end_pos, charge)")
    case False
    then show ?thesis
      using inv0 by (auto simp: push_eq [OF inv] Let_def remove_set_inv split: outcome.split option.split)
  next
    case True
    then obtain parsed fragment decoded offset end_pos charge where
      parse: "parse_packet packet = Ok parsed" "pk_fragment parsed = Some fragment"
      and prep: "prepare packet fragment = Ok (decoded, offset, end_pos, charge)" by blast
    let ?key = "key_of parsed fragment"
    show ?thesis
    proof (cases "fate_of ?key fragment offset end_pos decoded packet charge now (expired now r)")
      case (Refused e)
      then show ?thesis
        using inv0 refused_state [OF Refused] parse prep
        by (auto simp: push_eq [OF inv] Let_def intro!: remove_set_inv entry_keeps_inv)
    next
      case (Waiting s)
      then show ?thesis
        using inv0 parse prep fate_accepted(3) [OF inv0 parse prep refl, of now s]
        by (simp add: push_eq [OF inv] Let_def)
    next
      case (Finished s)
      then show ?thesis
        using inv0 parse prep fate_accepted(3) [OF inv0 parse prep refl, of now s]
        by (simp add: push_eq [OF inv] Let_def remove_set_inv)
    qed
  qed
qed

text \<open>No index of the decoder or the assembler leaves its slice.\<close>

lemma find_fragment_header_Ok:
  "find_fragment_header steps packet next prev cursor = Ok (c, p) \<Longrightarrow>
   prev = 6 \<or> 40 \<le> prev \<and> prev < cursor \<Longrightarrow> 40 \<le> cursor \<Longrightarrow> cursor \<le> length packet \<Longrightarrow>
   40 \<le> c \<and> c \<le> length packet \<and> (p = 6 \<or> 40 \<le> p \<and> p < c)"
  by (induction steps packet "next" prev cursor rule: find_fragment_header.induct)
    (auto simp: and_then_Ok_iff Let_def split: if_splits)

lemma find_fragment_header_not_Abort: "find_fragment_header steps packet next prev cursor \<noteq> Abort"
  by (induction steps packet "next" prev cursor rule: find_fragment_header.induct)
    (auto simp: and_then_Abort_iff Let_def)

lemma ipv6_fragment_header_Ok:
  assumes "ipv6_fragment_header packet = Ok (c, p)"
  shows "40 \<le> c" "c \<le> length packet" "p = 6 \<or> 40 \<le> p \<and> p < c" "48 \<le> length packet"
  using assms find_fragment_header_Ok [of 8 packet "packet ! 6" 6 40 c p]
  by (auto simp: ipv6_fragment_header_def slice_simps split: if_splits)

lemma ipv6_fragment_header_not_Abort: "ipv6_fragment_header packet \<noteq> Abort"
  by (simp add: ipv6_fragment_header_def slice_simps find_fragment_header_not_Abort)

lemma decode_fragment_not_Abort: "decode_fragment packet fragment \<noteq> Abort"
  by (auto simp: decode_fragment_def Let_def and_then_Abort_iff ipv6_fragment_header_not_Abort
      get_from_def slice_simps split: list.split if_splits)

lemma prepare_not_Abort: "prepare packet fragment \<noteq> Abort"
  by (auto simp: prepare_def Let_def and_then_Abort_iff decode_fragment_not_Abort)

lemma assemble_not_Abort: "assemble s \<noteq> Abort"
  by (auto simp: assemble_def Let_def and_then_Abort_iff assemble_ipv4_def assemble_ipv6_def slice_simps
      split: header_template.split)

lemma released_not_Abort: "released s \<noteq> Abort"
  using parse_packet_not_Abort by (auto simp: released_def and_then_Abort_iff assemble_not_Abort)

lemma push_not_Abort:
  assumes "reassembler_inv r"
  shows "snd (push packet now r) \<noteq> Abort"
  using parse_packet_not_Abort [of packet]
  by (auto simp: push_eq [OF assms] Let_def prepare_not_Abort released_not_Abort passthrough_def
      split: outcome.split option.split fate.split)

section \<open>The assembled datagram\<close>

lemma drop_splice:
  "i + length src \<le> n \<Longrightarrow> i + length src \<le> length dst \<Longrightarrow> drop n (splice dst i src) = drop n dst"
  by (simp add: splice_def)

lemma take_splice: "n \<le> i \<Longrightarrow> i \<le> length dst \<Longrightarrow> take n (splice dst i src) = take n dst"
  by (simp add: splice_def min_def)

lemma parse_packet_addresses:
  assumes "parse_packet bs = Ok p"
  shows "drop_bit 4 (bs ! 0) = 4 \<and> pk_source p = V4 (take 4 (drop 12 bs))
      \<and> pk_destination p = V4 (take 4 (drop 16 bs))
    \<or> drop_bit 4 (bs ! 0) = 6 \<and> pk_source p = V6 (take 16 (drop 8 bs))
      \<and> pk_destination p = V6 (take 16 (drop 24 bs))"
proof -
  have walk: "pk_source p = V6 s \<and> pk_destination p = V6 d"
    if "walk_ipv6 steps bs s d nx cur f r = Ok p" "cur \<le> length bs" for steps bs s d nx cur f r
    using that
    by (induction steps bs s d nx cur f r rule: walk_ipv6.induct)
      (auto simp: slice_simps Let_def finish_transport_fields split: if_splits)
  have fin: "pk_source p = s \<and> pk_destination p = d"
    if "finish_transport payload s d pr f n r = Ok p" for payload s d pr f n r
    using finish_transport_fields [OF that] by simp
  show ?thesis using assms
    by (cases bs) (auto simp: parse_packet_def parse_ipv4_def parse_ipv6_def slice_simps Let_def
        dest!: walk fin split: if_splits)
qed

lemma be16_to_be: "to_be 2 (unat w) = [a, b] \<Longrightarrow> be16 a b = w"
proof -
  assume *: "to_be 2 (unat w) = [a, b]"
  have "unat w < 256 ^ 2" using unsigned_less [of w, where ?'a = nat] by simp
  then have "of_be [a, b] = unat w" using of_be_to_be [of "unat w" 2] * by simp
  then show ?thesis by (simp add: be16_def)
qed

lemma to_be_2: "to_be 2 x = [word_of_nat (x div 256), word_of_nat (x mod 256)]"
  by (simp add: numeral_2_eq_2)

lemma assemble_ipv4_Ok:
  assumes "assemble_ipv4 header payload = Ok q"
  shows "\<exists>h. q = h @ payload \<and> length h = length header \<and> 20 \<le> length h
    \<and> take 2 h = take 2 header \<and> drop 12 h = drop 12 header
    \<and> be16 (h ! 6) (h ! 7) = be16 (header ! 6) (header ! 7) AND 0x4000"
proof -
  let ?f = "be16 (header ! 6) (header ! 7) AND 0x4000"
  obtain a b where ab: "to_be 2 (unat ?f) = [a, b]"
    by (simp add: to_be_2)
  let ?h1 = "splice header 6 [a, b]"
  let ?h2 = "splice ?h1 2 (to_be 2 (length header + length payload))"
  let ?h3 = "splice ?h2 10 [0, 0]"
  let ?h4 = "splice ?h3 10 (to_be 2 (unat (ipv4_checksum ?h3)))"
  have len: "20 \<le> length header" and q: "q = ?h4 @ payload"
    using assms ab by (auto simp: assemble_ipv4_def slice_simps Let_def split: if_splits)
  have "?h4 ! 6 = a" "?h4 ! 7 = b" using len by (simp_all add: nth_splice)
  then have "be16 (?h4 ! 6) (?h4 ! 7) = ?f" using be16_to_be [OF ab] by simp
  moreover have "take 2 ?h4 = take 2 header" "drop 12 ?h4 = drop 12 header"
    using len by (simp_all add: take_splice drop_splice)
  ultimately show ?thesis using len q by (intro exI [of _ ?h4]) simp
qed

lemma assemble_ipv6_Ok:
  assumes "assemble_ipv6 prefix prev nx payload = Ok q" and "prev = 6 \<or> 40 \<le> prev"
  shows "\<exists>h. q = h @ payload \<and> length h = length prefix \<and> 40 \<le> length h \<and> prev < length prefix
    \<and> take 2 h = take 2 prefix \<and> take 32 (drop 8 h) = take 32 (drop 8 prefix)
    \<and> drop 6 h = drop 6 (prefix[prev := nx])"
proof -
  let ?p = "prefix[prev := nx]"
  let ?h = "splice ?p 4 (to_be 2 (length prefix + length payload - 40))"
  have len: "40 \<le> length prefix" "prev < length prefix" and q: "q = ?h @ payload"
    using assms(1) by (auto simp: assemble_ipv6_def Let_def split: if_splits)
  have d: "drop 6 ?h = drop 6 ?p" using len by (simp add: drop_splice)
  have t: "take 2 ?h = take 2 prefix" using len assms(2) by (auto simp: take_splice)
  have "take 32 (drop 8 ?h) = take 32 (drop 2 (drop 6 ?p))" unfolding d [symmetric] by simp
  also have "\<dots> = take 32 (drop 8 prefix)"
    using assms(2) len by (auto simp: drop_update_swap)
  finally show ?thesis using len q d t by (intro exI [of _ ?h]) simp
qed

text \<open>The template that the fragment at offset zero supplies.\<close>

lemma decode_first:
  assumes "decode_fragment packet fragment = Ok d" and "fg_offset fragment = 0"
  shows "drop_bit 4 (packet ! 0) = 4 \<and> (\<exists>h\<le>length packet. df_template d = Ipv4 (take h packet))
    \<or> drop_bit 4 (packet ! 0) = 6 \<and> (\<exists>c prev. ipv6_fragment_header packet = Ok (c, prev)
        \<and> c + 8 \<le> length packet \<and> df_template d = Ipv6 (take c packet) prev (packet ! c)
        \<and> df_payload d = drop (c + 8) packet)"
  using assms
  by (cases packet) (auto simp: decode_fragment_def Let_def and_then_Ok_iff get_from_def slice_at_def
      byte_at_def split: if_splits)

definition assemble_with :: "header_template \<Rightarrow> bytes \<Rightarrow> (bytes, reassembly_error) outcome" where
  "assemble_with template payload =
     (case template of
        Ipv4 header \<Rightarrow> assemble_ipv4 header payload
      | Ipv6 prefix previous_next_header fragment_next_header \<Rightarrow>
        assemble_ipv6 prefix previous_next_header fragment_next_header payload)"

lemma take_eq_nth: "take n xs = take n ys \<Longrightarrow> i < n \<Longrightarrow> i < length xs \<Longrightarrow> i < length ys \<Longrightarrow> xs ! i = ys ! i"
  by (metis nth_take)

lemma assembled_addresses:
  assumes parsed: "parse_packet packet = Ok parsed"
    and dec: "decode_fragment packet fragment = Ok d" "fg_offset fragment = 0"
    and asm: "assemble_with (df_template d) payload = Ok q"
    and p: "parse_packet q = Ok p"
  shows "pk_source p = pk_source parsed" "pk_destination p = pk_destination parsed"
proof -
  have "pk_source p = pk_source parsed \<and> pk_destination p = pk_destination parsed"
    using decode_first [OF dec]
  proof (elim disjE conjE exE)
    fix h assume v4: "drop_bit 4 (packet ! 0) = 4" and h: "h \<le> length packet"
      "df_template d = Ipv4 (take h packet)"
    obtain g where g: "q = g @ payload" "length g = h" "20 \<le> h" "take 2 g = take 2 packet"
      "drop 12 g = drop 12 (take h packet)"
      using assemble_ipv4_Ok [of "take h packet" payload q] asm h by (auto simp: assemble_with_def min_def)
    have "packet \<noteq> []" using g h by auto
    then have "q ! 0 = packet ! 0" using g h take_eq_nth [OF g(4), of 0] by (simp add: nth_append)
    moreover have "take 4 (drop 12 q) = take 4 (drop 12 packet)"
      "take 4 (drop 16 q) = take 4 (drop 16 packet)"
    proof -
      have "take 8 (drop 12 q) = take 8 (drop 12 packet)" using g h by (simp add: drop_take)
      then have "take 4 (take 8 (drop 12 q)) = take 4 (take 8 (drop 12 packet))"
        "drop 4 (take 8 (drop 12 q)) = drop 4 (take 8 (drop 12 packet))" by simp_all
      then show "take 4 (drop 12 q) = take 4 (drop 12 packet)"
        "take 4 (drop 16 q) = take 4 (drop 16 packet)" by (simp_all add: drop_take)
    qed
    ultimately show ?thesis
      using parse_packet_addresses [OF parsed] parse_packet_addresses [OF p] v4 by auto
  next
    fix c prev assume v6: "drop_bit 4 (packet ! 0) = 6"
      and hdr: "ipv6_fragment_header packet = Ok (c, prev)" "c + 8 \<le> length packet"
      "df_template d = Ipv6 (take c packet) prev (packet ! c)"
    note b = ipv6_fragment_header_Ok [OF hdr(1)]
    obtain g where g: "q = g @ payload" "length g = c" "take 2 g = take 2 packet"
      "take 32 (drop 8 g) = take 32 (drop 8 (take c packet))"
      using assemble_ipv6_Ok [of "take c packet" prev "packet ! c" payload q] asm hdr b
      by (auto simp: assemble_with_def min_def)
    have "packet \<noteq> []" using hdr by auto
    then have "q ! 0 = packet ! 0" using g b take_eq_nth [OF g(3), of 0] by (simp add: nth_append)
    moreover have "take 16 (drop 8 q) = take 16 (drop 8 packet)"
      "take 16 (drop 24 q) = take 16 (drop 24 packet)"
    proof -
      have "take 32 (drop 8 q) = take 32 (drop 8 packet)" using g b by (simp add: drop_take)
      then have "take 16 (take 32 (drop 8 q)) = take 16 (take 32 (drop 8 packet))"
        "drop 16 (take 32 (drop 8 q)) = drop 16 (take 32 (drop 8 packet))" by simp_all
      then show "take 16 (drop 8 q) = take 16 (drop 8 packet)"
        "take 16 (drop 24 q) = take 16 (drop 24 packet)" by (simp_all add: drop_take)
    qed
    ultimately show ?thesis
      using parse_packet_addresses [OF parsed] parse_packet_addresses [OF p] v6 by auto
  qed
  then show "pk_source p = pk_source parsed" "pk_destination p = pk_destination parsed" by auto
qed

text \<open>
  The datagram is not a fragment.  For IPv6 the walk over the assembled header chain follows the walk
  over the first fragment: up to the fragment header both read the same extension headers
  (\<open>walk_to_fragment_header\<close>), and behind it the first fragment's own walk has already
  excluded a second fragment header (\<open>walk_behind_fragment_header\<close>).
\<close>

lemma find_fragment_header_progress:
  "find_fragment_header k packet nx prev cur = Ok (c, pv) \<Longrightarrow>
   if nx = 44 then c = cur \<and> pv = prev else cur \<le> pv \<and> cur < c \<and> pv < c"
  by (induction k packet nx prev cur rule: find_fragment_header.induct)
    (fastforce simp: and_then_Ok_iff Let_def split: if_splits)+

lemma walk_to_fragment_header:
  assumes "find_fragment_header k packet nx prev cur = Ok (c, pv)"
    and "\<forall>i. cur \<le> i \<and> i < c \<longrightarrow> q ! i = (if i = pv then n else packet ! i)"
    and "c \<le> length q" "cur \<le> length packet" "prev < cur"
  shows "\<exists>k'. walk_ipv6 k q s d (if nx = 44 then n else nx) cur None r = walk_ipv6 (Suc k') q s d n c None r
    \<and> walk_ipv6 k packet s' d' nx cur None r = walk_ipv6 (Suc k') packet s' d' 44 c None r"
  using assms
proof (induction k arbitrary: nx prev cur)
  case 0
  then show ?case by simp
next
  case (Suc steps)
  show ?case
  proof (cases "nx = 44")
    case True
    then show ?thesis using Suc.prems by auto
  next
    case False
    let ?e = "(unat (packet ! (cur + 1)) + 1) * 8"
    from Suc.prems(1) False have nx: "nx = 0 \<or> nx = 43 \<or> nx = 60" and in1: "cur + 1 < length packet"
      and le: "cur + ?e \<le> length packet"
      and find: "find_fragment_header steps packet (packet ! cur) cur (cur + ?e) = Ok (c, pv)"
      by (auto simp: get_byte_def and_then_Ok_iff Let_def split: if_splits)
    have prog: "if packet ! cur = 44 then c = cur + ?e \<and> pv = cur else cur + ?e \<le> pv \<and> cur + ?e < c \<and> pv < c"
      by (rule find_fragment_header_progress [OF find])
    have c: "cur + ?e \<le> c" using prog by (auto split: if_splits)
    have q0: "q ! cur = (if packet ! cur = 44 then n else packet ! cur)"
      using Suc.prems(2) prog c by (auto split: if_splits)
    have q1: "q ! (cur + 1) = packet ! (cur + 1)"
      using Suc.prems(2) prog c by (auto split: if_splits)
    have "\<exists>k'. walk_ipv6 steps q s d (if packet ! cur = 44 then n else packet ! cur) (cur + ?e) None r
        = walk_ipv6 (Suc k') q s d n c None r
      \<and> walk_ipv6 steps packet s' d' (packet ! cur) (cur + ?e) None r
        = walk_ipv6 (Suc k') packet s' d' 44 c None r"
    proof (rule Suc.IH [OF find])
      show "\<forall>i. cur + ?e \<le> i \<and> i < c \<longrightarrow> q ! i = (if i = pv then n else packet ! i)" using Suc.prems(2) by simp
    qed (use le Suc.prems in auto)
    moreover have "walk_ipv6 (Suc steps) q s d nx cur None r
        = walk_ipv6 steps q s d (q ! cur) (cur + ?e) None r"
      using nx c q1 Suc.prems(3) by (auto simp: slice_simps Let_def)
    moreover have "walk_ipv6 (Suc steps) packet s' d' nx cur None r
        = walk_ipv6 steps packet s' d' (packet ! cur) (cur + ?e) None r"
      using nx in1 le by (auto simp: slice_simps Let_def)
    ultimately show ?thesis using False q0 by (simp only: if_False)
  qed
qed

lemma walk_behind_fragment_header:
  assumes "walk_ipv6 n bs s d nx cur (Some f) r = Ok p0" and "walk_ipv6 n' q s' d' nx cur' None r = Ok p"
    and "n \<le> n'" "cur \<le> length bs" "cur' \<le> length q"
    and "\<forall>i. cur + i < length bs \<longrightarrow> cur' + i < length q \<and> q ! (cur' + i) = bs ! (cur + i)"
  shows "pk_fragment p = None"
  using assms
proof (induction n arbitrary: nx cur cur' n')
  case 0
  then show ?case by simp
next
  case (Suc n)
  obtain m where n': "n' = Suc m" using Suc.prems(3) by (cases n') auto
  show ?case
  proof (cases "nx = 0 \<or> nx = 43 \<or> nx = 60")
    case True
    let ?e = "(unat (bs ! (cur + 1)) + 1) * 8"
    have b: "cur + 1 < length bs" "cur + ?e \<le> length bs"
      and w: "walk_ipv6 n bs s d (bs ! cur) (cur + ?e) (Some f) r = Ok p0"
      using Suc.prems(1) True by (auto simp: slice_simps Let_def split: if_splits)
    have q: "q ! (cur' + 1) = bs ! (cur + 1)" "q ! cur' = bs ! cur"
      using Suc.prems(6) [rule_format, of 1] Suc.prems(6) [rule_format, of 0] b by auto
    have w': "walk_ipv6 m q s' d' (bs ! cur) (cur' + ?e) None r = Ok p" "cur' + ?e \<le> length q"
      using Suc.prems(2) True q unfolding n' by (auto simp: slice_simps Let_def split: if_splits)
    show ?thesis
    proof (rule Suc.IH [OF w w'(1)])
      show "\<forall>i. cur + ?e + i < length bs \<longrightarrow> cur' + ?e + i < length q \<and> q ! (cur' + ?e + i) = bs ! (cur + ?e + i)"
        using Suc.prems(6) by (metis add.assoc)
    qed (use Suc.prems b w' n' in auto)
  next
    case False
    then have "nx \<noteq> 44" using Suc.prems(1) by auto
    then show ?thesis using Suc.prems(2,5) False unfolding n'
      by (auto simp: slice_simps dest: finish_transport_fields(4))
  qed
qed

lemma assembled_not_fragment:
  assumes parsed: "parse_packet packet = Ok parsed" "pk_fragment parsed = Some fragment"
    and dec: "decode_fragment packet fragment = Ok d" "fg_offset fragment = 0"
    and asm: "assemble_with (df_template d) (df_payload d @ rest) = Ok q"
    and p: "parse_packet q = Ok p"
  shows "pk_fragment p = None"
  using decode_first [OF dec]
proof (elim disjE conjE exE)
  fix h assume v4: "drop_bit 4 (packet ! 0) = 4" and h: "h \<le> length packet"
    "df_template d = Ipv4 (take h packet)"
  obtain g where g: "q = g @ df_payload d @ rest" "length g = h" "20 \<le> h" "take 2 g = take 2 packet"
    "be16 (g ! 6) (g ! 7) = be16 (take h packet ! 6) (take h packet ! 7) AND 0x4000"
    using assemble_ipv4_Ok [of "take h packet" "df_payload d @ rest" q] asm h
    by (auto simp: assemble_with_def min_def)
  have "packet \<noteq> []" using g h by auto
  then have "q ! 0 = packet ! 0" using g h take_eq_nth [OF g(4), of 0] by (simp add: nth_append)
  then have v4q: "parse_ipv4 q True = Ok p"
    using p v4 by (cases q) (auto simp: parse_packet_def split: if_splits)
  let ?x = "be16 (packet ! 6) (packet ! 7)"
  have bits: "be16 (q ! 6) (q ! 7) = ?x AND 0x4000" using g h by (simp add: nth_append)
  have "be16 (q ! 6) (q ! 7) AND 0x1fff = 0" "be16 (q ! 6) (q ! 7) AND 0x2000 = 0"
    unfolding bits by (simp_all add: and.assoc)
  then show ?thesis using v4q finish_transport_fields(4)
    by (auto simp: parse_ipv4_def slice_simps Let_def split: if_splits)
next
  fix c prev assume v6: "drop_bit 4 (packet ! 0) = 6"
    and hdr: "ipv6_fragment_header packet = Ok (c, prev)" "c + 8 \<le> length packet"
      "df_template d = Ipv6 (take c packet) prev (packet ! c)" "df_payload d = drop (c + 8) packet"
  let ?n = "packet ! c"
  note b = ipv6_fragment_header_Ok [OF hdr(1)]
  obtain g where g: "q = g @ df_payload d @ rest" "length g = c" "prev < c" "take 2 g = take 2 packet"
    "drop 6 g = drop 6 ((take c packet)[prev := ?n])"
    using assemble_ipv6_Ok [of "take c packet" prev ?n "df_payload d @ rest" q] asm hdr b
    by (auto simp: assemble_with_def min_def)
  have gi: "g ! i = (if i = prev then ?n else packet ! i)" if "6 \<le> i" "i < c" for i
  proof -
    have "drop 6 g ! (i - 6) = drop 6 ((take c packet)[prev := ?n]) ! (i - 6)" using g(5) by simp
    then show ?thesis using that g(2) b by (auto simp: nth_list_update)
  qed
  have "packet \<noteq> []" using hdr by auto
  then have "q ! 0 = packet ! 0" using g b take_eq_nth [OF g(4), of 0] by (simp add: nth_append)
  then have v6q: "parse_ipv6 q True = Ok p" and v6p: "parse_ipv6 packet True = Ok parsed"
    using p parsed v6 by (cases q; cases packet; auto simp: parse_packet_def split: if_splits)+
  have find: "find_fragment_header 8 packet (packet ! 6) 6 40 = Ok (c, prev)"
    using hdr(1) by (auto simp: ipv6_fragment_header_def slice_simps split: if_splits)
  have q6: "q ! 6 = (if packet ! 6 = 44 then ?n else packet ! 6)"
    using find_fragment_header_progress [OF find] gi [of 6] g(1,2) b(1)
    by (auto simp: nth_append split: if_splits)
  obtain sq dq where wq: "walk_ipv6 8 q sq dq (q ! 6) 40 None True = Ok p"
    using v6q by (auto simp: parse_ipv6_def slice_simps Let_def split: if_splits)
  obtain sp dp where wp: "walk_ipv6 8 packet sp dp (packet ! 6) 40 None True = Ok parsed"
    using v6p by (auto simp: parse_ipv6_def slice_simps Let_def split: if_splits)
  obtain k where k: "walk_ipv6 8 q sq dq (q ! 6) 40 None True = walk_ipv6 (Suc k) q sq dq ?n c None True"
    "walk_ipv6 8 packet sp dp (packet ! 6) 40 None True = walk_ipv6 (Suc k) packet sp dp 44 c None True"
    using walk_to_fragment_header [OF find, of q ?n sq dq True sp dp] gi g(1,2) b q6
    by (auto simp: nth_append)
  obtain fr where wf: "walk_ipv6 k packet sp dp ?n (c + 8) (Some fr) True = Ok parsed"
    using wp k(2) hdr(2) parsed(2) dec(2) finish_transport_fields(4)
    by (fastforce simp: slice_simps Let_def split: if_splits)
  show ?thesis
    using wf wq [unfolded k(1)] g(1,2) hdr(2,4)
    by (rule_tac walk_behind_fragment_header [of k packet sp dp ?n "c + 8" fr True parsed "Suc k" q sq dq c])
      (auto simp: nth_append)
qed

section \<open>Properties\<close>

text \<open>Every state a reassembler can reach through its public operations.\<close>

inductive reassembler_reachable :: "nat \<Rightarrow> nat \<Rightarrow> nat \<Rightarrow> reassembler \<Rightarrow> bool" for p g t where
  reach_new: "new_reassembler p g t = Ok r \<Longrightarrow> reassembler_reachable p g t r"
| reach_push: "reassembler_reachable p g t r \<Longrightarrow> reassembler_reachable p g t (fst (push packet now r))"
| reach_expire: "reassembler_reachable p g t r \<Longrightarrow> expire_sets now r = Some (c, r')
    \<Longrightarrow> reassembler_reachable p g t r'"

lemma reachable_inv:
  "reassembler_reachable p g t r \<Longrightarrow> g < u64_max \<Longrightarrow> reassembler_inv r"
  by (induction rule: reassembler_reachable.induct)
    (auto simp: expire_sets_eq expired_inv intro: new_reassembler_inv push_inv)

text \<open>Two fragments of one UDP datagram from 10.0.0.1 to 10.0.0.2, used by the witnesses.\<close>

definition sample_head :: bytes where
  "sample_head = [69, 0, 0, 36, 0, 7, 32, 0, 64, 17, 70, 192, 10, 0, 0, 1, 10, 0, 0, 2,
     3, 232, 0, 53, 0, 24, 0, 0, 1, 2, 3, 4, 5, 6, 7, 8]"

definition sample_second :: bytes where
  "sample_second = [69, 0, 0, 28, 0, 7, 0, 2, 64, 17, 102, 198, 10, 0, 0, 1, 10, 0, 0, 2,
     9, 10, 11, 12, 13, 14, 15, 16]"

definition sample_whole :: bytes where
  "sample_whole = [69, 0, 0, 44, 0, 7, 0, 0, 64, 17, 102, 184, 10, 0, 0, 1, 10, 0, 0, 2,
     3, 232, 0, 53, 0, 24, 0, 0, 1, 2, 3, 4, 5, 6, 7, 8, 9, 10, 11, 12, 13, 14, 15, 16]"

definition sample_key :: reassembly_key where
  "sample_key = \<lparr>rk_source = V4 [10, 0, 0, 1], rk_destination = V4 [10, 0, 0, 2], rk_protocol = 17,
     rk_identification = 7\<rparr>"

definition sample_set :: fragment_set where
  "sample_set = \<lparr>st_source = V4 [10, 0, 0, 1], st_expires_at = 115, st_retained_bytes = 36,
     st_payload_bytes = 8, st_template = None, st_final_length = Some 24,
     st_fragments = [(16, \<lparr>sf_payload = [9, 10, 11, 12, 13, 14, 15, 16], sf_original = sample_second\<rparr>)]\<rparr>"

definition sample_fresh :: reassembler where
  "sample_fresh = \<lparr>ra_sets = [], ra_expirations = [], ra_source_bytes = [], ra_retained_bytes = 0,
     ra_per_source_bytes = 4194304, ra_global_bytes = 67108864, ra_timeout_seconds = 15\<rparr>"

definition sample_waiting :: reassembler where
  "sample_waiting = \<lparr>ra_sets = [(sample_key, sample_set)], ra_expirations = [(115, sample_key)],
     ra_source_bytes = [(V4 [10, 0, 0, 1], 36)], ra_retained_bytes = 36,
     ra_per_source_bytes = 4194304, ra_global_bytes = 67108864, ra_timeout_seconds = 15\<rparr>"

lemma sample_fresh_new: "new_reassembler 4194304 67108864 15 = Ok sample_fresh"
  by (simp add: new_reassembler_def sample_fresh_def)

definition sample_parsed :: "bool \<Rightarrow> parsed_packet" where
  "sample_parsed first = \<lparr>pk_source = V4 [10, 0, 0, 1], pk_destination = V4 [10, 0, 0, 2],
     pk_protocol = 17, pk_source_port = (if first then Some 1000 else None),
     pk_destination_port = (if first then Some 53 else None), pk_tcp_flags = None, pk_icmp = None,
     pk_fragment = Some \<lparr>fg_identification = 7, fg_offset = (if first then 0 else 2), fg_more = first\<rparr>,
     pk_packet_len = (if first then 36 else 28), pk_related_flow = None\<rparr>"

lemma sample_parses:
  "parse_packet sample_second = Ok (sample_parsed False)"
  "parse_packet sample_head = Ok (sample_parsed True)"
  by (simp_all add: parse_packet_def parse_ipv4_def slice_simps Let_def sample_head_def sample_second_def
      be16_def ipv4_checksum_def internet_checksum_def fold_sum.simps finish_transport_def udp_header_def
      sample_parsed_def protocol_numbers)

lemma sample_prepares:
  "prepare sample_second \<lparr>fg_identification = 7, fg_offset = 2, fg_more = False\<rparr> =
    Ok (\<lparr>df_template = Ipv4 [], df_payload = [9, 10, 11, 12, 13, 14, 15, 16]\<rparr>, 16, 24, 36)"
  "prepare sample_head \<lparr>fg_identification = 7, fg_offset = 0, fg_more = True\<rparr> =
    Ok (\<lparr>df_template = Ipv4 (take 20 sample_head), df_payload = drop 20 sample_head\<rparr>, 0, 16, 52)"
  by (simp_all add: prepare_def decode_fragment_def get_from_def slice_simps Let_def sample_head_def
      sample_second_def checked_add_def u64_max_def)

lemmas sample_state_defs = sample_fresh_def sample_waiting_def sample_key_def sample_set_def

lemma sample_push_second: "push sample_second 100 sample_fresh = (sample_waiting, Ok Pending)"
proof -
  have inv: "reassembler_inv sample_fresh"
    using new_reassembler_inv [OF sample_fresh_new] by (simp add: u64_max_def)
  have idle: "expired 100 sample_fresh = sample_fresh"
    unfolding expired_def by (rule sweep_done) (simp add: first_set_def sample_fresh_def)
  show ?thesis
    unfolding push_eq [OF inv] idle
    by (simp add: Let_def sample_parses sample_prepares sample_parsed_def key_of_def sample_state_defs fate_of_def
        source_used_def saturating_add_def u64_max_def entry_or_insert_def extend_set_def empty_set_def
        overlaps_neighbour_def range_last_def range_first_def last_key_value_def is_complete_def
        charged_def)
qed

lemma sample_waiting_inv: "reassembler_inv sample_waiting"
  using push_inv [of sample_fresh sample_second 100] new_reassembler_inv [OF sample_fresh_new]
  by (simp add: sample_push_second u64_max_def)

definition sample_datagram :: reassembled_datagram where
  "sample_datagram = \<lparr>rd_packet = sample_whole, rd_original_fragments = [sample_head, sample_second]\<rparr>"

definition sample_full_set :: fragment_set where
  "sample_full_set = sample_set\<lparr>st_template := Some (Ipv4 (take 20 sample_head)),
     st_retained_bytes := 88, st_payload_bytes := 24,
     st_fragments := (0, \<lparr>sf_payload = drop 20 sample_head, sf_original = sample_head\<rparr>)
       # st_fragments sample_set\<rparr>"

lemma sample_whole_parses: "is_ok (parse_packet sample_whole)"
  by (simp add: parse_packet_def parse_ipv4_def slice_simps Let_def sample_whole_def be16_def
      ipv4_checksum_def internet_checksum_def fold_sum.simps finish_transport_def udp_header_def
      protocol_numbers)

lemma sample_checksum:
  "ipv4_checksum [69, 0, 0, 44, 0, 7, 0, 0, 64, 17, 0, 0, 10, 0, 0, 1, 10, 0, 0, 2] = 26296"
  by (simp add: be16_def ipv4_checksum_def internet_checksum_def fold_sum.simps)

lemma sample_released: "released sample_full_set = Ok (Complete sample_datagram)"
proof -
  have "assemble sample_full_set = Ok sample_datagram"
    by (simp add: assemble_def sample_full_set_def sample_set_def assemble_ipv4_def sample_head_def
        sample_second_def slice_simps splice_def to_be_2 be16_def sample_checksum
        sample_datagram_def sample_whole_def Let_def)
  then show ?thesis using sample_whole_parses
    by (cases "parse_packet sample_whole") (simp_all add: released_def sample_datagram_def)
qed

lemma sample_push_first:
  "push sample_head 101 sample_waiting = (sample_fresh, Ok (Complete sample_datagram))"
proof -
  have idle: "expired 101 sample_waiting = sample_waiting"
    unfolding expired_def by (rule sweep_done) (simp add: first_set_def sample_waiting_def)
  have "fate_of sample_key \<lparr>fg_identification = 7, fg_offset = 0, fg_more = True\<rparr> 0 16
      \<lparr>df_template = Ipv4 (take 20 sample_head), df_payload = drop 20 sample_head\<rparr>
      sample_head 52 101 sample_waiting = Finished sample_full_set"
    by (simp add: fate_of_def source_used_def saturating_add_def u64_max_def entry_or_insert_def
        extend_set_def overlaps_neighbour_def range_last_def range_first_def last_key_value_def
        is_complete_def sample_full_set_def sample_state_defs fragment_end_def)
      (simp add: sample_head_def)
  moreover have "remove_set sample_key (charged sample_key sample_full_set 52 sample_waiting) = sample_fresh"
    by (simp add: remove_set_def charged_def release_usage_def source_used_def sample_state_defs
        sample_full_set_def bset_remove_def Let_def)
  ultimately show ?thesis
    unfolding push_eq [OF sample_waiting_inv] idle
    by (simp add: Let_def sample_parses sample_prepares sample_parsed_def key_of_def sample_released
        entry_or_insert_def sample_key_def [symmetric]) (simp add: sample_state_defs)
qed

lemma sample_waiting_reachable: "reassembler_reachable 4194304 67108864 15 sample_waiting"
  using reach_push [OF reach_new [OF sample_fresh_new], of sample_second 100]
  by (simp add: sample_push_second)

text \<open>(C27) For every sequence of submissions and expirations the reassembler keeps its invariant: the
  deadline index is exact, every set holds disjoint non-empty fragments of its own key, the running
  counters equal the retained bytes globally and per source, and both stay within their limits; and the
  next submission neither panics nor fails to terminate.\<close>

theorem reassembly_invariant:
  assumes "reassembler_reachable p g t r" and "g < u64_max"
  shows "reassembler_inv r \<and> snd (push packet now r) \<noteq> Abort \<and> expire_sets now r \<noteq> None"
  using reachable_inv [OF assms] by (simp add: push_not_Abort expire_sets_eq)

theorem reassembly_invariant_witness:
  "reassembler_inv sample_waiting \<and> snd (push sample_head 101 sample_waiting) \<noteq> Abort
    \<and> expire_sets 101 sample_waiting \<noteq> None"
  using reassembly_invariant [OF sample_waiting_reachable, of sample_head 101]
  by (simp add: u64_max_def)

text \<open>The datagram assembled from a complete set.\<close>

lemma released_datagram:
  assumes ok: "set_ok key s" and full: "is_complete s" and rel: "released s = Ok (Complete datagram)"
  shows "\<exists>header p. rd_packet datagram = header @ payloads (st_fragments s)
    \<and> rd_original_fragments datagram = map (\<lambda>(_, f). sf_original f) (st_fragments s)
    \<and> parse_packet (rd_packet datagram) = Ok p
    \<and> pk_source p = rk_source key \<and> pk_destination p = rk_destination key \<and> pk_fragment p = None"
proof -
  note cont = is_complete_contiguous(1) [OF ok full]
  obtain p where asm: "assemble s = Ok datagram" and p: "parse_packet (rd_packet datagram) = Ok p"
    using rel by (auto simp: released_def and_then_Ok_iff)
  obtain f d where f: "hm_get (st_fragments s) 0 = Some f" and d: "decoded_as key 0 f d"
    and tmpl: "st_template s = Some (df_template d)"
    using full ok by (auto simp: is_complete_def set_ok_def template_ok_def split: option.splits)
  obtain parsed0 fragment0 where first: "parse_packet (sf_original f) = Ok parsed0"
    "pk_fragment parsed0 = Some fragment0" "key_of parsed0 fragment0 = key"
    "decode_fragment (sf_original f) fragment0 = Ok d" "fg_offset fragment0 = 0" "df_payload d = sf_payload f"
    using d prepare_Ok(1,6) unfolding decoded_as_def by (fastforce simp: unat_eq_zero)
  have pk: "assemble_with (df_template d) (payloads (st_fragments s)) = Ok (rd_packet datagram)"
    and orig: "rd_original_fragments datagram = map (\<lambda>(_, f). sf_original f) (st_fragments s)"
    using asm tmpl by (auto simp: assemble_def assemble_with_def and_then_Ok_iff Let_def)
  have "take (length (sf_payload f)) (payloads (st_fragments s)) = sf_payload f"
    using contiguous_payload [OF cont map_of_SomeD [OF f]] by simp
  then obtain rest where rest: "payloads (st_fragments s) = df_payload d @ rest"
    using first(6) by (metis append_take_drop_id)
  have "pk_fragment p = None"
    using assembled_not_fragment [OF first(1,2,4,5) pk [unfolded rest] p] .
  moreover have "pk_source p = rk_source key" "pk_destination p = rk_destination key"
    using assembled_addresses [OF first(1,4,5) pk p] first(3) by (auto simp: key_of_def)
  moreover have "\<exists>header. rd_packet datagram = header @ payloads (st_fragments s)"
    using pk assemble_ipv4_Ok decode_first [OF first(4,5)] ipv6_fragment_header_Ok(3)
    by (fastforce simp: assemble_with_def dest!: assemble_ipv4_Ok assemble_ipv6_Ok)
  ultimately show ?thesis using orig p by blast
qed

text \<open>(C12) Which datagrams come out: when a fragment completes its set, the datagram's payload is the
  gap-free concatenation, in offset order, of the payloads of retained original packets that all parse to
  the same source, destination, protocol and identification; the submitted packet is one of them; the
  result parses, carries the addresses of its fragments, is no fragment itself, and the set is gone.\<close>

theorem complete_datagram_authentic:
  assumes "reassembler_inv r" and "parse_packet packet = Ok parsed"
    and "pk_fragment parsed = Some fragment" and "fg_offset fragment \<noteq> 0 \<or> fg_more fragment"
    and "push packet now r = (r', Ok (Complete datagram))"
  shows "\<exists>m header p.
    contiguous 0 m \<and> (\<forall>e\<in>set m. \<exists>d. decoded_as (key_of parsed fragment) (fst e) (snd e) d)
    \<and> rd_packet datagram = header @ payloads m
    \<and> rd_original_fragments datagram = map (\<lambda>(_, f). sf_original f) m
    \<and> packet \<in> set (rd_original_fragments datagram)
    \<and> parse_packet (rd_packet datagram) = Ok p
    \<and> pk_source p = pk_source parsed \<and> pk_destination p = pk_destination parsed
    \<and> pk_fragment p = None
    \<and> hm_get (ra_sets r') (key_of parsed fragment) = None"
proof -
  let ?key = "key_of parsed fragment"
  note inv0 = expired_inv [OF assms(1), of now]
  obtain decoded offset end_pos charge s where
    prep: "prepare packet fragment = Ok (decoded, offset, end_pos, charge)"
    and fate: "fate_of ?key fragment offset end_pos decoded packet charge now (expired now r) = Finished s"
    and rel: "released s = Ok (Complete datagram)"
    and r': "r' = remove_set ?key (charged ?key s charge (fst (entry_or_insert ?key now (expired now r))))"
    using assms(2-5)
    by (auto simp: push_eq [OF assms(1)] Let_def split: outcome.splits fate.splits prod.splits)
  note acc = fate_accepted [OF inv0 assms(2,3) prep refl, of now s]
  have ext: "extend_set fragment offset end_pos decoded packet charge
      (snd (entry_or_insert ?key now (expired now r))) = Ok s" and ok: "set_ok ?key s"
    using acc(1,2) fate by simp_all
  have full: "is_complete s" using fate by (auto simp: fate_of_def split: if_splits outcome.splits)
  obtain header p where dg: "rd_packet datagram = header @ payloads (st_fragments s)"
    "rd_original_fragments datagram = map (\<lambda>(_, f). sf_original f) (st_fragments s)"
    "parse_packet (rd_packet datagram) = Ok p" "pk_source p = pk_source parsed"
    "pk_destination p = pk_destination parsed" "pk_fragment p = None"
    using released_datagram [OF ok full rel] by (auto simp: key_of_def)
  have "hm_get (st_fragments s) offset = Some \<lparr>sf_payload = df_payload decoded, sf_original = packet\<rparr>"
    using extend_set_Ok(6) [OF ext] by (simp add: table_simps)
  then have "packet \<in> set (rd_original_fragments datagram)"
    unfolding dg(2) by (force dest: map_of_SomeD)
  moreover have "\<forall>e\<in>set (st_fragments s). \<exists>d. decoded_as ?key (fst e) (snd e) d"
    using ok by (simp add: set_ok_def fragments_sound_def)
  moreover have "hm_get (ra_sets r') ?key = None" unfolding r' by (simp add: table_simps)
  ultimately show ?thesis using is_complete_contiguous(1) [OF ok full] dg by blast
qed

theorem complete_datagram_authentic_witness:
  "\<exists>m header p. contiguous 0 m
    \<and> (\<forall>e\<in>set m. \<exists>d. decoded_as sample_key (fst e) (snd e) d)
    \<and> sample_whole = header @ payloads m \<and> [sample_head, sample_second] = map (\<lambda>(_, f). sf_original f) m
    \<and> parse_packet sample_whole = Ok p \<and> pk_source p = V4 [10, 0, 0, 1] \<and> pk_fragment p = None"
proof -
  have k: "key_of (sample_parsed True) \<lparr>fg_identification = 7, fg_offset = 0, fg_more = True\<rparr> = sample_key"
    by (simp add: key_of_def sample_parsed_def sample_key_def)
  show ?thesis
    using complete_datagram_authentic [OF sample_waiting_inv sample_parses(2) _ _ sample_push_first] k
    by (fastforce simp: sample_parsed_def sample_datagram_def)
qed

text \<open>(C28) Errors discard the affected set and nothing else: when a submission fails, either the packet did
  not parse and only due sets were dropped, or the set of its key is gone; every other set is as
  expiration left it.\<close>

theorem push_error_discards:
  assumes inv: "reassembler_inv r" and res: "push packet now r = (r', Err e)"
  shows "case parse_packet packet of
      Ok parsed \<Rightarrow> (\<exists>fragment. pk_fragment parsed = Some fragment
        \<and> hm_get (ra_sets r') (key_of parsed fragment) = None
        \<and> (\<forall>k. k \<noteq> key_of parsed fragment \<longrightarrow> hm_get (ra_sets r') k = hm_get (ra_sets (expired now r)) k))
    | _ \<Rightarrow> e = Malformed_fragment \<and> r' = expired now r"
proof (cases "parse_packet packet")
  case (Ok parsed)
  note inv0 = expired_inv [OF inv, of now]
  obtain fragment where fr: "pk_fragment parsed = Some fragment"
    using res Ok by (auto simp: push_eq [OF inv] Let_def split: option.splits)
  let ?key = "key_of parsed fragment"
  have nf: "\<not> (fg_offset fragment = 0 \<and> \<not> fg_more fragment)"
    using res Ok fr by (auto simp: push_eq [OF inv] Let_def split: if_splits)
  have ent: "hm_get (ra_sets (fst (entry_or_insert ?key now (expired now r)))) k
      = hm_get (ra_sets (expired now r)) k" if "k \<noteq> ?key" for k
    using entry_or_insert_spec(8) [OF inv0, of ?key now] that
    by (cases "entry_or_insert ?key now (expired now r)") simp
  have "hm_get (ra_sets r') ?key = None
    \<and> (\<forall>k. k \<noteq> ?key \<longrightarrow> hm_get (ra_sets r') k = hm_get (ra_sets (expired now r)) k)"
  proof (cases "prepare packet fragment")
    case prep: (Ok x)
    obtain decoded offset end_pos charge where x: "x = (decoded, offset, end_pos, charge)"
      by (cases x)
    show ?thesis
    proof (cases "fate_of ?key fragment offset end_pos decoded packet charge now (expired now r)")
      case (Refused e')
      have r': "r' = remove_set ?key (fst (insert_into_set ?key fragment offset end_pos decoded packet
          charge now (expired now r)))"
        using res Ok fr nf prep x Refused by (auto simp: push_eq [OF inv] Let_def)
      show ?thesis unfolding r' using refused_state [OF Refused] ent by (auto simp: table_simps)
    next
      case (Waiting s)
      then show ?thesis using res Ok fr nf prep x by (auto simp: push_eq [OF inv] Let_def)
    next
      case (Finished s)
      then show ?thesis using res Ok fr nf prep x ent
        by (auto simp: push_eq [OF inv] Let_def table_simps charged_def)
    qed
  qed (use res Ok fr nf in \<open>auto simp: push_eq [OF inv] Let_def table_simps\<close>)
  then show ?thesis using Ok fr by auto
qed (use res in \<open>auto simp: push_eq [OF inv] Let_def\<close>)

text \<open>(C29) Expiration is exact and ends: it discards precisely the sets whose deadline is not after now,
  keeps every other set unchanged, and returns how many it discarded.\<close>

theorem expire_sets_exact:
  assumes "reassembler_inv r"
  shows "\<exists>count r'. expire_sets now r = Some (count, r')
    \<and> (\<forall>k. hm_get (ra_sets r') k =
        (case hm_get (ra_sets r) k of None \<Rightarrow> None
         | Some s \<Rightarrow> if now < st_expires_at s then Some s else None))
    \<and> count = length (ra_sets r) - length (ra_sets r') \<and> ra_retained_bytes r' \<le> ra_global_bytes r'"
  using expire_sets_eq [OF assms, of now] expired_deadline [OF assms, of now] expired_inv [OF assms, of now]
  by (simp add: reassembler_inv_def quotas_ok_def)

theorem expire_sets_exact_witness:
  "\<exists>count r'. expire_sets 115 sample_waiting = Some (count, r')
    \<and> hm_get (ra_sets r') sample_key = None"
  using expire_sets_exact [OF sample_waiting_inv, of 115]
  by (fastforce simp: sample_waiting_def sample_set_def)

text \<open>The two shortcuts of the code decide what they stand for: on a set of disjoint fragments, testing
  the two neighbours of an interval finds an overlap exactly when some stored fragment intersects it, and
  comparing the payload counter with the final length holds exactly when every byte up to that length is
  covered.\<close>

theorem set_tests_exact:
  assumes "set_ok key s" and "offset < end_pos"
  shows "(overlaps_neighbour (st_fragments s) offset end_pos
      \<longleftrightarrow> (\<exists>e\<in>set (st_fragments s). intersects offset end_pos e))
    \<and> (is_complete s \<longleftrightarrow> (\<exists>n. st_final_length s = Some n \<and> 0 < n
        \<and> (\<forall>i<n. \<exists>e\<in>set (st_fragments s). fst e \<le> i \<and> i < fragment_end e)))"
  using overlaps_neighbour_iff [of "st_fragments s" offset end_pos] is_complete_iff_covered [OF assms(1)] assms
  by (simp add: set_ok_def fragments_sound_def)

lemma sample_set_ok: "set_ok sample_key sample_set"
  using sample_waiting_inv by (simp add: reassembler_inv_def sets_ok_def sample_waiting_def)

theorem set_tests_exact_witness:
  "(overlaps_neighbour (st_fragments sample_set) 0 16
      \<longleftrightarrow> (\<exists>e\<in>set (st_fragments sample_set). intersects 0 16 e))
    \<and> (is_complete sample_set \<longleftrightarrow> (\<exists>n. st_final_length sample_set = Some n \<and> 0 < n
        \<and> (\<forall>i<n. \<exists>e\<in>set (st_fragments sample_set). fst e \<le> i \<and> i < fragment_end e)))"
  by (rule set_tests_exact [OF sample_set_ok]) simp

definition sample_overlap :: bytes where
  "sample_overlap = [69, 0, 0, 36, 0, 7, 0, 1, 64, 17, 102, 191, 10, 0, 0, 1, 10, 0, 0, 2,
     3, 232, 0, 53, 0, 24, 0, 0, 1, 2, 3, 4, 5, 6, 7, 8]"

definition sample_overlap_parsed :: parsed_packet where
  "sample_overlap_parsed = (sample_parsed False)\<lparr>pk_packet_len := 36,
     pk_fragment := Some \<lparr>fg_identification = 7, fg_offset = 1, fg_more = False\<rparr>\<rparr>"

lemma sample_overlap_parses: "parse_packet sample_overlap = Ok sample_overlap_parsed"
  by (simp add: parse_packet_def parse_ipv4_def slice_simps Let_def sample_overlap_def
      be16_def ipv4_checksum_def internet_checksum_def fold_sum.simps finish_transport_def
      sample_parsed_def sample_overlap_parsed_def)

lemma sample_push_overlap: "\<exists>r'. push sample_overlap 101 sample_waiting = (r', Err Overlap)"
proof -
  have idle: "expired 101 sample_waiting = sample_waiting"
    unfolding expired_def by (rule sweep_done) (simp add: first_set_def sample_waiting_def)
  have "prepare sample_overlap \<lparr>fg_identification = 7, fg_offset = 1, fg_more = False\<rparr> =
    Ok (\<lparr>df_template = Ipv4 [], df_payload = drop 20 sample_overlap\<rparr>, 8, 24, 52)"
    by (simp add: prepare_def decode_fragment_def get_from_def slice_simps Let_def sample_overlap_def
        checked_add_def u64_max_def)
  then show ?thesis
    unfolding push_eq [OF sample_waiting_inv] idle
    by (simp add: Let_def sample_overlap_parses sample_overlap_parsed_def sample_parsed_def key_of_def
        fate_of_def source_used_def saturating_add_def u64_max_def entry_or_insert_def extend_set_def
        overlaps_neighbour_def range_last_def range_first_def sample_state_defs)
qed

theorem push_error_discards_witness:
  "\<exists>r'. push sample_overlap 101 sample_waiting = (r', Err Overlap)
    \<and> hm_get (ra_sets r') sample_key = None"
proof -
  obtain r' where r': "push sample_overlap 101 sample_waiting = (r', Err Overlap)"
    using sample_push_overlap by blast
  show ?thesis
    using push_error_discards [OF sample_waiting_inv r'] r'
    by (auto simp: sample_overlap_parses sample_overlap_parsed_def sample_parsed_def key_of_def
        sample_key_def)
qed

end
