(* ===== verification/CarrierFragments.thy ===== *)
theory CarrierFragments
  imports Prelude
begin

text \<open>
  Ciphertext fragmentation of the QUIC carrier, \<open>crates/peerward-carrier/src/fragments.rs\<close>:
  splitting a frame into datagrams, the fragment header, the shared memory budgets, the 1024-identifier
  replay horizon and the reassembler of one connection.  Instants are nanoseconds on the monotonic
  clock; the atomic counters of the budgets are read and written in one step.
\<close>

unbundle bit_operations_syntax

type_synonym u64 = "64 word"

section \<open>Constants and errors\<close>

definition MAX_FRAME :: nat where "MAX_FRAME = 65535"
definition HEADER :: nat where "HEADER = 24"
definition MAX_FRAGMENTS :: nat where "MAX_FRAGMENTS = 64"
definition MAX_INCOMPLETE :: nat where "MAX_INCOMPLETE = 32"
definition MAX_BUFFERED :: nat where "MAX_BUFFERED = 256 * 1024"
definition LIFETIME :: nat where "LIFETIME = 2 * 10 ^ 9"
definition MAGIC :: bytes where "MAGIC = [80, 87, 81, 49]"

lemmas carrier_constants = MAX_FRAME_def HEADER_def MAX_FRAGMENTS_def MAX_INCOMPLETE_def
  MAX_BUFFERED_def LIFETIME_def MAGIC_def

datatype io_error = Invalid_data string | Other_error

section \<open>Budgets\<close>

record budget =
  bg_limit :: nat
  bg_used :: nat

definition budget_new :: "nat \<Rightarrow> budget" where
  "budget_new limit = \<lparr>bg_limit = limit, bg_used = 0\<rparr>"

definition reserve :: "nat \<Rightarrow> budget \<Rightarrow> budget option" where
  "reserve amount b =
     (case checked_add (bg_used b) amount of
        None \<Rightarrow> None
      | Some next \<Rightarrow> if next \<le> bg_limit b then Some (b\<lparr>bg_used := next\<rparr>) else None)"

text \<open>Dropping a \<open>Reservation\<close>.\<close>

definition release :: "nat \<Rightarrow> budget \<Rightarrow> budget" where
  "release amount b = b\<lparr>bg_used := bg_used b - amount\<rparr>"

section \<open>Splitting\<close>

text \<open>\<open>slice::chunks\<close> for a positive chunk size.\<close>

function chunks :: "nat \<Rightarrow> 'a list \<Rightarrow> 'a list list" where
  "chunks n xs = (if n = 0 \<or> xs = [] then [] else take n xs # chunks n (drop n xs))"
  by pat_completeness auto
termination
  by (relation "measure (\<lambda>(n, xs). length xs)") auto

declare chunks.simps [simp del]

definition try_below :: "nat \<Rightarrow> nat \<Rightarrow> (nat, io_error) outcome" where
  "try_below bound x = (if x < bound then Ok x else Err Other_error)"

fun collect_results :: "('a, 'e) outcome list \<Rightarrow> ('a list, 'e) outcome" where
  "collect_results [] = Ok []"
| "collect_results (x # xs) = and_then x (\<lambda>y. and_then (collect_results xs) (\<lambda>ys. Ok (y # ys)))"

definition encode_fragment ::
    "nat \<Rightarrow> nat \<Rightarrow> nat \<Rightarrow> nat \<Rightarrow> nat \<times> bytes \<Rightarrow> (bytes, io_error) outcome" where
  "encode_fragment fid total_len stride_wire count = (\<lambda>(index, body).
     and_then (try_below (2 ^ 16) index) (\<lambda>index.
       Ok (MAGIC @ to_be 8 fid @ to_be 4 total_len @ to_be 2 stride_wire @ to_be 2 index
         @ to_be 2 count @ [0, 0] @ body)))"

definition split_frame :: "nat \<Rightarrow> bytes \<Rightarrow> nat \<Rightarrow> (bytes list, io_error) outcome" where
  "split_frame fid frame datagram_limit =
     (if fid = 0 \<or> frame = [] \<or> MAX_FRAME < length frame
      then Err (Invalid_data ''invalid QUIC ciphertext frame'')
      else
        let stride = min (datagram_limit - HEADER) MAX_FRAME in
        if stride = 0 \<or> MAX_FRAGMENTS < div_ceil (length frame) stride
        then Err (Invalid_data ''QUIC path cannot carry bounded ciphertext fragments'')
        else
          and_then (try_below (2 ^ 32) (length frame)) (\<lambda>total_len.
          and_then (try_below (2 ^ 16) stride) (\<lambda>stride_wire.
          and_then (try_below (2 ^ 16) (div_ceil (length frame) stride)) (\<lambda>count.
            collect_results
              (map (encode_fragment fid total_len stride_wire count) (enumerate 0 (chunks stride frame)))))))"

section \<open>The fragment header\<close>

record header =
  hd_id :: nat
  hd_total :: nat
  hd_stride :: nat
  hd_index :: nat
  hd_count :: nat

definition geometry_valid :: "nat \<Rightarrow> header \<Rightarrow> bool" where
  "geometry_valid len h \<longleftrightarrow>
     \<not> (hd_id h = 0 \<or> hd_total h = 0 \<or> MAX_FRAME < hd_total h \<or> hd_stride h = 0 \<or> hd_count h = 0
        \<or> MAX_FRAGMENTS < hd_count h \<or> hd_count h \<le> hd_index h
        \<or> div_ceil (hd_total h) (hd_stride h) \<noteq> hd_count h
        \<or> len - HEADER \<noteq> min (hd_stride h) (hd_total h - hd_index h * hd_stride h))"

definition parse_header :: "bytes \<Rightarrow> (header, io_error) outcome" where
  "parse_header bs =
     (if length bs \<le> HEADER then Err (Invalid_data ''invalid QUIC fragment header'')
      else
        slice_at bs 0 4 (\<lambda>magic. slice_at bs 22 24 (\<lambda>reserved.
        if magic \<noteq> MAGIC \<or> reserved \<noteq> [0, 0]
        then Err (Invalid_data ''invalid QUIC fragment header'')
        else
          slice_at bs 4 12 (\<lambda>fid. slice_at bs 12 16 (\<lambda>total_len. slice_at bs 16 18 (\<lambda>stride.
          slice_at bs 18 20 (\<lambda>index. slice_at bs 20 22 (\<lambda>count.
            let value = \<lparr>hd_id = of_be fid, hd_total = of_be total_len, hd_stride = of_be stride,
                  hd_index = of_be index, hd_count = of_be count\<rparr>
            in if geometry_valid (length bs) value then Ok value
               else Err (Invalid_data ''invalid QUIC fragment geometry'')))))))))"

section \<open>The replay horizon\<close>

record retired =
  rt_highest :: nat
  rt_bits :: "u64 list"

definition retired_default :: retired where
  "retired_default = \<lparr>rt_highest = 0, rt_bits = replicate 16 0\<rparr>"

definition retired_contains :: "retired \<Rightarrow> nat \<Rightarrow> bool" where
  "retired_contains r fid =
     (if rt_highest r < fid then False
      else
        let age = rt_highest r - fid in
        1024 \<le> age \<or> rt_bits r ! (age div 64) AND push_bit (age mod 64) 1 \<noteq> 0)"

definition shift_bits :: "nat \<Rightarrow> u64 list \<Rightarrow> u64 list" where
  "shift_bits shift old =
     (let words = shift div 64; bits = shift mod 64 in
      map (\<lambda>index.
        if index < words then 0
        else push_bit bits (old ! (index - words))
          OR (if bits \<noteq> 0 \<and> words < index then drop_bit (64 - bits) (old ! (index - words - 1)) else 0))
        [0..<16])"

definition retired_insert :: "nat \<Rightarrow> retired \<Rightarrow> retired" where
  "retired_insert fid r =
     (let r = (if rt_highest r < fid
               then \<lparr>rt_highest = fid, rt_bits = shift_bits (min (fid - rt_highest r) 1024) (rt_bits r)\<rparr>
               else r);
          age = rt_highest r - fid
      in if age < 1024
         then r\<lparr>rt_bits := (rt_bits r)[age div 64 := rt_bits r ! (age div 64) OR push_bit (age mod 64) 1]\<rparr>
         else r)"

section \<open>The reassembler\<close>

record partial =
  pt_data :: bytes
  pt_stride :: nat
  pt_count :: nat
  pt_seen :: u64
  pt_deadline :: nat
  pt_process :: nat
  pt_mesh :: nat

record carrier_reassembler =
  cr_frames :: "(nat \<times> partial) list"
  cr_buffered :: nat
  cr_retired :: retired
  cr_process :: budget
  cr_mesh :: budget

definition carrier_new :: "budget \<Rightarrow> budget \<Rightarrow> carrier_reassembler" where
  "carrier_new process mesh =
     \<lparr>cr_frames = [], cr_buffered = 0, cr_retired = retired_default, cr_process = process, cr_mesh = mesh\<rparr>"

text \<open>Dropping a \<open>Partial\<close> drops its two reservations.\<close>

definition drop_partial :: "partial \<Rightarrow> carrier_reassembler \<Rightarrow> carrier_reassembler" where
  "drop_partial p r =
     r\<lparr>cr_process := release (pt_process p) (cr_process r), cr_mesh := release (pt_mesh p) (cr_mesh r)\<rparr>"

definition carrier_clear :: "carrier_reassembler \<Rightarrow> carrier_reassembler" where
  "carrier_clear r = (fold (\<lambda>(_, p). drop_partial p) (cr_frames r) r)\<lparr>cr_frames := [], cr_buffered := 0\<rparr>"

text \<open>\<open>remove\<close>, whose result every caller drops or takes the data from.\<close>

definition carrier_remove :: "nat \<Rightarrow> carrier_reassembler \<Rightarrow> carrier_reassembler" where
  "carrier_remove fid r =
     (case hm_get (cr_frames r) fid of
        None \<Rightarrow> r
      | Some frame \<Rightarrow>
        drop_partial frame
          (r\<lparr>cr_frames := hm_remove fid (cr_frames r), cr_buffered := cr_buffered r - length (pt_data frame)\<rparr>))"

definition retire :: "nat \<Rightarrow> carrier_reassembler \<Rightarrow> carrier_reassembler" where
  "retire fid r = (carrier_remove fid r)\<lparr>cr_retired := retired_insert fid (cr_retired r)\<rparr>"

definition carrier_expire :: "nat \<Rightarrow> carrier_reassembler \<Rightarrow> carrier_reassembler" where
  "carrier_expire now r =
     fold retire
       (map fst (filter (\<lambda>(fid, frame). pt_deadline frame \<le> now \<or> retired_contains (cr_retired r) fid)
          (cr_frames r))) r"

text \<open>The closure \<open>reserve\<close>: a process reservation is dropped again when the mesh refuses.\<close>

definition reserve_both :: "nat \<Rightarrow> carrier_reassembler \<Rightarrow> carrier_reassembler option" where
  "reserve_both total_len r =
     (if MAX_INCOMPLETE \<le> length (cr_frames r) \<or> MAX_BUFFERED < cr_buffered r + total_len then None
      else
        case reserve total_len (cr_process r) of
          None \<Rightarrow> None
        | Some process \<Rightarrow>
          (case reserve total_len (cr_mesh r) of
             None \<Rightarrow> None
           | Some mesh \<Rightarrow> Some (r\<lparr>cr_process := process, cr_mesh := mesh\<rparr>)))"

definition count_ones :: "u64 \<Rightarrow> nat" where
  "count_ones w = length (filter (bit w) [0..<64])"

text \<open>From \<open>let frame = self.frames.get_mut(..)\<close> on: store the fragment, deliver when all are seen.\<close>

definition store_body ::
    "header \<Rightarrow> bytes \<Rightarrow> carrier_reassembler \<Rightarrow> carrier_reassembler \<times> (bytes option, io_error) outcome" where
  "store_body h bs r =
     (case hm_get (cr_frames r) (hd_id h) of
        None \<Rightarrow> (r, Abort)
      | Some frame \<Rightarrow>
        let start = hd_index h * hd_stride h;
            end_pos = start + length bs - HEADER;
            b = push_bit (hd_index h) 1 :: u64
        in if end_pos < start \<or> length (pt_data frame) < end_pos then (r, Abort)
           else if pt_seen frame AND b \<noteq> 0 then
             if take (end_pos - start) (drop start (pt_data frame)) \<noteq> drop HEADER bs
             then (retire (hd_id h) r, Err (Invalid_data ''conflicting duplicate QUIC fragment''))
             else (r, Ok None)
           else
             let frame = frame\<lparr>pt_data := splice (pt_data frame) start (drop HEADER bs),
                   pt_seen := pt_seen frame OR b\<rparr>;
                 r = r\<lparr>cr_frames := bmap_insert (hd_id h) frame (cr_frames r)\<rparr>
             in if count_ones (pt_seen frame) \<noteq> pt_count frame then (r, Ok None)
                else (retire (hd_id h) r, Ok (Some (pt_data frame))))"

definition carrier_push ::
    "bytes \<Rightarrow> nat \<Rightarrow> carrier_reassembler \<Rightarrow> carrier_reassembler \<times> (bytes option, io_error) outcome" where
  "carrier_push bs now r =
     (let r = carrier_expire now r in
      case parse_header bs of
        Abort \<Rightarrow> (r, Abort)
      | Err e \<Rightarrow> (r, Err e)
      | Ok h \<Rightarrow>
        if retired_contains (cr_retired r) (hd_id h) then (r, Ok None)
        else
          case hm_get (cr_frames r) (hd_id h) of
            Some frame \<Rightarrow>
              if length (pt_data frame) \<noteq> hd_total h \<or> pt_stride frame \<noteq> hd_stride h
                \<or> pt_count frame \<noteq> hd_count h
              then (retire (hd_id h) r, Err (Invalid_data ''conflicting QUIC fragment geometry''))
              else store_body h bs r
          | None \<Rightarrow>
              case reserve_both (hd_total h) r of
                None \<Rightarrow> (r\<lparr>cr_retired := retired_insert (hd_id h) (cr_retired r)\<rparr>, Ok None)
              | Some r \<Rightarrow>
                let frame = \<lparr>pt_data = replicate (hd_total h) 0, pt_stride = hd_stride h,
                      pt_count = hd_count h, pt_seen = 0, pt_deadline = now + LIFETIME,
                      pt_process = hd_total h, pt_mesh = hd_total h\<rparr>
                in store_body h bs
                     (r\<lparr>cr_frames := bmap_insert (hd_id h) frame (cr_frames r),
                        cr_buffered := cr_buffered r + hd_total h\<rparr>))"

section \<open>Splitting and headers\<close>

lemma length_chunks: "0 < n \<Longrightarrow> length (chunks n xs) = div_ceil (length xs) n"
proof (induction n xs rule: chunks.induct)
  case (1 n xs)
  show ?case
  proof (cases "xs = []")
    case True
    then show ?thesis by (subst chunks.simps) (simp add: div_ceil_def)
  next
    case False
    have "div_ceil (length xs) n = Suc (div_ceil (length xs - n) n)"
    proof (cases "n \<le> length xs")
      case True
      then have "length xs = length xs - n + n" by simp
      then show ?thesis using 1(2) by (metis add_Suc_right add.commute div_add_self2 div_ceil_def
            mod_add_self2 not_less_zero plus_1_eq_Suc add.assoc)
    next
      case small: False
      then show ?thesis using False by (simp add: div_ceil_def)
    qed
    then show ?thesis using 1 False by (subst chunks.simps) simp
  qed
qed

lemma nth_chunks: "0 < n \<Longrightarrow> i * n < length xs \<Longrightarrow> chunks n xs ! i = take n (drop (i * n) xs)"
proof (induction i arbitrary: xs)
  case 0
  then show ?case by (subst chunks.simps) auto
next
  case (Suc i)
  have "chunks n xs ! Suc i = chunks n (drop n xs) ! i" using Suc.prems by (subst chunks.simps) auto
  then show ?case using Suc by (simp add: add.commute)
qed

lemma concat_chunks: "0 < n \<Longrightarrow> concat (chunks n xs) = xs"
proof (induction n xs rule: chunks.induct)
  case (1 n xs)
  then show ?case by (cases "xs = []"; subst chunks.simps) auto
qed

lemma collect_results_Ok: "(\<And>x. x \<in> set xs \<Longrightarrow> f x = Ok (g x)) \<Longrightarrow> collect_results (map f xs) = Ok (map g xs)"
  by (induction xs) auto

text \<open>The wire image of one fragment.\<close>

definition fragment_bytes :: "header \<Rightarrow> bytes \<Rightarrow> bytes" where
  "fragment_bytes h body =
     MAGIC @ to_be 8 (hd_id h) @ to_be 4 (hd_total h) @ to_be 2 (hd_stride h) @ to_be 2 (hd_index h)
       @ to_be 2 (hd_count h) @ [0, 0] @ body"

definition header_fits :: "header \<Rightarrow> bool" where
  "header_fits h \<longleftrightarrow> hd_id h < 2 ^ 64 \<and> hd_total h < 2 ^ 32 \<and> hd_stride h < 2 ^ 16
     \<and> hd_index h < 2 ^ 16 \<and> hd_count h < 2 ^ 16"

lemma length_fragment_bytes [simp]: "length (fragment_bytes h body) = HEADER + length body"
  by (simp add: fragment_bytes_def carrier_constants)

lemma drop_fragment_bytes [simp]: "drop HEADER (fragment_bytes h body) = body"
  by (simp add: fragment_bytes_def carrier_constants)

lemma take_drop_append:
  "length a = i \<Longrightarrow> length b = n \<Longrightarrow> take n (drop i (a @ b @ c)) = b"
  by simp

lemma parse_fragment_bytes:
  assumes "header_fits h" and "body \<noteq> []" and "geometry_valid (HEADER + length body) h"
  shows "parse_header (fragment_bytes h body) = Ok h"
proof -
  have be: "of_be (to_be 8 (hd_id h)) = hd_id h" "of_be (to_be 4 (hd_total h)) = hd_total h"
    "of_be (to_be 2 (hd_stride h)) = hd_stride h" "of_be (to_be 2 (hd_index h)) = hd_index h"
    "of_be (to_be 2 (hd_count h)) = hd_count h"
    using assms(1) by (simp_all add: header_fits_def of_be_to_be)
  have "0 < length body" using assms(2) by simp
  then show ?thesis
    using assms(3) be
    by (simp add: parse_header_def slice_at_def Let_def not_le) (cases h, simp add: fragment_bytes_def carrier_constants)
qed

text \<open>What an accepted header says about its datagram.\<close>

lemma parse_header_Ok:
  assumes "parse_header bs = Ok h"
  shows "geometry_valid (length bs) h" "HEADER < length bs" "header_fits h"
    "bs = fragment_bytes h (drop HEADER bs)"
proof -
  have be: "of_be (take n (drop i bs)) < 256 ^ n" for i n
    using of_be_less [of "take n (drop i bs)"] by (rule less_le_trans) (simp add: power_increasing)
  have len: "24 < length bs" and mg: "take 4 bs = MAGIC" "take 2 (drop 22 bs) = [0, 0]"
    and h: "h = \<lparr>hd_id = of_be (take 8 (drop 4 bs)), hd_total = of_be (take 4 (drop 12 bs)),
      hd_stride = of_be (take 2 (drop 16 bs)), hd_index = of_be (take 2 (drop 18 bs)),
      hd_count = of_be (take 2 (drop 20 bs))\<rparr>" and geo: "geometry_valid (length bs) h"
    using assms by (auto simp: parse_header_def slice_at_def Let_def HEADER_def split: if_splits)
  show "geometry_valid (length bs) h" "HEADER < length bs" using geo len by (simp_all add: HEADER_def)
  show "header_fits h" unfolding header_fits_def h
    using be [of 8 4] be [of 4 12] be [of 2 16] be [of 2 18] be [of 2 20] by simp
  have tb: "to_be n (of_be (take n (drop i bs))) = take n (drop i bs)" if "i + n \<le> length bs" for i n
  proof -
    have "length (take n (drop i bs)) = n" using that by simp
    then show ?thesis using to_be_of_be [of "take n (drop i bs)"] by metis
  qed
  have step: "drop i bs = take n (drop i bs) @ drop (i + n) bs" for i n
    by (metis append_take_drop_id drop_drop add.commute)
  have "bs = take 4 bs @ take 8 (drop 4 bs) @ take 4 (drop 12 bs) @ take 2 (drop 16 bs)
      @ take 2 (drop 18 bs) @ take 2 (drop 20 bs) @ take 2 (drop 22 bs) @ drop 24 bs"
    using step [of 0 4] step [of 4 8] step [of 12 4] step [of 16 2] step [of 18 2] step [of 20 2]
      step [of 22 2] by simp
  then show "bs = fragment_bytes h (drop HEADER bs)"
    using len mg tb [of 4 8] tb [of 12 4] tb [of 16 2] tb [of 18 2] tb [of 20 2]
    unfolding fragment_bytes_def h HEADER_def by simp
qed

lemma parse_header_not_Abort: "parse_header bs \<noteq> Abort"
  by (simp add: parse_header_def slice_at_def Let_def HEADER_def)

lemma geometry_bounds:
  assumes "geometry_valid len h"
  shows "0 < hd_stride h" "hd_index h * hd_stride h < hd_total h" "hd_index h < hd_count h"
    "hd_count h \<le> 64" "0 < hd_total h" "hd_total h \<le> MAX_FRAME" "0 < hd_id h"
    "div_ceil (hd_total h) (hd_stride h) = hd_count h"
    "hd_index h * hd_stride h + (len - HEADER) \<le> hd_total h"
proof -
  show a: "0 < hd_stride h" "hd_index h < hd_count h" "hd_count h \<le> 64" "0 < hd_total h"
    "hd_total h \<le> MAX_FRAME" "0 < hd_id h" and d: "div_ceil (hd_total h) (hd_stride h) = hd_count h"
    using assms by (auto simp: geometry_valid_def MAX_FRAGMENTS_def)
  show "hd_index h * hd_stride h < hd_total h"
    using a(1,2) d less_div_ceil_iff [of "hd_stride h" "hd_index h" "hd_total h"] by simp
  then show "hd_index h * hd_stride h + (len - HEADER) \<le> hd_total h"
    using assms by (auto simp: geometry_valid_def)
qed

definition split_header :: "nat \<Rightarrow> bytes \<Rightarrow> nat \<Rightarrow> nat \<Rightarrow> header" where
  "split_header fid frame stride index =
     \<lparr>hd_id = fid, hd_total = length frame, hd_stride = stride, hd_index = index,
      hd_count = div_ceil (length frame) stride\<rparr>"

lemma split_frame_Ok:
  assumes "split_frame fid frame limit = Ok parts"
  defines "stride \<equiv> min (limit - HEADER) MAX_FRAME"
  defines "count \<equiv> div_ceil (length frame) stride"
  shows "fid \<noteq> 0" "frame \<noteq> []" "length frame \<le> MAX_FRAME" "0 < stride" "count \<le> MAX_FRAGMENTS"
    "parts = map (\<lambda>i. fragment_bytes (split_header fid frame stride i) (take stride (drop (i * stride) frame)))
       [0..<count]"
proof -
  show a: "fid \<noteq> 0" "frame \<noteq> []" "length frame \<le> MAX_FRAME" "0 < stride" "count \<le> MAX_FRAGMENTS"
    using assms(1) unfolding stride_def count_def by (auto simp: split_frame_def Let_def split: if_splits)
  let ?g = "\<lambda>(i, body). fragment_bytes (split_header fid frame stride i) body"
  have len: "length (chunks stride frame) = count" using a(4) unfolding count_def by (rule length_chunks)
  have small: "length frame < 2 ^ 32" "stride < 2 ^ 16" "count < 2 ^ 16"
    using a(3,5) by (simp_all add: stride_def carrier_constants)
  have enc: "encode_fragment fid (length frame) stride count x = Ok (?g x)"
    if "x \<in> set (enumerate 0 (chunks stride frame))" for x
  proof -
    obtain i body where x: "x = (i, body)" by (cases x)
    then have "i < count" using that len by (simp add: in_set_enumerate_eq)
    then show ?thesis using small(3)
      by (simp add: x encode_fragment_def fragment_bytes_def split_header_def try_below_def)
        (simp add: count_def)
  qed
  have "split_frame fid frame limit =
      collect_results (map (encode_fragment fid (length frame) stride count) (enumerate 0 (chunks stride frame)))"
    using a small
    by (simp add: split_frame_def Let_def try_below_def flip: stride_def count_def)
  also have "\<dots> = Ok (map ?g (enumerate 0 (chunks stride frame)))"
    by (rule collect_results_Ok) (rule enc)
  also have "map ?g (enumerate 0 (chunks stride frame)) =
      map (\<lambda>i. fragment_bytes (split_header fid frame stride i) (take stride (drop (i * stride) frame))) [0..<count]"
    using len a(4) less_div_ceil_iff [OF a(4), of _ "length frame"]
    by (intro nth_equalityI) (simp_all add: nth_enumerate_eq nth_chunks count_def)
  finally show "parts = map (\<lambda>i. fragment_bytes (split_header fid frame stride i)
      (take stride (drop (i * stride) frame))) [0..<count]"
    using assms(1) by simp
qed

section \<open>The replay horizon against its set\<close>

definition retired_ok :: "retired \<Rightarrow> bool" where
  "retired_ok r \<longleftrightarrow> length (rt_bits r) = 16"

definition age_bit :: "u64 list \<Rightarrow> nat \<Rightarrow> bool" where
  "age_bit ws age \<longleftrightarrow> bit (ws ! (age div 64)) (age mod 64)"

lemma retired_contains_iff:
  "retired_contains r x \<longleftrightarrow>
    x \<le> rt_highest r \<and> (x + 1024 \<le> rt_highest r \<or> age_bit (rt_bits r) (rt_highest r - x))"
  by (auto simp: retired_contains_def Let_def age_bit_def bit_iff_and_push_bit_not_eq_0)

lemma age_bit_shift:
  assumes "length old = 16" and "age < 1024"
  shows "age_bit (shift_bits shift old) age \<longleftrightarrow> shift \<le> age \<and> age_bit old (age - shift)"
proof -
  define i j w b where d: "i = age div 64" "j = age mod 64" "w = shift div 64" "b = shift mod 64"
  have a: "age = 64 * i + j" and sh: "shift = 64 * w + b" and lt: "j < 64" "b < 64" "i < 16"
    using assms(2) by (simp_all add: d div_less_iff_less_mult)
  have word: "shift_bits shift old ! i = (if i < w then 0 else push_bit b (old ! (i - w))
      OR (if b \<noteq> 0 \<and> w < i then drop_bit (64 - b) (old ! (i - w - 1)) else 0))"
    using lt by (simp add: shift_bits_def Let_def d)
  have lhs: "age_bit (shift_bits shift old) age \<longleftrightarrow> bit (shift_bits shift old ! i) j"
    by (simp add: age_bit_def d)
  consider "i < w" | "w \<le> i" "b \<le> j" | "w < i" "j < b" | "w = i" "j < b" by linarith
  then show ?thesis
  proof cases
    case 1
    then have "64 * Suc i \<le> 64 * w" by (intro mult_le_mono2) simp
    then have "\<not> shift \<le> age" using a sh lt by simp
    then show ?thesis using 1 lhs word by simp
  next
    case 2
    have "64 * w \<le> 64 * i" using 2 by simp
    then have le: "shift \<le> age" and diff: "age - shift = 64 * (i - w) + (j - b)"
      using 2 a sh by (simp_all add: diff_mult_distrib2)
    have "bit (shift_bits shift old ! i) j \<longleftrightarrow> bit (old ! (i - w)) (j - b)"
      using 2 lt word by (auto simp: bit_or_iff bit_push_bit_iff bit_drop_bit_eq dest: bit_imp_le_length)
    moreover have "j - b < 64" using lt by simp
    ultimately show ?thesis using lhs le diff by (simp add: age_bit_def)
  next
    case 3
    have "64 * Suc w \<le> 64 * i" using 3 by (intro mult_le_mono2) simp
    then have le: "shift \<le> age" and diff: "age - shift = 64 * (i - w - 1) + (64 + j - b)"
      using 3 a sh lt by (simp_all add: diff_mult_distrib2)
    have "bit (shift_bits shift old ! i) j \<longleftrightarrow> bit (old ! (i - w - 1)) (64 + j - b)"
      using 3 lt word by (auto simp: bit_or_iff bit_push_bit_iff bit_drop_bit_eq)
    moreover have "64 + j - b < 64" using lt 3 by simp
    ultimately show ?thesis using lhs le diff by (simp add: age_bit_def)
  next
    case 4
    then have "\<not> shift \<le> age" using a sh by simp
    then show ?thesis using 4 lhs word lt by (auto simp: bit_push_bit_iff)
  qed
qed

lemma age_bit_set:
  assumes "length ws = 16" and "n < 1024" and "age < 1024"
  shows "age_bit (ws[n div 64 := ws ! (n div 64) OR push_bit (n mod 64) 1]) age \<longleftrightarrow> age = n \<or> age_bit ws age"
proof -
  have "n div 64 < 16" using assms(2) by (simp add: div_less_iff_less_mult)
  moreover have "age = n \<longleftrightarrow> age div 64 = n div 64 \<and> age mod 64 = n mod 64"
    by (metis div_mult_mod_eq)
  ultimately show ?thesis
    using assms(1) by (auto simp: age_bit_def nth_list_update bit_or_iff bit_push_bit_iff bit_exp_iff)
qed

lemma length_shift_bits [simp]: "length (shift_bits n ws) = 16"
  by (simp add: shift_bits_def Let_def)

lemma retired_ok_insert: "retired_ok r \<Longrightarrow> retired_ok (retired_insert fid r)"
  by (simp add: retired_ok_def retired_insert_def Let_def)

lemma retired_insert_highest: "rt_highest (retired_insert fid r) = max fid (rt_highest r)"
  by (simp add: retired_insert_def Let_def max_def)

lemma retired_contains_insert:
  assumes "retired_ok r"
  shows "retired_contains (retired_insert fid r) x \<longleftrightarrow> x = fid \<or> retired_contains r x \<or> x + 1024 \<le> fid"
proof (cases "rt_highest r < fid")
  case True
  let ?ws = "shift_bits (min (fid - rt_highest r) 1024) (rt_bits r)"
  have ins: "retired_insert fid r = \<lparr>rt_highest = fid, rt_bits = ?ws[0 := ?ws ! 0 OR push_bit 0 1]\<rparr>"
    using True by (simp add: retired_insert_def Let_def)
  have set: "age_bit (?ws[0 := ?ws ! 0 OR push_bit 0 1]) age \<longleftrightarrow> age = 0 \<or> age_bit ?ws age" if "age < 1024" for age
    using age_bit_set [of ?ws 0 age] that by simp
  have shifted: "age_bit ?ws age \<longleftrightarrow> fid - rt_highest r \<le> age \<and> age_bit (rt_bits r) (age - (fid - rt_highest r))"
    if "age < 1024" for age
    using age_bit_shift [of "rt_bits r" age] assms that by (auto simp: retired_ok_def min_def)
  show ?thesis
  proof (cases "x \<le> fid \<and> fid < x + 1024")
    case near: True
    then have "fid - x < 1024" by linarith
    then have "retired_contains (retired_insert fid r) x \<longleftrightarrow>
        x = fid \<or> x \<le> rt_highest r \<and> age_bit (rt_bits r) (rt_highest r - x)"
      using near True set [of "fid - x"] shifted [of "fid - x"]
      by (auto simp: retired_contains_iff ins)
    then show ?thesis using near True by (auto simp: retired_contains_iff)
  next
    case False
    then show ?thesis using True by (auto simp: retired_contains_iff ins)
  qed
next
  case False
  show ?thesis
  proof (cases "rt_highest r < fid + 1024")
    case near: True
    let ?n = "rt_highest r - fid"
    have n: "?n < 1024" using near False by simp
    have ins: "retired_insert fid r = r\<lparr>rt_bits := (rt_bits r)[?n div 64 := rt_bits r ! (?n div 64) OR push_bit (?n mod 64) 1]\<rparr>"
      using False n by (simp add: retired_insert_def Let_def)
    show ?thesis
    proof (cases "rt_highest r - x < 1024")
      case True
      then have "age_bit ((rt_bits r)[?n div 64 := rt_bits r ! (?n div 64) OR push_bit (?n mod 64) 1]) (rt_highest r - x)
          \<longleftrightarrow> rt_highest r - x = ?n \<or> age_bit (rt_bits r) (rt_highest r - x)"
        using age_bit_set [of "rt_bits r" ?n "rt_highest r - x"] assms n by (simp add: retired_ok_def)
      then show ?thesis using True False by (auto simp: retired_contains_iff ins)
    qed (use False in \<open>auto simp: retired_contains_iff ins\<close>)
  next
    case far: False
    then show ?thesis using False by (auto simp: retired_contains_iff retired_insert_def Let_def)
  qed
qed

section \<open>Invariant of the reassembler\<close>

lemma count_ones_card: "count_ones w = card {n. bit w n}"
proof -
  have "count_ones w = card (set (filter (bit w) [0..<64]))"
    unfolding count_ones_def by (rule distinct_card [symmetric]) simp
  also have "set (filter (bit w) [0..<64]) = {n. bit w n}"
    by (auto dest: bit_imp_le_length)
  finally show ?thesis .
qed

text \<open>
  \<open>received H fid p i\<close>: chunk \<open>i\<close> of the partial frame is the body of a datagram of
  \<open>H\<close> whose header names this frame, this geometry and this index.
\<close>

definition received :: "bytes set \<Rightarrow> nat \<Rightarrow> partial \<Rightarrow> nat \<Rightarrow> bool" where
  "received H fid p i \<longleftrightarrow>
     (\<exists>bs\<in>H. parse_header bs = Ok \<lparr>hd_id = fid, hd_total = length (pt_data p), hd_stride = pt_stride p,
        hd_index = i, hd_count = pt_count p\<rparr>
      \<and> take (length bs - HEADER) (drop (i * pt_stride p) (pt_data p)) = drop HEADER bs)"

definition partial_ok :: "bytes set \<Rightarrow> nat \<Rightarrow> partial \<Rightarrow> bool" where
  "partial_ok H fid p \<longleftrightarrow>
     0 < length (pt_data p) \<and> length (pt_data p) \<le> MAX_FRAME
     \<and> pt_process p = length (pt_data p) \<and> pt_mesh p = length (pt_data p)
     \<and> 0 < pt_stride p \<and> pt_count p = div_ceil (length (pt_data p)) (pt_stride p) \<and> pt_count p \<le> 64
     \<and> (\<forall>n. bit (pt_seen p) n \<longrightarrow> n < pt_count p \<and> received H fid p n)"

abbreviation frame_bytes :: "nat \<times> partial \<Rightarrow> nat" where
  "frame_bytes \<equiv> \<lambda>(_, p). length (pt_data p)"

definition budget_covers :: "nat \<Rightarrow> budget \<Rightarrow> bool" where
  "budget_covers own b \<longleftrightarrow> own \<le> bg_used b \<and> bg_used b \<le> bg_limit b"

definition carrier_inv :: "bytes set \<Rightarrow> carrier_reassembler \<Rightarrow> bool" where
  "carrier_inv H r \<longleftrightarrow>
     bmap_ok (cr_frames r) \<and> (\<forall>fid p. hm_get (cr_frames r) fid = Some p \<longrightarrow> partial_ok H fid p)
     \<and> length (cr_frames r) \<le> MAX_INCOMPLETE \<and> cr_buffered r = hm_sum frame_bytes (cr_frames r)
     \<and> cr_buffered r \<le> MAX_BUFFERED \<and> retired_ok (cr_retired r)
     \<and> budget_covers (cr_buffered r) (cr_process r) \<and> budget_covers (cr_buffered r) (cr_mesh r)"

lemma partial_ok_mono: "partial_ok H fid p \<Longrightarrow> H \<subseteq> H' \<Longrightarrow> partial_ok H' fid p"
  unfolding partial_ok_def received_def by blast

lemma carrier_inv_mono: "carrier_inv H r \<Longrightarrow> H \<subseteq> H' \<Longrightarrow> carrier_inv H' r"
  unfolding carrier_inv_def using partial_ok_mono by blast

lemma carrier_new_inv:
  "bg_used process \<le> bg_limit process \<Longrightarrow> bg_used mesh \<le> bg_limit mesh \<Longrightarrow>
   carrier_inv H (carrier_new process mesh)"
  by (simp add: carrier_inv_def carrier_new_def retired_ok_def retired_default_def budget_covers_def)

lemma carrier_remove_simps [simp]:
  "cr_frames (carrier_remove fid r) = hm_remove fid (cr_frames r)"
  "cr_retired (carrier_remove fid r) = cr_retired r"
  "bg_limit (cr_process (carrier_remove fid r)) = bg_limit (cr_process r)"
  "bg_limit (cr_mesh (carrier_remove fid r)) = bg_limit (cr_mesh r)"
  by (simp_all add: carrier_remove_def drop_partial_def release_def hm_remove_absent split: option.split)

text \<open>Removing a frame gives back exactly what it had reserved.\<close>

lemma carrier_remove_released:
  assumes "carrier_inv H r"
  shows "cr_buffered (carrier_remove fid r) = hm_sum frame_bytes (hm_remove fid (cr_frames r))"
    "bg_used (cr_process (carrier_remove fid r)) + cr_buffered r =
      bg_used (cr_process r) + cr_buffered (carrier_remove fid r)"
    "bg_used (cr_mesh (carrier_remove fid r)) + cr_buffered r =
      bg_used (cr_mesh r) + cr_buffered (carrier_remove fid r)"
proof -
  have hm: "hm_ok (cr_frames r)" and buf: "cr_buffered r = hm_sum frame_bytes (cr_frames r)"
    and use: "cr_buffered r \<le> bg_used (cr_process r)" "cr_buffered r \<le> bg_used (cr_mesh r)"
    using assms by (simp_all add: carrier_inv_def bmap_ok_distinct budget_covers_def)
  have "cr_buffered (carrier_remove fid r) = hm_sum frame_bytes (hm_remove fid (cr_frames r))
    \<and> bg_used (cr_process (carrier_remove fid r)) + cr_buffered r =
      bg_used (cr_process r) + cr_buffered (carrier_remove fid r)
    \<and> bg_used (cr_mesh (carrier_remove fid r)) + cr_buffered r =
      bg_used (cr_mesh r) + cr_buffered (carrier_remove fid r)"
  proof (cases "hm_get (cr_frames r) fid")
    case None
    then show ?thesis using buf by (simp add: carrier_remove_def hm_remove_absent)
  next
    case (Some p)
    have sum: "hm_sum frame_bytes (hm_remove fid (cr_frames r)) + length (pt_data p) = cr_buffered r"
      using hm_sum_remove [OF hm Some, of frame_bytes] buf by simp
    have "pt_process p = length (pt_data p)" "pt_mesh p = length (pt_data p)"
      using assms Some by (simp_all add: carrier_inv_def partial_ok_def)
    then show ?thesis using Some sum use
      by (simp add: carrier_remove_def drop_partial_def release_def)
  qed
  then show "cr_buffered (carrier_remove fid r) = hm_sum frame_bytes (hm_remove fid (cr_frames r))"
    "bg_used (cr_process (carrier_remove fid r)) + cr_buffered r =
      bg_used (cr_process r) + cr_buffered (carrier_remove fid r)"
    "bg_used (cr_mesh (carrier_remove fid r)) + cr_buffered r =
      bg_used (cr_mesh r) + cr_buffered (carrier_remove fid r)" by auto
qed

lemma hm_sum_remove_le: "hm_sum f (hm_remove k m) \<le> hm_sum f m"
  by (induction m) auto

lemma carrier_remove_inv:
  assumes "carrier_inv H r"
  shows "carrier_inv H (carrier_remove fid r)"
proof -
  note rel = carrier_remove_released [OF assms, of fid]
  have "length (hm_remove fid (cr_frames r)) \<le> MAX_INCOMPLETE"
    using assms hm_remove_length_le [of fid "cr_frames r"] by (simp add: carrier_inv_def)
  moreover have "cr_buffered (carrier_remove fid r) \<le> cr_buffered r"
    using rel(1) hm_sum_remove_le [of frame_bytes fid "cr_frames r"] assms by (simp add: carrier_inv_def)
  ultimately show ?thesis using assms rel
    by (auto simp: carrier_inv_def budget_covers_def table_simps split: if_splits)
qed

lemma retire_simps [simp]:
  "cr_frames (retire fid r) = hm_remove fid (cr_frames r)"
  "cr_retired (retire fid r) = retired_insert fid (cr_retired r)"
  by (simp_all add: retire_def)

lemma retired_insert_inv: "carrier_inv H r \<Longrightarrow> carrier_inv H (r\<lparr>cr_retired := retired_insert fid (cr_retired r)\<rparr>)"
  by (auto simp: carrier_inv_def retired_ok_insert)

lemma retire_inv: "carrier_inv H r \<Longrightarrow> carrier_inv H (retire fid r)"
  using retired_insert_inv [OF carrier_remove_inv, of H r fid fid] by (simp add: retire_def)

lemma carrier_expire_inv: "carrier_inv H r \<Longrightarrow> carrier_inv H (carrier_expire now r)"
  unfolding carrier_expire_def by (rule fold_preserves) (rule retire_inv)

text \<open>Once retired, always retired.\<close>

lemma retire_contains: "retired_ok (cr_retired r) \<Longrightarrow> retired_contains (cr_retired r) x \<Longrightarrow>
    retired_contains (cr_retired (retire fid r)) x \<and> retired_ok (cr_retired (retire fid r))"
  by (simp add: retired_contains_insert retired_ok_insert)

lemma carrier_expire_contains:
  assumes "retired_ok (cr_retired r)" "retired_contains (cr_retired r) x"
  shows "retired_contains (cr_retired (carrier_expire now r)) x"
proof -
  have "retired_contains (cr_retired (carrier_expire now r)) x \<and> retired_ok (cr_retired (carrier_expire now r))"
    unfolding carrier_expire_def by (rule fold_preserves) (use assms retire_contains in auto)
  then show ?thesis by simp
qed

lemma expire_frames:
  assumes "hm_get (cr_frames (carrier_expire now r)) fid = Some p"
  shows "hm_get (cr_frames r) fid = Some p" "now < pt_deadline p" "\<not> retired_contains (cr_retired r) fid"
proof -
  let ?due = "\<lambda>(fid, frame). pt_deadline frame \<le> now \<or> retired_contains (cr_retired r) fid"
  have fold: "hm_get (cr_frames (fold retire ids s)) fid
      = (if fid \<in> set ids then None else hm_get (cr_frames s) fid)" for ids s
    by (induction ids arbitrary: s) (auto simp: table_simps)
  have "fid \<notin> set (map fst (filter ?due (cr_frames r)))" and get: "hm_get (cr_frames r) fid = Some p"
    using assms unfolding carrier_expire_def fold by (auto split: if_splits)
  then show "hm_get (cr_frames r) fid = Some p" "now < pt_deadline p" "\<not> retired_contains (cr_retired r) fid"
    using map_of_SomeD [OF get] by (force simp: not_le [symmetric])+
qed

section \<open>Submitting datagrams\<close>

lemma reserve_Some:
  "reserve n b = Some b' \<longleftrightarrow> bg_used b + n \<le> bg_limit b \<and> bg_used b + n \<le> u64_max
     \<and> b' = b\<lparr>bg_used := bg_used b + n\<rparr>"
  by (auto simp: reserve_def checked_add_def split: if_splits)

lemma reserve_both_Some:
  assumes "reserve_both n r = Some r1"
  shows "length (cr_frames r) < MAX_INCOMPLETE" "cr_buffered r + n \<le> MAX_BUFFERED"
    "r1 = r\<lparr>cr_process := (cr_process r)\<lparr>bg_used := bg_used (cr_process r) + n\<rparr>,
      cr_mesh := (cr_mesh r)\<lparr>bg_used := bg_used (cr_mesh r) + n\<rparr>\<rparr>"
    "bg_used (cr_process r) + n \<le> bg_limit (cr_process r)" "bg_used (cr_mesh r) + n \<le> bg_limit (cr_mesh r)"
  using assms by (auto simp: reserve_both_def reserve_Some split: if_splits option.splits)

definition fresh_partial :: "header \<Rightarrow> nat \<Rightarrow> partial" where
  "fresh_partial h now = \<lparr>pt_data = replicate (hd_total h) 0, pt_stride = hd_stride h,
     pt_count = hd_count h, pt_seen = 0, pt_deadline = now + LIFETIME,
     pt_process = hd_total h, pt_mesh = hd_total h\<rparr>"

definition opened :: "header \<Rightarrow> nat \<Rightarrow> carrier_reassembler \<Rightarrow> carrier_reassembler" where
  "opened h now r =
     r\<lparr>cr_process := (cr_process r)\<lparr>bg_used := bg_used (cr_process r) + hd_total h\<rparr>,
       cr_mesh := (cr_mesh r)\<lparr>bg_used := bg_used (cr_mesh r) + hd_total h\<rparr>,
       cr_frames := bmap_insert (hd_id h) (fresh_partial h now) (cr_frames r),
       cr_buffered := cr_buffered r + hd_total h\<rparr>"

lemma fresh_partial_ok:
  "geometry_valid len h \<Longrightarrow> partial_ok H (hd_id h) (fresh_partial h now)"
  using geometry_bounds [of len h] by (simp add: partial_ok_def fresh_partial_def)

lemma opened_inv:
  assumes inv: "carrier_inv H r" and geo: "geometry_valid len h"
    and new: "hm_get (cr_frames r) (hd_id h) = None" and res: "reserve_both (hd_total h) r \<noteq> None"
  shows "carrier_inv H (opened h now r)"
proof -
  obtain r1 where r1: "reserve_both (hd_total h) r = Some r1" using res by auto
  note room = reserve_both_Some [OF r1]
  have "hm_sum frame_bytes (bmap_insert (hd_id h) (fresh_partial h now) (cr_frames r))
      = hd_total h + hm_sum frame_bytes (cr_frames r)"
    using bmap_insert_sum_new [OF new] by (simp add: fresh_partial_def)
  then show ?thesis
    using inv room new fresh_partial_ok [OF geo, of H now]
    by (auto simp: carrier_inv_def opened_def table_simps bmap_insert_length_new budget_covers_def
        split: if_splits)
qed

lemma bmap_insert_sum_same:
  fixes f :: "'k::linorder \<times> 'v \<Rightarrow> nat"
  shows "bmap_ok m \<Longrightarrow> hm_get m k = Some w \<Longrightarrow> f (k, v) = f (k, w) \<Longrightarrow>
    hm_sum f (bmap_insert k v m) = hm_sum f m \<and> length (bmap_insert k v m) = length m"
proof (induction m)
  case Nil
  then show ?case by simp
next
  case (Cons p m)
  obtain a b where p: "p = (a, b)" by (cases p)
  have "k \<noteq> a \<Longrightarrow> a < k"
    using Cons.prems p by (auto simp: bmap_ok_def dest!: map_of_SomeD)
  then show ?case using Cons p by (auto simp: bmap_ok_def split: if_splits)
qed

text \<open>Storing one body: the chunk is received, the others are untouched.\<close>

definition stored :: "header \<Rightarrow> bytes \<Rightarrow> partial \<Rightarrow> partial" where
  "stored h bs p =
     p\<lparr>pt_data := splice (pt_data p) (hd_index h * hd_stride h) (drop HEADER bs),
       pt_seen := pt_seen p OR push_bit (hd_index h) 1\<rparr>"

lemma bit_stored:
  "hd_index h < 64 \<Longrightarrow> bit (pt_seen (stored h bs p)) n \<longleftrightarrow> bit (pt_seen p) n \<or> n = hd_index h"
  by (auto simp: stored_def bit_or_iff bit_exp_iff)

lemma take_drop_splice_same:
  "i + length src \<le> length dst \<Longrightarrow> take (length src) (drop i (splice dst i src)) = src"
  by (simp add: splice_def)

lemma take_drop_splice_other:
  assumes "i + length src \<le> length dst" and "j + n \<le> i \<or> i + length src \<le> j" and "j + n \<le> length dst"
  shows "take n (drop j (splice dst i src)) = take n (drop j dst)"
  using assms by (intro nth_equalityI) (auto simp: nth_splice)

lemma stored_ok:
  assumes ok: "partial_ok H (hd_id h) p" and h: "parse_header bs = Ok h" and "bs \<in> H"
    and geo: "length (pt_data p) = hd_total h" "pt_stride p = hd_stride h" "pt_count p = hd_count h"
  shows "partial_ok H (hd_id h) (stored h bs p)"
proof -
  note valid = parse_header_Ok(1,2) [OF h]
  note b = geometry_bounds [OF valid(1)]
  let ?q = "stored h bs p" and ?i = "hd_index h" and ?s = "hd_stride h"
  have fit: "?i * ?s + length (drop HEADER bs) \<le> length (pt_data p)" using b(9) geo by simp
  have len: "length (pt_data ?q) = length (pt_data p)" using fit by (simp add: stored_def)
  have rec: "received H (hd_id h) ?q n" if n: "bit (pt_seen ?q) n" for n
  proof (cases "n = ?i")
    case True
    have "take (length bs - HEADER) (drop (?i * ?s) (pt_data ?q)) = drop HEADER bs"
      using take_drop_splice_same [OF fit] by (simp add: stored_def)
    then show ?thesis unfolding received_def
      using assms(3) h geo len True by (intro bexI [of _ bs]) (simp_all add: stored_def)
  next
    case False
    then have "bit (pt_seen p) n" using n b(3,4) by (simp add: bit_stored)
    then obtain bs' where bs': "bs' \<in> H" "parse_header bs' = Ok \<lparr>hd_id = hd_id h, hd_total = length (pt_data p),
        hd_stride = pt_stride p, hd_index = n, hd_count = pt_count p\<rparr>"
      "take (length bs' - HEADER) (drop (n * ?s) (pt_data p)) = drop HEADER bs'"
      using ok geo by (auto simp: partial_ok_def received_def)
    note b' = parse_header_Ok(1) [OF bs'(2)]
    have l': "length bs' - HEADER \<le> ?s" "n * ?s + (length bs' - HEADER) \<le> length (pt_data p)"
      using b' geometry_bounds(9) [OF b'] geo by (auto simp: geometry_valid_def)
    have l: "length (drop HEADER bs) \<le> ?s" using valid(1) by (auto simp: geometry_valid_def)
    have sep: "n * ?s + (length bs' - HEADER) \<le> ?i * ?s \<or> ?i * ?s + length (drop HEADER bs) \<le> n * ?s"
    proof (cases "n < ?i")
      case True
      then have "Suc n * ?s \<le> ?i * ?s" by (intro mult_le_mono1) simp
      then show ?thesis using l'(1) by simp
    next
      case ge: False
      then have "Suc ?i * ?s \<le> n * ?s" using False by (intro mult_le_mono1) simp
      then show ?thesis using l by simp
    qed
    have "take (length bs' - HEADER) (drop (n * ?s) (pt_data ?q)) = drop HEADER bs'"
      using take_drop_splice_other [OF fit sep l'(2)] bs'(3) by (simp add: stored_def)
    then show ?thesis unfolding received_def
      using bs' geo len by (intro bexI [of _ bs']) (simp_all add: stored_def)
  qed
  have "n < pt_count ?q" if "bit (pt_seen ?q) n" for n
  proof -
    have "pt_count ?q = pt_count p" by (simp add: stored_def)
    then show ?thesis using that ok b(3,4) geo bit_stored [of h bs p n] by (auto simp: partial_ok_def)
  qed
  then show ?thesis using ok len rec unfolding partial_ok_def by (simp add: stored_def)
qed

lemma store_body_eq:
  assumes get: "hm_get (cr_frames r) (hd_id h) = Some p" and h: "parse_header bs = Ok h"
    and geo: "length (pt_data p) = hd_total h"
  shows "store_body h bs r =
    (if bit (pt_seen p) (hd_index h) then
       if take (length bs - HEADER) (drop (hd_index h * hd_stride h) (pt_data p)) \<noteq> drop HEADER bs
       then (retire (hd_id h) r, Err (Invalid_data ''conflicting duplicate QUIC fragment''))
       else (r, Ok None)
     else
       let q = stored h bs p; r1 = r\<lparr>cr_frames := bmap_insert (hd_id h) q (cr_frames r)\<rparr> in
       if count_ones (pt_seen q) \<noteq> pt_count q then (r1, Ok None)
       else (retire (hd_id h) r1, Ok (Some (pt_data q))))"
proof -
  note valid = parse_header_Ok(1,2) [OF h]
  have fit: "hd_index h * hd_stride h + length bs - HEADER \<le> length (pt_data p)"
    using geometry_bounds(9) [OF valid(1)] geo valid(2) by simp
  have "\<not> hd_index h * hd_stride h + length bs - HEADER < hd_index h * hd_stride h" using valid(2) by simp
  moreover have "hd_index h * hd_stride h + length bs - HEADER - hd_index h * hd_stride h = length bs - HEADER"
    using valid(2) by simp
  moreover have "pt_seen p AND push_bit (hd_index h) 1 \<noteq> 0 \<longleftrightarrow> bit (pt_seen p) (hd_index h)"
    by (simp add: bit_iff_and_push_bit_not_eq_0)
  ultimately show ?thesis using get fit by (simp add: store_body_def Let_def stored_def)
qed

lemma stored_state_inv:
  assumes inv: "carrier_inv H r" and get: "hm_get (cr_frames r) (hd_id h) = Some p"
    and ok: "partial_ok H (hd_id h) q" "length (pt_data q) = length (pt_data p)"
  shows "carrier_inv H (r\<lparr>cr_frames := bmap_insert (hd_id h) q (cr_frames r)\<rparr>)"
proof -
  have "hm_sum frame_bytes (bmap_insert (hd_id h) q (cr_frames r)) = hm_sum frame_bytes (cr_frames r)
      \<and> length (bmap_insert (hd_id h) q (cr_frames r)) = length (cr_frames r)"
    using inv get ok(2) by (intro bmap_insert_sum_same) (simp_all add: carrier_inv_def)
  then show ?thesis using inv ok(1) by (auto simp: carrier_inv_def table_simps)
qed

lemma stored_length:
  assumes "parse_header bs = Ok h" and "length (pt_data p) = hd_total h"
  shows "length (pt_data (stored h bs p)) = length (pt_data p)"
  using geometry_bounds(9) [OF parse_header_Ok(1) [OF assms(1)]] assms(2) by (simp add: stored_def)

lemma store_body_inv:
  assumes inv: "carrier_inv H r" and h: "parse_header bs = Ok h" and mem: "bs \<in> H"
    and get: "hm_get (cr_frames r) (hd_id h) = Some p"
    and geo: "length (pt_data p) = hd_total h" "pt_stride p = hd_stride h" "pt_count p = hd_count h"
  shows "carrier_inv H (fst (store_body h bs r))" "snd (store_body h bs r) \<noteq> Abort"
proof -
  have ok: "partial_ok H (hd_id h) (stored h bs p)"
    using inv get by (intro stored_ok [OF _ h mem geo]) (simp add: carrier_inv_def)
  have "carrier_inv H (r\<lparr>cr_frames := bmap_insert (hd_id h) (stored h bs p) (cr_frames r)\<rparr>)"
    by (rule stored_state_inv [OF inv get ok stored_length [OF h geo(1)]])
  then show "carrier_inv H (fst (store_body h bs r))" "snd (store_body h bs r) \<noteq> Abort"
    unfolding store_body_eq [OF get h geo(1)] using inv by (simp_all add: Let_def retire_inv)
qed

text \<open>\<open>carrier_push\<close> in terms of the state it opens and stores into.\<close>

definition same_geometry :: "header \<Rightarrow> partial \<Rightarrow> bool" where
  "same_geometry h p \<longleftrightarrow> length (pt_data p) = hd_total h \<and> pt_stride p = hd_stride h \<and> pt_count p = hd_count h"

lemma carrier_push_eq:
  "carrier_push bs now r =
    (let r0 = carrier_expire now r in
     case parse_header bs of
       Abort \<Rightarrow> (r0, Abort)
     | Err e \<Rightarrow> (r0, Err e)
     | Ok h \<Rightarrow>
       if retired_contains (cr_retired r0) (hd_id h) then (r0, Ok None)
       else case hm_get (cr_frames r0) (hd_id h) of
         Some p \<Rightarrow>
           if same_geometry h p then store_body h bs r0
           else (retire (hd_id h) r0, Err (Invalid_data ''conflicting QUIC fragment geometry''))
       | None \<Rightarrow>
           if reserve_both (hd_total h) r0 = None
           then (r0\<lparr>cr_retired := retired_insert (hd_id h) (cr_retired r0)\<rparr>, Ok None)
           else store_body h bs (opened h now r0))"
  by (auto simp: carrier_push_def Let_def same_geometry_def opened_def fresh_partial_def
      dest: reserve_both_Some(3) split: outcome.split option.split)

lemma opened_get:
  "hm_get (cr_frames (opened h now r)) (hd_id h) = Some (fresh_partial h now)"
  by (simp add: opened_def table_simps)

lemma same_geometry_fresh: "same_geometry h (fresh_partial h now)"
  by (simp add: same_geometry_def fresh_partial_def)

text \<open>The state in which the body is stored, if any.\<close>

definition target_state :: "header \<Rightarrow> nat \<Rightarrow> carrier_reassembler \<Rightarrow> carrier_reassembler" where
  "target_state h now r = (if hm_get (cr_frames r) (hd_id h) = None then opened h now r else r)"

lemma carrier_push_inv:
  assumes inv: "carrier_inv H r"
  shows "carrier_inv (insert bs H) (fst (carrier_push bs now r))" "snd (carrier_push bs now r) \<noteq> Abort"
proof -
  let ?r0 = "carrier_expire now r" and ?H = "insert bs H"
  have inv0: "carrier_inv ?H ?r0"
    using carrier_expire_inv [OF inv, of now] by (rule carrier_inv_mono) auto
  have "carrier_inv ?H (fst (carrier_push bs now r)) \<and> snd (carrier_push bs now r) \<noteq> Abort"
  proof (cases "parse_header bs")
    case (Ok h)
    note geo = parse_header_Ok(1) [OF Ok]
    show ?thesis
    proof (cases "hm_get (cr_frames ?r0) (hd_id h)")
      case None
      note body = store_body_inv [OF opened_inv [OF inv0 geo None] Ok _ opened_get]
      show ?thesis
        using Ok None inv0 body same_geometry_fresh [of h now]
        by (auto simp: carrier_push_eq Let_def retired_insert_inv same_geometry_def)
    next
      case (Some p)
      note body = store_body_inv [OF inv0 Ok _ Some]
      show ?thesis
        using Ok Some inv0 body by (auto simp: carrier_push_eq Let_def retire_inv same_geometry_def)
    qed
  qed (use inv0 parse_header_not_Abort in \<open>auto simp: carrier_push_eq Let_def\<close>)
  then show "carrier_inv ?H (fst (carrier_push bs now r))" "snd (carrier_push bs now r) \<noteq> Abort" by auto
qed

text \<open>A delivery: the frame was complete, and its identifier is retired from then on.\<close>

lemma full_seen:
  assumes "partial_ok H fid p" and "count_ones (pt_seen p) = pt_count p" and "n < pt_count p"
  shows "bit (pt_seen p) n"
proof -
  have "{n. bit (pt_seen p) n} \<subseteq> {..<pt_count p}" using assms(1) by (auto simp: partial_ok_def)
  then have "{n. bit (pt_seen p) n} = {..<pt_count p}"
    using assms(2) by (intro card_subset_eq) (simp_all add: count_ones_card)
  then show ?thesis using assms(3) by auto
qed

lemma carrier_push_delivers:
  assumes inv: "carrier_inv H r" and del: "carrier_push bs now r = (r', Ok (Some data))"
  obtains h p where "parse_header bs = Ok h" "partial_ok (insert bs H) (hd_id h) p" "pt_data p = data"
    "same_geometry h p" "\<forall>i<hd_count h. received (insert bs H) (hd_id h) p i"
    "\<not> retired_contains (cr_retired (carrier_expire now r)) (hd_id h)"
    "retired_contains (cr_retired r') (hd_id h)"
proof -
  let ?r0 = "carrier_expire now r" and ?H = "insert bs H"
  have inv0: "carrier_inv ?H ?r0"
    using carrier_expire_inv [OF inv, of now] by (rule carrier_inv_mono) auto
  obtain h where h: "parse_header bs = Ok h"
    and fresh: "\<not> retired_contains (cr_retired ?r0) (hd_id h)"
    using del by (auto simp: carrier_push_eq Let_def split: outcome.splits if_splits)
  note geo = parse_header_Ok(1) [OF h]
  let ?r1 = "target_state h now ?r0"
  have r1: "carrier_inv ?H ?r1 \<and> (\<exists>p. hm_get (cr_frames ?r1) (hd_id h) = Some p \<and> same_geometry h p)
      \<and> store_body h bs ?r1 = (r', Ok (Some data))"
  proof (cases "hm_get (cr_frames ?r0) (hd_id h)")
    case None
    then show ?thesis
      using del h fresh opened_inv [OF inv0 geo None] opened_get [of h now ?r0] same_geometry_fresh
      by (auto simp: carrier_push_eq Let_def target_state_def split: if_splits)
  next
    case (Some p)
    then show ?thesis
      using del h fresh inv0 by (auto simp: carrier_push_eq Let_def target_state_def split: if_splits)
  qed
  then obtain p where p: "carrier_inv ?H ?r1" "hm_get (cr_frames ?r1) (hd_id h) = Some p" "same_geometry h p"
    "store_body h bs ?r1 = (r', Ok (Some data))" by blast
  have g: "length (pt_data p) = hd_total h" "pt_stride p = hd_stride h" "pt_count p = hd_count h"
    using p(3) by (simp_all add: same_geometry_def)
  let ?q = "stored h bs p"
  have ok: "partial_ok ?H (hd_id h) ?q"
    using p(1,2) by (intro stored_ok [OF _ h insertI1 g]) (simp add: carrier_inv_def)
  have full: "count_ones (pt_seen ?q) = pt_count ?q" "data = pt_data ?q"
    and r': "r' = retire (hd_id h) (?r1\<lparr>cr_frames := bmap_insert (hd_id h) ?q (cr_frames ?r1)\<rparr>)"
    using p(4) unfolding store_body_eq [OF p(2) h g(1)] by (auto simp: Let_def split: if_splits)
  have "same_geometry h ?q"
    using g stored_length [OF h g(1)] by (simp add: same_geometry_def stored_def)
  moreover have "\<forall>i<hd_count h. received ?H (hd_id h) ?q i"
    using full_seen [OF ok full(1)] ok g(3) by (simp add: partial_ok_def stored_def)
  moreover have "retired_ok (cr_retired ?r1)" using p(1) by (simp add: carrier_inv_def)
  then have "retired_contains (cr_retired r') (hd_id h)"
    unfolding r' by (simp add: retired_contains_insert)
  ultimately show ?thesis using that [of h ?q] h ok full(2) fresh by simp
qed

lemma store_body_contains:
  "retired_ok (cr_retired r) \<Longrightarrow> retired_contains (cr_retired r) x \<Longrightarrow>
   retired_contains (cr_retired (fst (store_body h bs r))) x"
  by (auto simp: store_body_def Let_def retired_contains_insert split: option.split)

lemma carrier_push_contains:
  assumes inv: "carrier_inv H r" and old: "retired_contains (cr_retired r) x"
  shows "retired_contains (cr_retired (fst (carrier_push bs now r))) x"
proof -
  let ?r0 = "carrier_expire now r"
  have ok: "retired_ok (cr_retired ?r0)" using carrier_expire_inv [OF inv] by (simp add: carrier_inv_def)
  have c: "retired_contains (cr_retired ?r0) x"
    using inv old by (intro carrier_expire_contains) (simp_all add: carrier_inv_def)
  have "cr_retired (opened h now ?r0) = cr_retired ?r0" for h by (simp add: opened_def)
  then show ?thesis using ok c
    by (auto simp: carrier_push_eq Let_def retired_contains_insert store_body_contains
        split: outcome.split option.split)
qed

text \<open>Budget accounting: what the connection holds and what it has reserved move together.\<close>

definition balanced :: "carrier_reassembler \<Rightarrow> carrier_reassembler \<Rightarrow> bool" where
  "balanced r r' \<longleftrightarrow>
     bg_used (cr_process r') + cr_buffered r = bg_used (cr_process r) + cr_buffered r'
     \<and> bg_used (cr_mesh r') + cr_buffered r = bg_used (cr_mesh r) + cr_buffered r'
     \<and> bg_limit (cr_process r') = bg_limit (cr_process r) \<and> bg_limit (cr_mesh r') = bg_limit (cr_mesh r)"

lemma balanced_refl [simp]: "balanced r r"
  by (simp add: balanced_def)

lemma balanced_trans: "balanced a b \<Longrightarrow> balanced b c \<Longrightarrow> balanced a c"
  by (simp add: balanced_def)

lemma retire_balanced: "carrier_inv H r \<Longrightarrow> balanced r (retire fid r)"
  using carrier_remove_released [of H r fid] by (simp add: balanced_def retire_def)

lemma fold_retire_balanced: "carrier_inv H r \<Longrightarrow> balanced r (fold retire ids r)"
  by (induction ids arbitrary: r) (auto intro: balanced_trans retire_balanced retire_inv)

lemma carrier_expire_balanced: "carrier_inv H r \<Longrightarrow> balanced r (carrier_expire now r)"
  unfolding carrier_expire_def by (rule fold_retire_balanced)

lemma store_body_balanced:
  assumes inv: "carrier_inv H r" and h: "parse_header bs = Ok h" and mem: "bs \<in> H"
    and get: "hm_get (cr_frames r) (hd_id h) = Some p" and geo: "same_geometry h p"
  shows "balanced r (fst (store_body h bs r))"
proof -
  have g: "length (pt_data p) = hd_total h" "pt_stride p = hd_stride h" "pt_count p = hd_count h"
    using geo by (simp_all add: same_geometry_def)
  let ?r1 = "r\<lparr>cr_frames := bmap_insert (hd_id h) (stored h bs p) (cr_frames r)\<rparr>"
  have ok: "partial_ok H (hd_id h) (stored h bs p)"
    using inv get by (intro stored_ok [OF _ h mem g]) (simp add: carrier_inv_def)
  have inv1: "carrier_inv H ?r1"
    by (rule stored_state_inv [OF inv get ok stored_length [OF h g(1)]])
  have "balanced r ?r1" by (simp add: balanced_def)
  then show ?thesis
    unfolding store_body_eq [OF get h g(1)]
    using retire_balanced [OF inv] balanced_trans retire_balanced [OF inv1] by (auto simp: Let_def)
qed

lemma carrier_push_balanced:
  assumes inv: "carrier_inv H r"
  shows "balanced r (fst (carrier_push bs now r))"
proof -
  let ?r0 = "carrier_expire now r" and ?H = "insert bs H"
  have inv0: "carrier_inv ?H ?r0"
    using carrier_expire_inv [OF inv, of now] by (rule carrier_inv_mono) auto
  have "balanced ?r0 (fst (carrier_push bs now r))"
  proof (cases "parse_header bs")
    case (Ok h)
    note geo = parse_header_Ok(1) [OF Ok]
    have op: "balanced ?r0 (opened h now ?r0)" by (simp add: balanced_def opened_def)
    have new: "balanced ?r0 (fst (store_body h bs (opened h now ?r0)))"
      if "hm_get (cr_frames ?r0) (hd_id h) = None" "reserve_both (hd_total h) ?r0 \<noteq> None"
      using balanced_trans [OF op store_body_balanced [OF opened_inv [OF inv0 geo that] Ok insertI1
          opened_get same_geometry_fresh]] .
    have old: "balanced ?r0 (fst (store_body h bs ?r0))"
      if "hm_get (cr_frames ?r0) (hd_id h) = Some p" "same_geometry h p" for p
      using store_body_balanced [OF inv0 Ok insertI1 that] .
    show ?thesis
      using Ok new old retire_balanced [OF inv0]
      by (auto simp: carrier_push_eq Let_def split: option.split) (auto simp: balanced_def)
  qed (auto simp: carrier_push_eq Let_def)
  then show ?thesis using carrier_expire_balanced [OF inv, of now] balanced_trans by blast
qed

lemma carrier_clear_eq:
  assumes "carrier_inv H r"
  shows "carrier_inv H (carrier_clear r)" "balanced r (carrier_clear r)" "cr_buffered (carrier_clear r) = 0"
    "cr_retired (carrier_clear r) = cr_retired r"
proof -
  have drops: "bg_used (cr_process (fold (\<lambda>(_, p). drop_partial p) m s)) = bg_used (cr_process s) - hm_sum (pt_process \<circ> snd) m
      \<and> bg_used (cr_mesh (fold (\<lambda>(_, p). drop_partial p) m s)) = bg_used (cr_mesh s) - hm_sum (pt_mesh \<circ> snd) m
      \<and> bg_limit (cr_process (fold (\<lambda>(_, p). drop_partial p) m s)) = bg_limit (cr_process s)
      \<and> bg_limit (cr_mesh (fold (\<lambda>(_, p). drop_partial p) m s)) = bg_limit (cr_mesh s)
      \<and> cr_retired (fold (\<lambda>(_, p). drop_partial p) m s) = cr_retired s"
    for m :: "(nat \<times> partial) list" and s
    by (induction m arbitrary: s) (auto simp: drop_partial_def release_def)
  have "partial_ok H fid p" if "(fid, p) \<in> set (cr_frames r)" for fid p
    using assms that by (simp add: carrier_inv_def bmap_ok_distinct hm_get_Some_mem)
  then have "map (pt_process \<circ> snd) (cr_frames r) = map frame_bytes (cr_frames r)"
    "map (pt_mesh \<circ> snd) (cr_frames r) = map frame_bytes (cr_frames r)"
    by (fastforce simp: partial_ok_def)+
  then have own: "hm_sum (pt_process \<circ> snd) (cr_frames r) = cr_buffered r"
    "hm_sum (pt_mesh \<circ> snd) (cr_frames r) = cr_buffered r"
    using assms by (simp_all only: carrier_inv_def)
  show "carrier_inv H (carrier_clear r)" "balanced r (carrier_clear r)" "cr_buffered (carrier_clear r) = 0"
    "cr_retired (carrier_clear r) = cr_retired r"
    using assms own drops [of "cr_frames r" r]
    by (auto simp: carrier_clear_def carrier_inv_def balanced_def budget_covers_def)
qed

section \<open>Splitting and reassembling\<close>

fun push_all ::
    "(bytes \<times> nat) list \<Rightarrow> carrier_reassembler
     \<Rightarrow> carrier_reassembler \<times> (bytes option, io_error) outcome list" where
  "push_all [] r = (r, [])"
| "push_all ((bs, now) # rest) r =
     (let (r, out) = carrier_push bs now r; (r, outs) = push_all rest r in (r, out # outs))"

lemma push_all_Cons:
  "push_all ((bs, now) # rest) r =
    (fst (push_all rest (fst (carrier_push bs now r))),
     snd (carrier_push bs now r) # snd (push_all rest (fst (carrier_push bs now r))))"
  by (simp add: split_beta Let_def)

declare push_all.simps(2) [simp del]

text \<open>A partial frame that holds the chunks \<open>I\<close> of \<open>frame\<close>.\<close>

definition holds :: "bytes \<Rightarrow> nat \<Rightarrow> nat set \<Rightarrow> partial \<Rightarrow> bool" where
  "holds frame stride I p \<longleftrightarrow>
     length (pt_data p) = length frame \<and> pt_stride p = stride
     \<and> pt_count p = div_ceil (length frame) stride \<and> {n. bit (pt_seen p) n} = I
     \<and> (\<forall>k<length frame. k div stride \<in> I \<longrightarrow> pt_data p ! k = frame ! k)"

abbreviation part :: "nat \<Rightarrow> bytes \<Rightarrow> nat \<Rightarrow> nat \<Rightarrow> bytes" where
  "part fid frame stride i \<equiv>
     fragment_bytes (split_header fid frame stride i) (take stride (drop (i * stride) frame))"

lemma div_eq_iff: "0 < n \<Longrightarrow> k div n = (i :: nat) \<longleftrightarrow> i * n \<le> k \<and> k < i * n + n"
proof
  assume "0 < n" "k div n = i"
  then have "i * n + k mod n = k" "k mod n < n" using div_mult_mod_eq [of k n] by auto
  then show "i * n \<le> k \<and> k < i * n + n" by linarith
next
  assume "0 < n" "i * n \<le> k \<and> k < i * n + n"
  then show "k div n = i" by (intro div_nat_eqI) (simp_all add: mult.commute)
qed

lemma part_parses:
  assumes "0 < fid" "fid < 2 ^ 64" "length frame \<le> MAX_FRAME" "0 < stride" "stride \<le> MAX_FRAME"
    "div_ceil (length frame) stride \<le> MAX_FRAGMENTS" "i < div_ceil (length frame) stride"
  shows "parse_header (part fid frame stride i) = Ok (split_header fid frame stride i)"
proof -
  let ?h = "split_header fid frame stride i" and ?body = "take stride (drop (i * stride) frame)"
  have lt: "i * stride < length frame" using assms(4,7) less_div_ceil_iff by blast
  then have "geometry_valid (HEADER + length ?body) ?h"
    using assms by (auto simp: geometry_valid_def split_header_def min_def)
  moreover have "header_fits ?h"
    using assms by (simp add: header_fits_def split_header_def carrier_constants)
  moreover have "?body \<noteq> []" using lt assms(4) by simp
  ultimately show ?thesis by (intro parse_fragment_bytes)
qed

lemma holds_stored:
  assumes p: "holds frame stride I p" and s: "0 < stride" and i: "i * stride < length frame" "i < 64"
  shows "holds frame stride (insert i I) (stored (split_header fid frame stride i) (part fid frame stride i) p)"
proof -
  let ?h = "split_header fid frame stride i" and ?body = "take stride (drop (i * stride) frame)"
  let ?q = "stored ?h (part fid frame stride i) p"
  have len: "length (pt_data p) = length frame" using p by (simp add: holds_def)
  have fit: "i * stride + length ?body \<le> length (pt_data p)" using len i(1) by auto
  have data: "pt_data ?q = splice (pt_data p) (i * stride) ?body"
    by (simp add: stored_def split_header_def)
  have nth: "pt_data ?q ! k = frame ! k" if k: "k < length frame" "k div stride \<in> insert i I" for k
  proof (cases "k div stride = i")
    case True
    then have "i * stride \<le> k" "k < i * stride + stride" using s div_eq_iff by blast+
    moreover from this have "k < i * stride + length ?body" using k(1) by auto
    ultimately show ?thesis using k fit len by (simp add: data nth_splice)
  next
    case False
    then have "\<not> (i * stride \<le> k \<and> k < i * stride + length ?body)"
      using s div_eq_iff [of stride k i] by auto
    moreover have "pt_data p ! k = frame ! k" using k False p by (simp add: holds_def)
    ultimately show ?thesis using k fit len by (auto simp: data nth_splice)
  qed
  have "{n. bit (pt_seen ?q) n} = insert i {n. bit (pt_seen p) n}"
    using i(2) bit_stored [of ?h "part fid frame stride i" p] by (auto simp: split_header_def)
  then show ?thesis using p nth fit len unfolding holds_def data by (auto simp: stored_def)
qed

lemma holds_all:
  assumes "holds frame stride {..<div_ceil (length frame) stride} p" and "0 < stride"
  shows "pt_data p = frame"
proof -
  have "k div stride < div_ceil (length frame) stride" if "k < length frame" for k
    using that assms(2) less_div_ceil_iff [of stride "k div stride" "length frame"]
    by (metis div_times_less_eq_dividend le_less_trans)
  then show ?thesis using assms(1) by (intro nth_equalityI) (auto simp: holds_def)
qed

text \<open>One fragment into a reassembler that holds only this frame.\<close>

lemma store_part:
  assumes fr: "cr_frames r = [(fid, p)]" and p: "holds frame stride I p"
    and par: "parse_header (part fid frame stride i) = Ok (split_header fid frame stride i)"
    and s: "0 < stride" and i: "i < div_ceil (length frame) stride" "i \<notin> I"
    and c: "div_ceil (length frame) stride \<le> 64" and I: "I \<subseteq> {..<div_ceil (length frame) stride}"
  shows "\<exists>q. holds frame stride (insert i I) q \<and> pt_deadline q = pt_deadline p
    \<and> store_body (split_header fid frame stride i) (part fid frame stride i) r =
      (if insert i I = {..<div_ceil (length frame) stride}
       then (retire fid (r\<lparr>cr_frames := [(fid, q)]\<rparr>), Ok (Some frame))
       else (r\<lparr>cr_frames := [(fid, q)]\<rparr>, Ok None))"
proof -
  let ?h = "split_header fid frame stride i" and ?n = "div_ceil (length frame) stride"
  let ?q = "stored ?h (part fid frame stride i) p"
  have lt: "i * stride < length frame" using i(1) s less_div_ceil_iff by blast
  have q: "holds frame stride (insert i I) ?q" using holds_stored [OF p s lt] i(1) c by simp
  have get: "hm_get (cr_frames r) (hd_id ?h) = Some p" using fr by (simp add: split_header_def)
  have geo: "length (pt_data p) = hd_total ?h" using p by (simp add: holds_def split_header_def)
  have unseen: "\<not> bit (pt_seen p) (hd_index ?h)" using p i(2) by (auto simp: holds_def split_header_def)
  have fin: "finite (insert i I)" "insert i I \<subseteq> {..<?n}" using I i(1) finite_subset by auto
  have "count_ones (pt_seen ?q) = card (insert i I)" using q by (simp add: count_ones_card holds_def)
  moreover have "card (insert i I) = ?n \<longleftrightarrow> insert i I = {..<?n}"
    using fin card_subset_eq [of "{..<?n}" "insert i I"] by auto
  moreover have "pt_count ?q = ?n" using q by (simp add: holds_def)
  moreover have "pt_data ?q = frame" if "insert i I = {..<?n}" using q that s by (intro holds_all) simp_all
  moreover have "bmap_insert (hd_id ?h) ?q (cr_frames r) = [(fid, ?q)]" "hd_id ?h = fid"
    using fr by (simp_all add: split_header_def)
  ultimately have "store_body ?h (part fid frame stride i) r =
      (if insert i I = {..<?n} then (retire fid (r\<lparr>cr_frames := [(fid, ?q)]\<rparr>), Ok (Some frame))
       else (r\<lparr>cr_frames := [(fid, ?q)]\<rparr>, Ok None))"
    unfolding store_body_eq [OF get par geo] using unseen by (simp add: Let_def)
  then show ?thesis using q by (intro exI [of _ ?q]) (simp add: stored_def)
qed

lemma expire_idle:
  "cr_frames r = [(fid, p)] \<Longrightarrow> now < pt_deadline p \<Longrightarrow> \<not> retired_contains (cr_retired r) fid \<Longrightarrow>
   carrier_expire now r = r"
  "cr_frames r = [] \<Longrightarrow> carrier_expire now r = r"
  by (simp_all add: carrier_expire_def)

lemma push_rest:
  assumes ok: "retired_ok (cr_retired r)" and fr: "cr_frames r = [(fid, p)]" and p: "holds frame stride I p"
    and live: "\<not> retired_contains (cr_retired r) fid"
    and par: "\<And>i. i < n \<Longrightarrow> parse_header (part fid frame stride i) = Ok (split_header fid frame stride i)"
    and s: "0 < stride" and n: "n = div_ceil (length frame) stride" "n \<le> 64"
    and xs: "xs \<noteq> []" "distinct (map fst xs)" "set (map fst xs) = {..<n} - I" "I \<subseteq> {..<n}"
    and t: "\<forall>x\<in>set xs. snd x < pt_deadline p"
  shows "snd (push_all (map (\<lambda>(i, t). (part fid frame stride i, t)) xs) r)
      = replicate (length xs - 1) (Ok None) @ [Ok (Some frame)]
    \<and> cr_frames (fst (push_all (map (\<lambda>(i, t). (part fid frame stride i, t)) xs) r)) = []
    \<and> retired_contains (cr_retired (fst (push_all (map (\<lambda>(i, t). (part fid frame stride i, t)) xs) r))) fid"
  using fr p live xs t ok
proof (induction xs arbitrary: r p I)
  case Nil
  then show ?case by simp
next
  case (Cons x xs)
  obtain i now where x: "x = (i, now)" by (cases x)
  have i: "i < n" "i \<notin> I" using Cons.prems(6) x by auto
  let ?h = "split_header fid frame stride i"
  have idle: "carrier_expire now r = r"
    using expire_idle(1) [OF Cons.prems(1)] Cons.prems(3,8) x by simp
  have same: "same_geometry ?h p" "hd_id ?h = fid"
    using Cons.prems(2) by (simp_all add: same_geometry_def holds_def split_header_def)
  have push: "carrier_push (part fid frame stride i) now r = store_body ?h (part fid frame stride i) r"
    unfolding carrier_push_eq idle using par [OF i(1)] same Cons.prems(1,3) by (simp add: Let_def)
  obtain q where q: "holds frame stride (insert i I) q" "pt_deadline q = pt_deadline p"
    "store_body ?h (part fid frame stride i) r =
      (if insert i I = {..<n} then (retire fid (r\<lparr>cr_frames := [(fid, q)]\<rparr>), Ok (Some frame))
       else (r\<lparr>cr_frames := [(fid, q)]\<rparr>, Ok None))"
    using store_part [OF Cons.prems(1,2) par [OF i(1)] s] i n Cons.prems(7) by auto
  have rest: "set (map fst xs) = {..<n} - insert i I" "insert i I \<subseteq> {..<n}"
    using Cons.prems(5,6,7) x i by auto
  show ?case
  proof (cases "xs = []")
    case True
    then have "insert i I = {..<n}" using rest by auto
    then show ?thesis
      using True x push q(3) Cons.prems(9) by (simp add: push_all_Cons retired_contains_insert)
  next
    case False
    then have ne: "insert i I \<noteq> {..<n}" using rest by auto
    let ?r = "r\<lparr>cr_frames := [(fid, q)]\<rparr>"
    have "snd (push_all (map (\<lambda>(i, t). (part fid frame stride i, t)) xs) ?r)
        = replicate (length xs - 1) (Ok None) @ [Ok (Some frame)]
      \<and> cr_frames (fst (push_all (map (\<lambda>(i, t). (part fid frame stride i, t)) xs) ?r)) = []
      \<and> retired_contains (cr_retired (fst (push_all (map (\<lambda>(i, t). (part fid frame stride i, t)) xs) ?r))) fid"
      using Cons.prems False rest q(1,2) by (intro Cons.IH [of ?r q "insert i I"]) auto
    moreover have "replicate (length xs) (Ok None :: (bytes option, io_error) outcome)
        = Ok None # replicate (length xs - 1) (Ok None)"
      using False by (cases xs) simp_all
    ultimately show ?thesis
      using x push q(3) ne by (simp add: push_all_Cons)
  qed
qed

text \<open>The first fragment opens the frame.\<close>

lemma push_first:
  assumes inv: "carrier_inv H r" and fr: "cr_frames r = []"
    and live: "\<not> retired_contains (cr_retired r) fid"
    and room: "reserve_both (length frame) r \<noteq> None"
    and par: "parse_header (part fid frame stride i) = Ok (split_header fid frame stride i)"
  shows "carrier_push (part fid frame stride i) now r =
      store_body (split_header fid frame stride i) (part fid frame stride i)
        (opened (split_header fid frame stride i) now r)"
    "cr_frames (opened (split_header fid frame stride i) now r)
      = [(fid, fresh_partial (split_header fid frame stride i) now)]"
    "holds frame stride {} (fresh_partial (split_header fid frame stride i) now)"
proof -
  let ?h = "split_header fid frame stride i"
  have "hd_id ?h = fid" "hd_total ?h = length frame" by (simp_all add: split_header_def)
  then show "carrier_push (part fid frame stride i) now r =
      store_body ?h (part fid frame stride i) (opened ?h now r)"
    unfolding carrier_push_eq expire_idle(2) [OF fr] using par live room fr by (auto simp: Let_def)
  show "cr_frames (opened ?h now r) = [(fid, fresh_partial ?h now)]"
    using fr by (simp add: opened_def split_header_def)
  show "holds frame stride {} (fresh_partial ?h now)"
    by (simp add: holds_def fresh_partial_def split_header_def)
qed

lemma push_parts_in_any_order:
  assumes inv: "carrier_inv H r" and fr: "cr_frames r = []"
    and live: "\<not> retired_contains (cr_retired r) fid" and room: "reserve_both (length frame) r \<noteq> None"
    and par: "\<And>i. i < n \<Longrightarrow> parse_header (part fid frame stride i) = Ok (split_header fid frame stride i)"
    and s: "0 < stride" and n: "n = div_ceil (length frame) stride" "n \<le> 64"
    and xs: "xs \<noteq> []" "distinct (map fst xs)" "set (map fst xs) = {..<n}"
    and t: "\<forall>x\<in>set xs. snd x < snd (hd xs) + LIFETIME"
  shows "snd (push_all (map (\<lambda>(i, t). (part fid frame stride i, t)) xs) r)
      = replicate (length xs - 1) (Ok None) @ [Ok (Some frame)]
    \<and> cr_frames (fst (push_all (map (\<lambda>(i, t). (part fid frame stride i, t)) xs) r)) = []
    \<and> retired_contains (cr_retired (fst (push_all (map (\<lambda>(i, t). (part fid frame stride i, t)) xs) r))) fid"
proof -
  obtain i now rest where x: "xs = (i, now) # rest" using xs(1) by (cases xs) auto
  have i: "i < n" using xs(3) x by auto
  let ?h = "split_header fid frame stride i"
  note first = push_first [OF inv fr live room par [OF i], of now]
  let ?r1 = "opened ?h now r"
  have ok: "retired_ok (cr_retired ?r1)" "\<not> retired_contains (cr_retired ?r1) fid"
    using inv live by (simp_all add: opened_def carrier_inv_def)
  obtain q where q: "holds frame stride {i} q" "pt_deadline q = now + LIFETIME"
    "store_body ?h (part fid frame stride i) ?r1 =
      (if {i} = {..<n} then (retire fid (?r1\<lparr>cr_frames := [(fid, q)]\<rparr>), Ok (Some frame))
       else (?r1\<lparr>cr_frames := [(fid, q)]\<rparr>, Ok None))"
    using store_part [OF first(2,3) par [OF i] s] i n by (auto simp: fresh_partial_def)
  have rest: "set (map fst rest) = {..<n} - {i}" "distinct (map fst rest)" using xs(2,3) x by auto
  show ?thesis
  proof (cases "rest = []")
    case True
    then have "{i} = {..<n}" using rest i by auto
    then show ?thesis using True x first(1) q(3) ok by (simp add: push_all_Cons retired_contains_insert)
  next
    case False
    then have ne: "{i} \<noteq> {..<n}" using rest by auto
    let ?r = "?r1\<lparr>cr_frames := [(fid, q)]\<rparr>"
    have "snd (push_all (map (\<lambda>(i, t). (part fid frame stride i, t)) rest) ?r)
        = replicate (length rest - 1) (Ok None) @ [Ok (Some frame)]
      \<and> cr_frames (fst (push_all (map (\<lambda>(i, t). (part fid frame stride i, t)) rest) ?r)) = []
      \<and> retired_contains (cr_retired (fst (push_all (map (\<lambda>(i, t). (part fid frame stride i, t)) rest) ?r))) fid"
      using ok q(1,2) par s n False rest i t x by (intro push_rest [where p = q and I = "{i}" and n = n]) auto
    moreover have "replicate (length rest) (Ok None :: (bytes option, io_error) outcome)
        = Ok None # replicate (length rest - 1) (Ok None)"
      using False by (cases rest) simp_all
    ultimately show ?thesis using x first(1) q(3) ne by (simp add: push_all_Cons)
  qed
qed

section \<open>Properties\<close>

text \<open>
  Every history of one connection.  \<open>H\<close> collects the datagrams submitted, \<open>D\<close> the
  identifiers delivered.  The last rule lets the other holders of the two shared budgets reserve and
  release, which leaves this connection's own reservations in place.
\<close>

definition delivered_id :: "bytes \<Rightarrow> (bytes option, io_error) outcome \<Rightarrow> nat set" where
  "delivered_id bs out =
     (case (out, parse_header bs) of (Ok (Some _), Ok h) \<Rightarrow> {hd_id h} | _ \<Rightarrow> {})"

inductive carrier_reachable :: "bytes set \<Rightarrow> nat set \<Rightarrow> carrier_reassembler \<Rightarrow> bool" where
  carrier_start: "bg_used process \<le> bg_limit process \<Longrightarrow> bg_used mesh \<le> bg_limit mesh \<Longrightarrow>
    carrier_reachable {} {} (carrier_new process mesh)"
| carrier_pushed: "carrier_reachable H D r \<Longrightarrow>
    carrier_reachable (insert bs H) (D \<union> delivered_id bs (snd (carrier_push bs now r)))
      (fst (carrier_push bs now r))"
| carrier_expired: "carrier_reachable H D r \<Longrightarrow> carrier_reachable H D (carrier_expire now r)"
| carrier_cleared: "carrier_reachable H D r \<Longrightarrow> carrier_reachable H D (carrier_clear r)"
| carrier_others: "carrier_reachable H D r \<Longrightarrow> budget_covers (cr_buffered r) process \<Longrightarrow>
    budget_covers (cr_buffered r) mesh \<Longrightarrow>
    carrier_reachable H D (r\<lparr>cr_process := process, cr_mesh := mesh\<rparr>)"

lemma carrier_reachable_inv:
  "carrier_reachable H D r \<Longrightarrow> carrier_inv H r \<and> (\<forall>fid\<in>D. retired_contains (cr_retired r) fid)"
proof (induction rule: carrier_reachable.induct)
  case (carrier_start process mesh)
  then show ?case by (simp add: carrier_new_inv)
next
  case (carrier_pushed H D r bs now)
  then have inv: "carrier_inv H r" by simp
  have "retired_contains (cr_retired (fst (carrier_push bs now r))) fid"
    if del: "fid \<in> delivered_id bs (snd (carrier_push bs now r))" for fid
  proof -
    obtain x h where x: "snd (carrier_push bs now r) = Ok (Some x)" "parse_header bs = Ok h" "fid = hd_id h"
      using del by (auto simp: delivered_id_def split: outcome.splits option.splits)
    then have "carrier_push bs now r = (fst (carrier_push bs now r), Ok (Some x))"
      by (metis prod.collapse)
    from carrier_push_delivers [OF inv this] x show ?thesis by auto
  qed
  then show ?case
    using carrier_pushed carrier_push_inv(1) [OF inv] carrier_push_contains [OF inv] by auto
next
  case (carrier_expired H D r now)
  then have inv: "carrier_inv H r" by simp
  moreover from this have "retired_ok (cr_retired r)" by (simp add: carrier_inv_def)
  ultimately show ?case
    using carrier_expired carrier_expire_inv [OF inv] carrier_expire_contains [of r] by simp
next
  case (carrier_cleared H D r)
  then show ?case using carrier_clear_eq [of H r] by simp
next
  case (carrier_others H D r process mesh)
  then show ?case by (auto simp: carrier_inv_def)
qed

text \<open>The witnesses use a frame of three bytes on a path whose datagrams carry two.\<close>

definition sample_budget :: budget where
  "sample_budget = budget_new 100"

definition sample_carrier :: carrier_reassembler where
  "sample_carrier = carrier_new sample_budget sample_budget"

definition sample_part :: "nat \<Rightarrow> bytes" where
  "sample_part i = [80, 87, 81, 49, 0, 0, 0, 0, 0, 0, 0, 7, 0, 0, 0, 3, 0, 2, 0, word_of_nat i, 0, 2, 0, 0]
     @ (if i = 0 then [11, 12] else [13])"

lemma sample_split: "split_frame 7 [11, 12, 13] 26 = Ok [sample_part 0, sample_part 1]"
  by (simp add: split_frame_def carrier_constants div_ceil_def try_below_def chunks.simps encode_fragment_def
      sample_part_def to_be_numeral)

lemma sample_carrier_reachable: "carrier_reachable {} {} sample_carrier"
  unfolding sample_carrier_def by (rule carrier_start) (simp_all add: sample_budget_def budget_new_def)

lemma sample_carrier_inv: "carrier_inv {} sample_carrier"
  using carrier_reachable_inv [OF sample_carrier_reachable] by simp

lemma split_then_push:
  assumes split: "split_frame fid frame limit = Ok parts" and "fid < 2 ^ 64"
    and "carrier_inv H r" and "cr_frames r = []" and "\<not> retired_contains (cr_retired r) fid"
    and "reserve_both (length frame) r \<noteq> None"
    and order: "distinct (map fst xs)" "set (map fst xs) = {..<length parts}"
    and "\<forall>x\<in>set xs. snd x < snd (hd xs) + LIFETIME"
  shows "snd (push_all (map (\<lambda>(i, t). (parts ! i, t)) xs) r)
      = replicate (length xs - 1) (Ok None) @ [Ok (Some frame)]
    \<and> cr_frames (fst (push_all (map (\<lambda>(i, t). (parts ! i, t)) xs) r)) = []
    \<and> retired_contains (cr_retired (fst (push_all (map (\<lambda>(i, t). (parts ! i, t)) xs) r))) fid"
proof -
  let ?stride = "min (limit - HEADER) MAX_FRAME"
  let ?n = "div_ceil (length frame) ?stride"
  note ok = split_frame_Ok [OF split]
  have len: "length parts = ?n" using ok(6) by simp
  have nth: "parts ! i = part fid frame ?stride i" if "i < ?n" for i
    using that by (subst ok(6)) simp
  have eq: "map (\<lambda>(i, t). (parts ! i, t)) xs = map (\<lambda>(i, t). (part fid frame ?stride i, t)) xs"
  proof (rule map_cong [OF refl])
    fix x assume "x \<in> set xs"
    then have "fst x < ?n" using order(2) len by (metis imageI lessThan_iff set_map)
    then show "(\<lambda>(i, t). (parts ! i, t)) x = (\<lambda>(i, t). (part fid frame ?stride i, t)) x"
      using nth by (cases x) simp
  qed
  have par: "parse_header (part fid frame ?stride i) = Ok (split_header fid frame ?stride i)"
    if "i < ?n" for i
    using part_parses ok assms(2) that by simp
  have "0 < ?n" using ok(2,4) by (simp add: div_ceil_pos)
  then have ne: "xs \<noteq> []" using order(2) len by auto
  have n: "?n \<le> 64" using ok(5) by (simp add: MAX_FRAGMENTS_def)
  show ?thesis unfolding eq
    using order(2) len assms(9)
    by (intro push_parts_in_any_order [OF assms(3-6) par ok(4) refl n ne order(1)]) simp_all
qed

text \<open>(C30) A frame survives fragmentation: when \<open>split\<close> accepts a frame, submitting its datagrams in
  any order, the last one less than the lifetime after the first, to a reassembler with room, no other
  frame in progress and an identifier that is not retired yields nothing until the last datagram, which
  yields exactly the frame; afterwards nothing is buffered and the identifier is retired.\<close>

theorem split_push_roundtrip:
  assumes split: "split_frame fid frame limit = Ok parts" and "fid < 2 ^ 64"
    and "carrier_inv H r" and "cr_frames r = []" and "\<not> retired_contains (cr_retired r) fid"
    and "reserve_both (length frame) r \<noteq> None"
    and order: "distinct (map fst xs)" "set (map fst xs) = {..<length parts}"
    and "\<forall>x\<in>set xs. snd x < snd (hd xs) + LIFETIME"
  shows "snd (push_all (map (\<lambda>(i, t). (parts ! i, t)) xs) r)
      = replicate (length xs - 1) (Ok None) @ [Ok (Some frame)]
    \<and> cr_frames (fst (push_all (map (\<lambda>(i, t). (parts ! i, t)) xs) r)) = []
    \<and> retired_contains (cr_retired (fst (push_all (map (\<lambda>(i, t). (parts ! i, t)) xs) r))) fid"
  using assms by (rule split_then_push)

lemma sample_carrier_idle:
  "cr_frames sample_carrier = []" "\<not> retired_contains (cr_retired sample_carrier) 7"
  "reserve_both (length [11, 12, 13 :: u8]) sample_carrier \<noteq> None"
  by (simp_all add: sample_carrier_def carrier_new_def retired_contains_def retired_default_def
      reserve_both_def reserve_def checked_add_def u64_max_def sample_budget_def budget_new_def
      carrier_constants)

theorem split_push_roundtrip_witness:
  "snd (push_all [(sample_part 1, 5), (sample_part 0, 9)] sample_carrier)
    = [Ok None, Ok (Some [11, 12, 13])]"
  using split_push_roundtrip [OF sample_split _ sample_carrier_inv sample_carrier_idle,
      where xs = "[(1, 5), (0, 9)]"]
  by (simp add: LIFETIME_def lessThan_Suc insert_commute)

text \<open>(C7) Deliveries are authentic and happen once: over every history of submissions, expirations, clears
  and foreign budget use, a delivered frame carries an identifier that was never delivered before, and
  each of its chunks is the body of a submitted datagram whose header names that identifier, the frame's
  length, stride and count, and the chunk's index.\<close>

theorem delivery_authentic_once:
  assumes "carrier_reachable H D r" and "carrier_push bs now r = (r', Ok (Some data))"
  shows "\<exists>h. parse_header bs = Ok h \<and> hd_id h \<notin> D \<and> length data = hd_total h
    \<and> (\<forall>i<hd_count h. \<exists>b\<in>insert bs H. parse_header b = Ok (h\<lparr>hd_index := i\<rparr>)
        \<and> take (length b - HEADER) (drop (i * hd_stride h) data) = drop HEADER b)"
proof -
  have inv: "carrier_inv H r" and once: "\<forall>fid\<in>D. retired_contains (cr_retired r) fid"
    using carrier_reachable_inv [OF assms(1)] by auto
  obtain h p where h: "parse_header bs = Ok h" "pt_data p = data" "same_geometry h p"
    "\<forall>i<hd_count h. received (insert bs H) (hd_id h) p i"
    "\<not> retired_contains (cr_retired (carrier_expire now r)) (hd_id h)"
    using carrier_push_delivers [OF inv assms(2)] by metis
  have "hd_id h \<notin> D"
    using once h(5) carrier_expire_contains [of r "hd_id h" now] inv by (auto simp: carrier_inv_def)
  moreover have "\<lparr>hd_id = hd_id h, hd_total = length (pt_data p), hd_stride = pt_stride p, hd_index = i,
      hd_count = pt_count p\<rparr> = h\<lparr>hd_index := i\<rparr>" for i
    using h(3) by (cases h) (simp add: same_geometry_def)
  ultimately show ?thesis using h unfolding received_def same_geometry_def by metis
qed

lemma sample_delivery:
  "\<exists>r'. carrier_push (sample_part 0) 9 (fst (carrier_push (sample_part 1) 5 sample_carrier))
    = (r', Ok (Some [11, 12, 13]))"
  using split_then_push [OF sample_split _ sample_carrier_inv sample_carrier_idle,
      where xs = "[(1, 5), (0, 9)]"]
  by (auto simp: LIFETIME_def lessThan_Suc insert_commute push_all_Cons prod_eq_iff)

theorem delivery_authentic_once_witness:
  "\<exists>h. parse_header (sample_part 0) = Ok h \<and> length [11, 12, 13 :: u8] = hd_total h
    \<and> (\<forall>i<hd_count h. \<exists>b\<in>{sample_part 0, sample_part 1}. parse_header b = Ok (h\<lparr>hd_index := i\<rparr>)
        \<and> take (length b - HEADER) (drop (i * hd_stride h) [11, 12, 13]) = drop HEADER b)"
proof -
  obtain r' where "carrier_push (sample_part 0) 9 (fst (carrier_push (sample_part 1) 5 sample_carrier))
      = (r', Ok (Some [11, 12, 13]))"
    using sample_delivery by blast
  from delivery_authentic_once [OF carrier_pushed [OF sample_carrier_reachable] this]
  show ?thesis by blast
qed

text \<open>(C31) The memory bounds of a connection: over every history at most 32 frames and 256 KiB are
  buffered, the counter equals the bytes held, the replay bitmap keeps its sixteen words, the connection's
  reservations are covered by both budgets, whose limits are never exceeded; a submission never panics and
  moves both budgets by exactly the change in buffered bytes.\<close>

theorem carrier_bounds:
  assumes "carrier_reachable H D r"
  shows "length (cr_frames r) \<le> 32 \<and> cr_buffered r \<le> 262144
    \<and> cr_buffered r = hm_sum (\<lambda>(_, p). length (pt_data p)) (cr_frames r)
    \<and> length (rt_bits (cr_retired r)) = 16
    \<and> cr_buffered r \<le> bg_used (cr_process r) \<and> bg_used (cr_process r) \<le> bg_limit (cr_process r)
    \<and> cr_buffered r \<le> bg_used (cr_mesh r) \<and> bg_used (cr_mesh r) \<le> bg_limit (cr_mesh r)
    \<and> snd (carrier_push bs now r) \<noteq> Abort \<and> balanced r (fst (carrier_push bs now r))
    \<and> balanced r (carrier_expire now r) \<and> balanced r (carrier_clear r)"
proof -
  have inv: "carrier_inv H r" using carrier_reachable_inv [OF assms] by simp
  then have "length (cr_frames r) \<le> 32" "cr_buffered r \<le> 262144"
    "cr_buffered r = hm_sum (\<lambda>(_, p). length (pt_data p)) (cr_frames r)"
    "length (rt_bits (cr_retired r)) = 16"
    "cr_buffered r \<le> bg_used (cr_process r)" "bg_used (cr_process r) \<le> bg_limit (cr_process r)"
    "cr_buffered r \<le> bg_used (cr_mesh r)" "bg_used (cr_mesh r) \<le> bg_limit (cr_mesh r)"
    by (simp_all add: carrier_inv_def budget_covers_def retired_ok_def MAX_INCOMPLETE_def MAX_BUFFERED_def)
  then show ?thesis
    using carrier_push_inv(2) [OF inv] carrier_push_balanced [OF inv] carrier_expire_balanced [OF inv]
      carrier_clear_eq(2) [OF inv] by blast
qed

theorem carrier_bounds_witness:
  "length (cr_frames sample_carrier) \<le> 32 \<and> cr_buffered sample_carrier \<le> 262144
    \<and> snd (carrier_push (sample_part 0) 5 sample_carrier) \<noteq> Abort"
  using carrier_bounds [OF sample_carrier_reachable, of "sample_part 0" 5] by simp

text \<open>The bitmap of the replay horizon is a set with a moving floor: after retiring an identifier, an
  identifier counts as retired exactly when it is that one, was retired before, or lies 1024 or more below
  the newly retired one.\<close>

theorem retired_horizon_exact:
  assumes "length (rt_bits r) = 16"
  shows "length (rt_bits (retired_insert fid r)) = 16
    \<and> (retired_contains (retired_insert fid r) x \<longleftrightarrow>
        x = fid \<or> retired_contains r x \<or> x + 1024 \<le> fid)"
  using retired_contains_insert [of r fid x] retired_ok_insert [of r fid] assms by (simp add: retired_ok_def)

theorem retired_horizon_exact_witness:
  "\<not> retired_contains (retired_insert 70 (retired_insert 3 retired_default)) 69
    \<and> retired_contains (retired_insert 70 (retired_insert 3 retired_default)) 3"
proof -
  have d: "length (rt_bits retired_default) = 16" "\<not> retired_contains retired_default 69"
    by (simp_all add: retired_default_def retired_contains_def)
  note one = retired_horizon_exact [OF d(1), of 3]
  note two = retired_horizon_exact [OF conjunct1 [OF one], of 70]
  show ?thesis using one [of 69] one [of 3] two [of 69] two [of 3] d(2) by simp
qed

text \<open>Fragments on the wire: every datagram that \<open>split\<close> produces fits the path limit, parses
  back to the frame's identifier, length, stride and its own position, and the bodies concatenate to the
  frame; a header that parses is the unique encoding of its fields.\<close>

theorem split_frame_wire:
  assumes "split_frame fid frame limit = Ok parts" and "fid < 2 ^ 64"
  shows "length parts \<le> 64 \<and> concat (map (drop HEADER) parts) = frame
    \<and> (\<forall>i<length parts. length (parts ! i) \<le> limit
        \<and> parse_header (parts ! i) = Ok \<lparr>hd_id = fid, hd_total = length frame,
            hd_stride = min (limit - HEADER) MAX_FRAME, hd_index = i, hd_count = length parts\<rparr>)"
proof -
  let ?s = "min (limit - HEADER) MAX_FRAME"
  let ?n = "div_ceil (length frame) ?s"
  note ok = split_frame_Ok [OF assms(1)]
  have len: "length parts = ?n" using ok(6) by simp
  have nth: "parts ! i = part fid frame ?s i" if "i < ?n" for i using that by (subst ok(6)) simp
  have "map (drop HEADER) parts = map (\<lambda>i. take ?s (drop (i * ?s) frame)) [0..<?n]"
    by (subst ok(6)) simp
  also have "\<dots> = chunks ?s frame"
    using ok(4) less_div_ceil_iff [OF ok(4), of _ "length frame"]
    by (intro nth_equalityI) (simp_all add: length_chunks nth_chunks)
  finally have "concat (map (drop HEADER) parts) = frame" using ok(4) by (simp add: concat_chunks)
  moreover have "length (parts ! i) \<le> limit \<and> parse_header (parts ! i) = Ok (split_header fid frame ?s i)"
    if "i < ?n" for i
  proof
    have "length (take ?s (drop (i * ?s) frame)) \<le> ?s" by (simp only: length_take min.cobounded2)
    moreover have "HEADER + ?s \<le> limit" using ok(4) by (auto simp: min_def)
    ultimately show "length (parts ! i) \<le> limit"
      unfolding nth [OF that] length_fragment_bytes by linarith
    show "parse_header (parts ! i) = Ok (split_header fid frame ?s i)"
      using nth [OF that] part_parses ok assms(2) that by simp
  qed
  ultimately show ?thesis using len ok(5) by (auto simp: split_header_def MAX_FRAGMENTS_def)
qed

theorem split_frame_wire_witness:
  "concat (map (drop HEADER) [sample_part 0, sample_part 1]) = [11, 12, 13]
    \<and> length (sample_part 0) \<le> 26"
  using split_frame_wire [OF sample_split] by (auto dest: spec [of _ 0])

end
