(* ===== verification/PolicyDocument.thy ===== *)
theory PolicyDocument
  imports Packet
begin

text \<open>
  Policy documents, \<open>crates/peerward-policy/src/document.rs\<close>, with the protocol selectors of
  \<open>crates/peerward-types/src/protocol.rs\<close>: selectors, rules, the ordering of a policy, the
  decision for a new initiation, and the canonical binary encoding with its decoder.

  Networks are values of the \<open>ipnet\<close> crate and identifiers are UUIDs of the \<open>uuid\<close>
  crate; what the code calls of them is the record \<open>policy_env\<close>, a parameter of every
  definition that uses it.  Strings are their UTF-8 bytes, ordered as bytes.
\<close>

section \<open>Protocols\<close>

datatype policy_protocol = Any | Tcp | Udp | Icmp

type_synonym ip_protocol = u8

definition is_icmp :: "ip_protocol \<Rightarrow> bool" where
  "is_icmp p \<longleftrightarrow> p = 1 \<or> p = 58"

fun protocol_matches :: "policy_protocol \<Rightarrow> ip_protocol \<Rightarrow> bool" where
  "protocol_matches Any actual = True"
| "protocol_matches Tcp actual = (actual = 6)"
| "protocol_matches Udp actual = (actual = 17)"
| "protocol_matches Icmp actual = is_icmp actual"

section \<open>Data\<close>

datatype policy_error = InvalidPortRange | RevisionRollback | InvalidEncoding

datatype policy_action = PAllow | PDeny

definition MAX_LABELS :: nat where "MAX_LABELS = 64"
definition MAX_POLICY_RULES :: nat where "MAX_POLICY_RULES = 1024"
definition MAX_SELECTOR_PEERS :: nat where "MAX_SELECTOR_PEERS = 1024"
definition MAX_SELECTOR_CIDRS :: nat where "MAX_SELECTOR_CIDRS = 256"
definition MAX_PORT_SPANS :: nat where "MAX_PORT_SPANS = 256"

lemmas policy_limits = MAX_LABELS_def MAX_POLICY_RULES_def MAX_SELECTOR_PEERS_def
  MAX_SELECTOR_CIDRS_def MAX_PORT_SPANS_def

definition POLICY_DOCUMENT_DOMAIN :: bytes where
  "POLICY_DOCUMENT_DOMAIN = map (\<lambda>c. word_of_nat (of_char c)) ''peerward/policy-document/v2'' @ [0]"

record 'net policy_env =
  pe_contains :: "'net \<Rightarrow> ip_addr \<Rightarrow> bool"
  pe_is_v6 :: "'net \<Rightarrow> bool"
  pe_network :: "'net \<Rightarrow> bytes"
  pe_prefix_len :: "'net \<Rightarrow> u8"
  pe_new4 :: "bytes \<Rightarrow> u8 \<Rightarrow> 'net option"
  pe_new6 :: "bytes \<Rightarrow> u8 \<Rightarrow> 'net option"
  pe_uuid_v4 :: "uuid \<Rightarrow> bool"

record peer_descriptor =
  pd_id :: uuid
  pd_address :: ip_addr
  pd_labels :: "(bytes \<times> bytes) list"

record 'net selector =
  sl_peer_ids :: "uuid list"
  sl_labels :: "(bytes \<times> bytes) list"
  sl_cidrs :: "'net list"

record port_range =
  pr_first :: u16
  pr_last :: u16

record 'net policy_rule =
  ru_id :: uuid
  ru_priority :: u32
  ru_enabled :: bool
  ru_log :: bool
  ru_action :: policy_action
  ru_source :: "'net selector"
  ru_destination :: "'net selector"
  ru_protocol :: policy_protocol
  ru_destination_ports :: "port_range list"

record initiation_decision =
  pn_action :: policy_action
  pn_rule_id :: "uuid option"
  pn_log :: bool

record 'net policy =
  po_revision :: nat
  po_default :: policy_action
  po_rules :: "'net policy_rule list"

section \<open>Selectors\<close>

definition selector_any :: "'net selector" where
  "selector_any = \<lparr>sl_peer_ids = [], sl_labels = [], sl_cidrs = []\<rparr>"

definition selector_peer :: "uuid \<Rightarrow> 'net selector" where
  "selector_peer peer = \<lparr>sl_peer_ids = [peer], sl_labels = [], sl_cidrs = []\<rparr>"

definition selector_labels :: "(bytes \<times> bytes) list \<Rightarrow> 'net selector" where
  "selector_labels labels = \<lparr>sl_peer_ids = [], sl_labels = labels, sl_cidrs = []\<rparr>"

definition selector_cidr :: "'net \<Rightarrow> 'net selector" where
  "selector_cidr network = \<lparr>sl_peer_ids = [], sl_labels = [], sl_cidrs = [network]\<rparr>"

text \<open>\<open>sort_unstable\<close> followed by \<open>dedup\<close>.\<close>

definition sort_dedup :: "'a::linorder list \<Rightarrow> 'a list" where
  "sort_dedup xs = remdups_adj (sort xs)"

definition selector_new ::
    "uuid list \<Rightarrow> (bytes \<times> bytes) list \<Rightarrow> 'net::linorder list \<Rightarrow> 'net selector" where
  "selector_new peer_ids labels cidrs =
     \<lparr>sl_peer_ids = fold bset_insert peer_ids [], sl_labels = labels, sl_cidrs = sort_dedup cidrs\<rparr>"

definition selector_matches :: "'net policy_env \<Rightarrow> 'net selector \<Rightarrow> peer_descriptor \<Rightarrow> bool" where
  "selector_matches env sel peer \<longleftrightarrow>
     (sl_peer_ids sel = [] \<or> pd_id peer \<in> set (sl_peer_ids sel))
     \<and> (\<forall>(key, value) \<in> set (sl_labels sel). map_of (pd_labels peer) key = Some value)
     \<and> (sl_cidrs sel = [] \<or> (\<exists>network \<in> set (sl_cidrs sel). pe_contains env network (pd_address peer)))"

definition port_range_new :: "u16 \<Rightarrow> u16 \<Rightarrow> (port_range, policy_error) outcome" where
  "port_range_new first_port last_port =
     (if first_port = 0 \<or> last_port < first_port then Err InvalidPortRange
      else Ok \<lparr>pr_first = first_port, pr_last = last_port\<rparr>)"

definition port_range_contains :: "port_range \<Rightarrow> u16 \<Rightarrow> bool" where
  "port_range_contains span port \<longleftrightarrow> pr_first span \<le> port \<and> port \<le> pr_last span"

section \<open>Policies\<close>

fun action_order :: "policy_action \<Rightarrow> nat" where
  "action_order PDeny = 0"
| "action_order PAllow = 1"

definition port_key :: "port_range \<Rightarrow> u16 \<times> u16" where
  "port_key ports = (pr_first ports, pr_last ports)"

definition normalize_rule :: "'net::linorder policy_rule \<Rightarrow> 'net policy_rule" where
  "normalize_rule rule =
     rule\<lparr>ru_source := (ru_source rule)\<lparr>sl_cidrs := sort_dedup (sl_cidrs (ru_source rule))\<rparr>,
       ru_destination := (ru_destination rule)\<lparr>sl_cidrs := sort_dedup (sl_cidrs (ru_destination rule))\<rparr>,
       ru_destination_ports := remdups_adj (sort_key port_key (ru_destination_ports rule))\<rparr>"

definition rule_key :: "'net policy_rule \<Rightarrow> u32 \<times> nat \<times> uuid" where
  "rule_key rule = (ru_priority rule, action_order (ru_action rule), ru_id rule)"

definition policy_new ::
    "nat \<Rightarrow> policy_action \<Rightarrow> 'net::linorder policy_rule list \<Rightarrow> 'net policy" where
  "policy_new revision default_action rules =
     \<lparr>po_revision = revision, po_default = default_action,
      po_rules = sort_key rule_key (map normalize_rule rules)\<rparr>"

definition rule_applies ::
    "'net policy_env \<Rightarrow> peer_descriptor \<Rightarrow> peer_descriptor \<Rightarrow> ip_protocol \<Rightarrow> u16 option
     \<Rightarrow> 'net policy_rule \<Rightarrow> bool" where
  "rule_applies env source destination protocol destination_port rule \<longleftrightarrow>
     \<not> (\<not> ru_enabled rule \<or> \<not> protocol_matches (ru_protocol rule) protocol
        \<or> \<not> selector_matches env (ru_source rule) source
        \<or> \<not> selector_matches env (ru_destination rule) destination)
     \<and> (if ru_protocol rule = Tcp \<or> ru_protocol rule = Udp then
          ru_destination_ports rule = []
          \<or> (case destination_port of None \<Rightarrow> False
             | Some port \<Rightarrow> \<exists>span \<in> set (ru_destination_ports rule). port_range_contains span port)
        else True)"

fun decide_rules ::
    "'net policy_env \<Rightarrow> policy_action \<Rightarrow> peer_descriptor \<Rightarrow> peer_descriptor \<Rightarrow> ip_protocol \<Rightarrow> u16 option
     \<Rightarrow> 'net policy_rule list \<Rightarrow> initiation_decision" where
  "decide_rules env default_action source destination protocol destination_port [] =
     \<lparr>pn_action = default_action, pn_rule_id = None, pn_log = False\<rparr>"
| "decide_rules env default_action source destination protocol destination_port (rule # rules) =
     (if rule_applies env source destination protocol destination_port rule
      then \<lparr>pn_action = ru_action rule, pn_rule_id = Some (ru_id rule), pn_log = ru_log rule\<rparr>
      else decide_rules env default_action source destination protocol destination_port rules)"

definition decide_initiation ::
    "'net policy_env \<Rightarrow> 'net policy \<Rightarrow> peer_descriptor \<Rightarrow> peer_descriptor \<Rightarrow> ip_protocol \<Rightarrow> u16 option
     \<Rightarrow> initiation_decision" where
  "decide_initiation env policy source destination protocol destination_port =
     decide_rules env (po_default policy) source destination protocol destination_port (po_rules policy)"

section \<open>Encoding\<close>

fun action_tag :: "policy_action \<Rightarrow> u8" where
  "action_tag PAllow = 1"
| "action_tag PDeny = 2"

fun protocol_tag :: "policy_protocol \<Rightarrow> u8" where
  "protocol_tag Any = 0"
| "protocol_tag Tcp = 6"
| "protocol_tag Udp = 17"
| "protocol_tag Icmp = 1"

definition put_u32 :: "nat \<Rightarrow> (bytes, policy_error) outcome" where
  "put_u32 n = (if n < 2 ^ 32 then Ok (to_be 4 n) else Err InvalidEncoding)"

definition put_text :: "bytes \<Rightarrow> (bytes, policy_error) outcome" where
  "put_text text = and_then (put_u32 (length text)) (\<lambda>len. Ok (len @ text))"

text \<open>Appending to the output in sequence: each step yields its bytes or the error.\<close>

fun concat_results :: "(bytes, 'e) outcome list \<Rightarrow> (bytes, 'e) outcome" where
  "concat_results [] = Ok []"
| "concat_results (x # xs) = and_then x (\<lambda>a. and_then (concat_results xs) (\<lambda>b. Ok (a @ b)))"

definition encode_label :: "bytes \<times> bytes \<Rightarrow> (bytes, policy_error) outcome" where
  "encode_label = (\<lambda>(key, value).
     if key = [] then Err InvalidEncoding else concat_results [put_text key, put_text value])"

definition encode_network :: "'net policy_env \<Rightarrow> 'net \<Rightarrow> bytes" where
  "encode_network env network =
     (if pe_is_v6 env network then [6] else [4]) @ pe_network env network @ [pe_prefix_len env network]"

definition encode_selector :: "'net policy_env \<Rightarrow> 'net selector \<Rightarrow> (bytes, policy_error) outcome" where
  "encode_selector env sel =
     (if MAX_SELECTOR_PEERS < length (sl_peer_ids sel) \<or> MAX_LABELS < length (sl_labels sel)
        \<or> MAX_SELECTOR_CIDRS < length (sl_cidrs sel)
        \<or> (\<exists>(key, value) \<in> set (sl_labels sel).
             key = [] \<or> 64 < length key \<or> value = [] \<or> 256 < length value)
      then Err InvalidEncoding
      else concat_results
        ([put_u32 (length (sl_peer_ids sel))] @ map Ok (sl_peer_ids sel)
         @ [put_u32 (length (sl_labels sel))] @ map encode_label (sl_labels sel)
         @ [put_u32 (length (sl_cidrs sel))] @ map (\<lambda>n. Ok (encode_network env n)) (sl_cidrs sel)))"

definition of_bool8 :: "bool \<Rightarrow> u8" where
  "of_bool8 b = (if b then 1 else 0)"

definition encode_ports :: "port_range \<Rightarrow> bytes" where
  "encode_ports ports = to_be 2 (unat (pr_first ports)) @ to_be 2 (unat (pr_last ports))"

definition encode_rule :: "'net policy_env \<Rightarrow> 'net policy_rule \<Rightarrow> (bytes, policy_error) outcome" where
  "encode_rule env rule =
     concat_results
       [Ok (ru_id rule @ to_be 4 (unat (ru_priority rule))
          @ [of_bool8 (ru_enabled rule), of_bool8 (ru_log rule), action_tag (ru_action rule)]),
        encode_selector env (ru_source rule), encode_selector env (ru_destination rule),
        if MAX_PORT_SPANS < length (ru_destination_ports rule) then Err InvalidEncoding else Ok [],
        Ok [protocol_tag (ru_protocol rule)], put_u32 (length (ru_destination_ports rule)),
        Ok (concat (map encode_ports (ru_destination_ports rule)))]"

fun encode_rules ::
    "'net policy_env \<Rightarrow> uuid list \<Rightarrow> 'net policy_rule list \<Rightarrow> (bytes, policy_error) outcome" where
  "encode_rules env ids [] = Ok []"
| "encode_rules env ids (rule # rules) =
     (if ru_id rule \<in> set ids
        \<or> ((ru_protocol rule = Any \<or> ru_protocol rule = Icmp) \<and> ru_destination_ports rule \<noteq> [])
      then Err InvalidEncoding
      else concat_results [encode_rule env rule, encode_rules env (bset_insert (ru_id rule) ids) rules])"

definition encode_policy_document :: "'net policy_env \<Rightarrow> 'net policy \<Rightarrow> (bytes, policy_error) outcome" where
  "encode_policy_document env policy =
     (if MAX_POLICY_RULES < length (po_rules policy) then Err InvalidEncoding
      else concat_results
        [Ok (POLICY_DOCUMENT_DOMAIN @ [action_tag (po_default policy)]),
         put_u32 (length (po_rules policy)), encode_rules env [] (po_rules policy)])"

section \<open>Decoding\<close>

text \<open>
  The decoder's state, a slice and a cursor into it, is the slice from the cursor on; a read returns
  its value and the rest.
\<close>

type_synonym 'a reader = "bytes \<Rightarrow> ('a \<times> bytes, policy_error) outcome"

definition bind_reader :: "'a reader \<Rightarrow> ('a \<Rightarrow> 'b reader) \<Rightarrow> 'b reader" where
  "bind_reader m f bs = and_then (m bs) (\<lambda>(x, rest). f x rest)"

definition lift_reader :: "('a, policy_error) outcome \<Rightarrow> 'a reader" where
  "lift_reader m bs = and_then m (\<lambda>x. Ok (x, bs))"

definition decoder_take :: "nat \<Rightarrow> bytes reader" where
  "decoder_take len bs =
     (if len \<le> length bs then Ok (take len bs, drop len bs) else Err InvalidEncoding)"

definition decoder_byte :: "u8 reader" where
  "decoder_byte = bind_reader (decoder_take 1) (\<lambda>a. lift_reader (byte_at a 0 Ok))"

definition decoder_boolean :: "bool reader" where
  "decoder_boolean = bind_reader decoder_byte (\<lambda>b. lift_reader
     (if b = 0 then Ok False else if b = 1 then Ok True else Err InvalidEncoding))"

definition decoder_u16 :: "u16 reader" where
  "decoder_u16 = bind_reader (decoder_take 2) (\<lambda>a. lift_reader (Ok (word_of_nat (of_be a))))"

definition decoder_u32 :: "u32 reader" where
  "decoder_u32 = bind_reader (decoder_take 4) (\<lambda>a. lift_reader (Ok (word_of_nat (of_be a))))"

definition decoder_count :: "nat reader" where
  "decoder_count = bind_reader decoder_u32 (\<lambda>count bs.
     if unat count \<le> length bs then Ok (unat count, bs) else Err InvalidEncoding)"

text \<open>\<open>std::str::from_utf8\<close>: well-formed UTF-8 without surrogates or overlong forms.\<close>

definition continuation :: "u8 \<Rightarrow> bool" where
  "continuation b \<longleftrightarrow> 0x80 \<le> b \<and> b \<le> 0xbf"

fun utf8_valid :: "bytes \<Rightarrow> bool" where
  "utf8_valid [] = True"
| "utf8_valid (a # rest) =
     (if a < 0x80 then utf8_valid rest
      else if 0xc2 \<le> a \<and> a \<le> 0xdf then
        (case rest of b # r \<Rightarrow> continuation b \<and> utf8_valid r | _ \<Rightarrow> False)
      else if 0xe0 \<le> a \<and> a \<le> 0xef then
        (case rest of b # c # r \<Rightarrow>
           (if a = 0xe0 then 0xa0 \<le> b \<and> b \<le> 0xbf
            else if a = 0xed then 0x80 \<le> b \<and> b \<le> 0x9f else continuation b)
           \<and> continuation c \<and> utf8_valid r | _ \<Rightarrow> False)
      else if 0xf0 \<le> a \<and> a \<le> 0xf4 then
        (case rest of b # c # d # r \<Rightarrow>
           (if a = 0xf0 then 0x90 \<le> b \<and> b \<le> 0xbf
            else if a = 0xf4 then 0x80 \<le> b \<and> b \<le> 0x8f else continuation b)
           \<and> continuation c \<and> continuation d \<and> utf8_valid r | _ \<Rightarrow> False)
      else False)"

definition decoder_text :: "bytes reader" where
  "decoder_text = bind_reader decoder_count (\<lambda>len. bind_reader (decoder_take len) (\<lambda>value.
     lift_reader (if utf8_valid value then Ok value else Err InvalidEncoding)))"

definition decode_action :: "u8 \<Rightarrow> (policy_action, policy_error) outcome" where
  "decode_action tag = (if tag = 1 then Ok PAllow else if tag = 2 then Ok PDeny else Err InvalidEncoding)"

definition decode_protocol :: "u8 \<Rightarrow> (policy_protocol, policy_error) outcome" where
  "decode_protocol tag =
     (if tag = 0 then Ok Any else if tag = 6 then Ok Tcp else if tag = 17 then Ok Udp
      else if tag = 1 then Ok Icmp else Err InvalidEncoding)"

text \<open>A counted loop that threads an accumulator.\<close>

fun repeat_reader :: "nat \<Rightarrow> ('s \<Rightarrow> 's reader) \<Rightarrow> 's \<Rightarrow> 's reader" where
  "repeat_reader 0 step s bs = Ok (s, bs)"
| "repeat_reader (Suc n) step s bs = and_then (step s bs) (\<lambda>(s, bs). repeat_reader n step s bs)"

definition bounded_count :: "nat \<Rightarrow> nat reader" where
  "bounded_count limit = bind_reader decoder_count (\<lambda>n.
     lift_reader (if limit < n then Err InvalidEncoding else Ok n))"

definition decode_id :: "'net policy_env \<Rightarrow> uuid reader" where
  "decode_id env = bind_reader (decoder_take 16) (\<lambda>a.
     lift_reader (if pe_uuid_v4 env a then Ok a else Err InvalidEncoding))"

definition decode_peer :: "'net policy_env \<Rightarrow> uuid list \<Rightarrow> uuid list reader" where
  "decode_peer env peer_ids = bind_reader (decode_id env) (\<lambda>peer.
     lift_reader (if peer \<in> set peer_ids then Err InvalidEncoding else Ok (bset_insert peer peer_ids)))"

definition decode_label :: "(bytes \<times> bytes) list \<Rightarrow> (bytes \<times> bytes) list reader" where
  "decode_label labels = bind_reader decoder_text (\<lambda>key. bind_reader decoder_text (\<lambda>value.
     lift_reader
       (if key = [] \<or> 64 < length key \<or> value = [] \<or> 256 < length value \<or> map_of labels key \<noteq> None
        then Err InvalidEncoding else Ok (bmap_insert key value labels))))"

definition decode_cidr :: "'net policy_env \<Rightarrow> 'net list \<Rightarrow> 'net list reader" where
  "decode_cidr env cidrs = bind_reader decoder_byte (\<lambda>family.
     if family = 4 then
       bind_reader (decoder_take 4) (\<lambda>a. bind_reader decoder_byte (\<lambda>len.
         lift_reader (and_then (ok_or InvalidEncoding (pe_new4 env a len)) (\<lambda>n. Ok (cidrs @ [n])))))
     else if family = 6 then
       bind_reader (decoder_take 16) (\<lambda>a. bind_reader decoder_byte (\<lambda>len.
         lift_reader (and_then (ok_or InvalidEncoding (pe_new6 env a len)) (\<lambda>n. Ok (cidrs @ [n])))))
     else lift_reader (Err InvalidEncoding))"

definition decode_selector :: "'net::linorder policy_env \<Rightarrow> 'net selector reader" where
  "decode_selector env =
     bind_reader (bounded_count MAX_SELECTOR_PEERS) (\<lambda>peer_count.
     bind_reader (repeat_reader peer_count (decode_peer env) []) (\<lambda>peer_ids.
     bind_reader (bounded_count MAX_LABELS) (\<lambda>label_count.
     bind_reader (repeat_reader label_count decode_label []) (\<lambda>labels.
     bind_reader (bounded_count MAX_SELECTOR_CIDRS) (\<lambda>cidr_count.
     bind_reader (repeat_reader cidr_count (decode_cidr env) []) (\<lambda>cidrs.
     lift_reader (Ok (selector_new peer_ids labels cidrs))))))))"

definition decode_port :: "port_range list \<Rightarrow> port_range list reader" where
  "decode_port ports = bind_reader decoder_u16 (\<lambda>a. bind_reader decoder_u16 (\<lambda>b.
     lift_reader (and_then (port_range_new a b) (\<lambda>r. Ok (ports @ [r])))))"

definition decode_rule :: "'net::linorder policy_env \<Rightarrow> 'net policy_rule list \<Rightarrow> 'net policy_rule list reader" where
  "decode_rule env rules =
     bind_reader (decode_id env) (\<lambda>rule_id.
     bind_reader decoder_u32 (\<lambda>priority.
     bind_reader decoder_boolean (\<lambda>enabled.
     bind_reader decoder_boolean (\<lambda>logged.
     bind_reader decoder_byte (\<lambda>tag.
     bind_reader (lift_reader (decode_action tag)) (\<lambda>action.
     bind_reader (decode_selector env) (\<lambda>source.
     bind_reader (decode_selector env) (\<lambda>destination.
     bind_reader decoder_byte (\<lambda>tag.
     bind_reader (lift_reader (decode_protocol tag)) (\<lambda>protocol.
     bind_reader (bounded_count MAX_PORT_SPANS) (\<lambda>range_count.
     bind_reader (repeat_reader range_count decode_port []) (\<lambda>destination_ports.
     lift_reader (Ok (rules @ [\<lparr>ru_id = rule_id, ru_priority = priority, ru_enabled = enabled,
       ru_log = logged, ru_action = action, ru_source = source, ru_destination = destination,
       ru_protocol = protocol, ru_destination_ports = destination_ports\<rparr>]))))))))))))))"

definition decode_policy_document ::
    "'net::linorder policy_env \<Rightarrow> nat \<Rightarrow> bytes \<Rightarrow> ('net policy, policy_error) outcome" where
  "decode_policy_document env revision bs =
     (if take (length POLICY_DOCUMENT_DOMAIN) bs \<noteq> POLICY_DOCUMENT_DOMAIN then Err InvalidEncoding
      else
        and_then
          (bind_reader decoder_byte (\<lambda>tag.
           bind_reader (lift_reader (decode_action tag)) (\<lambda>default_action.
           bind_reader (bounded_count MAX_POLICY_RULES) (\<lambda>count.
           bind_reader (repeat_reader count (decode_rule env) []) (\<lambda>rules.
           lift_reader (Ok (default_action, rules))))))
           (drop (length POLICY_DOCUMENT_DOMAIN) bs))
          (\<lambda>((default_action, rules), rest).
             if rest \<noteq> [] then Err InvalidEncoding
             else
               let policy = policy_new revision default_action rules in
               and_then (encode_policy_document env policy) (\<lambda>encoded.
                 if encoded \<noteq> bs then Err InvalidEncoding else Ok policy)))"

section \<open>Normal forms\<close>

lemma bset_insert_append: "\<forall>x\<in>set ys. x < y \<Longrightarrow> bset_insert y ys = ys @ [y]"
  by (induction ys) (auto dest: order.asym)

lemma bmap_insert_append: "\<forall>x\<in>set ys. fst x < k \<Longrightarrow> bmap_insert k v ys = ys @ [(k, v)]"
  by (induction ys) (auto dest: order.asym)

lemma fold_bset_insert_ascending: "ascending (ys @ xs) \<Longrightarrow> fold bset_insert xs ys = ys @ xs"
proof (induction xs arbitrary: ys)
  case Nil
  then show ?case by simp
next
  case (Cons x xs)
  then have "bset_insert x ys = ys @ [x]" by (intro bset_insert_append) (auto simp: sorted_wrt_append)
  then show ?case using Cons by simp
qed

lemma ascending_remdups_adj: "sorted xs \<Longrightarrow> ascending (remdups_adj xs)"
proof (induction xs rule: remdups_adj.induct)
  case (3 x y xs)
  show ?case
  proof (cases "x = y")
    case True
    then show ?thesis using 3 by simp
  next
    case False
    then have "\<forall>z\<in>set (y # xs). x < z" using 3(3) by auto
    then show ?thesis using 3 False by simp
  qed
qed auto

lemma ascending_sort_dedup: "ascending (sort_dedup xs)"
  unfolding sort_dedup_def by (rule ascending_remdups_adj) simp

lemma set_sort_dedup [simp]: "set (sort_dedup xs) = set xs"
  by (simp add: sort_dedup_def)

lemma sort_dedup_ascending: "ascending xs \<Longrightarrow> sort_dedup xs = xs"
  by (simp add: sort_dedup_def sorted_sort_id strict_sorted_imp_sorted ascending_distinct remdups_adj_distinct)

lemma port_key_inj: "port_key a = port_key b \<longleftrightarrow> a = b"
  by (auto simp: port_key_def)

lemma map_port_key_remdups: "map port_key (remdups_adj xs) = remdups_adj (map port_key xs)"
  by (induction xs rule: remdups_adj.induct) (auto simp: port_key_inj)

lemma normalize_ports_ascending:
  "ascending (map port_key (remdups_adj (sort_key port_key xs)))"
  unfolding map_port_key_remdups by (rule ascending_remdups_adj) simp

lemma normalize_ports_id:
  assumes "ascending (map port_key xs)"
  shows "remdups_adj (sort_key port_key xs) = xs"
proof -
  have "sort_key port_key xs = xs"
    using assms by (intro sort_key_id_if_sorted) (rule strict_sorted_imp_sorted)
  moreover have "distinct xs" using ascending_distinct [OF assms] by (simp add: distinct_map)
  ultimately show ?thesis by (simp add: remdups_adj_distinct)
qed

definition rule_normal :: "'net::linorder policy_rule \<Rightarrow> bool" where
  "rule_normal r \<longleftrightarrow> ascending (sl_cidrs (ru_source r)) \<and> ascending (sl_cidrs (ru_destination r))
     \<and> ascending (map port_key (ru_destination_ports r))"

lemma normalize_rule_normal: "rule_normal (normalize_rule r)"
  by (simp add: rule_normal_def normalize_rule_def ascending_sort_dedup normalize_ports_ascending)

lemma normalize_rule_id: "rule_normal r \<Longrightarrow> normalize_rule r = r"
  by (simp add: rule_normal_def normalize_rule_def sort_dedup_ascending normalize_ports_id)

lemma policy_new_idem:
  assumes "\<forall>r\<in>set rules. rule_normal r" and "sorted (map rule_key rules)"
  shows "po_rules (policy_new revision d rules) = rules"
proof -
  have "map normalize_rule rules = rules"
    using assms(1) by (simp add: map_idI normalize_rule_id)
  then show ?thesis using assms(2) by (simp add: policy_new_def sort_key_id_if_sorted)
qed

lemma policy_new_rules:
  shows "sorted (map rule_key (po_rules (policy_new revision d rules)))"
    "set (po_rules (policy_new revision d rules)) = normalize_rule ` set rules"
  by (simp_all add: policy_new_def)

lemma normalize_rule_simps [simp]:
  "ru_id (normalize_rule r) = ru_id r" "ru_priority (normalize_rule r) = ru_priority r"
  "ru_enabled (normalize_rule r) = ru_enabled r" "ru_log (normalize_rule r) = ru_log r"
  "ru_action (normalize_rule r) = ru_action r" "ru_protocol (normalize_rule r) = ru_protocol r"
  "set (ru_destination_ports (normalize_rule r)) = set (ru_destination_ports r)"
  "sl_peer_ids (ru_source (normalize_rule r)) = sl_peer_ids (ru_source r)"
  "sl_labels (ru_source (normalize_rule r)) = sl_labels (ru_source r)"
  "set (sl_cidrs (ru_source (normalize_rule r))) = set (sl_cidrs (ru_source r))"
  "sl_peer_ids (ru_destination (normalize_rule r)) = sl_peer_ids (ru_destination r)"
  "sl_labels (ru_destination (normalize_rule r)) = sl_labels (ru_destination r)"
  "set (sl_cidrs (ru_destination (normalize_rule r))) = set (sl_cidrs (ru_destination r))"
  by (simp_all add: normalize_rule_def)

lemma empty_by_set: "set xs = set ys \<Longrightarrow> xs = [] \<longleftrightarrow> ys = []"
  by auto

lemma selector_matches_set:
  assumes "sl_peer_ids s = sl_peer_ids t" "sl_labels s = sl_labels t" "set (sl_cidrs s) = set (sl_cidrs t)"
  shows "selector_matches env s p \<longleftrightarrow> selector_matches env t p"
  using assms empty_by_set [OF assms(3)] by (simp add: selector_matches_def)

text \<open>Sorting and deduplicating changes no decision of a rule.\<close>

lemma rule_applies_normalize:
  "rule_applies env a b proto port (normalize_rule r) \<longleftrightarrow> rule_applies env a b proto port r"
proof -
  have "ru_destination_ports (normalize_rule r) = [] \<longleftrightarrow> ru_destination_ports r = []"
    by (rule empty_by_set) simp
  moreover have "selector_matches env (ru_source (normalize_rule r)) a = selector_matches env (ru_source r) a"
    "selector_matches env (ru_destination (normalize_rule r)) b = selector_matches env (ru_destination r) b"
    by (rule selector_matches_set; simp)+
  ultimately show ?thesis by (cases port) (simp_all add: rule_applies_def)
qed

lemma rule_key_normalize [simp]: "rule_key (normalize_rule r) = rule_key r"
  by (simp add: rule_key_def)

section \<open>Ordered evaluation\<close>

lemma decide_rules_first:
  assumes "sorted (map rule_key rules)" and "\<exists>r\<in>set rules. rule_applies env a b proto port r"
  shows "\<exists>r0\<in>set rules. rule_applies env a b proto port r0
    \<and> (\<forall>r\<in>set rules. rule_applies env a b proto port r \<longrightarrow> rule_key r0 \<le> rule_key r)
    \<and> decide_rules env d a b proto port rules
      = \<lparr>pn_action = ru_action r0, pn_rule_id = Some (ru_id r0), pn_log = ru_log r0\<rparr>"
  using assms
proof (induction rules)
  case Nil
  then show ?case by simp
next
  case (Cons x rules)
  show ?case
  proof (cases "rule_applies env a b proto port x")
    case True
    then show ?thesis using Cons.prems by (intro bexI [of _ x]) auto
  next
    case False
    then show ?thesis using Cons by auto
  qed
qed

lemma decide_rules_none:
  "\<forall>r\<in>set rules. \<not> rule_applies env a b proto port r \<Longrightarrow>
   decide_rules env d a b proto port rules = \<lparr>pn_action = d, pn_rule_id = None, pn_log = False\<rparr>"
  by (induction rules) auto

section \<open>Reading what was written\<close>

text \<open>\<open>reads m a x\<close>: on input that starts with \<open>a\<close>, the reader consumes exactly \<open>a\<close> and yields \<open>x\<close>.\<close>

definition reads :: "'a reader \<Rightarrow> bytes \<Rightarrow> 'a \<Rightarrow> bool" where
  "reads m a x \<longleftrightarrow> (\<forall>rest. m (a @ rest) = Ok (x, rest))"

lemma reads_bind: "reads m a x \<Longrightarrow> reads (f x) b y \<Longrightarrow> reads (bind_reader m f) (a @ b) y"
  by (simp add: reads_def bind_reader_def)

lemma reads_bind_last: "reads m a x \<Longrightarrow> f x = lift_reader (Ok y) \<Longrightarrow> reads (bind_reader m f) a y"
  by (simp add: reads_def bind_reader_def lift_reader_def)

lemma reads_lift: "f x = lift_reader (Ok y) \<Longrightarrow> reads (f x) [] y"
  by (simp add: reads_def lift_reader_def)

lemma reads_bind_lift: "m = Ok x \<Longrightarrow> reads (f x) b y \<Longrightarrow> reads (bind_reader (lift_reader m) f) b y"
  by (simp add: reads_def bind_reader_def lift_reader_def)

lemma reads_take: "length a = n \<Longrightarrow> reads (decoder_take n) a a"
  by (simp add: reads_def decoder_take_def)

lemma reads_byte: "reads decoder_byte [b] b"
  unfolding decoder_byte_def by (rule reads_bind_last [OF reads_take]) (simp_all add: byte_at_def)

lemma reads_boolean: "reads decoder_boolean [of_bool8 b] b"
  unfolding decoder_boolean_def by (rule reads_bind_last [OF reads_byte]) (simp add: of_bool8_def)

lemma of_be_to_be_unat:
  fixes w :: "'a::len word"
  assumes "LENGTH('a) = 8 * n"
  shows "of_be (to_be n (unat w)) = unat w"
proof (rule of_be_to_be)
  have "unat w < 2 ^ (8 * n)" using unsigned_less [of w, where ?'a = nat] assms by simp
  then show "unat w < 256 ^ n" by (simp add: power_mult)
qed

lemma reads_u16: "reads decoder_u16 (to_be 2 (unat w)) w"
  unfolding decoder_u16_def by (rule reads_bind_last [OF reads_take]) (simp_all add: of_be_to_be_unat)

lemma reads_u32: "reads decoder_u32 (to_be 4 (unat w)) w"
  unfolding decoder_u32_def by (rule reads_bind_last [OF reads_take]) (simp_all add: of_be_to_be_unat)

text \<open>A count is accepted only when at least as many bytes follow.\<close>

lemma reads_count:
  assumes "n < 2 ^ 32" and "n \<le> limit" and "n \<le> length b" and "reads (f n) b y"
  shows "reads (bind_reader (bounded_count limit) f) (to_be 4 n @ b) y"
proof -
  have u: "unat (word_of_nat n :: u32) = n" using assms(1) by (simp add: unat_of_nat)
  have "of_be (to_be 4 n) = n" using assms(1) by (simp add: of_be_to_be)
  then show ?thesis
    using assms u by (simp add: reads_def bind_reader_def bounded_count_def decoder_count_def decoder_u32_def
        decoder_take_def lift_reader_def)
qed

lemma reads_text:
  assumes "length t < 2 ^ 32" and "utf8_valid t"
  shows "reads decoder_text (to_be 4 (length t) @ t) t"
proof -
  have u: "unat (word_of_nat (length t) :: u32) = length t" using assms(1) by (simp add: unat_of_nat)
  have "of_be (to_be 4 (length t)) = length t" using assms(1) by (simp add: of_be_to_be)
  then show ?thesis
    using assms u by (simp add: reads_def bind_reader_def decoder_text_def decoder_count_def decoder_u32_def
        decoder_take_def lift_reader_def)
qed

lemma reads_repeat:
  assumes "\<And>ys y zs. xs = ys @ y # zs \<Longrightarrow> reads (step (acc ys)) (e y) (acc (ys @ [y]))"
  shows "reads (repeat_reader (length xs) step (acc [])) (concat (map e xs)) (acc xs)"
proof -
  have "reads (repeat_reader (length zs) step (acc ys)) (concat (map e zs)) (acc xs)" if "xs = ys @ zs" for ys zs
    using that
  proof (induction zs arbitrary: ys)
    case Nil
    then show ?case by (simp add: reads_def)
  next
    case (Cons z zs)
    have "reads (step (acc ys)) (e z) (acc (ys @ [z]))" using assms Cons.prems by blast
    then show ?case using Cons.IH [of "ys @ [z]"] Cons.prems by (simp add: reads_def)
  qed
  from this [of "[]" xs] show ?thesis by simp
qed

lemma concat_length_ge: "\<forall>x\<in>set xs. 1 \<le> length (e x) \<Longrightarrow> length xs \<le> length (concat (map e xs))"
  by (induction xs) auto

section \<open>Well-formed values\<close>

text \<open>
  What the types of the code guarantee of the values of a rule: identifiers are UUIDv4, strings are
  UTF-8, networks have no host bits and their octets rebuild them.
\<close>

definition network_ok :: "'net policy_env \<Rightarrow> 'net \<Rightarrow> bool" where
  "network_ok env n \<longleftrightarrow>
     (if pe_is_v6 env n
      then length (pe_network env n) = 16 \<and> pe_new6 env (pe_network env n) (pe_prefix_len env n) = Some n
      else length (pe_network env n) = 4 \<and> pe_new4 env (pe_network env n) (pe_prefix_len env n) = Some n)"

definition id_ok :: "'net policy_env \<Rightarrow> uuid \<Rightarrow> bool" where
  "id_ok env u \<longleftrightarrow> length u = 16 \<and> pe_uuid_v4 env u"

definition selector_ok :: "'net policy_env \<Rightarrow> 'net selector \<Rightarrow> bool" where
  "selector_ok env s \<longleftrightarrow>
     ascending (sl_peer_ids s) \<and> (\<forall>u\<in>set (sl_peer_ids s). id_ok env u)
     \<and> bmap_ok (sl_labels s) \<and> (\<forall>(k, v)\<in>set (sl_labels s). utf8_valid k \<and> utf8_valid v)
     \<and> (\<forall>n\<in>set (sl_cidrs s). network_ok env n)"

definition ports_ok :: "port_range \<Rightarrow> bool" where
  "ports_ok p \<longleftrightarrow> pr_first p \<noteq> 0 \<and> pr_first p \<le> pr_last p"

definition rule_ok :: "'net policy_env \<Rightarrow> 'net policy_rule \<Rightarrow> bool" where
  "rule_ok env r \<longleftrightarrow> id_ok env (ru_id r) \<and> selector_ok env (ru_source r)
     \<and> selector_ok env (ru_destination r) \<and> (\<forall>p\<in>set (ru_destination_ports r). ports_ok p)"

lemma rule_ok_normalize: "rule_ok env r \<Longrightarrow> rule_ok env (normalize_rule r)"
  by (simp add: rule_ok_def selector_ok_def)

lemma reads_peers:
  assumes "ascending ps" and "\<forall>u\<in>set ps. id_ok env u"
  shows "reads (repeat_reader (length ps) (decode_peer env) []) (concat ps) ps"
proof -
  have "reads (repeat_reader (length ps) (decode_peer env) (id [])) (concat (map id ps)) (id ps)"
  proof (rule reads_repeat)
    fix ys y zs assume *: "ps = ys @ y # zs"
    have ok: "id_ok env y" and lt: "\<forall>x\<in>set ys. x < y" using assms * by (auto simp: sorted_wrt_append)
    have "reads (decode_id env) y y"
      unfolding decode_id_def using ok by (intro reads_bind_last [OF reads_take]) (simp_all add: id_ok_def)
    then show "reads (decode_peer env (id ys)) (id y) (id (ys @ [y]))"
      unfolding decode_peer_def using lt bset_insert_append [OF lt]
      by (auto intro!: reads_bind_last)
  qed
  then show ?thesis by simp
qed

definition label_bytes :: "bytes \<times> bytes \<Rightarrow> bytes" where
  "label_bytes = (\<lambda>(k, v). to_be 4 (length k) @ k @ to_be 4 (length v) @ v)"

definition label_limits :: "bytes \<times> bytes \<Rightarrow> bool" where
  "label_limits = (\<lambda>(k, v). k \<noteq> [] \<and> length k \<le> 64 \<and> v \<noteq> [] \<and> length v \<le> 256)"

lemma reads_labels:
  assumes "bmap_ok ls" and "\<forall>(k, v)\<in>set ls. utf8_valid k \<and> utf8_valid v" and "\<forall>l\<in>set ls. label_limits l"
  shows "reads (repeat_reader (length ls) decode_label []) (concat (map label_bytes ls)) ls"
proof -
  have "reads (repeat_reader (length ls) decode_label (id [])) (concat (map label_bytes ls)) (id ls)"
  proof (rule reads_repeat)
    fix ys y zs assume *: "ls = ys @ y # zs"
    obtain k v where y: "y = (k, v)" by (cases y)
    have u: "utf8_valid k" "utf8_valid v" and l: "k \<noteq> []" "length k \<le> 64" "v \<noteq> []" "length v \<le> 256"
      using assms(2,3) * y by (auto simp: label_limits_def)
    have lt: "\<forall>x\<in>set ys. fst x < k" using assms(1) * y by (auto simp: bmap_ok_def sorted_wrt_append)
    then have new: "map_of ys k = None" by (auto simp: map_of_eq_None_iff)
    have "reads (decode_label ys) ((to_be 4 (length k) @ k) @ to_be 4 (length v) @ v) (ys @ [(k, v)])"
      unfolding decode_label_def
      using u l new bmap_insert_append [OF lt, of v]
      by (intro reads_bind [OF reads_text] reads_bind_last [OF reads_text]) simp_all
    then show "reads (decode_label (id ys)) (label_bytes y) (id (ys @ [y]))" by (simp add: y label_bytes_def)
  qed
  then show ?thesis by simp
qed

lemma reads_cidrs:
  assumes "\<forall>n\<in>set ns. network_ok env n"
  shows "reads (repeat_reader (length ns) (decode_cidr env) []) (concat (map (encode_network env) ns)) ns"
proof -
  have "reads (repeat_reader (length ns) (decode_cidr env) (id [])) (concat (map (encode_network env) ns)) (id ns)"
  proof (rule reads_repeat)
    fix ys y zs assume "ns = ys @ y # zs"
    then have ok: "network_ok env y" using assms by auto
    have v6: "reads (decode_cidr env ys) ([6] @ pe_network env y @ [pe_prefix_len env y]) (ys @ [y])"
      if "pe_is_v6 env y"
      unfolding decode_cidr_def using ok that
      by (intro reads_bind [OF reads_byte]) (auto simp: network_ok_def
          intro!: reads_bind [OF reads_take] reads_bind_last [OF reads_byte])
    have v4: "reads (decode_cidr env ys) ([4] @ pe_network env y @ [pe_prefix_len env y]) (ys @ [y])"
      if "\<not> pe_is_v6 env y"
      unfolding decode_cidr_def using ok that
      by (intro reads_bind [OF reads_byte]) (auto simp: network_ok_def
          intro!: reads_bind [OF reads_take] reads_bind_last [OF reads_byte])
    show "reads (decode_cidr env (id ys)) (encode_network env y) (id (ys @ [y]))"
      using v4 v6 by (simp add: encode_network_def)
  qed
  then show ?thesis by simp
qed

section \<open>The round trip\<close>

lemma concat_results_append:
  "concat_results (xs @ ys) = and_then (concat_results xs) (\<lambda>a. and_then (concat_results ys) (\<lambda>b. Ok (a @ b)))"
proof (induction xs)
  case Nil
  then show ?case by (cases "concat_results ys") simp_all
next
  case (Cons x xs)
  then show ?case
    by (cases x; cases "concat_results xs"; cases "concat_results ys") simp_all
qed

lemma concat_results_Ok: "concat_results (map (\<lambda>x. Ok (e x)) xs) = Ok (concat (map e xs))"
  by (induction xs) auto

lemma concat_results_map_Ok: "concat_results (map Ok xs) = Ok (concat xs)"
  using concat_results_Ok [of id xs] by simp

lemma encode_label_limits: "label_limits l \<Longrightarrow> encode_label l = Ok (label_bytes l)"
  by (cases l) (auto simp: label_limits_def encode_label_def put_text_def put_u32_def label_bytes_def)

definition selector_bytes :: "'net policy_env \<Rightarrow> 'net selector \<Rightarrow> bytes" where
  "selector_bytes env s =
     to_be 4 (length (sl_peer_ids s)) @ concat (sl_peer_ids s)
     @ to_be 4 (length (sl_labels s)) @ concat (map label_bytes (sl_labels s))
     @ to_be 4 (length (sl_cidrs s)) @ concat (map (encode_network env) (sl_cidrs s))"

lemma encode_selector_Ok:
  assumes "encode_selector env s = Ok bs"
  shows "bs = selector_bytes env s" "length (sl_peer_ids s) \<le> MAX_SELECTOR_PEERS"
    "length (sl_labels s) \<le> MAX_LABELS" "length (sl_cidrs s) \<le> MAX_SELECTOR_CIDRS"
    "\<forall>l\<in>set (sl_labels s). label_limits l"
proof -
  have lim: "length (sl_peer_ids s) \<le> MAX_SELECTOR_PEERS" "length (sl_labels s) \<le> MAX_LABELS"
    "length (sl_cidrs s) \<le> MAX_SELECTOR_CIDRS" and lab: "\<forall>l\<in>set (sl_labels s). label_limits l"
    using assms by (auto simp: encode_selector_def label_limits_def not_less split: if_splits)
  then show "length (sl_peer_ids s) \<le> MAX_SELECTOR_PEERS" "length (sl_labels s) \<le> MAX_LABELS"
    "length (sl_cidrs s) \<le> MAX_SELECTOR_CIDRS" "\<forall>l\<in>set (sl_labels s). label_limits l" by auto
  have "map encode_label (sl_labels s) = map (\<lambda>l. Ok (label_bytes l)) (sl_labels s)"
    using lab by (simp add: encode_label_limits)
  then have "concat_results (map encode_label (sl_labels s)) = Ok (concat (map label_bytes (sl_labels s)))"
    by (simp only: concat_results_Ok)
  then show "bs = selector_bytes env s"
    using assms lim
    by (auto simp: encode_selector_def concat_results_append concat_results_Ok concat_results_map_Ok
        put_u32_def selector_bytes_def policy_limits split: if_splits)
qed

lemma label_bytes_pos: "1 \<le> length (label_bytes l)"
  by (cases l) (simp add: label_bytes_def)

lemma concat_ids_length: "\<forall>u\<in>set ps. id_ok env u \<Longrightarrow> length ps \<le> length (concat ps)"
  using concat_length_ge [of ps "\<lambda>x. x"] by (auto simp: id_ok_def)

lemma reads_selector:
  assumes ok: "selector_ok env s" and enc: "encode_selector env s = Ok bs" and asc: "ascending (sl_cidrs s)"
  shows "reads (decode_selector env) bs s"
proof -
  note lim = encode_selector_Ok [OF enc]
  have small: "length (sl_peer_ids s) < 2 ^ 32" "length (sl_labels s) < 2 ^ 32" "length (sl_cidrs s) < 2 ^ 32"
    using lim(2-4) by (simp_all add: policy_limits)
  have new: "selector_new (sl_peer_ids s) (sl_labels s) (sl_cidrs s) = s"
    using ok asc fold_bset_insert_ascending [of "[]" "sl_peer_ids s"]
    by (simp add: selector_new_def selector_ok_def sort_dedup_ascending)
  have lens: "length (sl_peer_ids s) \<le> length (concat (sl_peer_ids s))"
    "length (sl_labels s) \<le> length (concat (map label_bytes (sl_labels s)))"
    "length (sl_cidrs s) \<le> length (concat (map (encode_network env) (sl_cidrs s)))"
    using ok concat_ids_length concat_length_ge [of "sl_labels s" label_bytes] label_bytes_pos
      concat_length_ge [of "sl_cidrs s" "encode_network env"]
    by (auto simp: selector_ok_def encode_network_def)
  have cidrs: "reads (bind_reader (bounded_count MAX_SELECTOR_CIDRS) (\<lambda>cidr_count.
      bind_reader (repeat_reader cidr_count (decode_cidr env) []) (\<lambda>cidrs.
      lift_reader (Ok (selector_new (sl_peer_ids s) (sl_labels s) cidrs)))))
      (to_be 4 (length (sl_cidrs s)) @ concat (map (encode_network env) (sl_cidrs s))) s"
    using ok new by (intro reads_count [OF small(3) lim(4) lens(3)] reads_bind_last [OF reads_cidrs])
      (simp_all add: selector_ok_def)
  have labels: "reads (bind_reader (bounded_count MAX_LABELS) (\<lambda>label_count.
      bind_reader (repeat_reader label_count decode_label []) (\<lambda>labels.
      bind_reader (bounded_count MAX_SELECTOR_CIDRS) (\<lambda>cidr_count.
      bind_reader (repeat_reader cidr_count (decode_cidr env) []) (\<lambda>cidrs.
      lift_reader (Ok (selector_new (sl_peer_ids s) labels cidrs)))))))
      (to_be 4 (length (sl_labels s)) @ concat (map label_bytes (sl_labels s))
        @ to_be 4 (length (sl_cidrs s)) @ concat (map (encode_network env) (sl_cidrs s))) s"
    using ok lim(5) lens(2)
    by (intro reads_count [OF small(2) lim(3)] reads_bind [OF reads_labels] cidrs)
      (simp_all add: selector_ok_def)
  show ?thesis unfolding decode_selector_def lim(1) selector_bytes_def
    using ok lens(1)
    by (intro reads_count [OF small(1) lim(2)] reads_bind [OF reads_peers] labels)
      (simp_all add: selector_ok_def)
qed

lemma reads_ports:
  assumes "\<forall>p\<in>set ps. ports_ok p"
  shows "reads (repeat_reader (length ps) decode_port []) (concat (map encode_ports ps)) ps"
proof -
  have "reads (repeat_reader (length ps) decode_port (id [])) (concat (map encode_ports ps)) (id ps)"
  proof (rule reads_repeat)
    fix ys y zs assume "ps = ys @ y # zs"
    then have "ports_ok y" using assms by auto
    then have "port_range_new (pr_first y) (pr_last y) = Ok y" by (simp add: port_range_new_def ports_ok_def not_less)
    then show "reads (decode_port (id ys)) (encode_ports y) (id (ys @ [y]))"
      unfolding decode_port_def encode_ports_def
      by (intro reads_bind [OF reads_u16] reads_bind_last [OF reads_u16]) simp
  qed
  then show ?thesis by simp
qed

definition rule_bytes :: "'net policy_env \<Rightarrow> 'net policy_rule \<Rightarrow> bytes" where
  "rule_bytes env r =
     ru_id r @ to_be 4 (unat (ru_priority r)) @ [of_bool8 (ru_enabled r)] @ [of_bool8 (ru_log r)]
     @ [action_tag (ru_action r)] @ selector_bytes env (ru_source r) @ selector_bytes env (ru_destination r)
     @ [protocol_tag (ru_protocol r)] @ to_be 4 (length (ru_destination_ports r))
     @ concat (map encode_ports (ru_destination_ports r))"

lemma encode_rule_Ok:
  assumes "encode_rule env r = Ok bs"
  shows "bs = rule_bytes env r" "encode_selector env (ru_source r) = Ok (selector_bytes env (ru_source r))"
    "encode_selector env (ru_destination r) = Ok (selector_bytes env (ru_destination r))"
    "length (ru_destination_ports r) \<le> MAX_PORT_SPANS"
proof -
  obtain x y where x: "encode_selector env (ru_source r) = Ok x" and y: "encode_selector env (ru_destination r) = Ok y"
    and len: "length (ru_destination_ports r) \<le> MAX_PORT_SPANS"
    and bs: "bs = ru_id r @ to_be 4 (unat (ru_priority r)) @ [of_bool8 (ru_enabled r)] @ [of_bool8 (ru_log r)]
      @ [action_tag (ru_action r)] @ x @ y @ [protocol_tag (ru_protocol r)]
      @ to_be 4 (length (ru_destination_ports r)) @ concat (map encode_ports (ru_destination_ports r))"
    using assms by (auto simp: encode_rule_def and_then_Ok_iff put_u32_def not_less split: if_splits)
  have "x = selector_bytes env (ru_source r)" "y = selector_bytes env (ru_destination r)"
    using x y encode_selector_Ok(1) by blast+
  then show "bs = rule_bytes env r" "encode_selector env (ru_source r) = Ok (selector_bytes env (ru_source r))"
    "encode_selector env (ru_destination r) = Ok (selector_bytes env (ru_destination r))"
    "length (ru_destination_ports r) \<le> MAX_PORT_SPANS"
    using x y len bs by (simp_all add: rule_bytes_def)
qed

lemma decode_tags: "decode_action (action_tag a) = Ok a" "decode_protocol (protocol_tag p) = Ok p"
  by (cases a; simp add: decode_action_def) (cases p; simp add: decode_protocol_def)

lemma reads_rule:
  assumes ok: "rule_ok env r" and enc: "encode_rule env r = Ok bs" and nf: "rule_normal r"
  shows "reads (decode_rule env rules) bs (rules @ [r])"
proof -
  note e = encode_rule_Ok [OF enc]
  have idr: "reads (decode_id env) (ru_id r) (ru_id r)"
    unfolding decode_id_def using ok
    by (intro reads_bind_last [OF reads_take]) (simp_all add: rule_ok_def id_ok_def)
  have src: "reads (decode_selector env) (selector_bytes env (ru_source r)) (ru_source r)"
    "reads (decode_selector env) (selector_bytes env (ru_destination r)) (ru_destination r)"
    using ok nf e(2,3) by (auto simp: rule_ok_def rule_normal_def intro!: reads_selector)
  have small: "length (ru_destination_ports r) < 2 ^ 32" using e(4) by (simp add: MAX_PORT_SPANS_def)
  have len: "length (ru_destination_ports r) \<le> length (concat (map encode_ports (ru_destination_ports r)))"
    by (rule concat_length_ge) (simp add: encode_ports_def)
  have eta: "\<lparr>ru_id = ru_id r, ru_priority = ru_priority r, ru_enabled = ru_enabled r, ru_log = ru_log r,
      ru_action = ru_action r, ru_source = ru_source r, ru_destination = ru_destination r,
      ru_protocol = ru_protocol r, ru_destination_ports = ru_destination_ports r\<rparr> = r" by (cases r) simp
  show ?thesis
    unfolding decode_rule_def e(1) rule_bytes_def
    using ok
    by (intro reads_bind [OF idr] reads_bind [OF reads_u32] reads_bind [OF reads_boolean]
        reads_bind [OF reads_byte] reads_bind_lift [OF decode_tags(1)] reads_bind_lift [OF decode_tags(2)]
        reads_bind [OF src(1)] reads_bind [OF src(2)] reads_count [OF small e(4) len]
        reads_bind_last [OF reads_ports]) (simp_all add: rule_ok_def eta)
qed

lemma encode_rules_Ok:
  "encode_rules env ids rules = Ok bs \<Longrightarrow>
   bs = concat (map (rule_bytes env) rules) \<and> (\<forall>r\<in>set rules. encode_rule env r = Ok (rule_bytes env r)
     \<and> (ru_protocol r \<in> {Any, Icmp} \<longrightarrow> ru_destination_ports r = []))
   \<and> distinct (map ru_id rules) \<and> set (map ru_id rules) \<inter> set ids = {}"
proof (induction rules arbitrary: ids bs)
  case Nil
  then show ?case by simp
next
  case (Cons r rules)
  obtain a b where a: "encode_rule env r = Ok a" and b: "encode_rules env (bset_insert (ru_id r) ids) rules = Ok b"
    and bs: "bs = a @ b"
    using Cons.prems by (auto simp: and_then_Ok_iff split: if_splits)
  show ?case using Cons.prems Cons.IH [OF b] encode_rule_Ok(1) [OF a] a bs by (auto split: if_splits)
qed

lemma reads_rules:
  assumes "\<forall>r\<in>set rules. rule_ok env r \<and> rule_normal r \<and> encode_rule env r = Ok (rule_bytes env r)"
  shows "reads (repeat_reader (length rules) (decode_rule env) []) (concat (map (rule_bytes env) rules)) rules"
proof -
  have "reads (repeat_reader (length rules) (decode_rule env) (id [])) (concat (map (rule_bytes env) rules)) (id rules)"
    by (rule reads_repeat) (use assms reads_rule in fastforce)
  then show ?thesis by simp
qed

lemma encode_policy_Ok:
  assumes "encode_policy_document env p = Ok bs"
  shows "bs = POLICY_DOCUMENT_DOMAIN @ [action_tag (po_default p)] @ to_be 4 (length (po_rules p))
      @ concat (map (rule_bytes env) (po_rules p))"
    "length (po_rules p) \<le> MAX_POLICY_RULES"
    "\<forall>r\<in>set (po_rules p). encode_rule env r = Ok (rule_bytes env r)
      \<and> (ru_protocol r \<in> {Any, Icmp} \<longrightarrow> ru_destination_ports r = [])"
    "distinct (map ru_id (po_rules p))"
proof -
  obtain b where b: "encode_rules env [] (po_rules p) = Ok b" and bs: "bs = (POLICY_DOCUMENT_DOMAIN
      @ [action_tag (po_default p)]) @ to_be 4 (length (po_rules p)) @ b"
    and len: "length (po_rules p) \<le> MAX_POLICY_RULES"
    using assms by (auto simp: encode_policy_document_def and_then_Ok_iff put_u32_def not_less split: if_splits)
  note r = encode_rules_Ok [OF b]
  show "bs = POLICY_DOCUMENT_DOMAIN @ [action_tag (po_default p)] @ to_be 4 (length (po_rules p))
      @ concat (map (rule_bytes env) (po_rules p))" using bs r by simp
  show "length (po_rules p) \<le> MAX_POLICY_RULES"
    "\<forall>r\<in>set (po_rules p). encode_rule env r = Ok (rule_bytes env r)
      \<and> (ru_protocol r \<in> {Any, Icmp} \<longrightarrow> ru_destination_ports r = [])"
    "distinct (map ru_id (po_rules p))" using len r by auto
qed

lemma decode_encoded:
  assumes ok: "\<forall>r\<in>set (po_rules p). rule_ok env r \<and> rule_normal r" and srt: "sorted (map rule_key (po_rules p))"
    and enc: "encode_policy_document env p = Ok bs"
  shows "decode_policy_document env (po_revision p) bs = Ok p"
proof -
  let ?body = "[action_tag (po_default p)] @ to_be 4 (length (po_rules p)) @ concat (map (rule_bytes env) (po_rules p))"
  note e = encode_policy_Ok [OF enc]
  have small: "length (po_rules p) < 2 ^ 32" using e(2) by (simp add: MAX_POLICY_RULES_def)
  have pos: "1 \<le> length (rule_bytes env r)" for r by (simp add: rule_bytes_def)
  have len: "length (po_rules p) \<le> length (concat (map (rule_bytes env) (po_rules p)))"
    by (rule concat_length_ge) (use pos in blast)
  have rules: "\<forall>r\<in>set (po_rules p). rule_ok env r \<and> rule_normal r \<and> encode_rule env r = Ok (rule_bytes env r)"
    using ok e(3) by blast
  have read: "reads (bind_reader decoder_byte (\<lambda>tag.
      bind_reader (lift_reader (decode_action tag)) (\<lambda>default_action.
      bind_reader (bounded_count MAX_POLICY_RULES) (\<lambda>count.
      bind_reader (repeat_reader count (decode_rule env) []) (\<lambda>rules.
      lift_reader (Ok (default_action, rules))))))) ?body (po_default p, po_rules p)"
    by (intro reads_bind [OF reads_byte] reads_bind_lift [OF decode_tags(1)] reads_count [OF small e(2) len]
        reads_bind_last [OF reads_rules [OF rules]] refl)
  have new: "policy_new (po_revision p) (po_default p) (po_rules p) = p"
    using policy_new_idem [of "po_rules p" "po_revision p" "po_default p"] ok srt
    by (cases p) (simp add: policy_new_def)
  have "bs = POLICY_DOCUMENT_DOMAIN @ ?body" using e(1) by simp
  then show ?thesis
    using read [unfolded reads_def, rule_format, of "[]"] new enc
    by (simp add: decode_policy_document_def)
qed

text \<open>No read of the decoder can leave its slice.\<close>

definition safe :: "'a reader \<Rightarrow> bool" where
  "safe m \<longleftrightarrow> (\<forall>bs. m bs \<noteq> Abort)"

lemma safe_bind [intro]: "safe m \<Longrightarrow> (\<And>x. safe (f x)) \<Longrightarrow> safe (bind_reader m f)"
  by (auto simp: safe_def bind_reader_def and_then_Abort_iff)

lemma safe_lift: "m \<noteq> Abort \<Longrightarrow> safe (lift_reader m)"
  by (auto simp: safe_def lift_reader_def and_then_Abort_iff)

lemma safe_repeat: "(\<And>s. safe (step s)) \<Longrightarrow> safe (repeat_reader n step s)"
  unfolding safe_def by (induction n arbitrary: s) (auto simp: and_then_Abort_iff)

lemma safe_take: "safe (decoder_take n)"
  by (simp add: safe_def decoder_take_def)

lemma safe_byte: "safe decoder_byte"
  by (auto simp: safe_def decoder_byte_def bind_reader_def decoder_take_def lift_reader_def byte_at_def
      and_then_Abort_iff)

lemma safe_words: "safe decoder_u16" "safe decoder_u32" "safe decoder_boolean"
  unfolding decoder_u16_def decoder_u32_def decoder_boolean_def
  by (auto intro!: safe_bind safe_take safe_byte safe_lift split: if_splits)

lemma safe_count: "safe decoder_count" "safe (bounded_count limit)"
proof -
  show *: "safe decoder_count"
    unfolding decoder_count_def by (rule safe_bind [OF safe_words(2)]) (simp add: safe_def)
  show "safe (bounded_count limit)" unfolding bounded_count_def by (rule safe_bind [OF *]) (simp add: safe_lift)
qed

lemma safe_text: "safe decoder_text"
  unfolding decoder_text_def by (intro safe_bind safe_count safe_take safe_lift) simp

lemma safe_id: "safe (decode_id env)"
  unfolding decode_id_def by (intro safe_bind safe_take safe_lift) simp

lemma safe_selector: "safe (decode_selector env)"
proof -
  have "safe (decode_peer env ps)" for ps
    unfolding decode_peer_def by (intro safe_bind safe_id safe_lift) simp
  moreover have "safe (decode_label ls)" for ls
    unfolding decode_label_def by (intro safe_bind safe_text safe_lift) simp
  moreover have "safe (decode_cidr env ns)" for ns
    unfolding decode_cidr_def
    by (rule safe_bind [OF safe_byte]) (auto intro!: safe_bind safe_take safe_byte safe_lift simp: and_then_Abort_iff)
  ultimately show ?thesis
    unfolding decode_selector_def by (intro safe_bind safe_count safe_repeat safe_lift) auto
qed

lemma safe_rule: "safe (decode_rule env rules)"
proof -
  have "safe (decode_port ps)" for ps
    unfolding decode_port_def
    by (intro safe_bind safe_words safe_lift) (simp add: and_then_Abort_iff port_range_new_def)
  then show ?thesis unfolding decode_rule_def
    by (intro safe_bind safe_id safe_words safe_byte safe_selector safe_count safe_repeat safe_lift)
      (auto simp: decode_action_def decode_protocol_def)
qed

lemma concat_results_not_Abort: "\<forall>x\<in>set xs. x \<noteq> Abort \<Longrightarrow> concat_results xs \<noteq> Abort"
  by (induction xs) (auto simp: and_then_Abort_iff)

lemma encode_not_Abort: "encode_policy_document env p \<noteq> Abort"
proof -
  have put: "put_text t \<noteq> Abort" for t by (simp add: put_text_def put_u32_def)
  have label: "encode_label l \<noteq> Abort" for l
    by (cases l) (auto simp: encode_label_def and_then_Abort_iff put)
  have u32: "put_u32 n \<noteq> Abort" for n by (simp add: put_u32_def)
  have sel: "encode_selector env s \<noteq> Abort" for s
  proof -
    have "concat_results
        ([put_u32 (length (sl_peer_ids s))] @ map Ok (sl_peer_ids s)
         @ [put_u32 (length (sl_labels s))] @ map encode_label (sl_labels s)
         @ [put_u32 (length (sl_cidrs s))] @ map (\<lambda>n. Ok (encode_network env n)) (sl_cidrs s)) \<noteq> Abort"
      using label [THEN not_sym] u32 by (intro concat_results_not_Abort) auto
    then show ?thesis unfolding encode_selector_def by simp
  qed
  have rule: "encode_rule env r \<noteq> Abort" for r
    using sel unfolding encode_rule_def by (intro concat_results_not_Abort) (auto simp: put_u32_def)
  have "encode_rules env ids rules \<noteq> Abort" for ids rules
    using rule by (induction rules arbitrary: ids) (auto simp: and_then_Abort_iff)
  then show ?thesis
    unfolding encode_policy_document_def by (auto simp: put_u32_def and_then_Abort_iff)
qed

lemma decode_policy_not_Abort: "decode_policy_document env revision bs \<noteq> Abort"
proof -
  have "safe (bind_reader decoder_byte (\<lambda>tag.
      bind_reader (lift_reader (decode_action tag)) (\<lambda>default_action.
      bind_reader (bounded_count MAX_POLICY_RULES) (\<lambda>count.
      bind_reader (repeat_reader count (decode_rule env) []) (\<lambda>rules.
      lift_reader (Ok (default_action, rules)))))))"
    by (intro safe_bind safe_byte safe_count safe_repeat safe_rule safe_lift) (auto simp: decode_action_def)
  then show ?thesis
    by (auto simp: decode_policy_document_def safe_def and_then_Abort_iff Let_def encode_not_Abort
        split: prod.split)
qed

section \<open>Properties\<close>

text \<open>
  The witnesses use networks named by their IPv4 address as a number, each a host network.
\<close>

definition document_env :: "nat policy_env" where
  "document_env = \<lparr>pe_contains = (\<lambda>n a. a = V4 (to_be 4 n)), pe_is_v6 = (\<lambda>_. False), pe_network = to_be 4,
     pe_prefix_len = (\<lambda>_. 32), pe_new4 = (\<lambda>a len. if len = 32 then Some (of_be a) else None),
     pe_new6 = (\<lambda>_ _. None), pe_uuid_v4 = (\<lambda>u. length u = 16)\<rparr>"

definition sample_rule :: "policy_action \<Rightarrow> u8 \<Rightarrow> nat policy_rule" where
  "sample_rule action i = \<lparr>ru_id = replicate 15 0 @ [i], ru_priority = 5, ru_enabled = True, ru_log = False,
     ru_action = action, ru_source = selector_labels [([97], [98])],
     ru_destination = selector_cidr 10, ru_protocol = Tcp,
     ru_destination_ports = [\<lparr>pr_first = 443, pr_last = 443\<rparr>]\<rparr>"

definition document_rules :: "nat policy_rule list" where
  "document_rules = [sample_rule PAllow 1, sample_rule PDeny 2]"

lemma document_rules_ok: "\<forall>r\<in>set document_rules. rule_ok document_env r"
  by (auto simp: document_rules_def sample_rule_def document_env_def rule_ok_def id_ok_def selector_ok_def
      selector_labels_def selector_cidr_def network_ok_def ports_ok_def bmap_ok_def of_be_to_be)

lemma sample_policy_encodes: "is_ok (encode_policy_document document_env (policy_new 3 PDeny document_rules))"
  by (simp add: policy_new_def document_rules_def sample_rule_def normalize_rule_def sort_dedup_def
      selector_labels_def selector_cidr_def rule_key_def document_env_def encode_policy_document_def
      encode_rule_def encode_selector_def encode_label_def put_text_def put_u32_def policy_limits
      port_key_def less_eq_prod_def insort_key_def)

lemma decode_new_policy:
  assumes "\<forall>r\<in>set rules. rule_ok env r"
    and "encode_policy_document env (policy_new revision d rules) = Ok bs"
  shows "decode_policy_document env revision bs = Ok (policy_new revision d rules)"
proof -
  have "\<forall>r\<in>set (po_rules (policy_new revision d rules)). rule_ok env r \<and> rule_normal r"
    using assms(1) by (auto simp: policy_new_rules normalize_rule_normal rule_ok_normalize)
  moreover have "po_revision (policy_new revision d rules) = revision" by (simp add: policy_new_def)
  ultimately show ?thesis using decode_encoded [OF _ policy_new_rules(1) assms(2)] by simp
qed

text \<open>Policy documents survive the wire: encoding a policy built by \<open>Policy::new\<close> from rules
  whose identifiers are UUIDv4, whose strings are UTF-8 and whose networks carry no host bits, and decoding
  the bytes under the same revision, gives back exactly that policy.\<close>

theorem policy_document_roundtrip:
  assumes "\<forall>r\<in>set rules. rule_ok env r"
    and "encode_policy_document env (policy_new revision d rules) = Ok bs"
  shows "decode_policy_document env revision bs = Ok (policy_new revision d rules)"
  using assms by (rule decode_new_policy)

theorem policy_document_roundtrip_witness:
  "\<exists>bs. encode_policy_document document_env (policy_new 3 PDeny document_rules) = Ok bs
    \<and> decode_policy_document document_env 3 bs = Ok (policy_new 3 PDeny document_rules)"
proof (cases "encode_policy_document document_env (policy_new 3 PDeny document_rules)")
  case (Ok bs)
  then show ?thesis using policy_document_roundtrip [OF document_rules_ok Ok] by blast
qed (use sample_policy_encodes in simp_all)

text \<open>(C15) Ordered evaluation: the policy built from a list of rules decides an initiation by an applicable
  enabled rule that is least in priority, then denials before allowances, then identifier, whatever the
  order of the list, and by the default action when none applies; so an allowance implies that no
  applicable denial has the same or a lower priority value.\<close>

theorem policy_evaluation_order:
  "if \<exists>r\<in>set rules. rule_applies env a b proto port r
    then \<exists>r0\<in>set rules. rule_applies env a b proto port r0
      \<and> (\<forall>r\<in>set rules. rule_applies env a b proto port r \<longrightarrow>
          (ru_priority r0, action_order (ru_action r0), ru_id r0)
            \<le> (ru_priority r, action_order (ru_action r), ru_id r)
          \<and> (ru_action r0 = PAllow \<and> ru_action r = PDeny \<longrightarrow> ru_priority r0 < ru_priority r))
      \<and> decide_initiation env (policy_new revision d rules) a b proto port
        = \<lparr>pn_action = ru_action r0, pn_rule_id = Some (ru_id r0), pn_log = ru_log r0\<rparr>
    else decide_initiation env (policy_new revision d rules) a b proto port
        = \<lparr>pn_action = d, pn_rule_id = None, pn_log = False\<rparr>"
proof (cases "\<exists>r\<in>set rules. rule_applies env a b proto port r")
  case True
  let ?sorted = "po_rules (policy_new revision d rules)"
  have "\<exists>r\<in>set ?sorted. rule_applies env a b proto port r"
    using True by (auto simp: policy_new_rules rule_applies_normalize)
  from decide_rules_first [OF policy_new_rules(1) this, of d]
  obtain r0 where r0: "r0 \<in> set rules" "rule_applies env a b proto port r0"
    "\<forall>r\<in>set rules. rule_applies env a b proto port r \<longrightarrow> rule_key r0 \<le> rule_key r"
    "decide_rules env d a b proto port ?sorted
      = \<lparr>pn_action = ru_action r0, pn_rule_id = Some (ru_id r0), pn_log = ru_log r0\<rparr>"
    by (auto simp: policy_new_rules rule_applies_normalize)
  have "po_default (policy_new revision d rules) = d" by (simp add: policy_new_def)
  then have dec: "decide_initiation env (policy_new revision d rules) a b proto port
      = \<lparr>pn_action = ru_action r0, pn_rule_id = Some (ru_id r0), pn_log = ru_log r0\<rparr>"
    using r0(4) by (simp add: decide_initiation_def)
  have "ru_priority r0 < ru_priority r"
    if "rule_key r0 \<le> rule_key r" "ru_action r0 = PAllow" "ru_action r = PDeny" for r
    using that by (auto simp: rule_key_def less_eq_prod_def)
  then have "\<forall>r\<in>set rules. rule_applies env a b proto port r \<longrightarrow>
      (ru_priority r0, action_order (ru_action r0), ru_id r0)
        \<le> (ru_priority r, action_order (ru_action r), ru_id r)
      \<and> (ru_action r0 = PAllow \<and> ru_action r = PDeny \<longrightarrow> ru_priority r0 < ru_priority r)"
    using r0(3) unfolding rule_key_def by blast
  then show ?thesis unfolding if_P [OF True] using r0(1,2) dec by blast
next
  case False
  then show ?thesis
    using decide_rules_none [of "po_rules (policy_new revision d rules)" env a b proto port d]
    by (auto simp: policy_new_rules rule_applies_normalize decide_initiation_def policy_new_def)
qed

definition sample_peer :: "u8 \<Rightarrow> peer_descriptor" where
  "sample_peer i = \<lparr>pd_id = replicate 15 1 @ [i], pd_address = V4 [0, 0, 0, i], pd_labels = [([97], [98])]\<rparr>"

lemma sample_rule_applies:
  "rule_applies document_env (sample_peer 9) (sample_peer 10) 6 (Some 443) (sample_rule action i)"
  by (simp add: rule_applies_def sample_rule_def selector_matches_def selector_labels_def selector_cidr_def
      sample_peer_def document_env_def port_range_contains_def to_be_numeral)

theorem policy_evaluation_order_witness:
  "decide_initiation document_env (policy_new 3 PAllow document_rules) (sample_peer 9) (sample_peer 10) 6 (Some 443)
    = \<lparr>pn_action = PDeny, pn_rule_id = Some (replicate 15 0 @ [2]), pn_log = False\<rparr>"
proof -
  have fields: "ru_action (sample_rule a i) = a" "ru_id (sample_rule a i) = replicate 15 0 @ [i]"
    "ru_priority (sample_rule a i) = 5" "ru_log (sample_rule a i) = False" for a i
    by (simp_all add: sample_rule_def)
  have mem: "set document_rules = {sample_rule PAllow 1, sample_rule PDeny 2}" by (simp add: document_rules_def)
  show ?thesis
    using policy_evaluation_order [of document_rules document_env "sample_peer 9" "sample_peer 10" 6 "Some 443" 3 PAllow]
    by (auto simp: mem sample_rule_applies fields)
qed

text \<open>Decoding is total and canonical: it never panics, and a document it accepts is exactly the
  encoding of the policy it returns, which carries the outer revision, has its rules in evaluation order,
  pairwise different rule identifiers, ports only on TCP and UDP rules, and stays within the rule and
  selector limits.\<close>

theorem policy_decode_canonical:
  "decode_policy_document env revision bs \<noteq> Abort
    \<and> (\<forall>p. decode_policy_document env revision bs = Ok p \<longrightarrow>
        encode_policy_document env p = Ok bs \<and> po_revision p = revision
        \<and> sorted (map rule_key (po_rules p)) \<and> distinct (map ru_id (po_rules p))
        \<and> length (po_rules p) \<le> 1024
        \<and> (\<forall>r\<in>set (po_rules p). length (ru_destination_ports r) \<le> 256
            \<and> (ru_protocol r \<in> {Any, Icmp} \<longrightarrow> ru_destination_ports r = [])
            \<and> length (sl_peer_ids (ru_source r)) \<le> 1024 \<and> length (sl_labels (ru_source r)) \<le> 64
            \<and> length (sl_cidrs (ru_source r)) \<le> 256))"
proof (intro conjI allI impI)
  show "decode_policy_document env revision bs \<noteq> Abort" by (rule decode_policy_not_Abort)
  fix p assume dec: "decode_policy_document env revision bs = Ok p"
  then have enc: "encode_policy_document env p = Ok bs" and new: "\<exists>d rules. p = policy_new revision d rules"
    by (auto simp: decode_policy_document_def and_then_Ok_iff Let_def split: if_splits prod.splits)
  note e = encode_policy_Ok [OF enc]
  show "encode_policy_document env p = Ok bs" by (rule enc)
  show "po_revision p = revision" "sorted (map rule_key (po_rules p))"
    using new policy_new_rules(1) by (auto simp: policy_new_def)
  show "distinct (map ru_id (po_rules p))" "length (po_rules p) \<le> 1024"
    using e(2,4) by (simp_all add: MAX_POLICY_RULES_def)
  show "\<forall>r\<in>set (po_rules p). length (ru_destination_ports r) \<le> 256
      \<and> (ru_protocol r \<in> {Any, Icmp} \<longrightarrow> ru_destination_ports r = [])
      \<and> length (sl_peer_ids (ru_source r)) \<le> 1024 \<and> length (sl_labels (ru_source r)) \<le> 64
      \<and> length (sl_cidrs (ru_source r)) \<le> 256"
  proof
    fix r assume "r \<in> set (po_rules p)"
    then have r: "encode_rule env r = Ok (rule_bytes env r)"
      "ru_protocol r \<in> {Any, Icmp} \<longrightarrow> ru_destination_ports r = []" using e(3) by auto
    then show "length (ru_destination_ports r) \<le> 256
        \<and> (ru_protocol r \<in> {Any, Icmp} \<longrightarrow> ru_destination_ports r = [])
        \<and> length (sl_peer_ids (ru_source r)) \<le> 1024 \<and> length (sl_labels (ru_source r)) \<le> 64
        \<and> length (sl_cidrs (ru_source r)) \<le> 256"
      using encode_rule_Ok(4) [OF r(1)] encode_selector_Ok(2-4) [OF encode_rule_Ok(2) [OF r(1)]]
      by (simp add: policy_limits)
  qed
qed

theorem policy_decode_canonical_witness:
  "\<exists>bs p. decode_policy_document document_env 3 bs = Ok p \<and> encode_policy_document document_env p = Ok bs
    \<and> po_revision p = 3 \<and> po_rules p \<noteq> []"
proof (cases "encode_policy_document document_env (policy_new 3 PDeny document_rules)")
  case (Ok bs)
  have "decode_policy_document document_env 3 bs = Ok (policy_new 3 PDeny document_rules)"
    by (rule decode_new_policy [OF document_rules_ok Ok])
  moreover have "po_rules (policy_new 3 PDeny document_rules) \<noteq> []"
    using policy_new_rules(2) [of 3 PDeny document_rules] by (auto simp: document_rules_def)
  ultimately show ?thesis
    using policy_decode_canonical [of document_env 3 bs] by blast
qed (use sample_policy_encodes in simp_all)

end
