(* ===== verification/PolicyEvaluator.thy ===== *)
theory PolicyEvaluator
  imports PolicyDocument
begin

text \<open>
  The stateful policy evaluator of \<open>crates/peerward-policy/src/evaluator.rs\<close>: return-flow state
  with a deadline index and a recency index, bounded reclamation, eviction of the least recently
  touched flow, and the rate limit of denial audits.
\<close>

section \<open>Data\<close>

text \<open>The crate's own \<open>FlowKey\<close> has the fields and the derived order of the data plane's.\<close>

type_synonym policy_flow_key = flow_key

definition policy_reverse :: "policy_flow_key \<Rightarrow> policy_flow_key" where
  "policy_reverse k = k\<lparr>fk_source := fk_destination k, fk_destination := fk_source k,
     fk_source_port := fk_destination_port k, fk_destination_port := fk_source_port k\<rparr>"

record policy_packet =
  pp_mesh_id :: uuid
  pp_source :: peer_descriptor
  pp_destination :: peer_descriptor
  pp_flow :: policy_flow_key
  pp_initiating :: bool
  pp_related_flow :: "policy_flow_key option"
  pp_fragment_of :: "policy_flow_key option"

record evaluator_decision =
  ed_action :: policy_action
  ed_rule_id :: "uuid option"
  ed_emit_denial_audit :: bool
  ed_revision :: nat

record state_entry =
  se_expires_at :: nat
  se_touched_at :: nat

record 'net evaluator =
  ev_mesh_id :: uuid
  ev_policy :: "'net policy"
  ev_states :: "(policy_flow_key \<times> state_entry) list"
  ev_state_expirations :: "(nat \<times> policy_flow_key) list"
  ev_state_recency :: "(nat \<times> policy_flow_key) list"
  ev_denial_audits :: "(policy_flow_key \<times> nat) list"
  ev_denial_expirations :: "(nat \<times> policy_flow_key) list"
  ev_max_states :: nat
  ev_expiry_budget :: nat
  ev_denial_interval :: nat

section \<open>Operations\<close>

definition flow_lifetime :: "ip_protocol \<Rightarrow> nat" where
  "flow_lifetime protocol = (if protocol = 6 then 300 else if protocol = 17 then 60 else 30)"

definition evaluator_new ::
    "uuid \<Rightarrow> 'net policy \<Rightarrow> nat \<Rightarrow> nat \<Rightarrow> nat \<Rightarrow> 'net evaluator" where
  "evaluator_new mesh_id policy max_states expiry_budget denial_interval =
     \<lparr>ev_mesh_id = mesh_id, ev_policy = policy, ev_states = [], ev_state_expirations = [],
      ev_state_recency = [], ev_denial_audits = [], ev_denial_expirations = [],
      ev_max_states = max_states, ev_expiry_budget = expiry_budget,
      ev_denial_interval = denial_interval\<rparr>"

definition replace_policy ::
    "'net policy \<Rightarrow> 'net evaluator \<Rightarrow> 'net evaluator \<times> (unit, policy_error) outcome" where
  "replace_policy policy e =
     (if po_revision policy \<le> po_revision (ev_policy e) then (e, Err RevisionRollback)
      else (e\<lparr>ev_policy := policy, ev_states := [], ev_state_expirations := [], ev_state_recency := [],
              ev_denial_audits := [], ev_denial_expirations := []\<rparr>, Ok ()))"

definition remove_state :: "policy_flow_key \<Rightarrow> 'net evaluator \<Rightarrow> 'net evaluator" where
  "remove_state key e =
     (case hm_get (ev_states e) key of
        None \<Rightarrow> e
      | Some entry \<Rightarrow>
        e\<lparr>ev_states := hm_remove key (ev_states e),
          ev_state_expirations := bset_remove (se_expires_at entry, key) (ev_state_expirations e),
          ev_state_recency := bset_remove (se_touched_at entry, key) (ev_state_recency e)\<rparr>)"

definition first_state :: "'net evaluator \<Rightarrow> (nat \<times> policy_flow_key) option" where
  "first_state e = bset_first (ev_state_expirations e)"

definition expire_some :: "nat \<Rightarrow> 'net evaluator \<Rightarrow> 'net evaluator" where
  "expire_some now e = sweep first_state remove_state now (ev_expiry_budget e) e"

definition state_valid :: "policy_flow_key \<Rightarrow> nat \<Rightarrow> bool \<Rightarrow> 'net evaluator \<Rightarrow> 'net evaluator \<times> bool" where
  "state_valid key now refresh e =
     (case hm_get (ev_states e) key of
        None \<Rightarrow> (e, False)
      | Some entry \<Rightarrow>
        if se_expires_at entry \<le> now then (remove_state key e, False)
        else if refresh \<and> se_touched_at entry < now then
          let expires_at = saturating_add now (flow_lifetime (fk_protocol key)) in
          (e\<lparr>ev_states := hm_insert key \<lparr>se_expires_at = expires_at, se_touched_at = now\<rparr> (ev_states e),
             ev_state_expirations := bset_insert (expires_at, key)
               (bset_remove (se_expires_at entry, key) (ev_state_expirations e)),
             ev_state_recency := bset_insert (now, key)
               (bset_remove (se_touched_at entry, key) (ev_state_recency e))\<rparr>, True)
        else (e, True))"

text \<open>The short-circuit disjunction of two state checks.\<close>

definition or_else ::
    "('s \<Rightarrow> 's \<times> bool) \<Rightarrow> ('s \<Rightarrow> 's \<times> bool) \<Rightarrow> 's \<Rightarrow> 's \<times> bool" where
  "or_else f g e = (let (e, found) = f e in if found then (e, True) else g e)"

definition evict_oldest :: "'net evaluator \<Rightarrow> 'net evaluator" where
  "evict_oldest e =
     (if ev_max_states e \<le> length (ev_states e)
      then (case bset_first (ev_state_recency e) of None \<Rightarrow> e | Some (_, oldest) \<Rightarrow> remove_state oldest e)
      else e)"

definition insert_state :: "policy_flow_key \<Rightarrow> nat \<Rightarrow> 'net evaluator \<Rightarrow> 'net evaluator" where
  "insert_state flow now e =
     (if ev_max_states e = 0 then e
      else
        let e = evict_oldest e; expires_at = saturating_add now (flow_lifetime (fk_protocol flow)) in
        e\<lparr>ev_states := hm_insert flow \<lparr>se_expires_at = expires_at, se_touched_at = now\<rparr> (ev_states e),
          ev_state_expirations := bset_insert (expires_at, flow) (ev_state_expirations e),
          ev_state_recency := bset_insert (now, flow) (ev_state_recency e)\<rparr>)"

text \<open>\<open>admit_denial_audit\<close> reclaims by timestamp first; \<open>pop_first\<close> drops the head of the index.\<close>

fun reclaim_audits :: "nat \<Rightarrow> nat \<Rightarrow> 'net evaluator \<Rightarrow> 'net evaluator" where
  "reclaim_audits 0 now e = e"
| "reclaim_audits (Suc budget) now e =
     (case ev_denial_expirations e of
        [] \<Rightarrow> e
      | (last_seen, key) # rest \<Rightarrow>
        if now - last_seen < ev_denial_interval e then e
        else reclaim_audits budget now
          (e\<lparr>ev_denial_expirations := rest, ev_denial_audits := hm_remove key (ev_denial_audits e)\<rparr>))"

definition record_audit :: "policy_flow_key \<Rightarrow> nat \<Rightarrow> 'net evaluator \<Rightarrow> 'net evaluator" where
  "record_audit flow now e =
     e\<lparr>ev_denial_audits := hm_insert flow now (ev_denial_audits e),
       ev_denial_expirations := bset_insert (now, flow) (ev_denial_expirations e)\<rparr>"

definition admit_denial_audit :: "policy_flow_key \<Rightarrow> nat \<Rightarrow> 'net evaluator \<Rightarrow> 'net evaluator \<times> bool" where
  "admit_denial_audit flow now e =
     (if ev_denial_interval e = 0 then (e, True)
      else
        let e = reclaim_audits (max (ev_expiry_budget e) 1) now e in
        case hm_get (ev_denial_audits e) flow of
          Some last_seen \<Rightarrow>
            if now - last_seen < ev_denial_interval e then (e, False)
            else (record_audit flow now
                (e\<lparr>ev_denial_expirations := bset_remove (last_seen, flow) (ev_denial_expirations e)\<rparr>), True)
        | None \<Rightarrow>
            if ev_max_states e \<le> length (ev_denial_audits e) then (e, False)
            else (record_audit flow now e, True))"

definition denial ::
    "policy_flow_key \<Rightarrow> uuid option \<Rightarrow> nat \<Rightarrow> 'net evaluator \<Rightarrow> 'net evaluator \<times> evaluator_decision" where
  "denial flow rule_id now e =
     (let (e, emit) = admit_denial_audit flow now e in
      (e, \<lparr>ed_action = PDeny, ed_rule_id = rule_id, ed_emit_denial_audit = emit,
           ed_revision = po_revision (ev_policy e)\<rparr>))"

definition has_flow_state :: "policy_packet \<Rightarrow> nat \<Rightarrow> 'net evaluator \<Rightarrow> 'net evaluator \<times> bool" where
  "has_flow_state packet now =
     (case pp_fragment_of packet of
        Some first_fragment \<Rightarrow>
          or_else (state_valid first_fragment now False)
            (state_valid (policy_reverse first_fragment) now False)
      | None \<Rightarrow>
          or_else (state_valid (pp_flow packet) now (pp_related_flow packet = None))
            (or_else (state_valid (policy_reverse (pp_flow packet)) now (pp_related_flow packet = None))
              (case pp_related_flow packet of
                 None \<Rightarrow> (\<lambda>e. (e, False)) | Some flow \<Rightarrow> state_valid flow now False)))"

definition decide :: "'net policy_env \<Rightarrow> 'net policy \<Rightarrow> policy_packet \<Rightarrow> initiation_decision" where
  "decide env policy packet =
     decide_initiation env policy (pp_source packet) (pp_destination packet) (fk_protocol (pp_flow packet))
       (fk_destination_port (pp_flow packet))"

definition evaluate_packet ::
    "'net policy_env \<Rightarrow> policy_packet \<Rightarrow> nat \<Rightarrow> 'net evaluator \<Rightarrow> 'net evaluator \<times> evaluator_decision" where
  "evaluate_packet env packet now e =
     (let e = expire_some now e in
      if pp_mesh_id packet \<noteq> ev_mesh_id e then denial (pp_flow packet) None now e
      else
        let (e, has_state) = has_flow_state packet now e in
        if has_state then
          (e, \<lparr>ed_action = PAllow, ed_rule_id = None, ed_emit_denial_audit = False,
               ed_revision = po_revision (ev_policy e)\<rparr>)
        else if pp_fragment_of packet \<noteq> None \<or> pp_related_flow packet \<noteq> None \<or> \<not> pp_initiating packet
        then denial (pp_flow packet) None now e
        else
          let decision = decide env (ev_policy e) packet in
          if pn_action decision = PAllow then
            (insert_state (pp_flow packet) now e,
             \<lparr>ed_action = pn_action decision, ed_rule_id = pn_rule_id decision,
              ed_emit_denial_audit = False, ed_revision = po_revision (ev_policy e)\<rparr>)
          else denial (pp_flow packet) (pn_rule_id decision) now e)"

section \<open>Invariant\<close>

definition states_ok :: "'net evaluator \<Rightarrow> bool" where
  "states_ok e \<longleftrightarrow>
     hm_ok (ev_states e) \<and> index_ok se_expires_at (ev_states e) (ev_state_expirations e)
     \<and> index_ok se_touched_at (ev_states e) (ev_state_recency e)
     \<and> length (ev_states e) \<le> ev_max_states e"

definition audits_ok :: "'net evaluator \<Rightarrow> bool" where
  "audits_ok e \<longleftrightarrow>
     hm_ok (ev_denial_audits e) \<and> index_ok (\<lambda>t. t) (ev_denial_audits e) (ev_denial_expirations e)
     \<and> length (ev_denial_audits e) \<le> ev_max_states e"

definition evaluator_inv :: "'net evaluator \<Rightarrow> bool" where
  "evaluator_inv e \<longleftrightarrow> states_ok e \<and> audits_ok e"

definition state_deadline :: "'net evaluator \<Rightarrow> policy_flow_key \<Rightarrow> nat option" where
  "state_deadline e k = map_option se_expires_at (hm_get (ev_states e) k)"

lemma remove_state_states [simp]: "ev_states (remove_state k e) = hm_remove k (ev_states e)"
  by (simp add: remove_state_def hm_remove_absent split: option.split)

lemma remove_state_other [simp]:
  "ev_mesh_id (remove_state k e) = ev_mesh_id e" "ev_policy (remove_state k e) = ev_policy e"
  "ev_denial_audits (remove_state k e) = ev_denial_audits e"
  "ev_denial_expirations (remove_state k e) = ev_denial_expirations e"
  "ev_max_states (remove_state k e) = ev_max_states e"
  "ev_expiry_budget (remove_state k e) = ev_expiry_budget e"
  "ev_denial_interval (remove_state k e) = ev_denial_interval e"
  by (simp_all add: remove_state_def split: option.split)

lemma remove_state_ok: "states_ok e \<Longrightarrow> states_ok (remove_state k e)"
  using hm_remove_length_le [of k "ev_states e"]
  by (auto simp: states_ok_def remove_state_def index_ok_remove split: option.split)

interpretation state_table: deadline_table state_deadline first_state remove_state states_ok
proof unfold_locales
  fix e :: "'a evaluator" and d k k' d'
  assume ok: "states_ok e"
  then have idx: "index_ok se_expires_at (ev_states e) (ev_state_expirations e)" by (simp add: states_ok_def)
  show "state_deadline e k = None" if "first_state e = None"
    using that index_ok_first_None [OF idx] by (simp add: state_deadline_def first_state_def)
  show "state_deadline e k = Some d" if "first_state e = Some (d, k)"
    using that index_ok_first [OF idx] by (auto simp: state_deadline_def first_state_def)
  show "d \<le> d'" if "first_state e = Some (d, k)" "state_deadline e k' = Some d'"
    using that index_ok_first_least [OF idx] by (auto simp: state_deadline_def first_state_def)
  show "state_deadline (remove_state k e) k' = (if k' = k then None else state_deadline e k')"
    by (simp add: state_deadline_def table_simps)
  show "states_ok (remove_state k e)" using ok by (rule remove_state_ok)
qed

text \<open>Operations on flow state leave everything else alone, and so do audits.\<close>

definition same_rest :: "'net evaluator \<Rightarrow> 'net evaluator \<Rightarrow> bool" where
  "same_rest e e' \<longleftrightarrow>
     ev_mesh_id e' = ev_mesh_id e \<and> ev_policy e' = ev_policy e \<and> ev_max_states e' = ev_max_states e
     \<and> ev_expiry_budget e' = ev_expiry_budget e \<and> ev_denial_interval e' = ev_denial_interval e
     \<and> ev_denial_audits e' = ev_denial_audits e \<and> ev_denial_expirations e' = ev_denial_expirations e"

definition same_states :: "'net evaluator \<Rightarrow> 'net evaluator \<Rightarrow> bool" where
  "same_states e e' \<longleftrightarrow>
     ev_mesh_id e' = ev_mesh_id e \<and> ev_policy e' = ev_policy e \<and> ev_max_states e' = ev_max_states e
     \<and> ev_expiry_budget e' = ev_expiry_budget e \<and> ev_denial_interval e' = ev_denial_interval e
     \<and> ev_states e' = ev_states e \<and> ev_state_expirations e' = ev_state_expirations e
     \<and> ev_state_recency e' = ev_state_recency e"

lemma same_rest_refl [simp]: "same_rest e e"
  by (simp add: same_rest_def)

lemma same_rest_trans: "same_rest a b \<Longrightarrow> same_rest b c \<Longrightarrow> same_rest a c"
  by (simp add: same_rest_def)

lemma same_rest_audits: "same_rest e e' \<Longrightarrow> audits_ok e' \<longleftrightarrow> audits_ok e"
  by (simp add: same_rest_def audits_ok_def)

lemma same_states_ok: "same_states e e' \<Longrightarrow> states_ok e' \<longleftrightarrow> states_ok e"
  by (simp add: same_states_def states_ok_def)

lemma remove_state_rest [simp]: "same_rest e (remove_state k e)"
  by (simp add: same_rest_def)

lemma expire_some_rest: "same_rest e (expire_some now e)"
  unfolding expire_some_def by (rule sweep_preserves) (auto intro: same_rest_trans)

lemma expire_some_ok: "states_ok e \<Longrightarrow> states_ok (expire_some now e)"
  unfolding expire_some_def by (rule state_table.sweep_inv)

lemma expire_some_get: "hm_get (ev_states (expire_some now e)) k \<in> {None, hm_get (ev_states e) k}"
proof -
  have "\<forall>k. hm_get (ev_states (expire_some now e)) k \<in> {None, hm_get (ev_states e) k}"
    unfolding expire_some_def by (rule sweep_preserves) (auto simp: table_simps)
  then show ?thesis by blast
qed

lemma expire_some_keeps_live:
  assumes "states_ok e" and "hm_get (ev_states e) k = Some s" and "now < se_expires_at s"
  shows "hm_get (ev_states (expire_some now e)) k = Some s"
  using state_table.sweep_keeps_live [OF assms(1), of k "se_expires_at s" now "ev_expiry_budget e"] assms(2,3)
    expire_some_get [of now e k]
  by (auto simp: state_deadline_def expire_some_def)

text \<open>A state check: what it answers and what it keeps.\<close>

lemma state_valid_answer:
  "snd (state_valid k now refresh e) \<longleftrightarrow> (\<exists>s. hm_get (ev_states e) k = Some s \<and> now < se_expires_at s)"
  by (auto simp: state_valid_def Let_def split: option.split)

lemma state_valid_rest: "same_rest e (fst (state_valid k now refresh e))"
  by (auto simp: state_valid_def Let_def same_rest_def split: option.split)

lemma state_valid_ok:
  assumes ok: "states_ok e"
  shows "states_ok (fst (state_valid k now refresh e))"
proof (cases "hm_get (ev_states e) k")
  case None
  then show ?thesis using ok by (simp add: state_valid_def)
next
  case (Some s)
  let ?x = "saturating_add now (flow_lifetime (fk_protocol k))"
  let ?s = "\<lparr>se_expires_at = ?x, se_touched_at = now\<rparr>"
  have "index_ok se_expires_at (hm_insert k ?s (ev_states e))
      (bset_insert (se_expires_at ?s, k) (bset_remove (se_expires_at s, k) (ev_state_expirations e)))"
    "index_ok se_touched_at (hm_insert k ?s (ev_states e))
      (bset_insert (se_touched_at ?s, k) (bset_remove (se_touched_at s, k) (ev_state_recency e)))"
    by (rule index_ok_insert_replace [OF _ Some]; use ok in \<open>simp add: states_ok_def\<close>)+
  moreover have "length (hm_insert k ?s (ev_states e)) = length (ev_states e)"
    by (rule hm_get_Some_length [OF Some])
  ultimately show ?thesis
    using ok Some by (simp add: state_valid_def Let_def remove_state_ok) (simp add: states_ok_def)
qed

lemma state_valid_dom: "hm_get (ev_states (fst (state_valid k now refresh e))) k' \<noteq> None \<Longrightarrow> hm_get (ev_states e) k' \<noteq> None"
  by (auto simp: state_valid_def Let_def table_simps split: option.splits if_splits)

text \<open>What a chain of state checks keeps.\<close>

definition kept :: "'net evaluator \<Rightarrow> 'net evaluator \<Rightarrow> bool" where
  "kept e e' \<longleftrightarrow> same_rest e e' \<and> (states_ok e \<longrightarrow> states_ok e')
     \<and> (\<forall>k. hm_get (ev_states e') k \<noteq> None \<longrightarrow> hm_get (ev_states e) k \<noteq> None)"

definition keeps :: "('net evaluator \<Rightarrow> 'net evaluator \<times> bool) \<Rightarrow> bool" where
  "keeps f \<longleftrightarrow> (\<forall>e. kept e (fst (f e)))"

lemma kept_trans: "kept a b \<Longrightarrow> kept b c \<Longrightarrow> kept a c"
  unfolding kept_def using same_rest_trans by blast

lemma keeps_state_valid: "keeps (state_valid k now refresh)"
  using state_valid_rest state_valid_ok state_valid_dom unfolding keeps_def kept_def by blast

lemma keeps_or_else:
  assumes "keeps f" and "keeps g"
  shows "keeps (or_else f g)"
proof -
  have "kept e (fst (or_else f g e))" for e
  proof (cases "snd (f e)")
    case True
    then show ?thesis using assms(1) by (simp add: or_else_def split_beta Let_def keeps_def)
  next
    case False
    then have "fst (or_else f g e) = fst (g (fst (f e)))" by (simp add: or_else_def split_beta Let_def)
    then show ?thesis using assms kept_trans unfolding keeps_def by metis
  qed
  then show ?thesis by (simp add: keeps_def)
qed

lemma keeps_skip: "keeps (\<lambda>e. (e, False))"
  by (simp add: keeps_def kept_def)

lemma keeps_has_flow_state: "keeps (has_flow_state packet now)"
  by (auto simp: has_flow_state_def intro!: keeps_or_else keeps_state_valid keeps_skip split: option.split)

text \<open>When the flow itself has no live entry left, its expired entry has been removed.\<close>

lemma has_flow_state_absent:
  assumes "\<not> snd (has_flow_state packet now e)" and "pp_fragment_of packet = None"
  shows "hm_get (ev_states (fst (has_flow_state packet now e))) (pp_flow packet) = None"
proof -
  let ?e1 = "fst (state_valid (pp_flow packet) now (pp_related_flow packet = None) e)"
  have "\<not> snd (state_valid (pp_flow packet) now (pp_related_flow packet = None) e)"
    using assms by (auto simp: has_flow_state_def or_else_def split_beta Let_def)
  then have none: "hm_get (ev_states ?e1) (pp_flow packet) = None"
    by (auto simp: state_valid_def Let_def table_simps split: option.splits if_splits)
  let ?g = "or_else (state_valid (policy_reverse (pp_flow packet)) now (pp_related_flow packet = None))
    (case pp_related_flow packet of None \<Rightarrow> (\<lambda>e. (e, False)) | Some flow \<Rightarrow> state_valid flow now False)"
  have "keeps ?g"
    by (auto intro!: keeps_or_else keeps_state_valid keeps_skip split: option.split)
  then have "hm_get (ev_states (fst (?g ?e1))) (pp_flow packet) = None"
    using none unfolding keeps_def kept_def by blast
  moreover have "fst (has_flow_state packet now e) = fst (?g ?e1)"
    using assms by (auto simp: has_flow_state_def or_else_def split_beta Let_def)
  ultimately show ?thesis by simp
qed

text \<open>A positive answer of a chain of checks comes from a live entry of the state it started in.\<close>

definition live :: "nat \<Rightarrow> policy_flow_key \<Rightarrow> 'net evaluator \<Rightarrow> bool" where
  "live now k e \<longleftrightarrow> (\<exists>s. hm_get (ev_states e) k = Some s \<and> now < se_expires_at s)"

lemma state_valid_live: "snd (state_valid k now refresh e) \<longleftrightarrow> live now k e"
  by (simp add: state_valid_answer live_def)

lemma state_valid_miss:
  "\<not> snd (state_valid k now refresh e) \<Longrightarrow> live now k' (fst (state_valid k now refresh e)) \<longleftrightarrow> live now k' e"
  by (auto simp: state_valid_def live_def Let_def table_simps split: option.splits if_splits)

lemma has_flow_state_iff:
  "snd (has_flow_state packet now e) \<longleftrightarrow>
    (case pp_fragment_of packet of
       Some f \<Rightarrow> live now f e \<or> live now (policy_reverse f) e
     | None \<Rightarrow> live now (pp_flow packet) e \<or> live now (policy_reverse (pp_flow packet)) e
         \<or> (case pp_related_flow packet of None \<Rightarrow> False | Some f \<Rightarrow> live now f e))"
  by (auto simp: has_flow_state_def or_else_def split_beta Let_def state_valid_live state_valid_miss
      split: option.splits)

text \<open>Eviction makes room for exactly one entry.\<close>

lemma evict_oldest_ok:
  assumes ok: "states_ok e" and pos: "ev_max_states e \<noteq> 0"
  shows "states_ok (evict_oldest e)" "length (ev_states (evict_oldest e)) < ev_max_states e"
    "same_rest e (evict_oldest e)"
    "hm_get (ev_states (evict_oldest e)) k \<in> {None, hm_get (ev_states e) k}"
proof -
  have rec: "index_ok se_touched_at (ev_states e) (ev_state_recency e)" and hm: "hm_ok (ev_states e)"
    and len: "length (ev_states e) \<le> ev_max_states e" using ok by (simp_all add: states_ok_def)
  have "states_ok (evict_oldest e) \<and> length (ev_states (evict_oldest e)) < ev_max_states e
    \<and> same_rest e (evict_oldest e) \<and> hm_get (ev_states (evict_oldest e)) k \<in> {None, hm_get (ev_states e) k}"
  proof (cases "ev_max_states e \<le> length (ev_states e)")
    case False
    then show ?thesis using ok by (simp add: evict_oldest_def)
  next
    case True
    then have ne: "ev_states e \<noteq> []" using pos by auto
    obtain t old where f: "bset_first (ev_state_recency e) = Some (t, old)"
    proof (cases "bset_first (ev_state_recency e)")
      case None
      then have "ev_state_recency e = []" by simp
      then show ?thesis using rec ne index_ok_empty by metis
    qed (use that in auto)
    obtain s where "hm_get (ev_states e) old = Some s" using index_ok_first [OF rec f] by blast
    then have "length (hm_remove old (ev_states e)) < length (ev_states e)"
      by (rule hm_remove_length_less)
    then show ?thesis using True f ok len by (auto simp: evict_oldest_def remove_state_ok table_simps)
  qed
  then show "states_ok (evict_oldest e)" "length (ev_states (evict_oldest e)) < ev_max_states e"
    "same_rest e (evict_oldest e)" "hm_get (ev_states (evict_oldest e)) k \<in> {None, hm_get (ev_states e) k}"
    by auto
qed

lemma insert_state_ok:
  assumes ok: "states_ok e" and new: "hm_get (ev_states e) flow = None"
  shows "states_ok (insert_state flow now e)" "same_rest e (insert_state flow now e)"
    "hm_get (ev_states (insert_state flow now e)) k \<noteq> None \<Longrightarrow> k = flow \<or> hm_get (ev_states e) k \<noteq> None"
    "ev_max_states e \<noteq> 0 \<Longrightarrow> hm_get (ev_states (insert_state flow now e)) flow =
      Some \<lparr>se_expires_at = saturating_add now (flow_lifetime (fk_protocol flow)), se_touched_at = now\<rparr>"
proof -
  let ?s = "\<lparr>se_expires_at = saturating_add now (flow_lifetime (fk_protocol flow)), se_touched_at = now\<rparr>"
  have main: "states_ok (insert_state flow now e) \<and> same_rest e (insert_state flow now e)
    \<and> (hm_get (ev_states (insert_state flow now e)) k \<noteq> None \<longrightarrow> k = flow \<or> hm_get (ev_states e) k \<noteq> None)"
  proof (cases "ev_max_states e = 0")
    case True
    then show ?thesis using ok by (simp add: insert_state_def)
  next
    case False
    note ev = evict_oldest_ok [OF ok False]
    have gone: "hm_get (ev_states (evict_oldest e)) flow = None" using ev(4) [of flow] new by simp
    have "index_ok se_expires_at (hm_insert flow ?s (ev_states (evict_oldest e)))
        (bset_insert (se_expires_at ?s, flow) (ev_state_expirations (evict_oldest e)))"
      "index_ok se_touched_at (hm_insert flow ?s (ev_states (evict_oldest e)))
        (bset_insert (se_touched_at ?s, flow) (ev_state_recency (evict_oldest e)))"
      by (rule index_ok_insert_new [OF _ gone]; use ev(1) in \<open>simp add: states_ok_def\<close>)+
    moreover have "length (hm_insert flow ?s (ev_states (evict_oldest e))) = Suc (length (ev_states (evict_oldest e)))"
      by (rule hm_get_None_length [OF gone])
    moreover have "ev_max_states (evict_oldest e) = ev_max_states e" using ev(3) by (simp add: same_rest_def)
    ultimately have "states_ok (insert_state flow now e)"
      using ev(1,2) False by (simp add: insert_state_def Let_def) (simp add: states_ok_def)
    moreover have "same_rest e (insert_state flow now e)"
      using ev(3) False by (simp add: insert_state_def Let_def same_rest_def)
    moreover have "hm_get (ev_states (insert_state flow now e)) k
        = (if k = flow then Some ?s else hm_get (ev_states (evict_oldest e)) k)"
      using False by (simp add: insert_state_def Let_def table_simps)
    ultimately show ?thesis using ev(4) [of k] by auto
  qed
  then show "states_ok (insert_state flow now e)" "same_rest e (insert_state flow now e)"
    "hm_get (ev_states (insert_state flow now e)) k \<noteq> None \<Longrightarrow> k = flow \<or> hm_get (ev_states e) k \<noteq> None"
    by auto
  show "ev_max_states e \<noteq> 0 \<Longrightarrow> hm_get (ev_states (insert_state flow now e)) flow = Some ?s"
    by (simp add: insert_state_def Let_def table_simps)
qed

section \<open>Denial audits\<close>

definition audit_deadline :: "'net evaluator \<Rightarrow> policy_flow_key \<Rightarrow> nat option" where
  "audit_deadline e k = map_option (\<lambda>t. t + ev_denial_interval e) (hm_get (ev_denial_audits e) k)"

definition first_audit :: "'net evaluator \<Rightarrow> (nat \<times> policy_flow_key) option" where
  "first_audit e = map_option (\<lambda>(t, k). (t + ev_denial_interval e, k)) (bset_first (ev_denial_expirations e))"

definition drop_audit :: "policy_flow_key \<Rightarrow> 'net evaluator \<Rightarrow> 'net evaluator" where
  "drop_audit k e =
     (case hm_get (ev_denial_audits e) k of
        None \<Rightarrow> e
      | Some t \<Rightarrow> e\<lparr>ev_denial_expirations := bset_remove (t, k) (ev_denial_expirations e),
          ev_denial_audits := hm_remove k (ev_denial_audits e)\<rparr>)"

lemma drop_audit_audits [simp]: "ev_denial_audits (drop_audit k e) = hm_remove k (ev_denial_audits e)"
  by (simp add: drop_audit_def hm_remove_absent split: option.split)

lemma drop_audit_states [simp]: "same_states e (drop_audit k e)"
  by (simp add: drop_audit_def same_states_def split: option.split)

lemma drop_audit_ok: "audits_ok e \<Longrightarrow> audits_ok (drop_audit k e)"
  using hm_remove_length_le [of k "ev_denial_audits e"] index_ok_remove [of "\<lambda>t. t" "ev_denial_audits e" _ k]
  by (auto simp: audits_ok_def drop_audit_def split: option.split)

interpretation audit_table: deadline_table audit_deadline first_audit drop_audit audits_ok
proof unfold_locales
  fix e :: "'a evaluator" and d k k' d'
  assume ok: "audits_ok e"
  then have idx: "index_ok (\<lambda>t. t) (ev_denial_audits e) (ev_denial_expirations e)" by (simp add: audits_ok_def)
  show "audit_deadline e k = None" if "first_audit e = None"
    using that index_ok_first_None [OF idx] by (simp add: audit_deadline_def first_audit_def)
  show "audit_deadline e k = Some d" if "first_audit e = Some (d, k)"
    using that index_ok_first [OF idx] by (auto simp: audit_deadline_def first_audit_def)
  show "d \<le> d'" if "first_audit e = Some (d, k)" "audit_deadline e k' = Some d'"
    using that index_ok_first_least [OF idx] by (fastforce simp: audit_deadline_def first_audit_def)
  have "ev_denial_interval (drop_audit k e) = ev_denial_interval e"
    using drop_audit_states [of e k] by (simp add: same_states_def)
  then show "audit_deadline (drop_audit k e) k' = (if k' = k then None else audit_deadline e k')"
    by (simp add: audit_deadline_def table_simps)
  show "audits_ok (drop_audit k e)" using ok by (rule drop_audit_ok)
qed

text \<open>The reclamation loop of the code is the shared one.\<close>

lemma reclaim_audits_sweep:
  "audits_ok e \<Longrightarrow> 0 < ev_denial_interval e \<Longrightarrow>
   reclaim_audits budget now e = sweep first_audit drop_audit now budget e"
proof (induction budget arbitrary: e)
  case 0
  then show ?case by simp
next
  case (Suc budget)
  have idx: "index_ok (\<lambda>t. t) (ev_denial_audits e) (ev_denial_expirations e)"
    using Suc.prems(1) by (simp add: audits_ok_def)
  show ?case
  proof (cases "ev_denial_expirations e")
    case Nil
    then show ?thesis by (simp add: first_audit_def)
  next
    case (Cons p rest)
    obtain t k where p: "p = (t, k)" by (cases p)
    have get: "hm_get (ev_denial_audits e) k = Some t" using index_ok_first [OF idx, of t k] Cons p by simp
    have "ascending (p # rest)" using index_ok_ascending [OF idx] Cons by simp
    then have "bset_remove (t, k) ((t, k) # rest) = rest"
      unfolding bset_remove_def p by (auto simp: filter_id_conv)
    then have drop: "drop_audit k e
        = e\<lparr>ev_denial_expirations := rest, ev_denial_audits := hm_remove k (ev_denial_audits e)\<rparr>"
      using get Cons p by (simp add: drop_audit_def)
    have "ev_denial_interval (drop_audit k e) = ev_denial_interval e"
      using drop_audit_states [of e k] by (simp add: same_states_def)
    then have "reclaim_audits budget now (drop_audit k e) = sweep first_audit drop_audit now budget (drop_audit k e)"
      using Suc.IH [OF drop_audit_ok [OF Suc.prems(1)], of k] Suc.prems(2) by simp
    moreover have "now - t < ev_denial_interval e \<longleftrightarrow> now < t + ev_denial_interval e"
      using Suc.prems(2) by linarith
    moreover have "first_audit e = Some (t + ev_denial_interval e, k)"
      using Cons p by (simp add: first_audit_def)
    ultimately show ?thesis using Cons p drop by simp
  qed
qed

lemma reclaim_audits_spec:
  assumes ok: "audits_ok e" and pos: "0 < ev_denial_interval e"
  shows "audits_ok (reclaim_audits budget now e)" "same_states e (reclaim_audits budget now e)"
    "hm_get (ev_denial_audits (reclaim_audits budget now e)) k =
      (case hm_get (ev_denial_audits e) k of
         None \<Rightarrow> None
       | Some t \<Rightarrow> if now < t + ev_denial_interval e then Some t
           else hm_get (ev_denial_audits (reclaim_audits budget now e)) k)"
    "hm_get (ev_denial_audits (reclaim_audits budget now e)) k \<in> {None, hm_get (ev_denial_audits e) k}"
proof -
  let ?e = "sweep first_audit drop_audit now budget e"
  note eq = reclaim_audits_sweep [OF ok pos, of budget now]
  show "audits_ok (reclaim_audits budget now e)" unfolding eq using ok by (rule audit_table.sweep_inv)
  have tr: "same_states a b \<Longrightarrow> same_states b c \<Longrightarrow> same_states a c" for a b c :: "'a evaluator"
    by (simp add: same_states_def)
  have "same_states e ?e" by (rule sweep_preserves) (auto intro: tr simp: same_states_def [of e e])
  then show same: "same_states e (reclaim_audits budget now e)" unfolding eq .
  have "\<forall>k. hm_get (ev_denial_audits ?e) k \<in> {None, hm_get (ev_denial_audits e) k}"
    by (rule sweep_preserves) (auto simp: table_simps)
  then show sub: "hm_get (ev_denial_audits (reclaim_audits budget now e)) k \<in> {None, hm_get (ev_denial_audits e) k}"
    unfolding eq by blast
  show "hm_get (ev_denial_audits (reclaim_audits budget now e)) k =
      (case hm_get (ev_denial_audits e) k of
         None \<Rightarrow> None
       | Some t \<Rightarrow> if now < t + ev_denial_interval e then Some t
           else hm_get (ev_denial_audits (reclaim_audits budget now e)) k)"
    using audit_table.sweep_keeps_live [OF ok, of k _ now budget] sub same
    by (auto simp: audit_deadline_def same_states_def eq split: option.split)
qed

lemma same_states_trans: "same_states a b \<Longrightarrow> same_states b c \<Longrightarrow> same_states a c"
  by (simp add: same_states_def)

lemma same_states_refl [simp]: "same_states e e"
  by (simp add: same_states_def)

text \<open>An audit decision: what it records, and when it says yes.\<close>

lemma admit_denial_audit_spec:
  fixes e :: "'net evaluator" and flow :: policy_flow_key and now :: nat
  assumes ok: "audits_ok e"
  defines "r \<equiv> admit_denial_audit flow now e"
  shows "audits_ok (fst r)" "same_states e (fst r)"
    "0 < ev_denial_interval e \<Longrightarrow> snd r \<Longrightarrow> hm_get (ev_denial_audits (fst r)) flow = Some now"
    "0 < ev_denial_interval e \<Longrightarrow> snd r \<Longrightarrow> hm_get (ev_denial_audits e) flow = Some t \<Longrightarrow>
      t + ev_denial_interval e \<le> now"
    "0 < ev_denial_interval e \<Longrightarrow> hm_get (ev_denial_audits e) k = Some t \<Longrightarrow>
      now < t + ev_denial_interval e \<Longrightarrow> hm_get (ev_denial_audits (fst r)) k = Some t"
proof -
  let ?e = "reclaim_audits (max (ev_expiry_budget e) 1) now e"
  have "audits_ok (fst r) \<and> same_states e (fst r)
    \<and> (0 < ev_denial_interval e \<longrightarrow> snd r \<longrightarrow> hm_get (ev_denial_audits (fst r)) flow = Some now)
    \<and> (0 < ev_denial_interval e \<longrightarrow> snd r \<longrightarrow> hm_get (ev_denial_audits e) flow = Some t \<longrightarrow>
        t + ev_denial_interval e \<le> now)
    \<and> (0 < ev_denial_interval e \<longrightarrow> hm_get (ev_denial_audits e) k = Some t \<longrightarrow>
        now < t + ev_denial_interval e \<longrightarrow> hm_get (ev_denial_audits (fst r)) k = Some t)"
  proof (cases "ev_denial_interval e = 0")
    case True
    then show ?thesis using ok by (simp add: r_def admit_denial_audit_def)
  next
    case False
    then have pos: "0 < ev_denial_interval e" by simp
    note re = reclaim_audits_spec [OF ok pos, of "max (ev_expiry_budget e) 1" now]
    have intv: "ev_denial_interval ?e = ev_denial_interval e" "ev_max_states ?e = ev_max_states e"
      using re(2) by (simp_all add: same_states_def)
    have ok1: "hm_ok (ev_denial_audits ?e)" "index_ok (\<lambda>t. t) (ev_denial_audits ?e) (ev_denial_expirations ?e)"
      "length (ev_denial_audits ?e) \<le> ev_max_states e"
      using re(1) intv by (simp_all add: audits_ok_def)
    have keep: "hm_get (ev_denial_audits ?e) j = Some u"
      if "hm_get (ev_denial_audits e) j = Some u" "now < u + ev_denial_interval e" for j u
      using re(3) [of j] that by simp
    show ?thesis
    proof (cases "hm_get (ev_denial_audits ?e) flow")
      case (Some u)
      have old: "hm_get (ev_denial_audits e) flow = Some u" using re(4) [of flow] Some by simp
      let ?e2 = "?e\<lparr>ev_denial_expirations := bset_remove (u, flow) (ev_denial_expirations ?e)\<rparr>"
      have idx: "index_ok (\<lambda>t. t) (hm_insert flow now (ev_denial_audits ?e))
          (bset_insert (now, flow) (bset_remove (u, flow) (ev_denial_expirations ?e)))"
        by (rule index_ok_insert_replace [OF ok1(2) Some])
      have "audits_ok (record_audit flow now ?e2)"
        using idx ok1 intv hm_get_Some_length [OF Some, of now] by (simp add: audits_ok_def record_audit_def)
      moreover have "same_states e (record_audit flow now ?e2)"
        using re(2) by (simp add: same_states_def record_audit_def)
      ultimately show ?thesis
        using Some old intv pos re(1,2) keep
        by (auto simp: r_def admit_denial_audit_def Let_def record_audit_def table_simps)
    next
      case None
      have idx: "index_ok (\<lambda>t. t) (hm_insert flow now (ev_denial_audits ?e))
          (bset_insert (now, flow) (ev_denial_expirations ?e))"
        by (rule index_ok_insert_new [OF ok1(2) None])
      have "audits_ok (record_audit flow now ?e)" if "length (ev_denial_audits ?e) < ev_max_states e"
        using idx ok1 intv that hm_get_None_length [OF None, of now] by (simp add: audits_ok_def record_audit_def)
      moreover have "same_states e (record_audit flow now ?e)"
        using re(2) by (simp add: same_states_def record_audit_def)
      moreover have "t + ev_denial_interval e \<le> now" if "hm_get (ev_denial_audits e) flow = Some t"
        using keep [OF that] None by force
      ultimately show ?thesis
        using None intv pos re(1,2) keep
        by (auto simp: r_def admit_denial_audit_def Let_def record_audit_def table_simps not_le)
    qed
  qed
  then show "audits_ok (fst r)" "same_states e (fst r)"
    "0 < ev_denial_interval e \<Longrightarrow> snd r \<Longrightarrow> hm_get (ev_denial_audits (fst r)) flow = Some now"
    "0 < ev_denial_interval e \<Longrightarrow> snd r \<Longrightarrow> hm_get (ev_denial_audits e) flow = Some t \<Longrightarrow>
      t + ev_denial_interval e \<le> now"
    "0 < ev_denial_interval e \<Longrightarrow> hm_get (ev_denial_audits e) k = Some t \<Longrightarrow>
      now < t + ev_denial_interval e \<Longrightarrow> hm_get (ev_denial_audits (fst r)) k = Some t" by auto
qed

lemma denial_eq:
  "denial flow rule_id now e =
    (fst (admit_denial_audit flow now e),
     \<lparr>ed_action = PDeny, ed_rule_id = rule_id, ed_emit_denial_audit = snd (admit_denial_audit flow now e),
      ed_revision = po_revision (ev_policy (fst (admit_denial_audit flow now e)))\<rparr>)"
  by (simp add: denial_def split_beta Let_def)

section \<open>Evaluation\<close>

text \<open>The three outcomes of an evaluation, over the state after reclamation.\<close>

definition checked :: "policy_packet \<Rightarrow> nat \<Rightarrow> 'net evaluator \<Rightarrow> 'net evaluator" where
  "checked packet now e =
     (if pp_mesh_id packet \<noteq> ev_mesh_id e then expire_some now e
      else fst (has_flow_state packet now (expire_some now e)))"

definition may_initiate :: "policy_packet \<Rightarrow> bool" where
  "may_initiate packet \<longleftrightarrow>
     pp_fragment_of packet = None \<and> pp_related_flow packet = None \<and> pp_initiating packet"

lemma checked_kept: "kept e (checked packet now e)"
proof -
  have dom: "hm_get (ev_states (expire_some now e)) k \<noteq> None \<longrightarrow> hm_get (ev_states e) k \<noteq> None" for k
    using expire_some_get [of now e k] by auto
  then have "kept e (expire_some now e)"
    unfolding kept_def using expire_some_rest [of e now] expire_some_ok [of e now] by simp
  moreover have "kept (expire_some now e) (fst (has_flow_state packet now (expire_some now e)))"
    using keeps_has_flow_state [of packet now] unfolding keeps_def by blast
  ultimately show ?thesis unfolding checked_def using kept_trans by auto
qed

lemma evaluate_packet_eq:
  "evaluate_packet env packet now e =
      (if pp_mesh_id packet \<noteq> ev_mesh_id e then denial (pp_flow packet) None now (expire_some now e)
       else if snd (has_flow_state packet now (expire_some now e)) then (fst (has_flow_state packet now (expire_some now e)), \<lparr>ed_action = PAllow, ed_rule_id = None, ed_emit_denial_audit = False,
         ed_revision = po_revision (ev_policy e)\<rparr>)
       else if \<not> may_initiate packet then denial (pp_flow packet) None now (fst (has_flow_state packet now (expire_some now e)))
       else if pn_action (decide env (ev_policy e) packet) = PAllow then
         (insert_state (pp_flow packet) now (fst (has_flow_state packet now (expire_some now e))),
          \<lparr>ed_action = PAllow, ed_rule_id = pn_rule_id (decide env (ev_policy e) packet),
           ed_emit_denial_audit = False, ed_revision = po_revision (ev_policy e)\<rparr>)
       else denial (pp_flow packet) (pn_rule_id (decide env (ev_policy e) packet)) now (fst (has_flow_state packet now (expire_some now e))))"
proof -
  have same: "ev_mesh_id (expire_some now e) = ev_mesh_id e" "ev_policy (expire_some now e) = ev_policy e"
    using expire_some_rest [of e now] by (simp_all add: same_rest_def)
  have pol: "ev_policy (fst (has_flow_state packet now (expire_some now e))) = ev_policy e"
    using keeps_has_flow_state [of packet now] same unfolding keeps_def kept_def same_rest_def by metis
  show ?thesis
    unfolding evaluate_packet_def may_initiate_def Let_def split_beta same pol by simp
qed

lemma evaluate_packet_cases:
  "(\<exists>rid. evaluate_packet env packet now e = denial (pp_flow packet) rid now (checked packet now e))
   \<or> pp_mesh_id packet = ev_mesh_id e
     \<and> (snd (has_flow_state packet now (expire_some now e))
        \<and> evaluate_packet env packet now e = (checked packet now e,
            \<lparr>ed_action = PAllow, ed_rule_id = None, ed_emit_denial_audit = False,
             ed_revision = po_revision (ev_policy e)\<rparr>)
      \<or> may_initiate packet \<and> pn_action (decide env (ev_policy e) packet) = PAllow
        \<and> \<not> snd (has_flow_state packet now (expire_some now e))
        \<and> evaluate_packet env packet now e = (insert_state (pp_flow packet) now (checked packet now e),
            \<lparr>ed_action = PAllow, ed_rule_id = pn_rule_id (decide env (ev_policy e) packet),
             ed_emit_denial_audit = False, ed_revision = po_revision (ev_policy e)\<rparr>))"
proof -
  let ?h = "has_flow_state packet now (expire_some now e)"
  note ev = evaluate_packet_eq [of env packet now e]
  consider "pp_mesh_id packet \<noteq> ev_mesh_id e" | "pp_mesh_id packet = ev_mesh_id e" "snd ?h"
    | "pp_mesh_id packet = ev_mesh_id e" "\<not> snd ?h" by blast
  then show ?thesis
  proof cases
    case 1
    then show ?thesis unfolding ev checked_def by auto
  next
    case 2
    then show ?thesis unfolding ev checked_def by simp
  next
    case 3
    then have c: "checked packet now e = fst ?h" by (simp add: checked_def)
    show ?thesis unfolding ev c using 3 by (cases "may_initiate packet";
        cases "pn_action (decide env (ev_policy e) packet) = PAllow") auto
  qed
qed

text \<open>
  Every history of one evaluator on a monotonic clock.  \<open>G\<close> collects the flows the policy has
  granted since the last replacement, \<open>E\<close> the denial audits emitted since then, and
  \<open>c\<close> is the latest instant seen.
\<close>

definition granted :: "'net policy_env \<Rightarrow> policy_packet \<Rightarrow> nat \<Rightarrow> 'net evaluator \<Rightarrow> policy_flow_key set" where
  "granted env packet now e =
     (if pp_mesh_id packet = ev_mesh_id e \<and> may_initiate packet
        \<and> pn_action (decide env (ev_policy e) packet) = PAllow then {pp_flow packet} else {})"

definition emitted :: "'net policy_env \<Rightarrow> policy_packet \<Rightarrow> nat \<Rightarrow> 'net evaluator \<Rightarrow> (policy_flow_key \<times> nat) set" where
  "emitted env packet now e =
     (if ed_emit_denial_audit (snd (evaluate_packet env packet now e)) then {(pp_flow packet, now)} else {})"

inductive evaluator_reachable ::
    "'net policy_env \<Rightarrow> policy_flow_key set \<Rightarrow> (policy_flow_key \<times> nat) set \<Rightarrow> nat \<Rightarrow> 'net evaluator \<Rightarrow> bool"
  for env where
  ev_start: "evaluator_reachable env {} {} 0 (evaluator_new mesh policy limit budget interval)"
| ev_step: "evaluator_reachable env G E c e \<Longrightarrow> c \<le> now \<Longrightarrow>
    evaluator_reachable env (G \<union> granted env packet now e) (E \<union> emitted env packet now e) now
      (fst (evaluate_packet env packet now e))"
| ev_replace: "evaluator_reachable env G E c e \<Longrightarrow> replace_policy policy e = (e', Ok ()) \<Longrightarrow>
    evaluator_reachable env {} {} c e'"

definition audits_sound :: "(policy_flow_key \<times> nat) set \<Rightarrow> nat \<Rightarrow> 'net evaluator \<Rightarrow> bool" where
  "audits_sound E c e \<longleftrightarrow>
     0 < ev_denial_interval e \<longrightarrow>
     (\<forall>(f, t) \<in> E. t \<le> c \<and>
       (t + ev_denial_interval e \<le> c \<or> (\<exists>u\<ge>t. hm_get (ev_denial_audits e) f = Some u)))"

definition evaluator_history ::
    "policy_flow_key set \<Rightarrow> (policy_flow_key \<times> nat) set \<Rightarrow> nat \<Rightarrow> 'net evaluator \<Rightarrow> bool" where
  "evaluator_history G E c e \<longleftrightarrow>
     states_ok e \<and> audits_ok e \<and> (\<forall>k. hm_get (ev_states e) k \<noteq> None \<longrightarrow> k \<in> G) \<and> audits_sound E c e"

lemma audits_sound_same: "same_rest e e' \<Longrightarrow> c \<le> c' \<Longrightarrow> audits_sound E c e \<Longrightarrow> audits_sound E c' e'"
  unfolding audits_sound_def same_rest_def by fastforce

lemma denial_history:
  assumes h: "evaluator_history G E c e" and t: "c \<le> now"
  shows "evaluator_history G (E \<union> (if snd (admit_denial_audit flow now e) then {(flow, now)} else {})) now
    (fst (admit_denial_audit flow now e))"
proof -
  have ok: "audits_ok e" and so: "states_ok e" and so2: "audits_sound E c e"
    using h by (simp_all add: evaluator_history_def)
  note a = admit_denial_audit_spec [OF ok, where flow = flow and now = now]
  let ?r = "admit_denial_audit flow now e"
  have intv: "ev_denial_interval (fst ?r) = ev_denial_interval e" and st: "ev_states (fst ?r) = ev_states e"
    using a(2) by (simp_all add: same_states_def)
  have "audits_sound (E \<union> (if snd ?r then {(flow, now)} else {})) now (fst ?r)"
    unfolding audits_sound_def intv
  proof (intro impI ballI, clarify)
    fix f u assume pos: "0 < ev_denial_interval e"
      and m: "(f, u) \<in> E \<union> (if snd ?r then {(flow, now)} else {})"
    show "u \<le> now \<and> (u + ev_denial_interval e \<le> now \<or> (\<exists>v\<ge>u. hm_get (ev_denial_audits (fst ?r)) f = Some v))"
    proof (cases "(f, u) \<in> E")
      case False
      then have "snd ?r" "f = flow" "u = now" using m by (auto split: if_splits)
      then show ?thesis using a(3) pos by auto
    next
      case True
      then have u: "u \<le> c" and d: "u + ev_denial_interval e \<le> c \<or> (\<exists>v\<ge>u. hm_get (ev_denial_audits e) f = Some v)"
        using so2 pos unfolding audits_sound_def by auto
      show ?thesis
      proof (cases "u + ev_denial_interval e \<le> now")
        case False
        then obtain v where v: "u \<le> v" "hm_get (ev_denial_audits e) f = Some v" using d t by auto
        then have "now < v + ev_denial_interval e" using False by linarith
        then show ?thesis using a(5) [OF pos v(2)] v(1) u t by auto
      qed (use u t in simp)
    qed
  qed
  moreover have "states_ok (fst ?r)" using same_states_ok [OF a(2)] so by simp
  ultimately show ?thesis using h a(1) st by (simp add: evaluator_history_def)
qed

lemma checked_history:
  assumes "evaluator_history G E c e" and "c \<le> now"
  shows "evaluator_history G E now (checked packet now e)"
proof -
  have k: "kept e (checked packet now e)" by (rule checked_kept)
  then show ?thesis
    using assms same_rest_audits audits_sound_same unfolding kept_def evaluator_history_def by blast
qed

lemma evaluate_history:
  assumes h: "evaluator_history G E c e" and t: "c \<le> now"
  shows "evaluator_history (G \<union> granted env packet now e) (E \<union> emitted env packet now e) now
    (fst (evaluate_packet env packet now e))"
proof -
  let ?e = "checked packet now e"
  note c = checked_history [OF h t, of packet]
  have mono: "evaluator_history G E' n x \<Longrightarrow> evaluator_history (G \<union> G') E' n x" for G' E' n and x :: "'a evaluator"
    by (auto simp: evaluator_history_def)
  consider rid where "evaluate_packet env packet now e = denial (pp_flow packet) rid now ?e"
    | "fst (evaluate_packet env packet now e) = ?e" "\<not> ed_emit_denial_audit (snd (evaluate_packet env packet now e))"
    | "pp_mesh_id packet = ev_mesh_id e" "may_initiate packet"
      "pn_action (decide env (ev_policy e) packet) = PAllow"
      "\<not> snd (has_flow_state packet now (expire_some now e))"
      "fst (evaluate_packet env packet now e) = insert_state (pp_flow packet) now ?e"
      "\<not> ed_emit_denial_audit (snd (evaluate_packet env packet now e))"
    using evaluate_packet_cases [of env packet now e] by fastforce
  then show ?thesis
  proof cases
    case (1 rid)
    then have "E \<union> emitted env packet now e
        = E \<union> (if snd (admit_denial_audit (pp_flow packet) now ?e) then {(pp_flow packet, now)} else {})"
      "fst (evaluate_packet env packet now e) = fst (admit_denial_audit (pp_flow packet) now ?e)"
      by (simp_all add: emitted_def denial_eq)
    then show ?thesis using mono [OF denial_history [OF c order.refl]] by simp
  next
    case 2
    then show ?thesis using mono [OF c] by (simp add: emitted_def)
  next
    case 3
    have absent: "hm_get (ev_states ?e) (pp_flow packet) = None"
      using has_flow_state_absent [of packet now "expire_some now e"] 3(1,2,4)
      by (simp add: checked_def may_initiate_def)
    have so: "states_ok ?e" using c by (simp add: evaluator_history_def)
    note ins = insert_state_ok [OF so absent, of now]
    have g: "granted env packet now e = {pp_flow packet}" using 3 by (simp add: granted_def)
    have "evaluator_history (G \<union> {pp_flow packet}) E now (insert_state (pp_flow packet) now ?e)"
      using c ins(1) ins(3) same_rest_audits [OF ins(2)] audits_sound_same [OF ins(2) order.refl]
      unfolding evaluator_history_def by blast
    then show ?thesis using 3 g by (simp add: emitted_def)
  qed
qed

lemma reachable_history: "evaluator_reachable env G E c e \<Longrightarrow> evaluator_history G E c e"
proof (induction rule: evaluator_reachable.induct)
  case (ev_start mesh policy limit budget interval)
  then show ?case
    by (simp add: evaluator_history_def evaluator_new_def states_ok_def audits_ok_def audits_sound_def)
next
  case (ev_step G E c e now packet)
  then show ?case by (intro evaluate_history)
next
  case (ev_replace G E c e policy e')
  then show ?case
    by (auto simp: replace_policy_def evaluator_history_def states_ok_def audits_ok_def audits_sound_def
        split: if_splits)
qed

section \<open>Properties\<close>

lemma policy_reverse_involution [simp]: "policy_reverse (policy_reverse k) = k"
  by (simp add: policy_reverse_def)

lemma evaluate_allow_cases:
  assumes "ed_action (snd (evaluate_packet env packet now e)) = PAllow"
  shows "pp_mesh_id packet = ev_mesh_id e"
    "may_initiate packet \<and> pn_action (decide env (ev_policy e) packet) = PAllow
     \<or> snd (has_flow_state packet now (expire_some now e))"
  using evaluate_packet_cases [of env packet now e] assms by (auto simp: denial_eq)

lemma live_expired: "live now k (expire_some n e) \<Longrightarrow> live now k e"
  using expire_some_get [of n e k] by (auto simp: live_def)

text \<open>The witnesses use the sample policy and one TCP connection of two peers.\<close>

definition sample_flow :: flow_key where
  "sample_flow = \<lparr>fk_source = V4 [0, 0, 0, 9], fk_destination = V4 [0, 0, 0, 10], fk_protocol = 6,
     fk_source_port = Some 5000, fk_destination_port = Some 443\<rparr>"

definition sample_packet :: policy_packet where
  "sample_packet = \<lparr>pp_mesh_id = [], pp_source = sample_peer 9, pp_destination = sample_peer 10,
     pp_flow = sample_flow, pp_initiating = True, pp_related_flow = None, pp_fragment_of = None\<rparr>"

definition evaluator_reply :: policy_packet where
  "evaluator_reply = sample_packet\<lparr>pp_source := sample_peer 10, pp_destination := sample_peer 9,
     pp_flow := policy_reverse sample_flow, pp_initiating := False\<rparr>"

definition sample_evaluator :: "policy_action \<Rightarrow> nat evaluator" where
  "sample_evaluator d = evaluator_new [] (policy_new 1 d []) 8 2 60"

lemma sample_decide: "pn_action (decide document_env (ev_policy (sample_evaluator d)) sample_packet) = d"
  by (simp add: decide_def decide_initiation_def sample_evaluator_def evaluator_new_def policy_new_def)

lemma sample_expired: "expire_some now (sample_evaluator d) = sample_evaluator d"
  unfolding expire_some_def
  by (rule sweep_done) (simp add: sample_evaluator_def evaluator_new_def first_state_def)

lemma sample_no_state: "\<not> snd (has_flow_state sample_packet now (sample_evaluator d))"
  by (simp add: has_flow_state_iff live_def sample_packet_def sample_evaluator_def evaluator_new_def)

lemma sample_mesh: "pp_mesh_id sample_packet = ev_mesh_id (sample_evaluator d)"
  by (simp add: sample_packet_def sample_evaluator_def evaluator_new_def)

lemma sample_may_initiate: "may_initiate sample_packet"
  by (simp add: may_initiate_def sample_packet_def)

lemma sample_packet_allowed: "ed_action (snd (evaluate_packet document_env sample_packet 100 (sample_evaluator PAllow))) = PAllow"
  unfolding evaluate_packet_eq sample_expired
  using sample_decide [of PAllow] sample_mesh [of PAllow] sample_no_state [of 100 PAllow] sample_may_initiate
  by simp

text \<open>(C6) Nothing is allowed without the policy: over every history of evaluations and replacements on a
  monotonic clock, an allowed packet belongs to the evaluator's mesh, and it is either an initiation that
  the current policy allows or refers, by its flow in either direction, by its first fragment or by the flow
  an ICMP error quotes, to a flow that the policy granted since its last replacement and whose entry expires
  after now.\<close>

theorem evaluator_authorization_sound:
  assumes "evaluator_reachable env G E c e"
    and "ed_action (snd (evaluate_packet env packet now e)) = PAllow"
  shows "pp_mesh_id packet = ev_mesh_id e
    \<and> (may_initiate packet \<and> pn_action (decide env (ev_policy e) packet) = PAllow
       \<or> (\<exists>k\<in>G. live now k e
           \<and> (case pp_fragment_of packet of
                Some f \<Rightarrow> k = f \<or> k = policy_reverse f
              | None \<Rightarrow> k = pp_flow packet \<or> k = policy_reverse (pp_flow packet)
                  \<or> pp_related_flow packet = Some k)))"
proof -
  have dom: "live now k e \<Longrightarrow> k \<in> G" for k
    using reachable_history [OF assms(1)] by (auto simp: evaluator_history_def live_def)
  have "\<exists>k\<in>G. live now k e
      \<and> (case pp_fragment_of packet of
           Some f \<Rightarrow> k = f \<or> k = policy_reverse f
         | None \<Rightarrow> k = pp_flow packet \<or> k = policy_reverse (pp_flow packet) \<or> pp_related_flow packet = Some k)"
    if "snd (has_flow_state packet now (expire_some now e))"
  proof -
    have in_G: "live now k (expire_some now e) \<Longrightarrow> k \<in> G \<and> live now k e" for k
      using dom [of k] live_expired [of now k now e] by simp
    show ?thesis
      using that in_G [of "pp_flow packet"] in_G [of "policy_reverse (pp_flow packet)"]
        in_G [of "the (pp_related_flow packet)"] in_G [of "the (pp_fragment_of packet)"]
        in_G [of "policy_reverse (the (pp_fragment_of packet))"]
      unfolding has_flow_state_iff by (auto split: option.splits)
  qed
  then show ?thesis using evaluate_allow_cases [OF assms(2)] by blast
qed

theorem evaluator_authorization_sound_witness:
  "pp_mesh_id sample_packet = ev_mesh_id (sample_evaluator PAllow)
    \<and> (may_initiate sample_packet \<or> (\<exists>k. live 100 k (sample_evaluator PAllow)))"
  using evaluator_authorization_sound [OF ev_start, of document_env sample_packet 100 "[]" "policy_new 1 PAllow []" 8 2 60]
    sample_packet_allowed unfolding sample_evaluator_def by blast

text \<open>Denial audits are rate limited per flow: with a positive interval, over every history on a
  monotonic clock, an emitted audit lies at least the interval after every earlier audit emitted for the
  same flow under the same policy, whatever other flows are denied in between.\<close>

theorem denial_audit_rate_limit:
  assumes "evaluator_reachable env G E c e" and "c \<le> now" and "0 < ev_denial_interval e"
    and "ed_emit_denial_audit (snd (evaluate_packet env packet now e))"
    and "(pp_flow packet, t) \<in> E"
  shows "t + ev_denial_interval e \<le> now"
proof -
  let ?e = "checked packet now e"
  have h: "evaluator_history G E now ?e"
    using checked_history [OF reachable_history [OF assms(1)] assms(2)] .
  have k: "kept e ?e" by (rule checked_kept)
  have intv: "ev_denial_interval ?e = ev_denial_interval e" using k by (simp add: kept_def same_rest_def)
  have emit: "snd (admit_denial_audit (pp_flow packet) now ?e)"
    using evaluate_packet_cases [of env packet now e] assms(4) by (auto simp: denial_eq)
  have "t + ev_denial_interval e \<le> now \<or> (\<exists>u\<ge>t. hm_get (ev_denial_audits ?e) (pp_flow packet) = Some u)"
    using h assms(3,5) intv by (auto simp: evaluator_history_def audits_sound_def)
  moreover have "u + ev_denial_interval e \<le> now" if "hm_get (ev_denial_audits ?e) (pp_flow packet) = Some u" for u
    using admit_denial_audit_spec(4) [of ?e "pp_flow packet" now u] h emit that assms(3) intv
    by (simp add: evaluator_history_def)
  ultimately show ?thesis by force
qed

lemma reclaim_audits_none: "ev_denial_expirations e = [] \<Longrightarrow> reclaim_audits n now e = e"
  by (cases n) simp_all

lemma no_states_check: "ev_states e = [] \<Longrightarrow> has_flow_state packet now e = (e, False)"
  by (auto simp: has_flow_state_def or_else_def state_valid_def split: option.split)

lemma no_states_expire: "ev_state_expirations e = [] \<Longrightarrow> expire_some now e = e"
  unfolding expire_some_def by (rule sweep_done) (simp add: first_state_def)

definition sample_audited :: "nat evaluator" where
  "sample_audited = record_audit sample_flow 100 (sample_evaluator PDeny)"

lemma sample_denied_step:
  assumes "ev_states e = []" "ev_state_expirations e = []" "ev_mesh_id e = []"
    "ev_policy e = policy_new 1 PDeny []"
  shows "evaluate_packet document_env sample_packet now e = denial sample_flow None now e"
  using assms sample_may_initiate
  by (simp add: evaluate_packet_eq no_states_expire no_states_check decide_def decide_initiation_def
      policy_new_def) (simp add: sample_packet_def)

lemma sample_audit_steps:
  "fst (evaluate_packet document_env sample_packet 100 (sample_evaluator PDeny)) = sample_audited"
  "ed_emit_denial_audit (snd (evaluate_packet document_env sample_packet 100 (sample_evaluator PDeny)))"
  "ed_emit_denial_audit (snd (evaluate_packet document_env sample_packet 200 sample_audited))"
  by (subst sample_denied_step; simp add: sample_audited_def sample_evaluator_def evaluator_new_def denial_eq
      admit_denial_audit_def Let_def reclaim_audits_none record_audit_def numeral_2_eq_2)+

lemma sample_audited_reachable:
  "evaluator_reachable document_env {} {(sample_flow, 100)} 100 sample_audited"
proof -
  have "granted document_env sample_packet 100 (sample_evaluator PDeny) = {}"
    using sample_decide [of PDeny] by (simp add: granted_def)
  moreover have "emitted document_env sample_packet 100 (sample_evaluator PDeny) = {(sample_flow, 100)}"
    by (simp add: emitted_def sample_audit_steps(2)) (simp add: sample_packet_def)
  ultimately show ?thesis
    using ev_step [OF ev_start, of 100 document_env sample_packet "[]" "policy_new 1 PDeny []" 8 2 60]
      sample_audit_steps(1) unfolding sample_evaluator_def by simp
qed

theorem denial_audit_rate_limit_witness:
  "ed_emit_denial_audit (snd (evaluate_packet document_env sample_packet 200 sample_audited))
    \<and> 100 + ev_denial_interval sample_audited \<le> 200"
proof -
  have "0 < ev_denial_interval sample_audited" "(pp_flow sample_packet, 100) \<in> {(sample_flow, 100 :: nat)}"
    by (simp_all add: sample_audited_def record_audit_def sample_evaluator_def evaluator_new_def sample_packet_def)
  then show ?thesis
    using denial_audit_rate_limit [OF sample_audited_reachable _ _ sample_audit_steps(3), of 100]
      sample_audit_steps(3) by simp
qed

text \<open>Memory is bounded and the indexes are exact: over every history the evaluator holds at most its
  limit of flow states and at most its limit of audit entries, the deadline and recency indexes list exactly
  the flow states, and the audit index exactly the audit entries.\<close>

theorem evaluator_bounds:
  assumes "evaluator_reachable env G E c e"
  shows "length (ev_states e) \<le> ev_max_states e \<and> length (ev_denial_audits e) \<le> ev_max_states e
    \<and> set (ev_state_expirations e) = {(se_expires_at s, k) | k s. hm_get (ev_states e) k = Some s}
    \<and> set (ev_state_recency e) = {(se_touched_at s, k) | k s. hm_get (ev_states e) k = Some s}
    \<and> set (ev_denial_expirations e) = {(t, k) | k t. hm_get (ev_denial_audits e) k = Some t}"
  using reachable_history [OF assms]
  by (auto simp: evaluator_history_def states_ok_def audits_ok_def index_ok_def)

theorem evaluator_bounds_witness:
  "length (ev_states sample_audited) \<le> ev_max_states sample_audited
    \<and> set (ev_denial_expirations sample_audited)
      = {(t, k) | k t. hm_get (ev_denial_audits sample_audited) k = Some t}"
  using evaluator_bounds [OF sample_audited_reachable] by blast

text \<open>Return traffic: after the policy allowed an initiation and the evaluator keeps state, every packet
  of the reversed flow in the same mesh is allowed without consulting the policy until the idle lifetime of
  the protocol has passed.\<close>

theorem evaluator_return_traffic:
  assumes "evaluator_reachable env G E c e" and "c \<le> now" and "ev_max_states e \<noteq> 0"
    and "pp_mesh_id packet = ev_mesh_id e" "may_initiate packet"
    and "pn_action (decide env (ev_policy e) packet) = PAllow"
    and "\<not> snd (has_flow_state packet now (expire_some now e))"
    and "pp_mesh_id reply = ev_mesh_id e" "pp_flow reply = policy_reverse (pp_flow packet)"
      "pp_fragment_of reply = None"
    and "later < saturating_add now (flow_lifetime (fk_protocol (pp_flow packet)))"
  shows "snd (evaluate_packet env reply later (fst (evaluate_packet env packet now e)))
    = \<lparr>ed_action = PAllow, ed_rule_id = None, ed_emit_denial_audit = False,
       ed_revision = po_revision (ev_policy e)\<rparr>"
proof -
  let ?e = "checked packet now e"
  let ?e1 = "insert_state (pp_flow packet) now ?e"
  have h: "evaluator_history G E now ?e"
    using checked_history [OF reachable_history [OF assms(1)] assms(2)] .
  have ev: "fst (evaluate_packet env packet now e) = ?e1"
    unfolding evaluate_packet_eq checked_def using assms(4-7) by simp
  have absent: "hm_get (ev_states ?e) (pp_flow packet) = None"
    using has_flow_state_absent [of packet now "expire_some now e"] assms(4,5,7)
    by (simp add: checked_def may_initiate_def)
  have so: "states_ok ?e" using h by (simp add: evaluator_history_def)
  have k: "same_rest e ?e" using checked_kept [of e packet now] by (simp add: kept_def)
  note ins = insert_state_ok [OF so absent, of now]
  have rest: "same_rest e ?e1" using same_rest_trans [OF k ins(2)] .
  have get: "hm_get (ev_states ?e1) (pp_flow packet) =
      Some \<lparr>se_expires_at = saturating_add now (flow_lifetime (fk_protocol (pp_flow packet))), se_touched_at = now\<rparr>"
    using ins(4) assms(3) k by (simp add: same_rest_def)
  have "hm_get (ev_states (expire_some later ?e1)) (pp_flow packet) =
      Some \<lparr>se_expires_at = saturating_add now (flow_lifetime (fk_protocol (pp_flow packet))), se_touched_at = now\<rparr>"
    using expire_some_keeps_live [OF ins(1) get] assms(11) by simp
  then have "snd (has_flow_state reply later (expire_some later ?e1))"
    using assms(9-11) unfolding has_flow_state_iff by (simp add: live_def)
  then show ?thesis
    unfolding ev using assms(8) rest by (simp add: evaluate_packet_eq same_rest_def)
qed

theorem evaluator_return_traffic_witness:
  "ed_action (snd (evaluate_packet document_env evaluator_reply 399
    (fst (evaluate_packet document_env sample_packet 100 (sample_evaluator PAllow))))) = PAllow"
proof -
  have "evaluator_reachable document_env {} {} 0 (sample_evaluator PAllow)"
    unfolding sample_evaluator_def by (rule ev_start)
  moreover have "ev_max_states (sample_evaluator PAllow) \<noteq> 0" "pp_mesh_id evaluator_reply = ev_mesh_id (sample_evaluator PAllow)"
    "pp_flow evaluator_reply = policy_reverse (pp_flow sample_packet)" "pp_fragment_of evaluator_reply = None"
    "399 < saturating_add 100 (flow_lifetime (fk_protocol (pp_flow sample_packet)))"
    by (simp_all add: sample_evaluator_def evaluator_new_def evaluator_reply_def sample_packet_def sample_flow_def
        flow_lifetime_def saturating_add_def u64_max_def)
  ultimately show ?thesis
    using evaluator_return_traffic [of document_env "{}" "{}" 0 "sample_evaluator PAllow" 100 sample_packet evaluator_reply 399]
      sample_mesh [of PAllow] sample_may_initiate sample_decide [of PAllow] sample_no_state [of 100 PAllow]
    by (simp add: sample_expired)
qed

end
