(* ===== verification/Fence.thy ===== *)
theory Fence
  imports Prelude
begin

text \<open>
  Generation fences.  The Relay tells incarnations of one attachment apart by a generation number
  that only grows: an operation never lowers the fence of a key, and what was released at a
  generation is not seen again at that generation or an earlier one.  The two locales state the
  contract of one step and carry it over every sequence of steps; the presence cache and the router
  are instances.
\<close>

locale generation_fence =
  fixes inv :: "'s \<Rightarrow> bool"
    and step :: "'s \<Rightarrow> 's \<Rightarrow> bool"
    and fence :: "'s \<Rightarrow> 'k \<Rightarrow> int option"
  assumes inv_step: "inv s \<Longrightarrow> step s s' \<Longrightarrow> inv s'"
    and fence_step: "inv s \<Longrightarrow> step s s' \<Longrightarrow> fence s k = Some g \<Longrightarrow> \<exists>g'. fence s' k = Some g' \<and> g \<le> g'"
begin

lemma inv_steps: "step\<^sup>*\<^sup>* s s' \<Longrightarrow> inv s \<Longrightarrow> inv s'"
  by (induction rule: rtranclp_induct) (auto intro: inv_step)

lemma fence_steps:
  "step\<^sup>*\<^sup>* s s' \<Longrightarrow> inv s \<Longrightarrow> fence s k = Some g \<Longrightarrow> \<exists>g'. fence s' k = Some g' \<and> g \<le> g'"
proof (induction rule: rtranclp_induct)
  case base
  then show ?case by simp
next
  case (step y z)
  then obtain g1 where g1: "fence y k = Some g1" "g \<le> g1" by auto
  from inv_steps [OF step.hyps(1) step.prems(1)] step.hyps(2) g1(1)
  obtain g2 where "fence z k = Some g2" "g1 \<le> g2" using fence_step by blast
  then show ?case using g1 by auto
qed

end

locale tombstone_fence = generation_fence +
  fixes live :: "'a \<Rightarrow> 'b \<Rightarrow> int option"
  assumes live_fence: "inv s \<Longrightarrow> live s k = Some g \<Longrightarrow> fence s k = Some g"
    and no_revival: "inv s \<Longrightarrow> step s s' \<Longrightarrow> live s k = None \<Longrightarrow> fence s k = Some g
      \<Longrightarrow> live s' k = Some h \<Longrightarrow> g < h"
begin

lemma dead_stays_dead:
  "step\<^sup>*\<^sup>* s s' \<Longrightarrow> inv s \<Longrightarrow> live s k = None \<Longrightarrow> fence s k = Some g \<Longrightarrow> live s' k = Some h \<Longrightarrow> g < h"
proof (induction arbitrary: h rule: rtranclp_induct)
  case base
  then show ?case by simp
next
  case (step y z)
  have inv_y: "inv y" using inv_steps [OF step.hyps(1) step.prems(1)] .
  obtain g1 where g1: "fence y k = Some g1" "g \<le> g1"
    using fence_steps [OF step.hyps(1) step.prems(1,3)] by blast
  show ?case
  proof (cases "live y k")
    case None
    then show ?thesis using no_revival [OF inv_y step.hyps(2) None g1(1) step.prems(4)] g1(2) by simp
  next
    case (Some h1)
    then have lt: "g < h1" using step.IH step.prems by simp
    have "fence y k = Some h1" using live_fence [OF inv_y Some] .
    then obtain h2 where h2: "fence z k = Some h2" "h1 \<le> h2"
      using fence_step [OF inv_y step.hyps(2)] by blast
    have "fence z k = Some h" using live_fence [OF inv_step [OF inv_y step.hyps(2)] step.prems(4)] .
    then show ?thesis using h2 lt by simp
  qed
qed

end

text \<open>A state that only ever moves up in some order\<close>

locale monotone_steps =
  fixes step :: "'s \<Rightarrow> 's \<Rightarrow> bool"
    and below :: "'s \<Rightarrow> 's \<Rightarrow> bool"
  assumes below_refl: "below s s"
    and below_trans: "below s t \<Longrightarrow> below t u \<Longrightarrow> below s u"
    and step_below: "step s t \<Longrightarrow> below s t"
begin

lemma steps_below: "step\<^sup>*\<^sup>* s t \<Longrightarrow> below s t"
  by (induction rule: rtranclp_induct) (auto intro: below_refl below_trans step_below)

end

text \<open>
  Identifiers handed out by a counter.  What is in use now was in use before or is new; so an
  identifier that was handed out and is no longer in use never comes back.
\<close>

locale identifier_supply =
  fixes supply_ok :: "'s \<Rightarrow> bool"
    and step :: "'s \<Rightarrow> 's \<Rightarrow> bool"
    and counter :: "'s \<Rightarrow> nat"
    and live :: "'s \<Rightarrow> nat set"
  assumes ok_step: "supply_ok s \<Longrightarrow> step s t \<Longrightarrow> supply_ok t"
    and counter_step: "supply_ok s \<Longrightarrow> step s t \<Longrightarrow> counter s \<le> counter t"
    and live_step: "supply_ok s \<Longrightarrow> step s t \<Longrightarrow> live t \<subseteq> live s \<union> {counter s..}"
begin

lemma ok_steps: "step\<^sup>*\<^sup>* s t \<Longrightarrow> supply_ok s \<Longrightarrow> supply_ok t"
  by (induction rule: rtranclp_induct) (auto intro: ok_step)

lemma retired_stays:
  "step\<^sup>*\<^sup>* s t \<Longrightarrow> supply_ok s \<Longrightarrow> x < counter s \<Longrightarrow> x \<notin> live s \<Longrightarrow> x \<notin> live t \<and> x < counter t"
proof (induction rule: rtranclp_induct)
  case base
  then show ?case by simp
next
  case (step t u)
  have "supply_ok t" using ok_steps step.hyps(1) step.prems(1) .
  then show ?case using counter_step live_step step by fastforce
qed

end

end
