(* ===== verification/DirectoryChunks.thy ===== *)
theory DirectoryChunks
  imports Prelude "HOL-Library.Multiset"
begin

text \<open>
  Distribution of signed directory objects (\<open>crates/peerward-directory\<close>): the error type, the
  order and uniqueness checks shared by every signed object (\<open>transcripts.rs\<close>), and the bounded
  chunk assembler through which a serialized object of one revision travels (\<open>chunks.rs\<close>).
\<close>

section \<open>Errors and checks\<close>

datatype directory_error =
    Directory_InvalidSignature | Directory_WrongMesh | Directory_Rollback | Directory_MixedChunks
  | Directory_NonCanonical | Directory_InvalidEndpoint | Directory_Malformed

definition ensure_scope_and_revision ::
  "uuid \<Rightarrow> uuid \<Rightarrow> nat \<Rightarrow> nat option \<Rightarrow> (unit, directory_error) outcome" where
  "ensure_scope_and_revision actual_mesh expected_mesh revision accepted =
     (if actual_mesh \<noteq> expected_mesh then Err Directory_WrongMesh
      else if (case accepted of None \<Rightarrow> False | Some value \<Rightarrow> revision \<le> value)
      then Err Directory_Rollback
      else Ok ())"

fun all_inserted :: "'a::linorder list \<Rightarrow> 'a list \<Rightarrow> bool" where
  "all_inserted seen [] = True"
| "all_inserted seen (x # xs) = (x \<notin> set seen \<and> all_inserted (bset_insert x seen) xs)"

definition ensure_unique :: "'a::linorder list \<Rightarrow> (unit, directory_error) outcome" where
  "ensure_unique items = (if all_inserted [] items then Ok () else Err Directory_NonCanonical)"

fun sorted_from :: "'a::linorder option \<Rightarrow> 'a list \<Rightarrow> (unit, directory_error) outcome" where
  "sorted_from previous [] = Ok ()"
| "sorted_from previous (x # xs) =
     (if (case previous of None \<Rightarrow> False | Some old \<Rightarrow> x \<le> old) then Err Directory_NonCanonical
      else sorted_from (Some x) xs)"

definition ensure_sorted_unique :: "'a::linorder list \<Rightarrow> (unit, directory_error) outcome" where
  "ensure_sorted_unique = sorted_from None"

lemma all_inserted_iff: "all_inserted seen xs \<longleftrightarrow> distinct xs \<and> set xs \<inter> set seen = {}"
  by (induction xs arbitrary: seen) auto

lemma ensure_unique_eq: "ensure_unique xs = (if distinct xs then Ok () else Err Directory_NonCanonical)"
  by (simp add: ensure_unique_def all_inserted_iff)

lemma sorted_from_eq:
  "sorted_from previous xs =
     (if ascending (case previous of None \<Rightarrow> xs | Some x \<Rightarrow> x # xs) \<or> xs = [] then Ok ()
      else Err Directory_NonCanonical)"
  by (induction xs arbitrary: previous) (auto split: option.splits)

lemma ensure_sorted_unique_eq:
  "ensure_sorted_unique xs = (if ascending xs then Ok () else Err Directory_NonCanonical)"
  by (simp add: ensure_sorted_unique_def sorted_from_eq)

lemma ensure_scope_Ok [simp]:
  "ensure_scope_and_revision actual expected revision accepted = Ok u \<longleftrightarrow>
     actual = expected \<and> (\<forall>value. accepted = Some value \<longrightarrow> value < revision)"
  by (auto simp: ensure_scope_and_revision_def split: option.split)

section \<open>Chunks\<close>

record revision_chunk =
  rc_mesh_id :: uuid
  rc_revision :: nat
  rc_index :: nat
  rc_count :: nat
  rc_body :: bytes

record pending_chunks =
  pn_revision :: nat
  pn_count :: nat
  pn_bytes :: nat
  pn_parts :: "(nat \<times> bytes) list"

record chunk_assembler =
  ca_mesh_id :: uuid
  ca_accepted_revision :: "nat option"
  ca_pending :: "pending_chunks option"
  ca_maximum_chunks :: nat
  ca_maximum_bytes :: nat

definition u32_max :: nat where
  "u32_max = 2 ^ 32 - 1"

text \<open>\<open>slice::chunks\<close>\<close>

function slice_chunks :: "nat \<Rightarrow> bytes \<Rightarrow> bytes list" where
  "slice_chunks n bs = (if n = 0 \<or> bs = [] then [] else take n bs # slice_chunks n (drop n bs))"
  by pat_completeness auto
termination by (relation "measure (\<lambda>(n, bs). length bs)") auto

declare slice_chunks.simps [simp del]

definition split_chunks ::
  "uuid \<Rightarrow> nat \<Rightarrow> bytes \<Rightarrow> nat \<Rightarrow> (revision_chunk list, directory_error) outcome" where
  "split_chunks mesh_id revision bs maximum_body =
     (if maximum_body = 0 \<or> bs = [] then Err Directory_MixedChunks
      else let count = div_ceil (length bs) maximum_body in
        if u32_max < count then Err Directory_MixedChunks
        else let bodies = slice_chunks maximum_body bs in
          if list_ex (\<lambda>index. u32_max < index) [0..<length bodies] then Err Directory_MixedChunks
          else Ok (map (\<lambda>(index, body).
                     \<lparr>rc_mesh_id = mesh_id, rc_revision = revision, rc_index = index,
                      rc_count = count, rc_body = body\<rparr>)
                   (List.enumerate 0 bodies)))"

definition assembler_new :: "uuid \<Rightarrow> nat \<Rightarrow> nat \<Rightarrow> chunk_assembler" where
  "assembler_new mesh_id maximum_chunks maximum_bytes =
     \<lparr>ca_mesh_id = mesh_id, ca_accepted_revision = None, ca_pending = None,
      ca_maximum_chunks = maximum_chunks, ca_maximum_bytes = maximum_bytes\<rparr>"

definition add_part ::
  "revision_chunk \<Rightarrow> pending_chunks \<Rightarrow> chunk_assembler
   \<Rightarrow> (bytes option, directory_error) outcome \<times> chunk_assembler" where
  "add_part chunk pending a =
     (if hm_get (pn_parts pending) (rc_index chunk) \<noteq> None
      then (Err Directory_MixedChunks, a\<lparr>ca_pending := None\<rparr>)
      else case checked_add (pn_bytes pending) (length (rc_body chunk)) of
             None \<Rightarrow> (Err Directory_MixedChunks, a\<lparr>ca_pending := Some pending\<rparr>)
           | Some total_bytes \<Rightarrow>
               if ca_maximum_bytes a < total_bytes
               then (Err Directory_MixedChunks, a\<lparr>ca_pending := None\<rparr>)
               else let parts = bmap_insert (rc_index chunk) (rc_body chunk) (pn_parts pending) in
                 if length parts \<noteq> pn_count pending
                 then (Ok None, a\<lparr>ca_pending := Some (pending\<lparr>pn_bytes := total_bytes, pn_parts := parts\<rparr>)\<rparr>)
                 else (Ok (Some (concat (map snd parts))), a\<lparr>ca_pending := None\<rparr>))"

definition push_chunk ::
  "revision_chunk \<Rightarrow> chunk_assembler \<Rightarrow> (bytes option, directory_error) outcome \<times> chunk_assembler" where
  "push_chunk chunk a =
     (if rc_mesh_id chunk \<noteq> ca_mesh_id a then (Err Directory_WrongMesh, a)
      else if (case ca_accepted_revision a of None \<Rightarrow> False | Some value \<Rightarrow> rc_revision chunk \<le> value)
      then (Err Directory_Rollback, a)
      else if rc_count chunk = 0 \<or> ca_maximum_chunks a < rc_count chunk
        \<or> rc_count chunk \<le> rc_index chunk \<or> rc_body chunk = []
      then (Err Directory_MixedChunks, a)
      else case ca_pending a of
             Some pending \<Rightarrow>
               if pn_revision pending \<noteq> rc_revision chunk \<or> pn_count pending \<noteq> rc_count chunk
               then (Err Directory_MixedChunks, a\<lparr>ca_pending := None\<rparr>)
               else add_part chunk pending a
           | None \<Rightarrow>
               add_part chunk
                 \<lparr>pn_revision = rc_revision chunk, pn_count = rc_count chunk, pn_bytes = 0, pn_parts = []\<rparr> a)"

definition push_redundant ::
  "revision_chunk \<Rightarrow> chunk_assembler \<Rightarrow> (bytes option, directory_error) outcome \<times> chunk_assembler" where
  "push_redundant chunk a =
     (if rc_mesh_id chunk \<noteq> ca_mesh_id a then (Err Directory_WrongMesh, a)
      else if (case ca_accepted_revision a of None \<Rightarrow> False | Some revision \<Rightarrow> rc_revision chunk \<le> revision)
      then (Ok None, a)
      else if (case ca_pending a of
                 None \<Rightarrow> False
               | Some pending \<Rightarrow>
                   pn_revision pending = rc_revision chunk \<and> pn_count pending = rc_count chunk
                   \<and> hm_get (pn_parts pending) (rc_index chunk) = Some (rc_body chunk))
      then (Ok None, a)
      else push_chunk chunk a)"

definition commit_revision ::
  "nat \<Rightarrow> chunk_assembler \<Rightarrow> (unit, directory_error) outcome \<times> chunk_assembler" where
  "commit_revision revision a =
     (if (case ca_accepted_revision a of None \<Rightarrow> False | Some value \<Rightarrow> revision \<le> value)
      then (Err Directory_Rollback, a)
      else (Ok (), a\<lparr>ca_accepted_revision := Some revision\<rparr>))"

section \<open>The split\<close>

lemma slice_chunks_Nil [simp]: "slice_chunks n [] = []"
  by (simp add: slice_chunks.simps)

lemma concat_slice_chunks: "0 < n \<Longrightarrow> concat (slice_chunks n bs) = bs"
proof (induction n bs rule: slice_chunks.induct)
  case (1 n bs)
  then show ?case by (simp add: slice_chunks.simps [of n bs])
qed

lemma length_slice_chunks: "0 < n \<Longrightarrow> length (slice_chunks n bs) = div_ceil (length bs) n"
proof (induction n bs rule: slice_chunks.induct)
  case (1 n bs)
  show ?case
  proof (cases "bs = []")
    case True
    then show ?thesis by (simp add: slice_chunks.simps [of n bs] div_ceil_def)
  next
    case False
    have "length (slice_chunks n bs) \<le> k \<longleftrightarrow> div_ceil (length bs) n \<le> k" for k
    proof (cases k)
      case 0
      then show ?thesis using False 1 div_ceil_pos [of n "length bs"] by (simp add: slice_chunks.simps [of n bs])
    next
      case (Suc j)
      have "length bs - n \<le> j * n \<longleftrightarrow> length bs \<le> Suc j * n" by auto
      then show ?thesis using False 1 Suc by (simp add: slice_chunks.simps [of n bs] div_ceil_le_iff)
    qed
    then show ?thesis by (meson antisym order_refl)
  qed
qed

lemma slice_chunks_nonempty: "0 < n \<Longrightarrow> body \<in> set (slice_chunks n bs) \<Longrightarrow> body \<noteq> [] \<and> length body \<le> n"
proof (induction n bs rule: slice_chunks.induct)
  case (1 n bs)
  then show ?case by (auto simp: slice_chunks.simps [of n bs] split: if_splits)
qed

text \<open>What a successful split yields: the bodies of all indices, none empty, none too long.\<close>

lemma split_chunks_Ok:
  assumes "split_chunks mesh revision bs maximum = Ok chunks"
  shows "\<exists>bodies. chunks = map (\<lambda>i. \<lparr>rc_mesh_id = mesh, rc_revision = revision, rc_index = i,
             rc_count = length bodies, rc_body = bodies ! i\<rparr>) [0..<length bodies]
           \<and> concat bodies = bs \<and> bodies \<noteq> [] \<and> length bodies \<le> u32_max
           \<and> (\<forall>body \<in> set bodies. body \<noteq> [] \<and> length body \<le> maximum)"
proof -
  let ?b = "slice_chunks maximum bs"
  have pos: "0 < maximum" "bs \<noteq> []" "div_ceil (length bs) maximum \<le> u32_max"
    using assms by (auto simp: split_chunks_def Let_def split: if_splits)
  have len: "length ?b = div_ceil (length bs) maximum" by (rule length_slice_chunks [OF pos(1)])
  have "chunks = map (\<lambda>(i, body). \<lparr>rc_mesh_id = mesh, rc_revision = revision, rc_index = i,
      rc_count = length ?b, rc_body = body\<rparr>) (List.enumerate 0 ?b)"
    using assms len by (auto simp: split_chunks_def Let_def split: if_splits)
  also have "\<dots> = map (\<lambda>i. \<lparr>rc_mesh_id = mesh, rc_revision = revision, rc_index = i,
      rc_count = length ?b, rc_body = ?b ! i\<rparr>) [0..<length ?b]"
    by (rule nth_equalityI) (simp_all add: nth_enumerate_eq)
  finally show ?thesis
    using pos len concat_slice_chunks [OF pos(1)] slice_chunks_nonempty [OF pos(1)]
      div_ceil_pos [of maximum "length bs"]
    by (intro exI [of _ ?b]) auto
qed

section \<open>Any order of arrival completes the object\<close>

definition fresh_pending :: "revision_chunk \<Rightarrow> pending_chunks" where
  "fresh_pending chunk =
     \<lparr>pn_revision = rc_revision chunk, pn_count = rc_count chunk, pn_bytes = 0, pn_parts = []\<rparr>"

definition admissible :: "revision_chunk \<Rightarrow> chunk_assembler \<Rightarrow> bool" where
  "admissible chunk a \<longleftrightarrow>
     rc_mesh_id chunk = ca_mesh_id a
     \<and> (\<forall>value. ca_accepted_revision a = Some value \<longrightarrow> value < rc_revision chunk)
     \<and> rc_count chunk \<le> ca_maximum_chunks a \<and> rc_index chunk < rc_count chunk \<and> rc_body chunk \<noteq> []"

lemma push_admissible:
  assumes "admissible chunk a"
    and "\<And>p. ca_pending a = Some p \<Longrightarrow> pn_revision p = rc_revision chunk \<and> pn_count p = rc_count chunk"
  shows "push_chunk chunk a =
    add_part chunk (case ca_pending a of None \<Rightarrow> fresh_pending chunk | Some p \<Rightarrow> p) a"
  using assms by (auto simp: push_chunk_def admissible_def fresh_pending_def split: option.split)

fun push_all ::
  "revision_chunk list \<Rightarrow> chunk_assembler
   \<Rightarrow> (bytes option, directory_error) outcome list \<times> chunk_assembler" where
  "push_all [] a = ([], a)"
| "push_all (chunk # chunks) a =
     (let (r, a1) = push_chunk chunk a; (rs, a2) = push_all chunks a1 in (r # rs, a2))"

definition body_chunk :: "uuid \<Rightarrow> nat \<Rightarrow> bytes list \<Rightarrow> nat \<Rightarrow> revision_chunk" where
  "body_chunk mesh revision bodies i =
     \<lparr>rc_mesh_id = mesh, rc_revision = revision, rc_index = i, rc_count = length bodies,
      rc_body = bodies ! i\<rparr>"

definition parts_of :: "bytes list \<Rightarrow> nat list \<Rightarrow> (nat \<times> bytes) list" where
  "parts_of bodies got = fold (\<lambda>i. bmap_insert i (bodies ! i)) got []"

lemma parts_of_snoc [simp]: "parts_of bodies (got @ [i]) = bmap_insert i (bodies ! i) (parts_of bodies got)"
  by (simp add: parts_of_def)

lemma parts_of_facts:
  "bmap_ok (parts_of bodies got)
   \<and> hm_get (parts_of bodies got) i = (if i \<in> set got then Some (bodies ! i) else None)"
proof (induction got arbitrary: i rule: rev_induct)
  case Nil
  then show ?case by (simp add: parts_of_def)
next
  case (snoc j js)
  then show ?case by (simp add: table_simps)
qed

lemma length_parts_of: "distinct got \<Longrightarrow> length (parts_of bodies got) = length got"
proof (induction got rule: rev_induct)
  case Nil
  then show ?case by (simp add: parts_of_def)
next
  case (snoc i js)
  then show ?case using parts_of_facts [of bodies js i] by (simp add: bmap_insert_length_new)
qed

lemma parts_of_complete:
  assumes "distinct got" and "set got = {..<length bodies}"
  shows "concat (map snd (parts_of bodies got)) = concat bodies"
proof -
  let ?all = "map (\<lambda>i. (i, bodies ! i)) [0..<length bodies]"
  have "bmap_ok ?all" by (simp add: bmap_ok_def comp_def)
  moreover have "hm_get ?all i = (if i < length bodies then Some (bodies ! i) else None)" for i
    by (simp add: map_of_map_restrict restrict_map_def)
  ultimately have "parts_of bodies got = ?all"
    using parts_of_facts [of bodies got] assms(2) by (intro bmap_eqI) auto
  then show ?thesis by (simp add: comp_def map_nth)
qed

lemma done_bytes:
  assumes "distinct got" and "set got \<subseteq> {..<length bodies}"
  shows "sum_list (map (\<lambda>i. length (bodies ! i)) got) \<le> length (concat bodies)"
proof -
  have "sum_list (map (\<lambda>i. length (bodies ! i)) got) = (\<Sum>i\<in>set got. length (bodies ! i))"
    using assms(1) by (simp add: sum_list_distinct_conv_sum_set)
  also have "\<dots> \<le> (\<Sum>i<length bodies. length (bodies ! i))"
    using assms(2) by (intro sum_mono2) auto
  also have "\<dots> = length (concat bodies)"
    by (simp add: length_concat sum_list_sum_nth atLeast0LessThan)
  finally show ?thesis .
qed

definition holding :: "uuid \<Rightarrow> nat \<Rightarrow> bytes list \<Rightarrow> nat list \<Rightarrow> chunk_assembler \<Rightarrow> bool" where
  "holding mesh revision bodies got a \<longleftrightarrow>
     ca_pending a = (if got = [] then None else Some
       \<lparr>pn_revision = revision, pn_count = length bodies,
        pn_bytes = sum_list (map (\<lambda>i. length (bodies ! i)) got), pn_parts = parts_of bodies got\<rparr>)"

lemma push_next:
  assumes hold: "holding mesh revision bodies got a" and adm: "admissible (body_chunk mesh revision bodies i) a"
    and fresh: "distinct (got @ [i])" "set (got @ [i]) \<subseteq> {..<length bodies}"
    and room: "length (concat bodies) \<le> ca_maximum_bytes a" "ca_maximum_bytes a \<le> u64_max"
  shows "push_chunk (body_chunk mesh revision bodies i) a =
    (if length got + 1 = length bodies then (Ok (Some (concat bodies)), a\<lparr>ca_pending := None\<rparr>)
     else (Ok None, a\<lparr>ca_pending := Some
       \<lparr>pn_revision = revision, pn_count = length bodies,
        pn_bytes = sum_list (map (\<lambda>i. length (bodies ! i)) (got @ [i])),
        pn_parts = parts_of bodies (got @ [i])\<rparr>\<rparr>))"
proof -
  let ?c = "body_chunk mesh revision bodies i"
  let ?p = "\<lparr>pn_revision = revision, pn_count = length bodies,
      pn_bytes = sum_list (map (\<lambda>i. length (bodies ! i)) got), pn_parts = parts_of bodies got\<rparr>"
  have cur: "(case ca_pending a of None \<Rightarrow> fresh_pending ?c | Some p \<Rightarrow> p) = ?p"
    using hold by (simp add: holding_def fresh_pending_def body_chunk_def parts_of_def)
  have push: "push_chunk ?c a = add_part ?c ?p a"
    unfolding cur [symmetric]
    by (rule push_admissible [OF adm]) (use hold in \<open>auto simp: holding_def body_chunk_def split: if_splits\<close>)
  have new: "hm_get (parts_of bodies got) i = None" using parts_of_facts [of bodies got i] fresh(1) by simp
  have bytes: "sum_list (map (\<lambda>i. length (bodies ! i)) got) + length (bodies ! i) \<le> ca_maximum_bytes a"
    using done_bytes [OF fresh] room(1) by simp
  have len: "length (parts_of bodies (got @ [i])) = length got + 1"
    using length_parts_of [OF fresh(1)] by simp
  have all: "concat (map snd (parts_of bodies (got @ [i]))) = concat bodies"
    if "length got + 1 = length bodies"
  proof (rule parts_of_complete [OF fresh(1)])
    have "card (set (got @ [i])) = length bodies" using fresh(1) that distinct_card [OF fresh(1)] by simp
    then show "set (got @ [i]) = {..<length bodies}"
      using fresh(2) by (intro card_subset_eq) simp_all
  qed
  have "add_part ?c ?p a = (if length got + 1 = length bodies then (Ok (Some (concat bodies)), a\<lparr>ca_pending := None\<rparr>)
     else (Ok None, a\<lparr>ca_pending := Some (?p\<lparr>pn_bytes := sum_list (map (\<lambda>i. length (bodies ! i)) (got @ [i])),
        pn_parts := parts_of bodies (got @ [i])\<rparr>)\<rparr>))"
    using new bytes room(2) len all
    by (simp add: add_part_def body_chunk_def checked_add_def Let_def)
  then show ?thesis unfolding push by simp
qed

lemma push_remaining:
  assumes "holding mesh revision bodies got a"
    and "\<forall>i \<in> set rest. admissible (body_chunk mesh revision bodies i) a"
    and "distinct (got @ rest)" and "set (got @ rest) = {..<length bodies}" and "rest \<noteq> []"
    and "length (concat bodies) \<le> ca_maximum_bytes a" "ca_maximum_bytes a \<le> u64_max"
  shows "push_all (map (body_chunk mesh revision bodies) rest) a =
    (replicate (length rest - 1) (Ok None) @ [Ok (Some (concat bodies))], a\<lparr>ca_pending := None\<rparr>)"
  using assms
proof (induction rest arbitrary: got a)
  case Nil
  then show ?case by simp
next
  case (Cons i rest)
  have count: "length got + Suc (length rest) = length bodies"
    using distinct_card [OF Cons.prems(3)] Cons.prems(4) by simp
  note push = push_next [OF Cons.prems(1), of i, OF _ _ _ Cons.prems(6,7)]
  have sub: "distinct (got @ [i])" "set (got @ [i]) \<subseteq> {..<length bodies}"
    using Cons.prems(3,4) by auto
  show ?case
  proof (cases rest)
    case Nil
    then show ?thesis using push Cons.prems(2) sub count by simp
  next
    case (Cons j js)
    let ?a = "a\<lparr>ca_pending := Some \<lparr>pn_revision = revision, pn_count = length bodies,
        pn_bytes = sum_list (map (\<lambda>i. length (bodies ! i)) (got @ [i])),
        pn_parts = parts_of bodies (got @ [i])\<rparr>\<rparr>"
    have first: "push_chunk (body_chunk mesh revision bodies i) a = (Ok None, ?a)"
      using push Cons.prems(2) sub count Cons by simp
    have "push_all (map (body_chunk mesh revision bodies) rest) ?a =
        (replicate (length rest - 1) (Ok None) @ [Ok (Some (concat bodies))], ?a\<lparr>ca_pending := None\<rparr>)"
      by (rule Cons.IH [of "got @ [i]"])
        (use Cons.prems Cons in \<open>simp_all add: holding_def admissible_def\<close>)
    then show ?thesis using first Cons by simp
  qed
qed

text \<open>An object survives its transport.  A nonempty object of a revision newer than the accepted one
  that splits into no more chunks and bytes than the assembler allows is reassembled from its chunks
  in whatever order they arrive: every chunk but the last to arrive yields nothing, the last yields
  exactly the object, and the assembler is as before.  Every chunk carries at least one and at most
  the permitted number of bytes.
\<close>

theorem chunks_any_order:
  assumes split: "split_chunks (ca_mesh_id a) revision bs maximum_body = Ok chunks"
    and order: "mset arrivals = mset chunks"
    and idle: "ca_pending a = None"
    and newer: "\<forall>value. ca_accepted_revision a = Some value \<longrightarrow> value < revision"
    and room: "length chunks \<le> ca_maximum_chunks a" "length bs \<le> ca_maximum_bytes a"
      "ca_maximum_bytes a \<le> u64_max"
  shows "push_all arrivals a = (replicate (length chunks - 1) (Ok None) @ [Ok (Some bs)], a)
    \<and> (\<forall>chunk \<in> set chunks. 0 < length (rc_body chunk) \<and> length (rc_body chunk) \<le> maximum_body)"
proof -
  obtain bodies where b: "chunks = map (body_chunk (ca_mesh_id a) revision bodies) [0..<length bodies]"
      "concat bodies = bs" "bodies \<noteq> []" "\<forall>body \<in> set bodies. body \<noteq> [] \<and> length body \<le> maximum_body"
    using split_chunks_Ok [OF split] by (auto simp: body_chunk_def [abs_def])
  let ?f = "body_chunk (ca_mesh_id a) revision bodies"
  define rest where "rest = map rc_index arrivals"
  have arr: "\<forall>x \<in> set arrivals. x \<in> ?f ` {..<length bodies}"
    using mset_eq_setD [OF order] b(1) by auto
  have rest: "arrivals = map ?f rest" "mset rest = mset [0..<length bodies]"
  proof -
    have "?f (rc_index x) = x" if "x \<in> set arrivals" for x
      using bspec [OF arr that] by (auto simp: body_chunk_def)
    then show "arrivals = map ?f rest" unfolding rest_def map_map by (intro map_idI [symmetric]) simp
    have "mset rest = image_mset rc_index (mset chunks)" by (simp add: rest_def order)
    also have "\<dots> = mset [0..<length bodies]"
      by (simp add: b(1) multiset.map_comp comp_def body_chunk_def)
    finally show "mset rest = mset [0..<length bodies]" .
  qed
  have d: "distinct rest" using mset_eq_imp_distinct_iff [OF rest(2)] by simp
  have d2: "set rest = {..<length bodies}" using mset_eq_setD [OF rest(2)] by (simp add: lessThan_atLeast0)
  have len: "length rest = length bodies" using mset_eq_length [OF rest(2)] by simp
  have "push_all (map ?f rest) a =
      (replicate (length rest - 1) (Ok None) @ [Ok (Some (concat bodies))], a\<lparr>ca_pending := None\<rparr>)"
  proof (rule push_remaining [where got = "[]"])
    show "\<forall>i \<in> set rest. admissible (?f i) a"
      using d2 newer room(1) b by (simp add: admissible_def body_chunk_def)
  qed (use idle d d2 b room len in \<open>auto simp: holding_def\<close>)
  moreover have "a\<lparr>ca_pending := None\<rparr> = a" using idle by (cases a) simp
  moreover have "0 < length (rc_body chunk) \<and> length (rc_body chunk) \<le> maximum_body"
    if "chunk \<in> set chunks" for chunk
    using that b by (auto simp: body_chunk_def)
  ultimately show ?thesis using rest(1) len b by simp
qed

section \<open>What an assembler yields\<close>

text \<open>The runs of an assembler, with the chunks it was given.\<close>

inductive assembler_run :: "uuid \<Rightarrow> nat \<Rightarrow> nat \<Rightarrow> revision_chunk set \<Rightarrow> chunk_assembler \<Rightarrow> bool"
  for mesh maximum_chunks maximum_bytes where
  run_new: "assembler_run mesh maximum_chunks maximum_bytes {}
    (assembler_new mesh maximum_chunks maximum_bytes)"
| run_push: "assembler_run mesh maximum_chunks maximum_bytes H a \<Longrightarrow>
    assembler_run mesh maximum_chunks maximum_bytes (insert chunk H) (snd (push_chunk chunk a))"
| run_redundant: "assembler_run mesh maximum_chunks maximum_bytes H a \<Longrightarrow>
    assembler_run mesh maximum_chunks maximum_bytes (insert chunk H) (snd (push_redundant chunk a))"
| run_commit: "assembler_run mesh maximum_chunks maximum_bytes H a \<Longrightarrow>
    assembler_run mesh maximum_chunks maximum_bytes H (snd (commit_revision revision a))"

definition pending_ok :: "revision_chunk set \<Rightarrow> chunk_assembler \<Rightarrow> pending_chunks \<Rightarrow> bool" where
  "pending_ok H a p \<longleftrightarrow>
     bmap_ok (pn_parts p) \<and> length (pn_parts p) < pn_count p \<and> pn_count p \<le> ca_maximum_chunks a
     \<and> pn_bytes p = hm_sum (\<lambda>x. length (snd x)) (pn_parts p) \<and> pn_bytes p \<le> ca_maximum_bytes a
     \<and> (\<forall>i b. hm_get (pn_parts p) i = Some b \<longrightarrow> i < pn_count p \<and>
          \<lparr>rc_mesh_id = ca_mesh_id a, rc_revision = pn_revision p, rc_index = i,
           rc_count = pn_count p, rc_body = b\<rparr> \<in> H)"

definition assembler_inv :: "revision_chunk set \<Rightarrow> chunk_assembler \<Rightarrow> bool" where
  "assembler_inv H a \<longleftrightarrow> (case ca_pending a of None \<Rightarrow> True | Some p \<Rightarrow> pending_ok H a p)"

lemma pending_ok_mono: "pending_ok H a p \<Longrightarrow> H \<subseteq> H' \<Longrightarrow> pending_ok H' a p"
  by (auto simp: pending_ok_def)

lemma pending_ok_same:
  "ca_mesh_id a' = ca_mesh_id a \<Longrightarrow> ca_maximum_chunks a' = ca_maximum_chunks a \<Longrightarrow>
   ca_maximum_bytes a' = ca_maximum_bytes a \<Longrightarrow> pending_ok H a' p = pending_ok H a p"
  by (simp add: pending_ok_def)

lemma pending_ok_fresh:
  "admissible chunk a \<Longrightarrow> pending_ok H a (fresh_pending chunk)"
  by (auto simp: admissible_def pending_ok_def fresh_pending_def)

lemma chunk_eq: "\<lparr>rc_mesh_id = rc_mesh_id c, rc_revision = rc_revision c, rc_index = rc_index c,
    rc_count = rc_count c, rc_body = rc_body c\<rparr> = (c :: revision_chunk)"
  by (cases c) simp

lemma pending_ok_insert:
  assumes ok: "pending_ok H a p" and adm: "admissible chunk a"
    and same: "pn_revision p = rc_revision chunk" "pn_count p = rc_count chunk"
    and new: "hm_get (pn_parts p) (rc_index chunk) = None"
    and room: "pn_bytes p + length (rc_body chunk) \<le> ca_maximum_bytes a"
    and short: "length (bmap_insert (rc_index chunk) (rc_body chunk) (pn_parts p)) \<noteq> pn_count p"
  shows "pending_ok (insert chunk H) a
    (p\<lparr>pn_bytes := pn_bytes p + length (rc_body chunk),
       pn_parts := bmap_insert (rc_index chunk) (rc_body chunk) (pn_parts p)\<rparr>)"
proof -
  let ?parts = "bmap_insert (rc_index chunk) (rc_body chunk) (pn_parts p)"
  have "\<lparr>rc_mesh_id = ca_mesh_id a, rc_revision = pn_revision p, rc_index = rc_index chunk,
      rc_count = pn_count p, rc_body = rc_body chunk\<rparr> = chunk"
    using adm same chunk_eq [of chunk] by (simp add: admissible_def)
  then have "i < pn_count p \<and> \<lparr>rc_mesh_id = ca_mesh_id a, rc_revision = pn_revision p, rc_index = i,
      rc_count = pn_count p, rc_body = b\<rparr> \<in> insert chunk H" if "hm_get ?parts i = Some b" for i b
    using that ok adm same(2) by (auto simp: table_simps pending_ok_def admissible_def split: if_splits)
  moreover have "length ?parts < pn_count p"
    using short ok bmap_insert_length_new [OF new, of "rc_body chunk"] by (simp add: pending_ok_def)
  moreover have "hm_sum (\<lambda>x. length (snd x)) ?parts = pn_bytes p + length (rc_body chunk)"
    using ok bmap_insert_sum_new [OF new, of "\<lambda>x. length (snd x)" "rc_body chunk"]
    by (simp add: pending_ok_def)
  ultimately show ?thesis using ok room by (simp add: pending_ok_def)
qed

lemma add_part_inv:
  assumes "pending_ok H a p" and "admissible chunk a"
    and "pn_revision p = rc_revision chunk" "pn_count p = rc_count chunk"
  shows "assembler_inv (insert chunk H) (snd (add_part chunk p a))"
proof -
  have keep: "pending_ok (insert chunk H) (a\<lparr>ca_pending := x\<rparr>) p' = pending_ok (insert chunk H) a p'" for x p'
    by (rule pending_ok_same) simp_all
  have "pending_ok (insert chunk H) a p" using pending_ok_mono [OF assms(1)] by blast
  then show ?thesis
    using pending_ok_insert [OF assms]
    by (simp add: add_part_def assembler_inv_def checked_add_def Let_def keep)
qed

lemma push_chunk_cases:
  obtains (refused) e where "push_chunk chunk a = (Err e, a)"
  | (mixed) "push_chunk chunk a = (Err Directory_MixedChunks, a\<lparr>ca_pending := None\<rparr>)"
  | (added) p where "admissible chunk a" "p = (case ca_pending a of None \<Rightarrow> fresh_pending chunk | Some p \<Rightarrow> p)"
      "pn_revision p = rc_revision chunk" "pn_count p = rc_count chunk"
      "push_chunk chunk a = add_part chunk p a"
proof (cases "admissible chunk a")
  case False
  then consider "rc_mesh_id chunk \<noteq> ca_mesh_id a"
    | v where "ca_accepted_revision a = Some v" "rc_revision chunk \<le> v"
    | "rc_count chunk = 0 \<or> ca_maximum_chunks a < rc_count chunk \<or> rc_count chunk \<le> rc_index chunk \<or> rc_body chunk = []"
    unfolding admissible_def by force
  then have "\<exists>e. push_chunk chunk a = (Err e, a)"
    by cases (simp_all add: push_chunk_def)
  then show ?thesis using refused by blast
next
  case True
  show ?thesis
  proof (cases "\<exists>p. ca_pending a = Some p \<and> \<not> (pn_revision p = rc_revision chunk \<and> pn_count p = rc_count chunk)")
    case mixed': True
    then show ?thesis using True
      by (intro mixed) (auto simp: push_chunk_def admissible_def split: option.splits)
  next
    case False
    then show ?thesis using push_admissible [OF True] True
      by (intro added) (auto simp: fresh_pending_def split: option.split)
  qed
qed

lemma pending_ok_current:
  assumes "assembler_inv H a" and "admissible chunk a"
  shows "pending_ok H a (case ca_pending a of None \<Rightarrow> fresh_pending chunk | Some p \<Rightarrow> p)"
  using assms pending_ok_fresh by (auto simp: assembler_inv_def split: option.splits)

lemma assembler_inv_mono: "assembler_inv H a \<Longrightarrow> H \<subseteq> H' \<Longrightarrow> assembler_inv H' a"
  by (auto simp: assembler_inv_def pending_ok_mono split: option.splits)

lemma push_chunk_inv: "assembler_inv H a \<Longrightarrow> assembler_inv (insert chunk H) (snd (push_chunk chunk a))"
proof (cases chunk a rule: push_chunk_cases)
  case (refused e)
  then show "assembler_inv H a \<Longrightarrow> ?thesis" by (simp add: assembler_inv_mono [of H] subset_insertI)
next
  case mixed
  then show ?thesis by (simp add: assembler_inv_def)
next
  case (added p)
  then show "assembler_inv H a \<Longrightarrow> ?thesis" using add_part_inv pending_ok_current by simp
qed

lemma add_part_fields [simp]:
  "ca_mesh_id (snd (add_part chunk p a)) = ca_mesh_id a"
  "ca_maximum_chunks (snd (add_part chunk p a)) = ca_maximum_chunks a"
  "ca_maximum_bytes (snd (add_part chunk p a)) = ca_maximum_bytes a"
  by (simp_all add: add_part_def Let_def split: option.split)

lemma push_chunk_fields [simp]:
  "ca_mesh_id (snd (push_chunk chunk a)) = ca_mesh_id a"
  "ca_maximum_chunks (snd (push_chunk chunk a)) = ca_maximum_chunks a"
  "ca_maximum_bytes (snd (push_chunk chunk a)) = ca_maximum_bytes a"
  by (simp_all add: push_chunk_def split: option.split)

lemma push_redundant_cases:
  "push_redundant chunk a = push_chunk chunk a \<or> (\<exists>r. push_redundant chunk a = (r, a) \<and> (\<forall>out. r \<noteq> Ok (Some out)))"
  by (auto simp: push_redundant_def)

lemma assembler_run_inv:
  "assembler_run mesh maximum_chunks maximum_bytes H a \<Longrightarrow>
   assembler_inv H a \<and> ca_mesh_id a = mesh \<and> ca_maximum_chunks a = maximum_chunks
   \<and> ca_maximum_bytes a = maximum_bytes"
proof (induction rule: assembler_run.induct)
  case run_new
  then show ?case by (simp add: assembler_new_def assembler_inv_def)
next
  case (run_push H a chunk)
  then show ?case by (simp add: push_chunk_inv)
next
  case (run_redundant H a chunk)
  from push_redundant_cases [of chunk a] show ?case
    using run_redundant.IH push_chunk_inv [of H a chunk] assembler_inv_mono [OF _ subset_insertI, of H a chunk]
    by auto
next
  case (run_commit H a revision)
  have "pending_ok H (a\<lparr>ca_accepted_revision := x\<rparr>) p = pending_ok H a p" for x p
    by (rule pending_ok_same) simp_all
  then show ?case using run_commit.IH
    by (auto simp: commit_revision_def assembler_inv_def split: option.splits)
qed

lemma add_part_completes:
  assumes "pending_ok H a p" and "admissible chunk a"
    and same: "pn_revision p = rc_revision chunk" "pn_count p = rc_count chunk"
    and fin: "add_part chunk p a = (Ok (Some out), a')"
  shows "\<exists>bodies. out = concat bodies \<and> length bodies = rc_count chunk \<and> length out \<le> ca_maximum_bytes a
    \<and> (\<forall>i < rc_count chunk. body_chunk (ca_mesh_id a) (rc_revision chunk) bodies i \<in> insert chunk H)
    \<and> a' = a\<lparr>ca_pending := None\<rparr>"
proof -
  let ?parts = "bmap_insert (rc_index chunk) (rc_body chunk) (pn_parts p)"
  have new: "hm_get (pn_parts p) (rc_index chunk) = None"
    using fin by (auto simp: add_part_def split: if_splits)
  have d: "length ?parts = pn_count p" "out = concat (map snd ?parts)" "a' = a\<lparr>ca_pending := None\<rparr>"
      "pn_bytes p + length (rc_body chunk) \<le> ca_maximum_bytes a"
    using fin by (auto simp: add_part_def checked_add_def Let_def split: if_splits)
  have bm: "bmap_ok ?parts" using assms(1) by (simp add: pending_ok_def)
  have key: "i < pn_count p" if mem: "i \<in> fst ` set ?parts" for i
  proof (cases "i = rc_index chunk")
    case True
    then show ?thesis using assms(2) same(2) by (simp add: admissible_def)
  next
    case False
    then obtain b where "hm_get (pn_parts p) i = Some b"
      using mem by (auto simp: bmap_insert_keys dest: weak_map_of_SomeI)
    then show ?thesis using assms(1) by (simp add: pending_ok_def)
  qed
  have "map fst ?parts = [0..<pn_count p]"
  proof (rule ascending_set_eq)
    show "ascending (map fst ?parts)" using bm by (simp add: bmap_ok_def)
    have "card (set (map fst ?parts)) = pn_count p"
      using distinct_card [of "map fst ?parts"] bm d(1) by (simp add: bmap_ok_def ascending_distinct)
    moreover have "set (map fst ?parts) \<subseteq> set [0..<pn_count p]" using key by (simp add: subset_iff)
    ultimately show "set (map fst ?parts) = set [0..<pn_count p]" by (intro card_subset_eq) simp_all
  qed simp
  then have nth: "?parts ! i = (i, map snd ?parts ! i)" if "i < pn_count p" for i
    using that d(1) by (metis add.left_neutral nth_map nth_upt prod.collapse)
  have "body_chunk (ca_mesh_id a) (rc_revision chunk) (map snd ?parts) i \<in> insert chunk H"
    if "i < rc_count chunk" for i
  proof -
    have i: "i < pn_count p" using that same(2) by simp
    have "(i, map snd ?parts ! i) \<in> set ?parts" using nth [OF i] i d(1) by (metis nth_mem)
    then have get: "hm_get ?parts i = Some (map snd ?parts ! i)"
      using hm_get_Some_mem [OF bmap_ok_distinct [OF bm]] by simp
    show ?thesis
    proof (cases "i = rc_index chunk")
      case True
      have "body_chunk (ca_mesh_id a) (rc_revision chunk) (map snd ?parts) i = chunk"
        using get True assms(2) same(2) d(1) chunk_eq [of chunk]
        by (simp add: table_simps body_chunk_def admissible_def)
      then show ?thesis by simp
    next
      case False
      then have "hm_get (pn_parts p) i = Some (map snd ?parts ! i)" using get by (simp add: table_simps)
      then show ?thesis using assms(1) same d(1) by (simp add: pending_ok_def body_chunk_def)
    qed
  qed
  moreover have "length out = pn_bytes p + length (rc_body chunk)"
    using assms(1) bmap_insert_sum_new [OF new, of "\<lambda>x. length (snd x)" "rc_body chunk"] d(2)
    by (simp add: pending_ok_def length_concat comp_def case_prod_beta)
  ultimately show ?thesis using d same(2) by (intro exI [of _ "map snd ?parts"]) simp
qed

text \<open>(C13) All or nothing.  Whatever chunks an assembler is given, valid or not, when a push (strict or
  redundant) yields an object, its revision is newer than the accepted one and the object is the
  concatenation of exactly the announced number of bodies, the one at each index taken from a chunk
  the assembler was given with this mesh, revision, count and index; number and total length respect
  the limits, and nothing of the object stays behind.
\<close>

theorem chunk_assembly_sound:
  assumes run: "assembler_run mesh maximum_chunks maximum_bytes H a"
    and push: "push_chunk chunk a = (Ok (Some out), a') \<or> push_redundant chunk a = (Ok (Some out), a')"
  shows "(\<forall>value. ca_accepted_revision a = Some value \<longrightarrow> value < rc_revision chunk)
    \<and> rc_count chunk \<le> maximum_chunks \<and> length out \<le> maximum_bytes
    \<and> (\<exists>bodies. out = concat bodies \<and> length bodies = rc_count chunk
         \<and> (\<forall>i < rc_count chunk. body_chunk mesh (rc_revision chunk) bodies i \<in> insert chunk H))
    \<and> a' = a\<lparr>ca_pending := None\<rparr>"
proof -
  have inv: "assembler_inv H a" "ca_mesh_id a = mesh" "ca_maximum_chunks a = maximum_chunks"
      "ca_maximum_bytes a = maximum_bytes"
    using assembler_run_inv [OF run] by simp_all
  have push': "push_chunk chunk a = (Ok (Some out), a')"
    using push push_redundant_cases [of chunk a] by auto
  show ?thesis
  proof (cases chunk a rule: push_chunk_cases)
    case (added p)
    have ok: "pending_ok H a p" using pending_ok_current [OF inv(1) added(1)] added(2) by simp
    then show ?thesis
      using add_part_completes [OF ok added(1,3,4), of out a'] added push' inv
      by (simp add: admissible_def) blast
  qed (use push' in simp_all)
qed

section \<open>A concrete transfer\<close>

definition sample_object :: bytes where
  "sample_object = [1, 2, 3, 4, 5]"

definition sample_mesh :: uuid where
  "sample_mesh = replicate 16 9"

definition sample_piece :: "nat \<Rightarrow> revision_chunk" where
  "sample_piece i = body_chunk sample_mesh 4 [[1, 2], [3, 4], [5]] i"

lemma sample_pieces:
  "split_chunks sample_mesh 4 sample_object 2 = Ok [sample_piece 0, sample_piece 1, sample_piece 2]"
proof -
  have "slice_chunks 2 sample_object = [[1, 2], [3, 4], [5]]"
    by (simp add: slice_chunks.simps sample_object_def)
  then show ?thesis
    by (simp add: split_chunks_def sample_piece_def body_chunk_def Let_def div_ceil_def u32_max_def
        sample_object_def)
qed

theorem chunks_any_order_witness:
  "push_all [sample_piece 2, sample_piece 0, sample_piece 1] (assembler_new sample_mesh 8 64)
     = ([Ok None, Ok None, Ok (Some sample_object)], assembler_new sample_mesh 8 64)"
proof -
  let ?a = "assembler_new sample_mesh 8 64"
  have split: "split_chunks (ca_mesh_id ?a) 4 sample_object 2
      = Ok [sample_piece 0, sample_piece 1, sample_piece 2]"
    using sample_pieces by (simp add: assembler_new_def)
  have "push_all [sample_piece 2, sample_piece 0, sample_piece 1] ?a
      = (replicate (length [sample_piece 0, sample_piece 1, sample_piece 2] - 1) (Ok None)
           @ [Ok (Some sample_object)], ?a)"
    by (rule chunks_any_order [OF split, THEN conjunct1])
      (simp_all add: assembler_new_def sample_object_def u64_max_def)
  then show ?thesis by (simp del: push_all.simps add: numeral_2_eq_2)
qed

theorem chunk_assembly_sound_witness:
  "push_chunk \<lparr>rc_mesh_id = sample_mesh, rc_revision = 4, rc_index = 0, rc_count = 1, rc_body = [7]\<rparr>
       (assembler_new sample_mesh 8 64) = (Ok (Some [7]), assembler_new sample_mesh 8 64)
   \<and> length [7 :: u8] \<le> 64"
proof -
  let ?c = "\<lparr>rc_mesh_id = sample_mesh, rc_revision = 4, rc_index = 0, rc_count = 1, rc_body = [7]\<rparr>"
  have push: "push_chunk ?c (assembler_new sample_mesh 8 64) = (Ok (Some [7]), assembler_new sample_mesh 8 64)"
    by (simp add: push_chunk_def add_part_def assembler_new_def checked_add_def u64_max_def)
  show ?thesis
    using chunk_assembly_sound [OF run_new disjI1 [OF push]] push by blast
qed

end
