(* ===== verification/PrefixCode.thy ===== *)
theory PrefixCode
  imports DirectoryChunks
begin

text \<open>
  Unambiguous encodings.  Signed objects are signed as byte strings; what a signature says depends
  on the byte string determining the object.  The contract of an encoder is that it can be stripped
  off the front of a string in one way only; it is closed under the ways the transcripts of the code
  are put together: fixed-size fields, big-endian integers, length-prefixed strings and lists,
  optional fields with a tag, and sequences of fields.
\<close>

locale prefix_code =
  fixes enc :: "'a \<Rightarrow> bytes"
    and ok :: "'a \<Rightarrow> bool"
  assumes cancel: "ok x \<Longrightarrow> ok y \<Longrightarrow> enc x @ u = enc y @ v \<Longrightarrow> x = y \<and> u = v"
begin

lemma enc_inject: "ok x \<Longrightarrow> ok y \<Longrightarrow> enc x = enc y \<Longrightarrow> x = y"
  using cancel [of x y "[]" "[]"] by simp

lemma cancel_list:
  "list_all ok xs \<Longrightarrow> list_all ok ys \<Longrightarrow> length xs = length ys \<Longrightarrow>
   concat (map enc xs) @ u = concat (map enc ys) @ v \<Longrightarrow> xs = ys \<and> u = v"
proof (induction xs arbitrary: ys)
  case Nil
  then show ?case by simp
next
  case (Cons x xs)
  obtain y zs where ys: "ys = y # zs" using Cons.prems(3) by (cases ys) simp_all
  have "x = y \<and> concat (map enc xs) @ u = concat (map enc zs) @ v"
    using cancel [of x y "concat (map enc xs) @ u" "concat (map enc zs) @ v"] Cons.prems ys by simp
  then show ?case using Cons.IH [of zs] Cons.prems ys by simp
qed

end

lemma same_length_cancel: "length x = length y \<Longrightarrow> x @ u = y @ v \<Longrightarrow> x = y \<and> u = v"
  by (rule iffD1 [OF append_eq_append_conv]) simp_all

text \<open>A string of the right length is the concatenation of its fields.\<close>

fun fields_of :: "nat list \<Rightarrow> bytes \<Rightarrow> bytes list" where
  "fields_of [] bs = []"
| "fields_of (n # ns) bs = take n bs # fields_of ns (drop n bs)"

lemma concat_fields_of: "length bs = sum_list ns \<Longrightarrow> concat (fields_of ns bs) = bs"
  by (induction ns arbitrary: bs) simp_all

lemma prefix_code_same_length:
  assumes "\<And>x. ok x \<Longrightarrow> length (enc x) = n" and "\<And>x y. ok x \<Longrightarrow> ok y \<Longrightarrow> enc x = enc y \<Longrightarrow> x = y"
  shows "prefix_code enc ok"
proof
  fix x y u v
  assume ok: "ok x" "ok y" and eq: "enc x @ u = enc y @ v"
  have "enc x = enc y \<and> u = v" using eq assms(1) [OF ok(1)] assms(1) [OF ok(2)] by (intro same_length_cancel) simp_all
  then show "x = y \<and> u = v" using assms(2) [OF ok] by simp
qed

lemma prefix_code_fixed: "prefix_code (\<lambda>b. b) (\<lambda>b. length b = n)"
  by unfold_locales (rule same_length_cancel; simp)

lemma prefix_code_be: "prefix_code (to_be n) (\<lambda>x. x < 256 ^ n)"
proof
  fix x y u v
  assume b: "x < 256 ^ n" "y < 256 ^ n" and eq: "to_be n x @ u = to_be n y @ v"
  have "to_be n x = to_be n y \<and> u = v" using eq by (intro same_length_cancel) simp_all
  then show "x = y \<and> u = v" using to_be_inj [OF b] by simp
qed

lemma prefix_code_const:
  assumes "prefix_code enc ok"
  shows "prefix_code (\<lambda>x. c @ enc x) ok"
proof
  fix x y u v
  assume ok: "ok x" "ok y" and eq: "(c @ enc x) @ u = (c @ enc y) @ v"
  show "x = y \<and> u = v" using eq by (intro prefix_code.cancel [OF assms ok]) simp
qed

lemma prefix_code_append:
  assumes "prefix_code e ok" and "prefix_code e' ok'"
  shows "prefix_code (\<lambda>(x, y). e x @ e' y) (\<lambda>(x, y). ok x \<and> ok' y)"
proof -
  have "x = z \<and> y = w \<and> u = v"
    if "ok x" "ok' y" "ok z" "ok' w" "e x @ e' y @ u = e z @ e' w @ v" for x y z w u v
  proof -
    have first: "x = z \<and> e' y @ u = e' w @ v" using prefix_code.cancel [OF assms(1) that(1,3,5)] .
    then have "y = w \<and> u = v" by (intro prefix_code.cancel [OF assms(2) that(2,4)]) simp
    then show ?thesis using first by simp
  qed
  note main = this
  show ?thesis
  proof
    fix p q u v
    assume ok: "case p of (x, y) \<Rightarrow> ok x \<and> ok' y" "case q of (x, y) \<Rightarrow> ok x \<and> ok' y"
      and eq: "(case p of (x, y) \<Rightarrow> e x @ e' y) @ u = (case q of (x, y) \<Rightarrow> e x @ e' y) @ v"
    obtain x y z w where pq: "p = (x, y)" "q = (z, w)" by (cases p; cases q)
    show "p = q \<and> u = v" using main [of x y z w u v] ok eq pq by simp
  qed
qed

lemma prefix_code_image:
  assumes "prefix_code enc ok" and "\<And>x y. ok' x \<Longrightarrow> ok' y \<Longrightarrow> f x = f y \<Longrightarrow> x = y"
    and "\<And>x. ok' x \<Longrightarrow> ok (f x)" and "\<And>x. enc' x = enc (f x)"
  shows "prefix_code enc' ok'"
  using assms unfolding prefix_code_def by metis

lemma prefix_code_list:
  assumes "prefix_code enc ok"
  shows "prefix_code (\<lambda>xs. to_be 4 (length xs) @ concat (map enc xs))
    (\<lambda>xs. length xs \<le> u32_max \<and> list_all ok xs)"
proof
  fix xs ys u v
  assume x: "length xs \<le> u32_max \<and> list_all ok xs" and y: "length ys \<le> u32_max \<and> list_all ok ys"
    and eq: "(to_be 4 (length xs) @ concat (map enc xs)) @ u = (to_be 4 (length ys) @ concat (map enc ys)) @ v"
  have "length xs = length ys \<and> concat (map enc xs) @ u = concat (map enc ys) @ v"
  proof (rule prefix_code.cancel [OF prefix_code_be [of 4]])
    show "length xs < 256 ^ 4" "length ys < 256 ^ 4" using x y by (simp_all add: u32_max_def)
    show "to_be 4 (length xs) @ concat (map enc xs) @ u = to_be 4 (length ys) @ concat (map enc ys) @ v"
      using eq by (simp only: append_assoc)
  qed
  then show "xs = ys \<and> u = v" using prefix_code.cancel_list [OF assms] x y by blast
qed

lemma prefix_code_sized: "prefix_code (\<lambda>b. to_be 4 (length b) @ b) (\<lambda>b. length b \<le> u32_max)"
proof
  fix x y u v :: bytes
  assume b: "length x \<le> u32_max" "length y \<le> u32_max"
    and eq: "(to_be 4 (length x) @ x) @ u = (to_be 4 (length y) @ y) @ v"
  have "length x = length y \<and> x @ u = y @ v"
  proof (rule prefix_code.cancel [OF prefix_code_be [of 4]])
    show "length x < 256 ^ 4" "length y < 256 ^ 4" using b by (simp_all add: u32_max_def)
    show "to_be 4 (length x) @ x @ u = to_be 4 (length y) @ y @ v" using eq by (simp only: append_assoc)
  qed
  then show "x = y \<and> u = v" by (intro same_length_cancel) simp_all
qed

lemma prefix_code_option:
  assumes "prefix_code enc ok" and "\<And>x u v. ok x \<Longrightarrow> enc x @ u \<noteq> none @ v"
  shows "prefix_code (\<lambda>x. case x of None \<Rightarrow> none | Some y \<Rightarrow> enc y) (\<lambda>x. case x of None \<Rightarrow> True | Some y \<Rightarrow> ok y)"
proof
  fix x y :: "'a option" and u v
  let ?enc = "\<lambda>x. case x of None \<Rightarrow> none | Some y \<Rightarrow> enc y"
  assume ok: "case x of None \<Rightarrow> True | Some y \<Rightarrow> ok y" "case y of None \<Rightarrow> True | Some y \<Rightarrow> ok y"
    and eq: "?enc x @ u = ?enc y @ v"
  show "x = y \<and> u = v"
  proof (cases x)
    case None
    then show ?thesis using ok eq assms(2) [of _ v u] by (cases y) (simp_all, metis)
  next
    case (Some a)
    then obtain b where b: "y = Some b" using ok eq assms(2) [of a u v] by (cases y) simp_all
    have "a = b \<and> u = v" using ok eq Some b by (intro prefix_code.cancel [OF assms(1)]) simp_all
    then show ?thesis using Some b by simp
  qed
qed

end
