(* ===== verification/Credentials.thy ===== *)
theory Credentials
  imports PrefixCode Packet
begin

text \<open>
  Credentials (\<open>crates/peerward-credentials/src/authority.rs\<close>, \<open>subject.rs\<close>,
  \<open>transcripts.rs\<close>): the certificates of the online Authorities, the credentials they issue to
  Peers and Relays, the certificate of the distribution keys, their fixed-width encodings, and the
  transcripts their signatures cover.

  Ed25519, X25519 and the version check of the \<open>uuid\<close> crate are the record \<open>crypto_env\<close>, a
  parameter.  A key is its bytes: \<open>cy_valid_key\<close> says whether
  \<open>VerifyingKey::from_bytes\<close> accepts it, \<open>cy_public\<close> maps a private seed to its public key,
  and \<open>cy_contributory\<close> whether a Diffie-Hellman exchange with a public key is contributory.
  Unix times and revisions are numbers below \<open>2 ^ 64\<close>.
\<close>

record crypto_env =
  cy_uuid_v4 :: "uuid \<Rightarrow> bool"
  cy_contributory :: "bytes \<Rightarrow> bool"
  cy_valid_key :: "bytes \<Rightarrow> bool"
  cy_public :: "bytes \<Rightarrow> bytes"
  cy_sign :: "bytes \<Rightarrow> bytes \<Rightarrow> bytes"
  cy_verify :: "bytes \<Rightarrow> bytes \<Rightarrow> bytes \<Rightarrow> bool"
  cy_verify_strict :: "bytes \<Rightarrow> bytes \<Rightarrow> bytes \<Rightarrow> bool"

type_synonym unix_time = nat

section \<open>Errors and intervals\<close>

datatype credential_error =
    Credential_InvalidSignature | Credential_InvalidKey | Credential_InvalidInterval
  | Credential_OutsideValidity | Credential_WrongMesh | Credential_Revoked | Credential_Malformed
  | Credential_Rollback | Credential_NonCanonical

definition validate_interval :: "unix_time \<Rightarrow> unix_time \<Rightarrow> (unit, credential_error) outcome" where
  "validate_interval start stop = (if start < stop then Ok () else Err Credential_InvalidInterval)"

definition validate_time :: "unix_time \<Rightarrow> unix_time \<Rightarrow> unix_time \<Rightarrow> (unit, credential_error) outcome" where
  "validate_time start stop now =
     (if start \<le> now \<and> now < stop then Ok () else Err Credential_OutsideValidity)"

text \<open>\<open>VerifyingKey::from_bytes(key).map_err(..)?.verify(..).map_err(..)\<close>\<close>

definition check_signature ::
  "crypto_env \<Rightarrow> credential_error \<Rightarrow> bytes \<Rightarrow> bytes \<Rightarrow> bytes \<Rightarrow> (unit, credential_error) outcome" where
  "check_signature env bad_key key message signature =
     (if \<not> cy_valid_key env key then Err bad_key
      else if cy_verify env key message signature then Ok () else Err Credential_InvalidSignature)"

definition credential_uuid :: "crypto_env \<Rightarrow> bytes \<Rightarrow> (uuid, credential_error) outcome" where
  "credential_uuid env bs =
     (if length bs = 16 \<and> cy_uuid_v4 env bs then Ok bs else Err Credential_Malformed)"

definition domain :: "string \<Rightarrow> bytes" where
  "domain name = map (\<lambda>c. word_of_nat (of_char c)) name @ [0]"

definition AUTHORITY_DOMAIN :: bytes where
  "AUTHORITY_DOMAIN = domain ''peerward/root-authority/v1''"

definition SUBJECT_DOMAIN :: bytes where
  "SUBJECT_DOMAIN = domain ''peerward/subject-credential/v3''"

definition DISTRIBUTION_DOMAIN :: bytes where
  "DISTRIBUTION_DOMAIN = domain ''peerward/distribution-trust/v1''"

section \<open>Authorities\<close>

record unsigned_authority =
  ua_mesh_id :: uuid
  ua_serial :: uuid
  ua_public_key :: bytes
  ua_not_before :: unix_time
  ua_not_after :: unix_time

record authority_certificate =
  ac_mesh_id :: uuid
  ac_serial :: uuid
  ac_public_key :: bytes
  ac_not_before :: unix_time
  ac_not_after :: unix_time
  ac_signature :: bytes

definition authority_unsigned :: "authority_certificate \<Rightarrow> unsigned_authority" where
  "authority_unsigned certificate =
     \<lparr>ua_mesh_id = ac_mesh_id certificate, ua_serial = ac_serial certificate,
      ua_public_key = ac_public_key certificate, ua_not_before = ac_not_before certificate,
      ua_not_after = ac_not_after certificate\<rparr>"

definition authority_transcript :: "unsigned_authority \<Rightarrow> bytes" where
  "authority_transcript value =
     AUTHORITY_DOMAIN @ ua_mesh_id value @ ua_serial value @ ua_public_key value
     @ to_be 8 (ua_not_before value) @ to_be 8 (ua_not_after value)"

definition certify ::
  "crypto_env \<Rightarrow> bytes \<Rightarrow> unsigned_authority \<Rightarrow> (authority_certificate, credential_error) outcome" where
  "certify env root_seed body =
     and_then (validate_interval (ua_not_before body) (ua_not_after body)) (\<lambda>_.
     Ok \<lparr>ac_mesh_id = ua_mesh_id body, ac_serial = ua_serial body,
         ac_public_key = ua_public_key body, ac_not_before = ua_not_before body,
         ac_not_after = ua_not_after body,
         ac_signature = cy_sign env root_seed (authority_transcript body)\<rparr>)"

definition root_from_bytes :: "crypto_env \<Rightarrow> bytes \<Rightarrow> (bytes, credential_error) outcome" where
  "root_from_bytes env bs = (if cy_valid_key env bs then Ok bs else Err Credential_InvalidSignature)"

definition verify_authority ::
  "crypto_env \<Rightarrow> bytes \<Rightarrow> authority_certificate \<Rightarrow> uuid \<Rightarrow> unix_time \<Rightarrow> (unit, credential_error) outcome" where
  "verify_authority env root certificate mesh_id now =
     (if ac_mesh_id certificate \<noteq> mesh_id then Err Credential_WrongMesh
      else and_then (validate_interval (ac_not_before certificate) (ac_not_after certificate)) (\<lambda>_.
        and_then (validate_time (ac_not_before certificate) (ac_not_after certificate) now) (\<lambda>_.
        if cy_verify env root (authority_transcript (authority_unsigned certificate)) (ac_signature certificate)
        then Ok () else Err Credential_InvalidSignature)))"

definition authority_encode :: "authority_certificate \<Rightarrow> bytes" where
  "authority_encode certificate =
     ac_mesh_id certificate @ ac_serial certificate @ ac_public_key certificate
     @ to_be 8 (ac_not_before certificate) @ to_be 8 (ac_not_after certificate) @ ac_signature certificate"

definition authority_decode :: "crypto_env \<Rightarrow> bytes \<Rightarrow> (authority_certificate, credential_error) outcome" where
  "authority_decode env bs =
     (if length bs \<noteq> 144 then Err Credential_Malformed
      else slice_at bs 0 16 (\<lambda>mesh. and_then (credential_uuid env mesh) (\<lambda>mesh_id.
        slice_at bs 16 32 (\<lambda>serial_bytes. and_then (credential_uuid env serial_bytes) (\<lambda>serial.
        slice_at bs 32 64 (\<lambda>public_key.
        slice_at bs 64 72 (\<lambda>not_before.
        slice_at bs 72 80 (\<lambda>not_after.
        slice_at bs 80 144 (\<lambda>signature.
        and_then (validate_interval (of_be not_before) (of_be not_after)) (\<lambda>_.
          Ok \<lparr>ac_mesh_id = mesh_id, ac_serial = serial, ac_public_key = public_key,
              ac_not_before = of_be not_before, ac_not_after = of_be not_after,
              ac_signature = signature\<rparr>))))))))))"

section \<open>Subjects\<close>

datatype subject_role = Role_Peer | Role_Relay

definition transcript_tag :: "subject_role \<Rightarrow> u8" where
  "transcript_tag role = (case role of Role_Peer \<Rightarrow> 1 | Role_Relay \<Rightarrow> 2)"

datatype subject_id = Subject_Peer uuid | Subject_Relay uuid

fun subject_id_role :: "subject_id \<Rightarrow> subject_role" where
  "subject_id_role (Subject_Peer _) = Role_Peer"
| "subject_id_role (Subject_Relay _) = Role_Relay"

fun subject_id_bytes :: "subject_id \<Rightarrow> uuid" where
  "subject_id_bytes (Subject_Peer u) = u"
| "subject_id_bytes (Subject_Relay u) = u"

record unsigned_subject =
  us_subject :: subject_id
  us_mesh_id :: uuid
  us_identity_public_key :: bytes
  us_public_noise_key :: bytes
  us_wireguard_public_key :: bytes
  us_serial :: uuid
  us_not_before :: unix_time
  us_not_after :: unix_time

record subject_credential =
  sc_role :: subject_role
  sc_mesh_id :: uuid
  sc_subject :: subject_id
  sc_identity_public_key :: bytes
  sc_public_noise_key :: bytes
  sc_wireguard_public_key :: bytes
  sc_serial :: uuid
  sc_not_before :: unix_time
  sc_not_after :: unix_time
  sc_signature :: bytes

definition subject_unsigned :: "subject_credential \<Rightarrow> unsigned_subject" where
  "subject_unsigned c =
     \<lparr>us_subject = sc_subject c, us_mesh_id = sc_mesh_id c,
      us_identity_public_key = sc_identity_public_key c, us_public_noise_key = sc_public_noise_key c,
      us_wireguard_public_key = sc_wireguard_public_key c, us_serial = sc_serial c,
      us_not_before = sc_not_before c, us_not_after = sc_not_after c\<rparr>"

definition subject_transcript :: "unsigned_subject \<Rightarrow> bytes" where
  "subject_transcript value =
     SUBJECT_DOMAIN @ [transcript_tag (subject_id_role (us_subject value))] @ us_mesh_id value
     @ subject_id_bytes (us_subject value) @ us_identity_public_key value @ us_public_noise_key value
     @ us_wireguard_public_key value @ us_serial value
     @ to_be 8 (us_not_before value) @ to_be 8 (us_not_after value)"

definition all_zero :: "bytes \<Rightarrow> bool" where
  "all_zero bs \<longleftrightarrow> list_all (\<lambda>b. b = 0) bs"

definition validate_subject_keys ::
  "crypto_env \<Rightarrow> subject_id \<Rightarrow> bytes \<Rightarrow> bytes \<Rightarrow> bytes \<Rightarrow> (unit, credential_error) outcome" where
  "validate_subject_keys env subject identity_public_key session_public_key wireguard_public_key =
     (let identity_valid =
        (case subject of
           Subject_Peer _ \<Rightarrow> \<not> all_zero identity_public_key \<and> cy_contributory env wireguard_public_key
             \<and> wireguard_public_key \<noteq> session_public_key \<and> wireguard_public_key \<noteq> identity_public_key
         | Subject_Relay _ \<Rightarrow> all_zero identity_public_key \<and> all_zero wireguard_public_key)
      in if identity_valid \<and> \<not> all_zero session_public_key then Ok () else Err Credential_InvalidKey)"

definition issue ::
  "crypto_env \<Rightarrow> bytes \<Rightarrow> unsigned_subject \<Rightarrow> (subject_credential, credential_error) outcome" where
  "issue env seed body =
     and_then (validate_interval (us_not_before body) (us_not_after body)) (\<lambda>_.
     and_then (validate_subject_keys env (us_subject body) (us_identity_public_key body)
       (us_public_noise_key body) (us_wireguard_public_key body)) (\<lambda>_.
     Ok \<lparr>sc_role = subject_id_role (us_subject body), sc_mesh_id = us_mesh_id body,
         sc_subject = us_subject body, sc_identity_public_key = us_identity_public_key body,
         sc_public_noise_key = us_public_noise_key body,
         sc_wireguard_public_key = us_wireguard_public_key body, sc_serial = us_serial body,
         sc_not_before = us_not_before body, sc_not_after = us_not_after body,
         sc_signature = cy_sign env seed (subject_transcript body)\<rparr>))"

definition verify_with_authority ::
  "crypto_env \<Rightarrow> subject_credential \<Rightarrow> bytes \<Rightarrow> unix_time \<Rightarrow> (unit, credential_error) outcome" where
  "verify_with_authority env c authority_public_key now =
     (if sc_role c \<noteq> subject_id_role (sc_subject c) then Err Credential_InvalidSignature
      else and_then (validate_subject_keys env (sc_subject c) (sc_identity_public_key c)
          (sc_public_noise_key c) (sc_wireguard_public_key c)) (\<lambda>_.
        and_then (validate_interval (sc_not_before c) (sc_not_after c)) (\<lambda>_.
        and_then (validate_time (sc_not_before c) (sc_not_after c) now) (\<lambda>_.
        check_signature env Credential_InvalidSignature authority_public_key
          (subject_transcript (subject_unsigned c)) (sc_signature c)))))"

definition subject_encode :: "subject_credential \<Rightarrow> bytes" where
  "subject_encode c =
     [transcript_tag (sc_role c)] @ sc_mesh_id c @ subject_id_bytes (sc_subject c)
     @ sc_identity_public_key c @ sc_public_noise_key c @ sc_wireguard_public_key c
     @ sc_serial c @ to_be 8 (sc_not_before c) @ to_be 8 (sc_not_after c) @ sc_signature c"

definition credential_role :: "u8 \<Rightarrow> (subject_role, credential_error) outcome" where
  "credential_role tag =
     (if tag = 1 then Ok Role_Peer else if tag = 2 then Ok Role_Relay else Err Credential_Malformed)"

definition subject_decode ::
  "crypto_env \<Rightarrow> bytes \<Rightarrow> (subject_credential, credential_error) outcome" where
  "subject_decode env bs =
     (if length bs \<noteq> 225 then Err Credential_Malformed
      else byte_at bs 0 (\<lambda>tag. and_then (credential_role tag) (\<lambda>role.
        slice_at bs 1 17 (\<lambda>mesh. and_then (credential_uuid env mesh) (\<lambda>mesh_id.
        slice_at bs 17 33 (\<lambda>subject. and_then (credential_uuid env subject) (\<lambda>subject_uuid.
        slice_at bs 33 65 (\<lambda>identity_public_key.
        slice_at bs 65 97 (\<lambda>public_noise_key.
        slice_at bs 97 129 (\<lambda>wireguard_public_key.
        slice_at bs 129 145 (\<lambda>serial_bytes. and_then (credential_uuid env serial_bytes) (\<lambda>serial.
        slice_at bs 145 153 (\<lambda>not_before.
        slice_at bs 153 161 (\<lambda>not_after.
        slice_at bs 161 225 (\<lambda>signature.
          let subject_id = (case role of Role_Peer \<Rightarrow> Subject_Peer subject_uuid
                                       | Role_Relay \<Rightarrow> Subject_Relay subject_uuid);
              credential =
                \<lparr>sc_role = role, sc_mesh_id = mesh_id, sc_subject = subject_id,
                 sc_identity_public_key = identity_public_key, sc_public_noise_key = public_noise_key,
                 sc_wireguard_public_key = wireguard_public_key, sc_serial = serial,
                 sc_not_before = of_be not_before, sc_not_after = of_be not_after,
                 sc_signature = signature\<rparr>
          in and_then (map_err Credential_Malformed
               (validate_subject_keys env subject_id identity_public_key public_noise_key wireguard_public_key))
             (\<lambda>_. and_then (validate_interval (of_be not_before) (of_be not_after)) (\<lambda>_. Ok credential))
        )))))))))))))))"

section \<open>Distribution keys\<close>

record distribution_certificate =
  dc_mesh_id :: uuid
  dc_authority_public_key :: bytes
  dc_directory_public_key :: bytes
  dc_service_public_key :: bytes
  dc_audit_public_key :: bytes
  dc_signature :: bytes

definition distribution_transcript :: "distribution_certificate \<Rightarrow> bytes" where
  "distribution_transcript value =
     DISTRIBUTION_DOMAIN @ dc_mesh_id value @ dc_authority_public_key value
     @ dc_directory_public_key value @ dc_service_public_key value @ dc_audit_public_key value"

definition certify_distribution ::
  "crypto_env \<Rightarrow> bytes \<Rightarrow> uuid \<Rightarrow> bytes \<Rightarrow> bytes \<Rightarrow> bytes \<Rightarrow> distribution_certificate" where
  "certify_distribution env seed mesh_id directory_public_key service_public_key audit_public_key =
     (let certificate = \<lparr>dc_mesh_id = mesh_id, dc_authority_public_key = cy_public env seed,
            dc_directory_public_key = directory_public_key, dc_service_public_key = service_public_key,
            dc_audit_public_key = audit_public_key, dc_signature = replicate 64 0\<rparr>
      in certificate\<lparr>dc_signature := cy_sign env seed (distribution_transcript certificate)\<rparr>)"

definition distribution_encode :: "distribution_certificate \<Rightarrow> bytes" where
  "distribution_encode certificate =
     splice (splice (splice (splice (splice (splice (replicate 208 0)
       0 (dc_mesh_id certificate)) 16 (dc_authority_public_key certificate))
       48 (dc_directory_public_key certificate)) 80 (dc_service_public_key certificate))
       112 (dc_audit_public_key certificate)) 144 (dc_signature certificate)"

definition distribution_decode ::
  "crypto_env \<Rightarrow> bytes \<Rightarrow> (distribution_certificate, credential_error) outcome" where
  "distribution_decode env bs =
     (if length bs \<noteq> 208 then Err Credential_Malformed
      else slice_at bs 0 16 (\<lambda>mesh. and_then (credential_uuid env mesh) (\<lambda>mesh_id.
        slice_at bs 16 48 (\<lambda>authority_public_key.
        slice_at bs 48 80 (\<lambda>directory_public_key.
        slice_at bs 80 112 (\<lambda>service_public_key.
        slice_at bs 112 144 (\<lambda>audit_public_key.
        slice_at bs 144 208 (\<lambda>signature.
          Ok \<lparr>dc_mesh_id = mesh_id, dc_authority_public_key = authority_public_key,
              dc_directory_public_key = directory_public_key, dc_service_public_key = service_public_key,
              dc_audit_public_key = audit_public_key, dc_signature = signature\<rparr>))))))))"

section \<open>Encodings are canonical\<close>

text \<open>The field sizes are those of the Rust types.\<close>

definition authority_typed :: "authority_certificate \<Rightarrow> bool" where
  "authority_typed c \<longleftrightarrow>
     length (ac_mesh_id c) = 16 \<and> length (ac_serial c) = 16 \<and> length (ac_public_key c) = 32
     \<and> ac_not_before c \<le> u64_max \<and> ac_not_after c \<le> u64_max \<and> length (ac_signature c) = 64"

definition authority_sound :: "crypto_env \<Rightarrow> authority_certificate \<Rightarrow> bool" where
  "authority_sound env c \<longleftrightarrow>
     cy_uuid_v4 env (ac_mesh_id c) \<and> cy_uuid_v4 env (ac_serial c) \<and> ac_not_before c < ac_not_after c"

definition credential_typed :: "subject_credential \<Rightarrow> bool" where
  "credential_typed c \<longleftrightarrow>
     length (sc_mesh_id c) = 16 \<and> length (subject_id_bytes (sc_subject c)) = 16
     \<and> length (sc_identity_public_key c) = 32 \<and> length (sc_public_noise_key c) = 32
     \<and> length (sc_wireguard_public_key c) = 32 \<and> length (sc_serial c) = 16
     \<and> sc_not_before c \<le> u64_max \<and> sc_not_after c \<le> u64_max \<and> length (sc_signature c) = 64"

definition credential_sound :: "crypto_env \<Rightarrow> subject_credential \<Rightarrow> bool" where
  "credential_sound env c \<longleftrightarrow>
     cy_uuid_v4 env (sc_mesh_id c) \<and> cy_uuid_v4 env (subject_id_bytes (sc_subject c)) \<and> cy_uuid_v4 env (sc_serial c)
     \<and> sc_role c = subject_id_role (sc_subject c)
     \<and> validate_subject_keys env (sc_subject c) (sc_identity_public_key c) (sc_public_noise_key c)
          (sc_wireguard_public_key c) = Ok ()
     \<and> sc_not_before c < sc_not_after c"

definition distribution_typed :: "distribution_certificate \<Rightarrow> bool" where
  "distribution_typed c \<longleftrightarrow>
     length (dc_mesh_id c) = 16 \<and> length (dc_authority_public_key c) = 32
     \<and> length (dc_directory_public_key c) = 32 \<and> length (dc_service_public_key c) = 32
     \<and> length (dc_audit_public_key c) = 32 \<and> length (dc_signature c) = 64"

lemma length_authority_encode: "authority_typed c \<Longrightarrow> length (authority_encode c) = 144"
  by (simp add: authority_typed_def authority_encode_def)

lemma length_subject_encode: "credential_typed c \<Longrightarrow> length (subject_encode c) = 225"
  by (simp add: credential_typed_def subject_encode_def)

lemma distribution_encode_eq:
  "distribution_typed c \<Longrightarrow> distribution_encode c =
     dc_mesh_id c @ dc_authority_public_key c @ dc_directory_public_key c @ dc_service_public_key c
     @ dc_audit_public_key c @ dc_signature c"
  by (simp add: distribution_typed_def distribution_encode_def splice_def)

text \<open>Eight bytes hold exactly the numbers below \<open>2 ^ 64\<close>.\<close>

lemma u64_of_be [simp]: "length bs = 8 \<Longrightarrow> of_be bs \<le> u64_max"
  using of_be_less [of bs] by (simp add: u64_max_def)

lemma u64_roundtrip [simp]: "x \<le> u64_max \<Longrightarrow> of_be (to_be 8 x) = x"
  by (rule of_be_to_be) (simp add: u64_max_def)

lemma u64_bytes [simp]: "length bs = 8 \<Longrightarrow> to_be 8 (of_be bs) = bs"
  using to_be_of_be [of bs] by simp

lemma u64_inject: "x \<le> u64_max \<Longrightarrow> y \<le> u64_max \<Longrightarrow> to_be 8 x = to_be 8 y \<longleftrightarrow> x = y"
  using to_be_inj [of x 8 y] by (auto simp: u64_max_def)

lemma role_tag_inject [simp]: "transcript_tag r = transcript_tag s \<longleftrightarrow> r = s"
  by (cases r; cases s) (simp_all add: transcript_tag_def)

lemma credential_role_iff: "credential_role tag = Ok role \<longleftrightarrow> tag = transcript_tag role"
  by (cases role) (auto simp: credential_role_def transcript_tag_def)

lemma credential_uuid_iff: "credential_uuid env bs = Ok u \<longleftrightarrow> u = bs \<and> length bs = 16 \<and> cy_uuid_v4 env bs"
  by (auto simp: credential_uuid_def)

lemma validate_interval_iff [simp]: "validate_interval a b = Ok u \<longleftrightarrow> a < b"
  by (simp add: validate_interval_def)

lemma validate_time_iff [simp]: "validate_time a b now = Ok u \<longleftrightarrow> a \<le> now \<and> now < b"
  by (simp add: validate_time_def)

lemma authority_decode_iff:
  "authority_decode env bs = Ok c \<longleftrightarrow> authority_encode c = bs \<and> authority_typed c \<and> authority_sound env c"
proof
  assume dec: "authority_decode env bs = Ok c"
  then have len: "length bs = 144" by (simp add: authority_decode_def split: if_splits)
  have "concat (fields_of [16, 16, 32, 8, 8, 64] bs) = bs" using len by (intro concat_fields_of) simp
  then show "authority_encode c = bs \<and> authority_typed c \<and> authority_sound env c"
    using dec len
    by (auto simp: authority_decode_def slice_simps and_then_Ok_iff credential_uuid_iff authority_encode_def
        authority_typed_def authority_sound_def)
next
  assume enc: "authority_encode c = bs \<and> authority_typed c \<and> authority_sound env c"
  then show "authority_decode env bs = Ok c"
    using length_authority_encode [of c]
    by (auto simp: authority_decode_def slice_simps and_then_Ok_iff credential_uuid_iff authority_encode_def
        authority_typed_def authority_sound_def)
qed

lemma subject_of_role:
  "(case role of Role_Peer \<Rightarrow> Subject_Peer u | Role_Relay \<Rightarrow> Subject_Relay u) = subject \<longleftrightarrow>
     role = subject_id_role subject \<and> u = subject_id_bytes subject"
  by (cases role; cases subject) auto

lemma subject_decode_exact:
  assumes "length bs = 225"
  shows "subject_decode env bs = Ok c \<longleftrightarrow>
    bs ! 0 = transcript_tag (sc_role c) \<and> take 16 (drop 1 bs) = sc_mesh_id c
    \<and> take 16 (drop 17 bs) = subject_id_bytes (sc_subject c)
    \<and> take 32 (drop 33 bs) = sc_identity_public_key c \<and> take 32 (drop 65 bs) = sc_public_noise_key c
    \<and> take 32 (drop 97 bs) = sc_wireguard_public_key c \<and> take 16 (drop 129 bs) = sc_serial c
    \<and> of_be (take 8 (drop 145 bs)) = sc_not_before c \<and> of_be (take 8 (drop 153 bs)) = sc_not_after c
    \<and> take 64 (drop 161 bs) = sc_signature c \<and> credential_sound env c"
  using assms
  by (cases c; cases "sc_subject c")
    (auto simp: subject_decode_def slice_simps and_then_Ok_iff credential_uuid_iff credential_role_iff
      credential_sound_def subject_of_role Let_def split: subject_role.splits)

lemma subject_decode_iff:
  "subject_decode env bs = Ok c \<longleftrightarrow> subject_encode c = bs \<and> credential_typed c \<and> credential_sound env c"
proof
  assume dec: "subject_decode env bs = Ok c"
  then have len: "length bs = 225" by (simp add: subject_decode_def split: if_splits)
  have "concat (fields_of [1, 16, 16, 32, 32, 32, 16, 8, 8, 64] bs) = bs" using len by (intro concat_fields_of) simp
  moreover have "take 1 bs = [bs ! 0]" using len by (cases bs) simp_all
  ultimately show "subject_encode c = bs \<and> credential_typed c \<and> credential_sound env c"
    using dec [unfolded subject_decode_exact [OF len]] len
    by (auto simp: subject_encode_def credential_typed_def dest!: sym [of "take _ _"] sym [of "drop _ _"] sym [of "of_be _"])
next
  assume enc: "subject_encode c = bs \<and> credential_typed c \<and> credential_sound env c"
  then have len: "length bs = 225" using length_subject_encode by auto
  show "subject_decode env bs = Ok c"
    unfolding subject_decode_exact [OF len]
    using enc by (auto simp: subject_encode_def credential_typed_def)
qed

lemma distribution_decode_iff:
  "distribution_decode env bs = Ok c \<longleftrightarrow>
     distribution_encode c = bs \<and> distribution_typed c \<and> cy_uuid_v4 env (dc_mesh_id c)"
proof
  assume dec: "distribution_decode env bs = Ok c"
  then have len: "length bs = 208" by (simp add: distribution_decode_def split: if_splits)
  have fields: "concat (fields_of [16, 32, 32, 32, 32, 64] bs) = bs" using len by (intro concat_fields_of) simp
  have typed: "distribution_typed c" and uuid: "cy_uuid_v4 env (dc_mesh_id c)"
    using dec len
    by (auto simp: distribution_decode_def slice_simps and_then_Ok_iff credential_uuid_iff distribution_typed_def)
  then show "distribution_encode c = bs \<and> distribution_typed c \<and> cy_uuid_v4 env (dc_mesh_id c)"
    using dec len fields
    by (auto simp: distribution_decode_def slice_simps and_then_Ok_iff credential_uuid_iff distribution_encode_eq)
next
  assume enc: "distribution_encode c = bs \<and> distribution_typed c \<and> cy_uuid_v4 env (dc_mesh_id c)"
  then show "distribution_decode env bs = Ok c"
    by (auto simp: distribution_encode_eq distribution_decode_def slice_simps and_then_Ok_iff
        credential_uuid_iff distribution_typed_def)
qed

text \<open>Decoding returns on every input.\<close>

lemma validate_total [simp]:
  "validate_interval a b \<noteq> Abort" "validate_time a b now \<noteq> Abort" "credential_uuid env bs \<noteq> Abort"
  "credential_role tag \<noteq> Abort" "validate_subject_keys env subject k1 k2 k3 \<noteq> Abort"
  "check_signature env e key m g \<noteq> Abort"
  by (simp_all add: validate_interval_def validate_time_def credential_uuid_def credential_role_def
      validate_subject_keys_def check_signature_def Let_def)

lemma decode_total [simp]:
  "authority_decode env bs \<noteq> Abort" "subject_decode env bs \<noteq> Abort" "distribution_decode env bs \<noteq> Abort"
  "verify_authority env root certificate mesh_id now \<noteq> Abort" "verify_with_authority env c key now \<noteq> Abort"
  by (simp_all add: authority_decode_def subject_decode_def distribution_decode_def verify_authority_def
      verify_with_authority_def slice_simps and_then_Abort_iff Let_def)

section \<open>Transcripts\<close>

text \<open>A transcript determines what was signed.\<close>

definition unsigned_authority_typed :: "unsigned_authority \<Rightarrow> bool" where
  "unsigned_authority_typed a \<longleftrightarrow>
     length (ua_mesh_id a) = 16 \<and> length (ua_serial a) = 16 \<and> length (ua_public_key a) = 32
     \<and> ua_not_before a \<le> u64_max \<and> ua_not_after a \<le> u64_max"

definition unsigned_subject_typed :: "unsigned_subject \<Rightarrow> bool" where
  "unsigned_subject_typed u \<longleftrightarrow>
     length (us_mesh_id u) = 16 \<and> length (subject_id_bytes (us_subject u)) = 16
     \<and> length (us_identity_public_key u) = 32 \<and> length (us_public_noise_key u) = 32
     \<and> length (us_wireguard_public_key u) = 32 \<and> length (us_serial u) = 16
     \<and> us_not_before u \<le> u64_max \<and> us_not_after u \<le> u64_max"

lemma unsigned_typed:
  "authority_typed a \<Longrightarrow> unsigned_authority_typed (authority_unsigned a)"
  "credential_typed c \<Longrightarrow> unsigned_subject_typed (subject_unsigned c)"
  by (simp_all add: authority_typed_def unsigned_authority_typed_def authority_unsigned_def
      credential_typed_def unsigned_subject_typed_def subject_unsigned_def)

lemma authority_transcript_inject:
  assumes "unsigned_authority_typed a" "unsigned_authority_typed b" "authority_transcript a = authority_transcript b"
  shows "a = b"
  using assms by (cases a; cases b) (simp add: authority_transcript_def unsigned_authority_typed_def u64_inject)

lemma subject_id_eqI:
  "subject_id_role s = subject_id_role t \<Longrightarrow> subject_id_bytes s = subject_id_bytes t \<Longrightarrow> s = t"
  by (cases s; cases t) simp_all

lemma subject_transcript_inject:
  assumes "unsigned_subject_typed a" "unsigned_subject_typed b" "subject_transcript a = subject_transcript b"
  shows "a = b"
  using assms
  by (cases a; cases b) (auto simp: subject_transcript_def unsigned_subject_typed_def u64_inject intro: subject_id_eqI)

lemma distribution_transcript_inject:
  assumes "distribution_typed a" "distribution_typed b" "distribution_transcript a = distribution_transcript b"
  shows "a\<lparr>dc_signature := g\<rparr> = b\<lparr>dc_signature := g\<rparr>"
  using assms by (cases a; cases b) (simp add: distribution_transcript_def distribution_typed_def)

text \<open>
  Domains end with a zero byte and no name contains one, so that no two of them are prefixes of a
  common string.
\<close>

lemma char_byte: "unat (word_of_nat (of_char c) :: u8) = of_char c"
  by (simp add: unat_of_nat)

lemma char_byte_inject:
  "(word_of_nat (of_char c) :: u8) = word_of_nat (of_char d) \<longleftrightarrow> c = d"
  "(word_of_nat (of_char c) :: u8) = 0 \<longleftrightarrow> of_char c = (0 :: nat)"
  by (metis char_byte char_of_char) (metis char_byte unat_eq_zero)

lemma domain_cancel:
  assumes "list_all (\<lambda>c. of_char c \<noteq> (0 :: nat)) name" "list_all (\<lambda>c. of_char c \<noteq> (0 :: nat)) name'"
    and "domain name @ u = domain name' @ v"
  shows "name = name' \<and> u = v"
  using assms
proof (induction name arbitrary: name')
  case Nil
  then show ?case by (cases name') (auto simp: domain_def char_byte_inject dest: sym)
next
  case (Cons c name)
  then show ?case by (cases name') (auto simp: domain_def char_byte_inject dest: sym)
qed

lemma domain_distinct:
  "name \<noteq> name' \<Longrightarrow> list_all (\<lambda>c. of_char c \<noteq> (0 :: nat)) name \<Longrightarrow> list_all (\<lambda>c. of_char c \<noteq> (0 :: nat)) name' \<Longrightarrow>
   domain name @ u \<noteq> domain name' @ v"
  using domain_cancel [of name name' u v] by blast

text \<open>What a signature is for: what a key signs verifies under its public key.\<close>

definition signing_laws :: "crypto_env \<Rightarrow> bool" where
  "signing_laws env \<longleftrightarrow>
     (\<forall>seed message. cy_valid_key env (cy_public env seed)
        \<and> cy_verify env (cy_public env seed) message (cy_sign env seed message))"

section \<open>Encodings inside other encodings\<close>

definition credential_formed :: "subject_credential \<Rightarrow> bool" where
  "credential_formed c \<longleftrightarrow> credential_typed c \<and> sc_role c = subject_id_role (sc_subject c)"

lemma subject_encode_inject:
  assumes "credential_formed c" "credential_formed d" "subject_encode c = subject_encode d"
  shows "c = d"
  using assms
  by (cases c; cases d)
    (auto simp: subject_encode_def credential_formed_def credential_typed_def u64_inject intro: subject_id_eqI)

lemma authority_encode_inject:
  assumes "authority_typed c" "authority_typed d" "authority_encode c = authority_encode d"
  shows "c = d"
  using assms by (cases c; cases d) (auto simp: authority_encode_def authority_typed_def u64_inject)

interpretation subject_code: prefix_code subject_encode credential_formed
  by (rule prefix_code_same_length [of _ _ 225])
    (auto simp: length_subject_encode credential_formed_def intro: subject_encode_inject)

interpretation authority_code: prefix_code authority_encode authority_typed
  by (rule prefix_code_same_length [of _ _ 144]) (auto simp: length_authority_encode intro: authority_encode_inject)

text \<open>Credentials have one encoding.  The decoders of Authority certificates, subject credentials and
  distribution certificates return on every byte string; they accept exactly the encodings of
  well-formed values - fields of the declared sizes, version-4 identifiers, a non-empty validity
  interval and, for a subject, the keys its role requires - and return the value encoded.
\<close>

theorem credentials_canonical:
  "(authority_decode env bs = Ok a \<longleftrightarrow> authority_encode a = bs \<and> authority_typed a \<and> authority_sound env a)
   \<and> (subject_decode env bs = Ok c \<longleftrightarrow> subject_encode c = bs \<and> credential_typed c \<and> credential_sound env c)
   \<and> (distribution_decode env bs = Ok d \<longleftrightarrow>
        distribution_encode d = bs \<and> distribution_typed d \<and> cy_uuid_v4 env (dc_mesh_id d))
   \<and> authority_decode env bs \<noteq> Abort \<and> subject_decode env bs \<noteq> Abort \<and> distribution_decode env bs \<noteq> Abort"
  by (simp add: authority_decode_iff subject_decode_iff distribution_decode_iff)

end
