(* ===== verification/PresenceCache.thy ===== *)
theory PresenceCache
  imports Fence DirectoryChunks Credentials
begin

text \<open>
  The presence cache of a Relay (\<open>crates/peerward-relay/src/relay/presence_cache.rs\<close>): which Relay
  holds which attachment of a Peer, learned from database snapshots and from authenticated
  announcements of other Relays, and fenced by a generation number per Peer, role and, for warm
  standbys, Relay.  The error type of the Relay and the presence types of the store
  (\<open>peerward-store/src/store/model.rs\<close>) come first, then the cache and its 67-byte wire format.

  Instants are values of the \<open>time\<close> crate's \<open>OffsetDateTime\<close>: a linearly ordered type
  \<open>'t\<close>, whose conversions from and to Unix seconds are fields of the parameter record
  \<open>relay_env\<close>, next to the version check of the \<open>uuid\<close> crate.  Signed 64-bit
  generations and timestamps are integers; their wire form is two's complement.
\<close>

section \<open>Errors of the Relay\<close>

text \<open>The payloads that no modelled code inspects (of Noise, prost and I/O) are left out.\<close>

datatype wire_error =
    Wire_Noise | Wire_Authentication | Wire_Truncated | Wire_TrailingBytes | Wire_InvalidLength
  | Wire_Unsupported | Wire_KindMismatch | Wire_MalformedControl | Wire_UnsupportedMajor
  | Wire_SequenceExhausted | Wire_RekeyRequired

datatype store_error =
    Store_Database | Store_NotFound | Store_Conflict | Store_ConfigurationOwned
  | Store_EventCursorExpired | Store_SignedStateConflict string nat | Store_Invalid string
  | Store_PoolExhausted | Store_LegacySchemaUnsupported | Store_NewerSchemaUnsupported

datatype relay_error =
    InvalidConfig | Wire wire_error | Io | Store store_error | Credential credential_error
  | Directory directory_error | NoRoute | StaleFence | QueueFull | MalformedForwarded
  | HandshakeLimited

section \<open>Presence records\<close>

datatype presence_role = Primary | Standby

instantiation presence_role :: linorder
begin

definition less_presence_role :: "presence_role \<Rightarrow> presence_role \<Rightarrow> bool" where
  "less_presence_role a b \<longleftrightarrow> a = Primary \<and> b = Standby"

definition less_eq_presence_role :: "presence_role \<Rightarrow> presence_role \<Rightarrow> bool" where
  "less_eq_presence_role a b \<longleftrightarrow> a = b \<or> a = Primary \<and> b = Standby"

instance
proof
  fix x y z :: presence_role
  show "x < y \<longleftrightarrow> x \<le> y \<and> \<not> y \<le> x"
    by (cases x; cases y) (simp_all add: less_presence_role_def less_eq_presence_role_def)
  show "x \<le> x" by (simp add: less_eq_presence_role_def)
  show "x \<le> y \<Longrightarrow> y \<le> z \<Longrightarrow> x \<le> z" by (auto simp: less_eq_presence_role_def)
  show "x \<le> y \<Longrightarrow> y \<le> x \<Longrightarrow> x = y" by (auto simp: less_eq_presence_role_def)
  show "x \<le> y \<or> y \<le> x" by (cases x; cases y) (simp_all add: less_eq_presence_role_def)
qed

end

record 't presence_lease =
  pl_mesh_id :: uuid
  pl_peer_id :: uuid
  pl_relay_id :: uuid
  pl_attachment_id :: uuid
  pl_role :: presence_role
  pl_lease_deadline :: 't

record presence_owner =
  po_relay_id :: uuid
  po_generation :: int

record 't presence_snapshot =
  ps_peer_id :: uuid
  ps_relay_id :: uuid
  ps_attachment_id :: uuid
  ps_role :: presence_role
  ps_generation :: int
  ps_lease_deadline :: 't

section \<open>The cache\<close>

type_synonym cache_key = "uuid \<times> presence_role \<times> uuid option"

record 't presence_cache_entry =
  ce_peer_id :: uuid
  ce_relay_id :: uuid
  ce_attachment_id :: uuid
  ce_role :: presence_role
  ce_generation :: int
  ce_lease_deadline :: 't

record 't presence_announcement =
  pa_entry :: "'t presence_cache_entry"
  pa_released :: bool

record 't presence_cache =
  pc_entries :: "(cache_key \<times> 't presence_cache_entry) list"
  pc_generations :: "(cache_key \<times> int) list"
  pc_updates :: "(cache_key \<times> nat) list"
  pc_revision :: nat

record 't relay_env =
  re_unix_timestamp :: "'t \<Rightarrow> int"
  re_from_unix_timestamp :: "int \<Rightarrow> 't option"
  re_uuid_v4 :: "uuid \<Rightarrow> bool"

definition presence_cache_default :: "'t presence_cache" where
  "presence_cache_default = \<lparr>pc_entries = [], pc_generations = [], pc_updates = [], pc_revision = 0\<rparr>"

definition presence_key :: "'t presence_cache_entry \<Rightarrow> cache_key" where
  "presence_key entry =
     (ce_peer_id entry, ce_role entry,
      if ce_role entry = Standby then Some (ce_relay_id entry) else None)"

definition reused_generation ::
  "'t relay_env \<Rightarrow> 't presence_announcement \<Rightarrow> 't presence_cache_entry \<Rightarrow> bool" where
  "reused_generation env update current \<longleftrightarrow>
     (let entry = pa_entry update in
      ce_generation entry = ce_generation current
      \<and> (ce_relay_id entry \<noteq> ce_relay_id current
         \<or> ce_attachment_id entry \<noteq> ce_attachment_id current
         \<or> ce_role entry \<noteq> ce_role current
         \<or> (\<not> pa_released update
            \<and> re_unix_timestamp env (ce_lease_deadline entry)
                < re_unix_timestamp env (ce_lease_deadline current))))"

definition record_update ::
  "'t presence_announcement \<Rightarrow> 't presence_cache \<Rightarrow> (bool, relay_error) outcome \<times> 't presence_cache" where
  "record_update update c =
     (let entry = pa_entry update;
          key = presence_key entry;
          advanced = (case hm_get (pc_generations c) key of
                        None \<Rightarrow> True
                      | Some current \<Rightarrow> current < ce_generation entry)
      in case checked_add (pc_revision c) 1 of
           None \<Rightarrow> (Err StaleFence, c)
         | Some revision \<Rightarrow>
             (Ok (advanced \<or> pa_released update),
              c\<lparr>pc_revision := revision,
                pc_updates := bmap_insert key revision (pc_updates c),
                pc_generations := bmap_insert key (ce_generation entry) (pc_generations c),
                pc_entries := (if pa_released update then hm_remove key (pc_entries c)
                               else bmap_insert key entry (pc_entries c))\<rparr>))"

definition observe ::
  "'t relay_env \<Rightarrow> uuid \<Rightarrow> 't presence_announcement \<Rightarrow> 't presence_cache
   \<Rightarrow> (bool, relay_error) outcome \<times> 't presence_cache" where
  "observe env authenticated_relay update c =
     (let entry = pa_entry update;
          key = presence_key entry;
          current_generation = hm_get (pc_generations c) key
      in if ce_relay_id entry \<noteq> authenticated_relay \<or> ce_generation entry \<le> 0
         then (Err StaleFence, c)
         else if (case current_generation of None \<Rightarrow> False | Some current \<Rightarrow> ce_generation entry < current)
         then (Ok False, c)
         else case hm_get (pc_entries c) key of
                Some current \<Rightarrow>
                  if reused_generation env update current then (Err StaleFence, c)
                  else record_update update c
              | None \<Rightarrow>
                  if current_generation = Some (ce_generation entry) then (Ok False, c)
                  else record_update update c)"

definition observe_local ::
  "'t relay_env \<Rightarrow> 't presence_cache_entry \<Rightarrow> 't presence_cache
   \<Rightarrow> (bool, relay_error) outcome \<times> 't presence_cache" where
  "observe_local env entry =
     observe env (ce_relay_id entry) \<lparr>pa_entry = entry, pa_released = False\<rparr>"

definition release_local ::
  "'t relay_env \<Rightarrow> 't presence_cache_entry \<Rightarrow> 't presence_cache
   \<Rightarrow> (bool, relay_error) outcome \<times> 't presence_cache" where
  "release_local env entry =
     observe env (ce_relay_id entry) \<lparr>pa_entry = entry, pa_released = True\<rparr>"

text \<open>A database snapshot, taken while the cache was at revision \<open>started\<close>.\<close>

definition snapshot_entry :: "'t presence_snapshot \<Rightarrow> 't presence_cache_entry" where
  "snapshot_entry row =
     \<lparr>ce_peer_id = ps_peer_id row, ce_relay_id = ps_relay_id row,
      ce_attachment_id = ps_attachment_id row, ce_role = ps_role row,
      ce_generation = ps_generation row, ce_lease_deadline = ps_lease_deadline row\<rparr>"

definition snapshot_key :: "'t presence_snapshot \<Rightarrow> cache_key" where
  "snapshot_key row =
     (ps_peer_id row, ps_role row, if ps_role row = Standby then Some (ps_relay_id row) else None)"

definition updated_since :: "nat \<Rightarrow> 't presence_cache \<Rightarrow> cache_key \<Rightarrow> bool" where
  "updated_since started c key \<longleftrightarrow>
     (case hm_get (pc_updates c) key of None \<Rightarrow> False | Some revision \<Rightarrow> started < revision)"

definition skip_row ::
  "nat \<Rightarrow> 't::linorder presence_cache_entry \<Rightarrow> 't presence_cache \<Rightarrow> bool" where
  "skip_row started entry c \<longleftrightarrow>
     (let key = presence_key entry in
      updated_since started c key
      \<and> (case hm_get (pc_generations c) key of
           None \<Rightarrow> False | Some generation \<Rightarrow> ce_generation entry \<le> generation)
      \<or> (case hm_get (pc_entries c) key of
           None \<Rightarrow> False
         | Some current \<Rightarrow>
             ce_generation current = ce_generation entry
             \<and> ce_lease_deadline entry < ce_lease_deadline current))"

fun install_rows ::
  "'t::linorder relay_env \<Rightarrow> nat \<Rightarrow> 't presence_snapshot list \<Rightarrow> 't presence_cache
   \<Rightarrow> (unit, relay_error) outcome \<times> 't presence_cache" where
  "install_rows env started [] c = (Ok (), c)"
| "install_rows env started (row # rows) c =
     (let entry = snapshot_entry row in
      if skip_row started entry c then install_rows env started rows c
      else case observe_local env entry c of
             (Ok _, c') \<Rightarrow> install_rows env started rows c'
           | (Err e, c') \<Rightarrow> (Err e, c')
           | (Abort, c') \<Rightarrow> (Abort, c'))"

definition retain_entries ::
  "nat \<Rightarrow> cache_key list \<Rightarrow> 't presence_cache \<Rightarrow> 't presence_cache" where
  "retain_entries started keys c =
     c\<lparr>pc_entries := filter (\<lambda>(key, _). key \<in> set keys \<or> updated_since started c key) (pc_entries c)\<rparr>"

definition install_snapshot ::
  "'t::linorder relay_env \<Rightarrow> 't presence_snapshot list \<Rightarrow> nat \<Rightarrow> 't presence_cache
   \<Rightarrow> (unit, relay_error) outcome \<times> 't presence_cache" where
  "install_snapshot env rows started c =
     install_rows env started rows (retain_entries started (map snapshot_key rows) c)"

text \<open>The questions the Relay asks of the cache.\<close>

definition primary_owner ::
  "uuid \<Rightarrow> 't::linorder \<Rightarrow> bool \<Rightarrow> 't presence_cache \<Rightarrow> (presence_owner, relay_error) outcome" where
  "primary_owner peer_id now permit_expired c =
     (case hm_get (pc_entries c) (peer_id, Primary, None) of
        None \<Rightarrow> Err NoRoute
      | Some entry \<Rightarrow>
          if permit_expired \<or> now < ce_lease_deadline entry
          then Ok \<lparr>po_relay_id = ce_relay_id entry, po_generation = ce_generation entry\<rparr>
          else Err NoRoute)"

definition matches_attachment :: "'t presence_lease \<Rightarrow> int \<Rightarrow> 't presence_cache \<Rightarrow> bool" where
  "matches_attachment lease generation c \<longleftrightarrow>
     (case hm_get (pc_entries c)
             (pl_peer_id lease, pl_role lease,
              if pl_role lease = Standby then Some (pl_relay_id lease) else None) of
        None \<Rightarrow> False
      | Some entry \<Rightarrow>
          ce_generation entry = generation \<and> ce_relay_id entry = pl_relay_id lease
          \<and> ce_attachment_id entry = pl_attachment_id lease)"

definition authenticates_source ::
  "uuid \<Rightarrow> uuid \<Rightarrow> int \<Rightarrow> 't::linorder \<Rightarrow> bool \<Rightarrow> 't presence_cache \<Rightarrow> bool" where
  "authenticates_source peer_id relay_id generation now permit_expired c \<longleftrightarrow>
     list_ex (\<lambda>entry. ce_relay_id entry = relay_id \<and> ce_generation entry = generation
                \<and> (permit_expired \<or> now < ce_lease_deadline entry))
       (List.map_filter (hm_get (pc_entries c))
          [(peer_id, Primary, None), (peer_id, Standby, Some relay_id)])"

definition announcements_owned_by :: "uuid \<Rightarrow> 't presence_cache \<Rightarrow> 't presence_announcement list" where
  "announcements_owned_by relay_id c =
     map (\<lambda>entry. \<lparr>pa_entry = entry, pa_released = False\<rparr>)
       (filter (\<lambda>entry. ce_relay_id entry = relay_id) (map snd (pc_entries c)))"

section \<open>The wire format\<close>

definition PRESENCE_WIRE_VERSION :: u8 where
  "PRESENCE_WIRE_VERSION = 1"

definition PRESENCE_WIRE_LENGTH :: nat where
  "PRESENCE_WIRE_LENGTH = 67"

definition i64_to_be :: "int \<Rightarrow> bytes" where
  "i64_to_be x = to_be 8 (nat (x mod 2 ^ 64))"

definition i64_from_be :: "bytes \<Rightarrow> int" where
  "i64_from_be bs = (let n = int (of_be bs) in if n < 2 ^ 63 then n else n - 2 ^ 64)"

definition role_tag :: "presence_role \<Rightarrow> u8" where
  "role_tag role = (case role of Primary \<Rightarrow> 1 | Standby \<Rightarrow> 2)"

definition encode_presence :: "'t relay_env \<Rightarrow> 't presence_announcement \<Rightarrow> bytes" where
  "encode_presence env update =
     (let entry = pa_entry update in
      [PRESENCE_WIRE_VERSION, if pa_released update then 1 else 0]
      @ ce_peer_id entry @ ce_relay_id entry @ ce_attachment_id entry
      @ [role_tag (ce_role entry)]
      @ i64_to_be (ce_generation entry)
      @ i64_to_be (re_unix_timestamp env (ce_lease_deadline entry)))"

definition decode_uuid :: "'t relay_env \<Rightarrow> bytes \<Rightarrow> (uuid, relay_error) outcome" where
  "decode_uuid env bs =
     (if length bs = 16 \<and> re_uuid_v4 env bs then Ok bs else Err (Wire Wire_KindMismatch))"

definition decode_role :: "u8 \<Rightarrow> (presence_role, relay_error) outcome" where
  "decode_role tag =
     (if tag = 1 then Ok Primary else if tag = 2 then Ok Standby else Err (Wire Wire_KindMismatch))"

definition decode_presence ::
  "'t relay_env \<Rightarrow> bytes \<Rightarrow> ('t presence_announcement, relay_error) outcome" where
  "decode_presence env body =
     (if length body \<noteq> PRESENCE_WIRE_LENGTH then Err (Wire Wire_KindMismatch)
      else byte_at body 0 (\<lambda>version. byte_at body 1 (\<lambda>released.
        if version \<noteq> PRESENCE_WIRE_VERSION \<or> 1 < released then Err (Wire Wire_KindMismatch)
        else slice_at body 2 18 (\<lambda>peer. and_then (decode_uuid env peer) (\<lambda>peer_id.
          slice_at body 18 34 (\<lambda>relay. and_then (decode_uuid env relay) (\<lambda>relay_id.
          slice_at body 34 50 (\<lambda>attachment. and_then (decode_uuid env attachment) (\<lambda>attachment_id.
          byte_at body 50 (\<lambda>tag. and_then (decode_role tag) (\<lambda>role.
          slice_at body 51 59 (\<lambda>generation. slice_at body 59 67 (\<lambda>deadline.
          and_then (ok_or (Wire Wire_KindMismatch) (re_from_unix_timestamp env (i64_from_be deadline)))
            (\<lambda>lease_deadline.
               Ok \<lparr>pa_entry =
                      \<lparr>ce_peer_id = peer_id, ce_relay_id = relay_id, ce_attachment_id = attachment_id,
                       ce_role = role, ce_generation = i64_from_be generation,
                       ce_lease_deadline = lease_deadline\<rparr>,
                    pa_released = (released = 1)\<rparr>))))))))))))))"

section \<open>Invariant\<close>

declare split_paired_All [simp del] split_paired_Ex [simp del]

definition pc_inv :: "'t presence_cache \<Rightarrow> bool" where
  "pc_inv c \<longleftrightarrow>
     bmap_ok (pc_entries c) \<and> bmap_ok (pc_generations c) \<and> bmap_ok (pc_updates c)
     \<and> (\<forall>k e. hm_get (pc_entries c) k = Some e \<longrightarrow>
          presence_key e = k \<and> hm_get (pc_generations c) k = Some (ce_generation e))
     \<and> (\<forall>k g. hm_get (pc_generations c) k = Some g \<longrightarrow>
          0 < g \<and> (\<exists>u. hm_get (pc_updates c) k = Some u \<and> u \<le> pc_revision c))
     \<and> pc_revision c \<le> u64_max"

lemma pc_inv_default: "pc_inv presence_cache_default"
  by (simp add: pc_inv_def presence_cache_default_def u64_max_def)

lemma pc_inv_entry:
  "pc_inv c \<Longrightarrow> hm_get (pc_entries c) k = Some e \<Longrightarrow>
   presence_key e = k \<and> hm_get (pc_generations c) k = Some (ce_generation e)"
  by (simp add: pc_inv_def)

text \<open>The state after an accepted announcement, and when an announcement is accepted.\<close>

definition recorded :: "'t presence_announcement \<Rightarrow> 't presence_cache \<Rightarrow> 't presence_cache" where
  "recorded update c =
     (let key = presence_key (pa_entry update) in
      c\<lparr>pc_revision := pc_revision c + 1,
        pc_updates := bmap_insert key (pc_revision c + 1) (pc_updates c),
        pc_generations := bmap_insert key (ce_generation (pa_entry update)) (pc_generations c),
        pc_entries := (if pa_released update then hm_remove key (pc_entries c)
                       else bmap_insert key (pa_entry update) (pc_entries c))\<rparr>)"

lemma record_update_eq:
  "record_update update c =
     (if pc_revision c < u64_max
      then (Ok ((case hm_get (pc_generations c) (presence_key (pa_entry update)) of
                   None \<Rightarrow> True | Some g \<Rightarrow> g < ce_generation (pa_entry update))
                \<or> pa_released update), recorded update c)
      else (Err StaleFence, c))"
  by (simp add: record_update_def recorded_def checked_add_def Let_def)

definition acceptable :: "'t relay_env \<Rightarrow> 't presence_announcement \<Rightarrow> 't presence_cache \<Rightarrow> bool" where
  "acceptable env update c \<longleftrightarrow>
     (let entry = pa_entry update; key = presence_key entry in
      (\<forall>g. hm_get (pc_generations c) key = Some g \<longrightarrow> g \<le> ce_generation entry)
      \<and> (case hm_get (pc_entries c) key of
           None \<Rightarrow> hm_get (pc_generations c) key \<noteq> Some (ce_generation entry)
         | Some current \<Rightarrow> \<not> reused_generation env update current))"

lemma observe_snd:
  "snd (observe env relay update c) =
     (if ce_relay_id (pa_entry update) = relay \<and> 0 < ce_generation (pa_entry update)
         \<and> acceptable env update c \<and> pc_revision c < u64_max
      then recorded update c else c)"
  by (auto simp: observe_def acceptable_def record_update_eq Let_def split: option.splits)

lemma observe_not_Abort: "fst (observe env relay update c) \<noteq> Abort"
  by (simp add: observe_def record_update_eq Let_def split: option.splits)

lemma recorded_lookup [simp]:
  "hm_get (pc_generations (recorded update c)) k =
     (if k = presence_key (pa_entry update) then Some (ce_generation (pa_entry update))
      else hm_get (pc_generations c) k)"
  "hm_get (pc_updates (recorded update c)) k =
     (if k = presence_key (pa_entry update) then Some (pc_revision c + 1)
      else hm_get (pc_updates c) k)"
  "hm_get (pc_entries (recorded update c)) k =
     (if k = presence_key (pa_entry update)
      then (if pa_released update then None else Some (pa_entry update))
      else hm_get (pc_entries c) k)"
  "pc_revision (recorded update c) = pc_revision c + 1"
  by (simp_all add: recorded_def Let_def table_simps)

lemma pc_inv_generation:
  "pc_inv c \<Longrightarrow> hm_get (pc_generations c) k = Some g \<Longrightarrow>
   0 < g \<and> (\<exists>u. hm_get (pc_updates c) k = Some u \<and> u \<le> pc_revision c)"
  by (simp add: pc_inv_def)

lemma pc_inv_recorded:
  assumes "pc_inv c" and "0 < ce_generation (pa_entry update)" and "pc_revision c < u64_max"
  shows "pc_inv (recorded update c)"
proof -
  let ?c = "recorded update c"
  have "bmap_ok (pc_entries ?c) \<and> bmap_ok (pc_generations ?c) \<and> bmap_ok (pc_updates ?c)"
    using assms(1) by (simp add: pc_inv_def recorded_def Let_def)
  moreover have "presence_key e = k \<and> hm_get (pc_generations ?c) k = Some (ce_generation e)"
    if "hm_get (pc_entries ?c) k = Some e" for k e
    using that pc_inv_entry [OF assms(1), of k e] by (auto split: if_splits)
  moreover have "0 < g \<and> (\<exists>u. hm_get (pc_updates ?c) k = Some u \<and> u \<le> pc_revision ?c)"
    if "hm_get (pc_generations ?c) k = Some g" for k g
    using that pc_inv_generation [OF assms(1), of k g] assms(2) by (auto split: if_splits)
  moreover have "pc_revision ?c \<le> u64_max" using assms(3) by simp
  ultimately show ?thesis unfolding pc_inv_def by blast
qed

lemma pc_inv_observe: "pc_inv c \<Longrightarrow> pc_inv (snd (observe env relay update c))"
  by (simp add: observe_snd pc_inv_recorded)

lemma retain_lookup:
  "pc_inv c \<Longrightarrow> hm_get (pc_entries (retain_entries started keys c)) k =
     (if k \<in> set keys \<or> updated_since started c k then hm_get (pc_entries c) k else None)"
  by (simp add: retain_entries_def pc_inv_def bmap_ok_distinct hm_get_filter_key)

lemma retain_other [simp]:
  "pc_generations (retain_entries started keys c) = pc_generations c"
  "pc_updates (retain_entries started keys c) = pc_updates c"
  "pc_revision (retain_entries started keys c) = pc_revision c"
  "updated_since n (retain_entries started keys c) = updated_since n c"
  by (simp_all add: retain_entries_def updated_since_def fun_eq_iff)

lemma pc_inv_retain: "pc_inv c \<Longrightarrow> pc_inv (retain_entries started keys c)"
proof -
  assume c: "pc_inv c"
  have "bmap_ok (pc_entries (retain_entries started keys c))"
    using c by (simp add: pc_inv_def retain_entries_def bmap_ok_filter)
  then show ?thesis using c retain_lookup [OF c, of started keys]
    by (simp add: pc_inv_def)
qed

text \<open>Installing rows is a sequence of local observations.\<close>

lemma install_rows_preserves:
  assumes "\<And>entry c. P c \<Longrightarrow> P (snd (observe_local env entry c))" and "P c"
  shows "P (snd (install_rows env started rows c))"
  using assms(2)
proof (induction rows arbitrary: c)
  case Nil
  then show ?case by simp
next
  case (Cons row rows)
  obtain res c' where o: "observe_local env (snapshot_entry row) c = (res, c')" by (cases "observe_local env (snapshot_entry row) c")
  have "P c'" using assms(1) [OF Cons.prems, of "snapshot_entry row"] o by simp
  then show ?case using Cons o by (cases res) (simp_all add: Let_def)
qed

lemma install_rows_not_Abort: "fst (install_rows env started rows c) \<noteq> Abort"
proof (induction rows arbitrary: c)
  case Nil
  then show ?case by simp
next
  case (Cons row rows)
  obtain res c' where o: "observe_local env (snapshot_entry row) c = (res, c')" by (cases "observe_local env (snapshot_entry row) c")
  moreover have "res \<noteq> Abort"
    using observe_not_Abort o unfolding observe_local_def by (metis fst_conv)
  ultimately show ?case using Cons by (cases res) (simp_all add: Let_def)
qed

lemma pc_inv_install_snapshot: "pc_inv c \<Longrightarrow> pc_inv (snd (install_snapshot env rows started c))"
  unfolding install_snapshot_def
  by (rule install_rows_preserves) (simp_all add: observe_local_def pc_inv_observe pc_inv_retain)

section \<open>Fencing\<close>

text \<open>The steps of the cache, and the atomic changes they are made of.\<close>

inductive presence_step :: "'t::linorder relay_env \<Rightarrow> 't presence_cache \<Rightarrow> 't presence_cache \<Rightarrow> bool"
  for env where
  observed: "presence_step env c (snd (observe env relay update c))"
| refreshed: "presence_step env c (snd (install_snapshot env rows started c))"

inductive atomic_step :: "'t relay_env \<Rightarrow> 't presence_cache \<Rightarrow> 't presence_cache \<Rightarrow> bool"
  for env where
  atomic_observe: "atomic_step env c (snd (observe env relay update c))"
| atomic_retain: "atomic_step env c (retain_entries started keys c)"

inductive_cases atomic_stepE: "atomic_step env c c'"

abbreviation live_generation :: "'t presence_cache \<Rightarrow> cache_key \<Rightarrow> int option" where
  "live_generation c k \<equiv> map_option ce_generation (hm_get (pc_entries c) k)"

abbreviation fence_generation :: "'t presence_cache \<Rightarrow> cache_key \<Rightarrow> int option" where
  "fence_generation c k \<equiv> hm_get (pc_generations c) k"

lemma acceptable_generation:
  "acceptable env update c \<Longrightarrow> fence_generation c (presence_key (pa_entry update)) = Some g \<Longrightarrow>
   g \<le> ce_generation (pa_entry update)"
  by (simp add: acceptable_def Let_def)

lemma acceptable_fresh:
  assumes "acceptable env update c" and "hm_get (pc_entries c) (presence_key (pa_entry update)) = None"
    and "fence_generation c (presence_key (pa_entry update)) = Some g"
  shows "g < ce_generation (pa_entry update)"
  using assms by (auto simp: acceptable_def Let_def)

interpretation presence_fence:
  tombstone_fence pc_inv "atomic_step env" fence_generation live_generation for env :: "'t relay_env"
proof unfold_locales
  fix c c' :: "'t presence_cache" and k g h
  assume c: "pc_inv c"
  show "live_generation c k = Some g \<Longrightarrow> fence_generation c k = Some g"
    using pc_inv_entry [OF c, of k] by auto
  assume st: "atomic_step env c c'"
  from c show "pc_inv c'" using st
    by (auto elim: atomic_stepE simp: pc_inv_observe pc_inv_retain)
  show "fence_generation c k = Some g \<Longrightarrow> \<exists>g'. fence_generation c' k = Some g' \<and> g \<le> g'"
    using st
    by (auto elim!: atomic_stepE simp: observe_snd acceptable_generation split: if_splits)
  show "live_generation c k = None \<Longrightarrow> fence_generation c k = Some g
      \<Longrightarrow> live_generation c' k = Some h \<Longrightarrow> g < h"
    using st c
    by (auto elim!: atomic_stepE simp: observe_snd acceptable_fresh retain_lookup split: if_splits)
qed

lemma install_rows_atomic: "(atomic_step env)\<^sup>*\<^sup>* c (snd (install_rows env started rows c))"
proof -
  have "(atomic_step env)\<^sup>*\<^sup>* c (snd (observe_local env entry d))" if "(atomic_step env)\<^sup>*\<^sup>* c d" for entry d
    unfolding observe_local_def
    using that atomic_observe by (rule rtranclp.rtrancl_into_rtrancl)
  then show ?thesis by (rule install_rows_preserves) simp_all
qed

lemma presence_step_atomic: "presence_step env c c' \<Longrightarrow> (atomic_step env)\<^sup>*\<^sup>* c c'"
proof (induction rule: presence_step.induct)
  case (observed c relay update)
  show ?case by (rule r_into_rtranclp) (rule atomic_observe)
next
  case (refreshed c rows started)
  show ?case unfolding install_snapshot_def
    by (rule converse_rtranclp_into_rtranclp [OF atomic_retain install_rows_atomic])
qed

lemma presence_steps_atomic: "(presence_step env)\<^sup>*\<^sup>* c c' \<Longrightarrow> (atomic_step env)\<^sup>*\<^sup>* c c'"
  by (induction rule: rtranclp_induct) (auto dest: presence_step_atomic)

definition presence_reachable :: "'t::linorder relay_env \<Rightarrow> 't presence_cache \<Rightarrow> bool" where
  "presence_reachable env = (presence_step env)\<^sup>*\<^sup>* presence_cache_default"

lemma presence_reachable_inv: "presence_reachable env c \<Longrightarrow> pc_inv c"
  unfolding presence_reachable_def
  using presence_fence.inv_steps presence_steps_atomic pc_inv_default by blast

lemma observe_step: "observe env relay update c = (res, c') \<Longrightarrow> atomic_step env c c'"
  using atomic_observe [of env c relay update] by simp

lemma released_fence:
  assumes "pc_inv c" and "observe env relay update c = (Ok changed, c')" and "pa_released update"
  shows "\<exists>g. fence_generation c' (presence_key (pa_entry update)) = Some g
    \<and> ce_generation (pa_entry update) \<le> g
    \<and> (live_generation c' (presence_key (pa_entry update)) = None
       \<or> ce_generation (pa_entry update) < g)"
  using assms
  by (auto simp: observe_def record_update_eq Let_def split: if_splits option.splits)

text \<open>(C9) Fencing.  From any reachable cache, let a release of an entry be observed without error, and
  let any observations and snapshots follow.  No fence of any key has gone down; the released
  incarnation and all earlier ones stay gone: an entry seen later under that key has a strictly
  larger generation, no attachment of the released or an earlier generation is recognised, and an
  owner reported for a primary key has a strictly larger generation.
\<close>

theorem presence_fencing:
  assumes reach: "presence_reachable env c"
    and rel: "observe env relay update c = (Ok changed, c1)" "pa_released update"
    and later: "(presence_step env)\<^sup>*\<^sup>* c1 c2"
    and entry: "entry = pa_entry update"
  shows "(fence_generation c k = Some g \<longrightarrow> (\<exists>g'. fence_generation c2 k = Some g' \<and> g \<le> g'))
    \<and> (hm_get (pc_entries c2) (presence_key entry) = Some e \<longrightarrow> ce_generation entry < ce_generation e)
    \<and> (pl_peer_id lease = ce_peer_id entry \<and> pl_role lease = ce_role entry
        \<and> pl_relay_id lease = ce_relay_id entry \<and> h \<le> ce_generation entry
        \<longrightarrow> \<not> matches_attachment lease h c2)
    \<and> (ce_role entry = Primary \<and> primary_owner (ce_peer_id entry) now permit c2 = Ok owner
        \<longrightarrow> ce_generation entry < po_generation owner)"
proof -
  have inv: "pc_inv c" using presence_reachable_inv [OF reach] .
  have s1: "atomic_step env c c1" using observe_step [OF rel(1)] .
  have s2: "(atomic_step env)\<^sup>*\<^sup>* c1 c2" using presence_steps_atomic [OF later] .
  have inv1: "pc_inv c1" using presence_fence.inv_step [OF inv s1] .
  have inv2: "pc_inv c2" using presence_fence.inv_steps [OF s2 inv1] .
  have mono: "\<exists>g'. fence_generation c2 k = Some g' \<and> g \<le> g'" if "fence_generation c k = Some g"
    using presence_fence.fence_steps [OF converse_rtranclp_into_rtranclp [OF s1 s2] inv that] .
  let ?k = "presence_key entry"
  obtain f where f: "fence_generation c1 ?k = Some f" "ce_generation entry \<le> f"
      "live_generation c1 ?k = None \<or> ce_generation entry < f"
    using released_fence [OF inv rel] entry by auto
  have gone: "ce_generation entry < ce_generation e" if e: "hm_get (pc_entries c2) ?k = Some e" for e
  proof (cases "live_generation c1 ?k")
    case None
    have "live_generation c2 ?k = Some (ce_generation e)" using e by simp
    from presence_fence.dead_stays_dead [OF s2 inv1 None f(1) this] f(2) show ?thesis by simp
  next
    case (Some h)
    obtain f' where f': "fence_generation c2 ?k = Some f'" "f \<le> f'"
      using presence_fence.fence_steps [OF s2 inv1 f(1)] by blast
    show ?thesis using f(3) Some f' pc_inv_entry [OF inv2 e] by simp
  qed
  show ?thesis
    using mono gone
    by (auto simp: matches_attachment_def primary_owner_def presence_key_def
        split: option.splits if_splits)
qed

section \<open>Snapshots\<close>

lemma snapshot_key_entry [simp]: "presence_key (snapshot_entry row) = snapshot_key row"
  by (simp add: presence_key_def snapshot_entry_def snapshot_key_def)

lemma generation_snapshot_entry [simp]: "ce_generation (snapshot_entry row) = ps_generation row"
  by (simp add: snapshot_entry_def)

lemma install_rows_Cons:
  assumes "observe_local env (snapshot_entry row) c = (res, c')"
  shows "install_rows env started (row # rows) c =
     (if skip_row started (snapshot_entry row) c then install_rows env started rows c
      else case res of Ok _ \<Rightarrow> install_rows env started rows c' | Err e \<Rightarrow> (Err e, c') | Abort \<Rightarrow> (Abort, c'))"
  using assms by (cases res) (simp_all add: Let_def)

lemma observe_local_snd:
  "snd (observe_local env entry c) =
     (if 0 < ce_generation entry \<and> acceptable env \<lparr>pa_entry = entry, pa_released = False\<rparr> c
         \<and> pc_revision c < u64_max
      then recorded \<lparr>pa_entry = entry, pa_released = False\<rparr> c else c)"
  by (simp add: observe_local_def observe_snd)

lemma install_rows_append:
  "install_rows env started (xs @ ys) c =
     (case install_rows env started xs c of
        (Ok _, c') \<Rightarrow> install_rows env started ys c' | (Err e, c') \<Rightarrow> (Err e, c') | (Abort, c') \<Rightarrow> (Abort, c'))"
  by (induction xs arbitrary: c) (auto simp: Let_def split: prod.split outcome.split)

text \<open>A row touches its own key only.\<close>

lemma install_rows_other:
  assumes "k \<notin> snapshot_key ` set rows"
  shows "fence_generation (snd (install_rows env started rows c)) k = fence_generation c k
    \<and> hm_get (pc_entries (snd (install_rows env started rows c))) k = hm_get (pc_entries c) k
    \<and> hm_get (pc_updates (snd (install_rows env started rows c))) k = hm_get (pc_updates c) k"
  using assms
proof (induction rows arbitrary: c)
  case Nil
  then show ?case by simp
next
  case (Cons row rows)
  obtain res c' where o: "observe_local env (snapshot_entry row) c = (res, c')"
    by (cases "observe_local env (snapshot_entry row) c")
  have "c' = snd (observe_local env (snapshot_entry row) c)" using o by simp
  then have "fence_generation c' k = fence_generation c k
    \<and> hm_get (pc_entries c') k = hm_get (pc_entries c) k \<and> hm_get (pc_updates c') k = hm_get (pc_updates c) k"
    using Cons.prems by (auto simp: observe_local_snd)
  then show ?case using Cons.prems Cons.IH [of c] Cons.IH [of c']
    unfolding install_rows_Cons [OF o] by (auto split: outcome.split)
qed

text \<open>A key updated since the query began yields to a row only if the row has a larger generation.\<close>

lemma install_rows_updated:
  assumes "updated_since started c k" and "fence_generation c k = Some g" and "pc_inv c"
  shows "(fence_generation (snd (install_rows env started rows c)) k = Some g
      \<and> hm_get (pc_entries (snd (install_rows env started rows c))) k = hm_get (pc_entries c) k)
    \<or> (\<exists>g'. fence_generation (snd (install_rows env started rows c)) k = Some g' \<and> g < g')"
  using assms
proof (induction rows arbitrary: c)
  case Nil
  then show ?case by simp
next
  case (Cons row rows)
  obtain res c' where o: "observe_local env (snapshot_entry row) c = (res, c')"
    by (cases "observe_local env (snapshot_entry row) c")
  show ?case
  proof (cases "skip_row started (snapshot_entry row) c")
    case True
    then show ?thesis using Cons.IH [OF Cons.prems] unfolding install_rows_Cons [OF o] by simp
  next
    case False
    have c': "c' = snd (observe_local env (snapshot_entry row) c)" using o by simp
    have eq: "snd (install_rows env started (row # rows) c) =
        (if is_ok res then snd (install_rows env started rows c') else c')"
      using False unfolding install_rows_Cons [OF o] by (cases res) simp_all
    show ?thesis
    proof (cases "snapshot_key row = k \<and> c' \<noteq> c")
      case True
      then have "g < ps_generation row"
        using False Cons.prems(1,2) by (auto simp: skip_row_def Let_def)
      moreover have fence: "fence_generation c' k = Some (ps_generation row)"
        using True c' by (auto simp: observe_local_snd split: if_splits)
      moreover have "pc_inv c'" using c' Cons.prems(3) by (simp add: observe_local_def pc_inv_observe)
      then obtain g' where "fence_generation (snd (install_rows env started rows c')) k = Some g'"
          "ps_generation row \<le> g'"
        using presence_fence.fence_steps [OF install_rows_atomic [of env c' started rows] _ fence]
        by blast
      ultimately show ?thesis unfolding eq by auto
    next
      case False
      then have same: "fence_generation c' k = fence_generation c k"
          "hm_get (pc_entries c') k = hm_get (pc_entries c) k" "updated_since started c' k"
        using c' Cons.prems(1)
        by (cases "c' = c"; auto simp: observe_local_snd updated_since_def split: if_splits)+
      have "pc_inv c'" using c' Cons.prems(3) by (simp add: observe_local_def pc_inv_observe)
      then show ?thesis unfolding eq
        using Cons.IH [of c'] same Cons.prems(2) by auto
    qed
  qed
qed

text \<open>After a successful installation every row is behind the fence of its key.\<close>

lemma observe_local_fence:
  assumes "pc_inv c" and "observe_local env entry c = (Ok b, c')"
  shows "\<exists>g. fence_generation c' (presence_key entry) = Some g \<and> ce_generation entry \<le> g"
  using assms
  by (auto simp: observe_local_def observe_def record_update_eq Let_def split: if_splits option.splits)

lemma skip_row_fence:
  assumes "pc_inv c" and "skip_row started entry c"
  shows "\<exists>g. fence_generation c (presence_key entry) = Some g \<and> ce_generation entry \<le> g"
  using assms(2) pc_inv_entry [OF assms(1), of "presence_key entry"]
  by (auto simp: skip_row_def Let_def split: option.splits)

lemma install_rows_fence:
  assumes "pc_inv c" and "install_rows env started rows c = (Ok (), c')" and "row \<in> set rows"
  shows "\<exists>g. fence_generation c' (snapshot_key row) = Some g \<and> ps_generation row \<le> g"
  using assms
proof (induction rows arbitrary: c)
  case Nil
  then show ?case by simp
next
  case (Cons first rows)
  obtain res d where o: "observe_local env (snapshot_entry first) c = (res, d)"
    by (cases "observe_local env (snapshot_entry first) c")
  let ?d = "if skip_row started (snapshot_entry first) c then c else d"
  have d: "pc_inv ?d"
    using o Cons.prems(1) pc_inv_observe [OF Cons.prems(1)] unfolding observe_local_def
    by (metis snd_conv)
  have rest: "install_rows env started rows ?d = (Ok (), c')"
    using Cons.prems(2) unfolding install_rows_Cons [OF o] by (auto split: if_splits outcome.splits)
  show ?case
  proof (cases "row = first")
    case True
    have "\<exists>g. fence_generation ?d (snapshot_key row) = Some g \<and> ps_generation row \<le> g"
    proof (cases "skip_row started (snapshot_entry first) c")
      case skip: True
      then show ?thesis using skip_row_fence [OF Cons.prems(1) skip] True by simp
    next
      case False
      then obtain b where "res = Ok b"
        using Cons.prems(2) unfolding install_rows_Cons [OF o] by (cases res) auto
      then show ?thesis using False True o observe_local_fence [OF Cons.prems(1), of env "snapshot_entry row" b d]
        by simp
    qed
    then obtain g where g: "fence_generation ?d (snapshot_key row) = Some g" "ps_generation row \<le> g"
      by blast
    obtain g' where "fence_generation c' (snapshot_key row) = Some g'" "g \<le> g'"
      using presence_fence.fence_steps [OF install_rows_atomic [of env ?d started rows] d g(1)] rest
      by auto
    then show ?thesis using g(2) by auto
  next
    case False
    then show ?thesis using Cons.IH [OF d rest] Cons.prems(3) by simp
  qed
qed

text \<open>A row ahead of the fence of its key becomes the entry of that key.\<close>

lemma install_rows_installs:
  assumes inv: "pc_inv c" and ok: "install_rows env started rows c = (Ok (), c')"
    and row: "row \<in> set rows" and keys: "distinct (map snapshot_key rows)"
    and ahead: "\<And>g. fence_generation c (snapshot_key row) = Some g \<Longrightarrow> g < ps_generation row"
  shows "hm_get (pc_entries c') (snapshot_key row) = Some (snapshot_entry row)"
proof -
  let ?k = "snapshot_key row"
  obtain xs ys where rows: "rows = xs @ row # ys" using row by (auto dest: split_list)
  then have away: "?k \<notin> snapshot_key ` set xs" "?k \<notin> snapshot_key ` set ys" using keys by auto
  obtain d where d: "install_rows env started xs c = (Ok (), d)"
      "install_rows env started (row # ys) d = (Ok (), c')"
    using ok unfolding rows install_rows_append by (auto split: prod.splits outcome.splits)
  have "pc_inv d"
    using presence_fence.inv_steps [OF install_rows_atomic [of env c started xs] inv] d(1) by simp
  have fence_d: "fence_generation d ?k = fence_generation c ?k"
    using install_rows_other [OF away(1), of env started c] d(1) by simp
  have entry_d: "ce_generation e < ps_generation row" if "hm_get (pc_entries d) ?k = Some e" for e
    using pc_inv_entry [OF \<open>pc_inv d\<close> that] fence_d ahead by simp
  have skip: "\<not> skip_row started (snapshot_entry row) d"
    using fence_d ahead entry_d by (fastforce simp: skip_row_def Let_def split: option.splits)
  obtain res e where o: "observe_local env (snapshot_entry row) d = (res, e)"
    by (cases "observe_local env (snapshot_entry row) d")
  obtain b where b: "res = Ok b" "install_rows env started ys e = (Ok (), c')"
    using d(2) skip unfolding install_rows_Cons [OF o] by (auto split: outcome.splits)
  have "hm_get (pc_entries e) ?k = Some (snapshot_entry row)"
    using o b(1) fence_d ahead entry_d
    by (auto simp: observe_local_def observe_def record_update_eq Let_def reused_generation_def
        split: if_splits option.splits)
  then show ?thesis using install_rows_other [OF away(2), of env started e] b(2) by simp
qed

text \<open>A snapshot against a reachable cache.  The installation never aborts.  A key that the snapshot
  does not list and that no update has touched since the query began loses its entry.  A key updated
  since then keeps its entry unless a row with a strictly larger generation replaces it, and a
  released key is not revived at its fenced generation or below.  When the installation succeeds,
  every row is behind the fence of its key, and a row ahead of the fence its key had becomes the
  entry of that key.
\<close>

theorem snapshot_installation:
  assumes reach: "presence_reachable env c"
    and snap: "install_snapshot env rows started c = (res, c')"
  shows "res \<noteq> Abort
    \<and> (k \<notin> snapshot_key ` set rows \<and> \<not> updated_since started c k \<longrightarrow> hm_get (pc_entries c') k = None)
    \<and> (updated_since started c k \<and> fence_generation c k = Some g \<longrightarrow>
         fence_generation c' k = Some g \<and> hm_get (pc_entries c') k = hm_get (pc_entries c) k
         \<or> (\<exists>g'. fence_generation c' k = Some g' \<and> g < g'))
    \<and> (hm_get (pc_entries c) k = None \<and> fence_generation c k = Some g
         \<and> hm_get (pc_entries c') k = Some e \<longrightarrow> g < ce_generation e)
    \<and> (res = Ok () \<and> row \<in> set rows \<longrightarrow>
         (\<exists>g. fence_generation c' (snapshot_key row) = Some g \<and> ps_generation row \<le> g))
    \<and> (res = Ok () \<and> row \<in> set rows \<and> distinct (map snapshot_key rows)
         \<and> (\<forall>g. fence_generation c (snapshot_key row) = Some g \<longrightarrow> g < ps_generation row) \<longrightarrow>
         hm_get (pc_entries c') (snapshot_key row) = Some (snapshot_entry row))"
proof -
  let ?r = "retain_entries started (map snapshot_key rows) c"
  have inv: "pc_inv c" using presence_reachable_inv [OF reach] .
  have inv_r: "pc_inv ?r" using inv by (rule pc_inv_retain)
  have ins: "install_rows env started rows ?r = (res, c')" using snap by (simp add: install_snapshot_def)
  then have c': "c' = snd (install_rows env started rows ?r)" by simp
  have "res \<noteq> Abort" using install_rows_not_Abort [of env started rows ?r] ins by simp
  moreover have "hm_get (pc_entries c') k = None"
    if "k \<notin> snapshot_key ` set rows \<and> \<not> updated_since started c k"
    using that install_rows_other [of k rows env started ?r] c'
      retain_lookup [OF inv, of started "map snapshot_key rows" k] by auto
  moreover have "fence_generation c' k = Some g \<and> hm_get (pc_entries c') k = hm_get (pc_entries c) k
      \<or> (\<exists>g'. fence_generation c' k = Some g' \<and> g < g')"
    if "updated_since started c k \<and> fence_generation c k = Some g"
    using that install_rows_updated [of started ?r k g env rows] inv_r c'
      retain_lookup [OF inv, of started "map snapshot_key rows" k] by auto
  moreover have "g < ce_generation e"
    if "hm_get (pc_entries c) k = None \<and> fence_generation c k = Some g \<and> hm_get (pc_entries c') k = Some e"
  proof -
    have "(atomic_step env)\<^sup>*\<^sup>* c c'"
      using presence_step_atomic [OF refreshed [of env c rows started]] snap by simp
    then show ?thesis using presence_fence.dead_stays_dead [of env c c' k g "ce_generation e"] inv that
      by simp
  qed
  ultimately show ?thesis
    using install_rows_fence [OF inv_r, of env started rows c' row]
      install_rows_installs [OF inv_r, of env started rows c' row] ins by simp
qed

section \<open>Convergence\<close>

text \<open>
  What a Relay has been told: the announcements it received over sessions of the Relay they name,
  with a positive generation.  \<open>settled\<close> is the abstract view they determine: per key the
  largest generation, no entry once that generation was released, and otherwise the entry of that
  generation with the latest deadline.
\<close>

definition told :: "(uuid \<times> 't presence_announcement) list \<Rightarrow> 't presence_announcement set" where
  "told xs = {update. \<exists>relay. (relay, update) \<in> set xs \<and> ce_relay_id (pa_entry update) = relay
                       \<and> 0 < ce_generation (pa_entry update)}"

definition told_at :: "'t presence_announcement set \<Rightarrow> cache_key \<Rightarrow> 't presence_announcement set" where
  "told_at A k = {update \<in> A. presence_key (pa_entry update) = k}"

definition one_incarnation :: "'t relay_env \<Rightarrow> 't presence_announcement set \<Rightarrow> bool" where
  "one_incarnation env A \<longleftrightarrow>
     (\<forall>a \<in> A. \<forall>b \<in> A. presence_key (pa_entry a) = presence_key (pa_entry b)
        \<and> ce_generation (pa_entry a) = ce_generation (pa_entry b) \<longrightarrow>
        ce_relay_id (pa_entry a) = ce_relay_id (pa_entry b)
        \<and> ce_attachment_id (pa_entry a) = ce_attachment_id (pa_entry b)
        \<and> (re_unix_timestamp env (ce_lease_deadline (pa_entry a))
             = re_unix_timestamp env (ce_lease_deadline (pa_entry b))
           \<longrightarrow> ce_lease_deadline (pa_entry a) = ce_lease_deadline (pa_entry b)))"

definition settled_entry ::
  "'t relay_env \<Rightarrow> 't presence_announcement set \<Rightarrow> int \<Rightarrow> 't presence_cache_entry option \<Rightarrow> bool" where
  "settled_entry env A g entry \<longleftrightarrow>
     (case entry of
        None \<Rightarrow> (\<exists>a \<in> A. ce_generation (pa_entry a) = g \<and> pa_released a)
      | Some e \<Rightarrow>
          (\<exists>a \<in> A. pa_entry a = e \<and> \<not> pa_released a) \<and> ce_generation e = g
          \<and> (\<forall>a \<in> A. ce_generation (pa_entry a) = g \<longrightarrow>
               \<not> pa_released a
               \<and> re_unix_timestamp env (ce_lease_deadline (pa_entry a))
                   \<le> re_unix_timestamp env (ce_lease_deadline e)))"

definition settled_at ::
  "'t relay_env \<Rightarrow> 't presence_announcement set \<Rightarrow> int option \<Rightarrow> 't presence_cache_entry option \<Rightarrow> bool" where
  "settled_at env A generation entry \<longleftrightarrow>
     (case generation of
        None \<Rightarrow> A = {} \<and> entry = None
      | Some g \<Rightarrow> (\<exists>a \<in> A. ce_generation (pa_entry a) = g)
          \<and> (\<forall>a \<in> A. ce_generation (pa_entry a) \<le> g) \<and> settled_entry env A g entry)"

text \<open>The view is a function of what was told.\<close>

lemma presence_entry_eqI:
  assumes "presence_key e = presence_key e'" and "ce_generation e = ce_generation e'"
    and "ce_relay_id e = ce_relay_id e'" and "ce_attachment_id e = ce_attachment_id e'"
    and "ce_lease_deadline e = ce_lease_deadline e'"
  shows "e = (e' :: 't presence_cache_entry)"
  using assms by (cases e; cases e') (simp add: presence_key_def)

lemma settled_entry_unique:
  assumes one: "one_incarnation env A" and e: "settled_entry env (told_at A k) g e"
    and e': "settled_entry env (told_at A k) g e'"
  shows "e = e'"
proof (cases e)
  case None
  then show ?thesis using e e' by (cases e') (auto simp: settled_entry_def)
next
  case (Some x)
  then obtain y where y: "e' = Some y" using e e' by (cases e') (auto simp: settled_entry_def)
  obtain a b where ab: "a \<in> told_at A k" "pa_entry a = x" "b \<in> told_at A k" "pa_entry b = y"
      "ce_generation x = g" "ce_generation y = g"
    using e e' Some y by (auto simp: settled_entry_def)
  have ts: "re_unix_timestamp env (ce_lease_deadline x) = re_unix_timestamp env (ce_lease_deadline y)"
    using e e' Some y ab by (intro antisym) (auto simp: settled_entry_def)
  have key: "presence_key x = presence_key y" and mem: "a \<in> A" "b \<in> A"
    using ab by (auto simp: told_at_def)
  have same: "ce_relay_id x = ce_relay_id y \<and> ce_attachment_id x = ce_attachment_id y
      \<and> ce_lease_deadline x = ce_lease_deadline y"
    using one [unfolded one_incarnation_def, rule_format, OF mem] key ts ab by simp
  have "x = y" using key ab same by (intro presence_entry_eqI) simp_all
  then show ?thesis using Some y by simp
qed

lemma settled_at_unique:
  assumes "one_incarnation env A" and "settled_at env (told_at A k) m e"
    and "settled_at env (told_at A k) m' e'"
  shows "m = m' \<and> e = e'"
proof -
  have "m = m'"
  proof (cases m)
    case None
    then show ?thesis using assms(2,3) by (cases m') (auto simp: settled_at_def)
  next
    case (Some g)
    then obtain g' where g': "m' = Some g'" using assms(2,3) by (cases m') (auto simp: settled_at_def)
    have "g \<le> g'" and "g' \<le> g" using assms(2,3) Some g' by (auto simp: settled_at_def)
    then show ?thesis using Some g' by simp
  qed
  moreover have "e = e'" if "m = None" using assms(2,3) that calculation by (simp add: settled_at_def)
  moreover have "e = e'" if "m = Some g" for g
    using assms(2,3) that calculation(1)
    by (intro settled_entry_unique [OF assms(1), of k g]) (simp_all add: settled_at_def)
  ultimately show ?thesis by (cases m) auto
qed

text \<open>One announcement keeps the cache settled.\<close>

definition settled :: "'t relay_env \<Rightarrow> 't presence_announcement set \<Rightarrow> 't presence_cache \<Rightarrow> bool" where
  "settled env A c \<longleftrightarrow>
     (\<forall>k. settled_at env (told_at A k) (fence_generation c k) (hm_get (pc_entries c) k))"

lemma told_at_insert:
  "told_at (insert update A) k =
     (if presence_key (pa_entry update) = k then insert update (told_at A k) else told_at A k)"
  by (auto simp: told_at_def)

lemma settled_at_newest:
  assumes "\<And>a. a \<in> A \<Longrightarrow> ce_generation (pa_entry a) < ce_generation (pa_entry update)"
  shows "settled_at env (insert update A) (Some (ce_generation (pa_entry update)))
    (if pa_released update then None else Some (pa_entry update))"
  using assms by (fastforce simp: settled_at_def settled_entry_def)

lemma settled_at_older:
  assumes "settled_at env A (Some g) entry" and "ce_generation (pa_entry update) < g"
  shows "settled_at env (insert update A) (Some g) entry"
  using assms by (auto simp: settled_at_def settled_entry_def split: option.splits)

lemma settled_at_tombstone:
  assumes "settled_at env A (Some g) None" and "ce_generation (pa_entry update) = g"
  shows "settled_at env (insert update A) (Some g) None"
  using assms by (auto simp: settled_at_def settled_entry_def)

lemma settled_at_release:
  assumes "settled_at env A (Some g) entry" and "ce_generation (pa_entry update) = g" and "pa_released update"
  shows "settled_at env (insert update A) (Some g) None"
  using assms by (auto simp: settled_at_def settled_entry_def)

lemma settled_at_renewal:
  assumes "settled_at env A (Some g) (Some current)" and "ce_generation (pa_entry update) = g"
    and "\<not> pa_released update"
  shows "settled_at env (insert update A) (Some g)
    (if re_unix_timestamp env (ce_lease_deadline (pa_entry update))
          < re_unix_timestamp env (ce_lease_deadline current)
     then Some current else Some (pa_entry update))"
  using assms by (fastforce simp: settled_at_def settled_entry_def)

lemma settled_current:
  assumes "one_incarnation env (insert update A)" and "settled_at env (told_at A k) (Some g) (Some current)"
    and "presence_key (pa_entry update) = k" and "ce_generation (pa_entry update) = g"
  shows "ce_relay_id (pa_entry update) = ce_relay_id current
    \<and> ce_attachment_id (pa_entry update) = ce_attachment_id current
    \<and> ce_role (pa_entry update) = ce_role current \<and> ce_generation current = g"
proof -
  obtain a where a: "a \<in> A" "pa_entry a = current" "presence_key current = k" "ce_generation current = g"
    using assms(2) by (auto simp: settled_at_def settled_entry_def told_at_def)
  have "ce_relay_id (pa_entry update) = ce_relay_id (pa_entry a)
      \<and> ce_attachment_id (pa_entry update) = ce_attachment_id (pa_entry a)"
    using assms(1) [unfolded one_incarnation_def, rule_format, of update a] a assms(3,4) by simp
  then show ?thesis using a assms(3) by (auto simp: presence_key_def)
qed

lemma settled_observe_key:
  assumes one: "one_incarnation env (insert update A)"
    and at: "settled_at env (told_at A k) (fence_generation c k) (hm_get (pc_entries c) k)"
    and key: "k = presence_key (pa_entry update)"
    and valid: "ce_relay_id (pa_entry update) = relay" "0 < ce_generation (pa_entry update)"
    and room: "pc_revision c < u64_max"
  shows "settled_at env (insert update (told_at A k))
    (fence_generation (snd (observe env relay update c)) k)
    (hm_get (pc_entries (snd (observe env relay update c))) k)"
proof (cases "fence_generation c k")
  case None
  then have "told_at A k = {}" "hm_get (pc_entries c) k = None" using at by (auto simp: settled_at_def)
  then show ?thesis
    using settled_at_newest [of "{}" update env] None key valid room
    by (simp add: observe_snd acceptable_def Let_def)
next
  case (Some g)
  let ?h = "ce_generation (pa_entry update)"
  have at': "settled_at env (told_at A k) (Some g) (hm_get (pc_entries c) k)" using at Some by simp
  have gen: "ce_generation e = g" if "hm_get (pc_entries c) k = Some e" for e
    using at' that by (simp add: settled_at_def settled_entry_def)
  consider "?h < g" | "g < ?h" | "?h = g" "hm_get (pc_entries c) k = None"
    | current where "?h = g" "hm_get (pc_entries c) k = Some current"
    by (metis linorder_neqE option.exhaust)
  then show ?thesis
  proof cases
    case 1
    then have "\<not> acceptable env update c" using Some key by (auto simp: acceptable_def Let_def)
    then show ?thesis using settled_at_older [OF at' 1] Some by (simp add: observe_snd)
  next
    case 2
    have "acceptable env update c" using 2 Some key gen
      by (auto simp: acceptable_def Let_def reused_generation_def split: option.split)
    moreover have "ce_generation (pa_entry a) < ?h" if "a \<in> told_at A k" for a
      using at' that 2 by (force simp: settled_at_def)
    ultimately show ?thesis using settled_at_newest [of "told_at A k" update env] key valid room
      by (simp add: observe_snd)
  next
    case 3
    then have "\<not> acceptable env update c" using Some key by (simp add: acceptable_def Let_def)
    then show ?thesis using settled_at_tombstone [of env "told_at A k" g update] at' 3 Some
      by (simp add: observe_snd)
  next
    case 4
    have cur: "settled_at env (told_at A k) (Some g) (Some current)" using at' 4(2) by simp
    note same = settled_current [OF one cur key [symmetric] 4(1)]
    have "acceptable env update c \<longleftrightarrow> pa_released update
        \<or> \<not> re_unix_timestamp env (ce_lease_deadline (pa_entry update))
             < re_unix_timestamp env (ce_lease_deadline current)"
      using same 4 Some key by (simp add: acceptable_def Let_def reused_generation_def)
    then show ?thesis
      using settled_at_release [OF cur 4(1)] settled_at_renewal [OF cur 4(1)]
        4 Some key valid room
      by (cases "pa_released update") (simp_all add: observe_snd split: if_splits)
  qed
qed

lemma settled_observe:
  assumes "settled env A c" and "one_incarnation env (insert update A)"
    and "ce_relay_id (pa_entry update) = relay" "0 < ce_generation (pa_entry update)"
    and "pc_revision c < u64_max"
  shows "settled env (insert update A) (snd (observe env relay update c))"
  unfolding settled_def
proof
  fix k
  have at: "settled_at env (told_at A k) (fence_generation c k) (hm_get (pc_entries c) k)"
    using assms(1) by (simp add: settled_def)
  show "settled_at env (told_at (insert update A) k)
      (fence_generation (snd (observe env relay update c)) k)
      (hm_get (pc_entries (snd (observe env relay update c))) k)"
  proof (cases "presence_key (pa_entry update) = k")
    case True
    then show ?thesis using settled_observe_key [OF assms(2) at _ assms(3-5)]
      by (simp add: told_at_insert)
  next
    case False
    then show ?thesis using at by (simp add: told_at_insert observe_snd)
  qed
qed

text \<open>A whole sequence of announcements, each over an authenticated session.\<close>

definition absorb ::
  "'t relay_env \<Rightarrow> (uuid \<times> 't presence_announcement) list \<Rightarrow> 't presence_cache \<Rightarrow> 't presence_cache" where
  "absorb env = fold (\<lambda>(relay, update) c. snd (observe env relay update c))"

lemma observe_revision: "pc_revision (snd (observe env relay update c)) \<le> pc_revision c + 1"
  by (simp add: observe_snd)

lemma one_incarnation_mono: "one_incarnation env B \<Longrightarrow> A \<subseteq> B \<Longrightarrow> one_incarnation env A"
  by (meson one_incarnation_def subsetD)

lemma told_snoc:
  "told (xs @ [(relay, update)]) =
     (if ce_relay_id (pa_entry update) = relay \<and> 0 < ce_generation (pa_entry update)
      then insert update (told xs) else told xs)"
  by (auto simp: told_def)

lemma absorb_settled:
  assumes "one_incarnation env (told xs)" and "length xs < u64_max"
  shows "settled env (told xs) (absorb env xs presence_cache_default)
    \<and> pc_inv (absorb env xs presence_cache_default)
    \<and> pc_revision (absorb env xs presence_cache_default) \<le> length xs"
  using assms
proof (induction xs rule: rev_induct)
  case Nil
  show ?case
    using pc_inv_default
    by (simp add: absorb_def told_def settled_def told_at_def settled_at_def presence_cache_default_def)
next
  case (snoc x xs)
  obtain relay update where x: "x = (relay, update)" by (cases x)
  have sub: "told xs \<subseteq> told (xs @ [x])" by (auto simp: told_def)
  have ih: "settled env (told xs) (absorb env xs presence_cache_default)"
      "pc_inv (absorb env xs presence_cache_default)"
      "pc_revision (absorb env xs presence_cache_default) \<le> length xs"
    using snoc.IH one_incarnation_mono [OF snoc.prems(1) sub] snoc.prems(2) by simp_all
  have step: "absorb env (xs @ [(relay, update)]) presence_cache_default =
      snd (observe env relay update (absorb env xs presence_cache_default))"
    by (simp add: absorb_def)
  have "settled env (told (xs @ [x])) (absorb env (xs @ [x]) presence_cache_default)"
  proof (cases "ce_relay_id (pa_entry update) = relay \<and> 0 < ce_generation (pa_entry update)")
    case True
    then show ?thesis
      using settled_observe [OF ih(1), of update relay] snoc.prems ih(3)
      by (simp add: step x told_snoc)
  next
    case False
    then show ?thesis using ih(1) by (auto simp: step x told_snoc observe_snd)
  qed
  moreover have "pc_inv (absorb env (xs @ [x]) presence_cache_default)"
    unfolding x step using ih(2) by (rule pc_inv_observe)
  ultimately show ?case
    using observe_revision [of env relay update "absorb env xs presence_cache_default"] ih(3)
    by (simp add: x step)
qed

text \<open>(C32) Convergence.  Two Relays that start empty and receive the same announcements, in any order and any
  number of times (fewer than the revisions that 64 bits count), end with the same fences and
  the same entries, provided that among the announcements they accept - those of a positive generation over a
  session of the Relay named - one generation of a key belongs to one incarnation, the same Relay and attachment, and its deadlines
  are equal or differ in whole seconds.  (A Relay that reuses a generation for another attachment
  breaks this: then the order matters.)  The common view is the settled one: per key the largest generation
  announced, no entry if that generation was released, and otherwise its entry with the latest
  deadline.
\<close>

theorem presence_convergence:
  assumes one: "one_incarnation env (told xs)" and same: "set xs = set ys"
    and room: "length xs < u64_max" "length ys < u64_max"
  shows "pc_entries (absorb env xs presence_cache_default) = pc_entries (absorb env ys presence_cache_default)
    \<and> pc_generations (absorb env xs presence_cache_default) = pc_generations (absorb env ys presence_cache_default)
    \<and> settled env (told xs) (absorb env xs presence_cache_default)"
proof -
  let ?x = "absorb env xs presence_cache_default" and ?y = "absorb env ys presence_cache_default"
  have told: "told ys = told xs" using same by (simp add: told_def)
  note x = absorb_settled [OF one room(1)]
  note y = absorb_settled [OF one [folded told] room(2), unfolded told]
  have eq: "fence_generation ?x k = fence_generation ?y k
      \<and> hm_get (pc_entries ?x) k = hm_get (pc_entries ?y) k" for k
    using x y by (intro settled_at_unique [OF one, of k]) (simp_all add: settled_def)
  then have "pc_entries ?x = pc_entries ?y" "pc_generations ?x = pc_generations ?y"
    using x y by (auto intro!: bmap_eqI simp: pc_inv_def)
  then show ?thesis using x by simp
qed

section \<open>The wire format is exact\<close>

lemma length_i64_to_be [simp]: "length (i64_to_be x) = 8"
  by (simp add: i64_to_be_def)

lemma i64_from_to_be:
  assumes "- (2 ^ 63) \<le> x" and "x < 2 ^ 63"
  shows "i64_from_be (i64_to_be x) = x"
proof -
  have less: "nat (x mod 2 ^ 64) < 256 ^ 8" by (simp add: nat_less_iff)
  have "of_be (i64_to_be x) = nat (x mod 2 ^ 64)"
    unfolding i64_to_be_def by (rule of_be_to_be [OF less])
  then have "int (of_be (i64_to_be x)) = x mod 2 ^ 64" by simp
  moreover have "x mod 2 ^ 64 = (if x < 0 then x + 2 ^ 64 else x)"
  proof (cases "x < 0")
    case True
    have "x mod 2 ^ 64 = (x + 2 ^ 64) mod 2 ^ 64" by simp
    also have "\<dots> = x + 2 ^ 64" using True assms(1) by (intro mod_pos_pos_trivial) simp_all
    finally show ?thesis using True by simp
  next
    case False
    then show ?thesis using assms by simp
  qed
  ultimately show ?thesis using assms by (simp add: i64_from_be_def Let_def)
qed

lemma i64_to_from_be:
  assumes "length bs = 8"
  shows "i64_to_be (i64_from_be bs) = bs"
proof -
  have less: "of_be bs < 2 ^ 64" using of_be_less [of bs] assms by simp
  have "i64_from_be bs mod 2 ^ 64 = int (of_be bs) mod 2 ^ 64"
    by (simp add: i64_from_be_def Let_def)
  also have "\<dots> = int (of_be bs)" using less by (intro mod_pos_pos_trivial) simp_all
  finally show ?thesis using to_be_of_be [of bs] assms by (simp add: i64_to_be_def)
qed

lemma role_tag_decode [simp]: "decode_role (role_tag role) = Ok role"
  by (cases role) (simp_all add: role_tag_def decode_role_def)

lemma decode_role_Ok [simp]: "decode_role tag = Ok role \<longleftrightarrow> tag = role_tag role"
  by (cases role) (auto simp: role_tag_def decode_role_def)

text \<open>What the code relies on of the \<open>time\<close> crate.\<close>

definition time_laws :: "'t relay_env \<Rightarrow> bool" where
  "time_laws env \<longleftrightarrow>
     (\<forall>s t. re_from_unix_timestamp env s = Some t \<longrightarrow> re_unix_timestamp env t = s)
     \<and> (\<forall>t. re_from_unix_timestamp env (re_unix_timestamp env t) \<noteq> None
          \<and> - (2 ^ 63) \<le> re_unix_timestamp env t \<and> re_unix_timestamp env t < 2 ^ 63)"

definition announcement_ok :: "'t relay_env \<Rightarrow> 't presence_announcement \<Rightarrow> bool" where
  "announcement_ok env update \<longleftrightarrow>
     (let e = pa_entry update in
      list_all (\<lambda>u. length u = 16 \<and> re_uuid_v4 env u) [ce_peer_id e, ce_relay_id e, ce_attachment_id e]
      \<and> - (2 ^ 63) \<le> ce_generation e \<and> ce_generation e < 2 ^ 63)"

definition whole_seconds :: "'t relay_env \<Rightarrow> 't presence_announcement \<Rightarrow> 't presence_announcement" where
  "whole_seconds env update =
     update\<lparr>pa_entry := (pa_entry update)\<lparr>ce_lease_deadline :=
       the (re_from_unix_timestamp env (re_unix_timestamp env (ce_lease_deadline (pa_entry update))))\<rparr>\<rparr>"

lemma decode_presence_exact:
  assumes "length body = 67"
  shows "decode_presence env body = Ok update \<longleftrightarrow>
    (\<exists>t. body ! 0 = 1 \<and> body ! 1 = (if pa_released update then 1 else 0)
      \<and> take 16 (drop 2 body) = ce_peer_id (pa_entry update)
      \<and> take 16 (drop 18 body) = ce_relay_id (pa_entry update)
      \<and> take 16 (drop 34 body) = ce_attachment_id (pa_entry update)
      \<and> list_all (re_uuid_v4 env) [ce_peer_id (pa_entry update), ce_relay_id (pa_entry update),
          ce_attachment_id (pa_entry update)]
      \<and> body ! 50 = role_tag (ce_role (pa_entry update))
      \<and> i64_from_be (take 8 (drop 51 body)) = ce_generation (pa_entry update)
      \<and> re_from_unix_timestamp env (i64_from_be (take 8 (drop 59 body))) = Some t
      \<and> ce_lease_deadline (pa_entry update) = t)"
proof -
  have flag: "1 < (x :: u8) \<longleftrightarrow> x \<noteq> 0 \<and> x \<noteq> 1" for x
    by (metis less_one linorder_neqE_linordered_idom not_less_iff_gr_or_eq word_gt_0 word_less_1)
  show ?thesis
    using assms
    by (cases update; cases "pa_entry update")
      (auto simp: decode_presence_def PRESENCE_WIRE_LENGTH_def PRESENCE_WIRE_VERSION_def slice_simps
        and_then_Ok_iff decode_uuid_def flag split: if_splits)
qed

lemma encode_presence_split:
  fixes update :: "'t presence_announcement"
  assumes "announcement_ok env update"
  defines "e \<equiv> pa_entry update" and "body \<equiv> encode_presence env update"
  shows "length body = 67" "body ! 0 = 1" "body ! 1 = (if pa_released update then 1 else 0)"
    "take 16 (drop 2 body) = ce_peer_id e" "take 16 (drop 18 body) = ce_relay_id e"
    "take 16 (drop 34 body) = ce_attachment_id e" "body ! 50 = role_tag (ce_role e)"
    "take 8 (drop 51 body) = i64_to_be (ce_generation e)"
    "take 8 (drop 59 body) = i64_to_be (re_unix_timestamp env (ce_lease_deadline e))"
proof -
  have len: "length (ce_peer_id e) = 16" "length (ce_relay_id e) = 16" "length (ce_attachment_id e) = 16"
    using assms(1) by (simp_all add: announcement_ok_def e_def Let_def)
  have body: "body = [1, if pa_released update then 1 else 0] @ ce_peer_id e @ ce_relay_id e
      @ ce_attachment_id e @ [role_tag (ce_role e)] @ i64_to_be (ce_generation e)
      @ i64_to_be (re_unix_timestamp env (ce_lease_deadline e))"
    by (simp add: body_def e_def encode_presence_def Let_def PRESENCE_WIRE_VERSION_def)
  show "length body = 67" "body ! 0 = 1" "body ! 1 = (if pa_released update then 1 else 0)"
    "take 16 (drop 2 body) = ce_peer_id e" "take 16 (drop 18 body) = ce_relay_id e"
    "take 16 (drop 34 body) = ce_attachment_id e" "body ! 50 = role_tag (ce_role e)"
    "take 8 (drop 51 body) = i64_to_be (ce_generation e)"
    "take 8 (drop 59 body) = i64_to_be (re_unix_timestamp env (ce_lease_deadline e))"
    unfolding body using len by (simp_all add: nth_append)
qed

lemma presence_body_split:
  assumes "length (body :: bytes) = 67"
  obtains v r p q a t g d where "body = [v, r] @ p @ q @ a @ [t] @ g @ d"
    and "length p = 16" "length q = 16" "length a = 16" "length g = 8" "length d = 8"
proof -
  obtain v r b0 where b0: "body = v # r # b0" "length b0 = 65"
    using assms by (auto simp: numeral_eq_Suc length_Suc_conv)
  obtain p b1 where b1: "b0 = p @ b1" "length p = 16" "length b1 = 49"
    using split_prefix [of b0 16 49] b0(2) by auto
  obtain q b2 where b2: "b1 = q @ b2" "length q = 16" "length b2 = 33"
    using split_prefix [of b1 16 33] b1(3) by auto
  obtain a b3 where b3: "b2 = a @ b3" "length a = 16" "length b3 = 17"
    using split_prefix [of b2 16 17] b2(3) by auto
  obtain t b4 where b4: "b3 = t # b4" "length b4 = 16"
    using b3(3) by (auto simp: numeral_eq_Suc length_Suc_conv)
  obtain g d where "b4 = g @ d" "length g = 8" "length d = 8"
    using split_prefix [of b4 8 8] b4(2) by auto
  then show ?thesis using that [of v r p q a t g d] b0 b1 b2 b3 b4 by simp
qed

lemma i64_from_be_bounds:
  assumes "length bs = 8"
  shows "- (2 ^ 63) \<le> i64_from_be bs \<and> i64_from_be bs < 2 ^ 63"
proof -
  have "of_be bs < 2 ^ 64" using of_be_less [of bs] assms by simp
  then show ?thesis by (simp add: i64_from_be_def Let_def)
qed

lemma encode_decoded:
  assumes laws: "time_laws env" and dec: "decode_presence env body = Ok update"
  shows "encode_presence env update = body \<and> announcement_ok env update"
proof -
  have len: "length body = 67"
    using dec by (simp add: decode_presence_def PRESENCE_WIRE_LENGTH_def split: if_splits)
  obtain v r p q a t g d where b: "body = [v, r] @ p @ q @ a @ [t] @ g @ d"
      and l: "length p = 16" "length q = 16" "length a = 16" "length g = 8" "length d = 8"
    using presence_body_split [OF len] .
  have parts: "v = 1" "r = (if pa_released update then 1 else 0)" "p = ce_peer_id (pa_entry update)"
      "q = ce_relay_id (pa_entry update)" "a = ce_attachment_id (pa_entry update)"
      "list_all (re_uuid_v4 env) [p, q, a]" "t = role_tag (ce_role (pa_entry update))"
      "i64_from_be g = ce_generation (pa_entry update)"
      "re_from_unix_timestamp env (i64_from_be d) = Some (ce_lease_deadline (pa_entry update))"
    using dec [unfolded decode_presence_exact [OF len]] l by (auto simp: b nth_append)
  have "re_unix_timestamp env (ce_lease_deadline (pa_entry update)) = i64_from_be d"
    using parts(9) laws by (simp add: time_laws_def)
  then have "encode_presence env update = body"
    using parts l b
    by (simp add: encode_presence_def Let_def PRESENCE_WIRE_VERSION_def i64_to_from_be
        flip: parts(8))
  moreover have "announcement_ok env update"
    using parts l i64_from_be_bounds [of g] by (simp add: announcement_ok_def Let_def)
  ultimately show ?thesis by simp
qed

text \<open>Decoding refuses with the one error and never panics.\<close>

fun mismatch_only :: "('a, relay_error) outcome \<Rightarrow> bool" where
  "mismatch_only (Ok x) = True"
| "mismatch_only (Err e) = (e = Wire Wire_KindMismatch)"
| "mismatch_only Abort = False"

lemma mismatch_and_then: "mismatch_only m \<Longrightarrow> (\<And>x. mismatch_only (f x)) \<Longrightarrow> mismatch_only (and_then m f)"
  by (cases m) auto

lemma mismatch_ok_or: "mismatch_only (ok_or (Wire Wire_KindMismatch) x)"
  by (cases x) auto

lemma decode_presence_total: "mismatch_only (decode_presence env body)"
proof (cases "length body = 67")
  case True
  then show ?thesis
    by (auto simp: decode_presence_def PRESENCE_WIRE_LENGTH_def slice_simps decode_uuid_def
        decode_role_def mismatch_ok_or intro!: mismatch_and_then)
next
  case False
  then show ?thesis by (simp add: decode_presence_def PRESENCE_WIRE_LENGTH_def)
qed

text \<open>The presence wire format.  Under the laws of the \<open>time\<close> crate, a well-formed announcement
  becomes 67 bytes that decode to it with its deadline cut to whole seconds; every accepted body is
  exactly the encoding of the announcement it decodes to, which is well formed; and decoding any
  byte string returns, with the one error kind mismatch when it refuses.
\<close>

theorem presence_wire_roundtrip:
  assumes laws: "time_laws env"
  shows "(announcement_ok env update \<longrightarrow>
       length (encode_presence env update) = PRESENCE_WIRE_LENGTH
       \<and> decode_presence env (encode_presence env update) = Ok (whole_seconds env update))
    \<and> (decode_presence env body = Ok update' \<longrightarrow>
         encode_presence env update' = body \<and> announcement_ok env update')
    \<and> decode_presence env body \<noteq> Abort
    \<and> (decode_presence env body = Err e \<longrightarrow> e = Wire Wire_KindMismatch)"
proof -
  have "length (encode_presence env update) = PRESENCE_WIRE_LENGTH
      \<and> decode_presence env (encode_presence env update) = Ok (whole_seconds env update)"
    if ok: "announcement_ok env update"
  proof -
    note split = encode_presence_split [OF ok]
    obtain t where t: "re_from_unix_timestamp env
        (re_unix_timestamp env (ce_lease_deadline (pa_entry update))) = Some t"
      using laws unfolding time_laws_def by blast
    have "decode_presence env (encode_presence env update) = Ok (whole_seconds env update)"
      unfolding decode_presence_exact [OF split(1)] whole_seconds_def
      using split ok laws t
      by (simp add: i64_from_to_be announcement_ok_def time_laws_def Let_def)
    then show ?thesis using split(1) by (simp add: PRESENCE_WIRE_LENGTH_def)
  qed
  then show ?thesis using encode_decoded [OF laws] decode_presence_total [of env body]
    by (cases "decode_presence env body") auto
qed

section \<open>Concrete runs\<close>

text \<open>Integers of the \<open>time\<close> crate's range as instants, and one attachment of one Peer.\<close>

definition presence_env :: "int relay_env" where
  "presence_env =
     \<lparr>re_unix_timestamp = (\<lambda>t. max (- 377705116800) (min t 253402300799)),
      re_from_unix_timestamp = (\<lambda>s. if - 377705116800 \<le> s \<and> s \<le> 253402300799 then Some s else None),
      re_uuid_v4 = (\<lambda>_. True)\<rparr>"

definition sample_presence :: "int \<Rightarrow> int \<Rightarrow> int presence_cache_entry" where
  "sample_presence generation deadline =
     \<lparr>ce_peer_id = replicate 16 1, ce_relay_id = replicate 16 2, ce_attachment_id = replicate 16 3,
      ce_role = Primary, ce_generation = generation, ce_lease_deadline = deadline\<rparr>"

definition sample_presence_row :: "int \<Rightarrow> int presence_snapshot" where
  "sample_presence_row generation =
     \<lparr>ps_peer_id = replicate 16 1, ps_relay_id = replicate 16 2, ps_attachment_id = replicate 16 3,
      ps_role = Primary, ps_generation = generation, ps_lease_deadline = 100\<rparr>"

definition sample_presence_lease :: "int presence_lease" where
  "sample_presence_lease =
     \<lparr>pl_mesh_id = replicate 16 9, pl_peer_id = replicate 16 1, pl_relay_id = replicate 16 2,
      pl_attachment_id = replicate 16 3, pl_role = Primary, pl_lease_deadline = 100\<rparr>"

definition sample_cache :: "int presence_cache" where
  "sample_cache = snd (observe_local presence_env (sample_presence 7 100) presence_cache_default)"

lemmas sample_presence_defs = presence_env_def sample_presence_def sample_presence_row_def
  sample_presence_lease_def sample_cache_def

lemmas presence_eval = observe_local_def release_local_def observe_def record_update_def checked_add_def
  u64_max_def presence_key_def presence_cache_default_def Let_def reused_generation_def

lemma presence_time_laws: "time_laws presence_env"
  by (auto simp: time_laws_def presence_env_def max_def min_def)

lemma sample_cache_reachable: "presence_reachable presence_env sample_cache"
  unfolding presence_reachable_def sample_cache_def observe_local_def
  by (rule r_into_rtranclp) (rule observed)

lemma sample_cache_eq:
  "sample_cache =
     \<lparr>pc_entries = [((replicate 16 1, Primary, None), sample_presence 7 100)],
      pc_generations = [((replicate 16 1, Primary, None), 7)],
      pc_updates = [((replicate 16 1, Primary, None), 1)], pc_revision = 1\<rparr>"
  by (simp add: sample_presence_defs presence_eval)

text \<open>Generation 7 is released; a late renewal of generation 7 does not bring it back.\<close>

theorem presence_fencing_witness:
  "presence_reachable presence_env sample_cache
   \<and> fst (release_local presence_env (sample_presence 7 100) sample_cache) = Ok True
   \<and> \<not> matches_attachment sample_presence_lease 7
       (snd (observe_local presence_env (sample_presence 7 200)
          (snd (release_local presence_env (sample_presence 7 100) sample_cache))))"
proof -
  let ?u = "\<lparr>pa_entry = sample_presence 7 100, pa_released = True\<rparr>"
  obtain c1 where c1: "observe presence_env (replicate 16 2) ?u sample_cache = (Ok True, c1)"
    by (simp add: sample_cache_eq presence_eval sample_presence_def)
  have local: "release_local presence_env (sample_presence 7 100) = observe presence_env (replicate 16 2) ?u"
    by (simp add: release_local_def sample_presence_def)
  have later: "(presence_step presence_env)\<^sup>*\<^sup>* c1 (snd (observe_local presence_env (sample_presence 7 200) c1))"
    unfolding observe_local_def by (rule r_into_rtranclp) (rule observed)
  have "\<not> matches_attachment sample_presence_lease 7
      (snd (observe_local presence_env (sample_presence 7 200) c1))"
    using presence_fencing [OF sample_cache_reachable c1 _ later refl,
        where lease = sample_presence_lease and h = 7]
    by (simp add: sample_presence_def sample_presence_lease_def)
  then show ?thesis by (simp add: local c1 sample_cache_reachable)
qed

theorem snapshot_installation_witness:
  "presence_reachable presence_env sample_cache
   \<and> fst (install_snapshot presence_env [sample_presence_row 8] 1 sample_cache) = Ok ()
   \<and> hm_get (pc_entries (snd (install_snapshot presence_env [sample_presence_row 8] 1 sample_cache)))
       (replicate 16 1, Primary, None) = Some (sample_presence 8 100)
   \<and> hm_get (pc_entries (snd (install_snapshot presence_env [] 1 sample_cache)))
       (replicate 16 1, Primary, None) = None"
proof -
  obtain c1 where c1: "install_snapshot presence_env [sample_presence_row 8] 1 sample_cache = (Ok (), c1)"
    by (simp add: sample_cache_eq presence_eval install_snapshot_def retain_entries_def updated_since_def
        skip_row_def snapshot_entry_def snapshot_key_def sample_presence_row_def sample_presence_def)
  obtain c2 where c2: "install_snapshot presence_env [] 1 sample_cache = (Ok (), c2)"
    by (simp add: install_snapshot_def)
  have "hm_get (pc_entries c1) (replicate 16 1, Primary, None) = Some (sample_presence 8 100)"
    using snapshot_installation [OF sample_cache_reachable c1, where row = "sample_presence_row 8"]
    by (simp add: sample_cache_eq snapshot_key_def snapshot_entry_def sample_presence_row_def
        sample_presence_def)
  moreover have "hm_get (pc_entries c2) (replicate 16 1, Primary, None) = None"
    using snapshot_installation [OF sample_cache_reachable c2, where k = "(replicate 16 1, Primary, None)"]
    by (simp add: sample_cache_eq updated_since_def)
  ultimately show ?thesis unfolding c1 c2 by (simp add: sample_cache_reachable)
qed

definition sample_told :: "(uuid \<times> int presence_announcement) list" where
  "sample_told =
     [(replicate 16 2, \<lparr>pa_entry = sample_presence 7 100, pa_released = False\<rparr>),
      (replicate 16 2, \<lparr>pa_entry = sample_presence 7 200, pa_released = False\<rparr>),
      (replicate 16 2, \<lparr>pa_entry = sample_presence 6 300, pa_released = True\<rparr>)]"

theorem presence_convergence_witness:
  "one_incarnation presence_env (told sample_told)
   \<and> pc_entries (absorb presence_env sample_told presence_cache_default)
       = pc_entries (absorb presence_env (rev sample_told) presence_cache_default)
   \<and> hm_get (pc_entries (absorb presence_env sample_told presence_cache_default))
       (replicate 16 1, Primary, None) = Some (sample_presence 7 200)"
proof -
  have one: "one_incarnation presence_env (told sample_told)"
    by (auto simp: one_incarnation_def told_def sample_told_def sample_presence_def presence_env_def)
  have "length sample_told < u64_max" by (simp add: sample_told_def u64_max_def)
  then have "pc_entries (absorb presence_env sample_told presence_cache_default)
      = pc_entries (absorb presence_env (rev sample_told) presence_cache_default)"
    using presence_convergence [OF one, of "rev sample_told"] by simp
  moreover have "hm_get (pc_entries (absorb presence_env sample_told presence_cache_default))
       (replicate 16 1, Primary, None) = Some (sample_presence 7 200)"
    by (simp add: absorb_def sample_told_def sample_presence_def presence_eval presence_env_def)
  ultimately show ?thesis using one by simp
qed

theorem presence_wire_roundtrip_witness:
  "time_laws presence_env
   \<and> decode_presence presence_env
       (encode_presence presence_env \<lparr>pa_entry = sample_presence 7 100, pa_released = True\<rparr>)
     = Ok \<lparr>pa_entry = sample_presence 7 100, pa_released = True\<rparr>"
proof -
  let ?u = "\<lparr>pa_entry = sample_presence 7 100, pa_released = True\<rparr>"
  have "announcement_ok presence_env ?u"
    by (simp add: announcement_ok_def sample_presence_def presence_env_def)
  moreover have "whole_seconds presence_env ?u = ?u"
    by (simp add: whole_seconds_def sample_presence_def presence_env_def)
  ultimately show ?thesis
    using presence_wire_roundtrip [OF presence_time_laws, of ?u] presence_time_laws by simp
qed

end
