(* ===== verification/RelayTopology.thy ===== *)
theory RelayTopology
  imports DirectoryChunks
begin

text \<open>
  The Relay backbone graph (\<open>crates/peerward-directory/src/relay_topology.rs\<close>): how Control
  builds it, regional and sparse or as a full mesh, how link health is applied, what
  \<open>validate\<close> accepts, and how a Relay chooses its primary and backup next hop by a search for
  the cheapest path of at most four hops.

  Identifiers and region names are byte strings, ordered as bytes.  The search is the code's loop
  over a binary heap; it is a partial function to \<open>option\<close>, so that its termination is a
  theorem and not an assumption.
\<close>

unbundle bit_operations_syntax

section \<open>Nodes and edges\<close>

datatype topology_mode = FullMesh | Sparse

record topology_node =
  tn_relay_id :: uuid
  tn_region :: bytes
  tn_routing_weight :: u16
  tn_capabilities :: "64 word"

text \<open>The derived order of an edge is the order of its fields.\<close>

datatype topology_edge =
  Edge (te_left: uuid) (te_right: uuid) (te_rtt_millis: u32) (te_loss_permyriad: u16)

definition edge_fields :: "topology_edge \<Rightarrow> uuid \<times> uuid \<times> u32 \<times> u16" where
  "edge_fields e = (te_left e, te_right e, te_rtt_millis e, te_loss_permyriad e)"

lemma edge_fields_inject: "edge_fields e = edge_fields f \<Longrightarrow> e = f"
  by (cases e; cases f) (simp add: edge_fields_def)

instantiation topology_edge :: linorder
begin

definition less_topology_edge :: "topology_edge \<Rightarrow> topology_edge \<Rightarrow> bool" where
  "less_topology_edge e f \<longleftrightarrow> edge_fields e < edge_fields f"

definition less_eq_topology_edge :: "topology_edge \<Rightarrow> topology_edge \<Rightarrow> bool" where
  "less_eq_topology_edge e f \<longleftrightarrow> edge_fields e \<le> edge_fields f"

instance
proof
  fix x y z :: topology_edge
  show "x < y \<longleftrightarrow> x \<le> y \<and> \<not> y \<le> x"
    by (simp add: less_topology_edge_def less_eq_topology_edge_def less_le_not_le)
  show "x \<le> x" by (simp add: less_eq_topology_edge_def)
  show "x \<le> y \<Longrightarrow> y \<le> z \<Longrightarrow> x \<le> z" by (simp add: less_eq_topology_edge_def)
  show "x \<le> y \<Longrightarrow> y \<le> x \<Longrightarrow> x = y"
    by (rule edge_fields_inject) (simp add: less_eq_topology_edge_def)
  show "x \<le> y \<or> y \<le> x" by (simp add: less_eq_topology_edge_def linear)
qed

end

record relay_topology =
  rt_mesh_id :: uuid
  rt_revision :: nat
  rt_mode :: topology_mode
  rt_nodes :: "topology_node list"
  rt_edges :: "topology_edge list"

definition default_backbone_rtt_millis :: u32 where
  "default_backbone_rtt_millis = 120000"

definition default_backbone_loss_permyriad :: u16 where
  "default_backbone_loss_permyriad = 10000"

definition edge_new :: "uuid \<Rightarrow> uuid \<Rightarrow> topology_edge option" where
  "edge_new first second =
     (if first = second then None
      else let (left, right) = (if first < second then (first, second) else (second, first))
        in Some (Edge left right default_backbone_rtt_millis default_backbone_loss_permyriad))"

definition edge_other :: "topology_edge \<Rightarrow> uuid \<Rightarrow> uuid option" where
  "edge_other e relay =
     (if relay = te_left e then Some (te_right e)
      else if relay = te_right e then Some (te_left e)
      else None)"

definition routing_cost :: "topology_edge \<Rightarrow> nat" where
  "routing_cost e = saturating_add (unat (te_rtt_millis e)) (saturating_mul (unat (te_loss_permyriad e)) 10)"

section \<open>Construction\<close>

definition add_edge :: "uuid \<Rightarrow> uuid \<Rightarrow> topology_edge list \<Rightarrow> topology_edge list" where
  "add_edge first second edges =
     (case edge_new first second of None \<Rightarrow> edges | Some e \<Rightarrow> bset_insert e edges)"

definition add_forward_ring ::
  "topology_node list \<Rightarrow> nat \<Rightarrow> topology_edge list \<Rightarrow> topology_edge list" where
  "add_forward_ring nodes distance edges =
     (if length nodes < 2 then edges
      else fold (\<lambda>index. add_edge (tn_relay_id (nodes ! index))
                   (tn_relay_id (nodes ! ((index + distance) mod length nodes))))
             [0..<length nodes] edges)"

text \<open>The key \<open>(Reverse(routing_weight), relay_id)\<close> and the first two nodes under it.\<close>

definition gateway_key :: "topology_node \<Rightarrow> nat \<times> uuid" where
  "gateway_key node = (65535 - unat (tn_routing_weight node), tn_relay_id node)"

definition select_gateways :: "topology_node list \<Rightarrow> topology_node list" where
  "select_gateways members = take 2 (sort_key gateway_key members)"

definition group_regions :: "topology_node list \<Rightarrow> (bytes \<times> topology_node list) list" where
  "group_regions nodes = fold (\<lambda>node. push_entry (tn_region node) node) nodes []"

definition add_spokes ::
  "topology_node list \<Rightarrow> topology_node list \<Rightarrow> topology_edge list \<Rightarrow> topology_edge list" where
  "add_spokes members gateways =
     fold (\<lambda>member. fold (\<lambda>gateway. add_edge (tn_relay_id member) (tn_relay_id gateway)) gateways) members"

definition add_region :: "topology_node list \<Rightarrow> topology_edge list \<Rightarrow> topology_edge list" where
  "add_region members edges =
     add_spokes members (select_gateways members)
       (add_forward_ring members 2 (add_forward_ring members 1 edges))"

text \<open>\<open>get(lane).or_else(|| first())\<close>\<close>

definition lane_gateway :: "topology_node list \<Rightarrow> nat \<Rightarrow> topology_node option" where
  "lane_gateway gateways lane =
     (if lane < length gateways then Some (gateways ! lane) else bset_first gateways)"

definition add_lane ::
  "topology_node list \<Rightarrow> topology_node list \<Rightarrow> nat \<Rightarrow> topology_edge list \<Rightarrow> topology_edge list" where
  "add_lane here there lane edges =
     (case (lane_gateway here lane, lane_gateway there lane) of
        (Some left, Some right) \<Rightarrow> add_edge (tn_relay_id left) (tn_relay_id right) edges
      | _ \<Rightarrow> edges)"

definition add_region_ring :: "topology_node list list \<Rightarrow> topology_edge list \<Rightarrow> topology_edge list" where
  "add_region_ring gateways =
     fold (\<lambda>index. fold (add_lane (gateways ! index) (gateways ! ((index + 1) mod length gateways))) [0, 1])
       [0..<length gateways]"

definition add_shortcuts :: "topology_node list list \<Rightarrow> topology_edge list \<Rightarrow> topology_edge list" where
  "add_shortcuts gateways =
     fold (\<lambda>regional. add_spokes regional (select_gateways (concat gateways))) gateways"

definition sparse_edges :: "topology_node list \<Rightarrow> topology_edge list" where
  "sparse_edges nodes =
     (let regions = map snd (group_regions nodes);
          edges = fold add_region regions [];
          gateways = map select_gateways regions
      in if 1 < length gateways then add_shortcuts gateways (add_region_ring gateways edges) else edges)"

fun full_mesh_edges :: "topology_node list \<Rightarrow> topology_edge list \<Rightarrow> topology_edge list" where
  "full_mesh_edges [] edges = edges"
| "full_mesh_edges (left # rest) edges =
     full_mesh_edges rest (fold (\<lambda>right. add_edge (tn_relay_id left) (tn_relay_id right)) rest edges)"

definition region_byte :: "u8 \<Rightarrow> bool" where
  "region_byte b \<longleftrightarrow> 97 \<le> b \<and> b \<le> 122 \<or> 48 \<le> b \<and> b \<le> 57 \<or> b = 45"

definition node_ok :: "topology_node \<Rightarrow> bool" where
  "node_ok node \<longleftrightarrow>
     \<not> (tn_region node = [] \<or> 32 < length (tn_region node)
        \<or> \<not> (1 \<le> tn_routing_weight node \<and> tn_routing_weight node \<le> 1000)
        \<or> \<not> list_all region_byte (tn_region node))"

definition edge_ok :: "uuid list \<Rightarrow> topology_edge \<Rightarrow> bool" where
  "edge_ok node_ids e \<longleftrightarrow>
     \<not> (te_right e \<le> te_left e \<or> te_left e \<notin> set node_ids \<or> te_right e \<notin> set node_ids
        \<or> default_backbone_rtt_millis < te_rtt_millis e
        \<or> default_backbone_loss_permyriad < te_loss_permyriad e)"

definition validate_topology :: "relay_topology \<Rightarrow> (unit, directory_error) outcome" where
  "validate_topology t =
     (if 4096 < length (rt_nodes t) \<or> 65536 < length (rt_edges t) then Err Directory_NonCanonical
      else and_then (ensure_sorted_unique (map tn_relay_id (rt_nodes t))) (\<lambda>_.
        if list_ex (\<lambda>node. \<not> node_ok node) (rt_nodes t) then Err Directory_NonCanonical
        else and_then (ensure_sorted_unique (rt_edges t)) (\<lambda>_.
          and_then (ensure_unique (map (\<lambda>e. (te_left e, te_right e)) (rt_edges t))) (\<lambda>_.
            if list_ex (\<lambda>e. \<not> edge_ok (map tn_relay_id (rt_nodes t)) e) (rt_edges t)
            then Err Directory_NonCanonical else Ok ()))))"

definition build_topology ::
  "uuid \<Rightarrow> nat \<Rightarrow> topology_node list \<Rightarrow> nat \<Rightarrow> 64 word \<Rightarrow> (relay_topology, directory_error) outcome" where
  "build_topology mesh_id revision nodes0 sparse_threshold sparse_capability =
     (let nodes = sort_key tn_relay_id nodes0 in
      and_then (ensure_unique (map tn_relay_id nodes)) (\<lambda>_.
        let sparse = (sparse_threshold \<le> length nodes
              \<and> list_all (\<lambda>node. tn_capabilities node AND sparse_capability \<noteq> 0) nodes);
            topology =
              \<lparr>rt_mesh_id = mesh_id, rt_revision = revision,
               rt_mode = (if sparse then Sparse else FullMesh), rt_nodes = nodes,
               rt_edges = (if sparse then sparse_edges nodes else full_mesh_edges nodes [])\<rparr>
        in and_then (validate_topology topology) (\<lambda>_. Ok topology)))"

definition apply_link_health ::
  "((uuid \<times> uuid) \<times> u32 \<times> u16) list \<Rightarrow> relay_topology
   \<Rightarrow> (unit, directory_error) outcome \<times> relay_topology" where
  "apply_link_health health t =
     (if list_ex (\<lambda>(_, rtt_millis, loss_permyriad).
           default_backbone_rtt_millis < rtt_millis \<or> default_backbone_loss_permyriad < loss_permyriad) health
      then (Err Directory_NonCanonical, t)
      else let t' = t\<lparr>rt_edges := map (\<lambda>e.
             case hm_get health (te_left e, te_right e) of
               None \<Rightarrow> e
             | Some (rtt_millis, loss_permyriad) \<Rightarrow> Edge (te_left e) (te_right e) rtt_millis loss_permyriad)
             (rt_edges t)\<rparr>
        in (validate_topology t', t'))"

section \<open>Next hops\<close>

text \<open>A heap entry under \<open>Reverse\<close>: cost, hops, node and first hop, cheapest first.\<close>

type_synonym heap_entry = "nat \<times> nat \<times> uuid \<times> uuid"

type_synonym best_costs = "((uuid \<times> nat) \<times> nat) list"

definition adjacency :: "relay_topology \<Rightarrow> (uuid \<times> (uuid \<times> nat) list) list" where
  "adjacency t =
     fold (\<lambda>e m. push_entry (te_right e) (te_left e, routing_cost e)
                   (push_entry (te_left e) (te_right e, routing_cost e) m)) (rt_edges t) []"

fun relax ::
  "uuid \<Rightarrow> nat \<Rightarrow> nat \<Rightarrow> uuid \<Rightarrow> uuid \<times> nat \<Rightarrow> best_costs \<times> heap_entry list
   \<Rightarrow> best_costs \<times> heap_entry list" where
  "relax source cost hops first_hop (neighbor, edge_cost) (best, pending) =
     (if neighbor = source then (best, pending)
      else let next_hops = hops + 1;
               next_cost = saturating_add cost edge_cost;
               key = (neighbor, next_hops)
        in if (case hm_get best key of None \<Rightarrow> False | Some known \<Rightarrow> known \<le> next_cost) then (best, pending)
           else (bmap_insert key next_cost best, insort (next_cost, next_hops, neighbor, first_hop) pending))"

partial_function (option) search_hops ::
  "(uuid \<times> (uuid \<times> nat) list) list \<Rightarrow> uuid \<Rightarrow> uuid \<Rightarrow> best_costs \<Rightarrow> heap_entry list
   \<Rightarrow> (nat \<times> uuid) option option" where
  "search_hops adj source destination best pending =
     (case pending of
        [] \<Rightarrow> Some None
      | (cost, hops, node, first_hop) # rest \<Rightarrow>
          if (case hm_get best (node, hops) of None \<Rightarrow> u64_max | Some known \<Rightarrow> known) < cost
          then search_hops adj source destination best rest
          else if node = destination then Some (Some (cost, first_hop))
          else if hops = 4 then search_hops adj source destination best rest
          else let (best', pending') =
                 fold (relax source cost hops first_hop)
                   (case hm_get adj node of None \<Rightarrow> [] | Some neighbors \<Rightarrow> neighbors) (best, rest)
            in search_hops adj source destination best' pending')"

definition first_entries ::
  "uuid option \<Rightarrow> (uuid \<times> nat) list \<Rightarrow> best_costs \<times> heap_entry list" where
  "first_entries excluded_first_hop neighbors =
     fold (\<lambda>(neighbor, cost) (best, pending).
       if excluded_first_hop = Some neighbor then (best, pending)
       else (bmap_insert (neighbor, 1) cost best, insort (cost, 1, neighbor, neighbor) pending))
       neighbors ([], [])"

definition shortest_next_hop ::
  "relay_topology \<Rightarrow> uuid \<Rightarrow> uuid \<Rightarrow> uuid option \<Rightarrow> (nat \<times> uuid) option option" where
  "shortest_next_hop t source destination excluded_first_hop =
     (if source = destination then Some None
      else case hm_get (adjacency t) source of
             None \<Rightarrow> Some None
           | Some neighbors \<Rightarrow>
               let (best, pending) = first_entries excluded_first_hop neighbors
               in search_hops (adjacency t) source destination best pending)"

definition next_hops :: "relay_topology \<Rightarrow> uuid \<Rightarrow> uuid \<Rightarrow> uuid list option" where
  "next_hops t source destination =
     (case shortest_next_hop t source destination None of
        None \<Rightarrow> None
      | Some None \<Rightarrow> Some []
      | Some (Some (_, primary)) \<Rightarrow>
          (case shortest_next_hop t source destination (Some primary) of
             None \<Rightarrow> None
           | Some None \<Rightarrow> Some [primary]
           | Some (Some (_, backup)) \<Rightarrow> Some [primary, backup]))"

section \<open>The graph\<close>

definition linked :: "topology_edge list \<Rightarrow> uuid \<Rightarrow> uuid \<Rightarrow> bool" where
  "linked edges a b \<longleftrightarrow> (\<exists>e \<in> set edges. edge_other e a = Some b)"

fun within_hops :: "topology_edge list \<Rightarrow> nat \<Rightarrow> uuid \<Rightarrow> uuid \<Rightarrow> bool" where
  "within_hops edges 0 a b \<longleftrightarrow> a = b"
| "within_hops edges (Suc n) a b \<longleftrightarrow> a = b \<or> (\<exists>c. linked edges a c \<and> within_hops edges n c b)"

lemma within_hops_refl [simp]: "within_hops edges n a a"
  by (cases n) auto

lemma within_hops_Suc: "within_hops edges n a b \<Longrightarrow> within_hops edges (Suc n) a b"
proof (induction n arbitrary: a)
  case 0
  then show ?case by simp
next
  case (Suc n)
  then show ?case unfolding within_hops.simps(2) [of _ "Suc n"] within_hops.simps(2) [of _ n] by blast
qed

lemma within_hops_step:
  "a = c \<or> linked edges a c \<Longrightarrow> within_hops edges n c b \<Longrightarrow> within_hops edges (Suc n) a b"
  using within_hops_Suc by auto

lemma within_hops_mono: "n \<le> m \<Longrightarrow> within_hops edges n a b \<Longrightarrow> within_hops edges m a b"
  by (induction rule: dec_induct) (simp_all only: within_hops_Suc)

lemma edge_new_other:
  "edge_new a b = Some e \<Longrightarrow> edge_other e a = Some b \<and> edge_other e b = Some a"
  by (auto simp: edge_new_def edge_other_def split: if_splits)

lemma edge_new_None: "edge_new a b = None \<longleftrightarrow> a = b"
  by (simp add: edge_new_def)

lemma edge_new_linked:
  "a \<noteq> b \<Longrightarrow> set_option (edge_new a b) \<subseteq> set edges \<Longrightarrow> linked edges a b"
  by (cases "edge_new a b") (auto simp: linked_def edge_new_None dest: edge_new_other)

lemma linked_sym: "linked edges a b \<Longrightarrow> linked edges b a"
  by (auto simp: linked_def edge_other_def split: if_splits)

lemma linked_mono: "set edges \<subseteq> set edges' \<Longrightarrow> linked edges a b \<Longrightarrow> linked edges' a b"
  by (auto simp: linked_def)

text \<open>Growing an edge set by default links between the nodes of a given set.\<close>

definition grows :: "uuid set \<Rightarrow> topology_edge list \<Rightarrow> topology_edge list \<Rightarrow> bool" where
  "grows ids edges edges' \<longleftrightarrow>
     set edges \<subseteq> set edges' \<and> (ascending edges \<longrightarrow> ascending edges')
     \<and> (\<forall>e \<in> set edges'. e \<in> set edges \<or> (\<exists>a \<in> ids. \<exists>b \<in> ids. edge_new a b = Some e))"

lemma grows_refl [simp]: "grows ids edges edges"
  by (simp add: grows_def)

lemma grows_trans: "grows ids e1 e2 \<Longrightarrow> grows ids e2 e3 \<Longrightarrow> grows ids e1 e3"
  unfolding grows_def by blast

lemma grows_subset: "grows ids edges edges' \<Longrightarrow> set edges \<subseteq> set edges'"
  by (simp add: grows_def)

lemma set_add_edge [simp]: "set (add_edge a b edges) = set edges \<union> set_option (edge_new a b)"
  by (cases "edge_new a b") (simp_all add: add_edge_def)

lemma grows_add_edge: "a \<in> ids \<Longrightarrow> b \<in> ids \<Longrightarrow> grows ids edges (add_edge a b edges)"
  by (auto simp: grows_def add_edge_def split: option.split)

lemma length_add_edge: "length (add_edge a b edges) \<le> length edges + 1"
proof -
  have "length (bset_insert e es) \<le> length es + 1" for e and es :: "topology_edge list"
    by (induction es) auto
  then show ?thesis by (simp add: add_edge_def split: option.split)
qed

lemma grows_fold:
  assumes "\<And>x edges. x \<in> set xs \<Longrightarrow> grows ids edges (f x edges)"
  shows "grows ids edges (fold f xs edges)"
  using assms
proof (induction xs arbitrary: edges)
  case Nil
  then show ?case by simp
next
  case (Cons x xs)
  show ?case using grows_trans [OF Cons.prems [of x edges] Cons.IH [of "f x edges"]] Cons.prems by simp
qed

lemma length_fold_le:
  assumes "\<And>x edges. x \<in> set xs \<Longrightarrow> length (f x edges) \<le> length edges + n x"
  shows "length (fold f xs edges) \<le> length edges + sum_list (map n xs)"
  using assms
proof (induction xs arbitrary: edges)
  case Nil
  then show ?case by simp
next
  case (Cons x xs)
  have "length (fold f xs (f x edges)) \<le> length (f x edges) + sum_list (map n xs)"
    using Cons.prems by (intro Cons.IH) simp
  then show ?case using Cons.prems [of x edges] by simp
qed

text \<open>What each loop of the construction adds.\<close>

abbreviation relay_ids :: "topology_node list \<Rightarrow> uuid set" where
  "relay_ids nodes \<equiv> tn_relay_id ` set nodes"

lemma grows_add_forward_ring:
  assumes "relay_ids nodes \<subseteq> ids"
  shows "grows ids edges (add_forward_ring nodes distance edges)"
proof -
  have "tn_relay_id (nodes ! i) \<in> ids" if "i < length nodes" for i
    using that assms by auto
  moreover have "j mod length nodes < length nodes" if "i < length nodes" for i j
    using that by (intro mod_less_divisor) auto
  ultimately show ?thesis
    unfolding add_forward_ring_def by (auto intro!: grows_fold grows_add_edge)
qed

lemma length_add_forward_ring: "length (add_forward_ring nodes distance edges) \<le> length edges + length nodes"
  using length_fold_le [of "[0..<length nodes]" "\<lambda>index. add_edge (tn_relay_id (nodes ! index))
      (tn_relay_id (nodes ! ((index + distance) mod length nodes)))" "\<lambda>_. 1" edges] length_add_edge
  by (simp add: add_forward_ring_def sum_list_triv)

lemma grows_add_spokes:
  "relay_ids members \<subseteq> ids \<Longrightarrow> relay_ids gateways \<subseteq> ids \<Longrightarrow> grows ids edges (add_spokes members gateways edges)"
  unfolding add_spokes_def by (intro grows_fold grows_add_edge) auto

lemma length_add_spokes:
  "length (add_spokes members gateways edges) \<le> length edges + length gateways * length members"
proof -
  have inner: "length (fold (\<lambda>gateway. add_edge a (tn_relay_id gateway)) gateways es) \<le> length es + length gateways"
    for a es
    using length_fold_le [of gateways "\<lambda>gateway. add_edge a (tn_relay_id gateway)" "\<lambda>_. 1" es] length_add_edge
    by (simp add: sum_list_triv)
  show ?thesis
    using length_fold_le [of members "\<lambda>member. fold (\<lambda>gateway. add_edge (tn_relay_id member) (tn_relay_id gateway)) gateways"
        "\<lambda>_. length gateways" edges] inner
    by (simp add: add_spokes_def sum_list_triv mult.commute)
qed

lemma set_fold_union:
  "(\<And>x es. set (f x es) = set es \<union> A x) \<Longrightarrow> set (fold f xs es) = set es \<union> (\<Union>x \<in> set xs. A x)"
  by (induction xs arbitrary: es) auto

lemma set_add_spokes:
  "set (add_spokes members gateways edges) =
     set edges \<union> (\<Union>m \<in> set members. \<Union>g \<in> set gateways. set_option (edge_new (tn_relay_id m) (tn_relay_id g)))"
  unfolding add_spokes_def by (intro set_fold_union) auto

lemma spokes_linked:
  assumes "m \<in> set members" and "g \<in> set gateways" and "set (add_spokes members gateways edges) \<subseteq> set edges'"
  shows "tn_relay_id m = tn_relay_id g \<or> linked edges' (tn_relay_id m) (tn_relay_id g)"
  using assms edge_new_linked [of "tn_relay_id m" "tn_relay_id g" edges'] by (auto simp: set_add_spokes)

lemma select_gateways_facts:
  "set (select_gateways members) \<subseteq> set members" "length (select_gateways members) \<le> 2"
  "members \<noteq> [] \<Longrightarrow> select_gateways members \<noteq> []"
  using set_take_subset [of 2 "sort_key gateway_key members"] length_sort [of gateway_key members]
  by (auto simp: select_gateways_def simp del: length_sort)

lemma grows_add_region: "relay_ids members \<subseteq> ids \<Longrightarrow> grows ids edges (add_region members edges)"
  unfolding add_region_def
  using select_gateways_facts(1) [of members]
  by (intro grows_trans [OF grows_trans [OF grows_add_forward_ring grows_add_forward_ring] grows_add_spokes]) auto

lemma length_add_region: "length (add_region members edges) \<le> length edges + 4 * length members"
proof -
  have "length (select_gateways members) * length members \<le> 2 * length members"
    using select_gateways_facts(2) by (intro mult_le_mono1)
  then show ?thesis
    using length_add_spokes [of members "select_gateways members" "add_forward_ring members 2 (add_forward_ring members 1 edges)"]
      length_add_forward_ring [of members 2 "add_forward_ring members 1 edges"]
      length_add_forward_ring [of members 1 edges]
    unfolding add_region_def by linarith
qed

lemma lane_gateway_in: "lane_gateway gateways lane = Some g \<Longrightarrow> g \<in> set gateways"
  by (auto simp: lane_gateway_def bset_first_in split: if_splits)

lemma grows_add_region_ring:
  assumes "\<And>gs. gs \<in> set gateways \<Longrightarrow> relay_ids gs \<subseteq> ids"
  shows "grows ids edges (add_region_ring gateways edges)"
  unfolding add_region_ring_def
proof (intro grows_fold)
  fix index lane and es
  assume i: "index \<in> set [0..<length gateways]" "lane \<in> set [0, 1 :: nat]"
  have "gateways ! index \<in> set gateways" "gateways ! ((index + 1) mod length gateways) \<in> set gateways"
    using i by (auto intro!: nth_mem mod_less_divisor)
  note here = assms [OF this(1)] and there = assms [OF this(2)]
  show "grows ids es
      (add_lane (gateways ! index) (gateways ! ((index + 1) mod length gateways)) lane es)"
    unfolding add_lane_def using lane_gateway_in here there
    by (auto intro!: grows_add_edge split: option.split)
qed

lemma length_add_region_ring: "length (add_region_ring gateways edges) \<le> length edges + 2 * length gateways"
proof -
  have lane: "length (add_lane here there lane es) \<le> length es + 1" for here there lane es
    by (simp add: add_lane_def length_add_edge [simplified] split: option.split)
  have "length (fold (add_lane here there) [0, 1] es) \<le> length es + 2" for here there es
    using length_fold_le [of "[0, 1]" "add_lane here there" "\<lambda>_. 1" es] lane by simp
  then show ?thesis
    using length_fold_le [of "[0..<length gateways]" "\<lambda>index. fold (add_lane (gateways ! index)
        (gateways ! ((index + 1) mod length gateways))) [0, 1]" "\<lambda>_. 2" edges]
    by (simp add: add_region_ring_def sum_list_triv mult.commute)
qed

lemma grows_add_shortcuts:
  assumes "\<And>gs. gs \<in> set gateways \<Longrightarrow> relay_ids gs \<subseteq> ids"
  shows "grows ids edges (add_shortcuts gateways edges)"
  unfolding add_shortcuts_def
proof (intro grows_fold grows_add_spokes)
  show "relay_ids (select_gateways (concat gateways)) \<subseteq> ids"
    using select_gateways_facts(1) [of "concat gateways"] assms by fastforce
qed (use assms in blast)

lemma length_add_shortcuts:
  assumes "\<And>gs. gs \<in> set gateways \<Longrightarrow> length gs \<le> 2"
  shows "length (add_shortcuts gateways edges) \<le> length edges + 4 * length gateways"
proof -
  let ?g = "select_gateways (concat gateways)"
  have "length (add_spokes regional ?g es) \<le> length es + 4" if "regional \<in> set gateways" for regional es
  proof -
    have "length ?g * length regional \<le> 2 * 2"
      using select_gateways_facts(2) assms [OF that] by (intro mult_le_mono)
    then show ?thesis using length_add_spokes [of regional ?g es] by simp
  qed
  then show ?thesis
    using length_fold_le [of gateways "\<lambda>regional. add_spokes regional ?g" "\<lambda>_. 4" edges]
    by (simp add: add_shortcuts_def sum_list_triv mult.commute)
qed

section \<open>Regions\<close>

lemma group_regions_lookup:
  "hm_get (group_regions nodes) r =
     (if \<exists>node \<in> set nodes. tn_region node = r then Some (filter (\<lambda>node. tn_region node = r) nodes) else None)"
proof -
  have "hm_get (group_regions nodes) r =
      (case filter (\<lambda>node. tn_region node = r) nodes of [] \<Rightarrow> None | v # vs \<Rightarrow> Some (v # vs))"
    unfolding group_regions_def
    using hm_get_push_entries [of tn_region "\<lambda>node. node" nodes "[]" r] by (simp split: list.split)
  then show ?thesis by (auto simp: filter_empty_conv split: list.splits)
qed

lemma bmap_ok_group_regions: "bmap_ok (group_regions nodes)"
  unfolding group_regions_def by (rule fold_preserves) simp_all

lemma region_members:
  assumes "members \<in> set (map snd (group_regions nodes))"
  shows "members \<noteq> [] \<and> set members \<subseteq> set nodes"
proof -
  obtain r where "(r, members) \<in> set (group_regions nodes)" using assms by auto
  then have "hm_get (group_regions nodes) r = Some members"
    using hm_get_Some_mem [OF bmap_ok_distinct [OF bmap_ok_group_regions]] by simp
  then show ?thesis by (auto simp: group_regions_lookup filter_empty_conv split: if_splits)
qed

lemma region_of_node:
  assumes "node \<in> set nodes"
  obtains members where "members \<in> set (map snd (group_regions nodes))" and "node \<in> set members"
proof -
  have "hm_get (group_regions nodes) (tn_region node) = Some (filter (\<lambda>n. tn_region n = tn_region node) nodes)"
    using assms by (auto simp: group_regions_lookup)
  then have "(tn_region node, filter (\<lambda>n. tn_region n = tn_region node) nodes) \<in> set (group_regions nodes)"
    using hm_get_Some_mem [OF bmap_ok_distinct [OF bmap_ok_group_regions]] by simp
  then have "filter (\<lambda>n. tn_region n = tn_region node) nodes \<in> set (map snd (group_regions nodes))" by force
  then show ?thesis
    using assms that [of "filter (\<lambda>n. tn_region n = tn_region node) nodes"] by simp
qed

lemma region_sizes: "sum_list (map length (map snd (group_regions nodes))) = length nodes"
proof -
  have push: "hm_sum (\<lambda>x. length (snd x)) (push_entry k v m) = hm_sum (\<lambda>x. length (snd x)) m + 1"
    if "bmap_ok m" for k and v :: topology_node and m :: "(bytes \<times> topology_node list) list"
  proof (cases "hm_get m k")
    case None
    then show ?thesis
      using bmap_insert_sum_new [OF None, of "\<lambda>x. length (snd x)" "[v]"] by (simp add: push_entry_def)
  next
    case (Some vs)
    then show ?thesis
      using bmap_insert_sum_replace [OF that Some, of "\<lambda>x. length (snd x)" "vs @ [v]"]
      by (simp add: push_entry_def)
  qed
  have "bmap_ok m \<Longrightarrow> hm_sum (\<lambda>x. length (snd x)) (fold (\<lambda>node. push_entry (tn_region node) node) nodes m)
      = hm_sum (\<lambda>x. length (snd x)) m + length nodes" for m
    by (induction nodes arbitrary: m) (simp_all add: push)
  from this [of "[]"] show ?thesis by (simp add: group_regions_def comp_def)
qed

lemma region_count: "length (group_regions nodes) \<le> length nodes"
proof -
  have "length xs \<le> sum_list (map length xs)" if "\<forall>x \<in> set xs. x \<noteq> []" for xs :: "topology_node list list"
    using sum_list_mono [of xs "\<lambda>_. 1" length] that by (simp add: sum_list_triv Suc_le_eq)
  from this [of "map snd (group_regions nodes)"] show ?thesis
    using region_sizes [of nodes] region_members [of _ nodes] by auto
qed

text \<open>Both constructions grow the empty graph; the sparse one stays linear and has diameter four.\<close>

lemma grows_sparse: "grows (relay_ids nodes) [] (sparse_edges nodes)"
proof -
  let ?regions = "map snd (group_regions nodes)" and ?ids = "relay_ids nodes"
  have members: "relay_ids members \<subseteq> ?ids" if "members \<in> set ?regions" for members
    using region_members [OF that] by auto
  have gateways: "relay_ids gs \<subseteq> ?ids" if "gs \<in> set (map select_gateways ?regions)" for gs
    using that members select_gateways_facts(1) by fastforce
  have regions: "grows ?ids [] (fold add_region ?regions [])"
    by (intro grows_fold grows_add_region members)
  have chain: "grows ?ids [] (add_shortcuts (map select_gateways ?regions)
      (add_region_ring (map select_gateways ?regions) (fold add_region ?regions [])))"
    by (rule grows_trans [OF grows_trans [OF regions grows_add_region_ring] grows_add_shortcuts])
      (use gateways in blast)+
  show ?thesis
    unfolding sparse_edges_def Let_def using regions chain by auto
qed

lemma length_sparse: "length (sparse_edges nodes) \<le> 10 * length nodes"
proof -
  let ?regions = "map snd (group_regions nodes)" and ?gateways = "map select_gateways (map snd (group_regions nodes))"
  have "length (fold add_region ?regions []) \<le> sum_list (map (\<lambda>members. 4 * length members) ?regions)"
    using length_fold_le [of ?regions add_region "\<lambda>members. 4 * length members" "[]"] length_add_region by simp
  also have "\<dots> = 4 * length nodes"
    using region_sizes [of nodes] by (simp add: sum_list_const_mult comp_def)
  finally have base: "length (fold add_region ?regions []) \<le> 4 * length nodes" .
  have "length (add_shortcuts ?gateways (add_region_ring ?gateways (fold add_region ?regions [])))
      \<le> length (fold add_region ?regions []) + 2 * length ?gateways + 4 * length ?gateways"
    using length_add_shortcuts [of ?gateways "add_region_ring ?gateways (fold add_region ?regions [])"]
      length_add_region_ring [of ?gateways "fold add_region ?regions []"] select_gateways_facts(2)
    by fastforce
  then show ?thesis using base region_count [of nodes]
    by (simp add: sparse_edges_def Let_def)
qed

lemma region_linked:
  assumes "members \<in> set (map snd (group_regions nodes))" and "m \<in> set members"
    and "g \<in> set (select_gateways members)"
  shows "tn_relay_id m = tn_relay_id g \<or> linked (sparse_edges nodes) (tn_relay_id m) (tn_relay_id g)"
proof -
  let ?regions = "map snd (group_regions nodes)" and ?all = "UNIV :: uuid set"
  obtain xs ys where split: "?regions = xs @ members # ys" using assms(1) by (auto dest: split_list)
  have "set (add_region members (fold add_region xs [])) \<subseteq> set (fold add_region ?regions [])"
    unfolding split using grows_subset [OF grows_fold [of ys UNIV add_region]] grows_add_region by simp
  also have "\<dots> \<subseteq> set (sparse_edges nodes)"
    using grows_subset [OF grows_trans [OF grows_add_region_ring grows_add_shortcuts], of _ UNIV]
    by (simp add: sparse_edges_def Let_def)
  finally show ?thesis using assms(2,3) unfolding add_region_def by (intro spokes_linked)
qed

lemma shortcut_linked:
  assumes "members \<in> set (map snd (group_regions nodes))" and "1 < length (group_regions nodes)"
    and "g \<in> set (select_gateways members)"
    and "x \<in> set (select_gateways (concat (map select_gateways (map snd (group_regions nodes)))))"
  shows "tn_relay_id g = tn_relay_id x \<or> linked (sparse_edges nodes) (tn_relay_id g) (tn_relay_id x)"
proof -
  let ?gateways = "map select_gateways (map snd (group_regions nodes))"
  let ?ring = "add_region_ring ?gateways (fold add_region (map snd (group_regions nodes)) [])"
  let ?spokes = "\<lambda>regional. add_spokes regional (select_gateways (concat ?gateways))"
  have "select_gateways members \<in> set ?gateways" using assms(1) by auto
  then obtain xs ys where split: "?gateways = xs @ select_gateways members # ys" by (auto dest: split_list)
  have eq: "sparse_edges nodes = fold ?spokes ?gateways ?ring"
    using assms(2) by (simp add: sparse_edges_def Let_def add_shortcuts_def)
  have "set (?spokes (select_gateways members) (fold ?spokes xs ?ring)) \<subseteq> set (sparse_edges nodes)"
    unfolding eq split [symmetric] 
    using grows_subset [OF grows_fold [of ys UNIV ?spokes]] grows_add_spokes [of _ UNIV]
    by (subst (3) split) simp
  then show ?thesis using assms(3,4) by (intro spokes_linked)
qed

lemma sparse_within:
  assumes "a \<in> set nodes" and "b \<in> set nodes"
  shows "within_hops (sparse_edges nodes) 4 (tn_relay_id a) (tn_relay_id b)"
proof -
  let ?E = "sparse_edges nodes" and ?regions = "map snd (group_regions nodes)"
  let ?near = "\<lambda>x y. tn_relay_id x = tn_relay_id y \<or> linked ?E (tn_relay_id x) (tn_relay_id y)"
  have near_sym: "?near x y \<Longrightarrow> ?near y x" for x y using linked_sym by auto
  obtain ra rb where r: "ra \<in> set ?regions" "a \<in> set ra" "rb \<in> set ?regions" "b \<in> set rb"
    using region_of_node [OF assms(1)] region_of_node [OF assms(2)] by metis
  have ne: "select_gateways ra \<noteq> []" "select_gateways rb \<noteq> []"
    using select_gateways_facts(3) region_members r by blast+
  define ga gb where "ga = hd (select_gateways ra)" and "gb = hd (select_gateways rb)"
  have g: "ga \<in> set (select_gateways ra)" "gb \<in> set (select_gateways rb)"
    using ne by (simp_all add: ga_def gb_def)
  have ab: "?near a ga" "?near gb b"
    using region_linked [OF r(1,2) g(1)] near_sym region_linked [OF r(3,4) g(2)] by auto
  show ?thesis
  proof (cases "1 < length (group_regions nodes)")
    case True
    let ?top = "select_gateways (concat (map select_gateways ?regions))"
    have "concat (map select_gateways ?regions) \<noteq> []" using r(1) ne(1) by auto
    then have x: "hd ?top \<in> set ?top" using select_gateways_facts(3) by simp
    have top: "?near ga (hd ?top)" "?near (hd ?top) gb"
      using shortcut_linked [OF r(1) True g(1) x] near_sym [OF shortcut_linked [OF r(3) True g(2) x]] by auto
    have "within_hops ?E (Suc (Suc (Suc (Suc 0)))) (tn_relay_id a) (tn_relay_id b)"
      by (intro within_hops_step [OF ab(1)] within_hops_step [OF top(1)] within_hops_step [OF top(2)]
          within_hops_step [OF ab(2)]) simp
    then show ?thesis by (simp add: numeral_eq_Suc)
  next
    case False
    then have "ra = rb" using r(1,3) by (cases "group_regions nodes") auto
    then have "ga = gb" by (simp add: ga_def gb_def)
    note last_hop = ab(2) [folded this]
    have "within_hops ?E (Suc (Suc 0)) (tn_relay_id a) (tn_relay_id b)"
      by (intro within_hops_step [OF ab(1)] within_hops_step [OF last_hop]) simp
    then show ?thesis by (rule within_hops_mono [rotated]) simp
  qed
qed

section \<open>Full mesh and validation\<close>

lemma grows_full_mesh: "relay_ids nodes \<subseteq> ids \<Longrightarrow> grows ids edges (full_mesh_edges nodes edges)"
proof (induction nodes edges rule: full_mesh_edges.induct)
  case (1 edges)
  then show ?case by simp
next
  case (2 left rest edges)
  let ?row = "fold (\<lambda>right. add_edge (tn_relay_id left) (tn_relay_id right)) rest edges"
  have "grows ids edges ?row" using 2 by (intro grows_fold grows_add_edge) auto
  then show ?case using 2 grows_trans by auto
qed

lemma length_full_mesh: "length (full_mesh_edges nodes edges) \<le> length edges + length nodes * (length nodes - 1) div 2"
proof (induction nodes edges rule: full_mesh_edges.induct)
  case (1 edges)
  then show ?case by simp
next
  case (2 left rest edges)
  have "length (fold (\<lambda>right. add_edge (tn_relay_id left) (tn_relay_id right)) rest edges) \<le> length edges + length rest"
    using length_fold_le [of rest "\<lambda>right. add_edge (tn_relay_id left) (tn_relay_id right)" "\<lambda>_. 1" edges]
      length_add_edge by (simp add: sum_list_triv)
  moreover have "length rest + length rest * (length rest - 1) div 2 = Suc (length rest) * length rest div 2"
  proof (cases "length rest")
    case (Suc n)
    have "Suc n + Suc n * n div 2 = (2 * Suc n + Suc n * n) div 2" by simp
    also have "2 * Suc n + Suc n * n = Suc (Suc n) * Suc n" by (simp add: algebra_simps)
    finally show ?thesis using Suc by simp
  qed simp
  ultimately show ?case using 2 by simp
qed

lemma full_mesh_linked:
  assumes "distinct (map tn_relay_id nodes)" and "a \<in> set nodes" and "b \<in> set nodes"
    and "tn_relay_id a \<noteq> tn_relay_id b"
  shows "linked (full_mesh_edges nodes edges) (tn_relay_id a) (tn_relay_id b)"
  using assms
proof (induction nodes edges rule: full_mesh_edges.induct)
  case (1 edges)
  then show ?case by simp
next
  case (2 left rest edges)
  let ?row = "fold (\<lambda>right. add_edge (tn_relay_id left) (tn_relay_id right)) rest edges"
  have row: "linked ?row (tn_relay_id left) (tn_relay_id x)" if "x \<in> set rest" for x
  proof (rule edge_new_linked)
    show "tn_relay_id left \<noteq> tn_relay_id x" using 2(2) that by auto
    have "set ?row = set edges \<union> (\<Union>right \<in> set rest. set_option (edge_new (tn_relay_id left) (tn_relay_id right)))"
      by (rule set_fold_union) simp
    then show "set_option (edge_new (tn_relay_id left) (tn_relay_id x)) \<subseteq> set ?row" using that by auto
  qed
  have keep: "linked ?row x y \<Longrightarrow> linked (full_mesh_edges (left # rest) edges) x y" for x y
    using linked_mono [OF grows_subset [OF grows_full_mesh [of rest UNIV ?row]]] by simp
  from 2(3-5) consider "a \<in> set rest" "b \<in> set rest" | "a = left" "b \<in> set rest" | "b = left" "a \<in> set rest"
    by auto
  then show ?case
  proof cases
    case 1
    then show ?thesis using 2 by simp
  next
    case 2
    then show ?thesis using keep row by blast
  next
    case 3
    then show ?thesis using keep linked_sym row by blast
  qed
qed

lemma validate_Ok:
  "validate_topology t = Ok () \<longleftrightarrow>
     length (rt_nodes t) \<le> 4096 \<and> length (rt_edges t) \<le> 65536
     \<and> ascending (map tn_relay_id (rt_nodes t)) \<and> (\<forall>node \<in> set (rt_nodes t). node_ok node)
     \<and> ascending (rt_edges t) \<and> distinct (map (\<lambda>e. (te_left e, te_right e)) (rt_edges t))
     \<and> (\<forall>e \<in> set (rt_edges t). edge_ok (map tn_relay_id (rt_nodes t)) e)"
  by (auto simp: validate_topology_def ensure_sorted_unique_eq ensure_unique_eq list_ex_iff)

lemma validate_not_Abort: "validate_topology t \<noteq> Abort"
  by (simp add: validate_topology_def ensure_sorted_unique_eq ensure_unique_eq)

lemma edge_new_ok:
  assumes "edge_new a b = Some e" and "a \<in> set ids" and "b \<in> set ids"
  shows "edge_ok ids e"
  using assms by (auto simp: edge_new_def edge_ok_def split: if_splits)

lemma edge_new_ends:
  assumes "edge_new a b = Some e" and "edge_new c d = Some f" and "te_left e = te_left f" and "te_right e = te_right f"
  shows "e = f"
  using assms by (auto simp: edge_new_def split: if_splits)

lemma grown_edges_valid:
  assumes grow: "grows (relay_ids nodes) [] edges"
  shows "ascending edges" and "distinct (map (\<lambda>e. (te_left e, te_right e)) edges)"
    and "\<forall>e \<in> set edges. edge_ok (map tn_relay_id nodes) e"
proof -
  have new: "\<exists>a \<in> relay_ids nodes. \<exists>b \<in> relay_ids nodes. edge_new a b = Some e" if "e \<in> set edges" for e
    using grow that by (auto simp: grows_def)
  show asc: "ascending edges" using grow by (simp add: grows_def)
  have "inj_on (\<lambda>e. (te_left e, te_right e)) (set edges)"
    using new by (intro inj_onI) (metis edge_new_ends prod.inject)
  then show "distinct (map (\<lambda>e. (te_left e, te_right e)) edges)"
    using asc by (simp add: distinct_map ascending_distinct)
  show "\<forall>e \<in> set edges. edge_ok (map tn_relay_id nodes) e"
    using new edge_new_ok [of _ _ _ "map tn_relay_id nodes"] by fastforce
qed

lemma sorted_distinct_ascending: "sorted xs \<Longrightarrow> distinct xs \<Longrightarrow> ascending xs"
  by (simp add: strict_sorted_iff)

definition sparse_selected :: "topology_node list \<Rightarrow> nat \<Rightarrow> 64 word \<Rightarrow> bool" where
  "sparse_selected nodes threshold capability \<longleftrightarrow>
     threshold \<le> length nodes \<and> (\<forall>node \<in> set nodes. tn_capabilities node AND capability \<noteq> 0)"

definition built :: "uuid \<Rightarrow> nat \<Rightarrow> topology_node list \<Rightarrow> bool \<Rightarrow> relay_topology" where
  "built mesh revision nodes sparse =
     (let sorted_nodes = sort_key tn_relay_id nodes in
      \<lparr>rt_mesh_id = mesh, rt_revision = revision, rt_mode = (if sparse then Sparse else FullMesh),
       rt_nodes = sorted_nodes,
       rt_edges = (if sparse then sparse_edges sorted_nodes else full_mesh_edges sorted_nodes [])\<rparr>)"

lemma build_topology_eq:
  "build_topology mesh revision nodes threshold capability =
     (if distinct (map tn_relay_id nodes)
      then and_then (validate_topology (built mesh revision nodes (sparse_selected nodes threshold capability)))
             (\<lambda>_. Ok (built mesh revision nodes (sparse_selected nodes threshold capability)))
      else Err Directory_NonCanonical)"
proof -
  have perm: "mset (map tn_relay_id (sort_key tn_relay_id nodes)) = mset (map tn_relay_id nodes)" by simp
  have "distinct (map tn_relay_id (sort_key tn_relay_id nodes)) = distinct (map tn_relay_id nodes)"
    using mset_eq_imp_distinct_iff [OF perm] .
  then show ?thesis
    by (simp add: build_topology_def ensure_unique_eq Let_def built_def sparse_selected_def list_all_iff)
qed

section \<open>Built topologies and their health updates\<close>

lemma built_edges:
  assumes "distinct (map tn_relay_id nodes)"
  shows "grows (relay_ids nodes) [] (rt_edges (built mesh revision nodes sparse))"
    and "length (rt_edges (built mesh revision nodes sparse)) \<le>
      (if sparse then 10 * length nodes else length nodes * (length nodes - 1) div 2)"
    and "a \<in> set nodes \<Longrightarrow> b \<in> set nodes \<Longrightarrow>
      within_hops (rt_edges (built mesh revision nodes sparse)) 4 (tn_relay_id a) (tn_relay_id b)"
    and "\<not> sparse \<Longrightarrow> a \<in> set nodes \<Longrightarrow> b \<in> set nodes \<Longrightarrow> tn_relay_id a \<noteq> tn_relay_id b \<Longrightarrow>
      linked (rt_edges (built mesh revision nodes sparse)) (tn_relay_id a) (tn_relay_id b)"
proof -
  let ?n = "sort_key tn_relay_id nodes"
  have d: "distinct (map tn_relay_id ?n)" and len: "length ?n = length nodes"
    using assms mset_eq_imp_distinct_iff [of "map tn_relay_id ?n" "map tn_relay_id nodes"] by simp_all
  show "grows (relay_ids nodes) [] (rt_edges (built mesh revision nodes sparse))"
    using grows_sparse [of ?n] grows_full_mesh [of ?n "relay_ids nodes" "[]"] by (simp add: built_def Let_def)
  show "length (rt_edges (built mesh revision nodes sparse)) \<le>
      (if sparse then 10 * length nodes else length nodes * (length nodes - 1) div 2)"
    using length_sparse [of ?n] length_full_mesh [of ?n "[]"] len by (simp add: built_def Let_def)
  show full: "linked (rt_edges (built mesh revision nodes sparse)) (tn_relay_id a) (tn_relay_id b)"
    if "\<not> sparse" "a \<in> set nodes" "b \<in> set nodes" "tn_relay_id a \<noteq> tn_relay_id b"
    using full_mesh_linked [OF d, of a b "[]"] that by (simp add: built_def Let_def)
  show "within_hops (rt_edges (built mesh revision nodes sparse)) 4 (tn_relay_id a) (tn_relay_id b)"
    if ab: "a \<in> set nodes" "b \<in> set nodes"
  proof (cases sparse)
    case True
    then show ?thesis using sparse_within [of a ?n b] ab by (simp add: built_def Let_def)
  next
    case False
    then have "within_hops (rt_edges (built mesh revision nodes sparse)) (Suc 0) (tn_relay_id a) (tn_relay_id b)"
      using full [OF False ab] by auto
    then show ?thesis by (rule within_hops_mono [rotated]) simp
  qed
qed

lemma build_topology_Ok:
  assumes "distinct (map tn_relay_id nodes)" and "\<forall>node \<in> set nodes. node_ok node" and "length nodes \<le> 4096"
    and "sparse_selected nodes threshold capability \<or> length nodes \<le> 362"
  shows "build_topology mesh revision nodes threshold capability =
    Ok (built mesh revision nodes (sparse_selected nodes threshold capability))"
proof -
  let ?s = "sparse_selected nodes threshold capability"
  let ?t = "built mesh revision nodes ?s"
  note edges = built_edges(1,2) [OF assms(1), of mesh revision ?s]
  have "length (rt_edges ?t) \<le> 65536"
  proof (cases ?s)
    case True
    then show ?thesis using edges(2) assms(3) by simp
  next
    case False
    then have "length nodes * (length nodes - 1) \<le> 362 * 361" using assms(4) by (intro mult_le_mono) simp_all
    then show ?thesis using edges(2) False by simp
  qed
  moreover have "ascending (map tn_relay_id (rt_nodes ?t))"
    using assms(1) mset_eq_imp_distinct_iff [of "map tn_relay_id (sort_key tn_relay_id nodes)" "map tn_relay_id nodes"]
    by (intro sorted_distinct_ascending) (simp_all add: built_def Let_def)
  moreover have "grows (relay_ids (rt_nodes ?t)) [] (rt_edges ?t)"
    using edges(1) by (simp add: built_def Let_def)
  ultimately have "validate_topology ?t = Ok ()"
    using grown_edges_valid [of "rt_nodes ?t" "rt_edges ?t"] assms(2,3)
    by (simp add: validate_Ok) (simp add: built_def Let_def)
  then show ?thesis using assms(1) by (simp add: build_topology_eq)
qed

text \<open>Health samples replace the weights of links and nothing else.\<close>

definition edge_ends :: "topology_edge \<Rightarrow> uuid \<times> uuid" where
  "edge_ends e = (te_left e, te_right e)"

lemma ends_ascending:
  assumes "ascending edges" and "distinct (map edge_ends edges)"
  shows "sorted_wrt (\<lambda>e f. edge_ends e < edge_ends f) edges"
  using assms
proof (induction edges)
  case Nil
  then show ?case by simp
next
  case (Cons e edges)
  have "edge_ends e < edge_ends f" if f: "f \<in> set edges" for f
  proof -
    have "e < f" using Cons.prems(1) f by simp
    then have "edge_ends e \<le> edge_ends f"
      by (auto simp: less_topology_edge_def edge_fields_def edge_ends_def less_prod_def less_eq_prod_def)
    moreover have "edge_ends e \<noteq> edge_ends f" using Cons.prems(2) f by auto
    ultimately show ?thesis by simp
  qed
  then show ?case using Cons by simp
qed

lemma ends_less: "edge_ends e < edge_ends f \<Longrightarrow> e < f"
  by (auto simp: less_topology_edge_def edge_fields_def edge_ends_def less_prod_def)

lemma map_same_ends:
  assumes same: "\<And>e. edge_ends (f e) = edge_ends e"
    and "ascending edges" and "distinct (map edge_ends edges)"
  shows "ascending (map f edges)" and "distinct (map edge_ends (map f edges))"
    and "linked (map f edges) a b = linked edges a b"
proof -
  have "sorted_wrt (\<lambda>e g. f e < f g) edges"
    using ends_ascending [OF assms(2,3)]
    by (rule sorted_wrt_mono_rel [rotated]) (simp add: ends_less same)
  then show "ascending (map f edges)" by (simp add: sorted_wrt_map)
  show "distinct (map edge_ends (map f edges))" using assms(3) same by (simp add: comp_def)
  have "edge_other (f e) a = edge_other e a" for e
    using same [of e] by (simp add: edge_other_def edge_ends_def)
  then show "linked (map f edges) a b = linked edges a b" by (auto simp: linked_def)
qed

lemma apply_link_health_valid:
  assumes valid: "validate_topology t = Ok ()"
  shows "fst (apply_link_health health t) \<in> {Ok (), Err Directory_NonCanonical}
    \<and> validate_topology (snd (apply_link_health health t)) = Ok ()
    \<and> rt_nodes (snd (apply_link_health health t)) = rt_nodes t
    \<and> rt_mode (snd (apply_link_health health t)) = rt_mode t
    \<and> (\<forall>a b. linked (rt_edges (snd (apply_link_health health t))) a b = linked (rt_edges t) a b)"
proof (cases "list_ex (\<lambda>(_, rtt, loss). default_backbone_rtt_millis < rtt \<or> default_backbone_loss_permyriad < loss) health")
  case True
  then show ?thesis using valid by (simp add: apply_link_health_def)
next
  case False
  define f where "f e = (case hm_get health (te_left e, te_right e) of
      None \<Rightarrow> e | Some (rtt, loss) \<Rightarrow> Edge (te_left e) (te_right e) rtt loss)" for e
  let ?t = "t\<lparr>rt_edges := map f (rt_edges t)\<rparr>"
  have same: "edge_ends (f e) = edge_ends e" for e
    by (simp add: f_def edge_ends_def split: option.split)
  have ok: "edge_ok ids (f e)" if "edge_ok ids e" for ids e
  proof (cases "hm_get health (te_left e, te_right e)")
    case None
    then show ?thesis using that by (simp add: f_def)
  next
    case (Some w)
    then have "((te_left e, te_right e), w) \<in> set health" by (rule map_of_SomeD)
    then show ?thesis using that False Some
      by (cases w) (force simp: f_def edge_ok_def list_ex_iff)
  qed
  have v: "ascending (rt_edges t)" "distinct (map edge_ends (rt_edges t))"
    using valid by (simp_all add: validate_Ok edge_ends_def [abs_def])
  note keep = map_same_ends [of f, OF same v]
  have "validate_topology ?t = Ok ()"
    using valid keep(1,2) ok by (simp add: validate_Ok edge_ends_def [abs_def])
  moreover have "apply_link_health health t = (validate_topology ?t, ?t)"
    using False by (simp add: apply_link_health_def f_def [abs_def] Let_def)
  ultimately show ?thesis using keep(3) by simp
qed

lemma within_hops_cong:
  assumes "\<And>a b. linked edges a b = linked edges' a b"
  shows "within_hops edges n a b = within_hops edges' n a b"
  using assms by (induction n arbitrary: a) auto

inductive topology_life :: "topology_node list \<Rightarrow> bool \<Rightarrow> relay_topology \<Rightarrow> bool" where
  life_build: "build_topology mesh revision nodes threshold capability = Ok t \<Longrightarrow>
    topology_life nodes (sparse_selected nodes threshold capability) t"
| life_health: "topology_life nodes sparse t \<Longrightarrow> topology_life nodes sparse (snd (apply_link_health health t))"

lemma topology_life_facts:
  "topology_life nodes sparse t \<Longrightarrow>
   validate_topology t = Ok () \<and> mset (rt_nodes t) = mset nodes \<and> distinct (map tn_relay_id nodes)
   \<and> rt_mode t = (if sparse then Sparse else FullMesh)
   \<and> (\<exists>mesh revision. \<forall>a b. linked (rt_edges t) a b = linked (rt_edges (built mesh revision nodes sparse)) a b)
   \<and> (sparse \<longrightarrow> length (rt_edges t) \<le> 10 * length nodes)"
proof (induction rule: topology_life.induct)
  case (life_build mesh revision nodes threshold capability t)
  let ?t = "built mesh revision nodes (sparse_selected nodes threshold capability)"
  have d: "distinct (map tn_relay_id nodes)" and t: "t = ?t" and v: "validate_topology ?t = Ok ()"
    using life_build by (auto simp: build_topology_eq and_then_Ok_iff split: if_splits)
  show ?case using d v t built_edges(2) [OF d, of mesh revision "sparse_selected nodes threshold capability"]
    by (auto simp: built_def Let_def)
next
  case (life_health nodes sparse t health)
  have "length (rt_edges (snd (apply_link_health health t))) = length (rt_edges t)"
    by (simp add: apply_link_health_def Let_def)
  then show ?case using life_health.IH apply_link_health_valid [of t health] by auto
qed

section \<open>Weighted links and routes\<close>

definition cost_link :: "topology_edge list \<Rightarrow> uuid \<Rightarrow> uuid \<Rightarrow> nat \<Rightarrow> bool" where
  "cost_link edges a b w \<longleftrightarrow> (\<exists>e \<in> set edges. edge_other e a = Some b \<and> routing_cost e = w)"

text \<open>
  A route from \<open>source\<close>: hops, cost, the Relay reached and the first hop.  It has one to four
  hops, never returns to the source and does not start with the excluded Relay.
\<close>

inductive backbone_route ::
  "topology_edge list \<Rightarrow> uuid \<Rightarrow> uuid option \<Rightarrow> nat \<Rightarrow> nat \<Rightarrow> uuid \<Rightarrow> uuid \<Rightarrow> bool"
  for edges source excluded where
  route_first: "cost_link edges source y w \<Longrightarrow> excluded \<noteq> Some y \<Longrightarrow>
    backbone_route edges source excluded 1 w y y"
| route_next: "backbone_route edges source excluded h c x f \<Longrightarrow> h < 4 \<Longrightarrow> cost_link edges x y w \<Longrightarrow>
    y \<noteq> source \<Longrightarrow> backbone_route edges source excluded (h + 1) (c + w) y f"

definition neighbours :: "relay_topology \<Rightarrow> uuid \<Rightarrow> (uuid \<times> nat) list" where
  "neighbours t n = (case hm_get (adjacency t) n of None \<Rightarrow> [] | Some ns \<Rightarrow> ns)"

definition edge_pairs :: "topology_edge \<Rightarrow> (uuid \<times> uuid \<times> nat) list" where
  "edge_pairs e = [(te_left e, te_right e, routing_cost e), (te_right e, te_left e, routing_cost e)]"

lemma adjacency_pairs:
  "adjacency t = fold (\<lambda>x. push_entry (fst x) (snd x)) (concat (map edge_pairs (rt_edges t))) []"
proof -
  have "fold (\<lambda>e m. push_entry (te_right e) (te_left e, routing_cost e)
          (push_entry (te_left e) (te_right e, routing_cost e) m)) es m
      = fold (\<lambda>x. push_entry (fst x) (snd x)) (concat (map edge_pairs es)) m" for es m
    by (induction es arbitrary: m) (simp_all add: edge_pairs_def)
  then show ?thesis by (simp add: adjacency_def)
qed

lemma adjacency_lookup:
  "hm_get (adjacency t) n =
     (case map snd (filter (\<lambda>x. fst x = n) (concat (map edge_pairs (rt_edges t)))) of
        [] \<Rightarrow> None | v # vs \<Rightarrow> Some (v # vs))"
  unfolding adjacency_pairs
  using hm_get_push_entries [of fst snd "concat (map edge_pairs (rt_edges t))" "[]" n]
  by (simp split: list.split)

lemma neighbours_eq:
  "neighbours t n = map snd (filter (\<lambda>x. fst x = n) (concat (map edge_pairs (rt_edges t))))"
  unfolding neighbours_def adjacency_lookup by (simp split: list.split)

lemma neighbours_None: "hm_get (adjacency t) n = None \<longleftrightarrow> neighbours t n = []"
  by (cases "map snd (filter (\<lambda>x. fst x = n) (concat (map edge_pairs (rt_edges t))))")
    (simp_all add: neighbours_eq adjacency_lookup)

lemma length_neighbours: "length (neighbours t n) \<le> 2 * length (rt_edges t)"
proof -
  have "length (concat (map edge_pairs es)) = 2 * length es" for es
    by (induction es) (simp_all add: edge_pairs_def)
  then show ?thesis
    using length_filter_le [of "\<lambda>x. fst x = n" "concat (map edge_pairs (rt_edges t))"]
    by (simp add: neighbours_eq)
qed

definition proper :: "topology_edge list \<Rightarrow> bool" where
  "proper edges \<longleftrightarrow>
     distinct (map edge_ends edges) \<and> (\<forall>e \<in> set edges. te_left e < te_right e \<and> routing_cost e \<le> 220000)"

lemma routing_cost_bound:
  assumes "edge_ok ids e"
  shows "routing_cost e \<le> 220000"
proof -
  have "unat (te_rtt_millis e) \<le> unat (120000 :: u32)" "unat (te_loss_permyriad e) \<le> unat (10000 :: u16)"
    using assms by (simp_all add: edge_ok_def default_backbone_rtt_millis_def
        default_backbone_loss_permyriad_def not_less word_le_nat_alt)
  then show ?thesis by (simp add: routing_cost_def saturating_add_def saturating_mul_def u64_max_def)
qed

lemma validate_proper:
  assumes "validate_topology t = Ok ()"
  shows "proper (rt_edges t)"
proof -
  have "te_left e < te_right e \<and> routing_cost e \<le> 220000" if "e \<in> set (rt_edges t)" for e
  proof -
    have ok: "edge_ok (map tn_relay_id (rt_nodes t)) e" using assms that by (simp add: validate_Ok)
    then show ?thesis using routing_cost_bound [OF ok] by (simp add: edge_ok_def not_le)
  qed
  moreover have "distinct (map edge_ends (rt_edges t))"
    using assms by (simp add: validate_Ok edge_ends_def [abs_def])
  ultimately show ?thesis by (simp add: proper_def)
qed

lemma edge_contribution:
  assumes "te_left e < te_right e"
  shows "map snd (filter (\<lambda>x. fst x = n) (edge_pairs e)) =
    (case edge_other e n of None \<Rightarrow> [] | Some y \<Rightarrow> [(y, routing_cost e)])"
  using assms by (auto simp: edge_pairs_def edge_other_def)

lemma neighbours_edges:
  assumes "proper (rt_edges t)"
  shows "neighbours t n =
    concat (map (\<lambda>e. case edge_other e n of None \<Rightarrow> [] | Some y \<Rightarrow> [(y, routing_cost e)]) (rt_edges t))"
proof -
  have "map snd (filter (\<lambda>x. fst x = n) (concat (map edge_pairs es))) =
      concat (map (\<lambda>e. case edge_other e n of None \<Rightarrow> [] | Some y \<Rightarrow> [(y, routing_cost e)]) es)"
    if "\<forall>e \<in> set es. te_left e < te_right e" for es
    using that by (induction es) (simp_all add: edge_contribution)
  then show ?thesis using assms by (simp add: neighbours_eq proper_def)
qed

lemma neighbours_mem:
  assumes "proper (rt_edges t)"
  shows "(y, w) \<in> set (neighbours t n) \<longleftrightarrow> cost_link (rt_edges t) n y w"
proof -
  have "(y, w) \<in> set (case edge_other e n of None \<Rightarrow> [] | Some z \<Rightarrow> [(z, routing_cost e)]) \<longleftrightarrow>
      edge_other e n = Some y \<and> routing_cost e = w" for e
    by (auto split: option.split)
  then show ?thesis unfolding neighbours_edges [OF assms] cost_link_def by simp
qed

lemma edge_other_ends:
  assumes "edge_other e n = Some y" and "edge_other f n = Some y"
    and "te_left e < te_right e" and "te_left f < te_right f"
  shows "edge_ends e = edge_ends f"
  using assms by (auto simp: edge_other_def edge_ends_def split: if_splits)

lemma neighbours_distinct:
  assumes "proper (rt_edges t)"
  shows "distinct (map fst (neighbours t n))"
proof -
  let ?part = "\<lambda>e. case edge_other e n of None \<Rightarrow> [] | Some y \<Rightarrow> [(y, routing_cost e)]"
  have "distinct (map fst (concat (map ?part es)))" if "proper es" for es
    using that
  proof (induction es)
    case Nil
    then show ?case by simp
  next
    case (Cons e es)
    have es: "proper es" using Cons.prems by (simp add: proper_def)
    show ?case
    proof (cases "edge_other e n")
      case None
      then show ?thesis using Cons.IH [OF es] by simp
    next
      case (Some y)
      have "edge_other f n \<noteq> Some y" if "f \<in> set es" for f
        using edge_other_ends [OF Some, of f] Cons.prems that by (auto simp: proper_def)
      then have "y \<notin> set (map fst (concat (map ?part es)))" by (fastforce split: option.splits)
      then show ?thesis using Cons.IH [OF es] Some by simp
    qed
  qed
  then show ?thesis using assms by (simp add: neighbours_edges)
qed

lemma route_bounds:
  assumes "proper edges" and "backbone_route edges source excluded h c x f"
  shows "1 \<le> h \<and> h \<le> 4 \<and> c \<le> 220000 * h"
  using assms(2)
proof (induction rule: backbone_route.induct)
  case (route_first y w)
  then show ?case using assms(1) by (auto simp: proper_def cost_link_def)
next
  case (route_next h c x f y w)
  then have "w \<le> 220000" using assms(1) by (auto simp: proper_def cost_link_def)
  then show ?case using route_next by simp
qed

lemma route_cost_total:
  assumes "proper edges" and "backbone_route edges source excluded h c x f" and "cost_link edges x y w"
  shows "saturating_add c w = c + w"
proof -
  have "w \<le> 220000" using assms(1,3) by (auto simp: proper_def cost_link_def)
  moreover have "c \<le> 220000 * 4" using route_bounds [OF assms(1,2)] by linarith
  ultimately show ?thesis by (simp add: saturating_add_def u64_max_def)
qed

text \<open>Relays within four hops of each other have a route.\<close>

inductive walk :: "topology_edge list \<Rightarrow> uuid \<Rightarrow> nat \<Rightarrow> uuid \<Rightarrow> bool" for edges source where
  walk_start: "walk edges source 0 source"
| walk_step: "walk edges source n x \<Longrightarrow> linked edges x y \<Longrightarrow> walk edges source (Suc n) y"

lemma walk_append:
  "walk edges source n a \<Longrightarrow> within_hops edges m a b \<Longrightarrow> \<exists>k \<le> n + m. walk edges source k b"
proof (induction m arbitrary: n a)
  case 0
  then show ?case by auto
next
  case (Suc m)
  show ?case
  proof (cases "a = b")
    case True
    then show ?thesis using Suc.prems(1) by (intro exI [of _ n]) simp
  next
    case False
    then obtain c where c: "linked edges a c" "within_hops edges m c b" using Suc.prems(2) by auto
    show ?thesis using Suc.IH [OF walk_step [OF Suc.prems(1) c(1)] c(2)] by auto
  qed
qed

lemma linked_cost: "linked edges a b \<Longrightarrow> \<exists>w. cost_link edges a b w"
  by (auto simp: linked_def cost_link_def)

lemma walk_route:
  "walk edges source n x \<Longrightarrow> x \<noteq> source \<Longrightarrow> n \<le> 4 \<Longrightarrow> \<exists>h c f. h \<le> n \<and> backbone_route edges source None h c x f"
proof (induction rule: walk.induct)
  case walk_start
  then show ?case by simp
next
  case (walk_step n x y)
  obtain w where w: "cost_link edges x y w" using linked_cost [OF walk_step.hyps(2)] by blast
  show ?case
  proof (cases "x = source")
    case True
    then show ?thesis using w route_first [of edges source y w None] by force
  next
    case False
    then obtain h c f where h: "h \<le> n" "backbone_route edges source None h c x f"
      using walk_step by auto
    have "backbone_route edges source None (h + 1) (c + w) y f"
      using h walk_step w by (intro route_next [OF h(2)]) simp_all
    then show ?thesis using h(1) by (intro exI [of _ "h + 1"] exI [of _ "c + w"] exI [of _ f]) simp
  qed
qed

lemma within_route:
  assumes "within_hops edges 4 a b" and "a \<noteq> b"
  shows "\<exists>h c f. backbone_route edges a None h c b f"
proof -
  obtain k where "k \<le> 4" "walk edges a k b" using walk_append [OF walk_start assms(1)] by auto
  then show ?thesis using walk_route assms(2) by blast
qed

section \<open>The search\<close>

definition relaxed ::
  "uuid \<Rightarrow> nat \<Rightarrow> nat \<Rightarrow> uuid \<Rightarrow> (uuid \<times> nat) list \<Rightarrow> best_costs \<times> heap_entry list
   \<Rightarrow> best_costs \<times> heap_entry list \<Rightarrow> bool" where
  "relaxed source cost hops first_hop ns s s' \<longleftrightarrow>
     (\<forall>k b. hm_get (fst s) k = Some b \<longrightarrow> (\<exists>b'. hm_get (fst s') k = Some b' \<and> b' \<le> b))
     \<and> (\<forall>(y, w) \<in> set ns. y \<noteq> source \<longrightarrow> (\<exists>b'. hm_get (fst s') (y, hops + 1) = Some b' \<and> b' \<le> cost + w))
     \<and> set (snd s) \<subseteq> set (snd s')
     \<and> (\<forall>p \<in> set (snd s'). p \<in> set (snd s)
          \<or> (\<exists>(y, w) \<in> set ns. y \<noteq> source \<and> p = (cost + w, hops + 1, y, first_hop)
               \<and> (\<exists>b'. hm_get (fst s') (y, hops + 1) = Some b' \<and> b' \<le> cost + w)))
     \<and> (\<forall>y h. hm_get (fst s') (y, h) = hm_get (fst s) (y, h)
          \<or> (\<exists>b'. hm_get (fst s') (y, h) = Some b' \<and> (b', h, y, first_hop) \<in> set (snd s')))
     \<and> (sorted (snd s) \<longrightarrow> sorted (snd s')) \<and> length (snd s') \<le> length (snd s) + length ns"

lemma relax_relaxed:
  assumes "saturating_add cost w = cost + w"
  shows "relaxed source cost hops first_hop [(y, w)] s (relax source cost hops first_hop (y, w) s)"
proof -
  obtain best pending where s: "s = (best, pending)" by (cases s)
  consider "y = source" | known where "y \<noteq> source" "hm_get best (y, hops + 1) = Some known" "known \<le> cost + w"
    | "y \<noteq> source" "\<forall>known. hm_get best (y, hops + 1) = Some known \<longrightarrow> cost + w < known"
    by (cases "hm_get best (y, hops + 1)") force+
  then show ?thesis
  proof cases
    case 1
    then show ?thesis by (simp add: s relaxed_def)
  next
    case 2
    then show ?thesis using assms by (simp add: s relaxed_def Let_def)
  next
    case 3
    then have "relax source cost hops first_hop (y, w) s =
        (bmap_insert (y, hops + 1) (cost + w) best, insort (cost + w, hops + 1, y, first_hop) pending)"
      using assms by (auto simp: s Let_def split: option.split)
    then show ?thesis using 3
      by (auto simp: s relaxed_def table_simps set_insort_key sorted_insort less_imp_le)
  qed
qed

lemma relaxed_best:
  "relaxed source cost hops f ns s s' \<Longrightarrow> hm_get (fst s) k = Some b \<Longrightarrow> \<exists>b'. hm_get (fst s') k = Some b' \<and> b' \<le> b"
  unfolding relaxed_def by blast

lemma relaxed_target:
  "relaxed source cost hops f ns s s' \<Longrightarrow> (y, w) \<in> set ns \<Longrightarrow> y \<noteq> source \<Longrightarrow>
   \<exists>b'. hm_get (fst s') (y, hops + 1) = Some b' \<and> b' \<le> cost + w"
  unfolding relaxed_def by blast

lemma relaxed_pending: "relaxed source cost hops f ns s s' \<Longrightarrow> set (snd s) \<subseteq> set (snd s')"
  by (simp add: relaxed_def)

lemma relaxed_new:
  assumes "relaxed source cost hops f ns s s'" and "p \<in> set (snd s')"
  obtains "p \<in> set (snd s)"
  | y w b where "(y, w) \<in> set ns" "y \<noteq> source" "p = (cost + w, hops + 1, y, f)"
      "hm_get (fst s') (y, hops + 1) = Some b" "b \<le> cost + w"
  using assms unfolding relaxed_def by blast

lemma relaxed_changed:
  assumes "relaxed source cost hops f ns s s'"
  shows "hm_get (fst s') (y, h) = hm_get (fst s) (y, h)
    \<or> (\<exists>b. hm_get (fst s') (y, h) = Some b \<and> (b, h, y, f) \<in> set (snd s'))"
proof -
  have "\<forall>y h. hm_get (fst s') (y, h) = hm_get (fst s) (y, h)
      \<or> (\<exists>b. hm_get (fst s') (y, h) = Some b \<and> (b, h, y, f) \<in> set (snd s'))"
    using assms unfolding relaxed_def by (elim conjE)
  then show ?thesis by simp
qed

lemma relaxed_append:
  assumes r1: "relaxed source cost hops f ns s s1" and r2: "relaxed source cost hops f ms s1 s2"
  shows "relaxed source cost hops f (ns @ ms) s s2"
proof -
  have "\<exists>b'. hm_get (fst s2) k = Some b' \<and> b' \<le> b" if "hm_get (fst s) k = Some b" for k b
    using relaxed_best [OF r1 that] relaxed_best [OF r2] by (meson order_trans)
  moreover have "\<exists>b'. hm_get (fst s2) (y, hops + 1) = Some b' \<and> b' \<le> cost + w"
    if yw: "(y, w) \<in> set (ns @ ms)" "y \<noteq> source" for y w
  proof (cases "(y, w) \<in> set ms")
    case True
    then show ?thesis using relaxed_target [OF r2 True yw(2)] by simp
  next
    case False
    then obtain b where b: "hm_get (fst s1) (y, hops + 1) = Some b" "b \<le> cost + w"
      using relaxed_target [OF r1, of y w] yw by auto
    obtain b' where "hm_get (fst s2) (y, hops + 1) = Some b'" "b' \<le> b"
      using relaxed_best [OF r2 b(1)] by blast
    then show ?thesis using b(2) by auto
  qed
  moreover have "p \<in> set (snd s) \<or> (\<exists>(y, w) \<in> set (ns @ ms). y \<noteq> source \<and> p = (cost + w, hops + 1, y, f)
      \<and> (\<exists>b'. hm_get (fst s2) (y, hops + 1) = Some b' \<and> b' \<le> cost + w))" if p: "p \<in> set (snd s2)" for p
    using r2 p
  proof (cases rule: relaxed_new)
    case 1
    with r1 show ?thesis
    proof (cases rule: relaxed_new)
      case (2 y w b)
      then show ?thesis using relaxed_best [OF r2 2(4)] by (auto intro!: bexI [of _ "(y, w)"] intro: order_trans)
    qed simp
  next
    case (2 y w b)
    then show ?thesis by (auto intro!: bexI [of _ "(y, w)"])
  qed
  moreover have "hm_get (fst s2) (y, h) = hm_get (fst s) (y, h)
      \<or> (\<exists>b'. hm_get (fst s2) (y, h) = Some b' \<and> (b', h, y, f) \<in> set (snd s2))" for y h
    using relaxed_changed [OF r1, of y h] relaxed_changed [OF r2, of y h] relaxed_pending [OF r2]
    by auto
  moreover have "set (snd s) \<subseteq> set (snd s2)" using relaxed_pending [OF r1] relaxed_pending [OF r2] by blast
  moreover have "(sorted (snd s) \<longrightarrow> sorted (snd s2)) \<and> length (snd s2) \<le> length (snd s) + length (ns @ ms)"
    using r1 r2 by (simp add: relaxed_def)
  ultimately show ?thesis unfolding relaxed_def by blast
qed

lemma fold_relaxed:
  assumes "\<And>y w. (y, w) \<in> set ns \<Longrightarrow> saturating_add cost w = cost + w"
  shows "relaxed source cost hops f ns s (fold (relax source cost hops f) ns s)"
  using assms
proof (induction ns arbitrary: s)
  case Nil
  show ?case by (simp add: relaxed_def)
next
  case (Cons x ns)
  obtain y w where x: "x = (y, w)" by (cases x)
  have "relaxed source cost hops f [x] s (relax source cost hops f x s)"
    unfolding x by (rule relax_relaxed [OF Cons.prems [of y w]]) (simp add: x)
  moreover have "relaxed source cost hops f ns (relax source cost hops f x s)
      (fold (relax source cost hops f) ns (relax source cost hops f x s))"
    using Cons.prems by (intro Cons.IH) (meson list.set_intros(2))
  ultimately show ?case using relaxed_append by fastforce
qed

text \<open>The invariant of the loop.\<close>

definition search_inv ::
  "topology_edge list \<Rightarrow> uuid \<Rightarrow> uuid option \<Rightarrow> uuid \<Rightarrow> best_costs \<times> heap_entry list \<Rightarrow> bool" where
  "search_inv edges source excluded destination s \<longleftrightarrow>
     sorted (snd s)
     \<and> (\<forall>(c, h, x, f) \<in> set (snd s). backbone_route edges source excluded h c x f
          \<and> (\<exists>b. hm_get (fst s) (x, h) = Some b \<and> b \<le> c))
     \<and> (\<forall>x h b. hm_get (fst s) (x, h) = Some b \<longrightarrow>
          (\<exists>f. (b, h, x, f) \<in> set (snd s))
          \<or> x \<noteq> destination \<and> (h = 4 \<or> (\<forall>y w. cost_link edges x y w \<and> y \<noteq> source \<longrightarrow>
               (\<exists>b'. hm_get (fst s) (y, h + 1) = Some b' \<and> b' \<le> b + w))))
     \<and> (\<forall>y w. cost_link edges source y w \<and> excluded \<noteq> Some y \<longrightarrow>
          (\<exists>b. hm_get (fst s) (y, 1) = Some b \<and> b \<le> w))"

lemma search_inv_pending:
  assumes "search_inv edges source excluded destination s" and "(c, h, x, f) \<in> set (snd s)"
  shows "backbone_route edges source excluded h c x f" and "\<exists>b. hm_get (fst s) (x, h) = Some b \<and> b \<le> c"
  using assms unfolding search_inv_def by blast+

lemma search_inv_best:
  assumes "search_inv edges source excluded destination s" and "hm_get (fst s) (x, h) = Some b"
  obtains f where "(b, h, x, f) \<in> set (snd s)"
  | "x \<noteq> destination" "h = 4 \<or> (\<forall>y w. cost_link edges x y w \<and> y \<noteq> source \<longrightarrow>
       (\<exists>b'. hm_get (fst s) (y, h + 1) = Some b' \<and> b' \<le> b + w))"
  using assms unfolding search_inv_def by blast

lemma search_inv_start:
  assumes "search_inv edges source excluded destination s" and "cost_link edges source y w" and "excluded \<noteq> Some y"
  shows "\<exists>b. hm_get (fst s) (y, 1) = Some b \<and> b \<le> w"
  using assms unfolding search_inv_def by blast

text \<open>Every route is covered by a recorded cost or by something still pending.\<close>

lemma search_covers:
  assumes inv: "search_inv edges source excluded destination s"
    and route: "backbone_route edges source excluded h c x f"
  shows "(\<exists>b. hm_get (fst s) (x, h) = Some b \<and> b \<le> c) \<or> (\<exists>p \<in> set (snd s). fst p \<le> c)"
  using route
proof (induction rule: backbone_route.induct)
  case (route_first y w)
  then show ?case using inv unfolding search_inv_def by blast
next
  case (route_next h c x f y w)
  from route_next.IH show ?case
  proof
    assume "\<exists>b. hm_get (fst s) (x, h) = Some b \<and> b \<le> c"
    then obtain b where b: "hm_get (fst s) (x, h) = Some b" "b \<le> c" by blast
    from inv b(1) show ?thesis
    proof (cases rule: search_inv_best)
      case (1 f)
      then show ?thesis using b(2) by force
    next
      case 2
      then obtain b' where "hm_get (fst s) (y, h + 1) = Some b'" "b' \<le> b + w"
        using route_next.hyps by auto
      then show ?thesis using b(2) by auto
    qed
  next
    assume "\<exists>p \<in> set (snd s). fst p \<le> c"
    then show ?thesis by force
  qed
qed

lemma pending_least:
  assumes "search_inv edges source excluded destination (best, (c, h, x, f) # rest)"
    and "p \<in> set ((c, h, x, f) # rest)"
  shows "c \<le> fst p"
proof -
  have "(c, h, x, f) \<le> p" using assms by (auto simp: search_inv_def)
  then show ?thesis by (cases p) (auto simp: less_eq_prod_def)
qed

lemma found_cheapest:
  assumes inv: "search_inv edges source excluded destination (best, (c, h, destination, f) # rest)"
    and route: "backbone_route edges source excluded h' c' destination f'"
  shows "c \<le> c'"
  using search_covers [OF inv route]
proof
  assume "\<exists>b. hm_get (fst (best, (c, h, destination, f) # rest)) (destination, h') = Some b \<and> b \<le> c'"
  then obtain b where b: "hm_get best (destination, h') = Some b" "b \<le> c'" by auto
  have "\<exists>g. (b, h', destination, g) \<in> set ((c, h, destination, f) # rest)"
    by (rule search_inv_best [OF inv, of destination h' b]) (use b(1) in auto)
  then obtain g where "(b, h', destination, g) \<in> set ((c, h, destination, f) # rest)" ..
  from pending_least [OF inv this] b(2) show ?thesis by simp
next
  assume "\<exists>p \<in> set (snd (best, (c, h, destination, f) # rest)). fst p \<le> c'"
  then obtain p where "p \<in> set ((c, h, destination, f) # rest)" "fst p \<le> c'"
    by (simp only: snd_conv) blast
  then show ?thesis using pending_least [OF inv] le_trans by blast
qed

lemma nothing_found:
  assumes inv: "search_inv edges source excluded destination (best, [])"
  shows "\<not> backbone_route edges source excluded h c destination f"
proof
  assume "backbone_route edges source excluded h c destination f"
  from search_covers [OF inv this] obtain b where "hm_get best (destination, h) = Some b" by auto
  then show False using search_inv_best [OF inv, of destination h b] by auto
qed

text \<open>Each branch of the loop keeps the invariant.\<close>

lemma search_drop:
  assumes inv: "search_inv edges source excluded destination (best, (c, h, x, f) # rest)"
    and "\<And>b. hm_get best (x, h) = Some b \<Longrightarrow> b = c \<Longrightarrow> x \<noteq> destination \<and> h = 4"
  shows "search_inv edges source excluded destination (best, rest)"
proof -
  have "(\<exists>g. (b, k, y, g) \<in> set rest) \<or> y \<noteq> destination \<and> (k = 4 \<or> (\<forall>z w. cost_link edges y z w \<and> z \<noteq> source \<longrightarrow>
      (\<exists>b'. hm_get best (z, k + 1) = Some b' \<and> b' \<le> b + w)))" if b: "hm_get best (y, k) = Some b" for y k b
  proof -
    have "hm_get (fst (best, (c, h, x, f) # rest)) (y, k) = Some b" using b by simp
    with inv show ?thesis
    proof (cases rule: search_inv_best)
      case (1 g)
      then show ?thesis using assms(2) b by auto
    next
      case 2
      then show ?thesis by simp
    qed
  qed
  moreover have "backbone_route edges source excluded k d y g \<and> (\<exists>b. hm_get best (y, k) = Some b \<and> b \<le> d)"
    if "(d, k, y, g) \<in> set rest" for d k y g
    using search_inv_pending [OF inv, of d k y g] that by simp
  moreover have "sorted rest" using inv by (simp add: search_inv_def)
  moreover have "\<forall>y w. cost_link edges source y w \<and> excluded \<noteq> Some y \<longrightarrow>
      (\<exists>b. hm_get best (y, 1) = Some b \<and> b \<le> w)"
    using inv unfolding search_inv_def fst_conv by (elim conjE)
  ultimately show ?thesis unfolding search_inv_def fst_conv snd_conv by blast
qed

lemma search_expand:
  assumes inv: "search_inv edges source excluded destination (best, (c, h, x, f) # rest)"
    and known: "hm_get best (x, h) = Some c" and other: "x \<noteq> destination" and short: "h < 4"
    and links: "\<And>y w. (y, w) \<in> set ns \<longleftrightarrow> cost_link edges x y w"
    and step: "relaxed source c h f ns (best, rest) s'"
  shows "search_inv edges source excluded destination s'"
proof -
  have route: "backbone_route edges source excluded h c x f"
    using search_inv_pending(1) [OF inv, of c h x f] by simp
  have sorted: "sorted (snd s')" using inv step by (simp add: search_inv_def relaxed_def)
  have pend: "backbone_route edges source excluded k d y g \<and> (\<exists>b. hm_get (fst s') (y, k) = Some b \<and> b \<le> d)"
    if "(d, k, y, g) \<in> set (snd s')" for d k y g
    using step that
  proof (cases rule: relaxed_new)
    case 1
    then have "(d, k, y, g) \<in> set (snd (best, (c, h, x, f) # rest))" by simp
    note old = search_inv_pending [OF inv this]
    then show ?thesis using relaxed_best [OF step] by (metis fst_conv order_trans)
  next
    case (2 z w b)
    then show ?thesis using route_next [OF route short, of z w] links by auto
  qed
  have best: "(\<exists>g. (b, k, y, g) \<in> set (snd s')) \<or> y \<noteq> destination \<and> (k = 4 \<or>
      (\<forall>z w. cost_link edges y z w \<and> z \<noteq> source \<longrightarrow> (\<exists>b'. hm_get (fst s') (z, k + 1) = Some b' \<and> b' \<le> b + w)))"
    if b: "hm_get (fst s') (y, k) = Some b" for y k b
  proof -
    consider "(b, k, y, f) \<in> set (snd s')" | "hm_get best (y, k) = Some b"
      using relaxed_changed [OF step, of y k] b by auto
    then show ?thesis
    proof cases
      case 1
      then show ?thesis by blast
    next
      case old: 2
      have "hm_get (fst (best, (c, h, x, f) # rest)) (y, k) = Some b" using old by simp
      with inv show ?thesis
      proof (cases rule: search_inv_best)
        case (1 g)
        then have "(b, k, y, g) = (c, h, x, f) \<or> (b, k, y, g) \<in> set rest" by simp
        then show ?thesis
        proof
          assume "(b, k, y, g) = (c, h, x, f)"
          then show ?thesis using other relaxed_target [OF step] links by auto
        next
          assume "(b, k, y, g) \<in> set rest"
          then show ?thesis using relaxed_pending [OF step] by auto
        qed
      next
        case 2
        have "\<exists>b'. hm_get (fst s') (z, k + 1) = Some b' \<and> b' \<le> b + w"
          if z: "cost_link edges y z w" "z \<noteq> source" "k \<noteq> 4" for z w
        proof -
          obtain b1 where b1: "hm_get best (z, k + 1) = Some b1" "b1 \<le> b + w" using 2(2) z by auto
          then show ?thesis using relaxed_best [OF step, of "(z, k + 1)" b1] by auto
        qed
        then show ?thesis using 2(1) by blast
      qed
    qed
  qed
  have "\<exists>b. hm_get (fst s') (y, 1) = Some b \<and> b \<le> w" if src: "cost_link edges source y w" "excluded \<noteq> Some y" for y w
  proof -
    obtain b where "hm_get best (y, 1) = Some b" "b \<le> w" using search_inv_start [OF inv src] by auto
    then show ?thesis using relaxed_best [OF step, of "(y, 1)" b] by auto
  qed
  then show ?thesis unfolding search_inv_def using sorted pend best by blast
qed

text \<open>
  The loop ends: an entry with \<open>h\<close> hops weighs \<open>(d + 1) ^ (4 - h)\<close>, where \<open>d\<close> bounds the number of
  neighbours, and is replaced by at most \<open>d\<close> entries of the next smaller weight.
\<close>

definition heap_weight :: "nat \<Rightarrow> heap_entry list \<Rightarrow> nat" where
  "heap_weight d pending = sum_list (map (\<lambda>(_, h, _, _). (d + 1) ^ (4 - h)) pending)"

lemma heap_weight_Cons [simp]:
  "heap_weight d ((c, h, x, f) # rest) = (d + 1) ^ (4 - h) + heap_weight d rest"
  by (simp add: heap_weight_def)

lemma relax_weight:
  "heap_weight d (snd (relax source cost hops f yw s)) \<le> heap_weight d (snd s) + (d + 1) ^ (4 - (hops + 1))"
proof -
  obtain y w best pending where s: "yw = (y, w)" "s = (best, pending)" by (cases yw; cases s)
  have insort: "sum_list (map g (insort p ps)) = g p + sum_list (map g ps)" for g :: "heap_entry \<Rightarrow> nat" and p ps
    by (induction ps) simp_all
  show ?thesis by (simp add: s heap_weight_def insort Let_def split: option.split)
qed

lemma fold_relax_weight:
  "heap_weight d (snd (fold (relax source cost hops f) ns s))
     \<le> heap_weight d (snd s) + length ns * (d + 1) ^ (4 - (hops + 1))"
proof (induction ns arbitrary: s)
  case Nil
  then show ?case by simp
next
  case (Cons yw ns)
  show ?case
    using Cons [of "relax source cost hops f yw s"] relax_weight [of d source cost hops f yw s] by simp
qed

lemma expand_weight:
  assumes "length ns \<le> d" and "h < 4"
  shows "heap_weight d (snd (fold (relax source c h f) ns (best, rest))) < heap_weight d ((c, h, x, f) # rest)"
proof -
  have "length ns * (d + 1) ^ (4 - (h + 1)) < (d + 1) * (d + 1) ^ (4 - (h + 1))"
    using assms(1) by (intro mult_strict_right_mono) simp_all
  also have "\<dots> = (d + 1) ^ (4 - h)"
  proof -
    have "4 - h = Suc (4 - (h + 1))" using assms(2) by simp
    then show ?thesis by (simp only: power_Suc)
  qed
  finally show ?thesis
    using fold_relax_weight [of d source c h f ns "(best, rest)"] by simp
qed

text \<open>What the loop returns.\<close>

definition search_result ::
  "topology_edge list \<Rightarrow> uuid \<Rightarrow> uuid option \<Rightarrow> uuid \<Rightarrow> (nat \<times> uuid) option \<Rightarrow> bool" where
  "search_result edges source excluded destination r \<longleftrightarrow>
     (case r of
        None \<Rightarrow> \<nexists>h c f. backbone_route edges source excluded h c destination f
      | Some (c, f) \<Rightarrow> (\<exists>h. backbone_route edges source excluded h c destination f)
          \<and> (\<forall>h' c' f'. backbone_route edges source excluded h' c' destination f' \<longrightarrow> c \<le> c'))"

lemma search_hops_Nil: "search_hops adj source destination best [] = Some None"
  by (simp add: search_hops.simps)

lemma search_hops_Cons:
  "search_hops adj source destination best ((cost, hops, node, first_hop) # rest) =
     (if (case hm_get best (node, hops) of None \<Rightarrow> u64_max | Some known \<Rightarrow> known) < cost
      then search_hops adj source destination best rest
      else if node = destination then Some (Some (cost, first_hop))
      else if hops = 4 then search_hops adj source destination best rest
      else let (best', pending') =
             fold (relax source cost hops first_hop)
               (case hm_get adj node of None \<Rightarrow> [] | Some neighbors \<Rightarrow> neighbors) (best, rest)
        in search_hops adj source destination best' pending')"
  by (subst search_hops.simps) simp

lemma search_hops_correct:
  assumes "proper (rt_edges t)" and "search_inv (rt_edges t) source excluded destination (best, pending)"
  shows "\<exists>r. search_hops (adjacency t) source destination best pending = Some r
    \<and> search_result (rt_edges t) source excluded destination r"
  using assms(2)
proof (induction "heap_weight (2 * length (rt_edges t)) pending" arbitrary: best pending rule: less_induct)
  case less
  show ?case
  proof (cases pending)
    case Nil
    then show ?thesis using nothing_found less.prems by (auto simp: search_hops_Nil search_result_def)
  next
    case (Cons p rest)
    obtain c h x f where p: "p = (c, h, x, f)" by (cases p)
    note inv = less.prems [unfolded Cons p]
    have route: "backbone_route (rt_edges t) source excluded h c x f"
      using search_inv_pending(1) [OF inv, of c h x f] by simp
    obtain b where b: "hm_get best (x, h) = Some b" "b \<le> c"
      using search_inv_pending(2) [OF inv, of c h x f] by auto
    have smaller: "heap_weight (2 * length (rt_edges t)) rest < heap_weight (2 * length (rt_edges t)) pending"
      by (simp add: Cons p)
    have h: "h \<le> 4" using route_bounds [OF assms(1) route] by simp
    consider "b < c" | "b = c" "x = destination" | "b = c" "x \<noteq> destination" "h = 4"
      | "b = c" "x \<noteq> destination" "h < 4"
      using b(2) h by linarith
    then show ?thesis
    proof cases
      case 1
      then have "search_inv (rt_edges t) source excluded destination (best, rest)"
        using b by (intro search_drop [OF inv]) simp
      then show ?thesis using less.hyps [OF smaller] 1 b by (simp add: search_hops_Cons Cons p)
    next
      case 2
      then show ?thesis using b route found_cheapest [OF inv [unfolded 2(2)]]
        by (auto simp: search_hops_Cons Cons p search_result_def)
    next
      case 3
      then have "search_inv (rt_edges t) source excluded destination (best, rest)"
        by (intro search_drop [OF inv]) simp
      then show ?thesis using less.hyps [OF smaller] 3 b by (simp add: search_hops_Cons Cons p)
    next
      case 4
      let ?s = "fold (relax source c h f) (neighbours t x) (best, rest)"
      have links: "(y, w) \<in> set (neighbours t x) \<longleftrightarrow> cost_link (rt_edges t) x y w" for y w
        by (rule neighbours_mem [OF assms(1)])
      have "relaxed source c h f (neighbours t x) (best, rest) ?s"
        using links route_cost_total [OF assms(1) route] by (intro fold_relaxed) simp
      then have "search_inv (rt_edges t) source excluded destination ?s"
        using search_expand [OF inv _ 4(2,3) links] b(1) 4(1) by simp
      then obtain r where "search_hops (adjacency t) source destination (fst ?s) (snd ?s) = Some r"
          "search_result (rt_edges t) source excluded destination r"
        using less.hyps [of "snd ?s" "fst ?s"]
          expand_weight [OF length_neighbours [of t x] 4(3), of source c f best rest x]
        by (auto simp: Cons p)
      then show ?thesis using 4 b
        by (simp add: search_hops_Cons Cons p case_prod_beta flip: neighbours_def)
    qed
  qed
qed

text \<open>The entries the search starts from.\<close>

lemma first_entries_inv:
  assumes "proper edges" and "distinct (map fst ns)"
    and "\<And>y w. (y, w) \<in> set ns \<longleftrightarrow> cost_link edges source y w"
  shows "search_inv edges source excluded destination (first_entries excluded ns)"
proof -
  let ?push = "\<lambda>(neighbor, cost) (best, pending).
      if excluded = Some neighbor then (best, pending)
      else (bmap_insert (neighbor, 1) cost best, insort (cost, 1, neighbor, neighbor) pending)"
  define ok where "ok ms s \<longleftrightarrow> sorted (snd s)
      \<and> (\<forall>y h b. hm_get (fst s) (y, h) = Some b \<longleftrightarrow> h = 1 \<and> excluded \<noteq> Some y \<and> (y, b) \<in> set ms)
      \<and> set (snd s) = {(w, 1, y, y) | y w. (y, w) \<in> set ms \<and> excluded \<noteq> Some y}"
    for ms :: "(uuid \<times> nat) list" and s :: "best_costs \<times> heap_entry list"
  have step: "ok (ms @ [(y, w)]) (?push (y, w) s)" if "ok ms s" "y \<notin> fst ` set ms" for ms y w s
  proof -
    obtain best pending where s: "s = (best, pending)" by (cases s)
    show ?thesis
    proof (cases "excluded = Some y")
      case True
      then show ?thesis using that(1) by (fastforce simp: ok_def s)
    next
      case False
      have "y \<noteq> z \<or> (z, b) \<notin> set ms" for z b using that(2) by force
      then show ?thesis using that(1) False
        by (fastforce simp: ok_def s table_simps set_insort_key sorted_insort)
    qed
  qed
  have "ok (ms @ ks) (fold ?push ks s)" if "ok ms s" "distinct (map fst (ms @ ks))" for ms ks s
    using that
  proof (induction ks arbitrary: ms s)
    case Nil
    then show ?case by simp
  next
    case (Cons k ks)
    obtain y w where k: "k = (y, w)" by (cases k)
    have "ok (ms @ [k]) (?push k s)" using step [OF Cons.prems(1), of y w] Cons.prems(2) k by auto
    from Cons.IH [OF this] Cons.prems(2) show ?case by simp
  qed
  from this [of "[]" "([], [])" ns] have ok: "ok ns (first_entries excluded ns)"
    using assms(2) by (simp add: ok_def first_entries_def)
  then have best: "hm_get (fst (first_entries excluded ns)) (y, h) = Some b \<longleftrightarrow>
      h = 1 \<and> excluded \<noteq> Some y \<and> cost_link edges source y b" for y h b
    using assms(3) by (simp add: ok_def)
  have pend: "(c, h, y, f) \<in> set (snd (first_entries excluded ns)) \<longleftrightarrow>
      h = 1 \<and> f = y \<and> excluded \<noteq> Some y \<and> cost_link edges source y c" for c h y f
    using ok assms(3) by (auto simp: ok_def)
  have "sorted (snd (first_entries excluded ns))" using ok by (simp add: ok_def)
  then show ?thesis
    unfolding search_inv_def using best pend by (auto simp: route_first simp flip: One_nat_def)
qed

lemma shortest_next_hop_correct:
  assumes valid: "validate_topology t = Ok ()" and "source \<noteq> destination"
  shows "\<exists>r. shortest_next_hop t source destination excluded = Some r
    \<and> search_result (rt_edges t) source excluded destination r"
proof -
  have proper: "proper (rt_edges t)" using validate_proper [OF valid] .
  have links: "(y, w) \<in> set (neighbours t source) \<longleftrightarrow> cost_link (rt_edges t) source y w" for y w
    by (rule neighbours_mem [OF proper])
  let ?s = "first_entries excluded (neighbours t source)"
  have inv: "search_inv (rt_edges t) source excluded destination (fst ?s, snd ?s)"
    using first_entries_inv [OF proper neighbours_distinct [OF proper] links] by simp
  show ?thesis
  proof (cases "hm_get (adjacency t) source")
    case None
    then have none: "\<not> cost_link (rt_edges t) source y w" for y w
      using links neighbours_None [of t source] by simp
    have "\<not> backbone_route (rt_edges t) source excluded h c x f" for h c x f
    proof
      assume "backbone_route (rt_edges t) source excluded h c x f"
      then show False by (induction rule: backbone_route.induct) (use none in auto)
    qed
    then show ?thesis using None assms(2) by (simp add: shortest_next_hop_def search_result_def)
  next
    case (Some ns)
    then have "neighbours t source = ns" by (simp add: neighbours_def)
    then show ?thesis
      using search_hops_correct [OF proper inv] Some assms(2)
      by (simp add: shortest_next_hop_def case_prod_beta Let_def)
  qed
qed

definition route_exists :: "topology_edge list \<Rightarrow> uuid \<Rightarrow> uuid option \<Rightarrow> uuid \<Rightarrow> bool" where
  "route_exists edges source excluded destination \<longleftrightarrow>
     (\<exists>h c f. backbone_route edges source excluded h c destination f)"

definition cheapest_hop :: "topology_edge list \<Rightarrow> uuid \<Rightarrow> uuid option \<Rightarrow> uuid \<Rightarrow> uuid \<Rightarrow> bool" where
  "cheapest_hop edges source excluded destination f \<longleftrightarrow>
     (\<exists>h c. backbone_route edges source excluded h c destination f
        \<and> (\<forall>h' c' f'. backbone_route edges source excluded h' c' destination f' \<longrightarrow> c \<le> c'))"

lemma shortest_next_hop_cases:
  assumes "validate_topology t = Ok ()" and "source \<noteq> destination"
  obtains "shortest_next_hop t source destination excluded = Some None"
    "\<not> route_exists (rt_edges t) source excluded destination"
  | c f where "shortest_next_hop t source destination excluded = Some (Some (c, f))"
    "route_exists (rt_edges t) source excluded destination"
    "cheapest_hop (rt_edges t) source excluded destination f"
proof -
  obtain r where r: "shortest_next_hop t source destination excluded = Some r"
      "search_result (rt_edges t) source excluded destination r"
    using shortest_next_hop_correct [OF assms] by blast
  show ?thesis
  proof (cases r)
    case None
    then show ?thesis using r that(1) by (simp add: search_result_def route_exists_def)
  next
    case (Some cf)
    obtain c f where "cf = (c, f)" by (cases cf)
    then show ?thesis using r Some that(2) [of c f]
      unfolding search_result_def route_exists_def cheapest_hop_def by auto
  qed
qed

lemma excluded_first_hop: "backbone_route edges source (Some x) h c y f \<Longrightarrow> f \<noteq> x"
  by (induction rule: backbone_route.induct) auto

text \<open>(C11) Next hops.  On every topology that \<open>validate\<close> accepts the search ends and is exact.  A Relay
  gets no next hop for itself, and none for another Relay if no route of at most four hops leads
  there.  Otherwise it gets a primary hop, which begins a route of least cost among all such routes,
  and, exactly if some route begins with another Relay, a backup hop, which differs from the primary
  and begins a route of least cost among those.
\<close>

theorem next_hops_exact:
  assumes valid: "validate_topology t = Ok ()"
  shows "next_hops t source source = Some []
    \<and> (source \<noteq> destination \<and> \<not> route_exists (rt_edges t) source None destination \<longrightarrow>
        next_hops t source destination = Some [])
    \<and> (source \<noteq> destination \<and> route_exists (rt_edges t) source None destination \<longrightarrow>
        (\<exists>primary. cheapest_hop (rt_edges t) source None destination primary
          \<and> (\<not> route_exists (rt_edges t) source (Some primary) destination
               \<and> next_hops t source destination = Some [primary]
             \<or> (\<exists>backup. backup \<noteq> primary
                  \<and> cheapest_hop (rt_edges t) source (Some primary) destination backup
                  \<and> next_hops t source destination = Some [primary, backup]))))"
proof (cases "source = destination")
  case True
  then show ?thesis by (simp add: next_hops_def shortest_next_hop_def)
next
  case ne: False
  have self: "next_hops t source source = Some []" by (simp add: next_hops_def shortest_next_hop_def)
  from valid ne show ?thesis
  proof (cases rule: shortest_next_hop_cases [where excluded = None])
    case 1
    then show ?thesis using self by (simp add: next_hops_def)
  next
    case first: (2 c primary)
    from valid ne show ?thesis
    proof (cases rule: shortest_next_hop_cases [where excluded = "Some primary"])
      case 1
      then show ?thesis using first self by (auto simp: next_hops_def)
    next
      case (2 d backup)
      then have "backup \<noteq> primary" using excluded_first_hop unfolding cheapest_hop_def by blast
      then show ?thesis using first 2 self by (auto simp: next_hops_def)
    qed
  qed
qed

lemma next_hops_found:
  assumes "validate_topology t = Ok ()" and "within_hops (rt_edges t) 4 a b" and "a \<noteq> b"
  shows "\<exists>hops. next_hops t a b = Some hops \<and> hops \<noteq> []"
proof -
  have exists: "route_exists (rt_edges t) a None b"
    using within_route [OF assms(2,3)] by (simp add: route_exists_def)
  from assms(1,3) show ?thesis
  proof (cases rule: shortest_next_hop_cases [where excluded = None])
    case 1
    then show ?thesis using exists by simp
  next
    case first: (2 c primary)
    from assms(1,3) show ?thesis
      by (cases rule: shortest_next_hop_cases [where excluded = "Some primary"])
        (use first in \<open>simp_all add: next_hops_def\<close>)
  qed
qed

text \<open>The backbone.  A topology that Control builds, and every topology health samples turn it
  into, is one that \<open>validate\<close> accepts, over exactly the given nodes; any two of its Relays are
  joined by a path of at most four hops, in a full mesh by an edge, and the search gives each a next
  hop to the other; a sparse graph has at most ten edges per node.  Building never aborts, and it
  succeeds for up to 4096 well-formed nodes with distinct identifiers when the sparse graph is
  selected, and for up to 362 in full mesh.
\<close>

theorem topology_construction:
  shows "(topology_life nodes sparse t \<longrightarrow>
      validate_topology t = Ok () \<and> mset (rt_nodes t) = mset nodes
      \<and> rt_mode t = (if sparse then Sparse else FullMesh)
      \<and> (a \<in> relay_ids nodes \<and> b \<in> relay_ids nodes \<longrightarrow> within_hops (rt_edges t) 4 a b)
      \<and> (a \<in> relay_ids nodes \<and> b \<in> relay_ids nodes \<and> a \<noteq> b \<longrightarrow>
           (\<not> sparse \<longrightarrow> linked (rt_edges t) a b)
           \<and> (\<exists>hops. next_hops t a b = Some hops \<and> hops \<noteq> []))
      \<and> (sparse \<longrightarrow> length (rt_edges t) \<le> 10 * length nodes))
    \<and> build_topology mesh revision nodes threshold capability \<noteq> Abort
    \<and> (distinct (map tn_relay_id nodes) \<and> (\<forall>node \<in> set nodes. node_ok node) \<and> length nodes \<le> 4096
        \<and> (sparse_selected nodes threshold capability \<or> length nodes \<le> 362) \<longrightarrow>
        is_ok (build_topology mesh revision nodes threshold capability))"
proof -
  have "within_hops (rt_edges t) 4 a b \<and> (\<not> sparse \<and> a \<noteq> b \<longrightarrow> linked (rt_edges t) a b)"
    if life: "topology_life nodes sparse t" and ab: "a \<in> relay_ids nodes" "b \<in> relay_ids nodes"
  proof -
    obtain m r where same: "\<And>a b. linked (rt_edges t) a b = linked (rt_edges (built m r nodes sparse)) a b"
      using topology_life_facts [OF life] by blast
    have d: "distinct (map tn_relay_id nodes)" using topology_life_facts [OF life] by simp
    show ?thesis
      using ab built_edges(3,4) [OF d, where mesh = m and revision = r and sparse = sparse]
        within_hops_cong [OF same, of 4 a b] same by auto
  qed
  moreover have "build_topology mesh revision nodes threshold capability \<noteq> Abort"
    by (simp add: build_topology_eq and_then_Abort_iff validate_not_Abort)
  ultimately show ?thesis
    using topology_life_facts [of nodes sparse t] next_hops_found [of t a b]
      build_topology_Ok [of nodes threshold capability mesh revision]
    by auto
qed

section \<open>A concrete backbone\<close>

definition sample_relay :: "u8 \<Rightarrow> u8 \<Rightarrow> topology_node" where
  "sample_relay name region =
     \<lparr>tn_relay_id = replicate 16 name, tn_region = [region], tn_routing_weight = 100, tn_capabilities = 1\<rparr>"

definition sample_relays :: "topology_node list" where
  "sample_relays = [sample_relay 1 97, sample_relay 2 97, sample_relay 3 98]"

lemma sample_relays_ok:
  "distinct (map tn_relay_id sample_relays) \<and> (\<forall>node \<in> set sample_relays. node_ok node)
   \<and> length sample_relays \<le> 4096 \<and> sparse_selected sample_relays 2 1"
  by (simp add: sample_relays_def sample_relay_def node_ok_def region_byte_def sparse_selected_def)

theorem topology_construction_witness:
  "is_ok (build_topology (replicate 16 9) 5 sample_relays 2 1)
   \<and> (\<exists>t hops. topology_life sample_relays True t
        \<and> next_hops t (replicate 16 1) (replicate 16 3) = Some hops \<and> hops \<noteq> [])"
proof -
  have ok: "is_ok (build_topology (replicate 16 9) 5 sample_relays 2 1)"
    using topology_construction [of sample_relays True _ _ _ "replicate 16 9" 5 2 1] sample_relays_ok by blast
  then obtain t where t: "build_topology (replicate 16 9) 5 sample_relays 2 1 = Ok t"
    by (cases "build_topology (replicate 16 9) 5 sample_relays 2 1") auto
  have life: "topology_life sample_relays True t" using life_build [OF t] sample_relays_ok by simp
  have "replicate 16 1 \<in> relay_ids sample_relays" "replicate 16 3 \<in> relay_ids sample_relays"
    by (simp_all add: sample_relays_def sample_relay_def)
  then have "\<exists>hops. next_hops t (replicate 16 1) (replicate 16 3) = Some hops \<and> hops \<noteq> []"
    using topology_construction [of sample_relays True t "replicate 16 1" "replicate 16 3"] life by simp
  then show ?thesis using ok life by blast
qed

definition sample_topology :: relay_topology where
  "sample_topology =
     \<lparr>rt_mesh_id = replicate 16 9, rt_revision = 5, rt_mode = FullMesh,
      rt_nodes = [sample_relay 1 97, sample_relay 2 97],
      rt_edges = [Edge (replicate 16 1) (replicate 16 2) 20 0]\<rparr>"

lemma sample_order: "replicate 16 (1 :: u8) < replicate 16 2" "\<not> replicate 16 (2 :: u8) \<le> replicate 16 1"
  by (simp_all add: numeral_eq_Suc)

theorem next_hops_exact_witness:
  "validate_topology sample_topology = Ok ()
   \<and> next_hops sample_topology (replicate 16 1) (replicate 16 1) = Some []
   \<and> next_hops sample_topology (replicate 16 1) (replicate 16 2) = Some [replicate 16 2]"
proof -
  have valid: "validate_topology sample_topology = Ok ()"
    by (simp add: validate_Ok sample_topology_def sample_relay_def node_ok_def region_byte_def edge_ok_def
        default_backbone_rtt_millis_def default_backbone_loss_permyriad_def sample_order)
  have adj: "adjacency sample_topology =
      [(replicate 16 1, [(replicate 16 2, 20)]), (replicate 16 2, [(replicate 16 1, 20)])]"
    by (simp add: adjacency_def sample_topology_def push_entry_def routing_cost_def saturating_add_def
        saturating_mul_def u64_max_def sample_order less_imp_not_less)
  have "next_hops sample_topology (replicate 16 1) (replicate 16 2) = Some [replicate 16 2]"
    by (simp add: next_hops_def shortest_next_hop_def adj first_entries_def search_hops_Cons search_hops_Nil
        u64_max_def)
  then show ?thesis using next_hops_exact [OF valid, of "replicate 16 1"] valid by blast
qed

end
