(* ===== verification/TrustSet.thy ===== *)
theory TrustSet
  imports Credentials Fence "HOL-Library.Sublist"
begin

text \<open>
  The Root-anchored trust of a process (\<open>crates/peerward-credentials/src/bundle.rs\<close>, the
  \<open>TrustSet\<close> of \<open>subject.rs\<close>, \<open>terminal.rs\<close> and \<open>dynamic.rs\<close>): Authority bundles
  and their transport form, the trust set they replace atomically, revocations, the verification of
  subjects, distribution certificates and Mesh terminations against it.

  A \<open>BTreeSet\<close> of serials is an ascending list.  An operation that mutates the trust set returns
  the new one on success; on an error the caller keeps the old one, as in the code, where every
  check precedes the assignment.
\<close>

section \<open>Authority bundles\<close>

definition AUTHORITY_BUNDLE_DOMAIN :: bytes where
  "AUTHORITY_BUNDLE_DOMAIN = domain ''peerward/authority-bundle/v1''"

definition MAX_OVERLAP_AUTHORITIES :: nat where "MAX_OVERLAP_AUTHORITIES = 8"
definition MAX_REVOKED_AUTHORITIES :: nat where "MAX_REVOKED_AUTHORITIES = 65536"
definition AUTHORITY_CERTIFICATE_LENGTH :: nat where "AUTHORITY_CERTIFICATE_LENGTH = 144"

record authority_bundle =
  ab_mesh_id :: uuid
  ab_revision :: nat
  ab_active :: authority_certificate
  ab_overlap :: "authority_certificate list"
  ab_revoked :: "uuid list"

record signed_authority_bundle =
  sb_bundle :: authority_bundle
  sb_signature :: bytes

fun increasing_from :: "'a::linorder option \<Rightarrow> 'a list \<Rightarrow> bool" where
  "increasing_from previous [] = True"
| "increasing_from previous (item # items) =
     (if (case previous of None \<Rightarrow> False | Some old \<Rightarrow> item \<le> old) then False
      else increasing_from (Some item) items)"

definition strictly_increasing :: "'a::linorder list \<Rightarrow> bool" where
  "strictly_increasing items = increasing_from None items"

definition validate_shape :: "authority_bundle \<Rightarrow> (unit, credential_error) outcome" where
  "validate_shape b =
     (if ac_mesh_id (ab_active b) \<noteq> ab_mesh_id b
         \<or> MAX_OVERLAP_AUTHORITIES < length (ab_overlap b)
         \<or> MAX_REVOKED_AUTHORITIES < length (ab_revoked b)
         \<or> list_ex (\<lambda>certificate. ac_mesh_id certificate \<noteq> ab_mesh_id b) (ab_overlap b)
         \<or> \<not> strictly_increasing (map ac_serial (ab_overlap b))
         \<or> \<not> strictly_increasing (ab_revoked b)
         \<or> list_ex (\<lambda>certificate. ac_serial certificate = ac_serial (ab_active b)) (ab_overlap b)
         \<or> ac_serial (ab_active b) \<in> set (ab_revoked b)
         \<or> list_ex (\<lambda>certificate. ac_serial certificate \<in> set (ab_revoked b)) (ab_overlap b)
      then Err Credential_NonCanonical else Ok ())"

text \<open>\<open>u32::try_from(n).map_err(..)?\<close> and \<open>u32::try_from(n).expect(..)\<close>\<close>

definition count_u32 :: "nat \<Rightarrow> (nat, credential_error) outcome" where
  "count_u32 n = (if n \<le> u32_max then Ok n else Err Credential_NonCanonical)"

definition put_count :: "nat \<Rightarrow> (bytes, 'e) outcome" where
  "put_count n = (if n \<le> u32_max then Ok (to_be 4 n) else Abort)"

definition bundle_encode :: "signed_authority_bundle \<Rightarrow> (bytes, credential_error) outcome" where
  "bundle_encode sealed = (let b = sb_bundle sealed in
     and_then (validate_shape b) (\<lambda>_.
     and_then (count_u32 (length (ab_overlap b))) (\<lambda>overlap_count.
     and_then (count_u32 (length (ab_revoked b))) (\<lambda>revoked_count.
     Ok (ab_mesh_id b @ to_be 8 (ab_revision b) @ authority_encode (ab_active b)
         @ to_be 4 overlap_count @ concat (map authority_encode (ab_overlap b))
         @ to_be 4 revoked_count @ concat (ab_revoked b) @ sb_signature sealed)))))"

definition take_count :: "bytes \<Rightarrow> nat \<Rightarrow> nat \<Rightarrow> (nat \<times> nat, credential_error) outcome" where
  "take_count bs cursor maximum =
     and_then (ok_or Credential_Malformed (checked_add cursor 4)) (\<lambda>stop.
     and_then (ok_or Credential_Malformed (get_range bs cursor stop)) (\<lambda>raw.
     let count = of_be raw in
     if maximum < count then Err Credential_NonCanonical else Ok (count, stop)))"

definition checked_mul :: "nat \<Rightarrow> nat \<Rightarrow> nat option" where
  "checked_mul a b = (if a * b \<le> u64_max then Some (a * b) else None)"

text \<open>\<open>slice::chunks_exact\<close>, for a positive size, and collecting results up to the first error\<close>

function chunks_exact :: "nat \<Rightarrow> bytes \<Rightarrow> bytes list" where
  "chunks_exact n bs = (if n = 0 \<or> length bs < n then [] else take n bs # chunks_exact n (drop n bs))"
  by pat_completeness auto
termination by (relation "measure (\<lambda>(n, bs). length bs)") auto

declare chunks_exact.simps [simp del]

fun collect_results :: "('a \<Rightarrow> ('b, 'e) outcome) \<Rightarrow> 'a list \<Rightarrow> ('b list, 'e) outcome" where
  "collect_results f [] = Ok []"
| "collect_results f (x # xs) =
     and_then (f x) (\<lambda>y. and_then (collect_results f xs) (\<lambda>ys. Ok (y # ys)))"

definition bundle_decode :: "crypto_env \<Rightarrow> bytes \<Rightarrow> (signed_authority_bundle, credential_error) outcome" where
  "bundle_decode env bs =
     (let minimum = 16 + 8 + AUTHORITY_CERTIFICATE_LENGTH + 4 + 4 + 64 in
      if length bs < minimum then Err Credential_Malformed
      else slice_at bs 0 16 (\<lambda>mesh. and_then (credential_uuid env mesh) (\<lambda>mesh_id.
        slice_at bs 16 24 (\<lambda>revision.
        let active_end = 24 + AUTHORITY_CERTIFICATE_LENGTH in
        slice_at bs 24 active_end (\<lambda>active_bytes.
        and_then (authority_decode env active_bytes) (\<lambda>active.
        and_then (take_count bs active_end MAX_OVERLAP_AUTHORITIES) (\<lambda>(overlap_count, cursor).
        and_then (ok_or Credential_Malformed (checked_mul overlap_count AUTHORITY_CERTIFICATE_LENGTH)) (\<lambda>overlap_bytes.
        and_then (ok_or Credential_Malformed (checked_add cursor overlap_bytes)) (\<lambda>overlap_end.
        if length bs < overlap_end then Err Credential_Malformed
        else slice_at bs cursor overlap_end (\<lambda>overlap_slice.
        and_then (collect_results (authority_decode env)
          (chunks_exact AUTHORITY_CERTIFICATE_LENGTH overlap_slice)) (\<lambda>overlap.
        and_then (take_count bs overlap_end MAX_REVOKED_AUTHORITIES) (\<lambda>(revoked_count, cursor).
        and_then (ok_or Credential_Malformed (checked_mul revoked_count 16)) (\<lambda>revoked_bytes.
        and_then (ok_or Credential_Malformed (checked_add cursor revoked_bytes)) (\<lambda>revoked_end.
        and_then (ok_or Credential_Malformed (checked_add revoked_end 64)) (\<lambda>signature_end.
        if signature_end \<noteq> length bs then Err Credential_Malformed
        else slice_at bs cursor revoked_end (\<lambda>revoked_slice.
        and_then (collect_results (credential_uuid env) (chunks_exact 16 revoked_slice)) (\<lambda>revoked.
        slice_at bs revoked_end signature_end (\<lambda>signature.
        let sealed = \<lparr>sb_bundle = \<lparr>ab_mesh_id = mesh_id, ab_revision = of_be revision, ab_active = active,
                         ab_overlap = overlap, ab_revoked = revoked\<rparr>, sb_signature = signature\<rparr>
        in and_then (validate_shape (sb_bundle sealed)) (\<lambda>_. Ok sealed)))))))))))))))))))"

definition authority_bundle_transcript :: "authority_bundle \<Rightarrow> (bytes, 'e) outcome" where
  "authority_bundle_transcript b =
     and_then (put_count (length (ab_overlap b))) (\<lambda>overlap_count.
     and_then (put_count (length (ab_revoked b))) (\<lambda>revoked_count.
     Ok (AUTHORITY_BUNDLE_DOMAIN @ ab_mesh_id b @ to_be 8 (ab_revision b) @ authority_encode (ab_active b)
         @ overlap_count @ concat (map authority_encode (ab_overlap b))
         @ revoked_count @ concat (ab_revoked b))))"

definition sign_authority_bundle ::
  "crypto_env \<Rightarrow> bytes \<Rightarrow> uuid \<Rightarrow> nat \<Rightarrow> authority_certificate \<Rightarrow> authority_certificate list \<Rightarrow> uuid list
    \<Rightarrow> (signed_authority_bundle, credential_error) outcome" where
  "sign_authority_bundle env seed mesh_id revision active overlap revoked =
     (if ac_mesh_id active \<noteq> mesh_id \<or> ac_public_key active \<noteq> cy_public env seed
      then Err Credential_WrongMesh
      else let b = \<lparr>ab_mesh_id = mesh_id, ab_revision = revision, ab_active = active,
                   ab_overlap = sort_key ac_serial overlap, ab_revoked = sort revoked\<rparr>
        in and_then (validate_shape b) (\<lambda>_.
           and_then (authority_bundle_transcript b) (\<lambda>transcript.
           Ok \<lparr>sb_bundle = b, sb_signature = cy_sign env seed transcript\<rparr>)))"

section \<open>The trust set\<close>

record trust_set =
  ts_root :: bytes
  ts_mesh_id :: uuid
  ts_authorities :: "authority_certificate list"
  ts_revoked_authority_serials :: "uuid list"
  ts_revoked_subject_serials :: "uuid list"
  ts_authority_revision :: "nat option"
  ts_authority_revision_resumed :: bool

definition trust_new :: "bytes \<Rightarrow> uuid \<Rightarrow> trust_set" where
  "trust_new root mesh_id =
     \<lparr>ts_root = root, ts_mesh_id = mesh_id, ts_authorities = [], ts_revoked_authority_serials = [],
      ts_revoked_subject_serials = [], ts_authority_revision = None, ts_authority_revision_resumed = False\<rparr>"

definition resume_authority_revision :: "nat \<Rightarrow> trust_set \<Rightarrow> (trust_set, credential_error) outcome" where
  "resume_authority_revision revision t =
     (if revision = 0 \<or> ts_authority_revision t \<noteq> None \<or> ts_authorities t = []
      then Err Credential_NonCanonical
      else Ok (t\<lparr>ts_authority_revision := Some revision, ts_authority_revision_resumed := True\<rparr>))"

definition add_authority ::
  "crypto_env \<Rightarrow> authority_certificate \<Rightarrow> unix_time \<Rightarrow> trust_set \<Rightarrow> (trust_set, credential_error) outcome" where
  "add_authority env certificate now t =
     and_then (verify_authority env (ts_root t) certificate (ts_mesh_id t) now) (\<lambda>_.
     Ok (t\<lparr>ts_authorities := ts_authorities t @ [certificate]\<rparr>))"

definition revoke_subject :: "uuid \<Rightarrow> trust_set \<Rightarrow> trust_set" where
  "revoke_subject serial t =
     t\<lparr>ts_revoked_subject_serials := bset_insert serial (ts_revoked_subject_serials t)\<rparr>"

definition revoke_authority :: "uuid \<Rightarrow> trust_set \<Rightarrow> trust_set" where
  "revoke_authority serial t =
     t\<lparr>ts_revoked_authority_serials := bset_insert serial (ts_revoked_authority_serials t)\<rparr>"

definition verify_distribution ::
  "crypto_env \<Rightarrow> trust_set \<Rightarrow> distribution_certificate \<Rightarrow> unix_time \<Rightarrow> (unit, credential_error) outcome" where
  "verify_distribution env t certificate now =
     (if dc_mesh_id certificate \<noteq> ts_mesh_id t then Err Credential_WrongMesh
      else and_then (ok_or Credential_InvalidSignature
          (find (\<lambda>authority. ac_public_key authority = dc_authority_public_key certificate) (ts_authorities t))) (\<lambda>authority.
        if ac_serial authority \<in> set (ts_revoked_authority_serials t) then Err Credential_Revoked
        else and_then (validate_time (ac_not_before authority) (ac_not_after authority) now) (\<lambda>_.
          check_signature env Credential_InvalidSignature (dc_authority_public_key certificate)
            (distribution_transcript certificate) (dc_signature certificate))))"

text \<open>The loop of \<open>subject_valid_until\<close> over the authorities\<close>

fun latest_until ::
  "crypto_env \<Rightarrow> trust_set \<Rightarrow> subject_credential \<Rightarrow> unix_time \<Rightarrow> authority_certificate list
    \<Rightarrow> unix_time option \<Rightarrow> unix_time option" where
  "latest_until env t c now [] valid_until = valid_until"
| "latest_until env t c now (authority # authorities) valid_until =
     latest_until env t c now authorities
       (if ac_serial authority \<in> set (ts_revoked_authority_serials t) then valid_until
        else if \<not> is_ok (verify_authority env (ts_root t) authority (ts_mesh_id t) now) then valid_until
        else if is_ok (verify_with_authority env c (ac_public_key authority) now)
        then (let until = min (sc_not_after c) (ac_not_after authority) in
              Some (case valid_until of None \<Rightarrow> until | Some previous \<Rightarrow> max previous until))
        else valid_until)"

definition subject_valid_until ::
  "crypto_env \<Rightarrow> trust_set \<Rightarrow> subject_credential \<Rightarrow> unix_time \<Rightarrow> (unix_time, credential_error) outcome" where
  "subject_valid_until env t c now =
     (if sc_mesh_id c \<noteq> ts_mesh_id t then Err Credential_WrongMesh
      else if sc_role c \<noteq> subject_id_role (sc_subject c) then Err Credential_InvalidSignature
      else if sc_serial c \<in> set (ts_revoked_subject_serials t) then Err Credential_Revoked
      else ok_or Credential_InvalidSignature (latest_until env t c now (ts_authorities t) None))"

definition verify_subject ::
  "crypto_env \<Rightarrow> trust_set \<Rightarrow> subject_credential \<Rightarrow> unix_time \<Rightarrow> (unit, credential_error) outcome" where
  "verify_subject env t c now = and_then (subject_valid_until env t c now) (\<lambda>_. Ok ())"

section \<open>Installing bundles\<close>

fun verify_authorities ::
  "crypto_env \<Rightarrow> bytes \<Rightarrow> uuid \<Rightarrow> unix_time \<Rightarrow> authority_certificate list \<Rightarrow> (unit, credential_error) outcome" where
  "verify_authorities env root mesh_id now [] = Ok ()"
| "verify_authorities env root mesh_id now (certificate # certificates) =
     and_then (verify_authority env root certificate mesh_id now) (\<lambda>_.
       verify_authorities env root mesh_id now certificates)"

definition bset_extend :: "'a::linorder list \<Rightarrow> 'a list \<Rightarrow> 'a list" where
  "bset_extend items s = fold bset_insert items s"

definition verify_authority_bundle ::
  "crypto_env \<Rightarrow> bytes \<Rightarrow> signed_authority_bundle \<Rightarrow> uuid \<Rightarrow> nat option \<Rightarrow> unix_time
    \<Rightarrow> (trust_set, credential_error) outcome" where
  "verify_authority_bundle env root sealed mesh_id accepted_revision now = (let b = sb_bundle sealed in
     and_then (validate_shape b) (\<lambda>_.
     if ab_mesh_id b \<noteq> mesh_id then Err Credential_WrongMesh
     else if (case accepted_revision of None \<Rightarrow> False | Some accepted \<Rightarrow> ab_revision b \<le> accepted)
     then Err Credential_Rollback
     else and_then (verify_authority env root (ab_active b) mesh_id now) (\<lambda>_.
       and_then (verify_authorities env root mesh_id now (ab_overlap b)) (\<lambda>_.
       if \<not> cy_valid_key env (ac_public_key (ab_active b)) then Err Credential_InvalidSignature
       else and_then (authority_bundle_transcript b) (\<lambda>transcript.
       if \<not> cy_verify env (ac_public_key (ab_active b)) transcript (sb_signature sealed)
       then Err Credential_InvalidSignature
       else Ok ((trust_new root mesh_id)
         \<lparr>ts_authority_revision := Some (ab_revision b),
          ts_authorities := [ab_active b] @ ab_overlap b,
          ts_revoked_authority_serials := bset_extend (ab_revoked b) []\<rparr>))))))"

definition install_replacement :: "trust_set \<Rightarrow> trust_set \<Rightarrow> (trust_set, credential_error) outcome" where
  "install_replacement t replacement =
     (if list_ex (\<lambda>certificate. ac_serial certificate \<in> set (ts_revoked_authority_serials t)) (ts_authorities replacement)
      then Err Credential_Revoked
      else Ok (replacement
        \<lparr>ts_revoked_authority_serials :=
           bset_extend (ts_revoked_authority_serials t) (ts_revoked_authority_serials replacement),
         ts_revoked_subject_serials := ts_revoked_subject_serials t\<rparr>))"

definition install_authority_bundle ::
  "crypto_env \<Rightarrow> signed_authority_bundle \<Rightarrow> unix_time \<Rightarrow> trust_set \<Rightarrow> (trust_set, credential_error) outcome" where
  "install_authority_bundle env sealed now t =
     and_then (verify_authority_bundle env (ts_root t) sealed (ts_mesh_id t) (ts_authority_revision t) now)
       (install_replacement t)"

definition install_authority_bundle_after_resume ::
  "crypto_env \<Rightarrow> signed_authority_bundle \<Rightarrow> unix_time \<Rightarrow> trust_set \<Rightarrow> (trust_set, credential_error) outcome" where
  "install_authority_bundle_after_resume env sealed now t =
     (if \<not> ts_authority_revision_resumed t \<or> ts_authority_revision t \<noteq> Some (ab_revision (sb_bundle sealed))
      then install_authority_bundle env sealed now t
      else and_then (verify_authority_bundle env (ts_root t) sealed (ts_mesh_id t) None now) (\<lambda>replacement.
        if ts_authorities replacement \<noteq> ts_authorities t then Err Credential_Rollback
        else install_replacement t replacement))"

section \<open>Trust shared by sessions\<close>

text \<open>A \<open>RwLock\<close> is poisoned when a writer panicked; every later access then fails.\<close>

datatype dynamic_trust = Guarded trust_set | Poisoned

definition dynamic_new :: "trust_set \<Rightarrow> dynamic_trust" where
  "dynamic_new t = Guarded t"

fun dynamic_read :: "dynamic_trust \<Rightarrow> (trust_set \<Rightarrow> ('a, credential_error) outcome) \<Rightarrow> ('a, credential_error) outcome" where
  "dynamic_read (Guarded t) f = f t"
| "dynamic_read Poisoned f = Err Credential_InvalidSignature"

definition dynamic_verify_subject ::
  "crypto_env \<Rightarrow> dynamic_trust \<Rightarrow> subject_credential \<Rightarrow> unix_time \<Rightarrow> (unit, credential_error) outcome" where
  "dynamic_verify_subject env d c now = dynamic_read d (\<lambda>t. verify_subject env t c now)"

definition dynamic_verify_distribution ::
  "crypto_env \<Rightarrow> dynamic_trust \<Rightarrow> distribution_certificate \<Rightarrow> unix_time \<Rightarrow> (unit, credential_error) outcome" where
  "dynamic_verify_distribution env d certificate now =
     dynamic_read d (\<lambda>t. verify_distribution env t certificate now)"

definition dynamic_install_authority_bundle ::
  "crypto_env \<Rightarrow> signed_authority_bundle \<Rightarrow> unix_time \<Rightarrow> dynamic_trust
    \<Rightarrow> dynamic_trust \<times> (unit, credential_error) outcome" where
  "dynamic_install_authority_bundle env sealed now d =
     (case d of Poisoned \<Rightarrow> (Poisoned, Err Credential_InvalidSignature)
      | Guarded t \<Rightarrow> (case install_authority_bundle env sealed now t of
            Ok t' \<Rightarrow> (Guarded t', Ok ()) | Err e \<Rightarrow> (Guarded t, Err e) | Abort \<Rightarrow> (Poisoned, Abort)))"

definition dynamic_revoke_subject ::
  "uuid \<Rightarrow> dynamic_trust \<Rightarrow> dynamic_trust \<times> (unit, credential_error) outcome" where
  "dynamic_revoke_subject serial d =
     (case d of Poisoned \<Rightarrow> (Poisoned, Err Credential_InvalidSignature)
      | Guarded t \<Rightarrow> (Guarded (revoke_subject serial t), Ok ()))"

definition dynamic_authority_revision :: "dynamic_trust \<Rightarrow> (nat option, credential_error) outcome" where
  "dynamic_authority_revision d = dynamic_read d (\<lambda>t. Ok (ts_authority_revision t))"

definition dynamic_snapshot :: "dynamic_trust \<Rightarrow> (trust_set, credential_error) outcome" where
  "dynamic_snapshot d = dynamic_read d Ok"

section \<open>Mesh termination\<close>

definition TERMINATION_DOMAIN :: bytes where
  "TERMINATION_DOMAIN = domain ''peerward/mesh-termination/v1''"

record mesh_termination =
  mt_revision :: nat
  mt_terminated_at :: unix_time
  mt_authority :: authority_certificate
  mt_signature :: bytes

definition termination_transcript :: "mesh_termination \<Rightarrow> bytes" where
  "termination_transcript m =
     TERMINATION_DOMAIN @ to_be 8 (mt_revision m) @ to_be 8 (mt_terminated_at m)
     @ authority_encode (mt_authority m)"

definition terminate_mesh ::
  "crypto_env \<Rightarrow> bytes \<Rightarrow> authority_certificate \<Rightarrow> nat \<Rightarrow> unix_time \<Rightarrow> (mesh_termination, credential_error) outcome" where
  "terminate_mesh env seed authority revision now =
     (if revision = 0 \<or> ac_public_key authority \<noteq> cy_public env seed then Err Credential_InvalidKey
      else and_then (validate_time (ac_not_before authority) (ac_not_after authority) now) (\<lambda>_.
        let terminal = \<lparr>mt_revision = revision, mt_terminated_at = now, mt_authority = authority,
                       mt_signature = replicate 64 0\<rparr>
        in Ok (terminal\<lparr>mt_signature := cy_sign env seed (termination_transcript terminal)\<rparr>)))"

definition termination_verify ::
  "crypto_env \<Rightarrow> bytes \<Rightarrow> uuid \<Rightarrow> nat \<Rightarrow> unix_time \<Rightarrow> mesh_termination \<Rightarrow> (unit, credential_error) outcome" where
  "termination_verify env root mesh previous_revision now m =
     (if mt_revision m = 0 \<or> mt_revision m \<le> previous_revision then Err Credential_Rollback
      else if saturating_add now 60 < mt_terminated_at m then Err Credential_OutsideValidity
      else and_then (verify_authority env root (mt_authority m) mesh (mt_terminated_at m)) (\<lambda>_.
        if \<not> cy_valid_key env (ac_public_key (mt_authority m)) then Err Credential_InvalidKey
        else if cy_verify_strict env (ac_public_key (mt_authority m)) (termination_transcript m) (mt_signature m)
        then Ok () else Err Credential_InvalidSignature))"

definition verify_termination ::
  "crypto_env \<Rightarrow> trust_set \<Rightarrow> mesh_termination \<Rightarrow> nat \<Rightarrow> unix_time \<Rightarrow> (unit, credential_error) outcome" where
  "verify_termination env t terminal previous_revision now =
     (if ac_serial (mt_authority terminal) \<in> set (ts_revoked_authority_serials t) then Err Credential_Revoked
      else termination_verify env (ts_root t) (ts_mesh_id t) previous_revision now terminal)"

definition PWM1 :: bytes where
  "PWM1 = map (\<lambda>c. word_of_nat (of_char c)) ''PWM1''"

definition termination_encode :: "mesh_termination \<Rightarrow> bytes" where
  "termination_encode m =
     PWM1 @ to_be 8 (mt_revision m) @ to_be 8 (mt_terminated_at m) @ authority_encode (mt_authority m)
     @ mt_signature m"

definition termination_decode :: "crypto_env \<Rightarrow> bytes \<Rightarrow> (mesh_termination, credential_error) outcome" where
  "termination_decode env bs =
     (if length bs \<noteq> 228 then Err Credential_Malformed
      else slice_at bs 0 4 (\<lambda>magic. if magic \<noteq> PWM1 then Err Credential_Malformed
      else slice_at bs 4 12 (\<lambda>revision.
        slice_at bs 12 20 (\<lambda>terminated_at.
        slice_at bs 20 164 (\<lambda>authority_bytes. and_then (authority_decode env authority_bytes) (\<lambda>authority.
        slice_from bs 164 (\<lambda>signature.
        Ok \<lparr>mt_revision = of_be revision, mt_terminated_at = of_be terminated_at, mt_authority = authority,
            mt_signature = signature\<rparr>)))))))"

section \<open>Bundles on the wire\<close>

lemma strictly_increasing_iff: "strictly_increasing xs \<longleftrightarrow> ascending xs"
proof -
  have "increasing_from (Some x) ys \<longleftrightarrow> ascending (x # ys)" for x and ys :: "'a list"
    by (induction ys arbitrary: x) auto
  then show ?thesis by (cases xs) (simp_all add: strictly_increasing_def)
qed

lemma collect_results_iff: "collect_results f xs = Ok ys \<longleftrightarrow> list_all2 (\<lambda>x y. f x = Ok y) xs ys"
  by (induction xs arbitrary: ys) (auto simp: and_then_Ok_iff list_all2_Cons1)

lemma collect_results_total: "(\<And>x. f x \<noteq> Abort) \<Longrightarrow> collect_results f xs \<noteq> Abort"
  by (induction xs) (auto simp: and_then_Abort_iff)

text \<open>Decoding a run of fixed-size fields inverts the concatenation of their encodings.\<close>

lemma collect_chunks_iff:
  assumes exact: "\<And>x y. f x = Ok y \<longleftrightarrow> enc y = x \<and> ok y" and size: "\<And>y. ok y \<Longrightarrow> length (enc y) = n"
    and "0 < n" "length bs = k * n"
  shows "collect_results f (chunks_exact n bs) = Ok ys \<longleftrightarrow>
    concat (map enc ys) = bs \<and> list_all ok ys \<and> length ys = k"
  using assms(4)
proof (induction k arbitrary: bs ys)
  case 0
  then show ?case using assms(3) by (auto simp: chunks_exact.simps [of n "[]"])
next
  case (Suc k)
  have chunks: "chunks_exact n bs = take n bs # chunks_exact n (drop n bs)"
    using Suc.prems assms(3) by (simp add: chunks_exact.simps [of n bs])
  have IH: "collect_results f (chunks_exact n (drop n bs)) = Ok zs \<longleftrightarrow>
      concat (map enc zs) = drop n bs \<and> list_all ok zs \<and> length zs = k" for zs
    using Suc.prems by (intro Suc.IH) simp
  have split: "enc y @ r = bs \<longleftrightarrow> enc y = take n bs \<and> r = drop n bs" if "ok y" for y r
    using size [OF that] Suc.prems by (auto simp: append_eq_conv_conj)
  show ?case
    by (cases ys) (auto simp: chunks and_then_Ok_iff IH exact split size)
qed

definition bundle_typed :: "crypto_env \<Rightarrow> signed_authority_bundle \<Rightarrow> bool" where
  "bundle_typed env s \<longleftrightarrow> (let b = sb_bundle s in
     length (ab_mesh_id b) = 16 \<and> cy_uuid_v4 env (ab_mesh_id b) \<and> ab_revision b \<le> u64_max
     \<and> list_all (\<lambda>a. authority_typed a \<and> authority_sound env a) (ab_active b # ab_overlap b)
     \<and> list_all (\<lambda>u. length u = 16 \<and> cy_uuid_v4 env u) (ab_revoked b) \<and> length (sb_signature s) = 64)"

lemma authority_fields_iff:
  "length bs = k * 144 \<Longrightarrow> collect_results (authority_decode env) (chunks_exact 144 bs) = Ok ys \<longleftrightarrow>
    concat (map authority_encode ys) = bs \<and> list_all (\<lambda>a. authority_typed a \<and> authority_sound env a) ys \<and> length ys = k"
  by (rule collect_chunks_iff) (auto simp: authority_decode_iff length_authority_encode)

lemma serial_fields_iff:
  "length bs = k * 16 \<Longrightarrow> collect_results (credential_uuid env) (chunks_exact 16 bs) = Ok ys \<longleftrightarrow>
    concat ys = bs \<and> list_all (\<lambda>u. length u = 16 \<and> cy_uuid_v4 env u) ys \<and> length ys = k"
  using collect_chunks_iff [of "credential_uuid env" "\<lambda>u. u" "\<lambda>u. length u = 16 \<and> cy_uuid_v4 env u" 16 bs k ys]
  by (auto simp: credential_uuid_iff)

lemma validate_shape_iff:
  "validate_shape b = Ok u \<longleftrightarrow>
     ac_mesh_id (ab_active b) = ab_mesh_id b \<and> length (ab_overlap b) \<le> 8 \<and> length (ab_revoked b) \<le> 65536
     \<and> (\<forall>a\<in>set (ab_overlap b). ac_mesh_id a = ab_mesh_id b) \<and> ascending (map ac_serial (ab_overlap b))
     \<and> ascending (ab_revoked b) \<and> ac_serial (ab_active b) \<notin> ac_serial ` set (ab_overlap b)
     \<and> ac_serial ` set (ab_active b # ab_overlap b) \<inter> set (ab_revoked b) = {}"
  by (auto simp: validate_shape_def strictly_increasing_iff MAX_OVERLAP_AUTHORITIES_def
      MAX_REVOKED_AUTHORITIES_def list_ex_iff intro: rev_image_eqI)

lemma validate_shape_total [simp]: "validate_shape b \<noteq> Abort"
  by (simp add: validate_shape_def)

text \<open>The body of a bundle, cut at the offsets its counts give\<close>

lemma bundle_decode_parts:
  assumes bs: "bs = m @ r @ a @ n @ v @ k @ w @ g"
    and len: "length m = 16" "length r = 8" "length a = 144" "length n = 4" "length v = of_be n * 144"
      "length k = 4" "length w = of_be k * 16" "length g = 64"
    and count: "of_be n \<le> 8" "of_be k \<le> 65536"
  shows "bundle_decode env bs = Ok s \<longleftrightarrow>
    credential_uuid env m = Ok (ab_mesh_id (sb_bundle s)) \<and> of_be r = ab_revision (sb_bundle s)
    \<and> authority_decode env a = Ok (ab_active (sb_bundle s))
    \<and> collect_results (authority_decode env) (chunks_exact 144 v) = Ok (ab_overlap (sb_bundle s))
    \<and> collect_results (credential_uuid env) (chunks_exact 16 w) = Ok (ab_revoked (sb_bundle s))
    \<and> g = sb_signature s \<and> validate_shape (sb_bundle s) = Ok ()"
proof -
  have first: "take_count bs 168 8 = Ok (of_be n, 172)"
    using bs len count by (simp add: take_count_def checked_add_def u64_max_def get_range_def)
  have second: "take_count bs (172 + of_be n * 144) 65536 = Ok (of_be k, 176 + of_be n * 144)"
    using bs len count by (simp add: take_count_def checked_add_def u64_max_def get_range_def)
  have parts: "take 16 bs = m" "take 8 (drop 16 bs) = r" "take 144 (drop 24 bs) = a"
      "take (of_be n * 144) (drop 172 bs) = v" "take (of_be k * 16) (drop (176 + of_be n * 144) bs) = w"
      "drop (of_be k * 16 + (176 + of_be n * 144)) bs = g"
      "length bs = 240 + of_be n * 144 + of_be k * 16"
    using bs len by simp_all
  show ?thesis
    using count len(8)
    by (cases s; cases "sb_bundle s")
      (auto simp: bundle_decode_def Let_def AUTHORITY_CERTIFICATE_LENGTH_def MAX_OVERLAP_AUTHORITIES_def
        MAX_REVOKED_AUTHORITIES_def slice_simps and_then_Ok_iff first second checked_mul_def checked_add_def
        u64_max_def parts algebra_simps)
qed

lemma bundle_decode_split:
  assumes "bundle_decode env bs = Ok s"
  shows "\<exists>m r a n v k w g. bs = m @ r @ a @ n @ v @ k @ w @ g \<and> length m = 16 \<and> length r = 8
    \<and> length a = 144 \<and> length n = 4 \<and> length v = of_be n * 144 \<and> length k = 4 \<and> length w = of_be k * 16
    \<and> length g = 64 \<and> of_be n \<le> 8 \<and> of_be k \<le> 65536"
proof -
  obtain n c1 k c2 where min: "240 \<le> length bs" and n: "take_count bs 168 8 = Ok (n, c1)"
      and k: "take_count bs (c1 + n * 144) 65536 = Ok (k, c2)" and all: "length bs = c2 + k * 16 + 64"
    using assms
    by (auto simp: bundle_decode_def Let_def AUTHORITY_CERTIFICATE_LENGTH_def MAX_OVERLAP_AUTHORITIES_def
        MAX_REVOKED_AUTHORITIES_def and_then_Ok_iff slice_simps checked_mul_def checked_add_def split: if_splits)
  have n': "n = of_be (take 4 (drop 168 bs))" "n \<le> 8" "c1 = 172"
    using n by (auto simp: take_count_def and_then_Ok_iff checked_add_def get_range_def Let_def split: if_splits)
  have k': "k = of_be (take 4 (drop (172 + n * 144) bs))" "k \<le> 65536" "c2 = 176 + n * 144" "c2 \<le> length bs"
    using k n' by (auto simp: take_count_def and_then_Ok_iff checked_add_def get_range_def Let_def split: if_splits)
  let ?ns = "[16, 8, 144, 4, n * 144, 4, k * 16, 64]"
  have cut: "concat (fields_of ?ns bs) = bs" using all k'(3) by (intro concat_fields_of) simp
  have offsets: "4 + (n * 144 + 172) = 176 + n * 144" "n * 144 + 172 = 172 + n * 144"
      "k * 16 + (176 + n * 144) = 176 + n * 144 + k * 16" by simp_all
  have "bs = take 16 bs @ take 8 (drop 16 bs) @ take 144 (drop 24 bs) @ take 4 (drop 168 bs)
      @ take (n * 144) (drop 172 bs) @ take 4 (drop (172 + n * 144) bs)
      @ take (k * 16) (drop (176 + n * 144) bs) @ take 64 (drop (176 + n * 144 + k * 16) bs)"
    using cut [symmetric] by (simp add: offsets)
  moreover have "length (take (n * 144) (drop 172 bs)) = of_be (take 4 (drop 168 bs)) * 144"
      "length (take (k * 16) (drop (176 + n * 144) bs)) = of_be (take 4 (drop (172 + n * 144) bs)) * 16"
    unfolding n'(1) [symmetric] k'(1) [symmetric] using all k'(3) by simp_all
  moreover have "of_be (take 4 (drop 168 bs)) \<le> 8" "of_be (take 4 (drop (172 + n * 144) bs)) \<le> 65536"
    unfolding n'(1) [symmetric] k'(1) [symmetric] using n'(2) k'(2) .
  moreover have "length (take 16 bs) = 16" "length (take 8 (drop 16 bs)) = 8" "length (take 144 (drop 24 bs)) = 144"
      "length (take 4 (drop 168 bs)) = 4" "length (take 4 (drop (172 + n * 144) bs)) = 4"
      "length (take 64 (drop (176 + n * 144 + k * 16) bs)) = 64"
    using min all k'(3) by simp_all
  ultimately show ?thesis by blast
qed

lemma bundle_decode_iff:
  "bundle_decode env bs = Ok s \<longleftrightarrow> bundle_encode s = Ok bs \<and> bundle_typed env s"
proof
  assume dec: "bundle_decode env bs = Ok s"
  obtain m r a n v k w g where bs: "bs = m @ r @ a @ n @ v @ k @ w @ g"
      and len: "length m = 16" "length r = 8" "length a = 144" "length n = 4" "length v = of_be n * 144"
        "length k = 4" "length w = of_be k * 16" "length g = 64"
      and count: "of_be n \<le> 8" "of_be k \<le> 65536"
    using bundle_decode_split [OF dec] by blast
  note parts = dec [unfolded bundle_decode_parts [OF bs len count] authority_fields_iff [OF len(5)]
      serial_fields_iff [OF len(7)] credential_uuid_iff authority_decode_iff]
  have counts: "to_be 4 (of_be n) = n" "to_be 4 (of_be k) = k"
    using to_be_of_be [of n] to_be_of_be [of k] len by simp_all
  have "count_u32 (of_be n) = Ok (of_be n)" "count_u32 (of_be k) = Ok (of_be k)"
    using count by (simp_all add: count_u32_def u32_max_def)
  then show "bundle_encode s = Ok bs \<and> bundle_typed env s"
    using parts len counts u64_of_be [OF len(2)] u64_bytes [OF len(2)]
    by (auto simp: bundle_encode_def bundle_typed_def Let_def bs)
next
  assume enc: "bundle_encode s = Ok bs \<and> bundle_typed env s"
  let ?b = "sb_bundle s"
  have shape: "validate_shape ?b = Ok ()" using enc by (auto simp: bundle_encode_def and_then_Ok_iff Let_def)
  have max: "length (ab_overlap ?b) \<le> 8" "length (ab_revoked ?b) \<le> 65536"
    using shape by (simp_all add: validate_shape_iff)
  have u32: "of_be (to_be 4 (length (ab_overlap ?b))) = length (ab_overlap ?b)"
      "of_be (to_be 4 (length (ab_revoked ?b))) = length (ab_revoked ?b)"
    using max by (simp_all add: of_be_to_be)
  have sizes: "length (concat (map authority_encode (ab_overlap ?b))) = length (ab_overlap ?b) * 144"
      "length (concat (ab_revoked ?b)) = length (ab_revoked ?b) * 16"
    using enc length_authority_encode
    by (auto simp: bundle_typed_def Let_def length_concat comp_def list_all_iff sum_list_triv
        cong: map_cong)
  have bs: "bs = ab_mesh_id ?b @ to_be 8 (ab_revision ?b) @ authority_encode (ab_active ?b)
      @ to_be 4 (length (ab_overlap ?b)) @ concat (map authority_encode (ab_overlap ?b))
      @ to_be 4 (length (ab_revoked ?b)) @ concat (ab_revoked ?b) @ sb_signature s"
    using enc by (auto simp: bundle_encode_def and_then_Ok_iff Let_def count_u32_def split: if_splits)
  show "bundle_decode env bs = Ok s"
    by (subst bundle_decode_parts [OF bs])
      (use enc shape max sizes in \<open>simp_all add: u32 bundle_typed_def Let_def length_authority_encode
        authority_fields_iff [OF sizes(1)] serial_fields_iff [OF sizes(2)] credential_uuid_iff authority_decode_iff\<close>)
qed

lemma bundle_decode_total: "bundle_decode env bs \<noteq> Abort"
proof -
  have take: "take_count bs c m \<noteq> Abort" for c m
    by (simp add: take_count_def and_then_Abort_iff Let_def)
  have cursor: "stop = c + 4 \<and> c + 4 \<le> length bs" if "take_count bs c m = Ok (n, stop)" for c m n stop
    using that by (auto simp: take_count_def and_then_Ok_iff checked_add_def get_range_def Let_def split: if_splits)
  show ?thesis
    using collect_results_total [of "authority_decode env"] collect_results_total [of "credential_uuid env"]
    by (auto simp: bundle_decode_def Let_def AUTHORITY_CERTIFICATE_LENGTH_def and_then_Abort_iff slice_simps take
        checked_add_def checked_mul_def dest!: cursor split: if_splits)
qed

lemma termination_decode_iff:
  "termination_decode env bs = Ok m \<longleftrightarrow>
     termination_encode m = bs \<and> mt_revision m \<le> u64_max \<and> mt_terminated_at m \<le> u64_max
     \<and> authority_typed (mt_authority m) \<and> authority_sound env (mt_authority m) \<and> length (mt_signature m) = 64"
proof
  assume dec: "termination_decode env bs = Ok m"
  then have len: "length bs = 228" by (simp add: termination_decode_def split: if_splits)
  have "concat (fields_of [4, 8, 8, 144, 64] bs) = bs" using len by (intro concat_fields_of) simp
  then show "termination_encode m = bs \<and> mt_revision m \<le> u64_max \<and> mt_terminated_at m \<le> u64_max
     \<and> authority_typed (mt_authority m) \<and> authority_sound env (mt_authority m) \<and> length (mt_signature m) = 64"
    using dec len
    by (auto simp: termination_decode_def slice_simps and_then_Ok_iff authority_decode_iff termination_encode_def
        split: if_splits)
next
  assume "termination_encode m = bs \<and> mt_revision m \<le> u64_max \<and> mt_terminated_at m \<le> u64_max
     \<and> authority_typed (mt_authority m) \<and> authority_sound env (mt_authority m) \<and> length (mt_signature m) = 64"
  moreover have "length PWM1 = 4" by (simp add: PWM1_def)
  ultimately show "termination_decode env bs = Ok m"
    by (auto simp: termination_decode_def slice_simps and_then_Ok_iff authority_decode_iff termination_encode_def
        length_authority_encode)
qed

section \<open>What a trust set vouches for\<close>

definition vouches ::
  "crypto_env \<Rightarrow> trust_set \<Rightarrow> subject_credential \<Rightarrow> unix_time \<Rightarrow> authority_certificate \<Rightarrow> bool" where
  "vouches env t c now a \<longleftrightarrow>
     ac_serial a \<notin> set (ts_revoked_authority_serials t)
     \<and> verify_authority env (ts_root t) a (ts_mesh_id t) now = Ok ()
     \<and> verify_with_authority env c (ac_public_key a) now = Ok ()"

lemma is_ok_unit: "is_ok m \<longleftrightarrow> m = Ok ()"
  by (cases m) auto

abbreviation bounded_until :: "subject_credential \<Rightarrow> authority_certificate \<Rightarrow> unix_time" where
  "bounded_until c a \<equiv> min (sc_not_after c) (ac_not_after a)"

lemma latest_until_spec:
  "case latest_until env t c now as acc of
     None \<Rightarrow> acc = None \<and> (\<forall>a\<in>set as. \<not> vouches env t c now a)
   | Some u \<Rightarrow> (acc = Some u \<or> (\<exists>a\<in>set as. vouches env t c now a \<and> u = bounded_until c a))
       \<and> (\<forall>v. acc = Some v \<longrightarrow> v \<le> u) \<and> (\<forall>a\<in>set as. vouches env t c now a \<longrightarrow> bounded_until c a \<le> u)"
proof (induction as arbitrary: acc)
  case Nil
  then show ?case by (cases acc) simp_all
next
  case (Cons a as)
  show ?case
  proof (cases "vouches env t c now a")
    case True
    let ?acc = "Some (case acc of None \<Rightarrow> bounded_until c a | Some v \<Rightarrow> max v (bounded_until c a))"
    have step: "latest_until env t c now (a # as) acc = latest_until env t c now as ?acc"
      using True by (simp add: vouches_def is_ok_unit Let_def)
    show ?thesis
      unfolding step using Cons.IH [of ?acc] True
      by (cases acc) (auto simp: max_def split: option.splits if_splits)
  next
    case False
    then have step: "latest_until env t c now (a # as) acc = latest_until env t c now as acc"
      by (auto simp: vouches_def is_ok_unit)
    show ?thesis unfolding step using Cons.IH [of acc] False by (auto split: option.splits)
  qed
qed

definition subject_admissible :: "trust_set \<Rightarrow> subject_credential \<Rightarrow> bool" where
  "subject_admissible t c \<longleftrightarrow>
     sc_mesh_id c = ts_mesh_id t \<and> sc_role c = subject_id_role (sc_subject c)
     \<and> sc_serial c \<notin> set (ts_revoked_subject_serials t)"

lemma subject_valid_until_iff:
  "subject_valid_until env t c now = Ok u \<longleftrightarrow>
     subject_admissible t c
     \<and> (\<exists>a\<in>set (ts_authorities t). vouches env t c now a \<and> u = bounded_until c a)
     \<and> (\<forall>a\<in>set (ts_authorities t). vouches env t c now a \<longrightarrow> bounded_until c a \<le> u)"
  using latest_until_spec [where env = env and t = t and c = c and now = now and as = "ts_authorities t" and acc = None]
  by (auto simp: subject_valid_until_def subject_admissible_def split: option.splits intro: antisym)

lemma verify_subject_iff:
  "verify_subject env t c now = Ok () \<longleftrightarrow>
     subject_admissible t c \<and> (\<exists>a\<in>set (ts_authorities t). vouches env t c now a)"
  using latest_until_spec [where env = env and t = t and c = c and now = now and as = "ts_authorities t" and acc = None]
  by (auto simp: verify_subject_def subject_valid_until_def subject_admissible_def and_then_Ok_iff
      split: option.splits)

lemma verify_authority_iff:
  "verify_authority env root a mesh now = Ok () \<longleftrightarrow>
     ac_mesh_id a = mesh \<and> ac_not_before a \<le> now \<and> now < ac_not_after a
     \<and> cy_verify env root (authority_transcript (authority_unsigned a)) (ac_signature a)"
  by (auto simp: verify_authority_def and_then_Ok_iff)

lemma verify_with_authority_iff:
  "verify_with_authority env c key now = Ok () \<longleftrightarrow>
     sc_role c = subject_id_role (sc_subject c)
     \<and> validate_subject_keys env (sc_subject c) (sc_identity_public_key c) (sc_public_noise_key c)
          (sc_wireguard_public_key c) = Ok ()
     \<and> sc_not_before c \<le> now \<and> now < sc_not_after c \<and> cy_valid_key env key
     \<and> cy_verify env key (subject_transcript (subject_unsigned c)) (sc_signature c)"
  by (auto simp: verify_with_authority_def and_then_Ok_iff check_signature_def)

text \<open>(C14) An authorisation lasts as long as it says.  The time \<open>subject_valid_until\<close> returns is the
  latest of the ends to which an unrevoked Authority of the set, valid now, vouches for the
  credential; it lies in the future and within the lifetimes of the credential and of such an
  Authority, and the credential verifies at every moment from now until it, with the same bound.
\<close>

theorem valid_until_holds:
  assumes "subject_valid_until env t c now = Ok until" "now \<le> later" "later < until"
  shows "now < until \<and> until \<le> sc_not_after c
    \<and> (\<exists>a\<in>set (ts_authorities t). vouches env t c now a \<and> until \<le> ac_not_after a)
    \<and> verify_subject env t c later = Ok ()
    \<and> (\<exists>until'. subject_valid_until env t c later = Ok until' \<and> until \<le> until')"
proof -
  obtain a where a: "a \<in> set (ts_authorities t)" "vouches env t c now a" "until = bounded_until c a"
    using assms(1) by (auto simp: subject_valid_until_iff)
  have later: "vouches env t c later a"
    using a(2,3) assms(2,3) by (auto simp: vouches_def verify_authority_iff verify_with_authority_iff)
  have verified: "verify_subject env t c later = Ok ()"
    using a(1) later assms(1) by (auto simp: verify_subject_iff subject_valid_until_iff)
  then obtain until' where until': "subject_valid_until env t c later = Ok until'"
    by (auto simp: verify_subject_def and_then_Ok_iff)
  then have "until \<le> until'" using a(1,3) later by (auto simp: subject_valid_until_iff)
  moreover have "now < until" using a(2,3) by (auto simp: vouches_def verify_authority_iff verify_with_authority_iff)
  ultimately show ?thesis using a verified until' by auto
qed

section \<open>Every way to change a trust set\<close>

inductive trust_step :: "crypto_env \<Rightarrow> trust_set \<Rightarrow> trust_set \<Rightarrow> bool" for env where
  step_resume: "resume_authority_revision revision t = Ok t' \<Longrightarrow> trust_step env t t'"
| step_add: "authority_typed a \<Longrightarrow> add_authority env a now t = Ok t' \<Longrightarrow> trust_step env t t'"
| step_revoke_subject: "trust_step env t (revoke_subject serial t)"
| step_revoke_authority: "trust_step env t (revoke_authority serial t)"
| step_install: "list_all authority_typed (ab_active (sb_bundle s) # ab_overlap (sb_bundle s)) \<Longrightarrow>
    install_authority_bundle env s now t = Ok t' \<Longrightarrow> trust_step env t t'"
| step_install_after_resume: "list_all authority_typed (ab_active (sb_bundle s) # ab_overlap (sb_bundle s)) \<Longrightarrow>
    install_authority_bundle_after_resume env s now t = Ok t' \<Longrightarrow> trust_step env t t'"

lemma set_bset_extend [simp]: "set (bset_extend xs s) = set xs \<union> set s"
  unfolding bset_extend_def by (induction xs arbitrary: s) auto

lemma verify_authorities_iff:
  "verify_authorities env root mesh now as = Ok () \<longleftrightarrow> (\<forall>a\<in>set as. verify_authority env root a mesh now = Ok ())"
  by (induction as) (auto simp: and_then_Ok_iff)

lemma verify_authority_bundle_iff:
  "verify_authority_bundle env root s mesh accepted now = Ok t \<longleftrightarrow>
     (let b = sb_bundle s in
      validate_shape b = Ok () \<and> ab_mesh_id b = mesh \<and> (\<forall>r. accepted = Some r \<longrightarrow> r < ab_revision b)
      \<and> (\<forall>a\<in>set (ab_active b # ab_overlap b). verify_authority env root a mesh now = Ok ())
      \<and> cy_valid_key env (ac_public_key (ab_active b))
      \<and> (\<exists>m. authority_bundle_transcript b = (Ok m :: (bytes, credential_error) outcome)
            \<and> cy_verify env (ac_public_key (ab_active b)) m (sb_signature s))
      \<and> t = (trust_new root mesh)\<lparr>ts_authority_revision := Some (ab_revision b),
          ts_authorities := ab_active b # ab_overlap b,
          ts_revoked_authority_serials := bset_extend (ab_revoked b) []\<rparr>)"
  by (auto simp: verify_authority_bundle_def Let_def and_then_Ok_iff verify_authorities_iff split: option.splits if_splits)

lemma install_replacement_iff:
  "install_replacement t r = Ok t' \<longleftrightarrow>
     ac_serial ` set (ts_authorities r) \<inter> set (ts_revoked_authority_serials t) = {}
     \<and> t' = r\<lparr>ts_revoked_authority_serials :=
           bset_extend (ts_revoked_authority_serials t) (ts_revoked_authority_serials r),
         ts_revoked_subject_serials := ts_revoked_subject_serials t\<rparr>"
  by (auto simp: install_replacement_def list_ex_iff)

text \<open>What both installations leave behind\<close>

definition replaced_by :: "crypto_env \<Rightarrow> signed_authority_bundle \<Rightarrow> unix_time \<Rightarrow> trust_set \<Rightarrow> trust_set \<Rightarrow> bool" where
  "replaced_by env s now t t' \<longleftrightarrow> (let b = sb_bundle s in
     ts_root t' = ts_root t \<and> ts_mesh_id t' = ts_mesh_id t
     \<and> ts_authorities t' = ab_active b # ab_overlap b \<and> ts_authority_revision t' = Some (ab_revision b)
     \<and> \<not> ts_authority_revision_resumed t'
     \<and> set (ts_revoked_authority_serials t') = set (ab_revoked b) \<union> set (ts_revoked_authority_serials t)
     \<and> ts_revoked_subject_serials t' = ts_revoked_subject_serials t
     \<and> ac_serial ` set (ts_authorities t') \<inter> set (ts_revoked_authority_serials t') = {}
     \<and> (\<forall>a\<in>set (ts_authorities t'). verify_authority env (ts_root t) a (ts_mesh_id t) now = Ok ()))"

lemma install_replaced:
  assumes "verify_authority_bundle env (ts_root t) s (ts_mesh_id t) accepted now = Ok r" "install_replacement t r = Ok t'"
  shows "replaced_by env s now t t'"
  using assms
  by (auto simp: verify_authority_bundle_iff install_replacement_iff replaced_by_def Let_def trust_new_def
      validate_shape_iff)

lemma install_step:
  assumes "install_authority_bundle env s now t = Ok t'"
  shows "replaced_by env s now t t'" "\<And>r. ts_authority_revision t = Some r \<Longrightarrow> r < ab_revision (sb_bundle s)"
  using assms install_replaced
  by (auto simp: install_authority_bundle_def and_then_Ok_iff verify_authority_bundle_iff Let_def)

lemma install_after_resume_step:
  assumes "install_authority_bundle_after_resume env s now t = Ok t'"
  shows "replaced_by env s now t t'
    \<and> (\<forall>r. ts_authority_revision t = Some r \<longrightarrow> r < ab_revision (sb_bundle s)
         \<or> r = ab_revision (sb_bundle s) \<and> ts_authority_revision_resumed t \<and> ts_authorities t' = ts_authorities t)"
proof (cases "\<not> ts_authority_revision_resumed t \<or> ts_authority_revision t \<noteq> Some (ab_revision (sb_bundle s))")
  case True
  then show ?thesis using assms install_step [of env s now t t'] by (auto simp: install_authority_bundle_after_resume_def)
next
  case False
  then show ?thesis
    using assms install_replaced [of env t s None now _ t']
    by (auto simp: install_authority_bundle_after_resume_def and_then_Ok_iff install_replacement_iff split: if_splits)
qed

section \<open>Trust only moves forward\<close>

definition trust_below :: "trust_set \<Rightarrow> trust_set \<Rightarrow> bool" where
  "trust_below t t' \<longleftrightarrow>
     ts_root t' = ts_root t \<and> ts_mesh_id t' = ts_mesh_id t
     \<and> set (ts_revoked_authority_serials t) \<subseteq> set (ts_revoked_authority_serials t')
     \<and> set (ts_revoked_subject_serials t) \<subseteq> set (ts_revoked_subject_serials t')
     \<and> (\<forall>r. ts_authority_revision t = Some r \<longrightarrow> (\<exists>r'. ts_authority_revision t' = Some r' \<and> r \<le> r'
          \<and> (r' = r \<longrightarrow> prefix (ts_authorities t) (ts_authorities t'))))"

lemma trust_step_below: "trust_step env t t' \<Longrightarrow> trust_below t t'"
proof (induction rule: trust_step.induct)
  case (step_install s now t t')
  then show ?case
    using install_step [OF step_install(2)] by (auto simp: trust_below_def replaced_by_def Let_def)
next
  case (step_install_after_resume s now t t')
  then show ?case
    using install_after_resume_step [OF step_install_after_resume(2)]
    by (auto simp: trust_below_def replaced_by_def Let_def)
qed (auto simp: trust_below_def resume_authority_revision_def add_authority_def and_then_Ok_iff
    revoke_subject_def revoke_authority_def split: if_splits)

lemma trust_below_trans: "trust_below s t \<Longrightarrow> trust_below t u \<Longrightarrow> trust_below s u"
  unfolding trust_below_def by (auto 4 4 intro: prefix_order.trans)

interpretation trust_order: monotone_steps "trust_step env" trust_below for env
proof
  show "trust_below s s" for s by (simp add: trust_below_def)
  show "trust_below s t \<Longrightarrow> trust_below t u \<Longrightarrow> trust_below s u" for s t u by (rule trust_below_trans)
  show "trust_step env s t \<Longrightarrow> trust_below s t" for s t by (rule trust_step_below)
qed

text \<open>(C10) Trust only moves forward.  Over any sequence of operations the Root and the Mesh stay what they
  were, revocations accumulate and the Authority revision never decreases; while it stays the same,
  the Authorities are the old ones, in order, and possibly further ones.  A revoked subject never
  verifies again, a revoked Authority never vouches for a subject again and is in no bundle that is
  installed, and a bundle at or below the revision in force is only accepted to complete a restored
  revision, with exactly the Authorities restored.
\<close>

theorem trust_moves_forward:
  assumes run: "(trust_step env)\<^sup>*\<^sup>* t t'"
  shows "trust_below t t'
    \<and> (sc_serial c \<in> set (ts_revoked_subject_serials t) \<longrightarrow> verify_subject env t' c now \<noteq> Ok ())
    \<and> (ac_serial a \<in> set (ts_revoked_authority_serials t) \<longrightarrow> \<not> vouches env t' c now a)
    \<and> (verify_distribution env t' d now = Ok () \<longrightarrow> (\<exists>a\<in>set (ts_authorities t').
         ac_public_key a = dc_authority_public_key d \<and> ac_serial a \<notin> set (ts_revoked_authority_serials t)))
    \<and> (install_authority_bundle_after_resume env s now t' = Ok t'' \<longrightarrow>
         ac_serial ` set (ab_active (sb_bundle s) # ab_overlap (sb_bundle s)) \<inter> set (ts_revoked_authority_serials t) = {}
         \<and> (\<forall>r. ts_authority_revision t = Some r \<longrightarrow> r < ab_revision (sb_bundle s)
              \<or> r = ab_revision (sb_bundle s) \<and> ts_authority_revision_resumed t'
                \<and> \<not> ts_authority_revision_resumed t'' \<and> ts_authorities t'' = ts_authorities t'))"
proof -
  have below: "trust_below t t'" using trust_order.steps_below [OF run] .
  have revoked: "set (ts_revoked_authority_serials t) \<subseteq> set (ts_revoked_authority_serials t')"
      "set (ts_revoked_subject_serials t) \<subseteq> set (ts_revoked_subject_serials t')"
    using below by (simp_all add: trust_below_def)
  have revision: "\<exists>r'. ts_authority_revision t' = Some r' \<and> r \<le> r'" if "ts_authority_revision t = Some r" for r
    using below that by (auto simp: trust_below_def)
  have installed: "ac_serial ` set (ab_active (sb_bundle s) # ab_overlap (sb_bundle s)) \<inter> set (ts_revoked_authority_serials t) = {}
      \<and> (\<forall>r. ts_authority_revision t = Some r \<longrightarrow> r < ab_revision (sb_bundle s)
           \<or> r = ab_revision (sb_bundle s) \<and> ts_authority_revision_resumed t'
             \<and> \<not> ts_authority_revision_resumed t'' \<and> ts_authorities t'' = ts_authorities t')"
    if "install_authority_bundle_after_resume env s now t' = Ok t''"
    using install_after_resume_step [OF that] revoked(1) revision by (fastforce simp: replaced_by_def Let_def)
  show ?thesis
    using below revoked installed
    by (auto simp: verify_subject_iff subject_admissible_def vouches_def verify_distribution_def and_then_Ok_iff
        find_Some_iff split: if_splits)
qed

section \<open>The chain of trust\<close>

text \<open>Bundle transcripts determine bundles.\<close>

definition bundle_formed :: "authority_bundle \<Rightarrow> bool" where
  "bundle_formed b \<longleftrightarrow>
     length (ab_mesh_id b) = 16 \<and> ab_revision b \<le> u64_max \<and> authority_typed (ab_active b)
     \<and> length (ab_overlap b) \<le> u32_max \<and> list_all authority_typed (ab_overlap b)
     \<and> length (ab_revoked b) \<le> u32_max \<and> list_all (\<lambda>u. length u = 16) (ab_revoked b)"

lemma put_count_iff: "put_count n = Ok bs \<longleftrightarrow> n \<le> u32_max \<and> bs = to_be 4 n"
  by (auto simp: put_count_def)

lemma bundle_transcript_inject:
  assumes formed: "bundle_formed b" "bundle_formed c"
    and eq: "authority_bundle_transcript b = (Ok m :: (bytes, 'e) outcome)"
      "authority_bundle_transcript c = (Ok m :: (bytes, 'f) outcome)"
  shows "b = c"
proof -
  note formed' = formed [unfolded bundle_formed_def]
  let ?overlap = "\<lambda>b. to_be 4 (length (ab_overlap b)) @ concat (map authority_encode (ab_overlap b))"
  let ?revoked = "\<lambda>b. to_be 4 (length (ab_revoked b)) @ concat (map (\<lambda>u. u) (ab_revoked b))"
  have whole: "authority_encode (ab_active b) @ ?overlap b @ ?revoked b @ []
      = authority_encode (ab_active c) @ ?overlap c @ ?revoked c @ []"
    and head: "ab_mesh_id b = ab_mesh_id c" "ab_revision b = ab_revision c"
    using eq formed' by (auto simp: authority_bundle_transcript_def and_then_Ok_iff put_count_iff u64_inject)
  have active: "ab_active b = ab_active c"
    and rest: "?overlap b @ ?revoked b @ [] = ?overlap c @ ?revoked c @ []"
    using authority_code.cancel [OF _ _ whole] formed' by simp_all
  have overlap: "ab_overlap b = ab_overlap c" and last: "?revoked b @ [] = ?revoked c @ []"
    using prefix_code.cancel [OF prefix_code_list [OF authority_code.prefix_code_axioms] _ _ rest] formed'
    by simp_all
  have "ab_revoked b = ab_revoked c"
    using prefix_code.cancel [OF prefix_code_list [OF prefix_code_fixed [of 16]] _ _ last] formed' by simp
  then show ?thesis using head active overlap by (cases b; cases c) simp
qed

definition termination_formed :: "mesh_termination \<Rightarrow> bool" where
  "termination_formed m \<longleftrightarrow>
     mt_revision m \<le> u64_max \<and> mt_terminated_at m \<le> u64_max \<and> authority_typed (mt_authority m)"

lemma termination_transcript_inject:
  assumes "termination_formed m" "termination_formed n" "termination_transcript m = termination_transcript n"
  shows "m\<lparr>mt_signature := g\<rparr> = n\<lparr>mt_signature := g\<rparr>"
proof -
  have eq: "mt_revision m = mt_revision n" "mt_terminated_at m = mt_terminated_at n"
      "authority_encode (mt_authority m) = authority_encode (mt_authority n)"
    using assms by (auto simp: termination_transcript_def termination_formed_def u64_inject)
  then have "mt_authority m = mt_authority n"
    using assms authority_encode_inject by (auto simp: termination_formed_def)
  then show ?thesis using eq by (cases m; cases n) simp
qed

text \<open>
  A history of signatures: every message that verifies under a key was signed with it; with the Root
  key, only the authorities \<open>certified\<close> were; with the key of a certified Authority, the subjects
  it issued, the distribution certificates it bound, the bundles it published and the terminations
  it declared.
\<close>

record signing_history =
  sh_log :: "(bytes \<times> bytes) set"
  sh_certified :: "unsigned_authority set"
  sh_issued :: "unsigned_authority \<Rightarrow> unsigned_subject set"
  sh_bound :: "unsigned_authority \<Rightarrow> distribution_certificate set"
  sh_published :: "unsigned_authority \<Rightarrow> authority_bundle set"
  sh_terminated :: "unsigned_authority \<Rightarrow> mesh_termination set"

definition signed_by_authority :: "signing_history \<Rightarrow> unsigned_authority \<Rightarrow> bytes set" where
  "signed_by_authority h a =
     subject_transcript ` sh_issued h a \<union> distribution_transcript ` sh_bound h a
     \<union> {m. \<exists>b\<in>sh_published h a. authority_bundle_transcript b = (Ok m :: (bytes, credential_error) outcome)}
     \<union> termination_transcript ` sh_terminated h a"

definition history_typed :: "signing_history \<Rightarrow> bool" where
  "history_typed h \<longleftrightarrow>
     (\<forall>a\<in>sh_certified h. unsigned_authority_typed a \<and> (\<forall>u\<in>sh_issued h a. unsigned_subject_typed u)
        \<and> (\<forall>d\<in>sh_bound h a. distribution_typed d) \<and> (\<forall>b\<in>sh_published h a. bundle_formed b)
        \<and> (\<forall>m\<in>sh_terminated h a. termination_formed m))"

definition signatures_from :: "crypto_env \<Rightarrow> bytes \<Rightarrow> signing_history \<Rightarrow> bool" where
  "signatures_from env root h \<longleftrightarrow>
     (\<forall>key message signature. cy_verify env key message signature \<or> cy_verify_strict env key message signature
        \<longrightarrow> (key, message) \<in> sh_log h)
     \<and> (\<forall>message. (root, message) \<in> sh_log h \<longrightarrow> message \<in> authority_transcript ` sh_certified h)
     \<and> (\<forall>a\<in>sh_certified h. \<forall>message. (ua_public_key a, message) \<in> sh_log h \<longrightarrow> message \<in> signed_by_authority h a)
     \<and> history_typed h"

lemmas authority_domains =
  SUBJECT_DOMAIN_def DISTRIBUTION_DOMAIN_def AUTHORITY_BUNDLE_DOMAIN_def TERMINATION_DOMAIN_def

lemma authority_domains_apart:
  "SUBJECT_DOMAIN @ u \<noteq> DISTRIBUTION_DOMAIN @ v" "SUBJECT_DOMAIN @ u \<noteq> AUTHORITY_BUNDLE_DOMAIN @ v"
  "SUBJECT_DOMAIN @ u \<noteq> TERMINATION_DOMAIN @ v" "DISTRIBUTION_DOMAIN @ u \<noteq> AUTHORITY_BUNDLE_DOMAIN @ v"
  "DISTRIBUTION_DOMAIN @ u \<noteq> TERMINATION_DOMAIN @ v" "AUTHORITY_BUNDLE_DOMAIN @ u \<noteq> TERMINATION_DOMAIN @ v"
  unfolding authority_domains by (rule domain_distinct; simp)+

lemmas transcript_defs = subject_transcript_def distribution_transcript_def termination_transcript_def

lemma bundle_transcript_prefix:
  "authority_bundle_transcript b = Ok m \<Longrightarrow> \<exists>u. m = AUTHORITY_BUNDLE_DOMAIN @ u"
  by (auto simp: authority_bundle_transcript_def and_then_Ok_iff)

lemma certified_authority:
  assumes "signatures_from env root h" "authority_typed a" "verify_authority env root a mesh now = Ok ()"
  shows "authority_unsigned a \<in> sh_certified h"
proof -
  have "(root, authority_transcript (authority_unsigned a)) \<in> sh_log h"
    using assms(1,3) unfolding signatures_from_def verify_authority_iff by blast
  then obtain b where b: "b \<in> sh_certified h" "authority_transcript (authority_unsigned a) = authority_transcript b"
    using assms(1) unfolding signatures_from_def by blast
  then have "authority_unsigned a = b"
    using assms(1) unsigned_typed(1) [OF assms(2)]
    by (auto simp: signatures_from_def history_typed_def intro: authority_transcript_inject)
  then show ?thesis using b(1) by simp
qed

lemma signed_by_certified:
  assumes "signatures_from env root h" "a \<in> sh_certified h" "cy_verify env (ua_public_key a) m g \<or> cy_verify_strict env (ua_public_key a) m g"
  shows "m \<in> signed_by_authority h a"
  using assms unfolding signatures_from_def by blast

text \<open>Domain separation: a signed transcript of one kind was signed as that kind.\<close>

lemma signed_subject:
  assumes "history_typed h" "a \<in> sh_certified h" "unsigned_subject_typed u" "subject_transcript u \<in> signed_by_authority h a"
  shows "u \<in> sh_issued h a"
proof -
  obtain v where v: "v \<in> sh_issued h a" "subject_transcript u = subject_transcript v"
    using assms(4) authority_domains_apart(1-3) by (auto simp: signed_by_authority_def transcript_defs dest!: bundle_transcript_prefix)
  moreover have "unsigned_subject_typed v" using assms(1,2) v(1) by (simp add: history_typed_def)
  ultimately show ?thesis using subject_transcript_inject [OF assms(3)] by auto
qed

lemma signed_distribution:
  assumes "history_typed h" "a \<in> sh_certified h" "distribution_typed d" "distribution_transcript d \<in> signed_by_authority h a"
  shows "\<exists>e\<in>sh_bound h a. d\<lparr>dc_signature := dc_signature e\<rparr> = e"
proof -
  obtain e where e: "e \<in> sh_bound h a" "distribution_transcript d = distribution_transcript e"
    using assms(4) authority_domains_apart(1) [symmetric] authority_domains_apart(4,5)
    by (auto simp: signed_by_authority_def transcript_defs dest!: bundle_transcript_prefix)
  moreover have "distribution_typed e" using assms(1,2) e(1) by (simp add: history_typed_def)
  ultimately show ?thesis using distribution_transcript_inject [OF assms(3), of e "dc_signature e"] by auto
qed

lemma signed_bundle:
  assumes "history_typed h" "a \<in> sh_certified h" "bundle_formed b" "m \<in> signed_by_authority h a"
    and m: "authority_bundle_transcript b = (Ok m :: (bytes, credential_error) outcome)"
  shows "b \<in> sh_published h a"
proof -
  obtain u where u: "m = AUTHORITY_BUNDLE_DOMAIN @ u" using bundle_transcript_prefix [OF m] by blast
  obtain c where c: "c \<in> sh_published h a" "authority_bundle_transcript c = (Ok m :: (bytes, credential_error) outcome)"
    using assms(4) u authority_domains_apart(2,4) [symmetric] authority_domains_apart(6)
    by (auto simp: signed_by_authority_def transcript_defs)
  moreover have "bundle_formed c" using assms(1,2) c(1) by (simp add: history_typed_def)
  ultimately show ?thesis using bundle_transcript_inject [OF assms(3) _ m] by auto
qed

lemma signed_termination:
  assumes "history_typed h" "a \<in> sh_certified h" "termination_formed d" "termination_transcript d \<in> signed_by_authority h a"
  shows "\<exists>e\<in>sh_terminated h a. d\<lparr>mt_signature := mt_signature e\<rparr> = e"
proof -
  obtain e where e: "e \<in> sh_terminated h a" "termination_transcript d = termination_transcript e"
    using assms(4) authority_domains_apart(3,5,6) [symmetric]
    by (auto simp: signed_by_authority_def transcript_defs dest!: bundle_transcript_prefix)
  moreover have "termination_formed e" using assms(1,2) e(1) by (simp add: history_typed_def)
  ultimately show ?thesis using termination_transcript_inject [OF assms(3), of e "mt_signature e"] by auto
qed

text \<open>Every Authority in a trust set was certified by the Root.\<close>

definition rooted :: "crypto_env \<Rightarrow> trust_set \<Rightarrow> bool" where
  "rooted env t \<longleftrightarrow> (\<forall>a\<in>set (ts_authorities t). authority_typed a
     \<and> (\<exists>now. verify_authority env (ts_root t) a (ts_mesh_id t) now = Ok ()))"

lemma rooted_step: "trust_step env t t' \<Longrightarrow> rooted env t \<Longrightarrow> rooted env t'"
proof (induction rule: trust_step.induct)
  case (step_install s now t t')
  then show ?case
    using install_step(1) [OF step_install(2)] unfolding rooted_def replaced_by_def Let_def list_all_iff by auto
next
  case (step_install_after_resume s now t t')
  then show ?case
    using install_after_resume_step [OF step_install_after_resume(2)]
    unfolding rooted_def replaced_by_def Let_def list_all_iff by auto
qed (auto simp: rooted_def resume_authority_revision_def add_authority_def and_then_Ok_iff
    revoke_subject_def revoke_authority_def split: if_splits)

lemma reachable_rooted: "(trust_step env)\<^sup>*\<^sup>* (trust_new root mesh) t \<Longrightarrow> rooted env t"
  by (induction rule: rtranclp_induct) (simp add: rooted_def trust_new_def, rule rooted_step)

lemma reachable_anchor: "(trust_step env)\<^sup>*\<^sup>* (trust_new root mesh) t \<Longrightarrow> ts_root t = root \<and> ts_mesh_id t = mesh"
  using trust_order.steps_below [of env "trust_new root mesh" t] by (simp add: trust_below_def trust_new_def)

lemma authority_unsigned_fields [simp]:
  "ua_public_key (authority_unsigned a) = ac_public_key a" "ua_mesh_id (authority_unsigned a) = ac_mesh_id a"
  "ua_serial (authority_unsigned a) = ac_serial a" "ua_not_before (authority_unsigned a) = ac_not_before a"
  "ua_not_after (authority_unsigned a) = ac_not_after a"
  by (simp_all add: authority_unsigned_def)

lemma subject_chain:
  assumes "rooted env t" "signatures_from env (ts_root t) h" "credential_typed c" "verify_subject env t c now = Ok ()"
  shows "\<exists>a\<in>sh_certified h. subject_unsigned c \<in> sh_issued h a \<and> ua_mesh_id a = ts_mesh_id t \<and> sc_mesh_id c = ts_mesh_id t
         \<and> ua_not_before a \<le> now \<and> now < ua_not_after a \<and> sc_not_before c \<le> now \<and> now < sc_not_after c
         \<and> ua_serial a \<notin> set (ts_revoked_authority_serials t) \<and> sc_serial c \<notin> set (ts_revoked_subject_serials t)"
proof -
  obtain a where a: "a \<in> set (ts_authorities t)" "vouches env t c now a" and c: "subject_admissible t c"
    using assms(4) by (auto simp: verify_subject_iff)
  note v = a(2) [unfolded vouches_def verify_authority_iff verify_with_authority_iff]
  have cert: "authority_unsigned a \<in> sh_certified h"
    using a assms(1,2) certified_authority by (auto simp: rooted_def vouches_def)
  have "subject_transcript (subject_unsigned c) \<in> signed_by_authority h (authority_unsigned a)"
    using v by (intro signed_by_certified [OF assms(2) cert]) auto
  then have "subject_unsigned c \<in> sh_issued h (authority_unsigned a)"
    using assms(2) unsigned_typed(2) [OF assms(3)] cert by (intro signed_subject) (simp_all add: signatures_from_def)
  then show ?thesis using cert v c by (intro bexI [of _ "authority_unsigned a"]) (auto simp: subject_admissible_def)
qed

lemma distribution_chain:
  assumes "rooted env t" "signatures_from env (ts_root t) h" "distribution_typed d" "verify_distribution env t d now = Ok ()"
  shows "\<exists>a\<in>sh_certified h. (\<exists>e\<in>sh_bound h a. d\<lparr>dc_signature := dc_signature e\<rparr> = e)
         \<and> ua_public_key a = dc_authority_public_key d \<and> ua_mesh_id a = ts_mesh_id t \<and> dc_mesh_id d = ts_mesh_id t
         \<and> ua_not_before a \<le> now \<and> now < ua_not_after a \<and> ua_serial a \<notin> set (ts_revoked_authority_serials t)"
proof -
  obtain a where a: "a \<in> set (ts_authorities t)" "ac_public_key a = dc_authority_public_key d"
      "ac_serial a \<notin> set (ts_revoked_authority_serials t)" "ac_not_before a \<le> now" "now < ac_not_after a"
      and d: "dc_mesh_id d = ts_mesh_id t" "cy_verify env (ac_public_key a) (distribution_transcript d) (dc_signature d)"
    using assms(4)
    by (auto simp: verify_distribution_def and_then_Ok_iff check_signature_def dest!: find_SomeD split: if_splits)
  obtain then' where "authority_typed a" "verify_authority env (ts_root t) a (ts_mesh_id t) then' = Ok ()"
    using a(1) assms(1) by (auto simp: rooted_def)
  then have cert: "authority_unsigned a \<in> sh_certified h" "ac_mesh_id a = ts_mesh_id t"
    using certified_authority [OF assms(2)] by (auto simp: verify_authority_iff)
  have "distribution_transcript d \<in> signed_by_authority h (authority_unsigned a)"
    using d(2) by (intro signed_by_certified [OF assms(2) cert(1)]) auto
  then have "\<exists>e\<in>sh_bound h (authority_unsigned a). d\<lparr>dc_signature := dc_signature e\<rparr> = e"
    using assms(2,3) cert(1) by (intro signed_distribution) (simp_all add: signatures_from_def)
  then show ?thesis using cert a d by (intro bexI [of _ "authority_unsigned a"]) auto
qed

lemma termination_chain:
  assumes "signatures_from env (ts_root t) h" "termination_formed m" "verify_termination env t m previous now = Ok ()"
  shows "\<exists>a\<in>sh_certified h. (\<exists>e\<in>sh_terminated h a. m\<lparr>mt_signature := mt_signature e\<rparr> = e)
         \<and> a = authority_unsigned (mt_authority m) \<and> ua_mesh_id a = ts_mesh_id t \<and> previous < mt_revision m
         \<and> ua_not_before a \<le> mt_terminated_at m \<and> mt_terminated_at m < ua_not_after a
         \<and> mt_terminated_at m \<le> now + 60 \<and> ua_serial a \<notin> set (ts_revoked_authority_serials t)"
proof -
  let ?a = "mt_authority m"
  have v: "previous < mt_revision m" "mt_terminated_at m \<le> saturating_add now 60"
      "verify_authority env (ts_root t) ?a (ts_mesh_id t) (mt_terminated_at m) = Ok ()"
      "cy_verify_strict env (ac_public_key ?a) (termination_transcript m) (mt_signature m)"
      "ac_serial ?a \<notin> set (ts_revoked_authority_serials t)"
    using assms(3) by (auto simp: verify_termination_def termination_verify_def and_then_Ok_iff split: if_splits)
  have cert: "authority_unsigned ?a \<in> sh_certified h"
    using certified_authority [OF assms(1) _ v(3)] assms(2) by (simp add: termination_formed_def)
  have "termination_transcript m \<in> signed_by_authority h (authority_unsigned ?a)"
    using v(4) by (intro signed_by_certified [OF assms(1) cert]) auto
  then have "\<exists>e\<in>sh_terminated h (authority_unsigned ?a). m\<lparr>mt_signature := mt_signature e\<rparr> = e"
    using assms(1,2) cert by (intro signed_termination) (simp_all add: signatures_from_def)
  moreover have "saturating_add now 60 \<le> now + 60" by (simp add: saturating_add_def)
  ultimately show ?thesis using cert v by (intro bexI [of _ "authority_unsigned ?a"]) (auto simp: verify_authority_iff)
qed

text \<open>Both installations accept a bundle only under the signature of its own active Authority.\<close>

definition installs :: "crypto_env \<Rightarrow> signed_authority_bundle \<Rightarrow> unix_time \<Rightarrow> trust_set \<Rightarrow> trust_set \<Rightarrow> bool" where
  "installs env s now t t' \<longleftrightarrow> install_authority_bundle env s now t = Ok t' \<or> install_authority_bundle_after_resume env s now t = Ok t'"

lemma installs_replaced: "installs env s now t t' \<Longrightarrow> replaced_by env s now t t'"
  using install_step(1) install_after_resume_step by (auto simp: installs_def)

lemma installs_signed:
  assumes "installs env s now t t'"
  obtains m where "authority_bundle_transcript (sb_bundle s) = (Ok m :: (bytes, credential_error) outcome)"
    "cy_verify env (ac_public_key (ab_active (sb_bundle s))) m (sb_signature s)" "ab_mesh_id (sb_bundle s) = ts_mesh_id t"
  using assms
  by (auto simp: installs_def install_authority_bundle_def install_authority_bundle_after_resume_def and_then_Ok_iff
      verify_authority_bundle_iff Let_def split: if_splits)

lemma bundle_chain:
  assumes "signatures_from env (ts_root t) h" "bundle_formed (sb_bundle s)" "installs env s now t t'"
  shows "sb_bundle s \<in> sh_published h (authority_unsigned (ab_active (sb_bundle s)))
      \<and> ab_mesh_id (sb_bundle s) = ts_mesh_id t
      \<and> ts_authorities t' = ab_active (sb_bundle s) # ab_overlap (sb_bundle s)
      \<and> (\<forall>a\<in>set (ts_authorities t'). authority_unsigned a \<in> sh_certified h \<and> ac_mesh_id a = ts_mesh_id t
           \<and> ac_not_before a \<le> now \<and> now < ac_not_after a
           \<and> ac_serial a \<notin> set (ts_revoked_authority_serials t) \<union> set (ab_revoked (sb_bundle s)))"
proof -
  let ?b = "sb_bundle s"
  note r = installs_replaced [OF assms(3), unfolded replaced_by_def Let_def]
  obtain m where m: "authority_bundle_transcript ?b = (Ok m :: (bytes, credential_error) outcome)"
      "cy_verify env (ac_public_key (ab_active ?b)) m (sb_signature s)" and mesh: "ab_mesh_id ?b = ts_mesh_id t"
    using installs_signed [OF assms(3)] by blast
  have all: "authority_unsigned a \<in> sh_certified h \<and> ac_mesh_id a = ts_mesh_id t \<and> ac_not_before a \<le> now \<and> now < ac_not_after a
       \<and> ac_serial a \<notin> set (ts_revoked_authority_serials t) \<union> set (ab_revoked ?b)"
    if a: "a \<in> set (ts_authorities t')" for a
  proof -
    have "authority_typed a" using a r assms(2) by (auto simp: bundle_formed_def list_all_iff)
    moreover have v: "verify_authority env (ts_root t) a (ts_mesh_id t) now = Ok ()" using a r by blast
    ultimately have "authority_unsigned a \<in> sh_certified h" by (rule certified_authority [OF assms(1)])
    moreover have "ac_serial a \<notin> set (ts_revoked_authority_serials t')"
      using imageI [OF a, of ac_serial] r by (metis IntI empty_iff)
    ultimately show ?thesis using r v unfolding verify_authority_iff by auto
  qed
  then have cert: "authority_unsigned (ab_active ?b) \<in> sh_certified h" using r by simp
  have "m \<in> signed_by_authority h (authority_unsigned (ab_active ?b))"
    using m(2) by (intro signed_by_certified [OF assms(1) cert]) auto
  then have "?b \<in> sh_published h (authority_unsigned (ab_active ?b))"
    using signed_bundle [OF _ cert assms(2) _ m(1)] assms(1) by (simp add: signatures_from_def)
  then show ?thesis using all mesh r by blast
qed

text \<open>(C2) The chain of trust.  Take any trust set that operations build from a Root key and a Mesh, and any
  history of signatures in which nothing is signed with the Root key but certified Authorities.  A
  subject that verifies was issued, in every field, by an Authority the Root certified for this Mesh
  that is valid now and not revoked, and is itself within its validity and not revoked; an accepted
  distribution certificate was bound by such an Authority, and an accepted termination declared by a
  certified and unrevoked Authority of the Mesh within whose validity it is dated.  A bundle that is
  installed, directly or after a resumed revision, was published by its active Authority for this
  Mesh, and the active and every overlapping Authority that come into force were certified by the Root for this
  Mesh, are valid now, and are revoked neither by the trust set nor by the bundle itself.
  A signature made for one of these purposes never serves another.
\<close>

theorem chain_of_trust:
  assumes reach: "(trust_step env)\<^sup>*\<^sup>* (trust_new root mesh) t" and history: "signatures_from env root h"
  shows "(credential_typed c \<and> verify_subject env t c now = Ok () \<longrightarrow>
      (\<exists>a\<in>sh_certified h. subject_unsigned c \<in> sh_issued h a \<and> ua_mesh_id a = mesh \<and> sc_mesh_id c = mesh
         \<and> ua_not_before a \<le> now \<and> now < ua_not_after a \<and> sc_not_before c \<le> now \<and> now < sc_not_after c
         \<and> ua_serial a \<notin> set (ts_revoked_authority_serials t) \<and> sc_serial c \<notin> set (ts_revoked_subject_serials t)))
    \<and> (distribution_typed d \<and> verify_distribution env t d now = Ok () \<longrightarrow>
      (\<exists>a\<in>sh_certified h. (\<exists>e\<in>sh_bound h a. d\<lparr>dc_signature := dc_signature e\<rparr> = e)
         \<and> ua_public_key a = dc_authority_public_key d \<and> ua_mesh_id a = mesh \<and> dc_mesh_id d = mesh
         \<and> ua_not_before a \<le> now \<and> now < ua_not_after a \<and> ua_serial a \<notin> set (ts_revoked_authority_serials t)))
    \<and> (termination_formed m \<and> verify_termination env t m previous now = Ok () \<longrightarrow>
      (\<exists>a\<in>sh_certified h. (\<exists>e\<in>sh_terminated h a. m\<lparr>mt_signature := mt_signature e\<rparr> = e)
         \<and> a = authority_unsigned (mt_authority m) \<and> ua_mesh_id a = mesh \<and> previous < mt_revision m
         \<and> ua_not_before a \<le> mt_terminated_at m \<and> mt_terminated_at m < ua_not_after a
         \<and> mt_terminated_at m \<le> now + 60 \<and> ua_serial a \<notin> set (ts_revoked_authority_serials t)))
    \<and> (bundle_formed (sb_bundle s)
        \<and> (install_authority_bundle env s now t = Ok t' \<or> install_authority_bundle_after_resume env s now t = Ok t') \<longrightarrow>
      sb_bundle s \<in> sh_published h (authority_unsigned (ab_active (sb_bundle s))) \<and> ab_mesh_id (sb_bundle s) = mesh
      \<and> ts_authorities t' = ab_active (sb_bundle s) # ab_overlap (sb_bundle s)
      \<and> (\<forall>a\<in>set (ts_authorities t'). authority_unsigned a \<in> sh_certified h \<and> ac_mesh_id a = mesh
           \<and> ac_not_before a \<le> now \<and> now < ac_not_after a
           \<and> ac_serial a \<notin> set (ts_revoked_authority_serials t) \<union> set (ab_revoked (sb_bundle s))))"
proof -
  have anchor: "ts_root t = root" "ts_mesh_id t = mesh" using reachable_anchor [OF reach] by simp_all
  have rooted: "rooted env t" using reachable_rooted [OF reach] .
  have history': "signatures_from env (ts_root t) h" using history anchor by simp
  show ?thesis
    using subject_chain [OF rooted history', of c now] distribution_chain [OF rooted history', of d now]
      termination_chain [OF history', of m previous now] bundle_chain [OF history', of s now t']
    unfolding anchor installs_def by blast
qed

section \<open>Rotation\<close>

lemma certify_verifies:
  assumes "signing_laws env" "certify env root_seed u = Ok a" "ac_mesh_id a = mesh" "ac_not_before a \<le> now" "now < ac_not_after a"
  shows "verify_authority env (cy_public env root_seed) a mesh now = Ok ()"
proof -
  have "authority_unsigned a = u" "ac_signature a = cy_sign env root_seed (authority_transcript u)"
    using assms(2) by (auto simp: certify_def and_then_Ok_iff authority_unsigned_def)
  then show ?thesis using assms(1,3-5) by (simp add: verify_authority_iff signing_laws_def)
qed

lemma issue_verifies:
  assumes "signing_laws env" "issue env seed u = Ok c" "us_not_before u \<le> now" "now < us_not_after u"
  shows "verify_with_authority env c (cy_public env seed) now = Ok ()"
    and "sc_mesh_id c = us_mesh_id u" "sc_serial c = us_serial u" "sc_role c = subject_id_role (sc_subject c)"
  using assms
  by (cases u; auto simp: issue_def and_then_Ok_iff verify_with_authority_iff signing_laws_def subject_unsigned_def)+

lemma sign_authority_bundle_iff:
  "sign_authority_bundle env seed mesh revision active overlap revoked = Ok s \<longleftrightarrow>
     (\<exists>m. ac_mesh_id active = mesh \<and> ac_public_key active = cy_public env seed
       \<and> sb_bundle s = \<lparr>ab_mesh_id = mesh, ab_revision = revision, ab_active = active,
           ab_overlap = sort_key ac_serial overlap, ab_revoked = sort revoked\<rparr>
       \<and> validate_shape (sb_bundle s) = Ok ()
       \<and> authority_bundle_transcript (sb_bundle s) = (Ok m :: (bytes, credential_error) outcome)
       \<and> sb_signature s = cy_sign env seed m)"
  by (cases s) (auto simp: sign_authority_bundle_def and_then_Ok_iff Let_def)

text \<open>(C33) Rotation works.  Authorities the Root certified for the Mesh, valid now, are put in a bundle
  signed by the active one.  A trust set anchored in the same Root, at an older revision and with
  none of them revoked, installs it: its Authorities are then the active and the overlapping ones
  and its revocations the old ones with those of the bundle.  From then on every credential that one
  of these Authorities issues for the Mesh, valid and not revoked, verifies.
\<close>

theorem authority_rotation:
  assumes laws: "signing_laws env"
    and certs: "\<forall>a\<in>set (active # overlap). (\<exists>u. certify env root_seed u = Ok a) \<and> ac_mesh_id a = mesh
      \<and> ac_not_before a \<le> now \<and> now < ac_not_after a \<and> ac_serial a \<notin> set (ts_revoked_authority_serials t)"
    and sign: "sign_authority_bundle env seed mesh revision active overlap revoked = Ok s"
    and trust: "ts_root t = cy_public env root_seed" "ts_mesh_id t = mesh"
      "\<forall>r. ts_authority_revision t = Some r \<longrightarrow> r < revision"
  shows "\<exists>t'. install_authority_bundle env s now t = Ok t'
    \<and> ts_authorities t' = active # sort_key ac_serial overlap \<and> ts_authority_revision t' = Some revision
    \<and> set (ts_revoked_authority_serials t') = set revoked \<union> set (ts_revoked_authority_serials t)
    \<and> ts_revoked_subject_serials t' = ts_revoked_subject_serials t
    \<and> (\<forall>k u c. cy_public env k \<in> ac_public_key ` set (active # overlap) \<and> issue env k u = Ok c \<and> us_mesh_id u = mesh
         \<and> us_serial u \<notin> set (ts_revoked_subject_serials t) \<and> us_not_before u \<le> now \<and> now < us_not_after u
         \<longrightarrow> verify_subject env t' c now = Ok ())"
proof -
  let ?b = "sb_bundle s"
  obtain m where s: "ac_public_key active = cy_public env seed" "validate_shape ?b = Ok ()"
      "?b = \<lparr>ab_mesh_id = mesh, ab_revision = revision, ab_active = active,
         ab_overlap = sort_key ac_serial overlap, ab_revoked = sort revoked\<rparr>"
      "authority_bundle_transcript ?b = (Ok m :: (bytes, credential_error) outcome)" "sb_signature s = cy_sign env seed m"
    using sign by (auto simp: sign_authority_bundle_iff)
  have verified: "verify_authority env (cy_public env root_seed) a mesh now = Ok ()" if "a \<in> set (active # overlap)" for a
  proof -
    have "\<exists>u. certify env root_seed u = Ok a" "ac_mesh_id a = mesh" "ac_not_before a \<le> now" "now < ac_not_after a"
      using certs that by blast+
    then show ?thesis using certify_verifies [OF laws] by blast
  qed
  let ?r = "(trust_new (ts_root t) mesh)\<lparr>ts_authority_revision := Some revision,
      ts_authorities := active # sort_key ac_serial overlap, ts_revoked_authority_serials := bset_extend (sort revoked) []\<rparr>"
  have accepted: "verify_authority_bundle env (ts_root t) s mesh (ts_authority_revision t) now = Ok ?r"
    using s trust(1,3) verified laws by (auto simp: verify_authority_bundle_iff Let_def signing_laws_def)
  let ?t = "?r\<lparr>ts_revoked_authority_serials :=
      bset_extend (ts_revoked_authority_serials t) (ts_revoked_authority_serials ?r),
      ts_revoked_subject_serials := ts_revoked_subject_serials t\<rparr>"
  have fresh: "ac_serial ` set (active # overlap) \<inter> set (ts_revoked_authority_serials t) = {}"
    using certs by auto
  have install: "install_authority_bundle env s now t = Ok ?t"
    using accepted fresh trust(2) by (auto simp: install_authority_bundle_def install_replacement_iff)
  have disjoint: "ac_serial ` set (active # overlap) \<inter> set revoked = {}"
    using s(2,3) by (auto simp: validate_shape_iff)
  have subject: "verify_subject env ?t c now = Ok ()"
    if k: "cy_public env k \<in> ac_public_key ` set (active # overlap)" and c: "issue env k u = Ok c" "us_mesh_id u = mesh"
      "us_serial u \<notin> set (ts_revoked_subject_serials t)" "us_not_before u \<le> now" "now < us_not_after u" for k u c
  proof -
    obtain a where a: "a \<in> set (active # overlap)" "ac_public_key a = cy_public env k" using k by fastforce
    have "vouches env ?t c now a"
      using verified [OF a(1)] issue_verifies(1) [OF laws c(1,4,5)] a fresh disjoint trust(1)
      by (auto simp: vouches_def trust_new_def)
    then show ?thesis
      using a(1) issue_verifies(2-4) [OF laws c(1,4,5)] c(2,3)
      by (auto simp: verify_subject_iff subject_admissible_def trust_new_def)
  qed
  show ?thesis
    using install subject by (intro exI [of _ ?t]) (auto simp: trust_new_def)
qed

text \<open>Authority bundles and terminations have one transport form.  Decoding returns on every byte
  string and accepts exactly the encodings of canonical, well-formed values: at most eight
  overlapping Authorities and 65536 revocations, both strictly ascending, disjoint and of one Mesh,
  with nothing left over.
\<close>

theorem bundles_canonical:
  "(bundle_decode env bs = Ok s \<longleftrightarrow> bundle_encode s = Ok bs \<and> bundle_typed env s)
   \<and> (termination_decode env bs = Ok m \<longleftrightarrow>
        termination_encode m = bs \<and> mt_revision m \<le> u64_max \<and> mt_terminated_at m \<le> u64_max
        \<and> authority_typed (mt_authority m) \<and> authority_sound env (mt_authority m) \<and> length (mt_signature m) = 64)
   \<and> bundle_decode env bs \<noteq> Abort \<and> termination_decode env bs \<noteq> Abort"
proof -
  have "termination_decode env bs \<noteq> Abort"
    by (simp add: termination_decode_def slice_simps and_then_Abort_iff)
  then show ?thesis by (simp add: bundle_decode_iff termination_decode_iff bundle_decode_total)
qed

text \<open>
  The lock around a trust set is never poisoned by installing a bundle: the installation returns, and
  each write is one step of the trust set or leaves it as it was.
\<close>

lemma install_total: "install_authority_bundle env s now t \<noteq> Abort"
proof -
  have overlap: "verify_authorities env root mesh now as \<noteq> Abort" for root mesh as
    by (induction as) (simp_all add: and_then_Abort_iff)
  have transcript: "authority_bundle_transcript b \<noteq> (Abort :: (bytes, credential_error) outcome)"
    if "validate_shape b = Ok ()" for b
    using that by (auto simp: authority_bundle_transcript_def put_count_def validate_shape_iff u32_max_def and_then_Abort_iff)
  show ?thesis
    by (auto simp: install_authority_bundle_def verify_authority_bundle_def Let_def and_then_Abort_iff overlap
        install_replacement_def dest: transcript split: if_splits)
qed

lemma dynamic_writes_step:
  assumes "list_all authority_typed (ab_active (sb_bundle s) # ab_overlap (sb_bundle s))"
  shows "\<exists>t' r. dynamic_install_authority_bundle env s now (Guarded t) = (Guarded t', r)
      \<and> (t' = t \<and> r \<noteq> Ok () \<or> trust_step env t t' \<and> r = Ok ())"
    and "\<exists>t'. fst (dynamic_revoke_subject serial (Guarded t)) = Guarded t' \<and> trust_step env t t'"
proof -
  show "\<exists>t' r. dynamic_install_authority_bundle env s now (Guarded t) = (Guarded t', r)
      \<and> (t' = t \<and> r \<noteq> Ok () \<or> trust_step env t t' \<and> r = Ok ())"
    using step_install [OF assms, of env now t] install_total [of env s now t]
    by (auto simp: dynamic_install_authority_bundle_def split: outcome.splits)
  show "\<exists>t'. fst (dynamic_revoke_subject serial (Guarded t)) = Guarded t' \<and> trust_step env t t'"
    by (auto simp: dynamic_revoke_subject_def intro: step_revoke_subject)
qed

section \<open>Concrete runs\<close>

text \<open>A log of signatures as the signature scheme, and one Authority that issued one Relay credential.\<close>

definition trust_root :: bytes where "trust_root = replicate 32 1"
definition trust_mesh :: uuid where "trust_mesh = replicate 16 3"

definition trust_authority :: authority_certificate where
  "trust_authority = \<lparr>ac_mesh_id = trust_mesh, ac_serial = replicate 16 4, ac_public_key = replicate 32 2,
     ac_not_before = 10, ac_not_after = 50, ac_signature = replicate 64 1\<rparr>"

definition trust_subject :: subject_credential where
  "trust_subject = \<lparr>sc_role = Role_Relay, sc_mesh_id = trust_mesh, sc_subject = Subject_Relay (replicate 16 5),
     sc_identity_public_key = replicate 32 0, sc_public_noise_key = replicate 32 6,
     sc_wireguard_public_key = replicate 32 0, sc_serial = replicate 16 7, sc_not_before = 20,
     sc_not_after = 90, sc_signature = replicate 64 1\<rparr>"

definition trust_log :: "(bytes \<times> bytes) list" where
  "trust_log = [(trust_root, authority_transcript (authority_unsigned trust_authority)),
     (replicate 32 2, subject_transcript (subject_unsigned trust_subject))]"

definition trust_env :: crypto_env where
  "trust_env = \<lparr>cy_uuid_v4 = (\<lambda>_. True), cy_contributory = (\<lambda>k. \<not> all_zero k), cy_valid_key = (\<lambda>_. True),
     cy_public = (\<lambda>seed. seed), cy_sign = (\<lambda>_ _. replicate 64 1),
     cy_verify = (\<lambda>key message signature. (key, message) \<in> set trust_log),
     cy_verify_strict = (\<lambda>key message signature. (key, message) \<in> set trust_log)\<rparr>"

definition trust_history :: signing_history where
  "trust_history = \<lparr>sh_log = set trust_log, sh_certified = {authority_unsigned trust_authority},
     sh_issued = (\<lambda>_. {subject_unsigned trust_subject}), sh_bound = (\<lambda>_. {}), sh_published = (\<lambda>_. {}),
     sh_terminated = (\<lambda>_. {})\<rparr>"

definition trust_sample :: trust_set where
  "trust_sample = (trust_new trust_root trust_mesh)\<lparr>ts_authorities := [trust_authority]\<rparr>"

lemma trust_keys_differ: "replicate 32 1 \<noteq> (replicate 32 2 :: bytes)"
  by (simp add: numeral_eq_Suc)

lemma trust_sample_reachable: "(trust_step trust_env)\<^sup>*\<^sup>* (trust_new trust_root trust_mesh) trust_sample"
proof (rule r_into_rtranclp, rule step_add)
  show "authority_typed trust_authority"
    by (simp add: authority_typed_def trust_authority_def trust_mesh_def u64_max_def)
  have "verify_authority trust_env trust_root trust_authority trust_mesh 30 = Ok ()"
    by (simp add: verify_authority_iff trust_env_def trust_log_def) (simp add: trust_authority_def)
  then show "add_authority trust_env trust_authority 30 (trust_new trust_root trust_mesh) = Ok trust_sample"
    by (simp add: add_authority_def trust_new_def trust_sample_def)
qed

lemma trust_history_signs: "signatures_from trust_env trust_root trust_history"
proof -
  have keys: "trust_root \<noteq> replicate 32 2" using trust_keys_differ by (simp add: trust_root_def)
  have typed: "history_typed trust_history"
    by (simp add: history_typed_def trust_history_def unsigned_authority_typed_def unsigned_subject_typed_def
        subject_unsigned_def trust_authority_def trust_subject_def trust_mesh_def u64_max_def)
  have key: "ac_public_key trust_authority = replicate 32 2" by (simp add: trust_authority_def)
  show ?thesis
    using typed keys
    by (auto simp: signatures_from_def trust_history_def trust_env_def trust_log_def signed_by_authority_def key)
qed

lemma trust_sample_valid: "subject_valid_until trust_env trust_sample trust_subject 30 = Ok 50"
proof -
  have keys: "validate_subject_keys trust_env (sc_subject trust_subject) (sc_identity_public_key trust_subject)
      (sc_public_noise_key trust_subject) (sc_wireguard_public_key trust_subject) = Ok ()"
    by (simp add: validate_subject_keys_def trust_subject_def all_zero_def list_all_iff)
  have "verify_authority trust_env trust_root trust_authority trust_mesh 30 = Ok ()"
    by (simp add: verify_authority_iff trust_env_def trust_log_def) (simp add: trust_authority_def)
  moreover have "verify_with_authority trust_env trust_subject (ac_public_key trust_authority) 30 = Ok ()"
    unfolding verify_with_authority_iff keys
    by (simp add: trust_env_def trust_log_def) (simp add: trust_authority_def trust_subject_def)
  ultimately have "vouches trust_env trust_sample trust_subject 30 trust_authority"
    by (simp add: vouches_def trust_sample_def trust_new_def)
  then show ?thesis
    by (simp add: subject_valid_until_iff trust_sample_def trust_new_def subject_admissible_def)
      (simp add: trust_subject_def trust_authority_def)
qed

theorem valid_until_holds_witness:
  "subject_valid_until trust_env trust_sample trust_subject 30 = Ok 50
   \<and> verify_subject trust_env trust_sample trust_subject 49 = Ok ()"
  using valid_until_holds [OF trust_sample_valid, of 49] trust_sample_valid by simp

theorem chain_of_trust_witness:
  "verify_subject trust_env trust_sample trust_subject 30 = Ok ()
   \<and> (\<exists>a\<in>sh_certified trust_history. subject_unsigned trust_subject \<in> sh_issued trust_history a
        \<and> ua_not_before a \<le> 30 \<and> 30 < ua_not_after a)"
proof -
  have "verify_subject trust_env trust_sample trust_subject 30 = Ok ()"
    using trust_sample_valid by (simp add: verify_subject_def)
  moreover have "credential_typed trust_subject"
    by (simp add: credential_typed_def trust_subject_def trust_mesh_def u64_max_def)
  ultimately show ?thesis
    using chain_of_trust [OF trust_sample_reachable trust_history_signs, of trust_subject 30] by blast
qed

theorem trust_moves_forward_witness:
  "(trust_step trust_env)\<^sup>*\<^sup>* trust_sample (revoke_subject (replicate 16 7) trust_sample)
   \<and> trust_below trust_sample (revoke_subject (replicate 16 7) trust_sample)
   \<and> verify_subject trust_env (revoke_subject (replicate 16 7) trust_sample) trust_subject 30 \<noteq> Ok ()"
proof -
  let ?t = "revoke_subject (replicate 16 7) trust_sample"
  have run: "(trust_step trust_env)\<^sup>*\<^sup>* trust_sample ?t" by (rule r_into_rtranclp, rule step_revoke_subject)
  have "verify_subject trust_env ?t trust_subject 30 \<noteq> Ok ()"
  proof -
    have serial: "sc_serial trust_subject \<in> set (ts_revoked_subject_serials ?t)"
      by (simp add: revoke_subject_def trust_subject_def)
    show ?thesis using trust_moves_forward [where c = trust_subject and now = 30, OF rtranclp.rtrancl_refl [of "trust_step trust_env" ?t]] serial by blast
  qed
  then show ?thesis using run trust_moves_forward [OF run] by blast
qed

text \<open>Signatures that repeat what they sign: a Root that certifies one Authority, which publishes itself.\<close>

definition rotation_env :: crypto_env where
  "rotation_env = \<lparr>cy_uuid_v4 = (\<lambda>_. True), cy_contributory = (\<lambda>k. \<not> all_zero k), cy_valid_key = (\<lambda>_. True),
     cy_public = (\<lambda>seed. seed), cy_sign = (\<lambda>seed message. seed @ message),
     cy_verify = (\<lambda>key message signature. signature = key @ message),
     cy_verify_strict = (\<lambda>key message signature. signature = key @ message)\<rparr>"

definition rotation_authority :: authority_certificate where
  "rotation_authority = trust_authority\<lparr>ac_signature :=
     trust_root @ authority_transcript (authority_unsigned trust_authority)\<rparr>"

definition rotation_bundle :: "signed_authority_bundle" where
  "rotation_bundle = (let b = \<lparr>ab_mesh_id = trust_mesh, ab_revision = 8, ab_active = rotation_authority,
       ab_overlap = [], ab_revoked = [replicate 16 9]\<rparr>
     in \<lparr>sb_bundle = b, sb_signature = replicate 32 2 @ AUTHORITY_BUNDLE_DOMAIN @ trust_mesh @ to_be 8 8
          @ authority_encode rotation_authority @ to_be 4 0 @ to_be 4 1 @ replicate 16 9\<rparr>)"

theorem authority_rotation_witness:
  "\<exists>t'. install_authority_bundle rotation_env rotation_bundle 30 (trust_new trust_root trust_mesh) = Ok t'
    \<and> ts_authorities t' = [rotation_authority] \<and> ts_authority_revision t' = Some 8
    \<and> set (ts_revoked_authority_serials t') = {replicate 16 9}"
proof -
  have fields: "ac_mesh_id rotation_authority = trust_mesh" "ac_public_key rotation_authority = replicate 32 2"
      "ac_not_before rotation_authority = 10" "ac_not_after rotation_authority = 50" "ac_serial rotation_authority = replicate 16 4"
    by (simp_all add: rotation_authority_def trust_authority_def)
  have laws: "signing_laws rotation_env" by (simp add: signing_laws_def rotation_env_def)
  have "certify rotation_env trust_root (authority_unsigned trust_authority) = Ok rotation_authority"
    by (simp add: certify_def validate_interval_def rotation_env_def rotation_authority_def)
      (simp add: trust_authority_def authority_unsigned_def)
  then have certs: "\<forall>a\<in>set [rotation_authority]. (\<exists>u. certify rotation_env trust_root u = Ok a) \<and> ac_mesh_id a = trust_mesh
      \<and> ac_not_before a \<le> 30 \<and> 30 < ac_not_after a
      \<and> ac_serial a \<notin> set (ts_revoked_authority_serials (trust_new trust_root trust_mesh))"
    by (auto simp: fields trust_new_def)
  have serials: "replicate 16 4 \<noteq> (replicate 16 9 :: bytes)" by simp
  have sign: "sign_authority_bundle rotation_env (replicate 32 2) trust_mesh 8 rotation_authority [] [replicate 16 9]
      = Ok rotation_bundle"
    using serials
    by (simp add: sign_authority_bundle_iff rotation_bundle_def Let_def validate_shape_iff fields rotation_env_def
        authority_bundle_transcript_def put_count_def u32_max_def)
  have new: "ts_root (trust_new trust_root trust_mesh) = cy_public rotation_env trust_root"
      "ts_mesh_id (trust_new trust_root trust_mesh) = trust_mesh"
      "\<forall>r. ts_authority_revision (trust_new trust_root trust_mesh) = Some r \<longrightarrow> r < 8"
      "ts_revoked_authority_serials (trust_new trust_root trust_mesh) = []"
    by (simp_all add: trust_new_def rotation_env_def)
  show ?thesis
    using authority_rotation [OF laws certs sign new(1-3)] by (force simp: new(4))
qed

end
