(* ===== verification/IdentityProofs.thy ===== *)
theory IdentityProofs
  imports Credentials
begin

text \<open>
  Proofs a Peer makes with its own identity key
  (\<open>crates/peerward-credentials/src/identity_claim.rs\<close> and \<open>rotation_proof.rs\<close>): the
  ticket-bound claim with which it joins, the request to rotate its credential, signed with the
  current identity, and the activation of the new one, signed with the new identity.  Strings are
  their UTF-8 bytes.
\<close>

definition JOIN_CLAIM_DOMAIN :: bytes where
  "JOIN_CLAIM_DOMAIN = domain ''peerward/join-claim/v2''"

definition ROTATION_REQUEST_DOMAIN :: bytes where
  "ROTATION_REQUEST_DOMAIN = domain ''peerward/credential-rotation/request/v2''"

definition ROTATION_ACTIVATION_DOMAIN :: bytes where
  "ROTATION_ACTIVATION_DOMAIN = domain ''peerward/credential-rotation/activate/v1''"

section \<open>Join claims\<close>

record join_claim_proof =
  jc_schema_version :: nat
  jc_claim_id :: uuid
  jc_ticket_digest :: bytes
  jc_identity_public_key :: bytes
  jc_session_public_key :: bytes
  jc_wireguard_public_key :: bytes
  jc_client_version :: bytes
  jc_supported_wire_major :: nat
  jc_nonce :: bytes
  jc_device_name :: bytes
  jc_device_model :: bytes
  jc_platform :: bytes
  jc_platform_version :: bytes

text \<open>\<open>uuid_version env\<close> is \<open>Uuid::get_version_num\<close>, which reads the version digit only.\<close>

definition join_claim_validate ::
  "crypto_env \<Rightarrow> (uuid \<Rightarrow> nat) \<Rightarrow> join_claim_proof \<Rightarrow> (unit, credential_error) outcome" where
  "join_claim_validate env uuid_version p =
     (if jc_schema_version p \<noteq> 2 \<or> uuid_version (jc_claim_id p) \<noteq> 4
         \<or> all_zero (jc_identity_public_key p) \<or> all_zero (jc_session_public_key p)
         \<or> \<not> cy_contributory env (jc_wireguard_public_key p)
         \<or> jc_wireguard_public_key p = jc_session_public_key p
         \<or> jc_wireguard_public_key p = jc_identity_public_key p
         \<or> jc_client_version p = [] \<or> 64 < length (jc_client_version p)
         \<or> jc_supported_wire_major p = 0
         \<or> \<not> (16 \<le> length (jc_nonce p) \<and> length (jc_nonce p) \<le> 64)
         \<or> jc_device_name p = [] \<or> 128 < length (jc_device_name p)
         \<or> 128 < length (jc_device_model p)
         \<or> jc_platform p = [] \<or> 32 < length (jc_platform p)
         \<or> 64 < length (jc_platform_version p)
      then Err Credential_Malformed else Ok ())"

definition join_claim_bytes :: "bytes \<Rightarrow> (bytes, credential_error) outcome" where
  "join_claim_bytes value =
     (if length value \<le> u32_max then Ok (to_be 4 (length value) @ value) else Err Credential_Malformed)"

definition join_claim_transcript ::
  "crypto_env \<Rightarrow> (uuid \<Rightarrow> nat) \<Rightarrow> join_claim_proof \<Rightarrow> (bytes, credential_error) outcome" where
  "join_claim_transcript env uuid_version p =
     and_then (join_claim_validate env uuid_version p) (\<lambda>_.
     and_then (join_claim_bytes (jc_client_version p)) (\<lambda>client_version.
     and_then (join_claim_bytes (jc_nonce p)) (\<lambda>nonce.
     and_then (join_claim_bytes (jc_device_name p)) (\<lambda>device_name.
     and_then (join_claim_bytes (jc_device_model p)) (\<lambda>device_model.
     and_then (join_claim_bytes (jc_platform p)) (\<lambda>platform.
     and_then (join_claim_bytes (jc_platform_version p)) (\<lambda>platform_version.
     Ok (JOIN_CLAIM_DOMAIN @ to_be 4 (jc_schema_version p) @ jc_claim_id p @ jc_ticket_digest p
         @ jc_identity_public_key p @ jc_session_public_key p @ jc_wireguard_public_key p
         @ to_be 4 (jc_supported_wire_major p) @ client_version @ nonce @ device_name @ device_model
         @ platform @ platform_version))))))))"

definition sign_join_claim ::
  "crypto_env \<Rightarrow> (uuid \<Rightarrow> nat) \<Rightarrow> bytes \<Rightarrow> join_claim_proof \<Rightarrow> (bytes, credential_error) outcome" where
  "sign_join_claim env uuid_version seed p =
     and_then (join_claim_transcript env uuid_version p) (\<lambda>transcript. Ok (cy_sign env seed transcript))"

definition verify_join_claim ::
  "crypto_env \<Rightarrow> (uuid \<Rightarrow> nat) \<Rightarrow> join_claim_proof \<Rightarrow> bytes \<Rightarrow> (unit, credential_error) outcome" where
  "verify_join_claim env uuid_version p signature =
     (if \<not> cy_valid_key env (jc_identity_public_key p) then Err Credential_InvalidKey
      else and_then (join_claim_transcript env uuid_version p) (\<lambda>transcript.
        if cy_verify env (jc_identity_public_key p) transcript signature then Ok ()
        else Err Credential_InvalidSignature))"

section \<open>Rotation\<close>

record rotation_request_proof =
  rr_mesh_id :: uuid
  rr_peer_id :: uuid
  rr_rotation_id :: uuid
  rr_current_serial :: uuid
  rr_identity_public_key :: bytes
  rr_session_public_key :: bytes
  rr_wireguard_public_key :: bytes

record rotation_activation_proof =
  ra_mesh_id :: uuid
  ra_peer_id :: uuid
  ra_rotation_id :: uuid
  ra_issued_serial :: uuid
  ra_challenge :: bytes

definition rotation_request_transcript ::
  "crypto_env \<Rightarrow> rotation_request_proof \<Rightarrow> (bytes, credential_error) outcome" where
  "rotation_request_transcript env p =
     (if all_zero (rr_identity_public_key p) \<or> all_zero (rr_session_public_key p)
         \<or> \<not> cy_contributory env (rr_wireguard_public_key p)
         \<or> rr_wireguard_public_key p = rr_session_public_key p
         \<or> rr_wireguard_public_key p = rr_identity_public_key p
      then Err Credential_InvalidKey
      else Ok (ROTATION_REQUEST_DOMAIN @ rr_mesh_id p @ rr_peer_id p @ rr_rotation_id p
               @ rr_current_serial p @ rr_identity_public_key p @ rr_session_public_key p
               @ rr_wireguard_public_key p))"

definition sign_rotation_request ::
  "crypto_env \<Rightarrow> bytes \<Rightarrow> rotation_request_proof \<Rightarrow> (bytes, credential_error) outcome" where
  "sign_rotation_request env seed p =
     and_then (rotation_request_transcript env p) (\<lambda>transcript. Ok (cy_sign env seed transcript))"

definition verify_rotation_request ::
  "crypto_env \<Rightarrow> bytes \<Rightarrow> rotation_request_proof \<Rightarrow> bytes \<Rightarrow> (unit, credential_error) outcome" where
  "verify_rotation_request env current_identity_public_key p signature =
     (if \<not> cy_valid_key env current_identity_public_key then Err Credential_InvalidKey
      else and_then (rotation_request_transcript env p) (\<lambda>transcript.
        if cy_verify env current_identity_public_key transcript signature then Ok ()
        else Err Credential_InvalidSignature))"

definition rotation_activation_transcript :: "rotation_activation_proof \<Rightarrow> bytes" where
  "rotation_activation_transcript p =
     ROTATION_ACTIVATION_DOMAIN @ ra_mesh_id p @ ra_peer_id p @ ra_rotation_id p @ ra_issued_serial p
     @ ra_challenge p"

definition sign_rotation_activation :: "crypto_env \<Rightarrow> bytes \<Rightarrow> rotation_activation_proof \<Rightarrow> bytes" where
  "sign_rotation_activation env seed p = cy_sign env seed (rotation_activation_transcript p)"

definition verify_rotation_activation ::
  "crypto_env \<Rightarrow> bytes \<Rightarrow> rotation_activation_proof \<Rightarrow> bytes \<Rightarrow> (unit, credential_error) outcome" where
  "verify_rotation_activation env new_identity_public_key p signature =
     check_signature env Credential_InvalidKey new_identity_public_key (rotation_activation_transcript p) signature"

section \<open>A proof is for one purpose\<close>

definition join_claim_typed :: "join_claim_proof \<Rightarrow> bool" where
  "join_claim_typed p \<longleftrightarrow>
     jc_schema_version p \<le> u32_max \<and> length (jc_claim_id p) = 16 \<and> length (jc_ticket_digest p) = 32
     \<and> length (jc_identity_public_key p) = 32 \<and> length (jc_session_public_key p) = 32
     \<and> length (jc_wireguard_public_key p) = 32 \<and> jc_supported_wire_major p \<le> u32_max"

definition rotation_request_typed :: "rotation_request_proof \<Rightarrow> bool" where
  "rotation_request_typed p \<longleftrightarrow>
     length (rr_mesh_id p) = 16 \<and> length (rr_peer_id p) = 16 \<and> length (rr_rotation_id p) = 16
     \<and> length (rr_current_serial p) = 16 \<and> length (rr_identity_public_key p) = 32
     \<and> length (rr_session_public_key p) = 32 \<and> length (rr_wireguard_public_key p) = 32"

definition rotation_activation_typed :: "rotation_activation_proof \<Rightarrow> bool" where
  "rotation_activation_typed p \<longleftrightarrow>
     length (ra_mesh_id p) = 16 \<and> length (ra_peer_id p) = 16 \<and> length (ra_rotation_id p) = 16
     \<and> length (ra_issued_serial p) = 16 \<and> length (ra_challenge p) = 32"

text \<open>A length-prefixed string is a prefix code, so that strings in sequence can be told apart.\<close>

interpretation sized_code: prefix_code "\<lambda>b. to_be 4 (length b) @ b" "\<lambda>b. length b \<le> u32_max"
  by (rule prefix_code_sized)

lemma sized_cancel:
  assumes "length x \<le> u32_max" "length y \<le> u32_max"
  shows "to_be 4 (length x) @ x @ u = to_be 4 (length y) @ y @ v \<longleftrightarrow> x = y \<and> u = v"
  using sized_code.cancel [OF assms, of u v] by auto

lemma join_claim_bytes_iff:
  "join_claim_bytes value = Ok bs \<longleftrightarrow> length value \<le> u32_max \<and> bs = to_be 4 (length value) @ value"
  by (auto simp: join_claim_bytes_def)

lemma u32_inject: "x \<le> u32_max \<Longrightarrow> y \<le> u32_max \<Longrightarrow> to_be 4 x = to_be 4 y \<longleftrightarrow> x = y"
  using to_be_inj [of x 4 y] by (auto simp: u32_max_def)

lemma join_claim_transcript_inject:
  assumes typed: "join_claim_typed p" "join_claim_typed q"
    and "join_claim_transcript env uuid_version p = Ok m" "join_claim_transcript env uuid_version q = Ok m"
  shows "p = q"
proof -
  let ?tail = "\<lambda>p. concat (map (\<lambda>b. to_be 4 (length b) @ b)
    [jc_client_version p, jc_nonce p, jc_device_name p, jc_device_model p, jc_platform p, jc_platform_version p])"
  have sizes: "length (jc_client_version r) \<le> u32_max \<and> length (jc_nonce r) \<le> u32_max
      \<and> length (jc_device_name r) \<le> u32_max \<and> length (jc_device_model r) \<le> u32_max
      \<and> length (jc_platform r) \<le> u32_max \<and> length (jc_platform_version r) \<le> u32_max"
    if "join_claim_transcript env uuid_version r = Ok m" for r
    using that by (auto simp: join_claim_transcript_def and_then_Ok_iff join_claim_bytes_iff)
  have tails: "?tail p = ?tail q" and head: "jc_schema_version p = jc_schema_version q" "jc_claim_id p = jc_claim_id q"
      "jc_ticket_digest p = jc_ticket_digest q" "jc_identity_public_key p = jc_identity_public_key q"
      "jc_session_public_key p = jc_session_public_key q" "jc_wireguard_public_key p = jc_wireguard_public_key q"
      "jc_supported_wire_major p = jc_supported_wire_major q"
    using assms by (auto simp: join_claim_transcript_def and_then_Ok_iff join_claim_bytes_iff join_claim_typed_def u32_inject)
  have "[jc_client_version p, jc_nonce p, jc_device_name p, jc_device_model p, jc_platform p, jc_platform_version p]
      = [jc_client_version q, jc_nonce q, jc_device_name q, jc_device_model q, jc_platform q, jc_platform_version q] \<and> [] = ([] :: bytes)"
    using sizes [OF assms(3)] sizes [OF assms(4)] tails by (intro sized_code.cancel_list) simp_all
  then show ?thesis using head by (cases p; cases q) simp
qed

lemma rotation_transcript_inject:
  "rotation_request_typed p \<Longrightarrow> rotation_request_typed q \<Longrightarrow> rotation_request_transcript env p = Ok m \<Longrightarrow>
   rotation_request_transcript env q = Ok m \<Longrightarrow> p = q"
  "rotation_activation_typed a \<Longrightarrow> rotation_activation_typed b \<Longrightarrow>
   rotation_activation_transcript a = rotation_activation_transcript b \<Longrightarrow> a = b"
  by (cases p; cases q; auto simp: rotation_request_transcript_def rotation_request_typed_def split: if_splits)
    (cases a; cases b; simp add: rotation_activation_transcript_def rotation_activation_typed_def)

lemma proof_domains_apart:
  "JOIN_CLAIM_DOMAIN @ u \<noteq> ROTATION_REQUEST_DOMAIN @ v" "JOIN_CLAIM_DOMAIN @ u \<noteq> ROTATION_ACTIVATION_DOMAIN @ v"
  "ROTATION_REQUEST_DOMAIN @ u \<noteq> ROTATION_ACTIVATION_DOMAIN @ v"
  unfolding JOIN_CLAIM_DOMAIN_def ROTATION_REQUEST_DOMAIN_def ROTATION_ACTIVATION_DOMAIN_def
  by (rule domain_distinct; simp)+

lemma transcript_domains:
  "join_claim_transcript env uuid_version p = Ok m \<Longrightarrow> \<exists>u. m = JOIN_CLAIM_DOMAIN @ u"
  "rotation_request_transcript env r = Ok m \<Longrightarrow> \<exists>u. m = ROTATION_REQUEST_DOMAIN @ u"
  by (auto simp: join_claim_transcript_def and_then_Ok_iff rotation_request_transcript_def split: if_splits)

text \<open>
  What the holder of an identity key signed, and that a signature somebody presents is not forged:
  the key accepts it for a message only if the holder signed that message, which is the transcript
  of one of its proofs.  It speaks of the one signature presented, since a key accepts every message for the
  signature its holder could make of it.
\<close>

definition identity_signed ::
  "crypto_env \<Rightarrow> (uuid \<Rightarrow> nat) \<Rightarrow> bytes \<Rightarrow> bytes \<Rightarrow> join_claim_proof set \<Rightarrow> rotation_request_proof set
    \<Rightarrow> rotation_activation_proof set \<Rightarrow> bool" where
  "identity_signed env uuid_version key signature claims requests activations \<longleftrightarrow>
     (\<forall>p\<in>claims. join_claim_typed p) \<and> (\<forall>p\<in>requests. rotation_request_typed p)
     \<and> (\<forall>p\<in>activations. rotation_activation_typed p)
     \<and> (\<forall>message. cy_verify env key message signature \<longrightarrow>
          (\<exists>p\<in>claims. join_claim_transcript env uuid_version p = Ok message)
          \<or> (\<exists>p\<in>requests. rotation_request_transcript env p = Ok message)
          \<or> (\<exists>p\<in>activations. rotation_activation_transcript p = message))"

text \<open>(C34) An identity proof is for one purpose.  What the holder of a key signs as a join claim, a rotation request or an
  activation verifies under its public key.  And a proof that verifies under a key with a signature
  nobody forged - one the key accepts only for proofs its holder signed - was signed by that holder in every field and
  for that very purpose: a signature made for a claim, a request or an activation never serves as another of them.
\<close>

theorem identity_proofs_bind:
  assumes laws: "signing_laws env"
    and signed: "identity_signed env uuid_version key signature claims requests activations"
  shows "(join_claim_typed p \<and> jc_identity_public_key p = key
            \<and> verify_join_claim env uuid_version p signature = Ok () \<longrightarrow> p \<in> claims)
    \<and> (rotation_request_typed r \<and> verify_rotation_request env key r signature = Ok () \<longrightarrow> r \<in> requests)
    \<and> (rotation_activation_typed a \<and> verify_rotation_activation env key a signature = Ok () \<longrightarrow> a \<in> activations)
    \<and> (sign_join_claim env uuid_version seed p = Ok g \<and> jc_identity_public_key p = cy_public env seed \<longrightarrow>
         verify_join_claim env uuid_version p g = Ok ())
    \<and> (sign_rotation_request env seed r = Ok g \<longrightarrow> verify_rotation_request env (cy_public env seed) r g = Ok ())
    \<and> verify_rotation_activation env (cy_public env seed) a (sign_rotation_activation env seed a) = Ok ()"
proof -
  note signed' = signed [unfolded identity_signed_def]
  have origin: "(\<exists>p\<in>claims. join_claim_transcript env uuid_version p = Ok m)
      \<or> (\<exists>p\<in>requests. rotation_request_transcript env p = Ok m) \<or> (\<exists>p\<in>activations. rotation_activation_transcript p = m)"
    if "cy_verify env key m signature" for m using signed' that by blast
  have claim: "p \<in> claims"
    if typed: "join_claim_typed p" and key: "jc_identity_public_key p = key"
      and v: "verify_join_claim env uuid_version p signature = Ok ()"
  proof -
    obtain m where m: "join_claim_transcript env uuid_version p = Ok m" "cy_verify env key m signature"
      using v key by (auto simp: verify_join_claim_def and_then_Ok_iff split: if_splits)
    obtain q where "q \<in> claims" "join_claim_transcript env uuid_version q = Ok m"
      using origin [OF m(2)] transcript_domains(1) [OF m(1)] proof_domains_apart(1,2) proof_domains_apart(2) [symmetric]
      by (auto simp: rotation_activation_transcript_def dest!: transcript_domains(2))
    then show ?thesis using join_claim_transcript_inject [OF typed _ m(1)] signed' by auto
  qed
  have request: "r \<in> requests"
    if typed: "rotation_request_typed r" and v: "verify_rotation_request env key r signature = Ok ()"
  proof -
    obtain m where m: "rotation_request_transcript env r = Ok m" "cy_verify env key m signature"
      using v by (auto simp: verify_rotation_request_def and_then_Ok_iff split: if_splits)
    obtain q where "q \<in> requests" "rotation_request_transcript env q = Ok m"
      using origin [OF m(2)] transcript_domains(2) [OF m(1)] proof_domains_apart(1,3) [symmetric] proof_domains_apart(3)
      by (auto simp: rotation_activation_transcript_def dest!: transcript_domains(1))
    then show ?thesis using rotation_transcript_inject(1) [OF typed _ m(1)] signed' by auto
  qed
  have activation: "a \<in> activations"
    if typed: "rotation_activation_typed a" and v: "verify_rotation_activation env key a signature = Ok ()"
  proof -
    have m: "cy_verify env key (rotation_activation_transcript a) signature"
      using v by (auto simp: verify_rotation_activation_def check_signature_def split: if_splits)
    then obtain b where "b \<in> activations" "rotation_activation_transcript b = rotation_activation_transcript a"
      using origin [OF m] proof_domains_apart(2,3) [symmetric]
      by (fastforce simp: rotation_activation_transcript_def dest!: transcript_domains)
    then show ?thesis using rotation_transcript_inject(2) [OF typed, of b] signed' by auto
  qed
  show ?thesis
    using claim request activation laws
    by (auto simp: sign_join_claim_def verify_join_claim_def sign_rotation_request_def verify_rotation_request_def
        verify_rotation_activation_def sign_rotation_activation_def check_signature_def and_then_Ok_iff signing_laws_def)
qed

section \<open>A concrete identity\<close>

definition proof_activation :: rotation_activation_proof where
  "proof_activation = \<lparr>ra_mesh_id = replicate 16 1, ra_peer_id = replicate 16 2, ra_rotation_id = replicate 16 3,
     ra_issued_serial = replicate 16 4, ra_challenge = replicate 32 5\<rparr>"

text \<open>Signatures repeat key and message, and every message can be signed; the holder of this seed activated one rotation.\<close>

definition proof_seed :: bytes where "proof_seed = replicate 32 8"

definition proof_env :: crypto_env where
  "proof_env = \<lparr>cy_uuid_v4 = (\<lambda>_. True), cy_contributory = (\<lambda>_. True), cy_valid_key = (\<lambda>_. True),
     cy_public = (\<lambda>seed. 9 # seed), cy_sign = (\<lambda>seed message. 9 # seed @ message),
     cy_verify = (\<lambda>key message signature. signature = key @ message), cy_verify_strict = (\<lambda>_ _ _. False)\<rparr>"

abbreviation proof_signature :: bytes where
  "proof_signature \<equiv> sign_rotation_activation proof_env proof_seed proof_activation"

theorem identity_proofs_bind_witness:
  "signing_laws proof_env
   \<and> identity_signed proof_env (\<lambda>_. 4) (cy_public proof_env proof_seed) proof_signature {} {} {proof_activation}
   \<and> verify_rotation_activation proof_env (cy_public proof_env proof_seed) proof_activation proof_signature = Ok ()
   \<and> {a. rotation_activation_typed a
        \<and> verify_rotation_activation proof_env (cy_public proof_env proof_seed) a proof_signature = Ok ()} \<subseteq> {proof_activation}
   \<and> {r. rotation_request_typed r
        \<and> verify_rotation_request proof_env (cy_public proof_env proof_seed) r proof_signature = Ok ()} = {}"
proof -
  have laws: "signing_laws proof_env" by (simp add: signing_laws_def proof_env_def)
  have typed: "rotation_activation_typed proof_activation"
    by (simp add: rotation_activation_typed_def proof_activation_def)
  have signed: "identity_signed proof_env (\<lambda>_. 4) (cy_public proof_env proof_seed) proof_signature {} {} {proof_activation}"
    using typed by (simp add: identity_signed_def sign_rotation_activation_def) (simp add: proof_env_def)
  note all = identity_proofs_bind [OF laws signed]
  show ?thesis using all [where a = proof_activation and seed = proof_seed] all laws signed by blast
qed

end
