(* ===== verification/LeaseClock.thy ===== *)
theory LeaseClock
  imports Credentials Fence
begin

text \<open>
  Authorisation leases (\<open>crates/peerward-management/src/leases.rs\<close>): the signed manifest that
  names the parts of a configuration, the signed lease that permits its use for a while, and the
  clock that decides, from wall time, monotonic time and a floor that survives restarts, whether a
  Peer may still act on it.

  \<open>serde_json\<close> and SHA-256 are the record \<open>lease_env\<close>, a parameter.  An \<open>Instant\<close> is a
  number of nanoseconds; \<open>ln_instant_max\<close> is the last one the platform represents.  A
  \<open>BTreeMap\<close> of parts is the list of its entries in order.
\<close>

section \<open>Manifests and leases\<close>

definition MANIFEST_DOMAIN :: bytes where
  "MANIFEST_DOMAIN = domain ''peerward/configuration-manifest/v1''"

definition LEASE_DOMAIN :: bytes where
  "LEASE_DOMAIN = domain ''peerward/authorization-lease/v1''"

definition MAX_CLOCK_TOLERANCE_SECONDS :: nat where
  "MAX_CLOCK_TOLERANCE_SECONDS = 30"

datatype management_error =
    Management_Invalid string | Management_Conflict string | Management_Signature
  | Management_Incomplete | Management_Expired | Management_Rollback

datatype configuration_part =
  Part_Authorities | Part_Peers | Part_Policy | Part_Resources | Part_Dns | Part_Revocations

record component_reference =
  cm_version :: nat
  cm_digest :: bytes

type_synonym configuration_parts = "(configuration_part \<times> component_reference) list"

record configuration_manifest =
  cf_mesh_id :: uuid
  cf_version :: nat
  cf_parts :: configuration_parts

record authorization_lease =
  al_mesh_id :: uuid
  al_configuration_digest :: bytes
  al_sequence :: nat
  al_issued_at :: nat
  al_valid_until :: nat

record signed_manifest =
  sm_manifest :: configuration_manifest
  sm_signature :: bytes

record signed_lease =
  sl_lease :: authorization_lease
  sl_signature :: bytes

record lease_env =
  ln_crypto :: crypto_env
  ln_manifest_json :: "configuration_manifest \<Rightarrow> bytes option"
  ln_lease_json :: "authorization_lease \<Rightarrow> bytes option"
  ln_sha256 :: "bytes \<Rightarrow> bytes"
  ln_instant_max :: nat

definition manifest_validate :: "configuration_manifest \<Rightarrow> (unit, management_error) outcome" where
  "manifest_validate m =
     (if cf_version m = 0 \<or> length (cf_parts m) \<noteq> 6
         \<or> list_ex (\<lambda>(kind, part). cm_version part = 0 \<and> (kind = Part_Resources \<or> kind = Part_Dns)) (cf_parts m)
      then Err (Management_Invalid ''manifest'') else Ok ())"

definition lease_validate :: "authorization_lease \<Rightarrow> (unit, management_error) outcome" where
  "lease_validate l =
     (if al_sequence l = 0 \<or> al_valid_until l \<le> al_issued_at l
         \<or> al_valid_until l - al_issued_at l \<notin> set [300, 900, 3600]
      then Err (Management_Invalid ''lease'') else Ok ())"

definition lease_renew_at :: "authorization_lease \<Rightarrow> nat" where
  "lease_renew_at l = al_issued_at l + (al_valid_until l - al_issued_at l) div 3"

definition signed_transcript :: "bytes \<Rightarrow> bytes option \<Rightarrow> (bytes, management_error) outcome" where
  "signed_transcript name json =
     and_then (ok_or (Management_Invalid ''encoding'') json) (\<lambda>body. Ok (name @ body))"

definition content_digest :: "lease_env \<Rightarrow> bytes option \<Rightarrow> (bytes, management_error) outcome" where
  "content_digest env json =
     and_then (ok_or (Management_Invalid ''encoding'') json) (\<lambda>body. Ok (ln_sha256 env body))"

definition verify_strict ::
  "lease_env \<Rightarrow> bytes \<Rightarrow> bytes \<Rightarrow> bytes \<Rightarrow> (unit, management_error) outcome" where
  "verify_strict env key message signature =
     (if length signature \<noteq> 64 then Err Management_Signature
      else if cy_verify_strict (ln_crypto env) key message signature then Ok ()
      else Err Management_Signature)"

definition manifest_sign ::
  "lease_env \<Rightarrow> bytes \<Rightarrow> configuration_manifest \<Rightarrow> (signed_manifest, management_error) outcome" where
  "manifest_sign env seed m =
     and_then (manifest_validate m) (\<lambda>_.
     and_then (signed_transcript MANIFEST_DOMAIN (ln_manifest_json env m)) (\<lambda>message.
     Ok \<lparr>sm_manifest = m, sm_signature = cy_sign (ln_crypto env) seed message\<rparr>))"

definition manifest_verify ::
  "lease_env \<Rightarrow> bytes \<Rightarrow> uuid \<Rightarrow> signed_manifest \<Rightarrow> (unit, management_error) outcome" where
  "manifest_verify env key mesh s =
     and_then (manifest_validate (sm_manifest s)) (\<lambda>_.
     if cf_mesh_id (sm_manifest s) \<noteq> mesh then Err Management_Signature
     else and_then (signed_transcript MANIFEST_DOMAIN (ln_manifest_json env (sm_manifest s))) (\<lambda>message.
       verify_strict env key message (sm_signature s)))"

definition lease_sign ::
  "lease_env \<Rightarrow> bytes \<Rightarrow> authorization_lease \<Rightarrow> (signed_lease, management_error) outcome" where
  "lease_sign env seed l =
     and_then (lease_validate l) (\<lambda>_.
     and_then (signed_transcript LEASE_DOMAIN (ln_lease_json env l)) (\<lambda>message.
     Ok \<lparr>sl_lease = l, sl_signature = cy_sign (ln_crypto env) seed message\<rparr>))"

definition lease_verify ::
  "lease_env \<Rightarrow> bytes \<Rightarrow> uuid \<Rightarrow> signed_lease \<Rightarrow> (unit, management_error) outcome" where
  "lease_verify env key mesh s =
     and_then (lease_validate (sl_lease s)) (\<lambda>_.
     if al_mesh_id (sl_lease s) \<noteq> mesh then Err Management_Signature
     else and_then (signed_transcript LEASE_DOMAIN (ln_lease_json env (sl_lease s))) (\<lambda>message.
       verify_strict env key message (sl_signature s)))"

section \<open>The clock\<close>

record authorization_floor =
  af_configuration_version :: nat
  af_configuration_digest :: bytes
  af_lease_sequence :: nat
  af_lease_digest :: bytes
  af_time_floor :: nat

record lease_clock =
  lc_floor :: authorization_floor
  lc_active :: "(nat \<times> nat) option"
  lc_pending :: "(nat \<times> nat) option"

definition clock_new :: "authorization_floor \<Rightarrow> lease_clock" where
  "clock_new floor = \<lparr>lc_floor = floor, lc_active = None, lc_pending = None\<rparr>"

definition instant_add :: "lease_env \<Rightarrow> nat \<Rightarrow> nat \<Rightarrow> nat option" where
  "instant_add env monotonic seconds =
     (let sum_nanos = monotonic + seconds * 1000000000 in
      if sum_nanos \<le> ln_instant_max env then Some sum_nanos else None)"

definition part_rolls_back :: "configuration_parts \<Rightarrow> configuration_part \<times> component_reference \<Rightarrow> bool" where
  "part_rolls_back parts = (\<lambda>(part, known).
     case map_of parts part of
       None \<Rightarrow> False
     | Some required \<Rightarrow> cm_version required < cm_version known
         \<or> cm_version known = cm_version required \<and> cm_digest known \<noteq> cm_digest required)"

definition stage_lease ::
  "lease_env \<Rightarrow> configuration_manifest \<Rightarrow> bytes \<Rightarrow> authorization_lease \<Rightarrow> bytes \<Rightarrow> nat \<Rightarrow> nat
    \<Rightarrow> lease_clock \<Rightarrow> (lease_clock, management_error) outcome" where
  "stage_lease env m digest l lease_digest wall monotonic c =
     (if af_lease_sequence (lc_floor c) < al_sequence l
      then let floor = max (max wall (af_time_floor (lc_floor c))) (al_issued_at l) in
        and_then (ok_or Management_Expired (instant_add env monotonic (al_valid_until l - floor))) (\<lambda>deadline.
        Ok \<lparr>lc_floor = \<lparr>af_configuration_version = cf_version m, af_configuration_digest = digest,
               af_lease_sequence = al_sequence l, af_lease_digest = lease_digest, af_time_floor = floor\<rparr>,
            lc_active = None, lc_pending = Some (al_valid_until l, deadline)\<rparr>)
      else Ok c)"

definition activate_lease ::
  "configuration_manifest \<Rightarrow> configuration_parts \<Rightarrow> nat \<Rightarrow> nat \<Rightarrow> lease_clock
    \<Rightarrow> (bool, management_error) outcome \<times> lease_clock" where
  "activate_lease m available wall monotonic c =
     (if cf_parts m \<noteq> available then (Err Management_Incomplete, c)
      else case lc_pending c of
             None \<Rightarrow> (Ok False, c)
           | Some (until, deadline) \<Rightarrow>
               let c = c\<lparr>lc_pending := None\<rparr> in
               if until \<le> max wall (af_time_floor (lc_floor c)) \<or> deadline \<le> monotonic
               then (Err Management_Expired, c)
               else (Ok True, c\<lparr>lc_active := Some (until, deadline)\<rparr>))"

definition install_checks ::
  "lease_env \<Rightarrow> bytes \<Rightarrow> uuid \<Rightarrow> signed_manifest \<Rightarrow> signed_lease \<Rightarrow> configuration_parts \<Rightarrow> nat \<Rightarrow> authorization_floor
    \<Rightarrow> (bytes \<times> bytes, management_error) outcome" where
  "install_checks env key mesh manifest lease available wall current =
     and_then (manifest_verify env key mesh manifest) (\<lambda>_.
     and_then (lease_verify env key mesh lease) (\<lambda>_.
     and_then (content_digest env (ln_manifest_json env (sm_manifest manifest))) (\<lambda>digest.
     and_then (content_digest env (ln_lease_json env (sl_lease lease))) (\<lambda>lease_digest.
     let m = sm_manifest manifest; l = sl_lease lease in
     if digest \<noteq> al_configuration_digest l then Err Management_Signature
     else if cf_version m < af_configuration_version current
        \<or> cf_version m = af_configuration_version current \<and> digest \<noteq> af_configuration_digest current
        \<or> al_sequence l < af_lease_sequence current
        \<or> al_sequence l = af_lease_sequence current \<and> lease_digest \<noteq> af_lease_digest current
     then Err Management_Rollback
     else if saturating_add wall MAX_CLOCK_TOLERANCE_SECONDS < af_time_floor current
        \<or> saturating_add wall MAX_CLOCK_TOLERANCE_SECONDS < al_issued_at l
        \<or> al_valid_until l \<le> max wall (af_time_floor current)
     then Err Management_Expired
     else if list_ex (part_rolls_back (cf_parts m)) available then Err Management_Rollback
     else Ok (digest, lease_digest)))))"

definition clock_install ::
  "lease_env \<Rightarrow> bytes \<Rightarrow> uuid \<Rightarrow> signed_manifest \<Rightarrow> signed_lease \<Rightarrow> configuration_parts \<Rightarrow> nat \<Rightarrow> nat
    \<Rightarrow> lease_clock \<Rightarrow> (bool, management_error) outcome \<times> lease_clock" where
  "clock_install env key mesh manifest lease available wall monotonic c =
     (case and_then (install_checks env key mesh manifest lease available wall (lc_floor c))
         (\<lambda>(digest, lease_digest).
           stage_lease env (sm_manifest manifest) digest (sl_lease lease) lease_digest wall monotonic c) of
        Ok staged \<Rightarrow> activate_lease (sm_manifest manifest) available wall monotonic staged
      | Err e \<Rightarrow> (Err e, c)
      | Abort \<Rightarrow> (Abort, c))"

definition clock_valid :: "nat \<Rightarrow> nat \<Rightarrow> lease_clock \<Rightarrow> bool \<times> lease_clock" where
  "clock_valid wall monotonic c =
     (let c = (if saturating_add wall MAX_CLOCK_TOLERANCE_SECONDS < af_time_floor (lc_floor c)
               then c\<lparr>lc_active := None, lc_pending := None\<rparr> else c);
          c = c\<lparr>lc_floor := (lc_floor c)\<lparr>af_time_floor := max (af_time_floor (lc_floor c)) wall\<rparr>\<rparr>;
          c = (if (case lc_active c of None \<Rightarrow> False | Some (until, deadline) \<Rightarrow> until \<le> wall \<or> deadline \<le> monotonic)
               then c\<lparr>lc_active := None\<rparr> else c)
      in (lc_active c \<noteq> None, c))"

definition clock_invalidate :: "lease_clock \<Rightarrow> lease_clock" where
  "clock_invalidate c = c\<lparr>lc_active := None\<rparr>"

definition clock_suspend :: "lease_clock \<Rightarrow> lease_clock" where
  "clock_suspend c = c\<lparr>lc_active := None, lc_pending := None\<rparr>"

section \<open>Runs of a process\<close>

datatype lease_event =
    Lease_Install signed_manifest signed_lease configuration_parts nat nat
  | Lease_Check nat nat
  | Lease_Invalidate
  | Lease_Suspend

fun lease_step :: "lease_env \<Rightarrow> bytes \<Rightarrow> uuid \<Rightarrow> lease_event \<Rightarrow> lease_clock \<Rightarrow> lease_clock" where
  "lease_step env key mesh (Lease_Install manifest lease available wall monotonic) c =
     snd (clock_install env key mesh manifest lease available wall monotonic c)"
| "lease_step env key mesh (Lease_Check wall monotonic) c = snd (clock_valid wall monotonic c)"
| "lease_step env key mesh Lease_Invalidate c = clock_invalidate c"
| "lease_step env key mesh Lease_Suspend c = clock_suspend c"

definition lease_run :: "lease_env \<Rightarrow> bytes \<Rightarrow> uuid \<Rightarrow> authorization_floor \<Rightarrow> lease_event list \<Rightarrow> lease_clock" where
  "lease_run env key mesh floor events = fold (lease_step env key mesh) events (clock_new floor)"

lemma lease_run_snoc:
  "lease_run env key mesh floor (events @ [e]) = lease_step env key mesh e (lease_run env key mesh floor events)"
  by (simp add: lease_run_def)

text \<open>A manifest and a lease that verify and belong together\<close>

definition authentic_pair :: "lease_env \<Rightarrow> bytes \<Rightarrow> uuid \<Rightarrow> signed_manifest \<Rightarrow> signed_lease \<Rightarrow> bool" where
  "authentic_pair env key mesh manifest lease \<longleftrightarrow>
     manifest_verify env key mesh manifest = Ok () \<and> lease_verify env key mesh lease = Ok ()
     \<and> content_digest env (ln_manifest_json env (sm_manifest manifest)) = Ok (al_configuration_digest (sl_lease lease))"

definition lease_digest_of :: "lease_env \<Rightarrow> signed_lease \<Rightarrow> (bytes, management_error) outcome" where
  "lease_digest_of env lease = content_digest env (ln_lease_json env (sl_lease lease))"

lemma install_checks_iff:
  "install_checks env key mesh manifest lease available wall f = Ok (digest, lease_digest) \<longleftrightarrow>
     authentic_pair env key mesh manifest lease \<and> digest = al_configuration_digest (sl_lease lease)
     \<and> lease_digest_of env lease = Ok lease_digest
     \<and> af_configuration_version f \<le> cf_version (sm_manifest manifest)
     \<and> (cf_version (sm_manifest manifest) = af_configuration_version f \<longrightarrow> digest = af_configuration_digest f)
     \<and> af_lease_sequence f \<le> al_sequence (sl_lease lease)
     \<and> (al_sequence (sl_lease lease) = af_lease_sequence f \<longrightarrow> lease_digest = af_lease_digest f)
     \<and> af_time_floor f \<le> saturating_add wall 30 \<and> al_issued_at (sl_lease lease) \<le> saturating_add wall 30
     \<and> max wall (af_time_floor f) < al_valid_until (sl_lease lease)
     \<and> \<not> list_ex (part_rolls_back (cf_parts (sm_manifest manifest))) available"
  by (cases "manifest_verify env key mesh manifest"; cases "lease_verify env key mesh lease";
      cases "content_digest env (ln_manifest_json env (sm_manifest manifest))";
      cases "content_digest env (ln_lease_json env (sl_lease lease))")
    (auto simp: install_checks_def Let_def authentic_pair_def lease_digest_of_def
      MAX_CLOCK_TOLERANCE_SECONDS_def not_less not_le)

text \<open>What an installation that gets past the checks does\<close>

lemma stage_lease_cases:
  assumes "stage_lease env m digest l lease_digest wall monotonic c = Ok c'"
  obtains (same) "al_sequence l \<le> af_lease_sequence (lc_floor c)" "c' = c"
  | (staged) deadline where "af_lease_sequence (lc_floor c) < al_sequence l"
      "deadline = monotonic + (al_valid_until l - max (max wall (af_time_floor (lc_floor c))) (al_issued_at l)) * 1000000000"
      "c' = \<lparr>lc_floor = \<lparr>af_configuration_version = cf_version m, af_configuration_digest = digest,
         af_lease_sequence = al_sequence l, af_lease_digest = lease_digest,
         af_time_floor = max (max wall (af_time_floor (lc_floor c))) (al_issued_at l)\<rparr>,
         lc_active = None, lc_pending = Some (al_valid_until l, deadline)\<rparr>"
  using assms
  by (auto simp: stage_lease_def instant_add_def Let_def and_then_Ok_iff not_less split: if_splits)

lemma activate_lease_cases:
  obtains (kept) "snd (activate_lease m available wall monotonic c) = c"
      "fst (activate_lease m available wall monotonic c) \<noteq> Ok True"
  | (dropped) "snd (activate_lease m available wall monotonic c) = c\<lparr>lc_pending := None\<rparr>"
      "fst (activate_lease m available wall monotonic c) \<noteq> Ok True"
  | (activated) until deadline where "cf_parts m = available" "lc_pending c = Some (until, deadline)"
      "max wall (af_time_floor (lc_floor c)) < until" "monotonic < deadline"
      "activate_lease m available wall monotonic c = (Ok True, c\<lparr>lc_pending := None, lc_active := Some (until, deadline)\<rparr>)"
proof (cases "cf_parts m = available")
  case False
  then show thesis by (intro kept) (simp_all add: activate_lease_def)
next
  case parts: True
  show thesis
  proof (cases "lc_pending c")
    case None
    then show thesis using parts by (intro kept) (simp_all add: activate_lease_def)
  next
    case (Some p)
    obtain until deadline where p: "p = (until, deadline)" by (cases p)
    show thesis
    proof (cases "until \<le> max wall (af_time_floor (lc_floor c)) \<or> deadline \<le> monotonic")
      case True
      then show thesis using parts Some p by (intro dropped) (simp_all add: activate_lease_def)
    next
      case False
      then show thesis using parts Some p
        by (intro activated [of until deadline]) (auto simp: activate_lease_def Let_def not_le)
    qed
  qed
qed

lemma clock_install_cases:
  obtains (refused) "snd (clock_install env key mesh manifest lease available wall monotonic c) = c"
      "\<And>b. fst (clock_install env key mesh manifest lease available wall monotonic c) \<noteq> Ok b"
  | (passed) digest lease_digest c' where
      "install_checks env key mesh manifest lease available wall (lc_floor c) = Ok (digest, lease_digest)"
      "stage_lease env (sm_manifest manifest) digest (sl_lease lease) lease_digest wall monotonic c = Ok c'"
      "clock_install env key mesh manifest lease available wall monotonic c
        = activate_lease (sm_manifest manifest) available wall monotonic c'"
proof (cases "install_checks env key mesh manifest lease available wall (lc_floor c)")
  case (Ok p)
  obtain digest lease_digest where p: "p = (digest, lease_digest)" by (cases p)
  show thesis
  proof (cases "stage_lease env (sm_manifest manifest) digest (sl_lease lease) lease_digest wall monotonic c")
    case staged: (Ok c')
    then show thesis using \<open>install_checks _ _ _ _ _ _ _ _ = _\<close> p by (intro passed) (simp_all add: clock_install_def)
  qed (use \<open>install_checks _ _ _ _ _ _ _ _ = _\<close> p in \<open>auto intro: refused simp: clock_install_def\<close>)
qed (auto intro: refused simp: clock_install_def)

section \<open>The floor only rises\<close>

definition floor_below :: "authorization_floor \<Rightarrow> authorization_floor \<Rightarrow> bool" where
  "floor_below f g \<longleftrightarrow>
     af_configuration_version f \<le> af_configuration_version g
     \<and> (af_configuration_version f = af_configuration_version g \<longrightarrow> af_configuration_digest f = af_configuration_digest g)
     \<and> af_lease_sequence f \<le> af_lease_sequence g
     \<and> (af_lease_sequence f = af_lease_sequence g \<longrightarrow> af_lease_digest f = af_lease_digest g)
     \<and> af_time_floor f \<le> af_time_floor g"

lemma activate_floor [simp]: "lc_floor (snd (activate_lease m available wall monotonic c)) = lc_floor c"
  by (cases rule: activate_lease_cases [of m available wall monotonic c]) auto

lemma lease_step_floor: "floor_below (lc_floor c) (lc_floor (lease_step env key mesh e c))"
proof (cases e)
  case (Lease_Install manifest lease available wall monotonic)
  show ?thesis
  proof (cases rule: clock_install_cases [of env key mesh manifest lease available wall monotonic c])
    case refused
    then show ?thesis by (simp add: Lease_Install floor_below_def)
  next
    case (passed digest lease_digest c')
    note checks = passed(1) [unfolded install_checks_iff]
    show ?thesis
      by (rule stage_lease_cases [OF passed(2)])
        (use checks in \<open>auto simp: Lease_Install passed(3) floor_below_def\<close>)
  qed
qed (simp_all add: floor_below_def clock_valid_def clock_invalidate_def clock_suspend_def Let_def)

interpretation floor_order: monotone_steps "\<lambda>c c'. \<exists>e. c' = lease_step env key mesh e c"
  "\<lambda>c c'. floor_below (lc_floor c) (lc_floor c')" for env key mesh
proof
  show "floor_below (lc_floor s) (lc_floor s)" for s :: lease_clock by (simp add: floor_below_def)
  show "floor_below (lc_floor s) (lc_floor u)"
    if "floor_below (lc_floor s) (lc_floor t)" "floor_below (lc_floor t) (lc_floor u)" for s t u :: lease_clock
    using that by (auto simp: floor_below_def)
  show "floor_below (lc_floor s) (lc_floor t)" if "\<exists>e. t = lease_step env key mesh e s" for s t
    using that lease_step_floor by auto
qed

section \<open>An authorisation comes from a lease\<close>

text \<open>
  A deadline in memory was staged by an installation of this run, from an authentic lease newer than
  the floor the run began with; one that is active was activated with every part at hand.
\<close>

definition staged_by ::
  "lease_env \<Rightarrow> bytes \<Rightarrow> uuid \<Rightarrow> authorization_floor \<Rightarrow> lease_event list \<Rightarrow> lease_clock \<Rightarrow> nat \<times> nat
    \<Rightarrow> signed_lease \<Rightarrow> nat \<Rightarrow> nat \<Rightarrow> bool" where
  "staged_by env key mesh floor events c = (\<lambda>(until, deadline) lease wall monotonic.
     (\<exists>manifest available. Lease_Install manifest lease available wall monotonic \<in> set events
        \<and> authentic_pair env key mesh manifest lease)
     \<and> until = al_valid_until (sl_lease lease)
     \<and> af_lease_sequence floor < al_sequence (sl_lease lease)
     \<and> al_sequence (sl_lease lease) = af_lease_sequence (lc_floor c)
     \<and> lease_digest_of env lease = Ok (af_lease_digest (lc_floor c))
     \<and> deadline \<le> monotonic + (until - max wall (al_issued_at (sl_lease lease))) * 1000000000)"

definition activated_in :: "lease_env \<Rightarrow> bytes \<Rightarrow> uuid \<Rightarrow> lease_event list \<Rightarrow> lease_clock \<Rightarrow> bool" where
  "activated_in env key mesh events c \<longleftrightarrow>
     (\<exists>manifest lease wall monotonic.
        Lease_Install manifest lease (cf_parts (sm_manifest manifest)) wall monotonic \<in> set events
        \<and> authentic_pair env key mesh manifest lease
        \<and> lease_digest_of env lease = Ok (af_lease_digest (lc_floor c)))"

definition lease_inv ::
  "lease_env \<Rightarrow> bytes \<Rightarrow> uuid \<Rightarrow> authorization_floor \<Rightarrow> lease_event list \<Rightarrow> lease_clock \<Rightarrow> bool" where
  "lease_inv env key mesh floor events c \<longleftrightarrow>
     floor_below floor (lc_floor c)
     \<and> (\<forall>p. lc_pending c = Some p \<longrightarrow> (\<exists>l w t. staged_by env key mesh floor events c p l w t))
     \<and> (\<forall>p. lc_active c = Some p \<longrightarrow> (\<exists>l w t. staged_by env key mesh floor events c p l w t)
          \<and> activated_in env key mesh events c)"

lemma staged_by_mono:
  "staged_by env key mesh floor events c p l w t \<Longrightarrow> set events \<subseteq> set events' \<Longrightarrow>
   af_lease_sequence (lc_floor c') = af_lease_sequence (lc_floor c) \<Longrightarrow>
   af_lease_digest (lc_floor c') = af_lease_digest (lc_floor c) \<Longrightarrow> staged_by env key mesh floor events' c' p l w t"
  by (cases p) (simp add: staged_by_def, blast)

lemma activated_in_mono:
  "activated_in env key mesh events c \<Longrightarrow> set events \<subseteq> set events' \<Longrightarrow>
   af_lease_digest (lc_floor c') = af_lease_digest (lc_floor c) \<Longrightarrow> activated_in env key mesh events' c'"
  unfolding activated_in_def by (metis subsetD)

text \<open>Anything that keeps the lease named by the floor and adds no deadline keeps the invariant.\<close>

lemma lease_inv_weaken:
  assumes "lease_inv env key mesh floor events c" "set events \<subseteq> set events'" "floor_below (lc_floor c) (lc_floor c')"
    and "af_lease_sequence (lc_floor c') = af_lease_sequence (lc_floor c)"
    and "lc_pending c' \<in> {None, lc_pending c}" "lc_active c' \<in> {None, lc_active c}"
  shows "lease_inv env key mesh floor events' c'"
proof -
  have digest: "af_lease_digest (lc_floor c') = af_lease_digest (lc_floor c)"
    using assms(3,4) by (simp add: floor_below_def)
  have "floor_below floor (lc_floor c')" using assms(1,3) by (auto simp: lease_inv_def floor_below_def)
  then show ?thesis
    using assms staged_by_mono [OF _ assms(2,4) digest] activated_in_mono [OF _ assms(2) digest]
    unfolding lease_inv_def by (metis (no_types, lifting) insertE option.distinct(1) singletonD)
qed

lemma lease_inv_staged:
  assumes inv: "lease_inv env key mesh floor events c"
    and checks: "install_checks env key mesh manifest lease available wall (lc_floor c) = Ok (digest, lease_digest)"
    and stage: "stage_lease env (sm_manifest manifest) digest (sl_lease lease) lease_digest wall monotonic c = Ok c'"
  shows "lease_inv env key mesh floor (events @ [Lease_Install manifest lease available wall monotonic]) c'
    \<and> lease_digest_of env lease = Ok (af_lease_digest (lc_floor c')) \<and> floor_below (lc_floor c) (lc_floor c')"
  using stage
proof (cases rule: stage_lease_cases)
  case same
  have "lease_inv env key mesh floor (events @ [Lease_Install manifest lease available wall monotonic]) c"
    by (rule lease_inv_weaken [OF inv]) (auto simp: floor_below_def)
  then show ?thesis using same checks by (auto simp: install_checks_iff floor_below_def)
next
  case (staged deadline)
  note c = checks [unfolded install_checks_iff]
  have below: "floor_below (lc_floor c) (lc_floor c')" using c staged by (auto simp: floor_below_def)
  have "floor_below floor (lc_floor c')" using inv below by (auto simp: lease_inv_def floor_below_def)
  moreover have "af_lease_sequence floor < al_sequence (sl_lease lease)"
    using inv staged(1) by (auto simp: lease_inv_def floor_below_def)
  moreover have "deadline \<le> monotonic + (al_valid_until (sl_lease lease) - max wall (al_issued_at (sl_lease lease))) * 1000000000"
    unfolding staged(2) by (intro add_left_mono mult_le_mono1 diff_le_mono2) auto
  ultimately have "staged_by env key mesh floor (events @ [Lease_Install manifest lease available wall monotonic]) c'
      (al_valid_until (sl_lease lease), deadline) lease wall monotonic"
    using c staged(3) by (auto simp: staged_by_def)
  then show ?thesis
    using \<open>floor_below floor (lc_floor c')\<close> below c staged(3) by (auto simp: lease_inv_def)
qed

lemma lease_inv_install:
  assumes inv: "lease_inv env key mesh floor events c"
  shows "lease_inv env key mesh floor (events @ [Lease_Install manifest lease available wall monotonic])
    (lease_step env key mesh (Lease_Install manifest lease available wall monotonic) c)"
proof (cases rule: clock_install_cases [of env key mesh manifest lease available wall monotonic c])
  case refused
  then show ?thesis by (intro lease_inv_weaken [OF inv]) (auto simp: floor_below_def)
next
  case (passed digest lease_digest c')
  let ?events = "events @ [Lease_Install manifest lease available wall monotonic]"
  have c': "lease_inv env key mesh floor ?events c'" "lease_digest_of env lease = Ok (af_lease_digest (lc_floor c'))"
    using lease_inv_staged [OF inv passed(1,2)] by blast+
  show ?thesis
  proof (cases rule: activate_lease_cases [of "sm_manifest manifest" available wall monotonic c'])
    case kept
    then show ?thesis using c' passed(3) by simp
  next
    case dropped
    then show ?thesis using passed(3) by (intro lease_inv_weaken [OF c'(1)]) (auto simp: floor_below_def)
  next
    case (activated until deadline)
    have "activated_in env key mesh ?events c'"
      using activated(1) passed(1) c'(2) by (auto simp: activated_in_def install_checks_iff)
    then show ?thesis
      using c'(1) activated passed(3)
      by (auto simp: lease_inv_def staged_by_def activated_in_def)
  qed
qed

lemma lease_run_inv: "lease_inv env key mesh floor events (lease_run env key mesh floor events)"
proof (induction events rule: rev_induct)
  case Nil
  then show ?case by (simp add: lease_inv_def lease_run_def clock_new_def floor_below_def)
next
  case (snoc e events)
  show ?case
  proof (cases e)
    case (Lease_Install manifest lease available wall monotonic)
    then show ?thesis using lease_inv_install [OF snoc] by (simp add: lease_run_snoc)
  next
    case (Lease_Check wall monotonic)
    then show ?thesis
      unfolding lease_run_snoc
      by (intro lease_inv_weaken [OF snoc]) (auto simp: clock_valid_def Let_def floor_below_def)
  next
    case Lease_Invalidate
    then show ?thesis
      unfolding lease_run_snoc
      by (intro lease_inv_weaken [OF snoc]) (auto simp: clock_invalidate_def floor_below_def)
  next
    case Lease_Suspend
    then show ?thesis
      unfolding lease_run_snoc
      by (intro lease_inv_weaken [OF snoc]) (auto simp: clock_suspend_def floor_below_def)
  qed
qed

text \<open>(C5) Authorisation is fail-closed.  Start from the floor kept across restarts and let anything happen:
  installations, checks, invalidations, suspensions, with any times.  If a check then says yes, the
  run contains the installation of a lease, authentic with its manifest for this Mesh and of a
  sequence the floor had not reached - a replay after a restart never authorises - that the wall
  clock has not passed and whose lifetime, at most an hour, the monotonic clock has not used up
  since; the wall clock is at most 30 seconds behind the floor, and the lease was activated with
  every part of its configuration at hand.  Versions, sequence and time of the floor never decrease
  and a version or sequence never changes its meaning.
\<close>

theorem authorization_fail_closed:
  assumes "clock_valid wall monotonic (lease_run env key mesh floor events) = (True, c)"
  shows "\<exists>manifest lease available wall0 monotonic0.
      Lease_Install manifest lease available wall0 monotonic0 \<in> set events
      \<and> authentic_pair env key mesh manifest lease
      \<and> af_lease_sequence floor < al_sequence (sl_lease lease)
      \<and> wall < al_valid_until (sl_lease lease)
      \<and> al_valid_until (sl_lease lease) \<le> al_issued_at (sl_lease lease) + 3600
      \<and> monotonic < monotonic0 + (al_valid_until (sl_lease lease) - max wall0 (al_issued_at (sl_lease lease))) * 1000000000
      \<and> af_time_floor (lc_floor (lease_run env key mesh floor events)) \<le> wall + 30
      \<and> lease_digest_of env lease = Ok (af_lease_digest (lc_floor c)) \<and> activated_in env key mesh events c
      \<and> floor_below floor (lc_floor c)"
proof -
  let ?r = "lease_run env key mesh floor events"
  note inv = lease_run_inv [of env key mesh floor events, unfolded lease_inv_def]
  have floor: "af_time_floor (lc_floor ?r) \<le> saturating_add wall 30"
    and c: "c = ?r\<lparr>lc_floor := (lc_floor ?r)\<lparr>af_time_floor := max (af_time_floor (lc_floor ?r)) wall\<rparr>\<rparr>"
    and active: "\<exists>p. lc_active ?r = Some p \<and> wall < fst p \<and> monotonic < snd p"
    using assms
    by (auto simp: clock_valid_def Let_def MAX_CLOCK_TOLERANCE_SECONDS_def not_less not_le split: if_splits option.splits)
  obtain until deadline where p: "lc_active ?r = Some (until, deadline)" "wall < until" "monotonic < deadline"
    using active by auto
  then obtain l w0 m0 where s: "staged_by env key mesh floor events ?r (until, deadline) l w0 m0"
      and a: "activated_in env key mesh events ?r"
    using inv by blast
  then obtain manifest available where i: "Lease_Install manifest l available w0 m0 \<in> set events"
      "authentic_pair env key mesh manifest l" unfolding staged_by_def by auto
  have "lease_verify env key mesh l = Ok ()" using i(2) by (simp add: authentic_pair_def)
  then have hour: "al_valid_until (sl_lease l) \<le> al_issued_at (sl_lease l) + 3600"
    by (auto simp: lease_verify_def and_then_Ok_iff lease_validate_def split: if_splits)
  have "af_time_floor (lc_floor ?r) \<le> wall + 30" using floor by (simp add: saturating_add_def split: if_splits)
  moreover have "activated_in env key mesh events c" using a by (rule activated_in_mono) (simp_all add: c)
  moreover have "floor_below floor (lc_floor c)" using inv by (auto simp: c floor_below_def)
  ultimately show ?thesis
    using i s p(2,3) hour
    by (intro exI [of _ manifest] exI [of _ l] exI [of _ available] exI [of _ w0] exI [of _ m0])
      (auto simp: staged_by_def c)
qed

text \<open>A renewed lease authorises.  Offered an authentic lease of a higher sequence, with a manifest that is
  not older, clocks within tolerance and exactly the parts it names, the clock accepts it and says
  yes at every later check until the lease ends by either clock, as long as the wall clock does not
  fall more than 30 seconds behind.
\<close>

theorem lease_renewal_authorizes:
  assumes "install_checks env key mesh manifest lease (cf_parts (sm_manifest manifest)) wall (lc_floor c) = Ok (digest, lease_digest)"
    and "af_lease_sequence (lc_floor c) < al_sequence (sl_lease lease)"
    and "monotonic + 3600 * 1000000000 \<le> ln_instant_max env"
    and "floor = max (max wall (af_time_floor (lc_floor c))) (al_issued_at (sl_lease lease))"
    and "floor \<le> saturating_add wall' 30" "wall' < al_valid_until (sl_lease lease)"
    and "monotonic' < monotonic + (al_valid_until (sl_lease lease) - floor) * 1000000000"
  shows "\<exists>c'. clock_install env key mesh manifest lease (cf_parts (sm_manifest manifest)) wall monotonic c = (Ok True, c')
    \<and> af_lease_sequence (lc_floor c') = al_sequence (sl_lease lease) \<and> fst (clock_valid wall' monotonic' c')"
proof -
  let ?l = "sl_lease lease"
  note checks = assms(1) [unfolded install_checks_iff]
  have "lease_verify env key mesh lease = Ok ()" using checks by (simp add: authentic_pair_def)
  then have hour: "al_issued_at ?l < al_valid_until ?l" "al_valid_until ?l \<le> al_issued_at ?l + 3600"
    by (auto simp: lease_verify_def and_then_Ok_iff lease_validate_def split: if_splits)
  have "al_valid_until ?l - floor \<le> 3600" using hour assms(4) by auto
  then have fits: "instant_add env monotonic (al_valid_until ?l - floor) = Some (monotonic + (al_valid_until ?l - floor) * 1000000000)"
    using assms(3) by (simp add: instant_add_def Let_def)
  have after: "floor < al_valid_until ?l" using checks hour assms(4) by simp
  let ?staged = "\<lparr>lc_floor = \<lparr>af_configuration_version = cf_version (sm_manifest manifest), af_configuration_digest = digest,
      af_lease_sequence = al_sequence ?l, af_lease_digest = lease_digest, af_time_floor = floor\<rparr>,
      lc_active = None, lc_pending = Some (al_valid_until ?l, monotonic + (al_valid_until ?l - floor) * 1000000000)\<rparr>"
  have "stage_lease env (sm_manifest manifest) digest ?l lease_digest wall monotonic c = Ok ?staged"
    using assms(2,4) fits by (simp add: stage_lease_def Let_def)
  moreover have "wall < al_valid_until ?l" using checks by simp
  ultimately have "clock_install env key mesh manifest lease (cf_parts (sm_manifest manifest)) wall monotonic c
      = (Ok True, ?staged\<lparr>lc_pending := None, lc_active := lc_pending ?staged\<rparr>)"
    using assms(1) after by (simp add: clock_install_def activate_lease_def Let_def)
  then show ?thesis
    using assms(5-7) by (auto simp: clock_valid_def Let_def MAX_CLOCK_TOLERANCE_SECONDS_def)
qed

section \<open>Concrete runs\<close>

definition sample_env :: lease_env where
  "sample_env = \<lparr>ln_crypto = \<lparr>cy_uuid_v4 = (\<lambda>_. True), cy_contributory = (\<lambda>_. True), cy_valid_key = (\<lambda>_. True),
       cy_public = (\<lambda>seed. seed), cy_sign = (\<lambda>seed m. replicate 64 (hd seed)),
       cy_verify = (\<lambda>key m s. s = replicate 64 (hd key)), cy_verify_strict = (\<lambda>key m s. s = replicate 64 (hd key))\<rparr>,
     ln_manifest_json = (\<lambda>m. Some [of_nat (cf_version m)]), ln_lease_json = (\<lambda>l. Some [of_nat (al_sequence l)]),
     ln_sha256 = (\<lambda>b. b), ln_instant_max = 10 ^ 20\<rparr>"

definition sample_parts :: configuration_parts where
  "sample_parts = map (\<lambda>p. (p, \<lparr>cm_version = 1, cm_digest = [1]\<rparr>))
     [Part_Authorities, Part_Peers, Part_Policy, Part_Resources, Part_Dns, Part_Revocations]"

definition sample_manifest :: signed_manifest where
  "sample_manifest = \<lparr>sm_manifest = \<lparr>cf_mesh_id = [7], cf_version = 5, cf_parts = sample_parts\<rparr>,
     sm_signature = replicate 64 9\<rparr>"

definition sample_lease :: signed_lease where
  "sample_lease = \<lparr>sl_lease = \<lparr>al_mesh_id = [7], al_configuration_digest = [5], al_sequence = 3,
       al_issued_at = 1000, al_valid_until = 1300\<rparr>, sl_signature = replicate 64 9\<rparr>"

definition sample_floor :: authorization_floor where
  "sample_floor = \<lparr>af_configuration_version = 4, af_configuration_digest = [4], af_lease_sequence = 2,
     af_lease_digest = [2], af_time_floor = 900\<rparr>"

definition sample_run :: "lease_event list" where
  "sample_run = [Lease_Install sample_manifest sample_lease [] 1000 0,
     Lease_Install sample_manifest sample_lease sample_parts 1010 10000000000, Lease_Check 1020 20000000000]"

lemmas sample_defs = sample_env_def sample_parts_def sample_manifest_def sample_lease_def sample_floor_def

lemma sample_authentic:
  "manifest_verify sample_env [9] [7] sample_manifest = Ok ()" "lease_verify sample_env [9] [7] sample_lease = Ok ()"
  "content_digest sample_env (ln_manifest_json sample_env (sm_manifest sample_manifest)) = Ok [5]"
  "content_digest sample_env (ln_lease_json sample_env (sl_lease sample_lease)) = Ok [3]"
  by (simp_all add: sample_defs manifest_verify_def lease_verify_def manifest_validate_def
      lease_validate_def signed_transcript_def verify_strict_def content_digest_def)

lemma sample_fields:
  "cf_version (sm_manifest sample_manifest) = 5" "cf_parts (sm_manifest sample_manifest) = sample_parts"
  "al_configuration_digest (sl_lease sample_lease) = [5]" "al_sequence (sl_lease sample_lease) = 3"
  "al_issued_at (sl_lease sample_lease) = 1000" "al_valid_until (sl_lease sample_lease) = 1300"
  "ln_instant_max sample_env = 10 ^ 20" "sample_parts \<noteq> []" "\<not> list_ex (part_rolls_back sample_parts) sample_parts"
  by (simp_all add: sample_defs part_rolls_back_def)

lemmas sample_steps = install_checks_def sample_authentic sample_fields clock_install_def stage_lease_def
  activate_lease_def instant_add_def clock_valid_def clock_new_def sample_floor_def MAX_CLOCK_TOLERANCE_SECONDS_def
  saturating_add_def u64_max_def

lemma sample_staged:
  "clock_install sample_env [9] [7] sample_manifest sample_lease [] 1000 0 (clock_new sample_floor) =
     (Err Management_Incomplete, \<lparr>lc_floor = \<lparr>af_configuration_version = 5, af_configuration_digest = [5], af_lease_sequence = 3,
         af_lease_digest = [3], af_time_floor = 1000\<rparr>, lc_active = None, lc_pending = Some (1300, 300000000000)\<rparr>)"
  by (simp add: sample_steps)

lemma sample_run_value:
  "lease_run sample_env [9] [7] sample_floor sample_run =
     \<lparr>lc_floor = \<lparr>af_configuration_version = 5, af_configuration_digest = [5], af_lease_sequence = 3,
         af_lease_digest = [3], af_time_floor = 1020\<rparr>, lc_active = Some (1300, 300000000000), lc_pending = None\<rparr>"
  by (simp add: lease_run_def sample_run_def sample_staged) (simp add: sample_steps)

theorem authorization_fail_closed_witness:
  "fst (clock_valid 1200 200000000000 (lease_run sample_env [9] [7] sample_floor sample_run))
   \<and> (\<exists>manifest lease available wall monotonic.
        Lease_Install manifest lease available wall monotonic \<in> set sample_run
        \<and> authentic_pair sample_env [9] [7] manifest lease \<and> 2 < al_sequence (sl_lease lease))"
proof -
  let ?r = "lease_run sample_env [9] [7] sample_floor sample_run"
  obtain c where c: "clock_valid 1200 200000000000 ?r = (True, c)"
    unfolding sample_run_value by (simp add: clock_valid_def Let_def MAX_CLOCK_TOLERANCE_SECONDS_def saturating_add_def u64_max_def)
  show ?thesis using authorization_fail_closed [OF c] c by (simp add: sample_floor_def) blast
qed

theorem lease_renewal_authorizes_witness:
  "\<exists>c'. clock_install sample_env [9] [7] sample_manifest sample_lease (cf_parts (sm_manifest sample_manifest)) 1000 0
      (clock_new sample_floor) = (Ok True, c')
    \<and> af_lease_sequence (lc_floor c') = al_sequence (sl_lease sample_lease) \<and> fst (clock_valid 1299 299000000000 c')"
proof (rule lease_renewal_authorizes [where floor = 1000])
  show "install_checks sample_env [9] [7] sample_manifest sample_lease (cf_parts (sm_manifest sample_manifest)) 1000
      (lc_floor (clock_new sample_floor)) = Ok ([5], [3])"
    by (simp add: sample_steps)
qed (simp_all add: sample_steps)

end
