(* ===== verification/DirectorySigning.thy ===== *)
theory DirectorySigning
  imports LeaseClock RelayTopology
begin

text \<open>
  Signed distribution objects (\<open>crates/peerward-directory/src/signing.rs\<close> and
  \<open>transcripts.rs\<close>): peer entries and directories, relay directories and topologies, policy and
  revocation bundles; the byte strings that are signed, signing, and the verification that precedes
  every use.  The transcript functions abort where the code's \<open>expect\<close> would panic: on a
  collection of more than \<open>2 ^ 32 - 1\<close> elements.

  The key that signs them also signs management messages (manifests, leases, notifications and
  renewal commands), whose bodies are serialised by \<open>serde_json\<close>; only their domains matter here.
\<close>

definition PEER_ENTRY_DOMAIN :: bytes where
  "PEER_ENTRY_DOMAIN = domain ''peerward/peer-directory-entry/v4''"
definition PEER_REVISION_DOMAIN :: bytes where
  "PEER_REVISION_DOMAIN = domain ''peerward/peer-directory-revision/v1''"
definition RELAY_DOMAIN :: bytes where
  "RELAY_DOMAIN = domain ''peerward/relay-directory/v2''"
definition RELAY_TOPOLOGY_DOMAIN :: bytes where
  "RELAY_TOPOLOGY_DOMAIN = domain ''peerward/relay-topology/v1''"
definition POLICY_DOMAIN :: bytes where
  "POLICY_DOMAIN = domain ''peerward/policy-bundle/v1''"
definition REVOCATION_DOMAIN :: bytes where
  "REVOCATION_DOMAIN = domain ''peerward/revocation-bundle/v1''"

definition WEBHOOK_DOMAIN :: bytes where
  "WEBHOOK_DOMAIN = domain ''peerward/webhook-notification/v1''"
definition RENEWAL_DOMAIN :: bytes where
  "RENEWAL_DOMAIN = domain ''peerward/credential-renewal-command/v1''"

section \<open>Peers\<close>

record peer_credential_binding =
  pb_serial :: uuid
  pb_identity_public_key :: bytes
  pb_noise_public_key :: bytes
  pb_wireguard_public_key :: bytes
  pb_not_before :: unix_time
  pb_not_after :: unix_time
  pb_overlap_until :: "unix_time option"
  pb_signature :: bytes

record peer_entry =
  pe_mesh_id :: uuid
  pe_peer_id :: uuid
  pe_address :: ip_addr
  pe_secondary_address :: "ip_addr option"
  pe_identity_public_key :: bytes
  pe_noise_public_key :: bytes
  pe_credential_serial :: uuid
  pe_accepted_credentials :: "peer_credential_binding list"
  pe_enabled :: bool
  pe_labels :: "(bytes \<times> bytes) list"
  pe_not_after :: unix_time

record signed_peer_entry =
  sp_entry :: peer_entry
  sp_signature :: bytes

record peer_directory =
  pd_mesh_id :: uuid
  pd_revision :: nat
  pd_entries :: "signed_peer_entry list"

record signed_peer_directory =
  sd_directory :: peer_directory
  sd_signature :: bytes

definition binding_from_subject :: "subject_credential \<Rightarrow> unix_time option \<Rightarrow> peer_credential_binding" where
  "binding_from_subject c overlap_until =
     \<lparr>pb_serial = sc_serial c, pb_identity_public_key = sc_identity_public_key c,
      pb_noise_public_key = sc_public_noise_key c, pb_wireguard_public_key = sc_wireguard_public_key c,
      pb_not_before = sc_not_before c, pb_not_after = sc_not_after c, pb_overlap_until = overlap_until,
      pb_signature = sc_signature c\<rparr>"

definition binding_subject :: "peer_credential_binding \<Rightarrow> uuid \<Rightarrow> uuid \<Rightarrow> subject_credential" where
  "binding_subject b mesh_id peer_id =
     \<lparr>sc_role = Role_Peer, sc_mesh_id = mesh_id, sc_subject = Subject_Peer peer_id,
      sc_identity_public_key = pb_identity_public_key b, sc_public_noise_key = pb_noise_public_key b,
      sc_wireguard_public_key = pb_wireguard_public_key b, sc_serial = pb_serial b,
      sc_not_before = pb_not_before b, sc_not_after = pb_not_after b, sc_signature = pb_signature b\<rparr>"

definition binding_valid_at :: "peer_credential_binding \<Rightarrow> unix_time \<Rightarrow> bool" where
  "binding_valid_at b now \<longleftrightarrow>
     pb_not_before b \<le> now \<and> now < pb_not_after b
     \<and> (case pb_overlap_until b of None \<Rightarrow> True | Some until \<Rightarrow> now < until)"

definition entry_addresses :: "peer_entry \<Rightarrow> ip_addr list" where
  "entry_addresses e = pe_address e # (case pe_secondary_address e of None \<Rightarrow> [] | Some a \<Rightarrow> [a])"

definition entry_credential :: "peer_entry \<Rightarrow> uuid \<Rightarrow> peer_credential_binding option" where
  "entry_credential e serial = find (\<lambda>b. pb_serial b = serial) (pe_accepted_credentials e)"

section \<open>Relays, policies, revocations\<close>

datatype endpoint_host = Host_Ip ip_addr | Host_Dns bytes

record network_endpoint =
  ne_canonical :: bytes
  ne_host :: endpoint_host
  ne_port :: u16

record relay_entry =
  rl_relay_id :: uuid
  rl_peer_endpoints :: "network_endpoint list"
  rl_backbone_endpoints :: "network_endpoint list"
  rl_noise_public_key :: bytes
  rl_credential_serial :: uuid

record relay_directory =
  rd_mesh_id :: uuid
  rd_revision :: nat
  rd_entries :: "relay_entry list"

record policy_bundle =
  po_mesh_id :: uuid
  po_revision :: nat
  po_policy :: bytes

record revocation_bundle =
  rv_mesh_id :: uuid
  rv_revision :: nat
  rv_serials :: "uuid list"

definition MAX_RELAY_ENDPOINTS :: nat where "MAX_RELAY_ENDPOINTS = 16"

definition validate_endpoint_list :: "network_endpoint list \<Rightarrow> (unit, unit) outcome" where
  "validate_endpoint_list endpoints =
     (if endpoints = [] \<or> MAX_RELAY_ENDPOINTS < length endpoints then Err ()
      else if all_inserted [] (map ne_canonical endpoints) then Ok () else Err ())"

definition validate_relay_endpoints :: "relay_entry \<Rightarrow> (unit, directory_error) outcome" where
  "validate_relay_endpoints entry =
     and_then (map_err Directory_InvalidEndpoint (validate_endpoint_list (rl_peer_endpoints entry))) (\<lambda>_.
     map_err Directory_InvalidEndpoint (validate_endpoint_list (rl_backbone_endpoints entry)))"

section \<open>Transcripts\<close>

definition put_u32 :: "nat \<Rightarrow> (bytes, 'e) outcome" where
  "put_u32 value = (if value \<le> u32_max then Ok (to_be 4 value) else Abort)"

definition put_bytes :: "bytes \<Rightarrow> (bytes, 'e) outcome" where
  "put_bytes value = and_then (put_u32 (length value)) (\<lambda>size_bytes. Ok (size_bytes @ value))"

text \<open>A loop that appends what each element contributes\<close>

fun put_all :: "('a \<Rightarrow> (bytes, 'e) outcome) \<Rightarrow> 'a list \<Rightarrow> (bytes, 'e) outcome" where
  "put_all put [] = Ok []"
| "put_all put (x # xs) = and_then (put x) (\<lambda>b. and_then (put_all put xs) (\<lambda>bs. Ok (b @ bs)))"

fun put_address :: "ip_addr \<Rightarrow> bytes" where
  "put_address (V4 octs) = [4] @ octs"
| "put_address (V6 octs) = [6] @ octs"

definition put_secondary :: "ip_addr option \<Rightarrow> bytes" where
  "put_secondary secondary = (case secondary of None \<Rightarrow> [0] | Some address \<Rightarrow> put_address address)"

definition put_credential :: "uuid \<Rightarrow> uuid \<Rightarrow> peer_credential_binding \<Rightarrow> bytes" where
  "put_credential mesh_id peer_id b =
     subject_encode (binding_subject b mesh_id peer_id)
     @ (case pb_overlap_until b of None \<Rightarrow> [0] | Some until \<Rightarrow> [1] @ to_be 8 until)"

definition put_label :: "bytes \<times> bytes \<Rightarrow> (bytes, 'e) outcome" where
  "put_label = (\<lambda>(key, value). and_then (put_bytes key) (\<lambda>k. and_then (put_bytes value) (\<lambda>v. Ok (k @ v))))"

definition peer_entry_transcript :: "peer_entry \<Rightarrow> (bytes, 'e) outcome" where
  "peer_entry_transcript e =
     and_then (put_u32 (length (pe_accepted_credentials e))) (\<lambda>credential_count.
     and_then (put_u32 (length (pe_labels e))) (\<lambda>label_count.
     and_then (put_all put_label (pe_labels e)) (\<lambda>label_bytes.
     Ok (PEER_ENTRY_DOMAIN @ pe_mesh_id e @ pe_peer_id e @ put_address (pe_address e)
         @ put_secondary (pe_secondary_address e) @ pe_identity_public_key e @ pe_noise_public_key e
         @ pe_credential_serial e @ credential_count
         @ concat (map (put_credential (pe_mesh_id e) (pe_peer_id e)) (pe_accepted_credentials e))
         @ [if pe_enabled e then 1 else 0] @ label_count @ label_bytes @ to_be 8 (pe_not_after e)))))"

definition peer_revision_transcript :: "peer_directory \<Rightarrow> (bytes, 'e) outcome" where
  "peer_revision_transcript d =
     and_then (put_u32 (length (pd_entries d))) (\<lambda>count.
     Ok (PEER_REVISION_DOMAIN @ pd_mesh_id d @ to_be 8 (pd_revision d) @ count
         @ concat (map (\<lambda>item. pe_peer_id (sp_entry item) @ sp_signature item) (pd_entries d))))"

definition put_relay_entry :: "relay_entry \<Rightarrow> (bytes, 'e) outcome" where
  "put_relay_entry entry =
     and_then (put_u32 (length (rl_peer_endpoints entry))) (\<lambda>peer_count.
     and_then (put_all (\<lambda>endpoint. put_bytes (ne_canonical endpoint)) (rl_peer_endpoints entry)) (\<lambda>peer_bytes.
     and_then (put_u32 (length (rl_backbone_endpoints entry))) (\<lambda>backbone_count.
     and_then (put_all (\<lambda>endpoint. put_bytes (ne_canonical endpoint)) (rl_backbone_endpoints entry)) (\<lambda>backbone_bytes.
     Ok (rl_relay_id entry @ peer_count @ peer_bytes @ backbone_count @ backbone_bytes
         @ rl_noise_public_key entry @ rl_credential_serial entry)))))"

definition relay_transcript :: "relay_directory \<Rightarrow> (bytes, 'e) outcome" where
  "relay_transcript d =
     and_then (put_u32 (length (rd_entries d))) (\<lambda>count.
     and_then (put_all put_relay_entry (rd_entries d)) (\<lambda>entries.
     Ok (RELAY_DOMAIN @ rd_mesh_id d @ to_be 8 (rd_revision d) @ count @ entries)))"

definition put_node :: "topology_node \<Rightarrow> (bytes, 'e) outcome" where
  "put_node node =
     and_then (put_bytes (tn_region node)) (\<lambda>region.
     Ok (tn_relay_id node @ region @ to_be 2 (unat (tn_routing_weight node))
         @ to_be 8 (unat (tn_capabilities node))))"

definition put_edge :: "topology_edge \<Rightarrow> bytes" where
  "put_edge edge =
     te_left edge @ te_right edge @ to_be 4 (unat (te_rtt_millis edge))
     @ to_be 2 (unat (te_loss_permyriad edge))"

definition relay_topology_transcript :: "relay_topology \<Rightarrow> (bytes, 'e) outcome" where
  "relay_topology_transcript t =
     and_then (put_u32 (length (rt_nodes t))) (\<lambda>node_count.
     and_then (put_all put_node (rt_nodes t)) (\<lambda>nodes.
     and_then (put_u32 (length (rt_edges t))) (\<lambda>edge_count.
     Ok (RELAY_TOPOLOGY_DOMAIN @ rt_mesh_id t @ to_be 8 (rt_revision t)
         @ [case rt_mode t of FullMesh \<Rightarrow> 0 | Sparse \<Rightarrow> 1]
         @ node_count @ nodes @ edge_count @ concat (map put_edge (rt_edges t))))))"

definition policy_transcript :: "policy_bundle \<Rightarrow> (bytes, 'e) outcome" where
  "policy_transcript b =
     and_then (put_bytes (po_policy b)) (\<lambda>policy.
     Ok (POLICY_DOMAIN @ po_mesh_id b @ to_be 8 (po_revision b) @ policy))"

definition revocation_transcript :: "revocation_bundle \<Rightarrow> (bytes, 'e) outcome" where
  "revocation_transcript b =
     and_then (put_u32 (length (rv_serials b))) (\<lambda>count.
     Ok (REVOCATION_DOMAIN @ rv_mesh_id b @ to_be 8 (rv_revision b) @ count @ concat (rv_serials b)))"

section \<open>Verification\<close>

definition directory_verify ::
  "crypto_env \<Rightarrow> bytes \<Rightarrow> (bytes, directory_error) outcome \<Rightarrow> bytes \<Rightarrow> (unit, directory_error) outcome" where
  "directory_verify env key transcript signature =
     and_then transcript (\<lambda>message.
     if cy_verify env key message signature then Ok () else Err Directory_InvalidSignature)"

definition check_binding :: "crypto_env \<Rightarrow> peer_entry \<Rightarrow> peer_credential_binding \<Rightarrow> (unit, directory_error) outcome" where
  "check_binding env e b =
     and_then (map_err Directory_NonCanonical
       (subject_decode env (subject_encode (binding_subject b (pe_mesh_id e) (pe_peer_id e))))) (\<lambda>_.
     if pb_serial b \<noteq> pe_credential_serial e
        \<and> (case pb_overlap_until b of None \<Rightarrow> True
           | Some until \<Rightarrow> until \<le> pb_not_before b \<or> pb_not_after b < until)
     then Err Directory_NonCanonical else Ok ())"

fun check_all :: "('a \<Rightarrow> (unit, 'e) outcome) \<Rightarrow> 'a list \<Rightarrow> (unit, 'e) outcome" where
  "check_all check [] = Ok ()"
| "check_all check (x # xs) = and_then (check x) (\<lambda>_. check_all check xs)"

definition verify_peer ::
  "crypto_env \<Rightarrow> bytes \<Rightarrow> signed_peer_entry \<Rightarrow> uuid \<Rightarrow> (unit, directory_error) outcome" where
  "verify_peer env key sealed mesh = (let e = sp_entry sealed in
     if pe_mesh_id e \<noteq> mesh then Err Directory_WrongMesh
     else if all_zero (pe_identity_public_key e) \<or> all_zero (pe_noise_public_key e)
     then Err Directory_NonCanonical
     else if (case pe_secondary_address e of None \<Rightarrow> False | Some a \<Rightarrow> is_ipv6 a = is_ipv6 (pe_address e))
     then Err Directory_NonCanonical
     else if \<not> (1 \<le> length (pe_accepted_credentials e) \<and> length (pe_accepted_credentials e) \<le> 2)
     then Err Directory_NonCanonical
     else and_then (ensure_sorted_unique (map pb_serial (pe_accepted_credentials e))) (\<lambda>_.
       and_then (ensure_unique (map pb_wireguard_public_key (pe_accepted_credentials e))) (\<lambda>_.
       and_then (ok_or Directory_NonCanonical (entry_credential e (pe_credential_serial e))) (\<lambda>active.
       if pb_identity_public_key active \<noteq> pe_identity_public_key e
          \<or> pb_noise_public_key active \<noteq> pe_noise_public_key e
          \<or> pb_not_after active \<noteq> pe_not_after e
          \<or> pb_overlap_until active \<noteq> None
       then Err Directory_NonCanonical
       else and_then (check_all (check_binding env e) (pe_accepted_credentials e)) (\<lambda>_.
         directory_verify env key (peer_entry_transcript e) (sp_signature sealed))))))"

definition verify_peers ::
  "crypto_env \<Rightarrow> bytes \<Rightarrow> signed_peer_directory \<Rightarrow> uuid \<Rightarrow> nat option \<Rightarrow> (unit, directory_error) outcome" where
  "verify_peers env key sealed mesh accepted_revision = (let d = sd_directory sealed in
     and_then (ensure_scope_and_revision (pd_mesh_id d) mesh (pd_revision d) accepted_revision) (\<lambda>_.
     and_then (ensure_sorted_unique (map (\<lambda>item. pe_peer_id (sp_entry item)) (pd_entries d))) (\<lambda>_.
     and_then (ensure_unique (concat (map (\<lambda>item. map pb_wireguard_public_key
       (pe_accepted_credentials (sp_entry item))) (pd_entries d)))) (\<lambda>_.
     and_then (ensure_unique (concat (map (\<lambda>item. entry_addresses (sp_entry item)) (pd_entries d)))) (\<lambda>_.
     and_then (check_all (\<lambda>item. verify_peer env key item mesh) (pd_entries d)) (\<lambda>_.
     directory_verify env key (peer_revision_transcript d) (sd_signature sealed)))))))"

record signed_relay_directory =
  sr_directory :: relay_directory
  sr_signature :: bytes

record signed_relay_topology =
  st_topology :: relay_topology
  st_signature :: bytes

record signed_policy_bundle =
  spo_bundle :: policy_bundle
  spo_signature :: bytes

record signed_revocation_bundle =
  srv_bundle :: revocation_bundle
  srv_signature :: bytes

definition verify_relays ::
  "crypto_env \<Rightarrow> bytes \<Rightarrow> signed_relay_directory \<Rightarrow> uuid \<Rightarrow> nat option \<Rightarrow> (unit, directory_error) outcome" where
  "verify_relays env key sealed mesh accepted_revision = (let d = sr_directory sealed in
     and_then (ensure_scope_and_revision (rd_mesh_id d) mesh (rd_revision d) accepted_revision) (\<lambda>_.
     and_then (ensure_sorted_unique (map rl_relay_id (rd_entries d))) (\<lambda>_.
     and_then (check_all validate_relay_endpoints (rd_entries d)) (\<lambda>_.
     directory_verify env key (relay_transcript d) (sr_signature sealed)))))"

definition verify_relay_topology ::
  "crypto_env \<Rightarrow> bytes \<Rightarrow> signed_relay_topology \<Rightarrow> uuid \<Rightarrow> nat option \<Rightarrow> (unit, directory_error) outcome" where
  "verify_relay_topology env key sealed mesh accepted_revision = (let t = st_topology sealed in
     and_then (ensure_scope_and_revision (rt_mesh_id t) mesh (rt_revision t) accepted_revision) (\<lambda>_.
     and_then (validate_topology t) (\<lambda>_.
     directory_verify env key (relay_topology_transcript t) (st_signature sealed))))"

definition verify_policy ::
  "crypto_env \<Rightarrow> bytes \<Rightarrow> signed_policy_bundle \<Rightarrow> uuid \<Rightarrow> nat option \<Rightarrow> (unit, directory_error) outcome" where
  "verify_policy env key sealed mesh accepted_revision = (let b = spo_bundle sealed in
     and_then (ensure_scope_and_revision (po_mesh_id b) mesh (po_revision b) accepted_revision) (\<lambda>_.
     directory_verify env key (policy_transcript b) (spo_signature sealed)))"

definition verify_revocations ::
  "crypto_env \<Rightarrow> bytes \<Rightarrow> signed_revocation_bundle \<Rightarrow> uuid \<Rightarrow> nat option \<Rightarrow> (unit, directory_error) outcome" where
  "verify_revocations env key sealed mesh accepted_revision = (let b = srv_bundle sealed in
     and_then (ensure_scope_and_revision (rv_mesh_id b) mesh (rv_revision b) accepted_revision) (\<lambda>_.
     and_then (ensure_sorted_unique (rv_serials b)) (\<lambda>_.
     directory_verify env key (revocation_transcript b) (srv_signature sealed))))"

section \<open>Signing\<close>

definition sign_peer :: "crypto_env \<Rightarrow> bytes \<Rightarrow> peer_entry \<Rightarrow> (signed_peer_entry, 'e) outcome" where
  "sign_peer env seed entry =
     (let e = entry\<lparr>pe_accepted_credentials := sort_key pb_serial (pe_accepted_credentials entry)\<rparr>
      in and_then (peer_entry_transcript e) (\<lambda>message.
         Ok \<lparr>sp_entry = e, sp_signature = cy_sign env seed message\<rparr>))"

definition sign_peers ::
  "crypto_env \<Rightarrow> bytes \<Rightarrow> uuid \<Rightarrow> nat \<Rightarrow> signed_peer_entry list \<Rightarrow> (signed_peer_directory, directory_error) outcome" where
  "sign_peers env seed mesh_id revision entries =
     (let entries = sort_key (\<lambda>item. pe_peer_id (sp_entry item)) entries in
      and_then (ensure_unique (map (\<lambda>item. pe_peer_id (sp_entry item)) entries)) (\<lambda>_.
      let d = \<lparr>pd_mesh_id = mesh_id, pd_revision = revision, pd_entries = entries\<rparr> in
      and_then (peer_revision_transcript d) (\<lambda>message.
      Ok \<lparr>sd_directory = d, sd_signature = cy_sign env seed message\<rparr>)))"

definition sign_relays ::
  "crypto_env \<Rightarrow> bytes \<Rightarrow> uuid \<Rightarrow> nat \<Rightarrow> relay_entry list \<Rightarrow> (signed_relay_directory, directory_error) outcome" where
  "sign_relays env seed mesh_id revision entries =
     (let entries = sort_key rl_relay_id entries in
      and_then (ensure_unique (map rl_relay_id entries)) (\<lambda>_.
      and_then (check_all validate_relay_endpoints entries) (\<lambda>_.
      let d = \<lparr>rd_mesh_id = mesh_id, rd_revision = revision, rd_entries = entries\<rparr> in
      and_then (relay_transcript d) (\<lambda>message.
      Ok \<lparr>sr_directory = d, sr_signature = cy_sign env seed message\<rparr>))))"

definition sign_relay_topology ::
  "crypto_env \<Rightarrow> bytes \<Rightarrow> relay_topology \<Rightarrow> (signed_relay_topology, directory_error) outcome" where
  "sign_relay_topology env seed t =
     and_then (validate_topology t) (\<lambda>_.
     and_then (relay_topology_transcript t) (\<lambda>message.
     Ok \<lparr>st_topology = t, st_signature = cy_sign env seed message\<rparr>))"

definition sign_policy ::
  "crypto_env \<Rightarrow> bytes \<Rightarrow> uuid \<Rightarrow> nat \<Rightarrow> bytes \<Rightarrow> (signed_policy_bundle, 'e) outcome" where
  "sign_policy env seed mesh_id revision policy =
     (let b = \<lparr>po_mesh_id = mesh_id, po_revision = revision, po_policy = policy\<rparr> in
      and_then (policy_transcript b) (\<lambda>message.
      Ok \<lparr>spo_bundle = b, spo_signature = cy_sign env seed message\<rparr>))"

definition sign_revocations ::
  "crypto_env \<Rightarrow> bytes \<Rightarrow> uuid \<Rightarrow> nat \<Rightarrow> uuid list \<Rightarrow> (signed_revocation_bundle, directory_error) outcome" where
  "sign_revocations env seed mesh_id revision serials =
     (let serials = sort serials in
      and_then (ensure_unique serials) (\<lambda>_.
      let b = \<lparr>rv_mesh_id = mesh_id, rv_revision = revision, rv_serials = serials\<rparr> in
      and_then (revocation_transcript b) (\<lambda>message.
      Ok \<lparr>srv_bundle = b, srv_signature = cy_sign env seed message\<rparr>)))"

section \<open>Transcripts determine what was signed\<close>

abbreviation sized :: "bytes \<Rightarrow> bytes" where
  "sized b \<equiv> to_be 4 (length b) @ b"

lemma put_u32_iff [simp]: "put_u32 n = Ok m \<longleftrightarrow> n \<le> u32_max \<and> m = to_be 4 n"
  by (auto simp: put_u32_def)

lemma put_bytes_iff [simp]: "put_bytes b = Ok m \<longleftrightarrow> length b \<le> u32_max \<and> m = sized b"
  by (auto simp: put_bytes_def and_then_Ok_iff)

lemma put_all_iff:
  assumes "\<And>x m. put x = Ok m \<longleftrightarrow> ok x \<and> m = enc x"
  shows "put_all put xs = Ok m \<longleftrightarrow> list_all ok xs \<and> m = concat (map enc xs)"
  by (induction xs arbitrary: m) (auto simp: and_then_Ok_iff assms)

abbreviation put_list :: "('a \<Rightarrow> bytes) \<Rightarrow> 'a list \<Rightarrow> bytes" where
  "put_list enc xs \<equiv> to_be 4 (length xs) @ concat (map enc xs)"

text \<open>Addresses: the tag tells the length.\<close>

lemma address_code: "prefix_code put_address ip_addr_ok"
proof
  fix a b u v
  assume "ip_addr_ok a" "ip_addr_ok b" "put_address a @ u = put_address b @ v"
  then show "a = b \<and> u = v" by (cases a; cases b) auto
qed

lemma secondary_code:
  "prefix_code put_secondary (\<lambda>x. case x of None \<Rightarrow> True | Some a \<Rightarrow> ip_addr_ok a)"
proof -
  have "put_address a @ u \<noteq> [0] @ v" for a u v by (cases a) simp_all
  then show ?thesis unfolding put_secondary_def by (intro prefix_code_option [OF address_code]) simp
qed

definition binding_formed :: "uuid \<Rightarrow> uuid \<Rightarrow> peer_credential_binding \<Rightarrow> bool" where
  "binding_formed mesh_id peer_id b \<longleftrightarrow>
     credential_formed (binding_subject b mesh_id peer_id)
     \<and> (case pb_overlap_until b of None \<Rightarrow> True | Some until \<Rightarrow> until \<le> u64_max)"

lemma binding_eqI:
  "binding_subject b mesh_id peer_id = binding_subject c mesh_id peer_id \<Longrightarrow> pb_overlap_until b = pb_overlap_until c \<Longrightarrow> b = c"
  by (cases b; cases c) (simp add: binding_subject_def)

lemma credential_code: "prefix_code (put_credential mesh_id peer_id) (binding_formed mesh_id peer_id)"
proof
  fix b c u v
  assume formed: "binding_formed mesh_id peer_id b" "binding_formed mesh_id peer_id c"
    and eq: "put_credential mesh_id peer_id b @ u = put_credential mesh_id peer_id c @ v"
  let ?until = "\<lambda>b. case pb_overlap_until b of None \<Rightarrow> [0] | Some until \<Rightarrow> [1] @ to_be 8 until"
  have "binding_subject b mesh_id peer_id = binding_subject c mesh_id peer_id \<and> ?until b @ u = ?until c @ v"
    using formed eq by (intro subject_code.cancel) (simp_all add: put_credential_def binding_formed_def)
  moreover have "pb_overlap_until b = pb_overlap_until c \<and> u = v" if "?until b @ u = ?until c @ v"
    using that formed by (auto simp: binding_formed_def u64_inject split: option.splits)
  ultimately show "b = c \<and> u = v" using binding_eqI by blast
qed

lemma label_code:
  "prefix_code (\<lambda>(key, value). sized key @ sized value) (\<lambda>(key, value). length key \<le> u32_max \<and> length value \<le> u32_max)"
  by (rule prefix_code_append [OF prefix_code_sized prefix_code_sized])

lemma put_label_iff:
  "put_label l = Ok m \<longleftrightarrow> (case l of (key, value) \<Rightarrow> length key \<le> u32_max \<and> length value \<le> u32_max)
     \<and> m = (case l of (key, value) \<Rightarrow> sized key @ sized value)"
  by (cases l) (auto simp: put_label_def and_then_Ok_iff)

definition entry_formed :: "peer_entry \<Rightarrow> bool" where
  "entry_formed e \<longleftrightarrow>
     length (pe_mesh_id e) = 16 \<and> length (pe_peer_id e) = 16 \<and> ip_addr_ok (pe_address e)
     \<and> (case pe_secondary_address e of None \<Rightarrow> True | Some a \<Rightarrow> ip_addr_ok a)
     \<and> length (pe_identity_public_key e) = 32 \<and> length (pe_noise_public_key e) = 32
     \<and> length (pe_credential_serial e) = 16
     \<and> list_all (binding_formed (pe_mesh_id e) (pe_peer_id e)) (pe_accepted_credentials e)
     \<and> pe_not_after e \<le> u64_max"

lemma peer_entry_transcript_iff:
  "peer_entry_transcript e = Ok m \<longleftrightarrow>
     length (pe_accepted_credentials e) \<le> u32_max \<and> length (pe_labels e) \<le> u32_max
     \<and> list_all (\<lambda>(key, value). length key \<le> u32_max \<and> length value \<le> u32_max) (pe_labels e)
     \<and> m = PEER_ENTRY_DOMAIN @ pe_mesh_id e @ pe_peer_id e @ put_address (pe_address e)
         @ put_secondary (pe_secondary_address e) @ pe_identity_public_key e @ pe_noise_public_key e
         @ pe_credential_serial e
         @ put_list (put_credential (pe_mesh_id e) (pe_peer_id e)) (pe_accepted_credentials e)
         @ [if pe_enabled e then 1 else 0]
         @ put_list (\<lambda>(key, value). sized key @ sized value) (pe_labels e) @ to_be 8 (pe_not_after e)"
  by (auto simp: peer_entry_transcript_def and_then_Ok_iff put_all_iff [OF put_label_iff])

lemma peer_entry_transcript_inject:
  assumes formed: "entry_formed e" "entry_formed f" and eq: "peer_entry_transcript e = Ok m" "peer_entry_transcript f = Ok m"
  shows "e = f"
proof -
  note formed' = formed [unfolded entry_formed_def]
  note eq' = eq [unfolded peer_entry_transcript_iff]
  let ?r1 = "\<lambda>e. [if pe_enabled e then 1 else 0]
      @ put_list (\<lambda>(key, value). sized key @ sized value) (pe_labels e) @ to_be 8 (pe_not_after e)"
  let ?r2 = "\<lambda>e. pe_identity_public_key e @ pe_noise_public_key e @ pe_credential_serial e
      @ put_list (put_credential (pe_mesh_id e) (pe_peer_id e)) (pe_accepted_credentials e) @ ?r1 e"
  have ids: "pe_mesh_id e = pe_mesh_id f" "pe_peer_id e = pe_peer_id f"
    and t1: "put_address (pe_address e) @ put_secondary (pe_secondary_address e) @ ?r2 e
      = put_address (pe_address f) @ put_secondary (pe_secondary_address f) @ ?r2 f"
    using eq' formed' by auto
  have a1: "pe_address e = pe_address f"
    and t2: "put_secondary (pe_secondary_address e) @ ?r2 e = put_secondary (pe_secondary_address f) @ ?r2 f"
    using prefix_code.cancel [OF address_code _ _ t1] formed' by auto
  have a2: "pe_secondary_address e = pe_secondary_address f" and t3: "?r2 e = ?r2 f"
    using prefix_code.cancel [OF secondary_code _ _ t2] formed' by auto
  have keys: "pe_identity_public_key e = pe_identity_public_key f" "pe_noise_public_key e = pe_noise_public_key f"
      "pe_credential_serial e = pe_credential_serial f"
    and t4: "put_list (put_credential (pe_mesh_id e) (pe_peer_id e)) (pe_accepted_credentials e) @ ?r1 e
      = put_list (put_credential (pe_mesh_id e) (pe_peer_id e)) (pe_accepted_credentials f) @ ?r1 f"
    using t3 formed' ids by auto
  have creds: "pe_accepted_credentials e = pe_accepted_credentials f" and t5: "?r1 e = ?r1 f"
    using prefix_code.cancel [OF prefix_code_list [OF credential_code] _ _ t4] formed' eq' ids by auto
  have enabled: "pe_enabled e = pe_enabled f"
    and t6: "put_list (\<lambda>(key, value). sized key @ sized value) (pe_labels e) @ to_be 8 (pe_not_after e)
      = put_list (\<lambda>(key, value). sized key @ sized value) (pe_labels f) @ to_be 8 (pe_not_after f)"
    using t5 by (auto split: if_splits)
  have "pe_labels e = pe_labels f" "pe_not_after e = pe_not_after f"
    using prefix_code.cancel [OF prefix_code_list [OF label_code] _ _ t6] eq' formed' by (auto simp: u64_inject)
  then show ?thesis using ids a1 a2 keys creds enabled by (cases e; cases f) simp
qed

text \<open>A revision covers the identifiers and the signatures of its entries.\<close>

definition covered_items :: "peer_directory \<Rightarrow> (uuid \<times> bytes) list" where
  "covered_items d = map (\<lambda>item. (pe_peer_id (sp_entry item), sp_signature item)) (pd_entries d)"

definition directory_formed :: "peer_directory \<Rightarrow> bool" where
  "directory_formed d \<longleftrightarrow> length (pd_mesh_id d) = 16 \<and> pd_revision d \<le> u64_max
     \<and> list_all (\<lambda>(peer, signature). length peer = 16 \<and> length signature = 64) (covered_items d)"

lemma item_code:
  "prefix_code (\<lambda>(peer, signature). peer @ signature) (\<lambda>(peer, signature). length peer = 16 \<and> length signature = 64)"
  by (rule prefix_code_append [OF prefix_code_fixed prefix_code_fixed])

lemma peer_revision_transcript_iff:
  "peer_revision_transcript d = Ok m \<longleftrightarrow> length (covered_items d) \<le> u32_max
     \<and> m = PEER_REVISION_DOMAIN @ pd_mesh_id d @ to_be 8 (pd_revision d)
         @ put_list (\<lambda>(peer, signature). peer @ signature) (covered_items d) @ []"
  by (auto simp: peer_revision_transcript_def and_then_Ok_iff covered_items_def comp_def)

lemma peer_revision_transcript_inject:
  assumes formed: "directory_formed d" "directory_formed e"
    and eq: "peer_revision_transcript d = Ok m" "peer_revision_transcript e = Ok m"
  shows "pd_mesh_id d = pd_mesh_id e \<and> pd_revision d = pd_revision e \<and> covered_items d = covered_items e"
proof -
  note formed' = formed [unfolded directory_formed_def] and eq' = eq [unfolded peer_revision_transcript_iff]
  have head: "pd_mesh_id d = pd_mesh_id e" "pd_revision d = pd_revision e"
    and tail: "put_list (\<lambda>(peer, signature). peer @ signature) (covered_items d) @ []
      = put_list (\<lambda>(peer, signature). peer @ signature) (covered_items e) @ []"
    using formed' eq' by (auto simp: u64_inject)
  show ?thesis
    using prefix_code.cancel [OF prefix_code_list [OF item_code] _ _ tail] formed' eq' head by blast
qed

text \<open>\<open>parse\<close> is \<open>NetworkEndpoint::from_str\<close>, through which every endpoint is made.\<close>

definition endpoint_formed :: "(bytes \<Rightarrow> network_endpoint option) \<Rightarrow> network_endpoint \<Rightarrow> bool" where
  "endpoint_formed parse e \<longleftrightarrow> parse (ne_canonical e) = Some e \<and> length (ne_canonical e) \<le> u32_max"

lemma endpoint_code: "prefix_code (\<lambda>e. sized (ne_canonical e)) (endpoint_formed parse)"
proof (rule prefix_code_image [OF prefix_code_sized])
  show "e = f" if "endpoint_formed parse e" "endpoint_formed parse f" "ne_canonical e = ne_canonical f" for e f
    using that by (metis endpoint_formed_def option.inject)
qed (simp_all add: endpoint_formed_def)

abbreviation put_endpoints :: "network_endpoint list \<Rightarrow> bytes" where
  "put_endpoints es \<equiv> put_list (\<lambda>e. sized (ne_canonical e)) es"

definition relay_entry_bytes :: "relay_entry \<Rightarrow> bytes" where
  "relay_entry_bytes r = rl_relay_id r @ put_endpoints (rl_peer_endpoints r)
     @ put_endpoints (rl_backbone_endpoints r) @ rl_noise_public_key r @ rl_credential_serial r"

definition relay_entry_formed :: "(bytes \<Rightarrow> network_endpoint option) \<Rightarrow> relay_entry \<Rightarrow> bool" where
  "relay_entry_formed parse r \<longleftrightarrow>
     length (rl_relay_id r) = 16 \<and> length (rl_peer_endpoints r) \<le> u32_max \<and> list_all (endpoint_formed parse) (rl_peer_endpoints r)
     \<and> length (rl_backbone_endpoints r) \<le> u32_max \<and> list_all (endpoint_formed parse) (rl_backbone_endpoints r)
     \<and> length (rl_noise_public_key r) = 32 \<and> length (rl_credential_serial r) = 16"

lemma relay_entry_code: "prefix_code relay_entry_bytes (relay_entry_formed parse)"
proof (rule prefix_code_image [where f = "\<lambda>r. (rl_relay_id r, rl_peer_endpoints r, rl_backbone_endpoints r,
      rl_noise_public_key r, rl_credential_serial r)"])
  show "prefix_code
      (\<lambda>(i, x). i @ (\<lambda>(p, y). put_endpoints p @ (\<lambda>(b, z). put_endpoints b @ (\<lambda>(n, s). n @ s) z) y) x)
      (\<lambda>(i, x). length i = 16 \<and> (\<lambda>(p, y). (length p \<le> u32_max \<and> list_all (endpoint_formed parse) p)
        \<and> (\<lambda>(b, z). (length b \<le> u32_max \<and> list_all (endpoint_formed parse) b)
        \<and> (\<lambda>(n, s). length n = 32 \<and> length s = 16) z) y) x)"
    by (intro prefix_code_append prefix_code_fixed prefix_code_list endpoint_code)
qed (auto simp: relay_entry_bytes_def relay_entry_formed_def)

lemma put_relay_entry_iff:
  "put_relay_entry r = Ok m \<longleftrightarrow>
     length (rl_peer_endpoints r) \<le> u32_max \<and> list_all (\<lambda>e. length (ne_canonical e) \<le> u32_max) (rl_peer_endpoints r)
     \<and> length (rl_backbone_endpoints r) \<le> u32_max \<and> list_all (\<lambda>e. length (ne_canonical e) \<le> u32_max) (rl_backbone_endpoints r)
     \<and> m = relay_entry_bytes r"
proof -
  have "put_bytes (ne_canonical e) = Ok n \<longleftrightarrow> length (ne_canonical e) \<le> u32_max \<and> n = sized (ne_canonical e)" for e n
    by simp
  note puts = put_all_iff [OF this]
  show ?thesis by (auto simp: put_relay_entry_def and_then_Ok_iff puts relay_entry_bytes_def)
qed

definition relays_formed :: "(bytes \<Rightarrow> network_endpoint option) \<Rightarrow> relay_directory \<Rightarrow> bool" where
  "relays_formed parse d \<longleftrightarrow> length (rd_mesh_id d) = 16 \<and> rd_revision d \<le> u64_max
     \<and> list_all (relay_entry_formed parse) (rd_entries d)"

lemma relay_transcript_bytes:
  "relay_transcript d = Ok m \<Longrightarrow> length (rd_entries d) \<le> u32_max
     \<and> m = RELAY_DOMAIN @ rd_mesh_id d @ to_be 8 (rd_revision d) @ put_list relay_entry_bytes (rd_entries d) @ []"
  using put_all_iff [of put_relay_entry "\<lambda>r. length (rl_peer_endpoints r) \<le> u32_max
     \<and> list_all (\<lambda>e. length (ne_canonical e) \<le> u32_max) (rl_peer_endpoints r)
     \<and> length (rl_backbone_endpoints r) \<le> u32_max \<and> list_all (\<lambda>e. length (ne_canonical e) \<le> u32_max) (rl_backbone_endpoints r)"
     relay_entry_bytes "rd_entries d"]
  by (auto simp: relay_transcript_def and_then_Ok_iff put_relay_entry_iff)

lemma relay_transcript_inject:
  assumes formed: "relays_formed parse d" "relays_formed parse e"
    and eq: "relay_transcript d = Ok m" "relay_transcript e = Ok m"
  shows "d = e"
proof -
  note formed' = formed [unfolded relays_formed_def]
    and eq' = relay_transcript_bytes [OF eq(1)] relay_transcript_bytes [OF eq(2)]
  have head: "rd_mesh_id d = rd_mesh_id e" "rd_revision d = rd_revision e"
    and tail: "put_list relay_entry_bytes (rd_entries d) @ [] = put_list relay_entry_bytes (rd_entries e) @ []"
    using formed' eq' by (auto simp: u64_inject)
  have "rd_entries d = rd_entries e"
    using prefix_code.cancel [OF prefix_code_list [OF relay_entry_code] _ _ tail] formed' eq' by blast
  then show ?thesis using head by (cases d; cases e) simp
qed

text \<open>Topologies\<close>

lemma word_code:
  assumes "\<And>w :: 'a::len word. unat w < 256 ^ n"
  shows "prefix_code (\<lambda>w :: 'a word. to_be n (unat w)) (\<lambda>_. True)"
  by (rule prefix_code_image [OF prefix_code_be [of n], where f = unat]) (use assms in \<open>auto simp: word_unat_eq_iff\<close>)

definition node_bytes :: "topology_node \<Rightarrow> bytes" where
  "node_bytes node = tn_relay_id node @ sized (tn_region node) @ to_be 2 (unat (tn_routing_weight node))
     @ to_be 8 (unat (tn_capabilities node))"

definition node_formed :: "topology_node \<Rightarrow> bool" where
  "node_formed node \<longleftrightarrow> length (tn_relay_id node) = 16 \<and> length (tn_region node) \<le> u32_max"

definition edge_formed :: "topology_edge \<Rightarrow> bool" where
  "edge_formed e \<longleftrightarrow> length (te_left e) = 16 \<and> length (te_right e) = 16"

lemma unat_16: "unat (w :: 16 word) < 256 ^ 2" using unsigned_less [of w, where 'a = nat] by simp
lemma unat_32: "unat (w :: 32 word) < 256 ^ 4" using unsigned_less [of w, where 'a = nat] by simp
lemma unat_64: "unat (w :: 64 word) < 256 ^ 8" using unsigned_less [of w, where 'a = nat] by simp

lemma node_code: "prefix_code node_bytes node_formed"
proof (rule prefix_code_image [where f = "\<lambda>n. (tn_relay_id n, tn_region n, tn_routing_weight n, tn_capabilities n)"])
  show "prefix_code
      (\<lambda>(i, x). i @ (\<lambda>(r, y). sized r @ (\<lambda>(w, c). to_be 2 (unat (w :: 16 word)) @ to_be 8 (unat (c :: 64 word))) y) x)
      (\<lambda>(i, x). length i = 16 \<and> (\<lambda>(r, y). length r \<le> u32_max \<and> (\<lambda>(w, c). True \<and> True) y) x)"
    by (intro prefix_code_append prefix_code_fixed prefix_code_sized word_code unat_16 unat_64)
qed (auto simp: node_bytes_def node_formed_def)

lemma edge_code: "prefix_code put_edge edge_formed"
proof (rule prefix_code_image [where f = edge_fields])
  show "prefix_code
      (\<lambda>(l, x). l @ (\<lambda>(r, y). r @ (\<lambda>(t, p). to_be 4 (unat (t :: 32 word)) @ to_be 2 (unat (p :: 16 word))) y) x)
      (\<lambda>(l, x). length l = 16 \<and> (\<lambda>(r, y). length r = 16 \<and> (\<lambda>(t, p). True \<and> True) y) x)"
    by (intro prefix_code_append prefix_code_fixed word_code unat_16 unat_32)
qed (auto simp: put_edge_def edge_formed_def edge_fields_def intro: edge_fields_inject)

definition topology_formed :: "relay_topology \<Rightarrow> bool" where
  "topology_formed t \<longleftrightarrow> length (rt_mesh_id t) = 16 \<and> rt_revision t \<le> u64_max
     \<and> list_all node_formed (rt_nodes t) \<and> list_all edge_formed (rt_edges t)"

lemma topology_transcript_bytes:
  "relay_topology_transcript t = Ok m \<Longrightarrow> length (rt_nodes t) \<le> u32_max \<and> length (rt_edges t) \<le> u32_max
     \<and> m = RELAY_TOPOLOGY_DOMAIN @ rt_mesh_id t @ to_be 8 (rt_revision t) @ [case rt_mode t of FullMesh \<Rightarrow> 0 | Sparse \<Rightarrow> 1]
         @ put_list node_bytes (rt_nodes t) @ put_list put_edge (rt_edges t) @ []"
proof -
  have "put_node n = Ok b \<longleftrightarrow> length (tn_region n) \<le> u32_max \<and> b = node_bytes n" for n b
    by (auto simp: put_node_def and_then_Ok_iff node_bytes_def)
  note nodes = put_all_iff [OF this]
  show "relay_topology_transcript t = Ok m \<Longrightarrow> ?thesis"
    by (auto simp: relay_topology_transcript_def and_then_Ok_iff nodes)
qed

lemma topology_transcript_inject:
  assumes formed: "topology_formed t" "topology_formed u"
    and eq: "relay_topology_transcript t = Ok m" "relay_topology_transcript u = Ok m"
  shows "t = u"
proof -
  note formed' = formed [unfolded topology_formed_def]
    and eq' = topology_transcript_bytes [OF eq(1)] topology_transcript_bytes [OF eq(2)]
  have head: "rt_mesh_id t = rt_mesh_id u" "rt_revision t = rt_revision u" "rt_mode t = rt_mode u"
    and t1: "put_list node_bytes (rt_nodes t) @ put_list put_edge (rt_edges t) @ []
      = put_list node_bytes (rt_nodes u) @ put_list put_edge (rt_edges u) @ []"
    using formed' eq' by (auto simp: u64_inject split: topology_mode.splits)
  have nodes: "rt_nodes t = rt_nodes u"
    and t2: "put_list put_edge (rt_edges t) @ [] = put_list put_edge (rt_edges u) @ []"
    using prefix_code.cancel [OF prefix_code_list [OF node_code] _ _ t1] formed' eq' by blast+
  have "rt_edges t = rt_edges u"
    using prefix_code.cancel [OF prefix_code_list [OF edge_code] _ _ t2] formed' eq' by blast
  then show ?thesis using head nodes by (cases t; cases u) simp
qed

text \<open>Policies and revocations\<close>

definition policy_formed :: "policy_bundle \<Rightarrow> bool" where
  "policy_formed b \<longleftrightarrow> length (po_mesh_id b) = 16 \<and> po_revision b \<le> u64_max"

definition revocations_formed :: "revocation_bundle \<Rightarrow> bool" where
  "revocations_formed b \<longleftrightarrow> length (rv_mesh_id b) = 16 \<and> rv_revision b \<le> u64_max \<and> list_all (\<lambda>u. length u = 16) (rv_serials b)"

lemma policy_transcript_inject:
  assumes "policy_formed b" "policy_formed c" "policy_transcript b = Ok m" "policy_transcript c = Ok m"
  shows "b = c"
  using assms by (cases b; cases c) (auto simp: policy_transcript_def and_then_Ok_iff policy_formed_def u64_inject)

lemma revocation_transcript_inject:
  assumes formed: "revocations_formed b" "revocations_formed c"
    and eq: "revocation_transcript b = Ok m" "revocation_transcript c = Ok m"
  shows "b = c"
proof -
  note formed' = formed [unfolded revocations_formed_def]
  have "revocation_transcript b = Ok m \<Longrightarrow> length (rv_serials b) \<le> u32_max
     \<and> m = REVOCATION_DOMAIN @ rv_mesh_id b @ to_be 8 (rv_revision b) @ put_list (\<lambda>u. u) (rv_serials b) @ []" for b
    by (auto simp: revocation_transcript_def and_then_Ok_iff)
  note eq' = this [OF eq(1)] this [OF eq(2)]
  have head: "rv_mesh_id b = rv_mesh_id c" "rv_revision b = rv_revision c"
    and tail: "put_list (\<lambda>u. u) (rv_serials b) @ [] = put_list (\<lambda>u. u) (rv_serials c) @ []"
    using formed' eq' by (auto simp: u64_inject)
  have "rv_serials b = rv_serials c"
    using prefix_code.cancel [OF prefix_code_list [OF prefix_code_fixed [of 16]] _ _ tail] formed' eq' by blast
  then show ?thesis using head by (cases b; cases c) simp
qed

section \<open>What verification establishes\<close>

text \<open>The kind of a message is what precedes its first zero byte.\<close>

definition ascii :: "string \<Rightarrow> bytes" where
  "ascii name = map (\<lambda>c. word_of_nat (of_char c)) name"

definition message_kind :: "bytes \<Rightarrow> bytes" where
  "message_kind m = takeWhile (\<lambda>b. b \<noteq> 0) m"

lemma ascii_eq: "ascii a = ascii b \<longleftrightarrow> a = b"
proof -
  have "inj (\<lambda>c. word_of_nat (of_char c) :: u8)" by (rule injI) (simp add: char_byte_inject)
  then show ?thesis by (simp add: ascii_def inj_map_eq_map)
qed

lemma kind_domain:
  "list_all (\<lambda>c. of_char c \<noteq> (0 :: nat)) name \<Longrightarrow> message_kind (domain name @ u) = ascii name"
  by (induction name) (simp_all add: message_kind_def domain_def ascii_def char_byte_inject)

lemma transcript_kinds:
  "peer_entry_transcript e = Ok m \<Longrightarrow> message_kind m = ascii ''peerward/peer-directory-entry/v4''"
  "peer_revision_transcript d = Ok m \<Longrightarrow> message_kind m = ascii ''peerward/peer-directory-revision/v1''"
  "relay_transcript r = Ok m \<Longrightarrow> message_kind m = ascii ''peerward/relay-directory/v2''"
  "relay_topology_transcript t = Ok m \<Longrightarrow> message_kind m = ascii ''peerward/relay-topology/v1''"
  "policy_transcript p = Ok m \<Longrightarrow> message_kind m = ascii ''peerward/policy-bundle/v1''"
  "revocation_transcript v = Ok m \<Longrightarrow> message_kind m = ascii ''peerward/revocation-bundle/v1''"
  by (auto simp: peer_entry_transcript_def peer_revision_transcript_def relay_transcript_def
      relay_topology_transcript_def policy_transcript_def revocation_transcript_def and_then_Ok_iff kind_domain
      PEER_ENTRY_DOMAIN_def PEER_REVISION_DOMAIN_def RELAY_DOMAIN_def RELAY_TOPOLOGY_DOMAIN_def POLICY_DOMAIN_def
      REVOCATION_DOMAIN_def)

lemma management_kinds:
  "message_kind (MANIFEST_DOMAIN @ b) = ascii ''peerward/configuration-manifest/v1''"
  "message_kind (LEASE_DOMAIN @ b) = ascii ''peerward/authorization-lease/v1''"
  "message_kind (WEBHOOK_DOMAIN @ b) = ascii ''peerward/webhook-notification/v1''"
  "message_kind (RENEWAL_DOMAIN @ b) = ascii ''peerward/credential-renewal-command/v1''"
  by (simp_all add: kind_domain MANIFEST_DOMAIN_def LEASE_DOMAIN_def WEBHOOK_DOMAIN_def RENEWAL_DOMAIN_def)

text \<open>What the distribution key has signed\<close>

record directory_history =
  dh_entries :: "peer_entry set"
  dh_directories :: "peer_directory set"
  dh_relays :: "relay_directory set"
  dh_topologies :: "relay_topology set"
  dh_policies :: "policy_bundle set"
  dh_revocations :: "revocation_bundle set"

definition distribution_signed :: "directory_history \<Rightarrow> bytes \<Rightarrow> bool" where
  "distribution_signed h m \<longleftrightarrow>
     (\<exists>e\<in>dh_entries h. peer_entry_transcript e = (Ok m :: (bytes, directory_error) outcome))
     \<or> (\<exists>d\<in>dh_directories h. peer_revision_transcript d = (Ok m :: (bytes, directory_error) outcome))
     \<or> (\<exists>r\<in>dh_relays h. relay_transcript r = (Ok m :: (bytes, directory_error) outcome))
     \<or> (\<exists>t\<in>dh_topologies h. relay_topology_transcript t = (Ok m :: (bytes, directory_error) outcome))
     \<or> (\<exists>p\<in>dh_policies h. policy_transcript p = (Ok m :: (bytes, directory_error) outcome))
     \<or> (\<exists>v\<in>dh_revocations h. revocation_transcript v = (Ok m :: (bytes, directory_error) outcome))
     \<or> (\<exists>b. m = MANIFEST_DOMAIN @ b \<or> m = LEASE_DOMAIN @ b \<or> m = WEBHOOK_DOMAIN @ b \<or> m = RENEWAL_DOMAIN @ b)"

lemma signed_kind:
  assumes "distribution_signed h m"
  shows "message_kind m = ascii ''peerward/peer-directory-entry/v4'' \<Longrightarrow>
      \<exists>e\<in>dh_entries h. peer_entry_transcript e = (Ok m :: (bytes, directory_error) outcome)"
    "message_kind m = ascii ''peerward/peer-directory-revision/v1'' \<Longrightarrow>
      \<exists>d\<in>dh_directories h. peer_revision_transcript d = (Ok m :: (bytes, directory_error) outcome)"
    "message_kind m = ascii ''peerward/relay-directory/v2'' \<Longrightarrow>
      \<exists>r\<in>dh_relays h. relay_transcript r = (Ok m :: (bytes, directory_error) outcome)"
    "message_kind m = ascii ''peerward/relay-topology/v1'' \<Longrightarrow>
      \<exists>t\<in>dh_topologies h. relay_topology_transcript t = (Ok m :: (bytes, directory_error) outcome)"
    "message_kind m = ascii ''peerward/policy-bundle/v1'' \<Longrightarrow>
      \<exists>p\<in>dh_policies h. policy_transcript p = (Ok m :: (bytes, directory_error) outcome)"
    "message_kind m = ascii ''peerward/revocation-bundle/v1'' \<Longrightarrow>
      \<exists>v\<in>dh_revocations h. revocation_transcript v = (Ok m :: (bytes, directory_error) outcome)"
  using assms unfolding distribution_signed_def
  by (elim disjE bexE exE; auto simp: management_kinds ascii_eq dest!: transcript_kinds)+

definition distribution_history ::
  "crypto_env \<Rightarrow> (bytes \<Rightarrow> network_endpoint option) \<Rightarrow> bytes \<Rightarrow> directory_history \<Rightarrow> bool" where
  "distribution_history env parse key h \<longleftrightarrow>
     (\<forall>message signature. cy_verify env key message signature \<longrightarrow> distribution_signed h message)
     \<and> (\<forall>e\<in>dh_entries h. entry_formed e) \<and> (\<forall>d\<in>dh_directories h. directory_formed d)
     \<and> (\<forall>r\<in>dh_relays h. relays_formed parse r) \<and> (\<forall>t\<in>dh_topologies h. topology_formed t)
     \<and> (\<forall>p\<in>dh_policies h. policy_formed p) \<and> (\<forall>v\<in>dh_revocations h. revocations_formed v)"

lemma directory_verify_iff:
  "directory_verify env key transcript signature = Ok () \<longleftrightarrow>
     (\<exists>m. transcript = Ok m \<and> cy_verify env key m signature)"
  by (auto simp: directory_verify_def and_then_Ok_iff split: if_splits)

lemma check_all_iff: "check_all check xs = Ok () \<longleftrightarrow> (\<forall>x\<in>set xs. check x = Ok ())"
  by (induction xs) (auto simp: and_then_Ok_iff)

text \<open>
  The contract of a kind of signed object: its transcripts are of that kind only, they determine the
  object up to \<open>same\<close>, and a signed message of that kind is the transcript of a published one.
\<close>

locale signed_object =
  fixes transcript :: "'a \<Rightarrow> (bytes, directory_error) outcome"
    and kind :: bytes
    and formed :: "'a \<Rightarrow> bool"
    and same :: "'a \<Rightarrow> 'a \<Rightarrow> bool"
    and published :: "directory_history \<Rightarrow> 'a set"
  assumes kind: "transcript x = Ok m \<Longrightarrow> message_kind m = kind"
    and inject: "formed x \<Longrightarrow> formed y \<Longrightarrow> transcript x = Ok m \<Longrightarrow> transcript y = Ok m \<Longrightarrow> same x y"
    and origin: "distribution_signed h m \<Longrightarrow> message_kind m = kind \<Longrightarrow> \<exists>y\<in>published h. transcript y = Ok m"
begin

lemma verified:
  assumes "distribution_history env parse key h" "\<And>y. y \<in> published h \<Longrightarrow> formed y"
    and "formed x" "directory_verify env key (transcript x) g = Ok ()"
  shows "\<exists>y\<in>published h. same x y"
proof -
  obtain m where m: "transcript x = Ok m" "cy_verify env key m g"
    using assms(4) by (auto simp: directory_verify_iff)
  have "distribution_signed h m" using assms(1) m(2) unfolding distribution_history_def by blast
  then obtain y where "y \<in> published h" "transcript y = Ok m" using origin kind [OF m(1)] by blast
  then show ?thesis using inject [OF assms(3) assms(2) m(1)] by blast
qed

end

interpretation entry_object: signed_object peer_entry_transcript "ascii ''peerward/peer-directory-entry/v4''"
  entry_formed "(=)" dh_entries
  using transcript_kinds(1) peer_entry_transcript_inject signed_kind(1) by unfold_locales

interpretation revision_object: signed_object peer_revision_transcript "ascii ''peerward/peer-directory-revision/v1''"
  directory_formed "\<lambda>d e. pd_mesh_id d = pd_mesh_id e \<and> pd_revision d = pd_revision e \<and> covered_items d = covered_items e"
  dh_directories
  using transcript_kinds(2) peer_revision_transcript_inject signed_kind(2) by unfold_locales

interpretation relays_object: signed_object relay_transcript "ascii ''peerward/relay-directory/v2''"
  "relays_formed parse" "(=)" dh_relays for parse
  using transcript_kinds(3) relay_transcript_inject signed_kind(3) by unfold_locales

interpretation topology_object: signed_object relay_topology_transcript "ascii ''peerward/relay-topology/v1''"
  topology_formed "(=)" dh_topologies
  using transcript_kinds(4) topology_transcript_inject signed_kind(4) by unfold_locales

interpretation policy_object: signed_object policy_transcript "ascii ''peerward/policy-bundle/v1''"
  policy_formed "(=)" dh_policies
  using transcript_kinds(5) policy_transcript_inject signed_kind(5) by unfold_locales

interpretation revocation_object: signed_object revocation_transcript "ascii ''peerward/revocation-bundle/v1''"
  revocations_formed "(=)" dh_revocations
  using transcript_kinds(6) revocation_transcript_inject signed_kind(6) by unfold_locales

text \<open>What the checks before the signature establish\<close>

definition entry_canonical :: "crypto_env \<Rightarrow> peer_entry \<Rightarrow> bool" where
  "entry_canonical env e \<longleftrightarrow>
     \<not> all_zero (pe_identity_public_key e) \<and> \<not> all_zero (pe_noise_public_key e)
     \<and> (\<forall>a. pe_secondary_address e = Some a \<longrightarrow> is_ipv6 a \<noteq> is_ipv6 (pe_address e))
     \<and> length (pe_accepted_credentials e) \<in> {1, 2}
     \<and> ascending (map pb_serial (pe_accepted_credentials e))
     \<and> distinct (map pb_wireguard_public_key (pe_accepted_credentials e))
     \<and> (\<exists>active\<in>set (pe_accepted_credentials e). pb_serial active = pe_credential_serial e
          \<and> pb_identity_public_key active = pe_identity_public_key e
          \<and> pb_noise_public_key active = pe_noise_public_key e \<and> pb_not_after active = pe_not_after e
          \<and> pb_overlap_until active = None)
     \<and> (\<forall>b\<in>set (pe_accepted_credentials e).
          credential_sound env (binding_subject b (pe_mesh_id e) (pe_peer_id e))
          \<and> (pb_serial b \<noteq> pe_credential_serial e \<longrightarrow>
              (\<exists>until. pb_overlap_until b = Some until \<and> pb_not_before b < until \<and> until \<le> pb_not_after b)))"

lemma check_binding_iff:
  assumes "binding_formed (pe_mesh_id e) (pe_peer_id e) b"
  shows "check_binding env e b = Ok () \<longleftrightarrow>
     credential_sound env (binding_subject b (pe_mesh_id e) (pe_peer_id e))
     \<and> (pb_serial b \<noteq> pe_credential_serial e \<longrightarrow>
         (\<exists>until. pb_overlap_until b = Some until \<and> pb_not_before b < until \<and> until \<le> pb_not_after b))"
proof -
  let ?s = "binding_subject b (pe_mesh_id e) (pe_peer_id e)"
  have formed: "credential_formed ?s" using assms by (simp add: binding_formed_def)
  have "(\<exists>c. subject_decode env (subject_encode ?s) = Ok c) \<longleftrightarrow> credential_sound env ?s"
  proof
    assume "\<exists>c. subject_decode env (subject_encode ?s) = Ok c"
    then obtain c where c: "subject_encode c = subject_encode ?s" "credential_typed c" "credential_sound env c"
      by (auto simp: subject_decode_iff)
    then have "credential_formed c" by (simp add: credential_formed_def credential_sound_def)
    then show "credential_sound env ?s" using subject_code.enc_inject [OF _ formed] c by blast
  next
    assume "credential_sound env ?s"
    then show "\<exists>c. subject_decode env (subject_encode ?s) = Ok c"
      using formed by (auto simp: subject_decode_iff credential_formed_def)
  qed
  then show ?thesis
    by (auto simp: check_binding_def and_then_Ok_iff not_le split: option.splits if_splits)
qed

lemma verify_peer_iff:
  assumes "entry_formed (sp_entry s)"
  shows "verify_peer env key s mesh = Ok () \<longleftrightarrow>
    pe_mesh_id (sp_entry s) = mesh \<and> entry_canonical env (sp_entry s)
    \<and> directory_verify env key (peer_entry_transcript (sp_entry s)) (sp_signature s) = Ok ()"
proof -
  let ?e = "sp_entry s"
  have bindings: "check_all (check_binding env ?e) (pe_accepted_credentials ?e) = Ok () \<longleftrightarrow>
      (\<forall>b\<in>set (pe_accepted_credentials ?e). credential_sound env (binding_subject b (pe_mesh_id ?e) (pe_peer_id ?e))
       \<and> (pb_serial b \<noteq> pe_credential_serial ?e \<longrightarrow>
         (\<exists>until. pb_overlap_until b = Some until \<and> pb_not_before b < until \<and> until \<le> pb_not_after b)))"
    using assms check_binding_iff by (auto simp: check_all_iff entry_formed_def list_all_iff)
  have active: "(\<exists>a. entry_credential ?e (pe_credential_serial ?e) = Some a \<and> P a) \<longleftrightarrow>
      (\<exists>a\<in>set (pe_accepted_credentials ?e). pb_serial a = pe_credential_serial ?e \<and> P a)"
    if "ascending (map pb_serial (pe_accepted_credentials ?e))" for P
  proof -
    have uniq: "a = b" if "a \<in> set (pe_accepted_credentials ?e)" "b \<in> set (pe_accepted_credentials ?e)" "pb_serial a = pb_serial b" for a b
      using that \<open>ascending _\<close> by (metis distinct_map inj_onD strict_sorted_iff)
    show ?thesis
      unfolding entry_credential_def using uniq find_None_iff find_SomeD by (metis (mono_tags, lifting) option.exhaust)
  qed
  have lens: "length (pe_accepted_credentials ?e) \<in> {1, 2} \<longleftrightarrow>
      1 \<le> length (pe_accepted_credentials ?e) \<and> length (pe_accepted_credentials ?e) \<le> 2" by auto
  show ?thesis
  proof (cases "ascending (map pb_serial (pe_accepted_credentials ?e))")
    case True
    show ?thesis
      unfolding entry_canonical_def lens bindings [symmetric] active [OF True, symmetric]
      using True
      by (auto simp: verify_peer_def Let_def and_then_Ok_iff ensure_sorted_unique_eq ensure_unique_eq
          split: option.splits if_splits)
  next
    case False
    then show ?thesis
      by (auto simp: verify_peer_def Let_def and_then_Ok_iff ensure_sorted_unique_eq entry_canonical_def
          split: option.splits if_splits)
  qed
qed

definition newer_than :: "nat option \<Rightarrow> nat \<Rightarrow> bool" where
  "newer_than accepted revision \<longleftrightarrow> (\<forall>r. accepted = Some r \<longrightarrow> r < revision)"

lemma verify_peers_iff:
  "verify_peers env key s mesh accepted = Ok () \<longleftrightarrow> (let d = sd_directory s in
     pd_mesh_id d = mesh \<and> newer_than accepted (pd_revision d)
     \<and> ascending (map (\<lambda>item. pe_peer_id (sp_entry item)) (pd_entries d))
     \<and> distinct (concat (map (\<lambda>item. map pb_wireguard_public_key (pe_accepted_credentials (sp_entry item))) (pd_entries d)))
     \<and> distinct (concat (map (\<lambda>item. entry_addresses (sp_entry item)) (pd_entries d)))
     \<and> (\<forall>item\<in>set (pd_entries d). verify_peer env key item mesh = Ok ())
     \<and> directory_verify env key (peer_revision_transcript d) (sd_signature s) = Ok ())"
  by (simp add: verify_peers_def Let_def and_then_Ok_iff ensure_sorted_unique_eq ensure_unique_eq check_all_iff newer_than_def)

lemma verify_bundles_iff:
  "verify_relays env key r mesh accepted = Ok () \<longleftrightarrow> (let d = sr_directory r in
     rd_mesh_id d = mesh \<and> newer_than accepted (rd_revision d) \<and> ascending (map rl_relay_id (rd_entries d))
     \<and> (\<forall>e\<in>set (rd_entries d). validate_relay_endpoints e = Ok ())
     \<and> directory_verify env key (relay_transcript d) (sr_signature r) = Ok ())"
  "verify_relay_topology env key t mesh accepted = Ok () \<longleftrightarrow> (let d = st_topology t in
     rt_mesh_id d = mesh \<and> newer_than accepted (rt_revision d) \<and> validate_topology d = Ok ()
     \<and> directory_verify env key (relay_topology_transcript d) (st_signature t) = Ok ())"
  "verify_policy env key p mesh accepted = Ok () \<longleftrightarrow> (let d = spo_bundle p in
     po_mesh_id d = mesh \<and> newer_than accepted (po_revision d)
     \<and> directory_verify env key (policy_transcript d) (spo_signature p) = Ok ())"
  "verify_revocations env key v mesh accepted = Ok () \<longleftrightarrow> (let d = srv_bundle v in
     rv_mesh_id d = mesh \<and> newer_than accepted (rv_revision d) \<and> ascending (rv_serials d)
     \<and> directory_verify env key (revocation_transcript d) (srv_signature v) = Ok ())"
  by (auto simp: verify_relays_def verify_relay_topology_def verify_policy_def verify_revocations_def Let_def
      and_then_Ok_iff ensure_sorted_unique_eq check_all_iff newer_than_def)

lemma verified_entry:
  assumes history: "distribution_history env parse key h" and "verify_peer env key e mesh = Ok ()" "entry_formed (sp_entry e)"
  shows "sp_entry e \<in> dh_entries h \<and> pe_mesh_id (sp_entry e) = mesh \<and> entry_canonical env (sp_entry e)"
  using assms entry_object.verified [OF history] history [unfolded distribution_history_def] by (auto simp: verify_peer_iff)

text \<open>(C4) What verifies was published.  The distribution key signs entries, directories, topologies, policy and
  revocation bundles and management messages, and nothing else verifies under it.  Then an accepted
  object is one that was published, in every field, for this Mesh and newer than the revision in
  force; an accepted peer entry is canonical; an accepted peer directory lists published entries
  in order, no two with a common address or data key, under a published revision with the same
  identifiers and signatures.  A signature of one kind never authenticates another.
\<close>

theorem verified_was_published:
  assumes history: "distribution_history env parse key h"
  shows "(entry_formed (sp_entry e) \<and> verify_peer env key e mesh = Ok () \<longrightarrow>
        sp_entry e \<in> dh_entries h \<and> pe_mesh_id (sp_entry e) = mesh \<and> entry_canonical env (sp_entry e))
    \<and> (directory_formed (sd_directory d) \<and> list_all (\<lambda>item. entry_formed (sp_entry item)) (pd_entries (sd_directory d))
         \<and> verify_peers env key d mesh accepted = Ok () \<longrightarrow>
        sp_entry ` set (pd_entries (sd_directory d)) \<subseteq> dh_entries h
        \<and> (\<exists>f\<in>dh_directories h. pd_mesh_id f = mesh \<and> pd_revision f = pd_revision (sd_directory d)
             \<and> newer_than accepted (pd_revision f) \<and> covered_items f = covered_items (sd_directory d))
        \<and> ascending (map (\<lambda>item. pe_peer_id (sp_entry item)) (pd_entries (sd_directory d)))
        \<and> distinct (concat (map (\<lambda>item. entry_addresses (sp_entry item)) (pd_entries (sd_directory d))))
        \<and> distinct (concat (map (\<lambda>item. map pb_wireguard_public_key (pe_accepted_credentials (sp_entry item)))
             (pd_entries (sd_directory d)))))
    \<and> (relays_formed parse (sr_directory r) \<and> verify_relays env key r mesh accepted = Ok () \<longrightarrow>
        sr_directory r \<in> dh_relays h \<and> rd_mesh_id (sr_directory r) = mesh \<and> newer_than accepted (rd_revision (sr_directory r)))
    \<and> (topology_formed (st_topology t) \<and> verify_relay_topology env key t mesh accepted = Ok () \<longrightarrow>
        st_topology t \<in> dh_topologies h \<and> rt_mesh_id (st_topology t) = mesh \<and> newer_than accepted (rt_revision (st_topology t)))
    \<and> (policy_formed (spo_bundle p) \<and> verify_policy env key p mesh accepted = Ok () \<longrightarrow>
        spo_bundle p \<in> dh_policies h \<and> po_mesh_id (spo_bundle p) = mesh \<and> newer_than accepted (po_revision (spo_bundle p)))
    \<and> (revocations_formed (srv_bundle v) \<and> verify_revocations env key v mesh accepted = Ok () \<longrightarrow>
        srv_bundle v \<in> dh_revocations h \<and> rv_mesh_id (srv_bundle v) = mesh \<and> newer_than accepted (rv_revision (srv_bundle v)))"
proof -
  note formed = history [unfolded distribution_history_def]
  have entry: "sp_entry e \<in> dh_entries h \<and> pe_mesh_id (sp_entry e) = mesh \<and> entry_canonical env (sp_entry e)"
    if "entry_formed (sp_entry e)" "verify_peer env key e mesh = Ok ()" for e
    using verified_entry [OF history that(2,1)] .
  have directory: "\<exists>f\<in>dh_directories h. pd_mesh_id d = pd_mesh_id f \<and> pd_revision d = pd_revision f \<and> covered_items d = covered_items f"
    if "directory_formed d" "directory_verify env key (peer_revision_transcript d) g = Ok ()" for d g
    using that formed by (intro revision_object.verified [OF history]) auto
  have relays: "x \<in> dh_relays h" if "relays_formed parse x" "directory_verify env key (relay_transcript x) g = Ok ()" for x g
    using relays_object.verified [OF history _ that] formed by blast
  have topology: "x \<in> dh_topologies h" if "topology_formed x" "directory_verify env key (relay_topology_transcript x) g = Ok ()" for x g
    using topology_object.verified [OF history _ that] formed by blast
  have policy: "x \<in> dh_policies h" if "policy_formed x" "directory_verify env key (policy_transcript x) g = Ok ()" for x g
    using policy_object.verified [OF history _ that] formed by blast
  have revocations: "x \<in> dh_revocations h" if "revocations_formed x" "directory_verify env key (revocation_transcript x) g = Ok ()" for x g
    using revocation_object.verified [OF history _ that] formed by blast
  have peers: "sp_entry ` set (pd_entries (sd_directory d)) \<subseteq> dh_entries h
      \<and> (\<exists>f\<in>dh_directories h. pd_mesh_id f = mesh \<and> pd_revision f = pd_revision (sd_directory d)
           \<and> newer_than accepted (pd_revision f) \<and> covered_items f = covered_items (sd_directory d))"
    if d: "directory_formed (sd_directory d)" "list_all (\<lambda>item. entry_formed (sp_entry item)) (pd_entries (sd_directory d))"
      "verify_peers env key d mesh accepted = Ok ()"
  proof -
    note v = d(3) [unfolded verify_peers_iff Let_def]
    obtain f where "f \<in> dh_directories h" "pd_mesh_id (sd_directory d) = pd_mesh_id f"
        "pd_revision (sd_directory d) = pd_revision f" "covered_items (sd_directory d) = covered_items f"
      using directory [OF d(1)] v by blast
    moreover have "sp_entry ` set (pd_entries (sd_directory d)) \<subseteq> dh_entries h"
      using entry d(2) v by (auto simp: list_all_iff)
    ultimately show ?thesis using v by (intro conjI bexI [of _ f]) auto
  qed
  note layout = verify_peers_iff [THEN iffD1, unfolded Let_def]
  have c1: "(entry_formed (sp_entry e) \<and> verify_peer env key e mesh = Ok () \<longrightarrow>
        sp_entry e \<in> dh_entries h \<and> pe_mesh_id (sp_entry e) = mesh \<and> entry_canonical env (sp_entry e))"
    using entry unfolding verify_bundles_iff Let_def by blast
  have c2: "(directory_formed (sd_directory d) \<and> list_all (\<lambda>item. entry_formed (sp_entry item)) (pd_entries (sd_directory d))
         \<and> verify_peers env key d mesh accepted = Ok () \<longrightarrow>
        sp_entry ` set (pd_entries (sd_directory d)) \<subseteq> dh_entries h
        \<and> (\<exists>f\<in>dh_directories h. pd_mesh_id f = mesh \<and> pd_revision f = pd_revision (sd_directory d)
             \<and> newer_than accepted (pd_revision f) \<and> covered_items f = covered_items (sd_directory d))
        \<and> ascending (map (\<lambda>item. pe_peer_id (sp_entry item)) (pd_entries (sd_directory d)))
        \<and> distinct (concat (map (\<lambda>item. entry_addresses (sp_entry item)) (pd_entries (sd_directory d))))
        \<and> distinct (concat (map (\<lambda>item. map pb_wireguard_public_key (pe_accepted_credentials (sp_entry item)))
             (pd_entries (sd_directory d)))))"
    using peers layout [of env key d mesh accepted] unfolding verify_bundles_iff Let_def by blast
  have c3: "(relays_formed parse (sr_directory r) \<and> verify_relays env key r mesh accepted = Ok () \<longrightarrow>
        sr_directory r \<in> dh_relays h \<and> rd_mesh_id (sr_directory r) = mesh \<and> newer_than accepted (rd_revision (sr_directory r)))"
    using relays unfolding verify_bundles_iff Let_def by blast
  have c4: "(topology_formed (st_topology t) \<and> verify_relay_topology env key t mesh accepted = Ok () \<longrightarrow>
        st_topology t \<in> dh_topologies h \<and> rt_mesh_id (st_topology t) = mesh \<and> newer_than accepted (rt_revision (st_topology t)))"
    using topology unfolding verify_bundles_iff Let_def by blast
  have c5: "(policy_formed (spo_bundle p) \<and> verify_policy env key p mesh accepted = Ok () \<longrightarrow>
        spo_bundle p \<in> dh_policies h \<and> po_mesh_id (spo_bundle p) = mesh \<and> newer_than accepted (po_revision (spo_bundle p)))"
    using policy unfolding verify_bundles_iff Let_def by blast
  have c6: "(revocations_formed (srv_bundle v) \<and> verify_revocations env key v mesh accepted = Ok () \<longrightarrow>
        srv_bundle v \<in> dh_revocations h \<and> rv_mesh_id (srv_bundle v) = mesh \<and> newer_than accepted (rv_revision (srv_bundle v)))"
    using revocations unfolding verify_bundles_iff Let_def by blast
  show ?thesis by (intro conjI c1 c2 c3 c4 c5 c6)
qed

section \<open>What is signed verifies\<close>

lemma signed_verifies:
  "signing_laws env \<Longrightarrow> transcript = Ok m \<Longrightarrow> directory_verify env (cy_public env seed) transcript (cy_sign env seed m) = Ok ()"
  by (auto simp: directory_verify_iff signing_laws_def)

lemma distinct_concat_sort:
  "distinct (concat (map f (sort_key k xs))) \<longleftrightarrow> distinct (concat (map f xs))"
proof (rule mset_eq_imp_distinct_iff)
  have "mset (concat (map f zs)) = sum_mset (image_mset (\<lambda>y. mset (f y)) (mset zs))" for zs
    by (induction zs) simp_all
  then show "mset (concat (map f (sort_key k xs))) = mset (concat (map f xs))" by simp
qed

lemma ascending_sorted_key: "distinct (map k (sort_key k xs)) \<Longrightarrow> ascending (map k (sort_key k xs))"
  by (simp add: strict_sorted_iff)

text \<open>What is signed verifies.  Whatever the order of its input, an object signed with a seed for a Mesh at a
  newer revision is accepted under the seed's public key: policy and revocation bundles, relay
  directories and topologies unconditionally, a peer entry if it is canonical, and a peer directory
  if its entries are and no two share an address or a data key.
\<close>

theorem signed_is_accepted:
  assumes laws: "signing_laws env" and newer: "newer_than accepted revision"
  shows "(sign_policy env seed mesh revision policy = (Ok p :: (signed_policy_bundle, directory_error) outcome) \<longrightarrow>
         verify_policy env (cy_public env seed) p mesh accepted = Ok ())
    \<and> (sign_revocations env seed mesh revision serials = Ok v \<longrightarrow>
         verify_revocations env (cy_public env seed) v mesh accepted = Ok () \<and> set (rv_serials (srv_bundle v)) = set serials)
    \<and> (sign_relays env seed mesh revision relays = Ok r \<longrightarrow>
         verify_relays env (cy_public env seed) r mesh accepted = Ok () \<and> set (rd_entries (sr_directory r)) = set relays)
    \<and> (sign_relay_topology env seed topology = Ok t \<and> rt_mesh_id topology = mesh \<and> rt_revision topology = revision \<longrightarrow>
         verify_relay_topology env (cy_public env seed) t mesh accepted = Ok () \<and> st_topology t = topology)
    \<and> (sign_peer env seed entry = (Ok e :: (signed_peer_entry, directory_error) outcome) \<and> entry_formed (sp_entry e)
         \<and> entry_canonical env (sp_entry e) \<and> pe_mesh_id entry = mesh \<longrightarrow>
         verify_peer env (cy_public env seed) e mesh = Ok ())
    \<and> (sign_peers env seed mesh revision entries = Ok d
         \<and> (\<forall>item\<in>set entries. verify_peer env (cy_public env seed) item mesh = Ok ())
         \<and> distinct (concat (map (\<lambda>item. map pb_wireguard_public_key (pe_accepted_credentials (sp_entry item))) entries))
         \<and> distinct (concat (map (\<lambda>item. entry_addresses (sp_entry item)) entries)) \<longrightarrow>
         verify_peers env (cy_public env seed) d mesh accepted = Ok () \<and> set (pd_entries (sd_directory d)) = set entries)"
proof -
  note ok = signed_verifies [OF laws]
  have c1: "sign_policy env seed mesh revision policy = (Ok p :: (signed_policy_bundle, directory_error) outcome) \<longrightarrow>
         verify_policy env (cy_public env seed) p mesh accepted = Ok ()"
    using newer ok by (auto simp: sign_policy_def verify_bundles_iff and_then_Ok_iff Let_def)
  have c2: "sign_revocations env seed mesh revision serials = Ok v \<longrightarrow>
         verify_revocations env (cy_public env seed) v mesh accepted = Ok () \<and> set (rv_serials (srv_bundle v)) = set serials"
    using newer ok by (auto simp: sign_revocations_def verify_bundles_iff and_then_Ok_iff Let_def ensure_unique_eq
        strict_sorted_iff split: if_splits)
  have c3: "sign_relays env seed mesh revision relays = Ok r \<longrightarrow>
         verify_relays env (cy_public env seed) r mesh accepted = Ok () \<and> set (rd_entries (sr_directory r)) = set relays"
    using newer ok by (auto simp: sign_relays_def verify_bundles_iff and_then_Ok_iff Let_def ensure_unique_eq
        check_all_iff intro: ascending_sorted_key split: if_splits)
  have c4: "sign_relay_topology env seed topology = Ok t \<and> rt_mesh_id topology = mesh \<and> rt_revision topology = revision \<longrightarrow>
         verify_relay_topology env (cy_public env seed) t mesh accepted = Ok () \<and> st_topology t = topology"
    using newer ok by (auto simp: sign_relay_topology_def verify_bundles_iff and_then_Ok_iff Let_def)
  have c5: "sign_peer env seed entry = (Ok e :: (signed_peer_entry, directory_error) outcome) \<and> entry_formed (sp_entry e)
         \<and> entry_canonical env (sp_entry e) \<and> pe_mesh_id entry = mesh \<longrightarrow>
         verify_peer env (cy_public env seed) e mesh = Ok ()"
    using ok by (auto simp: sign_peer_def verify_peer_iff and_then_Ok_iff Let_def)
  have c6: "sign_peers env seed mesh revision entries = Ok d
         \<and> (\<forall>item\<in>set entries. verify_peer env (cy_public env seed) item mesh = Ok ())
         \<and> distinct (concat (map (\<lambda>item. map pb_wireguard_public_key (pe_accepted_credentials (sp_entry item))) entries))
         \<and> distinct (concat (map (\<lambda>item. entry_addresses (sp_entry item)) entries)) \<longrightarrow>
         verify_peers env (cy_public env seed) d mesh accepted = Ok () \<and> set (pd_entries (sd_directory d)) = set entries"
    using newer ok by (auto simp: sign_peers_def verify_peers_iff and_then_Ok_iff Let_def ensure_unique_eq
        distinct_concat_sort intro: ascending_sorted_key split: if_splits)
  show ?thesis by (intro conjI c1 c2 c3 c4 c5 c6)
qed

section \<open>Concrete runs\<close>

definition directory_seed :: bytes where "directory_seed = replicate 32 5"
definition directory_mesh :: uuid where "directory_mesh = replicate 16 6"

definition directory_policy :: policy_bundle where
  "directory_policy = \<lparr>po_mesh_id = directory_mesh, po_revision = 9, po_policy = [1, 2, 3]\<rparr>"

text \<open>Signatures repeat the key and the message; one policy has been published.\<close>

definition directory_env :: crypto_env where
  "directory_env = \<lparr>cy_uuid_v4 = (\<lambda>_. True), cy_contributory = (\<lambda>_. True), cy_valid_key = (\<lambda>_. True),
     cy_public = (\<lambda>seed. seed), cy_sign = (\<lambda>seed message. seed @ message),
     cy_verify = (\<lambda>key message signature. signature = key @ message), cy_verify_strict = (\<lambda>_ _ _. False)\<rparr>"

theorem signed_is_accepted_witness:
  "signing_laws directory_env \<and> newer_than (Some 8) 9
   \<and> (\<exists>p. sign_policy directory_env directory_seed directory_mesh 9 [1, 2, 3] = (Ok p :: (signed_policy_bundle, directory_error) outcome)
        \<and> verify_policy directory_env (cy_public directory_env directory_seed) p directory_mesh (Some 8) = Ok ())"
proof -
  have laws: "signing_laws directory_env" by (simp add: signing_laws_def directory_env_def)
  have newer: "newer_than (Some 8) 9" by (simp add: newer_than_def)
  obtain p where "sign_policy directory_env directory_seed directory_mesh 9 [1, 2, 3] = (Ok p :: (signed_policy_bundle, directory_error) outcome)"
    by (simp add: sign_policy_def policy_transcript_def put_bytes_def put_u32_def u32_max_def)
  then show ?thesis using signed_is_accepted [OF laws newer] laws newer by blast
qed

definition directory_log_env :: crypto_env where
  "directory_log_env = directory_env\<lparr>cy_verify := (\<lambda>key message signature.
     policy_transcript directory_policy = (Ok message :: (bytes, directory_error) outcome))\<rparr>"

definition directory_log :: directory_history where
  "directory_log = \<lparr>dh_entries = {}, dh_directories = {}, dh_relays = {}, dh_topologies = {},
     dh_policies = {directory_policy}, dh_revocations = {}\<rparr>"

theorem verified_was_published_witness:
  "distribution_history directory_log_env (\<lambda>_. None) directory_seed directory_log
   \<and> verify_policy directory_log_env directory_seed \<lparr>spo_bundle = directory_policy, spo_signature = []\<rparr>
       directory_mesh (Some 8) = Ok ()
   \<and> directory_policy \<in> dh_policies directory_log"
proof -
  have formed: "policy_formed directory_policy"
    by (simp add: policy_formed_def directory_policy_def directory_mesh_def u64_max_def)
  have history: "distribution_history directory_log_env (\<lambda>_. None) directory_seed directory_log"
    using formed by (simp add: distribution_history_def directory_log_def directory_log_env_def distribution_signed_def)
  have "\<exists>m. policy_transcript directory_policy = (Ok m :: (bytes, directory_error) outcome)"
    by (simp add: policy_transcript_def put_bytes_def put_u32_def directory_policy_def u32_max_def)
  then have v: "verify_policy directory_log_env directory_seed \<lparr>spo_bundle = directory_policy, spo_signature = []\<rparr>
      directory_mesh (Some 8) = Ok ()"
    by (simp add: verify_bundles_iff directory_verify_iff directory_log_env_def newer_than_def)
      (simp add: directory_policy_def)
  show ?thesis
    using verified_was_published [OF history, where p = "\<lparr>spo_bundle = directory_policy, spo_signature = []\<rparr>"
        and accepted = "Some 8" and mesh = directory_mesh] formed v history by simp
qed

end
