(* ===== verification/RelayPool.thy ===== *)
theory RelayPool
  imports Fence "HOL-Library.Sublist"
begin

text \<open>
  The pool of Relay connections of a Peer (\<open>crates/peerward-peer-core/src/relay_pool.rs\<close>): up to
  three slots, each with alternative endpoints, at most one active connection and at most one
  attempt under way; which connection is primary, when to retry and over which endpoint, and which
  results come too late to count.

  Request identifiers, generations and milliseconds are \<open>u64\<close> values, here natural numbers with
  the checks of the code; endpoint numbers keep their sixteen bits.  A slot index becomes a \<open>u8\<close>
  through \<open>slot_u8\<close>, which aborts where the code's \<open>expect\<close> would.
\<close>

unbundle bit_operations_syntax

section \<open>Data\<close>

definition MAX_RELAY_SLOTS :: nat where
  "MAX_RELAY_SLOTS = 3"

record relay_connect_request =
  rq_request_id :: nat
  rq_slot :: nat
  rq_endpoint_index :: u16
  rq_candidate_generation :: nat
  rq_replacing_generation :: "nat option"

record relay_route =
  rr_slot :: nat
  rr_generation :: nat

record relay_connect_commit =
  ct_slot :: nat
  ct_generation :: nat
  ct_replaced_generation :: "nat option"
  ct_primary :: "relay_route option"

datatype relay_pool_error = Pool_InvalidConfiguration | Pool_Stale | Pool_Exhausted

record pending_connect =
  pc_request_id :: nat
  pc_endpoint_index :: u16
  pc_candidate_generation :: nat
  pc_replacing_generation :: "nat option"

record relay_slot =
  rs_endpoint_count :: u16
  rs_next_endpoint :: u16
  rs_active_endpoint :: "u16 option"
  rs_active_generation :: "nat option"
  rs_pending :: "pending_connect option"
  rs_due_millis :: "nat option"
  rs_attempt :: nat

record relay_pool =
  rp_slots :: "relay_slot list"
  rp_next_request_id :: nat
  rp_next_generation :: nat
  rp_closed :: bool

section \<open>Operations\<close>

definition new_slot :: "u16 \<Rightarrow> relay_slot" where
  "new_slot endpoint_count = \<lparr>rs_endpoint_count = endpoint_count, rs_next_endpoint = 0,
     rs_active_endpoint = None, rs_active_generation = None, rs_pending = None,
     rs_due_millis = Some 0, rs_attempt = 0\<rparr>"

definition pool_new :: "u16 list \<Rightarrow> (relay_pool, relay_pool_error) outcome" where
  "pool_new endpoint_counts =
     (if endpoint_counts = [] \<or> MAX_RELAY_SLOTS < length endpoint_counts \<or> 0 \<in> set endpoint_counts
      then Err Pool_InvalidConfiguration
      else Ok \<lparr>rp_slots = map new_slot endpoint_counts, rp_next_request_id = 1, rp_next_generation = 1,
        rp_closed = False\<rparr>)"

definition slot_u8 :: "nat \<Rightarrow> (nat, relay_pool_error) outcome" where
  "slot_u8 i = (if i \<le> 255 then Ok i else Abort)"

definition slot_waits :: "nat \<Rightarrow> relay_slot \<Rightarrow> bool" where
  "slot_waits now_millis s \<longleftrightarrow>
     rs_pending s \<noteq> None \<or> (case rs_due_millis s of None \<Rightarrow> True | Some due \<Rightarrow> now_millis < due)"

fun poll_slots ::
  "nat \<Rightarrow> nat \<Rightarrow> relay_slot list \<Rightarrow> nat \<Rightarrow> nat
    \<Rightarrow> relay_slot list \<times> nat \<times> nat \<times> (relay_connect_request list, relay_pool_error) outcome" where
  "poll_slots now_millis i [] request_id generation = ([], request_id, generation, Ok [])"
| "poll_slots now_millis i (s # ss) request_id generation =
     (if slot_waits now_millis s
      then (case poll_slots now_millis (Suc i) ss request_id generation of
              (ss', out) \<Rightarrow> (s # ss', out))
      else case checked_add request_id 1 of
        None \<Rightarrow> (s # ss, request_id, generation, Err Pool_Exhausted)
      | Some request_id' \<Rightarrow>
          (case checked_add generation 1 of
             None \<Rightarrow> (s # ss, request_id', generation, Err Pool_Exhausted)
           | Some generation' \<Rightarrow>
               let pending = \<lparr>pc_request_id = request_id, pc_endpoint_index = rs_next_endpoint s,
                     pc_candidate_generation = generation,
                     pc_replacing_generation = rs_active_generation s\<rparr>;
                   s' = s\<lparr>rs_pending := Some pending, rs_due_millis := None\<rparr>
               in if 255 < i then (s' # ss, request_id', generation', Err Pool_Exhausted)
                  else case poll_slots now_millis (Suc i) ss request_id' generation' of
                    (ss', r, g, out) \<Rightarrow>
                      (s' # ss', r, g, and_then out (\<lambda>requests.
                        Ok (\<lparr>rq_request_id = request_id, rq_slot = i, rq_endpoint_index = rs_next_endpoint s,
                             rq_candidate_generation = generation,
                             rq_replacing_generation = rs_active_generation s\<rparr> # requests)))))"

definition pool_poll ::
  "nat \<Rightarrow> relay_pool \<Rightarrow> (relay_connect_request list, relay_pool_error) outcome \<times> relay_pool" where
  "pool_poll now_millis p =
     (if rp_closed p then (Ok [], p)
      else case poll_slots now_millis 0 (rp_slots p) (rp_next_request_id p) (rp_next_generation p) of
        (slots, request_id, generation, out) \<Rightarrow>
          (out, p\<lparr>rp_slots := slots, rp_next_request_id := request_id, rp_next_generation := generation\<rparr>))"

fun primary_from :: "nat \<Rightarrow> relay_slot list \<Rightarrow> (relay_route option, relay_pool_error) outcome" where
  "primary_from i [] = Ok None"
| "primary_from i (s # ss) =
     (case rs_active_generation s of
        None \<Rightarrow> primary_from (Suc i) ss
      | Some generation \<Rightarrow>
          and_then (slot_u8 i) (\<lambda>slot. Ok (Some \<lparr>rr_slot = slot, rr_generation = generation\<rparr>)))"

definition pool_primary :: "relay_pool \<Rightarrow> (relay_route option, relay_pool_error) outcome" where
  "pool_primary p = primary_from 0 (rp_slots p)"

fun active_from :: "nat \<Rightarrow> relay_slot list \<Rightarrow> (relay_route list, relay_pool_error) outcome" where
  "active_from i [] = Ok []"
| "active_from i (s # ss) =
     (case rs_active_generation s of
        None \<Rightarrow> active_from (Suc i) ss
      | Some generation \<Rightarrow>
          and_then (slot_u8 i) (\<lambda>slot.
          and_then (active_from (Suc i) ss) (\<lambda>routes.
          Ok (\<lparr>rr_slot = slot, rr_generation = generation\<rparr> # routes))))"

definition pool_active :: "relay_pool \<Rightarrow> (relay_route list, relay_pool_error) outcome" where
  "pool_active p = active_from 0 (rp_slots p)"

definition reconnect_delay :: "nat \<Rightarrow> nat \<Rightarrow> nat" where
  "reconnect_delay attempt entropy =
     min (saturating_mul 250 (2 ^ min attempt 6)) 10000 + entropy mod 251"

definition schedule_retry :: "relay_slot \<Rightarrow> nat \<Rightarrow> u16 \<Rightarrow> nat \<Rightarrow> relay_slot" where
  "schedule_retry s slot_index endpoint_index now_millis =
     (let entropy = push_bit 32 slot_index OR unat endpoint_index;
          delay = reconnect_delay (rs_attempt s) entropy
      in s\<lparr>rs_attempt := min (min (rs_attempt s + 1) 255) 6,
           rs_next_endpoint := (endpoint_index + 1) mod rs_endpoint_count s,
           rs_due_millis := Some (saturating_add now_millis delay)\<rparr>)"

fun find_pending :: "nat \<Rightarrow> nat \<Rightarrow> relay_slot list \<Rightarrow> (nat \<times> pending_connect) option" where
  "find_pending request_id i [] = None"
| "find_pending request_id i (s # ss) =
     (case rs_pending s of
        None \<Rightarrow> find_pending request_id (Suc i) ss
      | Some pending \<Rightarrow> if pc_request_id pending = request_id then Some (i, pending)
          else find_pending request_id (Suc i) ss)"

definition pool_complete ::
  "nat \<Rightarrow> bool \<Rightarrow> nat \<Rightarrow> relay_pool
    \<Rightarrow> (relay_connect_commit option, relay_pool_error) outcome \<times> relay_pool" where
  "pool_complete request_id success now_millis p =
     (case find_pending request_id 0 (rp_slots p) of
        None \<Rightarrow> (Err Pool_Stale, p)
      | Some (i, pending) \<Rightarrow>
          let s = (rp_slots p ! i)\<lparr>rs_pending := None\<rparr> in
          if \<not> success
          then (Ok None, p\<lparr>rp_slots := (rp_slots p)[i := schedule_retry s i (pc_endpoint_index pending) now_millis]\<rparr>)
          else if rp_closed p \<or> rs_active_generation s \<noteq> pc_replacing_generation pending
          then (Err Pool_Stale, p\<lparr>rp_slots := (rp_slots p)[i := s]\<rparr>)
          else let replaced = rs_active_generation s;
                   s = s\<lparr>rs_active_generation := Some (pc_candidate_generation pending),
                         rs_active_endpoint := Some (pc_endpoint_index pending),
                         rs_attempt := 0, rs_due_millis := None\<rparr>;
                   p' = p\<lparr>rp_slots := (rp_slots p)[i := s]\<rparr>
               in (if 255 < i then Err Pool_Exhausted
                   else and_then (pool_primary p') (\<lambda>primary.
                     Ok (Some \<lparr>ct_slot = i, ct_generation = pc_candidate_generation pending,
                          ct_replaced_generation = replaced, ct_primary = primary\<rparr>)), p'))"

definition pool_failed ::
  "relay_route \<Rightarrow> nat \<Rightarrow> relay_pool \<Rightarrow> (relay_route option, relay_pool_error) outcome \<times> relay_pool" where
  "pool_failed route now_millis p =
     (let i = rr_slot route in
      if length (rp_slots p) \<le> i then (Err Pool_Stale, p)
      else if rs_active_generation (rp_slots p ! i) \<noteq> Some (rr_generation route) then (Err Pool_Stale, p)
      else let s = (rp_slots p ! i)\<lparr>rs_active_generation := None, rs_pending := None\<rparr> in
        case rs_active_endpoint s of
          None \<Rightarrow> (Err Pool_Stale, p\<lparr>rp_slots := (rp_slots p)[i := s]\<rparr>)
        | Some endpoint_index \<Rightarrow>
            let s = schedule_retry (s\<lparr>rs_active_endpoint := None\<rparr>) i endpoint_index now_millis;
                p' = p\<lparr>rp_slots := (rp_slots p)[i := s]\<rparr>
            in (pool_primary p', p'))"

definition pool_refresh ::
  "relay_route \<Rightarrow> nat \<Rightarrow> relay_pool \<Rightarrow> (unit, relay_pool_error) outcome \<times> relay_pool" where
  "pool_refresh route now_millis p =
     (let i = rr_slot route; s = rp_slots p ! i in
      if length (rp_slots p) \<le> i then (Err Pool_Stale, p)
      else if rs_active_generation s \<noteq> Some (rr_generation route) then (Err Pool_Stale, p)
      else if rs_pending s = None
      then (Ok (), p\<lparr>rp_slots := (rp_slots p)[i :=
             s\<lparr>rs_due_millis := Some now_millis, rs_attempt := 0, rs_next_endpoint := 0\<rparr>]\<rparr>)
      else (Ok (), p))"

definition accepts_inbound :: "relay_route \<Rightarrow> relay_pool \<Rightarrow> (bool, relay_pool_error) outcome" where
  "accepts_inbound route p =
     (if rp_closed p then Ok False
      else and_then (pool_primary p) (\<lambda>primary. Ok (primary = Some route)))"

definition next_poll_millis :: "nat \<Rightarrow> relay_pool \<Rightarrow> nat" where
  "next_poll_millis now_millis p =
     (let waits = map (\<lambda>due. max (due - now_millis) 1) (List.map_filter rs_due_millis (rp_slots p)) in
      min (if waits = [] then 1000 else Min (set waits)) 10000)"

fun close_slots :: "nat \<Rightarrow> relay_slot list \<Rightarrow> (relay_route list, relay_pool_error) outcome \<times> relay_slot list" where
  "close_slots i [] = (Ok [], [])"
| "close_slots i (s # ss) =
     (let s' = s\<lparr>rs_pending := None, rs_active_endpoint := None, rs_due_millis := None, rs_active_generation := None\<rparr> in
      case rs_active_generation s of
        None \<Rightarrow> (case close_slots (Suc i) ss of (out, ss') \<Rightarrow> (out, s' # ss'))
      | Some generation \<Rightarrow>
          (case slot_u8 i of
             Ok slot \<Rightarrow>
               (case close_slots (Suc i) ss of (out, ss') \<Rightarrow>
                 (and_then out (\<lambda>routes. Ok (\<lparr>rr_slot = slot, rr_generation = generation\<rparr> # routes)), s' # ss'))
           | Err e \<Rightarrow> (Err e, s' # ss)
           | Abort \<Rightarrow> (Abort, s' # ss)))"

definition pool_close :: "relay_pool \<Rightarrow> (relay_route list, relay_pool_error) outcome \<times> relay_pool" where
  "pool_close p =
     (case close_slots 0 (rp_slots p) of
        (out, slots) \<Rightarrow> (out, p\<lparr>rp_closed := True, rp_slots := slots\<rparr>))"

section \<open>Histories\<close>

datatype pool_event =
    Pool_Poll nat
  | Pool_Complete nat bool nat
  | Pool_Failed relay_route nat
  | Pool_Refresh relay_route nat
  | Pool_Close

fun pool_step :: "pool_event \<Rightarrow> relay_pool \<Rightarrow> relay_pool" where
  "pool_step (Pool_Poll now) p = snd (pool_poll now p)"
| "pool_step (Pool_Complete request_id success now) p = snd (pool_complete request_id success now p)"
| "pool_step (Pool_Failed route now) p = snd (pool_failed route now p)"
| "pool_step (Pool_Refresh route now) p = snd (pool_refresh route now p)"
| "pool_step Pool_Close p = snd (pool_close p)"

inductive pool_move :: "relay_pool \<Rightarrow> relay_pool \<Rightarrow> bool" where
  "pool_move p (pool_step e p)"

section \<open>The invariant\<close>

definition slot_generations :: "relay_slot \<Rightarrow> nat list" where
  "slot_generations s = (case rs_active_generation s of None \<Rightarrow> [] | Some g \<Rightarrow> [g])
     @ (case rs_pending s of None \<Rightarrow> [] | Some q \<Rightarrow> [pc_candidate_generation q])"

definition slot_requests :: "relay_slot \<Rightarrow> nat list" where
  "slot_requests s = (case rs_pending s of None \<Rightarrow> [] | Some q \<Rightarrow> [pc_request_id q])"

definition generations :: "relay_slot list \<Rightarrow> nat list" where
  "generations slots = concat (map slot_generations slots)"

definition requests_of :: "relay_slot list \<Rightarrow> nat list" where
  "requests_of slots = concat (map slot_requests slots)"

lemma generations_simps [simp]:
  "generations [] = []" "generations (s # ss) = slot_generations s @ generations ss"
  by (simp_all add: generations_def)

lemma requests_of_simps [simp]:
  "requests_of [] = []" "requests_of (s # ss) = slot_requests s @ requests_of ss"
  by (simp_all add: requests_of_def)

text \<open>
  A slot of an open pool is connected, connecting or due; what is pending replaces exactly what is
  active; a closed pool holds nothing.
\<close>

definition slot_ok :: "bool \<Rightarrow> relay_slot \<Rightarrow> bool" where
  "slot_ok closed s \<longleftrightarrow>
     rs_next_endpoint s < rs_endpoint_count s \<and> rs_attempt s \<le> 6
     \<and> (rs_active_endpoint s = None \<longleftrightarrow> rs_active_generation s = None)
     \<and> (\<forall>e. rs_active_endpoint s = Some e \<longrightarrow> e < rs_endpoint_count s)
     \<and> (\<forall>q. rs_pending s = Some q \<longrightarrow> pc_endpoint_index q < rs_endpoint_count s
          \<and> pc_replacing_generation q = rs_active_generation s \<and> rs_due_millis s = None)
     \<and> (if closed then rs_active_generation s = None \<and> rs_pending s = None \<and> rs_due_millis s = None
        else rs_active_generation s \<noteq> None \<or> rs_pending s \<noteq> None \<or> rs_due_millis s \<noteq> None)"

definition pool_inv :: "u16 list \<Rightarrow> relay_pool \<Rightarrow> bool" where
  "pool_inv counts p \<longleftrightarrow>
     map rs_endpoint_count (rp_slots p) = counts \<and> length counts \<le> MAX_RELAY_SLOTS
     \<and> (\<forall>s\<in>set (rp_slots p). slot_ok (rp_closed p) s)
     \<and> distinct (generations (rp_slots p)) \<and> (\<forall>g\<in>set (generations (rp_slots p)). g < rp_next_generation p)
     \<and> distinct (requests_of (rp_slots p)) \<and> (\<forall>r\<in>set (requests_of (rp_slots p)). r < rp_next_request_id p)"

lemma pool_new_inv:
  assumes "pool_new counts = Ok p"
  shows "pool_inv counts p \<and> \<not> rp_closed p"
proof -
  have p: "p = \<lparr>rp_slots = map new_slot counts, rp_next_request_id = 1, rp_next_generation = 1, rp_closed = False\<rparr>"
    and counts: "length counts \<le> MAX_RELAY_SLOTS" "0 \<notin> set counts"
    using assms by (auto simp: pool_new_def split: if_splits)
  have none: "generations (map new_slot counts) = []" "requests_of (map new_slot counts) = []"
    by (simp_all add: generations_def requests_of_def slot_generations_def slot_requests_def new_slot_def)
  have "slot_ok False (new_slot c)" if "c \<in> set counts" for c
    using that counts(2) by (auto simp: slot_ok_def new_slot_def word_gt_0)
  then show ?thesis using counts(1) none by (simp add: p pool_inv_def comp_def new_slot_def)
qed

subsection \<open>Polling\<close>

lemma poll_slots_cases:
  obtains (waits) "slot_waits now s"
      "poll_slots now i (s # ss) r g = (case poll_slots now (Suc i) ss r g of (ss', out) \<Rightarrow> (s # ss', out))"
  | (exhausted) r' where "\<not> slot_waits now s" "r \<le> r'" "u64_max \<le> r \<or> u64_max \<le> g"
      "poll_slots now i (s # ss) r g = (s # ss, r', g, Err Pool_Exhausted)"
  | (connects) q where "\<not> slot_waits now s" "pc_request_id q = r" "pc_candidate_generation q = g"
      "pc_endpoint_index q = rs_next_endpoint s" "pc_replacing_generation q = rs_active_generation s"
      "255 < i \<Longrightarrow> poll_slots now i (s # ss) r g =
         (s\<lparr>rs_pending := Some q, rs_due_millis := None\<rparr> # ss, Suc r, Suc g, Err Pool_Exhausted)"
      "i \<le> 255 \<Longrightarrow> poll_slots now i (s # ss) r g =
         (case poll_slots now (Suc i) ss (Suc r) (Suc g) of (ss', r', g', out) \<Rightarrow>
            (s\<lparr>rs_pending := Some q, rs_due_millis := None\<rparr> # ss', r', g', and_then out (\<lambda>requests.
              Ok (\<lparr>rq_request_id = r, rq_slot = i, rq_endpoint_index = rs_next_endpoint s,
                rq_candidate_generation = g, rq_replacing_generation = rs_active_generation s\<rparr> # requests))))"
proof (cases "slot_waits now s")
  case True
  then show thesis using waits by simp
next
  case False
  show thesis
  proof (cases "checked_add r 1")
    case None
    then show thesis using False by (intro exhausted [of r]) (auto simp: checked_add_def split: if_splits)
  next
    case r: (Some r')
    then have r': "r' = Suc r" by (simp add: checked_add_def split: if_splits)
    show thesis
    proof (cases "checked_add g 1")
      case None
      then show thesis using False r r' by (intro exhausted [of "Suc r"]) (auto simp: checked_add_def split: if_splits)
    next
      case (Some g')
      then have "g' = Suc g" by (simp add: checked_add_def split: if_splits)
      then show thesis
        using False r r' Some
        by (intro connects [of "\<lparr>pc_request_id = r, pc_endpoint_index = rs_next_endpoint s,
              pc_candidate_generation = g, pc_replacing_generation = rs_active_generation s\<rparr>"])
          (simp_all add: Let_def)
    qed
  qed
qed

lemma not_waitsD: "\<not> slot_waits now s \<Longrightarrow> rs_pending s = None \<and> rs_due_millis s \<noteq> None"
  by (auto simp: slot_waits_def split: option.splits)

lemma poll_slots_keeps:
  assumes "poll_slots now i ss r g = (ss', r', g', out)"
  shows "map rs_endpoint_count ss' = map rs_endpoint_count ss \<and> r \<le> r' \<and> g \<le> g' \<and> out \<noteq> Abort
    \<and> map rs_active_generation ss' = map rs_active_generation ss
    \<and> ((\<forall>s\<in>set ss. slot_ok False s) \<longrightarrow> (\<forall>s\<in>set ss'. slot_ok False s))"
  using assms
proof (induction ss arbitrary: i r g ss' r' g' out)
  case Nil
  then show ?case by auto
next
  case (Cons s ss)
  show ?case
  proof (cases rule: poll_slots_cases [of now s i ss r g])
    case waits
    then show ?thesis using Cons by (auto split: prod.splits)
  next
    case (exhausted r1)
    then show ?thesis using Cons.prems by auto
  next
    case (connects q)
    have s': "slot_ok False s \<Longrightarrow> slot_ok False (s\<lparr>rs_pending := Some q, rs_due_millis := None\<rparr>)"
      using connects(4,5) not_waitsD [OF connects(1)] by (auto simp: slot_ok_def)
    show ?thesis
    proof (cases "255 < i")
      case True
      then show ?thesis using Cons.prems connects(6) s' by auto
    next
      case False
      obtain ss1 r1 g1 out1 where rec: "poll_slots now (Suc i) ss (Suc r) (Suc g) = (ss1, r1, g1, out1)"
        by (metis prod_cases4)
      have "out1 \<noteq> Abort" using Cons.IH [OF rec] by simp
      then show ?thesis
        using Cons.prems connects(7) False rec Cons.IH [OF rec] s' by (cases out1) auto
    qed
  qed
qed

lemma distinct_fresh_tail:
  assumes "set ys' \<subseteq> set ys \<union> {m..<n :: nat}" "distinct ys \<and> (\<forall>x\<in>set ys. x < m) \<longrightarrow> distinct ys'"
    and "distinct (xs @ ys)" "\<forall>x\<in>set (xs @ ys). x < m"
  shows "distinct (xs @ ys')"
proof -
  have "x \<notin> set ys'" if x: "x \<in> set xs" for x
  proof
    assume "x \<in> set ys'"
    then have "x \<in> set ys \<or> m \<le> x" using assms(1) by auto
    moreover have "x < m" using x assms(4) by simp
    ultimately show False using x assms(3) by auto
  qed
  moreover have "distinct ys'" using assms by auto
  ultimately show ?thesis using assms(3) by auto
qed

lemma poll_slots_identifiers:
  assumes "poll_slots now i ss r g = (ss', r', g', out)"
  shows "set (requests_of ss') \<subseteq> set (requests_of ss) \<union> {r..<r'}
    \<and> set (generations ss') \<subseteq> set (generations ss) \<union> {g..<g'}
    \<and> (distinct (requests_of ss) \<and> (\<forall>x\<in>set (requests_of ss). x < r) \<longrightarrow> distinct (requests_of ss'))
    \<and> (distinct (generations ss) \<and> (\<forall>x\<in>set (generations ss). x < g) \<longrightarrow> distinct (generations ss'))"
  using assms
proof (induction ss arbitrary: i r g ss' r' g' out)
  case Nil
  then show ?case by auto
next
  case (Cons s ss)
  show ?case
  proof (cases rule: poll_slots_cases [of now s i ss r g])
    case waits
    obtain ss1 out1 where rec: "poll_slots now (Suc i) ss r g = (ss1, r', g', out1)"
      and ss': "ss' = s # ss1" using waits(2) Cons.prems by (auto split: prod.splits)
    show ?thesis
      unfolding ss' generations_simps requests_of_simps
      using Cons.IH [OF rec] distinct_fresh_tail [of "requests_of ss1" "requests_of ss" r r' "slot_requests s"]
        distinct_fresh_tail [of "generations ss1" "generations ss" g g' "slot_generations s"]
      by (intro conjI; auto)
  next
    case (exhausted r1)
    then show ?thesis using Cons.prems by auto
  next
    case (connects q)
    let ?s = "s\<lparr>rs_pending := Some q, rs_due_millis := None\<rparr>"
    have ids: "slot_requests s = []" "slot_requests ?s = [r]" "slot_generations ?s = slot_generations s @ [g]"
      using connects(2,3) not_waitsD [OF connects(1)] by (simp_all add: slot_requests_def slot_generations_def)
    show ?thesis
    proof (cases "255 < i")
      case True
      then show ?thesis using Cons.prems connects(6) ids by auto
    next
      case False
      obtain ss1 out1 where rec: "poll_slots now (Suc i) ss (Suc r) (Suc g) = (ss1, r', g', out1)"
        and ss': "ss' = ?s # ss1" using connects(7) False Cons.prems by (auto split: prod.splits)
      have "r < r'" "g < g'" using poll_slots_keeps [OF rec] by auto
      note IH = Cons.IH [OF rec]
      have "set (requests_of ss') \<subseteq> set (requests_of (s # ss)) \<union> {r..<r'}"
        "set (generations ss') \<subseteq> set (generations (s # ss)) \<union> {g..<g'}"
        using IH \<open>r < r'\<close> \<open>g < g'\<close> unfolding ss' by (auto simp: ids)
      moreover have "distinct (requests_of ss')"
        if below: "distinct (requests_of (s # ss))" "\<forall>x\<in>set (requests_of (s # ss)). x < r"
        unfolding ss' requests_of_simps
        by (rule distinct_fresh_tail [of _ "requests_of ss" "Suc r" r']) (use IH below in \<open>auto simp: ids less_Suc_eq\<close>)
      moreover have "distinct (generations ss')"
        if below: "distinct (generations (s # ss))" "\<forall>x\<in>set (generations (s # ss)). x < g"
        unfolding ss' generations_simps
        by (rule distinct_fresh_tail [of _ "generations ss" "Suc g" g']) (use IH below in \<open>auto simp: ids less_Suc_eq\<close>)
      ultimately show ?thesis by blast
    qed
  qed
qed

subsection \<open>Everything else only lets go\<close>

definition pool_follows :: "u16 list \<Rightarrow> relay_pool \<Rightarrow> relay_pool \<Rightarrow> bool" where
  "pool_follows counts p p' \<longleftrightarrow> pool_inv counts p' \<and> (rp_closed p \<longrightarrow> rp_closed p')
     \<and> rp_next_generation p \<le> rp_next_generation p' \<and> rp_next_request_id p \<le> rp_next_request_id p'
     \<and> set (generations (rp_slots p')) \<subseteq> set (generations (rp_slots p)) \<union> {rp_next_generation p..}
     \<and> set (requests_of (rp_slots p')) \<subseteq> set (requests_of (rp_slots p)) \<union> {rp_next_request_id p..}"

lemma pool_follows_refl: "pool_inv counts p \<Longrightarrow> pool_follows counts p p"
  by (auto simp: pool_follows_def)

lemma poll_follows:
  assumes inv: "pool_inv counts p"
  shows "pool_follows counts p (snd (pool_poll now p))"
proof (cases "rp_closed p")
  case True
  then show ?thesis using pool_follows_refl [OF inv] by (simp add: pool_poll_def)
next
  case False
  obtain ss r g out where poll: "poll_slots now 0 (rp_slots p) (rp_next_request_id p) (rp_next_generation p) = (ss, r, g, out)"
    by (metis prod_cases4)
  note k = poll_slots_keeps [OF poll] and ids = poll_slots_identifiers [OF poll]
  have "\<forall>x\<in>set (generations ss). x < g" "\<forall>x\<in>set (requests_of ss). x < r"
    using inv [unfolded pool_inv_def] k ids by (meson UnE atLeastLessThan_iff less_le_trans subsetD)+
  moreover have "distinct (generations ss)" "distinct (requests_of ss)" using inv ids by (auto simp: pool_inv_def)
  moreover have "\<forall>s\<in>set ss. slot_ok False s" using inv k False by (auto simp: pool_inv_def)
  ultimately have "pool_inv counts (snd (pool_poll now p))"
    using inv k False by (simp add: pool_inv_def pool_poll_def poll)
  then show ?thesis using False k ids by (auto simp: pool_follows_def pool_poll_def poll)
qed

lemma subseq_keeps: "subseq xs ys \<Longrightarrow> set xs \<subseteq> set ys \<and> (distinct ys \<longrightarrow> distinct xs)"
  by (induction rule: list_emb.induct) auto

lemma subseq_concat_update:
  assumes "i < length xs" "subseq (f x) (f (xs ! i))"
  shows "subseq (concat (map f (xs[i := x]))) (concat (map f xs))"
proof -
  have "concat (map f xs) = concat (map f (take i xs)) @ f (xs ! i) @ concat (map f (drop (Suc i) xs))"
    using id_take_nth_drop [OF assms(1)] by (metis concat.simps(2) concat_append list.simps(9) map_append)
  moreover have "concat (map f (xs[i := x])) = concat (map f (take i xs)) @ f x @ concat (map f (drop (Suc i) xs))"
    using assms(1) by (simp add: upd_conv_take_nth_drop)
  ultimately show ?thesis using assms(2) by (simp add: list_emb_append_mono)
qed

lemma update_follows:
  assumes inv: "pool_inv counts p" and i: "i < length (rp_slots p)" and ok: "slot_ok (rp_closed p) s"
    and count: "rs_endpoint_count s = rs_endpoint_count (rp_slots p ! i)"
    and gens: "subseq (slot_generations s) (slot_generations (rp_slots p ! i))"
    and reqs: "subseq (slot_requests s) (slot_requests (rp_slots p ! i))"
  shows "pool_follows counts p (p\<lparr>rp_slots := (rp_slots p)[i := s]\<rparr>)"
proof -
  let ?ss = "(rp_slots p)[i := s]"
  have "subseq (generations ?ss) (generations (rp_slots p))" "subseq (requests_of ?ss) (requests_of (rp_slots p))"
    unfolding generations_def requests_of_def using i gens reqs by (auto intro: subseq_concat_update)
  then have sub: "set (generations ?ss) \<subseteq> set (generations (rp_slots p))" "set (requests_of ?ss) \<subseteq> set (requests_of (rp_slots p))"
    and dist: "distinct (generations ?ss)" "distinct (requests_of ?ss)"
    using inv by (auto simp: pool_inv_def dest: subseq_keeps)
  have "map rs_endpoint_count ?ss = map rs_endpoint_count (rp_slots p)"
    using i by (simp add: map_update count list_update_same_conv)
  moreover have "\<forall>t\<in>set ?ss. slot_ok (rp_closed p) t"
    using inv ok set_update_subset_insert [of "rp_slots p" i s] by (auto simp: pool_inv_def)
  ultimately show ?thesis using inv sub dist by (auto simp: pool_follows_def pool_inv_def)
qed

lemma next_endpoint:
  fixes e c :: u16
  assumes "e < c"
  shows "unat ((e + 1) mod c) = (unat e + 1) mod unat c" "(e + 1) mod c < c"
proof -
  have "unat e + 1 < 2 ^ 16" using assms unsigned_less [of c, where ?'a = nat] by (simp add: word_less_nat_alt)
  then have "unat (e + 1) = unat e + 1" by (simp add: unat_word_ariths)
  then show "unat ((e + 1) mod c) = (unat e + 1) mod unat c" by (simp add: unat_mod_distrib)
  then show "(e + 1) mod c < c" using assms by (simp add: word_less_nat_alt)
qed

lemma retry_ok:
  assumes "e < rs_endpoint_count s" "rs_pending s = None" "rs_active_endpoint s = None \<longleftrightarrow> rs_active_generation s = None"
    and "\<forall>x. rs_active_endpoint s = Some x \<longrightarrow> x < rs_endpoint_count s"
  shows "slot_ok False (schedule_retry s i e now)"
  using assms next_endpoint(2) [OF assms(1)] by (simp add: slot_ok_def schedule_retry_def Let_def)

lemma schedule_retry_ids [simp]:
  "slot_generations (schedule_retry s i e now) = slot_generations s"
  "slot_requests (schedule_retry s i e now) = slot_requests s"
  "rs_endpoint_count (schedule_retry s i e now) = rs_endpoint_count s"
  "rs_pending (schedule_retry s i e now) = rs_pending s"
  "rs_active_generation (schedule_retry s i e now) = rs_active_generation s"
  by (simp_all add: schedule_retry_def Let_def slot_generations_def slot_requests_def)

lemma find_pending_Some:
  "find_pending r i ss = Some (k, q) \<Longrightarrow>
   i \<le> k \<and> k - i < length ss \<and> rs_pending (ss ! (k - i)) = Some q \<and> pc_request_id q = r"
proof (induction ss arbitrary: i)
  case (Cons s ss)
  show ?case
  proof (cases "\<exists>p. rs_pending s = Some p \<and> pc_request_id p = r")
    case True
    then show ?thesis using Cons.prems by auto
  next
    case False
    then have "find_pending r (Suc i) ss = Some (k, q)" using Cons.prems by (auto split: option.splits if_splits)
    from Cons.IH [OF this] show ?thesis by (auto simp: nth_Cons' Suc_le_eq)
  qed
qed simp

lemma find_pending_None: "find_pending r i ss = None \<longleftrightarrow> r \<notin> set (requests_of ss)"
  by (induction ss arbitrary: i) (auto simp: slot_requests_def split: option.splits)

lemma find_pending_first:
  assumes "j < length ss" "rs_pending (ss ! j) = Some q" "distinct (requests_of ss)"
  shows "find_pending (pc_request_id q) i ss = Some (i + j, q)"
  using assms
proof (induction ss arbitrary: i j)
  case (Cons s ss)
  show ?case
  proof (cases j)
    case 0
    then show ?thesis using Cons.prems by simp
  next
    case (Suc k)
    then have k: "k < length ss" "rs_pending (ss ! k) = Some q" using Cons.prems by auto
    then have "pc_request_id q \<in> set (requests_of ss)"
      unfolding requests_of_def by (auto simp: slot_requests_def intro!: bexI [of _ "ss ! k"])
    then have "pc_request_id q \<notin> set (slot_requests s)" using Cons.prems(3) by auto
    moreover have "find_pending (pc_request_id q) (Suc i) ss = Some (Suc i + k, q)"
      using Cons.IH [OF k] Cons.prems(3) by simp
    ultimately show ?thesis using Suc by (auto simp: slot_requests_def split: option.splits)
  qed
qed simp

lemma slot_at: "pool_inv counts p \<Longrightarrow> i < length (rp_slots p) \<Longrightarrow> slot_ok (rp_closed p) (rp_slots p ! i)"
  by (simp add: pool_inv_def)

lemma pool_length: "pool_inv counts p \<Longrightarrow> length (rp_slots p) \<le> 3"
  by (auto simp: pool_inv_def MAX_RELAY_SLOTS_def)

text \<open>What the completion of a request does\<close>

lemma pool_complete_cases:
  assumes inv: "pool_inv counts p"
  obtains (stale) "r \<notin> set (requests_of (rp_slots p))" "pool_complete r success now p = (Err Pool_Stale, p)"
  | (retry) i q where "i < length (rp_slots p)" "rs_pending (rp_slots p ! i) = Some q" "pc_request_id q = r" "\<not> success"
      "pool_complete r success now p = (Ok None, p\<lparr>rp_slots := (rp_slots p)[i :=
         schedule_retry ((rp_slots p ! i)\<lparr>rs_pending := None\<rparr>) i (pc_endpoint_index q) now]\<rparr>)"
  | (commit) i q where "i < length (rp_slots p)" "rs_pending (rp_slots p ! i) = Some q" "pc_request_id q = r" "success"
      "snd (pool_complete r success now p) = p\<lparr>rp_slots := (rp_slots p)[i :=
         (rp_slots p ! i)\<lparr>rs_pending := None, rs_active_generation := Some (pc_candidate_generation q),
           rs_active_endpoint := Some (pc_endpoint_index q), rs_attempt := 0, rs_due_millis := None\<rparr>]\<rparr>"
      "fst (pool_complete r success now p) = and_then (pool_primary (snd (pool_complete r success now p)))
         (\<lambda>primary. Ok (Some \<lparr>ct_slot = i, ct_generation = pc_candidate_generation q,
            ct_replaced_generation = rs_active_generation (rp_slots p ! i), ct_primary = primary\<rparr>))"
proof (cases "find_pending r 0 (rp_slots p)")
  case None
  then show thesis using find_pending_None [of r 0 "rp_slots p"] by (intro stale) (simp_all add: pool_complete_def)
next
  case (Some kq)
  then obtain i q where found: "find_pending r 0 (rp_slots p) = Some (i, q)" by (cases kq) auto
  note f = find_pending_Some [OF found]
  show thesis
  proof (cases success)
    case False
    then show thesis using found f by (intro retry [of i q]) (simp_all add: pool_complete_def Let_def)
  next
    case True
    have "slot_ok (rp_closed p) (rp_slots p ! i)" using slot_at [OF inv] f by simp
    then have "\<not> rp_closed p" "pc_replacing_generation q = rs_active_generation (rp_slots p ! i)"
      using f by (auto simp: slot_ok_def split: if_splits)
    moreover have "i \<le> 255" using pool_length [OF inv] f by simp
    ultimately show thesis
      using True found f by (intro commit [of i q]) (simp_all add: pool_complete_def Let_def)
  qed
qed

lemma complete_follows:
  assumes inv: "pool_inv counts p"
  shows "pool_follows counts p (snd (pool_complete r success now p))"
  using inv
proof (cases rule: pool_complete_cases [where r = r and success = success and now = now])
  case stale
  then show ?thesis using pool_follows_refl [OF inv] by simp
next
  case (retry i q)
  note ok = slot_at [OF inv retry(1)]
  have open': "\<not> rp_closed p" using ok retry(2) by (auto simp: slot_ok_def split: if_splits)
  have "slot_ok False (schedule_retry ((rp_slots p ! i)\<lparr>rs_pending := None\<rparr>) i (pc_endpoint_index q) now)"
    using ok retry(2) by (intro retry_ok) (auto simp: slot_ok_def)
  then show ?thesis
    unfolding retry(5) using open' by (auto intro!: update_follows [OF inv retry(1)]
      simp: slot_generations_def slot_requests_def split: option.splits)
next
  case (commit i q)
  note ok = slot_at [OF inv commit(1)]
  then show ?thesis
    unfolding commit(5) using commit(2)
    by (intro update_follows [OF inv commit(1)])
      (auto simp: slot_ok_def slot_generations_def slot_requests_def split: option.splits if_splits)
qed

lemma pool_failed_cases:
  assumes inv: "pool_inv counts p"
  obtains (stale) "pool_failed route now p = (Err Pool_Stale, p)"
      "\<not> (rr_slot route < length (rp_slots p) \<and> rs_active_generation (rp_slots p ! rr_slot route) = Some (rr_generation route))"
  | (dropped) e where "rr_slot route < length (rp_slots p)" "rs_active_endpoint (rp_slots p ! rr_slot route) = Some e"
      "rs_active_generation (rp_slots p ! rr_slot route) = Some (rr_generation route)"
      "snd (pool_failed route now p) = p\<lparr>rp_slots := (rp_slots p)[rr_slot route := schedule_retry
         ((rp_slots p ! rr_slot route)\<lparr>rs_active_generation := None, rs_pending := None, rs_active_endpoint := None\<rparr>)
         (rr_slot route) e now]\<rparr>"
      "fst (pool_failed route now p) = pool_primary (snd (pool_failed route now p))"
proof (cases "rr_slot route < length (rp_slots p) \<and> rs_active_generation (rp_slots p ! rr_slot route) = Some (rr_generation route)")
  case False
  then show thesis by (intro stale) (auto simp: pool_failed_def Let_def)
next
  case True
  then have "slot_ok (rp_closed p) (rp_slots p ! rr_slot route)" using slot_at [OF inv] by simp
  then obtain e where "rs_active_endpoint (rp_slots p ! rr_slot route) = Some e" using True by (auto simp: slot_ok_def)
  then show thesis using True by (intro dropped [of e]) (simp_all add: pool_failed_def Let_def)
qed

lemma failed_follows:
  assumes inv: "pool_inv counts p"
  shows "pool_follows counts p (snd (pool_failed route now p))"
  using inv
proof (cases rule: pool_failed_cases [where route = route and now = now])
  case stale
  then show ?thesis using pool_follows_refl [OF inv] by simp
next
  case (dropped e)
  note ok = slot_at [OF inv dropped(1)]
  have "\<not> rp_closed p" using ok dropped(3) by (auto simp: slot_ok_def split: if_splits)
  moreover have "slot_ok False (schedule_retry
      ((rp_slots p ! rr_slot route)\<lparr>rs_active_generation := None, rs_pending := None, rs_active_endpoint := None\<rparr>) (rr_slot route) e now)"
    using ok dropped(2) by (intro retry_ok) (auto simp: slot_ok_def)
  ultimately show ?thesis
    unfolding dropped(4) by (auto intro!: update_follows [OF inv dropped(1)] simp: slot_generations_def slot_requests_def)
qed

lemma refresh_follows:
  assumes inv: "pool_inv counts p"
  shows "pool_follows counts p (snd (pool_refresh route now p))"
proof (cases "snd (pool_refresh route now p) = p")
  case True
  then show ?thesis using pool_follows_refl [OF inv] by simp
next
  case False
  let ?i = "rr_slot route"
  let ?s = "(rp_slots p ! ?i)\<lparr>rs_due_millis := Some now, rs_attempt := 0, rs_next_endpoint := 0\<rparr>"
  have i: "?i < length (rp_slots p)" "rs_active_generation (rp_slots p ! ?i) \<noteq> None" "rs_pending (rp_slots p ! ?i) = None"
    and p': "snd (pool_refresh route now p) = p\<lparr>rp_slots := (rp_slots p)[?i := ?s]\<rparr>"
    using False by (auto simp: pool_refresh_def Let_def split: if_splits)
  have "slot_ok (rp_closed p) ?s"
    using slot_at [OF inv i(1)] i(2,3) by (auto simp: slot_ok_def word_gt_0 split: if_splits)
  then show ?thesis
    unfolding p' using i by (intro update_follows [OF inv i(1)]) (simp_all add: slot_generations_def slot_requests_def)
qed

definition slot_closed :: "relay_slot \<Rightarrow> relay_slot" where
  "slot_closed s = s\<lparr>rs_pending := None, rs_active_endpoint := None, rs_due_millis := None, rs_active_generation := None\<rparr>"

lemma close_slots_eq: "i + length ss \<le> 256 \<Longrightarrow> close_slots i ss = (active_from i ss, map slot_closed ss)"
  by (induction ss arbitrary: i) (auto simp: slot_closed_def slot_u8_def Let_def split: option.splits)

lemma close_eq:
  assumes "pool_inv counts p"
  shows "pool_close p = (pool_active p, p\<lparr>rp_closed := True, rp_slots := map slot_closed (rp_slots p)\<rparr>)"
  using close_slots_eq [of 0 "rp_slots p"] pool_length [OF assms] by (simp add: pool_close_def pool_active_def)

lemma close_follows:
  assumes inv: "pool_inv counts p"
  shows "pool_follows counts p (snd (pool_close p))"
proof -
  have none: "generations (map slot_closed (rp_slots p)) = []" "requests_of (map slot_closed (rp_slots p)) = []"
    by (simp_all add: generations_def requests_of_def slot_generations_def slot_requests_def slot_closed_def)
  have "slot_ok True (slot_closed s)" if "s \<in> set (rp_slots p)" for s
    using that inv by (auto simp: pool_inv_def slot_ok_def slot_closed_def)
  then show ?thesis
    using inv none unfolding close_eq [OF inv] by (auto simp: pool_follows_def pool_inv_def slot_closed_def)
qed

lemma step_follows: "pool_inv counts p \<Longrightarrow> pool_follows counts p (pool_step e p)"
  by (cases e) (simp_all add: poll_follows complete_follows failed_follows refresh_follows close_follows)

lemma move_follows: "pool_inv counts p \<Longrightarrow> pool_move p p' \<Longrightarrow> pool_follows counts p p'"
  by (auto elim!: pool_move.cases intro: step_follows)

interpretation pool_generations: identifier_supply "pool_inv counts" pool_move rp_next_generation
  "\<lambda>p. set (generations (rp_slots p))" for counts
  by unfold_locales (use move_follows in \<open>auto simp: pool_follows_def\<close>)

interpretation pool_requests: identifier_supply "pool_inv counts" pool_move rp_next_request_id
  "\<lambda>p. set (requests_of (rp_slots p))" for counts
  by unfold_locales (use move_follows in \<open>auto simp: pool_follows_def\<close>)

lemma closed_stays: "pool_move\<^sup>*\<^sup>* p p' \<Longrightarrow> pool_inv counts p \<Longrightarrow> rp_closed p \<Longrightarrow> rp_closed p'"
proof (induction rule: rtranclp_induct)
  case (step y z)
  then show ?case
    using pool_generations.ok_steps [OF step.hyps(1)] move_follows [of counts y z] by (auto simp: pool_follows_def)
qed simp

section \<open>Routes\<close>

lemma active_from_exact:
  assumes "i + length ss \<le> 256"
  shows "\<exists>rs. active_from i ss = Ok rs \<and> primary_from i ss = Ok (if rs = [] then None else Some (hd rs))
    \<and> sorted_wrt (\<lambda>a b. rr_slot a < rr_slot b) rs
    \<and> (\<forall>r. r \<in> set rs \<longleftrightarrow> i \<le> rr_slot r \<and> rr_slot r - i < length ss
         \<and> rs_active_generation (ss ! (rr_slot r - i)) = Some (rr_generation r))"
  using assms
proof (induction ss arbitrary: i)
  case (Cons s ss)
  obtain rs where rec: "active_from (Suc i) ss = Ok rs" "primary_from (Suc i) ss = Ok (if rs = [] then None else Some (hd rs))"
      "sorted_wrt (\<lambda>a b. rr_slot a < rr_slot b) rs"
    and mem: "\<And>r. r \<in> set rs \<longleftrightarrow> Suc i \<le> rr_slot r \<and> rr_slot r - Suc i < length ss
         \<and> rs_active_generation (ss ! (rr_slot r - Suc i)) = Some (rr_generation r)"
    using Cons.IH [of "Suc i"] Cons.prems by auto
  have mem': "i \<le> rr_slot r \<and> rr_slot r - i < length (s # ss) \<and> rs_active_generation ((s # ss) ! (rr_slot r - i)) = Some (rr_generation r)
      \<longleftrightarrow> r \<in> set rs \<or> rr_slot r = i \<and> rs_active_generation s = Some (rr_generation r)" for r :: relay_route
    using mem [of r] by (cases "rr_slot r = i") (auto simp: nth_Cons' Suc_le_eq)
  show ?case
  proof (cases "rs_active_generation s")
    case None
    then show ?thesis using rec mem' by auto
  next
    case (Some g)
    have eq: "r = \<lparr>rr_slot = i, rr_generation = g\<rparr> \<longleftrightarrow> rr_slot r = i \<and> rr_generation r = g" for r :: relay_route
      by (cases r) auto
    have "\<forall>r\<in>set rs. i < rr_slot r" using mem by auto
    then show ?thesis using Some rec mem' Cons.prems by (auto simp: slot_u8_def eq)
  qed
qed simp

lemma pool_routes:
  assumes inv: "pool_inv counts p"
  obtains rs where "pool_active p = Ok rs" "pool_primary p = Ok (if rs = [] then None else Some (hd rs))"
    "sorted_wrt (\<lambda>a b. rr_slot a < rr_slot b) rs"
    "\<And>r. r \<in> set rs \<longleftrightarrow> rr_slot r < length (rp_slots p) \<and> rs_active_generation (rp_slots p ! rr_slot r) = Some (rr_generation r)"
  using active_from_exact [of 0 "rp_slots p"] pool_length [OF inv] unfolding pool_active_def pool_primary_def by auto

lemma active_generation_in:
  "j < length ss \<Longrightarrow> rs_active_generation (ss ! j) = Some g \<Longrightarrow> g \<in> set (generations ss)"
  unfolding generations_def by (auto simp: slot_generations_def intro!: bexI [of _ "ss ! j"])

text \<open>Distinct identifiers stay with their slot.\<close>

lemma concat_update_removes:
  assumes "i < length xs" "distinct (concat (map f xs))" "x \<in> set (f (xs ! i))" "x \<notin> set (f y)"
  shows "x \<notin> set (concat (map f (xs[i := y])))"
proof -
  have eq: "concat (map f xs) = concat (map f (take i xs)) @ f (xs ! i) @ concat (map f (drop (Suc i) xs))"
    using id_take_nth_drop [OF assms(1)] by (metis concat.simps(2) concat_append list.simps(9) map_append)
  show ?thesis using assms(2-4) unfolding eq upd_conv_take_nth_drop [OF assms(1)] by auto
qed

lemma active_in_one_slot:
  assumes inv: "pool_inv counts p" and i: "i < length (rp_slots p)" "rs_active_generation (rp_slots p ! i) = Some g"
    and j: "j < length (rp_slots p)" "rs_active_generation (rp_slots p ! j) = Some g"
  shows "i = j"
proof (rule ccontr)
  assume "i \<noteq> j"
  let ?empty = "slot_closed (rp_slots p ! i)"
  have "g \<notin> set (generations ((rp_slots p)[i := ?empty]))"
    unfolding generations_def using inv i
    by (intro concat_update_removes) (auto simp: pool_inv_def generations_def slot_generations_def slot_closed_def)
  then show False using active_generation_in [of j "(rp_slots p)[i := ?empty]" g] j \<open>i \<noteq> j\<close> by simp
qed

lemma next_poll_bounds: "1 \<le> next_poll_millis now p \<and> next_poll_millis now p \<le> 10000"
proof -
  let ?waits = "map (\<lambda>due. max (due - now) 1) (List.map_filter rs_due_millis (rp_slots p))"
  have "1 \<le> Min (set ?waits)" if "?waits \<noteq> []" using that by (subst Min_ge_iff) auto
  then show ?thesis by (auto simp: next_poll_millis_def Let_def)
qed

lemma pool_primary_returns:
  assumes "pool_inv counts p"
  shows "\<exists>r. pool_primary p = Ok r"
  using assms by (rule pool_routes) blast

lemma pool_step_returns:
  assumes inv: "pool_inv counts p"
  shows "fst (pool_poll now p) \<noteq> Abort" "fst (pool_complete r success now p) \<noteq> Abort" "fst (pool_failed route now p) \<noteq> Abort"
proof -
  show "fst (pool_poll now p) \<noteq> Abort"
    by (auto simp: pool_poll_def dest: poll_slots_keeps split: prod.splits)
  have "pool_inv counts (snd (pool_complete r success now p))" "pool_inv counts (snd (pool_failed route now p))"
    using complete_follows [OF inv] failed_follows [OF inv] by (auto simp: pool_follows_def)
  then obtain a b where ab: "pool_primary (snd (pool_complete r success now p)) = Ok a"
      "pool_primary (snd (pool_failed route now p)) = Ok b"
    using pool_primary_returns by blast
  show "fst (pool_complete r success now p) \<noteq> Abort"
    using inv
  proof (cases rule: pool_complete_cases [where r = r and success = success and now = now])
    case (commit i q)
    show ?thesis unfolding commit(6) ab by simp
  qed simp_all
  show "fst (pool_failed route now p) \<noteq> Abort"
    using inv
  proof (cases rule: pool_failed_cases [where route = route and now = now])
    case (dropped e)
    show ?thesis unfolding dropped(5) ab by simp
  qed simp
qed

lemma pending_commits:
  assumes inv: "pool_inv counts p" and i: "i < length (rp_slots p)" "rs_pending (rp_slots p ! i) = Some q"
  shows "\<exists>c. fst (pool_complete (pc_request_id q) True now p) = Ok (Some c) \<and> ct_slot c = i
    \<and> ct_generation c = pc_candidate_generation q \<and> ct_replaced_generation c = rs_active_generation (rp_slots p ! i)
    \<and> rs_active_generation (rp_slots (snd (pool_complete (pc_request_id q) True now p)) ! i) = Some (ct_generation c)"
proof -
  have dist: "distinct (requests_of (rp_slots p))" using inv by (simp add: pool_inv_def)
  have found: "find_pending (pc_request_id q) 0 (rp_slots p) = Some (i, q)"
    using find_pending_first [OF i dist, of 0] by simp
  have "slot_ok (rp_closed p) (rp_slots p ! i)" using slot_at [OF inv i(1)] .
  then have ok: "\<not> rp_closed p" "pc_replacing_generation q = rs_active_generation (rp_slots p ! i)" "i \<le> 255"
    using i pool_length [OF inv] by (auto simp: slot_ok_def split: if_splits)
  have "pool_inv counts (snd (pool_complete (pc_request_id q) True now p))"
    using complete_follows [OF inv] by (auto simp: pool_follows_def)
  from pool_primary_returns [OF this] show ?thesis
    using found ok i(1) by (auto simp: pool_complete_def Let_def)
qed

text \<open>The state of the pool.  Whatever polls, completions, failures, refreshes and closings happened, in any
  order and with any arguments, no operation panics; a slot of an open pool is connected, connecting
  or due for an attempt; request identifiers and generations in use are distinct and below their
  counters, and endpoint numbers are in range.  The active routes are listed in slot order with
  distinct generations; the primary is the first of them and the only one inbound traffic is
  accepted from; the next poll is due within ten seconds.  The success of a request that is under
  way always takes effect: it makes its candidate the active connection of its slot.
\<close>

theorem relay_pool_invariant:
  assumes "pool_new counts = Ok p0" "pool_move\<^sup>*\<^sup>* p0 p"
  shows "pool_inv counts p
    \<and> fst (pool_poll now p) \<noteq> Abort \<and> fst (pool_complete request_id success now p) \<noteq> Abort
    \<and> fst (pool_failed route now p) \<noteq> Abort \<and> fst (pool_close p) = pool_active p
    \<and> (\<exists>rs. pool_active p = Ok rs \<and> sorted_wrt (\<lambda>a b. rr_slot a < rr_slot b) rs \<and> distinct (map rr_generation rs)
         \<and> (\<forall>r. r \<in> set rs \<longleftrightarrow> rr_slot r < length (rp_slots p)
              \<and> rs_active_generation (rp_slots p ! rr_slot r) = Some (rr_generation r))
         \<and> pool_primary p = Ok (if rs = [] then None else Some (hd rs))
         \<and> accepts_inbound route p = Ok (\<not> rp_closed p \<and> rs \<noteq> [] \<and> route = hd rs))
    \<and> 1 \<le> next_poll_millis now p \<and> next_poll_millis now p \<le> 10000
    \<and> (\<forall>i < length (rp_slots p). \<forall>q. rs_pending (rp_slots p ! i) = Some q \<longrightarrow>
         (\<exists>c. fst (pool_complete (pc_request_id q) True now p) = Ok (Some c) \<and> ct_slot c = i
            \<and> ct_generation c = pc_candidate_generation q
            \<and> ct_replaced_generation c = rs_active_generation (rp_slots p ! i)
            \<and> rs_active_generation (rp_slots (snd (pool_complete (pc_request_id q) True now p)) ! i) = Some (ct_generation c)))"
proof -
  have inv: "pool_inv counts p" using pool_generations.ok_steps [OF assms(2)] pool_new_inv [OF assms(1)] by blast
  obtain rs where rs: "pool_active p = Ok rs" "pool_primary p = Ok (if rs = [] then None else Some (hd rs))"
    "sorted_wrt (\<lambda>a b. rr_slot a < rr_slot b) rs"
    and mem: "\<And>r. r \<in> set rs \<longleftrightarrow> rr_slot r < length (rp_slots p) \<and> rs_active_generation (rp_slots p ! rr_slot r) = Some (rr_generation r)"
    using pool_routes [OF inv] by blast
  have "inj_on rr_generation (set rs)"
  proof (rule inj_onI)
    fix a b assume ab: "a \<in> set rs" "b \<in> set rs" "rr_generation a = rr_generation b"
    then have "rr_slot a = rr_slot b" using active_in_one_slot [OF inv] mem by metis
    then show "a = b" using ab(3) by (cases a, cases b) simp
  qed
  moreover have "distinct rs" using rs(3) by (induction rs) auto
  ultimately have "distinct (map rr_generation rs)" by (simp add: distinct_map)
  moreover have "accepts_inbound route p = Ok (\<not> rp_closed p \<and> rs \<noteq> [] \<and> route = hd rs)"
    using rs(2) by (auto simp: accepts_inbound_def)
  ultimately show ?thesis
    using rs mem inv pool_step_returns [OF inv] pending_commits [OF inv] next_poll_bounds close_eq [OF inv] by simp
qed

section \<open>Late results\<close>

definition route_dead :: "relay_route \<Rightarrow> relay_pool \<Rightarrow> bool" where
  "route_dead route p \<longleftrightarrow> accepts_inbound route p = Ok False
     \<and> (\<forall>now. pool_failed route now p = (Err Pool_Stale, p) \<and> pool_refresh route now p = (Err Pool_Stale, p))"

lemma route_deadI:
  assumes inv: "pool_inv counts p" and gen: "rr_generation route \<notin> set (generations (rp_slots p))"
  shows "route_dead route p"
proof -
  have inactive: "\<not> (rr_slot route < length (rp_slots p) \<and> rs_active_generation (rp_slots p ! rr_slot route) = Some (rr_generation route))"
    using active_generation_in gen by blast
  obtain rs where "pool_primary p = Ok (if rs = [] then None else Some (hd rs))"
    "\<And>r. r \<in> set rs \<longleftrightarrow> rr_slot r < length (rp_slots p) \<and> rs_active_generation (rp_slots p ! rr_slot r) = Some (rr_generation r)"
    using pool_routes [OF inv] by metis
  then have "accepts_inbound route p = Ok False"
    using inactive hd_in_set [of rs] by (cases "rs = []") (auto simp: accepts_inbound_def)
  then show ?thesis
    using inactive by (auto simp: route_dead_def pool_failed_def pool_refresh_def Let_def)
qed

lemma request_gone: "r \<notin> set (requests_of (rp_slots p)) \<Longrightarrow> pool_complete r success now p = (Err Pool_Stale, p)"
  using find_pending_None [of r 0 "rp_slots p"] by (simp add: pool_complete_def)

lemma identifiers_removed:
  fixes p :: relay_pool
  defines "p' \<equiv> \<lambda>i s. p\<lparr>rp_slots := (rp_slots p)[i := s]\<rparr>"
  assumes inv: "pool_inv counts p" and i: "i < length (rp_slots p)"
  shows "g \<in> set (slot_generations (rp_slots p ! i)) \<Longrightarrow> g \<notin> set (slot_generations s) \<Longrightarrow>
      g \<notin> set (generations (rp_slots (p' i s))) \<and> g < rp_next_generation (p' i s)"
    and "r \<in> set (slot_requests (rp_slots p ! i)) \<Longrightarrow> r \<notin> set (slot_requests s) \<Longrightarrow>
      r \<notin> set (requests_of (rp_slots (p' i s))) \<and> r < rp_next_request_id (p' i s)"
proof -
  assume g: "g \<in> set (slot_generations (rp_slots p ! i))" "g \<notin> set (slot_generations s)"
  then have "g \<in> set (generations (rp_slots p))" unfolding generations_def using nth_mem [OF i] by auto
  then show "g \<notin> set (generations (rp_slots (p' i s))) \<and> g < rp_next_generation (p' i s)"
    using inv concat_update_removes [OF i, of slot_generations g s] g by (auto simp: pool_inv_def p'_def generations_def)
next
  assume r: "r \<in> set (slot_requests (rp_slots p ! i))" "r \<notin> set (slot_requests s)"
  then have "r \<in> set (requests_of (rp_slots p))" unfolding requests_of_def using nth_mem [OF i] by auto
  then show "r \<notin> set (requests_of (rp_slots (p' i s))) \<and> r < rp_next_request_id (p' i s)"
    using inv concat_update_removes [OF i, of slot_requests r s] r by (auto simp: pool_inv_def p'_def requests_of_def)
qed

lemma failed_retires:
  assumes inv: "pool_inv counts p" and failed: "fst (pool_failed route now p) \<noteq> Err Pool_Stale"
  shows "rr_generation route \<notin> set (generations (rp_slots (snd (pool_failed route now p))))
    \<and> rr_generation route < rp_next_generation (snd (pool_failed route now p))"
  using inv
proof (cases rule: pool_failed_cases [where route = route and now = now])
  case stale
  then show ?thesis using failed by simp
next
  case (dropped e)
  show ?thesis
    unfolding snd_conv dropped(4)
    by (rule identifiers_removed(1) [OF inv dropped(1)]) (use dropped(3) in \<open>simp_all add: slot_generations_def\<close>)
qed

lemma complete_retires:
  assumes inv: "pool_inv counts p" and known: "fst (pool_complete r success now p) \<noteq> Err Pool_Stale"
  shows "r \<notin> set (requests_of (rp_slots (snd (pool_complete r success now p))))
    \<and> r < rp_next_request_id (snd (pool_complete r success now p))"
  using inv
proof (cases rule: pool_complete_cases [where r = r and success = success and now = now])
  case stale
  then show ?thesis using known by simp
next
  case (retry i q)
  show ?thesis
    unfolding retry(5) snd_conv
    by (rule identifiers_removed(2) [OF inv retry(1)]) (use retry(2,3) in \<open>simp_all add: slot_requests_def\<close>)
next
  case (commit i q)
  show ?thesis
    unfolding snd_conv commit(5)
    by (rule identifiers_removed(2) [OF inv commit(1)]) (use commit(2,3) in \<open>simp_all add: slot_requests_def\<close>)
qed

lemma commit_retires:
  assumes inv: "pool_inv counts p" and committed: "fst (pool_complete r success now p) = Ok (Some c)"
    and old: "ct_replaced_generation c = Some g"
  shows "g \<notin> set (generations (rp_slots (snd (pool_complete r success now p))))
    \<and> g < rp_next_generation (snd (pool_complete r success now p))"
  using inv
proof (cases rule: pool_complete_cases [where r = r and success = success and now = now])
  case (commit i q)
  have active: "rs_active_generation (rp_slots p ! i) = Some g"
    using committed old unfolding commit(6) by (auto simp: and_then_Ok_iff)
  have "distinct (slot_generations (rp_slots p ! i))"
    using inv nth_mem [OF commit(1)] by (auto simp: pool_inv_def generations_def distinct_concat_iff)
  then show ?thesis
    unfolding commit(5)
    by (intro identifiers_removed(1) [OF inv commit(1)]) (use commit(2) active in \<open>simp_all add: slot_generations_def\<close>)
qed (use committed in simp_all)

text \<open>Results that come too late change nothing, ever.  Once a connection was reported failed, or was
  replaced, no later state of the pool accepts traffic from that route, and reporting or refreshing
  it again is refused and changes nothing; once a request was completed, completing it again is
  refused.  A closed pool stays closed: it asks for no connection, has no active route and refuses
  every completion and route.
\<close>

theorem stale_relay_results_rejected:
  assumes "pool_new counts = Ok p0" "pool_move\<^sup>*\<^sup>* p0 p"
  shows "(fst (pool_failed route t p) \<noteq> Err Pool_Stale \<and> pool_move\<^sup>*\<^sup>* (snd (pool_failed route t p)) p' \<longrightarrow> route_dead route p')
    \<and> (fst (pool_complete r success t p) = Ok (Some c) \<and> ct_replaced_generation c = Some (rr_generation route)
         \<and> pool_move\<^sup>*\<^sup>* (snd (pool_complete r success t p)) p' \<longrightarrow> route_dead route p')
    \<and> (fst (pool_complete r success t p) \<noteq> Err Pool_Stale \<and> pool_move\<^sup>*\<^sup>* (snd (pool_complete r success t p)) p' \<longrightarrow>
         pool_complete r success' now p' = (Err Pool_Stale, p'))
    \<and> (pool_move\<^sup>*\<^sup>* (snd (pool_close p)) p' \<longrightarrow>
         pool_poll now p' = (Ok [], p') \<and> pool_active p' = Ok [] \<and> route_dead route p'
         \<and> pool_complete r success' now p' = (Err Pool_Stale, p'))"
proof -
  have inv: "pool_inv counts p" using pool_generations.ok_steps [OF assms(2)] pool_new_inv [OF assms(1)] by blast
  have later: "route_dead route p'"
    if "pool_inv counts p1" "pool_move\<^sup>*\<^sup>* p1 p'" "rr_generation route \<notin> set (generations (rp_slots p1)) \<and> rr_generation route < rp_next_generation p1" for p1
    using that pool_generations.retired_stays [OF that(2,1)] pool_generations.ok_steps [OF that(2,1)] route_deadI by blast
  have invs: "pool_inv counts (snd (pool_failed route t p))" "pool_inv counts (snd (pool_complete r success t p))"
      "pool_inv counts (snd (pool_close p))"
    using failed_follows [OF inv] complete_follows [OF inv] close_follows [OF inv] by (auto simp: pool_follows_def)
  have closed: "pool_poll now p' = (Ok [], p') \<and> pool_active p' = Ok [] \<and> route_dead route p'
      \<and> pool_complete r success' now p' = (Err Pool_Stale, p')" if steps: "pool_move\<^sup>*\<^sup>* (snd (pool_close p)) p'"
  proof -
    have inv': "pool_inv counts p'" using pool_generations.ok_steps [OF steps invs(3)] .
    have "rp_closed p'" using closed_stays [OF steps invs(3)] by (simp add: close_eq [OF inv])
    then have none: "\<forall>s\<in>set (rp_slots p'). rs_active_generation s = None \<and> rs_pending s = None"
      using inv' by (auto simp: pool_inv_def slot_ok_def)
    then have ids: "generations (rp_slots p') = []" "requests_of (rp_slots p') = []"
      by (auto simp: generations_def requests_of_def slot_generations_def slot_requests_def)
    have "active_from i ss = Ok []" if "\<forall>s\<in>set ss. rs_active_generation s = None" for i ss
      using that by (induction ss arbitrary: i) auto
    then show ?thesis
      using \<open>rp_closed p'\<close> none ids route_deadI [OF inv'] request_gone by (simp add: pool_poll_def pool_active_def)
  qed
  show ?thesis
    using later [OF invs(1)] later [OF invs(2)] failed_retires [OF inv] commit_retires [OF inv] closed
      complete_retires [OF inv] pool_requests.retired_stays [OF _ invs(2)] request_gone by blast
qed

section \<open>Retries\<close>

text \<open>
  What concerns one slot in a history: the attempts it asks for, with the time of the poll and the
  endpoint, and the times at which they fail.
\<close>

datatype slot_note = Asked nat u16 | Lost nat

fun slot_notes :: "nat \<Rightarrow> pool_event \<Rightarrow> relay_pool \<Rightarrow> slot_note list" where
  "slot_notes i (Pool_Poll t) p =
     (case fst (pool_poll t p) of
        Ok requests \<Rightarrow> map (\<lambda>r. Asked t (rq_endpoint_index r)) (filter (\<lambda>r. rq_slot r = i) requests)
      | _ \<Rightarrow> [])"
| "slot_notes i (Pool_Complete r success t) p =
     (if \<not> success \<and> map_option fst (find_pending r 0 (rp_slots p)) = Some i then [Lost t] else [])"
| "slot_notes i _ p = []"

fun slot_log :: "nat \<Rightarrow> relay_pool \<Rightarrow> pool_event list \<Rightarrow> slot_note list" where
  "slot_log i p [] = []"
| "slot_log i p (e # es) = slot_notes i e p @ slot_log i (pool_step e p) es"

fun tried :: "slot_note list \<Rightarrow> u16 list" where
  "tried [] = []"
| "tried (Asked t x # l) = x # tried l"
| "tried (Lost f # l) = tried l"

text \<open>
  An outage of one slot: its attempts only fail, while the other slots do anything.  Polls come as
  \<open>next_poll_millis\<close> asks, at the latest: after a poll at \<open>t\<close> nothing happens later than
  \<open>t\<close> plus the delay it returned until the pool is polled again.  Earlier polls are welcome,
  and attempts end at any time.
\<close>

fun event_time :: "pool_event \<Rightarrow> nat" where
  "event_time (Pool_Poll t) = t"
| "event_time (Pool_Complete r success t) = t"
| "event_time (Pool_Failed route t) = t"
| "event_time (Pool_Refresh route t) = t"
| "event_time Pool_Close = 0"

fun unhelpful :: "nat \<Rightarrow> relay_pool \<Rightarrow> pool_event \<Rightarrow> bool" where
  "unhelpful i p (Pool_Poll t) \<longleftrightarrow> True"
| "unhelpful i p (Pool_Complete r success t) \<longleftrightarrow> \<not> (success \<and> map_option fst (find_pending r 0 (rp_slots p)) = Some i)"
| "unhelpful i p (Pool_Failed route t) \<longleftrightarrow> rr_slot route \<noteq> i"
| "unhelpful i p (Pool_Refresh route t) \<longleftrightarrow> rr_slot route \<noteq> i"
| "unhelpful i p Pool_Close \<longleftrightarrow> False"

fun wake_after :: "nat \<Rightarrow> relay_pool \<Rightarrow> pool_event \<Rightarrow> nat" where
  "wake_after wake p' (Pool_Poll t) = t + next_poll_millis t p'"
| "wake_after wake p' _ = wake"

fun outage :: "nat \<Rightarrow> nat \<Rightarrow> nat \<Rightarrow> relay_pool \<Rightarrow> pool_event list \<Rightarrow> bool" where
  "outage i now wake p [] \<longleftrightarrow> True"
| "outage i now wake p (e # es) \<longleftrightarrow>
     unhelpful i p e \<and> now \<le> event_time e \<and> event_time e \<le> wake
     \<and> outage i (event_time e) (wake_after wake (pool_step e p) e) (pool_step e p) es"

lemma reconnect_delay_bounds: "250 \<le> reconnect_delay attempt entropy \<and> reconnect_delay attempt entropy \<le> 10250"
proof -
  have "1 \<le> (2 :: nat) ^ min attempt 6" by simp
  then have "250 \<le> saturating_mul 250 (2 ^ min attempt 6)" by (simp add: saturating_mul_def u64_max_def)
  moreover have "entropy mod 251 \<le> 250" using mod_less_divisor [of 251 entropy] by simp
  ultimately show ?thesis unfolding reconnect_delay_def by (auto simp: min_def)
qed

lemma next_poll_due:
  assumes "s \<in> set (rp_slots p)" "rs_due_millis s = Some due"
  shows "next_poll_millis now p \<le> max (due - now) 1"
proof -
  let ?waits = "map (\<lambda>due. max (due - now) 1) (List.map_filter rs_due_millis (rp_slots p))"
  have "max (due - now) 1 \<in> set ?waits" using assms by (force simp: List.map_filter_def)
  then have "Min (set ?waits) \<le> max (due - now) 1" "?waits \<noteq> []" by (simp, force)
  then show ?thesis by (simp add: next_poll_millis_def Let_def min.coboundedI1)
qed

text \<open>One poll: a waiting slot is left as it is, a due one asks for its next endpoint once.\<close>

definition asked :: "nat \<Rightarrow> nat \<Rightarrow> relay_slot \<Rightarrow> relay_slot \<Rightarrow> relay_connect_request list \<Rightarrow> bool" where
  "asked now k s s' requests \<longleftrightarrow>
     (if slot_waits now s then s' = s \<and> filter (\<lambda>rq. rq_slot rq = k) requests = []
      else \<exists>q rq. s' = s\<lparr>rs_pending := Some q, rs_due_millis := None\<rparr> \<and> pc_endpoint_index q = rs_next_endpoint s
        \<and> filter (\<lambda>rq. rq_slot rq = k) requests = [rq] \<and> rq_endpoint_index rq = rs_next_endpoint s)"

lemma poll_slots_room:
  assumes "r + length ss \<le> u64_max" "g + length ss \<le> u64_max" "i + length ss \<le> 256"
  shows "\<exists>ss' r' g' requests. poll_slots now i ss r g = (ss', r', g', Ok requests)
    \<and> r' \<le> r + length ss \<and> g' \<le> g + length ss \<and> (\<forall>rq\<in>set requests. i \<le> rq_slot rq)
    \<and> (\<forall>j < length ss. asked now (i + j) (ss ! j) (ss' ! j) requests)"
  using assms
proof (induction ss arbitrary: i r g)
  case (Cons s ss)
  show ?case
  proof (cases rule: poll_slots_cases [of now s i ss r g])
    case waits
    obtain ss' r' g' requests where rec: "poll_slots now (Suc i) ss r g = (ss', r', g', Ok requests)"
      and "r' \<le> r + length ss" "g' \<le> g + length ss" and above: "\<forall>rq\<in>set requests. Suc i \<le> rq_slot rq"
      and "\<forall>j < length ss. asked now (Suc i + j) (ss ! j) (ss' ! j) requests"
      using Cons.IH [of r g "Suc i"] Cons.prems by auto
    moreover have "asked now i s s requests" using waits(1) above by (auto simp: asked_def filter_empty_conv)
    ultimately show ?thesis unfolding waits(2) rec by (auto simp: All_less_Suc2)
  next
    case (exhausted r')
    then show ?thesis using Cons.prems by auto
  next
    case (connects q)
    obtain ss' r' g' requests where rec: "poll_slots now (Suc i) ss (Suc r) (Suc g) = (ss', r', g', Ok requests)"
      and bounds: "r' \<le> Suc r + length ss" "g' \<le> Suc g + length ss" and above: "\<forall>rq\<in>set requests. Suc i \<le> rq_slot rq"
      and tail: "\<forall>j < length ss. asked now (Suc i + j) (ss ! j) (ss' ! j) requests"
      using Cons.IH [of "Suc r" "Suc g" "Suc i"] Cons.prems by auto
    let ?s = "s\<lparr>rs_pending := Some q, rs_due_millis := None\<rparr>"
    let ?rq = "\<lparr>rq_request_id = r, rq_slot = i, rq_endpoint_index = rs_next_endpoint s,
          rq_candidate_generation = g, rq_replacing_generation = rs_active_generation s\<rparr>"
    have eq: "poll_slots now i (s # ss) r g = (?s # ss', r', g', Ok (?rq # requests))"
      using connects(7) rec Cons.prems by simp
    have "filter (\<lambda>rq. rq_slot rq = i) requests = []" using above by (auto simp: filter_empty_conv)
    then have "asked now i s ?s (?rq # requests)" using connects(1,4) by (auto simp: asked_def)
    moreover have "asked now (i + Suc j) (ss ! j) (ss' ! j) (?rq # requests)" if "j < length ss" for j
      using tail that by (auto simp: asked_def)
    ultimately show ?thesis unfolding eq using bounds above by (auto simp: All_less_Suc2)
  qed
qed simp

lemma poll_slot:
  fixes t :: nat
  assumes inv: "pool_inv counts p" and pool_open: "\<not> rp_closed p" and i: "i < length (rp_slots p)"
    and room: "rp_next_request_id p + 3 \<le> u64_max" "rp_next_generation p + 3 \<le> u64_max"
  defines "s \<equiv> rp_slots p ! i" and "p' \<equiv> pool_step (Pool_Poll t) p"
  shows "\<not> rp_closed p'" "rp_next_request_id p' \<le> rp_next_request_id p + 3" "rp_next_generation p' \<le> rp_next_generation p + 3"
    and "slot_waits t s \<Longrightarrow> rp_slots p' ! i = s \<and> slot_notes i (Pool_Poll t) p = []"
    and "\<not> slot_waits t s \<Longrightarrow> \<exists>q. rp_slots p' ! i = s\<lparr>rs_pending := Some q, rs_due_millis := None\<rparr>
           \<and> pc_endpoint_index q = rs_next_endpoint s \<and> slot_notes i (Pool_Poll t) p = [Asked t (rs_next_endpoint s)]"
proof -
  have len: "length (rp_slots p) \<le> 3" using pool_length [OF inv] .
  obtain ss r g requests where poll: "poll_slots t 0 (rp_slots p) (rp_next_request_id p) (rp_next_generation p) = (ss, r, g, Ok requests)"
    and below: "r \<le> rp_next_request_id p + length (rp_slots p)" "g \<le> rp_next_generation p + length (rp_slots p)"
    and one: "asked t i (rp_slots p ! i) (ss ! i) requests"
    using poll_slots_room [of "rp_next_request_id p" "rp_slots p" "rp_next_generation p" 0 t] room len i by auto
  have poll': "pool_poll t p = (Ok requests, p\<lparr>rp_slots := ss, rp_next_request_id := r, rp_next_generation := g\<rparr>)"
    using pool_open poll by (simp add: pool_poll_def)
  then have p': "p' = p\<lparr>rp_slots := ss, rp_next_request_id := r, rp_next_generation := g\<rparr>" by (simp add: p'_def)
  show "\<not> rp_closed p'" "rp_next_request_id p' \<le> rp_next_request_id p + 3" "rp_next_generation p' \<le> rp_next_generation p + 3"
    using below len pool_open by (simp_all add: p')
  show "slot_waits t s \<Longrightarrow> rp_slots p' ! i = s \<and> slot_notes i (Pool_Poll t) p = []"
    "\<not> slot_waits t s \<Longrightarrow> \<exists>q. rp_slots p' ! i = s\<lparr>rs_pending := Some q, rs_due_millis := None\<rparr>
       \<and> pc_endpoint_index q = rs_next_endpoint s \<and> slot_notes i (Pool_Poll t) p = [Asked t (rs_next_endpoint s)]"
    using one by (auto simp: asked_def s_def p' poll')
qed

text \<open>Any other event of an outage: the slot is left as it is, or its attempt fails and is put off.\<close>

lemma unhelpful_slot:
  assumes "unhelpful i p e" "\<nexists>t. e = Pool_Poll t" "\<not> rp_closed p" "i < length (rp_slots p)"
  defines "s \<equiv> rp_slots p ! i" and "p' \<equiv> pool_step e p"
  shows "\<not> rp_closed p' \<and> rp_next_request_id p' = rp_next_request_id p \<and> rp_next_generation p' = rp_next_generation p
    \<and> (slot_notes i e p = [] \<and> rp_slots p' ! i = s
       \<or> (\<exists>q. rs_pending s = Some q \<and> slot_notes i e p = [Lost (event_time e)]
            \<and> rp_slots p' ! i = schedule_retry (s\<lparr>rs_pending := None\<rparr>) i (pc_endpoint_index q) (event_time e)))"
proof (cases e)
  case (Pool_Complete r success t)
  show ?thesis
  proof (cases "find_pending r 0 (rp_slots p)")
    case None
    then show ?thesis using assms Pool_Complete by (simp add: pool_complete_def)
  next
    case (Some kq)
    then obtain k q where found: "find_pending r 0 (rp_slots p) = Some (k, q)" by (cases kq) auto
    then have k: "k < length (rp_slots p)" "rs_pending (rp_slots p ! k) = Some q" using find_pending_Some [OF found] by simp_all
    then show ?thesis
      using assms Pool_Complete found by (cases "k = i") (auto simp: pool_complete_def Let_def)
  qed
qed (use assms in \<open>auto simp: pool_failed_def pool_refresh_def Let_def split: option.splits\<close>)

lemma rotation_covers:
  assumes "a < n" "e < (n :: nat)" "n \<le> m"
  shows "e \<in> set (map (\<lambda>k. (a + k) mod n) [0..<m])"
proof -
  let ?k = "(e + (n - a)) mod n"
  have "(a + ?k) mod n = (a + (e + (n - a))) mod n" by (rule mod_add_right_eq)
  also have "\<dots> = e" using assms(1,2) by simp
  finally show ?thesis using assms by (auto intro!: image_eqI [of _ _ ?k] less_le_trans [OF mod_less_divisor])
qed

text \<open>
  The life of a slot in an outage.  It waits, to ask for an endpoint within given times, or it tries
  one; a failure sends it back to wait for the next endpoint.
\<close>

datatype phase = Waits nat nat nat | Tries nat

fun rotates :: "nat \<Rightarrow> phase \<Rightarrow> slot_note list \<Rightarrow> bool" where
  "rotates n ph [] \<longleftrightarrow> True"
| "rotates n (Waits e lo hi) (Asked t x # l) \<longleftrightarrow> unat x = e \<and> lo \<le> t \<and> t \<le> hi \<and> rotates n (Tries e) l"
| "rotates n (Tries e) (Lost f # l) \<longleftrightarrow> rotates n (Waits ((e + 1) mod n) (min (f + 250) u64_max) (f + 10250)) l"
| "rotates n ph l \<longleftrightarrow> False"

fun in_phase :: "relay_slot \<Rightarrow> nat \<Rightarrow> phase \<Rightarrow> bool" where
  "in_phase s wake (Waits e lo hi) \<longleftrightarrow> rs_pending s = None \<and> unat (rs_next_endpoint s) = e
     \<and> (\<exists>due. rs_due_millis s = Some due \<and> lo \<le> due \<and> due \<le> hi) \<and> wake \<le> hi"
| "in_phase s wake (Tries e) \<longleftrightarrow> (\<exists>q. rs_pending s = Some q \<and> unat (pc_endpoint_index q) = e)"

text \<open>No poll comes at or after the latest time to ask without the slot asking.\<close>

definition in_time :: "phase \<Rightarrow> slot_note list \<Rightarrow> pool_event list \<Rightarrow> bool" where
  "in_time ph l es \<longleftrightarrow>
     (\<forall>e lo hi t. l = [] \<and> ph = Waits e lo hi \<and> Pool_Poll t \<in> set es \<longrightarrow> t < hi)
     \<and> (\<forall>xs f t. l = xs @ [Lost f] \<and> Pool_Poll t \<in> set es \<longrightarrow> t < f + 10250)"

lemma retry_phase:
  assumes "pc_endpoint_index q < rs_endpoint_count s" "wake \<le> f + 10000"
  shows "in_phase (schedule_retry (s\<lparr>rs_pending := None\<rparr>) i (pc_endpoint_index q) f) wake
    (Waits ((unat (pc_endpoint_index q) + 1) mod unat (rs_endpoint_count s)) (min (f + 250) u64_max) (f + 10250))"
proof -
  let ?d = "reconnect_delay (rs_attempt s) (push_bit 32 i OR unat (pc_endpoint_index q))"
  have "250 \<le> ?d" "?d \<le> 10250" using reconnect_delay_bounds by blast+
  then have "min (f + 250) u64_max \<le> saturating_add f ?d" "saturating_add f ?d \<le> f + 10250"
    by (auto simp: saturating_add_def)
  then show ?thesis using assms next_endpoint(1) [OF assms(1)] by (simp add: schedule_retry_def Let_def)
qed

lemma log_after: "outage i now wake p es \<Longrightarrow> Lost f \<in> set (slot_log i p es) \<Longrightarrow> now \<le> f"
proof (induction es arbitrary: now wake p)
  case (Cons e es)
  then consider "Lost f \<in> set (slot_notes i e p)" | "Lost f \<in> set (slot_log i (pool_step e p) es)" by auto
  then show ?case
  proof cases
    case 1
    then show ?thesis using Cons.prems(1) by (cases e) (auto split: outcome.splits if_splits)
  next
    case 2
    then show ?thesis using Cons.IH [OF _ 2] Cons.prems(1) by fastforce
  qed
qed simp

lemma in_time_quiet:
  assumes "in_time ph l es" "outage i (event_time e) wake p es" "l = slot_log i p es"
    and "\<And>t x lo hi. e = Pool_Poll t \<Longrightarrow> ph = Waits x lo hi \<Longrightarrow> t < hi"
  shows "in_time ph l (e # es)"
proof -
  have "t < f + 10250" if "l = xs @ [Lost f]" "Pool_Poll t = e" for xs f t
    using log_after [OF assms(2), of f] that assms(3) by auto
  then show ?thesis using assms(1,4) unfolding in_time_def by auto
qed

lemma in_time_asked:
  assumes "in_time (Tries x) l es" "outage i t wake p es" "l = slot_log i p es"
  shows "in_time ph (Asked t y # l) (Pool_Poll t # es)"
proof -
  have tail: "\<exists>ys. l = ys @ [Lost f]" if "Asked t y # l = xs @ [Lost f]" for xs f
    using that by (cases xs) auto
  have "u < f + 10250" if "l = ys @ [Lost f]" "Pool_Poll u \<in> set (Pool_Poll t # es)" for ys f u
  proof -
    have "in_time (Tries x) l (Pool_Poll t # es)"
      by (rule in_time_quiet [where wake = wake, OF assms(1) _ assms(3)]) (use assms(2) in simp_all)
    then show ?thesis using that unfolding in_time_def by blast
  qed
  then show ?thesis using tail unfolding in_time_def by blast
qed

lemma in_time_lost:
  assumes "in_time (Waits x lo (f + 10250)) l es" "\<nexists>t. e = Pool_Poll t"
  shows "in_time (Tries y) (Lost f # l) (e # es)"
proof -
  have "t < g + 10250" if g: "Lost f # l = xs @ [Lost g]" and t: "Pool_Poll t \<in> set es" for xs g t
  proof (cases xs)
    case Nil
    then show ?thesis using g t assms(1) by (auto simp: in_time_def)
  next
    case (Cons a ys)
    then show ?thesis using g t assms(1) by (auto simp: in_time_def)
  qed
  then show ?thesis using assms(2) by (auto simp: in_time_def)
qed

lemma pool_counts: "pool_inv counts p \<Longrightarrow> counts = map rs_endpoint_count (rp_slots p)"
  by (simp add: pool_inv_def)

lemma outage_rotates:
  assumes "pool_inv counts p" "\<not> rp_closed p" "i < length counts"
    and "outage i now wake p es" "wake \<le> now + 10000"
    and "rp_next_request_id p + 3 * length es \<le> u64_max" "rp_next_generation p + 3 * length es \<le> u64_max"
    and "in_phase (rp_slots p ! i) wake ph"
  shows "rotates (unat (counts ! i)) ph (slot_log i p es) \<and> in_time ph (slot_log i p es) es"
  using assms
proof (induction es arbitrary: p now wake ph)
  case Nil
  then show ?case by (auto simp: in_time_def)
next
  case (Cons e es)
  let ?s = "rp_slots p ! i" and ?p = "pool_step e p" and ?t = "event_time e"
  let ?w = "wake_after wake ?p e"
  have inv': "pool_inv counts ?p" using step_follows [OF Cons.prems(1), of e] by (simp add: pool_follows_def)
  have len: "i < length (rp_slots p)" "i < length (rp_slots ?p)" and count: "rs_endpoint_count ?s = counts ! i"
    using Cons.prems(1,3) pool_counts [OF Cons.prems(1)] pool_counts [OF inv'] by (metis length_map nth_map)+
  have event: "unhelpful i p e" "now \<le> ?t" "?t \<le> wake" and rest: "outage i ?t ?w ?p es" using Cons.prems(4) by simp_all
  have IH: "rotates (unat (counts ! i)) ph' (slot_log i ?p es) \<and> in_time ph' (slot_log i ?p es) es"
    if "\<not> rp_closed ?p" "?w \<le> ?t + 10000" "rp_next_request_id ?p \<le> rp_next_request_id p + 3"
      "rp_next_generation ?p \<le> rp_next_generation p + 3" "in_phase (rp_slots ?p ! i) ?w ph'" for ph'
    using that Cons.prems(6,7) by (intro Cons.IH [OF inv' _ Cons.prems(3) rest]) auto
  have room: "rp_next_request_id p + 3 \<le> u64_max" "rp_next_generation p + 3 \<le> u64_max" using Cons.prems(6,7) by simp_all
  show ?case
  proof (cases "\<exists>t. e = Pool_Poll t")
    case True
    then obtain t where e: "e = Pool_Poll t" by blast
    note poll = poll_slot [OF Cons.prems(1,2) len(1) room, of t]
    have w: "?w = t + next_poll_millis t ?p" "?w \<le> t + 10000" using next_poll_bounds [of t ?p] by (simp_all add: e)
    show ?thesis
    proof (cases "slot_waits t ?s")
      case True
      then have same: "rp_slots ?p ! i = ?s" and quiet: "slot_notes i e p = []" using poll(4) by (simp_all add: e)
      have hi: "t < hi \<and> ?w \<le> hi" if ph: "ph = Waits x lo hi" for x lo hi
      proof -
        obtain due where due: "rs_due_millis ?s = Some due" "due \<le> hi" "rs_pending ?s = None" using Cons.prems(8) ph by auto
        then have "t < due" using True by (simp add: slot_waits_def)
        moreover have "next_poll_millis t ?p \<le> max (due - t) 1"
          using next_poll_due [of ?s ?p due t] due(1) same len(2) nth_mem by metis
        ultimately show ?thesis using w(1) due(2) by linarith
      qed
      then have "in_phase (rp_slots ?p ! i) ?w ph" using Cons.prems(8) same by (cases ph) auto
      then have "rotates (unat (counts ! i)) ph (slot_log i ?p es) \<and> in_time ph (slot_log i ?p es) es"
        using poll(1-3) w(2) by (intro IH) (simp_all add: e)
      moreover from this have "in_time ph (slot_log i ?p es) (e # es)"
        using in_time_quiet [OF _ rest refl] hi by (auto simp: e)
      ultimately show ?thesis using quiet by simp
    next
      case False
      obtain q where q: "rp_slots ?p ! i = ?s\<lparr>rs_pending := Some q, rs_due_millis := None\<rparr>"
          "pc_endpoint_index q = rs_next_endpoint ?s" "slot_notes i e p = [Asked t (rs_next_endpoint ?s)]"
        using poll(5) [OF False] by (auto simp: e)
      obtain x lo hi where ph: "ph = Waits x lo hi" using Cons.prems(8) not_waitsD [OF False] by (cases ph) auto
      then obtain due where due: "rs_due_millis ?s = Some due" "lo \<le> due" "wake \<le> hi" "unat (rs_next_endpoint ?s) = x"
        using Cons.prems(8) by auto
      have "due \<le> t" using False due(1) by (auto simp: slot_waits_def)
      then have "lo \<le> t" "t \<le> hi" using due(2,3) event(3) by (simp_all add: e)
      moreover have "rotates (unat (counts ! i)) (Tries x) (slot_log i ?p es) \<and> in_time (Tries x) (slot_log i ?p es) es"
        using poll(1-3) w(2) q due(4) by (intro IH) (simp_all add: e)
      ultimately show ?thesis
        using q(3) due(4) in_time_asked [of x "slot_log i ?p es" es i t ?w ?p] rest by (simp add: ph e)
    qed
  next
    case False
    have w: "?w = wake" using False by (cases e) auto
    then have w': "?w \<le> ?t + 10000" using Cons.prems(5) event(2) by simp
    note step = unhelpful_slot [OF event(1) False Cons.prems(2) len(1)]
    from step consider (quiet) "slot_notes i e p = []" "rp_slots ?p ! i = ?s"
      | (lost) q where "rs_pending ?s = Some q" "slot_notes i e p = [Lost ?t]"
          "rp_slots ?p ! i = schedule_retry (?s\<lparr>rs_pending := None\<rparr>) i (pc_endpoint_index q) ?t" by blast
    then show ?thesis
    proof cases
      case quiet
      then have "rotates (unat (counts ! i)) ph (slot_log i ?p es) \<and> in_time ph (slot_log i ?p es) es"
        using step w w' Cons.prems(8) by (intro IH) simp_all
      then show ?thesis using quiet(1) in_time_quiet [OF _ rest refl] False by auto
    next
      case lost
      obtain x where ph: "ph = Tries x" "unat (pc_endpoint_index q) = x" using Cons.prems(8) lost(1) by (cases ph) auto
      have "pc_endpoint_index q < rs_endpoint_count ?s"
        using slot_at [OF Cons.prems(1) len(1)] lost(1) by (simp add: slot_ok_def)
      from retry_phase [OF this w', of i]
      have "in_phase (rp_slots ?p ! i) ?w (Waits ((x + 1) mod unat (counts ! i)) (min (?t + 250) u64_max) (?t + 10250))"
        using lost(3) ph(2) count by simp
      then have "rotates (unat (counts ! i)) (Waits ((x + 1) mod unat (counts ! i)) (min (?t + 250) u64_max) (?t + 10250)) (slot_log i ?p es)
          \<and> in_time (Waits ((x + 1) mod unat (counts ! i)) (min (?t + 250) u64_max) (?t + 10250)) (slot_log i ?p es) es"
        using step w' by (intro IH) simp_all
      moreover from this have "in_time (Tries x) (Lost ?t # slot_log i ?p es) (e # es)" using in_time_lost [OF _ False] by blast
      ultimately show ?thesis using lost(2) by (simp add: ph(1))
    qed
  qed
qed

text \<open>What a rotating log says\<close>

lemma rotates_tried:
  "rotates n ph l \<Longrightarrow> (\<And>x lo hi. ph = Waits x lo hi \<Longrightarrow> x < n) \<Longrightarrow> 0 < n \<Longrightarrow>
   map unat (tried l) = map (\<lambda>k. ((case ph of Waits x lo hi \<Rightarrow> x | Tries x \<Rightarrow> x + 1) + k) mod n) [0..<length (tried l)]"
proof (induction n ph l rule: rotates.induct)
  case (2 n e lo hi t x l)
  then show ?case by (simp add: map_upt_Suc del: upt_Suc)
next
  case (3 n e f l)
  then show ?case by (simp add: mod_add_left_eq)
qed simp_all

lemma rotates_retry:
  "rotates n ph (xs @ Lost f # Asked t x # ys) \<Longrightarrow> min (f + 250) u64_max \<le> t \<and> t \<le> f + 10250"
proof (induction xs arbitrary: ph)
  case Nil
  then show ?case by (cases ph) auto
next
  case (Cons a xs)
  then show ?case by (cases ph; cases a) auto
qed

text \<open>(C35) Rotation.  A slot of an open pool is due, and from then on its attempts only fail: connections cannot be made or
  replaced.  Attempts fail at any time after they were asked for, the other slots do anything, and
  the pool is polled at any times, but no later than \<open>next_poll_millis\<close> said at the last poll (at
  the start, within ten seconds).  Then the slot asks for its endpoints in cyclic order, one attempt
  after the other; after a failure at \<open>f\<close> it asks again no sooner than 250 milliseconds and no later
  than 10.25 seconds after \<open>f\<close> - polls in between do not put it off - and no poll comes at or after
  that time without the slot asking; likewise for its first attempt.  So as many attempts as it has endpoints try
  every endpoint.  (The two 64-bit counters must not run out: each poll takes at most three identifiers.)
\<close>

theorem relay_rotation:
  assumes "pool_new counts = Ok p0" "pool_move\<^sup>*\<^sup>* p0 p" "\<not> rp_closed p" "i < length (rp_slots p)"
    and "rs_due_millis (rp_slots p ! i) = Some due"
    and "outage i now wake p es" "wake \<le> now + 10000"
    and "rp_next_request_id p + 3 * length es \<le> u64_max" "rp_next_generation p + 3 * length es \<le> u64_max"
  shows "map unat (tried (slot_log i p es)) =
      map (\<lambda>k. (unat (rs_next_endpoint (rp_slots p ! i)) + k) mod unat (rs_endpoint_count (rp_slots p ! i)))
        [0..<length (tried (slot_log i p es))]
    \<and> (\<forall>xs f t x ys. slot_log i p es = xs @ Lost f # Asked t x # ys \<longrightarrow> min (f + 250) u64_max \<le> t \<and> t \<le> f + 10250)
    \<and> (\<forall>xs f t. slot_log i p es = xs @ [Lost f] \<and> Pool_Poll t \<in> set es \<longrightarrow> t < f + 10250)
    \<and> (\<forall>t x ys. slot_log i p es = Asked t x # ys \<longrightarrow> due \<le> t \<and> t \<le> max due wake)
    \<and> (\<forall>t. slot_log i p es = [] \<and> Pool_Poll t \<in> set es \<longrightarrow> t < max due wake)
    \<and> (unat (rs_endpoint_count (rp_slots p ! i)) \<le> length (tried (slot_log i p es)) \<longrightarrow>
         (\<forall>e < rs_endpoint_count (rp_slots p ! i). e \<in> set (tried (slot_log i p es))))"
proof -
  have inv: "pool_inv counts p" using pool_generations.ok_steps [OF assms(2)] pool_new_inv [OF assms(1)] by blast
  let ?s = "rp_slots p ! i" and ?l = "slot_log i p es"
  let ?e = "unat (rs_next_endpoint ?s)" and ?n = "unat (rs_endpoint_count ?s)"
  let ?ph = "Waits ?e due (max due wake)"
  have count: "i < length counts" "rs_endpoint_count ?s = counts ! i" using pool_counts [OF inv] assms(4) by auto
  have ok: "slot_ok False ?s" using slot_at [OF inv assms(4)] assms(3) by simp
  have phase: "in_phase ?s wake ?ph" using ok assms(5) by (auto simp: slot_ok_def)
  have e: "?e < ?n" using ok by (simp add: slot_ok_def word_less_nat_alt)
  have log: "rotates ?n ?ph ?l" and time: "in_time ?ph ?l es"
    using outage_rotates [OF inv assms(3) count(1) assms(6-9) phase] count(2) by simp_all
  have cyclic: "map unat (tried ?l) = map (\<lambda>k. (?e + k) mod ?n) [0..<length (tried ?l)]"
    using rotates_tried [OF log] e by simp
  have "x \<in> set (tried ?l)" if "?n \<le> length (tried ?l)" "x < rs_endpoint_count ?s" for x
  proof -
    have "unat x \<in> set (map unat (tried ?l))"
      unfolding cyclic using that rotation_covers [OF e, of "unat x" "length (tried ?l)"] by (simp add: word_less_nat_alt)
    then show ?thesis by (auto simp flip: word_unat_eq_iff)
  qed
  moreover have "due \<le> t \<and> t \<le> max due wake" if "?l = Asked t x # ys" for t x ys using log that by simp
  moreover have "min (f + 250) u64_max \<le> t \<and> t \<le> f + 10250" if "?l = xs @ Lost f # Asked t x # ys" for xs f t x ys
    using rotates_retry log that by metis
  ultimately show ?thesis using cyclic time unfolding in_time_def by blast
qed

section \<open>Concrete runs\<close>

definition sample_pool :: relay_pool where
  "sample_pool = \<lparr>rp_slots = [new_slot 3, new_slot 1], rp_next_request_id = 1, rp_next_generation = 1, rp_closed = False\<rparr>"

lemma sample_pool_new: "pool_new [3, 1] = Ok sample_pool"
  by (simp add: pool_new_def MAX_RELAY_SLOTS_def sample_pool_def)

definition sample_polled :: relay_pool where
  "sample_polled = snd (pool_poll 0 sample_pool)"

definition sample_connected :: relay_pool where
  "sample_connected = snd (pool_complete 1 True 5 sample_polled)"

lemma sample_moves: "pool_move\<^sup>*\<^sup>* sample_pool sample_polled" "pool_move\<^sup>*\<^sup>* sample_pool sample_connected"
  "pool_move\<^sup>*\<^sup>* sample_connected (snd (pool_failed route t sample_connected))"
proof -
  show polled: "pool_move\<^sup>*\<^sup>* sample_pool sample_polled"
    using pool_move.intros [of sample_pool "Pool_Poll 0"] by (auto simp: sample_polled_def)
  show "pool_move\<^sup>*\<^sup>* sample_pool sample_connected"
    using polled pool_move.intros [of sample_polled "Pool_Complete 1 True 5"]
    by (auto simp: sample_connected_def intro: rtranclp.rtrancl_into_rtrancl)
  show "pool_move\<^sup>*\<^sup>* sample_connected (snd (pool_failed route t sample_connected))"
    using pool_move.intros [of sample_connected "Pool_Failed route t"] by auto
qed

lemmas sample_pool_steps = sample_connected_def sample_polled_def sample_pool_def new_slot_def pool_poll_def slot_waits_def
  checked_add_def u64_max_def pool_complete_def pool_primary_def slot_u8_def

lemma sample_connected_failed:
  "fst (pool_failed \<lparr>rr_slot = 0, rr_generation = 1\<rparr> 9 sample_connected) = Ok None"
  by (simp add: sample_pool_steps pool_failed_def Let_def schedule_retry_def)

theorem relay_pool_invariant_witness:
  "pool_inv [3, 1] sample_connected
   \<and> accepts_inbound \<lparr>rr_slot = 0, rr_generation = 1\<rparr> sample_connected = Ok True"
proof -
  have "accepts_inbound \<lparr>rr_slot = 0, rr_generation = 1\<rparr> sample_connected = Ok True"
    by (simp add: sample_pool_steps accepts_inbound_def)
  then show ?thesis using relay_pool_invariant [OF sample_pool_new sample_moves(2)] by blast
qed

theorem stale_relay_results_rejected_witness:
  "route_dead \<lparr>rr_slot = 0, rr_generation = 1\<rparr> (snd (pool_failed \<lparr>rr_slot = 0, rr_generation = 1\<rparr> 9 sample_connected))"
proof -
  let ?r = "\<lparr>rr_slot = 0, rr_generation = 1\<rparr>"
  have "fst (pool_failed ?r 9 sample_connected) \<noteq> Err Pool_Stale" using sample_connected_failed by simp
  then show ?thesis
    using stale_relay_results_rejected [OF sample_pool_new sample_moves(2)] by blast
qed

text \<open>
  The first slot of a pool of two asks, fails at once, waits through an early poll, asks for its
  second endpoint, fails 450 milliseconds later and asks for its third.
\<close>

definition outage_events :: "pool_event list" where
  "outage_events = [Pool_Poll 0, Pool_Complete 1 False 0, Pool_Poll 5, Pool_Poll 250, Pool_Complete 3 False 700,
     Pool_Poll 1200, Pool_Poll 1201]"

lemmas outage_steps = sample_pool_def new_slot_def pool_poll_def slot_waits_def checked_add_def u64_max_def pool_complete_def
  schedule_retry_def reconnect_delay_def saturating_mul_def saturating_add_def next_poll_millis_def List.map_filter_def Let_def

lemma outage_sample_log:
  "slot_log 0 sample_pool outage_events = [Asked 0 0, Lost 0, Asked 250 1, Lost 700, Asked 1201 2]"
  by (simp add: outage_events_def outage_steps)

lemma outage_sample: "outage 0 0 0 sample_pool outage_events"
  by (simp add: outage_events_def outage_steps)

theorem relay_rotation_witness:
  "slot_log 0 sample_pool outage_events = [Asked 0 0, Lost 0, Asked 250 1, Lost 700, Asked 1201 2]
   \<and> {0, 1, 2} \<subseteq> set (tried (slot_log 0 sample_pool outage_events))"
proof -
  have "unat (rs_endpoint_count (rp_slots sample_pool ! 0)) \<le> length (tried (slot_log 0 sample_pool outage_events)) \<longrightarrow>
      (\<forall>e < rs_endpoint_count (rp_slots sample_pool ! 0). e \<in> set (tried (slot_log 0 sample_pool outage_events)))"
    using relay_rotation [OF sample_pool_new rtranclp.rtrancl_refl, of 0 0 0 0 outage_events] outage_sample
    by (simp add: sample_pool_def new_slot_def u64_max_def outage_events_def)
  then show ?thesis unfolding outage_sample_log by (simp add: sample_pool_def new_slot_def)
qed

end
