(* ===== verification/RelayRouter.thy ===== *)
theory RelayRouter
  imports PresenceCache TrustSet DirectorySigning "HOL-Library.Sublist"
begin

text \<open>
  Admission and local routing in a Relay: the credential gate
  (\<open>crates/peerward-relay/src/relay/protocol.rs\<close>, \<open>CredentialGate\<close>) and the router of opaque
  control messages (\<open>routing.rs\<close>, \<open>OpaqueRouter\<close>).  The router holds at most one primary
  attachment per Peer, fenced by the generation the database gave it, the credentials of the
  installed signed directory, the revoked serials, and one bounded queue per Peer.

  A control envelope is opaque to the router, a value of any type.  The database calls of
  \<open>acquire\<close> and \<open>renew\<close> are represented by their results.
\<close>

section \<open>The credential gate\<close>

text \<open>A \<open>RwLock\<close> that a panicking writer has poisoned is \<open>None\<close>.\<close>

record credential_gate =
  cg_trust :: "trust_set option"
  cg_revoked :: "uuid list option"
  cg_peer_admissions :: "(uuid \<times> uuid) list option option"
  cg_relay_admissions :: "(uuid \<times> uuid) list option option"

definition gate_new :: "trust_set \<Rightarrow> credential_gate" where
  "gate_new trust = \<lparr>cg_trust = Some trust, cg_revoked = Some [], cg_peer_admissions = Some None,
     cg_relay_admissions = Some None\<rparr>"

definition lock_read :: "'a option \<Rightarrow> ('a, relay_error) outcome" where
  "lock_read l = ok_or (Credential Credential_InvalidSignature) l"

fun relay_result :: "('a, credential_error) outcome \<Rightarrow> ('a, relay_error) outcome" where
  "relay_result (Ok x) = Ok x"
| "relay_result (Err e) = Err (Credential e)"
| "relay_result Abort = Abort"

definition install_admissions ::
  "(uuid \<times> uuid) list \<Rightarrow> (uuid \<times> uuid) list \<Rightarrow> credential_gate \<Rightarrow> (unit, relay_error) outcome \<times> credential_gate" where
  "install_admissions peers relays g =
     (let peer_set = fold bset_insert peers []; relay_set = fold bset_insert relays [] in
      case cg_peer_admissions g of
        None \<Rightarrow> (Err (Credential Credential_InvalidSignature), g)
      | Some _ \<Rightarrow>
          let g = g\<lparr>cg_peer_admissions := Some (Some peer_set)\<rparr> in
          (case cg_relay_admissions g of
             None \<Rightarrow> (Err (Credential Credential_InvalidSignature), g)
           | Some _ \<Rightarrow> (Ok (), g\<lparr>cg_relay_admissions := Some (Some relay_set)\<rparr>)))"

definition relay_admitted :: "uuid \<Rightarrow> uuid \<Rightarrow> credential_gate \<Rightarrow> (bool, relay_error) outcome" where
  "relay_admitted relay_id serial g =
     and_then (lock_read (cg_relay_admissions g)) (\<lambda>admissions.
     Ok (case admissions of None \<Rightarrow> True | Some values \<Rightarrow> (relay_id, serial) \<in> set values))"

definition gate_revoke :: "uuid \<Rightarrow> credential_gate \<Rightarrow> credential_gate" where
  "gate_revoke serial g = g\<lparr>cg_revoked := map_option (bset_insert serial) (cg_revoked g)\<rparr>"

definition is_revoked :: "uuid \<Rightarrow> credential_gate \<Rightarrow> (bool, relay_error) outcome" where
  "is_revoked serial g = and_then (lock_read (cg_revoked g)) (\<lambda>revoked. Ok (serial \<in> set revoked))"

definition install_authorities ::
  "crypto_env \<Rightarrow> signed_authority_bundle \<Rightarrow> unix_time \<Rightarrow> credential_gate
    \<Rightarrow> (unit, relay_error) outcome \<times> credential_gate" where
  "install_authorities env sealed now g =
     (case cg_trust g of
        None \<Rightarrow> (Err (Credential Credential_InvalidSignature), g)
      | Some trust \<Rightarrow>
          (case install_authority_bundle env sealed now trust of
             Ok trust' \<Rightarrow> (Ok (), g\<lparr>cg_trust := Some trust'\<rparr>)
           | Err e \<Rightarrow> (Err (Credential e), g)
           | Abort \<Rightarrow> (Abort, g\<lparr>cg_trust := None\<rparr>)))"

definition gate_peer ::
  "crypto_env \<Rightarrow> subject_credential \<Rightarrow> bytes \<Rightarrow> unix_time \<Rightarrow> credential_gate \<Rightarrow> (uuid, relay_error) outcome" where
  "gate_peer env credential remote_static now g =
     (if sc_role credential \<noteq> Role_Peer \<or> sc_public_noise_key credential \<noteq> remote_static
      then Err (Credential Credential_InvalidSignature)
      else and_then (is_revoked (sc_serial credential) g) (\<lambda>revoked.
        if revoked then Err (Credential Credential_Revoked)
        else and_then (lock_read (cg_trust g)) (\<lambda>trust.
          and_then (relay_result (verify_subject env trust credential now)) (\<lambda>_.
          case sc_subject credential of
            Subject_Peer peer \<Rightarrow>
              and_then (lock_read (cg_peer_admissions g)) (\<lambda>admissions.
              if (case admissions of None \<Rightarrow> True | Some values \<Rightarrow> (peer, sc_serial credential) \<in> set values)
              then Ok peer else Err (Credential Credential_Revoked))
          | Subject_Relay _ \<Rightarrow> Err (Credential Credential_InvalidSignature)))))"

section \<open>The router\<close>

record attachment =
  at_peer_id :: uuid
  at_attachment_id :: uuid
  at_role :: presence_role
  at_generation :: int
  at_credential_serial :: uuid

record 'e routed_control =
  rt_source :: uuid
  rt_destination :: uuid
  rt_generation :: int
  rt_envelope :: 'e

record 'e opaque_router =
  or_mesh_id :: uuid
  or_relay_id :: uuid
  or_verifier :: bytes
  or_directory_revision :: "nat option"
  or_relay_revision :: "nat option"
  or_policy_revision :: "nat option"
  or_attachments :: "(uuid \<times> attachment) list"
  or_directory_credentials :: "(uuid \<times> uuid list) list"
  or_revoked :: "uuid list"
  or_control_queues :: "(uuid \<times> 'e list) list"
  or_known_fences :: "(uuid \<times> int) list"
  or_queue_capacity :: nat

definition router_new :: "uuid \<Rightarrow> uuid \<Rightarrow> bytes \<Rightarrow> nat \<Rightarrow> ('e opaque_router, relay_error) outcome" where
  "router_new mesh_id relay_id verifier queue_capacity =
     (if queue_capacity = 0 then Err InvalidConfig
      else Ok \<lparr>or_mesh_id = mesh_id, or_relay_id = relay_id, or_verifier = verifier,
        or_directory_revision = None, or_relay_revision = None, or_policy_revision = None,
        or_attachments = [], or_directory_credentials = [], or_revoked = [], or_control_queues = [],
        or_known_fences = [], or_queue_capacity = queue_capacity\<rparr>)"

definition queued_usage :: "('e \<Rightarrow> nat) \<Rightarrow> 'e opaque_router \<Rightarrow> nat \<times> nat" where
  "queued_usage encoded_len r =
     fold (\<lambda>envelope (n, octets). (saturating_add n 1, saturating_add octets (encoded_len envelope)))
       (concat (map snd (or_control_queues r))) (0, 0)"

definition install_attachment :: "attachment \<Rightarrow> 'e opaque_router \<Rightarrow> 'e opaque_router" where
  "install_attachment a r =
     (if at_role a = Primary
         \<and> (case hm_get (or_known_fences r) (at_peer_id a) of None \<Rightarrow> True | Some current \<Rightarrow> current \<le> at_generation a)
      then r\<lparr>or_known_fences := bmap_insert (at_peer_id a) (at_generation a) (or_known_fences r),
             or_attachments := bmap_insert (at_peer_id a) a (or_attachments r)\<rparr>
      else r)"

definition install_acquired ::
  "'t presence_lease \<Rightarrow> uuid \<Rightarrow> int \<Rightarrow> 'e opaque_router \<Rightarrow> (attachment, relay_error) outcome \<times> 'e opaque_router" where
  "install_acquired lease credential_serial generation r =
     (if pl_mesh_id lease \<noteq> or_mesh_id r \<or> pl_relay_id lease \<noteq> or_relay_id r then (Err NoRoute, r)
      else let a = \<lparr>at_peer_id = pl_peer_id lease, at_attachment_id = pl_attachment_id lease, at_role = pl_role lease,
                    at_generation = generation, at_credential_serial = credential_serial\<rparr>
           in (Ok a, if pl_role lease = Primary then install_attachment a r else r))"

definition router_acquire ::
  "(int, store_error) outcome \<Rightarrow> 't presence_lease \<Rightarrow> uuid \<Rightarrow> 'e opaque_router
    \<Rightarrow> (attachment, relay_error) outcome \<times> 'e opaque_router" where
  "router_acquire stored lease credential_serial r =
     (if pl_mesh_id lease \<noteq> or_mesh_id r \<or> pl_relay_id lease \<noteq> or_relay_id r then (Err NoRoute, r)
      else case stored of
        Ok generation \<Rightarrow> install_acquired lease credential_serial generation r
      | Err e \<Rightarrow> (Err (Store e), r)
      | Abort \<Rightarrow> (Abort, r))"

fun persist_renewal :: "(unit, store_error) outcome \<Rightarrow> (unit, relay_error) outcome" where
  "persist_renewal (Ok ()) = Ok ()"
| "persist_renewal (Err Store_Conflict) = Err StaleFence"
| "persist_renewal (Err (Store_SignedStateConflict s n)) = Err StaleFence"
| "persist_renewal (Err e) = Err (Store e)"
| "persist_renewal Abort = Abort"

definition accepted_serials :: "peer_entry \<Rightarrow> uuid list" where
  "accepted_serials e = bset_insert (pe_credential_serial e)
     (fold bset_insert (map pb_serial (pe_accepted_credentials e)) [])"

definition directory_credentials_of :: "peer_directory \<Rightarrow> (uuid \<times> uuid list) list" where
  "directory_credentials_of d =
     fold (\<lambda>s. bmap_insert (pe_peer_id (sp_entry s)) (accepted_serials (sp_entry s)))
       (filter (\<lambda>s. pe_enabled (sp_entry s)) (pd_entries d)) []"

definition install_directory ::
  "crypto_env \<Rightarrow> signed_peer_directory \<Rightarrow> 'e opaque_router \<Rightarrow> (unit, relay_error) outcome \<times> 'e opaque_router" where
  "install_directory env update r =
     (case verify_peers env (or_verifier r) update (or_mesh_id r) (or_directory_revision r) of
        Ok _ \<Rightarrow>
          let credentials = directory_credentials_of (sd_directory update) in
          (Ok (), r\<lparr>or_directory_credentials := credentials,
             or_directory_revision := Some (pd_revision (sd_directory update)),
             or_control_queues := filter (\<lambda>(peer, _). hm_get credentials peer \<noteq> None) (or_control_queues r)\<rparr>)
      | Err e \<Rightarrow> (Err (Directory e), r)
      | Abort \<Rightarrow> (Abort, r))"

definition install_relays ::
  "crypto_env \<Rightarrow> signed_relay_directory \<Rightarrow> 'e opaque_router \<Rightarrow> (unit, relay_error) outcome \<times> 'e opaque_router" where
  "install_relays env update r =
     (case verify_relays env (or_verifier r) update (or_mesh_id r) (or_relay_revision r) of
        Ok _ \<Rightarrow> (Ok (), r\<lparr>or_relay_revision := Some (rd_revision (sr_directory update))\<rparr>)
      | Err e \<Rightarrow> (Err (Directory e), r)
      | Abort \<Rightarrow> (Abort, r))"

definition install_policy ::
  "crypto_env \<Rightarrow> signed_policy_bundle \<Rightarrow> 'e opaque_router \<Rightarrow> (unit, relay_error) outcome \<times> 'e opaque_router" where
  "install_policy env update r =
     (case verify_policy env (or_verifier r) update (or_mesh_id r) (or_policy_revision r) of
        Ok _ \<Rightarrow> (Ok (), r\<lparr>or_policy_revision := Some (po_revision (spo_bundle update))\<rparr>)
      | Err e \<Rightarrow> (Err (Directory e), r)
      | Abort \<Rightarrow> (Abort, r))"

definition router_detach :: "uuid \<Rightarrow> int \<Rightarrow> 'e opaque_router \<Rightarrow> 'e opaque_router" where
  "router_detach peer generation r =
     (if (case hm_get (or_attachments r) peer of None \<Rightarrow> False | Some a \<Rightarrow> at_generation a = generation)
      then r\<lparr>or_attachments := hm_remove peer (or_attachments r),
             or_control_queues := hm_remove peer (or_control_queues r)\<rparr>
      else r)"

definition observe_fence :: "uuid \<Rightarrow> int \<Rightarrow> 'e opaque_router \<Rightarrow> (unit, relay_error) outcome \<times> 'e opaque_router" where
  "observe_fence peer generation r =
     (if (case hm_get (or_known_fences r) peer of None \<Rightarrow> False | Some current \<Rightarrow> generation < current)
      then (Err StaleFence, r)
      else (Ok (), r\<lparr>or_known_fences := bmap_insert peer generation (or_known_fences r)\<rparr>))"

definition router_revoke :: "uuid \<Rightarrow> 'e opaque_router \<Rightarrow> 'e opaque_router" where
  "router_revoke serial r = r\<lparr>
     or_revoked := bset_insert serial (or_revoked r),
     or_attachments := filter (\<lambda>(_, a). at_credential_serial a \<noteq> serial) (or_attachments r),
     or_control_queues := filter (\<lambda>(peer, _).
       case hm_get (or_directory_credentials r) peer of None \<Rightarrow> True | Some credentials \<Rightarrow> serial \<notin> set credentials)
       (or_control_queues r)\<rparr>"

definition uncredentialed :: "uuid \<Rightarrow> attachment \<Rightarrow> 'e opaque_router \<Rightarrow> bool" where
  "uncredentialed peer a r \<longleftrightarrow> at_credential_serial a \<in> set (or_revoked r)
     \<or> (case hm_get (or_directory_credentials r) peer of
          None \<Rightarrow> True | Some credentials \<Rightarrow> at_credential_serial a \<notin> set credentials)"

definition validate_control_source :: "uuid \<Rightarrow> int \<Rightarrow> 'e opaque_router \<Rightarrow> (unit, relay_error) outcome" where
  "validate_control_source source generation r =
     and_then (ok_or StaleFence (hm_get (or_attachments r) source)) (\<lambda>a.
     if at_generation a \<noteq> generation \<or> hm_get (or_known_fences r) source \<noteq> Some generation
        \<or> uncredentialed source a r
     then Err StaleFence else Ok ())"

definition validate_local_destination :: "uuid \<Rightarrow> 'e opaque_router \<Rightarrow> (unit, relay_error) outcome" where
  "validate_local_destination peer r =
     and_then (ok_or NoRoute (hm_get (or_attachments r) peer)) (\<lambda>a.
     if at_role a \<noteq> Primary \<or> hm_get (or_known_fences r) peer \<noteq> Some (at_generation a)
        \<or> uncredentialed peer a r
     then Err NoRoute else Ok ())"

definition queue_of :: "'e opaque_router \<Rightarrow> uuid \<Rightarrow> 'e list" where
  "queue_of r peer = (case hm_get (or_control_queues r) peer of None \<Rightarrow> [] | Some queue \<Rightarrow> queue)"

definition router_enqueue :: "uuid \<Rightarrow> 'e \<Rightarrow> 'e opaque_router \<Rightarrow> (unit, relay_error) outcome \<times> 'e opaque_router" where
  "router_enqueue destination envelope r =
     (let queue = queue_of r destination in
      if or_queue_capacity r \<le> length queue
      then (Err QueueFull, r\<lparr>or_control_queues := bmap_insert destination queue (or_control_queues r)\<rparr>)
      else (Ok (), r\<lparr>or_control_queues := bmap_insert destination (queue @ [envelope]) (or_control_queues r)\<rparr>))"

definition route_checked ::
  "(unit, relay_error) outcome \<Rightarrow> 'e routed_control \<Rightarrow> 'e opaque_router \<Rightarrow> (unit, relay_error) outcome \<times> 'e opaque_router" where
  "route_checked source_check routed r =
     (case and_then source_check (\<lambda>_. validate_local_destination (rt_destination routed) r) of
        Ok _ \<Rightarrow> router_enqueue (rt_destination routed) (rt_envelope routed) r
      | Err e \<Rightarrow> (Err e, r)
      | Abort \<Rightarrow> (Abort, r))"

definition route_control :: "'e routed_control \<Rightarrow> 'e opaque_router \<Rightarrow> (unit, relay_error) outcome \<times> 'e opaque_router" where
  "route_control routed r =
     route_checked (validate_control_source (rt_source routed) (rt_generation routed) r) routed r"

definition listed_source :: "relay_error \<Rightarrow> uuid \<Rightarrow> 'e opaque_router \<Rightarrow> (unit, relay_error) outcome" where
  "listed_source e source r = (if hm_get (or_directory_credentials r) source = None then Err e else Ok ())"

definition route_authenticated_control ::
  "'e routed_control \<Rightarrow> 'e opaque_router \<Rightarrow> (unit, relay_error) outcome \<times> 'e opaque_router" where
  "route_authenticated_control routed r = route_checked (listed_source StaleFence (rt_source routed) r) routed r"

definition accept_cross_relay_control ::
  "'e routed_control \<Rightarrow> 'e opaque_router \<Rightarrow> (unit, relay_error) outcome \<times> 'e opaque_router" where
  "accept_cross_relay_control routed r = route_checked (listed_source NoRoute (rt_source routed) r) routed r"

definition receive_control ::
  "uuid \<Rightarrow> int \<Rightarrow> 'e opaque_router \<Rightarrow> ('e option, relay_error) outcome \<times> 'e opaque_router" where
  "receive_control peer generation r =
     (case validate_control_source peer generation r of
        Ok _ \<Rightarrow>
          (case hm_get (or_control_queues r) peer of
             None \<Rightarrow> (Ok None, r)
           | Some [] \<Rightarrow> (Ok None, r)
           | Some (envelope # queue) \<Rightarrow>
               (Ok (Some envelope), r\<lparr>or_control_queues := bmap_insert peer queue (or_control_queues r)\<rparr>))
      | Err e \<Rightarrow> (Err e, r)
      | Abort \<Rightarrow> (Abort, r))"

section \<open>What the gate admits\<close>

inductive gate_step :: "crypto_env \<Rightarrow> credential_gate \<Rightarrow> credential_gate \<Rightarrow> bool" for env where
  gate_admissions: "gate_step env g (snd (install_admissions peers relays g))"
| gate_revoked: "gate_step env g (gate_revoke serial g)"
| gate_authorities: "list_all authority_typed (ab_active (sb_bundle s) # ab_overlap (sb_bundle s)) \<Longrightarrow>
    gate_step env g (snd (install_authorities env s now g))"

text \<open>No lock is ever poisoned, the trust set moves as its own operations allow, revocations accumulate.\<close>

definition gate_follows :: "crypto_env \<Rightarrow> credential_gate \<Rightarrow> credential_gate \<Rightarrow> bool" where
  "gate_follows env g g' \<longleftrightarrow>
     (\<forall>t revoked peers relays. cg_trust g = Some t \<and> cg_revoked g = Some revoked
        \<and> cg_peer_admissions g = Some peers \<and> cg_relay_admissions g = Some relays \<longrightarrow>
      (\<exists>t' revoked' peers' relays'. cg_trust g' = Some t' \<and> (trust_step env)\<^sup>*\<^sup>* t t' \<and> cg_revoked g' = Some revoked'
         \<and> set revoked \<subseteq> set revoked' \<and> cg_peer_admissions g' = Some peers' \<and> cg_relay_admissions g' = Some relays'))"

lemma gate_step_follows: "gate_step env g g' \<Longrightarrow> gate_follows env g g'"
proof (induction rule: gate_step.induct)
  case (gate_authorities s g now)
  show ?case
  proof (cases "cg_trust g")
    case (Some t)
    have "install_authority_bundle env s now t \<noteq> Abort" by (rule install_total)
    then show ?thesis
      using Some step_install [OF gate_authorities, of env now t]
      by (cases "install_authority_bundle env s now t") (auto simp: gate_follows_def install_authorities_def)
  qed (simp add: gate_follows_def)
qed (auto simp: gate_follows_def install_admissions_def gate_revoke_def Let_def)

interpretation gate_order: monotone_steps "gate_step env" "gate_follows env" for env
proof
  show "gate_follows env s s" for s by (auto simp: gate_follows_def)
  show "gate_follows env s u" if "gate_follows env s t" "gate_follows env t u" for s t u
    using that unfolding gate_follows_def by (fastforce intro: rtranclp_trans)
  show "gate_follows env s t" if "gate_step env s t" for s t using that by (rule gate_step_follows)
qed

lemma gate_peer_iff:
  assumes "cg_trust g = Some t" "cg_revoked g = Some revoked" "cg_peer_admissions g = Some admissions"
  shows "gate_peer env c key now g = Ok peer \<longleftrightarrow>
    sc_role c = Role_Peer \<and> sc_subject c = Subject_Peer peer \<and> sc_public_noise_key c = key
    \<and> sc_serial c \<notin> set revoked \<and> verify_subject env t c now = Ok ()
    \<and> (\<forall>values. admissions = Some values \<longrightarrow> (peer, sc_serial c) \<in> set values)"
  using assms
  by (cases "verify_subject env t c now")
    (auto simp: gate_peer_def is_revoked_def lock_read_def split: subject_id.splits option.splits)

lemma gate_trust:
  assumes "(gate_step env)\<^sup>*\<^sup>* (gate_new trust) g"
  obtains t revoked admissions relayed where "cg_trust g = Some t" "(trust_step env)\<^sup>*\<^sup>* trust t" "cg_revoked g = Some revoked"
    "cg_peer_admissions g = Some admissions" "cg_relay_admissions g = Some relayed"
  using gate_order.steps_below [OF assms] by (auto simp: gate_follows_def gate_new_def)

text \<open>The gate of a Relay.  After any sequence of admission lists, revocations and Authority bundles, no lock is
  poisoned and a Peer is admitted exactly if its credential has the Peer role, names that Peer and the
  static key the Noise session proved, is not revoked, verifies in the current trust set - which its
  own operations alone have changed - and is in the latest admission list, once there is one.  A
  serial revoked at the gate is never admitted again.
\<close>

theorem gate_admission:
  assumes "(gate_step env)\<^sup>*\<^sup>* (gate_new trust) g"
  shows "\<exists>t revoked admissions. cg_trust g = Some t \<and> (trust_step env)\<^sup>*\<^sup>* trust t
    \<and> cg_revoked g = Some revoked \<and> cg_peer_admissions g = Some admissions
    \<and> (gate_peer env c key now g = Ok peer \<longleftrightarrow>
         sc_role c = Role_Peer \<and> sc_subject c = Subject_Peer peer \<and> sc_public_noise_key c = key
         \<and> sc_serial c \<notin> set revoked \<and> verify_subject env t c now = Ok ()
         \<and> (\<forall>values. admissions = Some values \<longrightarrow> (peer, sc_serial c) \<in> set values))
    \<and> (gate_peer env c key now (snd (install_admissions peers relays g)) = Ok peer \<longrightarrow> (peer, sc_serial c) \<in> set peers)
    \<and> ((gate_step env)\<^sup>*\<^sup>* (gate_revoke (sc_serial c) g) g' \<longrightarrow> gate_peer env c key now g' \<noteq> Ok peer)"
proof -
  obtain t revoked admissions relayed where g: "cg_trust g = Some t" "(trust_step env)\<^sup>*\<^sup>* trust t" "cg_revoked g = Some revoked"
      "cg_peer_admissions g = Some admissions" "cg_relay_admissions g = Some relayed"
    by (rule gate_trust [OF assms])
  have "set (fold bset_insert xs ys) = set xs \<union> set ys" for xs ys :: "(uuid \<times> uuid) list"
    by (induction xs arbitrary: ys) auto
  then have admitted: "gate_peer env c key now (snd (install_admissions peers relays g)) = Ok peer \<longrightarrow> (peer, sc_serial c) \<in> set peers"
    using g by (auto simp: install_admissions_def Let_def gate_peer_iff)
  have "gate_peer env c key now g' \<noteq> Ok peer" if steps: "(gate_step env)\<^sup>*\<^sup>* (gate_revoke (sc_serial c) g) g'"
  proof -
    obtain t' revoked' peers' where "cg_trust g' = Some t'" "cg_revoked g' = Some revoked'" "set (bset_insert (sc_serial c) revoked) \<subseteq> set revoked'"
        "cg_peer_admissions g' = Some peers'"
      using gate_order.steps_below [OF steps] g by (auto simp: gate_follows_def gate_revoke_def)
    then show ?thesis by (simp add: gate_peer_iff)
  qed
  with admitted show ?thesis
    by (intro exI [of _ t] exI [of _ revoked] exI [of _ admissions] conjI gate_peer_iff [OF g(1,3,4)] impI)
      (simp_all add: g)
qed

section \<open>Histories of the router\<close>

datatype ('t, 'e) router_event =
    Router_Acquire "(int, store_error) outcome" "'t presence_lease" uuid
  | Router_Attach attachment
  | Router_Detach uuid int
  | Router_Fence uuid int
  | Router_Revoke uuid
  | Router_Directory signed_peer_directory
  | Router_Relays signed_relay_directory
  | Router_Policy signed_policy_bundle
  | Router_Route "'e routed_control"
  | Router_Route_Authenticated "'e routed_control"
  | Router_Cross_Relay "'e routed_control"
  | Router_Receive uuid int

datatype 'e router_note = Queued uuid 'e | Delivered uuid 'e

fun router_next :: "crypto_env \<Rightarrow> ('t, 'e) router_event \<Rightarrow> 'e opaque_router \<Rightarrow> 'e opaque_router" where
  "router_next env (Router_Acquire stored lease serial) r = snd (router_acquire stored lease serial r)"
| "router_next env (Router_Attach a) r = install_attachment a r"
| "router_next env (Router_Detach peer generation) r = router_detach peer generation r"
| "router_next env (Router_Fence peer generation) r = snd (observe_fence peer generation r)"
| "router_next env (Router_Revoke serial) r = router_revoke serial r"
| "router_next env (Router_Directory update) r = snd (install_directory env update r)"
| "router_next env (Router_Relays update) r = snd (install_relays env update r)"
| "router_next env (Router_Policy update) r = snd (install_policy env update r)"
| "router_next env (Router_Route routed) r = snd (route_control routed r)"
| "router_next env (Router_Route_Authenticated routed) r = snd (route_authenticated_control routed r)"
| "router_next env (Router_Cross_Relay routed) r = snd (accept_cross_relay_control routed r)"
| "router_next env (Router_Receive peer generation) r = snd (receive_control peer generation r)"

text \<open>What an event did to the messages: queued one, delivered one, or neither\<close>

definition queued_note :: "(unit, relay_error) outcome \<times> 'r \<Rightarrow> 'e routed_control \<Rightarrow> 'e router_note list" where
  "queued_note result routed = (if fst result = Ok () then [Queued (rt_destination routed) (rt_envelope routed)] else [])"

fun router_notes :: "('t, 'e) router_event \<Rightarrow> 'e opaque_router \<Rightarrow> 'e router_note list" where
  "router_notes (Router_Route routed) r = queued_note (route_control routed r) routed"
| "router_notes (Router_Route_Authenticated routed) r = queued_note (route_authenticated_control routed r) routed"
| "router_notes (Router_Cross_Relay routed) r = queued_note (accept_cross_relay_control routed r) routed"
| "router_notes (Router_Receive peer generation) r =
     (case fst (receive_control peer generation r) of Ok (Some envelope) \<Rightarrow> [Delivered peer envelope] | _ \<Rightarrow> [])"
| "router_notes _ r = []"

fun queued_for :: "uuid \<Rightarrow> 'e router_note list \<Rightarrow> 'e list" where
  "queued_for peer [] = []"
| "queued_for peer (Queued p e # notes) = (if p = peer then [e] else []) @ queued_for peer notes"
| "queued_for peer (Delivered p e # notes) = queued_for peer notes"

fun delivered_to :: "uuid \<Rightarrow> 'e router_note list \<Rightarrow> 'e list" where
  "delivered_to peer [] = []"
| "delivered_to peer (Queued p e # notes) = delivered_to peer notes"
| "delivered_to peer (Delivered p e # notes) = (if p = peer then [e] else []) @ delivered_to peer notes"

lemma notes_append [simp]:
  "queued_for p (xs @ ys) = queued_for p xs @ queued_for p ys"
  "delivered_to p (xs @ ys) = delivered_to p xs @ delivered_to p ys"
  by (induction xs rule: queued_for.induct; simp)+

inductive router_run :: "crypto_env \<Rightarrow> 'e opaque_router \<Rightarrow> ('t, 'e) router_event list \<Rightarrow> 'e router_note list \<Rightarrow> 'e opaque_router \<Rightarrow> bool"
  for env :: crypto_env and r0 :: "'e opaque_router" where
  start: "router_run env r0 [] [] r0"
| more: "router_run env r0 events notes r \<Longrightarrow>
    router_run env r0 (events @ [e]) (notes @ router_notes e r) (router_next env e r)"

definition router_move :: "crypto_env \<Rightarrow> 'e opaque_router \<Rightarrow> 'e opaque_router \<Rightarrow> bool" where
  "router_move env r r' \<longleftrightarrow> (\<exists>e :: (unit, 'e) router_event. r' = router_next env e r)"

section \<open>The invariant\<close>

text \<open>
  Maps are ordered, attachments are primaries of their Peer at a generation the fence has reached,
  and queues are within the capacity.
\<close>

definition router_inv :: "'e opaque_router \<Rightarrow> bool" where
  "router_inv r \<longleftrightarrow> bmap_ok (or_attachments r) \<and> bmap_ok (or_control_queues r) \<and> bmap_ok (or_known_fences r)
     \<and> bmap_ok (or_directory_credentials r) \<and> 0 < or_queue_capacity r
     \<and> (\<forall>peer a. hm_get (or_attachments r) peer = Some a \<longrightarrow> at_role a = Primary \<and> at_peer_id a = peer
          \<and> (\<exists>fence. hm_get (or_known_fences r) peer = Some fence \<and> at_generation a \<le> fence))
     \<and> (\<forall>peer. length (queue_of r peer) \<le> or_queue_capacity r)"

lemma router_new_inv: "router_new mesh relay key capacity = Ok r \<Longrightarrow> router_inv r"
  by (auto simp: router_new_def router_inv_def queue_of_def split: if_splits)

lemma hm_get_filter: "hm_ok m \<Longrightarrow> hm_get (filter P m) k = (case hm_get m k of None \<Rightarrow> None | Some v \<Rightarrow> if P (k, v) then Some v else None)"
  by (induction m) (auto simp: hm_ok_def map_of_eq_None_iff split: option.splits)

lemmas router_maps = bmap_ok_distinct [THEN hm_get_filter] bmap_ok_filter table_simps

lemma router_attachedE:
  assumes "router_inv r" "hm_get (or_attachments r) peer = Some a"
  obtains fence where "at_role a = Primary" "at_peer_id a = peer" "hm_get (or_known_fences r) peer = Some fence"
    "at_generation a \<le> fence"
  using assms by (auto simp: router_inv_def)

lemma queue_of_eq: "or_control_queues r' = or_control_queues r \<Longrightarrow> queue_of r' = queue_of r"
  by (auto simp: queue_of_def)

text \<open>Operations other than routing and receiving keep or drop whole queues.\<close>

lemma router_inv_drop:
  assumes inv: "router_inv r" and queues: "\<And>p. queue_of r' p \<in> {[], queue_of r p}"
    and maps: "bmap_ok (or_attachments r')" "bmap_ok (or_control_queues r')" "bmap_ok (or_directory_credentials r')"
    and same: "or_known_fences r' = or_known_fences r" "or_queue_capacity r' = or_queue_capacity r"
    and less: "\<And>p a. hm_get (or_attachments r') p = Some a \<Longrightarrow> hm_get (or_attachments r) p = Some a"
  shows "router_inv r'"
proof -
  have "length (queue_of r' p) \<le> or_queue_capacity r" for p
    using inv queues [of p] by (auto simp: router_inv_def)
  then show ?thesis using inv maps same by (auto simp: router_inv_def dest: less)
qed

lemma attach_inv:
  assumes inv: "router_inv r"
  shows "router_inv (install_attachment a r)" "queue_of (install_attachment a r) = queue_of r"
proof -
  show q: "queue_of (install_attachment a r) = queue_of r"
    by (rule queue_of_eq) (simp add: install_attachment_def)
  show "router_inv (install_attachment a r)"
  proof (cases "install_attachment a r = r")
    case False
    then have "at_role a = Primary" "\<And>f. hm_get (or_known_fences r) (at_peer_id a) = Some f \<Longrightarrow> f \<le> at_generation a"
      and r': "install_attachment a r = r\<lparr>or_known_fences := bmap_insert (at_peer_id a) (at_generation a) (or_known_fences r),
        or_attachments := bmap_insert (at_peer_id a) a (or_attachments r)\<rparr>"
      by (auto simp: install_attachment_def split: if_splits option.splits)
    then show ?thesis
      using inv q unfolding r' router_inv_def by (auto simp: table_simps)
  qed (simp add: inv)
qed

lemma detach_inv:
  assumes inv: "router_inv r"
  shows "router_inv (router_detach peer generation r)"
    and "queue_of (router_detach peer generation r) p \<in> {[], queue_of r p}"
proof -
  show "queue_of (router_detach peer generation r) p \<in> {[], queue_of r p}" for p
    using inv by (auto simp: router_detach_def queue_of_def table_simps router_inv_def split: option.splits)
  then show "router_inv (router_detach peer generation r)"
    by (rule router_inv_drop [OF inv])
      (use inv in \<open>auto simp: router_detach_def router_inv_def table_simps split: if_splits\<close>)
qed

lemma fence_inv:
  assumes inv: "router_inv r"
  shows "router_inv (snd (observe_fence peer generation r))"
    and "queue_of (snd (observe_fence peer generation r)) = queue_of r"
proof -
  show q: "queue_of (snd (observe_fence peer generation r)) = queue_of r"
    by (rule queue_of_eq) (simp add: observe_fence_def)
  show "router_inv (snd (observe_fence peer generation r))"
  proof (cases "snd (observe_fence peer generation r) = r")
    case False
    then have r': "snd (observe_fence peer generation r) = r\<lparr>or_known_fences := bmap_insert peer generation (or_known_fences r)\<rparr>"
      and up: "\<And>f. hm_get (or_known_fences r) peer = Some f \<Longrightarrow> f \<le> generation"
      by (auto simp: observe_fence_def split: if_splits option.splits)
    have "at_generation a \<le> generation" if "hm_get (or_attachments r) peer = Some a" for a
      using router_attachedE [OF inv that] up by fastforce
    then show ?thesis using inv q unfolding r' router_inv_def by (auto simp: table_simps)
  qed (simp add: inv)
qed

lemma revoke_inv:
  assumes inv: "router_inv r"
  shows "router_inv (router_revoke serial r)"
    and "queue_of (router_revoke serial r) p \<in> {[], queue_of r p}"
proof -
  show "queue_of (router_revoke serial r) p \<in> {[], queue_of r p}" for p
    using inv by (auto simp: router_revoke_def queue_of_def router_maps router_inv_def split: option.splits if_splits)
  then show "router_inv (router_revoke serial r)"
    by (rule router_inv_drop [OF inv])
      (use inv in \<open>auto simp: router_revoke_def router_inv_def router_maps split: option.splits if_splits\<close>)
qed

lemma directory_credentials_ok: "bmap_ok (directory_credentials_of d)"
proof -
  have "bmap_ok (fold (\<lambda>s. bmap_insert (pe_peer_id (sp_entry s)) (accepted_serials (sp_entry s))) xs m)"
    if "bmap_ok m" for xs :: "signed_peer_entry list" and m
    using that by (induction xs arbitrary: m) auto
  then show ?thesis by (simp add: directory_credentials_of_def)
qed

lemma directory_inv:
  assumes inv: "router_inv r"
  shows "router_inv (snd (install_directory env update r))"
    and "queue_of (snd (install_directory env update r)) p \<in> {[], queue_of r p}"
proof -
  show "queue_of (snd (install_directory env update r)) p \<in> {[], queue_of r p}" for p
    using inv by (auto simp: install_directory_def queue_of_def router_maps router_inv_def Let_def split: outcome.splits option.splits if_splits)
  then show "router_inv (snd (install_directory env update r))"
    by (rule router_inv_drop [OF inv])
      (use inv in \<open>auto simp: install_directory_def router_inv_def router_maps directory_credentials_ok Let_def split: outcome.splits\<close>)
qed

lemma revisions_inv:
  assumes inv: "router_inv r"
  shows "router_inv (snd (install_relays env relays r))" "queue_of (snd (install_relays env relays r)) = queue_of r"
    and "router_inv (snd (install_policy env policy r))" "queue_of (snd (install_policy env policy r)) = queue_of r"
proof -
  show q: "queue_of (snd (install_relays env relays r)) = queue_of r" "queue_of (snd (install_policy env policy r)) = queue_of r"
    by (rule queue_of_eq, simp add: install_relays_def install_policy_def split: outcome.splits)+
  show "router_inv (snd (install_relays env relays r))" "router_inv (snd (install_policy env policy r))"
    by (rule router_inv_drop [OF inv];
        use inv q in \<open>auto simp: install_relays_def install_policy_def router_inv_def split: outcome.splits\<close>)+
qed

lemma acquire_inv:
  assumes inv: "router_inv r"
  shows "router_inv (snd (router_acquire stored lease serial r))" "queue_of (snd (router_acquire stored lease serial r)) = queue_of r"
  using attach_inv [OF inv] inv
  by (auto simp: router_acquire_def install_acquired_def Let_def split: outcome.splits)

subsection \<open>Routing and receiving\<close>

lemma route_checked_cases:
  assumes inv: "router_inv r"
  obtains (refused) "fst (route_checked check routed r) \<noteq> Ok ()"
      "router_inv (snd (route_checked check routed r))" "queue_of (snd (route_checked check routed r)) = queue_of r"
      "or_known_fences (snd (route_checked check routed r)) = or_known_fences r"
      "or_attachments (snd (route_checked check routed r)) = or_attachments r"
  | (queued) "check = Ok ()" "validate_local_destination (rt_destination routed) r = Ok ()"
      "length (queue_of r (rt_destination routed)) < or_queue_capacity r"
      "route_checked check routed r = (Ok (), r\<lparr>or_control_queues :=
         bmap_insert (rt_destination routed) (queue_of r (rt_destination routed) @ [rt_envelope routed]) (or_control_queues r)\<rparr>)"
proof (cases "and_then check (\<lambda>_. validate_local_destination (rt_destination routed) r)")
  case (Ok u)
  then have ok: "check = Ok ()" "validate_local_destination (rt_destination routed) r = Ok ()"
    by (auto simp: and_then_Ok_iff)
  show thesis
  proof (cases "or_queue_capacity r \<le> length (queue_of r (rt_destination routed))")
    case True
    let ?r = "r\<lparr>or_control_queues := bmap_insert (rt_destination routed) (queue_of r (rt_destination routed)) (or_control_queues r)\<rparr>"
    have full: "route_checked check routed r = (Err QueueFull, ?r)"
      using ok True by (simp add: route_checked_def router_enqueue_def Let_def)
    have same: "queue_of ?r = queue_of r" by (auto simp: queue_of_def table_simps)
    have "router_inv ?r"
      by (rule router_inv_drop [OF inv]) (use inv same in \<open>auto simp: router_inv_def\<close>)
    then show thesis using full same by (intro refused) simp_all
  next
    case False
    then show thesis using ok by (intro queued) (simp_all add: route_checked_def router_enqueue_def Let_def)
  qed
qed (use inv in \<open>auto intro: refused simp: route_checked_def\<close>)

lemma queued_inv:
  fixes r :: "'e opaque_router" and e :: 'e and p :: uuid
  assumes inv: "router_inv r" and room: "length (queue_of r p) < or_queue_capacity r"
  defines "r' \<equiv> r\<lparr>or_control_queues := bmap_insert p (queue_of r p @ [e]) (or_control_queues r)\<rparr>"
  shows "router_inv r'" "queue_of r' = (queue_of r)(p := queue_of r p @ [e])"
proof -
  show q: "queue_of r' = (queue_of r)(p := queue_of r p @ [e])" by (auto simp: queue_of_def r'_def table_simps)
  show "router_inv r'" using inv room q by (auto simp: router_inv_def r'_def)
qed

lemma receive_control_cases:
  assumes inv: "router_inv r"
  obtains (idle) "snd (receive_control peer generation r) = r" "\<And>e. fst (receive_control peer generation r) \<noteq> Ok (Some e)"
  | (delivered) e rest where "validate_control_source peer generation r = Ok ()" "queue_of r peer = e # rest"
      "fst (receive_control peer generation r) = Ok (Some e)"
      "router_inv (snd (receive_control peer generation r))"
      "queue_of (snd (receive_control peer generation r)) = (queue_of r)(peer := rest)"
      "or_known_fences (snd (receive_control peer generation r)) = or_known_fences r"
      "or_attachments (snd (receive_control peer generation r)) = or_attachments r"
proof (cases "validate_control_source peer generation r")
  case (Ok u)
  show thesis
  proof (cases "queue_of r peer")
    case Nil
    then have "receive_control peer generation r = (Ok None, r)"
      using Ok by (auto simp: receive_control_def queue_of_def split: option.splits)
    then show thesis by (intro idle) simp_all
  next
    case (Cons e rest)
    then have get: "hm_get (or_control_queues r) peer = Some (e # rest)" by (auto simp: queue_of_def split: option.splits)
    let ?r = "r\<lparr>or_control_queues := bmap_insert peer rest (or_control_queues r)\<rparr>"
    have rec: "receive_control peer generation r = (Ok (Some e), ?r)" using Ok get by (simp add: receive_control_def)
    have q: "queue_of ?r = (queue_of r)(peer := rest)" by (auto simp: queue_of_def table_simps)
    have "length rest \<le> or_queue_capacity r" using inv Cons unfolding router_inv_def by (metis Suc_leD length_Cons)
    then have "router_inv ?r" using inv q by (auto simp: router_inv_def)
    then show thesis using Ok Cons rec q by (intro delivered [of e rest]) simp_all
  qed
qed (auto intro: idle simp: receive_control_def)

lemma routing_defs:
  "route_control routed r = route_checked (validate_control_source (rt_source routed) (rt_generation routed) r) routed r"
  "route_authenticated_control routed r = route_checked (listed_source StaleFence (rt_source routed) r) routed r"
  "accept_cross_relay_control routed r = route_checked (listed_source NoRoute (rt_source routed) r) routed r"
  by (simp_all add: route_control_def route_authenticated_control_def accept_cross_relay_control_def)

text \<open>One event keeps the invariant and accounts for every message.\<close>

definition accounted :: "'e opaque_router \<Rightarrow> 'e router_note list \<Rightarrow> 'e opaque_router \<Rightarrow> bool" where
  "accounted r notes r' \<longleftrightarrow> router_inv r' \<and>
     (\<forall>p. subseq (delivered_to p notes @ queue_of r' p) (queue_of r p @ queued_for p notes))"

lemma accounted_drop:
  "router_inv r' \<Longrightarrow> (\<And>p. queue_of r' p \<in> {[], queue_of r p}) \<Longrightarrow> accounted r [] r'"
proof -
  assume inv: "router_inv r'" and drop: "\<And>p. queue_of r' p \<in> {[], queue_of r p}"
  have "subseq (queue_of r' p) (queue_of r p)" for p using drop [of p] by auto
  then show ?thesis using inv by (simp add: accounted_def)
qed

lemma route_accounted:
  assumes inv: "router_inv r"
  shows "accounted r (queued_note (route_checked check routed r) routed) (snd (route_checked check routed r))"
  using inv
proof (cases rule: route_checked_cases [where check = check and routed = routed])
  case refused
  then show ?thesis by (simp add: queued_note_def accounted_drop)
next
  case queued
  then show ?thesis using queued_inv [OF inv queued(3), of "rt_envelope routed"] by (simp add: accounted_def queued_note_def)
qed

lemma receive_accounted:
  assumes inv: "router_inv r"
  shows "accounted r (router_notes (Router_Receive peer generation) r) (snd (receive_control peer generation r))"
  using inv
proof (cases rule: receive_control_cases [where peer = peer and generation = generation])
  case idle
  then have none: "router_notes (Router_Receive peer generation) r = []" by (auto split: outcome.splits option.splits)
  show ?thesis unfolding none idle(1) using inv by (simp add: accounted_drop)
next
  case (delivered e rest)
  then show ?thesis by (simp add: accounted_def)
qed

lemma router_next_accounted:
  assumes inv: "router_inv r"
  shows "accounted r (router_notes e r) (router_next env e r)"
proof (cases e)
  case (Router_Receive peer generation)
  then show ?thesis using receive_accounted [OF inv] by (simp del: router_notes.simps(4))
next
  case (Router_Detach peer generation)
  then show ?thesis using accounted_drop [OF detach_inv [OF inv]] by simp
next
  case (Router_Revoke serial)
  then show ?thesis using accounted_drop [OF revoke_inv [OF inv]] by simp
next
  case (Router_Directory update)
  then show ?thesis using accounted_drop [OF directory_inv [OF inv]] by simp
qed (use inv in \<open>simp_all add: routing_defs route_accounted accounted_drop attach_inv fence_inv revisions_inv acquire_inv\<close>)

lemma router_run_accounted:
  assumes "router_run env r0 events log r" "router_inv r0"
  shows "accounted r0 log r"
  using assms
proof (induction rule: router_run.induct)
  case start
  then show ?case by (simp add: accounted_drop)
next
  case (more events log r e)
  then have acc: "accounted r0 log r" by simp
  have next': "accounted r (router_notes e r) (router_next env e r)"
    using acc router_next_accounted by (auto simp: accounted_def)
  have "subseq (delivered_to p (log @ router_notes e r) @ queue_of (router_next env e r) p)
      (queue_of r0 p @ queued_for p (log @ router_notes e r))" for p
  proof -
    have "subseq (delivered_to p log @ delivered_to p (router_notes e r) @ queue_of (router_next env e r) p)
        (delivered_to p log @ queue_of r p @ queued_for p (router_notes e r))"
      using next' unfolding accounted_def by (metis list_emb_append_mono subseq_order.refl)
    also have "subseq \<dots> ((queue_of r0 p @ queued_for p log) @ queued_for p (router_notes e r))"
      using acc by (simp add: accounted_def list_emb_append_mono flip: append_assoc)
    finally show ?thesis by simp
  qed
  then show ?case using next' by (simp add: accounted_def)
qed

section \<open>Fences and revocations\<close>

lemma route_checked_keeps:
  "or_known_fences (snd (route_checked check routed r)) = or_known_fences r"
  "or_revoked (snd (route_checked check routed r)) = or_revoked r"
  "or_directory_credentials (snd (route_checked check routed r)) = or_directory_credentials r"
  by (simp_all add: route_checked_def router_enqueue_def Let_def split: outcome.splits)

lemma receive_control_keeps:
  "or_known_fences (snd (receive_control peer generation r)) = or_known_fences r"
  "or_revoked (snd (receive_control peer generation r)) = or_revoked r"
  "or_directory_credentials (snd (receive_control peer generation r)) = or_directory_credentials r"
  by (simp_all add: receive_control_def split: outcome.splits option.splits list.splits)

lemma attach_fence:
  "hm_get (or_known_fences r) k = Some g \<Longrightarrow> \<exists>g'. hm_get (or_known_fences (install_attachment a r)) k = Some g' \<and> g \<le> g'"
  by (auto simp: install_attachment_def table_simps)

lemma router_next_fence:
  assumes "hm_get (or_known_fences r) k = Some g"
  shows "\<exists>g'. hm_get (or_known_fences (router_next env e r)) k = Some g' \<and> g \<le> g'"
proof (cases e)
  case (Router_Acquire stored lease serial)
  then show ?thesis
    using assms attach_fence [OF assms] by (auto simp: router_acquire_def install_acquired_def Let_def split: outcome.splits)
next
  case (Router_Attach a)
  then show ?thesis using attach_fence [OF assms] by simp
next
  case (Router_Fence peer generation)
  then show ?thesis using assms by (auto simp: observe_fence_def table_simps not_less split: option.splits)
next
  case (Router_Directory update)
  then show ?thesis using assms by (auto simp: install_directory_def Let_def split: outcome.splits)
next
  case (Router_Relays update)
  then show ?thesis using assms by (auto simp: install_relays_def split: outcome.splits)
next
  case (Router_Policy update)
  then show ?thesis using assms by (auto simp: install_policy_def split: outcome.splits)
qed (use assms in \<open>simp_all add: routing_defs route_checked_keeps receive_control_keeps router_detach_def router_revoke_def\<close>)

lemma router_next_revoked: "set (or_revoked r) \<subseteq> set (or_revoked (router_next env e r))"
  by (cases e)
    (auto simp: routing_defs route_checked_keeps receive_control_keeps router_detach_def router_revoke_def observe_fence_def
      install_attachment_def install_directory_def install_relays_def install_policy_def router_acquire_def install_acquired_def
      Let_def split: outcome.splits)

interpretation router_fence: generation_fence router_inv "router_move env" "\<lambda>r. hm_get (or_known_fences r)" for env
  by unfold_locales
    (use router_next_accounted router_next_fence in \<open>auto simp: router_move_def accounted_def\<close>)

interpretation router_revocations: monotone_steps "router_move env" "\<lambda>r r'. set (or_revoked r) \<subseteq> set (or_revoked r')" for env
  by unfold_locales (use router_next_revoked in \<open>auto simp: router_move_def\<close>)

text \<open>The credentials in force are those of a directory that verified.\<close>

definition directory_installed ::
  "crypto_env \<Rightarrow> ('t, 'e) router_event list \<Rightarrow> 'e opaque_router \<Rightarrow> bool" where
  "directory_installed env events r \<longleftrightarrow> or_directory_credentials r = [] \<or>
     (\<exists>update accepted. Router_Directory update \<in> set events
        \<and> verify_peers env (or_verifier r) update (or_mesh_id r) accepted = Ok ()
        \<and> or_directory_credentials r = directory_credentials_of (sd_directory update))"

lemma router_next_identity [simp]:
  "or_verifier (router_next env e r) = or_verifier r \<and> or_mesh_id (router_next env e r) = or_mesh_id r
   \<and> or_queue_capacity (router_next env e r) = or_queue_capacity r"
  by (cases e)
    (auto simp: routing_defs route_checked_def router_enqueue_def receive_control_def router_detach_def router_revoke_def observe_fence_def
      install_attachment_def install_directory_def install_relays_def install_policy_def router_acquire_def install_acquired_def
      Let_def split: outcome.splits option.splits list.splits)

lemma router_run_capacity: "router_run env r0 events log r \<Longrightarrow> or_queue_capacity r = or_queue_capacity r0"
  by (induction rule: router_run.induct) simp_all

lemma router_next_credentials:
  "or_directory_credentials (router_next env e r) = or_directory_credentials r
   \<or> (\<exists>update. e = Router_Directory update \<and> verify_peers env (or_verifier r) update (or_mesh_id r) (or_directory_revision r) = Ok ()
        \<and> or_directory_credentials (router_next env e r) = directory_credentials_of (sd_directory update))"
  by (cases e)
    (auto simp: routing_defs route_checked_keeps receive_control_keeps router_detach_def router_revoke_def observe_fence_def
      install_attachment_def install_directory_def install_relays_def install_policy_def router_acquire_def install_acquired_def
      Let_def split: outcome.splits)

lemma router_run_directory:
  assumes "router_run env r0 events log r" "or_directory_credentials r0 = []"
  shows "directory_installed env events r"
  using assms
proof (induction rule: router_run.induct)
  case start
  then show ?case by (simp add: directory_installed_def)
next
  case (more events log r e)
  then have "directory_installed env events r" by simp
  then show ?case
    using router_next_credentials [of env e r] unfolding directory_installed_def by auto
qed

lemma inserted_credentials:
  "hm_get (fold (\<lambda>s. bmap_insert (pe_peer_id (sp_entry s)) (accepted_serials (sp_entry s))) xs m) peer = Some serials \<Longrightarrow>
   hm_get m peer = Some serials
   \<or> (\<exists>s :: signed_peer_entry \<in> set xs. pe_peer_id (sp_entry s) = peer \<and> serials = accepted_serials (sp_entry s))"
proof (induction xs arbitrary: m)
  case (Cons x xs)
  from Cons.IH [of "bmap_insert (pe_peer_id (sp_entry x)) (accepted_serials (sp_entry x)) m"] Cons.prems
  show ?case by (auto simp: table_simps split: if_splits)
qed simp

lemma credentials_lookup:
  assumes "hm_get (directory_credentials_of d) peer = Some serials"
  shows "\<exists>s\<in>set (pd_entries d). pe_enabled (sp_entry s) \<and> pe_peer_id (sp_entry s) = peer
     \<and> set serials = insert (pe_credential_serial (sp_entry s)) (pb_serial ` set (pe_accepted_credentials (sp_entry s)))"
proof -
  have "set (fold bset_insert ys zs) = set ys \<union> set zs" for ys zs :: "uuid list"
    by (induction ys arbitrary: zs) auto
  then have serials: "set (accepted_serials e) = insert (pe_credential_serial e) (pb_serial ` set (pe_accepted_credentials e))" for e
    by (simp add: accepted_serials_def)
  show ?thesis
    using inserted_credentials [OF assms [unfolded directory_credentials_of_def]] by (auto simp: serials)
qed

lemma routed_receivable:
  assumes inv: "router_inv r" and routed: "route_checked check routed r = (Ok (), r')"
  shows "\<exists>a. hm_get (or_attachments r) (rt_destination routed) = Some a
    \<and> queue_of r' (rt_destination routed) = queue_of r (rt_destination routed) @ [rt_envelope routed]
    \<and> fst (receive_control (rt_destination routed) (at_generation a) r') = Ok (Some (hd (queue_of r' (rt_destination routed))))"
  using inv
proof (cases rule: route_checked_cases [where check = check and routed = routed])
  case refused
  then show ?thesis using routed by simp
next
  case queued
  let ?d = "rt_destination routed"
  have r': "r' = r\<lparr>or_control_queues := bmap_insert ?d (queue_of r ?d @ [rt_envelope routed]) (or_control_queues r)\<rparr>"
    using queued(4) routed by simp
  then have q: "queue_of r' ?d = queue_of r ?d @ [rt_envelope routed]"
    using queued_inv(2) [OF inv queued(3)] by simp
  then have get: "hm_get (or_control_queues r') ?d = Some (queue_of r' ?d)"
    by (auto simp: queue_of_def split: option.splits)
  obtain a where a: "hm_get (or_attachments r) ?d = Some a" "hm_get (or_known_fences r) ?d = Some (at_generation a)" "\<not> uncredentialed ?d a r"
    using queued(2) by (auto simp: validate_local_destination_def and_then_Ok_iff split: if_splits)
  then have "validate_control_source ?d (at_generation a) r' = Ok ()"
    by (simp add: validate_control_source_def uncredentialed_def r')
  then show ?thesis using a(1) q get by (auto simp: receive_control_def split: list.splits)
qed

text \<open>(C36) Control messages of the Relay.  Over every history - attachments, detachments, fences, revocations, new
  directories, routing, receiving, in any order - the messages delivered to a Peer followed by those
  waiting for it are, in order, some of those accepted for it as destination: nothing is delivered
  twice, reordered or to another Peer, and queues stay within the capacity.  A refused operation
  queues and delivers nothing.  An accepted message can be received: the attachment of the
  destination gets the oldest waiting message, and the accepted one is the newest.
\<close>

theorem router_delivery:
  assumes "router_new mesh relay key capacity = Ok r0" "router_run env r0 events log r"
  shows "subseq (delivered_to peer log @ queue_of r peer) (queued_for peer log)
    \<and> length (queue_of r peer) \<le> capacity
    \<and> (\<forall>r'. route_authenticated_control routed r = (Ok (), r') \<or> route_control routed r = (Ok (), r')
          \<or> accept_cross_relay_control routed r = (Ok (), r') \<longrightarrow>
         (\<exists>a. hm_get (or_attachments r) (rt_destination routed) = Some a
            \<and> queue_of r' (rt_destination routed) = queue_of r (rt_destination routed) @ [rt_envelope routed]
            \<and> fst (receive_control (rt_destination routed) (at_generation a) r') = Ok (Some (hd (queue_of r' (rt_destination routed))))))"
proof -
  have inv0: "router_inv r0" using router_new_inv [OF assms(1)] .
  have r0: "queue_of r0 peer = []" "or_queue_capacity r0 = capacity"
    using assms(1) by (auto simp: router_new_def queue_of_def split: if_splits)
  have acc: "accounted r0 log r" using router_run_accounted [OF assms(2) inv0] .
  have "or_queue_capacity r = capacity" using router_run_capacity [OF assms(2)] r0(2) by simp
  moreover have inv: "router_inv r" using acc by (simp add: accounted_def)
  ultimately have "length (queue_of r peer) \<le> capacity" by (auto simp: router_inv_def)
  moreover have "subseq (delivered_to peer log @ queue_of r peer) (queued_for peer log)"
    using acc r0(1) unfolding accounted_def by (metis append_Nil)
  ultimately show ?thesis using routed_receivable [OF inv] unfolding routing_defs by blast
qed

lemma source_checked:
  "validate_control_source peer generation r = Ok () \<longleftrightarrow>
   (\<exists>a serials. hm_get (or_attachments r) peer = Some a \<and> at_generation a = generation
      \<and> hm_get (or_known_fences r) peer = Some generation \<and> at_credential_serial a \<notin> set (or_revoked r)
      \<and> hm_get (or_directory_credentials r) peer = Some serials \<and> at_credential_serial a \<in> set serials)"
  by (auto simp: validate_control_source_def uncredentialed_def and_then_Ok_iff split: if_splits option.splits)

lemma source_refused:
  "validate_control_source peer generation r \<noteq> Ok () \<Longrightarrow> validate_control_source peer generation r = Err StaleFence"
  by (cases "hm_get (or_attachments r) peer") (auto simp: validate_control_source_def split: if_splits)

lemma refused_results:
  assumes "validate_control_source peer generation r \<noteq> Ok ()"
  shows "receive_control peer generation r = (Err StaleFence, r)"
    and "rt_source routed = peer \<Longrightarrow> rt_generation routed = generation \<Longrightarrow> route_control routed r = (Err StaleFence, r)"
  using source_refused [OF assms] by (simp_all add: receive_control_def route_control_def route_checked_def)

lemma revoked_refused:
  assumes "hm_get (or_attachments r) peer = Some a" "at_credential_serial a \<in> set (or_revoked r)"
  shows "validate_control_source peer generation r \<noteq> Ok ()" "validate_local_destination peer r = Err NoRoute"
  using assms by (auto simp: source_checked validate_local_destination_def uncredentialed_def)

text \<open>
  What admission rests on: the attachment of a Peer in force, an enabled entry of a verified
  directory of the Mesh that lists the Peer, the serials this entry lists, and the acceptance of a
  message by any of the three ways a message enters a queue.
\<close>

definition attached_at :: "'e opaque_router \<Rightarrow> uuid \<Rightarrow> int \<Rightarrow> attachment \<Rightarrow> bool" where
  "attached_at r peer generation a \<longleftrightarrow>
     hm_get (or_attachments r) peer = Some a \<and> at_generation a = generation \<and> at_role a = Primary \<and> at_peer_id a = peer
     \<and> hm_get (or_known_fences r) peer = Some generation \<and> at_credential_serial a \<notin> set (or_revoked r)"

definition lists_peer ::
  "crypto_env \<Rightarrow> bytes \<Rightarrow> uuid \<Rightarrow> ('t, 'e) router_event list \<Rightarrow> uuid \<Rightarrow> signed_peer_entry \<Rightarrow> bool" where
  "lists_peer env key mesh events peer s \<longleftrightarrow>
     (\<exists>update accepted. Router_Directory update \<in> set events \<and> verify_peers env key update mesh accepted = Ok ()
        \<and> s \<in> set (pd_entries (sd_directory update)))
     \<and> pe_enabled (sp_entry s) \<and> pe_peer_id (sp_entry s) = peer"

definition listed_serials :: "signed_peer_entry \<Rightarrow> uuid set" where
  "listed_serials s = insert (pe_credential_serial (sp_entry s)) (pb_serial ` set (pe_accepted_credentials (sp_entry s)))"

definition routes :: "'e routed_control \<Rightarrow> 'e opaque_router \<Rightarrow> bool" where
  "routes routed r \<longleftrightarrow> fst (route_control routed r) = Ok () \<or> fst (route_authenticated_control routed r) = Ok ()
     \<or> fst (accept_cross_relay_control routed r) = Ok ()"

lemma credentialed_listed:
  assumes new: "router_new mesh relay key capacity = Ok r0" and run: "router_run env r0 events log r"
    and get: "hm_get (or_directory_credentials r) peer = Some serials"
  obtains s where "lists_peer env key mesh events peer s" "set serials = listed_serials s"
proof -
  have r0: "or_verifier r0 = key" "or_mesh_id r0 = mesh" "or_directory_credentials r0 = []"
    using new by (auto simp: router_new_def split: if_splits)
  have same: "or_verifier r = key" "or_mesh_id r = mesh"
    using run r0 by (induction rule: router_run.induct) simp_all
  obtain update accepted where u: "Router_Directory update \<in> set events" "verify_peers env key update mesh accepted = Ok ()"
      "or_directory_credentials r = directory_credentials_of (sd_directory update)"
    using router_run_directory [OF run r0(3)] get same by (auto simp: directory_installed_def)
  then show thesis
    using credentials_lookup [of "sd_directory update" peer serials] get that by (auto simp: lists_peer_def listed_serials_def)
qed

lemma admitted_source:
  assumes new: "router_new mesh relay key capacity = Ok r0" and run: "router_run env r0 events log r"
    and ok: "validate_control_source peer generation r = Ok ()"
  shows "\<exists>a s. attached_at r peer generation a \<and> lists_peer env key mesh events peer s \<and> at_credential_serial a \<in> listed_serials s"
proof -
  have inv: "router_inv r" using router_run_accounted [OF run router_new_inv [OF new]] by (simp add: accounted_def)
  obtain a serials where a: "hm_get (or_attachments r) peer = Some a" "at_generation a = generation"
      "hm_get (or_known_fences r) peer = Some generation" "at_credential_serial a \<notin> set (or_revoked r)"
    and serials: "hm_get (or_directory_credentials r) peer = Some serials" "at_credential_serial a \<in> set serials"
    using ok unfolding source_checked by blast
  obtain s where s: "lists_peer env key mesh events peer s" "set serials = listed_serials s"
    using credentialed_listed [OF new run serials(1)] .
  have "attached_at r peer generation a" using a router_attachedE [OF inv a(1)] by (auto simp: attached_at_def)
  then show ?thesis using s serials(2) by blast
qed

lemma destination_checked:
  assumes "validate_local_destination peer r = Ok ()"
  shows "\<exists>a :: attachment. validate_control_source peer (at_generation a) r = Ok ()"
proof -
  obtain a where "hm_get (or_attachments r) peer = Some a" "hm_get (or_known_fences r) peer = Some (at_generation a)"
      "\<not> uncredentialed peer a r"
    using assms by (auto simp: validate_local_destination_def and_then_Ok_iff split: if_splits)
  then show ?thesis by (intro exI [of _ a]) (simp add: validate_control_source_def)
qed

lemma routes_checked:
  assumes "routes routed r"
  shows "validate_local_destination (rt_destination routed) r = Ok ()" "hm_get (or_directory_credentials r) (rt_source routed) \<noteq> None"
  using assms
  by (auto simp: routes_def routing_defs route_checked_def listed_source_def source_checked and_then_Ok_iff
      split: outcome.splits if_splits)

lemma admitted_route:
  assumes new: "router_new mesh relay key capacity = Ok r0" and run: "router_run env r0 events log r" and ok: "routes routed r"
  shows "(\<exists>s. lists_peer env key mesh events (rt_source routed) s)
    \<and> (\<exists>a s. attached_at r (rt_destination routed) (at_generation a) a \<and> lists_peer env key mesh events (rt_destination routed) s
         \<and> at_credential_serial a \<in> listed_serials s)"
proof
  show "\<exists>s. lists_peer env key mesh events (rt_source routed) s"
  proof -
    obtain serials where "hm_get (or_directory_credentials r) (rt_source routed) = Some serials"
      using routes_checked(2) [OF ok] by blast
    from credentialed_listed [OF new run this] show ?thesis by blast
  qed
  show "\<exists>a s. attached_at r (rt_destination routed) (at_generation a) a \<and> lists_peer env key mesh events (rt_destination routed) s
         \<and> at_credential_serial a \<in> listed_serials s"
  proof -
    obtain a :: attachment where "validate_control_source (rt_destination routed) (at_generation a) r = Ok ()"
      using destination_checked [OF routes_checked(1) [OF ok]] by blast
    from admitted_source [OF new run this] obtain a' s where
      "attached_at r (rt_destination routed) (at_generation a) a'" "lists_peer env key mesh events (rt_destination routed) s"
      "at_credential_serial a' \<in> listed_serials s" by blast
    moreover from this(1) have "at_generation a' = at_generation a" by (simp add: attached_at_def)
    ultimately show ?thesis by metis
  qed
qed

text \<open>(C8) Admission.  A Peer receives a control message, or sends one at a generation it names (\<open>route_control\<close>),
  only at the exact generation of its primary attachment that is also the highest generation known for it, under
  a credential that is not revoked and that an enabled entry of a verified directory of the Mesh
  lists for that Peer.  A message that enters a queue in any of the three ways, those from an authenticated link
  (which may be a standby one) and from another Relay included, has a source that an enabled entry of a
  verified directory lists, and a destination that holds such an attachment; of the source these two
  check nothing more here, its session being the caller's to authenticate.
  Once a higher generation of a Peer is known, the older ones are refused in
  every later state; once a serial is revoked, an attachment under it neither receives, nor sends at
  its generation, nor is the destination of a message of any kind, in any later state.
\<close>

theorem router_admission:
  assumes "router_new mesh relay key capacity = Ok r0" "router_run env r0 events log r"
  shows "(fst (receive_control peer generation r) = Ok x \<or> fst (route_control routed r) = Ok () \<and> rt_source routed = peer \<and> rt_generation routed = generation
       \<longrightarrow> (\<exists>a s. attached_at r peer generation a \<and> lists_peer env key mesh events peer s \<and> at_credential_serial a \<in> listed_serials s))
    \<and> (routes routed r \<longrightarrow> (\<exists>s. lists_peer env key mesh events (rt_source routed) s)
         \<and> (\<exists>a s. attached_at r (rt_destination routed) (at_generation a) a \<and> lists_peer env key mesh events (rt_destination routed) s
              \<and> at_credential_serial a \<in> listed_serials s))
    \<and> (hm_get (or_known_fences r) peer = Some fence \<and> generation < fence \<and> (router_move env)\<^sup>*\<^sup>* r r' \<longrightarrow>
         receive_control peer generation r' = (Err StaleFence, r')
         \<and> (rt_source routed = peer \<and> rt_generation routed = generation \<longrightarrow> route_control routed r' = (Err StaleFence, r')))
    \<and> (serial \<in> set (or_revoked r) \<and> (router_move env)\<^sup>*\<^sup>* r r' \<and> hm_get (or_attachments r') peer = Some a \<and> at_credential_serial a = serial \<longrightarrow>
         receive_control peer generation r' = (Err StaleFence, r') \<and> validate_local_destination peer r' = Err NoRoute
         \<and> (rt_source routed = peer \<longrightarrow> route_control routed r' = (Err StaleFence, r'))
         \<and> (rt_destination routed = peer \<longrightarrow> \<not> routes routed r'))"
proof -
  have inv: "router_inv r"
    using router_run_accounted [OF assms(2) router_new_inv [OF assms(1)]] by (simp add: accounted_def)
  have admitted: "validate_control_source peer generation r = Ok ()"
    if "fst (receive_control peer generation r) = Ok x \<or> fst (route_control routed r) = Ok () \<and> rt_source routed = peer \<and> rt_generation routed = generation"
    using that refused_results [of peer generation r] by fastforce
  have fenced: "receive_control peer generation r' = (Err StaleFence, r')
      \<and> (rt_source routed = peer \<and> rt_generation routed = generation \<longrightarrow> route_control routed r' = (Err StaleFence, r'))"
    if fence: "hm_get (or_known_fences r) peer = Some fence" "generation < fence" "(router_move env)\<^sup>*\<^sup>* r r'"
  proof -
    have "validate_control_source peer generation r' \<noteq> Ok ()"
      using router_fence.fence_steps [OF fence(3) inv fence(1)] fence(2) by (auto simp: source_checked)
    then show ?thesis using refused_results [of peer generation r'] by simp
  qed
  have revoked: "receive_control peer generation r' = (Err StaleFence, r') \<and> validate_local_destination peer r' = Err NoRoute
      \<and> (rt_source routed = peer \<longrightarrow> route_control routed r' = (Err StaleFence, r')) \<and> (rt_destination routed = peer \<longrightarrow> \<not> routes routed r')"
    if "serial \<in> set (or_revoked r)" "(router_move env)\<^sup>*\<^sup>* r r'" "hm_get (or_attachments r') peer = Some a" "at_credential_serial a = serial"
  proof -
    have "at_credential_serial a \<in> set (or_revoked r')" using that(1,2,4) router_revocations.steps_below by blast
    then have refused: "validate_control_source peer g r' \<noteq> Ok ()" "validate_local_destination peer r' = Err NoRoute" for g
      using revoked_refused [OF that(3)] by simp_all
    then have "receive_control peer generation r' = (Err StaleFence, r')"
      "rt_source routed = peer \<Longrightarrow> route_control routed r' = (Err StaleFence, r')"
      using refused_results by blast+
    then show ?thesis using refused(2) routes_checked(1) [of routed r'] by auto
  qed
  show ?thesis
    using admitted_source [OF assms admitted] admitted_route [OF assms, of routed] fenced revoked by (intro conjI impI) blast+
qed

section \<open>Concrete runs\<close>

text \<open>One enabled Peer in a verified directory, attached at generation 7, sends itself a message and receives it.\<close>

definition router_env :: crypto_env where
  "router_env = \<lparr>cy_uuid_v4 = (\<lambda>_. True), cy_contributory = (\<lambda>_. True), cy_valid_key = (\<lambda>_. True),
     cy_public = (\<lambda>seed. seed), cy_sign = (\<lambda>seed message. seed @ message),
     cy_verify = (\<lambda>key message signature. True), cy_verify_strict = (\<lambda>_ _ _. True)\<rparr>"

definition router_mesh :: uuid where "router_mesh = replicate 16 1"
definition router_peer :: uuid where "router_peer = replicate 16 2"
definition router_serial :: uuid where "router_serial = replicate 16 3"

definition router_entry :: signed_peer_entry where
  "router_entry = \<lparr>sp_entry = \<lparr>pe_mesh_id = router_mesh, pe_peer_id = router_peer, pe_address = V4 [10, 0, 0, 1],
     pe_secondary_address = None, pe_identity_public_key = replicate 32 1, pe_noise_public_key = replicate 32 2,
     pe_credential_serial = router_serial,
     pe_accepted_credentials = [\<lparr>pb_serial = router_serial, pb_identity_public_key = replicate 32 1,
       pb_noise_public_key = replicate 32 2, pb_wireguard_public_key = replicate 32 3, pb_not_before = 10,
       pb_not_after = 1000, pb_overlap_until = None, pb_signature = replicate 64 0\<rparr>],
     pe_enabled = True, pe_labels = [], pe_not_after = 1000\<rparr>, sp_signature = replicate 64 0\<rparr>"

definition router_update :: signed_peer_directory where
  "router_update = \<lparr>sd_directory = \<lparr>pd_mesh_id = router_mesh, pd_revision = 4, pd_entries = [router_entry]\<rparr>,
     sd_signature = replicate 64 0\<rparr>"

lemma router_entry_formed: "entry_formed (sp_entry router_entry)"
  by (simp add: entry_formed_def binding_formed_def credential_formed_def credential_typed_def binding_subject_def
    router_entry_def router_mesh_def router_peer_def router_serial_def u64_max_def)

lemma router_update_verifies:
  assumes env: "cy_uuid_v4 env = (\<lambda>_. True)" "cy_contributory env = (\<lambda>_. True)"
    and signed: "\<And>m s. peer_entry_transcript (sp_entry router_entry) = (Ok m :: (bytes, directory_error) outcome) \<Longrightarrow> cy_verify env key m s"
      "\<And>m s. peer_revision_transcript (sd_directory router_update) = (Ok m :: (bytes, directory_error) outcome) \<Longrightarrow> cy_verify env key m s"
  shows "verify_peers env key router_update router_mesh None = Ok ()"
proof -
  have transcripts: "\<exists>m. peer_entry_transcript (sp_entry router_entry) = (Ok m :: (bytes, directory_error) outcome)"
    "\<exists>m. peer_revision_transcript (sd_directory router_update) = (Ok m :: (bytes, directory_error) outcome)"
    by (simp_all add: peer_entry_transcript_def peer_revision_transcript_def put_u32_def u32_max_def router_entry_def router_update_def)
  have "entry_canonical env (sp_entry router_entry)"
    by (simp add: entry_canonical_def credential_sound_def validate_subject_keys_def binding_subject_def all_zero_def
      list_all_iff router_entry_def env)
  moreover have "pe_mesh_id (sp_entry router_entry) = router_mesh" by (simp add: router_entry_def)
  ultimately have "verify_peer env key router_entry router_mesh = Ok ()"
    using transcripts(1) signed(1) by (auto simp: verify_peer_iff [OF router_entry_formed] directory_verify_iff)
  moreover have "directory_verify env key (peer_revision_transcript (sd_directory router_update)) (sd_signature router_update) = Ok ()"
    using transcripts(2) signed(2) by (auto simp: directory_verify_iff)
  moreover have "distinct (concat (map (\<lambda>item. map pb_wireguard_public_key (pe_accepted_credentials (sp_entry item))) [router_entry]))"
    "distinct (entry_addresses (sp_entry router_entry))"
    by (simp_all add: router_entry_def entry_addresses_def)
  ultimately show ?thesis by (simp add: verify_peers_iff router_update_def newer_than_def)
qed

lemma router_env_verifies: "verify_peers router_env key router_update router_mesh None = Ok ()"
  by (rule router_update_verifies) (simp_all add: router_env_def)

definition router_start :: "nat opaque_router" where
  "router_start = \<lparr>or_mesh_id = router_mesh, or_relay_id = [9], or_verifier = [8],
     or_directory_revision = None, or_relay_revision = None, or_policy_revision = None,
     or_attachments = [], or_directory_credentials = [], or_revoked = [], or_control_queues = [],
     or_known_fences = [], or_queue_capacity = 4\<rparr>"

definition router_attachment :: attachment where
  "router_attachment = \<lparr>at_peer_id = router_peer, at_attachment_id = [5], at_role = Primary, at_generation = 7,
     at_credential_serial = router_serial\<rparr>"

definition router_message :: "nat routed_control" where
  "router_message = \<lparr>rt_source = router_peer, rt_destination = router_peer, rt_generation = 7, rt_envelope = 42\<rparr>"

definition router_listed :: "nat opaque_router" where
  "router_listed = router_start\<lparr>or_directory_credentials := [(router_peer, [router_serial])], or_directory_revision := Some 4\<rparr>"

definition router_attached :: "nat opaque_router" where
  "router_attached = router_listed\<lparr>or_known_fences := [(router_peer, 7)], or_attachments := [(router_peer, router_attachment)]\<rparr>"

definition router_waiting :: "nat opaque_router" where
  "router_waiting = router_attached\<lparr>or_control_queues := [(router_peer, [42])]\<rparr>"

lemma router_new_start: "router_new router_mesh [9] [8] 4 = Ok router_start"
  by (simp add: router_new_def router_start_def)

lemma router_source_ok: "validate_control_source router_peer 7 router_attached = Ok ()"
  by (simp add: validate_control_source_def uncredentialed_def router_attached_def router_listed_def router_start_def router_attachment_def)

lemma router_directory_step:
  "verify_peers env [8] router_update router_mesh None = Ok () \<Longrightarrow>
   router_next env (Router_Directory router_update) router_start = router_listed"
  by (simp add: install_directory_def router_listed_def router_start_def router_update_def router_entry_def
    directory_credentials_of_def accepted_serials_def)

lemma router_steps:
  "router_next env (Router_Attach router_attachment) router_listed = router_attached"
  "route_control router_message router_attached = (Ok (), router_waiting)"
  "receive_control router_peer 7 router_waiting = (Ok (Some 42), router_attached\<lparr>or_control_queues := [(router_peer, [])]\<rparr>)"
proof -
  show "router_next env (Router_Attach router_attachment) router_listed = router_attached"
    by (simp add: install_attachment_def router_listed_def router_start_def router_attachment_def router_attached_def)
  show "route_control router_message router_attached = (Ok (), router_waiting)"
    using router_source_ok
    by (simp add: route_control_def route_checked_def validate_local_destination_def router_enqueue_def queue_of_def
      uncredentialed_def router_message_def)
      (simp add: router_waiting_def router_attached_def router_listed_def router_start_def router_attachment_def
        router_enqueue_def queue_of_def)
  have "validate_control_source router_peer 7 router_waiting = validate_control_source router_peer 7 router_attached"
    by (simp add: validate_control_source_def uncredentialed_def router_waiting_def)
  then show "receive_control router_peer 7 router_waiting = (Ok (Some 42), router_attached\<lparr>or_control_queues := [(router_peer, [])]\<rparr>)"
    using router_source_ok by (simp add: receive_control_def router_waiting_def)
qed

definition router_events :: "(nat, nat) router_event list" where
  "router_events = [Router_Directory router_update, Router_Attach router_attachment, Router_Route router_message]"

lemma router_sample_run:
  assumes "verify_peers env [8] router_update router_mesh None = Ok ()"
  shows "router_run env router_start router_events [Queued router_peer 42] router_waiting"
proof -
  have r1: "router_run env router_start [Router_Directory router_update :: (nat, nat) router_event] [] router_listed"
    using router_run.more [OF router_run.start, of env router_start "Router_Directory router_update"] router_directory_step [OF assms]
    by simp
  have r2: "router_run env router_start [Router_Directory router_update, Router_Attach router_attachment :: (nat, nat) router_event]
      [] router_attached"
    using router_run.more [OF r1, of "Router_Attach router_attachment"] router_steps(1) by simp
  have "router_notes (Router_Route router_message :: (nat, nat) router_event) router_attached = [Queued router_peer 42]"
    using router_steps(2) by (simp add: queued_note_def router_message_def)
  then show ?thesis
    using router_run.more [OF r2, of "Router_Route router_message"] router_steps(2) by (simp add: router_events_def)
qed

lemmas router_env_run = router_sample_run [OF router_env_verifies]

text \<open>
  Revoking a credential that the directory has stopped listing removes the attachment under it and
  leaves its queue: \<open>revoke\<close> chooses the queues by the directory, not by the attachments.
\<close>

lemma revoke_leaves_queue:
  assumes "hm_get (or_directory_credentials r) router_peer = Some [replicate 16 4]"
    and "hm_get (or_control_queues r) router_peer = Some (e # es)" "bmap_ok (or_control_queues r)"
    and "hm_get (or_attachments r) router_peer = Some router_attachment" "bmap_ok (or_attachments r)"
  shows "hm_get (or_attachments (router_revoke router_serial r)) router_peer = None
    \<and> hm_get (or_control_queues (router_revoke router_serial r)) router_peer = Some (e # es)"
  using assms
  by (simp add: router_revoke_def router_maps router_attachment_def) (simp add: router_serial_def replicate_eq_replicate)

theorem router_delivery_witness:
  "subseq (delivered_to router_peer [Queued router_peer 42] @ queue_of router_waiting router_peer)
     (queued_for router_peer [Queued router_peer (42 :: nat)])
   \<and> queue_of router_waiting router_peer = [42]"
  using router_delivery [OF router_new_start router_env_run, where peer = router_peer]
  by (simp add: queue_of_def router_waiting_def)

lemma router_message_routes: "routes router_message router_waiting"
proof -
  have "fst (route_authenticated_control router_message router_waiting) = Ok ()"
    by (simp add: router_waiting_def router_attached_def router_listed_def router_start_def router_attachment_def
        router_message_def route_authenticated_control_def route_checked_def listed_source_def validate_local_destination_def
        uncredentialed_def router_enqueue_def queue_of_def)
  then show ?thesis by (simp add: routes_def)
qed

theorem router_admission_witness:
  "fst (receive_control router_peer 7 router_waiting) = Ok (Some 42) \<and> routes router_message router_waiting
   \<and> (\<exists>a s. attached_at router_waiting router_peer 7 a \<and> lists_peer router_env [8] router_mesh router_events router_peer s)
   \<and> (\<exists>a. attached_at router_waiting (rt_destination router_message) (at_generation a) a)"
proof -
  note all = router_admission [OF router_new_start router_env_run, where peer = router_peer
      and generation = 7 and x = "Some 42" and routed = router_message]
  have ok: "fst (receive_control router_peer 7 router_waiting) = Ok (Some 42)" using router_steps(3) by simp
  then show ?thesis using conjunct1 [OF all] conjunct1 [OF conjunct2 [OF all]] router_message_routes by blast
qed

theorem gate_admission_witness:
  "(gate_step router_env)\<^sup>*\<^sup>* (gate_new (trust_new [1] router_mesh)) (gate_revoke router_serial (gate_new (trust_new [1] router_mesh)))
   \<and> (\<exists>t revoked. cg_trust (gate_revoke router_serial (gate_new (trust_new [1] router_mesh))) = Some t
        \<and> (trust_step router_env)\<^sup>*\<^sup>* (trust_new [1] router_mesh) t
        \<and> cg_revoked (gate_revoke router_serial (gate_new (trust_new [1] router_mesh))) = Some revoked \<and> router_serial \<in> set revoked)"
proof -
  let ?g = "gate_new (trust_new [1] router_mesh)"
  have step: "(gate_step router_env)\<^sup>*\<^sup>* ?g (gate_revoke router_serial ?g)"
    using gate_revoked by (rule r_into_rtranclp)
  show ?thesis
    using gate_admission [OF step] step by (auto simp: gate_revoke_def gate_new_def)
qed

end
