(* ===== verification/PeerRuntime.thy ===== *)
theory PeerRuntime
  imports Prelude
begin

text \<open>
  The lifecycle of a Peer, \<open>peerward-peer-core/src/runtime.rs\<close>: one state machine, fed with the
  events the platform adapters observe, decides which connection phase Linux and Android report.
  The theory models the machine, characterises its phases by the history of events alone, and shows
  that it reports a healthy connection exactly when every proof of it is in.
\<close>

section \<open>Phases, facts and events\<close>

datatype runtime_phase =
    Phase_Stopped | Phase_PermissionRequired | Phase_Starting | Phase_Connecting | Phase_Healthy
  | Phase_Degraded | Phase_Reconnecting | Phase_Stopping | Phase_Failed

record runtime_view =
  rv_sequence :: nat
  rv_phase :: runtime_phase
  rv_rust_runtime_running :: bool
  rv_tun_open :: bool
  rv_packet_pump_running :: bool
  rv_underlay_available :: bool
  rv_primary_relay_authenticated :: bool
  rv_standby_relay_count :: u16
  rv_direct_path_count :: u32
  rv_signed_state_complete :: bool
  rv_signed_state_revision :: nat

datatype runtime_event =
    Reset
  | PermissionRequired
  | StartRequested
  | TunOpened
  | Connecting
  | TransportObserved bool u16 u32 bool nat
  | UnderlayLost
  | UnderlayRestored
  | TransportLost
  | StopRequested
  | Stopped
  | Failed

record runtime =
  ro_view :: runtime_view
  ro_was_authenticated :: bool

definition runtime_default :: runtime where
  "runtime_default =
     \<lparr>ro_view = \<lparr>rv_sequence = 0, rv_phase = Phase_Stopped, rv_rust_runtime_running = False, rv_tun_open = False,
        rv_packet_pump_running = False, rv_underlay_available = False, rv_primary_relay_authenticated = False,
        rv_standby_relay_count = 0, rv_direct_path_count = 0, rv_signed_state_complete = False,
        rv_signed_state_revision = 0\<rparr>,
      ro_was_authenticated = False\<rparr>"

section \<open>Operations\<close>

definition reset_runtime :: "runtime \<Rightarrow> runtime" where
  "reset_runtime r =
     \<lparr>ro_view = (ro_view runtime_default)\<lparr>rv_sequence := rv_sequence (ro_view r)\<rparr>, ro_was_authenticated = False\<rparr>"

definition clear_transport :: "runtime_view \<Rightarrow> runtime_view" where
  "clear_transport v =
     v\<lparr>rv_primary_relay_authenticated := False, rv_standby_relay_count := 0, rv_direct_path_count := 0,
       rv_signed_state_complete := False, rv_signed_state_revision := 0\<rparr>"

definition recompute_health :: "bool \<Rightarrow> runtime_view \<Rightarrow> runtime_view" where
  "recompute_health was_authenticated v =
     v\<lparr>rv_phase :=
        if \<not> rv_tun_open v \<or> \<not> rv_packet_pump_running v \<or> \<not> rv_underlay_available v then
          (if was_authenticated then Phase_Reconnecting else Phase_Connecting)
        else if \<not> rv_primary_relay_authenticated v then Phase_Reconnecting
        else if rv_signed_state_complete v \<and> rv_signed_state_revision v > 0 then Phase_Healthy
        else Phase_Degraded\<rparr>"

definition closed_phase :: "runtime_phase \<Rightarrow> bool" where
  "closed_phase p \<longleftrightarrow> p \<in> {Phase_Stopped, Phase_Stopping, Phase_PermissionRequired, Phase_Failed}"

fun platform_callback :: "runtime_event \<Rightarrow> bool" where
  "platform_callback TunOpened = True"
| "platform_callback Connecting = True"
| "platform_callback (TransportObserved _ _ _ _ _) = True"
| "platform_callback UnderlayLost = True"
| "platform_callback UnderlayRestored = True"
| "platform_callback TransportLost = True"
| "platform_callback _ = False"

fun apply_event :: "runtime \<Rightarrow> runtime_event \<Rightarrow> runtime" where
  "apply_event r Reset = reset_runtime r"
| "apply_event r Stopped = reset_runtime r"
| "apply_event r PermissionRequired =
     (let r' = reset_runtime r in r'\<lparr>ro_view := (ro_view r')\<lparr>rv_phase := Phase_PermissionRequired\<rparr>\<rparr>)"
| "apply_event r StartRequested =
     (let r' = reset_runtime r
      in r'\<lparr>ro_view := (ro_view r')\<lparr>rv_rust_runtime_running := True, rv_phase := Phase_Starting\<rparr>\<rparr>)"
| "apply_event r TunOpened =
     r\<lparr>ro_view := (ro_view r)\<lparr>rv_rust_runtime_running := True, rv_tun_open := True, rv_packet_pump_running := True,
        rv_underlay_available := True,
        rv_phase := if ro_was_authenticated r then Phase_Reconnecting else Phase_Connecting\<rparr>\<rparr>"
| "apply_event r Connecting =
     r\<lparr>ro_view := (ro_view r)\<lparr>rv_rust_runtime_running := True,
        rv_phase := if ro_was_authenticated r then Phase_Reconnecting else Phase_Connecting\<rparr>\<rparr>"
| "apply_event r (TransportObserved primary standby direct complete revision) =
     (let v = (ro_view r)\<lparr>rv_primary_relay_authenticated := primary, rv_standby_relay_count := standby,
          rv_direct_path_count := direct, rv_signed_state_complete := complete,
          rv_signed_state_revision := if complete then revision else 0\<rparr>;
          was = ro_was_authenticated r \<or> primary
      in \<lparr>ro_view = recompute_health was v, ro_was_authenticated = was\<rparr>)"
| "apply_event r UnderlayLost =
     r\<lparr>ro_view := (clear_transport (ro_view r))\<lparr>rv_underlay_available := False, rv_phase := Phase_Reconnecting\<rparr>\<rparr>"
| "apply_event r UnderlayRestored =
     r\<lparr>ro_view := recompute_health (ro_was_authenticated r)
        ((clear_transport (ro_view r))\<lparr>rv_underlay_available := True\<rparr>)\<rparr>"
| "apply_event r TransportLost =
     (let v = clear_transport (ro_view r)
      in r\<lparr>ro_view := v\<lparr>rv_phase := if rv_tun_open v then Phase_Reconnecting else Phase_Connecting\<rparr>\<rparr>)"
| "apply_event r StopRequested = r\<lparr>ro_view := (ro_view r)\<lparr>rv_phase := Phase_Stopping\<rparr>\<rparr>"
| "apply_event r Failed =
     (let r' = reset_runtime r in r'\<lparr>ro_view := (ro_view r')\<lparr>rv_phase := Phase_Failed\<rparr>\<rparr>)"

definition runtime_transition :: "runtime_event \<Rightarrow> runtime \<Rightarrow> runtime" where
  "runtime_transition e r =
     (let r' = r\<lparr>ro_view := (ro_view r)\<lparr>rv_sequence := saturating_add (rv_sequence (ro_view r)) 1\<rparr>\<rparr>
      in if closed_phase (rv_phase (ro_view r')) \<and> platform_callback e then r' else apply_event r' e)"

definition runtime_run :: "runtime_event list \<Rightarrow> runtime \<Rightarrow> runtime" where
  "runtime_run es r = fold runtime_transition es r"

section \<open>The abstract lifecycle\<close>

text \<open>
  Read off the history alone: a session is what follows a start that no closing event ended; the
  tunnel is open once the session opened it; the underlay is up when its last report says so.
\<close>

fun closing_event :: "runtime_event \<Rightarrow> bool" where
  "closing_event Reset = True"
| "closing_event PermissionRequired = True"
| "closing_event StopRequested = True"
| "closing_event Stopped = True"
| "closing_event Failed = True"
| "closing_event _ = False"

fun underlay_event :: "bool \<Rightarrow> runtime_event \<Rightarrow> bool" where
  "underlay_event u TunOpened = True"
| "underlay_event u UnderlayRestored = True"
| "underlay_event u UnderlayLost = False"
| "underlay_event u _ = u"

definition session_of :: "runtime_event list \<Rightarrow> runtime_event list \<Rightarrow> bool" where
  "session_of es session \<longleftrightarrow>
     (\<exists>before. es = before @ StartRequested # session) \<and> list_all platform_callback session"

definition underlay_up :: "runtime_event list \<Rightarrow> bool" where
  "underlay_up session = foldl underlay_event False session"

lemma event_classes:
  "platform_callback e \<longleftrightarrow> \<not> closing_event e \<and> e \<noteq> StartRequested"
  by (cases e) simp_all

lemma underlay_up_snoc: "underlay_up (session @ [e]) = underlay_event (underlay_up session) e"
  by (simp add: underlay_up_def)

lemma underlay_up_iff:
  "underlay_up session \<longleftrightarrow>
    (\<exists>x e y. session = x @ e # y \<and> e \<in> {TunOpened, UnderlayRestored} \<and> UnderlayLost \<notin> set y)" (is "_ \<longleftrightarrow> ?up session")
proof (induction session rule: rev_induct)
  case Nil
  then show ?case by (simp add: underlay_up_def)
next
  case (snoc e session)
  show ?case
  proof (cases "e \<in> {TunOpened, UnderlayRestored}")
    case True
    then have "?up (session @ [e])" by fastforce
    then show ?thesis using True by (auto simp: underlay_up_snoc)
  next
    case False
    have "?up (session @ [e]) \<longleftrightarrow> ?up session \<and> e \<noteq> UnderlayLost"
    proof
      assume "?up (session @ [e])"
      then obtain x f y where p: "session @ [e] = x @ f # y" "f \<in> {TunOpened, UnderlayRestored}" "UnderlayLost \<notin> set y"
        by blast
      then obtain z where "y = z @ [e]" using False by (cases y rule: rev_cases) auto
      then show "?up session \<and> e \<noteq> UnderlayLost" using p by auto
    next
      assume "?up session \<and> e \<noteq> UnderlayLost"
      then obtain x f y where "session = x @ f # y" "f \<in> {TunOpened, UnderlayRestored}" "UnderlayLost \<notin> set y" "e \<noteq> UnderlayLost"
        by blast
      then show "?up (session @ [e])" by (intro exI [of _ x] exI [of _ f] exI [of _ "y @ [e]"]) auto
    qed
    then show ?thesis using snoc.IH False by (cases e) (simp_all add: underlay_up_snoc)
  qed
qed

section \<open>The invariant\<close>

definition at_rest :: "runtime \<Rightarrow> bool" where
  "at_rest r \<longleftrightarrow> (let v = ro_view r in
     v = (ro_view runtime_default)\<lparr>rv_sequence := rv_sequence v, rv_phase := rv_phase v\<rparr> \<and> \<not> ro_was_authenticated r)"

definition runtime_ok :: "runtime \<Rightarrow> bool" where
  "runtime_ok r \<longleftrightarrow> (let v = ro_view r in
     (rv_tun_open v \<longleftrightarrow> rv_packet_pump_running v)
     \<and> (\<not> rv_signed_state_complete v \<longrightarrow> rv_signed_state_revision v = 0)
     \<and> (\<not> closed_phase (rv_phase v) \<longrightarrow> rv_rust_runtime_running v)
     \<and> (rv_phase v \<in> {Phase_Healthy, Phase_Degraded} \<longrightarrow>
          rv_tun_open v \<and> rv_packet_pump_running v \<and> rv_underlay_available v \<and> rv_primary_relay_authenticated v)
     \<and> (rv_phase v = Phase_Healthy \<longrightarrow> rv_signed_state_complete v \<and> rv_signed_state_revision v > 0)
     \<and> (rv_phase v = Phase_Degraded \<longrightarrow> \<not> (rv_signed_state_complete v \<and> rv_signed_state_revision v > 0)))"

definition rest_phase :: "runtime_phase \<Rightarrow> bool" where
  "rest_phase p \<longleftrightarrow> p \<in> {Phase_Stopped, Phase_PermissionRequired, Phase_Failed}"

lemmas runtime_defs = runtime_transition_def reset_runtime_def clear_transport_def recompute_health_def
  runtime_default_def closed_phase_def Let_def

lemma runtime_ok_default: "runtime_ok runtime_default"
  by (simp add: runtime_ok_def runtime_default_def closed_phase_def)

lemma runtime_ok_sequence: "runtime_ok r \<Longrightarrow> runtime_ok (r\<lparr>ro_view := (ro_view r)\<lparr>rv_sequence := n\<rparr>\<rparr>)"
  by (simp add: runtime_ok_def Let_def)

lemma runtime_ok_reset: "closed_phase p \<Longrightarrow> p \<notin> {Phase_Healthy, Phase_Degraded} \<Longrightarrow>
   runtime_ok ((reset_runtime r)\<lparr>ro_view := (ro_view (reset_runtime r))\<lparr>rv_phase := p\<rparr>\<rparr>)"
  "runtime_ok (reset_runtime r)"
  by (simp_all add: runtime_ok_def reset_runtime_def runtime_default_def closed_phase_def)

lemma runtime_ok_recompute:
  assumes "rv_tun_open v \<longleftrightarrow> rv_packet_pump_running v" and "\<not> rv_signed_state_complete v \<longrightarrow> rv_signed_state_revision v = 0"
    and "rv_rust_runtime_running v" and "ro_view r = recompute_health was v"
  shows "runtime_ok r"
  using assms by (simp add: runtime_ok_def recompute_health_def)

text \<open>Every phase but the two that claim a connection, and the closed ones, asks only for the basic facts.\<close>

lemma runtime_ok_waiting:
  assumes "rv_tun_open (ro_view r) \<longleftrightarrow> rv_packet_pump_running (ro_view r)"
    and "\<not> rv_signed_state_complete (ro_view r) \<longrightarrow> rv_signed_state_revision (ro_view r) = 0"
    and "rv_rust_runtime_running (ro_view r) \<or> closed_phase (rv_phase (ro_view r))"
    and "rv_phase (ro_view r) \<noteq> Phase_Healthy" "rv_phase (ro_view r) \<noteq> Phase_Degraded"
  shows "runtime_ok r"
  using assms by (auto simp: runtime_ok_def)

lemma runtime_ok_basic:
  assumes "runtime_ok r"
  shows "rv_tun_open (ro_view r) = rv_packet_pump_running (ro_view r)"
    and "\<not> rv_signed_state_complete (ro_view r) \<Longrightarrow> rv_signed_state_revision (ro_view r) = 0"
    and "\<not> closed_phase (rv_phase (ro_view r)) \<Longrightarrow> rv_rust_runtime_running (ro_view r)"
  using assms by (simp_all add: runtime_ok_def Let_def)

lemma runtime_ok_claims:
  assumes "runtime_ok r"
  shows "let v = ro_view r in
     (rv_phase v \<in> {Phase_Healthy, Phase_Degraded} \<longrightarrow>
        rv_rust_runtime_running v \<and> rv_tun_open v \<and> rv_packet_pump_running v \<and> rv_underlay_available v
        \<and> rv_primary_relay_authenticated v
        \<and> (rv_phase v = Phase_Healthy \<longleftrightarrow> rv_signed_state_complete v \<and> rv_signed_state_revision v > 0))
     \<and> (\<not> rv_signed_state_complete v \<longrightarrow> rv_signed_state_revision v = 0)
     \<and> (rv_phase v \<notin> {Phase_Stopped, Phase_Stopping, Phase_PermissionRequired, Phase_Failed} \<longrightarrow> rv_rust_runtime_running v)"
  using assms by (cases "rv_phase (ro_view r)") (simp_all add: runtime_ok_def Let_def closed_phase_def)

lemma runtime_ok_apply:
  assumes "runtime_ok r" and "\<not> (closed_phase (rv_phase (ro_view r)) \<and> platform_callback e)"
  shows "runtime_ok (apply_event r e)"
proof (cases e)
  case (TransportObserved primary standby direct complete revision)
  then show ?thesis using runtime_ok_basic [OF assms(1)] assms(2)
    by (intro runtime_ok_recompute [where was = "ro_was_authenticated r \<or> primary" and v = "(ro_view r)\<lparr>rv_primary_relay_authenticated := primary,
        rv_standby_relay_count := standby, rv_direct_path_count := direct, rv_signed_state_complete := complete,
        rv_signed_state_revision := if complete then revision else 0\<rparr>"]) (simp_all add: Let_def)
next
  case UnderlayRestored
  then show ?thesis using runtime_ok_basic [OF assms(1)] assms(2)
    by (intro runtime_ok_recompute [where was = "ro_was_authenticated r" and v = "(clear_transport (ro_view r))\<lparr>rv_underlay_available := True\<rparr>"])
      (simp_all add: clear_transport_def)
next
  case UnderlayLost
  then show ?thesis using runtime_ok_basic [OF assms(1)] assms(2)
    by (intro runtime_ok_waiting) (simp_all add: clear_transport_def)
next
  case TransportLost
  then show ?thesis using runtime_ok_basic [OF assms(1)] assms(2)
    by (intro runtime_ok_waiting) (simp_all add: clear_transport_def Let_def)
next
  case TunOpened
  then show ?thesis using runtime_ok_basic [OF assms(1)] by (intro runtime_ok_waiting) simp_all
next
  case Connecting
  then show ?thesis using runtime_ok_basic [OF assms(1)] by (intro runtime_ok_waiting) simp_all
next
  case StopRequested
  then show ?thesis using runtime_ok_basic [OF assms(1)] by (intro runtime_ok_waiting) (simp_all add: closed_phase_def)
next
  case StartRequested
  then show ?thesis
    by (intro runtime_ok_waiting) (simp_all add: reset_runtime_def runtime_default_def Let_def)
qed (simp_all add: runtime_ok_reset closed_phase_def Let_def)

lemma runtime_ok_transition:
  assumes "runtime_ok r"
  shows "runtime_ok (runtime_transition e r)"
  using runtime_ok_sequence [OF assms] by (auto simp: runtime_transition_def Let_def intro: runtime_ok_apply)

text \<open>A runtime enters a phase of rest only by a reset, and leaves it only by an event that is none of the callbacks.\<close>

lemma at_rest_reset: "at_rest ((reset_runtime r)\<lparr>ro_view := (ro_view (reset_runtime r))\<lparr>rv_phase := p\<rparr>\<rparr>)"
  "at_rest (reset_runtime r)"
  by (simp_all add: at_rest_def reset_runtime_def runtime_default_def)

lemma at_rest_sequence: "at_rest r \<Longrightarrow> at_rest (r\<lparr>ro_view := (ro_view r)\<lparr>rv_sequence := n\<rparr>\<rparr>)"
  by (cases r; cases "ro_view r") (simp add: at_rest_def runtime_default_def)

lemma at_rest_transition:
  assumes "rest_phase (rv_phase (ro_view r)) \<Longrightarrow> at_rest r" and "rest_phase (rv_phase (ro_view (runtime_transition e r)))"
  shows "at_rest (runtime_transition e r)"
proof (cases "closed_phase (rv_phase (ro_view r)) \<and> platform_callback e")
  case True
  then show ?thesis using assms by (simp add: runtime_transition_def at_rest_sequence)
next
  case False
  have "runtime_transition e r = apply_event (r\<lparr>ro_view := (ro_view r)\<lparr>rv_sequence := saturating_add (rv_sequence (ro_view r)) 1\<rparr>\<rparr>) e"
    using False by (auto simp: runtime_transition_def Let_def)
  then show ?thesis using assms(2)
    by (cases e) (simp_all add: at_rest_reset Let_def rest_phase_def clear_transport_def recompute_health_def split: if_split_asm)
qed

lemma runtime_run_append: "runtime_run (es @ [e]) r = runtime_transition e (runtime_run es r)"
  by (simp add: runtime_run_def)

lemma runtime_run_Nil: "runtime_run [] r = r"
  by (simp add: runtime_run_def)

lemma runtime_ok_run: "runtime_ok (runtime_run es runtime_default)"
  by (induction es rule: rev_induct)
    (simp_all add: runtime_run_append runtime_run_Nil runtime_ok_transition runtime_ok_default)

lemma at_rest_run:
  "rest_phase (rv_phase (ro_view (runtime_run es runtime_default))) \<Longrightarrow> at_rest (runtime_run es runtime_default)"
proof (induction es rule: rev_induct)
  case Nil
  then show ?case by (simp add: runtime_run_Nil at_rest_def runtime_default_def)
next
  case (snoc e es)
  show ?case using at_rest_transition [OF snoc.IH] snoc.prems by (simp add: runtime_run_append)
qed

lemma sequence_transition:
  "rv_sequence (ro_view (runtime_transition e r)) = saturating_add (rv_sequence (ro_view r)) 1"
  by (cases e) (simp_all add: runtime_defs)

lemma sequence_run: "rv_sequence (ro_view (runtime_run es runtime_default)) = min (length es) u64_max"
proof (induction es rule: rev_induct)
  case Nil
  then show ?case by (simp add: runtime_run_Nil runtime_default_def)
next
  case (snoc e es)
  then show ?case by (simp add: runtime_run_append sequence_transition saturating_add_def)
qed

section \<open>What a history determines\<close>

lemma closed_transition:
  "closed_phase (rv_phase (ro_view r)) \<Longrightarrow> e \<noteq> StartRequested \<Longrightarrow>
   closed_phase (rv_phase (ro_view (runtime_transition e r)))"
  by (cases e) (auto simp: runtime_defs)

lemma closed_run:
  "closed_phase (rv_phase (ro_view r)) \<Longrightarrow> StartRequested \<notin> set es \<Longrightarrow>
   closed_phase (rv_phase (ro_view (runtime_run es r)))"
  by (induction es rule: rev_induct) (auto simp: runtime_run_append runtime_run_Nil intro: closed_transition)

lemma open_transition:
  "closed_phase (rv_phase (ro_view (runtime_transition e r))) \<longleftrightarrow>
    closing_event e \<or> closed_phase (rv_phase (ro_view r)) \<and> e \<noteq> StartRequested"
  by (cases e) (auto simp: runtime_defs)

text \<open>An open runtime is in the session of its last start, and knows its tunnel and underlay.\<close>

lemma open_iff_session:
  "\<not> closed_phase (rv_phase (ro_view (runtime_run es runtime_default))) \<longleftrightarrow> (\<exists>session. session_of es session)"
proof (induction es rule: rev_induct)
  case Nil
  then show ?case by (simp add: runtime_run_Nil session_of_def runtime_default_def closed_phase_def)
next
  case (snoc e es)
  have "(\<exists>session. session_of (es @ [e]) session) \<longleftrightarrow>
      e = StartRequested \<or> platform_callback e \<and> (\<exists>session. session_of es session)" (is "?l \<longleftrightarrow> ?r")
  proof
    assume ?l
    then obtain before session where s: "es @ [e] = before @ StartRequested # session" "list_all platform_callback session"
      unfolding session_of_def by blast
    show ?r
    proof (cases session rule: rev_cases)
      case Nil
      then show ?thesis using s by simp
    next
      case (snoc ys y)
      then show ?thesis using s by (auto simp: session_of_def)
    qed
  next
    assume ?r
    then show ?l
    proof (elim disjE conjE exE)
      assume "e = StartRequested"
      then show ?l by (auto simp: session_of_def intro: exI [of _ "[]"])
    next
      fix session
      assume "platform_callback e" "session_of es session"
      then show ?l by (intro exI [of _ "session @ [e]"]) (auto simp: session_of_def)
    qed
  qed
  then show ?case using snoc.IH by (auto simp: runtime_run_append open_transition event_classes)
qed

lemma session_facts:
  assumes "session_of es session"
  shows "let v = ro_view (runtime_run es runtime_default) in
    (rv_tun_open v \<longleftrightarrow> TunOpened \<in> set session) \<and> (rv_underlay_available v \<longleftrightarrow> underlay_up session)"
  using assms
proof (induction session arbitrary: es rule: rev_induct)
  case Nil
  then obtain before where "es = before @ [StartRequested]" by (auto simp: session_of_def)
  then show ?case by (simp add: runtime_run_append underlay_up_def runtime_defs)
next
  case (snoc e session)
  then obtain fs where es: "es = fs @ [e]" and fs: "session_of fs session" and e: "platform_callback e"
    by (auto simp: session_of_def)
  have "\<not> closed_phase (rv_phase (ro_view (runtime_run fs runtime_default)))" using fs open_iff_session by blast
  then show ?case using snoc.IH [OF fs] e es
    by (cases e) (auto simp: runtime_run_append underlay_up_snoc runtime_transition_def reset_runtime_def
        clear_transport_def recompute_health_def Let_def)
qed

lemma healthy_step:
  "rv_phase (ro_view (runtime_transition e r)) = Phase_Healthy \<longleftrightarrow>
    (\<exists>s d n. e = TransportObserved True s d True n \<and> n > 0 \<and> \<not> closed_phase (rv_phase (ro_view r))
       \<and> rv_tun_open (ro_view r) \<and> rv_packet_pump_running (ro_view r) \<and> rv_underlay_available (ro_view r))"
  by (cases e) (auto simp: runtime_transition_def reset_runtime_def clear_transport_def recompute_health_def
      runtime_default_def Let_def closed_phase_def)

text \<open>What late callbacks leave: everything but the sequence number.\<close>

lemma late_run:
  assumes "closed_phase (rv_phase (ro_view r))" and "list_all platform_callback es"
    and "rv_sequence (ro_view r) \<le> u64_max"
  shows "runtime_run es r =
    r\<lparr>ro_view := (ro_view r)\<lparr>rv_sequence := min (rv_sequence (ro_view r) + length es) u64_max\<rparr>\<rparr>"
  using assms(2)
proof (induction es rule: rev_induct)
  case Nil
  then show ?case using assms(3) by (simp add: runtime_run_Nil)
next
  case (snoc e es)
  then show ?case using assms(1) by (simp add: runtime_run_append runtime_transition_def saturating_add_def min_def)
qed

section \<open>Properties\<close>

text \<open>The reported connection is truthful.  After any events, a Peer that is reported healthy has its tunnel and
  packet pump open, the underlay available, an authenticated primary Relay and a complete signed
  state at a positive revision, and a degraded one has all but the last; an incomplete signed state
  never shows a revision; a stopped, failed or unauthorised runtime shows no running part, no path
  and no revision; an open runtime is running; and the sequence number counts the events, saturating.
\<close>

theorem reported_phase_truthful:
  "let r = runtime_run es runtime_default; v = ro_view r in
     rv_sequence v = min (length es) u64_max
     \<and> (rv_phase v \<in> {Phase_Healthy, Phase_Degraded} \<longrightarrow>
          rv_rust_runtime_running v \<and> rv_tun_open v \<and> rv_packet_pump_running v \<and> rv_underlay_available v
          \<and> rv_primary_relay_authenticated v
          \<and> (rv_phase v = Phase_Healthy \<longleftrightarrow> rv_signed_state_complete v \<and> rv_signed_state_revision v > 0))
     \<and> (\<not> rv_signed_state_complete v \<longrightarrow> rv_signed_state_revision v = 0)
     \<and> (rv_phase v \<in> {Phase_Stopped, Phase_PermissionRequired, Phase_Failed} \<longrightarrow>
          v = (ro_view runtime_default)\<lparr>rv_sequence := rv_sequence v, rv_phase := rv_phase v\<rparr>)
     \<and> (rv_phase v \<notin> {Phase_Stopped, Phase_Stopping, Phase_PermissionRequired, Phase_Failed} \<longrightarrow> rv_rust_runtime_running v)"
proof -
  let ?v = "ro_view (runtime_run es runtime_default)"
  have rest: "?v = (ro_view runtime_default)\<lparr>rv_sequence := rv_sequence ?v, rv_phase := rv_phase ?v\<rparr>"
    if "rv_phase ?v \<in> {Phase_Stopped, Phase_PermissionRequired, Phase_Failed}"
    using at_rest_run [of es] that unfolding at_rest_def Let_def rest_phase_def by blast
  show ?thesis
    unfolding Let_def
    using sequence_run [of es] rest runtime_ok_claims [OF runtime_ok_run [of es], unfolded Let_def] by blast
qed

theorem reported_phase_truthful_witness:
  "let v = ro_view (runtime_run [StartRequested, TunOpened, TransportObserved True 1 2 True 7] runtime_default)
   in rv_phase v = Phase_Healthy \<and> rv_tun_open v \<and> rv_underlay_available v \<and> rv_sequence v = 3"
proof -
  let ?es = "[StartRequested, TunOpened, TransportObserved True 1 2 True 7]"
  have "rv_phase (ro_view (runtime_run ?es runtime_default)) = Phase_Healthy"
    by (simp add: runtime_run_def runtime_defs)
  then show ?thesis using reported_phase_truthful [of ?es] by (simp add: Let_def u64_max_def)
qed

text \<open>(C18) When a Peer is healthy, from the history alone.  The runtime reports a healthy connection exactly when the
  last event observed an authenticated primary Relay with a complete signed state at a positive
  revision, and it came in a session: after a start that nothing has closed since, in which the tunnel
  was opened and the last report on the underlay is not a loss.  So after a stop, a failure or a
  lost permission no callback brings the connection back without a new start, and after a loss of
  the underlay or the transport it takes a new observation.
\<close>

theorem healthy_exactly:
  "rv_phase (ro_view (runtime_run es runtime_default)) = Phase_Healthy \<longleftrightarrow>
    (\<exists>before session s d n.
       es = before @ StartRequested # session @ [TransportObserved True s d True n] \<and> n > 0
       \<and> (\<forall>e\<in>set session. platform_callback e) \<and> TunOpened \<in> set session
       \<and> (\<exists>x e y. session = x @ e # y \<and> e \<in> {TunOpened, UnderlayRestored} \<and> UnderlayLost \<notin> set y))"
proof (cases es rule: rev_cases)
  case Nil
  then show ?thesis by (simp add: runtime_run_Nil runtime_default_def)
next
  case (snoc pre e)
  let ?r = "runtime_run pre runtime_default"
  have pump: "rv_tun_open (ro_view ?r) \<longleftrightarrow> rv_packet_pump_running (ro_view ?r)"
    using runtime_ok_run [of pre] by (simp add: runtime_ok_def Let_def)
  have facts: "(rv_tun_open (ro_view ?r) \<longleftrightarrow> TunOpened \<in> set s) \<and> (rv_underlay_available (ro_view ?r) \<longleftrightarrow> underlay_up s)"
    if "session_of pre s" for s using session_facts [OF that] by (simp add: Let_def)
  have "rv_phase (ro_view (runtime_run es runtime_default)) = Phase_Healthy \<longleftrightarrow>
      (\<exists>s d n. e = TransportObserved True s d True n \<and> n > 0)
      \<and> (\<exists>session. session_of pre session \<and> TunOpened \<in> set session \<and> underlay_up session)"
    unfolding snoc runtime_run_append healthy_step open_iff_session using pump facts by blast
  also have "\<dots> \<longleftrightarrow>
      (\<exists>before session s d n. es = before @ StartRequested # session @ [TransportObserved True s d True n] \<and> n > 0
         \<and> (\<forall>e\<in>set session. platform_callback e) \<and> TunOpened \<in> set session \<and> underlay_up session)"
    unfolding snoc session_of_def list_all_iff by (simp only: append_Cons [symmetric] append_assoc [symmetric] append1_eq_conv) blast
  finally show ?thesis unfolding underlay_up_iff .
qed

theorem healthy_exactly_witness:
  "rv_phase (ro_view (runtime_run [StartRequested, TunOpened, UnderlayLost, UnderlayRestored, TransportObserved True 0 0 True 7]
     runtime_default)) = Phase_Healthy"
  by (rule iffD2 [OF healthy_exactly], rule exI [of _ "[]"],
      rule exI [of _ "[TunOpened, UnderlayLost, UnderlayRestored]"])
    (auto intro!: exI [of _ "[TunOpened, UnderlayLost]"])

text \<open>Late callbacks are inert.  Once a runtime is stopped, stopping, failed or without permission, any
  number of platform callbacks changes nothing but the sequence number, and whatever happens short
  of a start, the runtime stays closed.
\<close>

theorem late_callbacks_inert:
  assumes "closed_phase (rv_phase (ro_view (runtime_run es runtime_default)))"
  shows "(list_all platform_callback late \<longrightarrow>
      runtime_run late (runtime_run es runtime_default) =
      (runtime_run es runtime_default)\<lparr>ro_view := (ro_view (runtime_run es runtime_default))
         \<lparr>rv_sequence := min (length es + length late) u64_max\<rparr>\<rparr>)
    \<and> (StartRequested \<notin> set later \<longrightarrow>
      closed_phase (rv_phase (ro_view (runtime_run later (runtime_run es runtime_default)))))"
  using late_run [OF assms, of late] closed_run [OF assms, of later] by (simp add: sequence_run min_def)

theorem late_callbacks_inert_witness:
  "rv_phase (ro_view (runtime_run [TunOpened, TransportObserved True 1 2 True 8]
     (runtime_run [StartRequested, TunOpened, Failed] runtime_default))) = Phase_Failed"
proof -
  let ?r = "runtime_run [StartRequested, TunOpened, Failed] runtime_default"
  have failed: "rv_phase (ro_view ?r) = Phase_Failed" by (simp add: runtime_run_def runtime_defs)
  have "runtime_run [TunOpened, TransportObserved True 1 2 True 8] ?r =
      ?r\<lparr>ro_view := (ro_view ?r)\<lparr>rv_sequence := min (length [StartRequested, TunOpened, Failed] + length [TunOpened, TransportObserved True 1 2 True 8]) u64_max\<rparr>\<rparr>"
    by (rule late_callbacks_inert [THEN conjunct1, THEN mp]) (simp_all add: failed closed_phase_def)
  then show ?thesis using failed by simp
qed

text \<open>A new start always reaches a healthy connection, from whatever state.\<close>

lemma restart_reaches_healthy:
  "n > 0 \<Longrightarrow> rv_phase (ro_view (runtime_run [StartRequested, TunOpened, TransportObserved True s d True n] r)) = Phase_Healthy"
  by (simp add: runtime_run_def runtime_defs)

end
