(* ===== verification/Coordination.thy ===== *)
theory Coordination
  imports Packet
begin

text \<open>
  Coordination between Peers, \<open>peerward-peer-core/src/coordination.rs\<close>: messages that exchange
  endpoint candidates and probe paths, carried as UDP datagrams inside the authenticated tunnel.  The
  theory models the message codec, the rules for candidates, and the IP packets built around a
  message; it shows the codec canonical and the packets accepted, with their message, by the same IP
  parser that filters tunnel traffic.  The version of a UUID, read by the \<open>uuid\<close> crate, is the
  parameter \<open>version\<close>.
\<close>

section \<open>Messages\<close>

datatype peer_error = InvalidPacket | PolicyDenied | QueueFull | NoRoute

definition COORDINATION_PORT :: u16 where "COORDINATION_PORT = 51821"
definition MAX_CANDIDATES :: nat where "MAX_CANDIDATES = 32"
definition COORDINATION_HEADER :: nat where "COORDINATION_HEADER = 28"
definition MAX_PROBE_PADDING :: u16 where "MAX_PROBE_PADDING = 9000"

text \<open>\<open>SocketAddr\<close>: address and port, and for IPv6 the flow information and the scope.\<close>

datatype socket_addr = Socket_V4 bytes u16 | Socket_V6 bytes u16 u32 u32

fun socket_ip :: "socket_addr \<Rightarrow> ip_addr" where
  "socket_ip (Socket_V4 ip _) = V4 ip"
| "socket_ip (Socket_V6 ip _ _ _) = V6 ip"

fun socket_port :: "socket_addr \<Rightarrow> u16" where
  "socket_port (Socket_V4 _ port) = port"
| "socket_port (Socket_V6 _ port _ _) = port"

text \<open>\<open>SocketAddr::new\<close> leaves flow information and scope zero.\<close>

fun socket_new :: "ip_addr \<Rightarrow> u16 \<Rightarrow> socket_addr" where
  "socket_new (V4 ip) port = Socket_V4 ip port"
| "socket_new (V6 ip) port = Socket_V6 ip port 0 0"

datatype message =
    Candidates "socket_addr list"
  | CandidatesAck
  | Probe
  | ProbeAck
  | MtuProbe u16
  | GatewayProbe uuid
  | GatewayAck uuid bool

record coordination =
  co_generation :: nat
  co_transaction :: bytes
  co_message :: message

section \<open>Candidates\<close>

text \<open>The address classes of \<open>std::net\<close>.\<close>

fun is_unspecified :: "ip_addr \<Rightarrow> bool" where
  "is_unspecified (V4 ip) = (ip = replicate 4 0)"
| "is_unspecified (V6 ip) = (ip = replicate 16 0)"

fun is_loopback :: "ip_addr \<Rightarrow> bool" where
  "is_loopback (V4 ip) = (ip ! 0 = 127)"
| "is_loopback (V6 ip) = (ip = replicate 15 0 @ [1])"

fun is_multicast :: "ip_addr \<Rightarrow> bool" where
  "is_multicast (V4 ip) = (224 \<le> ip ! 0 \<and> ip ! 0 \<le> 239)"
| "is_multicast (V6 ip) = (ip ! 0 = 255)"

definition is_broadcast :: "bytes \<Rightarrow> bool" where
  "is_broadcast ip = (ip = replicate 4 255)"

definition is_unicast_link_local :: "bytes \<Rightarrow> bool" where
  "is_unicast_link_local ip = (ip ! 0 = 0xfe \<and> ip ! 1 AND 0xc0 = 0x80)"

definition valid_endpoint :: "socket_addr \<Rightarrow> bool" where
  "valid_endpoint endpoint \<longleftrightarrow>
     socket_port endpoint \<noteq> 0 \<and> \<not> is_unspecified (socket_ip endpoint) \<and> \<not> is_loopback (socket_ip endpoint)
     \<and> \<not> is_multicast (socket_ip endpoint)
     \<and> (case endpoint of
          Socket_V4 ip _ \<Rightarrow> \<not> is_broadcast ip
        | Socket_V6 ip _ _ scope \<Rightarrow> \<not> is_unicast_link_local ip \<and> scope = 0)"

fun any_rejected :: "socket_addr list \<Rightarrow> socket_addr list \<Rightarrow> bool" where
  "any_rejected unique [] = False"
| "any_rejected unique (c # cs) =
     (if \<not> valid_endpoint c \<or> c \<in> set unique then True else any_rejected (c # unique) cs)"

definition validate_candidates :: "socket_addr list \<Rightarrow> (unit, peer_error) outcome" where
  "validate_candidates candidates =
     (if length candidates > MAX_CANDIDATES \<or> any_rejected [] candidates then Err InvalidPacket else Ok ())"

fun filter_unique :: "socket_addr list \<Rightarrow> socket_addr list \<Rightarrow> socket_addr list" where
  "filter_unique unique [] = []"
| "filter_unique unique (e # es) =
     (if valid_endpoint e \<and> e \<notin> set unique then e # filter_unique (e # unique) es else filter_unique unique es)"

definition filter_wireguard_candidates :: "socket_addr list \<Rightarrow> socket_addr list" where
  "filter_wireguard_candidates endpoints = take MAX_CANDIDATES (filter_unique [] endpoints)"

section \<open>The message codec\<close>

fun message_kind :: "message \<Rightarrow> u8" where
  "message_kind (Candidates _) = 1"
| "message_kind CandidatesAck = 2"
| "message_kind Probe = 3"
| "message_kind ProbeAck = 4"
| "message_kind (MtuProbe _) = 5"
| "message_kind (GatewayProbe _) = 6"
| "message_kind (GatewayAck _ _) = 7"

definition encode_endpoint :: "socket_addr \<Rightarrow> bytes" where
  "encode_endpoint endpoint =
     (case socket_ip endpoint of V4 ip \<Rightarrow> 4 # ip | V6 ip \<Rightarrow> 6 # ip) @ to_be 2 (unat (socket_port endpoint))"

text \<open>\<open>Vec::resize\<close> with zeros.\<close>

definition resize :: "bytes \<Rightarrow> nat \<Rightarrow> bytes" where
  "resize bs n = take n bs @ replicate (n - length bs) 0"

definition coordination_encode :: "(uuid \<Rightarrow> nat) \<Rightarrow> coordination \<Rightarrow> (bytes, peer_error) outcome" where
  "coordination_encode version c =
     (let bytes = [1, message_kind (co_message c), 0, 0] @ to_be 8 (co_generation c) @ co_transaction c in
      and_then
        (case co_message c of
           GatewayProbe gateway \<Rightarrow>
             if version gateway \<noteq> 4 \<or> co_generation c = 0 then Err InvalidPacket else Ok (bytes @ gateway)
         | GatewayAck gateway ready \<Rightarrow>
             if version gateway \<noteq> 4 \<or> co_generation c = 0 then Err InvalidPacket
             else Ok (bytes @ gateway @ [if ready then 1 else 0])
         | _ \<Rightarrow> Ok bytes) (\<lambda>bytes.
      and_then
        (case co_message c of
           Candidates candidates \<Rightarrow>
             and_then (validate_candidates candidates) (\<lambda>_.
             if length candidates > 255 then Err InvalidPacket
             else Ok (bytes @ [word_of_nat (length candidates)] @ concat (map encode_endpoint candidates)))
         | _ \<Rightarrow> Ok bytes) (\<lambda>bytes.
      case co_message c of
        MtuProbe padding \<Rightarrow>
          if padding = 0 \<or> padding > MAX_PROBE_PADDING then Err InvalidPacket
          else Ok (resize bytes (COORDINATION_HEADER + unat padding))
      | _ \<Rightarrow> Ok bytes)))"

definition take_bytes :: "nat \<Rightarrow> bytes \<Rightarrow> (bytes \<times> bytes, peer_error) outcome" where
  "take_bytes n bs = (if n \<le> length bs then Ok (take n bs, drop n bs) else Err InvalidPacket)"

fun decode_candidates :: "nat \<Rightarrow> bytes \<Rightarrow> (socket_addr list \<times> bytes, peer_error) outcome" where
  "decode_candidates 0 body = Ok ([], body)"
| "decode_candidates (Suc n) body =
     and_then (take_bytes 1 body) (\<lambda>(family, body).
     and_then
       (if family = [4] then and_then (take_bytes 4 body) (\<lambda>(ip, body). Ok (V4 ip, body))
        else if family = [6] then and_then (take_bytes 16 body) (\<lambda>(ip, body). Ok (V6 ip, body))
        else Err InvalidPacket) (\<lambda>(ip, body).
     and_then (take_bytes 2 body) (\<lambda>(port, body).
     and_then (decode_candidates n body) (\<lambda>(candidates, body).
       Ok (socket_new ip (word_of_nat (of_be port)) # candidates, body)))))"

definition decode_gateway :: "(uuid \<Rightarrow> nat) \<Rightarrow> u8 \<Rightarrow> nat \<Rightarrow> bytes \<Rightarrow> (message \<times> bytes, peer_error) outcome" where
  "decode_gateway version kind generation body =
     and_then (take_bytes 16 body) (\<lambda>(gateway, body).
     if version gateway \<noteq> 4 \<or> generation = 0 then Err InvalidPacket
     else if kind = 6 then Ok (GatewayProbe gateway, body)
     else and_then (take_bytes 1 body) (\<lambda>(flag, body).
       if flag = [0] then Ok (GatewayAck gateway False, body)
       else if flag = [1] then Ok (GatewayAck gateway True, body)
       else Err InvalidPacket))"

definition decode_message :: "(uuid \<Rightarrow> nat) \<Rightarrow> u8 \<Rightarrow> nat \<Rightarrow> bytes \<Rightarrow> (message \<times> bytes, peer_error) outcome" where
  "decode_message version kind generation body =
     (if kind = 1 then
        (case body of
           [] \<Rightarrow> Err InvalidPacket
         | n # body \<Rightarrow>
             if unat n > MAX_CANDIDATES then Err InvalidPacket
             else and_then (decode_candidates (unat n) body) (\<lambda>(candidates, body).
               and_then (validate_candidates candidates) (\<lambda>_. Ok (Candidates candidates, body))))
      else if kind = 2 then Ok (CandidatesAck, body)
      else if kind = 3 then Ok (Probe, body)
      else if kind = 4 then Ok (ProbeAck, body)
      else if kind = 6 \<or> kind = 7 then decode_gateway version kind generation body
      else if kind = 5 \<and> body \<noteq> [] \<and> list_all (\<lambda>b. b = 0) body then
        (if length body > 65535 then Err InvalidPacket else Ok (MtuProbe (word_of_nat (length body)), []))
      else Err InvalidPacket)"

definition coordination_decode :: "(uuid \<Rightarrow> nat) \<Rightarrow> bytes \<Rightarrow> (coordination, peer_error) outcome" where
  "coordination_decode version bs =
     (if length bs < COORDINATION_HEADER \<or> length bs > COORDINATION_HEADER + unat MAX_PROBE_PADDING
      then Err InvalidPacket
      else byte_at bs 0 (\<lambda>b0. slice_at bs 2 4 (\<lambda>reserved.
        if b0 \<noteq> 1 \<or> reserved \<noteq> [0, 0] then Err InvalidPacket
        else slice_at bs 4 12 (\<lambda>generation. slice_at bs 12 28 (\<lambda>transaction.
          slice_from bs COORDINATION_HEADER (\<lambda>body. byte_at bs 1 (\<lambda>kind.
          and_then (decode_message version kind (of_be generation) body) (\<lambda>(message, body).
            if body \<noteq> [] then Err InvalidPacket
            else Ok \<lparr>co_generation = of_be generation, co_transaction = transaction, co_message = message\<rparr>)))))))) "

section \<open>Packets\<close>

text \<open>
  \<open>checksum\<close>: the sum of the big-endian 16-bit words, whose overflow panics, folded into sixteen
  bits and complemented.
\<close>

fun checksum_chunks :: "bytes \<Rightarrow> u16 list" where
  "checksum_chunks (a # b # rest) = be16 a b # checksum_chunks rest"
| "checksum_chunks [a] = [be16 a 0]"
| "checksum_chunks [] = []"

definition coordination_checksum :: "bytes \<Rightarrow> (u16, peer_error) outcome" where
  "coordination_checksum bs =
     (let acc = sum_list (map unat (checksum_chunks bs)) in
      if 2 ^ 32 \<le> acc then Abort
      else let folded = fold_sum (word_of_nat acc) in
        if folded > 65535 then Abort else Ok (NOT (ucast folded)))"

definition decode_ip :: "(uuid \<Rightarrow> nat) \<Rightarrow> bytes \<Rightarrow> (coordination, peer_error) outcome" where
  "decode_ip version packet =
     and_then (map_err InvalidPacket (parse_packet packet)) (\<lambda>parsed.
     and_then
       (if get_byte packet 0 = Some 0x45 then Ok 20
        else if get_byte packet 0 = Some 0x60 \<and> get_byte packet 6 = Some 17 then Ok 40
        else Err InvalidPacket) (\<lambda>header.
     if pk_protocol parsed \<noteq> 17 \<or> pk_source_port parsed \<noteq> Some COORDINATION_PORT
       \<or> pk_destination_port parsed \<noteq> Some COORDINATION_PORT \<or> pk_fragment parsed \<noteq> None
     then Err InvalidPacket
     else and_then (ok_or InvalidPacket (get_from packet (header + 8))) (coordination_decode version)))"

definition udp_datagram :: "nat \<Rightarrow> bytes \<Rightarrow> bytes" where
  "udp_datagram udp_len body =
     to_be 2 (unat COORDINATION_PORT) @ to_be 2 (unat COORDINATION_PORT) @ to_be 2 udp_len @ [0, 0] @ body"

definition ipv4_header :: "bytes \<Rightarrow> bytes \<Rightarrow> nat \<Rightarrow> (bytes, peer_error) outcome" where
  "ipv4_header source destination udp_len =
     (if udp_len + 20 > 65535 then Abort
      else let header = (replicate 20 0)[0 := 0x45, 8 := 64, 9 := 17];
               header = splice header 2 (to_be 2 (udp_len + 20));
               header = splice header 12 source;
               header = splice header 16 destination
           in and_then (coordination_checksum header) (\<lambda>checksum.
                Ok (splice header 10 (to_be 2 (unat checksum)))))"

definition ipv6_header :: "bytes \<Rightarrow> bytes \<Rightarrow> nat \<Rightarrow> bytes" where
  "ipv6_header source destination udp_len =
     (let header = (replicate 40 0)[0 := 0x60, 6 := 17, 7 := 64];
          header = splice header 4 (to_be 2 udp_len);
          header = splice header 8 source
      in splice header 24 destination)"

text \<open>The part of \<open>encode_ip\<close> that depends on the family: the IP header and the pseudo header.\<close>

definition headers_of :: "ip_addr \<Rightarrow> ip_addr \<Rightarrow> nat \<Rightarrow> (bytes \<times> bytes, peer_error) outcome" where
  "headers_of source destination udp_len =
     (case (source, destination) of
        (V4 s, V4 d) \<Rightarrow>
          and_then (ipv4_header s d udp_len) (\<lambda>header.
            Ok (header, take 8 (drop 12 header) @ [0, 17] @ to_be 2 udp_len))
      | (V6 s, V6 d) \<Rightarrow>
          (let header = ipv6_header s d udp_len
           in Ok (header, take 32 (drop 8 header) @ to_be 4 udp_len @ [0, 0, 0, 17]))
      | _ \<Rightarrow> Err NoRoute)"

definition encode_ip :: "(uuid \<Rightarrow> nat) \<Rightarrow> ip_addr \<Rightarrow> ip_addr \<Rightarrow> coordination \<Rightarrow> (bytes, peer_error) outcome" where
  "encode_ip version source destination c =
     and_then (coordination_encode version c) (\<lambda>body.
     if length body + 8 > 65535 then Err InvalidPacket
     else let udp_len = length body + 8 in
       and_then (headers_of source destination udp_len) (\<lambda>(packet, pseudo).
       let udp = udp_datagram udp_len body in
       and_then (coordination_checksum (pseudo @ udp)) (\<lambda>checksum.
         Ok (packet @ splice udp 6 (to_be 2 (unat (if checksum = 0 then 0xffff else checksum)))))))"

section \<open>Facts about candidates\<close>

lemmas coordination_sizes = MAX_CANDIDATES_def COORDINATION_HEADER_def MAX_PROBE_PADDING_def

lemma any_rejected_iff:
  "any_rejected unique cs \<longleftrightarrow> \<not> (list_all valid_endpoint cs \<and> distinct cs \<and> set cs \<inter> set unique = {})"
  by (induction cs arbitrary: unique) auto

lemma validate_candidates_iff:
  "validate_candidates cs = Ok u \<longleftrightarrow> length cs \<le> MAX_CANDIDATES \<and> list_all valid_endpoint cs \<and> distinct cs"
  by (auto simp: validate_candidates_def any_rejected_iff)

lemma validate_candidates_not_Abort [simp]: "validate_candidates cs \<noteq> Abort"
  by (simp add: validate_candidates_def)

lemma filter_unique_facts:
  "set (filter_unique unique es) = {e \<in> set es. valid_endpoint e} - set unique
   \<and> distinct (filter_unique unique es)"
  by (induction es arbitrary: unique) auto

text \<open>An endpoint as the wire can carry it: octets of its family and no IPv6 extras.\<close>

fun endpoint_formed :: "socket_addr \<Rightarrow> bool" where
  "endpoint_formed (Socket_V4 ip _) = (length ip = 4)"
| "endpoint_formed (Socket_V6 ip _ flow scope) = (length ip = 16 \<and> flow = 0 \<and> scope = 0)"

lemma take_bytes_iff: "take_bytes n bs = Ok (v, rest) \<longleftrightarrow> length v = n \<and> bs = v @ rest"
  by (auto simp: take_bytes_def)

lemma take_bytes_not_Abort [simp]: "take_bytes n bs \<noteq> Abort"
  by (simp add: take_bytes_def)

lemma be2_port: "length port = 2 \<Longrightarrow> to_be 2 (unat (word_of_nat (of_be port) :: u16)) = port"
proof -
  assume l: "length port = 2"
  have "of_be port < 65536" using of_be_less [of port] l by simp
  then have "unat (word_of_nat (of_be port) :: u16) = of_be port" by (simp add: unat_of_nat)
  then show ?thesis using to_be_of_be [of port] l by simp
qed

lemma port_be2: "word_of_nat (of_be (to_be 2 (unat port))) = (port :: u16)"
  using of_be_to_be [of "unat port" 2] unsigned_less [of port, where ?'a = nat] by simp

text \<open>A decoded endpoint is the one whose encoding stood there.\<close>

lemma decode_candidates_Suc_iff:
  "decode_candidates (Suc n) body = Ok (cs, rest) \<longleftrightarrow>
    (\<exists>c ds mid. cs = c # ds \<and> endpoint_formed c \<and> body = encode_endpoint c @ mid \<and> decode_candidates n mid = Ok (ds, rest))"
  (is "?l \<longleftrightarrow> ?r")
proof
  assume ?l
  then obtain family ip port b1 b2 b3 ds where f: "take_bytes 1 body = Ok (family, b1)"
    and ip: "(if family = [4] then and_then (take_bytes 4 b1) (\<lambda>(ip, body). Ok (V4 ip, body))
        else if family = [6] then and_then (take_bytes 16 b1) (\<lambda>(ip, body). Ok (V6 ip, body))
        else Err InvalidPacket) = Ok (ip, b2)"
    and port: "take_bytes 2 b2 = Ok (port, b3)" and ds: "decode_candidates n b3 = Ok (ds, rest)"
    and cs: "cs = socket_new ip (word_of_nat (of_be port)) # ds"
    by (auto simp: and_then_Ok_iff)
  have p: "length port = 2" "b2 = port @ b3" using port by (simp_all add: take_bytes_iff)
  have "endpoint_formed (socket_new ip (word_of_nat (of_be port)))
      \<and> body = encode_endpoint (socket_new ip (word_of_nat (of_be port))) @ b3"
    using ip f p be2_port [OF p(1)]
    by (auto simp: and_then_Ok_iff take_bytes_iff encode_endpoint_def split: if_splits)
  then show ?r using ds cs by blast
next
  assume ?r
  then obtain c ds mid where c: "cs = c # ds" "endpoint_formed c" "body = encode_endpoint c @ mid" "decode_candidates n mid = Ok (ds, rest)"
    by blast
  then show ?l
    by (cases c) (simp_all add: encode_endpoint_def take_bytes_def port_be2)
qed

lemma decode_candidates_iff:
  "decode_candidates n body = Ok (cs, rest) \<longleftrightarrow>
    length cs = n \<and> list_all endpoint_formed cs \<and> body = concat (map encode_endpoint cs) @ rest"
proof (induction n arbitrary: body cs)
  case 0
  then show ?case by auto
next
  case (Suc n)
  show ?case unfolding decode_candidates_Suc_iff Suc.IH by (cases cs) auto
qed

lemma decode_candidates_not_Abort: "decode_candidates n body \<noteq> Abort"
  by (induction n arbitrary: body) (auto simp: and_then_Abort_iff)

lemma length_encode_endpoint: "endpoint_formed c \<Longrightarrow> length (encode_endpoint c) \<le> 19"
  by (cases c) (simp_all add: encode_endpoint_def)

lemma length_encode_endpoints: "list_all endpoint_formed cs \<Longrightarrow> length (concat (map encode_endpoint cs)) \<le> 19 * length cs"
  by (induction cs) (auto dest: length_encode_endpoint)

section \<open>Facts about messages\<close>

fun message_formed :: "message \<Rightarrow> bool" where
  "message_formed (Candidates cs) = list_all endpoint_formed cs"
| "message_formed (GatewayProbe gateway) = (length gateway = 16)"
| "message_formed (GatewayAck gateway _) = (length gateway = 16)"
| "message_formed _ = True"

definition coordination_formed :: "coordination \<Rightarrow> bool" where
  "coordination_formed c \<longleftrightarrow>
     co_generation c \<le> u64_max \<and> length (co_transaction c) = 16 \<and> message_formed (co_message c)"

text \<open>What a message may say, and the bytes that follow the header for it.\<close>

fun message_valid :: "(uuid \<Rightarrow> nat) \<Rightarrow> nat \<Rightarrow> message \<Rightarrow> bool" where
  "message_valid version generation (Candidates cs) \<longleftrightarrow>
     length cs \<le> MAX_CANDIDATES \<and> list_all valid_endpoint cs \<and> distinct cs"
| "message_valid version generation (MtuProbe padding) \<longleftrightarrow> padding \<noteq> 0 \<and> padding \<le> MAX_PROBE_PADDING"
| "message_valid version generation (GatewayProbe gateway) \<longleftrightarrow> version gateway = 4 \<and> generation \<noteq> 0"
| "message_valid version generation (GatewayAck gateway _) \<longleftrightarrow> version gateway = 4 \<and> generation \<noteq> 0"
| "message_valid version generation _ \<longleftrightarrow> True"

fun message_body :: "message \<Rightarrow> bytes" where
  "message_body (Candidates cs) = word_of_nat (length cs) # concat (map encode_endpoint cs)"
| "message_body (MtuProbe padding) = replicate (unat padding) 0"
| "message_body (GatewayProbe gateway) = gateway"
| "message_body (GatewayAck gateway ready) = gateway @ [if ready then 1 else 0]"
| "message_body _ = []"

definition message_header :: "coordination \<Rightarrow> bytes" where
  "message_header c = [1, message_kind (co_message c), 0, 0] @ to_be 8 (co_generation c) @ co_transaction c"

lemma length_message_header: "coordination_formed c \<Longrightarrow> length (message_header c) = 28"
  by (simp add: message_header_def coordination_formed_def)

lemma coordination_encode_iff:
  assumes "coordination_formed c"
  shows "coordination_encode version c =
    (if message_valid version (co_generation c) (co_message c) then Ok (message_header c @ message_body (co_message c))
     else Err InvalidPacket)"
proof -
  have l: "length (message_header c) = 28" using assms by (rule length_message_header)
  have v: "validate_candidates cs = (if length cs \<le> MAX_CANDIDATES \<and> list_all valid_endpoint cs \<and> distinct cs
      then Ok () else Err InvalidPacket)" for cs
    by (auto simp: validate_candidates_def any_rejected_iff)
  show ?thesis
    unfolding coordination_encode_def Let_def message_header_def [symmetric]
    using l by (cases "co_message c") (auto simp: v resize_def coordination_sizes)
qed


lemma decode_candidate_list_iff:
  "decode_message version 1 generation body = Ok (m, []) \<longleftrightarrow>
    (\<exists>cs. m = Candidates cs \<and> message_formed m \<and> message_valid version generation m \<and> body = message_body m)"
proof (cases body)
  case Nil
  then show ?thesis by (auto simp: decode_message_def)
next
  case (Cons n rest)
  have small: "unat (word_of_nat (length cs) :: u8) = length cs" if "length cs \<le> MAX_CANDIDATES" for cs :: "socket_addr list"
    using that by (simp add: unat_of_nat MAX_CANDIDATES_def)
  have again: "word_of_nat (unat n) = n" by simp
  have "decode_message version 1 generation body = Ok (m, []) \<longleftrightarrow>
      unat n \<le> MAX_CANDIDATES \<and> (\<exists>cs. m = Candidates cs \<and> length cs = unat n \<and> list_all endpoint_formed cs
        \<and> rest = concat (map encode_endpoint cs) \<and> list_all valid_endpoint cs \<and> distinct cs)"
    using Cons by (auto simp: decode_message_def and_then_Ok_iff decode_candidates_iff validate_candidates_iff)
  also have "\<dots> \<longleftrightarrow> (\<exists>cs. m = Candidates cs \<and> message_formed m \<and> message_valid version generation m \<and> body = message_body m)"
    using Cons small again by auto
  finally show ?thesis .
qed

lemma decode_gateway_iff:
  "decode_gateway version kind generation body = Ok (m, rest) \<longleftrightarrow>
    (\<exists>gateway. length gateway = 16 \<and> version gateway = 4 \<and> generation \<noteq> 0
       \<and> (if kind = 6 then m = GatewayProbe gateway \<and> body = gateway @ rest
          else \<exists>ready. m = GatewayAck gateway ready \<and> body = gateway @ (if ready then 1 else 0) # rest))"
proof -
  have ack: "and_then (take_bytes 1 b) (\<lambda>(flag, body). if flag = [0] then Ok (GatewayAck gateway False, body)
       else if flag = [1] then Ok (GatewayAck gateway True, body) else Err InvalidPacket) = Ok (m, r) \<longleftrightarrow>
      (\<exists>ready. m = GatewayAck gateway ready \<and> b = (if ready then 1 else 0) # r)" for gateway b r
  proof (cases b)
    case Nil
    then show ?thesis by (simp add: take_bytes_def)
  next
    case (Cons x b')
    then show ?thesis
      by (cases "x = 0"; cases "x = 1") (auto simp: take_bytes_def all_bool_eq ex_bool_eq)
  qed
  have "decode_gateway version kind generation body = Ok (m, rest) \<longleftrightarrow>
      (\<exists>gateway b. length gateway = 16 \<and> body = gateway @ b \<and> version gateway = 4 \<and> generation \<noteq> 0
        \<and> (if kind = 6 then m = GatewayProbe gateway \<and> b = rest
           else \<exists>ready. m = GatewayAck gateway ready \<and> b = (if ready then 1 else 0) # rest))"
    unfolding decode_gateway_def and_then_Ok_iff [of "take_bytes 16 body"]
    by (auto simp: take_bytes_iff ack [unfolded One_nat_def] split: if_split_asm)
  then show ?thesis by (cases "kind = 6") auto
qed

lemma decode_probe_iff:
  assumes "length body \<le> 9000"
  shows "decode_message version 5 generation body = Ok (m, []) \<longleftrightarrow>
    (\<exists>padding. m = MtuProbe padding \<and> message_valid version generation m \<and> body = message_body m)"
proof
  assume "decode_message version 5 generation body = Ok (m, [])"
  then have b: "body \<noteq> []" "list_all (\<lambda>b. b = 0) body" "m = MtuProbe (word_of_nat (length body))"
    by (auto simp: decode_message_def split: if_splits)
  have u: "unat (word_of_nat (length body) :: u16) = length body" using assms by (simp add: unat_of_nat)
  have "body = replicate (length body) 0" using b(2) by (simp add: list_all_iff replicate_length_same)
  moreover have "(word_of_nat (length body) :: u16) \<noteq> 0"
    using b(1) u unat_0 by (metis length_0_conv)
  moreover have "(word_of_nat (length body) :: u16) \<le> 9000" using u assms by (simp add: word_le_nat_alt)
  ultimately show "\<exists>padding. m = MtuProbe padding \<and> message_valid version generation m \<and> body = message_body m"
    using b(3) u by (simp add: MAX_PROBE_PADDING_def)
next
  assume "\<exists>padding. m = MtuProbe padding \<and> message_valid version generation m \<and> body = message_body m"
  then obtain padding where p: "m = MtuProbe padding" "padding \<noteq> 0" "padding \<le> 9000" "body = replicate (unat padding) 0"
    by (auto simp: MAX_PROBE_PADDING_def)
  then have "unat padding \<le> 9000" "unat padding \<noteq> 0" by (simp_all add: word_le_nat_alt unat_eq_zero)
  then show "decode_message version 5 generation body = Ok (m, [])" using p by (simp add: decode_message_def list_all_iff)
qed

lemma decode_message_iff:
  assumes "length body \<le> 9000"
  shows "decode_message version kind generation body = Ok (m, []) \<longleftrightarrow>
    kind = message_kind m \<and> message_formed m \<and> message_valid version generation m \<and> body = message_body m" (is "_ \<longleftrightarrow> ?ok")
proof -
  consider "kind = 1" | "kind = 5" | "kind = 6" | "kind = 7" | "kind \<in> {2, 3, 4}" | "kind \<notin> {1, 2, 3, 4, 5, 6, 7}" by blast
  then show ?thesis
  proof cases
    case 1
    then show ?thesis unfolding 1 decode_candidate_list_iff by (cases m) auto
  next
    case 2
    then show ?thesis unfolding 2 decode_probe_iff [OF assms] by (cases m) auto
  next
    case 3
    then have "decode_message version kind generation body = decode_gateway version 6 generation body" by (simp add: decode_message_def)
    then show ?thesis using 3 by (cases m) (auto simp: decode_gateway_iff)
  next
    case 4
    then have "decode_message version kind generation body = decode_gateway version 7 generation body" by (simp add: decode_message_def)
    then show ?thesis using 4 by (cases m) (auto simp: decode_gateway_iff)
  next
    case 5
    then show ?thesis by (cases m) (auto simp: decode_message_def)
  next
    case 6
    then have "decode_message version kind generation body = Err InvalidPacket" by (simp add: decode_message_def)
    then show ?thesis using 6 by (cases m) auto
  qed
qed

lemma decode_message_not_Abort: "decode_message version kind generation body \<noteq> Abort"
  by (auto simp: decode_message_def decode_gateway_def and_then_Abort_iff decode_candidates_not_Abort split: list.splits prod.splits)

lemma coordination_decode_not_Abort: "coordination_decode version bs \<noteq> Abort"
  by (auto simp: coordination_decode_def coordination_sizes slice_simps and_then_Abort_iff decode_message_not_Abort
      split: prod.splits)

lemma length_message_body:
  assumes "message_formed m" and "message_valid version generation m"
  shows "length (message_body m) \<le> 9000"
proof (cases m)
  case (Candidates cs)
  then show ?thesis using assms length_encode_endpoints [of cs] by (simp add: MAX_CANDIDATES_def)
next
  case (MtuProbe padding)
  then show ?thesis using assms by (simp add: MAX_PROBE_PADDING_def word_le_nat_alt)
qed (use assms in simp_all)

lemma coordination_decode_header:
  assumes "length g = 8" and "length t = 16" and "length body \<le> 9000"
  shows "coordination_decode version ([b0, kind, b2, b3] @ g @ t @ body) = Ok c \<longleftrightarrow>
    b0 = 1 \<and> b2 = 0 \<and> b3 = 0 \<and> co_generation c = of_be g \<and> co_transaction c = t
    \<and> decode_message version kind (of_be g) body = Ok (co_message c, [])"
proof -
  have len: "length ([b0, kind, b2, b3] @ g @ t @ body) = 28 + length body" using assms by simp
  have slices: "take 8 (drop 4 ([b0, kind, b2, b3] @ g @ t @ body)) = g"
    "take 16 (drop 12 ([b0, kind, b2, b3] @ g @ t @ body)) = t"
    "drop 28 ([b0, kind, b2, b3] @ g @ t @ body) = body"
    "take 2 (drop 2 ([b0, kind, b2, b3] @ g @ t @ body)) = [b2, b3]"
    "([b0, kind, b2, b3] @ g @ t @ body) ! 0 = b0" "([b0, kind, b2, b3] @ g @ t @ body) ! 1 = kind"
    using assms by simp_all
  define bs where "bs = [b0, kind, b2, b3] @ g @ t @ body"
  note fields = slices [folded bs_def]
  have len: "28 \<le> length bs" "length bs \<le> 9028" using assms by (simp_all add: bs_def)
  have read: "coordination_decode version bs =
      (if bs ! 0 \<noteq> 1 \<or> take (4 - 2) (drop 2 bs) \<noteq> [0, 0] then Err InvalidPacket
       else and_then (decode_message version (bs ! 1) (of_be (take (12 - 4) (drop 4 bs))) (drop 28 bs)) (\<lambda>(message, body).
            if body \<noteq> [] then Err InvalidPacket
            else Ok \<lparr>co_generation = of_be (take (12 - 4) (drop 4 bs)), co_transaction = take (28 - 12) (drop 12 bs), co_message = message\<rparr>))"
  proof -
    have "0 < length bs" "1 < length bs" "4 \<le> length bs" "12 \<le> length bs" "28 \<le> length bs"
      "\<not> length bs < 28" "\<not> 28 + unat (9000 :: u16) < length bs" using len by auto
    then show ?thesis
      unfolding coordination_decode_def coordination_sizes slice_at_def slice_from_def byte_at_def by simp
  qed
  have diffs: "(4 :: nat) - 2 = 2" "(12 :: nat) - 4 = 8" "(28 :: nat) - 12 = 16" by simp_all
  show ?thesis unfolding bs_def [symmetric] read unfolding diffs fields
    by (cases c) (auto simp: and_then_Ok_iff split: if_splits)
qed

lemma coordination_decode_iff:
  "coordination_decode version bs = Ok c \<longleftrightarrow> coordination_formed c \<and> coordination_encode version c = Ok bs"
proof (cases "28 \<le> length bs \<and> length bs \<le> 9028")
  case True
  define g t body where "g = take 8 (drop 4 bs)" and "t = take 16 (drop 12 bs)" and "body = drop 28 bs"
  obtain b0 kind b2 b3 tl where bs: "bs = [b0, kind, b2, b3] @ tl"
    using True by (cases bs; cases "tl bs"; cases "tl (tl bs)"; cases "tl (tl (tl bs))") auto
  have tl: "tl = g @ t @ body"
  proof -
    have "g = take 8 tl" "t = take 16 (drop 8 tl)" "body = drop 16 (drop 8 tl)"
      using bs by (simp_all add: g_def t_def body_def)
    then show ?thesis by (metis append_take_drop_id)
  qed
  have l: "length g = 8" "length t = 16" "length body \<le> 9000" using True by (auto simp: g_def t_def body_def)
  have gen: "of_be g \<le> u64_max" using of_be_less [of g] l by (simp add: u64_max_def)
  have "coordination_decode version bs = Ok c \<longleftrightarrow>
      b0 = 1 \<and> b2 = 0 \<and> b3 = 0 \<and> co_generation c = of_be g \<and> co_transaction c = t \<and> kind = message_kind (co_message c)
      \<and> message_formed (co_message c) \<and> message_valid version (of_be g) (co_message c) \<and> body = message_body (co_message c)"
    unfolding bs tl coordination_decode_header [OF l] decode_message_iff [OF l(3)] by blast
  also have "\<dots> \<longleftrightarrow> coordination_formed c \<and> message_valid version (co_generation c) (co_message c)
      \<and> bs = message_header c @ message_body (co_message c)" (is "?a \<longleftrightarrow> ?b")
  proof
    assume ?a
    moreover from this have "to_be 8 (co_generation c) = g" using to_be_of_be [of g] l by simp
    ultimately show ?b using l gen by (simp add: coordination_formed_def message_header_def bs tl)
  next
    assume b: ?b
    then have gt: "co_generation c < 256 ^ 8" "length (co_transaction c) = 16" by (simp_all add: coordination_formed_def u64_max_def)
    have eq: "[b0, kind, b2, b3] @ g @ t @ body =
        [1, message_kind (co_message c), 0, 0] @ to_be 8 (co_generation c) @ co_transaction c @ message_body (co_message c)"
      using b bs tl by (simp add: message_header_def)
    then have h: "b0 = 1 \<and> b2 = 0 \<and> b3 = 0 \<and> kind = message_kind (co_message c)"
      "g @ t @ body = to_be 8 (co_generation c) @ co_transaction c @ message_body (co_message c)" by simp_all
    then have "g = to_be 8 (co_generation c) \<and> t @ body = co_transaction c @ message_body (co_message c)"
      using l by (intro append_eq_append_conv [THEN iffD1]) simp_all
    moreover from this have "t = co_transaction c \<and> body = message_body (co_message c)"
      using l gt by (intro append_eq_append_conv [THEN iffD1]) simp_all
    ultimately show ?a using b h(1) of_be_to_be [OF gt(1)] by (simp add: coordination_formed_def)
  qed
  also have "\<dots> \<longleftrightarrow> coordination_formed c \<and> coordination_encode version c = Ok bs"
    by (auto simp: coordination_encode_iff split: if_splits)
  finally show ?thesis .
next
  case False
  then have "coordination_decode version bs = Err InvalidPacket" by (auto simp: coordination_decode_def coordination_sizes)
  moreover have "coordination_encode version c \<noteq> Ok bs" if "coordination_formed c"
    using that False length_message_body [of "co_message c" version "co_generation c"] length_message_header [OF that]
    by (auto simp: coordination_encode_iff coordination_formed_def)
  ultimately show ?thesis by auto
qed


section \<open>Checksums of built packets\<close>

lemma checksum_chunks_sum: "sum_list (map unat (checksum_chunks bs)) = word_sum bs"
  by (induction bs rule: checksum_chunks.induct) (simp_all add: unat_be16)

lemma unat_as_word: "unat (x :: 'a::len word) = n \<Longrightarrow> word_of_nat n = x"
  by auto

lemma fold_sum_small: "fold_sum acc \<le> 65535"
proof -
  have "(unat acc - 1) mod 65535 < 65535" by simp
  then have "unat (fold_sum acc) \<le> 65535" unfolding fold_sum_unat by (simp add: less_Suc_eq_le [symmetric])
  then show ?thesis by (simp add: word_le_nat_alt)
qed

lemma coordination_checksum_eq:
  assumes "length bs < 65576"
  shows "coordination_checksum bs = Ok (internet_checksum bs)"
proof -
  have lt: "word_sum bs < 2 ^ 32" using word_sum_no_overflow [OF assms] .
  then have "unat (checksum_words 0 bs) = word_sum bs" using checksum_words_unat [of 0 bs] by simp
  then have "word_of_nat (word_sum bs) = checksum_words 0 bs" by (rule unat_as_word)
  moreover have "\<not> 65535 < fold_sum (checksum_words 0 bs)" using fold_sum_small [of "checksum_words 0 bs"] by (simp add: not_less)
  ultimately show ?thesis using lt unfolding coordination_checksum_def checksum_chunks_sum internet_checksum_def by simp
qed

lemma word_sum_append: "even (length xs) \<Longrightarrow> word_sum (xs @ ys) = word_sum xs + word_sum ys"
  by (induction xs rule: word_sum.induct) simp_all

lemma checksum_words_append: "even (length xs) \<Longrightarrow> checksum_words acc (xs @ ys) = checksum_words (checksum_words acc xs) ys"
  by (induction acc xs rule: checksum_words.induct) simp_all

lemma word_sum_pair: "length bs = 2 \<Longrightarrow> word_sum bs = of_be bs"
  by (cases bs; cases "tl bs") (auto simp: unat_be16)

lemma word_sum_be2: "n < 65536 \<Longrightarrow> word_sum (to_be 2 n) = n"
  using word_sum_pair [of "to_be 2 n"] of_be_to_be [of n 2] by simp

lemma checksum_words_be2: "n < 65536 \<Longrightarrow> checksum_words acc (to_be 2 n) = acc + word_of_nat n"
proof -
  assume n: "n < 65536"
  obtain a b where ab: "to_be 2 n = [a, b]" by (simp add: to_be_numeral)
  have "unat (be16 a b) = n" using word_sum_be2 [OF n] ab by simp
  then have "be16 a b = word_of_nat n" by (rule unat_as_word [symmetric])
  moreover have "ucast (word_of_nat n :: u16) = (word_of_nat n :: u32)"
    using n by (simp add: unsigned_of_nat take_bit_nat_eq_self)
  ultimately show ?thesis using ab by simp
qed

text \<open>The checksum written into a zeroed field makes the sum a multiple of 65535.\<close>

lemma checksum_closes:
  assumes "length bs < 65576" and "0 < word_sum bs"
  shows "65535 dvd word_sum bs + unat (internet_checksum bs)"
proof -
  let ?m = "(word_sum bs - 1) mod 65535"
  have "?m < 65535" by simp
  moreover have "word_sum bs - 1 = (word_sum bs - 1) div 65535 * 65535 + ?m" by simp
  ultimately have "word_sum bs + (65534 - ?m) = ((word_sum bs - 1) div 65535 + 1) * 65535"
    using assms(2) unfolding distrib_right by linarith
  moreover have "unat (internet_checksum bs) = 65534 - ?m" using internet_checksum_unat [OF assms(1)] assms(2) by simp
  ultimately show ?thesis by (metis dvd_triv_right)
qed

lemma fold_sum_full_iff: "fold_sum acc = 0xffff \<longleftrightarrow> NOT (ucast (fold_sum acc)) = (0 :: u16)"
proof -
  have le: "unat (fold_sum acc) \<le> 65535" using fold_sum_small [of acc] by (simp add: word_le_nat_alt)
  have "NOT (ucast (fold_sum acc)) = (0 :: u16) \<longleftrightarrow> unat (NOT (ucast (fold_sum acc)) :: u16) = 0"
    by (simp add: unat_eq_zero)
  also have "\<dots> \<longleftrightarrow> unat (fold_sum acc) = 65535" using unat_not_ucast [OF le] le by linarith
  also have "\<dots> \<longleftrightarrow> fold_sum acc = 0xffff" by (simp add: word_unat_eq_iff)
  finally show ?thesis by simp
qed

text \<open>The parser's transport check is the checksum over pseudo header and payload.\<close>

lemma transport_checksum_v4:
  assumes "length s = 4" and "length d = 4" and "length payload < 65536"
  shows "transport_checksum_valid payload (V4 s) (V4 d) UDP \<longleftrightarrow>
    internet_checksum ((s @ d @ [0, 17] @ to_be 2 (length payload)) @ payload) = 0"
proof -
  have be: "be16 0 17 = 17" by (simp add: be16_def)
  have "checksum_words 0 ((s @ d @ [0, 17] @ to_be 2 (length payload)) @ payload) =
      checksum_words (checksum_words (checksum_words 0 s) d + 17 + word_of_nat (length payload)) payload"
    using assms by (simp add: checksum_words_append checksum_words_be2 be)
  then show ?thesis
    unfolding transport_checksum_valid_def internet_checksum_def fold_sum_full_iff [symmetric]
    using assms(3) by (simp add: UDP_def)
qed

lemma to_be4_small: "n < 65536 \<Longrightarrow> to_be 4 n = [0, 0] @ to_be 2 n"
proof -
  assume n: "n < 65536"
  then have "n div 16777216 = 0" "n mod 16777216 = n" "n div 65536 = 0" "n mod 65536 = n" by simp_all
  then show ?thesis by (simp add: to_be_numeral)
qed

lemma transport_checksum_v6:
  assumes "length s = 16" and "length d = 16" and "length payload < 65536"
  shows "transport_checksum_valid payload (V6 s) (V6 d) UDP \<longleftrightarrow>
    internet_checksum ((s @ d @ to_be 4 (length payload) @ [0, 0, 0, 17]) @ payload) = 0"
proof -
  have be: "be16 0 17 = 17" "be16 0 0 = 0" by (simp_all add: be16_def)
  have four: "checksum_words acc (to_be 4 (length payload)) = acc + word_of_nat (length payload)" for acc
    using assms(3) by (simp add: to_be4_small checksum_words_be2 be)
  have "checksum_words 0 ((s @ d @ to_be 4 (length payload) @ [0, 0, 0, 17]) @ payload) =
      checksum_words (checksum_words (checksum_words 0 s) d + word_of_nat (length payload) + 17) payload"
    using assms by (simp add: checksum_words_append four be)
  then show ?thesis
    unfolding transport_checksum_valid_def internet_checksum_def fold_sum_full_iff [symmetric]
    using assms(3) by (simp add: UDP_def four)
qed


section \<open>Built packets parse\<close>

lemma ipv4_header_bytes:
  assumes "length s = 4" and "length d = 4" and "n + 20 < 65536"
  shows "ipv4_header s d n = Ok ([0x45, 0] @ to_be 2 (n + 20) @ [0, 0, 0, 0, 64, 17]
      @ to_be 2 (unat (internet_checksum ([0x45, 0] @ to_be 2 (n + 20) @ [0, 0, 0, 0, 64, 17, 0, 0] @ s @ d))) @ s @ d)"
proof -
  obtain l1 l2 where l: "to_be 2 (n + 20) = [l1, l2]" by (simp add: to_be_numeral)
  define zeroed where "zeroed = [0x45, 0, l1, l2, 0, 0, 0, 0, 64, 17, 0, 0] @ s @ d"
  have base: "(replicate 20 0)[0 := 0x45, 8 := 64, 9 := 17 :: u8] =
      [0x45, 0] @ [0, 0] @ [0, 0, 0, 0, 64, 17, 0, 0] @ replicate 4 0 @ replicate 4 0"
    by (simp add: numeral_eq_Suc)
  have "splice (splice (splice ((replicate 20 0)[0 := 0x45, 8 := 64, 9 := 17]) 2 (to_be 2 (n + 20))) 12 s) 16 d = zeroed"
    unfolding base l zeroed_def using assms by (simp add: splice_def)
  moreover have "coordination_checksum zeroed = Ok (internet_checksum zeroed)"
    using assms by (intro coordination_checksum_eq) (simp add: zeroed_def)
  moreover have "splice zeroed 10 (to_be 2 c) = [0x45, 0, l1, l2, 0, 0, 0, 0, 64, 17] @ to_be 2 c @ s @ d" for c
    by (simp add: zeroed_def splice_def)
  ultimately show ?thesis using assms(3) unfolding ipv4_header_def Let_def by (simp add: l zeroed_def)
qed

lemma ipv6_header_bytes:
  assumes "length s = 16" and "length d = 16"
  shows "ipv6_header s d n = [0x60, 0, 0, 0] @ to_be 2 n @ [17, 64] @ s @ d"
proof -
  have base: "(replicate 40 0)[0 := 0x60, 6 := 17, 7 := 64 :: u8] =
      [0x60, 0, 0, 0] @ [0, 0] @ [17, 64] @ replicate 16 0 @ replicate 16 0"
    by (simp add: numeral_eq_Suc)
  show ?thesis unfolding ipv6_header_def Let_def base using assms by (simp add: splice_def)
qed

text \<open>The datagram: both ports, its length, the checksum and the message.\<close>

definition sealed_datagram :: "bytes \<Rightarrow> bytes \<Rightarrow> bytes" where
  "sealed_datagram checksum body =
     to_be 2 51821 @ to_be 2 51821 @ to_be 2 (length body + 8) @ checksum @ body"

lemma udp_datagram_sealed: "udp_datagram (length body + 8) body = sealed_datagram [0, 0] body"
  by (simp add: udp_datagram_def sealed_datagram_def COORDINATION_PORT_def)

lemma splice_sealed: "length c = 2 \<Longrightarrow> splice (sealed_datagram [0, 0] body) 6 c = sealed_datagram c body"
  by (simp add: splice_def sealed_datagram_def)

lemma length_sealed: "length c = 2 \<Longrightarrow> length (sealed_datagram c body) = length body + 8"
  by (simp add: sealed_datagram_def)

lemma word_sum_sealed: "length c = 2 \<Longrightarrow> word_sum (sealed_datagram c body) = word_sum (sealed_datagram [0, 0] body) + word_sum c"
  by (simp add: sealed_datagram_def word_sum_append be16_def)

definition sealing_checksum :: "bytes \<Rightarrow> bytes \<Rightarrow> u16" where
  "sealing_checksum pseudo body =
     (let c = internet_checksum (pseudo @ sealed_datagram [0, 0] body) in if c = 0 then 0xffff else c)"

lemma sealing_checksum_verifies:
  assumes "even (length pseudo)" and "0 < word_sum pseudo" and "length pseudo + length body < 65000"
  shows "internet_checksum (pseudo @ sealed_datagram (to_be 2 (unat (sealing_checksum pseudo body))) body) = 0"
proof -
  let ?c = "sealing_checksum pseudo body" and ?zero = "pseudo @ sealed_datagram [0, 0] body"
  have l: "length ?zero < 65576" using assms(3) by (simp add: length_sealed)
  have "0 < word_sum ?zero" using assms(1,2) by (simp add: word_sum_append)
  then have closes: "65535 dvd word_sum ?zero + unat (internet_checksum ?zero)" using l by (intro checksum_closes)
  have "65535 dvd word_sum ?zero + unat ?c"
  proof (cases "internet_checksum ?zero = 0")
    case True
    then have "unat ?c = 65535" by (simp add: sealing_checksum_def)
    then show ?thesis using closes True by simp
  next
    case False
    then show ?thesis using closes by (simp add: sealing_checksum_def)
  qed
  moreover have "word_sum (to_be 2 (unat ?c)) = unat ?c"
    using unsigned_less [of ?c, where ?'a = nat] by (intro word_sum_be2) simp
  ultimately have "65535 dvd word_sum (pseudo @ sealed_datagram (to_be 2 (unat ?c)) body)"
    using assms(1) by (simp add: word_sum_append word_sum_sealed [of "to_be 2 (unat ?c)"] add.assoc)
  moreover have "0 < word_sum (pseudo @ sealed_datagram (to_be 2 (unat ?c)) body)"
    using assms(1,2) by (simp add: word_sum_append)
  moreover have "length (pseudo @ sealed_datagram (to_be 2 (unat ?c)) body) < 65576"
    using assms(3) by (simp add: length_sealed)
  ultimately show ?thesis using internet_checksum_zero_iff by blast
qed

lemma sealing_checksum_nonzero: "sealing_checksum pseudo body \<noteq> 0"
  by (simp add: sealing_checksum_def Let_def)

lemma be16_of_pair: "n < 65536 \<Longrightarrow> to_be 2 n = [a, b] \<Longrightarrow> unat (be16 a b) = n"
  using word_sum_be2 [of n] by simp

lemma sealed_udp_header:
  fixes c :: u16
  assumes "length body + 8 < 65536" and "c \<noteq> 0"
    and "transport_checksum_valid (sealed_datagram (to_be 2 (unat c)) body) source destination UDP"
  shows "udp_header (sealed_datagram (to_be 2 (unat c)) body) source destination False =
    Ok (Some 51821, Some 51821, None, None, None)"
proof -
  obtain p1 p2 where p: "to_be 2 51821 = [p1, p2]" by (simp add: to_be_numeral)
  obtain l1 l2 where l: "to_be 2 (length body + 8) = [l1, l2]" by (simp add: to_be_numeral)
  obtain c1 c2 where c: "to_be 2 (unat c) = [c1, c2]" by (simp add: to_be_numeral)
  have port: "be16 p1 p2 = 51821" using be16_of_pair [OF _ p] by (simp add: word_unat_eq_iff)
  have len: "unat (be16 l1 l2) = length body + 8" using be16_of_pair [OF assms(1) l] .
  have "unat c < 65536" using unsigned_less [of c, where ?'a = nat] by simp
  then have chk: "be16 c1 c2 = c" using be16_of_pair [OF _ c] by (simp add: word_unat_eq_iff)
  have s: "sealed_datagram (to_be 2 (unat c)) body = [p1, p2, p1, p2, l1, l2, c1, c2] @ body"
    by (simp add: sealed_datagram_def p l c)
  show ?thesis
    unfolding udp_header_def s [symmetric] using assms(2,3)
    by (simp add: s slice_simps port len chk)
qed

definition coordination_packet :: "ip_addr \<Rightarrow> ip_addr \<Rightarrow> nat \<Rightarrow> parsed_packet" where
  "coordination_packet source destination n =
     \<lparr>pk_source = source, pk_destination = destination, pk_protocol = 17, pk_source_port = Some 51821,
      pk_destination_port = Some 51821, pk_tcp_flags = None, pk_icmp = None, pk_fragment = None,
      pk_packet_len = n, pk_related_flow = None\<rparr>"

lemma parse_v4_datagram:
  assumes "length s = 4" and "length d = 4" and "length udp + 20 < 65536"
    and "internet_checksum ([0x45, 0] @ to_be 2 (length udp + 20) @ [0, 0, 0, 0, 64, 17, c1, c2] @ s @ d) = 0"
    and "udp_header udp (V4 s) (V4 d) False = Ok (Some 51821, Some 51821, None, None, None)"
  shows "parse_packet (([0x45, 0] @ to_be 2 (length udp + 20) @ [0, 0, 0, 0, 64, 17, c1, c2] @ s @ d) @ udp)
     = Ok (coordination_packet (V4 s) (V4 d) (length udp + 20))"
proof -
  obtain l1 l2 where l: "to_be 2 (length udp + 20) = [l1, l2]" by (simp add: to_be_numeral)
  have len: "unat (be16 l1 l2) = length udp + 20" using be16_of_pair [OF assms(3) l] .
  define h where "h = [0x45, 0, l1, l2, 0, 0, 0, 0, 64, 17, c1, c2] @ s @ d"
  have h: "length h = 20" "take 4 (drop 12 h) = s" "take 4 (drop 16 h) = d" "h ! 0 = 0x45" "h ! 2 = l1" "h ! 3 = l2"
      "h ! 4 = 0" "h ! 5 = 0" "h ! 6 = 0" "h ! 7 = 0" "h ! 9 = 17" "hd h = 0x45" "h \<noteq> []"
    using assms(1,2) by (simp_all add: h_def)
  have chk: "internet_checksum h = 0" using assms(4) l by (simp add: h_def)
  have z: "be16 0 0 = 0" by (simp add: be16_def)
  have "parse_packet (h @ udp) = parse_ipv4 (h @ udp) True"
    by (simp add: parse_packet_def h_def)
  also have "\<dots> = Ok (coordination_packet (V4 s) (V4 d) (length udp + 20))"
    using assms(2,5) h chk by (simp add: parse_ipv4_def slice_simps nth_append len ipv4_checksum_def z finish_transport_def
        protocol_numbers coordination_packet_def Let_def)
  finally show ?thesis using l by (simp add: h_def)
qed

lemma parse_v6_datagram:
  assumes "length s = 16" and "length d = 16" and "length udp < 65536"
    and "udp_header udp (V6 s) (V6 d) False = Ok (Some 51821, Some 51821, None, None, None)"
  shows "parse_packet (([0x60, 0, 0, 0] @ to_be 2 (length udp) @ [17, 64] @ s @ d) @ udp)
     = Ok (coordination_packet (V6 s) (V6 d) (length udp + 40))"
proof -
  obtain l1 l2 where l: "to_be 2 (length udp) = [l1, l2]" by (simp add: to_be_numeral)
  have len: "unat (be16 l1 l2) = length udp" using be16_of_pair [OF assms(3) l] .
  define h where "h = [0x60, 0, 0, 0, l1, l2, 17, 64] @ s @ d"
  have h: "length h = 40" "take 16 (drop 8 h) = s" "take 16 (drop 24 h) = d" "h ! 4 = l1" "h ! 5 = l2" "h ! 6 = 17"
    using assms(1,2) by (simp_all add: h_def)
  have steps: "(8 :: nat) = Suc 7" by simp
  have add: "checked_add (length udp) 40 = Some (40 + length udp)" using assms(3) by (simp add: checked_add_def u64_max_def)
  have "parse_packet (h @ udp) = parse_ipv6 (h @ udp) True"
    by (simp add: parse_packet_def h_def)
  also have "\<dots> = walk_ipv6 8 (h @ udp) s d 17 40 None True"
    using h assms(2) by (simp add: parse_ipv6_def slice_simps nth_append len add Let_def)
  also have "\<dots> = Ok (coordination_packet (V6 s) (V6 d) (length udp + 40))"
  proof -
    have "drop 40 (h @ udp) = udp" "40 \<le> length (h @ udp)" using h by simp_all
    then show ?thesis
      using assms(4) h(1) unfolding steps walk_ipv6.simps(2) slice_from_def
      by (simp add: finish_transport_def protocol_numbers coordination_packet_def)
  qed
  finally show ?thesis using l by (simp add: h_def)
qed


lemma encode_ip_headers:
  assumes "coordination_encode version c = Ok body" and "length body \<le> 9028"
    and "headers_of source destination (length body + 8) = Ok (header, pseudo)" and "length pseudo \<le> 40"
  shows "encode_ip version source destination c =
    Ok (header @ sealed_datagram (to_be 2 (unat (sealing_checksum pseudo body))) body)"
proof -
  have "coordination_checksum (pseudo @ sealed_datagram [0, 0] body) = Ok (internet_checksum (pseudo @ sealed_datagram [0, 0] body))"
    using assms(2,4) by (intro coordination_checksum_eq) (simp add: length_sealed)
  then show ?thesis
    using assms(2) unfolding encode_ip_def assms(1) and_then.simps Let_def assms(3) prod.case
      udp_datagram_sealed sealing_checksum_def
    by (simp add: splice_sealed)
qed

lemma encode_ip_v4:
  assumes "coordination_encode version c = Ok body" and "length body \<le> 9028" and "length s = 4" and "length d = 4"
  defines "pseudo \<equiv> s @ d @ [0, 17] @ to_be 2 (length body + 8)"
    and "zeroed \<equiv> [0x45, 0] @ to_be 2 (length body + 28) @ [0, 0, 0, 0, 64, 17, 0, 0] @ s @ d"
  shows "encode_ip version (V4 s) (V4 d) c =
    Ok (([0x45, 0] @ to_be 2 (length body + 28) @ [0, 0, 0, 0, 64, 17] @ to_be 2 (unat (internet_checksum zeroed)) @ s @ d)
      @ sealed_datagram (to_be 2 (unat (sealing_checksum pseudo body))) body)"
proof -
  let ?n = "length body + 8"
  have n: "?n + 20 = length body + 28" by simp
  have header: "ipv4_header s d ?n = Ok ([0x45, 0] @ to_be 2 (length body + 28) @ [0, 0, 0, 0, 64, 17] @ to_be 2 (unat (internet_checksum zeroed)) @ s @ d)"
    using ipv4_header_bytes [OF assms(3,4), of ?n] assms(2) unfolding n zeroed_def by simp
  let ?h = "[0x45, 0] @ to_be 2 (length body + 28) @ [0, 0, 0, 0, 64, 17] @ to_be 2 (unat (internet_checksum zeroed)) @ s @ d"
  have p: "take 8 (drop 12 ?h) @ [0, 17] @ to_be 2 ?n = pseudo" using assms(3,4) by (simp add: pseudo_def)
  have "headers_of (V4 s) (V4 d) ?n = Ok (?h, pseudo)"
    unfolding headers_of_def prod.case ip_addr.case header and_then.simps p ..
  then show ?thesis by (rule encode_ip_headers [OF assms(1,2)]) (simp add: pseudo_def assms(3,4))
qed

lemma encode_ip_v6:
  assumes "coordination_encode version c = Ok body" and "length body \<le> 9028" and "length s = 16" and "length d = 16"
  defines "pseudo \<equiv> s @ d @ to_be 4 (length body + 8) @ [0, 0, 0, 17]"
  shows "encode_ip version (V6 s) (V6 d) c =
    Ok (([0x60, 0, 0, 0] @ to_be 2 (length body + 8) @ [17, 64] @ s @ d)
      @ sealed_datagram (to_be 2 (unat (sealing_checksum pseudo body))) body)"
proof -
  let ?n = "length body + 8"
  let ?h = "[0x60, 0, 0, 0] @ to_be 2 ?n @ [17, 64] @ s @ d"
  have p: "take 32 (drop 8 ?h) @ to_be 4 ?n @ [0, 0, 0, 17] = pseudo" using assms(3,4) by (simp add: pseudo_def)
  have "headers_of (V6 s) (V6 d) ?n = Ok (?h, pseudo)"
    unfolding headers_of_def prod.case ip_addr.case ipv6_header_bytes [OF assms(3,4)] Let_def p ..
  then show ?thesis by (rule encode_ip_headers [OF assms(1,2)]) (simp add: pseudo_def assms(3,4))
qed

text \<open>What is sent parses, with the addresses it was sent between.\<close>

lemma built_packet_parses:
  assumes "coordination_encode version c = Ok body" and "length body \<le> 9028"
    and "ip_addr_ok source" and "ip_addr_ok destination" and "is_ipv6 source = is_ipv6 destination"
  shows "\<exists>header checksum. let packet = header @ sealed_datagram checksum body in
      encode_ip version source destination c = Ok packet \<and> length checksum = 2
      \<and> length header = (if is_ipv6 source then 40 else 20)
      \<and> hd header = (if is_ipv6 source then 0x60 else 0x45) \<and> (is_ipv6 source \<longrightarrow> header ! 6 = 17)
      \<and> parse_packet packet = Ok (coordination_packet source destination (length packet))"
proof -
  consider s d where "source = V4 s" "destination = V4 d" "length s = 4" "length d = 4"
    | s d where "source = V6 s" "destination = V6 d" "length s = 16" "length d = 16"
    using assms(3-5) by (cases source; cases destination) auto
  then show ?thesis
  proof cases
    case 1
    define pseudo where "pseudo = s @ d @ [0, 17] @ to_be 2 (length body + 8)"
    define zeroed where "zeroed = [0x45, 0] @ to_be 2 (length body + 28) @ [0, 0, 0, 0, 64, 17, 0, 0] @ s @ d"
    let ?chk = "to_be 2 (unat (sealing_checksum pseudo body))"
    let ?h = "[0x45, 0] @ to_be 2 (length body + 28) @ [0, 0, 0, 0, 64, 17] @ to_be 2 (unat (internet_checksum zeroed)) @ s @ d"
    let ?udp = "sealed_datagram ?chk body"
    obtain c1 c2 where c12: "to_be 2 (unat (internet_checksum zeroed)) = [c1, c2]" by (simp add: to_be_numeral)
    have sum: "word_sum ?h = word_sum zeroed + unat (internet_checksum zeroed)"
      using 1 word_sum_be2 [of "unat (internet_checksum zeroed)"] unsigned_less [of "internet_checksum zeroed", where ?'a = nat]
      by (simp add: zeroed_def word_sum_append be16_def)
    have pos: "0 < word_sum zeroed" by (simp add: zeroed_def unat_be16)
    have "0 < word_sum ?h \<and> 65535 dvd word_sum ?h"
      unfolding sum using 1 pos checksum_closes [of zeroed] by (simp add: zeroed_def)
    moreover have "length ?h < 65576" using 1 by simp
    ultimately have "internet_checksum ?h = 0" using internet_checksum_zero_iff by blast
    moreover have "udp_header ?udp (V4 s) (V4 d) False = Ok (Some 51821, Some 51821, None, None, None)"
    proof (rule sealed_udp_header)
      have "transport_checksum_valid ?udp (V4 s) (V4 d) UDP \<longleftrightarrow> internet_checksum (pseudo @ ?udp) = 0"
        using transport_checksum_v4 [of s d ?udp] 1 assms(2) by (simp add: pseudo_def length_sealed)
      moreover have "internet_checksum (pseudo @ ?udp) = 0"
        using 1 assms(2) by (intro sealing_checksum_verifies) (simp_all add: pseudo_def word_sum_append be16_def)
      ultimately show "transport_checksum_valid ?udp (V4 s) (V4 d) UDP" by simp
    qed (use assms(2) sealing_checksum_nonzero in simp_all)
    ultimately have "parse_packet (?h @ ?udp) = Ok (coordination_packet (V4 s) (V4 d) (length ?udp + 20))"
      using parse_v4_datagram [of s d ?udp c1 c2] 1 assms(2) by (simp add: length_sealed c12 add.commute)
    moreover have "encode_ip version (V4 s) (V4 d) c = Ok (?h @ ?udp)"
      unfolding pseudo_def zeroed_def by (rule encode_ip_v4 [OF assms(1,2) 1(3,4)])
    ultimately show ?thesis
      using 1 by (intro exI [of _ ?h] exI [of _ ?chk]) (simp add: Let_def add.commute)
  next
    case 2
    define pseudo where "pseudo = s @ d @ to_be 4 (length body + 8) @ [0, 0, 0, 17]"
    let ?chk = "to_be 2 (unat (sealing_checksum pseudo body))"
    let ?h = "[0x60, 0, 0, 0] @ to_be 2 (length body + 8) @ [17, 64] @ s @ d"
    let ?udp = "sealed_datagram ?chk body"
    have "udp_header ?udp (V6 s) (V6 d) False = Ok (Some 51821, Some 51821, None, None, None)"
    proof (rule sealed_udp_header)
      have "transport_checksum_valid ?udp (V6 s) (V6 d) UDP \<longleftrightarrow> internet_checksum (pseudo @ ?udp) = 0"
        using transport_checksum_v6 [of s d ?udp] 2 assms(2) by (simp add: pseudo_def length_sealed)
      moreover have "internet_checksum (pseudo @ ?udp) = 0"
        using 2 assms(2) by (intro sealing_checksum_verifies) (simp_all add: pseudo_def word_sum_append be16_def)
      ultimately show "transport_checksum_valid ?udp (V6 s) (V6 d) UDP" by simp
    qed (use assms(2) sealing_checksum_nonzero in simp_all)
    then have "parse_packet (?h @ ?udp) = Ok (coordination_packet (V6 s) (V6 d) (length ?udp + 40))"
      using parse_v6_datagram [of s d ?udp] 2 assms(2) by (simp add: length_sealed)
    moreover have "encode_ip version (V6 s) (V6 d) c = Ok (?h @ ?udp)"
      unfolding pseudo_def by (rule encode_ip_v6 [OF assms(1,2) 2(3,4)])
    ultimately show ?thesis
      using 2 by (intro exI [of _ ?h] exI [of _ ?chk]) (simp add: Let_def add.commute nth_append)
  qed
qed


lemma encoded_length:
  assumes "coordination_formed c" and "coordination_encode version c = Ok body"
  shows "length body \<le> 9028"
  using assms length_message_body [of "co_message c" version "co_generation c"] length_message_header [OF assms(1)]
  by (auto simp: coordination_encode_iff coordination_formed_def split: if_splits)

lemma get_byte_0: "packet \<noteq> [] \<Longrightarrow> get_byte packet 0 = Some (hd packet)"
  by (simp add: get_byte_def hd_conv_nth)

section \<open>Properties\<close>

text \<open>(C37) The message codec is canonical.  A byte string decodes to a message exactly when it is the encoding of
  that message, whose fields have their sizes; nothing else is accepted, no input makes the decoder
  panic, and a message the encoder refuses is one no input decodes to.
\<close>

theorem coordination_codec_canonical:
  "coordination_decode version bs \<noteq> Abort
   \<and> (coordination_decode version bs = Ok c \<longleftrightarrow> coordination_formed c \<and> coordination_encode version c = Ok bs)"
  using coordination_decode_iff coordination_decode_not_Abort by blast

text \<open>(C19) Coordination arrives.  A message that encodes, sent between two addresses of one family, is built into
  an IP packet whose header and transport checksums the packet parser verifies and that parses with
  these addresses, the coordination port on both sides and no fragment; the receiver decodes the
  same message from it.  Between families there is no route.
\<close>

theorem coordination_tunnel_roundtrip:
  assumes "coordination_formed c" and "coordination_encode version c = Ok body"
    and "ip_addr_ok source" and "ip_addr_ok destination"
  shows "if is_ipv6 source = is_ipv6 destination then
      \<exists>packet. encode_ip version source destination c = Ok packet
        \<and> parse_packet packet = Ok (coordination_packet source destination (length packet))
        \<and> decode_ip version packet = Ok c
    else encode_ip version source destination c = Err NoRoute"
proof (cases "is_ipv6 source = is_ipv6 destination")
  case True
  have len: "length body \<le> 9028" using encoded_length [OF assms(1,2)] .
  obtain header checksum where
    p: "encode_ip version source destination c = Ok (header @ sealed_datagram checksum body)" "length checksum = 2"
      "length header = (if is_ipv6 source then 40 else 20)" "hd header = (if is_ipv6 source then 0x60 else 0x45)"
      "is_ipv6 source \<longrightarrow> header ! 6 = 17"
      "parse_packet (header @ sealed_datagram checksum body)
         = Ok (coordination_packet source destination (length (header @ sealed_datagram checksum body)))"
    using built_packet_parses [OF assms(2) len assms(3,4) True] unfolding Let_def by blast
  let ?packet = "header @ sealed_datagram checksum body"
  have ne: "header \<noteq> []" using p(3) by (cases "is_ipv6 source") auto
  have tail: "get_from ?packet (length header + 8) = Some body"
    using p(2) by (simp add: get_from_def sealed_datagram_def)
  have first: "get_byte ?packet 0 = Some (if is_ipv6 source then 0x60 else 0x45)"
    using get_byte_0 [of ?packet] ne p(4) by simp
  have sixth: "is_ipv6 source \<Longrightarrow> get_byte ?packet 6 = Some 17"
    using p(3,5) by (simp add: get_byte_def nth_append)
  have "decode_ip version ?packet = coordination_decode version body"
    unfolding decode_ip_def p(6) map_err.simps and_then.simps first
    using sixth tail p(3) by (cases "is_ipv6 source") (simp_all add: coordination_packet_def COORDINATION_PORT_def)
  moreover have "coordination_decode version body = Ok c" using assms(1,2) coordination_decode_iff by blast
  ultimately show ?thesis using True p(1,6) by auto
next
  case False
  have "length body \<le> 9028" using encoded_length [OF assms(1,2)] .
  then show ?thesis using False assms(2) by (cases source; cases destination) (simp_all add: encode_ip_def headers_of_def)
qed

definition sample_coordination :: coordination where
  "sample_coordination = \<lparr>co_generation = 3, co_transaction = replicate 16 7,
     co_message = Candidates [Socket_V4 [192, 0, 2, 1] 4000, Socket_V6 (32 # 1 # 13 # 184 # replicate 12 1) 5000 0 0]\<rparr>"

lemma sample_coordination_formed: "coordination_formed sample_coordination"
  by (simp add: coordination_formed_def sample_coordination_def u64_max_def)

lemma sample_coordination_encodes:
  "coordination_encode version sample_coordination =
     Ok (message_header sample_coordination @ message_body (co_message sample_coordination))"
proof -
  have "message_valid version 3 (co_message sample_coordination)"
    by code_simp
  then show ?thesis using sample_coordination_formed by (simp add: coordination_encode_iff) (simp add: sample_coordination_def)
qed

theorem coordination_tunnel_roundtrip_witness:
  "\<exists>packet. encode_ip (\<lambda>_. 4) (V4 [10, 0, 0, 1]) (V4 [10, 0, 0, 2]) sample_coordination = Ok packet
     \<and> decode_ip (\<lambda>_. 4) packet = Ok sample_coordination"
  using coordination_tunnel_roundtrip [OF sample_coordination_formed sample_coordination_encodes, of "V4 [10, 0, 0, 1]" "V4 [10, 0, 0, 2]" "\<lambda>_. 4"]
  by auto

text \<open>What a Peer learns from coordination.  Whatever packet arrives, if a message is taken from it, the packet is
  an unfragmented UDP datagram between the coordination ports; candidates are at most thirty-two,
  distinct and usable endpoints, a gateway check names a version-four binding of a positive generation,
  and a path probe carries between one and 9000 bytes of padding.  Any other packet is refused, without a panic.
\<close>

theorem coordination_accepts_valid:
  "decode_ip version packet \<noteq> Abort
   \<and> (decode_ip version packet = Ok c \<longrightarrow>
       (\<exists>parsed. parse_packet packet = Ok parsed \<and> pk_protocol parsed = 17 \<and> pk_fragment parsed = None
          \<and> pk_source_port parsed = Some 51821 \<and> pk_destination_port parsed = Some 51821)
       \<and> (case co_message c of
            Candidates cs \<Rightarrow> length cs \<le> 32 \<and> distinct cs \<and> list_all valid_endpoint cs
          | MtuProbe padding \<Rightarrow> 1 \<le> unat padding \<and> unat padding \<le> 9000
          | GatewayProbe gateway \<Rightarrow> version gateway = 4 \<and> co_generation c > 0
          | GatewayAck gateway _ \<Rightarrow> version gateway = 4 \<and> co_generation c > 0
          | _ \<Rightarrow> True))"
proof -
  have total: "decode_ip version packet \<noteq> Abort"
    by (auto simp: decode_ip_def and_then_Abort_iff parse_packet_not_Abort coordination_decode_not_Abort split: if_splits)
  have valid: "case co_message c of
            Candidates cs \<Rightarrow> length cs \<le> 32 \<and> distinct cs \<and> list_all valid_endpoint cs
          | MtuProbe padding \<Rightarrow> 1 \<le> unat padding \<and> unat padding \<le> 9000
          | GatewayProbe gateway \<Rightarrow> version gateway = 4 \<and> co_generation c > 0
          | GatewayAck gateway _ \<Rightarrow> version gateway = 4 \<and> co_generation c > 0
          | _ \<Rightarrow> True" if "coordination_decode version bs = Ok c" for bs
  proof -
    have "message_valid version (co_generation c) (co_message c)"
      using that unfolding coordination_decode_iff by (auto simp: coordination_encode_iff split: if_splits)
    then show ?thesis
      by (cases "co_message c") (simp_all add: coordination_sizes word_le_nat_alt Suc_le_eq unat_gt_0)
  qed
  show ?thesis
    using total valid by (auto simp: decode_ip_def and_then_Ok_iff COORDINATION_PORT_def split: if_splits)
qed

theorem coordination_accepts_valid_witness:
  "decode_ip (\<lambda>_. 4) sample_udp \<noteq> Abort"
  using coordination_accepts_valid [of "\<lambda>_. 4" sample_udp] by blast

text \<open>What a Peer advertises passes the same validation, keeps only observed usable endpoints, and loses one only to the limit.\<close>

lemma filtered_candidates_valid:
  "validate_candidates (filter_wireguard_candidates endpoints) = Ok ()
   \<and> set (filter_wireguard_candidates endpoints) \<subseteq> {e \<in> set endpoints. valid_endpoint e}
   \<and> (length (filter_wireguard_candidates endpoints) < MAX_CANDIDATES \<longrightarrow>
        set (filter_wireguard_candidates endpoints) = {e \<in> set endpoints. valid_endpoint e})"
  using filter_unique_facts [of "[]" endpoints] set_take_subset [of MAX_CANDIDATES "filter_unique [] endpoints"]
  by (auto simp: validate_candidates_iff filter_wireguard_candidates_def list_all_iff distinct_take min_def split: if_splits)

end
