(* ===== verification/ManagementResources.thy ===== *)
theory ManagementResources
  imports Coordination LeaseClock
begin

text \<open>
  The resources a Mesh offers behind its Peers (\<open>crates/peerward-management/src\<close>): targets,
  definitions and gateway bindings of \<open>resources.rs\<close>, health probes of \<open>target_health.rs\<close>,
  the boundary of Internet grants in \<open>internet_addresses.rs\<close>, address assignments of
  \<open>addresses.rs\<close> and automatic approval of \<open>auto_approval.rs\<close>.

  Networks are values of the \<open>ipnet\<close> crate, identifiers of the \<open>uuid\<close> crate; what the code
  calls of them is the record \<open>net_env\<close>, a parameter.  A string is the list of its Unicode
  scalar values.  A \<open>BTreeSet\<close> is the ascending list of its elements, a \<open>BTreeMap\<close> the list of
  its entries in order.
\<close>

text \<open>A guard that returns an error early.\<close>

lemma guard_Ok_iff: "(if P then Err e else m) = Ok x \<longleftrightarrow> \<not> P \<and> m = Ok x"
  by simp

lemma unit_then_Ok_iff: "and_then m f = Ok y \<longleftrightarrow> m = Ok () \<and> f () = Ok y"
  by (cases m) auto

section \<open>Text\<close>

type_synonym rust_str = "nat list"

text \<open>The length of a \<open>str\<close> is that of its UTF-8 encoding.\<close>

definition utf8_width :: "nat \<Rightarrow> nat" where
  "utf8_width c = (if c < 0x80 then 1 else if c < 0x800 then 2 else if c < 0x10000 then 3 else 4)"

definition str_len :: "rust_str \<Rightarrow> nat" where
  "str_len s = sum_list (map utf8_width s)"

text \<open>\<open>char::is_control\<close> (general category Cc) and \<open>char::is_whitespace\<close> (White\_Space).\<close>

definition is_control :: "nat \<Rightarrow> bool" where
  "is_control c \<longleftrightarrow> c < 32 \<or> 127 \<le> c \<and> c < 160"

definition is_whitespace :: "nat \<Rightarrow> bool" where
  "is_whitespace c \<longleftrightarrow> 9 \<le> c \<and> c \<le> 13
     \<or> c \<in> {32, 0x85, 0xa0, 0x1680, 0x2028, 0x2029, 0x202f, 0x205f, 0x3000} \<or> 0x2000 \<le> c \<and> c \<le> 0x200a"

definition str_trim :: "rust_str \<Rightarrow> rust_str" where
  "str_trim s = rev (dropWhile is_whitespace (rev (dropWhile is_whitespace s)))"

definition name_valid :: "rust_str \<Rightarrow> bool" where
  "name_valid name \<longleftrightarrow> name \<noteq> [] \<and> str_len name \<le> 128 \<and> str_trim name = name \<and> \<not> list_ex is_control name"

section \<open>Networks\<close>

record 'net net_env =
  nt_addr :: "'net \<Rightarrow> ip_addr"
  nt_network :: "'net \<Rightarrow> ip_addr"
  nt_broadcast :: "'net \<Rightarrow> ip_addr"
  nt_prefix_len :: "'net \<Rightarrow> nat"
  nt_contains :: "'net \<Rightarrow> ip_addr \<Rightarrow> bool"
  nt_default_v4 :: 'net
  nt_default_v6 :: 'net
  nt_version :: "uuid \<Rightarrow> nat"

definition is_nil :: "uuid \<Rightarrow> bool" where
  "is_nil u = (u = replicate 16 0)"

section \<open>Internet grants (internet\_addresses.rs)\<close>

definition public_v4 :: "bytes \<Rightarrow> bool" where
  "public_v4 ip = (let a = ip ! 0; b = ip ! 1; c = ip ! 2; d = ip ! 3 in
     \<not> (a = 0 \<or> a = 10 \<or> a = 127 \<or> a \<ge> 224
        \<or> a = 100 \<and> 64 \<le> b \<and> b \<le> 127
        \<or> a = 169 \<and> b = 254
        \<or> a = 172 \<and> 16 \<le> b \<and> b \<le> 31
        \<or> a = 192 \<and> b = 168
        \<or> a = 192 \<and> b = 0 \<and> c = 0 \<and> d \<notin> {9, 10}
        \<or> a = 192 \<and> b = 0 \<and> c = 2
        \<or> a = 192 \<and> b = 88 \<and> c = 99
        \<or> a = 198 \<and> b \<in> {18, 19}
        \<or> a = 198 \<and> b = 51 \<and> c = 100
        \<or> a = 203 \<and> b = 0 \<and> c = 113))"

text \<open>\<open>Ipv6Addr::segments\<close>.\<close>

definition segment :: "bytes \<Rightarrow> nat \<Rightarrow> u16" where
  "segment ip i = be16 (ip ! (2 * i)) (ip ! (2 * i + 1))"

fun internet_destination :: "ip_addr \<Rightarrow> bool" where
  "internet_destination (V4 ip) = public_v4 ip"
| "internet_destination (V6 ip) =
     (let prefix = segment ip 0; subnet = segment ip 1 in
      if map (segment ip) [0, 1, 2, 3, 4, 5] = [0x64, 0xff9b, 0, 0, 0, 0] then
        public_v4 [ip ! 12, ip ! 13, ip ! 14, ip ! 15]
      else if prefix AND 0xe000 \<noteq> 0x2000 \<or> prefix = 0x2002 \<or> prefix = 0x2001 \<and> subnet = 0xdb8
        \<or> prefix = 0x3fff \<and> subnet < 0x1000
      then False
      else if prefix = 0x2001 \<and> subnet < 0x200 then
        subnet = 1 \<and> map (segment ip) [2, 3, 4, 5, 6] = [0, 0, 0, 0, 0] \<and> segment ip 7 \<in> {1, 2, 3}
        \<or> subnet = 3 \<or> subnet = 4 \<and> segment ip 2 = 0x112 \<or> 0x20 \<le> subnet \<and> subnet \<le> 0x3f
      else True)"

section \<open>Targets and bindings (resources.rs, target\_health.rs)\<close>

datatype 'net resource_target = Target_Subnet 'net uuid | Target_Internet bool bool

fun target_specificity :: "'net net_env \<Rightarrow> 'net resource_target \<Rightarrow> nat" where
  "target_specificity env (Target_Subnet prefix _) = nt_prefix_len env prefix"
| "target_specificity env (Target_Internet _ _) = 0"

fun target_contains :: "'net net_env \<Rightarrow> 'net resource_target \<Rightarrow> ip_addr \<Rightarrow> bool" where
  "target_contains env (Target_Subnet prefix _) address = nt_contains env prefix address"
| "target_contains env (Target_Internet ipv4 ipv6) address =
     ((if is_ipv6 address then ipv6 else ipv4) \<and> internet_destination address)"

fun target_validate :: "'net net_env \<Rightarrow> 'net resource_target \<Rightarrow> (unit, management_error) outcome" where
  "target_validate env (Target_Subnet prefix site) =
     (if is_nil site \<or> nt_prefix_len env prefix = 0 \<or> nt_addr env prefix \<noteq> nt_network env prefix
         \<or> is_unspecified (nt_addr env prefix) \<or> is_multicast (nt_addr env prefix) \<or> is_loopback (nt_addr env prefix)
      then Err (Management_Invalid ''target.prefix'') else Ok ())"
| "target_validate env (Target_Internet ipv4 ipv6) =
     (if \<not> ipv4 \<and> \<not> ipv6 then Err (Management_Invalid ''target.address_families'') else Ok ())"

record target_probe =
  tp_address :: ip_addr
  tp_port :: u16

definition is_link_local_v4 :: "bytes \<Rightarrow> bool" where
  "is_link_local_v4 ip \<longleftrightarrow> ip ! 0 = 169 \<and> ip ! 1 = 254"

definition is_ipv4_mapped :: "bytes \<Rightarrow> bool" where
  "is_ipv4_mapped ip \<longleftrightarrow> take 12 ip = replicate 10 0 @ [0xff, 0xff]"

definition probe_validate :: "'net net_env \<Rightarrow> target_probe \<Rightarrow> 'net resource_target \<Rightarrow> (unit, management_error) outcome" where
  "probe_validate env probe target =
     (if tp_port probe = 0 \<or> \<not> target_contains env target (tp_address probe) \<or> is_loopback (tp_address probe)
         \<or> is_multicast (tp_address probe) \<or> is_unspecified (tp_address probe)
         \<or> (case tp_address probe of
              V4 ip \<Rightarrow> is_link_local_v4 ip \<or> is_broadcast ip
            | V6 ip \<Rightarrow> is_unicast_link_local ip \<or> is_ipv4_mapped ip)
      then Err (Management_Invalid ''health_probe'') else Ok ())"

type_synonym labels = "(rust_str \<times> rust_str) list"

record 'net resource_definition =
  rd_name :: rust_str
  rd_target :: "'net resource_target"
  rd_labels :: labels
  rd_health_probe :: "target_probe option"

definition definition_validate :: "'net net_env \<Rightarrow> 'net resource_definition \<Rightarrow> (unit, management_error) outcome" where
  "definition_validate env d =
     (if \<not> name_valid (rd_name d) then Err (Management_Invalid ''name'')
      else if length (rd_labels d) > 32
        \<or> list_ex (\<lambda>(key, value). \<not> name_valid key \<or> value = [] \<or> str_len value > 256 \<or> list_ex is_control value) (rd_labels d)
      then Err (Management_Invalid ''labels'')
      else and_then (target_validate env (rd_target d)) (\<lambda>_.
        case rd_health_probe d of None \<Rightarrow> Ok () | Some probe \<Rightarrow> probe_validate env probe (rd_target d)))"

record 'net network_resource =
  nr_id :: uuid
  nr_mesh_id :: uuid
  nr_version :: nat
  nr_definition :: "'net resource_definition"

datatype forwarding_mode = Snat | PreserveSource

datatype approval_source = Manual | Automatic uuid nat

record gateway_binding =
  gb_id :: uuid
  gb_resource_id :: uuid
  gb_peer_id :: uuid
  gb_version :: nat
  gb_approved :: bool
  gb_priority :: nat
  gb_forwarding :: forwarding_mode
  gb_return_route_confirmed :: bool
  gb_approval_source :: approval_source

definition binding_validate :: "'net net_env \<Rightarrow> gateway_binding \<Rightarrow> (unit, management_error) outcome" where
  "binding_validate env b =
     (if nt_version env (gb_id b) \<noteq> 4 \<or> is_nil (gb_resource_id b) \<or> gb_version b = 0
      then Err (Management_Invalid ''binding'')
      else if (case gb_approval_source b of
                 Manual \<Rightarrow> False
               | Automatic rule version \<Rightarrow> nt_version env rule \<noteq> 4 \<or> version = 0)
      then Err (Management_Invalid ''approval_source'')
      else if gb_approved b \<and> gb_forwarding b = PreserveSource \<and> \<not> gb_return_route_confirmed b
      then Err (Management_Invalid ''return_route_confirmed'')
      else Ok ())"

record route_advertisement =
  ra_binding_version :: nat
  ra_binding_id :: uuid
  ra_peer_id :: uuid
  ra_sequence :: nat
  ra_published :: bool
  ra_valid_until :: nat
  ra_forwarding_ready :: bool

record 'net device_selector =
  ds_peers :: "uuid list"
  ds_labels :: labels
  ds_cidrs :: "'net list"

definition selector_validate :: "'net net_env \<Rightarrow> 'net device_selector \<Rightarrow> (unit, management_error) outcome" where
  "selector_validate env s =
     (if length (ds_peers s) > 4096 \<or> length (ds_labels s) > 32 \<or> length (ds_cidrs s) > 64
         \<or> list_ex (\<lambda>(key, value). key = [] \<or> str_len key > 64 \<or> str_len value > 128 \<or> list_ex is_control (key @ value)) (ds_labels s)
         \<or> list_ex (\<lambda>prefix. nt_network env prefix \<noteq> nt_addr env prefix) (ds_cidrs s)
      then Err (Management_Invalid ''selector'') else Ok ())"

definition device_matches :: "'net net_env \<Rightarrow> 'net device_selector \<Rightarrow> uuid \<Rightarrow> ip_addr \<Rightarrow> labels \<Rightarrow> bool" where
  "device_matches env s peer address labels \<longleftrightarrow>
     (ds_peers s = [] \<or> peer \<in> set (ds_peers s))
     \<and> list_all (\<lambda>(key, value). map_of labels key = Some value) (ds_labels s)
     \<and> (ds_cidrs s = [] \<or> list_ex (\<lambda>cidr. nt_contains env cidr address) (ds_cidrs s))"

definition overlaps :: "'net net_env \<Rightarrow> 'net \<Rightarrow> 'net \<Rightarrow> bool" where
  "overlaps env left right \<longleftrightarrow>
     nt_contains env left (nt_network env right) \<or> nt_contains env right (nt_network env left)"

fun ambiguous_with :: "'net net_env \<Rightarrow> 'net \<Rightarrow> uuid \<Rightarrow> 'net resource_target \<Rightarrow> bool" where
  "ambiguous_with env prefix site (Target_Subnet other other_site) = (site \<noteq> other_site \<and> overlaps env prefix other)"
| "ambiguous_with env prefix site (Target_Internet _ _) = False"

definition validate_resource_conflicts ::
    "'net net_env \<Rightarrow> 'net resource_target \<Rightarrow> 'net resource_target list \<Rightarrow> 'net list \<Rightarrow> (unit, management_error) outcome" where
  "validate_resource_conflicts env resource others virtual_pools =
     and_then (target_validate env resource) (\<lambda>_.
     case resource of
       Target_Internet _ _ \<Rightarrow> Ok ()
     | Target_Subnet prefix site \<Rightarrow>
         if list_ex (\<lambda>pool. overlaps env prefix pool) virtual_pools then Err (Management_Conflict ''virtual_pool'')
         else if list_ex (ambiguous_with env prefix site) others then Err (Management_Conflict ''site_address_ambiguity'')
         else Ok ())"

section \<open>Address assignments (addresses.rs)\<close>

definition validate_assignments ::
    "'net net_env \<Rightarrow> 'net \<Rightarrow> 'net option \<Rightarrow> 'net list \<Rightarrow> (unit, management_error) outcome" where
  "validate_assignments env primary secondary routes =
     (let assigned = primary # (case secondary of None \<Rightarrow> [] | Some address \<Rightarrow> [address]);
          v4 = (\<lambda>net. \<not> is_ipv6 (nt_addr env net)) in
      if (case secondary of None \<Rightarrow> False | Some address \<Rightarrow> v4 address = v4 primary)
        \<or> list_ex (\<lambda>address. is_unspecified (nt_addr env address) \<or> is_multicast (nt_addr env address)
             \<or> \<not> list_ex (\<lambda>route. nt_contains env route (nt_addr env address)) routes) assigned
        \<or> list_ex (\<lambda>route. \<not> list_ex (\<lambda>address. v4 address = v4 route) assigned) routes
      then Err (Management_Invalid ''address assignments and route families'') else Ok ())"

section \<open>Automatic approval (auto\_approval.rs)\<close>

record 'net auto_approval =
  aa_name :: rust_str
  aa_enabled :: bool
  aa_device_collection :: uuid
  aa_site_id :: uuid
  aa_prefixes :: "'net list"

fun validate_prefixes :: "'net net_env \<Rightarrow> uuid \<Rightarrow> 'net list \<Rightarrow> 'net list \<Rightarrow> (unit, management_error) outcome" where
  "validate_prefixes env site unique [] = Ok ()"
| "validate_prefixes env site unique (prefix # prefixes) =
     and_then (target_validate env (Target_Subnet prefix site)) (\<lambda>_.
     if prefix \<in> set unique then Err (Management_Invalid ''auto_approval.prefixes'')
     else validate_prefixes env site (prefix # unique) prefixes)"

definition approval_validate :: "'net net_env \<Rightarrow> 'net auto_approval \<Rightarrow> (unit, management_error) outcome" where
  "approval_validate env rule =
     (if \<not> name_valid (aa_name rule) \<or> nt_version env (aa_device_collection rule) \<noteq> 4
         \<or> nt_version env (aa_site_id rule) \<noteq> 4 \<or> aa_prefixes rule = [] \<or> length (aa_prefixes rule) > 32
      then Err (Management_Invalid ''auto_approval'')
      else validate_prefixes env (aa_site_id rule) [] (aa_prefixes rule))"

fun approval_covers :: "'net net_env \<Rightarrow> 'net auto_approval \<Rightarrow> 'net resource_target \<Rightarrow> bool" where
  "approval_covers env rule (Target_Subnet prefix site) \<longleftrightarrow>
     aa_enabled rule \<and> site = aa_site_id rule
     \<and> list_ex (\<lambda>allowed. nt_prefix_len env allowed \<le> nt_prefix_len env prefix
          \<and> nt_contains env allowed (nt_network env prefix) \<and> nt_contains env allowed (nt_broadcast env prefix)) (aa_prefixes rule)"
| "approval_covers env rule (Target_Internet _ _) \<longleftrightarrow> False"


section \<open>What CIDR blocks promise\<close>

text \<open>
  Two blocks are nested or disjoint, and a block that is not longer than another and contains its
  first address contains all of it.
\<close>

definition cidr_laws :: "'net net_env \<Rightarrow> bool" where
  "cidr_laws env \<longleftrightarrow>
     (\<forall>n m a. nt_contains env n a \<and> nt_contains env m a \<longrightarrow>
        nt_contains env n (nt_network env m) \<or> nt_contains env m (nt_network env n))
     \<and> (\<forall>n m a. nt_prefix_len env n \<le> nt_prefix_len env m \<and> nt_contains env n (nt_network env m) \<and> nt_contains env m a \<longrightarrow>
        nt_contains env n a)"

text \<open>IPv4 blocks on octet boundaries, an instance: a block is the number of its fixed octets and its octets.\<close>

type_synonym octet_net = "nat \<times> bytes"

fun octet_contains :: "octet_net \<Rightarrow> ip_addr \<Rightarrow> bool" where
  "octet_contains (k, bs) (V4 ip) \<longleftrightarrow> k \<le> 4 \<and> length bs = 4 \<and> length ip = 4 \<and> take k ip = take k bs"
| "octet_contains (k, bs) (V6 _) \<longleftrightarrow> False"

definition octet_env :: "octet_net net_env" where
  "octet_env = \<lparr>nt_addr = (\<lambda>(k, bs). V4 bs), nt_network = (\<lambda>(k, bs). V4 (take k bs @ replicate (4 - k) 0)),
     nt_broadcast = (\<lambda>(k, bs). V4 (take k bs @ replicate (4 - k) 255)), nt_prefix_len = (\<lambda>(k, bs). 8 * k),
     nt_contains = octet_contains, nt_default_v4 = (0, replicate 4 0), nt_default_v6 = (0, []),
     nt_version = (\<lambda>_. 4)\<rparr>"

lemma octet_nested:
  assumes "octet_contains (k, x) a" and "octet_contains (l, y) a" and "k \<le> l"
  shows "octet_contains (k, x) (V4 (take l y @ replicate (4 - l) 0))"
proof (cases a)
  case (V4 ip)
  have "take k (take l y) = take k (take l ip)" using assms V4 by simp
  then have "take k y = take k ip" using assms(3) by (simp add: min_absorb1)
  then show ?thesis using assms V4 by simp
qed (use assms in simp)

lemma octet_laws: "cidr_laws octet_env"
  unfolding cidr_laws_def
proof (intro conjI allI impI)
  fix n m :: octet_net and a
  obtain k x l y where nm: "n = (k, x)" "m = (l, y)" by (cases n; cases m)
  show "nt_contains octet_env n (nt_network octet_env m) \<or> nt_contains octet_env m (nt_network octet_env n)"
    if both: "nt_contains octet_env n a \<and> nt_contains octet_env m a"
    using both octet_nested [of k x a l y] octet_nested [of l y a k x]
    by (cases "k \<le> l") (simp_all add: nm octet_env_def)
  show "nt_contains octet_env n a"
    if inside: "nt_prefix_len octet_env n \<le> nt_prefix_len octet_env m \<and> nt_contains octet_env n (nt_network octet_env m) \<and> nt_contains octet_env m a"
  proof -
    have kl: "k \<le> l" and n: "octet_contains (k, x) (V4 (take l y @ replicate (4 - l) 0))" and m: "octet_contains (l, y) a"
      using inside unfolding nm octet_env_def by (simp_all del: octet_contains.simps)
    obtain ip where a: "a = V4 ip" using m by (cases a) simp_all
    have "length y = 4" "l \<le> 4" using m a by simp_all
    then have "take k (take l y) = take k x" using n kl by simp
    moreover have "take k ip = take k (take l ip)" using kl by (simp add: min_absorb1)
    moreover have "take l ip = take l y" using m a by simp
    ultimately have "take k ip = take k x" by (simp only:)
    then show ?thesis using n m a by (simp add: nm octet_env_def)
  qed
qed

section \<open>Address classes\<close>

lemma high_bits: "(x :: u16) AND 0xe000 = push_bit 13 (drop_bit 13 x)"
proof -
  have "(0xe000 :: u16) = NOT (mask 13)" by (simp add: mask_eq_exp_minus_1)
  moreover have "x AND NOT (mask 13) = push_bit 13 (drop_bit 13 x)" by (rule bit_word_eqI) (auto simp: bit_simps)
  ultimately show ?thesis by (simp only:)
qed

lemma global_unicast_byte:
  assumes "be16 a b AND 0xe000 = 0x2000"
  shows "0x20 \<le> a \<and> a < 0x40"
proof -
  let ?x = "be16 a b"
  have lt: "unat ?x < 65536" using unsigned_less [of ?x, where ?'a = nat] by simp
  have "unat (drop_bit 13 ?x) = drop_bit 13 (unat ?x)" by (rule unat_drop_bit_eq)
  then have "unat (drop_bit 13 ?x) = unat ?x div 8192" by (simp only: drop_bit_eq_div) simp
  moreover have "unat ?x div 8192 < 8" using lt by (simp add: div_less_iff_less_mult)
  ultimately have "unat (push_bit 13 (drop_bit 13 ?x)) = (unat ?x div 8192) * 8192"
    by (simp only: push_bit_eq_mult unat_word_ariths) simp
  then have "(unat ?x div 8192) * 8192 = 8192" using assms by (simp only: high_bits) simp
  then have "8192 \<le> unat ?x \<and> unat ?x < 16384" by linarith
  then have "32 \<le> unat a \<and> unat a < 64" using unat_u8_less [of b] unfolding unat_be16 by linarith
  then show ?thesis by (simp add: word_le_nat_alt word_less_nat_alt)
qed

lemma be16_zero_iff: "be16 a b = 0 \<longleftrightarrow> a = 0 \<and> b = 0"
  by (metis add_is_0 mult_is_0 unat_0 unat_be16 unat_eq_zero zero_neq_numeral)

text \<open>Private and shared ranges of IPv4; unique-local IPv6.\<close>

definition private_v4 :: "bytes \<Rightarrow> bool" where
  "private_v4 ip \<longleftrightarrow> ip ! 0 = 10 \<or> ip ! 0 = 172 \<and> 16 \<le> ip ! 1 \<and> ip ! 1 \<le> 31 \<or> ip ! 0 = 192 \<and> ip ! 1 = 168
     \<or> ip ! 0 = 100 \<and> 64 \<le> ip ! 1 \<and> ip ! 1 \<le> 127"

definition unique_local :: "bytes \<Rightarrow> bool" where
  "unique_local ip \<longleftrightarrow> ip ! 0 AND 0xfe = 0xfc"

fun local_address :: "ip_addr \<Rightarrow> bool" where
  "local_address (V4 ip) \<longleftrightarrow> is_unspecified (V4 ip) \<or> is_loopback (V4 ip) \<or> is_multicast (V4 ip) \<or> is_broadcast ip
     \<or> is_link_local_v4 ip \<or> private_v4 ip"
| "local_address (V6 ip) \<longleftrightarrow> is_unspecified (V6 ip) \<or> is_loopback (V6 ip) \<or> is_multicast (V6 ip)
     \<or> is_unicast_link_local ip \<or> is_ipv4_mapped ip \<or> unique_local ip"

lemma public_not_local: "public_v4 ip \<Longrightarrow> \<not> local_address (V4 ip)"
proof -
  assume p: "public_v4 ip"
  then have a: "ip ! 0 \<noteq> 0" "ip ! 0 \<noteq> 10" "ip ! 0 \<noteq> 127" "\<not> 224 \<le> ip ! 0" by (simp_all add: public_v4_def Let_def)
  have "\<not> is_link_local_v4 ip" "\<not> private_v4 ip"
    using p by (simp_all add: public_v4_def Let_def is_link_local_v4_def private_v4_def)
  moreover have "ip \<noteq> replicate 4 0" using a(1) by auto
  moreover have "ip \<noteq> replicate 4 255" using a(4) by auto
  ultimately show ?thesis using a by (simp add: is_broadcast_def)
qed

lemma internet_v6_first_bytes:
  assumes "internet_destination (V6 ip)"
  shows "ip ! 0 = 0 \<and> ip ! 1 = 0x64 \<or> 0x20 \<le> ip ! 0 \<and> ip ! 0 < 0x40"
proof (cases "map (segment ip) [0, 1, 2, 3, 4, 5] = [0x64, 0xff9b, 0, 0, 0, 0]")
  case True
  then have "unat (be16 (ip ! 0) (ip ! 1)) = 100" by (simp add: segment_def)
  then have "unat (ip ! 0) * 256 + unat (ip ! 1) = 100" by (simp add: unat_be16)
  moreover from this have "unat (ip ! 0) = 0" by linarith
  ultimately have "unat (ip ! 0) = 0" "unat (ip ! 1) = 100" by simp_all
  then show ?thesis by (simp add: word_unat_eq_iff)
next
  case False
  then have "segment ip 0 AND 0xe000 = 0x2000" using assms by (auto simp: Let_def split: if_splits)
  then show ?thesis using global_unicast_byte by (simp add: segment_def)
qed

lemma internet_not_local:
  assumes "internet_destination a"
  shows "\<not> local_address a"
proof (cases a)
  case (V4 ip)
  then show ?thesis using assms public_not_local by simp
next
  case (V6 ip)
  have first: "ip ! 0 = 0 \<and> ip ! 1 = 0x64 \<or> 0x20 \<le> ip ! 0 \<and> ip ! 0 < 0x40" using assms V6 internet_v6_first_bytes by blast
  have unspecified: "ip \<noteq> replicate 16 0" "ip \<noteq> replicate 15 0 @ [1]" "take 12 ip \<noteq> replicate 10 0 @ [0xff, 0xff]"
  proof -
    have "ip ! 0 \<noteq> 0 \<or> ip ! 1 \<noteq> 0" using first by auto
    then show "ip \<noteq> replicate 16 0" "ip \<noteq> replicate 15 0 @ [1]" by (auto simp: nth_append)
    show "take 12 ip \<noteq> replicate 10 0 @ [0xff, 0xff]"
    proof
      assume "take 12 ip = replicate 10 0 @ [0xff, 0xff]"
      then have "take 12 ip ! 0 = 0" "take 12 ip ! 1 = 0" by (simp_all add: nth_append)
      then show False using \<open>ip ! 0 \<noteq> 0 \<or> ip ! 1 \<noteq> 0\<close> by simp
    qed
  qed
  have "ip ! 0 \<noteq> 255" "ip ! 0 \<noteq> 0xfe" using first by auto
  moreover have "ip ! 0 AND 0xfe \<noteq> 0xfc"
  proof
    assume "ip ! 0 AND 0xfe = 0xfc"
    then have "0xfc \<le> ip ! 0" using word_and_le2 [of "ip ! 0" "0xfe"] by (simp add: and.commute)
    then show False using first by (auto dest: order.strict_trans1)
  qed
  ultimately show ?thesis
    using V6 unspecified by (simp add: is_unicast_link_local_def is_ipv4_mapped_def unique_local_def)
qed

section \<open>Properties\<close>

text \<open>(C21) The boundary of an Internet grant.  An Internet resource never contains an address of the gateway's
  own surroundings: unspecified, loopback, multicast, broadcast, link-local, private and shared IPv4
  addresses, unique-local, link-local and IPv4-mapped IPv6 addresses; nor one whose family it
  was not granted.  An IPv6 address of the well-known NAT64 prefix is granted exactly when the IPv4
  address it embeds is.
\<close>

theorem internet_grant_boundary:
  "(target_contains env (Target_Internet ipv4 ipv6) a \<longrightarrow>
      \<not> local_address a \<and> (if is_ipv6 a then ipv6 else ipv4))
   \<and> (length ip = 4 \<longrightarrow>
      internet_destination (V6 ([0, 0x64, 0xff, 0x9b] @ replicate 8 0 @ ip)) = internet_destination (V4 ip))"
proof -
  have "internet_destination (V6 ([0, 0x64, 0xff, 0x9b] @ replicate 8 0 @ ip)) = internet_destination (V4 ip)"
    if len: "length ip = 4"
  proof -
    obtain a b c d where ip: "ip = [a, b, c, d]" using len by (auto simp: length_Suc_conv numeral_eq_Suc)
    have "replicate 8 0 = [0, 0, 0, 0, 0, 0, 0, 0 :: u8]" by (simp add: numeral_eq_Suc)
    moreover have "be16 0 0x64 = 0x64" "be16 0xff 0x9b = 0xff9b" "be16 0 0 = 0" by (simp_all add: be16_def)
    ultimately show ?thesis by (simp add: ip segment_def public_v4_def)
  qed
  then show ?thesis using internet_not_local by simp
qed

theorem internet_grant_boundary_witness:
  "\<not> local_address (V4 [8, 8, 8, 8]) \<and> internet_destination (V4 [8, 8, 8, 8])
   \<and> \<not> internet_destination (V6 ([0, 0x64, 0xff, 0x9b] @ replicate 8 0 @ [169, 254, 169, 254]))"
proof -
  have "target_contains octet_env (Target_Internet True False) (V4 [8, 8, 8, 8])" by code_simp
  moreover have "\<not> internet_destination (V4 [169, 254, 169, 254])" by code_simp
  ultimately show ?thesis
    using internet_grant_boundary [of octet_env True False "V4 [8, 8, 8, 8]" "[169, 254, 169, 254]"] by simp
qed

text \<open>Addresses name one site.  If a subnet passes the conflict check, no address lies both in it and in a
  virtual pool of the Mesh, or in it and in a subnet of another site; so a packet's destination never
  depends on which of two sites is asked.
\<close>

theorem resource_addresses_unambiguous:
  assumes "cidr_laws env" and "validate_resource_conflicts env (Target_Subnet prefix site) others pools = Ok ()"
    and "nt_contains env prefix a"
  shows "(\<forall>pool\<in>set pools. \<not> nt_contains env pool a)
    \<and> (\<forall>other other_site. Target_Subnet other other_site \<in> set others \<and> nt_contains env other a \<longrightarrow> other_site = site)"
proof -
  have meet: "overlaps env prefix n" if "nt_contains env n a" for n
    using assms(1,3) that unfolding cidr_laws_def overlaps_def by blast
  have "\<forall>pool\<in>set pools. \<not> overlaps env prefix pool" "\<forall>t\<in>set others. \<not> ambiguous_with env prefix site t"
    using assms(2) by (auto simp: validate_resource_conflicts_def and_then_Ok_iff list_ex_iff split: if_splits)
  then show ?thesis using meet by (metis ambiguous_with.simps(1))
qed

theorem resource_addresses_unambiguous_witness:
  "\<not> nt_contains octet_env (1, [10, 0, 0, 0]) (V4 [192, 168, 7, 7])"
proof -
  have "validate_resource_conflicts octet_env (Target_Subnet (2, [192, 168, 0, 0]) (replicate 16 1))
      [Target_Subnet (2, [192, 167, 0, 0]) (replicate 16 2)] [(1, [10, 0, 0, 0])] = Ok ()" by code_simp
  from resource_addresses_unambiguous [OF octet_laws this, of "V4 [192, 168, 7, 7]"] show ?thesis
    by (simp add: octet_env_def)
qed

text \<open>Automatic approval stays inside its authority.  A rule covers a target only while it is enabled, only at its
  own site, and every address of the target lies in one of its prefixes; it never covers an Internet target.
\<close>

theorem auto_approval_bounded:
  assumes "cidr_laws env" and "approval_covers env rule target"
  shows "aa_enabled rule \<and> (\<exists>prefix. target = Target_Subnet prefix (aa_site_id rule))
    \<and> (\<exists>allowed\<in>set (aa_prefixes rule). \<forall>a. target_contains env target a \<longrightarrow> nt_contains env allowed a)"
proof (cases target)
  case (Target_Subnet prefix site)
  then obtain allowed where "allowed \<in> set (aa_prefixes rule)" "nt_prefix_len env allowed \<le> nt_prefix_len env prefix"
      "nt_contains env allowed (nt_network env prefix)" "aa_enabled rule" "site = aa_site_id rule"
    using assms(2) by (auto simp: list_ex_iff)
  moreover have "nt_contains env allowed a" if "nt_contains env prefix a" for a
    using assms(1) calculation(2,3) that unfolding cidr_laws_def by blast
  ultimately show ?thesis using Target_Subnet by auto
qed (use assms in simp)

definition sample_approval :: "octet_net auto_approval" where
  "sample_approval = \<lparr>aa_name = [65], aa_enabled = True, aa_device_collection = replicate 16 1, aa_site_id = replicate 16 2,
     aa_prefixes = [(2, [192, 168, 0, 0])]\<rparr>"

theorem auto_approval_bounded_witness:
  "approval_covers octet_env sample_approval (Target_Subnet (3, [192, 168, 20, 0]) (replicate 16 2)) \<and> aa_enabled sample_approval"
proof -
  have c: "approval_covers octet_env sample_approval (Target_Subnet (3, [192, 168, 20, 0]) (replicate 16 2))" by code_simp
  then show ?thesis using auto_approval_bounded [OF octet_laws c] by blast
qed

end
