(* ===== verification/ResourcePolicy.thy ===== *)
theory ResourcePolicy
  imports ManagementResources
begin

text \<open>
  Who may reach which resource through which provider:
  collections of \<open>crates/peerward-management/src/collections.rs\<close> and the rules of
  \<open>resource_policy.rs\<close>.  A packet names no resource; the most specific targets that contain its
  destination are its aliases, and the rules for all of them share one order.
\<close>

section \<open>Collections\<close>

datatype collection_kind = Devices | Resources

record collection_definition =
  cd_name :: rust_str
  cd_kind :: collection_kind
  cd_members :: "uuid list"
  cd_labels :: labels

record resolved_collection =
  rc_id :: uuid
  rc_kind :: collection_kind
  rc_members :: "uuid list"

definition collection_validate :: "'net net_env \<Rightarrow> collection_definition \<Rightarrow> (unit, management_error) outcome" where
  "collection_validate env d =
     (if \<not> name_valid (cd_name d) \<or> length (cd_members d) > 4096 \<or> length (cd_labels d) > 32
         \<or> list_ex (\<lambda>u. nt_version env u \<noteq> 4) (cd_members d)
         \<or> list_ex (\<lambda>(key, value). \<not> name_valid key \<or> value = [] \<or> str_len value > 256 \<or> list_ex is_control value) (cd_labels d)
      then Err (Management_Invalid ''collection'') else Ok ())"

definition belongs :: "collection_definition \<Rightarrow> uuid \<times> labels \<Rightarrow> bool" where
  "belongs d = (\<lambda>(member, labels). member \<in> set (cd_members d)
     \<or> cd_labels d \<noteq> [] \<and> list_all (\<lambda>(key, value). map_of labels key = Some value) (cd_labels d))"

definition resolve_collection :: "collection_definition \<Rightarrow> uuid \<Rightarrow> (uuid \<times> labels) list \<Rightarrow> resolved_collection" where
  "resolve_collection d u candidates =
     \<lparr>rc_id = u, rc_kind = cd_kind d,
      rc_members = fold bset_insert (map fst (filter (belongs d) candidates)) []\<rparr>"

definition collection_contains :: "resolved_collection list \<Rightarrow> uuid list \<Rightarrow> collection_kind \<Rightarrow> uuid \<Rightarrow> bool" where
  "collection_contains collections selected kind member \<longleftrightarrow>
     list_ex (\<lambda>c. rc_kind c = kind \<and> rc_id c \<in> set selected \<and> member \<in> set (rc_members c)) collections"

section \<open>Rules\<close>

datatype resource_action = Deny_Resource | Allow_Resource

fun action_rank :: "resource_action \<Rightarrow> nat" where
  "action_rank Deny_Resource = 0"
| "action_rank Allow_Resource = 1"

record 'net resource_rule =
  rr_id :: uuid
  rr_priority :: nat
  rr_enabled :: bool
  rr_action :: resource_action
  rr_source :: "'net device_selector"
  rr_resources :: "uuid list"
  rr_source_collections :: "uuid list"
  rr_resource_collections :: "uuid list"
  rr_providers :: "uuid list"
  rr_protocol :: u8
  rr_destination_ports :: "(u16 \<times> u16) list"
  rr_not_after :: "nat option"

definition resource_rule_validate :: "'net net_env \<Rightarrow> 'net resource_rule \<Rightarrow> (unit, management_error) outcome" where
  "resource_rule_validate env r =
     and_then (selector_validate env (rr_source r)) (\<lambda>_.
     if length (rr_providers r) > 4096 then Err (Management_Invalid ''resource_rule.providers'')
     else if nt_version env (rr_id r) \<noteq> 4 \<or> rr_resources r = [] \<and> rr_resource_collections r = []
       \<or> length (rr_source_collections r) > 64 \<or> length (rr_resource_collections r) > 64
       \<or> length (rr_resources r) > 4096 \<or> length (rr_destination_ports r) > 64
       \<or> rr_protocol r \<notin> {0, 1, 6, 17, 58}
       \<or> rr_destination_ports r \<noteq> [] \<and> rr_protocol r \<notin> {6, 17}
       \<or> list_ex (\<lambda>(first, final). first = 0 \<or> first > final) (rr_destination_ports r)
     then Err (Management_Invalid ''resource_rule'')
     else Ok ())"

record resource_access =
  rx_source_peer :: uuid
  rx_source_address :: ip_addr
  rx_source_labels :: labels
  rx_resource :: uuid
  rx_provider :: uuid
  rx_protocol :: u8
  rx_destination_port :: "u16 option"
  rx_now :: nat

definition resource_rule_matches :: "'net net_env \<Rightarrow> 'net resource_rule \<Rightarrow> resolved_collection list \<Rightarrow> resource_access \<Rightarrow> bool" where
  "resource_rule_matches env rule collections access \<longleftrightarrow>
     rr_enabled rule
     \<and> is_ok (resource_rule_validate env rule)
     \<and> (case rr_not_after rule of None \<Rightarrow> True | Some until \<Rightarrow> rx_now access < until)
     \<and> (rx_resource access \<in> set (rr_resources rule)
        \<or> collection_contains collections (rr_resource_collections rule) Resources (rx_resource access))
     \<and> (rr_source_collections rule = []
        \<or> collection_contains collections (rr_source_collections rule) Devices (rx_source_peer access))
     \<and> (rr_providers rule = [] \<or> rx_provider access \<in> set (rr_providers rule))
     \<and> device_matches env (rr_source rule) (rx_source_peer access) (rx_source_address access) (rx_source_labels access)
     \<and> (rr_protocol rule = 0 \<or> rr_protocol rule = rx_protocol access)
     \<and> (rr_destination_ports rule = []
        \<or> (case rx_destination_port access of
             None \<Rightarrow> False
           | Some port \<Rightarrow> list_ex (\<lambda>(first, final). first \<le> port \<and> port \<le> final) (rr_destination_ports rule)))"

text \<open>\<open>Iterator::min_by_key\<close> returns the first of the least elements.\<close>

fun min_by_key :: "('a \<Rightarrow> 'k::linorder) \<Rightarrow> 'a list \<Rightarrow> 'a option" where
  "min_by_key f [] = None"
| "min_by_key f (x # xs) =
     (case min_by_key f xs of None \<Rightarrow> Some x | Some y \<Rightarrow> if f y < f x then Some y else Some x)"

definition decide_resource_with_collections ::
    "'net net_env \<Rightarrow> 'net resource_rule list \<Rightarrow> resolved_collection list \<Rightarrow> resource_access
     \<Rightarrow> resource_action \<times> uuid option" where
  "decide_resource_with_collections env rules collections access =
     (case min_by_key (\<lambda>r. (rr_priority r, action_rank (rr_action r), rr_id r))
         (filter (\<lambda>r. resource_rule_matches env r collections access) rules) of
        None \<Rightarrow> (Deny_Resource, None)
      | Some rule \<Rightarrow> (rr_action rule, Some (rr_id rule)))"

definition decide_resource :: "'net net_env \<Rightarrow> 'net resource_rule list \<Rightarrow> resource_access \<Rightarrow> resource_action \<times> uuid option" where
  "decide_resource env rules access = decide_resource_with_collections env rules [] access"

section \<open>Aliases of a packet\<close>

definition names_packet :: "'net net_env \<Rightarrow> ip_addr \<Rightarrow> uuid option \<Rightarrow> 'net network_resource \<Rightarrow> bool" where
  "names_packet env address exit r \<longleftrightarrow>
     target_contains env (rd_target (nr_definition r)) address
     \<and> (case rd_target (nr_definition r) of
          Target_Subnet _ _ \<Rightarrow> True
        | Target_Internet _ _ \<Rightarrow> Some (nr_id r) = exit)"

definition packet_resource_aliases :: "'net net_env \<Rightarrow> 'net network_resource list \<Rightarrow> ip_addr \<Rightarrow> uuid option \<Rightarrow> uuid list" where
  "packet_resource_aliases env resources address exit =
     (let matching = filter (names_packet env address exit) resources;
          specificity = (\<lambda>r. target_specificity env (rd_target (nr_definition r))) in
      if matching = [] then []
      else let most = Max (set (map specificity matching)) in
        sort (map nr_id (filter (\<lambda>r. specificity r = most) matching)))"

definition alias_of_rule ::
    "'net net_env \<Rightarrow> resolved_collection list \<Rightarrow> gateway_binding list \<Rightarrow> resource_access \<Rightarrow> 'net resource_rule \<Rightarrow> uuid \<Rightarrow> bool" where
  "alias_of_rule env collections bindings access rule resource \<longleftrightarrow>
     resource_rule_matches env rule collections (access\<lparr>rx_resource := resource\<rparr>)
     \<and> (rr_action rule = Deny_Resource
        \<or> list_ex (\<lambda>b. gb_resource_id b = resource \<and> gb_peer_id b = rx_provider access \<and> gb_approved b) bindings)"

definition decide_resource_aliases ::
    "'net net_env \<Rightarrow> 'net resource_rule list \<Rightarrow> resolved_collection list \<Rightarrow> uuid list \<Rightarrow> gateway_binding list \<Rightarrow> resource_access
     \<Rightarrow> resource_action \<times> uuid option \<times> uuid option" where
  "decide_resource_aliases env rules collections aliases bindings access =
     (let candidates = List.map_filter (\<lambda>rule.
            map_option (\<lambda>resource. (rule, resource))
              (min_by_key (\<lambda>u. u) (filter (alias_of_rule env collections bindings access rule) aliases))) rules in
      case min_by_key (\<lambda>(rule, resource). (rr_priority rule, action_rank (rr_action rule), rr_id rule, resource)) candidates of
        None \<Rightarrow> (Deny_Resource, None, None)
      | Some (rule, resource) \<Rightarrow> (rr_action rule, Some (rr_id rule), Some resource))"

section \<open>Least elements\<close>

lemma min_by_key_None_iff [simp]: "min_by_key f xs = None \<longleftrightarrow> xs = []"
  by (cases xs) (simp_all split: option.splits)

lemma min_by_key_least:
  "min_by_key f xs = Some y \<Longrightarrow> y \<in> set xs \<and> (\<forall>x\<in>set xs. f y \<le> f x)"
proof (induction xs arbitrary: y)
  case Nil
  then show ?case by simp
next
  case (Cons x xs)
  show ?case
  proof (cases "min_by_key f xs")
    case None
    then show ?thesis using Cons.prems by simp
  next
    case (Some z)
    then have "z \<in> set xs \<and> (\<forall>w\<in>set xs. f z \<le> f w)" using Cons.IH by blast
    then show ?thesis using Cons.prems Some by (auto split: if_splits)
  qed
qed

lemma min_by_key_unique:
  assumes "\<And>x y. x \<in> set xs \<Longrightarrow> y \<in> set xs \<Longrightarrow> f x = f y \<Longrightarrow> x = y" and "y \<in> set xs" and "\<And>x. x \<in> set xs \<Longrightarrow> f y \<le> f x"
  shows "min_by_key f xs = Some y"
proof (cases "min_by_key f xs")
  case None
  then show ?thesis using assms(2) by simp
next
  case (Some z)
  then have z: "z \<in> set xs" "f z \<le> f y" using min_by_key_least [OF Some] assms(2) by auto
  then show ?thesis using assms(1) [OF z(1) assms(2)] assms(3) [OF z(1)] Some by (simp add: antisym)
qed

lemma min_by_key_cong_set:
  assumes "set xs = set ys" and "\<And>x y. x \<in> set xs \<Longrightarrow> y \<in> set xs \<Longrightarrow> f x = f y \<Longrightarrow> x = y"
  shows "min_by_key f xs = min_by_key f ys"
proof (cases "min_by_key f ys")
  case None
  then show ?thesis using assms(1) by simp
next
  case (Some y)
  then show ?thesis using min_by_key_least [OF Some] assms by (metis min_by_key_unique)
qed

lemma map_filter_set: "set (List.map_filter f xs) = {y. \<exists>x\<in>set xs. f x = Some y}"
  by (auto simp: List.map_filter_def image_iff) (metis option.collapse option.distinct(1) option.sel)

section \<open>The decision\<close>

abbreviation pair_key :: "'net resource_rule \<times> uuid \<Rightarrow> nat \<times> nat \<times> uuid \<times> uuid" where
  "pair_key p \<equiv> (rr_priority (fst p), action_rank (rr_action (fst p)), rr_id (fst p), snd p)"

definition applicable ::
    "'net net_env \<Rightarrow> 'net resource_rule list \<Rightarrow> resolved_collection list \<Rightarrow> uuid list \<Rightarrow> gateway_binding list \<Rightarrow> resource_access
     \<Rightarrow> ('net resource_rule \<times> uuid) set" where
  "applicable env rules collections aliases bindings access =
     {(rule, resource). rule \<in> set rules \<and> resource \<in> set aliases
        \<and> alias_of_rule env collections bindings access rule resource}"

text \<open>The two-stage search finds the least applicable pair.\<close>

lemma decide_resource_aliases_least:
  "(decide_resource_aliases env rules collections aliases bindings access = (Deny_Resource, None, None)
      \<and> applicable env rules collections aliases bindings access = {})
   \<or> (\<exists>p\<in>applicable env rules collections aliases bindings access.
        decide_resource_aliases env rules collections aliases bindings access = (rr_action (fst p), Some (rr_id (fst p)), Some (snd p))
        \<and> (\<forall>q\<in>applicable env rules collections aliases bindings access. pair_key p \<le> pair_key q))"
proof -
  let ?ok = "alias_of_rule env collections bindings access"
  define best where "best rule = map_option (\<lambda>resource. (rule, resource)) (min_by_key (\<lambda>u. u) (filter (?ok rule) aliases))" for rule
  let ?cs = "List.map_filter best rules"
  have best: "best rule = Some (rule', u) \<longleftrightarrow> rule' = rule \<and> min_by_key (\<lambda>u. u) (filter (?ok rule) aliases) = Some u" for rule rule' u
    by (auto simp: best_def)
  have mem: "p \<in> applicable env rules collections aliases bindings access" if "p \<in> set ?cs" for p
  proof -
    obtain rule u where p: "p = (rule, u)" by (cases p)
    then have "rule \<in> set rules" "min_by_key (\<lambda>u. u) (filter (?ok rule) aliases) = Some u"
      using that by (auto simp: map_filter_set best)
    then show ?thesis using min_by_key_least [of "\<lambda>u. u" "filter (?ok rule) aliases" u] p by (simp add: applicable_def)
  qed
  have below: "\<exists>p\<in>set ?cs. pair_key p \<le> pair_key q" if q: "q \<in> applicable env rules collections aliases bindings access" for q
  proof -
    obtain rule v where v: "q = (rule, v)" "rule \<in> set rules" "v \<in> set (filter (?ok rule) aliases)"
      using q by (cases q) (auto simp: applicable_def)
    then obtain u where u: "min_by_key (\<lambda>u. u) (filter (?ok rule) aliases) = Some u"
      by (cases "min_by_key (\<lambda>u. u) (filter (?ok rule) aliases)") (auto simp: filter_empty_conv)
    then have "u \<le> v" using min_by_key_least [OF u] v(3) by blast
    moreover have "(rule, u) \<in> set ?cs" using u v(2) by (auto simp: map_filter_set best)
    ultimately show ?thesis using v(1) by (intro bexI [of _ "(rule, u)"]) auto
  qed
  have eq: "decide_resource_aliases env rules collections aliases bindings access =
      (case min_by_key pair_key ?cs of None \<Rightarrow> (Deny_Resource, None, None)
       | Some p \<Rightarrow> (rr_action (fst p), Some (rr_id (fst p)), Some (snd p)))"
    by (simp add: decide_resource_aliases_def best_def [abs_def] Let_def case_prod_unfold split: option.split)
  show ?thesis
  proof (cases "min_by_key pair_key ?cs")
    case None
    then have "applicable env rules collections aliases bindings access = {}" using below by fastforce
    then show ?thesis using eq None by simp
  next
    case (Some p)
    have "pair_key p \<le> pair_key q" if "q \<in> applicable env rules collections aliases bindings access" for q
      using below [OF that] min_by_key_least [OF Some] by (meson order_trans)
    moreover have "p \<in> applicable env rules collections aliases bindings access"
      using mem min_by_key_least [OF Some] by blast
    moreover have "decide_resource_aliases env rules collections aliases bindings access = (rr_action (fst p), Some (rr_id (fst p)), Some (snd p))"
      using eq Some by simp
    ultimately show ?thesis by blast
  qed
qed

lemma packet_resource_aliases_iff:
  "u \<in> set (packet_resource_aliases env resources address exit) \<longleftrightarrow>
    (\<exists>r\<in>set resources. nr_id r = u \<and> names_packet env address exit r
       \<and> (\<forall>s\<in>set resources. names_packet env address exit s \<longrightarrow>
            target_specificity env (rd_target (nr_definition s)) \<le> target_specificity env (rd_target (nr_definition r))))"
proof -
  let ?spec = "\<lambda>r. target_specificity env (rd_target (nr_definition r))"
  let ?m = "filter (names_packet env address exit) resources"
  show ?thesis
  proof (cases "?m = []")
    case True
    then show ?thesis by (auto simp: packet_resource_aliases_def filter_empty_conv)
  next
    case False
    have max: "?spec r = Max (set (map ?spec ?m)) \<longleftrightarrow> (\<forall>s\<in>set ?m. ?spec s \<le> ?spec r)" if "r \<in> set ?m" for r
      using that by (subst eq_commute, subst Max_eq_iff) auto
    have "u \<in> set (packet_resource_aliases env resources address exit) \<longleftrightarrow>
        (\<exists>r\<in>set ?m. nr_id r = u \<and> ?spec r = Max (set (map ?spec ?m)))"
      using False unfolding packet_resource_aliases_def Let_def by auto
    also have "\<dots> \<longleftrightarrow> (\<exists>r\<in>set ?m. nr_id r = u \<and> (\<forall>s\<in>set ?m. ?spec s \<le> ?spec r))" using max by blast
    finally show ?thesis by auto
  qed
qed


section \<open>Properties\<close>

text \<open>(C16) Access to a resource is granted by the rules alone.  If a packet is allowed, then an enabled, unexpired rule
  allows this source, provider, protocol and port for a resource that names the packet (a subnet that
  contains the destination, or the chosen exit whose Internet target does), no
  other resource that names the packet is more specific, and the provider holds an approved binding of that
  resource.  Every matching rule that denies any alias of the packet has a larger priority number, and
  every matching rule that allows an alias of which the provider holds an approved binding comes no
  earlier in the order of priority and identifier; rules that allow an alias without such a binding are passed over.
  So a second name for an address never evades a denial, and a broader resource never
  answers for a narrower one.
\<close>

theorem resource_access_sound:
  assumes "decide_resource_aliases env rules collections (packet_resource_aliases env resources address exit) bindings access
     = (Allow_Resource, rule_id, resource)"
  shows "\<exists>rule\<in>set rules. \<exists>r\<in>set resources. \<exists>b\<in>set bindings.
      rule_id = Some (rr_id rule) \<and> resource = Some (nr_id r) \<and> rr_action rule = Allow_Resource
      \<and> resource_rule_matches env rule collections (access\<lparr>rx_resource := nr_id r\<rparr>)
      \<and> names_packet env address exit r
      \<and> (\<forall>s\<in>set resources. names_packet env address exit s \<longrightarrow>
           target_specificity env (rd_target (nr_definition s)) \<le> target_specificity env (rd_target (nr_definition r)))
      \<and> gb_resource_id b = nr_id r \<and> gb_peer_id b = rx_provider access \<and> gb_approved b
      \<and> (\<forall>deny\<in>set rules. \<forall>alias\<in>set (packet_resource_aliases env resources address exit).
           rr_action deny = Deny_Resource \<and> resource_rule_matches env deny collections (access\<lparr>rx_resource := alias\<rparr>) \<longrightarrow>
           rr_priority rule < rr_priority deny)
      \<and> (\<forall>other\<in>set rules. \<forall>alias\<in>set (packet_resource_aliases env resources address exit). \<forall>b'\<in>set bindings.
           rr_action other = Allow_Resource \<and> resource_rule_matches env other collections (access\<lparr>rx_resource := alias\<rparr>)
           \<and> gb_resource_id b' = alias \<and> gb_peer_id b' = rx_provider access \<and> gb_approved b' \<longrightarrow>
           rr_priority rule < rr_priority other \<or> rr_priority rule = rr_priority other \<and> rr_id rule \<le> rr_id other)"
proof -
  let ?aliases = "packet_resource_aliases env resources address exit"
  let ?app = "applicable env rules collections ?aliases bindings access"
  obtain rule u where p: "(rule, u) \<in> ?app" "rr_action rule = Allow_Resource" "rule_id = Some (rr_id rule)" "resource = Some u"
      "\<forall>q\<in>?app. pair_key (rule, u) \<le> pair_key q"
    using decide_resource_aliases_least [of env rules collections ?aliases bindings access] assms by auto
  then have m: "rule \<in> set rules" "u \<in> set ?aliases" "resource_rule_matches env rule collections (access\<lparr>rx_resource := u\<rparr>)"
    and b: "list_ex (\<lambda>b. gb_resource_id b = u \<and> gb_peer_id b = rx_provider access \<and> gb_approved b) bindings"
    by (auto simp: applicable_def alias_of_rule_def)
  obtain r where r: "r \<in> set resources" "nr_id r = u" "names_packet env address exit r"
      "\<forall>s\<in>set resources. names_packet env address exit s \<longrightarrow>
           target_specificity env (rd_target (nr_definition s)) \<le> target_specificity env (rd_target (nr_definition r))"
    using m(2) unfolding packet_resource_aliases_iff by blast
  have deny: "rr_priority rule < rr_priority d"
    if "d \<in> set rules" "other \<in> set ?aliases" "rr_action d = Deny_Resource" "resource_rule_matches env d collections (access\<lparr>rx_resource := other\<rparr>)" for d other
  proof -
    have "(d, other) \<in> ?app" using that by (simp add: applicable_def alias_of_rule_def)
    then have "pair_key (rule, u) \<le> pair_key (d, other)" using p(5) by blast
    then show ?thesis using p(2) that(3) by auto
  qed
  have other: "rr_priority rule < rr_priority d \<or> rr_priority rule = rr_priority d \<and> rr_id rule \<le> rr_id d"
    if "d \<in> set rules" "other \<in> set ?aliases" "b' \<in> set bindings" "rr_action d = Allow_Resource"
      "resource_rule_matches env d collections (access\<lparr>rx_resource := other\<rparr>)"
      "gb_resource_id b' = other" "gb_peer_id b' = rx_provider access" "gb_approved b'" for d other b'
  proof -
    have "(d, other) \<in> ?app" using that by (auto simp: applicable_def alias_of_rule_def list_ex_iff)
    then have "pair_key (rule, u) \<le> pair_key (d, other)" using p(5) by blast
    then show ?thesis using p(2) that(4) by (auto simp: less_imp_le)
  qed
  obtain x where "x \<in> set bindings" "gb_resource_id x = u" "gb_peer_id x = rx_provider access" "gb_approved x"
    using b by (auto simp: list_ex_iff)
  then show ?thesis
    using p(2-4) m(1,3) r deny other by (intro bexI [of _ rule] bexI [of _ r] bexI [of _ x] conjI ballI impI) auto
qed

definition sample_resource :: "octet_net network_resource" where
  "sample_resource = \<lparr>nr_id = replicate 16 5, nr_mesh_id = replicate 16 1, nr_version = 1,
     nr_definition = \<lparr>rd_name = [65], rd_target = Target_Subnet (3, [192, 168, 20, 0]) (replicate 16 2), rd_labels = [], rd_health_probe = None\<rparr>\<rparr>"

definition sample_rule :: "octet_net resource_rule" where
  "sample_rule = \<lparr>rr_id = replicate 16 7, rr_priority = 10, rr_enabled = True, rr_action = Allow_Resource,
     rr_source = \<lparr>ds_peers = [], ds_labels = [], ds_cidrs = []\<rparr>, rr_resources = [replicate 16 5], rr_source_collections = [],
     rr_resource_collections = [], rr_providers = [], rr_protocol = 6, rr_destination_ports = [(443, 443)], rr_not_after = None\<rparr>"

definition sample_binding :: gateway_binding where
  "sample_binding = \<lparr>gb_id = replicate 16 8, gb_resource_id = replicate 16 5, gb_peer_id = replicate 16 9, gb_version = 1,
     gb_approved = True, gb_priority = 1, gb_forwarding = Snat, gb_return_route_confirmed = False, gb_approval_source = Manual\<rparr>"

definition sample_access :: resource_access where
  "sample_access = \<lparr>rx_source_peer = replicate 16 3, rx_source_address = V4 [10, 0, 0, 3], rx_source_labels = [],
     rx_resource = [], rx_provider = replicate 16 9, rx_protocol = 6, rx_destination_port = Some 443, rx_now = 100\<rparr>"

lemma sample_access_allowed:
  "decide_resource_aliases octet_env [sample_rule] [] (packet_resource_aliases octet_env [sample_resource] (V4 [192, 168, 20, 7]) None)
     [sample_binding] sample_access = (Allow_Resource, Some (replicate 16 7), Some (replicate 16 5))"
  by code_simp

theorem resource_access_sound_witness:
  "resource_rule_matches octet_env sample_rule [] (sample_access\<lparr>rx_resource := nr_id sample_resource\<rparr>)"
  using resource_access_sound [OF sample_access_allowed] by simp

text \<open>The decision does not depend on how rules are stored.  With one rule per identifier, any reordering or
  repetition of rules, aliases and bindings leaves the decision, its rule and its resource the same.
\<close>

theorem resource_decision_canonical:
  assumes "set rules = set rules'" and "set aliases = set aliases'" and "set bindings = set bindings'"
    and "\<forall>r\<in>set rules. \<forall>s\<in>set rules. rr_id r = rr_id s \<longrightarrow> r = s"
  shows "decide_resource_aliases env rules collections aliases bindings access
    = decide_resource_aliases env rules' collections aliases' bindings' access"
proof -
  let ?app = "applicable env rules collections aliases bindings access"
  have same: "?app = applicable env rules' collections aliases' bindings' access"
    using assms(1-3) by (simp add: applicable_def alias_of_rule_def list_ex_iff)
  have unique: "p = q" if "p \<in> ?app" "q \<in> ?app" "pair_key p = pair_key q" for p q
    using that assms(4) by (cases p; cases q) (auto simp: applicable_def)
  show ?thesis
    using decide_resource_aliases_least [of env rules collections aliases bindings access]
      decide_resource_aliases_least [of env rules' collections aliases' bindings' access]
    unfolding same [symmetric] using unique by (metis antisym empty_iff)
qed

theorem resource_decision_canonical_witness:
  "decide_resource_aliases octet_env [sample_rule, sample_rule] [] [replicate 16 5] [sample_binding] sample_access
    = decide_resource_aliases octet_env [sample_rule] [] [replicate 16 5] [sample_binding] sample_access"
  by (rule resource_decision_canonical) simp_all

text \<open>A resolved collection holds exactly the candidates that belong, and an empty definition resolves to nobody.\<close>

lemma resolve_collection_members:
  "set (rc_members (resolve_collection d u candidates)) = fst ` {c \<in> set candidates. belongs d c}
   \<and> ascending (rc_members (resolve_collection d u candidates))"
proof -
  have f: "set (fold bset_insert xs acc) = set xs \<union> set acc \<and> (ascending acc \<longrightarrow> ascending (fold bset_insert xs acc))"
    for xs acc :: "uuid list"
    by (induction xs arbitrary: acc) auto
  show ?thesis using f [of "map fst (filter (belongs d) candidates)" "[]"] by (auto simp: resolve_collection_def)
qed

end
