(* ===== verification/DeviceConditions.thy ===== *)
theory DeviceConditions
  imports ManagementResources
begin

text \<open>
  Conditions on devices, \<open>crates/peerward-management/src/device_conditions.rs\<close>: the software
  statements a device signs, the conditions an administrator sets, the admission decision over both and
  the configuration that distributes it.  Version numbers are those of the \<open>semver\<close> crate; parsing,
  printing and precedence are the record \<open>semver_env\<close>, a parameter.
\<close>

section \<open>Evidence\<close>

record 'v semver_env =
  sv_parse :: "rust_str \<Rightarrow> 'v option"
  sv_print :: "'v \<Rightarrow> rust_str"
  sv_less :: "'v \<Rightarrow> 'v \<Rightarrow> bool"

datatype device_platform = Linux | Android

datatype device_capability = ManagedDns | ResourceConsumer | ExitConsumer | SubnetGateway | ExitGateway

record device_evidence =
  de_version :: rust_str
  de_platform :: device_platform
  de_capabilities :: "device_capability list"

text \<open>The version of the running package is fixed when it is built.\<close>

definition evidence_current :: "rust_str \<Rightarrow> device_platform \<Rightarrow> device_evidence" where
  "evidence_current package_version platform =
     \<lparr>de_version = package_version, de_platform = platform,
      de_capabilities = [ManagedDns, ResourceConsumer, ExitConsumer]
        @ (if platform = Linux then [SubnetGateway, ExitGateway] else [])\<rparr>"

definition canonical_device_version :: "'v semver_env \<Rightarrow> rust_str \<Rightarrow> ('v, management_error) outcome" where
  "canonical_device_version sv value =
     (if str_len value > 128 then Err (Management_Invalid ''device_version'')
      else case sv_parse sv value of
        None \<Rightarrow> Err (Management_Invalid ''device_version'')
      | Some parsed \<Rightarrow>
          if sv_print sv parsed \<noteq> value then Err (Management_Invalid ''device_version'') else Ok parsed)"

definition evidence_validate :: "'v semver_env \<Rightarrow> device_evidence \<Rightarrow> (unit, management_error) outcome" where
  "evidence_validate sv e =
     and_then (canonical_device_version sv (de_version e)) (\<lambda>_.
     if de_platform e = Android \<and> list_ex (\<lambda>c. c = SubnetGateway \<or> c = ExitGateway) (de_capabilities e)
     then Err (Management_Invalid ''device_evidence.capabilities'') else Ok ())"

section \<open>Conditions\<close>

datatype admission_reason =
  Reason_EvidenceUnavailable | Reason_Version | Reason_Platform | Reason_Capabilities | Reason_Credential

record admission_decision =
  ad_allowed :: bool
  ad_valid_until :: "nat option"
  ad_reasons :: "admission_reason list"

definition unrestricted :: admission_decision where
  "unrestricted = \<lparr>ad_allowed = True, ad_valid_until = None, ad_reasons = []\<rparr>"

definition decision_permits :: "admission_decision \<Rightarrow> nat \<Rightarrow> bool" where
  "decision_permits d now \<longleftrightarrow> ad_allowed d \<and> (case ad_valid_until d of None \<Rightarrow> True | Some until \<Rightarrow> now < until)"

record 'net device_conditions =
  dc_enabled :: bool
  dc_scope :: "'net device_selector"
  dc_minimum_version :: "rust_str option"
  dc_platforms :: "device_platform list"
  dc_required_capabilities :: "device_capability list"
  dc_minimum_credential_seconds :: nat

definition only_restricts :: "'v semver_env \<Rightarrow> 'net device_conditions \<Rightarrow> 'net device_conditions \<Rightarrow> bool" where
  "only_restricts sv new old \<longleftrightarrow>
     (if new = old \<or> \<not> dc_enabled old then True
      else if \<not> dc_enabled new \<or> dc_scope new \<noteq> dc_scope old then False
      else (dc_platforms old = [] \<or> dc_platforms new \<noteq> [] \<and> set (dc_platforms new) \<subseteq> set (dc_platforms old))
        \<and> set (dc_required_capabilities old) \<subseteq> set (dc_required_capabilities new)
        \<and> dc_minimum_credential_seconds new \<ge> dc_minimum_credential_seconds old
        \<and> (case dc_minimum_version old of
             None \<Rightarrow> True
           | Some old_version \<Rightarrow>
             (case dc_minimum_version new of
                None \<Rightarrow> False
              | Some new_version \<Rightarrow>
                (case (canonical_device_version sv new_version, canonical_device_version sv old_version) of
                   (Ok n, Ok o') \<Rightarrow> \<not> sv_less sv n o'
                 | _ \<Rightarrow> False))))"

definition conditions_validate :: "'net net_env \<Rightarrow> 'v semver_env \<Rightarrow> 'net device_conditions \<Rightarrow> (unit, management_error) outcome" where
  "conditions_validate env sv c =
     and_then (selector_validate env (dc_scope c)) (\<lambda>_.
     and_then (case dc_minimum_version c of
         None \<Rightarrow> Ok ()
       | Some version \<Rightarrow> and_then (canonical_device_version sv version) (\<lambda>_. Ok ())) (\<lambda>_.
     if dc_minimum_credential_seconds c > 86400 then Err (Management_Invalid ''minimum_credential_seconds'') else Ok ()))"

definition below_minimum :: "'v semver_env \<Rightarrow> 'net device_conditions \<Rightarrow> device_evidence \<Rightarrow> bool" where
  "below_minimum sv c evidence \<longleftrightarrow>
     (case dc_minimum_version c of
        None \<Rightarrow> False
      | Some minimum \<Rightarrow>
        (case (canonical_device_version sv (de_version evidence), canonical_device_version sv minimum) of
           (Ok actual, Ok least) \<Rightarrow> sv_less sv actual least
         | _ \<Rightarrow> True))"

definition evaluate_conditions ::
    "'v semver_env \<Rightarrow> 'net device_conditions \<Rightarrow> device_evidence option \<Rightarrow> nat \<Rightarrow> nat \<Rightarrow> nat \<Rightarrow> admission_decision" where
  "evaluate_conditions sv c evidence evidence_until credential_until now =
     (let credential_end = credential_until - dc_minimum_credential_seconds c;
          evidence_reasons =
            (case evidence of
               Some e \<Rightarrow>
                 if is_ok (evidence_validate sv e) \<and> evidence_until > now then
                   (if dc_platforms c \<noteq> [] \<and> de_platform e \<notin> set (dc_platforms c) then [Reason_Platform] else [])
                   @ (if \<not> set (dc_required_capabilities c) \<subseteq> set (de_capabilities e) then [Reason_Capabilities] else [])
                   @ (if below_minimum sv c e then [Reason_Version] else [])
                 else [Reason_EvidenceUnavailable]
             | None \<Rightarrow> [Reason_EvidenceUnavailable]);
          reasons = evidence_reasons @ (if credential_end \<le> now then [Reason_Credential] else [])
      in \<lparr>ad_allowed = (reasons = []), ad_valid_until = Some (min evidence_until credential_end), ad_reasons = reasons\<rparr>)"

section \<open>Distributed decisions\<close>

record admission_configuration =
  ag_enabled :: bool
  ag_peers :: "(uuid \<times> admission_decision) list"

fun extends_validity :: "nat option \<Rightarrow> nat option \<Rightarrow> bool" where
  "extends_validity (Some before) (Some after) = (after \<ge> before)"
| "extends_validity None None = True"
| "extends_validity _ _ = False"

definition same_requirements :: "admission_configuration \<Rightarrow> admission_configuration \<Rightarrow> bool" where
  "same_requirements old new \<longleftrightarrow>
     ag_enabled old = ag_enabled new \<and> length (ag_peers old) = length (ag_peers new)
     \<and> list_all (\<lambda>(peer, before).
         case hm_get (ag_peers new) peer of
           None \<Rightarrow> False
         | Some after \<Rightarrow> ad_allowed before = ad_allowed after \<and> ad_reasons before = ad_reasons after
             \<and> extends_validity (ad_valid_until before) (ad_valid_until after)) (ag_peers old)"

definition admission_permits :: "admission_configuration \<Rightarrow> uuid \<Rightarrow> nat \<Rightarrow> bool" where
  "admission_permits c peer now \<longleftrightarrow>
     \<not> ag_enabled c \<or> (case hm_get (ag_peers c) peer of None \<Rightarrow> False | Some decision \<Rightarrow> decision_permits decision now)"

definition admission_validate :: "admission_configuration \<Rightarrow> (unit, management_error) outcome" where
  "admission_validate c =
     (if length (ag_peers c) > 4096
         \<or> list_ex (\<lambda>(_, d). length (ad_reasons d) > 5 \<or> ad_allowed d \<and> ad_reasons d \<noteq> []) (ag_peers c)
      then Err (Management_Invalid ''admission_configuration'') else Ok ())"

section \<open>Facts\<close>

text \<open>Precedence of versions is a total preorder: what is not below a bound is not below a smaller one.\<close>

definition semver_laws :: "'v semver_env \<Rightarrow> bool" where
  "semver_laws sv \<longleftrightarrow> (\<forall>a b c. sv_less sv a c \<longrightarrow> sv_less sv a b \<or> sv_less sv b c)"

lemma evaluate_allowed_iff:
  "ad_allowed (evaluate_conditions sv c evidence eu cu now) \<longleftrightarrow>
    (\<exists>e. evidence = Some e \<and> is_ok (evidence_validate sv e) \<and> now < eu
       \<and> (dc_platforms c = [] \<or> de_platform e \<in> set (dc_platforms c))
       \<and> set (dc_required_capabilities c) \<subseteq> set (de_capabilities e) \<and> \<not> below_minimum sv c e)
    \<and> now < cu - dc_minimum_credential_seconds c"
  by (auto simp: evaluate_conditions_def Let_def split: option.splits)

lemma evaluate_valid_until:
  "ad_valid_until (evaluate_conditions sv c evidence eu cu now) = Some (min eu (cu - dc_minimum_credential_seconds c))"
  by (simp add: evaluate_conditions_def Let_def)

lemma below_minimum_mono:
  assumes "semver_laws sv" and "below_minimum sv old e" and "only_restricts sv new old" and "dc_enabled old"
  shows "below_minimum sv new e"
proof (cases "new = old")
  case False
  obtain m where m: "dc_minimum_version old = Some m" using assms(2) by (auto simp: below_minimum_def split: option.splits)
  obtain k n o' where k: "dc_minimum_version new = Some k" "canonical_device_version sv k = Ok n" "canonical_device_version sv m = Ok o'" "\<not> sv_less sv n o'"
    using assms(3,4) False m by (auto simp: only_restricts_def split: if_splits option.splits outcome.splits)
  show ?thesis
  proof (cases "canonical_device_version sv (de_version e)")
    case (Ok v)
    then have "sv_less sv v o'" using assms(2) m k(3) by (simp add: below_minimum_def)
    then have "sv_less sv v n" using assms(1) k(4) unfolding semver_laws_def by blast
    then show ?thesis using Ok k by (simp add: below_minimum_def)
  qed (use k in \<open>simp_all add: below_minimum_def\<close>)
qed (use assms in simp)

lemma restriction_weaker:
  assumes "only_restricts sv new old" and "dc_enabled old"
  shows "dc_enabled new \<and> dc_scope new = dc_scope old
    \<and> (dc_platforms old = [] \<or> dc_platforms new \<noteq> [] \<and> set (dc_platforms new) \<subseteq> set (dc_platforms old))
    \<and> set (dc_required_capabilities old) \<subseteq> set (dc_required_capabilities new)
    \<and> dc_minimum_credential_seconds old \<le> dc_minimum_credential_seconds new"
  using assms by (auto simp: only_restricts_def split: if_splits)

lemma same_requirements_lookup:
  assumes "same_requirements old new" and "hm_ok (ag_peers old)" and "hm_get (ag_peers old) peer = Some before"
  shows "\<exists>after. hm_get (ag_peers new) peer = Some after \<and> ad_allowed before = ad_allowed after
    \<and> extends_validity (ad_valid_until before) (ad_valid_until after)"
proof -
  have "(peer, before) \<in> set (ag_peers old)" using assms(2,3) by (simp add: hm_get_Some_mem)
  then show ?thesis using assms(1) by (auto simp: same_requirements_def list_all_iff split: option.splits)
qed

lemma same_requirements_keys:
  assumes "same_requirements old new" and "hm_ok (ag_peers old)" and "hm_ok (ag_peers new)"
  shows "fst ` set (ag_peers old) = fst ` set (ag_peers new)"
proof (rule card_subset_eq)
  show "fst ` set (ag_peers old) \<subseteq> fst ` set (ag_peers new)"
  proof
    fix p
    assume "p \<in> fst ` set (ag_peers old)"
    then obtain d where "hm_get (ag_peers old) p = Some d" using assms(2) by (auto simp: hm_get_Some_mem)
    then obtain d' where "hm_get (ag_peers new) p = Some d'" using same_requirements_lookup [OF assms(1,2)] by blast
    then have "(p, d') \<in> set (ag_peers new)" by (rule map_of_SomeD)
    then show "p \<in> fst ` set (ag_peers new)" by (rule image_eqI [rotated]) simp
  qed
  have "card (fst ` set (ag_peers c)) = length (ag_peers c)" if "hm_ok (ag_peers c)" for c :: admission_configuration
    using that distinct_card [of "map fst (ag_peers c)"] by (simp add: hm_ok_def)
  then show "card (fst ` set (ag_peers old)) = card (fst ` set (ag_peers new))"
    using assms by (simp add: same_requirements_def)
qed simp

section \<open>Properties\<close>

text \<open>(C20) An emergency restriction restricts.  When the check that lets a change bypass the saved traffic
  assertions accepts new conditions against enabled old ones, the new ones are enabled, have the same
  scope, and admit no device, at no time, on whatever evidence and credential, that the old ones would not
  have admitted.  Versions may be compared by any total preorder.
\<close>

theorem restriction_sound:
  assumes "semver_laws sv" and "only_restricts sv new old" and "dc_enabled old"
    and "decision_permits (evaluate_conditions sv new evidence eu cu now) t"
  shows "dc_enabled new \<and> dc_scope new = dc_scope old
    \<and> decision_permits (evaluate_conditions sv old evidence eu cu now) t"
proof -
  note w = restriction_weaker [OF assms(2,3)]
  have "ad_allowed (evaluate_conditions sv new evidence eu cu now)" "t < min eu (cu - dc_minimum_credential_seconds new)"
    using assms(4) by (simp_all add: decision_permits_def evaluate_valid_until)
  moreover have "\<not> below_minimum sv new e \<Longrightarrow> \<not> below_minimum sv old e" for e
    using below_minimum_mono [OF assms(1) _ assms(2,3)] by blast
  ultimately have "ad_allowed (evaluate_conditions sv old evidence eu cu now) \<and> t < min eu (cu - dc_minimum_credential_seconds old)"
    using w unfolding evaluate_allowed_iff by auto
  then show ?thesis using w by (simp add: decision_permits_def evaluate_valid_until)
qed

text \<open>A semantics of versions for the witness: one scalar value, compared as a number.\<close>

definition unary_semver :: "nat semver_env" where
  "unary_semver = \<lparr>sv_parse = (\<lambda>s. case s of [c] \<Rightarrow> Some c | _ \<Rightarrow> None), sv_print = (\<lambda>c. [c]), sv_less = (<)\<rparr>"

definition sample_conditions :: "octet_net device_conditions" where
  "sample_conditions = \<lparr>dc_enabled = True, dc_scope = \<lparr>ds_peers = [], ds_labels = [], ds_cidrs = []\<rparr>, dc_minimum_version = Some [49],
     dc_platforms = [Linux, Android], dc_required_capabilities = [ManagedDns], dc_minimum_credential_seconds = 10\<rparr>"

definition stricter_conditions :: "octet_net device_conditions" where
  "stricter_conditions = sample_conditions\<lparr>dc_minimum_version := Some [50], dc_platforms := [Linux], dc_minimum_credential_seconds := 20\<rparr>"

theorem restriction_sound_witness:
  "decision_permits (evaluate_conditions unary_semver sample_conditions (Some (evidence_current [51] Linux)) 200 300 100) 150"
proof -
  have "semver_laws unary_semver" by (auto simp: semver_laws_def unary_semver_def)
  moreover have "only_restricts unary_semver stricter_conditions sample_conditions" by code_simp
  moreover have "dc_enabled sample_conditions" by (simp add: sample_conditions_def)
  moreover have "decision_permits (evaluate_conditions unary_semver stricter_conditions (Some (evidence_current [51] Linux)) 200 300 100) 150"
    by code_simp
  ultimately show ?thesis using restriction_sound by blast
qed

text \<open>A refresh changes nothing but time.  When a new admission configuration is recognised as a refresh of the old
  one, so that flows stay up, every Peer the old one permits at some moment is permitted then by the new
  one, and a Peer the new one permits was allowed by the old one, and was not permitted at that moment only because its
  evidence had run out.
\<close>

theorem refresh_keeps_admission:
  assumes "same_requirements old new" and "hm_ok (ag_peers old)" and "hm_ok (ag_peers new)"
  shows "(admission_permits old peer t \<longrightarrow> admission_permits new peer t)
    \<and> (admission_permits new peer t \<longrightarrow> admission_permits old peer t
        \<or> (\<exists>decision until. hm_get (ag_peers old) peer = Some decision \<and> ad_allowed decision
             \<and> ad_valid_until decision = Some until \<and> until \<le> t))"
proof (cases "hm_get (ag_peers old) peer")
  case None
  have "peer \<notin> fst ` set (ag_peers old)" using None by (simp add: map_of_eq_None_iff)
  then have "hm_get (ag_peers new) peer = None" using same_requirements_keys [OF assms] by (simp add: map_of_eq_None_iff)
  then show ?thesis using None assms(1) by (simp add: admission_permits_def same_requirements_def)
next
  case (Some before)
  obtain after where after: "hm_get (ag_peers new) peer = Some after" "ad_allowed before = ad_allowed after"
      "extends_validity (ad_valid_until before) (ad_valid_until after)"
    using same_requirements_lookup [OF assms(1,2) Some] by blast
  have "ag_enabled old = ag_enabled new" using assms(1) by (simp add: same_requirements_def)
  then show ?thesis using Some after
    by (cases "ad_valid_until before"; cases "ad_valid_until after") (auto simp: admission_permits_def decision_permits_def)
qed

definition sample_admission :: "nat \<Rightarrow> admission_configuration" where
  "sample_admission until = \<lparr>ag_enabled = True, ag_peers = [([1], \<lparr>ad_allowed = True, ad_valid_until = Some until, ad_reasons = []\<rparr>)]\<rparr>"

theorem refresh_keeps_admission_witness:
  "admission_permits (sample_admission 20) [1] 5"
proof -
  have "same_requirements (sample_admission 10) (sample_admission 20)" by code_simp
  moreover have "hm_ok (ag_peers (sample_admission n))" for n by (simp add: sample_admission_def hm_ok_def)
  moreover have "admission_permits (sample_admission 10) [1] 5" by code_simp
  ultimately show ?thesis using refresh_keeps_admission [of "sample_admission 10" "sample_admission 20" "[1]" 5] by blast
qed

end
