(* ===== verification/ManagedDns.thy ===== *)
theory ManagedDns
  imports ManagementResources
begin

text \<open>
  Managed DNS, \<open>crates/peerward-management/src/dns.rs\<close>: profiles of routes, records and search
  domains, their validation, the effective configuration of one Peer, the local answers with their
  \<open>CNAME\<close> chains, and the choice of upstream servers for a name.
\<close>

section \<open>Profiles\<close>

datatype dns_record = Record_A bytes | Record_AAAA bytes | Record_CNAME rust_str

record dns_route =
  dr_suffix :: rust_str
  dr_upstreams :: "socket_addr list"

type_synonym dns_records = "(rust_str \<times> dns_record list) list"

record 'net dns_profile =
  dp_id :: uuid
  dp_scope :: "'net device_selector"
  dp_search_domains :: "rust_str list"
  dp_routes :: "dns_route list"
  dp_records :: dns_records

record effective_dns =
  ef_search_domains :: "rust_str list"
  ef_routes :: "dns_route list"
  ef_records :: dns_records

text \<open>The order of \<open>SocketAddr\<close>: IPv4 first, then field by field.\<close>

fun socket_rank :: "socket_addr \<Rightarrow> nat \<times> bytes \<times> u16 \<times> u32 \<times> u32" where
  "socket_rank (Socket_V4 ip port) = (0, ip, port, 0, 0)"
| "socket_rank (Socket_V6 ip port flow scope) = (1, ip, port, flow, scope)"

lemma socket_rank_eq_iff [simp]: "socket_rank a = socket_rank b \<longleftrightarrow> a = b"
  by (cases a; cases b) auto

instantiation socket_addr :: linorder
begin

definition less_eq_socket_addr :: "socket_addr \<Rightarrow> socket_addr \<Rightarrow> bool" where
  "less_eq_socket_addr a b = (socket_rank a \<le> socket_rank b)"

definition less_socket_addr :: "socket_addr \<Rightarrow> socket_addr \<Rightarrow> bool" where
  "less_socket_addr a b = (socket_rank a < socket_rank b)"

instance
  by standard (auto simp: less_eq_socket_addr_def less_socket_addr_def simp del: less_eq_prod_simp less_prod_simp
      dest: order_antisym)

end

section \<open>Names\<close>

definition to_ascii_lowercase :: "rust_str \<Rightarrow> rust_str" where
  "to_ascii_lowercase = map (\<lambda>c. if 65 \<le> c \<and> c \<le> 90 then c + 32 else c)"

fun split_dots :: "rust_str \<Rightarrow> rust_str list" where
  "split_dots [] = [[]]"
| "split_dots (c # cs) =
     (if c = 46 then [] # split_dots cs
      else case split_dots cs of [] \<Rightarrow> [[c]] | label # labels \<Rightarrow> (c # label) # labels)"

definition valid_label :: "rust_str \<Rightarrow> bool" where
  "valid_label label \<longleftrightarrow>
     label \<noteq> [] \<and> str_len label \<le> 63 \<and> list_all (\<lambda>c. 97 \<le> c \<and> c \<le> 122 \<or> 48 \<le> c \<and> c \<le> 57 \<or> c = 45) label
     \<and> hd label \<noteq> 45 \<and> List.last label \<noteq> 45"

definition valid_dns_name :: "rust_str \<Rightarrow> bool" where
  "valid_dns_name name \<longleftrightarrow>
     name \<noteq> [] \<and> str_len name \<le> 253 \<and> name = to_ascii_lowercase name \<and> list_all valid_label (split_dots name)"

section \<open>Validation\<close>

definition server_usable :: "socket_addr \<Rightarrow> bool" where
  "server_usable server \<longleftrightarrow>
     socket_port server \<noteq> 0 \<and> \<not> is_unspecified (socket_ip server) \<and> \<not> is_multicast (socket_ip server)"

fun validate_routes :: "rust_str list \<Rightarrow> dns_route list \<Rightarrow> (unit, management_error) outcome" where
  "validate_routes suffixes [] = Ok ()"
| "validate_routes suffixes (route # routes) =
     (if \<not> (dr_suffix route = [46] \<or> valid_dns_name (dr_suffix route)) \<or> dr_suffix route \<in> set suffixes
         \<or> dr_upstreams route = [] \<or> length (dr_upstreams route) > 4
         \<or> list_ex (\<lambda>server. \<not> server_usable server) (dr_upstreams route)
      then Err (Management_Invalid ''dns.routes'')
      else validate_routes (dr_suffix route # suffixes) routes)"

fun cname_of :: "dns_record list \<Rightarrow> rust_str option" where
  "cname_of (Record_CNAME target # _) = Some target"
| "cname_of _ = None"

text \<open>The loop of \<open>validate_records\<close> that follows the aliases of one name.\<close>

function cname_walk :: "dns_records \<Rightarrow> rust_str list \<Rightarrow> rust_str \<Rightarrow> (unit, management_error) outcome" where
  "cname_walk records visited current =
     (case map_of records current of
        None \<Rightarrow> Ok ()
      | Some entries \<Rightarrow>
          if current \<in> set visited then Err (Management_Conflict ''dns.cname_cycle'')
          else case cname_of entries of
            Some target \<Rightarrow> cname_walk records (current # visited) target
          | None \<Rightarrow> Ok ())"
  by pat_completeness auto

termination cname_walk
proof (relation "measure (\<lambda>(records, visited, _). card (fst ` set records - set visited))")
  fix records visited current entries target
  assume get: "map_of records current = Some entries" and new: "current \<notin> set visited"
  have "current \<in> fst ` set records - set visited" using map_of_SomeD [OF get] new by force
  then have "fst ` set records - set (current # visited) \<subset> fst ` set records - set visited" by auto
  then show "((records, current # visited, target), (records, visited, current))
      \<in> measure (\<lambda>(records, visited, _). card (fst ` set records - set visited))"
    using psubset_card_mono [of "fst ` set records - set visited"] by simp
qed simp

declare cname_walk.simps [simp del]

fun bad_alias :: "dns_record list \<Rightarrow> dns_record \<Rightarrow> bool" where
  "bad_alias entries (Record_CNAME target) = (length entries \<noteq> 1 \<or> \<not> valid_dns_name target)"
| "bad_alias entries _ = False"

fun validate_each :: "dns_records \<Rightarrow> dns_records \<Rightarrow> (unit, management_error) outcome" where
  "validate_each records [] = Ok ()"
| "validate_each records ((name, entries) # rest) =
     (if \<not> valid_dns_name name \<or> entries = [] \<or> length entries > 16 then Err (Management_Invalid ''dns.records'')
      else if list_ex (bad_alias entries) entries then Err (Management_Invalid ''dns.cname'')
      else and_then (cname_walk records [] name) (\<lambda>_. validate_each records rest))"

definition validate_records :: "dns_records \<Rightarrow> (unit, management_error) outcome" where
  "validate_records records = validate_each records records"

definition profile_validate :: "'net net_env \<Rightarrow> 'net dns_profile \<Rightarrow> (unit, management_error) outcome" where
  "profile_validate env p =
     and_then (selector_validate env (dp_scope p)) (\<lambda>_.
     if nt_version env (dp_id p) \<noteq> 4 \<or> length (dp_search_domains p) > 6 \<or> length (dp_routes p) > 64 \<or> length (dp_records p) > 4096
     then Err (Management_Invalid ''dns.bounds'')
     else if list_ex (\<lambda>name. \<not> valid_dns_name name) (dp_search_domains p) then Err (Management_Invalid ''dns.search_domains'')
     else and_then (validate_routes [] (dp_routes p)) (\<lambda>_. validate_records (dp_records p)))"

section \<open>The effective configuration of a Peer\<close>

definition sorted_servers :: "socket_addr list \<Rightarrow> socket_addr list" where
  "sorted_servers servers = remdups_adj (sort servers)"

text \<open>Both merges insert entry by entry and refuse one that differs from the entry already there.\<close>

fun merge_entries :: "management_error \<Rightarrow> ('k::linorder \<times> 'v) list \<Rightarrow> ('k \<times> 'v) list \<Rightarrow> (('k \<times> 'v) list, management_error) outcome" where
  "merge_entries conflict [] m = Ok m"
| "merge_entries conflict ((k, v) # rest) m =
     (let previous = map_of m k in
      if previous \<noteq> None \<and> previous \<noteq> Some v then Err conflict
      else merge_entries conflict rest (bmap_insert k v m))"

definition merge_routes :: "dns_route list \<Rightarrow> (rust_str \<times> socket_addr list) list \<Rightarrow> ((rust_str \<times> socket_addr list) list, management_error) outcome" where
  "merge_routes routes m =
     merge_entries (Management_Conflict ''dns.equal_suffix'') (map (\<lambda>r. (dr_suffix r, sorted_servers (dr_upstreams r))) routes) m"

definition merge_records :: "dns_records \<Rightarrow> dns_records \<Rightarrow> (dns_records, management_error) outcome" where
  "merge_records records m = merge_entries (Management_Conflict ''dns.record'') records m"

definition push_domain :: "rust_str \<Rightarrow> rust_str list \<Rightarrow> rust_str list" where
  "push_domain name domains = (if name \<in> set domains then domains else domains @ [name])"

type_synonym dns_merge = "(rust_str \<times> socket_addr list) list \<times> dns_records \<times> rust_str list"

fun merge_profiles ::
    "'net net_env \<Rightarrow> uuid \<Rightarrow> ip_addr \<Rightarrow> labels \<Rightarrow> 'net dns_profile list \<Rightarrow> dns_merge \<Rightarrow> (dns_merge, management_error) outcome" where
  "merge_profiles env peer address labels [] st = Ok st"
| "merge_profiles env peer address labels (p # ps) (routes, records, domains) =
     and_then (profile_validate env p) (\<lambda>_.
     if \<not> device_matches env (dp_scope p) peer address labels then merge_profiles env peer address labels ps (routes, records, domains)
     else and_then (merge_routes (dp_routes p) routes) (\<lambda>routes.
       and_then (merge_records (dp_records p) records) (\<lambda>records.
         merge_profiles env peer address labels ps (routes, records, fold push_domain (dp_search_domains p) domains))))"

definition route_order :: "dns_route \<Rightarrow> int \<times> rust_str" where
  "route_order route = (- int (str_len (dr_suffix route)), dr_suffix route)"

definition dns_for_peer ::
    "'net net_env \<Rightarrow> 'net dns_profile list \<Rightarrow> uuid \<Rightarrow> ip_addr \<Rightarrow> labels \<Rightarrow> (effective_dns, management_error) outcome" where
  "dns_for_peer env profiles peer address labels =
     and_then (merge_profiles env peer address labels profiles ([], [], [])) (\<lambda>(routes, records, domains).
     if length domains > 6 then Err (Management_Conflict ''dns.search_domains'')
     else and_then (validate_records records) (\<lambda>_.
       Ok \<lparr>ef_search_domains = domains,
         ef_routes = sort_key route_order (map (\<lambda>(suffix, upstreams). \<lparr>dr_suffix = suffix, dr_upstreams = upstreams\<rparr>) routes),
         ef_records = records\<rparr>))"

section \<open>Answers and routing\<close>

fun answer_matches :: "nat \<Rightarrow> dns_record \<Rightarrow> bool" where
  "answer_matches qtype (Record_A _) = (qtype = 1)"
| "answer_matches qtype (Record_AAAA _) = (qtype = 28)"
| "answer_matches qtype (Record_CNAME _) = False"

fun answer_loop ::
    "nat \<Rightarrow> effective_dns \<Rightarrow> nat \<Rightarrow> rust_str \<Rightarrow> (rust_str \<times> dns_record) list \<Rightarrow> ((rust_str \<times> dns_record) list, management_error) outcome" where
  "answer_loop 0 dns qtype current out = Err (Management_Invalid ''dns.cname_depth'')"
| "answer_loop (Suc n) dns qtype current out =
     (case map_of (ef_records dns) current of
        None \<Rightarrow> Ok out
      | Some records \<Rightarrow>
          (case cname_of records of
             Some target \<Rightarrow>
               let out = out @ [(current, Record_CNAME target)] in
               if qtype = 5 then Ok out else answer_loop n dns qtype target out
           | None \<Rightarrow> Ok (out @ map (Pair current) (filter (answer_matches qtype) records))))"

definition answer_records :: "effective_dns \<Rightarrow> rust_str \<Rightarrow> nat \<Rightarrow> ((rust_str \<times> dns_record) list, management_error) outcome" where
  "answer_records dns name qtype = answer_loop 16 dns qtype name []"

text \<open>\<open>str::strip_suffix\<close>, \<open>str::ends_with('.')\<close> and \<open>str::trim_end_matches('.')\<close>.\<close>

definition strip_suffix :: "rust_str \<Rightarrow> rust_str \<Rightarrow> rust_str option" where
  "strip_suffix name suffix =
     (if length suffix \<le> length name \<and> drop (length name - length suffix) name = suffix
      then Some (take (length name - length suffix) name) else None)"

definition ends_with_dot :: "rust_str \<Rightarrow> bool" where
  "ends_with_dot s \<longleftrightarrow> s \<noteq> [] \<and> List.last s = 46"

definition trim_dots :: "rust_str \<Rightarrow> rust_str" where
  "trim_dots s = rev (dropWhile (\<lambda>c. c = 46) (rev s))"

definition under_suffix :: "rust_str \<Rightarrow> rust_str \<Rightarrow> bool" where
  "under_suffix name suffix \<longleftrightarrow> (case strip_suffix name suffix of None \<Rightarrow> False | Some prefix \<Rightarrow> ends_with_dot prefix)"

definition route_serves :: "rust_str \<Rightarrow> dns_route \<Rightarrow> bool" where
  "route_serves name route \<longleftrightarrow> dr_suffix route = [46] \<or> name = dr_suffix route \<or> under_suffix name (dr_suffix route)"

definition dns_route_for :: "effective_dns \<Rightarrow> rust_str \<Rightarrow> dns_route option" where
  "dns_route_for dns name = find (route_serves (to_ascii_lowercase (trim_dots name))) (ef_routes dns)"

definition delegates_mesh_child :: "effective_dns \<Rightarrow> rust_str \<Rightarrow> rust_str \<Rightarrow> bool" where
  "delegates_mesh_child dns name mesh_suffix \<longleftrightarrow>
     (case dns_route_for dns name of
        None \<Rightarrow> False
      | Some route \<Rightarrow> under_suffix (dr_suffix route) (to_ascii_lowercase (trim_dots mesh_suffix)))"


section \<open>Alias chains\<close>

definition alias_step :: "dns_records \<Rightarrow> rust_str \<Rightarrow> rust_str option" where
  "alias_step records name = Option.bind (map_of records name) cname_of"

fun alias_at :: "dns_records \<Rightarrow> nat \<Rightarrow> rust_str \<Rightarrow> rust_str option" where
  "alias_at records 0 name = Some name"
| "alias_at records (Suc n) name = Option.bind (alias_step records name) (alias_at records n)"

text \<open>The links a resolver follows in its first \<open>n\<close> steps.\<close>

fun alias_links :: "dns_records \<Rightarrow> nat \<Rightarrow> rust_str \<Rightarrow> (rust_str \<times> dns_record) list" where
  "alias_links records 0 name = []"
| "alias_links records (Suc n) name =
     (case alias_step records name of
        None \<Rightarrow> []
      | Some target \<Rightarrow> (name, Record_CNAME target) # alias_links records n target)"

lemma cname_walk_ends:
  "cname_walk records visited current = Ok () \<Longrightarrow>
   \<exists>n final. n \<le> card (fst ` set records - set visited) \<and> alias_at records n current = Some final \<and> alias_step records final = None"
proof (induction records visited current rule: cname_walk.induct)
  case (1 records visited current)
  show ?case
  proof (cases "alias_step records current")
    case None
    then show ?thesis by (intro exI [of _ 0] exI [of _ current]) simp
  next
    case (Some target)
    then obtain entries where e: "map_of records current = Some entries" "cname_of entries = Some target"
      by (auto simp: alias_step_def bind_eq_Some_conv)
    have new: "current \<notin> set visited" and walk: "cname_walk records (current # visited) target = Ok ()"
      using 1 (2) e by (auto simp: cname_walk.simps [of records visited current] split: if_splits)
    obtain n final where n: "n \<le> card (fst ` set records - set (current # visited))" "alias_at records n target = Some final"
        "alias_step records final = None"
      using 1 (1) [OF e(1) new e(2) walk] by blast
    have "current \<in> fst ` set records - set visited" using map_of_SomeD [OF e(1)] new by force
    then have "Suc (card (fst ` set records - set (current # visited))) = card (fst ` set records - set visited)"
      using card_Suc_Diff1 [of "fst ` set records - set visited" current] by (simp add: Diff_insert2 [symmetric])
    then show ?thesis using n Some by (intro exI [of _ "Suc n"] exI [of _ final]) simp
  qed
qed

lemma validate_each_walks:
  "validate_each records rest = Ok () \<Longrightarrow> (name, entries) \<in> set rest \<Longrightarrow>
   cname_walk records [] name = Ok () \<and> valid_dns_name name \<and> entries \<noteq> [] \<and> \<not> list_ex (bad_alias entries) entries"
  by (induction records rest rule: validate_each.induct) (auto simp: and_then_Ok_iff split: if_splits)

lemma validated_chain_ends:
  assumes "validate_records records = Ok ()"
  shows "\<exists>n final. n \<le> length records \<and> alias_at records n name = Some final \<and> alias_step records final = None"
proof (cases "map_of records name")
  case None
  then show ?thesis by (intro exI [of _ 0] exI [of _ name]) (simp add: alias_step_def)
next
  case (Some entries)
  then have "cname_walk records [] name = Ok ()"
    using validate_each_walks [of records records name entries] assms map_of_SomeD by (fastforce simp: validate_records_def)
  moreover have "card (fst ` set records - set []) \<le> length records"
    using card_image_le [of "set records" fst] card_length [of records] by simp
  ultimately show ?thesis using cname_walk_ends [of records "[]" name] by (meson order_trans)
qed

section \<open>Answers\<close>

definition final_answers :: "dns_records \<Rightarrow> nat \<Rightarrow> rust_str \<Rightarrow> (rust_str \<times> dns_record) list" where
  "final_answers records qtype name =
     (case map_of records name of None \<Rightarrow> [] | Some entries \<Rightarrow> map (Pair name) (filter (answer_matches qtype) entries))"

lemma answer_loop_chain:
  assumes "alias_at (ef_records dns) n name = Some final" and "alias_step (ef_records dns) final = None" and "qtype \<noteq> 5"
  shows "answer_loop k dns qtype name out =
    (if n < k then Ok (out @ alias_links (ef_records dns) n name @ final_answers (ef_records dns) qtype final)
     else Err (Management_Invalid ''dns.cname_depth''))"
  using assms(1)
proof (induction k arbitrary: n name out)
  case 0
  then show ?case by simp
next
  case (Suc k)
  show ?case
  proof (cases "alias_step (ef_records dns) name")
    case None
    then have "n = 0" "final = name" using Suc.prems by (cases n; simp)+
    then show ?thesis using None
      by (auto simp: alias_step_def final_answers_def split: option.splits)
  next
    case (Some target)
    then obtain m where n: "n = Suc m" using Suc.prems assms(2) by (cases n) auto
    obtain entries where e: "map_of (ef_records dns) name = Some entries" "cname_of entries = Some target"
      using Some by (auto simp: alias_step_def bind_eq_Some_conv)
    have "alias_at (ef_records dns) m target = Some final" using Suc.prems Some n by simp
    from Suc.IH [OF this, of "out @ [(name, Record_CNAME target)]"] show ?thesis
      using e Some n assms(3) by (simp add: Let_def)
  qed
qed

lemma answer_loop_cname:
  "answer_loop (Suc k) dns 5 name out = Ok (out @ alias_links (ef_records dns) 1 name)"
proof (cases "alias_step (ef_records dns) name")
  case None
  have none: "filter (answer_matches 5) entries = []" for entries
    by (rule filter_False) (metis answer_matches.elims(2) numeral_eq_one_iff num.distinct(3) numeral_eq_iff num.distinct(1,5) num.inject(1) rel_simps(48) semiring_norm(83,88))
  show ?thesis using None none by (auto simp: alias_step_def split: option.splits)
next
  case (Some target)
  then obtain entries where "map_of (ef_records dns) name = Some entries" "cname_of entries = Some target"
    by (auto simp: alias_step_def bind_eq_Some_conv)
  then show ?thesis using Some by simp
qed

section \<open>Merging\<close>

lemma merge_entries_result:
  assumes "merge_entries conflict es m = Ok m'"
  shows "set es \<subseteq> {(k, v). map_of m' k = Some v} \<and> map_of m \<subseteq>\<^sub>m map_of m'
    \<and> (\<forall>k v. map_of m' k = Some v \<longrightarrow> map_of m k = Some v \<or> (k, v) \<in> set es) \<and> (bmap_ok m \<longrightarrow> bmap_ok m')"
  using assms
proof (induction conflict es m rule: merge_entries.induct)
  case (1 conflict m)
  then show ?case by simp
next
  case (2 conflict k v rest m)
  let ?m = "bmap_insert k v m"
  have ok: "map_of m k = None \<or> map_of m k = Some v" and rest: "merge_entries conflict rest ?m = Ok m'"
    using "2.prems" by (auto simp: Let_def split: if_splits)
  have ih: "set rest \<subseteq> {(k, v). map_of m' k = Some v}" "map_of ?m \<subseteq>\<^sub>m map_of m'"
      "\<forall>k' v'. map_of m' k' = Some v' \<longrightarrow> map_of ?m k' = Some v' \<or> (k', v') \<in> set rest" "bmap_ok ?m \<longrightarrow> bmap_ok m'"
    using "2.IH" [OF refl _ rest] ok by auto
  have up: "map_of m \<subseteq>\<^sub>m map_of ?m" using ok by (auto simp: map_le_def hm_get_bmap_insert)
  have k: "map_of m' k = Some v"
    using ih(2) unfolding map_le_def by (metis (full_types) domI hm_get_bmap_insert)
  show ?case
  proof (intro conjI allI impI)
    show "set ((k, v) # rest) \<subseteq> {(k, v). map_of m' k = Some v}" using ih(1) k by simp
    show "map_of m \<subseteq>\<^sub>m map_of m'" using up ih(2) by (rule map_le_trans)
    show "bmap_ok m \<Longrightarrow> bmap_ok m'" using ih(4) by simp
    fix k' v'
    assume m': "map_of m' k' = Some v'"
    then consider "map_of ?m k' = Some v'" | "(k', v') \<in> set rest" using ih(3) by blast
    then show "map_of m k' = Some v' \<or> (k', v') \<in> set ((k, v) # rest)"
      by cases (auto simp: hm_get_bmap_insert split: if_splits)
  qed
qed

lemma entries_lift:
  "set xs \<subseteq> {(k, v). map_of a k = Some v} \<Longrightarrow> map_of a \<subseteq>\<^sub>m map_of b \<Longrightarrow> set xs \<subseteq> {(k, v). map_of b k = Some v}"
  by (auto simp: map_le_def dom_def subset_iff)

definition applies :: "'net net_env \<Rightarrow> uuid \<Rightarrow> ip_addr \<Rightarrow> labels \<Rightarrow> 'net dns_profile \<Rightarrow> bool" where
  "applies env peer address labels p = device_matches env (dp_scope p) peer address labels"

definition route_entries :: "'net dns_profile \<Rightarrow> (rust_str \<times> socket_addr list) list" where
  "route_entries p = map (\<lambda>r. (dr_suffix r, sorted_servers (dr_upstreams r))) (dp_routes p)"

lemma merge_profiles_result:
  assumes "merge_profiles env peer address labels ps (routes, records, domains) = Ok (routes', records', domains')"
  shows "(\<forall>p\<in>set ps. profile_validate env p = Ok ())
    \<and> (\<forall>p\<in>set ps. applies env peer address labels p \<longrightarrow>
         set (route_entries p) \<subseteq> {(k, v). map_of routes' k = Some v} \<and> set (dp_records p) \<subseteq> {(k, v). map_of records' k = Some v})
    \<and> map_of routes \<subseteq>\<^sub>m map_of routes' \<and> map_of records \<subseteq>\<^sub>m map_of records'
    \<and> (\<forall>k v. map_of routes' k = Some v \<longrightarrow> map_of routes k = Some v
         \<or> (\<exists>p\<in>set ps. applies env peer address labels p \<and> (k, v) \<in> set (route_entries p)))
    \<and> (\<forall>k v. map_of records' k = Some v \<longrightarrow> map_of records k = Some v
         \<or> (\<exists>p\<in>set ps. applies env peer address labels p \<and> (k, v) \<in> set (dp_records p)))
    \<and> (bmap_ok routes \<longrightarrow> bmap_ok routes')"
  using assms
proof (induction ps arbitrary: routes records domains)
  case Nil
  then show ?case by simp
next
  case (Cons p ps)
  have valid: "profile_validate env p = Ok ()" using Cons.prems by (auto simp: and_then_Ok_iff)
  show ?case
  proof (cases "applies env peer address labels p")
    case False
    then have "merge_profiles env peer address labels ps (routes, records, domains) = Ok (routes', records', domains')"
      using Cons.prems valid by (simp add: applies_def)
    from Cons.IH [OF this] show ?thesis using valid False by auto
  next
    case True
    then obtain r1 m1 d1 where m: "merge_routes (dp_routes p) routes = Ok r1" "merge_records (dp_records p) records = Ok m1"
        "merge_profiles env peer address labels ps (r1, m1, d1) = Ok (routes', records', domains')"
      using Cons.prems valid by (auto simp: and_then_Ok_iff applies_def)
    note r = merge_entries_result [OF m(1) [unfolded merge_routes_def route_entries_def [symmetric]]]
    note q = merge_entries_result [OF m(2) [unfolded merge_records_def]]
    note ih = Cons.IH [OF m(3)]
    have below: "map_of r1 \<subseteq>\<^sub>m map_of routes'" "map_of m1 \<subseteq>\<^sub>m map_of records'" using ih by simp_all
    have here: "set (route_entries p) \<subseteq> {(k, v). map_of routes' k = Some v}" "set (dp_records p) \<subseteq> {(k, v). map_of records' k = Some v}"
      using entries_lift [OF _ below(1), of "route_entries p"] entries_lift [OF _ below(2), of "dp_records p"] r q by simp_all
    have from_routes: "map_of routes k = Some v \<or> (\<exists>p\<in>set (p # ps). applies env peer address labels p \<and> (k, v) \<in> set (route_entries p))"
      if k: "map_of routes' k = Some v" for k v
    proof -
      have "map_of r1 k = Some v \<or> (\<exists>p\<in>set ps. applies env peer address labels p \<and> (k, v) \<in> set (route_entries p))"
        using ih k by blast
      then show ?thesis using r True by auto
    qed
    have from_records: "map_of records k = Some v \<or> (\<exists>p\<in>set (p # ps). applies env peer address labels p \<and> (k, v) \<in> set (dp_records p))"
      if k: "map_of records' k = Some v" for k v
    proof -
      have "map_of m1 k = Some v \<or> (\<exists>p\<in>set ps. applies env peer address labels p \<and> (k, v) \<in> set (dp_records p))"
        using ih k by blast
      then show ?thesis using q True by auto
    qed
    have "map_of routes \<subseteq>\<^sub>m map_of routes'" "map_of records \<subseteq>\<^sub>m map_of records'"
      using r q below by (auto intro: map_le_trans)
    moreover have "\<forall>q\<in>set (p # ps). profile_validate env q = Ok ()" using ih valid by simp
    moreover have "\<forall>q\<in>set (p # ps). applies env peer address labels q \<longrightarrow>
         set (route_entries q) \<subseteq> {(k, v). map_of routes' k = Some v} \<and> set (dp_records q) \<subseteq> {(k, v). map_of records' k = Some v}"
      using ih here by simp
    moreover have "bmap_ok routes \<longrightarrow> bmap_ok routes'" using r ih by simp
    ultimately show ?thesis using from_routes from_records by blast
  qed
qed


section \<open>Routes\<close>

lemma validate_routes_suffix:
  "validate_routes suffixes routes = Ok () \<Longrightarrow> r \<in> set routes \<Longrightarrow> dr_suffix r = [46] \<or> valid_dns_name (dr_suffix r)"
  by (induction suffixes routes rule: validate_routes.induct) (auto split: if_splits)

lemma split_dots_chars: "c \<in> set name \<Longrightarrow> c = 46 \<or> (\<exists>label\<in>set (split_dots name). c \<in> set label)"
proof (induction name)
  case Nil
  then show ?case by simp
next
  case (Cons d name)
  then show ?case by (cases "split_dots name") auto
qed

lemma valid_name_chars: "valid_dns_name name \<Longrightarrow> c \<in> set name \<Longrightarrow> 45 \<le> c \<and> c < 128"
  using split_dots_chars [of c name] by (fastforce simp: valid_dns_name_def valid_label_def list_all_iff)

lemma str_len_ascii: "\<forall>c\<in>set s. c < 128 \<Longrightarrow> str_len s = length s"
  by (induction s) (auto simp: str_len_def utf8_width_def)

text \<open>A name of one character is a letter or a digit, so it sorts after the single dot.\<close>

lemma single_char_name: "valid_dns_name [c] \<Longrightarrow> 48 \<le> c"
  by (cases "c = 46") (auto simp: valid_dns_name_def valid_label_def)

lemma strip_suffix_eq: "strip_suffix name suffix = Some prefix \<Longrightarrow> name = prefix @ suffix"
  by (auto simp: strip_suffix_def split: if_splits) (metis append_take_drop_id)

lemma served_suffix: "route_serves name r \<Longrightarrow> dr_suffix r \<noteq> [46] \<Longrightarrow> \<exists>prefix. name = prefix @ dr_suffix r"
  unfolding route_serves_def under_suffix_def by (auto dest!: strip_suffix_eq split: option.splits)

lemma effective_facts:
  assumes "dns_for_peer env profiles peer address labels = Ok dns"
  shows "\<exists>routes records domains. merge_profiles env peer address labels profiles ([], [], []) = Ok (routes, records, domains)
    \<and> validate_records records = Ok () \<and> ef_records dns = records \<and> ef_search_domains dns = domains \<and> length domains \<le> 6
    \<and> bmap_ok routes
    \<and> ef_routes dns = sort_key route_order (map (\<lambda>(suffix, upstreams). \<lparr>dr_suffix = suffix, dr_upstreams = upstreams\<rparr>) routes)"
proof -
  obtain routes records domains where m: "merge_profiles env peer address labels profiles ([], [], []) = Ok (routes, records, domains)"
    and rest: "validate_records records = Ok ()" "ef_records dns = records" "ef_search_domains dns = domains" "length domains \<le> 6"
      "ef_routes dns = sort_key route_order (map (\<lambda>(suffix, upstreams). \<lparr>dr_suffix = suffix, dr_upstreams = upstreams\<rparr>) routes)"
    using assms by (auto simp: dns_for_peer_def and_then_Ok_iff split: if_splits)
  moreover have "bmap_ok routes" using merge_profiles_result [OF m] by simp
  ultimately show ?thesis by blast
qed

lemma effective_route_iff:
  assumes "ef_routes dns = sort_key route_order (map (\<lambda>(suffix, upstreams). \<lparr>dr_suffix = suffix, dr_upstreams = upstreams\<rparr>) routes)"
    and "bmap_ok routes"
  shows "\<lparr>dr_suffix = k, dr_upstreams = v\<rparr> \<in> set (ef_routes dns) \<longleftrightarrow> map_of routes k = Some v"
  using assms hm_get_Some_mem [OF bmap_ok_distinct [OF assms(2)], of k v] by (auto simp: image_iff split: prod.splits)

lemma effective_suffix_valid:
  assumes "dns_for_peer env profiles peer address labels = Ok dns" and "r \<in> set (ef_routes dns)"
  shows "dr_suffix r = [46] \<or> valid_dns_name (dr_suffix r)"
proof -
  obtain routes records domains where m: "merge_profiles env peer address labels profiles ([], [], []) = Ok (routes, records, domains)"
      "bmap_ok routes" "ef_routes dns = sort_key route_order (map (\<lambda>(suffix, upstreams). \<lparr>dr_suffix = suffix, dr_upstreams = upstreams\<rparr>) routes)"
    using effective_facts [OF assms(1)] by blast
  obtain k v where r: "r = \<lparr>dr_suffix = k, dr_upstreams = v\<rparr>" by (cases r) auto
  have "map_of routes k = Some v" using assms(2) effective_route_iff [OF m(3,2)] r by simp
  then obtain p where p: "p \<in> set profiles" "(k, v) \<in> set (route_entries p)" "profile_validate env p = Ok ()"
    using merge_profiles_result [OF m(1), simplified] by blast
  then have "validate_routes [] (dp_routes p) = Ok ()" by (auto simp: profile_validate_def and_then_Ok_iff split: if_splits)
  then show ?thesis using p(2) r validate_routes_suffix [of "[]" "dp_routes p"] by (auto simp: route_entries_def)
qed

lemma effective_routes_distinct:
  assumes "dns_for_peer env profiles peer address labels = Ok dns" and "r \<in> set (ef_routes dns)" and "s \<in> set (ef_routes dns)"
    and "dr_suffix r = dr_suffix s"
  shows "r = s"
proof -
  obtain routes where m: "bmap_ok routes" "ef_routes dns = sort_key route_order (map (\<lambda>(suffix, upstreams). \<lparr>dr_suffix = suffix, dr_upstreams = upstreams\<rparr>) routes)"
    using effective_facts [OF assms(1)] by blast
  obtain k v l w where rs: "r = \<lparr>dr_suffix = k, dr_upstreams = v\<rparr>" "s = \<lparr>dr_suffix = l, dr_upstreams = w\<rparr>" by (cases r; cases s) auto
  then show ?thesis using assms(2-4) effective_route_iff [OF m(2,1)] by fastforce
qed

lemma find_sorted_least:
  assumes "find P (sort_key f xs) = Some x" and "y \<in> set xs" and "P y"
  shows "f x \<le> f y"
proof -
  obtain i where i: "i < length (sort_key f xs)" "P (sort_key f xs ! i)" "x = sort_key f xs ! i" "\<forall>j<i. \<not> P (sort_key f xs ! j)"
    using assms(1) by (auto simp: find_Some_iff)
  obtain j where j: "j < length (sort_key f xs)" "y = sort_key f xs ! j" using assms(2) by (metis in_set_conv_nth set_sort)
  have "i \<le> j" using i(4) j(2) assms(3) by (metis leI)
  moreover have "sorted (map f (sort_key f xs))" by simp
  ultimately have "map f (sort_key f xs) ! i \<le> map f (sort_key f xs) ! j" using j(1) by (intro sorted_nth_mono) simp_all
  then show ?thesis using i j by simp
qed

section \<open>Properties\<close>

text \<open>(C39) The most specific DNS route is chosen.  In the effective configuration of a Peer, a name is sent to a route
  that serves it whenever there is one, and any other route that serves the name has a strictly shorter
  suffix; the one exception is the default route, which also takes precedence over suffixes of one character.
\<close>

theorem dns_route_most_specific:
  assumes "dns_for_peer env profiles peer address labels = Ok dns"
  shows "case dns_route_for dns name of
      None \<Rightarrow> \<forall>s\<in>set (ef_routes dns). \<not> route_serves (to_ascii_lowercase (trim_dots name)) s
    | Some r \<Rightarrow> r \<in> set (ef_routes dns) \<and> route_serves (to_ascii_lowercase (trim_dots name)) r
        \<and> (\<forall>s\<in>set (ef_routes dns). route_serves (to_ascii_lowercase (trim_dots name)) s \<longrightarrow>
             s = r \<or> length (dr_suffix s) < length (dr_suffix r) \<or> dr_suffix r = [46] \<and> length (dr_suffix s) = 1)"
proof (cases "dns_route_for dns name")
  case None
  then have "\<forall>s\<in>set (ef_routes dns). \<not> route_serves (to_ascii_lowercase (trim_dots name)) s"
    by (auto simp: dns_route_for_def find_None_iff)
  then show ?thesis using None by simp
next
  case (Some r)
  let ?name = "to_ascii_lowercase (trim_dots name)"
  have r: "r \<in> set (ef_routes dns)" "route_serves ?name r" using Some by (auto simp: dns_route_for_def dest: find_SomeD)
  have ascii: "str_len (dr_suffix s) = length (dr_suffix s) \<and> dr_suffix s \<noteq> []" if "s \<in> set (ef_routes dns)" for s
    using effective_suffix_valid [OF assms that] valid_name_chars by (auto intro!: str_len_ascii simp: valid_dns_name_def)
  have best: "s = r \<or> length (dr_suffix s) < length (dr_suffix r) \<or> dr_suffix r = [46] \<and> length (dr_suffix s) = 1"
    if s: "s \<in> set (ef_routes dns)" "route_serves ?name s" for s
  proof -
    obtain xs where xs: "ef_routes dns = sort_key route_order xs" using effective_facts [OF assms] by blast
    have "route_order r \<le> route_order s"
      using find_sorted_least [of "route_serves ?name" route_order xs r s] Some s xs by (simp add: dns_route_for_def)
    then have le: "length (dr_suffix s) < length (dr_suffix r) \<or> length (dr_suffix s) = length (dr_suffix r) \<and> dr_suffix r \<le> dr_suffix s"
      using ascii [OF s(1)] ascii [OF r(1)] by (auto simp: route_order_def)
    show ?thesis
    proof (cases "length (dr_suffix s) = length (dr_suffix r) \<and> dr_suffix r \<noteq> [46]")
      case True
      show ?thesis
      proof (cases "dr_suffix s = [46]")
        case False
        obtain p q where "?name = p @ dr_suffix r" "?name = q @ dr_suffix s" using served_suffix s(2) r(2) True False by metis
        then have "dr_suffix r = dr_suffix s" using True by (metis append_eq_append_conv)
        then show ?thesis using effective_routes_distinct [OF assms r(1) s(1)] by simp
      next
        case dot: True
        then obtain c where c: "dr_suffix r = [c]" using True by (cases "dr_suffix r") auto
        then have "48 \<le> c" using effective_suffix_valid [OF assms r(1)] True single_char_name by auto
        then show ?thesis using le dot c by (auto simp: Cons_le_Cons)
      qed
    next
      case False
      then show ?thesis using le ascii [OF r(1)] by auto
    qed
  qed
  then show ?thesis using Some r by simp
qed

text \<open>A profile with a default route and a route for \<open>corp\<close>.\<close>

definition sample_servers :: "socket_addr list" where
  "sample_servers = [Socket_V4 [10, 0, 0, 53] 53]"

definition sample_profile :: "rust_str \<Rightarrow> octet_net dns_profile" where
  "sample_profile suffix = \<lparr>dp_id = replicate 16 1, dp_scope = \<lparr>ds_peers = [], ds_labels = [], ds_cidrs = []\<rparr>, dp_search_domains = [],
     dp_routes = [\<lparr>dr_suffix = [46], dr_upstreams = [Socket_V4 [1, 1, 1, 1] 53]\<rparr>, \<lparr>dr_suffix = suffix, dr_upstreams = sample_servers\<rparr>],
     dp_records = [([119], [Record_CNAME [97, 46, 98]]), ([97, 46, 98], [Record_A [10, 0, 0, 8]])]\<rparr>"

definition sample_dns :: "rust_str \<Rightarrow> effective_dns" where
  "sample_dns suffix = \<lparr>ef_search_domains = [], ef_routes = sort_key route_order [\<lparr>dr_suffix = [46], dr_upstreams = [Socket_V4 [1, 1, 1, 1] 53]\<rparr>,
       \<lparr>dr_suffix = suffix, dr_upstreams = sample_servers\<rparr>],
     ef_records = [([97, 46, 98], [Record_A [10, 0, 0, 8]]), ([119], [Record_CNAME [97, 46, 98]])]\<rparr>"

lemma sample_dns_effective:
  "dns_for_peer octet_env [sample_profile [99, 111]] [] (V4 [10, 0, 0, 1]) [] = Ok (sample_dns [99, 111])"
  "dns_for_peer octet_env [sample_profile [97]] [] (V4 [10, 0, 0, 1]) [] = Ok (sample_dns [97])"
  by code_simp+

theorem dns_route_most_specific_witness:
  "dns_route_for (sample_dns [99, 111]) [104, 46, 99, 111] = Some \<lparr>dr_suffix = [99, 111], dr_upstreams = sample_servers\<rparr>
   \<and> route_serves (to_ascii_lowercase (trim_dots [104, 46, 99, 111])) \<lparr>dr_suffix = [99, 111], dr_upstreams = sample_servers\<rparr>"
proof -
  have chosen: "dns_route_for (sample_dns [99, 111]) [104, 46, 99, 111] = Some \<lparr>dr_suffix = [99, 111], dr_upstreams = sample_servers\<rparr>" by code_simp
  show ?thesis using dns_route_most_specific [OF sample_dns_effective(1), of "[104, 46, 99, 111]"] chosen by simp
qed

text \<open>The exception occurs: with a private suffix of one letter, names under it go to the default servers.\<close>

lemma one_letter_suffix_shadowed:
  "dns_route_for (sample_dns [97]) [104, 46, 97] = Some \<lparr>dr_suffix = [46], dr_upstreams = [Socket_V4 [1, 1, 1, 1] 53]\<rparr>
   \<and> route_serves [104, 46, 97] \<lparr>dr_suffix = [97], dr_upstreams = sample_servers\<rparr>"
  by code_simp

text \<open>Effective DNS is the agreement of the profiles.  When a Peer's configuration is computed, every profile is valid and each
  profile in whose scope the Peer is contributes all its routes, with the servers sorted and without
  repetition, and all its records; every route and record comes from such a profile, so two of them
  never disagree on a suffix or a name; there are at most six search domains.
\<close>

theorem effective_dns_agreement:
  assumes "dns_for_peer env profiles peer address labels = Ok dns"
  shows "(\<forall>p\<in>set profiles. profile_validate env p = Ok ()) \<and> length (ef_search_domains dns) \<le> 6
    \<and> (\<forall>k v. \<lparr>dr_suffix = k, dr_upstreams = v\<rparr> \<in> set (ef_routes dns) \<longleftrightarrow>
         (\<exists>p\<in>set profiles. device_matches env (dp_scope p) peer address labels
            \<and> (\<exists>r\<in>set (dp_routes p). dr_suffix r = k \<and> sorted_servers (dr_upstreams r) = v)))
    \<and> (\<forall>k v. map_of (ef_records dns) k = Some v \<longleftrightarrow>
         (\<exists>p\<in>set profiles. device_matches env (dp_scope p) peer address labels \<and> (k, v) \<in> set (dp_records p)))"
proof -
  obtain routes records domains where m: "merge_profiles env peer address labels profiles ([], [], []) = Ok (routes, records, domains)"
      "ef_records dns = records" "ef_search_domains dns = domains" "length domains \<le> 6" "bmap_ok routes"
      "ef_routes dns = sort_key route_order (map (\<lambda>(suffix, upstreams). \<lparr>dr_suffix = suffix, dr_upstreams = upstreams\<rparr>) routes)"
    using effective_facts [OF assms] by blast
  note facts = merge_profiles_result [OF m(1)]
  have entry: "(k, v) \<in> set (route_entries p) \<longleftrightarrow> (\<exists>r\<in>set (dp_routes p). dr_suffix r = k \<and> sorted_servers (dr_upstreams r) = v)" for k v and p :: "'a dns_profile"
    by (auto simp: route_entries_def)
  have "map_of routes k = Some v \<longleftrightarrow> (\<exists>p\<in>set profiles. applies env peer address labels p \<and> (k, v) \<in> set (route_entries p))" for k v
    using facts by fastforce
  moreover have "map_of records k = Some v \<longleftrightarrow> (\<exists>p\<in>set profiles. applies env peer address labels p \<and> (k, v) \<in> set (dp_records p))" for k v
    using facts by fastforce
  ultimately show ?thesis
    using facts m(2-4) unfolding effective_route_iff [OF m(6,5)] entry applies_def by blast
qed

theorem effective_dns_agreement_witness:
  "profile_validate octet_env (sample_profile [99, 111]) = Ok ()
   \<and> map_of (ef_records (sample_dns [99, 111])) [119] = Some [Record_CNAME [97, 46, 98]]"
proof
  show "profile_validate octet_env (sample_profile [99, 111]) = Ok ()" using effective_dns_agreement [OF sample_dns_effective(1)] by simp
  have "([119], [Record_CNAME [97, 46, 98]]) \<in> set (dp_records (sample_profile [99, 111]))" by (simp add: sample_profile_def)
  moreover have "device_matches octet_env (dp_scope (sample_profile [99, 111])) [] (V4 [10, 0, 0, 1]) []" by code_simp
  ultimately show "map_of (ef_records (sample_dns [99, 111])) [119] = Some [Record_CNAME [97, 46, 98]]"
    using effective_dns_agreement [OF sample_dns_effective(1)] by auto
qed

text \<open>(C38) Local answers end.  Validated records have no alias cycle: from every name the aliases lead, in at most as many
  steps as there are records, to a name without an alias.  The answer is the chain of aliases followed by the
  records of the asked type at its end, if it takes fewer than sixteen steps, and an error otherwise; asked for the
  alias itself, it is the first link.
\<close>

theorem dns_answers_exact:
  assumes "validate_records (ef_records dns) = Ok ()"
  shows "\<exists>n final. n \<le> length (ef_records dns) \<and> alias_at (ef_records dns) n name = Some final \<and> alias_step (ef_records dns) final = None
    \<and> answer_records dns name qtype =
        (if qtype = 5 then Ok (alias_links (ef_records dns) 1 name)
         else if n < 16 then Ok (alias_links (ef_records dns) n name @ final_answers (ef_records dns) qtype final)
         else Err (Management_Invalid ''dns.cname_depth''))"
proof -
  obtain n final where n: "n \<le> length (ef_records dns)" "alias_at (ef_records dns) n name = Some final" "alias_step (ef_records dns) final = None"
    using validated_chain_ends [OF assms] by blast
  have sixteen: "(16 :: nat) = Suc 15" by simp
  have "answer_records dns name 5 = Ok (alias_links (ef_records dns) 1 name)"
    unfolding answer_records_def sixteen answer_loop_cname by simp
  moreover have "answer_records dns name qtype =
      (if n < 16 then Ok (alias_links (ef_records dns) n name @ final_answers (ef_records dns) qtype final)
       else Err (Management_Invalid ''dns.cname_depth''))" if "qtype \<noteq> 5"
    using answer_loop_chain [OF n(2,3) that, of 16 "[]"] by (simp add: answer_records_def)
  ultimately show ?thesis using n by (intro exI [of _ n] exI [of _ final]) simp
qed

theorem dns_answers_exact_witness:
  "\<exists>n final. alias_at (ef_records (sample_dns [99, 111])) n [119] = Some final
     \<and> answer_records (sample_dns [99, 111]) [119] 1 = Ok [([119], Record_CNAME [97, 46, 98]), ([97, 46, 98], Record_A [10, 0, 0, 8])]"
proof -
  have "validate_records (ef_records (sample_dns [99, 111])) = Ok ()" by code_simp
  moreover have "answer_records (sample_dns [99, 111]) [119] 1 = Ok [([119], Record_CNAME [97, 46, 98]), ([97, 46, 98], Record_A [10, 0, 0, 8])]"
    by code_simp
  ultimately show ?thesis using dns_answers_exact [of "sample_dns [99, 111]" "[119]" 1] by blast
qed

end
