(* ===== verification/ResourceConfiguration.thy ===== *)
theory ResourceConfiguration
  imports ResourcePolicy DeviceConditions ManagedDns
begin

text \<open>
  The resource configuration a Peer receives (\<open>crates/peerward-management/src/configuration.rs\<close>),
  its validation, the delivery that binds it to a signed manifest, and the routes a client captures
  for it (\<open>client_network.rs\<close>).  The JSON encodings of the two parts are parameters.
\<close>

section \<open>The configuration\<close>

record 'net resource_withdrawal =
  rw_target :: "'net resource_target"
  rw_providers :: "uuid list"

record 'net capture_exclusion =
  ce_target :: "'net resource_target"
  ce_providers :: "uuid list"

record 'net resource_configuration =
  rf_admission :: admission_configuration
  rf_collections :: "resolved_collection list"
  rf_withdrawals :: "'net resource_withdrawal list"
  rf_capture_exclusions :: "'net capture_exclusion list"
  rf_resources :: "'net network_resource list"
  rf_bindings :: "gateway_binding list"
  rf_advertisements :: "route_advertisement list"
  rf_rules :: "'net resource_rule list"

definition same_grants :: "'net resource_configuration \<Rightarrow> 'net resource_configuration \<Rightarrow> bool" where
  "same_grants c d \<longleftrightarrow>
     same_requirements (rf_admission c) (rf_admission d) \<and> rf_collections c = rf_collections d
     \<and> rf_withdrawals c = rf_withdrawals d \<and> rf_capture_exclusions c = rf_capture_exclusions d
     \<and> rf_resources c = rf_resources d \<and> rf_bindings c = rf_bindings d \<and> rf_rules c = rf_rules d"

section \<open>Validation\<close>

fun validate_withdrawals :: "'net net_env \<Rightarrow> 'net resource_withdrawal list \<Rightarrow> (unit, management_error) outcome" where
  "validate_withdrawals env [] = Ok ()"
| "validate_withdrawals env (w # ws) =
     and_then (target_validate env (rw_target w)) (\<lambda>_.
     if length (rw_providers w) > 4096 then Err (Management_Invalid ''withdrawal.providers'')
     else validate_withdrawals env ws)"

fun is_subnet :: "'net resource_target \<Rightarrow> bool" where
  "is_subnet (Target_Subnet _ _) = True"
| "is_subnet (Target_Internet _ _) = False"

fun validate_exclusions :: "'net net_env \<Rightarrow> 'net capture_exclusion list \<Rightarrow> (unit, management_error) outcome" where
  "validate_exclusions env [] = Ok ()"
| "validate_exclusions env (x # xs) =
     and_then (target_validate env (ce_target x)) (\<lambda>_.
     if \<not> is_subnet (ce_target x) \<or> length (ce_providers x) > 4096 then Err (Management_Invalid ''capture_exclusion.providers'')
     else validate_exclusions env xs)"

fun validate_resources :: "'net net_env \<Rightarrow> uuid list \<Rightarrow> 'net network_resource list \<Rightarrow> (uuid list, management_error) outcome" where
  "validate_resources env ids [] = Ok ids"
| "validate_resources env ids (r # rs) =
     and_then (definition_validate env (nr_definition r)) (\<lambda>_.
     if nr_version r = 0 \<or> is_nil (nr_id r) \<or> nr_id r \<in> set ids then Err (Management_Invalid ''resource_configuration.identity'')
     else validate_resources env (nr_id r # ids) rs)"

fun validate_collections ::
    "'net net_env \<Rightarrow> uuid list \<Rightarrow> (uuid \<times> collection_kind) list \<Rightarrow> resolved_collection list
     \<Rightarrow> ((uuid \<times> collection_kind) list, management_error) outcome" where
  "validate_collections env ids kinds [] = Ok kinds"
| "validate_collections env ids kinds (c # cs) =
     (if nt_version env (rc_id c) \<noteq> 4 \<or> length (rc_members c) > 4096 \<or> list_ex (\<lambda>u. nt_version env u \<noteq> 4) (rc_members c)
         \<or> rc_kind c = Resources \<and> \<not> set (rc_members c) \<subseteq> set ids \<or> hm_get kinds (rc_id c) \<noteq> None
      then Err (Management_Invalid ''resource_configuration.collection'')
      else validate_collections env ids (hm_insert (rc_id c) (rc_kind c) kinds) cs)"

definition serves_internet :: "'net network_resource list \<Rightarrow> gateway_binding \<Rightarrow> bool" where
  "serves_internet resources b \<longleftrightarrow>
     list_ex (\<lambda>r. nr_id r = gb_resource_id b \<and> \<not> is_subnet (rd_target (nr_definition r))) resources"

fun validate_bindings ::
    "'net net_env \<Rightarrow> 'net network_resource list \<Rightarrow> uuid list \<Rightarrow> (uuid \<times> gateway_binding) list \<Rightarrow> (uuid \<times> uuid) list
     \<Rightarrow> gateway_binding list \<Rightarrow> ((uuid \<times> gateway_binding) list, management_error) outcome" where
  "validate_bindings env resources ids bindings exits [] = Ok bindings"
| "validate_bindings env resources ids bindings exits (b # bs) =
     and_then (binding_validate env b) (\<lambda>_.
     if gb_resource_id b \<notin> set ids \<or> hm_get bindings (gb_id b) \<noteq> None
     then Err (Management_Invalid ''resource_configuration.binding'')
     else if gb_approved b \<and> serves_internet resources b then
       (if hm_get exits (gb_peer_id b) \<notin> {None, Some (gb_resource_id b)} then Err (Management_Conflict ''exit.provider_resource'')
        else validate_bindings env resources ids (hm_insert (gb_id b) b bindings)
               (hm_insert (gb_peer_id b) (gb_resource_id b) exits) bs)
     else validate_bindings env resources ids (hm_insert (gb_id b) b bindings) exits bs)"

fun validate_advertisements ::
    "(uuid \<times> gateway_binding) list \<Rightarrow> uuid list \<Rightarrow> route_advertisement list \<Rightarrow> (unit, management_error) outcome" where
  "validate_advertisements bindings seen [] = Ok ()"
| "validate_advertisements bindings seen (a # as) =
     (if ra_sequence a = 0 \<or> ra_binding_version a = 0 \<or> ra_binding_id a \<in> set seen
         \<or> (case hm_get bindings (ra_binding_id a) of None \<Rightarrow> True | Some b \<Rightarrow> gb_peer_id b \<noteq> ra_peer_id a)
      then Err (Management_Invalid ''resource_configuration.advertisement'')
      else validate_advertisements bindings (ra_binding_id a # seen) as)"

fun validate_rules ::
    "'net net_env \<Rightarrow> uuid list \<Rightarrow> (uuid \<times> collection_kind) list \<Rightarrow> uuid list \<Rightarrow> 'net resource_rule list \<Rightarrow> (unit, management_error) outcome" where
  "validate_rules env ids kinds seen [] = Ok ()"
| "validate_rules env ids kinds seen (r # rs) =
     and_then (resource_rule_validate env r) (\<lambda>_.
     if rr_id r \<in> set seen \<or> list_ex (\<lambda>u. u \<notin> set ids) (rr_resources r)
       \<or> list_ex (\<lambda>u. hm_get kinds u \<noteq> Some Devices) (rr_source_collections r)
       \<or> list_ex (\<lambda>u. hm_get kinds u \<noteq> Some Resources) (rr_resource_collections r)
     then Err (Management_Invalid ''resource_configuration.rule'')
     else validate_rules env ids kinds (rr_id r # seen) rs)"

definition configuration_validate :: "'net net_env \<Rightarrow> 'net resource_configuration \<Rightarrow> (unit, management_error) outcome" where
  "configuration_validate env c =
     and_then (admission_validate (rf_admission c)) (\<lambda>_.
     if length (rf_collections c) > 64
       \<or> length (filter (\<lambda>r. rd_health_probe (nr_definition r) \<noteq> None) (rf_resources c)) > 64
       \<or> length (rf_withdrawals c) > 4096 \<or> length (rf_capture_exclusions c) > 4096 \<or> length (rf_resources c) > 4096
       \<or> length (rf_bindings c) > 8192 \<or> length (rf_advertisements c) > 8192 \<or> length (rf_rules c) > 4096
     then Err (Management_Invalid ''resource_configuration.bounds'')
     else
       and_then (validate_withdrawals env (rf_withdrawals c)) (\<lambda>_.
       and_then (validate_exclusions env (rf_capture_exclusions c)) (\<lambda>_.
       and_then (validate_resources env [] (rf_resources c)) (\<lambda>ids.
       and_then (validate_collections env ids [] (rf_collections c)) (\<lambda>kinds.
       and_then (validate_bindings env (rf_resources c) ids [] [] (rf_bindings c)) (\<lambda>bindings.
       and_then (validate_advertisements bindings [] (rf_advertisements c)) (\<lambda>_.
         validate_rules env ids kinds [] (rf_rules c))))))))"

section \<open>The delivery\<close>

record 'net delivery_env =
  dl_net :: "'net net_env"
  dl_lease :: lease_env
  dl_resources_json :: "'net resource_configuration \<Rightarrow> bytes option"
  dl_dns_json :: "'net dns_profile list \<Rightarrow> bytes option"

record 'net configuration_delivery =
  dv_manifest :: signed_manifest
  dv_lease :: signed_lease
  dv_resources :: "'net resource_configuration"
  dv_dns :: "'net dns_profile list"

fun validate_profiles :: "'net net_env \<Rightarrow> 'net dns_profile list \<Rightarrow> (unit, management_error) outcome" where
  "validate_profiles env [] = Ok ()"
| "validate_profiles env (p # ps) = and_then (profile_validate env p) (\<lambda>_. validate_profiles env ps)"

definition part_pinned :: "configuration_manifest \<Rightarrow> configuration_part \<Rightarrow> bytes \<Rightarrow> bool" where
  "part_pinned m part digest \<longleftrightarrow>
     (case map_of (cf_parts m) part of None \<Rightarrow> False | Some reference \<Rightarrow> cm_digest reference = digest)"

definition validate_payload :: "'net delivery_env \<Rightarrow> 'net configuration_delivery \<Rightarrow> (unit, management_error) outcome" where
  "validate_payload env d =
     (let m = sm_manifest (dv_manifest d) in
      and_then (configuration_validate (dl_net env) (dv_resources d)) (\<lambda>_.
      if length (dv_dns d) > 256 then Err (Management_Invalid ''dns.profiles'')
      else
        and_then (validate_profiles (dl_net env) (dv_dns d)) (\<lambda>_.
        if list_ex (\<lambda>r. nr_mesh_id r \<noteq> cf_mesh_id m) (rf_resources (dv_resources d)) then Err (Management_Invalid ''resource.mesh_id'')
        else
          and_then (content_digest (dl_lease env) (dl_resources_json env (dv_resources d))) (\<lambda>resources.
          and_then (content_digest (dl_lease env) (dl_dns_json env (dv_dns d))) (\<lambda>dns.
          if \<not> part_pinned m Part_Resources resources \<or> \<not> part_pinned m Part_Dns dns then Err Management_Incomplete
          else Ok ())))))"

section \<open>Captured routes (selection.rs preferences, client\_network.rs)\<close>

record client_preferences =
  cp_accept_private_routes :: bool
  cp_accept_dns :: bool
  cp_allow_inbound :: bool
  cp_exit_resource :: "uuid option"
  cp_allow_local_lan :: bool

definition former_provider_captures_locally :: "'net net_env \<Rightarrow> 'net resource_configuration \<Rightarrow> 'net \<Rightarrow> uuid \<Rightarrow> bool" where
  "former_provider_captures_locally env c prefix local \<longleftrightarrow>
     list_ex (\<lambda>x. local \<in> set (ce_providers x)
       \<and> (case ce_target x of
            Target_Subnet prior _ \<Rightarrow>
              nt_prefix_len env prior \<le> nt_prefix_len env prefix \<and> nt_contains env prior (nt_network env prefix)
          | Target_Internet _ _ \<Rightarrow> False)) (rf_capture_exclusions c)"

fun capture_resources :: "'net::linorder net_env \<Rightarrow> 'net resource_configuration \<Rightarrow> uuid \<Rightarrow> 'net network_resource list \<Rightarrow> 'net list \<Rightarrow> 'net list" where
  "capture_resources env c local [] prefixes = prefixes"
| "capture_resources env c local (r # rs) prefixes =
     capture_resources env c local rs
       (case rd_target (nr_definition r) of
          Target_Subnet prefix _ \<Rightarrow>
            if \<not> list_ex (\<lambda>b. gb_resource_id b = nr_id r \<and> gb_peer_id b = local) (rf_bindings c)
              \<and> \<not> former_provider_captures_locally env c prefix local
            then bset_insert prefix prefixes else prefixes
        | Target_Internet _ _ \<Rightarrow> prefixes)"

fun capture_withdrawals :: "'net::linorder net_env \<Rightarrow> 'net resource_configuration \<Rightarrow> uuid \<Rightarrow> 'net resource_withdrawal list \<Rightarrow> 'net list \<Rightarrow> 'net list" where
  "capture_withdrawals env c local [] prefixes = prefixes"
| "capture_withdrawals env c local (w # ws) prefixes =
     capture_withdrawals env c local ws
       (case rw_target w of
          Target_Subnet prefix _ \<Rightarrow>
            if local \<notin> set (rw_providers w) \<and> \<not> former_provider_captures_locally env c prefix local
            then bset_insert prefix prefixes else prefixes
        | Target_Internet _ _ \<Rightarrow> prefixes)"

definition private_capture_routes :: "'net::linorder net_env \<Rightarrow> 'net resource_configuration \<Rightarrow> uuid \<Rightarrow> client_preferences \<Rightarrow> 'net list" where
  "private_capture_routes env c local preferences =
     (if \<not> cp_accept_private_routes preferences then []
      else capture_withdrawals env c local (rf_withdrawals c) (capture_resources env c local (rf_resources c) []))"

definition capture_routes :: "'net::linorder net_env \<Rightarrow> 'net resource_configuration \<Rightarrow> uuid \<Rightarrow> client_preferences \<Rightarrow> 'net list" where
  "capture_routes env c local preferences =
     (let routes = private_capture_routes env c local preferences in
      if cp_exit_resource preferences \<noteq> None
      then bset_insert (nt_default_v6 env) (bset_insert (nt_default_v4 env) routes) else routes)"


section \<open>What validation establishes\<close>

lemma validate_resources_ids:
  "validate_resources env ids rs = Ok ids' \<Longrightarrow>
   set ids' = set ids \<union> nr_id ` set rs \<and> distinct (map nr_id rs) \<and> nr_id ` set rs \<inter> set ids = {}
   \<and> (\<forall>r\<in>set rs. definition_validate env (nr_definition r) = Ok ())"
  by (induction env ids rs rule: validate_resources.induct) (auto simp: and_then_Ok_iff split: if_splits)

lemma validate_collections_kinds:
  "validate_collections env ids kinds cs = Ok kinds' \<Longrightarrow>
   distinct (map rc_id cs) \<and> (\<forall>c\<in>set cs. hm_get kinds (rc_id c) = None \<and> (rc_kind c = Resources \<longrightarrow> set (rc_members c) \<subseteq> set ids))
   \<and> (\<forall>u k. hm_get kinds' u = Some k \<longrightarrow> hm_get kinds u = Some k \<or> (\<exists>c\<in>set cs. rc_id c = u \<and> rc_kind c = k))"
proof (induction env ids kinds cs rule: validate_collections.induct)
  case (1 env ids kinds)
  then show ?case by simp
next
  case (2 env ids kinds c cs)
  then have rest: "validate_collections env ids (hm_insert (rc_id c) (rc_kind c) kinds) cs = Ok kinds'"
    and head: "hm_get kinds (rc_id c) = None" "rc_kind c = Resources \<longrightarrow> set (rc_members c) \<subseteq> set ids"
    by (auto split: if_splits)
  note ih = "2.IH" [OF _ rest]
  have cond: "\<not> (nt_version env (rc_id c) \<noteq> 4 \<or> length (rc_members c) > 4096 \<or> list_ex (\<lambda>u. nt_version env u \<noteq> 4) (rc_members c)
         \<or> rc_kind c = Resources \<and> \<not> set (rc_members c) \<subseteq> set ids \<or> hm_get kinds (rc_id c) \<noteq> None)"
    using "2.prems" by (auto split: if_splits)
  have fresh: "rc_id d \<noteq> rc_id c" "hm_get kinds (rc_id d) = None" if "d \<in> set cs" for d
    using ih [OF cond] that by (auto simp: table_simps split: if_splits)
  then have "distinct (map rc_id (c # cs))" using ih [OF cond] by force
  moreover have "\<forall>d\<in>set (c # cs). hm_get kinds (rc_id d) = None \<and> (rc_kind d = Resources \<longrightarrow> set (rc_members d) \<subseteq> set ids)"
    using ih [OF cond] fresh head by simp
  moreover have "hm_get kinds u = Some k \<or> (\<exists>d\<in>set (c # cs). rc_id d = u \<and> rc_kind d = k)" if k: "hm_get kinds' u = Some k" for u k
  proof -
    have "hm_get (hm_insert (rc_id c) (rc_kind c) kinds) u = Some k \<or> (\<exists>d\<in>set cs. rc_id d = u \<and> rc_kind d = k)"
      using ih [OF cond] k by blast
    then show ?thesis by (auto simp: table_simps split: if_splits)
  qed
  ultimately show ?case by blast
qed

lemma validate_bindings_facts:
  "validate_bindings env resources ids m exits bs = Ok m' \<Longrightarrow>
   distinct (map gb_id bs) \<and> (\<forall>b\<in>set bs. hm_get m (gb_id b) = None \<and> gb_resource_id b \<in> set ids \<and> binding_validate env b = Ok ())
   \<and> (\<forall>u b. hm_get m' u = Some b \<longrightarrow> hm_get m u = Some b \<or> b \<in> set bs \<and> gb_id b = u)
   \<and> (\<forall>b\<in>set bs. gb_approved b \<and> serves_internet resources b \<longrightarrow>
        (\<forall>u. hm_get exits (gb_peer_id b) = Some u \<longrightarrow> u = gb_resource_id b)
        \<and> (\<forall>b'\<in>set bs. gb_approved b' \<and> serves_internet resources b' \<and> gb_peer_id b' = gb_peer_id b \<longrightarrow> gb_resource_id b' = gb_resource_id b))"
proof (induction bs arbitrary: m exits)
  case Nil
  then show ?case by simp
next
  case (Cons b bs)
  let ?e = "if gb_approved b \<and> serves_internet resources b then hm_insert (gb_peer_id b) (gb_resource_id b) exits else exits"
  have head: "binding_validate env b = Ok ()" "gb_resource_id b \<in> set ids" "hm_get m (gb_id b) = None"
      "gb_approved b \<and> serves_internet resources b \<Longrightarrow> hm_get exits (gb_peer_id b) \<in> {None, Some (gb_resource_id b)}"
    and rest: "validate_bindings env resources ids (hm_insert (gb_id b) b m) ?e bs = Ok m'"
    using Cons.prems by (auto simp: and_then_Ok_iff split: if_splits)
  note ih = Cons.IH [OF rest]
  have fresh: "gb_id d \<noteq> gb_id b" "hm_get m (gb_id d) = None" if "d \<in> set bs" for d
    using ih that by (auto simp: table_simps split: if_splits)
  have exit: "\<And>u. hm_get exits (gb_peer_id d) = Some u \<Longrightarrow> u = gb_resource_id d"
      "gb_approved b \<and> serves_internet resources b \<and> gb_peer_id b = gb_peer_id d \<Longrightarrow> gb_resource_id b = gb_resource_id d"
    if d: "d \<in> set bs" "gb_approved d \<and> serves_internet resources d" for d
  proof -
    have e: "\<forall>u. hm_get ?e (gb_peer_id d) = Some u \<longrightarrow> u = gb_resource_id d" using ih d by blast
    show "gb_resource_id b = gb_resource_id d" if "gb_approved b \<and> serves_internet resources b \<and> gb_peer_id b = gb_peer_id d"
      using e that by (simp add: table_simps)
    show "u = gb_resource_id d" if "hm_get exits (gb_peer_id d) = Some u" for u
      using e that head(4) by (cases "gb_peer_id d = gb_peer_id b") (auto simp: table_simps split: if_splits)
  qed
  have "distinct (map gb_id (b # bs))" using ih fresh by force
  moreover have "hm_get m u = Some d \<or> d \<in> set (b # bs) \<and> gb_id d = u" if k: "hm_get m' u = Some d" for u d
  proof -
    have "hm_get (hm_insert (gb_id b) b m) u = Some d \<or> d \<in> set bs \<and> gb_id d = u" using ih k by blast
    then show ?thesis by (auto simp: table_simps split: if_splits)
  qed
  moreover have "\<forall>d\<in>set (b # bs). hm_get m (gb_id d) = None \<and> gb_resource_id d \<in> set ids \<and> binding_validate env d = Ok ()"
    using ih fresh head by simp
  moreover have "(\<forall>u. hm_get exits (gb_peer_id d) = Some u \<longrightarrow> u = gb_resource_id d)
      \<and> (\<forall>d'\<in>set (b # bs). gb_approved d' \<and> serves_internet resources d' \<and> gb_peer_id d' = gb_peer_id d \<longrightarrow> gb_resource_id d' = gb_resource_id d)"
    if d: "d \<in> set (b # bs)" "gb_approved d \<and> serves_internet resources d" for d
  proof (cases "d \<in> set bs")
    case True
    have "gb_resource_id d' = gb_resource_id d" if "d' \<in> set bs" "gb_approved d' \<and> serves_internet resources d' \<and> gb_peer_id d' = gb_peer_id d" for d'
      using ih True d(2) that by blast
    then show ?thesis using exit [OF True d(2)] by (metis set_ConsD)
  next
    case False
    then have eq: "d = b" using d(1) by simp
    have "gb_resource_id d' = gb_resource_id b" if "d' \<in> set bs" "gb_approved d' \<and> serves_internet resources d'" "gb_peer_id d' = gb_peer_id b" for d'
      using exit(2) [OF that(1,2)] that(3) d(2) eq by simp
    then show ?thesis using d(2) head(4) eq by auto
  qed
  ultimately show ?case by blast
qed

lemma validate_advertisements_facts:
  "validate_advertisements bindings seen as = Ok () \<Longrightarrow>
   distinct (map ra_binding_id as) \<and> ra_binding_id ` set as \<inter> set seen = {}
   \<and> (\<forall>a\<in>set as. \<exists>b. hm_get bindings (ra_binding_id a) = Some b \<and> gb_peer_id b = ra_peer_id a)"
  by (induction bindings seen as rule: validate_advertisements.induct) (auto split: if_splits option.splits)

lemma validate_rules_facts:
  "validate_rules env ids kinds seen rs = Ok () \<Longrightarrow>
   distinct (map rr_id rs) \<and> rr_id ` set rs \<inter> set seen = {}
   \<and> (\<forall>r\<in>set rs. resource_rule_validate env r = Ok () \<and> set (rr_resources r) \<subseteq> set ids
        \<and> (\<forall>u\<in>set (rr_source_collections r). hm_get kinds u = Some Devices)
        \<and> (\<forall>u\<in>set (rr_resource_collections r). hm_get kinds u = Some Resources))"
proof (induction rs arbitrary: seen)
  case Nil
  then show ?case by simp
next
  case (Cons r rs)
  have head: "resource_rule_validate env r = Ok ()" "rr_id r \<notin> set seen" "\<not> list_ex (\<lambda>u. u \<notin> set ids) (rr_resources r)"
      "\<not> list_ex (\<lambda>u. hm_get kinds u \<noteq> Some Devices) (rr_source_collections r)"
      "\<not> list_ex (\<lambda>u. hm_get kinds u \<noteq> Some Resources) (rr_resource_collections r)"
    and rest: "validate_rules env ids kinds (rr_id r # seen) rs = Ok ()"
    using Cons.prems unfolding validate_rules.simps unit_then_Ok_iff guard_Ok_iff by blast+
  show ?case using Cons.IH [OF rest] head by (auto simp: list_ex_iff)
qed

lemma configuration_stages:
  assumes "configuration_validate env c = Ok ()"
  obtains ids kinds bindings where "validate_resources env [] (rf_resources c) = Ok ids"
    and "validate_collections env ids [] (rf_collections c) = Ok kinds"
    and "validate_bindings env (rf_resources c) ids [] [] (rf_bindings c) = Ok bindings"
    and "validate_advertisements bindings [] (rf_advertisements c) = Ok ()"
    and "validate_rules env ids kinds [] (rf_rules c) = Ok ()"
  using assms unfolding configuration_validate_def unit_then_Ok_iff and_then_Ok_iff guard_Ok_iff by blast

section \<open>Captured routes\<close>

definition captured :: "'net net_env \<Rightarrow> 'net resource_configuration \<Rightarrow> uuid \<Rightarrow> 'net \<Rightarrow> bool" where
  "captured env c local prefix \<longleftrightarrow> \<not> former_provider_captures_locally env c prefix local
     \<and> ((\<exists>r\<in>set (rf_resources c). \<exists>site. rd_target (nr_definition r) = Target_Subnet prefix site
           \<and> (nr_id r, local) \<notin> (\<lambda>b. (gb_resource_id b, gb_peer_id b)) ` set (rf_bindings c))
        \<or> (\<exists>w\<in>set (rf_withdrawals c). \<exists>site. rw_target w = Target_Subnet prefix site \<and> local \<notin> set (rw_providers w)))"

lemma capture_resources_facts:
  "(prefix \<in> set (capture_resources env c local rs acc) \<longleftrightarrow> prefix \<in> set acc \<or>
     \<not> former_provider_captures_locally env c prefix local
     \<and> (\<exists>r\<in>set rs. \<exists>site. rd_target (nr_definition r) = Target_Subnet prefix site
          \<and> (nr_id r, local) \<notin> (\<lambda>b. (gb_resource_id b, gb_peer_id b)) ` set (rf_bindings c)))
   \<and> (ascending acc \<longrightarrow> ascending (capture_resources env c local rs acc))"
proof (induction rs arbitrary: acc)
  case Nil
  then show ?case by simp
next
  case (Cons r rs)
  show ?case
  proof (cases "rd_target (nr_definition r)")
    case (Target_Subnet p site)
    have provided: "list_ex (\<lambda>b. gb_resource_id b = nr_id r \<and> gb_peer_id b = local) (rf_bindings c)
        \<longleftrightarrow> (nr_id r, local) \<in> (\<lambda>b. (gb_resource_id b, gb_peer_id b)) ` set (rf_bindings c)"
      unfolding list_ex_iff image_iff by (metis prod.inject)
    show ?thesis
      using Cons.IH [of "bset_insert p acc"] Cons.IH [of acc] Target_Subnet provided by auto
  next
    case (Target_Internet v4 v6)
    then show ?thesis using Cons.IH [of acc] by auto
  qed
qed

lemma capture_withdrawals_facts:
  "(prefix \<in> set (capture_withdrawals env c local ws acc) \<longleftrightarrow> prefix \<in> set acc \<or>
     \<not> former_provider_captures_locally env c prefix local
     \<and> (\<exists>w\<in>set ws. \<exists>site. rw_target w = Target_Subnet prefix site \<and> local \<notin> set (rw_providers w)))
   \<and> (ascending acc \<longrightarrow> ascending (capture_withdrawals env c local ws acc))"
proof (induction ws arbitrary: acc)
  case Nil
  then show ?case by simp
next
  case (Cons w ws)
  show ?case
  proof (cases "rw_target w")
    case (Target_Subnet p site)
    then show ?thesis using Cons.IH [of "bset_insert p acc"] Cons.IH [of acc] by auto
  next
    case (Target_Internet v4 v6)
    then show ?thesis using Cons.IH [of acc] by auto
  qed
qed

lemma private_capture_facts:
  "set (private_capture_routes env c local preferences) = {prefix. cp_accept_private_routes preferences \<and> captured env c local prefix}
   \<and> ascending (private_capture_routes env c local preferences)"
proof -
  let ?rs = "capture_resources env c local (rf_resources c) []"
  have mem: "prefix \<in> set (capture_withdrawals env c local (rf_withdrawals c) ?rs) \<longleftrightarrow> captured env c local prefix" for prefix
    using capture_withdrawals_facts [of prefix env c local "rf_withdrawals c" ?rs] capture_resources_facts [of prefix env c local "rf_resources c" "[]"]
    unfolding captured_def by auto
  moreover have "ascending (capture_withdrawals env c local (rf_withdrawals c) ?rs)"
    using capture_withdrawals_facts [of _ env c local "rf_withdrawals c" ?rs] capture_resources_facts [of _ env c local "rf_resources c" "[]"] by simp
  ultimately show ?thesis unfolding private_capture_routes_def by auto
qed


section \<open>Properties\<close>

text \<open>(C22) A validated configuration is consistent.  Identifiers of resources, collections, bindings, rules and advertisements
  are distinct; every binding is valid and of a resource that exists; every advertisement is of an
  existing binding, by the Peer that holds it; every rule is valid and names existing resources and
  collections of the right kind, whose members exist; and a Peer approved as an exit serves one Internet resource.
\<close>

theorem configuration_consistent:
  assumes "configuration_validate env c = Ok ()"
  shows "distinct (map nr_id (rf_resources c)) \<and> distinct (map rc_id (rf_collections c)) \<and> distinct (map gb_id (rf_bindings c))
      \<and> distinct (map rr_id (rf_rules c)) \<and> distinct (map ra_binding_id (rf_advertisements c))
    \<and> (\<forall>b\<in>set (rf_bindings c). binding_validate env b = Ok () \<and> gb_resource_id b \<in> nr_id ` set (rf_resources c))
    \<and> (\<forall>a\<in>set (rf_advertisements c). \<exists>b\<in>set (rf_bindings c). gb_id b = ra_binding_id a \<and> gb_peer_id b = ra_peer_id a)
    \<and> (\<forall>r\<in>set (rf_rules c). resource_rule_validate env r = Ok () \<and> set (rr_resources r) \<subseteq> nr_id ` set (rf_resources c)
         \<and> (\<forall>u\<in>set (rr_source_collections r). \<exists>x\<in>set (rf_collections c). rc_id x = u \<and> rc_kind x = Devices)
         \<and> (\<forall>u\<in>set (rr_resource_collections r). \<exists>x\<in>set (rf_collections c). rc_id x = u \<and> rc_kind x = Resources
              \<and> set (rc_members x) \<subseteq> nr_id ` set (rf_resources c)))
    \<and> (\<forall>b\<in>set (rf_bindings c). \<forall>b'\<in>set (rf_bindings c). gb_approved b \<and> serves_internet (rf_resources c) b
         \<and> gb_approved b' \<and> serves_internet (rf_resources c) b' \<and> gb_peer_id b' = gb_peer_id b \<longrightarrow> gb_resource_id b' = gb_resource_id b)"
proof -
  obtain ids kinds bindings where v: "validate_resources env [] (rf_resources c) = Ok ids"
    "validate_collections env ids [] (rf_collections c) = Ok kinds"
    "validate_bindings env (rf_resources c) ids [] [] (rf_bindings c) = Ok bindings"
    "validate_advertisements bindings [] (rf_advertisements c) = Ok ()"
    "validate_rules env ids kinds [] (rf_rules c) = Ok ()"
    by (rule configuration_stages [OF assms])
  have ids: "set ids = nr_id ` set (rf_resources c)" "distinct (map nr_id (rf_resources c))"
    using validate_resources_ids [OF v(1)] by simp_all
  have kinds: "distinct (map rc_id (rf_collections c))" "\<forall>x\<in>set (rf_collections c). rc_kind x = Resources \<longrightarrow> set (rc_members x) \<subseteq> set ids"
      "\<And>u k. hm_get kinds u = Some k \<Longrightarrow> \<exists>x\<in>set (rf_collections c). rc_id x = u \<and> rc_kind x = k"
    using validate_collections_kinds [OF v(2)] by auto
  have bindings: "distinct (map gb_id (rf_bindings c))"
      "\<And>b. b \<in> set (rf_bindings c) \<Longrightarrow> gb_resource_id b \<in> set ids \<and> binding_validate env b = Ok ()"
      "\<And>u b. hm_get bindings u = Some b \<Longrightarrow> b \<in> set (rf_bindings c) \<and> gb_id b = u"
      "\<forall>b\<in>set (rf_bindings c). \<forall>b'\<in>set (rf_bindings c). gb_approved b \<and> serves_internet (rf_resources c) b
         \<and> gb_approved b' \<and> serves_internet (rf_resources c) b' \<and> gb_peer_id b' = gb_peer_id b \<longrightarrow> gb_resource_id b' = gb_resource_id b"
    using validate_bindings_facts [OF v(3)] by (simp, simp, simp, blast)
  have ads: "distinct (map ra_binding_id (rf_advertisements c))"
      "\<forall>a\<in>set (rf_advertisements c). \<exists>b. hm_get bindings (ra_binding_id a) = Some b \<and> gb_peer_id b = ra_peer_id a"
    using validate_advertisements_facts [OF v(4)] by simp_all
  have rules: "distinct (map rr_id (rf_rules c))"
      "\<forall>r\<in>set (rf_rules c). resource_rule_validate env r = Ok () \<and> set (rr_resources r) \<subseteq> set ids
        \<and> (\<forall>u\<in>set (rr_source_collections r). hm_get kinds u = Some Devices)
        \<and> (\<forall>u\<in>set (rr_resource_collections r). hm_get kinds u = Some Resources)"
    using validate_rules_facts [OF v(5)] by simp_all
  have "\<forall>b\<in>set (rf_bindings c). binding_validate env b = Ok () \<and> gb_resource_id b \<in> nr_id ` set (rf_resources c)"
    using bindings(2) ids(1) by blast
  moreover have "\<forall>a\<in>set (rf_advertisements c). \<exists>b\<in>set (rf_bindings c). gb_id b = ra_binding_id a \<and> gb_peer_id b = ra_peer_id a"
    using ads(2) bindings(3) by blast
  moreover have "\<forall>r\<in>set (rf_rules c). resource_rule_validate env r = Ok () \<and> set (rr_resources r) \<subseteq> nr_id ` set (rf_resources c)
         \<and> (\<forall>u\<in>set (rr_source_collections r). \<exists>x\<in>set (rf_collections c). rc_id x = u \<and> rc_kind x = Devices)
         \<and> (\<forall>u\<in>set (rr_resource_collections r). \<exists>x\<in>set (rf_collections c). rc_id x = u \<and> rc_kind x = Resources
              \<and> set (rc_members x) \<subseteq> nr_id ` set (rf_resources c))"
    using rules(2) kinds ids(1) by (metis (no_types, lifting))
  ultimately show ?thesis using ids(2) kinds(1) bindings(1,4) ads(1) rules(1) by blast
qed

definition sample_configuration :: "octet_net resource_configuration" where
  "sample_configuration = \<lparr>rf_admission = \<lparr>ag_enabled = False, ag_peers = []\<rparr>, rf_collections = [], rf_withdrawals = [],
     rf_capture_exclusions = [], rf_resources = [sample_resource], rf_bindings = [sample_binding],
     rf_advertisements = [\<lparr>ra_binding_version = 1, ra_binding_id = replicate 16 8, ra_peer_id = replicate 16 9, ra_sequence = 1,
       ra_published = True, ra_valid_until = 500, ra_forwarding_ready = True\<rparr>], rf_rules = [sample_rule]\<rparr>"

lemma sample_configuration_valid: "configuration_validate octet_env sample_configuration = Ok ()"
proof -
  have "name_valid [65]"
    by (simp add: name_valid_def str_len_def utf8_width_def str_trim_def is_whitespace_def is_control_def)
  moreover have "[192, 168, 20, 0] \<noteq> replicate 4 (0 :: u8)" by code_simp
  ultimately have "definition_validate octet_env (nr_definition sample_resource) = Ok ()"
    by (simp add: definition_validate_def sample_resource_def octet_env_def is_nil_def)
  moreover have "binding_validate octet_env sample_binding = Ok ()"
    by (simp add: binding_validate_def sample_binding_def octet_env_def is_nil_def)
  moreover have "resource_rule_validate octet_env sample_rule = Ok ()"
    by (simp add: resource_rule_validate_def sample_rule_def selector_validate_def octet_env_def)
  moreover have "\<not> is_nil (nr_id sample_resource)" by (simp add: sample_resource_def is_nil_def)
  moreover have "nr_version sample_resource = 1" "rd_health_probe (nr_definition sample_resource) = None" "nr_id sample_resource = replicate 16 5"
      "is_subnet (rd_target (nr_definition sample_resource))" "gb_resource_id sample_binding = replicate 16 5" "gb_id sample_binding = replicate 16 8"
      "gb_peer_id sample_binding = replicate 16 9" "rr_resources sample_rule = [replicate 16 5]" "rr_source_collections sample_rule = []"
      "rr_resource_collections sample_rule = []"
    by (simp_all add: sample_resource_def sample_binding_def sample_rule_def)
  ultimately show ?thesis
    by (simp add: configuration_validate_def sample_configuration_def admission_validate_def serves_internet_def)
qed

theorem configuration_consistent_witness:
  "gb_resource_id sample_binding \<in> nr_id ` set (rf_resources sample_configuration)"
  using configuration_consistent [OF sample_configuration_valid] by (simp add: sample_configuration_def)

text \<open>(C17) Captured routes fail closed.  The private routes a client captures are none unless it accepts private
  routes; then they are exactly the subnets of configured resources of which it holds no binding and of withdrawals
  that do not name it as provider, except those within a subnet it is excluded from as a former
  provider.  Internet targets are not captured one by one: with an exit selected, and only then, the default routes of both
  families are captured besides.  So the captured routes are determined by the preferences, the resources, the
  withdrawals, the exclusions and who is bound to what: approvals, advertisements, rules and admission have no
  influence, and a provider that loses its approval or fails does not uncover its prefix to the host's own default route.
\<close>

theorem captured_routes_fail_closed:
  "set (private_capture_routes env c local preferences) = {prefix. cp_accept_private_routes preferences \<and> captured env c local prefix}
   \<and> set (capture_routes env c local preferences) = set (private_capture_routes env c local preferences)
        \<union> (if cp_exit_resource preferences = None then {} else {nt_default_v4 env, nt_default_v6 env})
   \<and> (rf_resources d = rf_resources c \<and> rf_withdrawals d = rf_withdrawals c \<and> rf_capture_exclusions d = rf_capture_exclusions c
      \<and> (\<lambda>b. (gb_resource_id b, gb_peer_id b)) ` set (rf_bindings d) = (\<lambda>b. (gb_resource_id b, gb_peer_id b)) ` set (rf_bindings c) \<longrightarrow>
        capture_routes env d local preferences = capture_routes env c local preferences)"
proof -
  have "private_capture_routes env d local preferences = private_capture_routes env c local preferences"
    if same: "rf_resources d = rf_resources c" "rf_withdrawals d = rf_withdrawals c" "rf_capture_exclusions d = rf_capture_exclusions c"
      "(\<lambda>b. (gb_resource_id b, gb_peer_id b)) ` set (rf_bindings d) = (\<lambda>b. (gb_resource_id b, gb_peer_id b)) ` set (rf_bindings c)"
  proof (rule ascending_set_eq)
    have "captured env d local prefix = captured env c local prefix" for prefix
      by (simp add: captured_def former_provider_captures_locally_def same)
    then show "set (private_capture_routes env d local preferences) = set (private_capture_routes env c local preferences)"
      using private_capture_facts [of env d local preferences] private_capture_facts [of env c local preferences] by simp
  qed (simp_all add: private_capture_facts)
  then show ?thesis using private_capture_facts [of env c local preferences] by (auto simp: capture_routes_def Let_def)
qed

definition sample_preferences :: client_preferences where
  "sample_preferences = \<lparr>cp_accept_private_routes = True, cp_accept_dns = True, cp_allow_inbound = True,
     cp_exit_resource = Some (replicate 16 4), cp_allow_local_lan = False\<rparr>"

theorem captured_routes_fail_closed_witness:
  "nt_default_v6 octet_env \<in> set (capture_routes octet_env sample_configuration (replicate 16 3) sample_preferences)
   \<and> capture_routes octet_env (sample_configuration\<lparr>rf_bindings := [sample_binding\<lparr>gb_approved := False\<rparr>], rf_advertisements := []\<rparr>)
        (replicate 16 3) sample_preferences
     = capture_routes octet_env sample_configuration (replicate 16 3) sample_preferences"
  using captured_routes_fail_closed [of octet_env sample_configuration "replicate 16 3" sample_preferences
      "sample_configuration\<lparr>rf_bindings := [sample_binding\<lparr>gb_approved := False\<rparr>], rf_advertisements := []\<rparr>"]
  by (simp add: sample_preferences_def sample_configuration_def sample_binding_def)

text \<open>The manifest fixes the payload.  If the encodings determine their values and SHA-256 has no collision between the
  documents at hand, two deliveries that both validate against the same manifest carry the same
  resources and the same DNS profiles; each belongs to the manifest's Mesh and is consistent.
\<close>

definition digests_bind :: "'net delivery_env \<Rightarrow> bool" where
  "digests_bind env \<longleftrightarrow>
     (\<forall>c d. dl_resources_json env c \<noteq> None \<and> dl_resources_json env d \<noteq> None
        \<and> map_option (ln_sha256 (dl_lease env)) (dl_resources_json env c) = map_option (ln_sha256 (dl_lease env)) (dl_resources_json env d) \<longrightarrow> c = d)
     \<and> (\<forall>p q. dl_dns_json env p \<noteq> None \<and> dl_dns_json env q \<noteq> None
        \<and> map_option (ln_sha256 (dl_lease env)) (dl_dns_json env p) = map_option (ln_sha256 (dl_lease env)) (dl_dns_json env q) \<longrightarrow> p = q)"

lemma validate_payload_digests:
  assumes "validate_payload env d = Ok ()"
  shows "\<exists>x y. dl_resources_json env (dv_resources d) = Some x \<and> dl_dns_json env (dv_dns d) = Some y
    \<and> part_pinned (sm_manifest (dv_manifest d)) Part_Resources (ln_sha256 (dl_lease env) x)
    \<and> part_pinned (sm_manifest (dv_manifest d)) Part_Dns (ln_sha256 (dl_lease env) y)
    \<and> configuration_validate (dl_net env) (dv_resources d) = Ok ()
    \<and> (\<forall>r\<in>set (rf_resources (dv_resources d)). nr_mesh_id r = cf_mesh_id (sm_manifest (dv_manifest d)))"
proof -
  let ?m = "sm_manifest (dv_manifest d)"
  have v: "configuration_validate (dl_net env) (dv_resources d) = Ok ()"
    "\<not> list_ex (\<lambda>r. nr_mesh_id r \<noteq> cf_mesh_id ?m) (rf_resources (dv_resources d))"
    and "\<exists>x. content_digest (dl_lease env) (dl_resources_json env (dv_resources d)) = Ok x
      \<and> (\<exists>y. content_digest (dl_lease env) (dl_dns_json env (dv_dns d)) = Ok y
          \<and> \<not> (\<not> part_pinned ?m Part_Resources x \<or> \<not> part_pinned ?m Part_Dns y))"
    using assms unfolding validate_payload_def Let_def unit_then_Ok_iff guard_Ok_iff and_then_Ok_iff by blast+
  then obtain x y where d: "content_digest (dl_lease env) (dl_resources_json env (dv_resources d)) = Ok x"
      "content_digest (dl_lease env) (dl_dns_json env (dv_dns d)) = Ok y" "part_pinned ?m Part_Resources x" "part_pinned ?m Part_Dns y"
    by blast
  moreover have "\<forall>r\<in>set (rf_resources (dv_resources d)). nr_mesh_id r = cf_mesh_id ?m" using v(2) by (simp add: list_ex_iff)
  ultimately show ?thesis using v(1) by (auto simp: content_digest_def and_then_Ok_iff)
qed

theorem payload_fixed_by_manifest:
  assumes "digests_bind env" and "validate_payload env d = Ok ()" and "validate_payload env d' = Ok ()"
    and "sm_manifest (dv_manifest d) = sm_manifest (dv_manifest d')"
  shows "dv_resources d = dv_resources d' \<and> dv_dns d = dv_dns d'
    \<and> configuration_validate (dl_net env) (dv_resources d) = Ok ()
    \<and> (\<forall>r\<in>set (rf_resources (dv_resources d)). nr_mesh_id r = cf_mesh_id (sm_manifest (dv_manifest d)))"
proof -
  have pinned: "part_pinned m part a \<Longrightarrow> part_pinned m part b \<Longrightarrow> a = b" for m part a b
    by (simp add: part_pinned_def split: option.splits)
  obtain x y where p: "dl_resources_json env (dv_resources d) = Some x" "dl_dns_json env (dv_dns d) = Some y"
      "part_pinned (sm_manifest (dv_manifest d)) Part_Resources (ln_sha256 (dl_lease env) x)"
      "part_pinned (sm_manifest (dv_manifest d)) Part_Dns (ln_sha256 (dl_lease env) y)"
    using validate_payload_digests [OF assms(2)] by blast
  obtain x' y' where q: "dl_resources_json env (dv_resources d') = Some x'" "dl_dns_json env (dv_dns d') = Some y'"
      "part_pinned (sm_manifest (dv_manifest d)) Part_Resources (ln_sha256 (dl_lease env) x')"
      "part_pinned (sm_manifest (dv_manifest d)) Part_Dns (ln_sha256 (dl_lease env) y')"
    using validate_payload_digests [OF assms(3)] unfolding assms(4) by blast
  have "ln_sha256 (dl_lease env) x = ln_sha256 (dl_lease env) x'" "ln_sha256 (dl_lease env) y = ln_sha256 (dl_lease env) y'"
    using pinned p(3,4) q(3,4) by blast+
  then have "dv_resources d = dv_resources d'" "dv_dns d = dv_dns d'"
    using assms(1) p(1,2) q(1,2) unfolding digests_bind_def by simp_all
  then show ?thesis using validate_payload_digests [OF assms(2)] by blast
qed


text \<open>An instance: encodings defined on the sample configuration and on the absence of profiles.\<close>

definition sample_delivery_env :: "lease_env \<Rightarrow> octet_net delivery_env" where
  "sample_delivery_env env = \<lparr>dl_net = octet_env, dl_lease = env\<lparr>ln_sha256 := (\<lambda>b. b)\<rparr>,
     dl_resources_json = (\<lambda>c. if c = sample_configuration then Some [1] else None),
     dl_dns_json = (\<lambda>p. if p = [] then Some [2] else None)\<rparr>"

definition sample_delivery :: "octet_net configuration_delivery" where
  "sample_delivery = \<lparr>dv_manifest = \<lparr>sm_manifest = \<lparr>cf_mesh_id = replicate 16 1, cf_version = 1,
       cf_parts = [(Part_Resources, \<lparr>cm_version = 1, cm_digest = [1]\<rparr>), (Part_Dns, \<lparr>cm_version = 1, cm_digest = [2]\<rparr>)]\<rparr>, sm_signature = []\<rparr>,
     dv_lease = \<lparr>sl_lease = \<lparr>al_mesh_id = replicate 16 1, al_configuration_digest = [], al_sequence = 1, al_issued_at = 0, al_valid_until = 9\<rparr>,
       sl_signature = []\<rparr>,
     dv_resources = sample_configuration, dv_dns = []\<rparr>"

theorem payload_fixed_by_manifest_witness:
  "\<forall>r\<in>set (rf_resources (dv_resources sample_delivery)). nr_mesh_id r = replicate 16 1"
proof -
  fix env :: lease_env
  let ?env = "sample_delivery_env env"
  have binds: "digests_bind ?env" by (simp add: digests_bind_def sample_delivery_env_def)
  have "validate_payload ?env sample_delivery = Ok ()"
  proof -
    have mesh: "\<not> list_ex (\<lambda>r. nr_mesh_id r \<noteq> replicate 16 1) (rf_resources sample_configuration)"
      by (simp add: sample_configuration_def sample_resource_def)
    show ?thesis
      using sample_configuration_valid mesh
      unfolding validate_payload_def Let_def sample_delivery_def sample_delivery_env_def content_digest_def part_pinned_def by simp
  qed
  from payload_fixed_by_manifest [OF binds this this refl] show ?thesis by (simp add: sample_delivery_def)
qed

end
