(* ===== verification/GatewaySelection.thy ===== *)
theory GatewaySelection
  imports ResourceConfiguration "HOL-Library.Sublist"
begin

text \<open>
  The client's choice of a gateway (\<open>crates/peerward-management/src/selection.rs\<close>): health of
  paths from the outcomes of probes, with hysteresis, and a selection that prefers the best approved
  provider without flapping; and the client's own preferences with their optimistic versioning
  (\<open>preferences.rs\<close>).  An \<open>Instant\<close> is a number of nanoseconds.
\<close>

section \<open>Preferences\<close>

definition preferences_default :: client_preferences where
  "preferences_default = \<lparr>cp_accept_private_routes = True, cp_accept_dns = True, cp_allow_inbound = True,
     cp_exit_resource = None, cp_allow_local_lan = False\<rparr>"

definition preferences_validate :: "'net net_env \<Rightarrow> client_preferences \<Rightarrow> (unit, management_error) outcome" where
  "preferences_validate env p =
     (if (case cp_exit_resource p of None \<Rightarrow> False | Some u \<Rightarrow> nt_version env u \<noteq> 4)
      then Err (Management_Invalid ''preferences.exit_resource'')
      else if cp_exit_resource p \<noteq> None \<and> \<not> cp_accept_dns p then Err (Management_Invalid ''preferences.exit_requires_dns'')
      else Ok ())"

record preference_change =
  pc_request_id :: uuid
  pc_expected_version :: nat
  pc_preferences :: client_preferences

record saved_preferences =
  sp_schema_version :: nat
  sp_mesh_id :: uuid
  sp_peer_id :: uuid
  sp_version :: nat
  sp_preferences :: client_preferences
  sp_last_change :: "preference_change option"

definition saved_new :: "uuid \<Rightarrow> uuid \<Rightarrow> saved_preferences" where
  "saved_new mesh peer = \<lparr>sp_schema_version = 4, sp_mesh_id = mesh, sp_peer_id = peer, sp_version = 0,
     sp_preferences = preferences_default, sp_last_change = None\<rparr>"

definition saved_validate :: "'net net_env \<Rightarrow> saved_preferences \<Rightarrow> uuid \<Rightarrow> uuid \<Rightarrow> (unit, management_error) outcome" where
  "saved_validate env s mesh peer =
     and_then (preferences_validate env (sp_preferences s)) (\<lambda>_.
     if sp_schema_version s \<noteq> 4 \<or> sp_mesh_id s \<noteq> mesh \<or> sp_peer_id s \<noteq> peer
       \<or> (case sp_last_change s of
            None \<Rightarrow> False
          | Some change \<Rightarrow> nt_version env (pc_request_id change) \<noteq> 4
              \<or> checked_add (pc_expected_version change) 1 \<noteq> Some (sp_version s)
              \<or> pc_preferences change \<noteq> sp_preferences s)
       \<or> (sp_version s = 0) \<noteq> (sp_last_change s = None)
     then Err (Management_Conflict ''client_preferences.identity_or_version'') else Ok ())"

definition validate_change :: "'net net_env \<Rightarrow> saved_preferences \<Rightarrow> preference_change \<Rightarrow> (bool, management_error) outcome" where
  "validate_change env s change =
     and_then (preferences_validate env (pc_preferences change)) (\<lambda>_.
     if nt_version env (pc_request_id change) \<noteq> 4 then Err (Management_Invalid ''request_id'')
     else if sp_last_change s = Some change then Ok False
     else if (case sp_last_change s of None \<Rightarrow> False | Some previous \<Rightarrow> pc_request_id previous = pc_request_id change)
       \<or> pc_expected_version change \<noteq> sp_version s \<or> sp_version s = u64_max
     then Err (Management_Conflict ''client_preferences.version'')
     else Ok True)"

definition saved_changed :: "'net net_env \<Rightarrow> saved_preferences \<Rightarrow> preference_change \<Rightarrow> (saved_preferences, management_error) outcome" where
  "saved_changed env s change =
     and_then (validate_change env s change) (\<lambda>fresh.
     if \<not> fresh then Ok s
     else Ok (s\<lparr>sp_version := sp_version s + 1, sp_preferences := pc_preferences change, sp_last_change := Some change\<rparr>))"

section \<open>Health of paths\<close>

datatype path_health = Unknown | Healthy | Unhealthy

record observation =
  ob_health :: path_health
  ob_failures :: nat
  ob_successes :: nat
  ob_stable_since :: nat
  ob_checked :: nat

record gateway_selector =
  gs_observations :: "(uuid \<times> observation) list"
  gs_selected :: "(uuid \<times> uuid) list"

definition seconds :: "nat \<Rightarrow> nat" where
  "seconds n = n * 1000000000"

definition fresh_observation :: "nat \<Rightarrow> observation" where
  "fresh_observation now = \<lparr>ob_health = Unknown, ob_failures = 0, ob_successes = 0, ob_stable_since = now, ob_checked = now\<rparr>"

definition selector_register :: "uuid \<Rightarrow> nat \<Rightarrow> gateway_selector \<Rightarrow> gateway_selector" where
  "selector_register binding now s =
     (case hm_get (gs_observations s) binding of
        Some _ \<Rightarrow> s
      | None \<Rightarrow> s\<lparr>gs_observations := bmap_insert binding (fresh_observation now) (gs_observations s)\<rparr>)"

definition selector_retain :: "(uuid \<Rightarrow> bool) \<Rightarrow> gateway_selector \<Rightarrow> gateway_selector" where
  "selector_retain keep s =
     (let kept = filter (\<lambda>(u, _). keep u) (gs_observations s)
      in s\<lparr>gs_observations := kept, gs_selected := filter (\<lambda>(_, u). hm_get kept u \<noteq> None) (gs_selected s)\<rparr>)"

definition u8_increment :: "nat \<Rightarrow> nat" where
  "u8_increment n = min (n + 1) 255"

definition observe_outcome :: "bool \<Rightarrow> nat \<Rightarrow> observation \<Rightarrow> observation" where
  "observe_outcome success now ob =
     (let ob = ob\<lparr>ob_checked := now\<rparr> in
      if success then
        (let ob = (if ob_successes ob = 0 then ob\<lparr>ob_stable_since := now\<rparr> else ob);
             ob = ob\<lparr>ob_failures := 0, ob_successes := u8_increment (ob_successes ob)\<rparr>
         in if ob_health ob = Unknown \<or> ob_successes ob \<ge> 3 then ob\<lparr>ob_health := Healthy\<rparr> else ob)
      else
        (let ob = ob\<lparr>ob_successes := 0, ob_failures := u8_increment (ob_failures ob)\<rparr>
         in if ob_failures ob \<ge> 3 then ob\<lparr>ob_health := Unhealthy\<rparr> else ob))"

definition selector_observe :: "uuid \<Rightarrow> bool \<Rightarrow> nat \<Rightarrow> gateway_selector \<Rightarrow> gateway_selector" where
  "selector_observe binding success now s =
     (let ob = (case hm_get (gs_observations s) binding of Some ob \<Rightarrow> ob | None \<Rightarrow> fresh_observation now)
      in s\<lparr>gs_observations := bmap_insert binding (observe_outcome success now ob) (gs_observations s)\<rparr>)"

definition selector_health :: "gateway_selector \<Rightarrow> uuid \<Rightarrow> nat \<Rightarrow> path_health" where
  "selector_health s binding now =
     (case hm_get (gs_observations s) binding of
        None \<Rightarrow> Unknown
      | Some ob \<Rightarrow> if now - ob_checked ob \<le> seconds 15 then ob_health ob else Unknown)"

definition selector_eligible :: "gateway_selector \<Rightarrow> uuid \<Rightarrow> nat \<Rightarrow> bool" where
  "selector_eligible s binding now \<longleftrightarrow>
     selector_health s binding now = Healthy
     \<or> (case hm_get (gs_observations s) binding of
          None \<Rightarrow> False
        | Some ob \<Rightarrow> ob_health ob = Unknown \<and> ob_failures ob < 3 \<and> now - ob_stable_since ob < seconds 15)"

section \<open>Selection\<close>

definition advertised :: "route_advertisement list \<Rightarrow> nat \<Rightarrow> gateway_binding \<Rightarrow> bool" where
  "advertised advertisements wall b \<longleftrightarrow>
     list_ex (\<lambda>ad. ra_binding_id ad = gb_id b \<and> ra_binding_version ad = gb_version b \<and> ra_peer_id ad = gb_peer_id b
       \<and> ra_published ad \<and> ra_forwarding_ready ad \<and> ra_valid_until ad > wall) advertisements"

definition selectable ::
    "'net net_env \<Rightarrow> gateway_selector \<Rightarrow> uuid list \<Rightarrow> route_advertisement list \<Rightarrow> nat \<Rightarrow> nat \<Rightarrow> gateway_binding \<Rightarrow> bool" where
  "selectable env s aliases advertisements wall now b \<longleftrightarrow>
     gb_resource_id b \<in> set aliases \<and> gb_approved b \<and> is_ok (binding_validate env b)
     \<and> selector_eligible s (gb_id b) now \<and> advertised advertisements wall b"

abbreviation preference_key :: "gateway_binding \<Rightarrow> nat \<times> uuid \<times> uuid" where
  "preference_key b \<equiv> (gb_priority b, gb_peer_id b, gb_id b)"

definition unsettled :: "gateway_selector \<Rightarrow> uuid \<Rightarrow> nat \<Rightarrow> bool" where
  "unsettled s binding now \<longleftrightarrow>
     (case hm_get (gs_observations s) binding of None \<Rightarrow> True | Some ob \<Rightarrow> now - ob_stable_since ob < seconds 30)"

definition select_aliases ::
    "'net net_env \<Rightarrow> uuid \<Rightarrow> uuid list \<Rightarrow> gateway_binding list \<Rightarrow> route_advertisement list \<Rightarrow> nat \<Rightarrow> nat \<Rightarrow> gateway_selector
     \<Rightarrow> uuid option \<times> gateway_selector" where
  "select_aliases env resource aliases bindings advertisements wall now s =
     (let candidates = sort_key preference_key (filter (selectable env s aliases advertisements wall now) bindings) in
      case candidates of
        [] \<Rightarrow> (None, s)
      | preferred # _ \<Rightarrow>
          let current = (case hm_get (gs_selected s) resource of None \<Rightarrow> None | Some u \<Rightarrow> find (\<lambda>b. gb_id b = u) candidates);
              chosen = (case current of
                 Some cur \<Rightarrow> if gb_id cur \<noteq> gb_id preferred \<and> unsettled s (gb_id preferred) now then cur else preferred
               | None \<Rightarrow> preferred)
          in (Some (gb_peer_id chosen), s\<lparr>gs_selected := bmap_insert resource (gb_id chosen) (gs_selected s)\<rparr>))"

definition select_gateway ::
    "'net net_env \<Rightarrow> uuid \<Rightarrow> gateway_binding list \<Rightarrow> route_advertisement list \<Rightarrow> nat \<Rightarrow> nat \<Rightarrow> gateway_selector
     \<Rightarrow> uuid option \<times> gateway_selector" where
  "select_gateway env resource bindings advertisements wall now s =
     select_aliases env resource [resource] bindings advertisements wall now s"

section \<open>Health as a function of the outcomes\<close>

definition outcome_run :: "(bool \<times> nat) list \<Rightarrow> observation \<Rightarrow> observation" where
  "outcome_run outcomes ob = fold (\<lambda>(success, now). observe_outcome success now) outcomes ob"

text \<open>Three failures in a row that no three successes in a row followed.\<close>

definition failing :: "bool list \<Rightarrow> bool" where
  "failing h \<longleftrightarrow> (\<exists>before after. h = before @ [False, False, False] @ after \<and> \<not> sublist [True, True, True] after)"

lemma failing_failure: "failing (h @ [False]) \<longleftrightarrow> failing h \<or> suffix [False, False, False] (h @ [False])"
proof
  assume "failing (h @ [False])"
  then obtain a b where ab: "h @ [False] = a @ [False, False, False] @ b" "\<not> sublist [True, True, True] b"
    unfolding failing_def by blast
  show "failing h \<or> suffix [False, False, False] (h @ [False])"
  proof (cases b rule: rev_cases)
    case Nil
    then show ?thesis using ab by (auto simp: suffix_def)
  next
    case (snoc c x)
    then have "h = a @ [False, False, False] @ c" "\<not> sublist [True, True, True] c"
      using ab by (auto simp: sublist_append)
    then show ?thesis unfolding failing_def by blast
  qed
next
  assume "failing h \<or> suffix [False, False, False] (h @ [False])"
  then show "failing (h @ [False])"
  proof
    assume "failing h"
    then obtain a b where ab: "h = a @ [False, False, False] @ b" "\<not> sublist [True, True, True] b"
      unfolding failing_def by blast
    then have "\<not> sublist [True, True, True] (b @ [False])" by (auto simp: sublist_snoc suffix_def)
    then show ?thesis using ab(1) unfolding failing_def by (intro exI [of _ a] exI [of _ "b @ [False]"]) simp
  next
    assume "suffix [False, False, False] (h @ [False])"
    then obtain a where "h @ [False] = a @ [False, False, False]" by (auto simp: suffix_def)
    then show ?thesis unfolding failing_def by (intro exI [of _ a] exI [of _ "[]"]) simp
  qed
qed

lemma failing_success: "failing (h @ [True]) \<longleftrightarrow> failing h \<and> \<not> suffix [True, True, True] (h @ [True])"
proof
  assume "failing (h @ [True])"
  then obtain a b where ab: "h @ [True] = a @ [False, False, False] @ b" "\<not> sublist [True, True, True] b"
    unfolding failing_def by blast
  then obtain c where b: "b = c @ [True]" by (cases b rule: rev_cases) auto
  then have h: "h = a @ [False, False, False] @ c" using ab(1) by simp
  have "\<not> sublist [True, True, True] c" using ab(2) b by (auto simp: sublist_snoc)
  moreover have "\<not> suffix [True, True, True] (h @ [True])"
  proof
    assume s: "suffix [True, True, True] (h @ [True])"
    have "suffix b (h @ [True])" using ab(1) by (simp add: suffix_def)
    then consider "suffix [True, True, True] b" | "suffix b [True, True, True]" "\<not> suffix [True, True, True] b"
      using suffix_same_cases [OF s] by blast
    then show False
    proof cases
      case 1
      then show False using ab(2) by (auto dest: suffix_imp_sublist)
    next
      case 2
      then have "c = [] \<or> c = [True]" unfolding b suffix_def by (auto simp: append_eq_Cons_conv Cons_eq_append_conv)
      then show False using s h by (auto simp: suffix_def Cons_eq_append_conv append_eq_Cons_conv append_eq_append_conv2)
    qed
  qed
  ultimately show "failing h \<and> \<not> suffix [True, True, True] (h @ [True])" using h unfolding failing_def by blast
next
  assume a: "failing h \<and> \<not> suffix [True, True, True] (h @ [True])"
  then obtain a b where ab: "h = a @ [False, False, False] @ b" "\<not> sublist [True, True, True] b" unfolding failing_def by blast
  have "\<not> suffix [True, True, True] (b @ [True])"
  proof
    assume "suffix [True, True, True] (b @ [True])"
    then have "suffix [True, True, True] ((a @ [False, False, False]) @ b @ [True])" by (rule suffix_appendI)
    then show False using a ab(1) by simp
  qed
  then have "\<not> sublist [True, True, True] (b @ [True])" using ab(2) by (simp add: sublist_snoc del: suffix_snoc snoc_suffix_snoc)
  then show "failing (h @ [True])" using ab(1) unfolding failing_def by (intro exI [of _ a] exI [of _ "b @ [True]"]) simp
qed

definition trailing :: "bool \<Rightarrow> bool list \<Rightarrow> nat" where
  "trailing v h = length (takeWhile (\<lambda>x. x = v) (rev h))"

lemma trailing_simps [simp]:
  "trailing v [] = 0" "trailing v (h @ [x]) = (if x = v then Suc (trailing v h) else 0)"
  by (simp_all add: trailing_def)

lemma trailing_three: "suffix [v, v, v] h \<longleftrightarrow> 3 \<le> trailing v h"
proof -
  obtain r where r: "h = rev r" by (metis rev_rev_ident)
  have "suffix [v, v, v] h \<longleftrightarrow> prefix [v, v, v] r" using suffix_to_prefix [of "[v, v, v]" h] r by simp
  also have "\<dots> \<longleftrightarrow> 3 \<le> length (takeWhile (\<lambda>x. x = v) r)"
    by (cases r; cases "tl r"; cases "tl (tl r)") auto
  finally show ?thesis by (simp add: trailing_def r)
qed

lemma outcome_run_snoc: "outcome_run (os @ [(success, now)]) ob = observe_outcome success now (outcome_run os ob)"
  by (simp add: outcome_run_def)

lemma u8_increment_min: "u8_increment (min 255 n) = min 255 (Suc n)"
  by (simp add: u8_increment_def min_def)

lemma observe_counts [simp]:
  "ob_failures (observe_outcome True now ob) = 0" "ob_successes (observe_outcome True now ob) = u8_increment (ob_successes ob)"
  "ob_failures (observe_outcome False now ob) = u8_increment (ob_failures ob)" "ob_successes (observe_outcome False now ob) = 0"
  by (simp_all add: observe_outcome_def Let_def)

lemma outcome_run_counts:
  "ob_failures (outcome_run os (fresh_observation t)) = min 255 (trailing False (map fst os))
   \<and> ob_successes (outcome_run os (fresh_observation t)) = min 255 (trailing True (map fst os))"
proof (induction os rule: rev_induct)
  case Nil
  then show ?case by (simp add: outcome_run_def fresh_observation_def)
next
  case (snoc o' os)
  obtain success now where "o' = (success, now)" by (cases o')
  then show ?case using snoc by (cases success) (simp_all add: outcome_run_snoc u8_increment_min)
qed

lemma outcome_run_health:
  "ob_health (outcome_run os (fresh_observation t)) =
     (if failing (map fst os) then Unhealthy else if True \<in> fst ` set os then Healthy else Unknown)"
proof (induction os rule: rev_induct)
  case Nil
  then show ?case by (simp add: outcome_run_def fresh_observation_def failing_def)
next
  case (snoc o' os)
  obtain success now where o': "o' = (success, now)" by (cases o')
  note counts = outcome_run_counts [of os t]
  show ?case
  proof (cases success)
    case True
    have "suffix [True, True, True] (map fst os @ [True]) \<longleftrightarrow> 3 \<le> u8_increment (ob_successes (outcome_run os (fresh_observation t)))"
      unfolding trailing_three using counts by (simp add: u8_increment_min)
    then show ?thesis using snoc True o' failing_success [of "map fst os"]
      by (auto simp: outcome_run_snoc observe_outcome_def Let_def simp del: suffix_snoc snoc_suffix_snoc)
  next
    case False
    have "suffix [False, False, False] (map fst os @ [False]) \<longleftrightarrow> 3 \<le> u8_increment (ob_failures (outcome_run os (fresh_observation t)))"
      unfolding trailing_three using counts by (simp add: u8_increment_min)
    then show ?thesis using snoc False o' failing_failure [of "map fst os"]
      by (auto simp: outcome_run_snoc observe_outcome_def Let_def simp del: suffix_snoc snoc_suffix_snoc)
  qed
qed


section \<open>Properties\<close>

text \<open>Path health has hysteresis.  After any outcomes of probes of a path, it counts as unhealthy exactly if three
  failures in a row were not yet followed by three successes in a row; otherwise as healthy if a probe ever
  succeeded, and as unknown before that.
\<close>

theorem path_health_exact:
  "ob_health (outcome_run outcomes (fresh_observation t)) =
     (if \<exists>before after. map fst outcomes = before @ [False, False, False] @ after \<and> \<not> sublist [True, True, True] after
      then Unhealthy else if True \<in> fst ` set outcomes then Healthy else Unknown)"
  using outcome_run_health [of outcomes t] unfolding failing_def .

text \<open>Gateway selection.  A provider is selected if and only if some binding qualifies: for an alias of the resource,
  approved, valid, with an eligible path, and advertised now by its own Peer at its own version as published and
  forwarding.  The selected one qualifies and is the best by priority, Peer and identifier, unless the
  earlier choice still qualifies and the best path has not yet been stable for thirty seconds; then the earlier choice
  stays.  Nothing else of the selector changes.
\<close>

theorem gateway_selection_exact:
  "case select_aliases env resource aliases bindings advertisements wall now s of
     (None, s') \<Rightarrow> s' = s \<and> (\<forall>b\<in>set bindings. \<not> selectable env s aliases advertisements wall now b)
   | (Some peer, s') \<Rightarrow>
       \<exists>b\<in>set bindings. \<exists>p\<in>set bindings. selectable env s aliases advertisements wall now b \<and> selectable env s aliases advertisements wall now p
         \<and> (\<forall>c\<in>set bindings. selectable env s aliases advertisements wall now c \<longrightarrow> preference_key p \<le> preference_key c)
         \<and> peer = gb_peer_id b \<and> s' = s\<lparr>gs_selected := bmap_insert resource (gb_id b) (gs_selected s)\<rparr>
         \<and> (if (\<exists>c\<in>set bindings. selectable env s aliases advertisements wall now c \<and> hm_get (gs_selected s) resource = Some (gb_id c))
              \<and> unsettled s (gb_id p) now
            then hm_get (gs_selected s) resource = Some (gb_id b) else b = p)"
proof -
  let ?ok = "selectable env s aliases advertisements wall now"
  let ?cs = "sort_key preference_key (filter ?ok bindings)"
  show ?thesis
  proof (cases ?cs)
    case Nil
    then have "set ?cs = {}" by simp
    then have "\<forall>b\<in>set bindings. \<not> ?ok b" by auto
    then show ?thesis using Nil by (simp add: select_aliases_def)
  next
    case (Cons p rest)
    have mem: "c \<in> set ?cs \<longleftrightarrow> c \<in> set bindings \<and> ?ok c" for c by auto
    have p: "p \<in> set bindings" "?ok p" using mem [of p] Cons by simp_all
    have least: "preference_key p \<le> preference_key c" if "c \<in> set bindings" "?ok c" for c
    proof -
      have "sorted (map preference_key (p # rest))" using sorted_sort_key [of preference_key "filter ?ok bindings"] unfolding Cons .
      moreover have "c \<in> set (p # rest)" using mem [of c] that unfolding Cons by blast
      ultimately show ?thesis by auto
    qed
    define current where "current = (case hm_get (gs_selected s) resource of None \<Rightarrow> None | Some u \<Rightarrow> find (\<lambda>b. gb_id b = u) ?cs)"
    define chosen where "chosen = (case current of
        Some cur \<Rightarrow> if gb_id cur \<noteq> gb_id p \<and> unsettled s (gb_id p) now then cur else p | None \<Rightarrow> p)"
    have result: "select_aliases env resource aliases bindings advertisements wall now s =
        (Some (gb_peer_id chosen), s\<lparr>gs_selected := bmap_insert resource (gb_id chosen) (gs_selected s)\<rparr>)"
      unfolding select_aliases_def Let_def chosen_def current_def Cons by simp
    have cur: "c \<in> set bindings \<and> ?ok c \<and> hm_get (gs_selected s) resource = Some (gb_id c)" if "current = Some c" for c
      using that mem [of c] by (auto simp: current_def dest: find_SomeD split: option.splits)
    have none: "current \<noteq> None" if "c \<in> set bindings" "?ok c" "hm_get (gs_selected s) resource = Some (gb_id c)" for c
    proof -
      have "c \<in> set ?cs" using that mem by blast
      then show ?thesis using that(3) unfolding current_def by (auto simp: find_None_iff)
    qed
    have chosen: "chosen \<in> set bindings" "?ok chosen"
      using p cur unfolding chosen_def by (auto split: option.splits)
    have rule: "if (\<exists>c\<in>set bindings. ?ok c \<and> hm_get (gs_selected s) resource = Some (gb_id c)) \<and> unsettled s (gb_id p) now
        then hm_get (gs_selected s) resource = Some (gb_id chosen) else chosen = p"
    proof (cases current)
      case None
      then show ?thesis using none by (auto simp: chosen_def)
    next
      case (Some c)
      then show ?thesis using cur [OF Some] by (auto simp: chosen_def)
    qed
    show ?thesis unfolding result prod.case option.case
    proof (rule bexI [OF _ chosen(1)], rule bexI [OF _ p(1)], intro conjI)
      show "\<forall>c\<in>set bindings. ?ok c \<longrightarrow> preference_key p \<le> preference_key c" using least by blast
    qed (fact chosen(2) p(2) refl rule)+
  qed
qed

text \<open>Saved preferences change one version at a time.  From a valid state, a change that is accepted leads to a valid state of the
  same device; either it was the last change, repeated, and nothing happens, or it was made against the current version
  and the next version holds exactly its preferences.  Repeating it then succeeds without effect, and every other change
  made against the old version is refused.
\<close>

theorem preferences_versioned:
  assumes "saved_validate env s mesh peer = Ok ()" and "saved_changed env s change = Ok s'"
  shows "saved_validate env s' mesh peer = Ok ()
    \<and> (s' = s \<and> sp_last_change s = Some change
       \<or> pc_expected_version change = sp_version s \<and> sp_version s' = sp_version s + 1 \<and> sp_preferences s' = pc_preferences change
         \<and> (\<forall>other. pc_expected_version other = sp_version s \<and> other \<noteq> change \<longrightarrow> \<not> is_ok (saved_changed env s' other)))
    \<and> saved_changed env s' change = Ok s'"
proof -
  have valid: "preferences_validate env (pc_preferences change) = Ok ()" "nt_version env (pc_request_id change) = 4"
    using assms(2) unfolding saved_changed_def validate_change_def and_then_Ok_iff [of "and_then _ _"] unit_then_Ok_iff guard_Ok_iff by blast+
  have bound: "sp_version s \<le> u64_max"
    using assms(1) by (auto simp: saved_validate_def unit_then_Ok_iff guard_Ok_iff checked_add_def split: option.splits if_splits)
  show ?thesis
  proof (cases "sp_last_change s = Some change")
    case True
    then have "s' = s" using assms(2) valid by (simp add: saved_changed_def validate_change_def)
    then show ?thesis using True assms by simp
  next
    case False
    then have new: "pc_expected_version change = sp_version s" "sp_version s \<noteq> u64_max"
        "s' = s\<lparr>sp_version := sp_version s + 1, sp_preferences := pc_preferences change, sp_last_change := Some change\<rparr>"
      using assms(2) valid by (simp_all add: saved_changed_def validate_change_def split: if_splits)
    have "checked_add (sp_version s) 1 = Some (Suc (sp_version s))" using bound new(2) by (simp add: checked_add_def)
    moreover have "sp_schema_version s = 4 \<and> sp_mesh_id s = mesh \<and> sp_peer_id s = peer"
      using assms(1) by (auto simp: saved_validate_def unit_then_Ok_iff guard_Ok_iff)
    ultimately have "saved_validate env s' mesh peer = Ok ()"
      using valid new by (simp add: saved_validate_def)
    moreover have "saved_changed env s' change = Ok s'"
      using valid new(3) by (simp add: saved_changed_def validate_change_def)
    moreover have "\<not> is_ok (saved_changed env s' other)" if "pc_expected_version other = sp_version s" "other \<noteq> change" for other
      using that new(3) by (cases "preferences_validate env (pc_preferences other)") (auto simp: saved_changed_def validate_change_def)
    ultimately show ?thesis using new by simp
  qed
qed

theorem preferences_versioned_witness:
  "let change = \<lparr>pc_request_id = [1], pc_expected_version = 0, pc_preferences = preferences_default\<lparr>cp_allow_inbound := False\<rparr>\<rparr>
   in \<exists>s'. saved_changed octet_env (saved_new [2] [3]) change = Ok s' \<and> saved_validate octet_env s' [2] [3] = Ok ()"
proof -
  let ?change = "\<lparr>pc_request_id = [1], pc_expected_version = 0, pc_preferences = preferences_default\<lparr>cp_allow_inbound := False\<rparr>\<rparr>"
  have "saved_validate octet_env (saved_new [2] [3]) [2] [3] = Ok ()"
    by (simp add: saved_validate_def saved_new_def preferences_validate_def preferences_default_def)
  moreover have "\<exists>s'. saved_changed octet_env (saved_new [2] [3]) ?change = Ok s'"
    by (simp add: saved_changed_def validate_change_def saved_new_def preferences_validate_def preferences_default_def octet_env_def u64_max_def)
  ultimately show ?thesis using preferences_versioned unfolding Let_def by blast
qed

end
