(* ===== verification/Correlation.thy ===== *)
theory Correlation
  imports Prelude
begin

text \<open>
  Request and trace correlation (\<open>crates/peerward-types/src/correlation.rs\<close>): the W3C
  \<open>traceparent\<close> header, its strict parser and printer, and the binary form that control messages
  carry (\<open>crates/peerward-wire/src/control.rs\<close>).

  A header is the bytes of its text; the parser slices it only after it has checked that it is ASCII.
  The version and the variant of a UUID are the parameter \<open>uuid_env\<close>; the fresh UUIDs of
  \<open>root\<close> and \<open>child\<close> are arguments.
\<close>

record uuid_env =
  uv_random :: "uuid \<Rightarrow> bool"
  uv_rfc4122 :: "uuid \<Rightarrow> bool"

section \<open>The context\<close>

record correlation_context =
  cx_request_id :: uuid
  cx_trace_id :: bytes
  cx_span_id :: bytes
  cx_flags :: u8

datatype correlation_error = InvalidIdentifier | MalformedTraceparent

definition context_root :: "uuid \<Rightarrow> uuid \<Rightarrow> uuid \<Rightarrow> bool \<Rightarrow> correlation_context" where
  "context_root request_id trace_id span_source sampled =
     \<lparr>cx_request_id = request_id, cx_trace_id = trace_id, cx_span_id = splice (replicate 8 0) 0 (take 8 span_source),
      cx_flags = if sampled then 1 else 0\<rparr>"

definition from_parts :: "uuid_env \<Rightarrow> uuid \<Rightarrow> bytes \<Rightarrow> bytes \<Rightarrow> u8 \<Rightarrow> (correlation_context, correlation_error) outcome" where
  "from_parts env request_id trace_id span_id flags =
     (if \<not> uv_random env request_id \<or> \<not> uv_rfc4122 env request_id \<or> list_all (\<lambda>b. b = 0) trace_id \<or> list_all (\<lambda>b. b = 0) span_id
      then Err InvalidIdentifier
      else Ok \<lparr>cx_request_id = request_id, cx_trace_id = trace_id, cx_span_id = span_id, cx_flags = flags\<rparr>)"

definition context_child :: "uuid \<Rightarrow> correlation_context \<Rightarrow> correlation_context" where
  "context_child source c = c\<lparr>cx_span_id := splice (replicate 8 0) 0 (take 8 source)\<rparr>"

section \<open>Hexadecimal text\<close>

definition lower_hex :: "u8 \<Rightarrow> bool" where
  "lower_hex c \<longleftrightarrow> 48 \<le> c \<and> c \<le> 57 \<or> 97 \<le> c \<and> c \<le> 102"

text \<open>\<open>u8::from_str_radix(_, 16)\<close> on two characters that are lower-case hexadecimal digits.\<close>

definition hex_digit :: "u8 \<Rightarrow> u8" where
  "hex_digit c = (if c \<le> 57 then c - 48 else c - 87)"

fun decode_pairs :: "bytes \<Rightarrow> bytes" where
  "decode_pairs (a # b # rest) = (hex_digit a * 16 + hex_digit b) # decode_pairs rest"
| "decode_pairs _ = []"

definition decode_hex :: "nat \<Rightarrow> bytes \<Rightarrow> (bytes, correlation_error) outcome" where
  "decode_hex n digits =
     (if length digits \<noteq> n * 2 \<or> \<not> list_all lower_hex digits then Err MalformedTraceparent
      else Ok (decode_pairs digits))"

definition hex_char :: "u8 \<Rightarrow> u8" where
  "hex_char n = (if n < 10 then 48 + n else 87 + n)"

definition append_hex :: "bytes \<Rightarrow> bytes \<Rightarrow> bytes" where
  "append_hex acc bs = fold (\<lambda>b acc. acc @ [hex_char (b div 16), hex_char (b mod 16)]) bs acc"

section \<open>The traceparent header\<close>

definition from_traceparent :: "uuid_env \<Rightarrow> uuid \<Rightarrow> bytes \<Rightarrow> (correlation_context, correlation_error) outcome" where
  "from_traceparent env request_id header =
     (if \<not> uv_random env request_id \<or> length header \<noteq> 55 \<or> \<not> list_all (\<lambda>c. c < 128) header then Err MalformedTraceparent
      else slice_at header 2 3 (\<lambda>d1. slice_at header 35 36 (\<lambda>d2. slice_at header 52 53 (\<lambda>d3. slice_at header 0 2 (\<lambda>version.
        if d1 \<noteq> [45] \<or> d2 \<noteq> [45] \<or> d3 \<noteq> [45] \<or> version = [102, 102] then Err MalformedTraceparent
        else and_then (decode_hex 1 version) (\<lambda>v. byte_at v 0 (\<lambda>v.
          if v \<noteq> 0 then Err MalformedTraceparent
          else slice_at header 3 35 (\<lambda>trace. slice_at header 36 52 (\<lambda>span. slice_at header 53 55 (\<lambda>flags.
            and_then (decode_hex 16 trace) (\<lambda>trace_id. and_then (decode_hex 8 span) (\<lambda>span_id.
            and_then (decode_hex 1 flags) (\<lambda>flags. byte_at flags 0 (\<lambda>flags.
              from_parts env request_id trace_id span_id flags))))))))))))))"

definition traceparent :: "correlation_context \<Rightarrow> bytes" where
  "traceparent c =
     append_hex (append_hex (append_hex [48, 48, 45] (cx_trace_id c) @ [45]) (cx_span_id c) @ [45]) [cx_flags c]"

section \<open>The binary form (control.rs)\<close>

record trace_context =
  tx_request_id :: bytes
  tx_trace_id :: bytes
  tx_span_id :: bytes
  tx_flags :: u32

definition from_context :: "correlation_context \<Rightarrow> trace_context" where
  "from_context c =
     \<lparr>tx_request_id = cx_request_id c, tx_trace_id = cx_trace_id c, tx_span_id = cx_span_id c, tx_flags = word_of_nat (unat (cx_flags c))\<rparr>"

definition try_into_context :: "uuid_env \<Rightarrow> trace_context \<Rightarrow> (correlation_context, correlation_error) outcome" where
  "try_into_context env t =
     (if length (tx_request_id t) \<noteq> 16 \<or> length (tx_trace_id t) \<noteq> 16 \<or> length (tx_span_id t) \<noteq> 8 \<or> unat (tx_flags t) > 255
      then Err InvalidIdentifier
      else from_parts env (tx_request_id t) (tx_trace_id t) (tx_span_id t) (word_of_nat (unat (tx_flags t))))"

text \<open>
  The typed message of an envelope is a \<open>prost\<close> type \<open>'m\<close> that none of the modelled code
  inspects.
\<close>

record 'm control_envelope =
  en_message :: "'m option"
  en_trace_context :: "trace_context option"

definition correlation_of :: "uuid_env \<Rightarrow> 'm control_envelope \<Rightarrow> (correlation_context option, correlation_error) outcome" where
  "correlation_of env e =
     (case en_trace_context e of
        None \<Rightarrow> Ok None
      | Some t \<Rightarrow> and_then (try_into_context env t) (\<lambda>c. Ok (Some c)))"

definition advance_trace :: "uuid_env \<Rightarrow> uuid \<Rightarrow> 'm control_envelope \<Rightarrow> (unit, correlation_error) outcome \<times> 'm control_envelope" where
  "advance_trace env source e =
     (case correlation_of env e of
        Err x \<Rightarrow> (Err x, e)
      | Abort \<Rightarrow> (Abort, e)
      | Ok None \<Rightarrow> (Ok (), e)
      | Ok (Some c) \<Rightarrow> (Ok (), e\<lparr>en_trace_context := Some (from_context (context_child source c))\<rparr>))"

section \<open>Lemmas\<close>

text \<open>A context as the code keeps it: sized identifiers that are not zero, and a random request identifier.\<close>

definition context_valid :: "uuid_env \<Rightarrow> correlation_context \<Rightarrow> bool" where
  "context_valid env c \<longleftrightarrow>
     uv_random env (cx_request_id c) \<and> uv_rfc4122 env (cx_request_id c) \<and> length (cx_request_id c) = 16
     \<and> length (cx_trace_id c) = 16 \<and> length (cx_span_id c) = 8 \<and> cx_trace_id c \<noteq> replicate 16 0 \<and> cx_span_id c \<noteq> replicate 8 0"

fun hex_text :: "bytes \<Rightarrow> bytes" where
  "hex_text [] = []"
| "hex_text (b # bs) = hex_char (b div 16) # hex_char (b mod 16) # hex_text bs"

lemma append_hex_text: "append_hex acc bs = acc @ hex_text bs"
  by (induction bs arbitrary: acc) (simp_all add: append_hex_def)

lemma length_hex_text [simp]: "length (hex_text bs) = 2 * length bs"
  by (induction bs) simp_all

text \<open>Both directions of the digits, checked for each value of a digit.\<close>

lemma nibble_cases: "(n :: u8) < 16 \<Longrightarrow> n \<in> {0, 1, 2, 3, 4, 5, 6, 7, 8, 9, 10, 11, 12, 13, 14, 15}"
proof -
  assume "n < 16"
  then have "unat n < 16" by (simp add: word_less_nat_alt)
  moreover have "(k :: nat) < 16 \<Longrightarrow> k \<in> {0, 1, 2, 3, 4, 5, 6, 7, 8, 9, 10, 11, 12, 13, 14, 15}" for k
    unfolding insert_iff empty_iff by presburger
  ultimately have "unat n \<in> {0, 1, 2, 3, 4, 5, 6, 7, 8, 9, 10, 11, 12, 13, 14, 15}" by blast
  then show ?thesis by (auto simp: word_unat_eq_iff)
qed

lemma hex_char_digit: "n < 16 \<Longrightarrow> lower_hex (hex_char n) \<and> hex_digit (hex_char n) = n"
  using nibble_cases [of n] by (auto simp: lower_hex_def hex_char_def hex_digit_def)

lemma hex_digit_char:
  assumes "lower_hex c"
  shows "hex_digit c < 16 \<and> hex_char (hex_digit c) = c"
proof -
  have "48 \<le> unat c \<and> unat c \<le> 57 \<or> 97 \<le> unat c \<and> unat c \<le> 102" using assms by (simp add: lower_hex_def word_le_nat_alt)
  moreover have "48 \<le> k \<and> k \<le> 57 \<or> 97 \<le> k \<and> k \<le> 102 \<Longrightarrow>
      k \<in> {48, 49, 50, 51, 52, 53, 54, 55, 56, 57, 97, 98, 99, 100, 101, 102}" for k :: nat
    unfolding insert_iff empty_iff by presburger
  ultimately have "unat c \<in> {48, 49, 50, 51, 52, 53, 54, 55, 56, 57, 97, 98, 99, 100, 101, 102}" by blast
  then have "c \<in> {48, 49, 50, 51, 52, 53, 54, 55, 56, 57, 97, 98, 99, 100, 101, 102}" by (auto simp: word_unat_eq_iff)
  then show ?thesis by (auto simp: hex_digit_def hex_char_def)
qed

lemma nibbles_join:
  fixes a b :: u8
  assumes "a < 16" and "b < 16"
  shows "(a * 16 + b) div 16 = a \<and> (a * 16 + b) mod 16 = b"
proof -
  have n: "unat a < 16" "unat b < 16" using assms by (simp_all add: word_less_nat_alt)
  have "unat (a * 16 + b) = unat a * 16 + unat b" using n by (simp add: unat_word_ariths)
  then show ?thesis using n by (simp add: word_unat_eq_iff unat_div unat_mod)
qed

lemma nibble_bounds: "(b :: u8) div 16 < 16 \<and> b mod 16 < 16"
proof -
  have "unat b div 16 < 16" using unat_u8_less [of b] by (simp add: div_less_iff_less_mult)
  then show ?thesis by (simp add: word_less_nat_alt unat_div unat_mod)
qed

lemma nibble_split: "(b div 16) * 16 + b mod 16 = (b :: u8)"
  by (simp add: div_mult_mod_eq)

lemma decode_pairs_text: "decode_pairs (hex_text bs) = bs \<and> list_all lower_hex (hex_text bs)"
  by (induction bs) (simp_all add: hex_char_digit nibble_bounds nibble_split)

lemma text_decode_pairs:
  "list_all lower_hex digits \<Longrightarrow> even (length digits) \<Longrightarrow>
   hex_text (decode_pairs digits) = digits \<and> 2 * length (decode_pairs digits) = length digits"
  by (induction digits rule: decode_pairs.induct) (auto simp: hex_digit_char nibbles_join)

lemma decode_hex_iff: "decode_hex n digits = Ok bs \<longleftrightarrow> length bs = n \<and> hex_text bs = digits"
proof
  assume "decode_hex n digits = Ok bs"
  then have "length digits = n * 2" "list_all lower_hex digits" "bs = decode_pairs digits"
    by (simp_all add: decode_hex_def split: if_splits)
  then show "length bs = n \<and> hex_text bs = digits" using text_decode_pairs [of digits] by simp
next
  assume "length bs = n \<and> hex_text bs = digits"
  then show "decode_hex n digits = Ok bs" using decode_pairs_text [of bs] by (auto simp: decode_hex_def)
qed

lemma decode_hex_not_Abort: "decode_hex n digits \<noteq> Abort"
  by (simp add: decode_hex_def)

lemma from_parts_iff:
  assumes "length trace_id = 16" and "length span_id = 8" and "length request_id = 16"
  shows "from_parts env request_id trace_id span_id flags = Ok c \<longleftrightarrow>
    context_valid env c \<and> c = \<lparr>cx_request_id = request_id, cx_trace_id = trace_id, cx_span_id = span_id, cx_flags = flags\<rparr>"
proof -
  have zero: "list_all (\<lambda>b. b = 0) xs \<longleftrightarrow> xs = replicate n 0" if "length xs = n" for xs :: bytes and n
    using that by (induction xs arbitrary: n) auto
  show ?thesis
    using assms zero [OF assms(1)] zero [OF assms(2)] by (auto simp: from_parts_def context_valid_def)
qed

lemma from_parts_not_Abort: "from_parts env request_id trace_id span_id flags \<noteq> Abort"
  by (simp add: from_parts_def)

lemma traceparent_shape:
  "traceparent c = [48, 48] @ [45] @ hex_text (cx_trace_id c) @ [45] @ hex_text (cx_span_id c) @ [45] @ hex_text [cx_flags c]"
  unfolding traceparent_def append_hex_text by simp

lemma lower_hex_ascii: "lower_hex c \<Longrightarrow> c < 128"
  by (auto simp: lower_hex_def word_le_nat_alt word_less_nat_alt)

lemma hex_text_ascii: "list_all (\<lambda>c. c < 128) (hex_text bs)"
  using decode_pairs_text [of bs] by (auto simp: list_all_iff intro: lower_hex_ascii)

text \<open>A header of the right length is its seven fields.\<close>

lemma header_fields:
  assumes "length h = 55"
  shows "h = take 2 h @ take 1 (drop 2 h) @ take 32 (drop 3 h) @ take 1 (drop 35 h) @ take 16 (drop 36 h) @ take 1 (drop 52 h) @ take 2 (drop 53 h)"
proof -
  have step: "drop i h = take n (drop i h) @ drop (i + n) h" for i n by (metis append_take_drop_id drop_drop add.commute)
  have "h = take 2 h @ drop 2 h" by simp
  also have "drop 2 h = take 1 (drop 2 h) @ drop 3 h" using step [of 2 1] by simp
  also have "drop 3 h = take 32 (drop 3 h) @ drop 35 h" using step [of 3 32] by simp
  also have "drop 35 h = take 1 (drop 35 h) @ drop 36 h" using step [of 35 1] by simp
  also have "drop 36 h = take 16 (drop 36 h) @ drop 52 h" using step [of 36 16] by simp
  also have "drop 52 h = take 1 (drop 52 h) @ drop 53 h" using step [of 52 1] by simp
  also have "drop 53 h = take 2 (drop 53 h)" using assms by simp
  finally show ?thesis .
qed

lemma fields_of_header:
  assumes "length a = 2" and "length b = 1" and "length c = 32" and "length d = 1" and "length e = 16" and "length f = 1" and "length g = 2"
    and "h = a @ b @ c @ d @ e @ f @ g"
  shows "length h = 55 \<and> take 2 h = a \<and> take 1 (drop 2 h) = b \<and> take 32 (drop 3 h) = c \<and> take 1 (drop 35 h) = d
    \<and> take 16 (drop 36 h) = e \<and> take 1 (drop 52 h) = f \<and> take 2 (drop 53 h) = g"
  using assms by simp

lemma from_traceparent_read:
  assumes "length header = 55"
  shows "from_traceparent env request_id header =
     (if \<not> uv_random env request_id \<or> \<not> list_all (\<lambda>c. c < 128) header then Err MalformedTraceparent
      else if take 1 (drop 2 header) \<noteq> [45] \<or> take 1 (drop 35 header) \<noteq> [45] \<or> take 1 (drop 52 header) \<noteq> [45] \<or> take 2 header = [102, 102]
      then Err MalformedTraceparent
      else and_then (decode_hex 1 (take 2 header)) (\<lambda>v. byte_at v 0 (\<lambda>v.
          if v \<noteq> 0 then Err MalformedTraceparent
          else and_then (decode_hex 16 (take 32 (drop 3 header))) (\<lambda>trace_id. and_then (decode_hex 8 (take 16 (drop 36 header))) (\<lambda>span_id.
            and_then (decode_hex 1 (take 2 (drop 53 header))) (\<lambda>flags. byte_at flags 0 (\<lambda>flags.
              from_parts env request_id trace_id span_id flags)))))))"
  using assms unfolding from_traceparent_def by (simp add: slice_at_def cong: if_cong)

lemma byte_at_0_iff: "length v = 1 \<Longrightarrow> byte_at v 0 k = k (hd v)"
  by (cases v) (simp_all add: byte_at_def)

lemma hex_text_single: "length v = 1 \<and> hex_text v = t \<longleftrightarrow> (\<exists>b. v = [b] \<and> hex_text [b] = t)"
  by (auto simp: length_Suc_conv)

lemma trace_context_canonical:
  "try_into_context env t = Ok c \<longleftrightarrow> context_valid env c \<and> from_context c = t"
proof
  assume ok: "try_into_context env t = Ok c"
  then have sizes: "length (tx_trace_id t) = 16" "length (tx_span_id t) = 8" "length (tx_request_id t) = 16" "unat (tx_flags t) \<le> 255"
    by (simp_all add: try_into_context_def split: if_splits)
  then have "from_parts env (tx_request_id t) (tx_trace_id t) (tx_span_id t) (word_of_nat (unat (tx_flags t))) = Ok c"
    using ok by (simp add: try_into_context_def)
  then have "context_valid env c" "c = \<lparr>cx_request_id = tx_request_id t, cx_trace_id = tx_trace_id t, cx_span_id = tx_span_id t,
      cx_flags = word_of_nat (unat (tx_flags t))\<rparr>"
    unfolding from_parts_iff [OF sizes(1-3)] by blast+
  moreover have "unat (word_of_nat (unat (tx_flags t)) :: u8) = unat (tx_flags t)"
    using sizes(4) unfolding unat_of_nat by simp
  then have "word_of_nat (unat (word_of_nat (unat (tx_flags t)) :: u8)) = tx_flags t"
    by (rule ssubst [where P = "\<lambda>n. word_of_nat n = tx_flags t"]) simp
  ultimately show "context_valid env c \<and> from_context c = t"
    by (cases t) (simp only: from_context_def correlation_context.select_convs trace_context.select_convs simp_thms)
next
  assume c: "context_valid env c \<and> from_context c = t"
  have flags: "unat (word_of_nat (unat (cx_flags c)) :: u32) = unat (cx_flags c)"
  proof -
    have "unat (cx_flags c) < 4294967296" using unat_u8_less [of "cx_flags c"] by linarith
    then show ?thesis unfolding unat_of_nat by simp
  qed
  have narrow: "word_of_nat (unat (word_of_nat (unat (cx_flags c)) :: u32)) = cx_flags c" unfolding flags by simp
  have "unat (cx_flags c) \<le> 255" using unat_u8_less [of "cx_flags c"] by linarith
  then have "try_into_context env (from_context c) = from_parts env (cx_request_id c) (cx_trace_id c) (cx_span_id c) (cx_flags c)"
    using c unfolding try_into_context_def from_context_def trace_context.select_convs narrow flags by (auto simp: context_valid_def)
  then show "try_into_context env t = Ok c"
    using c from_parts_iff [of "cx_trace_id c" "cx_span_id c" "cx_request_id c" env "cx_flags c" c] by (simp add: context_valid_def)
qed

section \<open>Properties\<close>

text \<open>The trace header is canonical.  A header is accepted exactly when it is the printed form of the resulting
  context, whose identifiers have their sizes, are not zero and, for the request, random; so printing and
  parsing are inverse, upper-case digits, other versions and other separators are refused, and no
  input makes the parser panic.
\<close>

theorem traceparent_canonical:
  assumes "length request_id = 16"
  shows "from_traceparent env request_id header \<noteq> Abort
    \<and> (from_traceparent env request_id header = Ok c \<longleftrightarrow>
         context_valid env c \<and> cx_request_id c = request_id \<and> traceparent c = header)"
proof (cases "length header = 55")
  case False
  have "length (traceparent c) = 55" if "context_valid env c" using that by (simp add: traceparent_shape context_valid_def)
  then show ?thesis using False by (auto simp: from_traceparent_def)
next
  case True
  note read = from_traceparent_read [OF True, of env request_id]
  have abort: "from_traceparent env request_id header \<noteq> Abort"
    unfolding read by (auto simp: and_then_Abort_iff decode_hex_not_Abort decode_hex_iff hex_text_single from_parts_not_Abort byte_at_def)
  show ?thesis
  proof (rule conjI [OF abort], rule iffI)
    assume ok: "from_traceparent env request_id header = Ok c"
    then obtain v trace_id span_id flags where f: "uv_random env request_id" "take 1 (drop 2 header) = [45]" "take 1 (drop 35 header) = [45]"
        "take 1 (drop 52 header) = [45]" "decode_hex 1 (take 2 header) = Ok v" "hd v = 0" "decode_hex 16 (take 32 (drop 3 header)) = Ok trace_id"
        "decode_hex 8 (take 16 (drop 36 header)) = Ok span_id" "decode_hex 1 (take 2 (drop 53 header)) = Ok flags"
        "from_parts env request_id trace_id span_id (hd flags) = Ok c"
      unfolding read by (auto simp: and_then_Ok_iff decode_hex_iff byte_at_0_iff split: if_splits)
    then have lengths: "length trace_id = 16" "length span_id = 8" "v = [0]" "flags = [hd flags]"
      by (auto simp: decode_hex_iff length_Suc_conv)
    have c: "context_valid env c" "c = \<lparr>cx_request_id = request_id, cx_trace_id = trace_id, cx_span_id = span_id, cx_flags = hd flags\<rparr>"
      using f(10) from_parts_iff [OF lengths(1,2) assms] by blast+
    have t: "take 2 header = hex_text [0]" "take 32 (drop 3 header) = hex_text trace_id" "take 16 (drop 36 header) = hex_text span_id"
        "take 2 (drop 53 header) = hex_text [hd flags]"
      using f(5,7,8,9) lengths(3,4) by (metis decode_hex_iff)+
    have "header = hex_text [0] @ [45] @ hex_text trace_id @ [45] @ hex_text span_id @ [45] @ hex_text [hd flags]"
      using header_fields [OF True] unfolding f(2-4) t .
    moreover have "hex_text [0] = [48, 48 :: u8]" by (simp add: hex_char_def)
    ultimately have "traceparent c = header" unfolding traceparent_shape c(2) by simp
    then show "context_valid env c \<and> cx_request_id c = request_id \<and> traceparent c = header" using c by simp
  next
    assume c: "context_valid env c \<and> cx_request_id c = request_id \<and> traceparent c = header"
    then have sizes: "length (cx_trace_id c) = 16" "length (cx_span_id c) = 8" by (simp_all add: context_valid_def)
    have fields: "take 2 header = [48, 48]" "take 1 (drop 2 header) = [45]" "take 32 (drop 3 header) = hex_text (cx_trace_id c)"
        "take 1 (drop 35 header) = [45]" "take 16 (drop 36 header) = hex_text (cx_span_id c)" "take 1 (drop 52 header) = [45]"
        "take 2 (drop 53 header) = hex_text [cx_flags c]"
      using fields_of_header [OF _ _ _ _ _ _ _ traceparent_shape [of c]] sizes c by simp_all
    have "list_all (\<lambda>c. c < 128) header"
      using c hex_text_ascii [of "[cx_flags c]"] hex_text_ascii [of "cx_trace_id c"] hex_text_ascii [of "cx_span_id c"]
      unfolding traceparent_shape by (auto simp: list_all_iff)
    moreover have "decode_hex 1 [48, 48] = Ok [0]" "decode_hex 1 (hex_text [cx_flags c]) = Ok [cx_flags c]"
        "decode_hex 16 (hex_text (cx_trace_id c)) = Ok (cx_trace_id c)" "decode_hex 8 (hex_text (cx_span_id c)) = Ok (cx_span_id c)"
      using sizes unfolding decode_hex_iff by (simp_all add: hex_char_def)
    moreover have "from_parts env request_id (cx_trace_id c) (cx_span_id c) (cx_flags c) = Ok c"
      using from_parts_iff [OF sizes assms] c by auto
    ultimately show "from_traceparent env request_id header = Ok c"
      unfolding read fields using c by (auto simp: byte_at_def context_valid_def)
  qed
qed

definition sample_uuids :: uuid_env where
  "sample_uuids = \<lparr>uv_random = (\<lambda>u. length u = 16 \<and> drop_bit 4 (u ! 6) = 4), uv_rfc4122 = (\<lambda>u. drop_bit 6 (u ! 8) = 2)\<rparr>"

definition sample_uuid :: uuid where
  "sample_uuid = replicate 6 7 @ [0x4a, 9, 0x8b] @ replicate 7 1"

definition sample_context :: correlation_context where
  "sample_context = \<lparr>cx_request_id = sample_uuid, cx_trace_id = replicate 16 0xab, cx_span_id = replicate 8 3, cx_flags = 1\<rparr>"

lemma sample_context_valid: "context_valid sample_uuids sample_context"
  by code_simp

theorem traceparent_canonical_witness:
  "from_traceparent sample_uuids sample_uuid (traceparent sample_context) = Ok sample_context"
proof -
  have "length sample_uuid = 16" "cx_request_id sample_context = sample_uuid" by (simp_all add: sample_uuid_def sample_context_def)
  then show ?thesis using traceparent_canonical [of sample_uuid sample_uuids "traceparent sample_context" sample_context] sample_context_valid
    by blast
qed

text \<open>Advancing a trace.  A message whose context is refused is left as it is; otherwise its request, its trace, its flags
  and its content stay, only the span changes, and the next receiver accepts the new context, for a fresh random
  identifier carries its version in the seventh byte.
\<close>

theorem advanced_trace_accepted:
  assumes "\<And>u. uv_random env u \<Longrightarrow> length u = 16 \<and> u ! 6 \<noteq> 0" and "uv_random env source"
  shows "\<exists>r e'. advance_trace env source e = (r, e')
      \<and> (if r = Ok () then en_message e' = en_message e
            \<and> (case en_trace_context e of
                 None \<Rightarrow> en_trace_context e' = None
               | Some t \<Rightarrow> \<exists>c. try_into_context env t = Ok c \<and> correlation_of env e' = Ok (Some (c\<lparr>cx_span_id := take 8 source\<rparr>)))
         else r = Err InvalidIdentifier \<and> e' = e \<and> correlation_of env e = Err InvalidIdentifier)"
proof (cases "en_trace_context e")
  case None
  then show ?thesis by (simp add: advance_trace_def correlation_of_def)
next
  case (Some t)
  show ?thesis
  proof (cases "try_into_context env t")
    case (Ok c)
    have u: "length source = 16" "source ! 6 \<noteq> 0" using assms by blast+
    have "take 8 source ! 6 \<noteq> 0" using u by simp
    moreover have "replicate 8 0 ! 6 = (0 :: u8)" by simp
    ultimately have nonzero: "take 8 source \<noteq> replicate 8 0" by metis
    have child: "context_child source c = c\<lparr>cx_span_id := take 8 source\<rparr>" using u by (simp add: context_child_def splice_def)
    have "context_valid env (c\<lparr>cx_span_id := take 8 source\<rparr>)"
      using Ok u nonzero unfolding trace_context_canonical by (simp add: context_valid_def)
    then have "try_into_context env (from_context (context_child source c)) = Ok (c\<lparr>cx_span_id := take 8 source\<rparr>)"
      unfolding trace_context_canonical child by simp
    then show ?thesis using Some Ok by (simp add: advance_trace_def correlation_of_def)
  next
    case (Err x)
    then have "x = InvalidIdentifier" by (auto simp: try_into_context_def from_parts_def split: if_splits)
    then show ?thesis using Some Err by (simp add: advance_trace_def correlation_of_def)
  qed (simp add: try_into_context_def from_parts_def split: if_splits)
qed

theorem advanced_trace_accepted_witness:
  "\<exists>e'. advance_trace sample_uuids sample_uuid \<lparr>en_message = Some True, en_trace_context = Some (from_context sample_context)\<rparr> = (Ok (), e')
     \<and> correlation_of sample_uuids e' = Ok (Some (sample_context\<lparr>cx_span_id := take 8 sample_uuid\<rparr>))"
proof -
  let ?e = "\<lparr>en_message = Some True, en_trace_context = Some (from_context sample_context)\<rparr>"
  have laws: "uv_random sample_uuids u \<Longrightarrow> length u = 16 \<and> u ! 6 \<noteq> 0" for u by (auto simp: sample_uuids_def)
  have fresh: "uv_random sample_uuids sample_uuid" by code_simp
  have ok: "try_into_context sample_uuids (from_context sample_context) = Ok sample_context"
    using sample_context_valid unfolding trace_context_canonical by simp
  then have "correlation_of sample_uuids ?e \<noteq> Err InvalidIdentifier" by (simp add: correlation_of_def)
  then show ?thesis using advanced_trace_accepted [OF laws fresh, of ?e] ok by (auto split: if_splits)
qed

end
