(* ===== verification/WireRecords.thy ===== *)
theory WireRecords
  imports Correlation PresenceCache
begin

text \<open>
  Records between Peers and Relays (\<open>crates/peerward-wire/src\<close>): the routing preface of a
  connection (\<open>relay_preface.rs\<close>), the negotiation and the limits of a key epoch
  (\<open>transport.rs\<close>), the encrypted record stream (\<open>records.rs\<close>) and the envelope a Relay routes
  (\<open>session.rs\<close>); and, on top of it, the record transport of the carrier with its resumable frame
  reader (\<open>crates/peerward-carrier/src/records.rs\<close>).

  Code outside the repository is a parameter.  \<open>noise_env\<close> is the \<open>snow\<close> crate's transport
  state: \<open>nz_write\<close> and \<open>nz_read\<close> take the state, the message and the length of the output
  buffer, and return the bytes written, or nothing on an error, with the state after the call.
  \<open>prost_env\<close> is the generated codec of control envelopes.
\<close>

section \<open>Limits and negotiation (transport.rs)\<close>

definition PROTOCOL_MAJOR :: u32 where "PROTOCOL_MAJOR = 5"
definition MAX_CIPHERTEXT_LEN :: nat where "MAX_CIPHERTEXT_LEN = 65535"
definition REKEY_MESSAGES :: nat where "REKEY_MESSAGES = 2 ^ 19"
definition REKEY_HARD_MESSAGES :: nat where "REKEY_HARD_MESSAGES = 2 ^ 20"
definition REKEY_SECONDS :: nat where "REKEY_SECONDS = 45 * 60"
definition REKEY_HARD_SECONDS :: nat where "REKEY_HARD_SECONDS = 60 * 60"

text \<open>\<open>b"peerward/noise/v4"\<close>.\<close>

definition NOISE_PROLOGUE :: bytes where
  "NOISE_PROLOGUE = [0x70, 0x65, 0x65, 0x72, 0x77, 0x61, 0x72, 0x64, 0x2f, 0x6e, 0x6f, 0x69, 0x73, 0x65, 0x2f, 0x76, 0x34]"

datatype noise_suite = IK_SUITE | KK_SUITE

record handshake_payload =
  hk_major :: u32
  hk_minor :: u32
  hk_capabilities :: "64 word"
  hk_credential :: bytes
  hk_attachment_id :: bytes

definition negotiate :: "handshake_payload \<Rightarrow> 64 word \<Rightarrow> (64 word, wire_error) outcome" where
  "negotiate h local_capabilities =
     (if hk_major h \<noteq> PROTOCOL_MAJOR then Err Wire_UnsupportedMajor
      else if length (hk_attachment_id h) \<noteq> 16 \<or> hk_credential h = [] then Err Wire_KindMismatch
      else Ok (Bit_Operations.and (hk_capabilities h) local_capabilities))"

section \<open>The preface of a connection (relay\_preface.rs)\<close>

definition RELAY_PREFACE_LEN :: nat where "RELAY_PREFACE_LEN = 56"

definition PREFACE_MAGIC :: bytes where "PREFACE_MAGIC = [0x50, 0x57, 0x52, 0x34]"

record relay_preface =
  px_mesh_id :: uuid
  px_target :: uuid
  px_source :: "uuid option"

definition preface_encode :: "relay_preface \<Rightarrow> bytes" where
  "preface_encode p =
     (let bs = replicate RELAY_PREFACE_LEN 0;
          bs = splice bs 0 PREFACE_MAGIC;
          bs = bs[4 := 4];
          bs = bs[5 := if px_source p \<noteq> None then 2 else 1];
          bs = splice bs 8 (px_mesh_id p);
          bs = splice bs 24 (px_target p)
      in case px_source p of Some source \<Rightarrow> splice bs 40 source | None \<Rightarrow> bs)"

definition preface_id :: "(uuid \<Rightarrow> bool) \<Rightarrow> bytes \<Rightarrow> nat \<Rightarrow> nat \<Rightarrow> (uuid, wire_error) outcome" where
  "preface_id v4 bs i j = slice_at bs i j (\<lambda>u. if length u = 16 \<and> v4 u then Ok u else Err Wire_KindMismatch)"

definition preface_source :: "(uuid \<Rightarrow> bool) \<Rightarrow> bytes \<Rightarrow> (uuid option, wire_error) outcome" where
  "preface_source v4 bs =
     byte_at bs 5 (\<lambda>kind. slice_from bs 40 (\<lambda>tail.
       if kind = 1 \<and> tail = replicate 16 0 then Ok None
       else if kind = 2 then and_then (preface_id v4 bs 40 56) (\<lambda>u. Ok (Some u))
       else Err Wire_KindMismatch))"

definition preface_decode :: "(uuid \<Rightarrow> bool) \<Rightarrow> bytes \<Rightarrow> (relay_preface, wire_error) outcome" where
  "preface_decode v4 bs =
     (if length bs \<noteq> RELAY_PREFACE_LEN then Err Wire_InvalidLength
      else slice_at bs 0 4 (\<lambda>magic. byte_at bs 4 (\<lambda>major.
        if magic \<noteq> PREFACE_MAGIC \<or> major \<noteq> 4 then Err Wire_UnsupportedMajor
        else slice_at bs 6 8 (\<lambda>reserved.
          if reserved \<noteq> [0, 0] then Err Wire_Unsupported
          else and_then (preface_id v4 bs 8 24) (\<lambda>mesh. and_then (preface_id v4 bs 24 40) (\<lambda>target.
            and_then (preface_source v4 bs) (\<lambda>source.
              if source = Some target then Err Wire_KindMismatch
              else Ok \<lparr>px_mesh_id = mesh, px_target = target, px_source = source\<rparr>)))))))"

definition preface_prologue :: "relay_preface \<Rightarrow> bytes" where
  "preface_prologue p = NOISE_PROLOGUE @ [0x2f, 0x72, 0x65, 0x6c, 0x61, 0x79, 0] @ preface_encode p"

text \<open>The handshake is built by \<open>snow\<close>: the parameter \<open>build\<close>.\<close>

definition preface_handshake ::
    "(uuid \<Rightarrow> bool) \<Rightarrow> (noise_suite \<Rightarrow> bool \<Rightarrow> bytes \<Rightarrow> bytes option \<Rightarrow> bytes \<Rightarrow> ('h, wire_error) outcome)
     \<Rightarrow> relay_preface \<Rightarrow> bool \<Rightarrow> bytes \<Rightarrow> bytes option \<Rightarrow> ('h, wire_error) outcome" where
  "preface_handshake v4 build p initiator local_private remote_public =
     and_then (preface_decode v4 (preface_encode p)) (\<lambda>_.
     build (if px_source p \<noteq> None then KK_SUITE else IK_SUITE) initiator local_private remote_public (preface_prologue p))"

section \<open>The envelope a Relay routes (session.rs)\<close>

definition MAX_OPAQUE_FRAME_LEN :: nat where "MAX_OPAQUE_FRAME_LEN = 65535"

datatype opaque_frame_kind = Kind_Session | Kind_Audit

fun opaque_kind_of :: "int \<Rightarrow> opaque_frame_kind option" where
  "opaque_kind_of k = (if k = 1 then Some Kind_Session else if k = 2 then Some Kind_Audit else None)"

record relay_envelope =
  ve_major :: u32
  ve_mesh_id :: bytes
  ve_destination_peer :: bytes
  ve_source_peer :: bytes
  ve_kind :: int
  ve_opaque :: bytes

definition validate_common :: "relay_envelope \<Rightarrow> (unit, wire_error) outcome" where
  "validate_common e =
     (if ve_major e \<noteq> PROTOCOL_MAJOR then Err Wire_UnsupportedMajor
      else if length (ve_mesh_id e) \<noteq> 16 \<or> length (ve_destination_peer e) \<noteq> 16 then Err Wire_KindMismatch
      else if opaque_kind_of (ve_kind e) = None \<or> ve_opaque e = [] \<or> length (ve_opaque e) > MAX_OPAQUE_FRAME_LEN then Err Wire_InvalidLength
      else Ok ())"

definition validate_from_peer :: "relay_envelope \<Rightarrow> (unit, wire_error) outcome" where
  "validate_from_peer e = (if ve_source_peer e \<noteq> [] then Err Wire_KindMismatch else validate_common e)"

definition validate_for_relay :: "relay_envelope \<Rightarrow> (unit, wire_error) outcome" where
  "validate_for_relay e = (if length (ve_source_peer e) \<noteq> 16 then Err Wire_KindMismatch else validate_common e)"

definition bind_authenticated_source :: "bytes \<Rightarrow> relay_envelope \<Rightarrow> relay_envelope" where
  "bind_authenticated_source source e = e\<lparr>ve_source_peer := source\<rparr>"

section \<open>Records (records.rs)\<close>

datatype 'm wire_record = Control "'m control_envelope" | Ipv4 bytes | Ipv6 bytes

record 'm prost_env =
  pw_encode :: "'m control_envelope \<Rightarrow> bytes"
  pw_encoded_len :: "'m control_envelope \<Rightarrow> nat"
  pw_decode :: "bytes \<Rightarrow> 'm control_envelope option"

record 'n noise_env =
  nz_write :: "'n \<Rightarrow> bytes \<Rightarrow> nat \<Rightarrow> bytes option \<times> 'n"
  nz_read :: "'n \<Rightarrow> bytes \<Rightarrow> nat \<Rightarrow> bytes option \<times> 'n"

definition encode_plaintext :: "'m prost_env \<Rightarrow> 'm wire_record \<Rightarrow> (bytes, wire_error) outcome" where
  "encode_plaintext pb r =
     (let body_len = (case r of Control e \<Rightarrow> pw_encoded_len pb e | Ipv4 packet \<Rightarrow> length packet | Ipv6 packet \<Rightarrow> length packet) in
      case checked_add body_len 4 of
        None \<Rightarrow> Err Wire_InvalidLength
      | Some len \<Rightarrow>
          if len > MAX_CIPHERTEXT_LEN - 16 then Err Wire_InvalidLength
          else Ok (case r of
              Control e \<Rightarrow> to_be 2 1 @ to_be 2 0 @ pw_encode pb e
            | Ipv4 packet \<Rightarrow> to_be 2 2 @ to_be 2 0 @ packet
            | Ipv6 packet \<Rightarrow> to_be 2 3 @ to_be 2 0 @ packet))"

definition decode_control :: "'m prost_env \<Rightarrow> bytes \<Rightarrow> ('m wire_record, wire_error) outcome" where
  "decode_control pb payload =
     and_then (ok_or Wire_MalformedControl (pw_decode pb payload)) (\<lambda>e.
     if en_message e = None then Err Wire_KindMismatch
     else if pw_encode pb e \<noteq> payload then Err Wire_TrailingBytes
     else Ok (Control e))"

definition decode_plaintext :: "'m prost_env \<Rightarrow> bytes \<Rightarrow> ('m wire_record, wire_error) outcome" where
  "decode_plaintext pb plaintext =
     (if length plaintext < 4 then Err Wire_Truncated
      else slice_at plaintext 0 2 (\<lambda>kind. slice_at plaintext 2 4 (\<lambda>flags.
        if of_be flags \<noteq> 0 then Err Wire_Unsupported
        else slice_from plaintext 4 (\<lambda>payload.
          let kind = of_be kind in
          if kind = 1 then decode_control pb payload
          else if kind = 2 \<and> payload \<noteq> [] \<and> drop_bit 4 (hd payload) = 4 then Ok (Ipv4 payload)
          else if kind = 3 \<and> payload \<noteq> [] \<and> drop_bit 4 (hd payload) = 6 then Ok (Ipv6 payload)
          else if kind = 2 \<or> kind = 3 then Err Wire_KindMismatch
          else Err Wire_Unsupported))))"

record 'n stream_transport =
  wt_noise :: 'n
  wt_sent :: nat
  wt_received :: nat
  wt_epoch_started :: nat

text \<open>\<open>from_handshake\<close>, given the result of \<open>into_transport_mode\<close>.\<close>

definition from_handshake :: "'n option \<Rightarrow> nat \<Rightarrow> ('n stream_transport, wire_error) outcome" where
  "from_handshake transport_mode now =
     and_then (ok_or Wire_Noise transport_mode) (\<lambda>n.
     Ok \<lparr>wt_noise = n, wt_sent = 0, wt_received = 0, wt_epoch_started = now\<rparr>)"

definition stream_rekey_due :: "nat \<Rightarrow> 'n stream_transport \<Rightarrow> bool" where
  "stream_rekey_due now t \<longleftrightarrow> max (wt_sent t) (wt_received t) \<ge> REKEY_MESSAGES \<or> now - wt_epoch_started t \<ge> REKEY_SECONDS"

definition stream_hard_expired :: "nat \<Rightarrow> 'n stream_transport \<Rightarrow> bool" where
  "stream_hard_expired now t \<longleftrightarrow>
     max (wt_sent t) (wt_received t) \<ge> REKEY_HARD_MESSAGES \<or> now - wt_epoch_started t \<ge> REKEY_HARD_SECONDS"

definition stream_encode ::
    "'m prost_env \<Rightarrow> 'n noise_env \<Rightarrow> 'm wire_record \<Rightarrow> 'n stream_transport \<Rightarrow> (bytes, wire_error) outcome \<times> 'n stream_transport" where
  "stream_encode pb nz r t =
     (if wt_sent t \<ge> REKEY_HARD_MESSAGES then (Err Wire_RekeyRequired, t)
      else case encode_plaintext pb r of
        Err e \<Rightarrow> (Err e, t)
      | Abort \<Rightarrow> (Abort, t)
      | Ok plaintext \<Rightarrow>
          (let (written, n) = nz_write nz (wt_noise t) plaintext (length plaintext + 16);
               t = t\<lparr>wt_noise := n\<rparr>
           in case written of
                None \<Rightarrow> (Err Wire_Noise, t)
              | Some ciphertext \<Rightarrow>
                  if ciphertext = [] \<or> length ciphertext > MAX_CIPHERTEXT_LEN then (Err Wire_InvalidLength, t)
                  else case checked_add (wt_sent t) 1 of
                    None \<Rightarrow> (Err Wire_SequenceExhausted, t)
                  | Some sent \<Rightarrow>
                      (let t = t\<lparr>wt_sent := sent\<rparr>
                       in if length ciphertext \<ge> 2 ^ 32 then (Err Wire_InvalidLength, t)
                          else (Ok (to_be 4 (length ciphertext) @ ciphertext), t))))"

definition stream_decode ::
    "'m prost_env \<Rightarrow> 'n noise_env \<Rightarrow> bytes \<Rightarrow> 'n stream_transport \<Rightarrow> ('m wire_record, wire_error) outcome \<times> 'n stream_transport" where
  "stream_decode pb nz frame t =
     (if wt_received t \<ge> REKEY_HARD_MESSAGES then (Err Wire_RekeyRequired, t)
      else if length frame < 4 then (Err Wire_Truncated, t)
      else (let len = of_be (take 4 frame) in
        if len = 0 \<or> len > MAX_CIPHERTEXT_LEN then (Err Wire_InvalidLength, t)
        else case checked_add 4 len of
          None \<Rightarrow> (Err Wire_InvalidLength, t)
        | Some expected \<Rightarrow>
            if length frame < expected then (Err Wire_Truncated, t)
            else if length frame > expected then (Err Wire_TrailingBytes, t)
            else (let (plaintext, n) = nz_read nz (wt_noise t) (drop 4 frame) len;
                      t = t\<lparr>wt_noise := n\<rparr>
                  in case plaintext of
                       None \<Rightarrow> (Err Wire_Noise, t)
                     | Some plaintext \<Rightarrow>
                         (case checked_add (wt_received t) 1 of
                            None \<Rightarrow> (Err Wire_SequenceExhausted, t)
                          | Some received \<Rightarrow> (decode_plaintext pb plaintext, t\<lparr>wt_received := received\<rparr>)))))"

section \<open>The record transport of the carrier (carrier records.rs)\<close>

record 'n record_transport =
  xt_noise :: "'n stream_transport option"
  xt_sent :: nat
  xt_received :: nat
  xt_epoch :: nat
  xt_frame :: bytes
  xt_frame_read :: nat

definition transport_local :: "nat \<Rightarrow> 'n record_transport" where
  "transport_local now =
     \<lparr>xt_noise = None, xt_sent = 0, xt_received = 0, xt_epoch = now, xt_frame = replicate 4 0, xt_frame_read = 0\<rparr>"

definition transport_from :: "'n stream_transport \<Rightarrow> 'n record_transport" where
  "transport_from noise =
     \<lparr>xt_noise = Some noise, xt_sent = 0, xt_received = 0, xt_epoch = 0, xt_frame = replicate 4 0, xt_frame_read = 0\<rparr>"

definition transport_from_handshake :: "'n option \<Rightarrow> nat \<Rightarrow> ('n record_transport, wire_error) outcome" where
  "transport_from_handshake transport_mode now = and_then (from_handshake transport_mode now) (\<lambda>t. Ok (transport_from t))"

definition into_noise :: "'n record_transport \<Rightarrow> ('n stream_transport, wire_error) outcome" where
  "into_noise x = ok_or Wire_KindMismatch (xt_noise x)"

definition transport_rekey_due :: "nat \<Rightarrow> 'n record_transport \<Rightarrow> bool" where
  "transport_rekey_due now x =
     (case xt_noise x of
        None \<Rightarrow> max (xt_sent x) (xt_received x) \<ge> REKEY_MESSAGES \<or> now - xt_epoch x \<ge> REKEY_SECONDS
      | Some noise \<Rightarrow> stream_rekey_due now noise)"

definition transport_hard_expired :: "nat \<Rightarrow> 'n record_transport \<Rightarrow> bool" where
  "transport_hard_expired now x =
     (case xt_noise x of
        None \<Rightarrow> max (xt_sent x) (xt_received x) \<ge> REKEY_HARD_MESSAGES \<or> now - xt_epoch x \<ge> REKEY_HARD_SECONDS
      | Some noise \<Rightarrow> stream_hard_expired now noise)"

text \<open>\<open>b"PWLC"\<close>.\<close>

definition LOCAL_MAGIC :: bytes where "LOCAL_MAGIC = [0x50, 0x57, 0x4c, 0x43]"

definition encode_local :: "'m prost_env \<Rightarrow> 'm wire_record \<Rightarrow> (bytes, wire_error) outcome" where
  "encode_local pb r =
     (case r of
        Control e \<Rightarrow>
          (let bs = pw_encode pb e; len = length bs + 4 in
           if en_message e = None \<or> len > 65535 then Err Wire_InvalidLength
           else Ok (to_be 4 len @ LOCAL_MAGIC @ bs))
      | _ \<Rightarrow> Err Wire_KindMismatch)"

definition decode_local :: "'m prost_env \<Rightarrow> bytes \<Rightarrow> ('m wire_record, wire_error) outcome" where
  "decode_local pb frame =
     (if length frame < 9 \<or> length frame > 65539 then Err Wire_InvalidLength
      else slice_at frame 0 4 (\<lambda>prefix. slice_at frame 4 8 (\<lambda>magic. slice_from frame 8 (\<lambda>body.
        if of_be prefix + 4 \<noteq> length frame \<or> magic \<noteq> LOCAL_MAGIC then Err Wire_KindMismatch
        else and_then (ok_or Wire_MalformedControl (pw_decode pb body)) (\<lambda>e.
          if en_message e = None \<or> pw_encode pb e \<noteq> body then Err Wire_KindMismatch
          else Ok (Control e))))))"

definition transport_encode ::
    "'m prost_env \<Rightarrow> 'n noise_env \<Rightarrow> 'm wire_record \<Rightarrow> 'n record_transport \<Rightarrow> (bytes, wire_error) outcome \<times> 'n record_transport" where
  "transport_encode pb nz r x =
     (case xt_noise x of
        Some noise \<Rightarrow> (let (result, noise) = stream_encode pb nz r noise in (result, x\<lparr>xt_noise := Some noise\<rparr>))
      | None \<Rightarrow>
          if xt_sent x \<ge> REKEY_HARD_MESSAGES then (Err Wire_RekeyRequired, x)
          else case encode_local pb r of
            Ok frame \<Rightarrow> (Ok frame, x\<lparr>xt_sent := xt_sent x + 1\<rparr>)
          | failed \<Rightarrow> (failed, x))"

definition transport_decode ::
    "'m prost_env \<Rightarrow> 'n noise_env \<Rightarrow> bytes \<Rightarrow> 'n record_transport \<Rightarrow> ('m wire_record, wire_error) outcome \<times> 'n record_transport" where
  "transport_decode pb nz frame x =
     (case xt_noise x of
        Some noise \<Rightarrow> (let (result, noise) = stream_decode pb nz frame noise in (result, x\<lparr>xt_noise := Some noise\<rparr>))
      | None \<Rightarrow>
          if xt_received x \<ge> REKEY_HARD_MESSAGES then (Err Wire_RekeyRequired, x)
          else case decode_local pb frame of
            Ok r \<Rightarrow> (Ok r, x\<lparr>xt_received := xt_received x + 1\<rparr>)
          | failed \<Rightarrow> (failed, x))"

text \<open>
  A socket of \<open>tokio\<close> is the chunks that arrive, an empty chunk being the end of the stream.  A read
  into a buffer takes as much of the first chunk as fits, so shorter reads are the same bytes in more chunks, and every
  statement is about all ways to cut them.  When nothing has arrived the task waits, and may be cancelled there:
  \<open>Pending\<close>, with the reader as it is then.
\<close>

type_synonym socket = "bytes list"

datatype read_result = Frame bytes | Invalid_Record_Length | Unexpected_Eof | Pending | Reader_Panic

fun socket_read :: "nat \<Rightarrow> socket \<Rightarrow> (bytes \<times> socket) option" where
  "socket_read n [] = None"
| "socket_read n (chunk # rest) =
     Some (take n chunk, if drop n chunk = [] then rest else drop n chunk # rest)"

text \<open>
  One pass of the loop of \<open>read_frame\<close> up to the read: either a result, or the frame to read
  into.
\<close>

definition next_buffer :: "'n record_transport \<Rightarrow> read_result option \<times> 'n record_transport" where
  "next_buffer x =
     (if xt_frame_read x = length (xt_frame x) then
        (if length (xt_frame x) = 4 then
           (let len = of_be (take 4 (xt_frame x)) in
            if len = 0 \<or> len > 65535 then (Some Invalid_Record_Length, x)
            else (None, x\<lparr>xt_frame := xt_frame x @ replicate len 0\<rparr>))
         else (Some (Frame (xt_frame x)), x\<lparr>xt_frame_read := 0, xt_frame := replicate 4 0\<rparr>))
      else (None, x))"

function (sequential) read_frame :: "'n record_transport \<Rightarrow> socket \<Rightarrow> read_result \<times> 'n record_transport \<times> socket" where
  "read_frame x socket =
     (case next_buffer x of
        (Some result, x) \<Rightarrow> (result, x, socket)
      | (None, x) \<Rightarrow>
          if xt_frame_read x > length (xt_frame x) then (Reader_Panic, x, socket)
          else case socket_read (length (xt_frame x) - xt_frame_read x) socket of
            None \<Rightarrow> (Pending, x, socket)
          | Some (arrived, rest) \<Rightarrow>
              if arrived = [] then (Unexpected_Eof, x, rest)
              else read_frame (x\<lparr>xt_frame := splice (xt_frame x) (xt_frame_read x) arrived,
                                 xt_frame_read := xt_frame_read x + length arrived\<rparr>) rest)"
  by pat_completeness auto

lemma socket_read_shrinks:
  assumes "socket_read n socket = Some (arrived, rest)"
  shows "concat socket = arrived @ concat rest \<and> length arrived \<le> n"
proof (cases socket)
  case (Cons chunk others)
  then have r: "arrived = take n chunk" "rest = (if drop n chunk = [] then others else drop n chunk # others)" using assms by auto
  then have "concat rest = drop n chunk @ concat others" by simp
  then have "concat socket = arrived @ concat rest" using r(1) Cons by (metis append.assoc append_take_drop_id concat.simps(2))
  then show ?thesis using r(1) by simp
qed (use assms in simp)

termination read_frame
proof (relation "measure (\<lambda>(_, socket). length (concat socket))")
  fix x y :: "'n record_transport" and socket arrived rest p
  assume "socket_read (length (xt_frame y) - xt_frame_read y) socket = Some p" "(arrived, rest) = p" "arrived \<noteq> []"
  then have "concat socket = arrived @ concat rest" "arrived \<noteq> []" using socket_read_shrinks by metis+
  then show "((y\<lparr>xt_frame := splice (xt_frame y) (xt_frame_read y) arrived, xt_frame_read := xt_frame_read y + length arrived\<rparr>, rest),
      x, socket) \<in> measure (\<lambda>(_, socket). length (concat socket))" by simp
qed simp

declare read_frame.simps [simp del]

section \<open>The preface is canonical\<close>

definition preface_valid :: "(uuid \<Rightarrow> bool) \<Rightarrow> relay_preface \<Rightarrow> bool" where
  "preface_valid v4 p \<longleftrightarrow>
     length (px_mesh_id p) = 16 \<and> v4 (px_mesh_id p) \<and> length (px_target p) = 16 \<and> v4 (px_target p)
     \<and> (case px_source p of None \<Rightarrow> True | Some source \<Rightarrow> length source = 16 \<and> v4 source \<and> source \<noteq> px_target p)"

definition preface_bytes :: "relay_preface \<Rightarrow> bytes" where
  "preface_bytes p =
     PREFACE_MAGIC @ [4] @ [if px_source p \<noteq> None then 2 else 1] @ [0, 0] @ px_mesh_id p @ px_target p
       @ (case px_source p of None \<Rightarrow> replicate 16 0 | Some source \<Rightarrow> source)"

lemma splice_middle: "length a = i \<Longrightarrow> length src = length b \<Longrightarrow> splice (a @ b @ c) i src = a @ src @ c"
  by (simp add: splice_def)

lemma preface_encode_bytes:
  assumes "preface_valid v4 p"
  shows "preface_encode p = preface_bytes p"
proof -
  let ?kind = "if px_source p \<noteq> None then 2 else 1 :: u8"
  let ?head = "PREFACE_MAGIC @ [4, ?kind, 0, 0]"
  have start: "(splice (replicate 56 0) 0 PREFACE_MAGIC)[4 := 4, 5 := ?kind] = ?head @ replicate 16 0 @ replicate 32 0"
    by (simp add: splice_def PREFACE_MAGIC_def numeral_eq_Suc)
  have mesh: "splice (?head @ replicate 16 0 @ replicate 32 0) 8 (px_mesh_id p) = ?head @ px_mesh_id p @ replicate 32 0"
    using assms by (intro splice_middle) (simp_all add: preface_valid_def PREFACE_MAGIC_def)
  have split32: "replicate 32 (0 :: u8) = replicate 16 0 @ replicate 16 0" by (simp flip: replicate_add)
  have target: "splice (?head @ px_mesh_id p @ replicate 32 0) 24 (px_target p) = ?head @ px_mesh_id p @ px_target p @ replicate 16 0"
    using assms splice_middle [of "?head @ px_mesh_id p" 24 "px_target p" "replicate 16 0" "replicate 16 0"]
    by (simp add: preface_valid_def PREFACE_MAGIC_def split32)
  have source: "splice (?head @ px_mesh_id p @ px_target p @ replicate 16 0) 40 u = ?head @ px_mesh_id p @ px_target p @ u"
    if "length u = 16" for u
    using assms that splice_middle [of "?head @ px_mesh_id p @ px_target p" 40 u "replicate 16 0" "[]"]
    by (simp add: preface_valid_def PREFACE_MAGIC_def)
  show ?thesis
    unfolding preface_encode_def RELAY_PREFACE_LEN_def Let_def start mesh target preface_bytes_def
    using assms source by (auto simp: preface_valid_def split: option.splits)
qed

lemma preface_fields:
  assumes "length bs = 56"
  shows "bs = take 4 bs @ [bs ! 4] @ [bs ! 5] @ take 2 (drop 6 bs) @ take 16 (drop 8 bs) @ take 16 (drop 24 bs) @ drop 40 bs"
proof -
  have step: "drop i bs = take n (drop i bs) @ drop (i + n) bs" for i n by (metis append_take_drop_id drop_drop add.commute)
  have "bs = take 4 bs @ drop 4 bs" by simp
  also have "drop 4 bs = [bs ! 4] @ drop 5 bs" using assms Cons_nth_drop_Suc [of 4 bs] by simp
  also have "drop 5 bs = [bs ! 5] @ drop 6 bs" using assms Cons_nth_drop_Suc [of 5 bs] by simp
  also have "drop 6 bs = take 2 (drop 6 bs) @ drop 8 bs" using step [of 6 2] by simp
  also have "drop 8 bs = take 16 (drop 8 bs) @ drop 24 bs" using step [of 8 16] by simp
  also have "drop 24 bs = take 16 (drop 24 bs) @ drop 40 bs" using step [of 24 16] by simp
  finally show ?thesis .
qed

lemma fields_of_preface:
  assumes "length a = 4" and "length r = 2" and "length m = 16" and "length t = 16" and "length s = 16"
    and "bs = a @ [b] @ [k] @ r @ m @ t @ s"
  shows "length bs = 56 \<and> take 4 bs = a \<and> bs ! 4 = b \<and> bs ! 5 = k \<and> take 2 (drop 6 bs) = r \<and> take 16 (drop 8 bs) = m
    \<and> take 16 (drop 24 bs) = t \<and> drop 40 bs = s"
  using assms by (simp add: nth_append)

lemma preface_decode_read:
  assumes "length bs = 56"
  shows "preface_decode v4 bs =
     (if take 4 bs \<noteq> PREFACE_MAGIC \<or> bs ! 4 \<noteq> 4 then Err Wire_UnsupportedMajor
      else if take 2 (drop 6 bs) \<noteq> [0, 0] then Err Wire_Unsupported
      else if \<not> v4 (take 16 (drop 8 bs)) \<or> \<not> v4 (take 16 (drop 24 bs)) then Err Wire_KindMismatch
      else if bs ! 5 = 1 \<and> drop 40 bs = replicate 16 0
        then Ok \<lparr>px_mesh_id = take 16 (drop 8 bs), px_target = take 16 (drop 24 bs), px_source = None\<rparr>
      else if bs ! 5 = 2 \<and> v4 (drop 40 bs) \<and> drop 40 bs \<noteq> take 16 (drop 24 bs)
        then Ok \<lparr>px_mesh_id = take 16 (drop 8 bs), px_target = take 16 (drop 24 bs), px_source = Some (drop 40 bs)\<rparr>
      else Err Wire_KindMismatch)"
  using assms unfolding preface_decode_def preface_id_def preface_source_def RELAY_PREFACE_LEN_def
  by (simp add: slice_at_def slice_from_def byte_at_def cong: if_cong)

lemma preface_decode_iff: "preface_decode v4 bs = Ok p \<longleftrightarrow> preface_valid v4 p \<and> preface_encode p = bs"
proof
  assume ok: "preface_decode v4 bs = Ok p"
  then have len: "length bs = 56" by (auto simp: preface_decode_def RELAY_PREFACE_LEN_def split: if_splits)
  have f: "take 4 bs = PREFACE_MAGIC" "bs ! 4 = 4" "take 2 (drop 6 bs) = [0, 0]" "v4 (take 16 (drop 8 bs))" "v4 (take 16 (drop 24 bs))"
    using ok unfolding preface_decode_read [OF len] by (auto split: if_splits)
  have p: "bs ! 5 = 1 \<and> drop 40 bs = replicate 16 0 \<and> p = \<lparr>px_mesh_id = take 16 (drop 8 bs), px_target = take 16 (drop 24 bs), px_source = None\<rparr>
      \<or> bs ! 5 = 2 \<and> v4 (drop 40 bs) \<and> drop 40 bs \<noteq> take 16 (drop 24 bs)
        \<and> p = \<lparr>px_mesh_id = take 16 (drop 8 bs), px_target = take 16 (drop 24 bs), px_source = Some (drop 40 bs)\<rparr>"
    using ok unfolding preface_decode_read [OF len] by (auto split: if_splits)
  then have valid: "preface_valid v4 p" using f len by (auto simp: preface_valid_def)
  moreover have "preface_bytes p = bs"
    using p preface_fields [OF len] unfolding f(1-3) preface_bytes_def by auto
  ultimately show "preface_valid v4 p \<and> preface_encode p = bs" by (simp add: preface_encode_bytes)
next
  assume "preface_valid v4 p \<and> preface_encode p = bs"
  then have valid: "preface_valid v4 p" and bs: "bs = preface_bytes p" using preface_encode_bytes by auto
  have sizes: "length (px_mesh_id p) = 16" "length (px_target p) = 16"
      "length (case px_source p of None \<Rightarrow> replicate 16 0 | Some source \<Rightarrow> source) = 16"
    using valid by (auto simp: preface_valid_def split: option.splits)
  note f = fields_of_preface [OF _ _ sizes bs [unfolded preface_bytes_def], simplified PREFACE_MAGIC_def, simplified]
  show "preface_decode v4 bs = Ok p"
    using valid f by (cases p) (auto simp: preface_decode_read PREFACE_MAGIC_def preface_valid_def split: option.splits)
qed

section \<open>The frame reader\<close>

definition reader_ok :: "'n record_transport \<Rightarrow> bool" where
  "reader_ok x \<longleftrightarrow>
     (let len = of_be (take 4 (xt_frame x)) in
      length (xt_frame x) = 4 \<and> xt_frame_read x \<le> 4
      \<or> 4 \<le> xt_frame_read x \<and> xt_frame_read x \<le> length (xt_frame x) \<and> length (xt_frame x) = 4 + len \<and> 0 < len \<and> len \<le> 65535)"

definition buffered :: "'n record_transport \<Rightarrow> bytes" where
  "buffered x = take (xt_frame_read x) (xt_frame x)"

text \<open>What a stream of bytes starts with, irrespective of how it arrives.\<close>

definition first_frame :: "bytes \<Rightarrow> read_result" where
  "first_frame stream =
     (let len = of_be (take 4 stream) in
      if length stream < 4 then Pending
      else if len = 0 \<or> len > 65535 then Invalid_Record_Length
      else if length stream < 4 + len then Pending
      else Frame (take (4 + len) stream))"

fun frame_of :: "read_result \<Rightarrow> bytes" where
  "frame_of (Frame f) = f"
| "frame_of _ = []"

lemma next_buffer_result:
  assumes "reader_ok x" and "next_buffer x = (Some r, y)"
  shows "reader_ok y \<and> xt_noise y = xt_noise x \<and> r = first_frame (buffered x @ rest) \<and> buffered x = frame_of r @ buffered y \<and> r \<noteq> Pending"
proof -
  have full: "xt_frame_read x = length (xt_frame x)" using assms(2) by (simp add: next_buffer_def split: if_splits)
  then have b: "buffered x = xt_frame x" by (simp add: buffered_def)
  let ?len = "of_be (take 4 (xt_frame x))"
  have large: "length (xt_frame x) = 4 + ?len" "0 < ?len" "?len \<le> 65535" if "length (xt_frame x) \<noteq> 4"
    using assms(1) that by (auto simp: reader_ok_def Let_def)
  show ?thesis
  proof (cases "length (xt_frame x) = 4")
    case True
    then have "y = x" "r = Invalid_Record_Length" "?len = 0 \<or> ?len > 65535"
      using assms(2) full by (auto simp: next_buffer_def Let_def split: if_splits)
    then show ?thesis using assms(1) b True by (simp add: first_frame_def Let_def)
  next
    case False
    then have "y = x\<lparr>xt_frame_read := 0, xt_frame := replicate 4 0\<rparr>" "r = Frame (xt_frame x)"
      using assms(2) full by (auto simp: next_buffer_def)
    moreover have "first_frame (xt_frame x @ rest) = Frame (xt_frame x)"
      using large [OF False] by (simp add: first_frame_def Let_def)
    ultimately show ?thesis using b by (simp add: reader_ok_def buffered_def)
  qed
qed

lemma next_buffer_continue:
  assumes "reader_ok x" and "next_buffer x = (None, y)"
  shows "reader_ok y \<and> xt_noise y = xt_noise x \<and> buffered y = buffered x \<and> xt_frame_read y < length (xt_frame y) \<and> first_frame (buffered y) = Pending"
proof -
  let ?len = "of_be (take 4 (xt_frame x))"
  show ?thesis
  proof (cases "xt_frame_read x = length (xt_frame x)")
    case True
    then have four: "length (xt_frame x) = 4" "0 < ?len" "?len \<le> 65535" "y = x\<lparr>xt_frame := xt_frame x @ replicate ?len 0\<rparr>"
      using assms(2) by (auto simp: next_buffer_def Let_def split: if_splits)
    then show ?thesis using True by (simp add: reader_ok_def buffered_def first_frame_def Let_def)
  next
    case False
    then have y: "y = x" using assms(2) by (simp add: next_buffer_def)
    have "xt_frame_read x < length (xt_frame x)" using assms(1) False by (auto simp: reader_ok_def Let_def)
    moreover from this have "first_frame (buffered x) = Pending"
      using assms(1) by (auto simp: reader_ok_def first_frame_def buffered_def Let_def min_def)
    ultimately show ?thesis using y assms(1) by simp
  qed
qed

lemma read_keeps_ok:
  assumes "reader_ok x" and "xt_frame_read x + length arrived \<le> length (xt_frame x)"
  shows "reader_ok (x\<lparr>xt_frame := splice (xt_frame x) (xt_frame_read x) arrived, xt_frame_read := xt_frame_read x + length arrived\<rparr>)
    \<and> buffered (x\<lparr>xt_frame := splice (xt_frame x) (xt_frame_read x) arrived, xt_frame_read := xt_frame_read x + length arrived\<rparr>)
      = buffered x @ arrived"
proof -
  have "take 4 (splice (xt_frame x) (xt_frame_read x) arrived) = take 4 (xt_frame x)" if "4 \<le> xt_frame_read x"
    using that assms(2) by (simp add: splice_def min_def)
  moreover have "take (xt_frame_read x + length arrived) (splice (xt_frame x) (xt_frame_read x) arrived) = take (xt_frame_read x) (xt_frame x) @ arrived"
    using assms(2) by (simp add: splice_def min_absorb2)
  ultimately show ?thesis using assms by (auto simp: reader_ok_def buffered_def Let_def)
qed

lemma first_frame_append: "first_frame stream \<noteq> Pending \<Longrightarrow> first_frame (stream @ rest) = first_frame stream"
  by (auto simp: first_frame_def Let_def split: if_splits)

lemma socket_read_rest:
  assumes "socket_read n socket = Some (arrived, rest)" and "[] \<notin> set socket" and "0 < n"
  shows "[] \<notin> set rest \<and> arrived \<noteq> []"
  using assms by (cases socket) (auto split: if_splits)

text \<open>Reading depends on the bytes only, and none is lost when it waits, fails or is cancelled.\<close>

lemma read_frame_stream:
  assumes "reader_ok x" and "[] \<notin> set socket"
  shows "case read_frame x socket of (r, y, rest) \<Rightarrow>
     reader_ok y \<and> xt_noise y = xt_noise x \<and> [] \<notin> set rest \<and> r = first_frame (buffered x @ concat socket)
     \<and> frame_of r @ buffered y @ concat rest = buffered x @ concat socket \<and> (r = Pending \<longrightarrow> rest = [])"
  using assms
proof (induction x socket rule: read_frame.induct)
  case (1 x socket)
  obtain r y where n: "next_buffer x = (r, y)" by fastforce
  show ?case
  proof (cases r)
    case (Some result)
    note y = next_buffer_result [OF 1(2) n [unfolded Some], of "concat socket"]
    have eq: "read_frame x socket = (result, y, socket)" by (subst read_frame.simps) (simp add: n Some)
    have b: "buffered x = frame_of result @ buffered y" using y by blast
    have "frame_of result @ buffered y @ concat socket = buffered x @ concat socket" unfolding b by (simp only: append.assoc)
    then show ?thesis unfolding eq prod.case using y 1(3) by blast
  next
    case None
    note y = next_buffer_continue [OF 1(2) n [unfolded None]]
    show ?thesis
    proof (cases "socket_read (length (xt_frame y) - xt_frame_read y) socket")
      case no: None
      then have "socket = []" by (cases socket) simp_all
      then have eq: "read_frame x socket = (Pending, y, [])" using y by (subst read_frame.simps) (simp add: n None)
      have "first_frame (buffered x) = Pending" "buffered y = buffered x" using y by auto
      then show ?thesis unfolding eq using y \<open>socket = []\<close> by simp
    next
      case (Some p)
      obtain arrived rest where p: "p = (arrived, rest)" by fastforce
      have a: "concat socket = arrived @ concat rest" "length arrived \<le> length (xt_frame y) - xt_frame_read y" "[] \<notin> set rest" "arrived \<noteq> []"
        using socket_read_shrinks Some p socket_read_rest [of _ socket arrived rest] 1(3) y by auto
      let ?z = "y\<lparr>xt_frame := splice (xt_frame y) (xt_frame_read y) arrived, xt_frame_read := xt_frame_read y + length arrived\<rparr>"
      have z: "reader_ok ?z" "buffered ?z = buffered x @ arrived" using read_keeps_ok [of y arrived] y a(2) by auto
      have eq: "read_frame x socket = read_frame ?z rest"
        using n None y Some p a by (subst read_frame.simps) simp
      have "case read_frame ?z rest of (r, w, rest') \<Rightarrow>
         reader_ok w \<and> xt_noise w = xt_noise ?z \<and> [] \<notin> set rest' \<and> r = first_frame (buffered ?z @ concat rest)
         \<and> frame_of r @ buffered w @ concat rest' = buffered ?z @ concat rest \<and> (r = Pending \<longrightarrow> rest' = [])"
        by (rule 1(1) [OF n [symmetric, unfolded None]]) (use y Some p a z in auto)
      then show ?thesis unfolding eq z(2) using y a(1) by simp
    qed
  qed
qed

text \<open>
  A receiver that is woken for batches of chunks: after each batch it reads frames until it has to wait,
  and is cancelled there.
\<close>

fun drain :: "nat \<Rightarrow> 'n record_transport \<Rightarrow> socket \<Rightarrow> bytes list \<times> 'n record_transport \<times> socket" where
  "drain 0 x socket = ([], x, socket)"
| "drain (Suc n) x socket =
     (case read_frame x socket of
        (Frame f, x, socket) \<Rightarrow> (case drain n x socket of (fs, x, socket) \<Rightarrow> (f # fs, x, socket))
      | (_, x, socket) \<Rightarrow> ([], x, socket))"

fun receive_batches :: "nat \<Rightarrow> 'n record_transport \<Rightarrow> socket \<Rightarrow> socket list \<Rightarrow> bytes list" where
  "receive_batches n x socket [] = []"
| "receive_batches n x socket (batch # batches) =
     (case drain n x (socket @ batch) of (fs, x, socket) \<Rightarrow> fs @ receive_batches n x socket batches)"

definition well_framed :: "bytes \<Rightarrow> bool" where
  "well_framed f \<longleftrightarrow> (\<exists>body. f = to_be 4 (length body) @ body \<and> 0 < length body \<and> length body \<le> 65535)"

lemma first_frame_well_framed:
  assumes "well_framed f"
  shows "first_frame (f @ rest) = Frame f \<and> f \<noteq> []"
proof -
  obtain body where f: "f = to_be 4 (length body) @ body" "0 < length body" "length body \<le> 65535"
    using assms by (auto simp: well_framed_def)
  have "of_be (to_be 4 (length body)) = length body" using f(3) by (intro of_be_to_be) simp
  then show ?thesis using f by (auto simp: first_frame_def Let_def)
qed

lemma frame_prefix_pending:
  assumes "well_framed f" and "f = a @ b" and "b \<noteq> []"
  shows "first_frame a = Pending"
proof (rule ccontr)
  assume "first_frame a \<noteq> Pending"
  then have "first_frame a = Frame f" using first_frame_append [of a b] first_frame_well_framed [OF assms(1), of "[]"] assms(2) by simp
  then have "length f \<le> length a" by (auto simp: first_frame_def Let_def split: if_splits)
  then show False using assms(2,3) by simp
qed

text \<open>Every prefix of a sequence of frames is some of the frames and the beginning of the next.\<close>

lemma frames_prefix:
  assumes "list_all well_framed sent" and "concat sent = a @ b"
  shows "\<exists>fs rest partial. sent = fs @ rest \<and> a = concat fs @ partial \<and> partial @ b = concat rest \<and> first_frame partial = Pending"
  using assms
proof (induction sent arbitrary: a)
  case Nil
  then show ?case by (intro exI [of _ "[]"]) (simp add: first_frame_def)
next
  case (Cons f sent)
  show ?case
  proof (cases "length f \<le> length a")
    case True
    have "f @ concat sent = a @ b" using Cons.prems(2) by simp
    then obtain a' where a: "a = f @ a'" "concat sent = a' @ b"
      using True unfolding append_eq_append_conv2 by (auto simp: append_eq_append_conv2)
    then obtain fs rest partial where "sent = fs @ rest" "a' = concat fs @ partial" "partial @ b = concat rest" "first_frame partial = Pending"
      using Cons.IH [of a'] Cons.prems(1) by auto
    then show ?thesis using a(1) by (intro exI [of _ "f # fs"] exI [of _ rest] exI [of _ partial]) simp
  next
    case False
    have "f @ concat sent = a @ b" using Cons.prems(2) by simp
    then obtain c where c: "f = a @ c" "c \<noteq> []" using False unfolding append_eq_append_conv2 by auto
    then have "first_frame a = Pending" using frame_prefix_pending Cons.prems(1) by auto
    then show ?thesis using c Cons.prems(2) by (intro exI [of _ "[]"] exI [of _ "f # sent"] exI [of _ a]) simp
  qed
qed

lemma drain_frames:
  assumes "reader_ok x" and "[] \<notin> set socket" and "list_all well_framed fs" and "first_frame partial = Pending"
    and "buffered x @ concat socket = concat fs @ partial" and "length fs < n"
  shows "\<exists>y. drain n x socket = (fs, y, []) \<and> reader_ok y \<and> buffered y = partial"
  using assms
proof (induction fs arbitrary: n x socket)
  case Nil
  then obtain m where n: "n = Suc m" by (cases n) auto
  obtain r y rest where r: "read_frame x socket = (r, y, rest)" by (metis prod_cases3)
  have "r = Pending" "reader_ok y" "rest = []" "buffered y = partial"
    using read_frame_stream [OF Nil(1,2)] Nil(4,5) unfolding r by auto
  then show ?case using n r by simp
next
  case (Cons f fs)
  then obtain m where n: "n = Suc m" "length fs < m" by (cases n) auto
  obtain r y rest where r: "read_frame x socket = (r, y, rest)" by (metis prod_cases3)
  have stream: "buffered x @ concat socket = f @ concat fs @ partial" using Cons.prems(5) by simp
  have "r = Frame f"
    using read_frame_stream [OF Cons.prems(1,2)] first_frame_well_framed [of f] Cons.prems(3) unfolding r stream by simp
  moreover from this have y: "reader_ok y" "[] \<notin> set rest" "buffered y @ concat rest = concat fs @ partial"
    using read_frame_stream [OF Cons.prems(1,2)] unfolding r stream by auto
  moreover obtain z where "drain m y rest = (fs, z, [])" "reader_ok z" "buffered z = partial"
    using Cons.IH [OF y(1,2) _ Cons.prems(4) y(3) n(2)] Cons.prems(3) by auto
  ultimately show ?case using n(1) r by simp
qed

lemma receive_batches_frames:
  assumes "reader_ok x" and "\<forall>batch\<in>set batches. [] \<notin> set batch" and "list_all well_framed sent"
    and "first_frame (buffered x) = Pending" and "buffered x @ concat (concat batches) = concat sent" and "length sent < n"
  shows "receive_batches n x [] batches = sent"
  using assms
proof (induction batches arbitrary: x sent)
  case Nil
  then have "concat sent = buffered x" by simp
  then have "sent = []"
    using Nil.prems(3,4) first_frame_well_framed by (cases sent) (auto, metis read_result.distinct(5))
  then show ?case by simp
next
  case (Cons batch batches)
  obtain fs rest partial where f: "sent = fs @ rest" "buffered x @ concat batch = concat fs @ partial"
      "partial @ concat (concat batches) = concat rest" "first_frame partial = Pending"
    using frames_prefix [OF Cons.prems(3), of "buffered x @ concat batch" "concat (concat batches)"] Cons.prems(5) by auto
  obtain y where y: "drain n x batch = (fs, y, [])" "reader_ok y" "buffered y = partial"
    using drain_frames [OF Cons.prems(1) _ _ f(4,2), of n] Cons.prems(2,3,6) f(1) by auto
  have "receive_batches n y [] batches = rest"
    using Cons.IH [OF y(2)] Cons.prems(2,3,6) f y(3) by simp
  then show ?case using y(1) f(1) by simp
qed

section \<open>Records and their stream\<close>

text \<open>The documented behaviour of the generated codec on a record: decoding inverts encoding, and the length is known beforehand.\<close>

fun prost_laws :: "'m prost_env \<Rightarrow> 'm wire_record \<Rightarrow> bool" where
  "prost_laws pb (Control e) \<longleftrightarrow> pw_decode pb (pw_encode pb e) = Some e \<and> pw_encoded_len pb e = length (pw_encode pb e)"
| "prost_laws pb _ \<longleftrightarrow> True"

text \<open>A record that may be sent: it has a message, or a packet of its family, and fits.\<close>

fun record_body :: "'m prost_env \<Rightarrow> 'm wire_record \<Rightarrow> bytes" where
  "record_body pb (Control e) = pw_encode pb e"
| "record_body pb (Ipv4 packet) = packet"
| "record_body pb (Ipv6 packet) = packet"

fun record_kind :: "'m wire_record \<Rightarrow> nat" where
  "record_kind (Control _) = 1"
| "record_kind (Ipv4 _) = 2"
| "record_kind (Ipv6 _) = 3"

definition record_fits :: "'m prost_env \<Rightarrow> 'm wire_record \<Rightarrow> bool" where
  "record_fits pb r \<longleftrightarrow> length (record_body pb r) + 4 \<le> MAX_CIPHERTEXT_LEN - 16"

fun record_formed :: "'m wire_record \<Rightarrow> bool" where
  "record_formed (Control e) \<longleftrightarrow> en_message e \<noteq> None"
| "record_formed (Ipv4 packet) \<longleftrightarrow> packet \<noteq> [] \<and> drop_bit 4 (hd packet) = 4"
| "record_formed (Ipv6 packet) \<longleftrightarrow> packet \<noteq> [] \<and> drop_bit 4 (hd packet) = 6"

definition plaintext_of :: "'m prost_env \<Rightarrow> 'm wire_record \<Rightarrow> bytes" where
  "plaintext_of pb r = to_be 2 (record_kind r) @ to_be 2 0 @ record_body pb r"

lemma length_plaintext_of [simp]: "length (plaintext_of pb r) = length (record_body pb r) + 4"
  by (simp add: plaintext_of_def)

lemma encode_plaintext_eq:
  assumes "prost_laws pb r"
  shows "encode_plaintext pb r = (if record_fits pb r then Ok (plaintext_of pb r) else Err Wire_InvalidLength)"
proof -
  have len: "(case r of Control e \<Rightarrow> pw_encoded_len pb e | Ipv4 packet \<Rightarrow> length packet | Ipv6 packet \<Rightarrow> length packet) = length (record_body pb r)"
    using assms by (cases r) simp_all
  have body: "(case r of Control e \<Rightarrow> to_be 2 1 @ to_be 2 0 @ pw_encode pb e | Ipv4 packet \<Rightarrow> to_be 2 2 @ to_be 2 0 @ packet
      | Ipv6 packet \<Rightarrow> to_be 2 3 @ to_be 2 0 @ packet) = plaintext_of pb r"
    by (cases r) (simp_all add: plaintext_of_def)
  have "n + 4 \<le> 65519 \<Longrightarrow> n + 4 \<le> u64_max" for n by (simp add: u64_max_def)
  then show ?thesis
    unfolding encode_plaintext_def Let_def len body
    by (auto simp: record_fits_def MAX_CIPHERTEXT_LEN_def checked_add_def)
qed

lemma decode_plaintext_of:
  assumes "prost_laws pb r"
  shows "decode_plaintext pb (plaintext_of pb r) = (if record_formed r then Ok r else Err Wire_KindMismatch)"
proof -
  have two: "of_be (to_be 2 k) = k" if "k \<le> 3" for k using that by (intro of_be_to_be) simp
  have read: "decode_plaintext pb (to_be 2 k @ to_be 2 0 @ body) =
      (if k = 1 then decode_control pb body
       else if k = 2 \<and> body \<noteq> [] \<and> drop_bit 4 (hd body) = 4 then Ok (Ipv4 body)
       else if k = 3 \<and> body \<noteq> [] \<and> drop_bit 4 (hd body) = 6 then Ok (Ipv6 body)
       else if k = 2 \<or> k = 3 then Err Wire_KindMismatch else Err Wire_Unsupported)" if "k \<le> 3" for k body
    using that by (simp add: decode_plaintext_def slice_at_def slice_from_def Let_def two)
  show ?thesis
    unfolding plaintext_of_def using assms by (cases r) (auto simp: read decode_control_def)
qed

text \<open>What decodes is the plaintext of the record it decodes to.\<close>

lemma decode_plaintext_canonical:
  assumes "decode_plaintext pb bs = Ok r"
  shows "bs = plaintext_of pb r \<and> record_formed r"
proof -
  have len: "4 \<le> length bs" using assms by (simp add: decode_plaintext_def split: if_splits)
  have fields: "bs = take 2 bs @ take 2 (drop 2 bs) @ drop 4 bs"
    by (metis append.assoc append_take_drop_id drop_drop take_add one_add_one numeral_Bit0)
  have two: "to_be 2 (of_be x) = x" if "length x = 2" for x using to_be_of_be [of x] that by simp
  let ?k = "of_be (take 2 bs)"
  have flags: "of_be (take 2 (drop 2 bs)) = 0" and payload:
      "(if ?k = 1 then decode_control pb (drop 4 bs)
       else if ?k = 2 \<and> drop 4 bs \<noteq> [] \<and> drop_bit 4 (hd (drop 4 bs)) = 4 then Ok (Ipv4 (drop 4 bs))
       else if ?k = 3 \<and> drop 4 bs \<noteq> [] \<and> drop_bit 4 (hd (drop 4 bs)) = 6 then Ok (Ipv6 (drop 4 bs))
       else if ?k = 2 \<or> ?k = 3 then Err Wire_KindMismatch else Err Wire_Unsupported) = Ok r"
    using assms len by (simp_all add: decode_plaintext_def slice_at_def slice_from_def Let_def split: if_splits)
  have r: "?k = record_kind r \<and> drop 4 bs = record_body pb r \<and> record_formed r"
    using payload by (auto simp: decode_control_def and_then_Ok_iff split: if_splits)
  have "take 2 bs = to_be 2 (record_kind r)" "take 2 (drop 2 bs) = to_be 2 0"
    using two [of "take 2 bs"] two [of "take 2 (drop 2 bs)"] flags r len by simp_all
  then show ?thesis using fields r unfolding plaintext_of_def by metis
qed

text \<open>
  A Noise session in which exactly these plaintexts are sent.  Each is written in order, into a buffer with room for the
  tag; the reader accepts only the next ciphertext and is unchanged by anything else.
\<close>

fun noise_session :: "'n noise_env \<Rightarrow> 'n \<Rightarrow> 'n \<Rightarrow> bytes list \<Rightarrow> bool" where
  "noise_session nz s r [] \<longleftrightarrow> (\<forall>c m. nz_read nz r c m = (None, r))"
| "noise_session nz s r (p # ps) \<longleftrightarrow>
     (\<exists>c s' r'. nz_write nz s p (length p + 16) = (Some c, s') \<and> length c = length p + 16 \<and> nz_read nz r c (length c) = (Some p, r')
        \<and> (\<forall>c' m. c' \<noteq> c \<longrightarrow> nz_read nz r c' m = (None, r)) \<and> noise_session nz s' r' ps)"

fun stream_send :: "'m prost_env \<Rightarrow> 'n noise_env \<Rightarrow> 'm wire_record list \<Rightarrow> 'n stream_transport \<Rightarrow> (bytes, wire_error) outcome list" where
  "stream_send pb nz [] t = []"
| "stream_send pb nz (r # rs) t = (case stream_encode pb nz r t of (result, t) \<Rightarrow> result # stream_send pb nz rs t)"

fun stream_receive ::
    "'m prost_env \<Rightarrow> 'n noise_env \<Rightarrow> bytes list \<Rightarrow> 'n stream_transport \<Rightarrow> ('m wire_record, wire_error) outcome list" where
  "stream_receive pb nz [] t = []"
| "stream_receive pb nz (f # fs) t = (case stream_decode pb nz f t of (result, t) \<Rightarrow> result # stream_receive pb nz fs t)"

definition accepted :: "('a, 'e) outcome list \<Rightarrow> 'a list" where
  "accepted results = List.map_filter (\<lambda>x. case x of Ok r \<Rightarrow> Some r | _ \<Rightarrow> None) results"

lemma accepted_simps [simp]:
  "accepted [] = []" "accepted (Ok r # xs) = r # accepted xs" "accepted (Err e # xs) = accepted xs" "accepted (Abort # xs) = accepted xs"
  by (simp_all add: accepted_def map_filter_simps)

definition framed :: "bytes \<Rightarrow> bytes" where
  "framed c = to_be 4 (length c) @ c"

lemma stream_encode_next:
  assumes "prost_laws pb r" and "record_fits pb r" and "wt_sent t < REKEY_HARD_MESSAGES"
    and "nz_write nz (wt_noise t) (plaintext_of pb r) (length (plaintext_of pb r) + 16) = (Some c, n)"
    and "length c = length (plaintext_of pb r) + 16"
  shows "stream_encode pb nz r t = (Ok (framed c), t\<lparr>wt_noise := n, wt_sent := wt_sent t + 1\<rparr>) \<and> well_framed (framed c)"
proof -
  have len: "0 < length c" "length c \<le> 65535" using assms(2,5) by (simp_all add: record_fits_def MAX_CIPHERTEXT_LEN_def)
  moreover have "checked_add (wt_sent t) 1 = Some (wt_sent t + 1)" "\<not> REKEY_HARD_MESSAGES \<le> wt_sent t"
    using assms(3) by (simp_all add: REKEY_HARD_MESSAGES_def checked_add_def u64_max_def)
  moreover have "\<not> 4294967296 \<le> length c" using len(2) by simp
  ultimately show ?thesis
    using assms(1,2,4) encode_plaintext_eq [OF assms(1)]
    by (auto simp: stream_encode_def framed_def well_framed_def MAX_CIPHERTEXT_LEN_def)
qed

lemma framed_length: "length c \<le> 65535 \<Longrightarrow> of_be (take 4 (framed c)) = length c"
  by (simp add: framed_def of_be_to_be)

lemma stream_decode_framed:
  assumes "wt_received t < REKEY_HARD_MESSAGES" and "0 < length c" and "length c \<le> 65535"
  shows "stream_decode pb nz (framed c) t =
    (case nz_read nz (wt_noise t) c (length c) of
       (None, n) \<Rightarrow> (Err Wire_Noise, t\<lparr>wt_noise := n\<rparr>)
     | (Some plaintext, n) \<Rightarrow> (decode_plaintext pb plaintext, t\<lparr>wt_noise := n, wt_received := wt_received t + 1\<rparr>))"
proof -
  have "checked_add (wt_received t) 1 = Some (wt_received t + 1)" "\<not> REKEY_HARD_MESSAGES \<le> wt_received t"
    using assms(1) by (simp_all add: REKEY_HARD_MESSAGES_def checked_add_def u64_max_def)
  moreover have "checked_add 4 (length c) = Some (4 + length c)" using assms(3) by (simp add: checked_add_def u64_max_def)
  moreover have "length (framed c) = 4 + length c" "drop 4 (framed c) = c" by (simp_all add: framed_def)
  moreover have "\<not> MAX_CIPHERTEXT_LEN < length c" "length c \<noteq> 0" using assms(2,3) by (simp_all add: MAX_CIPHERTEXT_LEN_def)
  ultimately show ?thesis
    unfolding stream_decode_def framed_length [OF assms(3)] Let_def
    by (cases "nz_read nz (wt_noise t) c (length c)") (auto split: option.splits)
qed

lemma framed_iff:
  assumes "4 \<le> length g" and "length g = 4 + of_be (take 4 g)"
  shows "g = framed (drop 4 g)"
proof -
  have "to_be 4 (of_be (take 4 g)) = take 4 g" using to_be_of_be [of "take 4 g"] assms(1) by (simp add: min_absorb2)
  then show ?thesis unfolding framed_def using assms(2) by (metis add_diff_cancel_left' append_take_drop_id length_drop)
qed

lemma stream_decode_unframed:
  assumes "\<nexists>c. g = framed c \<and> 0 < length c \<and> length c \<le> 65535"
  shows "\<exists>e. stream_decode pb nz g t = (Err e, t)"
proof (cases "4 \<le> length g \<and> length g = 4 + of_be (take 4 g)")
  case True
  have g: "g = framed (drop 4 g)" using framed_iff True by blast
  have len: "length (drop 4 g) = of_be (take 4 g)" using True by simp
  have "of_be (take 4 g) = 0 \<or> of_be (take 4 g) > 65535" using assms g len by (metis linorder_not_less not_gr_zero)
  then show ?thesis using True by (simp add: stream_decode_def MAX_CIPHERTEXT_LEN_def Let_def)
next
  case False
  then show ?thesis
    by (auto simp: stream_decode_def Let_def MAX_CIPHERTEXT_LEN_def checked_add_def split: option.splits if_splits)
qed

lemma stream_delivers:
  assumes "\<forall>r\<in>set rs. prost_laws pb r \<and> record_fits pb r \<and> record_formed r"
    and "wt_sent ts + length rs \<le> REKEY_HARD_MESSAGES" and "wt_received tr + length rs \<le> REKEY_HARD_MESSAGES"
    and "noise_session nz (wt_noise ts) (wt_noise tr) (map (plaintext_of pb) rs)"
  shows "\<exists>fs. stream_send pb nz rs ts = map Ok fs \<and> list_all well_framed fs \<and> length fs = length rs \<and> stream_receive pb nz fs tr = map Ok rs"
  using assms
proof (induction rs arbitrary: ts tr)
  case Nil
  then show ?case by simp
next
  case (Cons r rs)
  obtain c s' r' where c: "nz_write nz (wt_noise ts) (plaintext_of pb r) (length (plaintext_of pb r) + 16) = (Some c, s')"
      "length c = length (plaintext_of pb r) + 16" "nz_read nz (wt_noise tr) c (length c) = (Some (plaintext_of pb r), r')"
      "noise_session nz s' r' (map (plaintext_of pb) rs)"
    using Cons.prems(4) by auto
  let ?ts = "ts\<lparr>wt_noise := s', wt_sent := wt_sent ts + 1\<rparr>" and ?tr = "tr\<lparr>wt_noise := r', wt_received := wt_received tr + 1\<rparr>"
  have fits: "record_fits pb r" "record_formed r" "prost_laws pb r" using Cons.prems(1) by simp_all
  have send: "stream_encode pb nz r ts = (Ok (framed c), ?ts)" "well_framed (framed c)"
    using stream_encode_next [OF fits(3,1) _ c(1,2)] Cons.prems(2) by simp_all
  have "length c \<le> 65535" "0 < length c" using c(2) fits(1) by (simp_all add: record_fits_def MAX_CIPHERTEXT_LEN_def)
  then have receive: "stream_decode pb nz (framed c) tr = (Ok r, ?tr)"
    using stream_decode_framed [of tr c pb nz] Cons.prems(3) c(3) decode_plaintext_of [OF fits(3)] fits(2) by simp
  obtain fs where "stream_send pb nz rs ?ts = map Ok fs" "list_all well_framed fs" "length fs = length rs" "stream_receive pb nz fs ?tr = map Ok rs"
    using Cons.IH [of ?ts ?tr] Cons.prems(1-3) c(4) by auto
  then show ?case using send receive by (intro exI [of _ "framed c # fs"]) simp
qed

lemma stream_expired_receives_none: "REKEY_HARD_MESSAGES \<le> wt_received t \<Longrightarrow> accepted (stream_receive pb nz gs t) = []"
  by (induction gs) (simp_all add: stream_decode_def)

lemma stream_accepts_in_order:
  assumes "\<forall>r\<in>set rs. prost_laws pb r" and "noise_session nz s (wt_noise t) (map (plaintext_of pb) rs)"
  shows "\<exists>k. accepted (stream_receive pb nz gs t) = filter record_formed (take k rs) \<and> k \<le> length rs"
  using assms
proof (induction gs arbitrary: t rs s)
  case Nil
  then show ?case by (intro exI [of _ 0]) simp
next
  case (Cons g gs)
  show ?case
  proof (cases "wt_received t < REKEY_HARD_MESSAGES \<and> (\<exists>c. g = framed c \<and> 0 < length c \<and> length c \<le> 65535)")
    case False
    have "REKEY_HARD_MESSAGES \<le> wt_received t \<or> (\<exists>e. stream_decode pb nz g t = (Err e, t))"
      using False stream_decode_unframed [of g pb nz t] by force
    then show ?thesis
    proof
      assume "REKEY_HARD_MESSAGES \<le> wt_received t"
      then show ?thesis using stream_expired_receives_none [of t pb nz "g # gs"] by (intro exI [of _ 0]) (simp del: stream_receive.simps)
    next
      assume "\<exists>e. stream_decode pb nz g t = (Err e, t)"
      then show ?thesis using Cons.IH [OF Cons.prems] by auto
    qed
  next
    case True
    then obtain c where c: "g = framed c" "0 < length c" "length c \<le> 65535" and count: "wt_received t < REKEY_HARD_MESSAGES" by blast
    note step = stream_decode_framed [OF count c(2,3), of pb nz]
    show ?thesis
    proof (cases rs)
      case Nil
      then have "nz_read nz (wt_noise t) c (length c) = (None, wt_noise t)" using Cons.prems(2) by simp
      then have "stream_decode pb nz g t = (Err Wire_Noise, t)" using step c(1) by simp
      then show ?thesis using Cons.IH [OF Cons.prems] by simp
    next
      case rs: (Cons r rest)
      obtain d s' r' where d: "nz_read nz (wt_noise t) d (length d) = (Some (plaintext_of pb r), r')"
          "\<forall>c' m. c' \<noteq> d \<longrightarrow> nz_read nz (wt_noise t) c' m = (None, wt_noise t)" "noise_session nz s' r' (map (plaintext_of pb) rest)"
        using Cons.prems(2) rs by auto
      show ?thesis
      proof (cases "c = d")
        case False
        then have "stream_decode pb nz g t = (Err Wire_Noise, t)" using step c(1) d(2) by simp
        then show ?thesis using Cons.IH [OF Cons.prems] by simp
      next
        case True
        let ?t = "t\<lparr>wt_noise := r', wt_received := wt_received t + 1\<rparr>"
        have dec: "stream_decode pb nz g t = (if record_formed r then Ok r else Err Wire_KindMismatch, ?t)"
          using step c(1) d(1) True decode_plaintext_of [of pb r] Cons.prems(1) rs by simp
        obtain k where "accepted (stream_receive pb nz gs ?t) = filter record_formed (take k rest)" "k \<le> length rest"
          using Cons.IH [of rest s' ?t] Cons.prems(1) rs d(3) by auto
        then show ?thesis using rs dec by (intro exI [of _ "Suc k"]) simp
      qed
    qed
  qed
qed

lemma stream_sends_bounded:
  "length (accepted (stream_send pb nz rs t)) \<le> REKEY_HARD_MESSAGES - wt_sent t"
proof (induction rs arbitrary: t)
  case Nil
  then show ?case by simp
next
  case (Cons r rs)
  obtain result t' where e: "stream_encode pb nz r t = (result, t')" by fastforce
  have "wt_sent t' = wt_sent t + 1 \<and> wt_sent t < REKEY_HARD_MESSAGES" if "result = Ok f" for f
    using e [unfolded that] by (auto simp: stream_encode_def Let_def checked_add_def split: if_splits outcome.splits option.splits prod.splits)
  moreover have "wt_sent t \<le> wt_sent t'"
    using e by (auto simp: stream_encode_def Let_def checked_add_def split: if_splits outcome.splits option.splits prod.splits)
  ultimately show ?case using Cons.IH [of t'] e by (cases result) auto
qed

section \<open>Properties\<close>

text \<open>The preface is canonical and bound.  A byte string is accepted as the routing preface of a connection exactly when
  it is the encoding of that preface, whose identifiers are random and whose source is not its target; decoding never
  panics.  Two accepted prefaces with the same Noise prologue are equal, so parties whose handshakes agree agree on the
  Mesh, the target and the source.
\<close>

theorem preface_canonical:
  "preface_decode v4 bs \<noteq> Abort
   \<and> (preface_decode v4 bs = Ok p \<longleftrightarrow> preface_valid v4 p \<and> preface_encode p = bs)
   \<and> (preface_valid v4 p \<and> preface_valid v4 q \<and> preface_prologue p = preface_prologue q \<longrightarrow> p = q)"
proof -
  have "preface_decode v4 bs \<noteq> Abort"
    by (cases "length bs = 56") (simp_all add: preface_decode_read, simp add: preface_decode_def RELAY_PREFACE_LEN_def)
  moreover have "p = q" if "preface_valid v4 p" "preface_valid v4 q" "preface_prologue p = preface_prologue q"
  proof -
    have "preface_encode p = preface_encode q" using that(3) by (simp add: preface_prologue_def)
    then show ?thesis using that(1,2) preface_decode_iff by (metis outcome.inject(1))
  qed
  ultimately show ?thesis using preface_decode_iff by blast
qed

theorem preface_canonical_witness:
  "preface_decode (\<lambda>u. u ! 6 = 64) (preface_encode \<lparr>px_mesh_id = replicate 16 64, px_target = replicate 6 1 @ replicate 10 64, px_source = None\<rparr>)
    = Ok \<lparr>px_mesh_id = replicate 16 64, px_target = replicate 6 1 @ replicate 10 64, px_source = None\<rparr>"
proof -
  have "preface_valid (\<lambda>u. u ! 6 = 64) \<lparr>px_mesh_id = replicate 16 64, px_target = replicate 6 1 @ replicate 10 64, px_source = None\<rparr>" by code_simp
  then show ?thesis using preface_canonical by blast
qed

text \<open>(C40) Reading frames survives cancellation.  However the bytes of well-formed frames are cut into chunks, and however often a
  reader is cancelled while it waits for the next chunk and resumed later, it returns exactly these frames, in order; and
  each single read returns what the bytes buffered so far and those arriving begin with: a frame, an invalid length, or
  nothing yet, in which case no byte is lost.
\<close>

theorem frames_survive_cancellation:
  assumes "\<forall>batch\<in>set batches. [] \<notin> set batch" and "list_all well_framed sent" and "concat (concat batches) = concat sent"
    and "length sent < n"
  shows "receive_batches n (transport_from t) [] batches = sent
    \<and> (reader_ok x \<and> [] \<notin> set socket \<longrightarrow>
        (case read_frame x socket of (r, y, rest) \<Rightarrow>
          reader_ok y \<and> r = first_frame (buffered x @ concat socket) \<and> frame_of r @ buffered y @ concat rest = buffered x @ concat socket))"
proof -
  have "reader_ok (transport_from t)" "buffered (transport_from t) = []" by (simp_all add: transport_from_def reader_ok_def buffered_def)
  then have "receive_batches n (transport_from t) [] batches = sent"
    using receive_batches_frames [of "transport_from t" batches sent n] assms by (simp add: first_frame_def)
  then show ?thesis using read_frame_stream [of x socket] by auto
qed

text \<open>Three frames of two bytes in chunks that respect no boundary, with a cancellation after the first.\<close>

theorem frames_survive_cancellation_witness:
  "receive_batches 4 (transport_from \<lparr>wt_noise = (), wt_sent = 0, wt_received = 0, wt_epoch_started = 0\<rparr>) []
     [[[0, 0], [0]], [[2, 7, 7, 0, 0, 0, 2, 8]], [[8], [0, 0, 0, 2, 9, 9]]]
   = [[0, 0, 0, 2, 7, 7], [0, 0, 0, 2, 8, 8], [0, 0, 0, 2, 9, 9]]"
proof -
  have "well_framed [0, 0, 0, 2, a, b]" for a b
    unfolding well_framed_def by (rule exI [of _ "[a, b]"]) (simp add: to_be_numeral)
  then show ?thesis
    by (intro conjunct1 [OF frames_survive_cancellation [where x = "transport_from \<lparr>wt_noise = (), wt_sent = 0, wt_received = 0, wt_epoch_started = 0\<rparr>" and socket = "[]"]]) simp_all
qed

text \<open>(C23) The record stream.  Given a Noise session in which exactly the plaintexts of these records are sent, and its codec:
  if the records fit and are formed and the key's hard limit is not reached, every record is encoded, the frames decode to
  these records in order, and they do so through the carrier's reader however they are cut and the reader cancelled.
  Whatever frames reach the receiver instead, forged, replayed, dropped or reordered, the records it accepts are the formed
  ones among the first records sent, in order, each once; and no key encrypts more than the hard limit of messages.
\<close>

theorem record_stream_sound:
  assumes "\<forall>r\<in>set rs. prost_laws pb r" and "noise_session nz (wt_noise ts) (wt_noise tr) (map (plaintext_of pb) rs)"
  shows "((\<forall>r\<in>set rs. record_fits pb r \<and> record_formed r) \<and> wt_sent ts = 0 \<and> wt_received tr = 0 \<and> length rs \<le> REKEY_HARD_MESSAGES \<longrightarrow>
      (\<exists>fs. stream_send pb nz rs ts = map Ok fs
         \<and> (\<forall>batches n. (\<forall>batch\<in>set batches. [] \<notin> set batch) \<and> concat (concat batches) = concat fs \<and> length fs < n \<longrightarrow>
              stream_receive pb nz (receive_batches n (transport_from tr) [] batches) tr = map Ok rs)))
    \<and> (\<exists>k\<le>length rs. accepted (stream_receive pb nz gs tr) = filter record_formed (take k rs))
    \<and> length (accepted (stream_send pb nz rs' ts)) \<le> REKEY_HARD_MESSAGES"
proof -
  have live: "\<exists>fs. stream_send pb nz rs ts = map Ok fs
         \<and> (\<forall>batches n. (\<forall>batch\<in>set batches. [] \<notin> set batch) \<and> concat (concat batches) = concat fs \<and> length fs < n \<longrightarrow>
              stream_receive pb nz (receive_batches n (transport_from tr) [] batches) tr = map Ok rs)"
    if fits: "\<forall>r\<in>set rs. record_fits pb r \<and> record_formed r" "wt_sent ts = 0" "wt_received tr = 0" "length rs \<le> REKEY_HARD_MESSAGES"
  proof -
    obtain fs where fs: "stream_send pb nz rs ts = map Ok fs" "list_all well_framed fs" "stream_receive pb nz fs tr = map Ok rs"
      using stream_delivers [of rs pb ts tr nz] assms fits by auto
    have "receive_batches n (transport_from tr) [] batches = fs"
      if "\<forall>batch\<in>set batches. [] \<notin> set batch" "concat (concat batches) = concat fs" "length fs < n" for batches n
      using receive_batches_frames [of "transport_from tr" batches fs n] that fs(2)
      by (simp add: transport_from_def reader_ok_def buffered_def first_frame_def)
    then show ?thesis using fs(1,3) by (intro exI [of _ fs]) simp
  qed
  obtain k where "accepted (stream_receive pb nz gs tr) = filter record_formed (take k rs)" "k \<le> length rs"
    using stream_accepts_in_order [OF assms] by blast
  moreover have "length (accepted (stream_send pb nz rs' ts)) \<le> REKEY_HARD_MESSAGES"
    using stream_sends_bounded [of pb nz rs' ts] by linarith
  ultimately show ?thesis using live by blast
qed

text \<open>
  A session for the witness: the reader holds the plaintexts it expects, and the tag is constant.
\<close>

definition sample_noise :: "bytes list noise_env" where
  "sample_noise = \<lparr>nz_write = (\<lambda>s p m. (if length p + 16 \<le> m then Some (p @ replicate 16 0) else None, s)),
     nz_read = (\<lambda>r c m. case r of [] \<Rightarrow> (None, r) | p # ps \<Rightarrow> if c = p @ replicate 16 0 then (Some p, ps) else (None, r))\<rparr>"

definition sample_codec :: "unit prost_env" where
  "sample_codec = \<lparr>pw_encode = (\<lambda>_. [10]), pw_encoded_len = (\<lambda>_. 1), pw_decode = (\<lambda>bs. Some \<lparr>en_message = Some (), en_trace_context = None\<rparr>)\<rparr>"

definition sample_records :: "unit wire_record list" where
  "sample_records = [Control \<lparr>en_message = Some (), en_trace_context = None\<rparr>, Ipv4 [0x45, 0]]"

lemma sample_noise_session: "noise_session sample_noise [] ps ps"
  by (induction ps) (simp_all add: sample_noise_def)

theorem record_stream_sound_witness:
  "\<exists>fs. stream_send sample_codec sample_noise sample_records \<lparr>wt_noise = [], wt_sent = 0, wt_received = 0, wt_epoch_started = 0\<rparr> = map Ok fs"
proof -
  let ?ts = "\<lparr>wt_noise = [], wt_sent = 0, wt_received = 0, wt_epoch_started = 0\<rparr>"
  let ?tr = "?ts\<lparr>wt_noise := map (plaintext_of sample_codec) sample_records\<rparr>"
  have laws: "\<forall>r\<in>set sample_records. prost_laws sample_codec r" by (simp add: sample_records_def sample_codec_def)
  have session: "noise_session sample_noise (wt_noise ?ts) (wt_noise ?tr) (map (plaintext_of sample_codec) sample_records)"
    using sample_noise_session by simp
  have "drop_bit 4 (0x45 :: u8) = 4" by simp
  then have "\<forall>r\<in>set sample_records. record_fits sample_codec r \<and> record_formed r" "length sample_records \<le> REKEY_HARD_MESSAGES"
    by (simp_all add: sample_records_def sample_codec_def record_fits_def MAX_CIPHERTEXT_LEN_def REKEY_HARD_MESSAGES_def)
  then show ?thesis using conjunct1 [OF record_stream_sound [OF laws session]] by auto
qed

end
