(* ===== verification/Spec2Isabelle.thy ===== *)
theory Spec2Isabelle
  imports Firewall Reassembly CarrierFragments PolicyEvaluator PresenceCache RelayTopology
    TrustSet IdentityProofs DirectorySigning RelayPool RelayRouter PeerRuntime GatewaySelection WireRecords
begin

text \<open>
  A verification library for Peerward, a self-hosted private mesh.  Peers exchange IP packets
  through WireGuard tunnels, directly or over Relays.  An offline Root key certifies Authorities;
  Authorities issue credentials to Peers and Relays and bind the key that signs directories,
  policies, Relay topologies, revocations, configuration manifests and leases.  Relays admit Peers
  by credential, fence their attachments by database generations, forward control messages and
  ciphertext, and tell each other who is attached where.  Peers filter the packets that leave the
  tunnel by the distributed policy, as long as their lease lasts.  A signed configuration names
  networks behind gateway Peers, who may reach them and which devices are admitted; a Peer captures
  their routes, selects gateways by their health and resolves names by the managed DNS profiles.

  \<^bold>\<open>Parts, theories and sources\<close> (paths under \<open>crates/\<close>).

  \<^item> \<open>Prelude\<close>: machine integers, the \<open>outcome\<close> of a fallible call (\<open>Ok\<close>, \<open>Err\<close>,
    \<open>Abort\<close> for a panic), byte slices, \<open>HashMap\<close>, \<open>BTreeMap\<close>, \<open>BTreeSet\<close>, and the
    locale of a table with deadlines.  \<open>Fence\<close>: locales for generation fences, states that only
    move up, and identifiers handed out by a counter.  \<open>PrefixCode\<close>: the locale of an encoding
    that can be stripped in one way only.
  \<^item> \<open>Packet\<close>: the IPv4 and IPv6 parser, \<open>peerward-dataplane/src/parse.rs\<close>.  \<open>Firewall\<close>:
    the sharded stateful firewall, \<open>firewall.rs\<close>; shards, flow and fragment states and their
    expiration indexes are records, \<open>evaluate\<close>, \<open>replace\<close>, \<open>invalidate\<close> and
    \<open>forget_flow\<close> are functions from firewall to firewall.  \<open>Reassembly\<close>: the fragment
    reassembler, \<open>reassembly.rs\<close>.
  \<^item> \<open>CarrierFragments\<close>: ciphertext fragments of the QUIC carrier,
    \<open>peerward-carrier/src/fragments.rs\<close>, with shared byte budgets and the bitmap of retired
    frame identifiers.
  \<^item> \<open>PolicyDocument\<close>, \<open>PolicyEvaluator\<close>: rules, selectors, evaluation order, canonical bytes
    and the stateful evaluator of \<open>peerward-policy/src/document.rs\<close> and \<open>evaluator.rs\<close>.
  \<^item> \<open>Credentials\<close>, \<open>TrustSet\<close>, \<open>IdentityProofs\<close>: certificates, subject credentials,
    Authority bundles, the trust set of a process, Mesh terminations, join claims and rotation
    proofs of \<open>peerward-credentials/src\<close>.
  \<^item> \<open>DirectoryChunks\<close>, \<open>RelayTopology\<close>, \<open>DirectorySigning\<close>: chunked distribution of a
    revision, construction of and routing in the Relay graph, and the signed objects of
    \<open>peerward-directory/src\<close>.
  \<^item> \<open>LeaseClock\<close>: manifests, leases and the clock of \<open>peerward-management/src/leases.rs\<close>.
  \<^item> \<open>PresenceCache\<close>, \<open>RelayRouter\<close>: the presence cache, the credential gate and the router
    of control messages in \<open>peerward-relay/src/relay\<close>
    (\<open>presence_cache.rs\<close>, \<open>protocol.rs\<close>, \<open>routing.rs\<close>).
  \<^item> \<open>RelayPool\<close>: the Peer's pool of Relay connections,
    \<open>peerward-peer-core/src/relay_pool.rs\<close>.  \<open>PeerRuntime\<close>: the phases of its runtime,
    \<open>runtime.rs\<close>, one transition per event.  \<open>Coordination\<close>: the messages Peers exchange
    inside the tunnel and their IP packets, \<open>coordination.rs\<close>.
  \<^item> \<open>ManagementResources\<close>, \<open>ResourcePolicy\<close>, \<open>DeviceConditions\<close>, \<open>ManagedDns\<close>,
    \<open>ResourceConfiguration\<close>, \<open>GatewaySelection\<close>: the management documents of
    \<open>peerward-management/src\<close>: targets, bindings, selectors and automatic approval
    (\<open>resources.rs\<close>, \<open>internet_addresses.rs\<close>, \<open>target_health.rs\<close>, \<open>addresses.rs\<close>,
    \<open>auto_approval.rs\<close>); \<open>collections.rs\<close> and \<open>resource_policy.rs\<close>;
    \<open>device_conditions.rs\<close>; \<open>dns.rs\<close>; \<open>configuration.rs\<close> and
    \<open>client_network.rs\<close>; \<open>selection.rs\<close> and \<open>preferences.rs\<close>.
  \<^item> \<open>Correlation\<close>: request and trace contexts, \<open>peerward-types/src/correlation.rs\<close> and
    \<open>peerward-wire/src/control.rs\<close>.  \<open>WireRecords\<close>: Relay prefaces, envelopes and the
    encrypted record stream of \<open>peerward-wire/src\<close> (\<open>relay_preface.rs\<close>, \<open>transport.rs\<close>,
    \<open>session.rs\<close>, \<open>records.rs\<close>) and the carrier's resumable frame reader,
    \<open>peerward-carrier/src/records.rs\<close>.

  \<^bold>\<open>Correspondence.\<close>  A struct is a record, an enum a datatype, a method a definition named
  after it (with the component's name in front where the name is taken) that takes the state and
  returns the result with the new state; early returns, \<open>?\<close>, checked arithmetic and panics are
  branches.  Bytes and 16-bit and 32-bit fields are words; \<open>u64\<close> and \<open>usize\<close> values are
  natural numbers with the saturating and checked operations of the code; \<open>i64\<close> generations are
  integers.

  \<^bold>\<open>Parameters.\<close>  Code outside the repository is an argument: Ed25519, X25519 and the UUID
  version check (\<open>crypto_env\<close>), JSON, SHA-256 and the range of \<open>Instant\<close> (\<open>lease_env\<close>),
  CIDR parsing and matching (the environments of \<open>Firewall\<close> and \<open>PolicyDocument\<close>, and
  \<open>net_env\<close> with the laws \<open>cidr_laws\<close>), versions (\<open>semver_env\<close>, \<open>semver_laws\<close>), the
  JSON of a configuration (\<open>delivery_env\<close>, \<open>digests_bind\<close>: digests do not collide), Noise
  transport states and the codec of control envelopes (\<open>noise_env\<close>, \<open>prost_env\<close>, with
  \<open>noise_session\<close>: the reader accepts the next ciphertext of the writer only),
  timestamps (\<open>relay_env\<close>), the hash that selects a firewall shard, and endpoint parsing.  What
  a theorem assumes of them is a named hypothesis: \<open>signing_laws\<close> (a signature made with a seed
  verifies under its public key) and the histories \<open>signatures_from\<close> and
  \<open>distribution_history\<close> (what verifies under a key was signed with it, by the parties that hold
  it) and \<open>identity_signed\<close> (the same of one presented signature, so that it can be assumed
  together with \<open>signing_laws\<close>), with witnesses that exhibit instances.

  \<^bold>\<open>What is shown.\<close>  The parser never leaves its input and accepts well-formed packets only.
  Over every history, a packet the firewall or the evaluator lets through is allowed by the policy
  now or belongs to a flow it allowed since the last replacement; indexes are exact and tables
  bounded.  Reassembled datagrams and frames are made of what was submitted, without overlap,
  once.  Policies decode only from their canonical bytes and are decided in rule order.  Trust
  reaches from the Root to every accepted subject, directory and command, moves forward only and
  can be rotated; what verifies was published in every field, for its purpose.  Leases authorise
  fail-closed and until they end.  Chunks and presence converge in any order of arrival; released
  and superseded generations never come back, in the cache, the router and the pool.  Next hops in
  the Relay graph are cheapest routes and the graph stays connected.  The pool never gets stuck,
  retries a failing slot in time and over its endpoints in turn, and rejects late results.  The runtime reports a healthy connection
  exactly after the events that establish one, and late callbacks never reopen it.  Coordination
  messages decode from their own encoding only and arrive through the packet parser.  A resource is
  reached only by a rule and an approved binding that name it, whatever the names of its address;
  Internet grants stop at local addresses; an emergency restriction admits no one new; an accepted
  configuration is consistent; captured routes do not depend on health or approval; gateways,
  DNS routes and local answers are the ones the documents promise.  Records arrive in order through
  any cutting of the byte stream and any cancellation, and no forged or replayed frame is accepted.  The theorem below joins gate, trust,
  router and directory.

  \<^bold>\<open>Termination and bounds.\<close>  Every definition is total.  Loops over a table or a list recurse on
  it; the expiration loops recurse on a budget of the table's size, which the lemmas show to
  suffice, and the search of the Relay graph on the number of hops, at most four, as in the code.
  Sizes are the constants of the sources.

  \<^bold>\<open>Not modelled.\<close>  QUIC and WebSocket transports, sealed audit batches and root recovery (compositions
  of third-party primitives), the WireGuard engine and the
  tasks that connect the parts; SQL and HTTP in the store and the control service; JSON codecs;
  user interfaces, command line, updater, service and platform code; the Peer's checkpoints and
  policy updates; enrolment, webhooks and Peer commands of the management interface.  They are I/O,
  generated code or calls of libraries around the parts above, or documents whose checks are
  field by field.
\<close>

section \<open>Admission to a Relay, end to end\<close>

lemma published_listing:
  assumes "distribution_history env parse key d" "lists_peer env key mesh events peer s"
    and "\<forall>u. Router_Directory u \<in> set events \<longrightarrow> list_all (\<lambda>s. entry_formed (sp_entry s)) (pd_entries (sd_directory u))"
  shows "sp_entry s \<in> dh_entries d \<and> pe_mesh_id (sp_entry s) = mesh \<and> pe_peer_id (sp_entry s) = peer \<and> pe_enabled (sp_entry s)"
proof -
  obtain u accepted where u: "Router_Directory u \<in> set events" "verify_peers env key u mesh accepted = Ok ()"
      "s \<in> set (pd_entries (sd_directory u))" and s: "pe_enabled (sp_entry s)" "pe_peer_id (sp_entry s) = peer"
    using assms(2) by (auto simp: lists_peer_def)
  have "verify_peer env key s mesh = Ok ()" "entry_formed (sp_entry s)"
    using u assms(3) by (auto simp: verify_peers_iff Let_def list_all_iff)
  then show ?thesis using verified_entry [OF assms(1)] s by blast
qed

text \<open>(C3) From the Root to a delivered message.  Let the Root key sign only certified Authorities and the
  distribution key only published objects.  Whatever a trust set anchored in that Root and the gate
  of a Relay built on it have seen of bundles, revocations and admission lists, a Peer it admits holds a credential that a certified Authority of the
  Mesh, valid now, issued in every field to that Peer for the static key of its session.  And
  whatever the router has seen, a Peer that receives a control message, or sends one at a generation
  it names, does so as primary at the fenced generation of its attachment, under an unrevoked serial that an
  enabled entry published for that Peer and this Mesh lists.  A message that enters a queue in any
  way, from an authenticated link or another Relay included, has a source that a published enabled
  entry of this Mesh names, and a destination that holds such an attachment.
\<close>

theorem relay_end_to_end:
  assumes root: "signatures_from env root h" and distribution: "distribution_history env parse key d"
    and gate: "(trust_step env)\<^sup>*\<^sup>* (trust_new root mesh) trust" "(gate_step env)\<^sup>*\<^sup>* (gate_new trust) g"
    and router: "router_new mesh relay key capacity = Ok r0" "router_run env r0 events log r"
    and formed: "\<forall>u. Router_Directory u \<in> set events \<longrightarrow> list_all (\<lambda>s. entry_formed (sp_entry s)) (pd_entries (sd_directory u))"
  shows "(credential_typed c \<and> gate_peer env c noise now g = Ok peer \<longrightarrow>
      (\<exists>a\<in>sh_certified h. subject_unsigned c \<in> sh_issued h a \<and> ua_mesh_id a = mesh \<and> sc_mesh_id c = mesh
         \<and> ua_not_before a \<le> now \<and> now < ua_not_after a \<and> sc_not_before c \<le> now \<and> now < sc_not_after c
         \<and> sc_subject c = Subject_Peer peer \<and> sc_public_noise_key c = noise))
    \<and> (fst (receive_control peer generation r) = Ok x
         \<or> fst (route_control routed r) = Ok () \<and> rt_source routed = peer \<and> rt_generation routed = generation \<longrightarrow>
       (\<exists>a. \<exists>e\<in>dh_entries d. attached_at r peer generation a \<and> pe_mesh_id e = mesh \<and> pe_peer_id e = peer \<and> pe_enabled e
          \<and> at_credential_serial a \<in> insert (pe_credential_serial e) (pb_serial ` set (pe_accepted_credentials e))))
    \<and> (routes routed r \<longrightarrow>
       (\<exists>e\<in>dh_entries d. pe_mesh_id e = mesh \<and> pe_peer_id e = rt_source routed \<and> pe_enabled e)
       \<and> (\<exists>a. \<exists>e\<in>dh_entries d. attached_at r (rt_destination routed) (at_generation a) a
            \<and> pe_mesh_id e = mesh \<and> pe_peer_id e = rt_destination routed \<and> pe_enabled e
            \<and> at_credential_serial a \<in> insert (pe_credential_serial e) (pb_serial ` set (pe_accepted_credentials e))))"
proof -
  have first: "\<exists>a\<in>sh_certified h. subject_unsigned c \<in> sh_issued h a \<and> ua_mesh_id a = mesh \<and> sc_mesh_id c = mesh
         \<and> ua_not_before a \<le> now \<and> now < ua_not_after a \<and> sc_not_before c \<le> now \<and> now < sc_not_after c
         \<and> sc_subject c = Subject_Peer peer \<and> sc_public_noise_key c = noise"
    if c: "credential_typed c" "gate_peer env c noise now g = Ok peer"
  proof -
    obtain t where t: "(trust_step env)\<^sup>*\<^sup>* trust t" "verify_subject env t c now = Ok ()"
        "sc_subject c = Subject_Peer peer" "sc_public_noise_key c = noise"
      by (rule gate_trust [OF gate(2)]) (use c(2) in \<open>auto simp: gate_peer_iff\<close>)
    have reach: "(trust_step env)\<^sup>*\<^sup>* (trust_new root mesh) t" using gate(1) t(1) by (rule rtranclp_trans)
    have anchor: "ts_root t = root" "ts_mesh_id t = mesh" using reachable_anchor [OF reach] by simp_all
    show ?thesis
      using subject_chain [OF reachable_rooted [OF reach], of h c now] root c(1) t(2-4) unfolding anchor by blast
  qed
  have second: "\<exists>a. \<exists>e\<in>dh_entries d. attached_at r peer generation a \<and> pe_mesh_id e = mesh \<and> pe_peer_id e = peer \<and> pe_enabled e
          \<and> at_credential_serial a \<in> insert (pe_credential_serial e) (pb_serial ` set (pe_accepted_credentials e))"
    if "fst (receive_control peer generation r) = Ok x
         \<or> fst (route_control routed r) = Ok () \<and> rt_source routed = peer \<and> rt_generation routed = generation"
  proof -
    have "validate_control_source peer generation r = Ok ()"
      using that refused_results [of peer generation r] by fastforce
    from admitted_source [OF router this] show ?thesis
      using published_listing [OF distribution _ formed] unfolding listed_serials_def by blast
  qed
  have third: "(\<exists>e\<in>dh_entries d. pe_mesh_id e = mesh \<and> pe_peer_id e = rt_source routed \<and> pe_enabled e)
       \<and> (\<exists>a. \<exists>e\<in>dh_entries d. attached_at r (rt_destination routed) (at_generation a) a
            \<and> pe_mesh_id e = mesh \<and> pe_peer_id e = rt_destination routed \<and> pe_enabled e
            \<and> at_credential_serial a \<in> insert (pe_credential_serial e) (pb_serial ` set (pe_accepted_credentials e)))"
    if ok: "routes routed r"
    using admitted_route [OF router ok] published_listing [OF distribution _ formed] unfolding listed_serials_def by blast
  show ?thesis using first second third by blast
qed

section \<open>A concrete Relay\<close>

text \<open>
  One Authority, which issued to the Peer of the sample directory the credential that the directory
  lists; the distribution key published the entry and the directory; nothing else is signed.
\<close>

definition span_authority :: authority_certificate where
  "span_authority = trust_authority\<lparr>ac_mesh_id := router_mesh\<rparr>"

definition span_subject :: subject_credential where
  "span_subject = binding_subject (hd (pe_accepted_credentials (sp_entry router_entry))) router_mesh router_peer"

definition span_signed :: "bytes \<Rightarrow> bytes \<Rightarrow> bool" where
  "span_signed key m \<longleftrightarrow> key = trust_root \<and> m = authority_transcript (authority_unsigned span_authority)
     \<or> key = replicate 32 2 \<and> m = subject_transcript (subject_unsigned span_subject)
     \<or> key = [8] \<and> (peer_entry_transcript (sp_entry router_entry) = (Ok m :: (bytes, directory_error) outcome)
          \<or> peer_revision_transcript (sd_directory router_update) = (Ok m :: (bytes, directory_error) outcome))"

definition span_env :: crypto_env where
  "span_env = router_env\<lparr>cy_verify := (\<lambda>key m _. span_signed key m), cy_verify_strict := (\<lambda>key m _. span_signed key m)\<rparr>"

definition span_history :: signing_history where
  "span_history = \<lparr>sh_log = {(key, m). span_signed key m}, sh_certified = {authority_unsigned span_authority},
     sh_issued = (\<lambda>_. {subject_unsigned span_subject}), sh_bound = (\<lambda>_. {}), sh_published = (\<lambda>_. {}),
     sh_terminated = (\<lambda>_. {})\<rparr>"

definition span_directory :: directory_history where
  "span_directory = \<lparr>dh_entries = {sp_entry router_entry}, dh_directories = {sd_directory router_update},
     dh_relays = {}, dh_topologies = {}, dh_policies = {}, dh_revocations = {}\<rparr>"

definition span_trust :: trust_set where
  "span_trust = (trust_new trust_root router_mesh)\<lparr>ts_authorities := [span_authority]\<rparr>"

lemma span_keys: "trust_root \<noteq> replicate 32 2" "trust_root \<noteq> [8]" "replicate 32 2 \<noteq> [8 :: u8]"
  by (simp_all add: trust_root_def numeral_eq_Suc)

lemma span_authority_fields:
  "ac_public_key span_authority = replicate 32 2" "ac_mesh_id span_authority = router_mesh"
  "ac_not_before span_authority = 10" "ac_not_after span_authority = 50" "ac_serial span_authority = replicate 16 4"
  "length (ac_signature span_authority) = 64"
  by (simp_all add: span_authority_def trust_authority_def)

lemma span_subject_typed: "credential_typed span_subject"
  by (simp add: credential_typed_def span_subject_def binding_subject_def router_entry_def router_mesh_def
      router_peer_def router_serial_def u64_max_def)

lemma span_history_signs: "signatures_from span_env trust_root span_history"
proof -
  have "history_typed span_history"
    using span_subject_typed
    by (simp add: history_typed_def span_history_def unsigned_authority_typed_def unsigned_subject_typed_def credential_typed_def
        subject_unsigned_def span_authority_def trust_authority_def router_mesh_def u64_max_def)
  then show ?thesis
    using span_keys
    by (auto simp: signatures_from_def span_history_def span_env_def span_signed_def signed_by_authority_def span_authority_fields)
qed

lemma span_distribution: "distribution_history span_env parse [8] span_directory"
  using span_keys router_entry_formed
  by (auto simp: distribution_history_def span_directory_def span_env_def span_signed_def distribution_signed_def
      directory_formed_def covered_items_def router_update_def router_mesh_def router_peer_def u64_max_def router_entry_def)

lemma span_trust_reachable: "(trust_step span_env)\<^sup>*\<^sup>* (trust_new trust_root router_mesh) span_trust"
proof (rule r_into_rtranclp, rule step_add)
  show "authority_typed span_authority"
    by (simp add: authority_typed_def span_authority_fields router_mesh_def u64_max_def)
  have "verify_authority span_env trust_root span_authority router_mesh 30 = Ok ()"
    by (simp add: verify_authority_iff span_env_def span_signed_def span_authority_fields router_env_def)
  then show "add_authority span_env span_authority 30 (trust_new trust_root router_mesh) = Ok span_trust"
    by (simp add: add_authority_def trust_new_def span_trust_def)
qed

lemma span_gate_admits: "gate_peer span_env span_subject (replicate 32 2) 30 (gate_new span_trust) = Ok router_peer"
proof -
  have keys: "validate_subject_keys span_env (sc_subject span_subject) (sc_identity_public_key span_subject)
      (sc_public_noise_key span_subject) (sc_wireguard_public_key span_subject) = Ok ()"
    by (simp add: validate_subject_keys_def span_subject_def binding_subject_def router_entry_def all_zero_def list_all_iff
        span_env_def router_env_def)
  have "verify_authority span_env trust_root span_authority router_mesh 30 = Ok ()"
    by (simp add: verify_authority_iff span_env_def span_signed_def span_authority_fields router_env_def)
  moreover have "verify_with_authority span_env span_subject (ac_public_key span_authority) 30 = Ok ()"
    unfolding verify_with_authority_iff keys
    by (simp add: span_env_def span_signed_def span_authority_fields router_env_def)
      (simp add: span_subject_def binding_subject_def router_entry_def)
  ultimately have "vouches span_env span_trust span_subject 30 span_authority"
    by (simp add: vouches_def span_trust_def trust_new_def)
  then have "verify_subject span_env span_trust span_subject 30 = Ok ()"
    by (auto simp: verify_subject_iff span_trust_def trust_new_def subject_admissible_def span_subject_def binding_subject_def)
  then show ?thesis
    by (simp add: gate_peer_iff gate_new_def) (simp add: span_subject_def binding_subject_def router_entry_def)
qed

theorem relay_end_to_end_witness:
  "gate_peer span_env span_subject (replicate 32 2) 30 (gate_new span_trust) = Ok router_peer
   \<and> fst (receive_control router_peer 7 router_waiting) = Ok (Some 42)
   \<and> subject_unsigned span_subject \<in> sh_issued span_history (authority_unsigned span_authority)
   \<and> (\<exists>e\<in>dh_entries span_directory. pe_peer_id e = router_peer \<and> pe_enabled e)
   \<and> routes router_message router_waiting \<and> (\<exists>a. attached_at router_waiting (rt_destination router_message) (at_generation a) a)"
proof -
  have "verify_peers span_env [8] router_update router_mesh None = Ok ()"
    by (rule router_update_verifies) (simp_all add: span_env_def router_env_def span_signed_def)
  note run = router_sample_run [OF this]
  have formed: "\<forall>u. Router_Directory u \<in> set router_events \<longrightarrow> list_all (\<lambda>s. entry_formed (sp_entry s)) (pd_entries (sd_directory u))"
    using router_entry_formed by (simp add: router_events_def router_update_def)
  note both = relay_end_to_end [OF span_history_signs span_distribution span_trust_reachable rtranclp.rtrancl_refl
      router_new_start run formed, where c = span_subject and noise = "replicate 32 2" and now = 30 and peer = router_peer
      and generation = 7 and x = "Some 42" and routed = router_message]
  have received: "fst (receive_control router_peer 7 router_waiting) = Ok (Some 42)" using router_steps(3) by simp
  have "\<exists>a\<in>sh_certified span_history. subject_unsigned span_subject \<in> sh_issued span_history a"
    using both span_subject_typed span_gate_admits by blast
  moreover have "\<exists>e\<in>dh_entries span_directory. pe_peer_id e = router_peer \<and> pe_enabled e"
    using both received by blast
  moreover have "\<exists>a. attached_at router_waiting (rt_destination router_message) (at_generation a) a"
    using both router_message_routes by blast
  ultimately show ?thesis using span_gate_admits received router_message_routes by (simp add: span_history_def)
qed

end
